(* ===== verification/Prelude.thy ===== *)
theory Prelude
  imports Main "HOL-Library.Word"
begin

unbundle bit_operations_syntax

text \<open>
  Shared vocabulary of the development: the machine types of the C code, the shape of an
  operation that can fail and always leaves a state behind, and the facts on words, digits
  and byte lists that the component theories use.
\<close>

section \<open>Types\<close>

type_synonym byte = "8 word"
type_synonym u16 = "16 word"
type_synonym u32 = "32 word"
type_synonym u64 = "64 word"
type_synonym size_t = "64 word"

named_theorems word_to_nat \<open>unsigned readings of the word operations used by the code\<close>
named_theorems stream_simps \<open>defining equations of the stream operations\<close>

section \<open>Sequencing of fallible operations\<close>

text \<open>
  A C function that returns a success flag, writes its result through a pointer and changes
  an object passed by pointer is a function returning \<open>('a option \<times> 's)\<close>: \<open>None\<close> is the false
  (or zero) return, and the state is returned in both cases, because the code leaves partial
  effects behind on failure.
\<close>

definition and_then :: "'a option \<times> 's \<Rightarrow> ('a \<Rightarrow> 's \<Rightarrow> 'b option \<times> 's) \<Rightarrow> 'b option \<times> 's" where
  "and_then r f = (case r of (None, s) \<Rightarrow> (None, s) | (Some a, s) \<Rightarrow> f a s)"

lemma and_then_simps [simp]:
  "and_then (None, s) f = (None, s)"
  "and_then (Some a, s) f = f a s"
  by (simp_all add: and_then_def)

lemma and_then_SomeE:
  assumes "and_then r f = (Some b, s')"
  obtains a s where "r = (Some a, s)" and "f a s = (Some b, s')"
  using assms by (auto simp: and_then_def split: prod.splits option.splits)

lemma and_then_assoc: "and_then (and_then r f) g = and_then r (\<lambda>a s. and_then (f a s) g)"
  by (auto simp: and_then_def split: prod.splits option.splits)

lemma and_then_cong [fundef_cong]:
  assumes "r = r'" and "\<And>a s. r' = (Some a, s) \<Longrightarrow> f a s = g a s"
  shows "and_then r f = and_then r' g"
  using assms by (auto simp: and_then_def split: prod.splits option.splits)

section \<open>Words and their unsigned values\<close>

lemma unat_and_mask [word_to_nat]:
  fixes w :: "'a::len word"
  shows "unat (w AND mask n) = unat w mod 2 ^ n"
proof -
  have "unat (take_bit n w) = take_bit n (unat w)"
    by (rule unsigned_take_bit_eq)
  then show ?thesis
    by (simp only: take_bit_eq_mask [symmetric] take_bit_eq_mod [of n "unat w"])
qed

lemma unat_and_7F [word_to_nat]: "unat (b AND 0x7F :: byte) = unat b mod 128"
  using unat_and_mask [of b 7] by (simp add: mask_eq_exp_minus_1)

lemma unat_drop_bit [word_to_nat]:
  fixes w :: "'a::len word"
  shows "unat (drop_bit n w) = unat w div 2 ^ n"
  by (simp only: unat_drop_bit_eq drop_bit_eq_div [of n "unat w"])

lemma unat_push_bit [word_to_nat]:
  fixes w :: "'a::len word"
  shows "unat (push_bit n w) = (unat w * 2 ^ n) mod 2 ^ LENGTH('a)"
  by (simp only: unsigned_push_bit_eq take_bit_eq_mod [where ?'a = nat] push_bit_eq_mult [of n "unat w"])

lemma bit_iff_odd_unat:
  fixes w :: "'a::len word"
  shows "bit w n \<longleftrightarrow> odd (unat w div 2 ^ n)"
proof -
  have "bit (unat w) n \<longleftrightarrow> bit w n"
    by (simp add: bit_unsigned_iff)
  then show ?thesis
    by (simp add: bit_iff_odd [of "unat w"])
qed

lemma and_80_eq_0_iff: "(b AND 0x80 :: byte) = 0 \<longleftrightarrow> unat b < 128"
proof -
  have "(b AND 0x80 = 0) = (\<not> bit b 7)"
    using and_exp_eq_0_iff_not_bit [of b 7] by simp
  also have "\<dots> = (unat b < 128)"
  proof -
    have "unat b < 256" using unsigned_less [of b] by simp
    then have "unat b div 128 < 2" by (simp add: div_less_iff_less_mult)
    then consider "unat b div 128 = 0" | "unat b div 128 = 1" by linarith
    then have "odd (unat b div 128) \<longleftrightarrow> 128 \<le> unat b" by cases auto
    then show ?thesis by (simp add: bit_iff_odd_unat not_le)
  qed
  finally show ?thesis .
qed

text \<open>Appending digits above those already read is an addition.\<close>

lemma or_push_bit_eq_add:
  fixes x y :: "'a::len word"
  assumes "unat x < 2 ^ n"
  shows "x OR push_bit n y = x + push_bit n y"
proof -
  have "x AND push_bit n y = 0"
  proof (rule bit_word_eqI)
    fix k assume "k < LENGTH('a)"
    have "\<not> bit x k" if "n \<le> k"
    proof -
      have "unat x < 2 ^ k" using assms that
        by (meson less_le_trans one_le_numeral power_increasing)
      then show ?thesis by (simp add: bit_iff_odd_unat)
    qed
    then show "bit (x AND push_bit n y) k = bit (0 :: 'a word) k"
      by (auto simp: bit_and_iff bit_push_bit_iff)
  qed
  then show ?thesis
    by (simp add: disjunctive_add_eq_or)
qed

lemma unat_or_push_bit:
  fixes x y :: "'a::len word"
  assumes "unat x < 2 ^ n" and "unat x + unat y * 2 ^ n < 2 ^ LENGTH('a)"
  shows "unat (x OR push_bit n y) = unat x + unat y * 2 ^ n"
proof -
  have "unat (push_bit n y) = unat y * 2 ^ n"
    using assms(2) by (simp add: unat_push_bit)
  then show ?thesis
    using assms by (simp add: or_push_bit_eq_add unat_word_ariths)
qed

lemma unat_ucast_less [word_to_nat]:
  fixes w :: "'a::len word"
  assumes "unat w < 2 ^ LENGTH('b)"
  shows "unat (ucast w :: 'b::len word) = unat w"
  using assms by (simp add: unsigned_ucast_eq take_bit_eq_mod)

lemma unat_ucast_mod:
  fixes w :: "'a::len word"
  shows "unat (ucast w :: 'b::len word) = unat w mod 2 ^ LENGTH('b)"
  by (simp add: unsigned_ucast_eq take_bit_eq_mod)

lemma unat_of_nat_less:
  assumes "n < 2 ^ LENGTH('a)"
  shows "unat (of_nat n :: 'a::len word) = n"
  using assms by (simp add: unat_of_nat)

lemma unat_lt_2p: "unat (w :: 'a::len word) < 2 ^ LENGTH('a)"
  by (rule unsigned_less)

lemma byte_lt_256 [simp]: "unat (b :: byte) < 256"
  using unsigned_less [of b] by simp

lemma unat_byte_le: "unat (b :: byte) < n" if "256 \<le> n"
  using byte_lt_256 [of b] that by linarith

lemma unat_ucast_byte [simp]:
  "unat (ucast (b :: byte) :: u64) = unat b" "unat (ucast b :: u32) = unat b"
  by (rule unat_ucast_less, rule unat_byte_le, simp)+

lemma high_byte: "unat b mod 128 + 128 = unat b" if "128 \<le> unat (b :: byte)"
proof -
  have "unat b - 128 < 128" using byte_lt_256 [of b] that by linarith
  moreover have "unat b = (unat b - 128) + 128" using that by simp
  ultimately show ?thesis by (metis mod_add_self2 mod_less)
qed

lemma word_of_unatI: "unat w = n \<Longrightarrow> w = of_nat n"
  by auto

lemma unat_u32_lt: "unat (x :: u32) < 4294967296"
  using unsigned_less [of x] by simp

lemma unat_u64_lt: "unat (x :: u64) < 18446744073709551616"
  using unsigned_less [of x] by simp

text \<open>A byte given by its value; kept folded so that sums of digits stay visible.\<close>

definition byte_of :: "nat \<Rightarrow> byte" where
  "byte_of n = of_nat n"

lemma unat_byte_of [simp]: "unat (byte_of n) = n mod 256"
  by (simp add: byte_of_def unat_of_nat)

lemma byte_of_unat [simp]: "byte_of (unat b) = b"
  by (simp add: byte_of_def)

lemma byte_eq_iff: "a = b \<longleftrightarrow> unat a = unat b" for a b :: byte
  by (rule word_unat_eq_iff)

lemma split_digit:
  fixes n :: nat
  shows "n * 2 ^ p = (n mod 2 ^ w) * 2 ^ p + (n div 2 ^ w) * 2 ^ (p + w)"
proof -
  have "(k + 2 ^ w * q) * 2 ^ p = k * 2 ^ p + q * 2 ^ (p + w)" for k q :: nat
    by (simp add: power_add algebra_simps)
  from this [of "n mod 2 ^ w" "n div 2 ^ w"] show ?thesis by simp
qed

lemma bit_split: "a < 2 ^ k \<Longrightarrow> bit (a + 2 ^ k * b) m \<longleftrightarrow> (if m < k then bit a m else bit b (m - k))" for a b :: nat
proof (cases "m < k")
  case True
  then have "a + 2 ^ k * b = a + 2 ^ m * (2 * (2 ^ (k - m - 1) * b))"
    by (simp flip: power_Suc power_add mult.assoc)
  then have "(a + 2 ^ k * b) div 2 ^ m = a div 2 ^ m + 2 * (2 ^ (k - m - 1) * b)"
    by (simp only: div_mult_self2 power_not_zero zero_neq_numeral not_False_eq_True)
  then show ?thesis using True by (simp add: bit_iff_odd)
next
  case False
  assume a: "a < 2 ^ k"
  have "(a + 2 ^ k * b) div 2 ^ m = (a + 2 ^ k * b) div 2 ^ k div 2 ^ (m - k)"
    using False by (simp only: div_mult2_eq [symmetric] power_add [symmetric] le_add_diff_inverse not_less)
  also have "(a + 2 ^ k * b) div 2 ^ k = b" using a by simp
  finally show ?thesis using False by (simp add: bit_iff_odd)
qed

end
