(* ===== verification/Pb_Stream.thy ===== *)
theory Pb_Stream
  imports Prelude
begin

text \<open>
  The stream layer of nanopb (\<open>pb_istream_t\<close> of pb_decode.c and \<open>pb_ostream_t\<close> of
  pb_encode.c). A stream couples a callback with the state pointer that only the callback
  reads: either the library's own memory callback (\<open>buf_read\<close>, \<open>buf_write\<close>) with the memory
  at its pointer, or a callback of the library's user, a parameter here, with a state of
  the user's own type \<open>'u\<close>. Sizes are \<open>size_t\<close> words, so the subtractions and additions of
  the code wrap as they do in C.
\<close>

section \<open>Input streams\<close>

text \<open>
  A user callback receives the number of bytes wanted and returns the bytes it stored in
  the caller's buffer, or \<open>None\<close> for its false return.
\<close>

datatype 'u pb_source =
    Buf_read "byte list"
  | User_read "'u \<Rightarrow> nat \<Rightarrow> byte list option \<times> 'u" 'u

record 'u pb_istream =
  source :: "'u pb_source"
  bytes_left :: size_t
  errmsg :: "string option"

text \<open>\<open>PB_RETURN_ERROR\<close> keeps the first error message and returns false.\<close>

definition PB_RETURN_ERROR :: "'u pb_istream \<Rightarrow> string \<Rightarrow> 'a option \<times> 'u pb_istream" where
  "PB_RETURN_ERROR s msg =
     (None, s\<lparr>errmsg := (case errmsg s of None \<Rightarrow> Some msg | Some m \<Rightarrow> Some m)\<rparr>)"

definition buf_read :: "byte list \<Rightarrow> nat \<Rightarrow> byte list \<times> byte list" where
  "buf_read m count = (take count m, drop count m)"

text \<open>The indirect call \<open>stream->callback(stream, buf, count)\<close>.\<close>

definition in_callback :: "'u pb_istream \<Rightarrow> nat \<Rightarrow> byte list option \<times> 'u pb_istream" where
  "in_callback s count =
     (case source s of
        Buf_read m \<Rightarrow> (let (bs, m') = buf_read m count in (Some bs, s\<lparr>source := Buf_read m'\<rparr>))
      | User_read f u \<Rightarrow> (let (r, u') = f u count in (r, s\<lparr>source := User_read f u'\<rparr>)))"

fun is_buf_read :: "'u pb_source \<Rightarrow> bool" where
  "is_buf_read (Buf_read m) = True"
| "is_buf_read (User_read f u) = False"

text \<open>
  \<open>pb_read\<close> is written as three definitions: the transfer that a non-null buffer gets, the
  loop that skips input sixteen bytes at a time when the buffer is null and the callback is
  the user's, and the function itself.
\<close>

definition pb_read_transfer :: "'u pb_istream \<Rightarrow> size_t \<Rightarrow> byte list option \<times> 'u pb_istream" where
  "pb_read_transfer s count =
     (if count = 0 then (Some [], s)
      else if bytes_left s < count then PB_RETURN_ERROR s ''end-of-stream''
      else case in_callback s (unat count) of
             (None, s') \<Rightarrow> PB_RETURN_ERROR s' ''io error''
           | (Some bs, s') \<Rightarrow> (Some bs, s'\<lparr>bytes_left := bytes_left s' - count\<rparr>))"

function pb_read_skip :: "'u pb_istream \<Rightarrow> size_t \<Rightarrow> byte list option \<times> 'u pb_istream" where
  "pb_read_skip s count =
     (if count > 16
      then and_then (pb_read_transfer s 16) (\<lambda>_ s'. pb_read_skip s' (count - 16))
      else pb_read_transfer s count)"
  by pat_completeness auto
termination
  by (relation "measure (\<lambda>(s, count). unat count)")
     (auto simp: word_less_nat_alt unat_sub_if')

definition pb_read :: "'u pb_istream \<Rightarrow> bool \<Rightarrow> size_t \<Rightarrow> byte list option \<times> 'u pb_istream" where
  "pb_read s buf_null count =
     (if count = 0 then (Some [], s)
      else if buf_null \<and> \<not> is_buf_read (source s) then pb_read_skip s count
      else pb_read_transfer s count)"

definition pb_readbyte :: "'u pb_istream \<Rightarrow> byte option \<times> 'u pb_istream" where
  "pb_readbyte s =
     (if bytes_left s = 0 then PB_RETURN_ERROR s ''end-of-stream''
      else case in_callback s 1 of
             (None, s') \<Rightarrow> PB_RETURN_ERROR s' ''io error''
           | (Some bs, s') \<Rightarrow> (Some (hd bs), s'\<lparr>bytes_left := bytes_left s' - 1\<rparr>))"

definition pb_istream_from_buffer :: "byte list \<Rightarrow> size_t \<Rightarrow> 'u pb_istream" where
  "pb_istream_from_buffer buf bufsize =
     \<lparr>source = Buf_read buf, bytes_left = bufsize, errmsg = None\<rparr>"

section \<open>Output streams\<close>

text \<open>
  \<open>Buf_write mem pos\<close> is the memory callback: \<open>mem\<close> is the whole destination buffer and
  \<open>pos\<close> the offset of the state pointer in it. \<open>No_callback\<close> is a sizing stream.
\<close>

datatype 'u pb_sink =
    No_callback
  | Buf_write "byte list" nat
  | User_write "'u \<Rightarrow> byte list \<Rightarrow> bool \<times> 'u" 'u

record 'u pb_ostream =
  sink :: "'u pb_sink"
  max_size :: size_t
  bytes_written :: size_t
  oerrmsg :: "string option"

definition PB_RETURN_OERROR :: "'u pb_ostream \<Rightarrow> string \<Rightarrow> 'a option \<times> 'u pb_ostream" where
  "PB_RETURN_OERROR s msg =
     (None, s\<lparr>oerrmsg := (case oerrmsg s of None \<Rightarrow> Some msg | Some m \<Rightarrow> Some m)\<rparr>)"

definition buf_write :: "byte list \<Rightarrow> nat \<Rightarrow> byte list \<Rightarrow> byte list \<times> nat" where
  "buf_write mem pos bs = (take pos mem @ bs @ drop (pos + length bs) mem, pos + length bs)"

definition out_callback :: "'u pb_ostream \<Rightarrow> byte list \<Rightarrow> bool \<times> 'u pb_ostream" where
  "out_callback s bs =
     (case sink s of
        No_callback \<Rightarrow> (True, s)
      | Buf_write mem pos \<Rightarrow>
          (let (mem', pos') = buf_write mem pos bs in (True, s\<lparr>sink := Buf_write mem' pos'\<rparr>))
      | User_write f u \<Rightarrow> (let (ok, u') = f u bs in (ok, s\<lparr>sink := User_write f u'\<rparr>)))"

fun is_sizing :: "'u pb_sink \<Rightarrow> bool" where
  "is_sizing No_callback = True"
| "is_sizing (Buf_write mem pos) = False"
| "is_sizing (User_write f u) = False"

definition pb_write :: "'u pb_ostream \<Rightarrow> byte list \<Rightarrow> size_t \<Rightarrow> unit option \<times> 'u pb_ostream" where
  "pb_write s buf count =
     (if count > 0 \<and> \<not> is_sizing (sink s) then
        if bytes_written s + count < bytes_written s \<or> bytes_written s + count > max_size s
        then PB_RETURN_OERROR s ''stream full''
        else case out_callback s (take (unat count) buf) of
               (False, s') \<Rightarrow> PB_RETURN_OERROR s' ''io error''
             | (True, s') \<Rightarrow> (Some (), s'\<lparr>bytes_written := bytes_written s' + count\<rparr>)
      else (Some (), s\<lparr>bytes_written := bytes_written s + count\<rparr>))"

definition pb_ostream_from_buffer :: "byte list \<Rightarrow> size_t \<Rightarrow> 'u pb_ostream" where
  "pb_ostream_from_buffer buf bufsize =
     \<lparr>sink = Buf_write buf 0, max_size = bufsize, bytes_written = 0, oerrmsg = None\<rparr>"

definition PB_OSTREAM_SIZING :: "'u pb_ostream" where
  "PB_OSTREAM_SIZING =
     \<lparr>sink = No_callback, max_size = 0, bytes_written = 0, oerrmsg = None\<rparr>"

section \<open>Reading\<close>

text \<open>
  A memory stream is well formed when it never claims more bytes than the memory behind its
  pointer holds. Substreams share the pointer and claim less.
\<close>

definition wf_istream :: "'u pb_istream \<Rightarrow> bool" where
  "wf_istream s =
     (case source s of Buf_read m \<Rightarrow> unat (bytes_left s) \<le> length m | User_read f u \<Rightarrow> True)"

definition buf_istream :: "byte list \<Rightarrow> 'u pb_istream \<Rightarrow> bool" where
  "buf_istream m s \<longleftrightarrow> source s = Buf_read m"

lemma PB_RETURN_ERROR_fst [simp]: "fst (PB_RETURN_ERROR s msg) = None"
  by (simp add: PB_RETURN_ERROR_def)

lemma PB_RETURN_ERROR_snd_simps [simp]:
  "source (snd (PB_RETURN_ERROR s msg)) = source s"
  "bytes_left (snd (PB_RETURN_ERROR s msg)) = bytes_left s"
  by (simp_all add: PB_RETURN_ERROR_def)

lemma PB_RETURN_ERROR_neq_Some [simp]:
  "PB_RETURN_ERROR s msg \<noteq> (Some a, s')" "(Some a, s') \<noteq> PB_RETURN_ERROR s msg"
  by (simp_all add: PB_RETURN_ERROR_def)

lemma in_callback_left [simp]:
  "in_callback s n = (r, s') \<Longrightarrow> bytes_left s' = bytes_left s"
  by (auto simp: in_callback_def Let_def split: pb_source.splits prod.splits)

lemma pb_readbyte_less:
  assumes "pb_readbyte s = (Some b, s')"
  shows "bytes_left s' = bytes_left s - 1" and "unat (bytes_left s') < unat (bytes_left s)"
proof -
  have *: "bytes_left s' = bytes_left s - 1 \<and> bytes_left s \<noteq> 0"
    using assms by (auto simp: pb_readbyte_def split: if_splits prod.splits option.splits)
  then show "bytes_left s' = bytes_left s - 1" ..
  from * have "unat (bytes_left s) \<noteq> 0"
    by (simp add: unat_eq_zero)
  with * show "unat (bytes_left s') < unat (bytes_left s)"
    by (simp add: unat_sub_if' word_le_nat_alt)
qed

lemma pb_readbyte_Buf:
  assumes "source s = Buf_read (b # m)" and "bytes_left s \<noteq> 0"
  shows "pb_readbyte s = (Some b, s\<lparr>source := Buf_read m, bytes_left := bytes_left s - 1\<rparr>)"
  using assms by (simp add: pb_readbyte_def in_callback_def buf_read_def)

lemma pb_read_transfer_Buf:
  assumes "source s = Buf_read m" and "count \<le> bytes_left s"
  shows "pb_read_transfer s count =
    (Some (take (unat count) m),
     s\<lparr>source := Buf_read (drop (unat count) m), bytes_left := bytes_left s - count\<rparr>)"
  using assms
  by (cases s) (simp add: pb_read_transfer_def in_callback_def buf_read_def leD)

lemma pb_read_Buf:
  assumes "source s = Buf_read m" and "count \<le> bytes_left s"
  shows "pb_read s nul count =
    (Some (take (unat count) m),
     s\<lparr>source := Buf_read (drop (unat count) m), bytes_left := bytes_left s - count\<rparr>)"
  using pb_read_transfer_Buf [OF assms] assms(1)
  by (simp add: pb_read_def pb_read_transfer_def split: if_splits)

lemma pb_read_Buf_short:
  assumes "source s = Buf_read m" and "bytes_left s < count"
  shows "pb_read s nul count = PB_RETURN_ERROR s ''end-of-stream''"
  using assms by (cases "count = 0") (simp_all add: pb_read_def pb_read_transfer_def)

lemma unat_minus_le: "unat (a - b :: size_t) + unat b = unat a" if "b \<le> a"
  using that by (simp add: unat_sub_if' word_le_nat_alt)

lemma pb_read_transfer_left:
  assumes "pb_read_transfer s count = (Some bs, s')"
  shows "unat (bytes_left s') + unat count = unat (bytes_left s)"
  using assms
  by (auto simp: pb_read_transfer_def linorder_not_less unat_minus_le
      split: if_splits prod.splits option.splits)

lemma pb_read_skip_left:
  "pb_read_skip s count = (Some bs, s') \<Longrightarrow>
   unat (bytes_left s') + unat count = unat (bytes_left s)"
proof (induction s count rule: pb_read_skip.induct)
  case (1 s count)
  show ?case
  proof (cases "count > 16")
    case True
    with "1.prems" obtain a s1 where
      s1: "pb_read_transfer s 16 = (Some a, s1)" and s': "pb_read_skip s1 (count - 16) = (Some bs, s')"
      by (auto simp: pb_read_skip.simps [of s count] elim: and_then_SomeE)
    have "unat (bytes_left s') + unat (count - 16) = unat (bytes_left s1)"
      by (rule "1.IH" [OF True s1 s'])
    moreover have "unat (bytes_left s1) + 16 = unat (bytes_left s)"
      using pb_read_transfer_left [OF s1] by simp
    moreover have "unat (count - 16) + 16 = unat count"
      using unat_minus_le [of 16 count] True by simp
    ultimately show ?thesis by linarith
  next
    case False
    with "1.prems" show ?thesis
      by (simp add: pb_read_skip.simps [of s count] pb_read_transfer_left)
  qed
qed

text \<open>A successful read accounts for exactly the bytes asked for, whatever the callback does.\<close>

lemma pb_read_left:
  assumes "pb_read s nul count = (Some bs, s')"
  shows "unat (bytes_left s') + unat count = unat (bytes_left s)"
  using assms
  by (auto simp: pb_read_def pb_read_skip_left pb_read_transfer_left split: if_splits)

end
