(* ===== verification/Pb_Wire.thy ===== *)
theory Pb_Wire
  imports Pb_Stream
begin

text \<open>
  The wire primitives of nanopb: variable-length integers, zig-zag integers, fixed-width
  integers, tags, length-delimited substreams and the skipping of unknown fields, on the
  decoding side (pb_decode.c) and the encoding side (pb_encode.c).
\<close>

section \<open>Decoding\<close>

text \<open>
  The loop of \<open>pb_decode_varint\<close>. \<open>bitpos\<close> is a \<open>uint_fast8_t\<close>, eight bits wide on
  the platforms the pod is built for.
\<close>

function pb_decode_varint_loop ::
  "'u pb_istream \<Rightarrow> u64 \<Rightarrow> byte \<Rightarrow> u64 option \<times> 'u pb_istream" where
  "pb_decode_varint_loop s result bitpos =
     (if bitpos \<ge> 64 then PB_RETURN_ERROR s ''varint overflow''
      else and_then (pb_readbyte s) (\<lambda>b s'.
        let result' = result OR push_bit (unat bitpos) (ucast (b AND 0x7F)) in
        if b AND 0x80 \<noteq> 0 then pb_decode_varint_loop s' result' (bitpos + 7)
        else (Some result', s')))"
  by pat_completeness auto
termination
  by (relation "measure (\<lambda>(s, _). unat (bytes_left s))") (auto dest: pb_readbyte_less(2))

definition pb_decode_varint :: "'u pb_istream \<Rightarrow> u64 option \<times> 'u pb_istream" where
  "pb_decode_varint s = pb_decode_varint_loop s 0 0"

text \<open>
  The do-while loop of the multibyte case of \<open>pb_decode_varint32_eof\<close>: it returns the
  accumulated result with the last byte and the bit position after it.
\<close>

function pb_decode_varint32_loop ::
  "'u pb_istream \<Rightarrow> u32 \<Rightarrow> byte \<Rightarrow> (u32 \<times> byte \<times> byte) option \<times> 'u pb_istream" where
  "pb_decode_varint32_loop s result bitpos =
     and_then (pb_readbyte s) (\<lambda>b s'.
       if bitpos \<ge> 32 \<and>
          b AND 0x7F \<noteq> 0 \<and>
          (drop_bit 31 result = 0 \<or> b \<noteq> (if bitpos < 63 then 0xFF else 0x01))
       then PB_RETURN_ERROR s' ''varint overflow''
       else
         let result' = (if bitpos \<ge> 32 then result
                        else result OR push_bit (unat bitpos) (ucast (b AND 0x7F)));
             bitpos' = bitpos + 7
         in if b AND 0x80 \<noteq> 0 then pb_decode_varint32_loop s' result' bitpos'
            else (Some (result', b, bitpos'), s'))"
  by pat_completeness auto
termination
  by (relation "measure (\<lambda>(s, _). unat (bytes_left s))") (auto dest: pb_readbyte_less(2))

text \<open>
  \<open>pb_decode_varint32_eof\<close>: the flag is what the function stores through its \<open>eof\<close>
  argument (false when it stores nothing).
\<close>

definition pb_decode_varint32_eof ::
  "'u pb_istream \<Rightarrow> (u32 option \<times> bool) \<times> 'u pb_istream" where
  "pb_decode_varint32_eof s =
     (case pb_readbyte s of
        (None, s') \<Rightarrow> ((None, bytes_left s' = 0), s')
      | (Some b, s') \<Rightarrow>
          if b AND 0x80 = 0 then ((Some (ucast b), False), s')
          else case pb_decode_varint32_loop s' (ucast (b AND 0x7F)) 7 of
                 (None, s2) \<Rightarrow> ((None, False), s2)
               | (Some (result, b', bitpos), s2) \<Rightarrow>
                   if bitpos = 35 \<and> b' AND 0x70 \<noteq> 0
                   then (let (r, s3) = PB_RETURN_ERROR s2 ''varint overflow'' in ((r, False), s3))
                   else ((Some result, False), s2))"

definition pb_decode_varint32 :: "'u pb_istream \<Rightarrow> u32 option \<times> 'u pb_istream" where
  "pb_decode_varint32 s = (let ((r, _), s') = pb_decode_varint32_eof s in (r, s'))"

function pb_skip_varint :: "'u pb_istream \<Rightarrow> unit option \<times> 'u pb_istream" where
  "pb_skip_varint s =
     and_then (pb_read s False 1) (\<lambda>bs s'.
       if hd bs AND 0x80 \<noteq> 0 then pb_skip_varint s' else (Some (), s'))"
  by pat_completeness auto
termination
  by (relation "measure (\<lambda>s. unat (bytes_left s))") (auto dest!: pb_read_left)

definition pb_skip_string :: "'u pb_istream \<Rightarrow> unit option \<times> 'u pb_istream" where
  "pb_skip_string s =
     and_then (pb_decode_varint32 s) (\<lambda>len s'.
       and_then (pb_read s' True (ucast len)) (\<lambda>_ s2. (Some (), s2)))"

text \<open>Wire types are the values 0 to 7 of the low three bits of a tag; four are named.\<close>

type_synonym pb_wire_type_t = u32

definition PB_WT_VARINT :: pb_wire_type_t where "PB_WT_VARINT = 0"
definition PB_WT_64BIT :: pb_wire_type_t where "PB_WT_64BIT = 1"
definition PB_WT_STRING :: pb_wire_type_t where "PB_WT_STRING = 2"
definition PB_WT_32BIT :: pb_wire_type_t where "PB_WT_32BIT = 5"

text \<open>\<open>pb_decode_tag\<close> returns the wire type and tag, and the value stored in \<open>*eof\<close>.\<close>

definition pb_decode_tag ::
  "'u pb_istream \<Rightarrow> ((pb_wire_type_t \<times> u32) option \<times> bool) \<times> 'u pb_istream" where
  "pb_decode_tag s =
     (case pb_decode_varint32_eof s of
        ((None, eof), s') \<Rightarrow> ((None, eof), s')
      | ((Some temp, eof), s') \<Rightarrow>
          if temp = 0 then ((None, True), s')
          else ((Some (temp AND 7, drop_bit 3 temp), eof), s'))"

definition pb_skip_field :: "'u pb_istream \<Rightarrow> pb_wire_type_t \<Rightarrow> unit option \<times> 'u pb_istream" where
  "pb_skip_field s wire_type =
     (if wire_type = PB_WT_VARINT then pb_skip_varint s
      else if wire_type = PB_WT_64BIT then and_then (pb_read s True 8) (\<lambda>_ s'. (Some (), s'))
      else if wire_type = PB_WT_STRING then pb_skip_string s
      else if wire_type = PB_WT_32BIT then and_then (pb_read s True 4) (\<lambda>_ s'. (Some (), s'))
      else PB_RETURN_ERROR s ''invalid wire_type'')"

text \<open>
  \<open>read_raw_value\<close> returns the bytes it stored in \<open>buf\<close>; their number is the value it
  leaves in \<open>*size\<close>. \<open>size\<close> counts the bytes of the varint loop as they are read.
\<close>

function read_raw_varint ::
  "'u pb_istream \<Rightarrow> size_t \<Rightarrow> size_t \<Rightarrow> byte list \<Rightarrow> byte list option \<times> 'u pb_istream" where
  "read_raw_varint s max_sz sz acc =
     (let sz' = sz + 1 in
      if sz' > max_sz then (None, s)
      else and_then (pb_read s False 1) (\<lambda>bs s'.
             if hd bs AND 0x80 \<noteq> 0 then read_raw_varint s' max_sz sz' (acc @ [hd bs])
             else (Some (acc @ [hd bs]), s')))"
  by pat_completeness auto
termination
  by (relation "measure (\<lambda>(s, _). unat (bytes_left s))") (auto dest!: pb_read_left)

definition read_raw_value ::
  "'u pb_istream \<Rightarrow> pb_wire_type_t \<Rightarrow> size_t \<Rightarrow> byte list option \<times> 'u pb_istream" where
  "read_raw_value s wire_type max_sz =
     (if wire_type = PB_WT_VARINT then read_raw_varint s max_sz 0 []
      else if wire_type = PB_WT_64BIT then pb_read s False 8
      else if wire_type = PB_WT_32BIT then pb_read s False 4
      else PB_RETURN_ERROR s ''invalid wire_type'')"

text \<open>\<open>pb_make_string_substream\<close> returns the substream; the parent is the state.\<close>

definition pb_make_string_substream ::
  "'u pb_istream \<Rightarrow> 'u pb_istream option \<times> 'u pb_istream" where
  "pb_make_string_substream s =
     and_then (pb_decode_varint32 s) (\<lambda>sz s'.
       if bytes_left s' < ucast sz then PB_RETURN_ERROR s' ''parent stream too short''
       else (Some (s'\<lparr>bytes_left := ucast sz\<rparr>), s'\<lparr>bytes_left := bytes_left s' - ucast sz\<rparr>))"

definition pb_close_string_substream ::
  "'u pb_istream \<Rightarrow> 'u pb_istream \<Rightarrow> unit option \<times> 'u pb_istream" where
  "pb_close_string_substream s sub =
     (case (if bytes_left sub \<noteq> 0 then pb_read sub True (bytes_left sub) else (Some [], sub)) of
        (None, _) \<Rightarrow> (None, s)
      | (Some _, sub') \<Rightarrow> (Some (), s\<lparr>source := source sub', errmsg := errmsg sub'\<rparr>))"

definition pb_decode_svarint :: "'u pb_istream \<Rightarrow> u64 option \<times> 'u pb_istream" where
  "pb_decode_svarint s =
     and_then (pb_decode_varint s) (\<lambda>value s'.
       if value AND 1 \<noteq> 0 then (Some (NOT (drop_bit 1 value)), s')
       else (Some (drop_bit 1 value), s'))"

definition pb_decode_fixed32 :: "'u pb_istream \<Rightarrow> u32 option \<times> 'u pb_istream" where
  "pb_decode_fixed32 s =
     and_then (pb_read s False 4) (\<lambda>bs s'.
       (Some (push_bit 0 (ucast (bs ! 0)) OR push_bit 8 (ucast (bs ! 1)) OR
              push_bit 16 (ucast (bs ! 2)) OR push_bit 24 (ucast (bs ! 3))), s'))"

definition pb_decode_fixed64 :: "'u pb_istream \<Rightarrow> u64 option \<times> 'u pb_istream" where
  "pb_decode_fixed64 s =
     and_then (pb_read s False 8) (\<lambda>bs s'.
       (Some (push_bit 0 (ucast (bs ! 0)) OR push_bit 8 (ucast (bs ! 1)) OR
              push_bit 16 (ucast (bs ! 2)) OR push_bit 24 (ucast (bs ! 3)) OR
              push_bit 32 (ucast (bs ! 4)) OR push_bit 40 (ucast (bs ! 5)) OR
              push_bit 48 (ucast (bs ! 6)) OR push_bit 56 (ucast (bs ! 7))), s'))"

section \<open>Encoding\<close>

text \<open>The buffer that the loop of \<open>pb_encode_varint\<close> fills, before its last byte is fixed.\<close>

function varint_buffer :: "u64 \<Rightarrow> byte list" where
  "varint_buffer value =
     (if value = 0 then []
      else ucast ((value AND 0x7F) OR 0x80) # varint_buffer (drop_bit 7 value))"
  by pat_completeness auto
termination
proof (relation "measure unat", goal_cases)
  case 1
  show ?case by simp
next
  case (2 v)
  then have "0 < unat v" by (simp add: unat_gt_0)
  then show ?case by (simp only: in_measure unat_drop_bit) simp
qed

definition pb_encode_varint :: "'u pb_ostream \<Rightarrow> u64 \<Rightarrow> unit option \<times> 'u pb_ostream" where
  "pb_encode_varint s value =
     (if value \<le> 0x7F then pb_write s [ucast value] 1
      else let buffer = varint_buffer value;
               i = length buffer
           in pb_write s (buffer[i - 1 := buffer ! (i - 1) AND 0x7F]) (of_nat i))"

text \<open>\<open>value\<close> is an \<open>int64_t\<close>, kept as its two's complement word.\<close>

definition pb_encode_svarint :: "'u pb_ostream \<Rightarrow> u64 \<Rightarrow> unit option \<times> 'u pb_ostream" where
  "pb_encode_svarint s value =
     (let zigzagged = (if sint value < 0 then NOT (push_bit 1 value) else push_bit 1 value)
      in pb_encode_varint s zigzagged)"

definition pb_encode_fixed32 :: "'u pb_ostream \<Rightarrow> u32 \<Rightarrow> unit option \<times> 'u pb_ostream" where
  "pb_encode_fixed32 s val =
     pb_write s [ucast (val AND 0xFF), ucast (drop_bit 8 val AND 0xFF),
                 ucast (drop_bit 16 val AND 0xFF), ucast (drop_bit 24 val AND 0xFF)] 4"

definition pb_encode_fixed64 :: "'u pb_ostream \<Rightarrow> u64 \<Rightarrow> unit option \<times> 'u pb_ostream" where
  "pb_encode_fixed64 s val =
     pb_write s [ucast (val AND 0xFF), ucast (drop_bit 8 val AND 0xFF),
                 ucast (drop_bit 16 val AND 0xFF), ucast (drop_bit 24 val AND 0xFF),
                 ucast (drop_bit 32 val AND 0xFF), ucast (drop_bit 40 val AND 0xFF),
                 ucast (drop_bit 48 val AND 0xFF), ucast (drop_bit 56 val AND 0xFF)] 8"

definition pb_encode_tag ::
  "'u pb_ostream \<Rightarrow> pb_wire_type_t \<Rightarrow> u32 \<Rightarrow> unit option \<times> 'u pb_ostream" where
  "pb_encode_tag s wiretype field_number =
     pb_encode_varint s (push_bit 3 (ucast field_number) OR ucast wiretype)"

definition pb_encode_string ::
  "'u pb_ostream \<Rightarrow> byte list \<Rightarrow> size_t \<Rightarrow> unit option \<times> 'u pb_ostream" where
  "pb_encode_string s buffer sz =
     and_then (pb_encode_varint s sz) (\<lambda>_ s'. pb_write s' buffer sz)"

declare pb_read_skip.simps [simp del]
declare pb_decode_varint_loop.simps [simp del]
declare pb_decode_varint32_loop.simps [simp del]
declare pb_skip_varint.simps [simp del]
declare read_raw_varint.simps [simp del]
declare varint_buffer.simps [simp del]

section \<open>The reference encoding of a varint\<close>

text \<open>Base-128 digits, least significant first, with the top bit set on all but the last.\<close>

fun varint_enc :: "nat \<Rightarrow> byte list" where
  "varint_enc n =
     (if n < 128 then [byte_of n] else byte_of (n mod 128 + 128) # varint_enc (n div 128))"

declare varint_enc.simps [simp del]

lemma varint_enc_small [simp]: "n < 128 \<Longrightarrow> varint_enc n = [byte_of n]"
  by (simp add: varint_enc.simps)

lemma varint_enc_big:
  "128 \<le> n \<Longrightarrow> varint_enc n = byte_of (n mod 128 + 128) # varint_enc (n div 128)"
  by (subst varint_enc.simps) simp

lemma varint_enc_nonempty [simp]: "varint_enc n \<noteq> []"
  by (subst varint_enc.simps) simp

lemma length_varint_enc_pos [simp]: "0 < length (varint_enc n)"
  by simp

lemma length_varint_enc:
  "n < 128 ^ k \<Longrightarrow> 0 < k \<Longrightarrow> length (varint_enc n) \<le> k"
proof (induction n arbitrary: k rule: varint_enc.induct)
  case (1 n)
  show ?case
  proof (cases "n < 128")
    case False
    then obtain k' where k: "k = Suc k'" "0 < k'"
      using "1.prems" by (cases k; cases "k - 1") auto
    with "1.prems" have "n div 128 < 128 ^ k'" by (simp add: div_less_iff_less_mult mult.commute)
    with "1.IH" False k show ?thesis by (simp add: varint_enc_big)
  qed (use "1.prems" in simp)
qed

lemma length_varint_enc_u64: "length (varint_enc (unat (v :: u64))) \<le> 10"
  using length_varint_enc [of "unat v" 10] unat_u64_lt [of v] by simp

lemma varint_byte:
  "ucast (((v :: u64) AND 0x7F) OR 0x80) = byte_of (unat v mod 128 + 128)"
proof -
  have "(0x80 :: u64) = push_bit 7 1" by simp
  moreover have m: "unat (v AND 0x7F) = unat v mod 128"
    using unat_and_mask [of v 7] by (simp add: mask_eq_exp_minus_1)
  ultimately have *: "unat ((v AND 0x7F) OR 0x80) = unat v mod 128 + 128"
    using unat_or_push_bit [of "v AND 0x7F" 7 1] by simp
  then show ?thesis
    by (simp add: byte_eq_iff unat_ucast_mod)
qed

lemma continuation_byte:
  assumes "k < 128"
  shows "byte_of (k + 128) AND 0x7F = byte_of k" and "byte_of (k + 128) AND 0x80 \<noteq> 0"
  using assms by (simp_all add: byte_eq_iff [of "_ AND 0x7F"] unat_and_7F and_80_eq_0_iff)

lemma final_byte:
  assumes "k < 128"
  shows "byte_of k AND 0x7F = byte_of k" and "byte_of k AND 0x80 = 0"
  using assms by (simp_all add: byte_eq_iff [of "_ AND 0x7F"] unat_and_7F and_80_eq_0_iff)

lemma varint_buffer_enc:
  assumes "v \<noteq> 0"
  shows "(varint_buffer v)[length (varint_buffer v) - 1 :=
            varint_buffer v ! (length (varint_buffer v) - 1) AND 0x7F] = varint_enc (unat v)"
    and "varint_buffer v \<noteq> []"
  using assms
proof (induction v rule: varint_buffer.induct)
  case (1 v)
  { case 1
    show ?case
    proof (cases "drop_bit 7 v = 0")
      case True
      then have "unat v div 128 = 0"
        using unat_drop_bit [of 7 v] by simp
      then have small: "unat v < 128" by simp
      have "varint_buffer v = [byte_of (unat v + 128)]"
        using 1 True small by (simp add: varint_buffer.simps [of v] varint_buffer.simps [of 0] varint_byte)
      with small show ?thesis by (simp add: continuation_byte)
    next
      case False
      let ?bs = "varint_buffer (drop_bit 7 v)"
      from "1.IH" [OF 1 False] have IH:
        "?bs[length ?bs - 1 := ?bs ! (length ?bs - 1) AND 0x7F] = varint_enc (unat (drop_bit 7 v))"
        and ne: "?bs \<noteq> []"
        using "1.IH"(1,2) 1 False by blast+
      have big: "128 \<le> unat v"
      proof (rule ccontr)
        assume "\<not> 128 \<le> unat v"
        then have "unat (drop_bit 7 v) = 0" by (simp only: unat_drop_bit) simp
        with False show False by (simp add: unat_eq_zero)
      qed
      have v: "varint_buffer v = byte_of (unat v mod 128 + 128) # ?bs"
        using 1 by (simp add: varint_buffer.simps [of v] varint_byte)
      have "varint_enc (unat v) = byte_of (unat v mod 128 + 128) # varint_enc (unat (drop_bit 7 v))"
        using big by (simp only: varint_enc_big unat_drop_bit) simp
      with IH ne show ?thesis
        by (cases ?bs rule: rev_cases) (simp_all add: v nth_append)
    qed
  next
    case 2
    then show ?case by (simp add: varint_buffer.simps [of v]) }
qed

text \<open>The encoder writes exactly the reference encoding.\<close>

lemma pb_encode_varint_eq:
  "pb_encode_varint s v =
     pb_write s (varint_enc (unat v)) (of_nat (length (varint_enc (unat v))))"
proof (cases "v \<le> 0x7F")
  case True
  then have "unat v < 128" by (simp add: word_le_nat_alt)
  then show ?thesis
    using True by (simp add: pb_encode_varint_def byte_of_def)
next
  case False
  then have "v \<noteq> 0" by auto
  have "length (varint_buffer v) = length (varint_enc (unat v))"
    using varint_buffer_enc(1) [OF \<open>v \<noteq> 0\<close>] by (metis length_list_update)
  then show ?thesis
    using False varint_buffer_enc(1) [OF \<open>v \<noteq> 0\<close>] by (simp add: pb_encode_varint_def Let_def)
qed

section \<open>Decoding what was encoded\<close>

text \<open>Consuming \<open>k\<close> bytes of a memory stream whose memory continues with \<open>m\<close>.\<close>

definition advance :: "'u pb_istream \<Rightarrow> nat \<Rightarrow> byte list \<Rightarrow> 'u pb_istream" where
  "advance s k m = s\<lparr>source := Buf_read m, bytes_left := bytes_left s - of_nat k\<rparr>"

lemma advance_simps [simp]:
  "source (advance s k m) = Buf_read m"
  "bytes_left (advance s k m) = bytes_left s - of_nat k"
  "errmsg (advance s k m) = errmsg s"
  "advance (advance s k m) k' m' = advance s (k + k') m'"
  by (simp_all add: advance_def diff_diff_eq)

lemma advance_left:
  assumes "k \<le> unat (bytes_left s)"
  shows "unat (bytes_left s - of_nat k) = unat (bytes_left s) - k"
proof -
  have "k < 2 ^ LENGTH(64)"
    using assms unat_lt_2p [of "bytes_left s"] by linarith
  then have "unat (of_nat k :: size_t) = k"
    by (rule unat_of_nat_less)
  with assms show ?thesis by (simp add: unat_sub_if')
qed

lemma pb_readbyte_advance:
  assumes "source s = Buf_read (b # m)" and "1 \<le> unat (bytes_left s)"
  shows "pb_readbyte s = (Some b, advance s 1 m)"
proof -
  have "bytes_left s \<noteq> 0" using assms(2) by auto
  with assms(1) show ?thesis by (simp add: pb_readbyte_Buf advance_def)
qed

lemma varint_loop_step:
  fixes r :: "'a::len word"
  assumes "unat r < 2 ^ p" and "unat r + k * 2 ^ p < 2 ^ LENGTH('a)" and "k < 128"
    and "128 \<le> (2::nat) ^ LENGTH('a)"
  shows "r OR push_bit p (ucast (byte_of k)) = of_nat (unat r + k * 2 ^ p)"
proof -
  have k: "unat (ucast (byte_of k) :: 'a word) = k"
    using assms(3,4) by (subst unat_ucast_less) simp_all
  have "unat (r OR push_bit p (ucast (byte_of k))) = unat r + k * 2 ^ p"
    using unat_or_push_bit [of r p "ucast (byte_of k)"] assms(1,2) by (simp add: k)
  moreover have "unat (of_nat (unat r + k * 2 ^ p) :: 'a word) = unat r + k * 2 ^ p"
    by (rule unat_of_nat_less) (use assms(2) in simp)
  ultimately show ?thesis
    by (simp only: word_unat_eq_iff)
qed

text \<open>One continuation digit of the accumulating loops, at any accumulator width.\<close>

lemma varint_digit:
  fixes r :: "'a::len word"
  assumes "128 \<le> n" and "unat r < 2 ^ p" and "unat r + n * 2 ^ p < 2 ^ LENGTH('a)"
    and "128 \<le> (2::nat) ^ LENGTH('a)"
  obtains r' :: "'a word" where "r OR push_bit p (ucast (byte_of (n mod 128))) = r'"
    and "p + 7 < LENGTH('a)" and "unat r' < 2 ^ (p + 7)"
    and "unat r + n * 2 ^ p = unat r' + n div 128 * 2 ^ (p + 7)"
proof
  let ?k = "n mod 128"
  have "?k * 2 ^ p \<le> n * 2 ^ p" by simp
  then have lt: "unat r + ?k * 2 ^ p < 2 ^ LENGTH('a)" using assms(3) by linarith
  show eq: "r OR push_bit p (ucast (byte_of ?k)) = of_nat (unat r + ?k * 2 ^ p)"
    using assms(2,4) lt by (intro varint_loop_step) simp_all
  have u: "unat (of_nat (unat r + ?k * 2 ^ p) :: 'a word) = unat r + ?k * 2 ^ p"
    using lt by (rule unat_of_nat_less)
  have "2 ^ (p + 7) \<le> n * 2 ^ p" using assms(1) by (simp add: power_add)
  then have "(2::nat) ^ (p + 7) < 2 ^ LENGTH('a)" using assms(3) by linarith
  then show "p + 7 < LENGTH('a)" by (simp only: power_strict_increasing_iff)
  have "?k * 2 ^ p \<le> 127 * 2 ^ p" by simp
  with assms(2) have "unat r + ?k * 2 ^ p < 2 ^ p * 128" by linarith
  then show "unat (of_nat (unat r + ?k * 2 ^ p) :: 'a word) < 2 ^ (p + 7)"
    by (simp only: u power_add) simp
  show "unat r + n * 2 ^ p =
      unat (of_nat (unat r + ?k * 2 ^ p) :: 'a word) + n div 128 * 2 ^ (p + 7)"
    using split_digit [of n p 7] by (simp only: u) simp
qed

lemma pb_decode_varint_loop_enc:
  assumes "source s = Buf_read (varint_enc n @ m)"
    and "length (varint_enc n) \<le> unat (bytes_left s)"
    and "unat r < 2 ^ unat p" and "unat p < 64" and "unat r + n * 2 ^ unat p < 2 ^ 64"
  shows "pb_decode_varint_loop s r p =
    (Some (of_nat (unat r + n * 2 ^ unat p)), advance s (length (varint_enc n)) m)"
  using assms
proof (induction n arbitrary: s r p rule: varint_enc.induct)
  case (1 n)
  have p64: "\<not> 64 \<le> p" using "1.prems"(4) by (simp add: word_le_nat_alt)
  have up: "unat (p + 7) = unat p + 7"
    using "1.prems"(4) by (simp add: unat_word_ariths)
  show ?case
  proof (cases "n < 128")
    case True
    with "1.prems" have rb: "pb_readbyte s = (Some (byte_of n), advance s 1 m)"
      by (intro pb_readbyte_advance) simp_all
    show ?thesis
      using p64 True "1.prems"(3,5)
      by (simp add: pb_decode_varint_loop.simps [of s] rb final_byte varint_loop_step)
  next
    case False
    let ?n = "n div 128"
    have enc: "varint_enc n = byte_of (n mod 128 + 128) # varint_enc ?n"
      using False by (simp add: varint_enc_big)
    have rb: "pb_readbyte s = (Some (byte_of (n mod 128 + 128)), advance s 1 (varint_enc ?n @ m))"
      using "1.prems"(1,2) enc by (intro pb_readbyte_advance) simp_all
    obtain r' where r: "r OR push_bit (unat p) (ucast (byte_of (n mod 128))) = r'"
      and p7: "unat p + 7 < 64" and r'_less: "unat r' < 2 ^ (unat p + 7)"
      and sp: "unat r + n * 2 ^ unat p = unat r' + ?n * 2 ^ (unat p + 7)"
      using varint_digit [of n r "unat p"] False "1.prems"(3,5) by auto
    have left: "length (varint_enc ?n) \<le> unat (bytes_left s - 1)"
      using "1.prems"(2) enc advance_left [of 1 s] by simp
    have "pb_decode_varint_loop (advance s 1 (varint_enc ?n @ m)) r' (p + 7) =
      (Some (of_nat (unat r' + ?n * 2 ^ unat (p + 7))),
       advance (advance s 1 (varint_enc ?n @ m)) (length (varint_enc ?n)) m)"
      by (rule "1.IH" [OF False]) (use left p7 up "1.prems"(5) sp r'_less in simp_all)
    then show ?thesis
      using p64 enc
      by (simp add: pb_decode_varint_loop.simps [of s] rb continuation_byte r Let_def sp up
          del: of_nat_add)
  qed
qed

lemma pb_decode_varint_enc:
  assumes "source s = Buf_read (varint_enc (unat v) @ m)"
    and "length (varint_enc (unat v)) \<le> unat (bytes_left s)"
  shows "pb_decode_varint s = (Some v, advance s (length (varint_enc (unat v))) m)"
  using pb_decode_varint_loop_enc [OF assms, of 0 0] unat_u64_lt [of v]
  by (simp add: pb_decode_varint_def)

lemma and_70_small: "unat b < 16 \<Longrightarrow> (b AND 0x70 :: byte) = 0"
proof -
  assume "unat b < 16"
  then have "b AND 0xF = b"
    using unat_and_mask [of b 4] by (simp add: mask_eq_exp_minus_1 byte_eq_iff)
  then have "b AND 0x70 = b AND (0xF AND 0x70)" by (metis and.assoc)
  then show ?thesis by simp
qed

lemma pb_decode_varint32_loop_enc:
  assumes "source s = Buf_read (varint_enc n @ m)"
    and "length (varint_enc n) \<le> unat (bytes_left s)"
    and "unat r < 2 ^ unat p" and "unat p < 32" and "unat r + n * 2 ^ unat p < 2 ^ 32"
  shows "\<exists>b q. pb_decode_varint32_loop s r p =
      (Some (of_nat (unat r + n * 2 ^ unat p), b, q), advance s (length (varint_enc n)) m) \<and>
      (q = 35 \<longrightarrow> b AND 0x70 = 0)"
  using assms
proof (induction n arbitrary: s r p rule: varint_enc.induct)
  case (1 n)
  have p32: "\<not> 32 \<le> p" using "1.prems"(4) by (simp add: word_le_nat_alt)
  have up: "unat (p + 7) = unat p + 7"
    using "1.prems"(4) by (simp add: unat_word_ariths)
  show ?case
  proof (cases "n < 128")
    case True
    with "1.prems" have rb: "pb_readbyte s = (Some (byte_of n), advance s 1 m)"
      by (intro pb_readbyte_advance) simp_all
    have last: "byte_of n AND 0x70 = 0" if "p + 7 = 35"
    proof -
      have "unat p + 7 = 35" using arg_cong [OF that, of unat] up by simp
      then have "unat p = 28" by simp
      with "1.prems"(5) have "n < 16" by simp
      then show ?thesis by (intro and_70_small) simp
    qed
    show ?thesis
      using p32 True "1.prems"(3,5) last
      by (simp add: pb_decode_varint32_loop.simps [of s] rb final_byte varint_loop_step)
  next
    case False
    let ?n = "n div 128"
    have enc: "varint_enc n = byte_of (n mod 128 + 128) # varint_enc ?n"
      using False by (simp add: varint_enc_big)
    have rb: "pb_readbyte s = (Some (byte_of (n mod 128 + 128)), advance s 1 (varint_enc ?n @ m))"
      using "1.prems"(1,2) enc by (intro pb_readbyte_advance) simp_all
    obtain r' where r: "r OR push_bit (unat p) (ucast (byte_of (n mod 128))) = r'"
      and p7: "unat p + 7 < 32" and r'_less: "unat r' < 2 ^ (unat p + 7)"
      and sp: "unat r + n * 2 ^ unat p = unat r' + ?n * 2 ^ (unat p + 7)"
      using varint_digit [of n r "unat p"] False "1.prems"(3,5) by auto
    have left: "length (varint_enc ?n) \<le> unat (bytes_left s - 1)"
      using "1.prems"(2) enc advance_left [of 1 s] by simp
    have "\<exists>b q. pb_decode_varint32_loop (advance s 1 (varint_enc ?n @ m)) r' (p + 7) =
      (Some (of_nat (unat r' + ?n * 2 ^ unat (p + 7)), b, q),
       advance (advance s 1 (varint_enc ?n @ m)) (length (varint_enc ?n)) m) \<and>
      (q = 35 \<longrightarrow> b AND 0x70 = 0)"
      by (rule "1.IH" [OF False]) (use left p7 up "1.prems"(5) sp r'_less in simp_all)
    then show ?thesis
      using p32 enc
      by (simp add: pb_decode_varint32_loop.simps [of s] rb continuation_byte r Let_def sp up
          del: of_nat_add)
  qed
qed

lemma pb_decode_varint32_eof_enc:
  assumes "source s = Buf_read (varint_enc (unat v) @ m)"
    and "length (varint_enc (unat v)) \<le> unat (bytes_left s)"
  shows "pb_decode_varint32_eof s =
    ((Some v, False), advance s (length (varint_enc (unat v))) m)"
proof (cases "unat v < 128")
  case True
  with assms have "pb_readbyte s = (Some (byte_of (unat v)), advance s 1 m)"
    by (intro pb_readbyte_advance) simp_all
  moreover have "ucast (byte_of (unat v)) = v"
    using True by (simp add: word_unat_eq_iff unat_ucast_mod)
  ultimately show ?thesis
    using True by (simp add: pb_decode_varint32_eof_def final_byte)
next
  case False
  let ?k = "unat v mod 128" and ?n = "unat v div 128"
  have enc: "varint_enc (unat v) = byte_of (?k + 128) # varint_enc ?n"
    using False by (simp add: varint_enc_big)
  have rb: "pb_readbyte s = (Some (byte_of (?k + 128)), advance s 1 (varint_enc ?n @ m))"
    using assms enc by (intro pb_readbyte_advance) simp_all
  have uk: "unat (ucast (byte_of ?k) :: u32) = ?k"
    by (simp add: unat_ucast_mod)
  have v: "?k + ?n * 128 = unat v" by simp
  have left: "length (varint_enc ?n) \<le> unat (bytes_left s - 1)"
    using assms(2) enc advance_left [of 1 s] by simp
  have lt: "?k + ?n * 128 < 4294967296" by (simp only: v unat_u32_lt)
  obtain b q where l: "pb_decode_varint32_loop (advance s 1 (varint_enc ?n @ m)) (ucast (byte_of ?k)) 7 =
      (Some (of_nat (?k + ?n * 128), b, q),
       advance (advance s 1 (varint_enc ?n @ m)) (length (varint_enc ?n)) m)"
    and q: "q = 35 \<longrightarrow> b AND 0x70 = 0"
    using pb_decode_varint32_loop_enc [of "advance s 1 (varint_enc ?n @ m)" ?n m "ucast (byte_of ?k)" 7]
      left lt by (auto simp: uk simp del: of_nat_add mod_mult_div_eq mod_div_mult_eq div_mult_mod_eq)
  show ?thesis
    using l q enc
    by (cases "q = 35") (simp_all add: pb_decode_varint32_eof_def rb continuation_byte v del: of_nat_add)
qed

lemma pb_decode_varint32_enc:
  assumes "source s = Buf_read (varint_enc (unat v) @ m)"
    and "length (varint_enc (unat v)) \<le> unat (bytes_left s)"
  shows "pb_decode_varint32 s = (Some v, advance s (length (varint_enc (unat v))) m)"
  using pb_decode_varint32_eof_enc [OF assms] by (simp add: pb_decode_varint32_def)

end
