(* ===== verification/Pb_Codec.thy ===== *)
theory Pb_Codec
  imports Pb_Wire
begin

text \<open>
  Encoders and decoders of nanopb as matching pairs. The locale \<open>pb_codec\<close> states what the
  message layer relies on: an encoder writes one fixed byte string for a value and the
  decoder, given that byte string at the head of a memory stream, returns the value and
  consumes exactly those bytes. The round trip through a memory buffer, the error when the
  buffer is too small, and the size computed by a sizing stream follow once for all pairs;
  the pairs of the library are its interpretations.
\<close>

section \<open>Writing to a memory stream\<close>

text \<open>
  A memory output stream is well formed when the bytes it may still accept fit behind its
  pointer.
\<close>

definition wf_ostream :: "'u pb_ostream \<Rightarrow> bool" where
  "wf_ostream s =
     (case sink s of
        Buf_write mem pos \<Rightarrow>
          bytes_written s \<le> max_size s \<and>
          pos + (unat (max_size s) - unat (bytes_written s)) \<le> length mem
      | _ \<Rightarrow> True)"

lemma add_no_overflow_iff:
  "\<not> (a + c < a \<or> a + c > m) \<longleftrightarrow> unat a + unat c \<le> unat m" if "c > 0" for a c m :: size_t
  using that unat_u64_lt [of m] unat_u64_lt [of a] unat_u64_lt [of c]
  by (auto simp: word_less_nat_alt unat_plus_if' split: if_splits)

lemma pb_write_Buf:
  assumes "sink s = Buf_write mem pos" and "unat count = length bs"
    and "unat (bytes_written s) + length bs \<le> unat (max_size s)"
  shows "pb_write s bs count =
    (Some (), s\<lparr>sink := Buf_write (take pos mem @ bs @ drop (pos + length bs) mem) (pos + length bs),
               bytes_written := bytes_written s + count\<rparr>)"
proof (cases "count = 0")
  case True
  with assms show ?thesis by (cases s) (simp add: pb_write_def)
next
  case False
  then have "0 < count" by (simp add: word_gt_0)
  with assms add_no_overflow_iff [of count "bytes_written s" "max_size s"] show ?thesis
    by (cases s) (simp add: pb_write_def out_callback_def buf_write_def)
qed

lemma pb_write_full:
  assumes "\<not> is_sizing (sink s)" and "count > 0"
    and "unat (max_size s) < unat (bytes_written s) + unat count"
  shows "pb_write s bs count = PB_RETURN_OERROR s ''stream full''"
  using assms add_no_overflow_iff [of count "bytes_written s" "max_size s"]
  by (auto simp: pb_write_def)

lemma pb_write_sizing:
  "sink s = No_callback \<Longrightarrow> pb_write s bs count = (Some (), s\<lparr>bytes_written := bytes_written s + count\<rparr>)"
  by (simp add: pb_write_def)

lemma pb_read_advance:
  assumes "source s = Buf_read (bs @ m)" and "length bs = unat count"
    and "unat count \<le> unat (bytes_left s)"
  shows "pb_read s nul count = (Some bs, advance s (unat count) m)"
  using assms pb_read_Buf [of s "bs @ m" count nul]
  by (simp add: advance_def word_le_nat_alt)

section \<open>The codec interface\<close>

locale pb_codec =
  fixes bytes :: "'a \<Rightarrow> byte list"
    and encode :: "'u pb_ostream \<Rightarrow> 'a \<Rightarrow> unit option \<times> 'u pb_ostream"
    and decode :: "'u pb_istream \<Rightarrow> 'a option \<times> 'u pb_istream"
    and valid :: "'a \<Rightarrow> bool"
  assumes encode_bytes: "valid v \<Longrightarrow> encode s v = pb_write s (bytes v) (of_nat (length (bytes v)))"
    and decode_bytes: "valid v \<Longrightarrow> source t = Buf_read (bytes v @ m) \<Longrightarrow>
      length (bytes v) \<le> unat (bytes_left t) \<Longrightarrow>
      decode t = (Some v, advance t (length (bytes v)) m)"
    and bytes_bound: "valid v \<Longrightarrow> 0 < length (bytes v) \<and> length (bytes v) < 2 ^ 64"
begin

lemma count_unat: "valid v \<Longrightarrow> unat (of_nat (length (bytes v)) :: size_t) = length (bytes v)"
  using bytes_bound [of v] by (intro unat_of_nat_less) simp

lemma encode_fits:
  assumes "valid v" and "sink s = Buf_write mem pos"
    and "unat (bytes_written s) + length (bytes v) \<le> unat (max_size s)"
  shows "encode s v =
    (Some (), s\<lparr>sink := Buf_write (take pos mem @ bytes v @ drop (pos + length (bytes v)) mem)
                                  (pos + length (bytes v)),
               bytes_written := bytes_written s + of_nat (length (bytes v))\<rparr>)"
  using pb_write_Buf [OF assms(2) count_unat [OF assms(1)] assms(3)]
  by (simp add: encode_bytes [OF assms(1)])

lemma encode_full:
  assumes "valid v" and "\<not> is_sizing (sink s)"
    and "unat (max_size s) < unat (bytes_written s) + length (bytes v)"
  shows "encode s v = PB_RETURN_OERROR s ''stream full''"
proof -
  have "unat (of_nat (length (bytes v)) :: size_t) > 0"
    using bytes_bound [OF assms(1)] count_unat [OF assms(1)] by simp
  then have "(of_nat (length (bytes v)) :: size_t) > 0"
    by (simp add: word_less_nat_alt)
  with assms show ?thesis
    using pb_write_full [of s "of_nat (length (bytes v))" "bytes v"]
    by (simp add: encode_bytes count_unat)
qed

lemma encode_sizing:
  assumes "valid v"
  shows "encode PB_OSTREAM_SIZING v =
    (Some (), PB_OSTREAM_SIZING\<lparr>bytes_written := of_nat (length (bytes v))\<rparr>)"
  using assms by (simp add: encode_bytes pb_write_sizing PB_OSTREAM_SIZING_def)

lemma roundtrip:
  assumes "valid v" and "length (bytes v) \<le> unat cap" and "unat cap \<le> length buf"
  shows "\<exists>mem s'. encode (pb_ostream_from_buffer buf cap) v = (Some (), s') \<and>
    sink s' = Buf_write mem (unat (bytes_written s')) \<and> length mem = length buf \<and>
    unat (bytes_written s') = length (bytes v) \<and>
    (\<exists>t. decode (pb_istream_from_buffer mem (bytes_written s')) = (Some v, t) \<and>
         bytes_left t = 0 \<and> errmsg t = None)"
proof -
  let ?mem = "bytes v @ drop (length (bytes v)) buf"
  let ?s = "(pb_ostream_from_buffer buf cap)\<lparr>
    sink := Buf_write ?mem (length (bytes v)), bytes_written := of_nat (length (bytes v))\<rparr>"
  have "encode (pb_ostream_from_buffer buf cap) v = (Some (), ?s)"
    using encode_fits [OF assms(1), of "pb_ostream_from_buffer buf cap" buf 0] assms(2)
    by (simp add: pb_ostream_from_buffer_def)
  moreover have "decode (pb_istream_from_buffer ?mem (of_nat (length (bytes v)))) =
    (Some v, advance (pb_istream_from_buffer ?mem (of_nat (length (bytes v)))) (length (bytes v))
       (drop (length (bytes v)) buf))"
    using count_unat [OF assms(1)]
    by (intro decode_bytes [OF assms(1)]) (simp_all add: pb_istream_from_buffer_def)
  ultimately show ?thesis
    using assms(2,3) count_unat [OF assms(1)]
    by (simp add: pb_ostream_from_buffer_def pb_istream_from_buffer_def advance_def)
qed

end

section \<open>Zig-zag and fixed-width integers\<close>

definition zigzag :: "u64 \<Rightarrow> u64" where
  "zigzag v = (if sint v < 0 then NOT (push_bit 1 v) else push_bit 1 v)"

definition unzigzag :: "u64 \<Rightarrow> u64" where
  "unzigzag z = (if z AND 1 \<noteq> 0 then NOT (drop_bit 1 z) else drop_bit 1 z)"

lemma sint_neg_iff_bit: "sint v < 0 \<longleftrightarrow> bit v 63" for v :: u64
  using bit_last_iff [of v] by simp

lemma bit_zigzag:
  "bit (zigzag v) n \<longleftrightarrow> n < 64 \<and> (if n = 0 then bit v 63 else bit v 63 \<noteq> bit v (n - 1))"
proof -
  have "bit (push_bit (Suc 0) v) n \<longleftrightarrow> 1 \<le> n \<and> n < 64 \<and> bit v (n - 1)" for n
    by (auto simp only: bit_push_bit_iff possible_bit_word) simp_all
  then show ?thesis
    by (cases n) (auto simp: zigzag_def sint_neg_iff_bit bit_not_iff simp del: push_bit_Suc)
qed

lemma bit_unzigzag:
  "bit (unzigzag z) n \<longleftrightarrow> n < 64 \<and> (bit z 0 \<noteq> bit z (Suc n))"
proof -
  have "z AND 1 \<noteq> 0 \<longleftrightarrow> bit z 0"
    by (simp add: and_one_eq odd_iff_mod_2_eq_one bit_0)
  moreover have "bit (drop_bit (Suc 0) z) n \<longleftrightarrow> bit z (Suc n)"
    by (simp only: bit_drop_bit_eq) simp
  ultimately show ?thesis
    by (auto simp: unzigzag_def bit_not_iff dest: bit_imp_le_length)
qed

lemma unzigzag_zigzag: "unzigzag (zigzag v) = v"
proof (rule bit_word_eqI)
  fix n assume "n < LENGTH(64)"
  then show "bit (unzigzag (zigzag v)) n = bit v n"
    by (cases "n = 63") (auto simp: bit_unzigzag bit_zigzag)
qed

text \<open>The bytes of a word, least significant first.\<close>

definition fixed32_bytes :: "u32 \<Rightarrow> byte list" where
  "fixed32_bytes v = map (\<lambda>i. ucast (drop_bit (8 * i) v)) [0, 1, 2, 3]"

definition fixed64_bytes :: "u64 \<Rightarrow> byte list" where
  "fixed64_bytes v = map (\<lambda>i. ucast (drop_bit (8 * i) v)) [0, 1, 2, 3, 4, 5, 6, 7]"

lemma ucast_and_FF:
  fixes w :: "'a::len word"
  shows "(ucast (w AND 0xFF) :: byte) = ucast w"
proof -
  have "(0xFF :: 'a word) = mask 8" by (simp add: mask_eq_exp_minus_1)
  moreover have "(ucast (w AND mask 8) :: byte) = ucast w"
    by (rule bit_word_eqI) (auto simp: bit_simps dest: bit_imp_le_length)
  ultimately show ?thesis by simp
qed

lemma bit_byte_at:
  fixes v :: "'a::len word"
  shows "bit (push_bit k (ucast (ucast (drop_bit k v) :: byte)) :: 'a word) n \<longleftrightarrow>
    k \<le> n \<and> n < k + 8 \<and> bit v n"
  by (auto simp: bit_push_bit_iff bit_ucast_iff bit_drop_bit_eq dest: bit_imp_le_length)

lemma fixed32_join:
  "push_bit 0 (ucast (fixed32_bytes v ! 0)) OR push_bit 8 (ucast (fixed32_bytes v ! 1)) OR
   push_bit 16 (ucast (fixed32_bytes v ! 2)) OR push_bit 24 (ucast (fixed32_bytes v ! 3)) = v"
    (is "?l = v")
proof (rule bit_word_eqI)
  fix n assume "n < LENGTH(32)"
  then consider "n < 8" | "8 \<le> n" "n < 16" | "16 \<le> n" "n < 24" | "24 \<le> n" "n < 32"
    by simp linarith
  then show "bit ?l n = bit v n"
    by cases (simp_all add: bit_or_iff fixed32_bytes_def bit_byte_at bit_byte_at [of 0, simplified])
qed

lemma fixed64_join:
  "push_bit 0 (ucast (fixed64_bytes v ! 0)) OR push_bit 8 (ucast (fixed64_bytes v ! 1)) OR
   push_bit 16 (ucast (fixed64_bytes v ! 2)) OR push_bit 24 (ucast (fixed64_bytes v ! 3)) OR
   push_bit 32 (ucast (fixed64_bytes v ! 4)) OR push_bit 40 (ucast (fixed64_bytes v ! 5)) OR
   push_bit 48 (ucast (fixed64_bytes v ! 6)) OR push_bit 56 (ucast (fixed64_bytes v ! 7)) = v"
    (is "?l = v")
proof (rule bit_word_eqI)
  fix n assume "n < LENGTH(64)"
  then consider "n < 8" | "8 \<le> n" "n < 16" | "16 \<le> n" "n < 24" | "24 \<le> n" "n < 32"
    | "32 \<le> n" "n < 40" | "40 \<le> n" "n < 48" | "48 \<le> n" "n < 56" | "56 \<le> n" "n < 64"
    by simp linarith
  then show "bit ?l n = bit v n"
    by cases (simp_all add: bit_or_iff fixed64_bytes_def bit_byte_at bit_byte_at [of 0, simplified])
qed

lemma pb_encode_fixed32_bytes: "pb_encode_fixed32 s v = pb_write s (fixed32_bytes v) 4"
  by (simp only: pb_encode_fixed32_def ucast_and_FF fixed32_bytes_def) simp

lemma pb_encode_fixed64_bytes: "pb_encode_fixed64 s v = pb_write s (fixed64_bytes v) 8"
  by (simp only: pb_encode_fixed64_def ucast_and_FF fixed64_bytes_def) simp

lemma length_fixed_bytes [simp]:
  "length (fixed32_bytes v) = 4" "length (fixed64_bytes w) = 8"
  by (simp_all add: fixed32_bytes_def fixed64_bytes_def)

lemma pb_decode_fixed32_enc:
  assumes "source t = Buf_read (fixed32_bytes v @ m)" and "4 \<le> unat (bytes_left t)"
  shows "pb_decode_fixed32 t = (Some v, advance t 4 m)"
  using pb_read_advance [OF assms(1), of 4 False] assms(2)
  by (simp add: pb_decode_fixed32_def fixed32_join [of v, simplified])

lemma pb_decode_fixed64_enc:
  assumes "source t = Buf_read (fixed64_bytes v @ m)" and "8 \<le> unat (bytes_left t)"
  shows "pb_decode_fixed64 t = (Some v, advance t 8 m)"
  using pb_read_advance [OF assms(1), of 8 False] assms(2)
  by (simp add: pb_decode_fixed64_def fixed64_join [of v, simplified])

lemma pb_decode_svarint_enc:
  assumes "source t = Buf_read (varint_enc (unat (zigzag v)) @ m)"
    and "length (varint_enc (unat (zigzag v))) \<le> unat (bytes_left t)"
  shows "pb_decode_svarint t = (Some v, advance t (length (varint_enc (unat (zigzag v)))) m)"
  using pb_decode_varint_enc [OF assms] unzigzag_zigzag [of v]
  by (auto simp: pb_decode_svarint_def unzigzag_def split: if_splits)

section \<open>The codecs of the library\<close>

lemma length_varint_enc_lt: "length (varint_enc (unat (v :: u64))) < 2 ^ 64"
  using length_varint_enc_u64 [of v] by simp

lemma length_varint_enc_u32: "length (varint_enc (unat (v :: u32))) \<le> 5"
  using length_varint_enc [of "unat v" 5] unat_u32_lt [of v] by simp

interpretation varint: pb_codec "\<lambda>v. varint_enc (unat v)" pb_encode_varint pb_decode_varint "\<lambda>_. True"
  by unfold_locales (simp_all add: pb_encode_varint_eq pb_decode_varint_enc length_varint_enc_lt [simplified])

interpretation svarint: pb_codec "\<lambda>v. varint_enc (unat (zigzag v))" pb_encode_svarint pb_decode_svarint "\<lambda>_. True"
  by unfold_locales
     (simp_all add: pb_encode_svarint_def pb_encode_varint_eq pb_decode_svarint_enc zigzag_def [symmetric] Let_def
        length_varint_enc_lt [simplified])

interpretation fixed32: pb_codec fixed32_bytes pb_encode_fixed32 pb_decode_fixed32 "\<lambda>_. True"
  by unfold_locales (simp_all add: pb_encode_fixed32_bytes pb_decode_fixed32_enc)

interpretation fixed64: pb_codec fixed64_bytes pb_encode_fixed64 pb_decode_fixed64 "\<lambda>_. True"
  by unfold_locales (simp_all add: pb_encode_fixed64_bytes pb_decode_fixed64_enc)

section \<open>Tags, strings and skipping\<close>

definition tag_word :: "pb_wire_type_t \<Rightarrow> u32 \<Rightarrow> nat" where
  "tag_word wt tag = unat tag * 8 + unat wt"

lemma pb_encode_tag_eq:
  assumes "unat wt < 8"
  shows "pb_encode_tag s wt tag =
    pb_write s (varint_enc (tag_word wt tag)) (of_nat (length (varint_enc (tag_word wt tag))))"
proof -
  let ?x = "ucast wt :: u64" and ?y = "ucast tag :: u64"
  have x: "unat ?x = unat wt" and y: "unat ?y = unat tag"
    by (simp_all add: unat_ucast_mod unat_u32_lt [THEN less_trans])
  have "unat tag * 8 + 8 \<le> 4294967296 * 8" using unat_u32_lt [of tag] by linarith
  then have "unat wt + unat tag * 8 < 18446744073709551616" using assms by linarith
  then have "unat (?x OR push_bit 3 ?y) = tag_word wt tag"
    using unat_or_push_bit [of ?x 3 ?y] assms by (simp add: x y tag_word_def)
  then show ?thesis
    by (simp add: pb_encode_tag_def pb_encode_varint_eq or.commute)
qed

lemma pb_decode_tag_enc:
  assumes "source t = Buf_read (varint_enc (tag_word wt tag) @ m)"
    and "length (varint_enc (tag_word wt tag)) \<le> unat (bytes_left t)"
    and "unat wt < 8" and "unat tag < 2 ^ 29" and "tag \<noteq> 0"
  shows "pb_decode_tag t =
    ((Some (wt, tag), False), advance t (length (varint_enc (tag_word wt tag))) m)"
proof -
  define w :: u32 where "w = of_nat (tag_word wt tag)"
  have "tag_word wt tag < 2 ^ 32" using assms(3,4) by (simp add: tag_word_def)
  then have uw: "unat w = tag_word wt tag"
    unfolding w_def by (intro unat_of_nat_less) simp
  have "0 < unat tag" using assms(5) by (simp add: unat_gt_0)
  then have "w \<noteq> 0" using uw by (auto simp: tag_word_def)
  moreover have "unat (w AND 7) = unat wt"
    using unat_and_mask [of w 3] assms(3) by (simp add: uw tag_word_def mask_eq_exp_minus_1)
  then have "w AND 7 = wt" by (simp add: word_unat_eq_iff)
  moreover have "unat (drop_bit 3 w) = unat tag"
    using assms(3) by (simp only: unat_drop_bit uw tag_word_def) simp
  then have "drop_bit 3 w = tag" by (simp only: word_unat_eq_iff)
  ultimately show ?thesis
    using pb_decode_varint32_eof_enc [of t w m] assms(1,2)
    by (simp add: pb_decode_tag_def uw)
qed

lemma pb_skip_varint_enc:
  assumes "source t = Buf_read (varint_enc n @ m)" and "length (varint_enc n) \<le> unat (bytes_left t)"
  shows "pb_skip_varint t = (Some (), advance t (length (varint_enc n)) m)"
  using assms
proof (induction n arbitrary: t rule: varint_enc.induct)
  case (1 n)
  show ?case
  proof (cases "n < 128")
    case True
    with "1.prems" have "pb_read t False 1 = (Some [byte_of n], advance t 1 m)"
      using pb_read_advance [of t "[byte_of n]" m 1] by simp
    with True show ?thesis by (simp add: pb_skip_varint.simps [of t] final_byte)
  next
    case False
    let ?n = "n div 128"
    have enc: "varint_enc n = byte_of (n mod 128 + 128) # varint_enc ?n"
      using False by (simp add: varint_enc_big)
    have rd: "pb_read t False 1 = (Some [byte_of (n mod 128 + 128)], advance t 1 (varint_enc ?n @ m))"
      using pb_read_advance [of t "[byte_of (n mod 128 + 128)]" "varint_enc ?n @ m" 1] "1.prems" enc
      by simp
    have "pb_skip_varint (advance t 1 (varint_enc ?n @ m)) =
      (Some (), advance (advance t 1 (varint_enc ?n @ m)) (length (varint_enc ?n)) m)"
      using False "1.prems"(2) enc advance_left [of 1 t] by (intro "1.IH") simp_all
    then show ?thesis
      by (simp add: pb_skip_varint.simps [of t] rd continuation_byte enc)
  qed
qed

text \<open>A length-delimited value: the length as a varint and the bytes.\<close>

definition string_enc :: "byte list \<Rightarrow> byte list" where
  "string_enc bs = varint_enc (length bs) @ bs"

lemma pb_make_string_substream_enc:
  assumes "source t = Buf_read (string_enc bs @ m)" and "length bs < 2 ^ 32"
    and "length (string_enc bs) \<le> unat (bytes_left t)"
  shows "pb_make_string_substream t =
    (Some (t\<lparr>source := Buf_read (bs @ m), bytes_left := of_nat (length bs)\<rparr>),
     t\<lparr>source := Buf_read (bs @ m), bytes_left := bytes_left t - of_nat (length (string_enc bs))\<rparr>)"
proof -
  define w :: u32 where "w = of_nat (length bs)"
  have uw: "unat w = length bs" unfolding w_def using assms(2) by (intro unat_of_nat_less) simp
  have cw: "(ucast w :: size_t) = of_nat (length bs)"
    using assms(2) uw by (simp add: word_unat_eq_iff unat_ucast_mod unat_of_nat)
  have ub: "unat (of_nat (length bs) :: size_t) = length bs"
    using assms(2) by (intro unat_of_nat_less) simp
  let ?k = "length (varint_enc (length bs))"
  have left: "?k + length bs \<le> unat (bytes_left t)"
    using assms(3) by (simp add: string_enc_def)
  have "pb_decode_varint32 t = (Some w, advance t ?k (bs @ m))"
    using pb_decode_varint32_enc [of t w "bs @ m"] assms(1) left by (simp add: uw string_enc_def)
  moreover have "\<not> bytes_left t - of_nat ?k < of_nat (length bs)"
    using left advance_left [of ?k t] by (simp add: word_less_nat_alt ub)
  moreover have "bytes_left t - of_nat ?k - of_nat (length bs) =
      bytes_left t - of_nat (length (string_enc bs))"
    by (simp add: string_enc_def)
  ultimately show ?thesis
    by (simp add: pb_make_string_substream_def cw advance_def)
qed

lemma pb_skip_string_enc:
  assumes "source t = Buf_read (string_enc bs @ m)" and "length bs < 2 ^ 32"
    and "length (string_enc bs) \<le> unat (bytes_left t)"
  shows "pb_skip_string t = (Some (), advance t (length (string_enc bs)) m)"
proof -
  define w :: u32 where "w = of_nat (length bs)"
  have uw: "unat w = length bs" unfolding w_def using assms(2) by (intro unat_of_nat_less) simp
  have cw: "unat (ucast w :: size_t) = length bs"
    using assms(2) uw by (simp add: unat_ucast_mod)
  let ?k = "length (varint_enc (length bs))"
  have left: "?k + length bs \<le> unat (bytes_left t)"
    using assms(3) by (simp add: string_enc_def)
  have "pb_decode_varint32 t = (Some w, advance t ?k (bs @ m))"
    using pb_decode_varint32_enc [of t w "bs @ m"] assms(1) left by (simp add: uw string_enc_def)
  moreover have "pb_read (advance t ?k (bs @ m)) True (ucast w) =
      (Some bs, advance (advance t ?k (bs @ m)) (unat (ucast w :: size_t)) m)"
    by (rule pb_read_advance) (use left advance_left [of ?k t] in \<open>simp_all add: cw\<close>)
  ultimately show ?thesis
    by (simp add: pb_skip_string_def string_enc_def cw)
qed

end
