(* ===== verification/Pb_Props.thy ===== *)
theory Pb_Props
  imports Pb_Codec
begin

text \<open>
  Properties of the nanopb stream and wire layer: memory safety of the streams, progress and
  consumption bounds of the decoders, round trips through memory buffers, and the behaviour
  of the 32-bit varint decoder on overlong input.
\<close>

section \<open>Memory safety of the streams\<close>

text \<open>One decoding step: the stream stays well formed and its byte count does not grow.\<close>

definition reads :: "'u pb_istream \<Rightarrow> 'u pb_istream \<Rightarrow> bool" where
  "reads s s' \<longleftrightarrow> (wf_istream s \<longrightarrow> wf_istream s') \<and> unat (bytes_left s') \<le> unat (bytes_left s)"

lemma reads_refl [simp, intro]: "reads s s"
  by (simp add: reads_def)

lemma reads_trans [trans]: "reads s t \<Longrightarrow> reads t u \<Longrightarrow> reads s u"
  by (auto simp: reads_def)

lemma reads_ERROR_eq:
  assumes "PB_RETURN_ERROR s msg = (r, s')"
  shows "reads s s'"
proof -
  have "source s' = source s" and "bytes_left s' = bytes_left s"
    using assms by (auto simp: PB_RETURN_ERROR_def)
  then show ?thesis by (simp add: reads_def wf_istream_def split: pb_source.splits)
qed

lemma in_callback_reads:
  assumes "in_callback s n = (r, s')" and "n \<le> unat (bytes_left s)" and "wf_istream s"
  shows "wf_istream (s'\<lparr>bytes_left := bytes_left s' - of_nat n\<rparr>)" and "r = None \<Longrightarrow> wf_istream s'"
proof -
  have "wf_istream (s'\<lparr>bytes_left := bytes_left s' - of_nat n\<rparr>) \<and> (r = None \<longrightarrow> wf_istream s')"
  proof (cases "source s")
    case (Buf_read m)
    with assms have "r = Some (take n m)" and "s' = s\<lparr>source := Buf_read (drop n m)\<rparr>"
      by (simp_all add: in_callback_def buf_read_def)
    moreover have "unat (bytes_left s - of_nat n) \<le> length m - n"
      using Buf_read assms(3) advance_left [OF assms(2)] by (simp add: wf_istream_def)
    ultimately show ?thesis by (simp add: wf_istream_def)
  next
    case (User_read f u)
    with assms(1) obtain u' where "s' = s\<lparr>source := pb_source.User_read f u'\<rparr>"
      by (auto simp: in_callback_def split: prod.splits)
    then show ?thesis by (simp add: wf_istream_def)
  qed
  then show "wf_istream (s'\<lparr>bytes_left := bytes_left s' - of_nat n\<rparr>)" and "r = None \<Longrightarrow> wf_istream s'"
    by auto
qed

lemma pb_readbyte_reads: "pb_readbyte s = (r, s') \<Longrightarrow> reads s s'"
proof -
  assume a: "pb_readbyte s = (r, s')"
  show "reads s s'"
  proof (cases "bytes_left s = 0")
    case True
    with a show ?thesis by (auto simp: pb_readbyte_def intro: reads_ERROR_eq)
  next
    case False
    obtain q s1 where cb: "in_callback s 1 = (q, s1)" by fastforce
    have left: "1 \<le> unat (bytes_left s)" using False by (simp add: Suc_le_eq unat_gt_0)
    note cb_left = in_callback_left [OF cb]
    show ?thesis
    proof (cases q)
      case None
      then have "PB_RETURN_ERROR s1 ''io error'' = (r, s')"
        using a cb False by (simp add: pb_readbyte_def)
      then have "reads s1 s'" by (rule reads_ERROR_eq)
      moreover have "reads s s1"
        using in_callback_reads(2) [OF cb left _ None] cb_left by (simp add: reads_def)
      ultimately show ?thesis by (blast intro: reads_trans)
    next
      case (Some bs)
      then have "s' = s1\<lparr>bytes_left := bytes_left s1 - 1\<rparr>"
        using a cb False by (simp add: pb_readbyte_def)
      then show ?thesis
        using in_callback_reads(1) [OF cb left] cb_left advance_left [OF left] left
        by (simp add: reads_def)
    qed
  qed
qed

lemma pb_read_transfer_reads: "pb_read_transfer s count = (r, s') \<Longrightarrow> reads s s'"
proof -
  assume a: "pb_read_transfer s count = (r, s')"
  consider "count = 0" | "count \<noteq> 0" "bytes_left s < count" | "count \<noteq> 0" "count \<le> bytes_left s"
    by fastforce
  then show "reads s s'"
  proof cases
    case 1
    with a show ?thesis by (simp add: pb_read_transfer_def)
  next
    case 2
    with a show ?thesis by (auto simp: pb_read_transfer_def intro: reads_ERROR_eq)
  next
    case 3
    obtain q s1 where cb: "in_callback s (unat count) = (q, s1)" by fastforce
    have left: "unat count \<le> unat (bytes_left s)" using 3 by (simp add: word_le_nat_alt)
    note cb_left = in_callback_left [OF cb]
    show ?thesis
    proof (cases q)
      case None
      then have "PB_RETURN_ERROR s1 ''io error'' = (r, s')"
        using a cb 3 by (simp add: pb_read_transfer_def leD)
      then have "reads s1 s'" by (rule reads_ERROR_eq)
      moreover have "reads s s1"
        using in_callback_reads(2) [OF cb left _ None] cb_left by (simp add: reads_def)
      ultimately show ?thesis by (blast intro: reads_trans)
    next
      case (Some bs)
      then have "s' = s1\<lparr>bytes_left := bytes_left s1 - count\<rparr>"
        using a cb 3 by (simp add: pb_read_transfer_def leD)
      then show ?thesis
        using in_callback_reads(1) [OF cb left] cb_left advance_left [OF left] left
        by (simp add: reads_def)
    qed
  qed
qed

lemma and_then_reads:
  assumes "and_then (f s) g = (r, s')"
    and "\<And>x t. f s = (x, t) \<Longrightarrow> reads s t"
    and "\<And>x t. f s = (Some x, t) \<Longrightarrow> g x t = (r, s') \<Longrightarrow> reads t s'"
  shows "reads s s'"
  using assms by (fastforce simp: and_then_def split: prod.splits option.splits intro: reads_trans)

lemma pb_read_skip_reads: "pb_read_skip s count = (r, s') \<Longrightarrow> reads s s'"
proof (induction s count arbitrary: r s' rule: pb_read_skip.induct)
  case (1 s count)
  show ?case
  proof (cases "count > 16")
    case True
    with "1.prems" have "and_then (pb_read_transfer s 16) (\<lambda>_ t. pb_read_skip t (count - 16)) = (r, s')"
      by (simp add: pb_read_skip.simps [of s count])
    then show ?thesis
      by (rule and_then_reads) (use True "1.IH" in \<open>auto intro: pb_read_transfer_reads\<close>)
  next
    case False
    with "1.prems" show ?thesis
      by (simp add: pb_read_skip.simps [of s count] pb_read_transfer_reads)
  qed
qed

lemma pb_read_reads: "pb_read s nul count = (r, s') \<Longrightarrow> reads s s'"
  by (auto simp: pb_read_def intro: pb_read_skip_reads pb_read_transfer_reads split: if_splits)

lemma pb_decode_varint_loop_reads: "pb_decode_varint_loop s v p = (r, s') \<Longrightarrow> reads s s'"
proof (induction s v p arbitrary: r s' rule: pb_decode_varint_loop.induct)
  case (1 s v p)
  show ?case
  proof (cases "64 \<le> p")
    case True
    with "1.prems" show ?thesis
      by (auto simp: pb_decode_varint_loop.simps [of s] intro: reads_ERROR_eq)
  next
    case False
    with "1.prems" show ?thesis
      unfolding pb_decode_varint_loop.simps [of s v p] if_not_P [OF False]
      by (elim and_then_reads)
         (use "1.IH" False in \<open>auto simp: Let_def intro: pb_readbyte_reads split: if_splits\<close>)
  qed
qed

lemma pb_decode_varint32_loop_reads: "pb_decode_varint32_loop s v p = (r, s') \<Longrightarrow> reads s s'"
proof (induction s v p arbitrary: r s' rule: pb_decode_varint32_loop.induct)
  case (1 s v p)
  from "1.prems" show ?case
    unfolding pb_decode_varint32_loop.simps [of s v p]
    by (elim and_then_reads)
       (use "1.IH" in \<open>auto simp: Let_def intro: pb_readbyte_reads reads_ERROR_eq split: if_splits\<close>)
qed

lemma pb_decode_varint32_eof_reads:
  assumes "pb_decode_varint32_eof s = (r, s')"
  shows "reads s s'"
proof -
  obtain b t where rb: "pb_readbyte s = (b, t)" by fastforce
  note rt = pb_readbyte_reads [OF rb]
  show ?thesis
  proof (cases b)
    case None
    with assms rb rt show ?thesis by (simp add: pb_decode_varint32_eof_def)
  next
    case (Some x)
    show ?thesis
    proof (cases "x AND 0x80 = 0")
      case True
      with assms rb rt Some show ?thesis by (simp add: pb_decode_varint32_eof_def)
    next
      case False
      obtain q u where l: "pb_decode_varint32_loop t (ucast (x AND 0x7F)) 7 = (q, u)" by fastforce
      have "reads s u"
        using rt pb_decode_varint32_loop_reads [OF l] by (rule reads_trans)
      moreover have "reads u s'"
        using assms rb Some False l
        by (auto simp: pb_decode_varint32_eof_def split: option.splits if_splits prod.splits
            intro: reads_ERROR_eq)
      ultimately show ?thesis by (rule reads_trans)
    qed
  qed
qed

lemma pb_decode_varint32_reads: "pb_decode_varint32 s = (r, s') \<Longrightarrow> reads s s'"
  by (auto simp: pb_decode_varint32_def split: prod.splits intro: pb_decode_varint32_eof_reads)

lemma pb_skip_varint_reads: "pb_skip_varint s = (r, s') \<Longrightarrow> reads s s'"
proof (induction s arbitrary: r s' rule: pb_skip_varint.induct)
  case (1 s)
  from "1.prems" show ?case
    unfolding pb_skip_varint.simps [of s]
    by (elim and_then_reads) (use "1.IH" in \<open>auto intro: pb_read_reads split: if_splits\<close>)
qed

lemma pb_skip_string_reads: "pb_skip_string s = (r, s') \<Longrightarrow> reads s s'"
  unfolding pb_skip_string_def
  by (elim and_then_reads) (auto intro: pb_decode_varint32_reads pb_read_reads elim!: and_then_reads)

lemma pb_decode_tag_reads: "pb_decode_tag s = (r, s') \<Longrightarrow> reads s s'"
  by (auto simp: pb_decode_tag_def split: prod.splits option.splits if_splits
      intro: pb_decode_varint32_eof_reads)

lemma pb_skip_field_reads: "pb_skip_field s wt = (r, s') \<Longrightarrow> reads s s'"
  unfolding pb_skip_field_def
  by (auto split: if_splits intro: pb_skip_varint_reads pb_skip_string_reads reads_ERROR_eq pb_read_reads
      elim!: and_then_reads)

text \<open>
  C1. The decoder never reads outside its memory: from a well-formed stream, whatever the
  bytes are, decoding a varint, a tag or skipping a field of any wire type, successful or
  not, leaves a well-formed stream (the remaining count is covered by the remaining memory)
  with no more bytes left than before.
\<close>

theorem pb_decoders_memory_safe:
  assumes "wf_istream s"
    and "t \<in> {snd (pb_decode_varint s), snd (pb_decode_varint32 s), snd (pb_decode_tag s),
              snd (pb_skip_field s wt)}"
  shows "wf_istream t \<and> bytes_left t \<le> bytes_left s"
proof -
  have "reads s (snd (pb_decode_varint s))"
    unfolding pb_decode_varint_def by (rule pb_decode_varint_loop_reads) (rule prod.collapse [symmetric])
  moreover have "reads s (snd (pb_decode_varint32 s))"
    by (rule pb_decode_varint32_reads) (rule prod.collapse [symmetric])
  moreover have "reads s (snd (pb_decode_tag s))"
    by (rule pb_decode_tag_reads) (rule prod.collapse [symmetric])
  moreover have "reads s (snd (pb_skip_field s wt))"
    by (rule pb_skip_field_reads) (rule prod.collapse [symmetric])
  ultimately have "reads s t" using assms(2) by blast
  then show ?thesis using assms(1) by (simp add: reads_def word_le_nat_alt)
qed

theorem pb_decoders_memory_safe_witness:
  "wf_istream (snd (pb_skip_field (pb_istream_from_buffer [0x03, 1, 2] 3 :: unit pb_istream) PB_WT_STRING))"
  using pb_decoders_memory_safe
    [of "pb_istream_from_buffer [0x03, 1, 2] 3 :: unit pb_istream" _ PB_WT_STRING]
  by (simp add: wf_istream_def pb_istream_from_buffer_def)

section \<open>Memory safety of the writer\<close>

text \<open>
  C2. Writing to a memory stream changes exactly the bytes between the old and the new
  position: the buffer keeps its length, the bytes before the old position and after the new
  one are untouched, and the stream stays well formed, also when the write is refused with
  ``stream full''.
\<close>

theorem pb_write_memory_safe:
  assumes "wf_ostream s" and "sink s = Buf_write mem pos" and "unat count \<le> length bs"
    and "pb_write s bs count = (r, s')"
  shows "\<exists>mem' pos'. sink s' = Buf_write mem' pos' \<and> wf_ostream s' \<and> length mem' = length mem \<and>
    take pos mem' = take pos mem \<and> drop pos' mem' = drop pos' mem \<and> pos' \<le> length mem \<and>
    (r = Some () \<longleftrightarrow> unat (bytes_written s) + unat count \<le> unat (max_size s)) \<and>
    pos' = (if r = Some () then pos + unat count else pos)"
proof -
  have le: "unat (bytes_written s) \<le> unat (max_size s)"
    and room: "pos + (unat (max_size s) - unat (bytes_written s)) \<le> length mem"
    using assms(1,2) by (auto simp: wf_ostream_def word_le_nat_alt)
  show ?thesis
  proof (cases "unat (bytes_written s) + unat count \<le> unat (max_size s)")
    case True
    have "unat (bytes_written s + count) = unat (bytes_written s) + unat count"
      using True unat_u64_lt [of "max_size s"] by (simp add: unat_word_ariths)
    moreover have "pb_write s bs count = pb_write s (take (unat count) bs) count"
      by (simp add: pb_write_def)
    ultimately show ?thesis
      using assms pb_write_Buf [of s mem pos count "take (unat count) bs"] True le room
      by (auto simp: wf_ostream_def word_le_nat_alt)
  next
    case False
    then have "count > 0" using le by (auto simp: word_gt_0)
    with False assms(2,4) have "PB_RETURN_OERROR s ''stream full'' = (r, s')"
      using pb_write_full [of s count bs] by simp
    with False assms(1,2) room show ?thesis
      by (auto simp: PB_RETURN_OERROR_def wf_ostream_def)
  qed
qed

theorem pb_write_memory_safe_witness:
  "\<exists>mem' pos'. sink (snd (pb_write (pb_ostream_from_buffer [0, 0, 0] 3 :: unit pb_ostream) [7, 8] 2)) =
    Buf_write mem' pos' \<and> length mem' = 3"
proof -
  have "wf_ostream (pb_ostream_from_buffer [0, 0, 0] 3 :: unit pb_ostream)"
    and "sink (pb_ostream_from_buffer [0, 0, 0] 3 :: unit pb_ostream) = Buf_write [0, 0, 0] 0"
    and "unat (2 :: size_t) \<le> length [7, 8 :: byte]"
    by (simp_all add: wf_ostream_def pb_ostream_from_buffer_def)
  from pb_write_memory_safe [OF this prod.collapse [symmetric]] show ?thesis
    by (elim exE conjE) (intro exI conjI, assumption, simp)
qed

section \<open>Round trips through memory buffers\<close>

text \<open>
  C3. Every integer that the encoder writes is read back by the matching decoder, which consumes
  exactly the bytes written: a 64-bit varint (at most ten bytes), a zig-zag encoded signed value,
  and the little-endian fixed-width values of eight and of four bytes.
\<close>

theorem pb_integers_roundtrip:
  assumes cap: "10 \<le> unat cap" and buf: "unat cap \<le> length buf"
  shows "(\<exists>mem s' t. pb_encode_varint (pb_ostream_from_buffer buf cap :: 'u pb_ostream) v = (Some (), s') \<and>
      sink s' = Buf_write mem (unat (bytes_written s')) \<and> unat (bytes_written s') \<le> 10 \<and>
      pb_decode_varint (pb_istream_from_buffer mem (bytes_written s') :: 'u pb_istream) = (Some v, t) \<and>
      bytes_left t = 0 \<and> errmsg t = None) \<and>
    (\<exists>mem s' t. pb_encode_svarint (pb_ostream_from_buffer buf cap :: 'u pb_ostream) i = (Some (), s') \<and>
      sink s' = Buf_write mem (unat (bytes_written s')) \<and>
      pb_decode_svarint (pb_istream_from_buffer mem (bytes_written s') :: 'u pb_istream) = (Some i, t) \<and>
      bytes_left t = 0 \<and> errmsg t = None) \<and>
    (\<exists>mem s' t. pb_encode_fixed64 (pb_ostream_from_buffer buf cap :: 'u pb_ostream) f = (Some (), s') \<and>
      sink s' = Buf_write mem (unat (bytes_written s')) \<and> unat (bytes_written s') = 8 \<and>
      pb_decode_fixed64 (pb_istream_from_buffer mem (bytes_written s') :: 'u pb_istream) = (Some f, t) \<and>
      bytes_left t = 0) \<and>
    (\<exists>mem s' t. pb_encode_fixed32 (pb_ostream_from_buffer buf cap :: 'u pb_ostream) w = (Some (), s') \<and>
      sink s' = Buf_write mem (unat (bytes_written s')) \<and> unat (bytes_written s') = 4 \<and>
      pb_decode_fixed32 (pb_istream_from_buffer mem (bytes_written s') :: 'u pb_istream) = (Some w, t) \<and>
      bytes_left t = 0)"
proof (intro conjI)
  have v: "length (varint_enc (unat v)) \<le> unat cap" "length (varint_enc (unat (zigzag i))) \<le> unat cap"
    using length_varint_enc_u64 [of v] length_varint_enc_u64 [of "zigzag i"] cap by simp_all
  show "\<exists>mem s' t. pb_encode_varint (pb_ostream_from_buffer buf cap :: 'u pb_ostream) v = (Some (), s') \<and>
      sink s' = Buf_write mem (unat (bytes_written s')) \<and> unat (bytes_written s') \<le> 10 \<and>
      pb_decode_varint (pb_istream_from_buffer mem (bytes_written s') :: 'u pb_istream) = (Some v, t) \<and>
      bytes_left t = 0 \<and> errmsg t = None"
    using varint.roundtrip [OF _ v(1) buf, where ?'a = 'u] length_varint_enc_u64 [of v] by fastforce
  show "\<exists>mem s' t. pb_encode_svarint (pb_ostream_from_buffer buf cap :: 'u pb_ostream) i = (Some (), s') \<and>
      sink s' = Buf_write mem (unat (bytes_written s')) \<and>
      pb_decode_svarint (pb_istream_from_buffer mem (bytes_written s') :: 'u pb_istream) = (Some i, t) \<and>
      bytes_left t = 0 \<and> errmsg t = None"
    using svarint.roundtrip [OF _ v(2) buf] by blast
qed (use fixed64.roundtrip [of f cap buf] fixed32.roundtrip [of w cap buf] cap buf in \<open>simp, blast\<close>)+

theorem pb_integers_roundtrip_witness:
  "\<exists>mem s' t. pb_encode_fixed32 (pb_ostream_from_buffer (replicate 16 0) 16 :: unit pb_ostream) 0xDEADBEEF = (Some (), s') \<and>
      pb_decode_fixed32 (pb_istream_from_buffer mem (bytes_written s') :: unit pb_istream) = (Some 0xDEADBEEF, t) \<and>
      bytes_left t = 0"
proof -
  have "10 \<le> unat (16 :: size_t)" and "unat (16 :: size_t) \<le> length (replicate 16 (0 :: byte))"
    by simp_all
  from pb_integers_roundtrip [OF this, where ?'u = unit] show ?thesis by blast
qed

text \<open>
  A tag written for a field number below \<open>2 ^ 29\<close> and a wire type of three bits is read
  back by \<open>pb_decode_tag\<close> as the same pair, without raising end of file, and the bytes that
  follow it are left in the stream.
\<close>

theorem pb_tag_roundtrip:
  assumes "unat wt < 8" and "unat tag < 2 ^ 29" and "tag \<noteq> 0"
    and "sink s = Buf_write mem pos" and "pos \<le> length mem"
    and "unat (bytes_written s) + length (varint_enc (tag_word wt tag)) \<le> unat (max_size s)"
    and "length (varint_enc (tag_word wt tag)) \<le> unat n"
  shows "\<exists>s' mem' t. pb_encode_tag s wt tag = (Some (), s') \<and>
    sink s' = Buf_write mem' (pos + length (varint_enc (tag_word wt tag))) \<and>
    pb_decode_tag (pb_istream_from_buffer (drop pos mem') n :: 'v pb_istream) = ((Some (wt, tag), False), t) \<and>
    source t = Buf_read (drop (pos + length (varint_enc (tag_word wt tag))) mem')"
proof -
  let ?e = "varint_enc (tag_word wt tag)"
  let ?mem = "take pos mem @ ?e @ drop (pos + length ?e) mem"
  have "length ?e < 2 ^ 64"
    using assms(6) unat_u64_lt [of "max_size s"] by simp
  then have "unat (of_nat (length ?e) :: size_t) = length ?e" by (intro unat_of_nat_less) simp
  from pb_write_Buf [OF assms(4) this assms(6)]
  have "pb_encode_tag s wt tag = (Some (), s\<lparr>sink := Buf_write ?mem (pos + length ?e),
      bytes_written := bytes_written s + of_nat (length ?e)\<rparr>)"
    by (simp add: pb_encode_tag_eq [OF assms(1)])
  moreover have "drop pos ?mem = ?e @ drop (pos + length ?e) mem"
    using assms(5) by simp
  then have "pb_decode_tag (pb_istream_from_buffer (drop pos ?mem) n :: 'v pb_istream) =
    ((Some (wt, tag), False), advance (pb_istream_from_buffer (drop pos ?mem) n) (length ?e)
       (drop (pos + length ?e) mem))"
    using assms(1,2,3,7) by (intro pb_decode_tag_enc) (simp_all add: pb_istream_from_buffer_def)
  moreover have "drop (pos + length ?e) ?mem = drop (pos + length ?e) mem"
    using assms(5) by simp
  ultimately show ?thesis by simp
qed

theorem pb_tag_roundtrip_witness:
  "\<exists>s' mem' t. pb_encode_tag (pb_ostream_from_buffer (replicate 16 0) 16 :: unit pb_ostream) PB_WT_STRING 5 = (Some (), s') \<and>
    sink s' = Buf_write mem' 1 \<and>
    pb_decode_tag (pb_istream_from_buffer mem' 16 :: unit pb_istream) = ((Some (PB_WT_STRING, 5), False), t)"
proof -
  let ?s = "pb_ostream_from_buffer (replicate 16 0) 16 :: unit pb_ostream"
  have e: "varint_enc (tag_word PB_WT_STRING 5) = [byte_of 42]"
    by (simp add: tag_word_def PB_WT_STRING_def)
  have "unat PB_WT_STRING < 8" "unat (5 :: u32) < 2 ^ 29" "(5 :: u32) \<noteq> 0"
    "sink ?s = Buf_write (replicate 16 0) 0" "0 \<le> length (replicate 16 (0 :: byte))"
    "unat (bytes_written ?s) + length (varint_enc (tag_word PB_WT_STRING 5)) \<le> unat (max_size ?s)"
    "length (varint_enc (tag_word PB_WT_STRING 5)) \<le> unat (16 :: size_t)"
    by (simp_all add: tag_word_def pb_ostream_from_buffer_def PB_WT_STRING_def)
  from pb_tag_roundtrip [OF this, where ?'v = unit] show ?thesis by (simp add: e) blast
qed

text \<open>The bytes of one field value of a given wire type.\<close>

definition wire_value :: "pb_wire_type_t \<Rightarrow> byte list \<Rightarrow> bool" where
  "wire_value wt bs \<longleftrightarrow>
     (wt = PB_WT_VARINT \<and> (\<exists>n. bs = varint_enc n)) \<or>
     (wt = PB_WT_64BIT \<and> length bs = 8) \<or>
     (wt = PB_WT_32BIT \<and> length bs = 4) \<or>
     (wt = PB_WT_STRING \<and> (\<exists>str. bs = string_enc str \<and> length str < 2 ^ 32))"

text \<open>
  Skipping an unknown field consumes exactly its value: for a varint of any length, a
  fixed-width value or a length-delimited value, \<open>pb_skip_field\<close> succeeds and leaves the stream
  at the byte after it; every other wire type is refused with an error and nothing is read.
\<close>

theorem pb_skip_field_exact:
  assumes "source t = Buf_read (bs @ m)" and "length bs \<le> unat (bytes_left t)"
  shows "(wire_value wt bs \<longrightarrow> pb_skip_field t wt = (Some (), advance t (length bs) m)) \<and>
    (wt \<notin> {PB_WT_VARINT, PB_WT_64BIT, PB_WT_STRING, PB_WT_32BIT} \<longrightarrow>
       pb_skip_field t wt = PB_RETURN_ERROR t ''invalid wire_type'')"
proof (intro conjI impI)
  assume "wt \<notin> {PB_WT_VARINT, PB_WT_64BIT, PB_WT_STRING, PB_WT_32BIT}"
  then show "pb_skip_field t wt = PB_RETURN_ERROR t ''invalid wire_type''"
    by (simp add: pb_skip_field_def)
next
  note wts = PB_WT_VARINT_def PB_WT_64BIT_def PB_WT_STRING_def PB_WT_32BIT_def
  assume "wire_value wt bs"
  then consider n where "wt = PB_WT_VARINT" "bs = varint_enc n"
    | "wt = PB_WT_64BIT" "length bs = 8" | "wt = PB_WT_32BIT" "length bs = 4"
    | str where "wt = PB_WT_STRING" "bs = string_enc str" "length str < 2 ^ 32"
    unfolding wire_value_def by blast
  then show "pb_skip_field t wt = (Some (), advance t (length bs) m)"
  proof cases
    case 1
    with assms show ?thesis by (simp add: pb_skip_field_def pb_skip_varint_enc)
  next
    case 2
    with assms pb_read_advance [of t bs m 8 True] show ?thesis
      by (simp add: pb_skip_field_def wts)
  next
    case 3
    with assms pb_read_advance [of t bs m 4 True] show ?thesis
      by (simp add: pb_skip_field_def wts)
  next
    case 4
    with assms show ?thesis by (simp add: pb_skip_field_def wts pb_skip_string_enc)
  qed
qed

theorem pb_skip_field_exact_witness:
  "pb_skip_field (pb_istream_from_buffer (string_enc [1, 2, 3] @ [9]) 5 :: unit pb_istream) PB_WT_STRING =
    (Some (), advance (pb_istream_from_buffer (string_enc [1, 2, 3] @ [9]) 5) 4 [9])"
proof -
  let ?t = "pb_istream_from_buffer (string_enc [1, 2, 3] @ [9]) 5 :: unit pb_istream"
  have "source ?t = Buf_read (string_enc [1, 2, 3] @ [9])"
    and "length (string_enc [1, 2, 3]) \<le> unat (bytes_left ?t)"
    by (simp_all add: pb_istream_from_buffer_def string_enc_def)
  moreover have "wire_value PB_WT_STRING (string_enc [1, 2, 3])"
    unfolding wire_value_def by (intro disjI2) (auto intro: exI [of _ "[1, 2, 3]"])
  ultimately show ?thesis
    using pb_skip_field_exact [of ?t "string_enc [1, 2, 3]" "[9]" PB_WT_STRING]
    by (simp add: string_enc_def)
qed

lemma splice_next:
  assumes "pos \<le> length mem"
  shows "take (pos + length e) (take pos mem @ e @ r) = take pos mem @ e"
    and "drop (pos + length e + k) (take pos mem @ e @ drop (pos + length e) mem) =
      drop (pos + length e + k) mem"
  using assms by (simp_all add: add.commute add.left_commute)

lemma pb_encode_string_fits:
  assumes "sink s = Buf_write mem pos" and "pos \<le> length mem"
    and "unat (bytes_written s) + length (string_enc bs) \<le> unat (max_size s)"
  shows "pb_encode_string s bs (of_nat (length bs)) =
    (Some (), s\<lparr>sink := Buf_write (take pos mem @ string_enc bs @ drop (pos + length (string_enc bs)) mem)
                                  (pos + length (string_enc bs)),
               bytes_written := bytes_written s + of_nat (length (string_enc bs))\<rparr>)"
proof -
  let ?e = "varint_enc (length bs)"
  have len: "length ?e + length bs < 2 ^ 64"
    using assms(3) unat_u64_lt [of "max_size s"] by (simp add: string_enc_def)
  then have ub: "unat (of_nat (length bs) :: size_t) = length bs"
    and ue: "unat (of_nat (length ?e) :: size_t) = length ?e"
    by (auto intro!: unat_of_nat_less)
  let ?snext = "s\<lparr>sink := Buf_write (take pos mem @ ?e @ drop (pos + length ?e) mem) (pos + length ?e),
               bytes_written := bytes_written s + of_nat (length ?e)\<rparr>"
  have "pb_encode_varint s (of_nat (length bs)) = (Some (), ?snext)"
    using pb_write_Buf [OF assms(1) ue] assms(3) by (simp add: pb_encode_varint_eq ub string_enc_def)
  moreover have "unat (bytes_written s + of_nat (length ?e)) = unat (bytes_written s) + length ?e"
    using assms(3) unat_u64_lt [of "max_size s"] by (simp add: unat_word_ariths ue string_enc_def)
  then have "pb_write ?snext bs (of_nat (length bs)) =
    (Some (), ?snext\<lparr>sink := Buf_write (take pos mem @ ?e @ bs @ drop (pos + length ?e + length bs) mem)
                         (pos + length ?e + length bs),
                  bytes_written := bytes_written ?snext + of_nat (length bs)\<rparr>)"
    using pb_write_Buf [of ?snext "take pos mem @ ?e @ drop (pos + length ?e) mem" "pos + length ?e"
        "of_nat (length bs)" bs, OF _ ub] assms(3)
    by (simp only: splice_next [OF assms(2)]) (simp add: string_enc_def)
  ultimately show ?thesis
    by (simp add: pb_encode_string_def string_enc_def add.assoc)
qed

text \<open>
  A byte string written by \<open>pb_encode_string\<close> comes back through a substream: opening the
  substream, reading all of it and closing it yields the same bytes and leaves the parent
  stream exactly behind them.
\<close>

theorem pb_string_substream_roundtrip:
  assumes "length bs < 2 ^ 32" and "length (string_enc bs) \<le> unat cap" and "unat cap \<le> length buf"
  shows "\<exists>s' mem sub t sub' t'.
    pb_encode_string (pb_ostream_from_buffer buf cap :: 'u pb_ostream) bs (of_nat (length bs)) = (Some (), s') \<and>
    sink s' = Buf_write mem (unat (bytes_written s')) \<and>
    pb_make_string_substream (pb_istream_from_buffer mem cap :: 'u pb_istream) = (Some sub, t) \<and>
    pb_read sub False (bytes_left sub) = (Some bs, sub') \<and>
    pb_close_string_substream t sub' = (Some (), t') \<and>
    source t' = Buf_read (drop (unat (bytes_written s')) mem) \<and>
    unat (bytes_left t') = unat cap - length (string_enc bs)"
proof -
  let ?k = "length (string_enc bs)" and ?rest = "drop (length (string_enc bs)) buf"
  let ?mem = "string_enc bs @ ?rest"
  let ?strm = "pb_istream_from_buffer ?mem cap :: 'u pb_istream"
  have enc: "pb_encode_string (pb_ostream_from_buffer buf cap :: 'u pb_ostream) bs (of_nat (length bs)) =
    (Some (), (pb_ostream_from_buffer buf cap)\<lparr>sink := Buf_write ?mem ?k, bytes_written := of_nat ?k\<rparr>)"
    using pb_encode_string_fits [of "pb_ostream_from_buffer buf cap" buf 0 bs] assms(2)
    by (simp add: pb_ostream_from_buffer_def)
  have k: "unat (of_nat ?k :: size_t) = ?k"
    using assms(2) unat_u64_lt [of cap] by (intro unat_of_nat_less) simp
  have b: "unat (of_nat (length bs) :: size_t) = length bs"
    using assms(1) by (intro unat_of_nat_less) simp
  let ?sub = "?strm\<lparr>source := Buf_read (bs @ ?rest), bytes_left := of_nat (length bs)\<rparr>"
  let ?t = "?strm\<lparr>source := Buf_read (bs @ ?rest), bytes_left := cap - of_nat ?k\<rparr>"
  have mk: "pb_make_string_substream ?strm = (Some ?sub, ?t)"
    by (subst pb_make_string_substream_enc [of ?strm bs ?rest])
       (use assms in \<open>simp_all add: pb_istream_from_buffer_def\<close>)
  have rd: "pb_read ?sub False (bytes_left ?sub) = (Some bs, advance ?sub (length bs) ?rest)"
    by (subst pb_read_advance [of ?sub bs ?rest]) (simp_all add: b)
  have cl: "pb_close_string_substream ?t (advance ?sub (length bs) ?rest) =
      (Some (), ?t\<lparr>source := Buf_read ?rest\<rparr>)"
    by (simp add: pb_close_string_substream_def pb_istream_from_buffer_def)
  have left: "unat (cap - of_nat ?k) = unat cap - ?k"
    using advance_left [of ?k ?strm] assms(2) by (simp add: pb_istream_from_buffer_def)
  show ?thesis
    by (rule exI, rule exI [of _ ?mem], intro exI conjI, rule enc, simp add: k, rule mk, rule rd, rule cl)
       (simp_all add: k left)
qed

theorem pb_string_substream_roundtrip_witness:
  "\<exists>s' mem sub t.
    pb_encode_string (pb_ostream_from_buffer (replicate 8 0) 8 :: unit pb_ostream) [1, 2, 3] 3 = (Some (), s') \<and>
    sink s' = Buf_write mem (unat (bytes_written s')) \<and>
    pb_make_string_substream (pb_istream_from_buffer mem 8 :: unit pb_istream) = (Some sub, t)"
proof -
  have "length [1, 2, 3 :: byte] < 2 ^ 32" "length (string_enc [1, 2, 3]) \<le> unat (8 :: size_t)"
    "unat (8 :: size_t) \<le> length (replicate 8 (0 :: byte))"
    by (simp_all add: string_enc_def)
  from pb_string_substream_roundtrip [OF this, where ?'u = unit] show ?thesis
    by simp blast
qed

section \<open>Bounds, truncation and overlong input\<close>

lemma pb_decode_varint_loop_consumes:
  assumes "pb_decode_varint_loop s v p = (Some r, s')" and "unat p = 7 * k" and "k \<le> 9"
  shows "unat (bytes_left s') < unat (bytes_left s) \<and>
    unat (bytes_left s) \<le> unat (bytes_left s') + (10 - k)"
  using assms
proof (induction s v p arbitrary: r s' k rule: pb_decode_varint_loop.induct)
  case (1 s v p)
  have p: "\<not> 64 \<le> p" using "1.prems"(2,3) by (simp add: word_le_nat_alt)
  with "1.prems"(1) obtain b t where rb: "pb_readbyte s = (Some b, t)"
    and tail: "(if b AND 0x80 \<noteq> 0
       then pb_decode_varint_loop t (v OR push_bit (unat p) (ucast (b AND 0x7F))) (p + 7)
       else (Some (v OR push_bit (unat p) (ucast (b AND 0x7F))), t)) = (Some r, s')"
    by (auto simp: pb_decode_varint_loop.simps [of s] Let_def elim: and_then_SomeE)
  have t: "unat (bytes_left t) + 1 = unat (bytes_left s)"
    using pb_readbyte_less [OF rb] unat_minus_le [of 1 "bytes_left s"]
    by (simp add: word_le_nat_alt)
  show ?case
  proof (cases "b AND 0x80 \<noteq> 0")
    case False
    with tail t "1.prems"(3) show ?thesis by auto
  next
    case True
    then have rec: "pb_decode_varint_loop t (v OR push_bit (unat p) (ucast (b AND 0x7F))) (p + 7) = (Some r, s')"
      using tail by simp
    have p7: "unat (p + 7) = 7 * Suc k"
      using "1.prems"(2,3) by (simp add: unat_word_ariths)
    have "k \<noteq> 9"
    proof
      assume "k = 9"
      with p7 have "64 \<le> p + 7" by (simp add: word_le_nat_alt)
      with rec show False by (simp add: pb_decode_varint_loop.simps [of t])
    qed
    with "1.prems"(3) have "Suc k \<le> 9" by simp
    with "1.IH" [OF p rb refl True rec p7] t show ?thesis by auto
  qed
qed

text \<open>
  \<open>pb_decode_varint\<close> on any stream, with any callback: a successful decode consumes between
  one and ten bytes.
\<close>

theorem pb_decode_varint_consumes:
  assumes "pb_decode_varint s = (Some v, s')"
  shows "unat (bytes_left s') + 1 \<le> unat (bytes_left s) \<and>
    unat (bytes_left s) \<le> unat (bytes_left s') + 10"
  using pb_decode_varint_loop_consumes [of s 0 0 v s' 0] assms by (simp add: pb_decode_varint_def)

theorem pb_decode_varint_consumes_witness:
  "unat (bytes_left (advance (pb_istream_from_buffer [5, 6] 2 :: unit pb_istream) 1 [6])) + 1 \<le> 2"
proof -
  let ?s = "pb_istream_from_buffer [5, 6] 2 :: unit pb_istream"
  have "pb_decode_varint ?s = (Some 5, advance ?s 1 [6])"
    using pb_decode_varint_enc [of ?s 5 "[6]"] by (simp add: pb_istream_from_buffer_def byte_of_def)
  from pb_decode_varint_consumes [OF this] show ?thesis by (simp add: pb_istream_from_buffer_def)
qed

lemma pb_decode_varint_loop_truncated:
  assumes "source s = Buf_read (varint_enc n @ m)" and "unat (bytes_left s) < length (varint_enc n)"
    and "unat p < 64" and "n * 2 ^ unat p < 2 ^ 64" and "errmsg s = None"
  shows "\<exists>t. pb_decode_varint_loop s r p = (None, t) \<and> bytes_left t = 0 \<and> errmsg t = Some ''end-of-stream''"
  using assms
proof (induction n arbitrary: s r p rule: varint_enc.induct)
  case (1 n)
  have p64: "\<not> 64 \<le> p" using "1.prems"(3) by (simp add: word_le_nat_alt)
  show ?case
  proof (cases "bytes_left s = 0")
    case True
    with p64 "1.prems"(5) show ?thesis
      by (simp add: pb_decode_varint_loop.simps [of s] pb_readbyte_def PB_RETURN_ERROR_def)
  next
    case False
    let ?n = "n div 128"
    have left: "1 \<le> unat (bytes_left s)" using False by (simp add: Suc_le_eq unat_gt_0)
    have big: "\<not> n < 128" using "1.prems"(2) left by auto
    then have enc: "varint_enc n = byte_of (n mod 128 + 128) # varint_enc ?n"
      by (simp add: varint_enc_big)
    have rb: "pb_readbyte s = (Some (byte_of (n mod 128 + 128)), advance s 1 (varint_enc ?n @ m))"
      using "1.prems"(1) enc left by (intro pb_readbyte_advance) simp_all
    have "2 ^ (unat p + 7) \<le> n * 2 ^ unat p" using big by (simp add: power_add)
    then have "(2::nat) ^ (unat p + 7) < 2 ^ 64" using "1.prems"(4) by linarith
    then have p7: "unat p + 7 < 64" by (simp only: power_strict_increasing_iff)
    then have up: "unat (p + 7) = unat p + 7" by (simp add: unat_word_ariths)
    have "?n * 2 ^ (unat p + 7) < 2 ^ 64"
      using "1.prems"(4) split_digit [of n "unat p" 7] by simp
    then have "\<exists>t. pb_decode_varint_loop (advance s 1 (varint_enc ?n @ m)) r' (p + 7) = (None, t) \<and>
        bytes_left t = 0 \<and> errmsg t = Some ''end-of-stream''" for r'
      using "1.IH" [OF big, of "advance s 1 (varint_enc ?n @ m)" "p + 7" r'] p7 up "1.prems"(2,5) enc left
        advance_left [OF left] by simp
    then show ?thesis
      using p64 by (simp add: pb_decode_varint_loop.simps [of s] rb continuation_byte Let_def)
  qed
qed

text \<open>
  A truncated varint is an error: when the stream ends inside the encoding of a value,
  \<open>pb_decode_varint\<close> fails with ``end-of-stream'' (or keeps the earlier error message) and the
  stream is exhausted.
\<close>

theorem pb_decode_varint_truncated:
  fixes v :: u64
  assumes "unat n < length (varint_enc (unat v))"
  shows "\<exists>t. pb_decode_varint (pb_istream_from_buffer (varint_enc (unat v) @ m) n :: 'u pb_istream) = (None, t) \<and>
    bytes_left t = 0 \<and> errmsg t = Some ''end-of-stream''"
  using pb_decode_varint_loop_truncated [of "pb_istream_from_buffer (varint_enc (unat v) @ m) n" "unat v" m 0 0]
    assms unat_u64_lt [of v]
  by (simp add: pb_decode_varint_def pb_istream_from_buffer_def)

theorem pb_decode_varint_truncated_witness:
  "\<exists>t. pb_decode_varint (pb_istream_from_buffer (varint_enc (unat (300 :: u64)) @ []) 1 :: unit pb_istream) = (None, t) \<and>
    bytes_left t = 0 \<and> errmsg t = Some ''end-of-stream''"
  by (rule pb_decode_varint_truncated) (simp add: varint_enc_big)

text \<open>
  On the encoding of any 32-bit value the 32-bit decoder used for tags and lengths agrees
  with the 64-bit decoder: same value, same bytes consumed, same stream afterwards.
\<close>

theorem pb_decode_varint32_agrees:
  fixes v :: u32
  assumes "source t = Buf_read (varint_enc (unat v) @ m)"
    and "length (varint_enc (unat v)) \<le> unat (bytes_left t)"
  shows "pb_decode_varint32 t = (Some v, advance t (length (varint_enc (unat v))) m) \<and>
    pb_decode_varint t = (Some (ucast v), advance t (length (varint_enc (unat v))) m)"
proof -
  have "unat (ucast v :: u64) = unat v"
    using unat_u32_lt [of v] by (simp add: unat_ucast_mod)
  then show ?thesis
    using assms pb_decode_varint32_enc [OF assms] pb_decode_varint_enc [of t "ucast v" m] by simp
qed

theorem pb_decode_varint32_agrees_witness:
  "pb_decode_varint32 (pb_istream_from_buffer (varint_enc (unat (300 :: u32)) @ [7]) 3 :: unit pb_istream) =
    (Some 300, advance (pb_istream_from_buffer (varint_enc (unat (300 :: u32)) @ [7]) 3) 2 [7])"
proof -
  let ?t = "pb_istream_from_buffer (varint_enc (unat (300 :: u32)) @ [7]) 3 :: unit pb_istream"
  have len: "length (varint_enc 300) = 2" by (simp add: varint_enc_big)
  have "source ?t = Buf_read (varint_enc (unat (300 :: u32)) @ [7])"
    and "length (varint_enc (unat (300 :: u32))) \<le> unat (bytes_left ?t)"
    by (simp_all add: pb_istream_from_buffer_def varint_enc_big)
  from pb_decode_varint32_agrees [OF this] show ?thesis by (simp add: len)
qed


end
