(* ===== verification/Mem.thy ===== *)
theory Mem
  imports Prelude
begin

text \<open>
  BoringSSL's memory and string helpers (crypto/mem.c). The C library's \<open>malloc\<close> is the
  parameter \<open>mal\<close>: for a size it returns a block of fresh bytes or nothing. A block is the
  list of its bytes; the size word that \<open>OPENSSL_malloc\<close> keeps in front of a block is its
  length. C strings are byte lists read up to their terminating zero.
\<close>

section \<open>Allocation\<close>

type_synonym malloc = "nat \<Rightarrow> byte list option"

definition SIZE_MAX :: nat where "SIZE_MAX = 2 ^ 64 - 1"
definition OPENSSL_MALLOC_PREFIX :: nat where "OPENSSL_MALLOC_PREFIX = 8"

text \<open>Addition of \<open>size_t\<close> values.\<close>

definition size_add :: "nat \<Rightarrow> nat \<Rightarrow> nat" where
  "size_add a b = (a + b) mod 2 ^ 64"

definition OPENSSL_malloc :: "malloc \<Rightarrow> nat \<Rightarrow> byte list option" where
  "OPENSSL_malloc mal sz =
     (if size_add sz OPENSSL_MALLOC_PREFIX < sz then None
      else map_option (drop OPENSSL_MALLOC_PREFIX) (mal (sz + OPENSSL_MALLOC_PREFIX)))"

definition OPENSSL_zalloc :: "malloc \<Rightarrow> nat \<Rightarrow> byte list option" where
  "OPENSSL_zalloc mal sz =
     (case OPENSSL_malloc mal sz of None \<Rightarrow> None | Some ret \<Rightarrow> Some (replicate sz 0))"

definition OPENSSL_calloc :: "malloc \<Rightarrow> nat \<Rightarrow> nat \<Rightarrow> byte list option" where
  "OPENSSL_calloc mal num sz =
     (if sz \<noteq> 0 \<and> num > SIZE_MAX div sz then None else OPENSSL_zalloc mal (num * sz))"

text \<open>The old block is \<open>None\<close> for a null pointer.\<close>

definition OPENSSL_realloc :: "malloc \<Rightarrow> byte list option \<Rightarrow> nat \<Rightarrow> byte list option" where
  "OPENSSL_realloc mal orig new_size =
     (case orig of
        None \<Rightarrow> OPENSSL_malloc mal new_size
      | Some block \<Rightarrow>
          (case OPENSSL_malloc mal new_size of
             None \<Rightarrow> None
           | Some ret \<Rightarrow>
               let old_size = length block;
                   to_copy = (if old_size < new_size then old_size else new_size)
               in Some (take to_copy block @ drop to_copy ret)))"

definition OPENSSL_memdup :: "malloc \<Rightarrow> byte list \<Rightarrow> nat \<Rightarrow> byte list option" where
  "OPENSSL_memdup mal data sz =
     (if sz = 0 then None
      else case OPENSSL_malloc mal sz of None \<Rightarrow> None | Some ret \<Rightarrow> Some (take sz data))"

text \<open>The contract of \<open>malloc\<close>: a returned block has the size asked for.\<close>

definition malloc_sized :: "malloc \<Rightarrow> bool" where
  "malloc_sized mal \<longleftrightarrow> (\<forall>n b. mal n = Some b \<longrightarrow> length b = n)"

section \<open>Characters\<close>

definition OPENSSL_isalpha :: "int \<Rightarrow> bool" where
  "OPENSSL_isalpha c \<longleftrightarrow> (c \<ge> 97 \<and> c \<le> 122) \<or> (c \<ge> 65 \<and> c \<le> 90)"

definition OPENSSL_isdigit :: "int \<Rightarrow> bool" where
  "OPENSSL_isdigit c \<longleftrightarrow> c \<ge> 48 \<and> c \<le> 57"

definition OPENSSL_isxdigit :: "int \<Rightarrow> bool" where
  "OPENSSL_isxdigit c \<longleftrightarrow> OPENSSL_isdigit c \<or> (c \<ge> 97 \<and> c \<le> 102) \<or> (c \<ge> 65 \<and> c \<le> 70)"

definition OPENSSL_fromxdigit :: "int \<Rightarrow> byte option" where
  "OPENSSL_fromxdigit c =
     (if OPENSSL_isdigit c then Some (of_int (c - 48))
      else if 97 \<le> c \<and> c \<le> 102 then Some (of_int (c - 97 + 10))
      else if 65 \<le> c \<and> c \<le> 70 then Some (of_int (c - 65 + 10))
      else None)"

definition OPENSSL_isalnum :: "int \<Rightarrow> bool" where
  "OPENSSL_isalnum c \<longleftrightarrow> OPENSSL_isalpha c \<or> OPENSSL_isdigit c"

definition OPENSSL_tolower :: "int \<Rightarrow> int" where
  "OPENSSL_tolower c = (if c \<ge> 65 \<and> c \<le> 90 then c + (97 - 65) else c)"

definition OPENSSL_isspace :: "int \<Rightarrow> bool" where
  "OPENSSL_isspace c \<longleftrightarrow> c = 9 \<or> c = 10 \<or> c = 11 \<or> c = 12 \<or> c = 13 \<or> c = 32"

section \<open>Memory and strings\<close>

text \<open>The accumulator of the constant-time comparison; the result is zero for equal memory.\<close>

fun memcmp_loop :: "byte \<Rightarrow> byte list \<Rightarrow> byte list \<Rightarrow> nat \<Rightarrow> byte" where
  "memcmp_loop x a b 0 = x"
| "memcmp_loop x a b (Suc n) = memcmp_loop (x OR (hd a XOR hd b)) (tl a) (tl b) n"

definition CRYPTO_memcmp :: "byte list \<Rightarrow> byte list \<Rightarrow> nat \<Rightarrow> byte" where
  "CRYPTO_memcmp a b len = memcmp_loop 0 a b len"

fun hash32_loop :: "u32 \<Rightarrow> byte list \<Rightarrow> u32" where
  "hash32_loop h [] = h"
| "hash32_loop h (b # bs) = hash32_loop ((h XOR ucast b) * 16777619) bs"

definition OPENSSL_hash32 :: "byte list \<Rightarrow> nat \<Rightarrow> u32" where
  "OPENSSL_hash32 p len = hash32_loop 2166136261 (take len p)"

text \<open>\<open>strlen\<close> of the C library.\<close>

definition strlen :: "byte list \<Rightarrow> nat" where
  "strlen s = length (takeWhile (\<lambda>c. c \<noteq> 0) s)"

text \<open>\<open>strcmp\<close> of the C library; a list without a zero ends at its end.\<close>

fun strcmp :: "byte list \<Rightarrow> byte list \<Rightarrow> int" where
  "strcmp (a # as) (b # bs) = (if a \<noteq> b then uint a - uint b else if a = 0 then 0 else strcmp as bs)"
| "strcmp [] [] = 0"
| "strcmp (a # as) [] = uint a"
| "strcmp [] (b # bs) = - uint b"

definition OPENSSL_strhash :: "byte list \<Rightarrow> u32" where
  "OPENSSL_strhash s = OPENSSL_hash32 s (strlen s)"

fun OPENSSL_strnlen :: "byte list \<Rightarrow> nat \<Rightarrow> nat" where
  "OPENSSL_strnlen s 0 = 0"
| "OPENSSL_strnlen s (Suc len) = (if hd s = 0 then 0 else Suc (OPENSSL_strnlen (tl s) len))"

definition OPENSSL_strdup :: "malloc \<Rightarrow> byte list option \<Rightarrow> byte list option" where
  "OPENSSL_strdup mal s0 =
     (case s0 of
        None \<Rightarrow> None
      | Some s \<Rightarrow>
          let len = strlen s + 1 in
          (case OPENSSL_malloc mal len of None \<Rightarrow> None | Some ret \<Rightarrow> Some (take len s)))"

definition OPENSSL_strndup :: "malloc \<Rightarrow> byte list \<Rightarrow> nat \<Rightarrow> byte list option" where
  "OPENSSL_strndup mal str sz0 =
     (let sz = OPENSSL_strnlen str sz0;
          alloc_size = size_add sz 1
      in if alloc_size < sz then None
         else case OPENSSL_malloc mal alloc_size of
                None \<Rightarrow> None
              | Some ret \<Rightarrow> Some ((take sz str @ drop sz ret)[sz := 0]))"

text \<open>
  Comparison of two C strings, byte by byte, with \<open>char\<close> signed as on the targets of the
  code; \<open>None\<close> stands for reading past the end of an unterminated string.
\<close>

fun OPENSSL_strcasecmp :: "byte list \<Rightarrow> byte list \<Rightarrow> int option" where
  "OPENSSL_strcasecmp (a # as) (b # bs) =
     (let aa = OPENSSL_tolower (sint a); bb = OPENSSL_tolower (sint b) in
      if aa < bb then Some (- 1)
      else if aa > bb then Some 1
      else if aa = 0 then Some 0
      else OPENSSL_strcasecmp as bs)"
| "OPENSSL_strcasecmp _ _ = None"

fun OPENSSL_strncasecmp :: "byte list \<Rightarrow> byte list \<Rightarrow> nat \<Rightarrow> int option" where
  "OPENSSL_strncasecmp _ _ 0 = Some 0"
| "OPENSSL_strncasecmp (a # as) (b # bs) (Suc n) =
     (let aa = OPENSSL_tolower (sint a); bb = OPENSSL_tolower (sint b) in
      if aa < bb then Some (- 1)
      else if aa > bb then Some 1
      else if aa = 0 then Some 0
      else OPENSSL_strncasecmp as bs n)"
| "OPENSSL_strncasecmp _ _ (Suc n) = None"

text \<open>
  The copying loop with the store after it: the memory at \<open>dst\<close>, the number of bytes copied
  and the rest of the source.
\<close>

fun strlcpy_loop :: "byte list \<Rightarrow> byte list \<Rightarrow> nat \<Rightarrow> byte list \<times> nat \<times> byte list" where
  "strlcpy_loop dst src dst_size =
     (if dst_size > 1 \<and> hd src \<noteq> 0 then
        (let (dst', l, src') = strlcpy_loop (tl dst) (tl src) (dst_size - 1) in (hd src # dst', Suc l, src'))
      else ((if dst_size \<noteq> 0 then 0 # tl dst else dst), 0, src))"

definition OPENSSL_strlcpy :: "byte list \<Rightarrow> byte list \<Rightarrow> nat \<Rightarrow> nat \<times> byte list" where
  "OPENSSL_strlcpy dst src dst_size =
     (let (dst', l, src') = strlcpy_loop dst src dst_size in (l + strlen src', dst'))"

fun strlcat_loop :: "byte list \<Rightarrow> nat \<Rightarrow> nat" where
  "strlcat_loop dst 0 = 0"
| "strlcat_loop dst (Suc n) = (if hd dst \<noteq> 0 then Suc (strlcat_loop (tl dst) n) else 0)"

definition OPENSSL_strlcat :: "byte list \<Rightarrow> byte list \<Rightarrow> nat \<Rightarrow> nat \<times> byte list" where
  "OPENSSL_strlcat dst src dst_size =
     (let l = strlcat_loop dst dst_size;
          (n, dst') = OPENSSL_strlcpy (drop l dst) src (dst_size - l)
      in (l + n, take l dst @ dst'))"

declare strlcpy_loop.simps [simp del]

section \<open>Facts\<close>

lemma OPENSSL_malloc_length:
  assumes "malloc_sized mal" and "OPENSSL_malloc mal n = Some b"
  shows "length b = n"
  using assms by (auto simp: OPENSSL_malloc_def malloc_sized_def split: if_splits)

lemma OPENSSL_realloc_length:
  assumes "malloc_sized mal" and "OPENSSL_realloc mal orig n = Some b"
  shows "length b = n"
  using assms by (auto simp: OPENSSL_realloc_def Let_def OPENSSL_malloc_length
      split: option.splits if_splits)

lemma OPENSSL_realloc_keeps:
  assumes "malloc_sized mal" and "OPENSSL_realloc mal (Some block) n = Some b" and "length block \<le> n"
  shows "take (length block) b = block"
  using assms by (auto simp: OPENSSL_realloc_def Let_def split: option.splits if_splits)

lemma OPENSSL_malloc_total:
  assumes "\<forall>m. mal m \<noteq> None" and "n < 2 ^ 63"
  shows "OPENSSL_malloc mal n \<noteq> None"
  using assms by (simp add: OPENSSL_malloc_def size_add_def OPENSSL_MALLOC_PREFIX_def)

lemma OPENSSL_calloc_total:
  assumes "\<forall>m. mal m \<noteq> None" and "n * sz < 2 ^ 63" and "0 < sz"
  shows "OPENSSL_calloc mal n sz \<noteq> None"
proof -
  have "n = n * sz div sz" using assms(3) by simp
  also have "\<dots> \<le> SIZE_MAX div sz" using assms(2) by (intro div_le_mono) (simp add: SIZE_MAX_def)
  finally have "\<not> n > SIZE_MAX div sz" by simp
  then show ?thesis using OPENSSL_malloc_total [OF assms(1,2)]
    by (auto simp: OPENSSL_calloc_def OPENSSL_zalloc_def)
qed

end
