(* ===== verification/Cbs.thy ===== *)
theory Cbs
  imports Mem
begin

text \<open>
  BoringSSL's byte-string reader (crypto/bytestring/cbs.c). A \<open>CBS\<close> is a pointer and a
  length; the model is the list of the \<open>len\<close> bytes at \<open>data\<close>. An operation that takes a
  \<open>CBS *\<close> returns its result (\<open>None\<close> for the zero return) with the byte string it leaves,
  also on failure, since the code may have advanced it by then. An operation that works on
  a copy returns its result only. Integers keep their C width.
\<close>

type_synonym CBS = "byte list"
type_synonym CBS_ASN1_TAG = u32

section \<open>Bytes and integers\<close>

definition CBS_init :: "byte list \<Rightarrow> nat \<Rightarrow> CBS" where
  "CBS_init data len = take len data"

definition CBS_data :: "CBS \<Rightarrow> byte list" where
  "CBS_data cbs = cbs"

definition CBS_len :: "CBS \<Rightarrow> nat" where
  "CBS_len cbs = length cbs"

definition cbs_get :: "CBS \<Rightarrow> nat \<Rightarrow> byte list option \<times> CBS" where
  "cbs_get cbs n = (if CBS_len cbs < n then (None, cbs) else (Some (take n cbs), drop n cbs))"

definition CBS_skip :: "CBS \<Rightarrow> nat \<Rightarrow> unit option \<times> CBS" where
  "CBS_skip cbs len = and_then (cbs_get cbs len) (\<lambda>_ cbs'. (Some (), cbs'))"

text \<open>
  The copies returned through \<open>out_ptr\<close> and \<open>out_len\<close>; the block that \<open>out_ptr\<close> held is freed in
  any case, and a null pointer is written when nothing was copied.
\<close>

definition CBS_stow :: "malloc \<Rightarrow> CBS \<Rightarrow> bool \<times> byte list option \<times> nat" where
  "CBS_stow mal cbs =
     (if CBS_len cbs = 0 then (True, None, 0)
      else case OPENSSL_memdup mal cbs (CBS_len cbs) of
             None \<Rightarrow> (False, None, 0)
           | Some out \<Rightarrow> (True, Some out, CBS_len cbs))"

definition CBS_strdup :: "malloc \<Rightarrow> CBS \<Rightarrow> bool \<times> byte list option" where
  "CBS_strdup mal cbs =
     (let out = OPENSSL_strndup mal cbs (CBS_len cbs) in (out \<noteq> None, out))"

definition CBS_contains_zero_byte :: "CBS \<Rightarrow> bool" where
  "CBS_contains_zero_byte cbs = (0 \<in> set cbs)"

definition CBS_mem_equal :: "CBS \<Rightarrow> byte list \<Rightarrow> nat \<Rightarrow> bool" where
  "CBS_mem_equal cbs data len = (if len \<noteq> CBS_len cbs then False else cbs = take len data)"

text \<open>The loop of \<open>cbs_get_u\<close>: big-endian accumulation in a \<open>uint64_t\<close>.\<close>

fun be_loop :: "u64 \<Rightarrow> byte list \<Rightarrow> u64" where
  "be_loop result [] = result"
| "be_loop result (b # bs) = be_loop (push_bit 8 result OR ucast b) bs"

definition cbs_get_u :: "CBS \<Rightarrow> nat \<Rightarrow> u64 option \<times> CBS" where
  "cbs_get_u cbs len = and_then (cbs_get cbs len) (\<lambda>data cbs'. (Some (be_loop 0 data), cbs'))"

definition CBS_get_u8 :: "CBS \<Rightarrow> byte option \<times> CBS" where
  "CBS_get_u8 cbs = and_then (cbs_get cbs 1) (\<lambda>v cbs'. (Some (v ! 0), cbs'))"

definition CBS_get_u16 :: "CBS \<Rightarrow> u16 option \<times> CBS" where
  "CBS_get_u16 cbs = and_then (cbs_get_u cbs 2) (\<lambda>v cbs'. (Some (ucast v), cbs'))"

text \<open>The byte swaps of crypto/internal.h.\<close>

definition CRYPTO_bswap2 :: "u16 \<Rightarrow> u16" where
  "CRYPTO_bswap2 x = drop_bit 8 x OR push_bit 8 x"

definition CRYPTO_bswap4 :: "u32 \<Rightarrow> u32" where
  "CRYPTO_bswap4 x0 =
     (let x = drop_bit 16 x0 OR push_bit 16 x0 in
      drop_bit 8 (x AND 0xff00ff00) OR push_bit 8 (x AND 0x00ff00ff))"

definition CRYPTO_bswap8 :: "u64 \<Rightarrow> u64" where
  "CRYPTO_bswap8 x =
     push_bit 32 (ucast (CRYPTO_bswap4 (ucast x))) OR ucast (CRYPTO_bswap4 (ucast (drop_bit 32 x)))"

definition CBS_get_u16le :: "CBS \<Rightarrow> u16 option \<times> CBS" where
  "CBS_get_u16le cbs = and_then (CBS_get_u16 cbs) (\<lambda>v cbs'. (Some (CRYPTO_bswap2 v), cbs'))"

definition CBS_get_u24 :: "CBS \<Rightarrow> u32 option \<times> CBS" where
  "CBS_get_u24 cbs = and_then (cbs_get_u cbs 3) (\<lambda>v cbs'. (Some (ucast v), cbs'))"

definition CBS_get_u32 :: "CBS \<Rightarrow> u32 option \<times> CBS" where
  "CBS_get_u32 cbs = and_then (cbs_get_u cbs 4) (\<lambda>v cbs'. (Some (ucast v), cbs'))"

definition CBS_get_u32le :: "CBS \<Rightarrow> u32 option \<times> CBS" where
  "CBS_get_u32le cbs = and_then (CBS_get_u32 cbs) (\<lambda>v cbs'. (Some (CRYPTO_bswap4 v), cbs'))"

definition CBS_get_u64 :: "CBS \<Rightarrow> u64 option \<times> CBS" where
  "CBS_get_u64 cbs = cbs_get_u cbs 8"

definition CBS_get_u64le :: "CBS \<Rightarrow> u64 option \<times> CBS" where
  "CBS_get_u64le cbs = and_then (cbs_get_u cbs 8) (\<lambda>v cbs'. (Some (CRYPTO_bswap8 v), cbs'))"

definition CBS_get_last_u8 :: "CBS \<Rightarrow> byte option \<times> CBS" where
  "CBS_get_last_u8 cbs =
     (if CBS_len cbs = 0 then (None, cbs)
      else (Some (cbs ! (CBS_len cbs - 1)), take (CBS_len cbs - 1) cbs))"

definition CBS_get_bytes :: "CBS \<Rightarrow> nat \<Rightarrow> CBS option \<times> CBS" where
  "CBS_get_bytes cbs len = and_then (cbs_get cbs len) (\<lambda>v cbs'. (Some (CBS_init v len), cbs'))"

text \<open>The copied bytes are what \<open>memcpy\<close> stores at \<open>out\<close>.\<close>

definition CBS_copy_bytes :: "CBS \<Rightarrow> nat \<Rightarrow> byte list option \<times> CBS" where
  "CBS_copy_bytes cbs len = and_then (cbs_get cbs len) (\<lambda>v cbs'. (Some v, cbs'))"

definition cbs_get_length_prefixed :: "CBS \<Rightarrow> nat \<Rightarrow> CBS option \<times> CBS" where
  "cbs_get_length_prefixed cbs len_len =
     and_then (cbs_get_u cbs len_len) (\<lambda>len cbs'. CBS_get_bytes cbs' (unat len))"

definition CBS_get_u8_length_prefixed :: "CBS \<Rightarrow> CBS option \<times> CBS" where
  "CBS_get_u8_length_prefixed cbs = cbs_get_length_prefixed cbs 1"

definition CBS_get_u16_length_prefixed :: "CBS \<Rightarrow> CBS option \<times> CBS" where
  "CBS_get_u16_length_prefixed cbs = cbs_get_length_prefixed cbs 2"

definition CBS_get_u24_length_prefixed :: "CBS \<Rightarrow> CBS option \<times> CBS" where
  "CBS_get_u24_length_prefixed cbs = cbs_get_length_prefixed cbs 3"

text \<open>\<open>OPENSSL_memchr\<close> over the string: the offset of the first \<open>c\<close>, if any.\<close>

fun memchr_index :: "byte \<Rightarrow> byte list \<Rightarrow> nat option" where
  "memchr_index c [] = None"
| "memchr_index c (b # bs) = (if b = c then Some 0 else map_option Suc (memchr_index c bs))"

definition CBS_get_until_first :: "CBS \<Rightarrow> byte \<Rightarrow> CBS option \<times> CBS" where
  "CBS_get_until_first cbs c =
     (case memchr_index c cbs of None \<Rightarrow> (None, cbs) | Some split \<Rightarrow> CBS_get_bytes cbs split)"

section \<open>Decimal and base-128 integers\<close>

text \<open>The loop of \<open>CBS_get_u64_decimal\<close>, with the digits seen so far in \<open>v\<close>.\<close>

fun u64_decimal_loop :: "u64 \<Rightarrow> bool \<Rightarrow> CBS \<Rightarrow> (u64 \<times> bool) option \<times> CBS" where
  "u64_decimal_loop v seen_digit [] = (Some (v, seen_digit), [])"
| "u64_decimal_loop v seen_digit (c # cs) =
     (if \<not> OPENSSL_isdigit (uint c) then (Some (v, seen_digit), c # cs)
      else if (v = 0 \<and> seen_digit) \<or> v > (- 1) div 10 \<or> v * 10 > (- 1) - ucast (c - 0x30)
      then (None, cs)
      else u64_decimal_loop (v * 10 + ucast (c - 0x30)) True cs)"

definition CBS_get_u64_decimal :: "CBS \<Rightarrow> u64 option \<times> CBS" where
  "CBS_get_u64_decimal cbs =
     and_then (u64_decimal_loop 0 False cbs)
       (\<lambda>(v, seen_digit) cbs'. ((if seen_digit then Some v else None), cbs'))"

fun base128_loop :: "u64 \<Rightarrow> CBS \<Rightarrow> u64 option \<times> CBS" where
  "base128_loop v [] = (None, [])"
| "base128_loop v (b # bs) =
     (if drop_bit (64 - 7) v \<noteq> 0 then (None, bs)
      else if v = 0 \<and> b = 0x80 then (None, bs)
      else let v' = push_bit 7 v OR ucast (b AND 0x7f) in
           if b AND 0x80 \<noteq> 0 then base128_loop v' bs else (Some v', bs))"

definition parse_base128_integer :: "CBS \<Rightarrow> u64 option \<times> CBS" where
  "parse_base128_integer cbs = base128_loop 0 cbs"

end
