(* ===== verification/Cbs_Asn1.thy ===== *)
theory Cbs_Asn1
  imports Cbs
begin

text \<open>
  The ASN.1 half of the byte-string reader (crypto/bytestring/cbs.c): identifier octets,
  DER and BER element headers, INTEGER, BOOLEAN, BIT STRING, and the optional elements.
  A tag keeps the code's in-memory form: class and constructed bits in the top three bits
  of a \<open>uint32_t\<close>, the tag number below.
\<close>

section \<open>Tags\<close>

definition CBS_ASN1_TAG_SHIFT :: nat where "CBS_ASN1_TAG_SHIFT = 24"
definition CBS_ASN1_CONSTRUCTED :: u32 where "CBS_ASN1_CONSTRUCTED = push_bit CBS_ASN1_TAG_SHIFT 0x20"
definition CBS_ASN1_TAG_NUMBER_MASK :: u32 where
  "CBS_ASN1_TAG_NUMBER_MASK = push_bit (5 + CBS_ASN1_TAG_SHIFT) 1 - 1"
definition CBS_ASN1_BOOLEAN :: u32 where "CBS_ASN1_BOOLEAN = 0x1"
definition CBS_ASN1_INTEGER :: u32 where "CBS_ASN1_INTEGER = 0x2"
definition CBS_ASN1_BITSTRING :: u32 where "CBS_ASN1_BITSTRING = 0x3"
definition CBS_ASN1_OCTETSTRING :: u32 where "CBS_ASN1_OCTETSTRING = 0x4"
definition CBS_ASN1_OBJECT :: u32 where "CBS_ASN1_OBJECT = 0x6"

definition parse_asn1_tag :: "CBS \<Rightarrow> CBS_ASN1_TAG option \<times> CBS" where
  "parse_asn1_tag cbs0 =
     and_then (CBS_get_u8 cbs0) (\<lambda>tag_byte cbs1.
       let tag = push_bit CBS_ASN1_TAG_SHIFT (ucast tag_byte AND 0xe0);
           tag_number = ucast tag_byte AND 0x1f
       in and_then
            (if tag_number = 0x1f then
               and_then (parse_base128_integer cbs1) (\<lambda>v cbs.
                 if v > ucast CBS_ASN1_TAG_NUMBER_MASK \<or> v < 0x1f then (None, cbs)
                 else (Some (ucast v), cbs))
             else (Some tag_number, cbs1))
            (\<lambda>tag_number cbs.
               if (tag OR tag_number) AND NOT CBS_ASN1_CONSTRUCTED = 0 then (None, cbs)
               else (Some (tag OR tag_number), cbs)))"

section \<open>Elements\<close>

text \<open>What \<open>cbs_get_any_asn1_element\<close> writes through its output pointers when it succeeds.\<close>

record asn1_element =
  elem_out :: CBS
  elem_tag :: CBS_ASN1_TAG
  elem_header_len :: nat
  elem_ber_found :: bool
  elem_indefinite :: bool

text \<open>
  The header is parsed on a copy, so \<open>cbs\<close> moves only when the whole element is there. The
  length arithmetic is that of \<open>size_t\<close>, with the code's overflow test.
\<close>

definition cbs_get_any_asn1_element :: "bool \<Rightarrow> CBS \<Rightarrow> asn1_element option \<times> CBS" where
  "cbs_get_any_asn1_element ber_ok cbs =
     (case parse_asn1_tag cbs of
        (None, _) \<Rightarrow> (None, cbs)
      | (Some tag, header1) \<Rightarrow>
        (case CBS_get_u8 header1 of
           (None, _) \<Rightarrow> (None, cbs)
         | (Some length_byte, header) \<Rightarrow>
           let header_len = CBS_len cbs - CBS_len header;
               finish = (\<lambda>len hlen ber ind.
                 and_then (CBS_get_bytes cbs len) (\<lambda>out cbs'.
                   (Some \<lparr>elem_out = out, elem_tag = tag, elem_header_len = hlen,
                          elem_ber_found = ber, elem_indefinite = ind\<rparr>, cbs')))
           in if length_byte AND 0x80 = 0 then
                finish (unat length_byte + header_len) header_len False False
              else
                let num_bytes = unat (length_byte AND 0x7f) in
                if ber_ok \<and> tag AND CBS_ASN1_CONSTRUCTED \<noteq> 0 \<and> num_bytes = 0 then
                  finish header_len header_len True True
                else if num_bytes = 0 \<or> num_bytes > 4 then (None, cbs)
                else
                  (case cbs_get_u header num_bytes of
                     (None, _) \<Rightarrow> (None, cbs)
                   | (Some len64, _) \<Rightarrow>
                     let overlong = len64 < 128 \<or> drop_bit ((num_bytes - 1) * 8) len64 = 0 in
                     if overlong \<and> \<not> ber_ok then (None, cbs)
                     else if len64 + of_nat header_len + of_nat num_bytes < len64 then (None, cbs)
                     else finish (unat (len64 + of_nat header_len + of_nat num_bytes))
                                 (header_len + num_bytes) overlong False)))"

definition CBS_get_any_asn1_element :: "CBS \<Rightarrow> asn1_element option \<times> CBS" where
  "CBS_get_any_asn1_element cbs = cbs_get_any_asn1_element False cbs"

definition CBS_get_any_ber_asn1_element :: "CBS \<Rightarrow> asn1_element option \<times> CBS" where
  "CBS_get_any_ber_asn1_element cbs = cbs_get_any_asn1_element True cbs"

definition CBS_get_any_asn1 :: "CBS \<Rightarrow> (CBS \<times> CBS_ASN1_TAG) option \<times> CBS" where
  "CBS_get_any_asn1 cbs =
     and_then (CBS_get_any_asn1_element cbs) (\<lambda>e cbs'.
       case CBS_skip (elem_out e) (elem_header_len e) of
         (None, _) \<Rightarrow> (None, cbs')
       | (Some _, out) \<Rightarrow> (Some (out, elem_tag e), cbs'))"

text \<open>On a tag mismatch \<open>cbs\<close> has been moved over the element.\<close>

definition cbs_get_asn1 :: "CBS \<Rightarrow> CBS_ASN1_TAG \<Rightarrow> bool \<Rightarrow> CBS option \<times> CBS" where
  "cbs_get_asn1 cbs tag_value skip_header =
     and_then (CBS_get_any_asn1_element cbs) (\<lambda>e cbs'.
       if elem_tag e \<noteq> tag_value then (None, cbs')
       else if skip_header then
         (case CBS_skip (elem_out e) (elem_header_len e) of
            (None, _) \<Rightarrow> (None, cbs')
          | (Some _, out) \<Rightarrow> (Some out, cbs'))
       else (Some (elem_out e), cbs'))"

definition CBS_get_asn1 :: "CBS \<Rightarrow> CBS_ASN1_TAG \<Rightarrow> CBS option \<times> CBS" where
  "CBS_get_asn1 cbs tag_value = cbs_get_asn1 cbs tag_value True"

definition CBS_get_asn1_element :: "CBS \<Rightarrow> CBS_ASN1_TAG \<Rightarrow> CBS option \<times> CBS" where
  "CBS_get_asn1_element cbs tag_value = cbs_get_asn1 cbs tag_value False"

definition CBS_peek_asn1_tag :: "CBS \<Rightarrow> CBS_ASN1_TAG \<Rightarrow> bool" where
  "CBS_peek_asn1_tag cbs tag_value = (fst (parse_asn1_tag cbs) = Some tag_value)"

section \<open>INTEGER, BOOLEAN and BIT STRING\<close>

text \<open>\<open>None\<close> for an invalid encoding, otherwise whether the integer is negative.\<close>

definition CBS_is_valid_asn1_integer :: "CBS \<Rightarrow> bool option" where
  "CBS_is_valid_asn1_integer cbs =
     (case CBS_get_u8 cbs of
        (None, _) \<Rightarrow> None
      | (Some first_byte, copy) \<Rightarrow>
        let is_negative = (first_byte AND 0x80 \<noteq> 0) in
        (case CBS_get_u8 copy of
           (None, _) \<Rightarrow> Some is_negative
         | (Some second_byte, _) \<Rightarrow>
           if (first_byte = 0x00 \<and> second_byte AND 0x80 = 0) \<or>
              (first_byte = 0xff \<and> second_byte AND 0x80 \<noteq> 0) then None
           else Some is_negative))"

definition CBS_is_unsigned_asn1_integer :: "CBS \<Rightarrow> bool" where
  "CBS_is_unsigned_asn1_integer cbs = (CBS_is_valid_asn1_integer cbs = Some False)"

fun asn1_uint64_loop :: "u64 \<Rightarrow> byte list \<Rightarrow> u64 option" where
  "asn1_uint64_loop out [] = Some out"
| "asn1_uint64_loop out (b # data) =
     (if drop_bit 56 out \<noteq> 0 then None else asn1_uint64_loop (push_bit 8 out OR ucast b) data)"

definition CBS_get_asn1_uint64 :: "CBS \<Rightarrow> u64 option \<times> CBS" where
  "CBS_get_asn1_uint64 cbs =
     and_then (CBS_get_asn1 cbs CBS_ASN1_INTEGER) (\<lambda>bytes cbs'.
       if \<not> CBS_is_unsigned_asn1_integer bytes then (None, cbs')
       else (asn1_uint64_loop 0 bytes, cbs'))"

text \<open>
  The bytes of an \<open>int64_t\<close> on the little-endian targets of the code; the result is the
  two's-complement word, read as a signed number by \<open>sint\<close>.
\<close>

fun le_word :: "byte list \<Rightarrow> u64" where
  "le_word [] = 0"
| "le_word (b # bs) = ucast b OR push_bit 8 (le_word bs)"

definition CBS_get_asn1_int64 :: "CBS \<Rightarrow> u64 option \<times> CBS" where
  "CBS_get_asn1_int64 cbs =
     and_then (CBS_get_asn1 cbs CBS_ASN1_INTEGER) (\<lambda>bytes cbs'.
       case CBS_is_valid_asn1_integer bytes of
         None \<Rightarrow> (None, cbs')
       | Some is_negative \<Rightarrow>
           if CBS_len bytes > 8 then (None, cbs')
           else
             let sign_extend = replicate 8 (if is_negative then 0xff else 0 :: byte);
                 sign_extend' = rev bytes @ drop (CBS_len bytes) sign_extend
             in (Some (le_word sign_extend'), cbs'))"

definition CBS_get_asn1_bool :: "CBS \<Rightarrow> bool option \<times> CBS" where
  "CBS_get_asn1_bool cbs =
     and_then (CBS_get_asn1 cbs CBS_ASN1_BOOLEAN) (\<lambda>bytes cbs'.
       if CBS_len bytes \<noteq> 1 then (None, cbs')
       else let v = bytes ! 0 in
            if v \<noteq> 0 \<and> v \<noteq> 0xff then (None, cbs') else (Some (v \<noteq> 0), cbs'))"

text \<open>The result is the contents, or \<open>Some None\<close> when the element is absent.\<close>

definition CBS_get_optional_asn1 :: "CBS \<Rightarrow> CBS_ASN1_TAG \<Rightarrow> CBS option option \<times> CBS" where
  "CBS_get_optional_asn1 cbs tag =
     (if CBS_peek_asn1_tag cbs tag then
        and_then (CBS_get_asn1 cbs tag) (\<lambda>out cbs'. (Some (Some out), cbs'))
      else (Some None, cbs))"

text \<open>The contents (empty when absent) and the presence flag.\<close>

definition CBS_get_optional_asn1_octet_string ::
  "CBS \<Rightarrow> CBS_ASN1_TAG \<Rightarrow> (CBS \<times> bool) option \<times> CBS" where
  "CBS_get_optional_asn1_octet_string cbs tag =
     and_then (CBS_get_optional_asn1 cbs tag) (\<lambda>r cbs'.
       case r of
         None \<Rightarrow> (Some (CBS_init [] 0, False), cbs')
       | Some child \<Rightarrow>
           (case CBS_get_asn1 child CBS_ASN1_OCTETSTRING of
              (None, _) \<Rightarrow> (None, cbs')
            | (Some out, child') \<Rightarrow>
                if CBS_len child' \<noteq> 0 then (None, cbs') else (Some (out, True), cbs')))"

definition CBS_get_optional_asn1_uint64 ::
  "CBS \<Rightarrow> CBS_ASN1_TAG \<Rightarrow> u64 \<Rightarrow> u64 option \<times> CBS" where
  "CBS_get_optional_asn1_uint64 cbs tag default_value =
     and_then (CBS_get_optional_asn1 cbs tag) (\<lambda>r cbs'.
       case r of
         None \<Rightarrow> (Some default_value, cbs')
       | Some child \<Rightarrow>
           (case CBS_get_asn1_uint64 child of
              (None, _) \<Rightarrow> (None, cbs')
            | (Some out, child') \<Rightarrow>
                if CBS_len child' \<noteq> 0 then (None, cbs') else (Some out, cbs')))"

definition CBS_get_optional_asn1_bool ::
  "CBS \<Rightarrow> CBS_ASN1_TAG \<Rightarrow> bool \<Rightarrow> bool option \<times> CBS" where
  "CBS_get_optional_asn1_bool cbs tag default_value =
     and_then (CBS_get_optional_asn1 cbs tag) (\<lambda>r cbs'.
       case r of
         None \<Rightarrow> (Some default_value, cbs')
       | Some child \<Rightarrow>
           (case CBS_get_asn1 child CBS_ASN1_BOOLEAN of
              (None, _) \<Rightarrow> (None, cbs')
            | (Some child2, child') \<Rightarrow>
                if CBS_len child2 \<noteq> 1 \<or> CBS_len child' \<noteq> 0 then (None, cbs')
                else let boolean = child2 ! 0 in
                     if boolean = 0 then (Some False, cbs')
                     else if boolean = 0xff then (Some True, cbs')
                     else (None, cbs')))"

definition CBS_is_valid_asn1_bitstring :: "CBS \<Rightarrow> bool" where
  "CBS_is_valid_asn1_bitstring cbs =
     (case CBS_get_u8 cbs of
        (None, _) \<Rightarrow> False
      | (Some num_unused_bits, in1) \<Rightarrow>
        if num_unused_bits > 7 then False
        else if num_unused_bits = 0 then True
        else (case CBS_get_last_u8 in1 of
                (None, _) \<Rightarrow> False
              | (Some last_byte, _) \<Rightarrow>
                  last_byte AND (push_bit (unat num_unused_bits) 1 - 1) = 0))"

definition CBS_asn1_bitstring_has_bit :: "CBS \<Rightarrow> u32 \<Rightarrow> bool" where
  "CBS_asn1_bitstring_has_bit cbs bit_no =
     (if \<not> CBS_is_valid_asn1_bitstring cbs then False
      else
        let byte_num = unat (drop_bit 3 bit_no + 1);
            bit_num = unat (7 - (bit_no AND 7))
        in byte_num < CBS_len cbs \<and> cbs ! byte_num AND push_bit bit_num 1 \<noteq> 0)"

section \<open>Object identifiers\<close>

fun asn1_oid_loop :: "byte \<Rightarrow> CBS \<Rightarrow> bool" where
  "asn1_oid_loop prev [] = (prev AND 0x80 = 0)"
| "asn1_oid_loop prev (v # copy) =
     (if prev AND 0x80 = 0 \<and> v = 0x80 then False else asn1_oid_loop v copy)"

definition CBS_is_valid_asn1_oid :: "CBS \<Rightarrow> bool" where
  "CBS_is_valid_asn1_oid cbs = (if CBS_len cbs = 0 then False else asn1_oid_loop 0 cbs)"

end
