(* ===== verification/Cbb.thy ===== *)
theory Cbb
  imports Cbs_Asn1
begin

text \<open>
  BoringSSL's byte-string builder (crypto/bytestring/cbb.c). In the code a top-level \<open>CBB\<close>
  owns the buffer, and each \<open>CBB\<close> points to the child whose length prefix is pending, so the
  objects that write to one buffer form a chain. The state is that buffer with the chain of
  pending children, outermost first; a child is named by a number (its address in C). A
  \<open>CBB *\<close> argument is \<open>Top\<close> or \<open>Child i\<close>; a child that is not in the chain is one whose \<open>base\<close>
  was set to null when its parent was flushed. \<open>None\<close> is the zero return.
\<close>

section \<open>State\<close>

record cbb_buffer =
  buf :: "byte list"
  blen :: nat
  cap :: nat
  can_resize :: bool
  error :: bool

record cbb_child =
  offset :: nat
  pending_len_len :: nat
  pending_is_asn1 :: bool

record CBB =
  base :: cbb_buffer
  kids :: "(nat \<times> cbb_child) list"

datatype CBB_ref = Top | Child nat

text \<open>
  The children up to and including the referenced one, and those pending below it;
  \<open>None\<close> when the reference has no buffer (\<open>cbb_get_base\<close> is null).
\<close>

fun cbb_get_base :: "CBB_ref \<Rightarrow> (nat \<times> cbb_child) list \<Rightarrow>
    ((nat \<times> cbb_child) list \<times> (nat \<times> cbb_child) list) option" where
  "cbb_get_base Top ks = Some ([], ks)"
| "cbb_get_base (Child i) [] = None"
| "cbb_get_base (Child i) (k # ks) =
     (if fst k = i then Some ([k], ks)
      else map_option (\<lambda>(pre, sub). (k # pre, sub)) (cbb_get_base (Child i) ks))"

definition cbb_init :: "byte list \<Rightarrow> nat \<Rightarrow> bool \<Rightarrow> CBB" where
  "cbb_init b capacity resize =
     \<lparr>base = \<lparr>buf = b, blen = 0, cap = capacity, can_resize = resize, error = False\<rparr>, kids = []\<rparr>"

definition CBB_zero :: CBB where
  "CBB_zero = \<lparr>base = \<lparr>buf = [], blen = 0, cap = 0, can_resize = False, error = False\<rparr>, kids = []\<rparr>"

text \<open>A null buffer and an empty block are the same empty list.\<close>

definition CBB_init :: "malloc \<Rightarrow> nat \<Rightarrow> unit option \<times> CBB" where
  "CBB_init mal initial_capacity =
     (case OPENSSL_malloc mal initial_capacity of
        None \<Rightarrow> if initial_capacity > 0 then (None, CBB_zero) else (Some (), cbb_init [] 0 True)
      | Some b \<Rightarrow> (Some (), cbb_init b initial_capacity True))"

definition CBB_init_fixed :: "byte list \<Rightarrow> nat \<Rightarrow> CBB" where
  "CBB_init_fixed b len = cbb_init b len False"

section \<open>The buffer\<close>

text \<open>Stores at an offset, and \<open>memmove\<close> within the buffer.\<close>

definition store :: "byte list \<Rightarrow> nat \<Rightarrow> byte list \<Rightarrow> byte list" where
  "store b pos bs = take pos b @ bs @ drop (pos + length bs) b"

definition buf_memmove :: "byte list \<Rightarrow> nat \<Rightarrow> nat \<Rightarrow> nat \<Rightarrow> byte list" where
  "buf_memmove b dst src n = store b dst (take n (drop src b))"

text \<open>The result is the offset that \<open>*out\<close> points to.\<close>

definition cbb_buffer_reserve :: "malloc \<Rightarrow> nat \<Rightarrow> cbb_buffer \<Rightarrow> nat option \<times> cbb_buffer" where
  "cbb_buffer_reserve mal len b =
     (let newlen = size_add (blen b) len in
      if newlen < blen b then (None, b\<lparr>error := True\<rparr>)
      else if newlen > cap b then
        if \<not> can_resize b then (None, b\<lparr>error := True\<rparr>)
        else
          let newcap0 = (cap b * 2) mod 2 ^ 64;
              newcap = (if newcap0 < cap b \<or> newcap0 < newlen then newlen else newcap0)
          in (case OPENSSL_realloc mal (Some (buf b)) newcap of
                None \<Rightarrow> (None, b\<lparr>error := True\<rparr>)
              | Some newbuf \<Rightarrow> (Some (blen b), b\<lparr>buf := newbuf, cap := newcap\<rparr>))
      else (Some (blen b), b))"

definition cbb_buffer_add :: "malloc \<Rightarrow> nat \<Rightarrow> cbb_buffer \<Rightarrow> nat option \<times> cbb_buffer" where
  "cbb_buffer_add mal len b =
     and_then (cbb_buffer_reserve mal len b) (\<lambda>out b'. (Some out, b'\<lparr>blen := blen b' + len\<rparr>))"

section \<open>Flushing\<close>

definition cbb_on_error :: "CBB_ref \<Rightarrow> CBB \<Rightarrow> CBB" where
  "cbb_on_error cbb s =
     (case cbb_get_base cbb (kids s) of
        None \<Rightarrow> s
      | Some (pre, sub) \<Rightarrow> s\<lparr>base := (base s)\<lparr>error := True\<rparr>, kids := pre\<rparr>)"

text \<open>The loop that stores \<open>n\<close> big-endian length bytes; it returns what is left of \<open>len\<close>.\<close>

fun store_len :: "byte list \<Rightarrow> nat \<Rightarrow> nat \<Rightarrow> nat \<Rightarrow> byte list \<times> nat" where
  "store_len b off 0 len = (b, len)"
| "store_len b off (Suc i) len = store_len (b[off + i := byte_of len]) off i (len div 256)"

text \<open>The length form that an ASN.1 child needs: its size, its first byte and what is left to write.\<close>

definition asn1_len_form :: "nat \<Rightarrow> nat \<times> byte \<times> nat" where
  "asn1_len_form len =
     (if len > 0xffffff then (5, 0x84, len)
      else if len > 0xffff then (4, 0x83, len)
      else if len > 0xff then (3, 0x82, len)
      else if len > 0x7f then (2, 0x81, len)
      else (1, byte_of len, 0))"

definition flush_child :: "malloc \<Rightarrow> cbb_child \<Rightarrow> cbb_buffer \<Rightarrow> unit option \<times> cbb_buffer" where
  "flush_child mal c b =
     (let child_start = size_add (offset c) (pending_len_len c) in
      if child_start < offset c \<or> blen b < child_start then (None, b\<lparr>error := True\<rparr>)
      else
        let len = blen b - child_start in
        and_then
          (if pending_is_asn1 c then
             if len > 0xfffffffe then (None, b\<lparr>error := True\<rparr>)
             else
               let (len_len, initial_length_byte, len') = asn1_len_form len in
               and_then
                 (if len_len \<noteq> 1 then
                    and_then (cbb_buffer_add mal (len_len - 1) b) (\<lambda>_ b1.
                      (Some (), b1\<lparr>buf := buf_memmove (buf b1) (child_start + (len_len - 1)) child_start len\<rparr>))
                  else (Some (), b))
                 (\<lambda>_ b1. (Some (offset c + 1, len_len - 1, len'),
                           b1\<lparr>buf := (buf b1)[offset c := initial_length_byte]\<rparr>))
           else (Some (offset c, pending_len_len c, len), b))
          (\<lambda>(off, len_len, l) b1.
             let (bs, rest) = store_len (buf b1) off len_len l in
             if rest \<noteq> 0 then (None, b1\<lparr>buf := bs, error := True\<rparr>)
             else (Some (), b1\<lparr>buf := bs\<rparr>)))"

text \<open>The recursion of \<open>CBB_flush\<close> along the chain: the innermost child first.\<close>

fun flush_kids :: "malloc \<Rightarrow> cbb_child list \<Rightarrow> cbb_buffer \<Rightarrow> unit option \<times> cbb_buffer" where
  "flush_kids mal [] b = (Some (), b)"
| "flush_kids mal (c # cs) b =
     (case flush_kids mal cs b of
        (None, b1) \<Rightarrow> (None, b1\<lparr>error := True\<rparr>)
      | (Some _, b1) \<Rightarrow> flush_child mal c b1)"

definition CBB_flush :: "malloc \<Rightarrow> CBB_ref \<Rightarrow> CBB \<Rightarrow> unit option \<times> CBB" where
  "CBB_flush mal cbb s =
     (case cbb_get_base cbb (kids s) of
        None \<Rightarrow> (None, s)
      | Some (pre, sub) \<Rightarrow>
          if error (base s) then (None, s)
          else
            case flush_kids mal (map snd sub) (base s) of
              (None, b) \<Rightarrow> (None, s\<lparr>base := b\<lparr>error := True\<rparr>, kids := pre\<rparr>)
            | (Some _, b) \<Rightarrow> (Some (), s\<lparr>base := b, kids := pre\<rparr>))"

text \<open>An operation of the buffer, on the buffer of the state.\<close>

definition on_base :: "(cbb_buffer \<Rightarrow> 'a option \<times> cbb_buffer) \<Rightarrow> CBB \<Rightarrow> 'a option \<times> CBB" where
  "on_base f s = (let (r, b) = f (base s) in (r, s\<lparr>base := b\<rparr>))"

text \<open>\<open>CBB_finish\<close> with both output pointers: the buffer and the length.\<close>

definition CBB_finish :: "malloc \<Rightarrow> CBB_ref \<Rightarrow> CBB \<Rightarrow> (byte list \<times> nat) option \<times> CBB" where
  "CBB_finish mal cbb s =
     (case cbb of
        Child i \<Rightarrow> (None, s)
      | Top \<Rightarrow>
          and_then (CBB_flush mal cbb s) (\<lambda>_ s1.
            (Some (buf (base s1), blen (base s1)), s1\<lparr>base := (base s1)\<lparr>buf := []\<rparr>\<rparr>)))"

text \<open>A freed buffer is the empty list; children do not own theirs.\<close>

definition CBB_cleanup :: "CBB_ref \<Rightarrow> CBB \<Rightarrow> CBB" where
  "CBB_cleanup cbb s =
     (case cbb of
        Child i \<Rightarrow> s
      | Top \<Rightarrow> if can_resize (base s) then s\<lparr>base := (base s)\<lparr>buf := []\<rparr>\<rparr> else s)"

text \<open>
  \<open>CBB_finish_i2d\<close> (crypto/bytestring/asn1_compat.c), for the \<open>i2d\<close> calling convention:
  \<open>outp\<close> is null (\<open>None\<close>), points to a null pointer (\<open>Some None\<close>), or points to a position in
  memory, where the encoding is written and which is moved past it.
\<close>

definition CBB_finish_i2d :: "malloc \<Rightarrow> CBB_ref \<Rightarrow> (byte list \<times> nat) option option \<Rightarrow> CBB \<Rightarrow>
    int \<times> (byte list \<times> nat) option option \<times> CBB" where
  "CBB_finish_i2d mal cbb outp s =
     (case CBB_finish mal cbb s of
        (None, s1) \<Rightarrow> (- 1, outp, CBB_cleanup cbb s1)
      | (Some (der, der_len), s1) \<Rightarrow>
          if der_len > 2 ^ 31 - 1 then (- 1, outp, s1)
          else (int der_len,
                (case outp of
                   None \<Rightarrow> None
                 | Some None \<Rightarrow> Some (Some (der, 0))
                 | Some (Some (mem, pos)) \<Rightarrow> Some (Some (store mem pos (take der_len der), pos + der_len))),
                s1))"

definition CBB_data :: "CBB_ref \<Rightarrow> CBB \<Rightarrow> nat" where
  "CBB_data cbb s =
     (case cbb of
        Top \<Rightarrow> 0
      | Child i \<Rightarrow> (case map_of (kids s) i of Some c \<Rightarrow> offset c + pending_len_len c | None \<Rightarrow> 0))"

definition CBB_len :: "CBB_ref \<Rightarrow> CBB \<Rightarrow> nat" where
  "CBB_len cbb s =
     (case cbb of
        Top \<Rightarrow> blen (base s)
      | Child i \<Rightarrow> (case map_of (kids s) i of
                      Some c \<Rightarrow> blen (base s) - offset c - pending_len_len c
                    | None \<Rightarrow> 0))"

section \<open>Adding\<close>

text \<open>\<open>out_child\<close> is the number of the new child.\<close>

definition cbb_add_child :: "malloc \<Rightarrow> nat \<Rightarrow> nat \<Rightarrow> bool \<Rightarrow> CBB \<Rightarrow> unit option \<times> CBB" where
  "cbb_add_child mal out_child len_len is_asn1 s =
     (let off = blen (base s) in
      and_then (on_base (cbb_buffer_add mal len_len) s) (\<lambda>prefix_bytes s1.
        (Some (), s1\<lparr>base := (base s1)\<lparr>buf := store (buf (base s1)) prefix_bytes (replicate len_len 0)\<rparr>,
                     kids := kids s1 @ [(out_child, \<lparr>offset = off, pending_len_len = len_len,
                                                     pending_is_asn1 = is_asn1\<rparr>)]\<rparr>)))"

definition cbb_add_length_prefixed :: "malloc \<Rightarrow> CBB_ref \<Rightarrow> nat \<Rightarrow> nat \<Rightarrow> CBB \<Rightarrow> unit option \<times> CBB" where
  "cbb_add_length_prefixed mal cbb out_contents len_len s =
     and_then (CBB_flush mal cbb s) (\<lambda>_ s1. cbb_add_child mal out_contents len_len False s1)"

definition CBB_add_u8_length_prefixed :: "malloc \<Rightarrow> CBB_ref \<Rightarrow> nat \<Rightarrow> CBB \<Rightarrow> unit option \<times> CBB" where
  "CBB_add_u8_length_prefixed mal cbb out_contents s = cbb_add_length_prefixed mal cbb out_contents 1 s"

definition CBB_add_u16_length_prefixed :: "malloc \<Rightarrow> CBB_ref \<Rightarrow> nat \<Rightarrow> CBB \<Rightarrow> unit option \<times> CBB" where
  "CBB_add_u16_length_prefixed mal cbb out_contents s = cbb_add_length_prefixed mal cbb out_contents 2 s"

definition CBB_add_u24_length_prefixed :: "malloc \<Rightarrow> CBB_ref \<Rightarrow> nat \<Rightarrow> CBB \<Rightarrow> unit option \<times> CBB" where
  "CBB_add_u24_length_prefixed mal cbb out_contents s = cbb_add_length_prefixed mal cbb out_contents 3 s"

definition CBB_add_space :: "malloc \<Rightarrow> CBB_ref \<Rightarrow> nat \<Rightarrow> CBB \<Rightarrow> nat option \<times> CBB" where
  "CBB_add_space mal cbb len s =
     and_then (CBB_flush mal cbb s) (\<lambda>_ s1. on_base (cbb_buffer_add mal len) s1)"

definition CBB_reserve :: "malloc \<Rightarrow> CBB_ref \<Rightarrow> nat \<Rightarrow> CBB \<Rightarrow> nat option \<times> CBB" where
  "CBB_reserve mal cbb len s =
     and_then (CBB_flush mal cbb s) (\<lambda>_ s1. on_base (cbb_buffer_reserve mal len) s1)"

definition CBB_did_write :: "CBB_ref \<Rightarrow> nat \<Rightarrow> CBB \<Rightarrow> unit option \<times> CBB" where
  "CBB_did_write cbb len s =
     (case cbb_get_base cbb (kids s) of
        None \<Rightarrow> (None, s)
      | Some (pre, sub) \<Rightarrow>
          let newlen = size_add (blen (base s)) len in
          if sub \<noteq> [] \<or> newlen < blen (base s) \<or> newlen > cap (base s) then (None, s)
          else (Some (), s\<lparr>base := (base s)\<lparr>blen := newlen\<rparr>\<rparr>))"

definition CBB_add_bytes :: "malloc \<Rightarrow> CBB_ref \<Rightarrow> byte list \<Rightarrow> CBB \<Rightarrow> unit option \<times> CBB" where
  "CBB_add_bytes mal cbb data s =
     and_then (CBB_add_space mal cbb (length data) s) (\<lambda>out s1.
       (Some (), s1\<lparr>base := (base s1)\<lparr>buf := store (buf (base s1)) out data\<rparr>\<rparr>))"

definition CBB_add_zeros :: "malloc \<Rightarrow> CBB_ref \<Rightarrow> nat \<Rightarrow> CBB \<Rightarrow> unit option \<times> CBB" where
  "CBB_add_zeros mal cbb len s =
     and_then (CBB_add_space mal cbb len s) (\<lambda>out s1.
       (Some (), s1\<lparr>base := (base s1)\<lparr>buf := store (buf (base s1)) out (replicate len 0)\<rparr>\<rparr>))"

definition cbb_add_u :: "malloc \<Rightarrow> CBB_ref \<Rightarrow> u64 \<Rightarrow> nat \<Rightarrow> CBB \<Rightarrow> unit option \<times> CBB" where
  "cbb_add_u mal cbb v len_len s =
     and_then (CBB_add_space mal cbb len_len s) (\<lambda>out s1.
       let (bs, rest) = store_len (buf (base s1)) out len_len (unat v);
           s2 = s1\<lparr>base := (base s1)\<lparr>buf := bs\<rparr>\<rparr>
       in if rest \<noteq> 0 then (None, cbb_on_error cbb s2) else (Some (), s2))"

definition CBB_add_u8 :: "malloc \<Rightarrow> CBB_ref \<Rightarrow> byte \<Rightarrow> CBB \<Rightarrow> unit option \<times> CBB" where
  "CBB_add_u8 mal cbb v s = cbb_add_u mal cbb (ucast v) 1 s"

definition CBB_add_u16 :: "malloc \<Rightarrow> CBB_ref \<Rightarrow> u16 \<Rightarrow> CBB \<Rightarrow> unit option \<times> CBB" where
  "CBB_add_u16 mal cbb v s = cbb_add_u mal cbb (ucast v) 2 s"

definition CBB_add_u16le :: "malloc \<Rightarrow> CBB_ref \<Rightarrow> u16 \<Rightarrow> CBB \<Rightarrow> unit option \<times> CBB" where
  "CBB_add_u16le mal cbb v s = CBB_add_u16 mal cbb (CRYPTO_bswap2 v) s"

definition CBB_add_u24 :: "malloc \<Rightarrow> CBB_ref \<Rightarrow> u32 \<Rightarrow> CBB \<Rightarrow> unit option \<times> CBB" where
  "CBB_add_u24 mal cbb v s = cbb_add_u mal cbb (ucast v) 3 s"

definition CBB_add_u32 :: "malloc \<Rightarrow> CBB_ref \<Rightarrow> u32 \<Rightarrow> CBB \<Rightarrow> unit option \<times> CBB" where
  "CBB_add_u32 mal cbb v s = cbb_add_u mal cbb (ucast v) 4 s"

definition CBB_add_u32le :: "malloc \<Rightarrow> CBB_ref \<Rightarrow> u32 \<Rightarrow> CBB \<Rightarrow> unit option \<times> CBB" where
  "CBB_add_u32le mal cbb v s = CBB_add_u32 mal cbb (CRYPTO_bswap4 v) s"

definition CBB_add_u64 :: "malloc \<Rightarrow> CBB_ref \<Rightarrow> u64 \<Rightarrow> CBB \<Rightarrow> unit option \<times> CBB" where
  "CBB_add_u64 mal cbb v s = cbb_add_u mal cbb v 8 s"

definition CBB_add_u64le :: "malloc \<Rightarrow> CBB_ref \<Rightarrow> u64 \<Rightarrow> CBB \<Rightarrow> unit option \<times> CBB" where
  "CBB_add_u64le mal cbb v s = CBB_add_u64 mal cbb (CRYPTO_bswap8 v) s"

definition CBB_discard_child :: "CBB_ref \<Rightarrow> CBB \<Rightarrow> CBB" where
  "CBB_discard_child cbb s =
     (case cbb_get_base cbb (kids s) of
        Some (pre, k # sub) \<Rightarrow> s\<lparr>base := (base s)\<lparr>blen := offset (snd k)\<rparr>, kids := pre\<rparr>
      | _ \<Rightarrow> s)"

section \<open>ASN.1\<close>

text \<open>The number of base-128 digits, and the loop that adds them, most significant first.\<close>

fun base128_len :: "nat \<Rightarrow> nat" where
  "base128_len copy = (if copy > 0 then Suc (base128_len (copy div 128)) else 0)"

declare base128_len.simps [simp del]

fun add_base128_loop :: "malloc \<Rightarrow> CBB_ref \<Rightarrow> u64 \<Rightarrow> nat \<Rightarrow> CBB \<Rightarrow> unit option \<times> CBB" where
  "add_base128_loop mal cbb v 0 s = (Some (), s)"
| "add_base128_loop mal cbb v (Suc i) s =
     (let b = ucast (drop_bit (7 * i) v AND 0x7f);
          b' = (if i \<noteq> 0 then b OR 0x80 else b)
      in and_then (CBB_add_u8 mal cbb b' s) (\<lambda>_ s1. add_base128_loop mal cbb v i s1))"

definition add_base128_integer :: "malloc \<Rightarrow> CBB_ref \<Rightarrow> u64 \<Rightarrow> CBB \<Rightarrow> unit option \<times> CBB" where
  "add_base128_integer mal cbb v s =
     (let len_len0 = base128_len (unat v);
          len_len = (if len_len0 = 0 then 1 else len_len0)
      in add_base128_loop mal cbb v len_len s)"

definition CBB_add_asn1 :: "malloc \<Rightarrow> CBB_ref \<Rightarrow> nat \<Rightarrow> CBS_ASN1_TAG \<Rightarrow> CBB \<Rightarrow> unit option \<times> CBB" where
  "CBB_add_asn1 mal cbb out_contents tag s =
     and_then (CBB_flush mal cbb s) (\<lambda>_ s1.
       let tag_bits = ucast (drop_bit CBS_ASN1_TAG_SHIFT tag AND 0xe0) :: byte;
           tag_number = tag AND CBS_ASN1_TAG_NUMBER_MASK
       in and_then
            (if tag_number \<ge> 0x1f then
               and_then (CBB_add_u8 mal cbb (tag_bits OR 0x1f) s1) (\<lambda>_ s2.
                 add_base128_integer mal cbb (ucast tag_number) s2)
             else CBB_add_u8 mal cbb (tag_bits OR ucast tag_number) s1)
            (\<lambda>_ s2. cbb_add_child mal out_contents 1 True s2))"

text \<open>A local \<open>CBB child\<close> of a function is an object that no other child uses.\<close>

definition local_child :: "CBB \<Rightarrow> nat" where
  "local_child s = Suc (fold max (map fst (kids s)) 0)"

text \<open>The \<open>goto err\<close> of the ASN.1 writers.\<close>

definition or_error :: "CBB_ref \<Rightarrow> 'a option \<times> CBB \<Rightarrow> 'a option \<times> CBB" where
  "or_error cbb r = (case r of (None, s) \<Rightarrow> (None, cbb_on_error cbb s) | (Some a, s) \<Rightarrow> (Some a, s))"

text \<open>The loop over the eight bytes of \<open>value\<close>; the result is \<open>started\<close>.\<close>

fun asn1_uint64_bytes :: "malloc \<Rightarrow> CBB_ref \<Rightarrow> u64 \<Rightarrow> nat \<Rightarrow> bool \<Rightarrow> CBB \<Rightarrow> bool option \<times> CBB" where
  "asn1_uint64_bytes mal child v 0 started s = (Some started, s)"
| "asn1_uint64_bytes mal child v (Suc n) started s =
     (let b = ucast (drop_bit (8 * n) v AND 0xff) :: byte in
      if \<not> started \<and> b = 0 then asn1_uint64_bytes mal child v n False s
      else
        and_then (if \<not> started \<and> b AND 0x80 \<noteq> 0 then CBB_add_u8 mal child 0 s else (Some (), s)) (\<lambda>_ s1.
        and_then (CBB_add_u8 mal child b s1) (\<lambda>_ s2.
          asn1_uint64_bytes mal child v n True s2)))"

definition CBB_add_asn1_uint64_with_tag ::
  "malloc \<Rightarrow> CBB_ref \<Rightarrow> u64 \<Rightarrow> CBS_ASN1_TAG \<Rightarrow> CBB \<Rightarrow> unit option \<times> CBB" where
  "CBB_add_asn1_uint64_with_tag mal cbb v tag s =
     (let child = local_child s in
      case or_error cbb
        (and_then (CBB_add_asn1 mal cbb child tag s) (\<lambda>_ s1.
         and_then (asn1_uint64_bytes mal (Child child) v 8 False s1) (\<lambda>started s2.
           if \<not> started then CBB_add_u8 mal (Child child) 0 s2 else (Some (), s2)))) of
        (None, s') \<Rightarrow> (None, s')
      | (Some _, s') \<Rightarrow> CBB_flush mal cbb s')"

definition CBB_add_asn1_uint64 :: "malloc \<Rightarrow> CBB_ref \<Rightarrow> u64 \<Rightarrow> CBB \<Rightarrow> unit option \<times> CBB" where
  "CBB_add_asn1_uint64 mal cbb v s = CBB_add_asn1_uint64_with_tag mal cbb v CBS_ASN1_INTEGER s"

text \<open>
  \<open>CBB_add_asn1_int64_with_tag\<close>: \<open>value\<close> is a two's-complement word, \<open>bytes\<close> its little-endian
  memory, and \<open>start\<close> skips sign-extension bytes that are not needed.
\<close>

definition int64_bytes :: "u64 \<Rightarrow> byte list" where
  "int64_bytes v = map (\<lambda>i. ucast (drop_bit (8 * i) v)) [0..<8]"

fun int64_start :: "byte list \<Rightarrow> nat \<Rightarrow> nat" where
  "int64_start bytes 0 = 0"
| "int64_start bytes (Suc start) =
     (if bytes ! Suc start = 0xff \<and> bytes ! start AND 0x80 \<noteq> 0 then int64_start bytes start
      else Suc start)"

fun add_bytes_down :: "malloc \<Rightarrow> CBB_ref \<Rightarrow> byte list \<Rightarrow> nat \<Rightarrow> CBB \<Rightarrow> unit option \<times> CBB" where
  "add_bytes_down mal child bytes 0 s = (Some (), s)"
| "add_bytes_down mal child bytes (Suc i) s =
     and_then (CBB_add_u8 mal child (bytes ! i) s) (\<lambda>_ s1. add_bytes_down mal child bytes i s1)"

definition CBB_add_asn1_int64_with_tag ::
  "malloc \<Rightarrow> CBB_ref \<Rightarrow> u64 \<Rightarrow> CBS_ASN1_TAG \<Rightarrow> CBB \<Rightarrow> unit option \<times> CBB" where
  "CBB_add_asn1_int64_with_tag mal cbb v tag s =
     (if sint v \<ge> 0 then CBB_add_asn1_uint64_with_tag mal cbb v tag s
      else
        let bytes = int64_bytes v;
            start = int64_start bytes 7;
            child = local_child s
        in case or_error cbb
             (and_then (CBB_add_asn1 mal cbb child tag s) (\<lambda>_ s1.
               add_bytes_down mal (Child child) bytes (Suc start) s1)) of
             (None, s') \<Rightarrow> (None, s')
           | (Some _, s') \<Rightarrow> CBB_flush mal cbb s')"

definition CBB_add_asn1_int64 :: "malloc \<Rightarrow> CBB_ref \<Rightarrow> u64 \<Rightarrow> CBB \<Rightarrow> unit option \<times> CBB" where
  "CBB_add_asn1_int64 mal cbb v s = CBB_add_asn1_int64_with_tag mal cbb v CBS_ASN1_INTEGER s"

definition CBB_add_asn1_octet_string :: "malloc \<Rightarrow> CBB_ref \<Rightarrow> byte list \<Rightarrow> CBB \<Rightarrow> unit option \<times> CBB" where
  "CBB_add_asn1_octet_string mal cbb data s =
     (let child = local_child s in
      or_error cbb
        (and_then (CBB_add_asn1 mal cbb child CBS_ASN1_OCTETSTRING s) (\<lambda>_ s1.
         and_then (CBB_add_bytes mal (Child child) data s1) (\<lambda>_ s2. CBB_flush mal cbb s2))))"

definition CBB_add_asn1_bool :: "malloc \<Rightarrow> CBB_ref \<Rightarrow> int \<Rightarrow> CBB \<Rightarrow> unit option \<times> CBB" where
  "CBB_add_asn1_bool mal cbb v s =
     (let child = local_child s in
      or_error cbb
        (and_then (CBB_add_asn1 mal cbb child CBS_ASN1_BOOLEAN s) (\<lambda>_ s1.
         and_then (CBB_add_u8 mal (Child child) (if v \<noteq> 0 then 0xff else 0) s1) (\<lambda>_ s2.
           CBB_flush mal cbb s2))))"

end
