(* ===== verification/Der.thy ===== *)
theory Der
  imports Cbs_Asn1
begin

text \<open>
  A reference description of the encodings read by \<open>Cbs\<close> and \<open>Cbs_Asn1\<close>: big-endian integers,
  minimal base-128 integers, DER identifier and length octets. The lemmas show that the
  readers accept exactly these encodings; the writers of \<open>Cbb\<close> are compared with the same
  reference.
\<close>

section \<open>Big-endian integers\<close>

definition be_val :: "byte list \<Rightarrow> nat" where
  "be_val bs = foldl (\<lambda>n b. n * 256 + unat b) 0 bs"

lemma be_val_simps [simp]: "be_val [] = 0" "be_val (bs @ [b]) = be_val bs * 256 + unat b"
  by (simp_all add: be_val_def)

lemma be_val_single [simp]: "be_val [b] = unat b"
  using be_val_simps(2) [of "[]" b] by simp

lemma be_val_lt: "be_val bs < 256 ^ length bs"
proof (induction bs rule: rev_induct)
  case (snoc b bs)
  have "be_val bs * 256 + unat b < (be_val bs + 1) * 256" by simp
  also have "\<dots> \<le> 256 ^ length bs * 256" using snoc by (intro mult_right_mono) simp_all
  finally show ?case by simp
qed simp

text \<open>\<open>n\<close> written in \<open>k\<close> bytes, and in as few bytes as possible.\<close>

fun be_bytes :: "nat \<Rightarrow> nat \<Rightarrow> byte list" where
  "be_bytes 0 n = []"
| "be_bytes (Suc k) n = be_bytes k (n div 256) @ [byte_of n]"

fun be_min :: "nat \<Rightarrow> byte list" where
  "be_min n = (if n = 0 then [] else be_min (n div 256) @ [byte_of n])"

declare be_min.simps [simp del]

lemma be_min_0 [simp]: "be_min 0 = []"
  by (simp add: be_min.simps)

lemma be_min_pos: "0 < n \<Longrightarrow> be_min n = be_min (n div 256) @ [byte_of n]"
  by (subst be_min.simps) simp

lemma length_be_bytes [simp]: "length (be_bytes k n) = k"
  by (induction k arbitrary: n) simp_all

lemma be_val_be_bytes: "be_val (be_bytes k n) = n mod 256 ^ k"
proof (induction k arbitrary: n)
  case (Suc k)
  have "be_val (be_bytes (Suc k) n) = (n div 256 mod 256 ^ k) * 256 + n mod 256"
    by (simp add: Suc.IH)
  also have "\<dots> = n mod (256 * 256 ^ k)" by (simp add: mod_mult2_eq mult.commute)
  finally show ?case by simp
qed simp

lemma be_bytes_Cons: "be_bytes (Suc n) m = byte_of (m div 256 ^ n) # be_bytes n m"
proof (induction n arbitrary: m)
  case (Suc n)
  have "be_bytes (Suc (Suc n)) m = be_bytes (Suc n) (m div 256) @ [byte_of m]" by simp
  also have "\<dots> = byte_of (m div 256 div 256 ^ n) # be_bytes n (m div 256) @ [byte_of m]"
    by (simp only: Suc.IH append_Cons)
  finally show ?case by (simp add: div_mult2_eq)
qed (simp add: byte_eq_iff)

lemma be_bytes_mod: "be_bytes n (m mod 256 ^ n) = be_bytes n m"
proof (induction n arbitrary: m)
  case (Suc n)
  have "m mod (256 * 256 ^ n) div 256 = m div 256 mod 256 ^ n"
    by (simp add: mod_mult2_eq)
  moreover have "m mod (256 * 256 ^ n) mod 256 = m mod 256" by (simp add: mod_mod_cancel)
  ultimately show ?case using Suc.IH [of "m div 256"] by (simp add: byte_eq_iff)
qed simp

lemma be_val_be_min [simp]: "be_val (be_min n) = n"
proof (induction n rule: be_min.induct)
  case (1 n)
  show ?case by (cases "n = 0") (use 1 in \<open>simp_all add: be_min_pos\<close>)
qed

lemma be_min_be_val:
  assumes "256 ^ (length bs - 1) \<le> be_val bs" and "bs \<noteq> []"
  shows "be_min (be_val bs) = bs"
  using assms
proof (induction bs rule: rev_induct)
  case (snoc b bs)
  have pos: "0 < be_val (bs @ [b])" using snoc.prems(1) by (meson le_trans less_eq_Suc_le one_le_numeral one_le_power zero_less_one order_less_le_trans)
  show ?case
  proof (cases "bs = []")
    case True
    with pos show ?thesis by (simp add: be_min_pos)
  next
    case False
    then obtain k where k: "length bs = Suc k" by (cases bs) auto
    have "256 ^ k * 256 \<le> be_val bs * 256 + unat b" using snoc.prems(1) k by (simp add: mult.commute)
    also have "\<dots> < (be_val bs + 1) * 256" by simp
    finally have "256 ^ k < be_val bs + 1" by (simp only: mult_less_cancel2)
    then have "256 ^ (length bs - 1) \<le> be_val bs" using k by simp
    from snoc.IH [OF this False] pos show ?thesis
      by (simp add: be_min_pos byte_eq_iff)
  qed
qed simp

lemma length_be_min_le: "n < 256 ^ k \<Longrightarrow> length (be_min n) \<le> k"
proof (induction k arbitrary: n)
  case (Suc k)
  show ?case
  proof (cases "n = 0")
    case False
    have "n div 256 < 256 ^ k" using Suc.prems by (simp add: div_less_iff_less_mult mult.commute)
    with Suc.IH False show ?thesis by (simp add: be_min_pos)
  qed simp
qed simp

lemma be_min_lower: "0 < n \<Longrightarrow> 256 ^ (length (be_min n) - 1) \<le> n"
proof (induction n rule: be_min.induct)
  case (1 n)
  show ?case
  proof (cases "n div 256 = 0")
    case True
    with "1.prems" show ?thesis by (simp add: be_min_pos)
  next
    case False
    with 1 have "256 ^ (length (be_min (n div 256)) - 1) \<le> n div 256" by simp
    then have "256 ^ (length (be_min (n div 256)) - 1) * 256 \<le> n" by (simp add: less_eq_div_iff_mult_less_eq)
    moreover have "be_min (n div 256) \<noteq> []" using False by (simp add: be_min_pos)
    then obtain k where "length (be_min (n div 256)) = Suc k" by (cases "be_min (n div 256)") auto
    ultimately show ?thesis using "1.prems" by (simp add: be_min_pos mult.commute)
  qed
qed

lemma be_step:
  fixes v :: u64
  assumes "unat v < 2 ^ 56"
  shows "unat (push_bit 8 v OR ucast b) = unat v * 256 + unat (b :: byte)"
proof -
  have "push_bit 8 v OR ucast b = (ucast b :: u64) OR push_bit 8 v" by (simp add: or.commute)
  moreover have "unat (ucast b :: u64) < 2 ^ 8" by simp
  moreover have "unat (ucast b :: u64) + unat v * 2 ^ 8 < 2 ^ LENGTH(64)"
  proof -
    have "unat v \<le> 2 ^ 56 - 1" and "unat b \<le> 255" using assms byte_lt_256 [of b] by linarith+
    then have "unat b + unat v * 256 \<le> 255 + (2 ^ 56 - 1) * 256"
      by (intro add_mono mult_mono) simp_all
    then show ?thesis by simp
  qed
  ultimately show ?thesis using unat_or_push_bit [of "ucast b :: u64" 8 v] by simp
qed

lemma be_loop_snoc: "be_loop r (bs @ [b]) = push_bit 8 (be_loop r bs) OR ucast b"
  by (induction bs arbitrary: r) simp_all

lemma be_loop_be_val: "length bs \<le> 8 \<Longrightarrow> unat (be_loop 0 bs) = be_val bs"
proof (induction bs rule: rev_induct)
  case (snoc b bs)
  have "be_val bs < 256 ^ length bs" by (rule be_val_lt)
  also have "\<dots> \<le> 256 ^ 7" using snoc.prems by (intro power_increasing) simp_all
  finally have "unat (be_loop 0 bs) < 2 ^ 56" using snoc by simp
  then have "unat (push_bit 8 (be_loop 0 bs) OR ucast b) = unat (be_loop 0 bs) * 256 + unat b"
    by (rule be_step)
  then show ?case using snoc by (simp only: be_loop_snoc) simp
qed simp

section \<open>Base-128 integers\<close>

text \<open>The leading digits, all with the continuation bit, and the whole encoding.\<close>

fun base128_lead :: "nat \<Rightarrow> byte list" where
  "base128_lead n = (if n = 0 then [] else base128_lead (n div 128) @ [byte_of (n mod 128 + 128)])"

declare base128_lead.simps [simp del]

definition base128_enc :: "nat \<Rightarrow> byte list" where
  "base128_enc n = base128_lead (n div 128) @ [byte_of (n mod 128)]"

lemma base128_lead_0 [simp]: "base128_lead 0 = []"
  by (simp add: base128_lead.simps)

lemma base128_lead_pos:
  "0 < n \<Longrightarrow> base128_lead n = base128_lead (n div 128) @ [byte_of (n mod 128 + 128)]"
  by (subst base128_lead.simps) simp

lemma base128_step:
  fixes v :: u64
  assumes "unat v < 2 ^ 57"
  shows "unat (push_bit 7 v OR ucast (b AND 0x7F)) = unat v * 128 + unat (b :: byte) mod 128"
proof -
  have "push_bit 7 v OR ucast (b AND 0x7F) = (ucast (b AND 0x7F) :: u64) OR push_bit 7 v" by (simp add: or.commute)
  moreover have "unat (ucast (b AND 0x7F) :: u64) = unat b mod 128"
    by (simp only: unat_ucast_byte unat_and_7F)
  moreover have "unat b mod 128 + unat v * 2 ^ 7 < 2 ^ LENGTH(64)"
  proof -
    have "unat v \<le> 2 ^ 57 - 1" and "unat b mod 128 \<le> 127" using assms by simp_all
    then have "unat b mod 128 + unat v * 128 \<le> 127 + (2 ^ 57 - 1) * 128"
      by (intro add_mono mult_mono) simp_all
    then show ?thesis by simp
  qed
  ultimately show ?thesis
    using unat_or_push_bit [of "ucast (b AND 0x7F) :: u64" 7 v] by simp
qed

lemma shift_57: "drop_bit 57 v = 0 \<longleftrightarrow> unat v < 2 ^ 57" for v :: u64
proof -
  have "drop_bit 57 v = 0 \<longleftrightarrow> unat (drop_bit 57 v) = 0" by (simp add: unat_eq_zero)
  also have "\<dots> \<longleftrightarrow> unat v div 2 ^ 57 = 0" by (simp only: unat_drop_bit)
  finally show ?thesis by (simp add: div_eq_0_iff)
qed

lemma byte_80_iff: "b = (0x80 :: byte) \<longleftrightarrow> unat b = 128"
  by (simp add: byte_eq_iff)

text \<open>Whatever the reader accepts is the minimal encoding of the value it returns.\<close>

lemma base128_loop_sound:
  "base128_loop v bs = (Some w, rest) \<Longrightarrow>
   \<exists>ds. bs = ds @ rest \<and> base128_lead (unat v) @ ds = base128_enc (unat w)"
proof (induction bs arbitrary: v)
  case (Cons b bs)
  let ?v' = "push_bit 7 v OR ucast (b AND 0x7F)"
  have v57: "unat v < 2 ^ 57" and nz: "\<not> (v = 0 \<and> b = 0x80)"
    using Cons.prems shift_57 [of v] by (auto split: if_splits)
  have v': "unat ?v' = unat v * 128 + unat b mod 128" using base128_step [OF v57] .
  then have q: "unat ?v' div 128 = unat v" "unat ?v' mod 128 = unat b mod 128" by simp_all
  show ?case
  proof (cases "b AND 0x80 = 0")
    case True
    then have "unat b < 128" by (simp add: and_80_eq_0_iff)
    moreover have "w = ?v'" "rest = bs"
      using Cons.prems True v57 nz by (auto simp: shift_57 Let_def split: if_splits)
    ultimately have "base128_enc (unat w) = base128_lead (unat v) @ [b]"
      unfolding base128_enc_def by (simp only: q) simp
    then show ?thesis using \<open>rest = bs\<close> by (intro exI [of _ "[b]"]) simp
  next
    case False
    then have b: "128 \<le> unat b" by (simp add: and_80_eq_0_iff)
    then have bm: "unat b mod 128 + 128 = unat b" by (rule high_byte)
    have "base128_loop ?v' bs = (Some w, rest)"
      using Cons.prems False v57 nz by (auto simp: shift_57 Let_def split: if_splits)
    then obtain ds where ds: "bs = ds @ rest" "base128_lead (unat ?v') @ ds = base128_enc (unat w)"
      using Cons.IH by blast
    have "0 < unat ?v'"
    proof (rule ccontr)
      assume "\<not> 0 < unat ?v'"
      then have "unat v = 0" "unat b mod 128 = 0" using v' by simp_all
      then show False using nz bm by (simp add: unat_eq_zero byte_80_iff)
    qed
    then have "base128_lead (unat ?v') = base128_lead (unat v) @ [b]"
      by (simp only: base128_lead_pos q bm byte_of_unat)
    then show ?thesis using ds by (intro exI [of _ "b # ds"]) simp
  qed
qed simp

lemma base128_loop_lead:
  "n < 2 ^ 64 \<Longrightarrow> base128_loop 0 (base128_lead n @ bs) = base128_loop (of_nat n) bs"
proof (induction n arbitrary: bs rule: base128_lead.induct)
  case (1 n)
  show ?case
  proof (cases "n = 0")
    case False
    let ?v = "of_nat (n div 128) :: u64" and ?b = "byte_of (n mod 128 + 128)"
    have v: "unat ?v = n div 128" using "1.prems" by (intro unat_of_nat_less) simp
    then have v57: "unat ?v < 2 ^ 57" using "1.prems" by (simp add: div_less_iff_less_mult)
    have b: "unat ?b = n mod 128 + 128" "?b AND 0x80 \<noteq> 0"
      by (simp_all add: and_80_eq_0_iff)
    have nz: "\<not> (?v = 0 \<and> ?b = 0x80)"
    proof
      assume a: "?v = 0 \<and> ?b = 0x80"
      then have "n div 128 = 0" using v by (metis unat_eq_zero)
      moreover have "n mod 128 = 0" using a b(1) by (simp add: byte_80_iff)
      ultimately show False using False by (metis div_mult_mod_eq mult_zero_left add_0)
    qed
    have "unat (push_bit 7 ?v OR ucast (?b AND 0x7F)) = n"
      using base128_step [OF v57, of ?b] v b(1) by simp
    then have step: "push_bit 7 ?v OR ucast (?b AND 0x7F) = of_nat n" by (rule word_of_unatI)
    have "base128_loop 0 (base128_lead n @ bs) = base128_loop ?v (?b # bs)"
      using 1 False by (simp add: base128_lead_pos)
    also have "\<dots> = base128_loop (of_nat n) bs"
      using nz b(2) v57 step by (auto simp: shift_57)
    finally show ?thesis .
  qed simp
qed

lemma parse_base128_enc:
  assumes "n < 2 ^ 64"
  shows "parse_base128_integer (base128_enc n @ rest) = (Some (of_nat n), rest)"
proof -
  let ?v = "of_nat (n div 128) :: u64" and ?b = "byte_of (n mod 128)"
  have v: "unat ?v = n div 128" using assms by (intro unat_of_nat_less) simp
  then have v57: "unat ?v < 2 ^ 57" using assms by (simp add: div_less_iff_less_mult)
  have b: "unat ?b = n mod 128" "?b AND 0x80 = 0" by (simp_all add: and_80_eq_0_iff)
  have "unat (push_bit 7 ?v OR ucast (?b AND 0x7F)) = n"
    using base128_step [OF v57, of ?b] v b(1) by simp
  then have step: "push_bit 7 ?v OR ucast (?b AND 0x7F) = of_nat n" by (rule word_of_unatI)
  have "?b \<noteq> 0x80" using b(1) by (simp add: byte_80_iff)
  then have "base128_loop ?v (?b # rest) = (Some (of_nat n), rest)"
    using b(2) v57 step by (simp add: shift_57)
  moreover have "n div 128 < 2 ^ 64" using assms by simp
  ultimately show ?thesis
    by (simp add: parse_base128_integer_def base128_enc_def base128_loop_lead)
qed

lemma parse_base128_sound:
  assumes "parse_base128_integer cbs = (Some v, rest)"
  shows "cbs = base128_enc (unat v) @ rest"
  using base128_loop_sound [of 0 cbs v rest] assms by (auto simp: parse_base128_integer_def)

section \<open>DER headers\<close>

text \<open>
  A tag in its in-memory form is its class and constructed bits (a number below 8) and its
  tag number. Identifier octets, length octets and the whole header follow X.690, sections
  8.1.2, 8.1.3 and 10.1.
\<close>

definition tag_class :: "CBS_ASN1_TAG \<Rightarrow> nat" where
  "tag_class tag = unat tag div 2 ^ 29"

definition tag_no :: "CBS_ASN1_TAG \<Rightarrow> nat" where
  "tag_no tag = unat tag mod 2 ^ 29"

definition der_tag :: "CBS_ASN1_TAG \<Rightarrow> byte list" where
  "der_tag tag =
     (if tag_no tag < 31 then [byte_of (32 * tag_class tag + tag_no tag)]
      else byte_of (32 * tag_class tag + 31) # base128_enc (tag_no tag))"

text \<open>Everything but the two tags [UNIVERSAL 0].\<close>

definition valid_tag :: "CBS_ASN1_TAG \<Rightarrow> bool" where
  "valid_tag tag \<longleftrightarrow> \<not> (tag_no tag = 0 \<and> tag_class tag \<le> 1)"

definition der_len :: "nat \<Rightarrow> byte list" where
  "der_len n = (if n < 128 then [byte_of n]
                else byte_of (128 + length (be_min n)) # be_min n)"

definition der_header :: "CBS_ASN1_TAG \<Rightarrow> nat \<Rightarrow> byte list" where
  "der_header tag n = der_tag tag @ der_len n"

lemma tag_class_lt: "tag_class tag < 8"
  using unat_u32_lt [of tag] by (simp add: tag_class_def div_less_iff_less_mult)

lemma tag_no_lt: "tag_no tag < 2 ^ 29"
  by (simp add: tag_no_def)

lemma tag_split: "unat tag = tag_class tag * 2 ^ 29 + tag_no tag"
  by (simp only: tag_class_def tag_no_def div_mult_mod_eq)

lemma tag_eqI: "tag_class a = tag_class b \<Longrightarrow> tag_no a = tag_no b \<Longrightarrow> a = b"
  by (simp add: word_unat_eq_iff tag_split)

lemma and_e0: "(b AND 0xe0 :: byte) = push_bit 5 (drop_bit 5 b)"
proof (rule bit_word_eqI)
  fix k assume "k < LENGTH(8)"
  then consider "k = 0" | "k = 1" | "k = 2" | "k = 3" | "k = 4" | "k = 5" | "k = 6" | "k = 7" by fastforce
  then show "bit (b AND 0xe0) k = bit (push_bit 5 (drop_bit 5 b)) k"
    by cases (simp_all add: bit_and_iff bit_push_bit_iff bit_drop_bit_eq)
qed

lemma unat_and_e0: "unat (b AND 0xe0 :: byte) = unat b div 32 * 32"
proof -
  have "unat b div 32 * 32 < 256" using byte_lt_256 [of b] div_times_less_eq_dividend [of "unat b" 32] by linarith
  then show ?thesis by (simp only: and_e0 unat_push_bit unat_drop_bit) simp
qed

lemma tag_bits: "unat (push_bit 24 (ucast b AND 0xe0) :: u32) = unat (b :: byte) div 32 * 2 ^ 29"
proof -
  have "(ucast b AND 0xe0 :: u32) = ucast (b AND 0xe0)" by (simp add: unsigned_and_eq)
  then have e: "unat (ucast b AND 0xe0 :: u32) = unat b div 32 * 32"
    by (simp only: unat_ucast_byte unat_and_e0)
  have "unat b div 32 < 8" using byte_lt_256 [of b] by (simp add: div_less_iff_less_mult)
  then show ?thesis using e by (simp only: unat_push_bit) simp
qed

lemma tag_low: "unat (ucast b AND 0x1f :: u32) = unat (b :: byte) mod 32"
  using unat_and_mask [of "ucast b :: u32" 5] by (simp add: mask_eq_exp_minus_1)

lemma tag_or:
  assumes "n < 2 ^ 29" and "unat (w :: u32) = n"
  shows "tag_class (push_bit 24 (ucast (b :: byte) AND 0xe0) OR w) = unat b div 32"
    and "tag_no (push_bit 24 (ucast b AND 0xe0) OR w) = n"
proof -
  let ?c = "of_nat (unat b div 32) :: u32"
  have c8: "unat b div 32 < 8" using byte_lt_256 [of b] by (simp add: div_less_iff_less_mult)
  then have c: "unat ?c = unat b div 32" by (intro unat_of_nat_less) simp
  have "(push_bit 24 (ucast b AND 0xe0) :: u32) = push_bit 29 ?c"
    unfolding word_unat_eq_iff tag_bits using c c8 by (simp only: unat_push_bit) simp
  then have "unat (push_bit 24 (ucast b AND 0xe0) OR w) = unat b div 32 * 2 ^ 29 + n"
    using unat_or_push_bit [of w 29 ?c] assms c c8 by (simp add: or.commute)
  then show "tag_class (push_bit 24 (ucast b AND 0xe0) OR w) = unat b div 32"
    and "tag_no (push_bit 24 (ucast b AND 0xe0) OR w) = n"
    using assms(1) by (simp_all add: tag_class_def tag_no_def)
qed

lemma and_not_eq_0_iff: "a AND NOT m = 0 \<longleftrightarrow> a AND m = a" for a m :: "'a::len word"
  by (auto simp: bit_eq_iff bit_and_iff bit_not_iff)

lemma and_exp: "w AND 2 ^ n = (if bit w n then 2 ^ n else 0)" for w :: "'a::len word"
  by (rule bit_word_eqI) (auto simp: bit_and_iff bit_exp_iff)

lemma valid_tag_iff: "tag AND NOT CBS_ASN1_CONSTRUCTED = 0 \<longleftrightarrow> \<not> valid_tag tag"
proof -
  let ?m = "2 ^ 29 :: u32"
  have "CBS_ASN1_CONSTRUCTED = ?m" by (simp add: CBS_ASN1_CONSTRUCTED_def CBS_ASN1_TAG_SHIFT_def)
  moreover have "tag AND ?m = tag \<longleftrightarrow> tag = 0 \<or> tag = ?m"
    unfolding and_exp by (cases "bit tag 29") auto
  ultimately have "tag AND NOT CBS_ASN1_CONSTRUCTED = 0 \<longleftrightarrow> tag = 0 \<or> tag = ?m"
    by (simp only: and_not_eq_0_iff)
  also have "\<dots> \<longleftrightarrow> unat tag = 0 \<or> unat tag = 2 ^ 29"
    by (simp add: word_unat_eq_iff)
  also have "\<dots> \<longleftrightarrow> \<not> valid_tag tag"
  proof -
    have "(c * 2 ^ 29 + n = 0 \<or> c * 2 ^ 29 + n = (2 :: nat) ^ 29) = (n = 0 \<and> c \<le> 1)" if "n < 2 ^ 29" for c n
      using that by (cases "c = 0"; cases "c = 1") auto
    from this [OF tag_no_lt] show ?thesis by (simp only: tag_split valid_tag_def not_not)
  qed
  finally show ?thesis .
qed

lemma tag_mask: "unat (ucast CBS_ASN1_TAG_NUMBER_MASK :: u64) = 2 ^ 29 - 1"
  by (simp add: CBS_ASN1_TAG_NUMBER_MASK_def CBS_ASN1_TAG_SHIFT_def)

lemma CBS_get_u8_simps [simp]:
  "CBS_get_u8 [] = (None, [])" "CBS_get_u8 (b # bs) = (Some b, bs)"
  by (simp_all add: CBS_get_u8_def cbs_get_def CBS_len_def)

text \<open>The identifier reader accepts the identifier octets of the valid tags and nothing else.\<close>

lemma parse_asn1_tag_sound:
  assumes "parse_asn1_tag cbs = (Some tag, rest)"
  shows "cbs = der_tag tag @ rest" and "valid_tag tag"
proof -
  obtain b cs where cbs: "cbs = b # cs"
    using assms by (cases cbs) (auto simp: parse_asn1_tag_def)
  let ?T = "push_bit 24 (ucast b AND 0xe0) :: u32" and ?n = "ucast b AND 0x1f :: u32"
  obtain w where tag: "tag = ?T OR w" and ok: "valid_tag tag"
    and w: "(if ?n = 0x1f
             then and_then (parse_base128_integer cs) (\<lambda>v cbs.
               if v > ucast CBS_ASN1_TAG_NUMBER_MASK \<or> v < 0x1f then (None, cbs) else (Some (ucast v), cbs))
             else (Some ?n, cs)) = (Some w, rest)"
    using assms unfolding cbs parse_asn1_tag_def
    by (auto simp: Let_def CBS_ASN1_TAG_SHIFT_def valid_tag_iff split: if_splits elim!: and_then_SomeE)
  have "cbs = der_tag tag @ rest"
  proof (cases "?n = 0x1f")
    case True
    then have b31: "unat b mod 32 = 31" using tag_low [of b] by simp
    from w True obtain v where v: "parse_base128_integer cs = (Some v, rest)" "w = ucast v"
      and le: "31 \<le> unat v" "unat v < 2 ^ 29"
      by (auto simp: word_le_nat_alt word_less_nat_alt tag_mask split: if_splits elim!: and_then_SomeE)
    have "unat w = unat v" using le(2) v(2) by (simp add: unat_ucast_less)
    from tag_or [OF le(2) this, of b] have "tag_class tag = unat b div 32" "tag_no tag = unat v"
      by (simp_all add: tag)
    moreover have "32 * (unat b div 32) + 31 = unat b" using b31 by (metis mult_div_mod_eq)
    ultimately show ?thesis
      using parse_base128_sound [OF v(1)] le(1) by (simp add: cbs der_tag_def)
  next
    case False
    then have "unat b mod 32 \<noteq> 31" using tag_low [of b] by (simp add: word_unat_eq_iff)
    then have b31: "unat b mod 32 < 31" using mod_less_divisor [of 32 "unat b"] by linarith
    from w False have w: "w = ?n" "rest = cs" by simp_all
    have "unat w = unat b mod 32" using w(1) by (simp only: tag_low)
    moreover have "unat b mod 32 < 2 ^ 29" using b31 by simp
    ultimately have "tag_class tag = unat b div 32" "tag_no tag = unat b mod 32"
      using tag_or [of "unat b mod 32" w b] by (simp_all add: tag)
    then show ?thesis using b31 w(2) by (simp add: cbs der_tag_def)
  qed
  then show "cbs = der_tag tag @ rest" and "valid_tag tag" using ok by simp_all
qed

lemma parse_asn1_tag_der:
  assumes "valid_tag tag"
  shows "parse_asn1_tag (der_tag tag @ rest) = (Some tag, rest)"
proof (cases "tag_no tag < 31")
  case True
  let ?b = "byte_of (32 * tag_class tag + tag_no tag)"
  have "32 * tag_class tag + tag_no tag < 256" using True tag_class_lt [of tag] by linarith
  then have b: "unat ?b = 32 * tag_class tag + tag_no tag" by simp
  then have q: "unat ?b div 32 = tag_class tag" "unat ?b mod 32 = tag_no tag" using True by simp_all
  have n: "unat (ucast ?b AND 0x1f :: u32) = tag_no tag" by (simp only: tag_low q)
  then have "(ucast ?b AND 0x1f :: u32) \<noteq> 0x1f" using True by auto
  moreover have "push_bit 24 (ucast ?b AND 0xe0) OR (ucast ?b AND 0x1f) = tag"
    using tag_or [OF tag_no_lt n, of ?b] by (intro tag_eqI) (simp_all only: q)
  ultimately show ?thesis
    using True assms by (simp add: parse_asn1_tag_def der_tag_def Let_def CBS_ASN1_TAG_SHIFT_def valid_tag_iff)
next
  case False
  let ?b = "byte_of (32 * tag_class tag + 31)" and ?v = "of_nat (tag_no tag) :: u64"
  have "32 * tag_class tag + 31 < 256" using tag_class_lt [of tag] by linarith
  then have b: "unat ?b = 32 * tag_class tag + 31" by simp
  then have q: "unat ?b div 32 = tag_class tag" "unat ?b mod 32 = 31" by simp_all
  have "unat (ucast ?b AND 0x1f :: u32) = 31" by (simp only: tag_low q)
  then have n: "(ucast ?b AND 0x1f :: u32) = 0x1f" by (simp add: word_unat_eq_iff)
  have lt: "tag_no tag < 2 ^ 64" using tag_no_lt [of tag] by simp
  then have v: "unat ?v = tag_no tag" by (intro unat_of_nat_less) simp
  then have w: "unat (ucast ?v :: u32) = tag_no tag" using tag_no_lt [of tag] by (simp add: unat_ucast_less)
  have "push_bit 24 (ucast ?b AND 0xe0) OR ucast ?v = tag"
    using tag_or [OF tag_no_lt w, of ?b] by (intro tag_eqI) (simp_all only: q)
  moreover have "\<not> ?v > ucast CBS_ASN1_TAG_NUMBER_MASK" "\<not> ?v < 0x1f"
    using v tag_no_lt [of tag] False by (simp_all add: word_less_nat_alt tag_mask)
  ultimately show ?thesis
    using False assms n parse_base128_enc [OF lt]
    by (simp add: parse_asn1_tag_def der_tag_def Let_def CBS_ASN1_TAG_SHIFT_def valid_tag_iff)
qed

section \<open>DER elements\<close>

lemma CBS_get_bytes_eq:
  "CBS_get_bytes cbs n = (if length cbs < n then (None, cbs) else (Some (take n cbs), drop n cbs))"
  by (simp add: CBS_get_bytes_def cbs_get_def CBS_len_def CBS_init_def)

lemma cbs_get_u_eq:
  "cbs_get_u cbs n = (if length cbs < n then (None, cbs) else (Some (be_loop 0 (take n cbs)), drop n cbs))"
  by (simp add: cbs_get_u_def cbs_get_def CBS_len_def)

lemma length_base128_lead_le: "n < 128 ^ k \<Longrightarrow> length (base128_lead n) \<le> k"
proof (induction k arbitrary: n)
  case (Suc k)
  show ?case
  proof (cases "n = 0")
    case False
    have "n div 128 < 128 ^ k" using Suc.prems by (simp add: div_less_iff_less_mult mult.commute)
    with Suc.IH False show ?thesis by (simp add: base128_lead_pos)
  qed simp
qed simp

lemma length_der_tag: "1 \<le> length (der_tag tag)" "length (der_tag tag) \<le> 6"
proof -
  have "tag_no tag div 128 < 128 ^ 4" using tag_no_lt [of tag] by (simp add: div_less_iff_less_mult)
  from length_base128_lead_le [OF this] show "1 \<le> length (der_tag tag)" "length (der_tag tag) \<le> 6"
    by (simp_all add: der_tag_def base128_enc_def)
qed

lemma length_be_min_u32: "n < 2 ^ 32 \<Longrightarrow> length (be_min n) \<le> 4"
  using length_be_min_le [of n 4] by simp

lemma length_be_min_pos: "0 < n \<Longrightarrow> 1 \<le> length (be_min n)"
  by (simp add: be_min_pos)

definition der_element :: "CBS_ASN1_TAG \<Rightarrow> byte list \<Rightarrow> asn1_element" where
  "der_element tag body =
     \<lparr>elem_out = der_header tag (length body) @ body, elem_tag = tag,
      elem_header_len = length (der_header tag (length body)),
      elem_ber_found = False, elem_indefinite = False\<rparr>"

lemma length_arith:
  assumes "unat (len :: u64) < 2 ^ 32" and "h \<le> 16" and "n \<le> 4"
  shows "unat (len + of_nat h + of_nat n) = unat len + h + n"
    and "\<not> len + of_nat h + of_nat n < len"
proof -
  have "unat (of_nat h :: u64) = h" "unat (of_nat n :: u64) = n"
    using assms by (simp_all add: unat_of_nat_less)
  then show *: "unat (len + of_nat h + of_nat n) = unat len + h + n"
    using assms by (simp add: unat_word_ariths)
  show "\<not> len + of_nat h + of_nat n < len"
    by (simp add: word_less_nat_alt *)
qed

lemma shift_len: "drop_bit k (v :: u64) = 0 \<longleftrightarrow> unat v < 2 ^ k"
proof -
  have "drop_bit k v = 0 \<longleftrightarrow> unat (drop_bit k v) = 0" by (simp add: unat_eq_zero)
  also have "\<dots> \<longleftrightarrow> unat v div 2 ^ k = 0" by (simp only: unat_drop_bit)
  finally show ?thesis by (simp add: div_eq_0_iff)
qed

lemma long_form_sound:
  assumes "bs \<noteq> []" and "length bs \<le> 4" and "\<not> be_loop 0 bs < 128"
    and "drop_bit ((length bs - 1) * 8) (be_loop 0 bs) \<noteq> 0"
  shows "der_len (be_val bs) = byte_of (128 + length bs) # bs" and "be_val bs < 2 ^ 32"
    and "unat (be_loop 0 bs) = be_val bs"
proof -
  show v: "unat (be_loop 0 bs) = be_val bs" using assms(2) by (intro be_loop_be_val) simp
  have "(256 :: nat) ^ (length bs - 1) = 2 ^ ((length bs - 1) * 8)"
    using power_mult [of "2 :: nat" 8 "length bs - 1"] by (simp add: mult.commute)
  then have "256 ^ (length bs - 1) \<le> be_val bs" using assms(4) v by (simp add: shift_len)
  then have "be_min (be_val bs) = bs" using assms(1) by (rule be_min_be_val)
  moreover have "128 \<le> be_val bs" using assms(3) v by (simp add: word_less_nat_alt)
  ultimately show "der_len (be_val bs) = byte_of (128 + length bs) # bs" by (simp add: der_len_def)
  have "be_val bs < 256 ^ length bs" by (rule be_val_lt)
  also have "\<dots> \<le> 256 ^ 4" using assms(2) by (intro power_increasing) simp_all
  finally show "be_val bs < 2 ^ 32" by simp
qed

text \<open>What the DER element reader accepts is one DER element.\<close>

lemma get_any_asn1_element_sound:
  assumes "CBS_get_any_asn1_element cbs = (Some e, rest)"
  obtains body where "valid_tag (elem_tag e)" and "length body < 2 ^ 32"
    and "e = der_element (elem_tag e) body" and "cbs = elem_out e @ rest"
proof -
  obtain tag h1 where t: "parse_asn1_tag cbs = (Some tag, h1)"
    using assms unfolding CBS_get_any_asn1_element_def cbs_get_any_asn1_element_def
    by (auto split: prod.splits option.splits)
  note ts = parse_asn1_tag_sound [OF t]
  obtain lb h where h1: "h1 = lb # h"
    using assms t unfolding CBS_get_any_asn1_element_def cbs_get_any_asn1_element_def
    by (cases h1) (auto split: prod.splits option.splits)
  have cbs: "cbs = der_tag tag @ lb # h" using ts(1) h1 by simp
  have hl: "CBS_len cbs - CBS_len h = Suc (length (der_tag tag))" by (simp add: cbs CBS_len_def)
  show thesis
  proof (cases "lb AND 0x80 = 0")
    case True
    then have lb: "unat lb < 128" by (simp add: and_80_eq_0_iff)
    have e: "length h \<ge> unat lb \<and> e = \<lparr>elem_out = der_tag tag @ lb # take (unat lb) h, elem_tag = tag,
        elem_header_len = Suc (length (der_tag tag)), elem_ber_found = False, elem_indefinite = False\<rparr> \<and>
        rest = drop (unat lb) h"
      using assms t True h1 hl unfolding CBS_get_any_asn1_element_def cbs_get_any_asn1_element_def
      by (auto simp: CBS_get_bytes_eq cbs Let_def split: if_splits)
    then have "length (take (unat lb) h) = unat lb" by simp
    moreover from this lb have "e = der_element tag (take (unat lb) h)"
      using e by (simp add: der_element_def der_header_def der_len_def)
    ultimately show thesis using that [of "take (unat lb) h"] ts(2) lb e
      by (simp add: cbs der_element_def)
  next
    case False
    define nb where "nb = unat (lb AND 0x7f)"
    define bs where "bs = take nb h"
    let ?L = "be_loop 0 bs" and ?hl = "Suc (length (der_tag tag))"
    have ok: "nb \<noteq> 0" "nb \<le> 4" "nb \<le> length h" "\<not> ?L < 128" "drop_bit ((nb - 1) * 8) ?L \<noteq> 0"
      and r: "(if ?L + of_nat ?hl + of_nat nb < ?L then (None, cbs)
        else and_then (CBS_get_bytes cbs (unat (?L + of_nat ?hl + of_nat nb))) (\<lambda>out cbs'.
          (Some \<lparr>elem_out = out, elem_tag = tag, elem_header_len = ?hl + nb,
                 elem_ber_found = False, elem_indefinite = False\<rparr>, cbs'))) = (Some e, rest)"
      using assms t False h1 hl
      unfolding CBS_get_any_asn1_element_def cbs_get_any_asn1_element_def
      by (auto simp: Let_def cbs_get_u_eq nb_def [symmetric] bs_def split: if_splits)
    have len_bs: "length bs = nb" using ok by (simp add: bs_def)
    with ok have lf: "der_len (be_val bs) = byte_of (128 + nb) # bs" "be_val bs < 2 ^ 32" "unat ?L = be_val bs"
      using long_form_sound [of bs] by auto
    have "128 \<le> unat lb" using False by (simp add: and_80_eq_0_iff)
    then have "byte_of (128 + nb) = lb"
      using high_byte [of lb] by (simp add: byte_eq_iff nb_def unat_and_7F)
    with lf have dl: "der_len (be_val bs) = lb # bs" by simp
    let ?body = "take (be_val bs) (drop nb h)"
    have h: "h = bs @ ?body @ drop (be_val bs) (drop nb h)"
      unfolding bs_def by (simp only: append_take_drop_id)
    have hl6: "?hl \<le> 16" using length_der_tag(2) [of tag] by simp
    note la = length_arith [of ?L ?hl nb]
    have e: "be_val bs \<le> length (drop nb h) \<and> e = \<lparr>elem_out = der_tag tag @ lb # bs @ ?body,
        elem_tag = tag, elem_header_len = ?hl + nb, elem_ber_found = False, elem_indefinite = False\<rparr> \<and>
        rest = drop (be_val bs) (drop nb h)"
      using r la lf ok hl6 len_bs take_add [of nb "be_val bs" h]
      by (auto simp: CBS_get_bytes_eq cbs bs_def add.commute split: if_splits)
    then have lenb: "length ?body = be_val bs" by simp
    from e have "e = der_element tag ?body" unfolding der_element_def der_header_def lenb dl
      by (simp add: len_bs)
    moreover have "cbs = elem_out e @ rest" using e h by (simp add: cbs)
    moreover have "elem_tag e = tag" using e by simp
    ultimately show thesis using that [of ?body] ts(2) lenb lf(2) by simp
  qed
qed

lemma der_len_long:
  assumes "128 \<le> n" and "n < 2 ^ 32"
  defines "bs \<equiv> be_min n"
  shows "1 \<le> length bs" and "length bs \<le> 4" and "unat (be_loop 0 bs) = n"
    and "\<not> be_loop 0 bs < 128" and "drop_bit ((length bs - 1) * 8) (be_loop 0 bs) \<noteq> 0"
proof -
  show l: "1 \<le> length bs" "length bs \<le> 4"
    using assms length_be_min_pos [of n] length_be_min_u32 [of n] by simp_all
  show v: "unat (be_loop 0 bs) = n" using be_loop_be_val [of bs] l by (simp add: bs_def)
  show "\<not> be_loop 0 bs < 128" using assms(1) v by (simp add: word_less_nat_alt)
  have "(256 :: nat) ^ (length bs - 1) = 2 ^ ((length bs - 1) * 8)"
    using power_mult [of "2 :: nat" 8 "length bs - 1"] by (simp add: mult.commute)
  then show "drop_bit ((length bs - 1) * 8) (be_loop 0 bs) \<noteq> 0"
    using be_min_lower [of n] assms(1) v by (simp add: shift_len bs_def)
qed

text \<open>Every DER element with a valid tag is accepted, and read up to its last byte.\<close>

lemma get_any_asn1_element_der:
  assumes "valid_tag tag" and "length body < 2 ^ 32"
  shows "CBS_get_any_asn1_element (der_header tag (length body) @ body @ rest) =
    (Some (der_element tag body), rest)"
proof (cases "length body < 128")
  case True
  have b: "unat (byte_of (length body)) = length body" "byte_of (length body) AND 0x80 = 0"
    using True by (simp_all add: and_80_eq_0_iff)
  show ?thesis
    using True b parse_asn1_tag_der [OF assms(1), of "byte_of (length body) # body @ rest"]
    by (simp add: CBS_get_any_asn1_element_def cbs_get_any_asn1_element_def der_header_def der_len_def
        der_element_def CBS_get_bytes_eq CBS_len_def Let_def)
next
  case False
  define bs where "bs = be_min (length body)"
  let ?lb = "byte_of (128 + length bs)" and ?cbs = "der_header tag (length body) @ body @ rest"
  have dl: "der_len (length body) = ?lb # bs" using False by (simp add: der_len_def bs_def)
  note lg = der_len_long [OF _ assms(2), folded bs_def]
  have "length bs \<le> 4" using lg False by simp
  then have b: "unat (?lb AND 0x7f) = length bs" "?lb AND 0x80 \<noteq> 0"
    by (simp_all add: and_80_eq_0_iff unat_and_7F)
  have u: "cbs_get_u (bs @ body @ rest) (length bs) = (Some (be_loop 0 bs), body @ rest)"
    by (simp add: cbs_get_u_eq)
  have hl: "CBS_len ?cbs - CBS_len (bs @ body @ rest) = Suc (length (der_tag tag))"
    by (simp add: CBS_len_def der_header_def dl)
  have la: "unat (be_loop 0 bs + of_nat (Suc (length (der_tag tag))) + of_nat (length bs)) =
      length body + Suc (length (der_tag tag)) + length bs"
    "\<not> be_loop 0 bs + of_nat (Suc (length (der_tag tag))) + of_nat (length bs) < be_loop 0 bs"
    using length_arith [of "be_loop 0 bs" "Suc (length (der_tag tag))" "length bs"]
      length_der_tag(2) [of tag] lg assms(2) False by auto
  have p: "parse_asn1_tag ?cbs = (Some tag, ?lb # bs @ body @ rest)"
    using parse_asn1_tag_der [OF assms(1), of "?lb # bs @ body @ rest"] by (simp add: der_header_def dl)
  have "CBS_get_any_asn1_element ?cbs =
      and_then (CBS_get_bytes ?cbs (length body + Suc (length (der_tag tag)) + length bs)) (\<lambda>out cbs'.
        (Some \<lparr>elem_out = out, elem_tag = tag, elem_header_len = Suc (length (der_tag tag)) + length bs,
               elem_ber_found = False, elem_indefinite = False\<rparr>, cbs'))"
    unfolding CBS_get_any_asn1_element_def cbs_get_any_asn1_element_def p
    using b lg False
    by (cases "bs = []") (simp_all add: hl u la Let_def del: of_nat_Suc)
  then show ?thesis
    by (simp add: CBS_get_bytes_eq der_header_def dl der_element_def)
qed

end
