(* ===== verification/Cbs_Props.thy ===== *)
theory Cbs_Props
  imports Der
begin

text \<open>
  Properties of the byte-string reader, stated against the reference encodings of \<open>Der\<close>: the
  DER element reader, the BER reader on DER input, INTEGER and OBJECT IDENTIFIER contents.
\<close>

section \<open>Elements\<close>

lemma cbs_get_any_asn1_element_fail: "cbs_get_any_asn1_element ber cbs = (None, t) \<Longrightarrow> t = cbs"
  unfolding cbs_get_any_asn1_element_def Let_def
  by (auto simp: CBS_get_bytes_eq split: prod.splits option.splits if_splits)

text \<open>
  C6. The DER element reader is canonical: \<open>CBS_get_any_asn1_element\<close> succeeds with an element
  and a rest exactly when the input is the minimal identifier octets of a valid tag, the
  minimal length octets (fewer than \<open>2 ^ 32\<close> content bytes), the contents and that rest, and
  then it returns the element with its tag and header length. When it fails the input is
  not moved.
\<close>

theorem CBS_get_any_asn1_element_canonical:
  "CBS_get_any_asn1_element cbs = (r, cbs') \<longleftrightarrow>
     (case r of
        Some e \<Rightarrow> (\<exists>tag body. valid_tag tag \<and> length body < 2 ^ 32 \<and> e = der_element tag body \<and>
                     cbs = der_header tag (length body) @ body @ cbs')
      | None \<Rightarrow> cbs' = cbs \<and>
          (\<nexists>tag body rest. valid_tag tag \<and> length body < 2 ^ 32 \<and>
             cbs = der_header tag (length body) @ body @ rest))"
proof (cases r)
  case (Some e)
  show ?thesis
  proof
    assume "CBS_get_any_asn1_element cbs = (r, cbs')"
    then obtain body where "valid_tag (elem_tag e)" "length body < 2 ^ 32"
      "e = der_element (elem_tag e) body" "cbs = elem_out e @ cbs'"
      unfolding Some by (rule get_any_asn1_element_sound)
    moreover from this(3) have "elem_out e = der_header (elem_tag e) (length body) @ body"
      by (metis asn1_element.select_convs(1) der_element_def)
    ultimately show "case r of Some e \<Rightarrow> \<exists>tag body. valid_tag tag \<and> length body < 2 ^ 32 \<and>
          e = der_element tag body \<and> cbs = der_header tag (length body) @ body @ cbs'
        | None \<Rightarrow> cbs' = cbs \<and> (\<nexists>tag body rest. valid_tag tag \<and> length body < 2 ^ 32 \<and>
          cbs = der_header tag (length body) @ body @ rest)"
      unfolding Some by auto
  qed (auto simp: Some get_any_asn1_element_der)
next
  case None
  have "fst (CBS_get_any_asn1_element cbs) = None \<longleftrightarrow>
      (\<nexists>tag body rest. valid_tag tag \<and> length body < 2 ^ 32 \<and> cbs = der_header tag (length body) @ body @ rest)"
  proof (cases "CBS_get_any_asn1_element cbs")
    case (Pair q t)
    show ?thesis
    proof (cases q)
      case None
      with Pair show ?thesis using get_any_asn1_element_der by fastforce
    next
      case (Some e)
      with Pair have "CBS_get_any_asn1_element cbs = (Some e, t)" by simp
      then obtain body where "valid_tag (elem_tag e)" "length body < 2 ^ 32"
        "e = der_element (elem_tag e) body" "cbs = elem_out e @ t"
        by (rule get_any_asn1_element_sound)
      moreover from this(3) have "elem_out e = der_header (elem_tag e) (length body) @ body"
        by (metis asn1_element.select_convs(1) der_element_def)
      ultimately show ?thesis using Pair Some by auto
    qed
  qed
  moreover have "snd (CBS_get_any_asn1_element cbs) = cbs" if "fst (CBS_get_any_asn1_element cbs) = None"
    using that cbs_get_any_asn1_element_fail [of False cbs]
    by (cases "CBS_get_any_asn1_element cbs") (simp add: CBS_get_any_asn1_element_def)
  ultimately show ?thesis unfolding None by (cases "CBS_get_any_asn1_element cbs") auto
qed

text \<open>
  The BER reader extends the DER reader and reports it: \<open>CBS_get_any_ber_asn1_element\<close>
  returns an element without raising its BER flag exactly when the DER reader returns that
  element.
\<close>

theorem CBS_ber_element_extends_der:
  "(CBS_get_any_ber_asn1_element cbs = (Some e, rest) \<and> \<not> elem_ber_found e) \<longleftrightarrow>
   CBS_get_any_asn1_element cbs = (Some e, rest)"
proof (cases "\<exists>tag lb h. parse_asn1_tag cbs = (Some tag, lb # h)")
  case False
  obtain t h1 where p: "parse_asn1_tag cbs = (t, h1)" by fastforce
  have "t = None \<or> h1 = []" using False p by (cases t; cases h1) auto
  then show ?thesis
    using p by (cases t) (simp_all add: CBS_get_any_ber_asn1_element_def CBS_get_any_asn1_element_def
        cbs_get_any_asn1_element_def)
next
  case True
  then obtain tag lb h where p: "parse_asn1_tag cbs = (Some tag, lb # h)" by blast
  define nb where "nb = unat (lb AND 0x7f)"
  consider "lb AND 0x80 = 0" | "lb AND 0x80 \<noteq> 0" "nb = 0 \<or> nb > 4 \<or> length h < nb"
    | "lb AND 0x80 \<noteq> 0" "nb \<noteq> 0" "nb \<le> 4" "nb \<le> length h" by linarith
  then show ?thesis
  proof cases
    case 1
    then show ?thesis by (auto simp: CBS_get_any_ber_asn1_element_def CBS_get_any_asn1_element_def
        cbs_get_any_asn1_element_def p CBS_get_bytes_eq Let_def split: if_splits)
  next
    case 2
    then show ?thesis by (auto simp: CBS_get_any_ber_asn1_element_def CBS_get_any_asn1_element_def
        cbs_get_any_asn1_element_def p CBS_get_bytes_eq cbs_get_u_eq Let_def nb_def [symmetric] split: if_splits)
  next
    case 3
    then show ?thesis
      by (auto simp: CBS_get_any_ber_asn1_element_def CBS_get_any_asn1_element_def
        cbs_get_any_asn1_element_def p CBS_get_bytes_eq cbs_get_u_eq Let_def nb_def [symmetric]
        split: if_splits)
  qed
qed

section \<open>Contents by tag\<close>

lemma CBS_get_asn1_iff:
  "CBS_get_asn1 cbs tag = (Some body, rest) \<longleftrightarrow>
     valid_tag tag \<and> length body < 2 ^ 32 \<and> cbs = der_header tag (length body) @ body @ rest"
proof
  assume "CBS_get_asn1 cbs tag = (Some body, rest)"
  then obtain e where e: "CBS_get_any_asn1_element cbs = (Some e, rest)" and tag: "elem_tag e = tag"
    and sk: "CBS_skip (elem_out e) (elem_header_len e) = (Some (), body)"
    by (auto simp: CBS_get_asn1_def cbs_get_asn1_def split: if_splits prod.splits option.splits
        elim!: and_then_SomeE)
  obtain b where v: "valid_tag (elem_tag e)" "length b < 2 ^ 32"
    and eb: "e = der_element (elem_tag e) b" and cbs: "cbs = elem_out e @ rest"
    using e by (rule get_any_asn1_element_sound)
  have out: "elem_out e = der_header tag (length b) @ b"
    "elem_header_len e = length (der_header tag (length b))"
    using eb tag by (metis asn1_element.select_convs(1,3) der_element_def)+
  have "body = b" using sk unfolding out by (simp add: CBS_skip_def cbs_get_def CBS_len_def)
  then show "valid_tag tag \<and> length body < 2 ^ 32 \<and> cbs = der_header tag (length body) @ body @ rest"
    using v tag cbs out by simp
next
  assume "valid_tag tag \<and> length body < 2 ^ 32 \<and> cbs = der_header tag (length body) @ body @ rest"
  then show "CBS_get_asn1 cbs tag = (Some body, rest)"
    using get_any_asn1_element_der [of tag body rest]
    by (simp add: CBS_get_asn1_def cbs_get_asn1_def der_element_def CBS_skip_def cbs_get_def CBS_len_def)
qed

lemma valid_tag_universal [simp]:
  "valid_tag CBS_ASN1_INTEGER" "valid_tag CBS_ASN1_BOOLEAN" "valid_tag CBS_ASN1_OCTETSTRING"
  by (simp_all add: valid_tag_def tag_no_def CBS_ASN1_INTEGER_def CBS_ASN1_BOOLEAN_def
      CBS_ASN1_OCTETSTRING_def)

text \<open>The shortest two's-complement encoding of a natural number.\<close>

definition der_uint :: "nat \<Rightarrow> byte list" where
  "der_uint n = (if n = 0 then [0] else if 128 \<le> unat (hd (be_min n)) then 0 # be_min n else be_min n)"

lemma be_val_Cons: "be_val (b # bs) = unat b * 256 ^ length bs + be_val bs"
proof (induction bs rule: rev_induct)
  case (snoc c bs)
  have "be_val (b # bs @ [c]) = be_val (b # bs) * 256 + unat c"
    using be_val_simps(2) [of "b # bs" c] by simp
  with snoc show ?case by (simp add: algebra_simps)
qed simp

lemma be_min_Cons:
  assumes "unat b \<noteq> 0"
  shows "be_min (be_val (b # bs)) = b # bs"
proof (rule be_min_be_val)
  have "1 * 256 ^ length bs \<le> unat b * 256 ^ length bs" using assms by (intro mult_right_mono) simp_all
  then have "256 ^ length bs \<le> unat b * 256 ^ length bs + be_val bs" by linarith
  then show "256 ^ (length (b # bs) - 1) \<le> be_val (b # bs)" by (simp add: be_val_Cons)
qed simp

lemma hd_be_min: "0 < n \<Longrightarrow> be_min n \<noteq> [] \<and> unat (hd (be_min n)) \<noteq> 0"
proof (induction n rule: be_min.induct)
  case (1 n)
  show ?case
  proof (cases "n div 256 = 0")
    case True
    then have "n < 256" by simp
    with "1.prems" True show ?thesis by (simp add: be_min_pos)
  next
    case False
    with 1 show ?thesis by (simp add: be_min_pos [of n])
  qed
qed

lemma der_uint_lead0: "0 # c # ds = der_uint (be_val (0 # c # ds)) \<longleftrightarrow> 128 \<le> unat c"
proof -
  let ?n = "be_val (c # ds)"
  have v: "be_val (0 # c # ds) = ?n" by (simp add: be_val_Cons [of 0])
  show ?thesis
  proof
    assume c: "128 \<le> unat c"
    then have "be_min ?n = c # ds" by (intro be_min_Cons) simp
    moreover have "0 < ?n" using c by (simp add: be_val_Cons)
    ultimately show "0 # c # ds = der_uint (be_val (0 # c # ds))" using c by (simp add: v der_uint_def)
  next
    assume a: "0 # c # ds = der_uint (be_val (0 # c # ds))"
    have n0: "0 < ?n" using a unfolding v by (auto simp: der_uint_def split: if_splits)
    from hd_be_min [OF this] a show "128 \<le> unat c" unfolding v
      using n0 by (cases "be_min ?n") (auto simp: der_uint_def split: if_splits)
  qed
qed

lemma der_uint_iff: "CBS_is_unsigned_asn1_integer bs \<longleftrightarrow> bs = der_uint (be_val bs)"
proof -
  consider "bs = []" | "bs = [0]" | c ds where "bs = 0 # c # ds" | b cs where "bs = b # cs" "b \<noteq> 0"
    by (metis neq_Nil_conv)
  then show ?thesis
  proof cases
    case 3
    then show ?thesis using der_uint_lead0 [of c ds] and_80_eq_0_iff [of c]
      by (auto simp: CBS_is_unsigned_asn1_integer_def CBS_is_valid_asn1_integer_def)
  next
    case 4
    then have b: "unat b \<noteq> 0" by (simp add: unat_eq_zero)
    have "be_val bs \<noteq> 0" using b 4 by (simp add: be_val_Cons)
    then have "bs = der_uint (be_val bs) \<longleftrightarrow> unat b < 128"
      using be_min_Cons [OF b, of cs] 4 by (auto simp: der_uint_def)
    moreover have "CBS_is_unsigned_asn1_integer bs \<longleftrightarrow> unat b < 128"
      using 4 and_80_eq_0_iff [of b]
      by (cases cs) (auto simp: CBS_is_unsigned_asn1_integer_def CBS_is_valid_asn1_integer_def)
    ultimately show ?thesis by simp
  qed (simp_all add: CBS_is_unsigned_asn1_integer_def CBS_is_valid_asn1_integer_def der_uint_def)
qed

lemma asn1_uint64_loop_eq:
  "asn1_uint64_loop r bs = (let n = unat r * 256 ^ length bs + be_val bs in
     if n < 2 ^ 64 then Some (of_nat n) else None)"
proof (induction bs arbitrary: r)
  case (Cons b bs)
  show ?case
  proof (cases "unat r < 2 ^ 56")
    case True
    then have s: "unat (push_bit 8 r OR ucast b) = unat r * 256 + unat b" by (rule be_step)
    have "asn1_uint64_loop r (b # bs) = asn1_uint64_loop (push_bit 8 r OR ucast b) bs"
      using True by (simp add: shift_len)
    then show ?thesis by (simp only: Cons.IH s) (simp add: be_val_Cons algebra_simps)
  next
    case False
    then have "2 ^ 56 * 256 \<le> unat r * 256 ^ length (b # bs)" by (intro mult_mono) simp_all
    then have "\<not> unat r * 256 ^ length (b # bs) + be_val (b # bs) < 2 ^ 64" by simp
    moreover have "asn1_uint64_loop r (b # bs) = None" using False by (simp add: shift_len)
    ultimately show ?thesis by (simp only: Let_def if_False)
  qed
qed (use unat_u64_lt in \<open>simp add: Let_def\<close>)

text \<open>
  Unsigned INTEGER: \<open>CBS_get_asn1_uint64\<close> returns a value exactly when the input starts with
  the DER encoding of that value, a minimal INTEGER with a clear sign bit.
\<close>

theorem CBS_get_asn1_uint64_canonical:
  "CBS_get_asn1_uint64 cbs = (Some v, rest) \<longleftrightarrow>
     cbs = der_header CBS_ASN1_INTEGER (length (der_uint (unat v))) @ der_uint (unat v) @ rest"
proof -
  have l: "asn1_uint64_loop 0 body = Some v \<longleftrightarrow> be_val body = unat v" for body
    using unat_u64_lt [of v] by (auto simp: asn1_uint64_loop_eq Let_def unat_of_nat_less)
  have "length (der_uint (unat v)) \<le> 9"
    using length_be_min_le [of "unat v" 8] unat_u64_lt [of v] by (simp add: der_uint_def)
  then have len: "length (der_uint (unat v)) < 2 ^ 32" by simp
  have val: "be_val (der_uint (unat v)) = unat v"
    using be_val_Cons [of 0 "be_min (unat v)"] by (simp add: der_uint_def)
  have "CBS_get_asn1_uint64 cbs = (Some v, rest) \<longleftrightarrow>
      (\<exists>body. CBS_get_asn1 cbs CBS_ASN1_INTEGER = (Some body, rest) \<and>
         CBS_is_unsigned_asn1_integer body \<and> be_val body = unat v)"
    unfolding CBS_get_asn1_uint64_def
    by (auto simp: l split: if_splits elim!: and_then_SomeE)
  also have "\<dots> \<longleftrightarrow> CBS_get_asn1 cbs CBS_ASN1_INTEGER = (Some (der_uint (unat v)), rest)"
    using val by (auto simp: der_uint_iff)
  finally show ?thesis using len by (simp only: CBS_get_asn1_iff valid_tag_universal simp_thms)
qed

section \<open>Object identifiers\<close>

lemma continuation: "byte_of (n mod 128 + 128) AND 0x80 \<noteq> 0"
  by (simp add: and_80_eq_0_iff)

lemma base128_lead_step:
  assumes "128 \<le> unat v" and "0 < m \<or> v \<noteq> 0x80"
  shows "base128_lead (m * 128 + unat v mod 128) = base128_lead m @ [v]"
    and "0 < m * 128 + unat v mod 128"
proof -
  show pos: "0 < m * 128 + unat v mod 128"
    using assms high_byte [of v] by (cases "m = 0") (auto simp: byte_80_iff)
  have "(m * 128 + unat v mod 128) mod 128 + 128 = unat v" using high_byte [OF assms(1)] by simp
  then show "base128_lead (m * 128 + unat v mod 128) = base128_lead m @ [v]"
    using base128_lead_pos [OF pos] by simp
qed

lemma base128_enc_step: "unat v < 128 \<Longrightarrow> base128_enc (m * 128 + unat v) = base128_lead m @ [v]"
  by (simp add: base128_enc_def)

lemma asn1_oid_loop_sound:
  "asn1_oid_loop prev bs \<Longrightarrow> (128 \<le> unat prev \<longleftrightarrow> 0 < m) \<Longrightarrow>
   \<exists>ns. base128_lead m @ bs = concat (map base128_enc ns)"
proof (induction bs arbitrary: prev m)
  case Nil
  then show ?case by (intro exI [of _ "[]"]) (simp add: and_80_eq_0_iff)
next
  case (Cons v bs)
  have nz: "0 < m \<or> v \<noteq> 0x80" and loop: "asn1_oid_loop v bs"
    using Cons.prems by (auto simp: and_80_eq_0_iff split: if_splits)
  show ?case
  proof (cases "128 \<le> unat v")
    case True
    with Cons.IH [OF loop] base128_lead_step [OF True nz] show ?thesis
      by (metis append.assoc append_Cons append_Nil)
  next
    case False
    with Cons.IH [OF loop, of 0] obtain ns where "bs = concat (map base128_enc ns)" by auto
    with False base128_enc_step [of v m] show ?thesis
      by (intro exI [of _ "(m * 128 + unat v) # ns"]) simp
  qed
qed

lemma asn1_oid_loop_lead:
  "0 < n \<Longrightarrow> unat prev < 128 \<Longrightarrow>
   asn1_oid_loop prev (base128_lead n @ bs) = asn1_oid_loop (byte_of (n mod 128 + 128)) bs"
proof (induction n arbitrary: bs rule: base128_lead.induct)
  case (1 n)
  let ?b = "byte_of (n mod 128 + 128)"
  show ?case
  proof (cases "n div 128 = 0")
    case True
    then have "n < 128" by simp
    then have "?b \<noteq> 0x80" using "1.prems"(1) by (simp add: byte_80_iff)
    with 1 True show ?thesis by (simp add: base128_lead_pos)
  next
    case False
    with 1 have "asn1_oid_loop prev (base128_lead (n div 128) @ ?b # bs) =
        asn1_oid_loop (byte_of (n div 128 mod 128 + 128)) (?b # bs)" by simp
    also have "\<dots> = asn1_oid_loop ?b bs" by (simp add: continuation)
    finally show ?thesis using "1.prems"(1) by (simp add: base128_lead_pos [of n])
  qed
qed

lemma asn1_oid_loop_enc:
  assumes "unat prev < 128"
  shows "asn1_oid_loop prev (base128_enc n @ bs) = asn1_oid_loop (byte_of (n mod 128)) bs"
proof -
  have b: "byte_of (n mod 128) \<noteq> 0x80" by (simp add: byte_80_iff)
  show ?thesis
  proof (cases "n div 128 = 0")
    case True
    with b show ?thesis by (simp add: base128_enc_def)
  next
    case False
    then have "0 < n div 128" by simp
    from asn1_oid_loop_lead [OF this assms, of "byte_of (n mod 128) # bs"]
    show ?thesis by (simp add: base128_enc_def continuation)
  qed
qed

lemma valid_oid_concat:
  assumes "ns \<noteq> []"
  shows "CBS_is_valid_asn1_oid (concat (map base128_enc ns))"
proof -
  have "unat p < 128 \<Longrightarrow> asn1_oid_loop p (concat (map base128_enc ms))" for p ms
    by (induction ms arbitrary: p) (simp_all add: and_80_eq_0_iff asn1_oid_loop_enc)
  moreover have "concat (map base128_enc ns) \<noteq> []" using assms by (cases ns) (simp_all add: base128_enc_def)
  ultimately show ?thesis by (simp add: CBS_is_valid_asn1_oid_def CBS_len_def)
qed

text \<open>
  The contents of an OBJECT IDENTIFIER: \<open>CBS_is_valid_asn1_oid\<close> accepts exactly the
  non-empty concatenations of minimal base-128 integers, of any size.
\<close>

theorem CBS_is_valid_asn1_oid_iff:
  "CBS_is_valid_asn1_oid cbs \<longleftrightarrow> (\<exists>ns. ns \<noteq> [] \<and> cbs = concat (map base128_enc ns))"
proof
  assume a: "CBS_is_valid_asn1_oid cbs"
  then have "cbs \<noteq> []" and "asn1_oid_loop 0 cbs"
    by (auto simp: CBS_is_valid_asn1_oid_def CBS_len_def split: if_splits)
  from asn1_oid_loop_sound [OF this(2), of 0] obtain ns where ns: "cbs = concat (map base128_enc ns)" by auto
  with \<open>cbs \<noteq> []\<close> have "ns \<noteq> []" by auto
  with ns show "\<exists>ns. ns \<noteq> [] \<and> cbs = concat (map base128_enc ns)" by blast
qed (auto simp: valid_oid_concat)

end
