(* ===== verification/Cbb_Emit.thy ===== *)
theory Cbb_Emit
  imports Cbb Cbs_Props
begin

text \<open>
  What the builder writes. A reference that has a buffer, no pending child and no error is
  ready; an operation emits a byte string when, from every ready state with room for it, it
  succeeds and appends exactly these bytes. Emitted strings compose, and a child with its
  length prefix emits the prefix and the contents.
\<close>

section \<open>Well-formed buffers and room\<close>

definition content :: "cbb_buffer \<Rightarrow> byte list" where
  "content b = take (blen b) (buf b)"

definition wf_buffer :: "cbb_buffer \<Rightarrow> bool" where
  "wf_buffer b \<longleftrightarrow> length (buf b) = cap b \<and> blen b \<le> cap b \<and> cap b < 2 ^ 64"

text \<open>
  Room for \<open>n\<close> more bytes: they fit in the buffer, or the buffer can grow and the allocator
  serves every request. The bound leaves the code's capacity arithmetic clear of overflow.
\<close>

definition can_add :: "malloc \<Rightarrow> cbb_buffer \<Rightarrow> nat \<Rightarrow> bool" where
  "can_add mal b n \<longleftrightarrow>
     blen b + n < 2 ^ 62 \<and> (blen b + n \<le> cap b \<or> can_resize b \<and> (\<forall>m. mal m \<noteq> None))"

definition appended :: "cbb_buffer \<Rightarrow> cbb_buffer \<Rightarrow> byte list \<Rightarrow> bool" where
  "appended b b' x \<longleftrightarrow>
     wf_buffer b' \<and> content b' = content b @ x \<and> can_resize b' = can_resize b \<and>
     cap b \<le> cap b' \<and> error b' = error b"

lemma length_content [simp]: "wf_buffer b \<Longrightarrow> length (content b) = blen b"
  by (simp add: wf_buffer_def content_def)

lemma appended_blen: "wf_buffer b \<Longrightarrow> appended b b' x \<Longrightarrow> blen b' = blen b + length x"
  using length_content [of b'] by (simp add: appended_def)

lemma appended_trans: "appended b b1 x \<Longrightarrow> appended b1 b2 y \<Longrightarrow> appended b b2 (x @ y)"
  by (simp add: appended_def)

lemma appended_refl: "wf_buffer b \<Longrightarrow> appended b b []"
  by (simp add: appended_def)

lemma can_add_mono: "can_add mal b n \<Longrightarrow> m \<le> n \<Longrightarrow> can_add mal b m"
  by (auto simp: can_add_def)

lemma can_add_appended:
  assumes "wf_buffer b" and "appended b b' x" and "can_add mal b (length x + n)"
  shows "can_add mal b' n"
  using assms appended_blen [OF assms(1,2)] by (auto simp: can_add_def appended_def)

section \<open>Buffer operations\<close>

lemma reserve_ok:
  assumes "malloc_sized mal" and "wf_buffer b" and "can_add mal b n"
  obtains b' where "cbb_buffer_reserve mal n b = (Some (blen b), b')"
    and "wf_buffer b'" and "blen b' = blen b" and "blen b + n \<le> cap b'"
    and "take (blen b) (buf b') = content b"
    and "can_resize b' = can_resize b" and "cap b \<le> cap b'" and "error b' = error b"
proof -
  have nl: "size_add (blen b) n = blen b + n" using assms(3) by (simp add: size_add_def can_add_def)
  show thesis
  proof (cases "blen b + n \<le> cap b")
    case True
    then have "cbb_buffer_reserve mal n b = (Some (blen b), b)"
      by (simp add: cbb_buffer_reserve_def nl)
    then show thesis using that [of b] assms(2) True by (simp add: content_def)
  next
    case False
    then have big: "can_resize b" "\<forall>m. mal m \<noteq> None" "blen b + n < 2 ^ 62"
      using assms(3) by (auto simp: can_add_def)
    define nc where "nc = (if cap b * 2 < blen b + n then blen b + n else cap b * 2)"
    have nc: "blen b + n \<le> nc" "nc < 2 ^ 63" "cap b \<le> nc" using False big(3) by (auto simp: nc_def)
    have "OPENSSL_malloc mal nc \<noteq> None" using OPENSSL_malloc_total big(2) nc(2) by blast
    then obtain nb where nb: "OPENSSL_realloc mal (Some (buf b)) nc = Some nb"
      by (auto simp: OPENSSL_realloc_def Let_def)
    have wfb: "length (buf b) = cap b" using assms(2) by (simp add: wf_buffer_def)
    have keep: "take (cap b) nb = buf b" "length nb = nc"
      using OPENSSL_realloc_keeps [OF assms(1) nb] OPENSSL_realloc_length [OF assms(1) nb] wfb nc(3) by simp_all
    have "take (blen b) nb = take (blen b) (take (cap b) nb)"
      using assms(2) by (simp add: wf_buffer_def min_def)
    then have tk: "take (blen b) nb = content b" by (simp add: keep content_def)
    have "cbb_buffer_reserve mal n b = (Some (blen b), b\<lparr>buf := nb, cap := nc\<rparr>)"
    proof -
      have "cap b * 2 mod 2 ^ 64 = cap b * 2" using False big(3) by simp
      then show ?thesis using False nb big(1) by (auto simp: cbb_buffer_reserve_def nl nc_def Let_def)
    qed
    then show thesis using that [of "b\<lparr>buf := nb, cap := nc\<rparr>"] keep nc tk assms(2) by (simp add: wf_buffer_def)
  qed
qed

lemma buffer_add_ok:
  assumes "malloc_sized mal" and "wf_buffer b" and "can_add mal b n"
  obtains b' where "cbb_buffer_add mal n b = (Some (blen b), b')"
    and "wf_buffer b'" and "blen b' = blen b + n" and "take (blen b) (buf b') = content b"
    and "can_resize b' = can_resize b" and "cap b \<le> cap b'" and "error b' = error b"
proof -
  obtain b1 where b1: "cbb_buffer_reserve mal n b = (Some (blen b), b1)"
    "wf_buffer b1" "blen b1 = blen b" "blen b + n \<le> cap b1" "take (blen b) (buf b1) = content b"
    "can_resize b1 = can_resize b" "cap b \<le> cap b1" "error b1 = error b"
    using reserve_ok [OF assms] by blast
  then show thesis using that [of "b1\<lparr>blen := blen b1 + n\<rparr>"] by (simp add: cbb_buffer_add_def wf_buffer_def)
qed

lemma length_store [simp]: "pos + length bs \<le> length b \<Longrightarrow> length (store b pos bs) = length b"
  by (simp add: store_def)

lemma take_store: "pos \<le> length b \<Longrightarrow> take (pos + length bs) (store b pos bs) = take pos b @ bs"
  by (simp add: store_def)

text \<open>Adding space and filling it appends the bytes.\<close>

lemma fill_appended:
  assumes "malloc_sized mal" and "wf_buffer b" and "can_add mal b (length x)"
  obtains b' where "cbb_buffer_add mal (length x) b = (Some (blen b), b')" and "wf_buffer b'"
    and "blen b + length x \<le> length (buf b')"
    and "appended b (b'\<lparr>buf := store (buf b') (blen b) x\<rparr>) x"
proof -
  obtain b' where b': "cbb_buffer_add mal (length x) b = (Some (blen b), b')"
    "wf_buffer b'" "blen b' = blen b + length x" "take (blen b) (buf b') = content b"
    "can_resize b' = can_resize b" "cap b \<le> cap b'" "error b' = error b"
    using buffer_add_ok [OF assms] by blast
  then have l: "blen b + length x \<le> length (buf b')" by (simp add: wf_buffer_def)
  then have "appended b (b'\<lparr>buf := store (buf b') (blen b) x\<rparr>) x"
    using b' take_store [of "blen b" "buf b'" x] by (simp add: appended_def wf_buffer_def content_def)
  then show thesis using that b' l by blast
qed

lemma store_snoc:
  assumes "pos + length bs < length b"
  shows "store (b[pos + length bs := x]) pos bs = store b pos (bs @ [x])"
  using assms by (simp add: store_def Cons_nth_drop_Suc [symmetric] del: Cons_nth_drop_Suc)

lemma store_len_eq:
  "off + n \<le> length b \<Longrightarrow> store_len b off n len = (store b off (be_bytes n len), len div 256 ^ n)"
proof (induction n arbitrary: b len)
  case (Suc n)
  then show ?case
    using store_snoc [of off "be_bytes n (len div 256)" b "byte_of len"]
    by (simp add: div_mult2_eq)
qed (simp add: store_def)

section \<open>Length prefixes\<close>

lemma store_append: "length bs = length u \<Longrightarrow> store (x @ u @ z) (length x) bs = x @ bs @ z"
  by (simp add: store_def)

lemma store_Cons:
  assumes "pos + Suc (length bs) \<le> length b"
  shows "store (b[pos := v]) (Suc pos) bs = store b pos (v # bs)"
proof -
  have "take (Suc pos) (b[pos := v]) = take pos b @ [v]"
    using assms by (simp add: take_Suc_conv_app_nth)
  then show ?thesis using assms by (simp add: store_def)
qed

lemma be_min_be_bytes:
  assumes "256 ^ k \<le> n" and "n < 256 ^ Suc k"
  shows "be_min n = be_bytes (Suc k) n"
proof -
  have v: "be_val (be_bytes (Suc k) n) = n" using assms(2) by (simp only: be_val_be_bytes) simp
  then have "be_min (be_val (be_bytes (Suc k) n)) = be_bytes (Suc k) n"
    using assms(1) by (intro be_min_be_val) (simp_all only: length_be_bytes, simp_all)
  then show ?thesis by (simp only: v)
qed

lemma der_len_be_bytes:
  assumes "m = Suc k" and "256 ^ k \<le> n" and "n < 256 ^ m" and "128 \<le> n"
  shows "der_len n = byte_of (128 + m) # be_bytes m n"
  using be_min_be_bytes [of k n] assms by (simp add: der_len_def)

text \<open>The length form chosen by \<open>CBB_flush\<close> is the DER length.\<close>

lemma asn1_len_form_der:
  assumes "n \<le> 0xfffffffe" and "asn1_len_form n = (ll, init, l)"
  shows "init # be_bytes (ll - 1) l = der_len n" and "l div 256 ^ (ll - 1) = 0" and "1 \<le> ll"
proof -
  consider "n \<le> 0x7f" | "0x80 \<le> n" "n \<le> 0xff" | "0xff < n" "n \<le> 0xffff"
    | "0xffff < n" "n \<le> 0xffffff" | "0xffffff < n" by linarith
  then have "(n \<le> 0x7f \<and> ll = 1 \<and> init = byte_of n \<and> l = 0) \<or>
    (\<exists>k. ll = Suc (Suc k) \<and> init = byte_of (128 + Suc k) \<and> l = n \<and> 256 ^ k \<le> n \<and> n < 256 ^ Suc k \<and> 128 \<le> n)"
  proof cases
    case 1
    then show ?thesis using assms(2) by (simp add: asn1_len_form_def)
  next
    case 2
    then show ?thesis using assms(2) by (intro disjI2 exI [of _ 0]) (simp add: asn1_len_form_def byte_eq_iff)
  next
    case 3
    then show ?thesis using assms(2) by (intro disjI2 exI [of _ 1]) (simp add: asn1_len_form_def byte_eq_iff)
  next
    case 4
    then show ?thesis using assms(2) by (intro disjI2 exI [of _ 2]) (simp add: asn1_len_form_def byte_eq_iff)
  next
    case 5
    then show ?thesis using assms by (intro disjI2 exI [of _ 3]) (simp add: asn1_len_form_def byte_eq_iff)
  qed
  then have "init # be_bytes (ll - 1) l = der_len n \<and> l div 256 ^ (ll - 1) = 0 \<and> 1 \<le> ll"
  proof (elim disjE exE conjE)
    assume "n \<le> 0x7f" "ll = 1" "init = byte_of n" "l = 0"
    then show ?thesis by (simp add: der_len_def)
  next
    fix k assume "ll = Suc (Suc k)" "init = byte_of (128 + Suc k)" "l = n" "256 ^ k \<le> n" "n < 256 ^ Suc k" "128 \<le> n"
    then show ?thesis using der_len_be_bytes [of "Suc k" k n] by (simp del: be_bytes.simps)
  qed
  then show "init # be_bytes (ll - 1) l = der_len n" and "l div 256 ^ (ll - 1) = 0" and "1 \<le> ll" by auto
qed

text \<open>What a pending prefix becomes for \<open>n\<close> bytes of contents.\<close>

definition prefix_enc :: "cbb_child \<Rightarrow> nat \<Rightarrow> byte list option" where
  "prefix_enc c n =
     (if pending_is_asn1 c then (if n \<le> 0xfffffffe then Some (der_len n) else None)
      else if n < 256 ^ pending_len_len c then Some (be_bytes (pending_len_len c) n) else None)"

lemma buf_split:
  assumes "take (length y) (b :: byte list) = y"
  obtains z where "b = y @ z"
  using assms append_take_drop_id [of "length y" b] by metis

text \<open>Making room for the bytes of a long ASN.1 length.\<close>

lemma make_room:
  assumes "malloc_sized mal" and wf: "wf_buffer b" and cont: "content b = x @ [v] @ d"
    and room: "can_add mal b (ll - 1)" and ll: "1 \<le> ll"
  obtains b1 u z where
    "(if ll \<noteq> 1 then
        and_then (cbb_buffer_add mal (ll - 1) b) (\<lambda>_ b1.
          (Some (), b1\<lparr>buf := buf_memmove (buf b1) (length x + 1 + (ll - 1)) (length x + 1) (length d)\<rparr>))
      else (Some (), b)) = (Some (), b1)"
    and "wf_buffer b1" and "buf b1 = x @ u @ d @ z" and "length u = ll" and "blen b1 = length x + ll + length d"
    and "can_resize b1 = can_resize b" and "cap b \<le> cap b1" and "error b1 = error b"
proof (cases "ll = 1")
  case True
  have len: "blen b = length (x @ [v] @ d)" using length_content [OF wf] cont by simp
  obtain z where "buf b = (x @ [v] @ d) @ z"
    using buf_split [of "x @ [v] @ d" "buf b"] cont len by (metis content_def)
  then show thesis using that [of b "[v]" z] True wf len by simp
next
  case False
  have len: "blen b = length (x @ [v] @ d)" using length_content [OF wf] cont by simp
  obtain b' where b': "cbb_buffer_add mal (ll - 1) b = (Some (blen b), b')" "wf_buffer b'"
    "blen b' = blen b + (ll - 1)" "take (blen b) (buf b') = content b" "can_resize b' = can_resize b"
    "cap b \<le> cap b'" "error b' = error b"
    using buffer_add_ok [OF assms(1) wf room] by blast
  obtain w where w: "buf b' = (x @ [v] @ d) @ w"
    using buf_split [of "x @ [v] @ d" "buf b'"] b'(4) cont len by metis
  define k where "k = length x + ll"
  define u where "u = drop (length x) (take k (buf b'))"
  define z where "z = drop (k + length d) (buf b')"
  have k: "length x + 1 + (ll - 1) = k" using ll by (simp add: k_def)
  have fits: "k + length d \<le> length (buf b')" using b'(2,3) len ll by (simp add: wf_buffer_def k_def)
  have "take k (buf b') = x @ u"
  proof -
    have "take (length x) (take k (buf b')) = x" using w ll by (simp add: k_def)
    then show ?thesis using append_take_drop_id [of "length x" "take k (buf b')"] by (simp add: u_def)
  qed
  moreover have "take (length d) (drop (length x + 1) (buf b')) = d" using w by simp
  ultimately have "buf_memmove (buf b') k (length x + 1) (length d) = x @ u @ d @ z"
    by (simp add: buf_memmove_def store_def z_def)
  moreover have "length u = ll" using fits by (simp add: u_def k_def)
  moreover have "length z = length (buf b') - (k + length d)" by (simp add: z_def)
  ultimately show thesis
    using that [of "b'\<lparr>buf := x @ u @ d @ z\<rparr>" u z] False b' fits len ll
    by (simp add: k wf_buffer_def k_def [symmetric]) (simp add: k_def)
qed

lemma flush_child_asn1:
  assumes "malloc_sized mal" and wf: "wf_buffer b"
    and cont: "content b = x @ [v] @ d" and off: "length x = offset c"
    and asn1: "pending_is_asn1 c" "pending_len_len c = 1"
    and d: "length d \<le> 0xfffffffe" and room: "can_add mal b (length (der_len (length d)) - 1)"
  obtains b' where "flush_child mal c b = (Some (), b')" and "wf_buffer b'"
    and "content b' = x @ der_len (length d) @ d"
    and "can_resize b' = can_resize b" and "cap b \<le> cap b'" and "error b' = error b"
proof -
  have len: "blen b = length x + 1 + length d" using length_content [OF wf] cont by simp
  have cs: "size_add (length x) 1 = length x + 1" using room len by (simp add: size_add_def can_add_def)
  obtain ll init l where f: "asn1_len_form (length d) = (ll, init, l)" by (metis prod_cases3)
  note af = asn1_len_form_der [OF d f]
  have pl: "length (der_len (length d)) = ll" using af(1,3)
    by (metis One_nat_def Suc_pred length_Cons length_be_bytes less_eq_Suc_le)
  have r: "can_add mal b (ll - 1)" using room pl by simp
  obtain b1 u z where b1:
    "(if ll \<noteq> 1 then
        and_then (cbb_buffer_add mal (ll - 1) b) (\<lambda>_ b1.
          (Some (), b1\<lparr>buf := buf_memmove (buf b1) (length x + 1 + (ll - 1)) (length x + 1) (length d)\<rparr>))
      else (Some (), b)) = (Some (), b1)"
    "wf_buffer b1" "buf b1 = x @ u @ d @ z" "length u = ll" "blen b1 = length x + ll + length d"
    "can_resize b1 = can_resize b" "cap b \<le> cap b1" "error b1 = error b"
    by (rule make_room [OF assms(1) wf cont r af(3)])
  let ?B = "x @ der_len (length d) @ d @ z"
  have "store ((buf b1)[length x := init]) (Suc (length x)) (be_bytes (ll - 1) l) = ?B"
  proof -
    have "store ((buf b1)[length x := init]) (Suc (length x)) (be_bytes (ll - 1) l) =
        store (buf b1) (length x) (der_len (length d))"
      using store_Cons [of "length x" "be_bytes (ll - 1) l" "buf b1" init] b1(3,4) af by simp
    then show ?thesis using store_append [of "der_len (length d)" u x "d @ z"] b1(3,4) pl by simp
  qed
  then have sl: "store_len ((buf b1)[length x := init]) (Suc (length x)) (ll - 1) l = (?B, 0)"
    using store_len_eq [of "Suc (length x)" "ll - 1" "(buf b1)[length x := init]" l] b1(3,4) af(2,3) by simp
  have start: "(length x + 1 < length x \<or> blen b < length x + 1) = False"
    "blen b - (length x + 1) = length d" "(length d > 0xfffffffe) = False"
    using len d by auto
  have "flush_child mal c b = and_then (Some (length x + 1, ll - 1, l), b1\<lparr>buf := (buf b1)[length x := init]\<rparr>)
      (\<lambda>(off, len_len, l) b1. let (bs, rest) = store_len (buf b1) off len_len l in
         if rest \<noteq> 0 then (None, b1\<lparr>buf := bs, error := True\<rparr>) else (Some (), b1\<lparr>buf := bs\<rparr>))"
    unfolding flush_child_def asn1(2) off [symmetric] cs Let_def start(2) f
    by (simp only: prod.case start asn1(1) if_True if_False b1(1) and_then_simps)
  then have "flush_child mal c b = (Some (), b1\<lparr>buf := ?B\<rparr>)" using sl by simp
  moreover have "wf_buffer (b1\<lparr>buf := ?B\<rparr>)" "content (b1\<lparr>buf := ?B\<rparr>) = x @ der_len (length d) @ d"
    using b1(2-5) pl by (simp_all add: wf_buffer_def content_def)
  ultimately show thesis using that b1(6-8) by simp
qed

lemma flush_child_fixed:
  assumes wf: "wf_buffer b" and small: "blen b < 2 ^ 64"
    and cont: "content b = x @ u @ d" and off: "length x = offset c" and u: "length u = pending_len_len c"
    and c: "\<not> pending_is_asn1 c" and d: "length d < 256 ^ pending_len_len c"
  obtains b' where "flush_child mal c b = (Some (), b')" and "wf_buffer b'"
    and "content b' = x @ be_bytes (pending_len_len c) (length d) @ d"
    and "can_resize b' = can_resize b" and "cap b = cap b'" and "error b' = error b"
proof -
  let ?p = "be_bytes (length u) (length d)"
  have len: "blen b = length (x @ u @ d)" using length_content [OF wf] cont by simp
  then have cs: "size_add (length x) (length u) = length x + length u"
    using small by (simp add: size_add_def)
  obtain z where z: "buf b = (x @ u @ d) @ z"
    using buf_split [of "x @ u @ d" "buf b"] cont len by (metis content_def)
  have sl: "store_len (buf b) (length x) (length u) (length d) = (x @ ?p @ d @ z, 0)"
    using store_len_eq [of "length x" "length u" "buf b" "length d"] d u store_append [of ?p u x "d @ z"] by (simp add: z)
  have "flush_child mal c b = (Some (), b\<lparr>buf := x @ ?p @ d @ z\<rparr>)"
    using c sl len by (simp add: flush_child_def cs Let_def off [symmetric] u [symmetric])
  moreover have "wf_buffer (b\<lparr>buf := x @ ?p @ d @ z\<rparr>)" "content (b\<lparr>buf := x @ ?p @ d @ z\<rparr>) = x @ ?p @ d"
    using wf z len by (simp_all add: wf_buffer_def content_def)
  ultimately show thesis using that u by simp
qed

section \<open>Ready references\<close>

definition ready :: "CBB_ref \<Rightarrow> CBB \<Rightarrow> bool" where
  "ready cbb s \<longleftrightarrow>
     \<not> error (base s) \<and> wf_buffer (base s) \<and> (\<exists>pre. cbb_get_base cbb (kids s) = Some (pre, []))"

definition appends :: "CBB \<Rightarrow> CBB \<Rightarrow> byte list \<Rightarrow> bool" where
  "appends s s' x \<longleftrightarrow> appended (base s) (base s') x \<and> kids s' = kids s"

lemma cbb_get_base_append: "cbb_get_base cbb ks = Some (pre, sub) \<Longrightarrow> ks = pre @ sub"
  by (induction cbb ks arbitrary: pre rule: cbb_get_base.induct) (auto split: if_splits)

lemma cbb_get_base_snoc:
  "cbb_get_base cbb ks = Some (ks, []) \<Longrightarrow> cbb_get_base cbb (ks @ new) = Some (ks, new)"
proof (induction cbb ks rule: cbb_get_base.induct)
  case (3 i k ks)
  then show ?case by (cases "cbb_get_base (Child i) ks") (auto split: if_splits)
qed auto

lemma cbb_get_base_new:
  "i \<notin> fst ` set ks \<Longrightarrow> cbb_get_base (Child i) (ks @ [(i, c)]) = Some (ks @ [(i, c)], [])"
  by (induction ks) auto

lemma readyE:
  assumes "ready cbb s"
  obtains "\<not> error (base s)" and "wf_buffer (base s)" and "cbb_get_base cbb (kids s) = Some (kids s, [])"
  using assms cbb_get_base_append by (fastforce simp: ready_def)

lemma appends_ready: "ready cbb s \<Longrightarrow> appends s s' x \<Longrightarrow> ready cbb s'"
  by (auto simp: ready_def appends_def appended_def)

lemma appends_trans: "appends s s1 x \<Longrightarrow> appends s1 s2 y \<Longrightarrow> appends s s2 (x @ y)"
  by (auto simp: appends_def intro: appended_trans)

lemma appends_room:
  "ready cbb s \<Longrightarrow> appends s s' x \<Longrightarrow> can_add mal (base s) (length x + n) \<Longrightarrow> can_add mal (base s') n"
  by (auto simp: ready_def appends_def intro: can_add_appended)

lemma CBB_flush_ready [simp]: "ready cbb s \<Longrightarrow> CBB_flush mal cbb s = (Some (), s)"
  by (erule readyE) (simp add: CBB_flush_def)

text \<open>An operation emits a byte string.\<close>

definition emits :: "malloc \<Rightarrow> (CBB \<Rightarrow> unit option \<times> CBB) \<Rightarrow> CBB_ref \<Rightarrow> byte list \<Rightarrow> bool" where
  "emits mal f cbb x \<longleftrightarrow>
     (\<forall>s. ready cbb s \<longrightarrow> can_add mal (base s) (length x) \<longrightarrow> (\<exists>s'. f s = (Some (), s') \<and> appends s s' x))"

lemma emitsE:
  assumes "emits mal f cbb x" and "ready cbb s" and "can_add mal (base s) (length x)"
  obtains s' where "f s = (Some (), s')" and "appends s s' x"
  using assms by (auto simp: emits_def)

lemma emits_nil: "emits mal (\<lambda>s. (Some (), s)) cbb []"
  by (auto simp: emits_def appends_def ready_def intro: appended_refl)

lemma emits_seq:
  assumes "emits mal f cbb x" and "emits mal g cbb y"
  shows "emits mal (\<lambda>s. and_then (f s) (\<lambda>_ s1. g s1)) cbb (x @ y)"
  unfolding emits_def
proof (intro allI impI)
  fix s assume r: "ready cbb s" and c: "can_add mal (base s) (length (x @ y))"
  have "can_add mal (base s) (length x)" using c by (rule can_add_mono) simp
  then obtain s1 where s1: "f s = (Some (), s1)" "appends s s1 x" by (rule emitsE [OF assms(1) r])
  have c1: "can_add mal (base s1) (length y)" using appends_room [OF r s1(2)] c by simp
  obtain s2 where "g s1 = (Some (), s2)" "appends s1 s2 y"
    by (rule emitsE [OF assms(2) appends_ready [OF r s1(2)] c1])
  then show "\<exists>s'. and_then (f s) (\<lambda>_ s1. g s1) = (Some (), s') \<and> appends s s' (x @ y)"
    using s1 appends_trans by auto
qed

lemma emits_add_bytes:
  assumes "malloc_sized mal"
  shows "emits mal (CBB_add_bytes mal cbb x) cbb x"
  unfolding emits_def
proof (intro allI impI)
  fix s assume r: "ready cbb s" and c: "can_add mal (base s) (length x)"
  then have wf: "wf_buffer (base s)" by (simp add: ready_def)
  obtain b' where b': "cbb_buffer_add mal (length x) (base s) = (Some (blen (base s)), b')"
    "appended (base s) (b'\<lparr>buf := store (buf b') (blen (base s)) x\<rparr>) x"
    using fill_appended [OF assms wf c] by blast
  then show "\<exists>s'. CBB_add_bytes mal cbb x s = (Some (), s') \<and> appends s s' x"
    using r by (simp add: CBB_add_bytes_def CBB_add_space_def on_base_def appends_def)
qed

lemma emits_add_u:
  assumes "malloc_sized mal" and "unat v < 256 ^ n"
  shows "emits mal (cbb_add_u mal cbb v n) cbb (be_bytes n (unat v))"
  unfolding emits_def
proof (intro allI impI)
  fix s assume r: "ready cbb s" and c: "can_add mal (base s) (length (be_bytes n (unat v)))"
  let ?x = "be_bytes n (unat v)"
  have wf: "wf_buffer (base s)" using r by (simp add: ready_def)
  obtain b' where b': "cbb_buffer_add mal (length ?x) (base s) = (Some (blen (base s)), b')"
    "blen (base s) + length ?x \<le> length (buf b')"
    "appended (base s) (b'\<lparr>buf := store (buf b') (blen (base s)) ?x\<rparr>) ?x"
    using fill_appended [OF assms(1) wf c] by blast
  then show "\<exists>s'. cbb_add_u mal cbb v n s = (Some (), s') \<and> appends s s' ?x"
    using r assms(2) store_len_eq [of "blen (base s)" n "buf b'" "unat v"]
    by (simp add: cbb_add_u_def CBB_add_space_def on_base_def appends_def)
qed

section \<open>Children\<close>

lemma add_child_ok:
  assumes "malloc_sized mal" and r: "ready cbb s" and i: "i \<notin> fst ` set (kids s)" and c: "can_add mal (base s) n"
  obtains s1 where "cbb_add_child mal i n a s = (Some (), s1)"
    and "appended (base s) (base s1) (replicate n 0)"
    and "kids s1 = kids s @ [(i, \<lparr>offset = blen (base s), pending_len_len = n, pending_is_asn1 = a\<rparr>)]"
    and "ready (Child i) s1"
proof -
  have wf: "wf_buffer (base s)" and e: "\<not> error (base s)" using r by (simp_all add: ready_def)
  obtain b' where b': "cbb_buffer_add mal n (base s) = (Some (blen (base s)), b')"
    "appended (base s) (b'\<lparr>buf := store (buf b') (blen (base s)) (replicate n 0)\<rparr>) (replicate n 0)"
    using fill_appended [OF assms(1) wf, of "replicate n 0"] c by auto
  let ?s1 = "s\<lparr>base := b'\<lparr>buf := store (buf b') (blen (base s)) (replicate n 0)\<rparr>,
    kids := kids s @ [(i, \<lparr>offset = blen (base s), pending_len_len = n, pending_is_asn1 = a\<rparr>)]\<rparr>"
  have "ready (Child i) ?s1"
    using b'(2) e cbb_get_base_new [OF i] by (simp add: ready_def appended_def)
  then show thesis using that [of ?s1] b' by (simp add: cbb_add_child_def on_base_def Let_def)
qed

text \<open>Flushing the parent turns the reserved prefix into the length of the contents.\<close>

lemma flush_one:
  assumes r: "ready cbb s" and a: "appended (base s) (base s2) y" and k: "kids s2 = kids s @ [(i, c)]"
    and f: "flush_child mal c (base s2) = (Some (), b')" and w: "wf_buffer b'"
    and cont: "content b' = content (base s) @ z"
    and eq: "can_resize b' = can_resize (base s2)" "cap (base s2) \<le> cap b'" "error b' = error (base s2)"
  shows "\<exists>s'. CBB_flush mal cbb s2 = (Some (), s') \<and> appends s s' z"
proof -
  have "cbb_get_base cbb (kids s2) = Some (kids s, [(i, c)])"
    using r cbb_get_base_snoc k by (auto elim: readyE)
  moreover have "\<not> error (base s2)" using r a by (simp add: ready_def appended_def)
  ultimately have "CBB_flush mal cbb s2 = (Some (), s2\<lparr>base := b', kids := kids s\<rparr>)"
    using f by (simp add: CBB_flush_def)
  moreover have "appends s (s2\<lparr>base := b', kids := kids s\<rparr>) z"
    using a w cont eq by (simp add: appends_def appended_def)
  ultimately show ?thesis by blast
qed

lemma child_asn1:
  assumes "malloc_sized mal" and body: "emits mal body (Child i) d" and d: "length d \<le> 0xfffffffe"
    and r: "ready cbb s" and i: "i \<notin> fst ` set (kids s)"
    and c: "can_add mal (base s) (length (der_len (length d) @ d))"
  shows "\<exists>s'. and_then (cbb_add_child mal i 1 True s) (\<lambda>_ s1.
      and_then (body s1) (\<lambda>_ s2. CBB_flush mal cbb s2)) = (Some (), s') \<and> appends s s' (der_len (length d) @ d)"
proof -
  let ?c = "\<lparr>offset = blen (base s), pending_len_len = 1, pending_is_asn1 = True\<rparr>"
  have l: "1 \<le> length (der_len (length d))" by (simp add: der_len_def)
  have wf: "wf_buffer (base s)" using r by (simp add: ready_def)
  have "can_add mal (base s) 1" using c by (rule can_add_mono) (use l in simp)
  then obtain s1 where s1: "cbb_add_child mal i 1 True s = (Some (), s1)"
    "appended (base s) (base s1) (replicate 1 0)" "kids s1 = kids s @ [(i, ?c)]" "ready (Child i) s1"
    by (rule add_child_ok [OF assms(1) r i])
  have "can_add mal (base s) (length (replicate 1 (0 :: byte)) + length d)" using c by (rule can_add_mono) (use l in simp)
  then have "can_add mal (base s1) (length d)" by (rule can_add_appended [OF wf s1(2)])
  then obtain s2 where s2: "body s1 = (Some (), s2)" "appends s1 s2 d"
    by (rule emitsE [OF body s1(4)])
  have a: "appended (base s) (base s2) (replicate 1 0 @ d)"
    by (rule appended_trans [OF s1(2)]) (use s2(2) in \<open>simp add: appends_def\<close>)
  then have cont: "content (base s2) = content (base s) @ [0] @ d" and w2: "wf_buffer (base s2)"
    by (simp_all add: appended_def)
  have room: "can_add mal (base s2) (length (der_len (length d)) - 1)"
  proof (rule can_add_appended [OF wf a])
    have "length (replicate 1 (0 :: byte) @ d) + (length (der_len (length d)) - 1) = length (der_len (length d) @ d)"
      using l by simp
    then show "can_add mal (base s) (length (replicate 1 (0 :: byte) @ d) + (length (der_len (length d)) - 1))"
      using c by (simp only:)
  qed
  have off: "length (content (base s)) = offset ?c" using wf by simp
  obtain b' where b': "flush_child mal ?c (base s2) = (Some (), b')" "wf_buffer b'"
    "content b' = content (base s) @ der_len (length d) @ d" "can_resize b' = can_resize (base s2)"
    "cap (base s2) \<le> cap b'" "error b' = error (base s2)"
    by (rule flush_child_asn1 [OF assms(1) w2 cont off _ _ d room]) simp_all
  have "kids s2 = kids s @ [(i, ?c)]" using s1(3) s2(2) by (simp add: appends_def)
  from flush_one [OF r a this b'(1-6)] show ?thesis using s1(1) s2(1) by simp
qed

lemma child_fixed:
  assumes "malloc_sized mal" and body: "emits mal body (Child i) d" and d: "length d < 256 ^ n"
    and r: "ready cbb s" and i: "i \<notin> fst ` set (kids s)"
    and c: "can_add mal (base s) (length (be_bytes n (length d) @ d))"
  shows "\<exists>s'. and_then (cbb_add_child mal i n False s) (\<lambda>_ s1.
      and_then (body s1) (\<lambda>_ s2. CBB_flush mal cbb s2)) = (Some (), s') \<and> appends s s' (be_bytes n (length d) @ d)"
proof -
  let ?c = "\<lparr>offset = blen (base s), pending_len_len = n, pending_is_asn1 = False\<rparr>"
  have wf: "wf_buffer (base s)" using r by (simp add: ready_def)
  have "can_add mal (base s) n" using c by (rule can_add_mono) simp
  then obtain s1 where s1: "cbb_add_child mal i n False s = (Some (), s1)"
    "appended (base s) (base s1) (replicate n 0)" "kids s1 = kids s @ [(i, ?c)]" "ready (Child i) s1"
    by (rule add_child_ok [OF assms(1) r i])
  have "can_add mal (base s) (length (replicate n (0 :: byte)) + length d)" using c by (rule can_add_mono) simp
  then have "can_add mal (base s1) (length d)" by (rule can_add_appended [OF wf s1(2)])
  then obtain s2 where s2: "body s1 = (Some (), s2)" "appends s1 s2 d"
    by (rule emitsE [OF body s1(4)])
  have a: "appended (base s) (base s2) (replicate n 0 @ d)"
    by (rule appended_trans [OF s1(2)]) (use s2(2) in \<open>simp add: appends_def\<close>)
  then have cont: "content (base s2) = content (base s) @ replicate n 0 @ d" and w2: "wf_buffer (base s2)"
    by (simp_all add: appended_def)
  have small: "blen (base s2) < 2 ^ 64" using w2 by (simp add: wf_buffer_def)
  have off: "length (content (base s)) = offset ?c" using wf by simp
  obtain b' where b': "flush_child mal ?c (base s2) = (Some (), b')" "wf_buffer b'"
    "content b' = content (base s) @ be_bytes (pending_len_len ?c) (length d) @ d" "can_resize b' = can_resize (base s2)"
    "cap (base s2) = cap b'" "error b' = error (base s2)"
    using flush_child_fixed [OF w2 small cont off, of mal] d by auto
  have "kids s2 = kids s @ [(i, ?c)]" using s1(3) s2(2) by (simp add: appends_def)
  from flush_one [OF r a this b'(1-4)] b'(5,6) show ?thesis using s1(1) s2(1) by simp
qed

end
