(* ===== verification/Cbb_Props.thy ===== *)
theory Cbb_Props
  imports Cbb_Emit
begin

text \<open>
  The builder against the reader: an interface for a writer of \<open>Cbb\<close> paired with a reader of
  \<open>Cbs\<close>, its interpretations for integers, length-prefixed strings and ASN.1 values, and the
  round trips that follow.
\<close>

section \<open>Writers paired with readers\<close>

lemma ready_init_fixed: "length b < 2 ^ 64 \<Longrightarrow> ready Top (CBB_init_fixed b (length b))"
  by (simp add: ready_def CBB_init_fixed_def cbb_init_def wf_buffer_def)

lemma content_init_fixed [simp]: "content (base (CBB_init_fixed b n)) = []"
  by (simp add: CBB_init_fixed_def cbb_init_def content_def)

lemma can_add_init_fixed:
  "n \<le> length b \<Longrightarrow> length b < 2 ^ 62 \<Longrightarrow> can_add mal (base (CBB_init_fixed b (length b))) n"
  by (simp add: can_add_def CBB_init_fixed_def cbb_init_def)

lemma finish_ready:
  assumes "ready Top s"
  shows "CBB_finish mal Top s = (Some (buf (base s), blen (base s)), s\<lparr>base := (base s)\<lparr>buf := []\<rparr>\<rparr>)"
  using assms by (simp add: CBB_finish_def)

fun add_all :: "('a \<Rightarrow> CBB \<Rightarrow> unit option \<times> CBB) \<Rightarrow> 'a list \<Rightarrow> CBB \<Rightarrow> unit option \<times> CBB" where
  "add_all f [] s = (Some (), s)"
| "add_all f (v # vs) s = and_then (f v s) (\<lambda>_ s1. add_all f vs s1)"

fun get_all :: "(CBS \<Rightarrow> 'a option \<times> CBS) \<Rightarrow> nat \<Rightarrow> CBS \<Rightarrow> 'a list option \<times> CBS" where
  "get_all g 0 cbs = (Some [], cbs)"
| "get_all g (Suc n) cbs =
     and_then (g cbs) (\<lambda>v cbs1. and_then (get_all g n cbs1) (\<lambda>vs cbs2. (Some (v # vs), cbs2)))"

locale cbb_codec =
  fixes put :: "malloc \<Rightarrow> CBB_ref \<Rightarrow> 'a \<Rightarrow> CBB \<Rightarrow> unit option \<times> CBB"
    and get :: "CBS \<Rightarrow> 'a option \<times> CBS"
    and enc :: "'a \<Rightarrow> byte list"
    and valid :: "'a \<Rightarrow> bool"
  assumes put_emits: "malloc_sized mal \<Longrightarrow> valid v \<Longrightarrow> emits mal (put mal cbb v) cbb (enc v)"
    and get_enc: "valid v \<Longrightarrow> get (enc v @ rest) = (Some v, rest)"
begin

lemma add_all_emits:
  assumes "malloc_sized mal" and "list_all valid vs"
  shows "emits mal (add_all (put mal cbb) vs) cbb (concat (map enc vs))"
  using assms(2)
proof (induction vs)
  case Nil
  have "add_all (put mal cbb) [] = (\<lambda>s. (Some (), s))" by (rule ext) simp
  then show ?case using emits_nil by simp
next
  case (Cons v vs)
  have "add_all (put mal cbb) (v # vs) = (\<lambda>s. and_then (put mal cbb v s) (\<lambda>_ s1. add_all (put mal cbb) vs s1))"
    by (rule ext) simp
  then show ?case using emits_seq [OF put_emits [OF assms(1)], of v "add_all (put mal cbb) vs"] Cons by simp
qed

lemma get_all_enc: "list_all valid vs \<Longrightarrow> get_all get (length vs) (concat (map enc vs) @ rest) = (Some vs, rest)"
  by (induction vs) (simp_all add: get_enc)

lemma roundtrip:
  assumes "malloc_sized mal" and "list_all valid vs"
    and "length (concat (map enc vs)) \<le> length b" and "length b < 2 ^ 62"
  shows "\<exists>s data n s'. add_all (put mal Top) vs (CBB_init_fixed b (length b)) = (Some (), s) \<and>
    CBB_finish mal Top s = (Some (data, n), s') \<and>
    CBS_init data n = concat (map enc vs) \<and>
    get_all get (length vs) (CBS_init data n) = (Some vs, [])"
proof -
  have r: "ready Top (CBB_init_fixed b (length b))" using assms(4) by (intro ready_init_fixed) simp
  obtain s where s: "add_all (put mal Top) vs (CBB_init_fixed b (length b)) = (Some (), s)"
    "appends (CBB_init_fixed b (length b)) s (concat (map enc vs))"
    by (rule emitsE [OF add_all_emits [OF assms(1,2)] r can_add_init_fixed [OF assms(3,4)]])
  have "CBS_init (buf (base s)) (blen (base s)) = concat (map enc vs)"
    using s(2) by (simp add: appends_def appended_def CBS_init_def content_def [symmetric])
  then show ?thesis
    using s(1) finish_ready [OF appends_ready [OF r s(2)]] get_all_enc [OF assms(2), of "[]"] by auto
qed

end

section \<open>Integers\<close>

lemma get_u_be_bytes:
  assumes "n \<le> 8" and "v < 256 ^ n"
  shows "cbs_get_u (be_bytes n v @ rest) n = (Some (of_nat v), rest)"
proof -
  have "unat (be_loop 0 (be_bytes n v)) = v"
    using be_loop_be_val [of "be_bytes n v"] assms by (simp add: be_val_be_bytes)
  then have "be_loop 0 (be_bytes n v) = of_nat v" by (rule word_of_unatI)
  then show ?thesis by (simp add: cbs_get_u_eq)
qed

lemma unat_ucast_u64: "unat (ucast w :: u64) = unat w" if "LENGTH('a) \<le> 64" for w :: "'a::len word"
proof (rule unat_ucast_less)
  have "(2 :: nat) ^ LENGTH('a) \<le> 2 ^ LENGTH(64)" using that by (intro power_increasing) simp_all
  then show "unat w < 2 ^ LENGTH(64)" by (rule less_le_trans [OF unat_lt_2p])
qed

lemma ucast_ucast_u64: "ucast (ucast w :: u64) = w" if "LENGTH('a) \<le> 64" for w :: "'a::len word"
  using unat_ucast_u64 [OF that, of w] unat_lt_2p [of w]
  by (simp add: word_unat_eq_iff unat_ucast_less)

interpretation u8: cbb_codec CBB_add_u8 CBS_get_u8 "\<lambda>v. [v]" "\<lambda>_. True"
proof
  fix mal cbb and v :: byte assume "malloc_sized mal"
  from emits_add_u [OF this, of "ucast v" 1 cbb] show "emits mal (CBB_add_u8 mal cbb v) cbb [v]"
    by (simp add: CBB_add_u8_def [abs_def])
qed simp

interpretation u16: cbb_codec CBB_add_u16 CBS_get_u16 "\<lambda>v. be_bytes 2 (unat v)" "\<lambda>_. True"
proof
  fix mal cbb and v :: u16 assume m: "malloc_sized mal"
  have "unat (ucast v :: u64) = unat v" "unat v < 256 ^ 2" using unat_lt_2p [of v] by (simp_all add: unat_ucast_u64)
  then show "emits mal (CBB_add_u16 mal cbb v) cbb (be_bytes 2 (unat v))"
    using emits_add_u [OF m, of "ucast v" 2 cbb] by (simp add: CBB_add_u16_def [abs_def])
next
  fix v :: u16 and rest
  show "CBS_get_u16 (be_bytes 2 (unat v) @ rest) = (Some v, rest)"
    using get_u_be_bytes [of 2 "unat v" rest] unat_lt_2p [of v] by (simp add: CBS_get_u16_def ucast_ucast_u64)
qed

interpretation u24: cbb_codec CBB_add_u24 CBS_get_u24 "\<lambda>v. be_bytes 3 (unat v)" "\<lambda>v. unat v < 2 ^ 24"
proof
  fix mal cbb and v :: u32 assume m: "malloc_sized mal" and v: "unat v < 2 ^ 24"
  have "unat (ucast v :: u64) = unat v" "unat v < 256 ^ 3" using v by (simp_all add: unat_ucast_u64)
  then show "emits mal (CBB_add_u24 mal cbb v) cbb (be_bytes 3 (unat v))"
    using emits_add_u [OF m, of "ucast v" 3 cbb] by (simp add: CBB_add_u24_def [abs_def])
next
  fix v :: u32 and rest assume "unat v < 2 ^ 24"
  then show "CBS_get_u24 (be_bytes 3 (unat v) @ rest) = (Some v, rest)"
    using get_u_be_bytes [of 3 "unat v" rest] by (simp add: CBS_get_u24_def ucast_ucast_u64)
qed

interpretation u32: cbb_codec CBB_add_u32 CBS_get_u32 "\<lambda>v. be_bytes 4 (unat v)" "\<lambda>_. True"
proof
  fix mal cbb and v :: u32 assume m: "malloc_sized mal"
  have "unat (ucast v :: u64) = unat v" "unat v < 256 ^ 4" using unat_lt_2p [of v] by (simp_all add: unat_ucast_u64)
  then show "emits mal (CBB_add_u32 mal cbb v) cbb (be_bytes 4 (unat v))"
    using emits_add_u [OF m, of "ucast v" 4 cbb] by (simp add: CBB_add_u32_def [abs_def])
next
  fix v :: u32 and rest
  show "CBS_get_u32 (be_bytes 4 (unat v) @ rest) = (Some v, rest)"
    using get_u_be_bytes [of 4 "unat v" rest] unat_lt_2p [of v] by (simp add: CBS_get_u32_def ucast_ucast_u64)
qed

interpretation u64: cbb_codec CBB_add_u64 CBS_get_u64 "\<lambda>v. be_bytes 8 (unat v)" "\<lambda>_. True"
proof
  fix mal cbb and v :: u64 assume m: "malloc_sized mal"
  show "emits mal (CBB_add_u64 mal cbb v) cbb (be_bytes 8 (unat v))"
    using emits_add_u [OF m, of v 8 cbb] unat_lt_2p [of v] by (simp add: CBB_add_u64_def [abs_def])
next
  fix v :: u64 and rest
  show "CBS_get_u64 (be_bytes 8 (unat v) @ rest) = (Some v, rest)"
    using get_u_be_bytes [of 8 "unat v" rest] unat_lt_2p [of v] by (simp add: CBS_get_u64_def)
qed

section \<open>Length-prefixed strings\<close>

lemma fold_max_le: "x \<in> set xs \<Longrightarrow> x \<le> fold max xs (a :: nat)"
  and fold_max_start: "a \<le> fold max xs (a :: nat)"
proof -
  show start: "b \<le> fold max ys b" for ys and b :: nat
  proof (induction ys arbitrary: b)
    case (Cons y ys)
    have "b \<le> max y b" by simp
    also have "\<dots> \<le> fold max ys (max y b)" by (rule Cons)
    finally show ?case by simp
  qed simp
  show "x \<in> set xs \<Longrightarrow> x \<le> fold max xs a"
  proof (induction xs arbitrary: a)
    case (Cons y ys)
    show ?case
    proof (cases "x = y")
      case True
      have "y \<le> max y a" by simp
      also have "\<dots> \<le> fold max ys (max y a)" by (rule start)
      finally show ?thesis using True by simp
    qed (use Cons in simp)
  qed simp
qed

lemma local_child_fresh: "local_child s \<notin> fst ` set (kids s)"
proof
  assume "local_child s \<in> fst ` set (kids s)"
  then have "local_child s \<le> fold max (map fst (kids s)) 0" by (intro fold_max_le) simp
  then show False by (simp add: local_child_def)
qed

text \<open>A client that opens a child with an \<open>n\<close>-byte length, writes a string and flushes.\<close>

definition put_prefixed :: "nat \<Rightarrow> malloc \<Rightarrow> CBB_ref \<Rightarrow> byte list \<Rightarrow> CBB \<Rightarrow> unit option \<times> CBB" where
  "put_prefixed n mal cbb data s =
     (let child = local_child s in
      and_then (cbb_add_length_prefixed mal cbb child n s) (\<lambda>_ s1.
      and_then (CBB_add_bytes mal (Child child) data s1) (\<lambda>_ s2. CBB_flush mal cbb s2)))"

lemma put_prefixed_emits:
  assumes "malloc_sized mal" and "length data < 256 ^ n"
  shows "emits mal (put_prefixed n mal cbb data) cbb (be_bytes n (length data) @ data)"
  unfolding emits_def put_prefixed_def cbb_add_length_prefixed_def Let_def
  using child_fixed [OF assms(1) emits_add_bytes [OF assms(1)] assms(2) _ local_child_fresh]
  by simp

lemma get_prefixed_enc:
  assumes "n \<le> 8" and "length data < 256 ^ n"
  shows "cbs_get_length_prefixed (be_bytes n (length data) @ data @ rest) n = (Some data, rest)"
proof -
  have "(256 :: nat) ^ n \<le> 256 ^ 8" using assms(1) by (intro power_increasing) simp_all
  then have "length data < 2 ^ 64" using assms(2) by simp
  then have "unat (of_nat (length data) :: u64) = length data" by (intro unat_of_nat_less) simp
  then show ?thesis
    using get_u_be_bytes [OF assms, of "data @ rest"]
    by (simp add: cbs_get_length_prefixed_def CBS_get_bytes_eq)
qed

interpretation lp8: cbb_codec "put_prefixed 1" CBS_get_u8_length_prefixed
    "\<lambda>d. be_bytes 1 (length d) @ d" "\<lambda>d. length d < 256 ^ 1"
  by unfold_locales (simp_all add: put_prefixed_emits CBS_get_u8_length_prefixed_def get_prefixed_enc
      del: One_nat_def power_one_right be_bytes.simps)

interpretation lp16: cbb_codec "put_prefixed 2" CBS_get_u16_length_prefixed
    "\<lambda>d. be_bytes 2 (length d) @ d" "\<lambda>d. length d < 256 ^ 2"
  by unfold_locales (simp_all add: put_prefixed_emits CBS_get_u16_length_prefixed_def get_prefixed_enc)

interpretation lp24: cbb_codec "put_prefixed 3" CBS_get_u24_length_prefixed
    "\<lambda>d. be_bytes 3 (length d) @ d" "\<lambda>d. length d < 256 ^ 3"
  by unfold_locales (simp_all add: put_prefixed_emits CBS_get_u24_length_prefixed_def get_prefixed_enc)

section \<open>ASN.1 elements\<close>

text \<open>The digits that \<open>add_base128_integer\<close> writes.\<close>

fun lead_digits :: "nat \<Rightarrow> nat \<Rightarrow> byte list" where
  "lead_digits 0 w = []"
| "lead_digits (Suc k) w = lead_digits k (w div 128) @ [byte_of (w mod 128 + 128)]"

lemma lead_digits_Cons: "lead_digits (Suc k) w = byte_of (w div 128 ^ k mod 128 + 128) # lead_digits k w"
proof (induction k arbitrary: w)
  case (Suc k)
  have "lead_digits (Suc (Suc k)) w = lead_digits (Suc k) (w div 128) @ [byte_of (w mod 128 + 128)]" by simp
  also have "\<dots> = byte_of (w div 128 div 128 ^ k mod 128 + 128) # lead_digits k (w div 128) @ [byte_of (w mod 128 + 128)]"
    by (simp only: Suc.IH append_Cons)
  finally show ?case by (simp add: div_mult2_eq)
qed simp

lemma lead_digits_lead: "lead_digits (base128_len w) w = base128_lead w"
proof (induction w rule: base128_len.induct)
  case (1 w)
  show ?case
    by (cases "w = 0") (use 1 in \<open>simp_all add: base128_len.simps [of w] base128_len.simps [of 0] base128_lead_pos\<close>)
qed

definition base128_byte :: "u64 \<Rightarrow> nat \<Rightarrow> byte" where
  "base128_byte v i = (let b = ucast (drop_bit (7 * i) v AND 0x7f) in if i \<noteq> 0 then b OR 0x80 else b)"

lemma or_80: "unat b < 128 \<Longrightarrow> b OR 0x80 = byte_of (unat b + 128)" for b :: byte
  using unat_or_push_bit [of b 7 1] by (simp add: byte_eq_iff)

lemma base128_byte_eq:
  "base128_byte v i = byte_of (unat v div 128 ^ i mod 128 + (if i \<noteq> 0 then 128 else 0))"
proof -
  let ?b = "ucast (drop_bit (7 * i) v AND 0x7f) :: byte"
  have "unat (drop_bit (7 * i) v AND 0x7f) = unat v div 128 ^ i mod 128"
  proof -
    have "unat (drop_bit (7 * i) v AND mask 7) = unat v div 2 ^ (7 * i) mod 2 ^ 7"
      by (simp only: unat_and_mask unat_drop_bit)
    then show ?thesis by (simp add: mask_eq_exp_minus_1 power_mult)
  qed
  moreover from this have "unat (drop_bit (7 * i) v AND 0x7f) < 128" by simp
  ultimately have b: "unat ?b = unat v div 128 ^ i mod 128" by (simp add: unat_ucast_less)
  then have "unat ?b < 128" by simp
  then show ?thesis unfolding base128_byte_def Let_def using or_80 [of ?b] b
    by (cases "i = 0") (simp_all add: byte_eq_iff)
qed

lemma emits_base128_loop:
  assumes "malloc_sized mal"
  shows "emits mal (add_base128_loop mal cbb v n) cbb (map (base128_byte v) (rev [0..<n]))"
proof (induction n)
  case 0
  have "add_base128_loop mal cbb v 0 = (\<lambda>s. (Some (), s))" by (rule ext) simp
  then show ?case using emits_nil by simp
next
  case (Suc n)
  have "add_base128_loop mal cbb v (Suc n) =
      (\<lambda>s. and_then (CBB_add_u8 mal cbb (base128_byte v n) s) (\<lambda>_ s1. add_base128_loop mal cbb v n s1))"
    by (rule ext) (simp add: base128_byte_def Let_def)
  then show ?case using emits_seq [OF u8.put_emits [OF assms TrueI] Suc.IH] by simp
qed

lemma base128_bytes_enc:
  "map (base128_byte v) (rev [0..<Suc k]) = lead_digits k (unat v div 128) @ [byte_of (unat v mod 128)]"
proof (induction k)
  case (Suc k)
  have "map (base128_byte v) (rev [0..<Suc (Suc k)]) = base128_byte v (Suc k) # map (base128_byte v) (rev [0..<Suc k])"
    by simp
  also have "\<dots> = byte_of (unat v div 128 div 128 ^ k mod 128 + 128) # lead_digits k (unat v div 128) @ [byte_of (unat v mod 128)]"
    unfolding Suc.IH by (simp add: base128_byte_eq div_mult2_eq)
  also have "\<dots> = lead_digits (Suc k) (unat v div 128) @ [byte_of (unat v mod 128)]"
    by (simp only: lead_digits_Cons append_Cons)
  finally show ?case .
qed (simp add: base128_byte_eq)

lemma emits_base128:
  assumes "malloc_sized mal"
  shows "emits mal (add_base128_integer mal cbb v) cbb (base128_enc (unat v))"
proof -
  define n where "n = (if base128_len (unat v) = 0 then 1 else base128_len (unat v))"
  have "n = Suc (base128_len (unat v div 128))"
    by (cases "unat v = 0") (simp_all add: n_def base128_len.simps [of "unat v"] base128_len.simps [of 0])
  then have "map (base128_byte v) (rev [0..<n]) = base128_enc (unat v)"
    by (simp only: base128_bytes_enc lead_digits_lead base128_enc_def)
  moreover have "add_base128_integer mal cbb v = add_base128_loop mal cbb v n"
    by (rule ext) (simp add: add_base128_integer_def n_def Let_def)
  ultimately show ?thesis using emits_base128_loop [OF assms, of cbb v n] by simp
qed

definition tag_bits :: "CBS_ASN1_TAG \<Rightarrow> byte" where
  "tag_bits tag = ucast (drop_bit CBS_ASN1_TAG_SHIFT tag AND 0xe0)"

lemma tag_bits_or:
  assumes "n < 32" and "unat w = n"
  shows "tag_bits tag OR w = byte_of (32 * tag_class tag + n)"
proof -
  let ?b = "ucast (drop_bit 24 tag) :: byte" and ?c = "byte_of (tag_class tag)"
  have c: "unat ?c = tag_class tag" using tag_class_lt [of tag] by simp
  have d: "unat (drop_bit 24 tag) = unat tag div 2 ^ 24" by (rule unat_drop_bit)
  then have "unat (drop_bit 24 tag) < 256" using unat_u32_lt [of tag] by (simp add: div_less_iff_less_mult)
  then have b: "unat ?b = unat tag div 2 ^ 24" using d by (simp only: unat_ucast_less) (simp add: unat_ucast_less)
  have "tag_bits tag = ?b AND 0xe0"
    by (simp add: tag_bits_def CBS_ASN1_TAG_SHIFT_def unsigned_and_eq)
  moreover have "?b AND 0xe0 = push_bit 5 ?c"
  proof -
    have "unat ?b div 32 = tag_class tag" by (simp add: b tag_class_def div_mult2_eq [symmetric])
    moreover have "tag_class tag * 32 < 256" using tag_class_lt [of tag] by simp
    ultimately show ?thesis unfolding word_unat_eq_iff unat_and_e0 using c by (simp only: unat_push_bit) simp
  qed
  ultimately have "unat (tag_bits tag OR w) = n + tag_class tag * 32"
    using unat_or_push_bit [of w 5 ?c] assms c tag_class_lt [of tag] by (simp add: or.commute)
  moreover have "32 * tag_class tag + n < 256" using assms(1) tag_class_lt [of tag] by linarith
  ultimately show ?thesis by (simp add: byte_eq_iff)
qed

lemma unat_tag_number: "unat (tag AND CBS_ASN1_TAG_NUMBER_MASK) = tag_no tag"
proof -
  have m: "CBS_ASN1_TAG_NUMBER_MASK = mask 29"
    by (simp add: CBS_ASN1_TAG_NUMBER_MASK_def CBS_ASN1_TAG_SHIFT_def mask_eq_exp_minus_1)
  show ?thesis unfolding m unat_and_mask tag_no_def ..
qed

definition put_tag :: "malloc \<Rightarrow> CBB_ref \<Rightarrow> CBS_ASN1_TAG \<Rightarrow> CBB \<Rightarrow> unit option \<times> CBB" where
  "put_tag mal cbb tag s =
     (if tag AND CBS_ASN1_TAG_NUMBER_MASK \<ge> 0x1f then
        and_then (CBB_add_u8 mal cbb (tag_bits tag OR 0x1f) s) (\<lambda>_ s2.
          add_base128_integer mal cbb (ucast (tag AND CBS_ASN1_TAG_NUMBER_MASK)) s2)
      else CBB_add_u8 mal cbb (tag_bits tag OR ucast (tag AND CBS_ASN1_TAG_NUMBER_MASK)) s)"

lemma emits_tag:
  assumes "malloc_sized mal"
  shows "emits mal (put_tag mal cbb tag) cbb (der_tag tag)"
proof (cases "tag_no tag < 31")
  case True
  then have "\<not> tag AND CBS_ASN1_TAG_NUMBER_MASK \<ge> 0x1f" by (simp add: word_le_nat_alt unat_tag_number)
  moreover have "tag_bits tag OR ucast (tag AND CBS_ASN1_TAG_NUMBER_MASK) = byte_of (32 * tag_class tag + tag_no tag)"
    using True by (intro tag_bits_or) (simp_all add: unat_ucast_less unat_tag_number)
  ultimately have "put_tag mal cbb tag = CBB_add_u8 mal cbb (byte_of (32 * tag_class tag + tag_no tag))"
    by (intro ext) (simp add: put_tag_def)
  then show ?thesis using u8.put_emits [OF assms TrueI] True by (simp add: der_tag_def)
next
  case False
  then have "tag AND CBS_ASN1_TAG_NUMBER_MASK \<ge> 0x1f" by (simp add: word_le_nat_alt unat_tag_number)
  moreover have "tag_bits tag OR 0x1f = byte_of (32 * tag_class tag + 31)" by (intro tag_bits_or) simp_all
  ultimately have "put_tag mal cbb tag = (\<lambda>s. and_then (CBB_add_u8 mal cbb (byte_of (32 * tag_class tag + 31)) s) (\<lambda>_ s2.
      add_base128_integer mal cbb (ucast (tag AND CBS_ASN1_TAG_NUMBER_MASK)) s2))"
    by (intro ext) (simp add: put_tag_def)
  moreover have "unat (ucast (tag AND CBS_ASN1_TAG_NUMBER_MASK) :: u64) = tag_no tag"
    by (simp add: unat_ucast_u64 unat_tag_number)
  ultimately show ?thesis
    using emits_seq [OF u8.put_emits [OF assms TrueI, of cbb "byte_of (32 * tag_class tag + 31)"]
        emits_base128 [OF assms, of cbb "ucast (tag AND CBS_ASN1_TAG_NUMBER_MASK)"]] False
    by (simp add: der_tag_def)
qed

lemma CBB_add_asn1_ready:
  assumes "ready cbb s"
  shows "CBB_add_asn1 mal cbb i tag s = and_then (put_tag mal cbb tag s) (\<lambda>_ s2. cbb_add_child mal i 1 True s2)"
  using assms by (simp add: CBB_add_asn1_def put_tag_def tag_bits_def Let_def)

text \<open>An element with any contents: identifier, length and contents, and the child is closed.\<close>

lemma asn1_element_ok:
  assumes "malloc_sized mal" and body: "emits mal body (Child i) d" and d: "length d \<le> 0xfffffffe"
    and r: "ready cbb s" and i: "i \<notin> fst ` set (kids s)"
    and c: "can_add mal (base s) (length (der_header tag (length d) @ d))"
  shows "\<exists>s'. and_then (CBB_add_asn1 mal cbb i tag s) (\<lambda>_ s1.
      and_then (body s1) (\<lambda>_ s2. CBB_flush mal cbb s2)) = (Some (), s') \<and> appends s s' (der_header tag (length d) @ d)"
proof -
  have "can_add mal (base s) (length (der_tag tag))" using c by (rule can_add_mono) (simp add: der_header_def)
  then obtain s1 where s1: "put_tag mal cbb tag s = (Some (), s1)" "appends s s1 (der_tag tag)"
    by (rule emitsE [OF emits_tag [OF assms(1)] r])
  have r1: "ready cbb s1" and k: "kids s1 = kids s" using appends_ready [OF r s1(2)] s1(2) by (auto simp: appends_def)
  have "can_add mal (base s1) (length (der_len (length d) @ d))"
    by (rule appends_room [OF r s1(2)]) (use c in \<open>simp add: der_header_def add.assoc\<close>)
  from child_asn1 [OF assms(1) body d r1 _ this] i k
  obtain s' where "and_then (cbb_add_child mal i 1 True s1) (\<lambda>_ s1.
      and_then (body s1) (\<lambda>_ s2. CBB_flush mal cbb s2)) = (Some (), s')" "appends s1 s' (der_len (length d) @ d)" by auto
  then show ?thesis
    using s1 appends_trans [OF s1(2)] by (auto simp: CBB_add_asn1_ready [OF r] der_header_def and_then_def split: prod.splits option.splits)
qed

lemma or_error_Some [simp]: "or_error cbb (Some a, s) = (Some a, s)"
  by (simp add: or_error_def)

section \<open>ASN.1 values\<close>

lemma value_byte: "ucast (drop_bit (8 * n) v AND 0xff) = byte_of (unat v div 256 ^ n)" for v :: u64
proof -
  have "unat (drop_bit (8 * n) v AND mask 8) = unat v div 2 ^ (8 * n) mod 2 ^ 8"
    by (simp only: unat_and_mask unat_drop_bit)
  then have "unat (drop_bit (8 * n) v AND 0xff) = unat v div 256 ^ n mod 256"
    by (simp add: mask_eq_exp_minus_1 power_mult)
  moreover from this have "unat (drop_bit (8 * n) v AND 0xff) < 256" by simp
  ultimately show ?thesis by (simp add: byte_eq_iff unat_ucast_less)
qed

text \<open>
  The bytes still to be written with \<open>n\<close> bytes of the value left: all of them once started,
  otherwise the minimal encoding, or nothing for zero.
\<close>

definition uint64_rest :: "nat \<Rightarrow> bool \<Rightarrow> nat \<Rightarrow> byte list" where
  "uint64_rest n started v =
     (if started then be_bytes n v
      else if v mod 256 ^ n = 0 then [] else der_uint (v mod 256 ^ n))"

lemma uint64_rest_Suc:
  fixes v n :: nat
  defines "b \<equiv> byte_of (v div 256 ^ n)"
  shows "uint64_rest (Suc n) True v = b # uint64_rest n True v"
    and "b = 0 \<Longrightarrow> uint64_rest (Suc n) False v = uint64_rest n False v \<and> v mod 256 ^ Suc n = v mod 256 ^ n"
    and "b \<noteq> 0 \<Longrightarrow> uint64_rest (Suc n) False v = (if b AND 0x80 \<noteq> 0 then [0] else []) @ b # uint64_rest n True v
           \<and> v mod 256 ^ Suc n \<noteq> 0"
proof -
  have sp: "v mod 256 ^ Suc n = v div 256 ^ n mod 256 * 256 ^ n + v mod 256 ^ n"
    by (simp add: mod_mult2_eq mult.commute [of 256])
  show "uint64_rest (Suc n) True v = b # uint64_rest n True v"
    by (simp only: uint64_rest_def if_True be_bytes_Cons b_def)
  show "uint64_rest (Suc n) False v = uint64_rest n False v \<and> v mod 256 ^ Suc n = v mod 256 ^ n" if "b = 0"
  proof -
    have "v div 256 ^ n mod 256 = 0" using that by (simp add: b_def byte_eq_iff)
    then have "v mod 256 ^ Suc n = v mod 256 ^ n" using sp by simp
    then show ?thesis by (simp only: uint64_rest_def if_False simp_thms)
  qed
  show "uint64_rest (Suc n) False v = (if b AND 0x80 \<noteq> 0 then [0] else []) @ b # uint64_rest n True v
      \<and> v mod 256 ^ Suc n \<noteq> 0" if b: "b \<noteq> 0"
  proof -
    let ?m = "v mod 256 ^ Suc n"
    have "v div 256 ^ n mod 256 \<noteq> 0" using b by (auto simp: b_def byte_eq_iff)
    then have "1 * 256 ^ n \<le> v div 256 ^ n mod 256 * 256 ^ n" by (intro mult_right_mono) simp_all
    then have lo: "256 ^ n \<le> ?m" using sp by linarith
    then have m0: "?m \<noteq> 0" by (metis not_less power_not_zero zero_neq_numeral le_zero_eq)
    have "be_min ?m = be_bytes (Suc n) ?m" using lo by (intro be_min_be_bytes) simp_all
    also have "\<dots> = b # be_bytes n v" by (simp only: be_bytes_mod be_bytes_Cons b_def)
    finally have "be_min ?m = b # be_bytes n v" .
    then have "der_uint ?m = (if 128 \<le> unat b then [0] else []) @ b # be_bytes n v"
      using m0 by (simp add: der_uint_def del: power_Suc)
    then show ?thesis using m0 and_80_eq_0_iff [of b] by (simp add: uint64_rest_def not_less del: power_Suc)
  qed
qed

lemma emits_u8_opt:
  assumes "malloc_sized mal"
  shows "emits mal (\<lambda>s. if p then CBB_add_u8 mal cbb v s else (Some (), s)) cbb (if p then [v] else [])"
  using u8.put_emits [OF assms TrueI, of cbb v] emits_nil by (cases p) simp_all

lemma uint64_bytes_ok:
  assumes m: "malloc_sized mal"
  shows "ready cbb s \<Longrightarrow> can_add mal (base s) (length (uint64_rest n started (unat v))) \<Longrightarrow>
    \<exists>s'. asn1_uint64_bytes mal cbb v n started s = (Some (started \<or> unat v mod 256 ^ n \<noteq> 0), s') \<and>
         appends s s' (uint64_rest n started (unat v))"
proof (induction n arbitrary: started s)
  case 0
  then have "wf_buffer (base s)" by (simp add: ready_def)
  then show ?case by (auto simp: uint64_rest_def appends_def appended_refl)
next
  case (Suc n)
  let ?b = "byte_of (unat v div 256 ^ n)"
  note st = uint64_rest_Suc [where v = "unat v" and n = n]
  show ?case
  proof (cases "\<not> started \<and> ?b = 0")
    case True
    then have eq: "uint64_rest (Suc n) started (unat v) = uint64_rest n False (unat v)"
      "unat v mod 256 ^ Suc n = unat v mod 256 ^ n" using st(2) by auto
    have "asn1_uint64_bytes mal cbb v (Suc n) started s = asn1_uint64_bytes mal cbb v n False s"
      using True by (simp add: value_byte)
    moreover have "can_add mal (base s) (length (uint64_rest n False (unat v)))"
      using Suc.prems(2) by (simp only: eq)
    ultimately show ?thesis using Suc.IH [OF Suc.prems(1), of False] True unfolding eq
      by (simp del: asn1_uint64_bytes.simps)
  next
    case False
    let ?pad = "\<not> started \<and> ?b AND 0x80 \<noteq> 0"
    let ?x = "(if ?pad then [0] else []) @ [?b]"
    have eq: "uint64_rest (Suc n) started (unat v) = ?x @ uint64_rest n True (unat v)"
      using st(1,3) False by (cases started) auto
    have nz: "started \<or> unat v mod 256 ^ Suc n \<noteq> 0" using st(3) False by blast
    let ?f = "\<lambda>s. and_then (if ?pad then CBB_add_u8 mal cbb 0 s else (Some (), s)) (\<lambda>_ s1. CBB_add_u8 mal cbb ?b s1)"
    have f: "emits mal ?f cbb ?x" by (rule emits_seq [OF emits_u8_opt [OF m] u8.put_emits [OF m TrueI]])
    have "can_add mal (base s) (length ?x)" using Suc.prems(2) unfolding eq by (rule can_add_mono) simp
    then obtain s1 where s1: "?f s = (Some (), s1)" "appends s s1 ?x" by (rule emitsE [OF f Suc.prems(1)])
    have "can_add mal (base s1) (length (uint64_rest n True (unat v)))"
      by (rule appends_room [OF Suc.prems(1) s1(2)]) (use Suc.prems(2) in \<open>simp only: eq length_append add.assoc\<close>)
    from Suc.IH [OF appends_ready [OF Suc.prems(1) s1(2)] this] obtain s2 where
      s2: "asn1_uint64_bytes mal cbb v n True s1 = (Some True, s2)" "appends s1 s2 (uint64_rest n True (unat v))" by auto
    have "asn1_uint64_bytes mal cbb v (Suc n) started s = and_then (?f s) (\<lambda>_ s2. asn1_uint64_bytes mal cbb v n True s2)"
      using False by (auto simp: value_byte Let_def and_then_def split: prod.splits option.splits)
    then show ?thesis using s1(1) s2(1) nz appends_trans [OF s1(2) s2(2)] by (simp only: eq) auto
  qed
qed

lemma uint64_body_emits:
  assumes m: "malloc_sized mal"
  shows "emits mal (\<lambda>s1. and_then (asn1_uint64_bytes mal cbb v 8 False s1) (\<lambda>started s2.
      if \<not> started then CBB_add_u8 mal cbb 0 s2 else (Some (), s2))) cbb (der_uint (unat v))"
  unfolding emits_def
proof (intro allI impI)
  fix s assume r: "ready cbb s" and c: "can_add mal (base s) (length (der_uint (unat v)))"
  have v: "unat v mod 256 ^ 8 = unat v" using unat_u64_lt [of v] by simp
  show "\<exists>s'. and_then (asn1_uint64_bytes mal cbb v 8 False s) (\<lambda>started s2.
      if \<not> started then CBB_add_u8 mal cbb 0 s2 else (Some (), s2)) = (Some (), s') \<and> appends s s' (der_uint (unat v))"
  proof (cases "unat v = 0")
    case True
    then have e: "uint64_rest 8 False (unat v) = []" by (simp add: uint64_rest_def)
    have "can_add mal (base s) (length (uint64_rest 8 False (unat v)))" using c by (rule can_add_mono) (simp add: e)
    from uint64_bytes_ok [OF m r this] obtain s1 where
      s1: "asn1_uint64_bytes mal cbb v 8 False s = (Some False, s1)" "appends s s1 []" using v True e by auto
    have "can_add mal (base s1) (length [0 :: byte])"
      by (rule appends_room [OF r s1(2)]) (use c True in \<open>simp add: der_uint_def\<close>)
    then obtain s2 where "CBB_add_u8 mal cbb 0 s1 = (Some (), s2)" "appends s1 s2 [0]"
      by (rule emitsE [OF u8.put_emits [OF m TrueI] appends_ready [OF r s1(2)]])
    then show ?thesis using s1 appends_trans [OF s1(2)] True by (simp add: der_uint_def)
  next
    case False
    then have e: "uint64_rest 8 False (unat v) = der_uint (unat v)" unfolding uint64_rest_def v by simp
    from uint64_bytes_ok [OF m r, of 8 False v] c obtain s1 where
      "asn1_uint64_bytes mal cbb v 8 False s = (Some True, s1)" "appends s s1 (der_uint (unat v))"
      unfolding e v using False by auto
    then show ?thesis by auto
  qed
qed

lemma length_der_uint: "length (der_uint (unat (v :: u64))) \<le> 9"
  using length_be_min_le [of "unat v" 8] unat_u64_lt [of v] by (simp add: der_uint_def)

lemma uint64_emits:
  assumes m: "malloc_sized mal"
  shows "emits mal (CBB_add_asn1_uint64 mal cbb v) cbb
    (der_header CBS_ASN1_INTEGER (length (der_uint (unat v))) @ der_uint (unat v))"
  unfolding emits_def
proof (intro allI impI)
  let ?d = "der_uint (unat v)"
  fix s assume r: "ready cbb s" and c: "can_add mal (base s) (length (der_header CBS_ASN1_INTEGER (length ?d) @ ?d))"
  have d: "length ?d \<le> 0xfffffffe" using length_der_uint [of v] by simp
  let ?body = "\<lambda>s1. and_then (asn1_uint64_bytes mal (Child (local_child s)) v 8 False s1) (\<lambda>started s2.
      if \<not> started then CBB_add_u8 mal (Child (local_child s)) 0 s2 else (Some (), s2))"
  obtain s' where s': "and_then (CBB_add_asn1 mal cbb (local_child s) CBS_ASN1_INTEGER s) (\<lambda>_ s1.
      and_then (?body s1) (\<lambda>_ s2. CBB_flush mal cbb s2)) = (Some (), s')"
    "appends s s' (der_header CBS_ASN1_INTEGER (length ?d) @ ?d)"
    using asn1_element_ok [OF m uint64_body_emits [OF m] d r local_child_fresh c] by blast
  then obtain s1 s2 where "CBB_add_asn1 mal cbb (local_child s) CBS_ASN1_INTEGER s = (Some (), s1)"
    "?body s1 = (Some (), s2)" "CBB_flush mal cbb s2 = (Some (), s')"
    by (auto elim!: and_then_SomeE)
  then have "CBB_add_asn1_uint64 mal cbb v s = (Some (), s')"
    by (simp add: CBB_add_asn1_uint64_def CBB_add_asn1_uint64_with_tag_def Let_def)
  then show "\<exists>s'. CBB_add_asn1_uint64 mal cbb v s = (Some (), s') \<and>
      appends s s' (der_header CBS_ASN1_INTEGER (length ?d) @ ?d)" using s'(2) by blast
qed

interpretation asn1_uint64: cbb_codec CBB_add_asn1_uint64 CBS_get_asn1_uint64
    "\<lambda>v. der_header CBS_ASN1_INTEGER (length (der_uint (unat v))) @ der_uint (unat v)" "\<lambda>_. True"
proof
  fix v :: u64 and rest
  have "length (der_uint (unat v)) < 2 ^ 32" using length_der_uint [of v] by simp
  then have g: "CBS_get_asn1 ((der_header CBS_ASN1_INTEGER (length (der_uint (unat v))) @ der_uint (unat v)) @ rest)
      CBS_ASN1_INTEGER = (Some (der_uint (unat v)), rest)"
    using CBS_get_asn1_iff [of _ CBS_ASN1_INTEGER "der_uint (unat v)" rest] by simp
  have val: "be_val (der_uint (unat v)) = unat v"
    using be_val_Cons [of 0 "be_min (unat v)"] by (simp add: der_uint_def)
  then have "CBS_is_unsigned_asn1_integer (der_uint (unat v))" by (simp add: der_uint_iff)
  then show "CBS_get_asn1_uint64 ((der_header CBS_ASN1_INTEGER (length (der_uint (unat v))) @ der_uint (unat v)) @ rest) =
      (Some v, rest)"
    unfolding CBS_get_asn1_uint64_def g
    using val unat_u64_lt [of v] by (simp add: asn1_uint64_loop_eq Let_def)
qed (rule uint64_emits)

lemma octet_string_emits:
  assumes m: "malloc_sized mal" and d: "length d \<le> 0xfffffffe"
  shows "emits mal (CBB_add_asn1_octet_string mal cbb d) cbb (der_header CBS_ASN1_OCTETSTRING (length d) @ d)"
  unfolding emits_def CBB_add_asn1_octet_string_def Let_def
  using asn1_element_ok [OF m emits_add_bytes [OF m] d _ local_child_fresh, of _ _ CBS_ASN1_OCTETSTRING]
  by fastforce

interpretation octet_string: cbb_codec CBB_add_asn1_octet_string "\<lambda>cbs. CBS_get_asn1 cbs CBS_ASN1_OCTETSTRING"
    "\<lambda>d. der_header CBS_ASN1_OCTETSTRING (length d) @ d" "\<lambda>d. length d \<le> 0xfffffffe"
proof
  fix d rest :: "byte list" assume "length d \<le> 0xfffffffe"
  then show "CBS_get_asn1 ((der_header CBS_ASN1_OCTETSTRING (length d) @ d) @ rest) CBS_ASN1_OCTETSTRING = (Some d, rest)"
    using CBS_get_asn1_iff [of _ CBS_ASN1_OCTETSTRING d rest] by simp
qed (rule octet_string_emits)

lemma bool_emits:
  assumes m: "malloc_sized mal"
  shows "emits mal (CBB_add_asn1_bool mal cbb v) cbb (der_header CBS_ASN1_BOOLEAN 1 @ [if v \<noteq> 0 then 0xff else 0])"
  unfolding emits_def CBB_add_asn1_bool_def Let_def
  using asn1_element_ok [OF m u8.put_emits [OF m TrueI] _ _ local_child_fresh,
      of "if v \<noteq> 0 then 0xff else 0" _ _ CBS_ASN1_BOOLEAN]
  by fastforce

interpretation asn1_bool: cbb_codec "\<lambda>mal cbb b. CBB_add_asn1_bool mal cbb (if b then 1 else 0)" CBS_get_asn1_bool
    "\<lambda>b. der_header CBS_ASN1_BOOLEAN 1 @ [if b then 0xff else 0]" "\<lambda>_. True"
proof
  fix mal cbb and b :: bool assume "malloc_sized mal"
  from bool_emits [OF this, of cbb "if b then 1 else 0"]
  show "emits mal (CBB_add_asn1_bool mal cbb (if b then 1 else 0)) cbb
      (der_header CBS_ASN1_BOOLEAN 1 @ [if b then 0xff else 0])" by (cases b) simp_all
next
  fix b :: bool and rest
  have "CBS_get_asn1 (der_header CBS_ASN1_BOOLEAN 1 @ [if b then 0xff else 0] @ rest) CBS_ASN1_BOOLEAN =
      (Some [if b then 0xff else 0], rest)" by (simp only: CBS_get_asn1_iff) simp
  then show "CBS_get_asn1_bool ((der_header CBS_ASN1_BOOLEAN 1 @ [if b then 0xff else 0]) @ rest) = (Some b, rest)"
    by (simp add: CBS_get_asn1_bool_def CBS_len_def Let_def)
qed

section \<open>Properties\<close>

text \<open>
  The values \<open>vs\<close>, written one after the other into a fixed buffer, finished and read back.
\<close>

definition written_read ::
  "(malloc \<Rightarrow> CBB_ref \<Rightarrow> 'a \<Rightarrow> CBB \<Rightarrow> unit option \<times> CBB) \<Rightarrow> (CBS \<Rightarrow> 'a option \<times> CBS) \<Rightarrow>
   malloc \<Rightarrow> byte list \<Rightarrow> 'a list \<Rightarrow> bool" where
  "written_read put get mal b vs \<longleftrightarrow>
     (\<exists>s data n s'. add_all (put mal Top) vs (CBB_init_fixed b (length b)) = (Some (), s) \<and>
        CBB_finish mal Top s = (Some (data, n), s') \<and>
        get_all get (length vs) (CBS_init data n) = (Some vs, []))"

lemmas CBB_exec_simps = CBB_add_bytes_def CBB_add_space_def CBB_flush_def CBB_init_fixed_def cbb_init_def
  on_base_def cbb_buffer_add_def cbb_buffer_reserve_def size_add_def store_def CBB_add_u8_length_prefixed_def
  cbb_add_length_prefixed_def cbb_add_child_def flush_child_def

lemma length_concat_const: "(\<And>v. v \<in> set vs \<Longrightarrow> length (f v) = k) \<Longrightarrow> length (concat (map f vs)) = k * length vs"
  by (induction vs) simp_all

text \<open>
  Integers: any list of 8, 16, 24, 32 or 64-bit values, written into a buffer of exactly the
  needed size or larger, is read back in order by the reader of the same width, and nothing is left.
\<close>

theorem cbb_integers_roundtrip:
  assumes "malloc_sized mal" and "length b < 2 ^ 62"
  shows "(length bs \<le> length b \<longrightarrow> written_read CBB_add_u8 CBS_get_u8 mal b bs) \<and>
    (2 * length hs \<le> length b \<longrightarrow> written_read CBB_add_u16 CBS_get_u16 mal b hs) \<and>
    (3 * length ts \<le> length b \<and> (\<forall>t \<in> set ts. unat t < 2 ^ 24) \<longrightarrow> written_read CBB_add_u24 CBS_get_u24 mal b ts) \<and>
    (4 * length ws \<le> length b \<longrightarrow> written_read CBB_add_u32 CBS_get_u32 mal b ws) \<and>
    (8 * length ds \<le> length b \<longrightarrow> written_read CBB_add_u64 CBS_get_u64 mal b ds)"
proof (intro conjI impI)
  assume "length bs \<le> length b"
  with u8.roundtrip [OF assms(1) _ _ assms(2), of bs] show "written_read CBB_add_u8 CBS_get_u8 mal b bs"
    by (auto simp: written_read_def list_all_iff)
next
  assume "2 * length hs \<le> length b"
  with u16.roundtrip [OF assms(1) _ _ assms(2), of hs] show "written_read CBB_add_u16 CBS_get_u16 mal b hs"
    by (auto simp: written_read_def list_all_iff length_concat_const)
next
  assume "3 * length ts \<le> length b \<and> (\<forall>t \<in> set ts. unat t < 2 ^ 24)"
  with u24.roundtrip [OF assms(1) _ _ assms(2), of ts] show "written_read CBB_add_u24 CBS_get_u24 mal b ts"
    by (auto simp: written_read_def list_all_iff length_concat_const)
next
  assume "4 * length ws \<le> length b"
  with u32.roundtrip [OF assms(1) _ _ assms(2), of ws] show "written_read CBB_add_u32 CBS_get_u32 mal b ws"
    by (auto simp: written_read_def list_all_iff length_concat_const)
next
  assume "8 * length ds \<le> length b"
  with u64.roundtrip [OF assms(1) _ _ assms(2), of ds] show "written_read CBB_add_u64 CBS_get_u64 mal b ds"
    by (auto simp: written_read_def list_all_iff length_concat_const)
qed

text \<open>An allocator that serves every request with zeroed memory.\<close>

definition zero_malloc :: malloc where
  "zero_malloc n = Some (replicate n 0)"

lemma zero_malloc_sized: "malloc_sized zero_malloc"
  by (simp add: malloc_sized_def zero_malloc_def)

theorem cbb_integers_roundtrip_witness:
  "written_read CBB_add_u16 CBS_get_u16 zero_malloc (replicate 6 0) [1, 0xffff, 0x0203]"
  using cbb_integers_roundtrip [OF zero_malloc_sized, of "replicate 6 0" "[]" "[1, 0xffff, 0x0203]" "[]" "[]" "[]"]
  by simp

text \<open>
  Length prefixes: strings written through children with 8, 16 or 24-bit length prefixes, each
  short enough for its prefix, are read back by the length-prefixed readers. The prefix is left
  open while the contents are written and filled in when the parent is flushed.
\<close>

theorem cbb_length_prefixed_roundtrip:
  assumes "malloc_sized mal" and "length b < 2 ^ 62"
    and "sum_list (map length ds) + n * length ds \<le> length b"
    and "\<forall>d \<in> set ds. length d < 256 ^ n"
    and "(n, get) \<in> {(1, CBS_get_u8_length_prefixed), (2, CBS_get_u16_length_prefixed),
                     (3, CBS_get_u24_length_prefixed)}"
  shows "written_read (put_prefixed n) get mal b ds"
proof -
  have len: "length (concat (map (\<lambda>d. be_bytes n (length d) @ d) ds)) \<le> length b"
    using assms(3) by (simp add: length_concat comp_def sum_list_addf sum_list_triv ac_simps)
  have v: "list_all (\<lambda>d. length d < 256 ^ n) ds" using assms(4) by (simp add: list_all_iff)
  from assms(5) consider "n = 1" "get = CBS_get_u8_length_prefixed" | "n = 2" "get = CBS_get_u16_length_prefixed"
    | "n = 3" "get = CBS_get_u24_length_prefixed" by auto
  then show ?thesis
  proof cases
    case 1
    from lp8.roundtrip [OF assms(1) v [unfolded 1] len [unfolded 1] assms(2)] show ?thesis
      unfolding 1 written_read_def by blast
  next
    case 2
    from lp16.roundtrip [OF assms(1) v [unfolded 2] len [unfolded 2] assms(2)] show ?thesis
      unfolding 2 written_read_def by blast
  next
    case 3
    from lp24.roundtrip [OF assms(1) v [unfolded 3] len [unfolded 3] assms(2)] show ?thesis
      unfolding 3 written_read_def by blast
  qed
qed

theorem cbb_length_prefixed_roundtrip_witness:
  "written_read (put_prefixed 2) CBS_get_u16_length_prefixed zero_malloc (replicate 10 0) [[1, 2], [], [3]]"
  by (rule cbb_length_prefixed_roundtrip [OF zero_malloc_sized]) simp_all

text \<open>
  ASN.1 values: unsigned integers, octet strings and booleans added by \<open>CBB_add_asn1_uint64\<close>,
  \<open>CBB_add_asn1_octet_string\<close> and \<open>CBB_add_asn1_bool\<close> are written as DER (minimal identifier, length
  and contents, whatever the size of the contents) and read back by the strict DER readers.
\<close>

theorem cbb_asn1_roundtrip:
  assumes "malloc_sized mal" and "length b < 2 ^ 62"
  shows "(length (concat (map (\<lambda>v. der_header CBS_ASN1_INTEGER (length (der_uint (unat v))) @ der_uint (unat v)) us))
           \<le> length b \<longrightarrow> written_read CBB_add_asn1_uint64 CBS_get_asn1_uint64 mal b us) \<and>
    (length (concat (map (\<lambda>d. der_header CBS_ASN1_OCTETSTRING (length d) @ d) ds)) \<le> length b \<and>
       (\<forall>d \<in> set ds. length d \<le> 0xfffffffe) \<longrightarrow>
       written_read CBB_add_asn1_octet_string (\<lambda>cbs. CBS_get_asn1 cbs CBS_ASN1_OCTETSTRING) mal b ds) \<and>
    (length (concat (map (\<lambda>b. der_header CBS_ASN1_BOOLEAN 1 @ [if b then 0xff else 0 :: byte]) ps)) \<le> length b \<longrightarrow>
       written_read (\<lambda>mal cbb b. CBB_add_asn1_bool mal cbb (if b then 1 else 0)) CBS_get_asn1_bool mal b ps)"
proof (intro conjI impI)
  assume "length (concat (map (\<lambda>v. der_header CBS_ASN1_INTEGER (length (der_uint (unat v))) @ der_uint (unat v)) us)) \<le> length b"
  from asn1_uint64.roundtrip [OF assms(1) _ this assms(2)]
  show "written_read CBB_add_asn1_uint64 CBS_get_asn1_uint64 mal b us"
    unfolding written_read_def by (auto simp: list_all_iff)
next
  assume a: "length (concat (map (\<lambda>d. der_header CBS_ASN1_OCTETSTRING (length d) @ d) ds)) \<le> length b \<and>
    (\<forall>d \<in> set ds. length d \<le> 0xfffffffe)"
  then have "list_all (\<lambda>d. length d \<le> 0xfffffffe) ds" by (simp add: list_all_iff)
  from octet_string.roundtrip [OF assms(1) this _ assms(2)] a
  show "written_read CBB_add_asn1_octet_string (\<lambda>cbs. CBS_get_asn1 cbs CBS_ASN1_OCTETSTRING) mal b ds"
    unfolding written_read_def by blast
next
  assume "length (concat (map (\<lambda>b. der_header CBS_ASN1_BOOLEAN 1 @ [if b then 0xff else 0 :: byte]) ps)) \<le> length b"
  from asn1_bool.roundtrip [OF assms(1) _ this assms(2)]
  show "written_read (\<lambda>mal cbb b. CBB_add_asn1_bool mal cbb (if b then 1 else 0)) CBS_get_asn1_bool mal b ps"
    unfolding written_read_def by (auto simp: list_all_iff)
qed

theorem cbb_asn1_roundtrip_witness:
  "written_read CBB_add_asn1_uint64 CBS_get_asn1_uint64 zero_malloc (replicate 8 0) [0, 0x80] \<and>
   written_read CBB_add_asn1_octet_string (\<lambda>cbs. CBS_get_asn1 cbs CBS_ASN1_OCTETSTRING) zero_malloc (replicate 8 0) [[7], []]"
proof -
  have "length (concat (map (\<lambda>v. der_header CBS_ASN1_INTEGER (length (der_uint (unat v))) @ der_uint (unat v))
      [0 :: u64, 0x80])) \<le> length (replicate 8 (0 :: byte))"
    by (simp add: der_header_def der_tag_def tag_no_def tag_class_def CBS_ASN1_INTEGER_def der_len_def
        der_uint_def be_min_pos)
  moreover have "length (concat (map (\<lambda>d. der_header CBS_ASN1_OCTETSTRING (length d) @ d) [[7 :: byte], []]))
      \<le> length (replicate 8 (0 :: byte))"
    by (simp add: der_header_def der_tag_def tag_no_def tag_class_def CBS_ASN1_OCTETSTRING_def der_len_def)
  ultimately show ?thesis
    using cbb_asn1_roundtrip [OF zero_malloc_sized, of "replicate 8 0" "[0, 0x80]" "[[7], []]" "[]"] by simp
qed

text \<open>
  Errors stick: once the error bit of the buffer is set, or a child has lost its buffer because
  its parent was used, every operation through that reference fails and changes nothing.
\<close>

theorem cbb_error_sticky:
  assumes "error (base s) \<or> cbb_get_base cbb (kids s) = None"
  shows "CBB_flush mal cbb s = (None, s) \<and> CBB_add_bytes mal cbb data s = (None, s) \<and>
    CBB_add_zeros mal cbb n s = (None, s) \<and> cbb_add_u mal cbb v n s = (None, s) \<and>
    CBB_reserve mal cbb n s = (None, s) \<and> cbb_add_length_prefixed mal cbb i n s = (None, s) \<and>
    CBB_add_asn1 mal cbb i tag s = (None, s) \<and> CBB_finish mal cbb s = (None, s)"
proof -
  have f: "CBB_flush mal cbb s = (None, s)"
    using assms by (cases "cbb_get_base cbb (kids s)") (auto simp: CBB_flush_def)
  then show ?thesis
    by (cases cbb) (simp_all add: CBB_add_bytes_def CBB_add_zeros_def CBB_add_space_def cbb_add_u_def
        CBB_reserve_def cbb_add_length_prefixed_def CBB_add_asn1_def CBB_finish_def)
qed

theorem cbb_error_sticky_witness:
  "CBB_add_bytes zero_malloc Top [1]
     (snd (CBB_add_bytes zero_malloc Top [1, 2, 3] (CBB_init_fixed [0, 0] 2))) =
   (None, snd (CBB_add_bytes zero_malloc Top [1, 2, 3] (CBB_init_fixed [0, 0] 2)))"
proof -
  have "error (base (snd (CBB_add_bytes zero_malloc Top [1, 2, 3] (CBB_init_fixed [0, 0] 2))))"
    by (simp add: CBB_exec_simps)
  then show ?thesis using cbb_error_sticky by blast
qed

text \<open>
  A child dies with the next use of its parent: after any successful operation that flushes a
  reference, the children that were pending below it have no buffer, so writing through them fails.
\<close>

theorem cbb_child_closed_by_parent:
  assumes "cbb_get_base cbb (kids s) = Some (pre, sub)" and "CBB_add_bytes mal cbb data s = (Some (), s')"
    and "i \<in> fst ` set sub" and "i \<notin> fst ` set pre"
  shows "kids s' = pre \<and> CBB_add_bytes mal (Child i) more_data s' = (None, s')"
proof -
  have "kids s' = pre"
    using assms(1,2) by (auto simp: CBB_add_bytes_def CBB_add_space_def CBB_flush_def on_base_def Let_def
        split: if_splits prod.splits option.splits elim!: and_then_SomeE)
  moreover have "i \<notin> fst ` set ks \<Longrightarrow> cbb_get_base (Child i) ks = None" for ks :: "(nat \<times> cbb_child) list"
    by (induction ks) auto
  ultimately have "cbb_get_base (Child i) (kids s') = None" using assms(4) by simp
  then have "CBB_flush mal (Child i) s' = (None, s')" by (simp add: CBB_flush_def)
  then show ?thesis using \<open>kids s' = pre\<close> by (simp add: CBB_add_bytes_def CBB_add_space_def)
qed

theorem cbb_child_closed_by_parent_witness:
  "\<exists>s s'. kids s = [(7, \<lparr>offset = 0, pending_len_len = 1, pending_is_asn1 = False\<rparr>)] \<and>
     CBB_add_bytes zero_malloc Top [9] s = (Some (), s') \<and>
     CBB_add_bytes zero_malloc (Child 7) [1] s' = (None, s')"
proof -
  let ?s = "snd (CBB_add_u8_length_prefixed zero_malloc Top 7 (CBB_init_fixed [0, 0, 0, 0] 4))"
  have k: "kids ?s = [(7, \<lparr>offset = 0, pending_len_len = 1, pending_is_asn1 = False\<rparr>)]"
    by (simp add: CBB_exec_simps)
  have "fst (CBB_add_bytes zero_malloc Top [9] ?s) = Some ()" by (simp add: CBB_exec_simps)
  then obtain s' where s': "CBB_add_bytes zero_malloc Top [9] ?s = (Some (), s')" by (metis prod.collapse)
  have "cbb_get_base Top (kids ?s) = Some ([], kids ?s)" by simp
  from cbb_child_closed_by_parent [OF this s', of 7 "[1]"] k s' show ?thesis by auto
qed

text \<open>
  A fixed buffer is never overrun: adding bytes that do not fit fails, sets the error bit and
  leaves the buffer and its length as they were.
\<close>

theorem cbb_fixed_full:
  assumes "ready cbb s" and "\<not> can_resize (base s)" and "length data < 2 ^ 64"
    and "blen (base s) + length data > cap (base s)"
  shows "CBB_add_bytes mal cbb data s = (None, s\<lparr>base := (base s)\<lparr>error := True\<rparr>\<rparr>)"
proof -
  let ?n = "blen (base s) + length data"
  have "blen (base s) < 2 ^ 64" using assms(1) by (simp add: ready_def wf_buffer_def)
  then have "?n mod 2 ^ 64 = (if ?n < 2 ^ 64 then ?n else ?n - 2 ^ 64)"
    using assms(3) by (simp add: mod_if le_mod_geq)
  then have "size_add (blen (base s)) (length data) < blen (base s) \<or>
      size_add (blen (base s)) (length data) > cap (base s)"
    using assms(3,4) by (auto simp: size_add_def)
  then show ?thesis
    using assms(1,2) by (auto simp: CBB_add_bytes_def CBB_add_space_def on_base_def cbb_buffer_add_def
        cbb_buffer_reserve_def Let_def)
qed

theorem cbb_fixed_full_witness:
  "CBB_add_bytes zero_malloc Top [1, 2, 3] (CBB_init_fixed [0, 0] 2) =
   (None, (CBB_init_fixed [0, 0] 2)\<lparr>base := (base (CBB_init_fixed [0, 0] 2))\<lparr>error := True\<rparr>\<rparr>)"
proof (rule cbb_fixed_full)
  show "ready Top (CBB_init_fixed [0, 0] 2)" 
    by (simp add: ready_def CBB_init_fixed_def cbb_init_def wf_buffer_def)
qed (simp_all add: CBB_init_fixed_def cbb_init_def)

end
