(* ===== verification/Unicode.thy ===== *)
theory Unicode
  imports Cbb_Props
begin

text \<open>
  Character encodings of the byte-string library (crypto/bytestring/unicode.c): UTF-8,
  Latin-1, UCS-2 and UTF-32, reading from a \<open>CBS\<close> and writing to a \<open>CBB\<close>. A code point is a
  \<open>uint32_t\<close>.
\<close>

section \<open>Definitions\<close>

definition is_valid_code_point :: "u32 \<Rightarrow> bool" where
  "is_valid_code_point v =
     (\<not> (v > 0x10ffff \<or> v AND 0xfffe = 0xfffe \<or> (v \<ge> 0xfdd0 \<and> v \<le> 0xfdef) \<or> (v \<ge> 0xd800 \<and> v \<le> 0xdfff)))"

definition BOTTOM_BITS :: "nat \<Rightarrow> byte" where
  "BOTTOM_BITS n = push_bit n 1 - 1"

definition TOP_BITS :: "nat \<Rightarrow> byte" where
  "TOP_BITS n = NOT (BOTTOM_BITS (8 - n))"

text \<open>The loop over the continuation bytes.\<close>

fun utf8_continuation :: "nat \<Rightarrow> u32 \<Rightarrow> CBS \<Rightarrow> u32 option \<times> CBS" where
  "utf8_continuation 0 v cbs = (Some v, cbs)"
| "utf8_continuation (Suc n) v cbs =
     and_then (CBS_get_u8 cbs) (\<lambda>c cbs1.
       if c AND TOP_BITS 2 \<noteq> TOP_BITS 1 then (None, cbs1)
       else utf8_continuation n (push_bit 6 v OR ucast (c AND BOTTOM_BITS 6)) cbs1)"

definition CBS_get_utf8 :: "CBS \<Rightarrow> u32 option \<times> CBS" where
  "CBS_get_utf8 cbs =
     and_then (CBS_get_u8 cbs) (\<lambda>c cbs1.
       if c \<le> 0x7f then (Some (ucast c), cbs1)
       else
         case (if c AND TOP_BITS 3 = TOP_BITS 2 then Some (ucast (c AND BOTTOM_BITS 5), 1, 0x80)
               else if c AND TOP_BITS 4 = TOP_BITS 3 then Some (ucast (c AND BOTTOM_BITS 4), 2, 0x800)
               else if c AND TOP_BITS 5 = TOP_BITS 4 then Some (ucast (c AND BOTTOM_BITS 3), 3, 0x10000)
               else None) of
           None \<Rightarrow> (None, cbs1)
         | Some (v0, len, lower_bound) \<Rightarrow>
             and_then (utf8_continuation len v0 cbs1) (\<lambda>v cbs2.
               if \<not> is_valid_code_point v \<or> v < lower_bound then (None, cbs2) else (Some v, cbs2)))"

definition CBS_get_latin1 :: "CBS \<Rightarrow> u32 option \<times> CBS" where
  "CBS_get_latin1 cbs = and_then (CBS_get_u8 cbs) (\<lambda>c cbs1. (Some (ucast c), cbs1))"

definition CBS_get_ucs2_be :: "CBS \<Rightarrow> u32 option \<times> CBS" where
  "CBS_get_ucs2_be cbs =
     and_then (CBS_get_u16 cbs) (\<lambda>c cbs1.
       if \<not> is_valid_code_point (ucast c) then (None, cbs1) else (Some (ucast c), cbs1))"

definition CBS_get_utf32_be :: "CBS \<Rightarrow> u32 option \<times> CBS" where
  "CBS_get_utf32_be cbs =
     and_then (CBS_get_u32 cbs) (\<lambda>v cbs1. if is_valid_code_point v then (Some v, cbs1) else (None, cbs1))"

definition CBB_get_utf8_len :: "u32 \<Rightarrow> nat" where
  "CBB_get_utf8_len u = (if u \<le> 0x7f then 1 else if u \<le> 0x7ff then 2 else if u \<le> 0xffff then 3 else 4)"

text \<open>The bytes of the cases of \<open>CBB_add_utf8\<close>: C promotes to \<open>int\<close> and truncates to \<open>uint8_t\<close>.\<close>

definition utf8_lead :: "nat \<Rightarrow> nat \<Rightarrow> u32 \<Rightarrow> byte" where
  "utf8_lead n sh u = ucast (ucast (TOP_BITS n) OR drop_bit sh u)"

definition utf8_tail :: "nat \<Rightarrow> u32 \<Rightarrow> byte" where
  "utf8_tail sh u = ucast (ucast (TOP_BITS 1) OR (drop_bit sh u AND ucast (BOTTOM_BITS 6)))"

definition CBB_add_utf8 :: "malloc \<Rightarrow> CBB_ref \<Rightarrow> u32 \<Rightarrow> CBB \<Rightarrow> unit option \<times> CBB" where
  "CBB_add_utf8 mal cbb u s =
     (if \<not> is_valid_code_point u then (None, s)
      else if u \<le> 0x7f then CBB_add_u8 mal cbb (ucast u) s
      else if u \<le> 0x7ff then
        and_then (CBB_add_u8 mal cbb (utf8_lead 2 6 u) s) (\<lambda>_ s1.
          CBB_add_u8 mal cbb (utf8_tail 0 u) s1)
      else if u \<le> 0xffff then
        and_then (CBB_add_u8 mal cbb (utf8_lead 3 12 u) s) (\<lambda>_ s1.
        and_then (CBB_add_u8 mal cbb (utf8_tail 6 u) s1) (\<lambda>_ s2.
          CBB_add_u8 mal cbb (utf8_tail 0 u) s2))
      else if u \<le> 0x10ffff then
        and_then (CBB_add_u8 mal cbb (utf8_lead 4 18 u) s) (\<lambda>_ s1.
        and_then (CBB_add_u8 mal cbb (utf8_tail 12 u) s1) (\<lambda>_ s2.
        and_then (CBB_add_u8 mal cbb (utf8_tail 6 u) s2) (\<lambda>_ s3.
          CBB_add_u8 mal cbb (utf8_tail 0 u) s3)))
      else (None, s))"

definition CBB_add_latin1 :: "malloc \<Rightarrow> CBB_ref \<Rightarrow> u32 \<Rightarrow> CBB \<Rightarrow> unit option \<times> CBB" where
  "CBB_add_latin1 mal cbb u s = (if u \<le> 0xff then CBB_add_u8 mal cbb (ucast u) s else (None, s))"

definition CBB_add_ucs2_be :: "malloc \<Rightarrow> CBB_ref \<Rightarrow> u32 \<Rightarrow> CBB \<Rightarrow> unit option \<times> CBB" where
  "CBB_add_ucs2_be mal cbb u s =
     (if u \<le> 0xffff \<and> is_valid_code_point u then CBB_add_u16 mal cbb (ucast u) s else (None, s))"

definition CBB_add_utf32_be :: "malloc \<Rightarrow> CBB_ref \<Rightarrow> u32 \<Rightarrow> CBB \<Rightarrow> unit option \<times> CBB" where
  "CBB_add_utf32_be mal cbb u s =
     (if is_valid_code_point u then CBB_add_u32 mal cbb u s else (None, s))"

section \<open>The bit masks\<close>

lemma unat_bottom: "unat (c AND BOTTOM_BITS n) = unat c mod 2 ^ n"
proof -
  have m: "BOTTOM_BITS n = mask n" by (simp add: BOTTOM_BITS_def mask_eq_exp_minus_1)
  show ?thesis unfolding m by (rule unat_and_mask)
qed

lemma and_not_mask: "w AND NOT (mask k) = push_bit k (drop_bit k w)" for w :: "'a::len word"
  by (rule bit_word_eqI) (auto simp: bit_and_iff bit_not_iff bit_mask_iff bit_push_bit_iff bit_drop_bit_eq)

lemma unat_top: "unat (c AND TOP_BITS n) = unat c div 2 ^ (8 - n) * 2 ^ (8 - n)"
proof -
  have m: "TOP_BITS n = NOT (mask (8 - n))" by (simp add: TOP_BITS_def BOTTOM_BITS_def mask_eq_exp_minus_1)
  have "unat c div 2 ^ (8 - n) * 2 ^ (8 - n) \<le> unat c" by simp
  also have "\<dots> < 2 ^ LENGTH(8)" by simp
  finally show ?thesis unfolding m and_not_mask by (simp only: unat_push_bit unat_drop_bit mod_less)
qed

lemma top_bits_values: "TOP_BITS 1 = 0x80" "TOP_BITS (Suc 0) = 0x80" "TOP_BITS 2 = 0xc0" "TOP_BITS 3 = 0xe0" "TOP_BITS 4 = 0xf0"
  by (simp_all add: TOP_BITS_def BOTTOM_BITS_def)

lemma div_range: "n div k = q \<longleftrightarrow> k * q \<le> n \<and> n < k * q + k" if "0 < k" for n k q :: nat
proof
  show "k * q \<le> n \<and> n < k * q + k" if "n div k = q"
    using dividend_less_div_times [OF \<open>0 < k\<close>, of n] that by (auto simp: mult.commute add.commute)
qed (auto simp: div_nat_eqI mult.commute)

lemma mod_range: "n mod k = n - k * q" if "k * q \<le> n" "n < k * q + k" for n k q :: nat
proof -
  have "n div k = q" using that by (cases "k = 0") (simp_all add: div_range)
  then show ?thesis by (metis minus_mult_div_eq_mod)
qed

lemma byte_class:
  "c AND TOP_BITS 2 = TOP_BITS 1 \<longleftrightarrow> unat c div 64 = 2"
  "c AND TOP_BITS 3 = TOP_BITS 2 \<longleftrightarrow> 192 \<le> unat c \<and> unat c < 224"
  "c AND TOP_BITS 4 = TOP_BITS 3 \<longleftrightarrow> 224 \<le> unat c \<and> unat c < 240"
  "c AND TOP_BITS 5 = TOP_BITS 4 \<longleftrightarrow> 240 \<le> unat c \<and> unat c < 248"
  using unat_top [of c 2] unat_top [of c 3] unat_top [of c 4] unat_top [of c 5]
    div_range [of 32 "unat c" 6] div_range [of 16 "unat c" 14] div_range [of 8 "unat c" 30]
  by (simp_all add: word_unat_eq_iff top_bits_values)

section \<open>The reference encoding\<close>

definition utf8_enc :: "nat \<Rightarrow> byte list" where
  "utf8_enc u =
     (if u < 0x80 then [byte_of u]
      else if u < 0x800 then [byte_of (192 + u div 64), byte_of (128 + u mod 64)]
      else if u < 0x10000 then [byte_of (224 + u div 4096), byte_of (128 + u div 64 mod 64), byte_of (128 + u mod 64)]
      else [byte_of (240 + u div 262144), byte_of (128 + u div 4096 mod 64), byte_of (128 + u div 64 mod 64),
            byte_of (128 + u mod 64)])"

lemma or_high:
  fixes x :: u32
  assumes "unat x < 2 ^ k" and "h * 2 ^ k + 2 ^ k \<le> 256" and "t = byte_of (h * 2 ^ k)"
  shows "(ucast (ucast t OR x) :: byte) = byte_of (h * 2 ^ k + unat x)"
proof -
  have one: "1 \<le> (2 :: nat) ^ k" by simp
  then have h: "h * 2 ^ k < 256" using assms(2) by linarith
  then have t: "unat (ucast t :: u32) = h * 2 ^ k" using assms(3) by simp
  have "h * 1 \<le> h * 2 ^ k" using one by (intro mult_le_mono2)
  then have "h < 256" using h by linarith
  then have hk: "h < 2 ^ 32" by simp
  have "ucast t = push_bit k (of_nat h :: u32)"
    using t h hk by (simp add: word_unat_eq_iff unat_push_bit unat_of_nat_less)
  then have "unat (ucast t OR x) = unat x + h * 2 ^ k"
    using unat_or_push_bit [of x k "of_nat h"] assms(1,2) h hk by (simp add: or.commute unat_of_nat_less)
  moreover have "unat x + h * 2 ^ k < 256" using assms(1,2) by linarith
  ultimately show ?thesis by (simp add: byte_eq_iff unat_ucast_mod add.commute)
qed

lemma utf8_lead_eq:
  "unat u < 0x800 \<Longrightarrow> utf8_lead 2 6 u = byte_of (192 + unat u div 64)"
  "unat u < 0x10000 \<Longrightarrow> utf8_lead 3 12 u = byte_of (224 + unat u div 4096)"
  "unat u < 0x110000 \<Longrightarrow> utf8_lead 4 18 u = byte_of (240 + unat u div 262144)"
proof -
  show "utf8_lead 2 6 u = byte_of (192 + unat u div 64)" if "unat u < 0x800"
    using or_high [of "drop_bit 6 u" 5 6 "TOP_BITS 2"] that unat_drop_bit [of 6 u]
    by (simp add: utf8_lead_def top_bits_values byte_eq_iff div_less_iff_less_mult)
  show "utf8_lead 3 12 u = byte_of (224 + unat u div 4096)" if "unat u < 0x10000"
    using or_high [of "drop_bit 12 u" 4 14 "TOP_BITS 3"] that unat_drop_bit [of 12 u]
    by (simp add: utf8_lead_def top_bits_values byte_eq_iff div_less_iff_less_mult)
  show "utf8_lead 4 18 u = byte_of (240 + unat u div 262144)" if "unat u < 0x110000"
    using or_high [of "drop_bit 18 u" 3 30 "TOP_BITS 4"] that unat_drop_bit [of 18 u]
    by (simp add: utf8_lead_def top_bits_values byte_eq_iff div_less_iff_less_mult)
qed

lemma utf8_tail_eq: "utf8_tail sh u = byte_of (128 + unat u div 2 ^ sh mod 64)"
proof -
  have "unat (drop_bit sh u AND mask 6) = unat u div 2 ^ sh mod 2 ^ 6"
    by (simp only: unat_and_mask unat_drop_bit)
  moreover have "(ucast (BOTTOM_BITS 6) :: u32) = mask 6"
    by (simp add: BOTTOM_BITS_def mask_eq_exp_minus_1)
  ultimately show ?thesis
    using or_high [of "drop_bit sh u AND ucast (BOTTOM_BITS 6)" 6 2 "TOP_BITS 1"]
    by (simp add: utf8_tail_def top_bits_values byte_eq_iff)
qed

lemma valid_bound: "is_valid_code_point u \<Longrightarrow> unat u < 0x110000"
  by (auto simp: is_valid_code_point_def word_less_nat_alt)

lemma ascii_valid: "unat u < 0x80 \<Longrightarrow> is_valid_code_point u"
proof -
  assume a: "unat u < 0x80"
  have "unat (u AND 0xfffe) \<le> unat u" using word_and_le2 [of u "0xfffe"] by (simp add: word_le_nat_alt)
  with a have "u AND 0xfffe \<noteq> 0xfffe" by auto
  then show ?thesis using a by (auto simp: is_valid_code_point_def word_less_nat_alt word_le_nat_alt)
qed

lemma utf8_emits:
  assumes m: "malloc_sized mal" and v: "is_valid_code_point u"
  shows "emits mal (CBB_add_utf8 mal cbb u) cbb (utf8_enc (unat u))"
proof -
  note e = u8.put_emits [OF m TrueI, of cbb]
  note seq = emits_seq [OF e]
  have b: "unat u < 0x110000" using v by (rule valid_bound)
  consider "unat u < 0x80" | "0x80 \<le> unat u" "unat u < 0x800" | "0x800 \<le> unat u" "unat u < 0x10000"
    | "0x10000 \<le> unat u" by linarith
  then show ?thesis
  proof cases
    case 1
    then have "CBB_add_utf8 mal cbb u = CBB_add_u8 mal cbb (byte_of (unat u))"
      using v by (intro ext) (simp add: CBB_add_utf8_def word_le_nat_alt byte_of_def)
    then show ?thesis using e 1 by (simp add: utf8_enc_def)
  next
    case 2
    then have "CBB_add_utf8 mal cbb u = (\<lambda>s. and_then (CBB_add_u8 mal cbb (byte_of (192 + unat u div 64)) s)
        (\<lambda>_ s1. CBB_add_u8 mal cbb (byte_of (128 + unat u mod 64)) s1))"
      using v by (intro ext) (simp add: CBB_add_utf8_def word_le_nat_alt utf8_lead_eq utf8_tail_eq)
    then show ?thesis using seq [OF e] 2 by (simp add: utf8_enc_def)
  next
    case 3
    then have "CBB_add_utf8 mal cbb u = (\<lambda>s. and_then (CBB_add_u8 mal cbb (byte_of (224 + unat u div 4096)) s)
        (\<lambda>_ s. and_then (CBB_add_u8 mal cbb (byte_of (128 + unat u div 64 mod 64)) s)
        (\<lambda>_ s. CBB_add_u8 mal cbb (byte_of (128 + unat u mod 64)) s)))"
      using v by (intro ext) (simp add: CBB_add_utf8_def word_le_nat_alt utf8_lead_eq utf8_tail_eq)
    then show ?thesis using seq [OF seq [OF e]] 3 by (simp add: utf8_enc_def)
  next
    case 4
    then have "CBB_add_utf8 mal cbb u = (\<lambda>s. and_then (CBB_add_u8 mal cbb (byte_of (240 + unat u div 262144)) s)
        (\<lambda>_ s. and_then (CBB_add_u8 mal cbb (byte_of (128 + unat u div 4096 mod 64)) s)
        (\<lambda>_ s. and_then (CBB_add_u8 mal cbb (byte_of (128 + unat u div 64 mod 64)) s)
        (\<lambda>_ s. CBB_add_u8 mal cbb (byte_of (128 + unat u mod 64)) s))))"
      using v b by (intro ext) (simp add: CBB_add_utf8_def word_le_nat_alt utf8_lead_eq utf8_tail_eq)
    then show ?thesis using seq [OF seq [OF seq [OF e]]] 4 by (simp add: utf8_enc_def)
  qed
qed

section \<open>Reading UTF-8\<close>

lemma cont_step:
  fixes v :: u32
  assumes "unat v < 2 ^ 26"
  shows "unat (push_bit 6 v OR ucast (c AND BOTTOM_BITS 6)) = unat v * 64 + unat c mod 64"
proof -
  have x: "unat (ucast (c AND BOTTOM_BITS 6) :: u32) = unat c mod 64" by (simp add: unat_bottom)
  have "unat c mod 64 + unat v * 2 ^ 6 < 2 ^ LENGTH(32)"
  proof -
    have "unat v \<le> 2 ^ 26 - 1" "unat c mod 64 \<le> 63" using assms by simp_all
    then have "unat c mod 64 + unat v * 64 \<le> 63 + (2 ^ 26 - 1) * 64" by (intro add_mono mult_mono) simp_all
    then show ?thesis by simp
  qed
  then show ?thesis
    using unat_or_push_bit [of "ucast (c AND BOTTOM_BITS 6) :: u32" 6 v] x by (simp add: or.commute)
qed

lemma cont_byte: "unat c div 64 = 2 \<Longrightarrow> byte_of (128 + unat c mod 64) = c"
  by (metis byte_of_unat mult_numeral_left_semiring_numeral div_mult_mod_eq numeral_times_numeral mult.commute num_double)

lemma utf8_continuation_iff:
  assumes "(unat v + 1) * 64 ^ n \<le> 2 ^ 26"
  shows "utf8_continuation n v cbs = (Some w, rest) \<longleftrightarrow>
    unat w div 64 ^ n = unat v \<and>
    cbs = map (\<lambda>i. byte_of (128 + unat w div 64 ^ i mod 64)) (rev [0..<n]) @ rest"
  using assms
proof (induction n arbitrary: v cbs)
  case 0
  show ?case by (auto simp: word_unat_eq_iff)
next
  case (Suc n)
  show ?case
  proof (cases cbs)
    case (Cons c cs)
    let ?v' = "push_bit 6 v OR ucast (c AND BOTTOM_BITS 6) :: u32" and ?x = "unat w div 64 ^ n mod 64"
    have "(unat v + 1) * 1 \<le> (unat v + 1) * 64 ^ Suc n" by (intro mult_le_mono2) simp
    from le_trans [OF this Suc.prems] have "unat v < 2 ^ 26" by simp
    then have v': "unat ?v' = unat v * 64 + unat c mod 64" by (rule cont_step)
    have "x + 1 \<le> (y + 1) * 64" if "x = y * 64 + z" "z < 64" for x y z :: nat using that by simp
    from this [OF v'] have "unat ?v' + 1 \<le> (unat v + 1) * 64" by simp
    then have "(unat ?v' + 1) * 64 ^ n \<le> (unat v + 1) * 64 * 64 ^ n" by (rule mult_le_mono1)
    also have "\<dots> = (unat v + 1) * 64 ^ Suc n" by (simp only: power_Suc mult.assoc)
    also note Suc.prems
    finally have "(unat ?v' + 1) * 64 ^ n \<le> 2 ^ 26" .
    note IH = Suc.IH [OF this, of cs]
    have "unat w div 64 ^ n = unat ?v' \<and> unat c div 64 = 2 \<longleftrightarrow>
        unat w div 64 ^ Suc n = unat v \<and> c = byte_of (128 + ?x)"
    proof
      assume a: "unat w div 64 ^ n = unat ?v' \<and> unat c div 64 = 2"
      then have "?x = unat c mod 64" using v' by simp
      moreover have "unat w div 64 ^ Suc n = unat w div 64 ^ n div 64"
        by (simp add: div_mult2_eq [symmetric] mult.commute)
      ultimately show "unat w div 64 ^ Suc n = unat v \<and> c = byte_of (128 + ?x)"
        using a v' cont_byte [of c] by simp
    next
      assume a: "unat w div 64 ^ Suc n = unat v \<and> c = byte_of (128 + ?x)"
      have x: "?x < 64" by simp
      then have "unat c = 128 + ?x" using a by simp
      then have "unat c mod 64 = ?x" "unat c div 64 = 2"
        using x mod_range [of 64 2 "unat c"] div_range [of 64 "unat c" 2] by simp_all
      moreover have "unat w div 64 ^ n = unat w div 64 ^ n div 64 * 64 + ?x" by simp
      moreover have "unat w div 64 ^ n div 64 = unat v"
        using a by (simp add: div_mult2_eq [symmetric] mult.commute)
      ultimately show "unat w div 64 ^ n = unat ?v' \<and> unat c div 64 = 2" using v' by simp
    qed
    then show ?thesis using Cons IH byte_class(1) [of c] by auto
  qed simp
qed

text \<open>The first byte tells the length of an encoding.\<close>

definition utf8_tails :: "nat \<Rightarrow> nat \<Rightarrow> byte list" where
  "utf8_tails n u = map (\<lambda>i. byte_of (128 + u div 64 ^ i mod 64)) (rev [0..<n])"

lemma utf8_tails_simps:
  "utf8_tails 1 u = [byte_of (128 + u mod 64)]" "utf8_tails (Suc 0) u = [byte_of (128 + u mod 64)]"
  "utf8_tails 2 u = [byte_of (128 + u div 64 mod 64), byte_of (128 + u mod 64)]"
  "utf8_tails 3 u = [byte_of (128 + u div 4096 mod 64), byte_of (128 + u div 64 mod 64), byte_of (128 + u mod 64)]"
  by (simp_all add: utf8_tails_def upt_rec numeral_2_eq_2 numeral_3_eq_3)

lemma utf8_enc_cases:
  assumes "u < 0x110000" and e: "utf8_enc u = c # ds"
  obtains "unat c < 128" "u = unat c" "ds = []"
  | "0x80 \<le> u" "192 \<le> unat c" "unat c < 224" "u div 64 = unat c - 192" "ds = utf8_tails 1 u"
  | "0x800 \<le> u" "224 \<le> unat c" "unat c < 240" "u div 4096 = unat c - 224" "ds = utf8_tails 2 u"
  | "0x10000 \<le> u" "240 \<le> unat c" "unat c < 248" "u div 262144 = unat c - 240" "ds = utf8_tails 3 u"
proof -
  consider "u < 0x80" | "0x80 \<le> u" "u < 0x800" | "0x800 \<le> u" "u < 0x10000" | "0x10000 \<le> u" by linarith
  then show thesis
  proof cases
    case 1
    then show thesis using e that(1) by (auto simp: utf8_enc_def)
  next
    case 2
    then have x: "u div 64 < 32" by (simp add: div_less_iff_less_mult)
    then have c: "unat c = 192 + u div 64" using 2 e by (auto simp: utf8_enc_def)
    show thesis using 2 e x by (intro that(2)) (auto simp: c utf8_enc_def utf8_tails_simps)
  next
    case 3
    then have x: "u div 4096 < 16" by (simp add: div_less_iff_less_mult)
    then have c: "unat c = 224 + u div 4096" using 3 e by (auto simp: utf8_enc_def)
    show thesis using 3 e x by (intro that(3)) (auto simp: c utf8_enc_def utf8_tails_simps)
  next
    case 4
    then have x: "u div 262144 < 8" using assms(1) by (simp add: div_less_iff_less_mult)
    then have c: "unat c = 240 + u div 262144" using 4 e by (auto simp: utf8_enc_def)
    show thesis using 4 e x by (intro that(4)) (auto simp: c utf8_enc_def utf8_tails_simps)
  qed
qed

lemma utf8_enc_split: "c # cs = utf8_enc u @ rest \<Longrightarrow> \<exists>ds. utf8_enc u = c # ds \<and> cs = ds @ rest"
  by (auto simp: utf8_enc_def split: if_splits)

lemma utf8_enc_lead:
  assumes u: "u < 0x110000"
  shows "unat c < 128 \<Longrightarrow> c # cs = utf8_enc u @ rest \<longleftrightarrow> u = unat c \<and> cs = rest"
    and "192 \<le> unat c \<and> unat c < 224 \<Longrightarrow> c # cs = utf8_enc u @ rest \<longleftrightarrow>
      0x80 \<le> u \<and> u div 64 = unat c - 192 \<and> cs = utf8_tails 1 u @ rest"
    and "224 \<le> unat c \<and> unat c < 240 \<Longrightarrow> c # cs = utf8_enc u @ rest \<longleftrightarrow>
      0x800 \<le> u \<and> u div 4096 = unat c - 224 \<and> cs = utf8_tails 2 u @ rest"
    and "240 \<le> unat c \<and> unat c < 248 \<Longrightarrow> c # cs = utf8_enc u @ rest \<longleftrightarrow>
      0x10000 \<le> u \<and> u div 262144 = unat c - 240 \<and> cs = utf8_tails 3 u @ rest"
    and "128 \<le> unat c \<and> unat c < 192 \<or> 248 \<le> unat c \<Longrightarrow> c # cs \<noteq> utf8_enc u @ rest"
proof -
  have fwd: "(unat c < 128 \<longrightarrow> u = unat c \<and> cs = rest) \<and>
      (192 \<le> unat c \<and> unat c < 224 \<longrightarrow> 0x80 \<le> u \<and> u div 64 = unat c - 192 \<and> cs = utf8_tails 1 u @ rest) \<and>
      (224 \<le> unat c \<and> unat c < 240 \<longrightarrow> 0x800 \<le> u \<and> u div 4096 = unat c - 224 \<and> cs = utf8_tails 2 u @ rest) \<and>
      (240 \<le> unat c \<and> unat c < 248 \<longrightarrow> 0x10000 \<le> u \<and> u div 262144 = unat c - 240 \<and> cs = utf8_tails 3 u @ rest) \<and>
      \<not> (128 \<le> unat c \<and> unat c < 192 \<or> 248 \<le> unat c)"
    if eq: "c # cs = utf8_enc u @ rest"
  proof -
    obtain ds where e: "utf8_enc u = c # ds" "cs = ds @ rest" using utf8_enc_split [OF eq] by blast
    from u e(1) show ?thesis by (cases rule: utf8_enc_cases) (simp_all add: e(2))
  qed
  show "c # cs = utf8_enc u @ rest \<longleftrightarrow> u = unat c \<and> cs = rest" if "unat c < 128"
    using that fwd by (auto simp: utf8_enc_def)
  show "c # cs = utf8_enc u @ rest \<longleftrightarrow> 0x80 \<le> u \<and> u div 64 = unat c - 192 \<and> cs = utf8_tails 1 u @ rest"
    if c: "192 \<le> unat c \<and> unat c < 224"
  proof
    assume a: "0x80 \<le> u \<and> u div 64 = unat c - 192 \<and> cs = utf8_tails 1 u @ rest"
    then have "u div 64 < 32" using c by linarith
    then have "u < 0x800" by (simp add: div_less_iff_less_mult)
    then show "c # cs = utf8_enc u @ rest" using a c by (simp add: utf8_enc_def utf8_tails_simps)
  qed (use c fwd in blast)
  show "c # cs = utf8_enc u @ rest \<longleftrightarrow> 0x800 \<le> u \<and> u div 4096 = unat c - 224 \<and> cs = utf8_tails 2 u @ rest"
    if c: "224 \<le> unat c \<and> unat c < 240"
  proof
    assume a: "0x800 \<le> u \<and> u div 4096 = unat c - 224 \<and> cs = utf8_tails 2 u @ rest"
    then have "u div 4096 < 16" using c by linarith
    then have "u < 0x10000" by (simp add: div_less_iff_less_mult)
    then show "c # cs = utf8_enc u @ rest" using a c by (simp add: utf8_enc_def utf8_tails_simps)
  qed (use c fwd in blast)
  show "c # cs = utf8_enc u @ rest \<longleftrightarrow> 0x10000 \<le> u \<and> u div 262144 = unat c - 240 \<and> cs = utf8_tails 3 u @ rest"
    if c: "240 \<le> unat c \<and> unat c < 248"
    using c fwd by (auto simp: utf8_enc_def utf8_tails_simps)
  show "c # cs \<noteq> utf8_enc u @ rest" if "128 \<le> unat c \<and> unat c < 192 \<or> 248 \<le> unat c"
    using that fwd by blast
qed

lemma get_utf8_iff:
  "CBS_get_utf8 cbs = (Some u, rest) \<longleftrightarrow> is_valid_code_point u \<and> cbs = utf8_enc (unat u) @ rest"
proof (cases cbs)
  case Nil
  then show ?thesis by (simp add: CBS_get_utf8_def utf8_enc_def)
next
  case (Cons c cs)
  have step: "and_then (utf8_continuation n v0 cs) (\<lambda>v cbs2.
        if \<not> is_valid_code_point v \<or> v < lb then (None, cbs2) else (Some v, cbs2)) = (Some u, rest) \<longleftrightarrow>
      is_valid_code_point u \<and> unat lb \<le> unat u \<and> unat u div 64 ^ n = unat v0 \<and> cs = utf8_tails n (unat u) @ rest"
    if "(unat v0 + 1) * 64 ^ n \<le> 2 ^ 26" for v0 n lb
    using utf8_continuation_iff [OF that, of cs u rest]
    by (auto simp: utf8_tails_def not_less word_le_nat_alt word_less_nat_alt split: if_splits elim!: and_then_SomeE)
  note bound = valid_bound [of u] and bot = unat_bottom [of c]
  consider "unat c < 128" | "192 \<le> unat c \<and> unat c < 224" | "224 \<le> unat c \<and> unat c < 240"
    | "240 \<le> unat c \<and> unat c < 248" | "128 \<le> unat c \<and> unat c < 192 \<or> 248 \<le> unat c" by linarith
  then show ?thesis
  proof cases
    case 1
    then have "CBS_get_utf8 cbs = (Some u, rest) \<longleftrightarrow> unat u = unat c \<and> cs = rest"
      using Cons by (auto simp: CBS_get_utf8_def word_le_nat_alt word_unat_eq_iff)
    also have "\<dots> \<longleftrightarrow> is_valid_code_point u \<and> unat u = unat c \<and> cs = rest" using 1 ascii_valid [of u] by auto
    finally show ?thesis using Cons utf8_enc_lead(1) [OF bound 1, of cs rest] by auto
  next
    case 2
    then have "unat (ucast (c AND BOTTOM_BITS 5) :: u32) = unat c - 192" using bot [of 5] mod_range [of 32 6 "unat c"] by simp
    moreover have "unat c - 192 \<le> 31" using 2 by linarith
    ultimately have "CBS_get_utf8 cbs = (Some u, rest) \<longleftrightarrow> is_valid_code_point u \<and> 0x80 \<le> unat u \<and>
        unat u div 64 = unat c - 192 \<and> cs = utf8_tails 1 (unat u) @ rest"
      using 2 Cons step [of "ucast (c AND BOTTOM_BITS 5)" 1 "0x80"]
      by (simp add: CBS_get_utf8_def word_le_nat_alt byte_class del: utf8_continuation.simps)
    then show ?thesis using Cons utf8_enc_lead(2) [OF bound 2, of cs rest] by auto
  next
    case 3
    then have "unat (ucast (c AND BOTTOM_BITS 4) :: u32) = unat c - 224" using bot [of 4] mod_range [of 16 14 "unat c"] by simp
    moreover have "unat c - 224 \<le> 15" using 3 by linarith
    ultimately have "CBS_get_utf8 cbs = (Some u, rest) \<longleftrightarrow> is_valid_code_point u \<and> 0x800 \<le> unat u \<and>
        unat u div 4096 = unat c - 224 \<and> cs = utf8_tails 2 (unat u) @ rest"
      using 3 Cons step [of "ucast (c AND BOTTOM_BITS 4)" 2 "0x800"]
      by (simp add: CBS_get_utf8_def word_le_nat_alt byte_class)
    then show ?thesis using Cons utf8_enc_lead(3) [OF bound 3, of cs rest] by auto
  next
    case 4
    then have "unat (ucast (c AND BOTTOM_BITS 3) :: u32) = unat c - 240" using bot [of 3] mod_range [of 8 30 "unat c"] by simp
    moreover have "unat c - 240 \<le> 7" using 4 by linarith
    ultimately have "CBS_get_utf8 cbs = (Some u, rest) \<longleftrightarrow> is_valid_code_point u \<and> 0x10000 \<le> unat u \<and>
        unat u div 262144 = unat c - 240 \<and> cs = utf8_tails 3 (unat u) @ rest"
      using 4 Cons step [of "ucast (c AND BOTTOM_BITS 3)" 3 "0x10000"]
      by (simp add: CBS_get_utf8_def word_le_nat_alt byte_class)
    then show ?thesis using Cons utf8_enc_lead(4) [OF bound 4, of cs rest] by auto
  next
    case 5
    then show ?thesis using utf8_enc_lead(5) [OF bound 5] Cons
      by (auto simp: CBS_get_utf8_def word_le_nat_alt byte_class)
  qed
qed

interpretation utf8: cbb_codec CBB_add_utf8 CBS_get_utf8 "\<lambda>u. utf8_enc (unat u)" is_valid_code_point
proof
  fix u rest assume "is_valid_code_point u"
  then show "CBS_get_utf8 (utf8_enc (unat u) @ rest) = (Some u, rest)"
    by (simp only: get_utf8_iff simp_thms)
qed (rule utf8_emits)

lemma length_utf8_enc: "is_valid_code_point u \<Longrightarrow> length (utf8_enc (unat u)) = CBB_get_utf8_len u"
  by (simp add: utf8_enc_def CBB_get_utf8_len_def word_le_nat_alt)

section \<open>Properties\<close>

text \<open>
  C20. UTF-8: \<open>CBS_get_utf8\<close> returns a code point exactly when the input starts with its shortest
  UTF-8 encoding and the code point is a valid one (no surrogates, no noncharacters, at most
  U+10FFFF); it then stops right after it. Overlong encodings are rejected.
\<close>

theorem CBS_get_utf8_canonical:
  "CBS_get_utf8 cbs = (Some u, rest) \<longleftrightarrow> is_valid_code_point u \<and> cbs = utf8_enc (unat u) @ rest"
  by (rule get_utf8_iff)

text \<open>
  Text written by \<open>CBB_add_utf8\<close>, one valid code point after the other, into a buffer with the
  sum of their \<open>CBB_get_utf8_len\<close> bytes is read back by \<open>CBS_get_utf8\<close>; an invalid code point is
  refused and writes nothing.
\<close>

theorem cbb_utf8_roundtrip:
  assumes "malloc_sized mal" and "length b < 2 ^ 62"
    and "sum_list (map CBB_get_utf8_len us) \<le> length b" and "\<forall>u \<in> set us. is_valid_code_point u"
  shows "written_read CBB_add_utf8 CBS_get_utf8 mal b us \<and>
    (\<forall>u. \<not> is_valid_code_point u \<longrightarrow> CBB_add_utf8 mal cbb u s = (None, s))"
proof -
  have "length (concat (map (\<lambda>u. utf8_enc (unat u)) us)) = sum_list (map CBB_get_utf8_len us)"
    using assms(4) by (simp add: length_concat comp_def length_utf8_enc cong: map_cong)
  then show ?thesis
    using utf8.roundtrip [OF assms(1) _ _ assms(2), of us] assms(3,4)
    unfolding written_read_def by (auto simp: list_all_iff CBB_add_utf8_def)
qed

theorem cbb_utf8_roundtrip_witness:
  "written_read CBB_add_utf8 CBS_get_utf8 zero_malloc (replicate 9 0) [0x41, 0xe9, 0x20ac, 0x61, 0x7a] \<and>
   CBB_add_utf8 zero_malloc Top 0xd800 CBB_zero = (None, CBB_zero)"
proof -
  have v: "\<forall>u \<in> set [0x41, 0xe9, 0x20ac, 0x61, 0x7a]. is_valid_code_point u"
    and i: "\<not> is_valid_code_point 0xd800" by (simp_all add: is_valid_code_point_def)
  have l: "sum_list (map CBB_get_utf8_len [0x41, 0xe9, 0x20ac, 0x61, 0x7a]) \<le> length (replicate 9 (0 :: byte))"
    by (simp add: CBB_get_utf8_len_def)
  show ?thesis
    using cbb_utf8_roundtrip [OF zero_malloc_sized _ l v, of Top CBB_zero] i by simp
qed

end
