(* ===== verification/Oid.thy ===== *)
theory Oid
  imports Cbb_Props
begin

text \<open>
  Object identifiers in dotted-decimal text: \<open>CBS_asn1_oid_to_text\<close> (crypto/bytestring/cbs.c) and
  \<open>CBB_add_asn1_oid_from_text\<close> (crypto/bytestring/cbb.c). Text is a byte list; 46 is the dot.
\<close>

section \<open>Definitions\<close>

text \<open>What \<open>snprintf\<close> prints for \<open>"%" PRIu64\<close>.\<close>

fun decimal :: "nat \<Rightarrow> byte list" where
  "decimal n = (if n < 10 then [byte_of (48 + n)] else decimal (n div 10) @ [byte_of (48 + n mod 10)])"

declare decimal.simps [simp del]

definition add_decimal :: "malloc \<Rightarrow> CBB_ref \<Rightarrow> u64 \<Rightarrow> CBB \<Rightarrow> unit option \<times> CBB" where
  "add_decimal mal out v s = CBB_add_bytes mal out (decimal (unat v)) s"

lemma add_decimal_eq: "add_decimal mal out v = CBB_add_bytes mal out (decimal (unat v))"
  by (rule ext) (simp add: add_decimal_def)

lemma base128_loop_shorter: "base128_loop v cbs = (Some w, rest) \<Longrightarrow> length rest < length cbs"
proof (induction cbs arbitrary: v)
  case (Cons b bs)
  then show ?case by (fastforce simp: Let_def split: if_splits)
qed simp

lemma parse_base128_shorter:
  "parse_base128_integer cbs = (Some v, rest) \<Longrightarrow> length rest < length cbs"
  by (simp add: parse_base128_integer_def base128_loop_shorter)

function oid_to_text_loop :: "malloc \<Rightarrow> CBS \<Rightarrow> CBB \<Rightarrow> unit option \<times> CBB" where
  "oid_to_text_loop mal copy cbb =
     (if CBS_len copy \<noteq> 0 then
        (case parse_base128_integer copy of
           (None, _) \<Rightarrow> (None, cbb)
         | (Some v, copy') \<Rightarrow>
             and_then (CBB_add_u8 mal Top 46 cbb) (\<lambda>_ cbb1.
             and_then (add_decimal mal Top v cbb1) (\<lambda>_ cbb2. oid_to_text_loop mal copy' cbb2)))
      else (Some (), cbb))"
  by pat_completeness auto
termination
  by (relation "measure (\<lambda>(_, copy, _). length copy)") (auto dest: parse_base128_shorter [OF sym])

declare oid_to_text_loop.simps [simp del]

text \<open>The result is the zero-terminated text, with whatever follows it in the block cut off.\<close>

definition CBS_asn1_oid_to_text :: "malloc \<Rightarrow> CBS \<Rightarrow> byte list option" where
  "CBS_asn1_oid_to_text mal cbs =
     (case CBB_init mal 32 of
        (None, _) \<Rightarrow> None
      | (Some _, cbb) \<Rightarrow>
          (case parse_base128_integer cbs of
             (None, _) \<Rightarrow> None
           | (Some v, copy) \<Rightarrow>
               let r = and_then
                 (if v \<ge> 80 then
                    and_then (CBB_add_bytes mal Top [50, 46] cbb) (\<lambda>_ s. add_decimal mal Top (v - 80) s)
                  else
                    and_then (add_decimal mal Top (v div 40) cbb) (\<lambda>_ s.
                    and_then (CBB_add_u8 mal Top 46 s) (\<lambda>_ s. add_decimal mal Top (v mod 40) s)))
                 (\<lambda>_ s. and_then (oid_to_text_loop mal copy s) (\<lambda>_ s.
                        and_then (CBB_add_u8 mal Top 0 s) (\<lambda>_ s. CBB_finish mal Top s)))
               in case fst r of None \<Rightarrow> None | Some (txt, txt_len) \<Rightarrow> Some (take txt_len txt)))"

definition parse_dotted_decimal :: "CBS \<Rightarrow> u64 option \<times> CBS" where
  "parse_dotted_decimal cbs =
     and_then (CBS_get_u64_decimal cbs) (\<lambda>out cbs1.
       case CBS_get_u8 cbs1 of
         (None, cbs2) \<Rightarrow> (Some out, cbs2)
       | (Some dot, cbs2) \<Rightarrow> ((if dot = 46 \<and> CBS_len cbs2 > 0 then Some out else None), cbs2))"

lemma u64_decimal_loop_shorter:
  "u64_decimal_loop v seen cbs = (Some (w, seen'), rest) \<Longrightarrow>
     length rest \<le> length cbs \<and> (seen' \<and> \<not> seen \<longrightarrow> length rest < length cbs)"
proof (induction cbs arbitrary: v seen)
  case (Cons c cs)
  show ?case
  proof (cases "OPENSSL_isdigit (uint c)")
    case True
    then have "u64_decimal_loop (v * 10 + ucast (c - 0x30)) True cs = (Some (w, seen'), rest)"
      using Cons.prems by (auto split: if_splits)
    from Cons.IH [OF this] show ?thesis by auto
  qed (use Cons.prems in auto)
qed auto

lemma parse_dotted_decimal_shorter:
  assumes "parse_dotted_decimal cbs = (Some v, rest)"
  shows "length rest < length cbs"
proof -
  obtain cbs1 where c1: "CBS_get_u64_decimal cbs = (Some v, cbs1)"
    and "length rest \<le> length cbs1"
    using assms unfolding parse_dotted_decimal_def
    by (cases "snd (CBS_get_u64_decimal cbs)") (auto split: prod.splits option.splits if_splits elim!: and_then_SomeE)
  moreover have "length cbs1 < length cbs"
    using c1 u64_decimal_loop_shorter unfolding CBS_get_u64_decimal_def
    by (fastforce split: prod.splits if_splits elim!: and_then_SomeE)
  ultimately show ?thesis by linarith
qed

function oid_from_text_loop :: "malloc \<Rightarrow> CBB_ref \<Rightarrow> CBS \<Rightarrow> CBB \<Rightarrow> unit option \<times> CBB" where
  "oid_from_text_loop mal cbb cbs s =
     (if CBS_len cbs > 0 then
        (case parse_dotted_decimal cbs of
           (None, _) \<Rightarrow> (None, s)
         | (Some a, cbs') \<Rightarrow>
             and_then (add_base128_integer mal cbb a s) (\<lambda>_ s1. oid_from_text_loop mal cbb cbs' s1))
      else (Some (), s))"
  by pat_completeness auto
termination
  by (relation "measure (\<lambda>(_, _, cbs, _). length cbs)") (auto dest: parse_dotted_decimal_shorter [OF sym])

declare oid_from_text_loop.simps [simp del]

definition CBB_add_asn1_oid_from_text :: "malloc \<Rightarrow> CBB_ref \<Rightarrow> byte list \<Rightarrow> CBB \<Rightarrow> unit option \<times> CBB" where
  "CBB_add_asn1_oid_from_text mal cbb text s =
     and_then (CBB_flush mal cbb s) (\<lambda>_ s1.
       case parse_dotted_decimal (CBS_init text (length text)) of
         (None, _) \<Rightarrow> (None, s1)
       | (Some a, cbs1) \<Rightarrow>
           (case parse_dotted_decimal cbs1 of
              (None, _) \<Rightarrow> (None, s1)
            | (Some b, cbs2) \<Rightarrow>
                if a > 2 \<or> (a < 2 \<and> b > 39) \<or> b > (- 1) - 80 then (None, s1)
                else and_then (add_base128_integer mal cbb (40 * a + b) s1) (\<lambda>_ s2.
                       oid_from_text_loop mal cbb cbs2 s2)))"

section \<open>Decimal numbers\<close>

lemma digit_byte:
  assumes "d < 10"
  shows "OPENSSL_isdigit (uint (byte_of (48 + d)))" and "unat (ucast (byte_of (48 + d) - 0x30) :: u64) = d"
proof -
  have u: "unat (byte_of (48 + d)) = 48 + d" using assms by simp
  then have "uint (byte_of (48 + d)) = int (48 + d)" by (metis uint_nat)
  then show "OPENSSL_isdigit (uint (byte_of (48 + d)))" using assms by (simp add: OPENSSL_isdigit_def)
  have "unat (byte_of (48 + d) - 0x30) = d" using u by (simp add: unat_sub_if')
  then show "unat (ucast (byte_of (48 + d) - 0x30) :: u64) = d" by (simp only: unat_ucast_byte)
qed

lemma decimal_step:
  assumes "n < 2 ^ 64" and "seen \<longrightarrow> n div 10 \<noteq> 0"
  shows "u64_decimal_loop (of_nat (n div 10)) seen (byte_of (48 + n mod 10) # cbs) = u64_decimal_loop (of_nat n) True cbs"
proof -
  let ?v = "of_nat (n div 10) :: u64" and ?d = "ucast (byte_of (48 + n mod 10) - 0x30) :: u64"
  have v: "unat ?v = n div 10" using assms(1) by (intro unat_of_nat_less) simp
  have d: "unat ?d = n mod 10" by (rule digit_byte) simp
  have max: "unat (- 1 :: u64) = 2 ^ 64 - 1" by (simp add: unsigned_minus_1_eq_mask mask_eq_exp_minus_1)
  have "n div 10 \<le> (2 ^ 64 - 1) div 10" using assms(1) by (intro div_le_mono) simp
  then have 1: "\<not> ?v > (- 1) div 10" using v max by (simp add: word_less_nat_alt unat_div)
  have m10: "unat (?v * 10) = n div 10 * 10"
    using v assms(1) by (simp add: unat_word_ariths)
  have "n mod 10 \<le> 2 ^ 64 - 1" using mod_less_divisor [of 10 n] by simp
  then have dle: "?d \<le> - 1" unfolding word_le_nat_alt max d .
  have sub: "unat ((- 1) - ?d) = 2 ^ 64 - 1 - n mod 10"
    using dle by (simp only: unat_sub max d)
  have "n div 10 * 10 + n mod 10 \<le> 2 ^ 64 - 1" using assms(1) by simp
  then have 2: "\<not> ?v * 10 > (- 1) - ?d" unfolding word_less_nat_alt m10 sub by linarith
  have "unat (?v * 10 + ?d) = n"
    using m10 d assms(1) by (simp add: unat_word_ariths)
  then have 3: "?v * 10 + ?d = of_nat n" by (rule word_of_unatI)
  have 4: "\<not> (?v = 0 \<and> seen)" using assms(2) v by (metis unat_0)
  show ?thesis using 1 2 3 4 digit_byte(1) [of "n mod 10"] by auto
qed

lemma u64_decimal_loop_decimal:
  "n < 2 ^ 64 \<Longrightarrow> u64_decimal_loop 0 False (decimal n @ cbs) = u64_decimal_loop (of_nat n) True cbs"
proof (induction n arbitrary: cbs rule: decimal.induct)
  case (1 n)
  show ?case
  proof (cases "n < 10")
    case True
    then show ?thesis using decimal_step [of n False cbs] "1.prems" by (simp add: decimal.simps [of n])
  next
    case False
    then have "u64_decimal_loop 0 False (decimal n @ cbs) =
        u64_decimal_loop (of_nat (n div 10)) True (byte_of (48 + n mod 10) # cbs)"
      using 1 by (simp add: decimal.simps [of n])
    then show ?thesis using decimal_step [of n True cbs] False "1.prems" by simp
  qed
qed

lemma get_u64_decimal:
  assumes "n < 2 ^ 64" and "cbs = [] \<or> \<not> OPENSSL_isdigit (uint (hd cbs))"
  shows "CBS_get_u64_decimal (decimal n @ cbs) = (Some (of_nat n), cbs)"
  using assms u64_decimal_loop_decimal [OF assms(1), of cbs] by (cases cbs) (simp_all add: CBS_get_u64_decimal_def)

lemma parse_dotted_last: "n < 2 ^ 64 \<Longrightarrow> parse_dotted_decimal (decimal n) = (Some (of_nat n), [])"
  using get_u64_decimal [of n "[]"] by (simp add: parse_dotted_decimal_def)

lemma parse_dotted_more:
  "n < 2 ^ 64 \<Longrightarrow> cbs \<noteq> [] \<Longrightarrow> parse_dotted_decimal (decimal n @ 46 # cbs) = (Some (of_nat n), cbs)"
  using get_u64_decimal [of n "46 # cbs"]
  by (simp add: parse_dotted_decimal_def OPENSSL_isdigit_def CBS_len_def)

section \<open>Dotted-decimal text\<close>

fun dotted :: "nat list \<Rightarrow> byte list" where
  "dotted [] = []"
| "dotted [n] = decimal n"
| "dotted (n # ns) = decimal n @ 46 # dotted ns"

lemma decimal_nonempty [simp]: "decimal n \<noteq> []"
  by (subst decimal.simps) simp

lemma dotted_nonempty [simp]: "dotted (n # ns) \<noteq> []"
  by (cases ns) simp_all

lemma parse_dotted:
  "n < 2 ^ 64 \<Longrightarrow> parse_dotted_decimal (dotted (n # ns)) = (Some (of_nat n), dotted ns)"
  by (cases ns) (simp_all add: parse_dotted_last parse_dotted_more)

lemma from_text_loop_emits:
  assumes m: "malloc_sized mal"
  shows "\<forall>n \<in> set ns. n < 2 ^ 64 \<Longrightarrow>
    emits mal (oid_from_text_loop mal cbb (dotted ns)) cbb (concat (map base128_enc ns))"
proof (induction ns)
  case Nil
  have "oid_from_text_loop mal cbb (dotted []) = (\<lambda>s. (Some (), s))"
    by (rule ext) (simp add: oid_from_text_loop.simps CBS_len_def)
  then show ?case using emits_nil by simp
next
  case (Cons n ns)
  have n: "n < 2 ^ 64" "unat (of_nat n :: u64) = n" using Cons.prems by (simp_all add: unat_of_nat_less)
  have "oid_from_text_loop mal cbb (dotted (n # ns)) = (\<lambda>s. and_then (add_base128_integer mal cbb (of_nat n) s)
      (\<lambda>_ s1. oid_from_text_loop mal cbb (dotted ns) s1))"
    using parse_dotted [OF n(1), of ns]
    by (intro ext) (simp add: oid_from_text_loop.simps [of mal cbb "dotted (n # ns)"] CBS_len_def)
  then show ?case
    using emits_seq [OF emits_base128 [OF m, of cbb "of_nat n"], of "oid_from_text_loop mal cbb (dotted ns)"
        "concat (map base128_enc ns)"] Cons n(2) by simp
qed

lemma base128_enc_nonempty: "base128_enc n \<noteq> []"
  by (simp add: base128_enc_def)

lemma to_text_loop_emits:
  assumes m: "malloc_sized mal"
  shows "\<forall>n \<in> set ns. n < 2 ^ 64 \<Longrightarrow>
    emits mal (oid_to_text_loop mal (concat (map base128_enc ns))) Top (concat (map (\<lambda>n. 46 # decimal n) ns))"
proof (induction ns)
  case Nil
  have "oid_to_text_loop mal (concat (map base128_enc [])) = (\<lambda>s. (Some (), s))"
    by (rule ext) (simp add: oid_to_text_loop.simps CBS_len_def)
  then show ?case using emits_nil by simp
next
  case (Cons n ns)
  let ?rest = "concat (map base128_enc ns)"
  have n: "n < 2 ^ 64" "unat (of_nat n :: u64) = n" using Cons.prems by (simp_all add: unat_of_nat_less)
  have "oid_to_text_loop mal (concat (map base128_enc (n # ns))) =
      (\<lambda>s. and_then (CBB_add_u8 mal Top 46 s) (\<lambda>_ s.
        and_then (CBB_add_bytes mal Top (decimal n) s) (\<lambda>_ s. oid_to_text_loop mal ?rest s)))"
    using parse_base128_enc [OF n(1), of ?rest]
    by (intro ext) (simp add: oid_to_text_loop.simps [of mal "base128_enc n @ ?rest"] CBS_len_def
        base128_enc_nonempty add_decimal_def n(2))
  then show ?case
    using emits_seq [OF u8.put_emits [OF m TrueI, of Top 46] emits_seq [OF emits_add_bytes [OF m, of Top "decimal n"],
          of "oid_to_text_loop mal ?rest"]] Cons by simp
qed

lemma dotted_Cons: "dotted (n # ns) = decimal n @ concat (map (\<lambda>n. 46 # decimal n) ns)"
  by (induction ns arbitrary: n) simp_all

text \<open>The components of an object identifier that the code can represent.\<close>

definition oid_ok :: "nat \<Rightarrow> nat \<Rightarrow> nat list \<Rightarrow> bool" where
  "oid_ok a b ns \<longleftrightarrow> a \<le> 2 \<and> (a < 2 \<longrightarrow> b \<le> 39) \<and> b + 80 < 2 ^ 64 \<and> (\<forall>n \<in> set ns. n < 2 ^ 64)"

definition oid_contents :: "nat \<Rightarrow> nat \<Rightarrow> nat list \<Rightarrow> byte list" where
  "oid_contents a b ns = concat (map base128_enc ((40 * a + b) # ns))"

lemma first_component:
  assumes "oid_ok a b ns"
  shows "unat (of_nat a :: u64) = a" "unat (of_nat b :: u64) = b" "unat (40 * of_nat a + of_nat b :: u64) = 40 * a + b"
    and "\<not> ((of_nat a :: u64) > 2 \<or> (of_nat a :: u64) < 2 \<and> (of_nat b :: u64) > 39 \<or> (of_nat b :: u64) > (- 1) - 80)"
proof -
  have a: "a \<le> 2" and b: "b + 80 < 2 ^ 64" and ab: "a < 2 \<longrightarrow> b \<le> 39" using assms by (auto simp: oid_ok_def)
  show ua: "unat (of_nat a :: u64) = a" and ub: "unat (of_nat b :: u64) = b"
    using a b by (simp_all add: unat_of_nat_less)
  have "unat (40 * of_nat a :: u64) = 40 * a" using a ua by (simp add: unat_word_ariths)
  then show "unat (40 * of_nat a + of_nat b :: u64) = 40 * a + b"
    using a b ub by (simp add: unat_word_ariths)
  have "unat ((- 1) - 80 :: u64) = 2 ^ 64 - 81" by simp
  then show "\<not> ((of_nat a :: u64) > 2 \<or> (of_nat a :: u64) < 2 \<and> (of_nat b :: u64) > 39 \<or> (of_nat b :: u64) > (- 1) - 80)"
    using a b ab ua ub by (auto simp: word_less_nat_alt)
qed

lemma from_text_emits:
  assumes m: "malloc_sized mal" and ok: "oid_ok a b ns"
  shows "emits mal (CBB_add_asn1_oid_from_text mal cbb (dotted (a # b # ns))) cbb (oid_contents a b ns)"
proof -
  note fc = first_component [OF ok]
  have lt: "a < 2 ^ 64" "b < 2 ^ 64" "\<forall>n \<in> set ns. n < 2 ^ 64" using ok by (auto simp: oid_ok_def)
  let ?f = "\<lambda>s. and_then (add_base128_integer mal cbb (40 * of_nat a + of_nat b) s) (\<lambda>_ s2.
      oid_from_text_loop mal cbb (dotted ns) s2)"
  have "emits mal ?f cbb (base128_enc (40 * a + b) @ concat (map base128_enc ns))"
    using emits_seq [OF emits_base128 [OF m, of cbb "40 * of_nat a + of_nat b"] from_text_loop_emits [OF m lt(3)]]
    by (simp only: fc(3))
  moreover have "CBB_add_asn1_oid_from_text mal cbb (dotted (a # b # ns)) s = ?f s" if "ready cbb s" for s
    using that parse_dotted [OF lt(1), of "b # ns"] parse_dotted [OF lt(2), of ns] fc(4)
    by (auto simp: CBB_add_asn1_oid_from_text_def CBS_init_def)
  ultimately show ?thesis by (simp add: emits_def oid_contents_def)
qed

text \<open>The text of the first component, which holds the first two arcs.\<close>

definition put_first :: "malloc \<Rightarrow> u64 \<Rightarrow> CBB \<Rightarrow> unit option \<times> CBB" where
  "put_first mal v cbb =
     (if v \<ge> 80 then
        and_then (CBB_add_bytes mal Top [50, 46] cbb) (\<lambda>_ s. add_decimal mal Top (v - 80) s)
      else
        and_then (add_decimal mal Top (v div 40) cbb) (\<lambda>_ s.
        and_then (CBB_add_u8 mal Top 46 s) (\<lambda>_ s. add_decimal mal Top (v mod 40) s)))"

lemma put_first_emits:
  assumes m: "malloc_sized mal" and ok: "oid_ok a b ns"
  shows "emits mal (put_first mal (40 * of_nat a + of_nat b)) Top (decimal a @ 46 # decimal b)"
proof -
  let ?v = "40 * of_nat a + of_nat b :: u64"
  have v: "unat ?v = 40 * a + b" using first_component [OF ok] by simp
  note add = emits_add_bytes [OF m, of Top]
  show ?thesis
  proof (cases "a = 2")
    case True
    then have "?v \<ge> 80" using v by (simp add: word_le_nat_alt)
    moreover from this have "unat (?v - 80) = b" using v True by (simp only: unat_sub) simp
    ultimately have "put_first mal ?v = (\<lambda>s. and_then (CBB_add_bytes mal Top [50, 46] s) (\<lambda>_ s.
        CBB_add_bytes mal Top (decimal b) s))" by (intro ext) (simp add: put_first_def add_decimal_eq)
    moreover have "decimal a @ 46 # decimal b = [50, 46] @ decimal b"
      using True by (simp add: decimal.simps [of 2] byte_eq_iff)
    ultimately show ?thesis using emits_seq [OF add [of "[50, 46]"] add [of "decimal b"]] by simp
  next
    case False
    then have a: "a < 2" "b \<le> 39" using ok by (auto simp: oid_ok_def)
    then have "\<not> ?v \<ge> 80" using v by (simp add: word_le_nat_alt)
    moreover have "unat (?v div 40) = a" "unat (?v mod 40) = b" using v a by (simp_all add: unat_div unat_mod)
    ultimately have "put_first mal ?v = (\<lambda>s. and_then (CBB_add_bytes mal Top (decimal a) s) (\<lambda>_ s.
        and_then (CBB_add_u8 mal Top 46 s) (\<lambda>_ s. CBB_add_bytes mal Top (decimal b) s)))"
      by (intro ext) (simp add: put_first_def add_decimal_eq)
    then show ?thesis using emits_seq [OF add emits_seq [OF u8.put_emits [OF m TrueI] add]] by simp
  qed
qed

lemma ready_init:
  assumes "malloc_sized mal" and "\<forall>n. mal n \<noteq> None" and "n < 2 ^ 62"
  obtains s where "CBB_init mal n = (Some (), s)" and "ready Top s" and "content (base s) = []"
    and "\<forall>k < 2 ^ 62. can_add mal (base s) k"
proof -
  have "OPENSSL_malloc mal n \<noteq> None" using OPENSSL_malloc_total assms(2,3) by simp
  then obtain b where b: "OPENSSL_malloc mal n = Some b" by blast
  have "length b = n" using OPENSSL_malloc_length [OF assms(1) b] .
  then show thesis using that [of "cbb_init b n True"] b assms(2,3)
    by (simp add: CBB_init_def cbb_init_def ready_def wf_buffer_def content_def can_add_def)
qed

lemma oid_to_text_dotted:
  assumes m: "malloc_sized mal" and tot: "\<forall>n. mal n \<noteq> None" and ok: "oid_ok a b ns"
    and len: "length (dotted (a # b # ns)) < 2 ^ 61"
  shows "CBS_asn1_oid_to_text mal (oid_contents a b ns) = Some (dotted (a # b # ns) @ [0])"
proof -
  let ?v = "40 * of_nat a + of_nat b :: u64" and ?rest = "concat (map base128_enc ns)"
  let ?tail = "concat (map (\<lambda>n. 46 # decimal n) ns)"
  have "(32 :: nat) < 2 ^ 62" by simp
  then obtain s0 where s0: "CBB_init mal 32 = (Some (), s0)" "ready Top s0" "content (base s0) = []"
    "\<forall>k < 2 ^ 62. can_add mal (base s0) k" by (rule ready_init [OF m tot])
  have v: "unat ?v = 40 * a + b" using first_component [OF ok] by simp
  have "40 * a + b < 2 ^ 64" using unat_u64_lt [of ?v] v by simp
  from parse_base128_enc [OF this, of ?rest] v have p: "parse_base128_integer (oid_contents a b ns) = (Some ?v, ?rest)"
    by (simp add: oid_contents_def)
  have lt: "\<forall>n \<in> set ns. n < 2 ^ 64" using ok by (simp add: oid_ok_def)
  let ?f = "\<lambda>s. and_then (put_first mal ?v s) (\<lambda>_ s. and_then (oid_to_text_loop mal ?rest s) (\<lambda>_ s. CBB_add_u8 mal Top 0 s))"
  have f: "emits mal ?f Top ((decimal a @ 46 # decimal b) @ ?tail @ [0])"
    by (intro emits_seq put_first_emits [OF m ok] to_text_loop_emits [OF m lt] u8.put_emits [OF m TrueI])
  have teq: "(decimal a @ 46 # decimal b) @ ?tail @ [0] = dotted (a # b # ns) @ [0]" by (simp add: dotted_Cons)
  have "can_add mal (base s0) (length ((decimal a @ 46 # decimal b) @ ?tail @ [0]))"
    unfolding teq using len s0(4) by simp
  then obtain s1 where s1: "?f s0 = (Some (), s1)" "appends s0 s1 (dotted (a # b # ns) @ [0])"
    unfolding teq [symmetric] by (rule emitsE [OF f s0(2)])
  have c: "take (blen (base s1)) (buf (base s1)) = dotted (a # b # ns) @ [0]"
    using s1(2) s0(3) by (simp add: appends_def appended_def content_def)
  have "and_then (put_first mal ?v s0) (\<lambda>_ s. and_then (oid_to_text_loop mal ?rest s) (\<lambda>_ s.
      and_then (CBB_add_u8 mal Top 0 s) (\<lambda>_ s. CBB_finish mal Top s))) = CBB_finish mal Top s1"
    using s1(1) by (auto simp: and_then_def split: prod.splits option.splits)
  then show ?thesis
    using s0(1) p c finish_ready [OF appends_ready [OF s0(2) s1(2)], of mal]
    by (simp add: CBS_asn1_oid_to_text_def put_first_def Let_def)
qed

section \<open>Properties\<close>

text \<open>
  Object identifiers survive the way to DER and back: the dotted text of any identifier with
  a first arc up to 2, a second arc below 40 under the arcs 0 and 1, and components that fit in 64
  bits is accepted by \<open>CBB_add_asn1_oid_from_text\<close>, which writes contents that
  \<open>CBS_is_valid_asn1_oid\<close> accepts and that \<open>CBS_asn1_oid_to_text\<close> prints as the same text.
\<close>

theorem oid_text_roundtrip:
  assumes "malloc_sized mal" and "\<forall>n. mal n \<noteq> None" and "oid_ok a b ns"
    and "length (dotted (a # b # ns)) < 2 ^ 61"
    and "ready cbb s" and "can_add mal (base s) (length (oid_contents a b ns))"
  shows "\<exists>s'. CBB_add_asn1_oid_from_text mal cbb (dotted (a # b # ns)) s = (Some (), s') \<and>
    content (base s') = content (base s) @ oid_contents a b ns \<and>
    CBS_is_valid_asn1_oid (oid_contents a b ns) \<and>
    CBS_asn1_oid_to_text mal (oid_contents a b ns) = Some (dotted (a # b # ns) @ [0])"
proof -
  obtain s' where "CBB_add_asn1_oid_from_text mal cbb (dotted (a # b # ns)) s = (Some (), s')"
    "appends s s' (oid_contents a b ns)"
    by (rule emitsE [OF from_text_emits [OF assms(1,3)] assms(5,6)])
  moreover have "CBS_is_valid_asn1_oid (oid_contents a b ns)"
    unfolding oid_contents_def by (rule valid_oid_concat) simp
  ultimately show ?thesis using oid_to_text_dotted [OF assms(1-4)] by (auto simp: appends_def appended_def)
qed

theorem oid_text_roundtrip_witness:
  "\<exists>s'. CBB_add_asn1_oid_from_text zero_malloc Top (dotted [1, 2, 840, 113549])
      (CBB_init_fixed (replicate 6 0) 6) = (Some (), s') \<and>
    CBS_asn1_oid_to_text zero_malloc (oid_contents 1 2 [840, 113549]) = Some (dotted [1, 2, 840, 113549] @ [0])"
proof -
  have ok: "oid_ok 1 2 [840, 113549]" by (simp add: oid_ok_def)
  have l: "length (dotted [1, 2, 840, 113549]) < 2 ^ 61"
    by (simp add: decimal.simps)
  have c: "length (oid_contents 1 2 [840, 113549]) \<le> length (replicate 6 (0 :: byte))"
    by (simp add: oid_contents_def base128_enc_def base128_lead_pos)
  have r: "ready Top (CBB_init_fixed (replicate 6 0) (length (replicate 6 (0 :: byte))))"
    by (rule ready_init_fixed) simp
  have z: "\<forall>n. zero_malloc n \<noteq> None" by (simp add: zero_malloc_def)
  show ?thesis
    using oid_text_roundtrip [OF zero_malloc_sized z ok l r can_add_init_fixed [OF c]] by auto
qed

end
