(* ===== verification/Posix_Time.thy ===== *)
theory Posix_Time
  imports Prelude
begin

text \<open>
  Conversion between broken-down UTC time and POSIX seconds (BoringSSL
  crypto/asn1/posix_time.c). The code's \<open>int\<close> and \<open>int64_t\<close> values stay far inside their
  ranges (years 0 to 9999), so they are integers here; the C division truncates towards
  zero and is written out, since both conversions divide negative values.
\<close>

section \<open>C division\<close>

definition c_div :: "int \<Rightarrow> int \<Rightarrow> int" where
  "c_div a b = (if a \<ge> 0 then a div b else - ((- a) div b))"

definition c_mod :: "int \<Rightarrow> int \<Rightarrow> int" where
  "c_mod a b = a - c_div a b * b"

section \<open>The conversions\<close>

definition SECS_PER_HOUR :: int where "SECS_PER_HOUR = 60 * 60"
definition SECS_PER_DAY :: int where "SECS_PER_DAY = 24 * SECS_PER_HOUR"

definition is_valid_date :: "int \<Rightarrow> int \<Rightarrow> int \<Rightarrow> bool" where
  "is_valid_date year month day =
     (if day < 1 \<or> month < 1 \<or> year < 0 \<or> year > 9999 then False
      else if month \<in> {1, 3, 5, 7, 8, 10, 12} then day > 0 \<and> day \<le> 31
      else if month \<in> {4, 6, 9, 11} then day > 0 \<and> day \<le> 30
      else if month = 2 then
        (if (c_mod year 4 = 0 \<and> c_mod year 100 \<noteq> 0) \<or> c_mod year 400 = 0
         then day > 0 \<and> day \<le> 29 else day > 0 \<and> day \<le> 28)
      else False)"

definition is_valid_time :: "int \<Rightarrow> int \<Rightarrow> int \<Rightarrow> bool" where
  "is_valid_time hours minutes seconds =
     (\<not> (hours < 0 \<or> minutes < 0 \<or> seconds < 0 \<or> hours > 23 \<or> minutes > 59 \<or> seconds > 59))"

definition is_valid_epoch_time :: "int \<Rightarrow> bool" where
  "is_valid_epoch_time time \<longleftrightarrow> - 62167219200 \<le> time \<and> time \<le> 253402300799"

definition posix_time_from_utc ::
  "int \<Rightarrow> int \<Rightarrow> int \<Rightarrow> int \<Rightarrow> int \<Rightarrow> int \<Rightarrow> int option" where
  "posix_time_from_utc year0 month day hours minutes seconds =
     (if \<not> is_valid_date year0 month day \<or> \<not> is_valid_time hours minutes seconds then None
      else
        let year = (if month \<le> 2 then year0 - 1 else year0);
            era = c_div (if year \<ge> 0 then year else year - 399) 400;
            year_of_era = year - era * 400;
            day_of_year = c_div (153 * (if month > 2 then month - 3 else month + 9) + 2) 5 + day - 1;
            day_of_era = year_of_era * 365 + c_div year_of_era 4 - c_div year_of_era 100 + day_of_year;
            posix_days = era * 146097 + day_of_era - 719468
        in Some (posix_days * SECS_PER_DAY + hours * SECS_PER_HOUR + minutes * 60 + seconds))"

definition utc_from_posix_time :: "int \<Rightarrow> (int \<times> int \<times> int \<times> int \<times> int \<times> int) option" where
  "utc_from_posix_time time =
     (if \<not> is_valid_epoch_time time then None
      else
        let days0 = c_div time SECS_PER_DAY;
            leftover0 = c_mod time SECS_PER_DAY;
            days1 = (if leftover0 < 0 then days0 - 1 else days0);
            leftover_seconds = (if leftover0 < 0 then leftover0 + SECS_PER_DAY else leftover0);
            days = days1 + 719468;
            era = c_div (if days > 0 then days else days - 146096) 146097;
            day_of_era = days - era * 146097;
            year_of_era = c_div (day_of_era - c_div day_of_era 1460 + c_div day_of_era 36524 -
                                 c_div day_of_era 146096) 365;
            out_year = year_of_era + era * 400;
            day_of_year = day_of_era - (365 * year_of_era + c_div year_of_era 4 - c_div year_of_era 100);
            month_of_year = c_div (5 * day_of_year + 2) 153;
            out_month = (if month_of_year < 10 then month_of_year + 3 else month_of_year - 9);
            out_year' = (if out_month \<le> 2 then out_year + 1 else out_year);
            out_day = day_of_year - c_div (153 * month_of_year + 2) 5 + 1;
            out_hours = c_div leftover_seconds SECS_PER_HOUR;
            leftover' = c_mod leftover_seconds SECS_PER_HOUR
        in Some (out_year', out_month, out_day, out_hours, c_div leftover' 60, c_mod leftover' 60))"

text \<open>The fields of \<open>struct tm\<close> that the code sets.\<close>

record tm =
  tm_year :: int
  tm_mon :: int
  tm_mday :: int
  tm_hour :: int
  tm_min :: int
  tm_sec :: int

definition OPENSSL_tm_to_posix :: "tm \<Rightarrow> int option" where
  "OPENSSL_tm_to_posix t =
     posix_time_from_utc (tm_year t + 1900) (tm_mon t + 1) (tm_mday t) (tm_hour t) (tm_min t) (tm_sec t)"

definition OPENSSL_posix_to_tm :: "int \<Rightarrow> tm option" where
  "OPENSSL_posix_to_tm time =
     (case utc_from_posix_time time of
        None \<Rightarrow> None
      | Some (y, mo, d, h, mi, s) \<Rightarrow>
          Some \<lparr>tm_year = y - 1900, tm_mon = mo - 1, tm_mday = d, tm_hour = h, tm_min = mi, tm_sec = s\<rparr>)"

text \<open>\<open>time_t\<close> is 64 bits wide on the platforms of the pod.\<close>

definition OPENSSL_timegm :: "tm \<Rightarrow> int option" where
  "OPENSSL_timegm t = OPENSSL_tm_to_posix t"

definition OPENSSL_gmtime :: "int \<Rightarrow> tm option" where
  "OPENSSL_gmtime time = OPENSSL_posix_to_tm time"

definition OPENSSL_gmtime_adj :: "tm \<Rightarrow> int \<Rightarrow> int \<Rightarrow> tm option" where
  "OPENSSL_gmtime_adj t off_day offset_sec =
     (case posix_time_from_utc (tm_year t + 1900) (tm_mon t + 1) (tm_mday t) (tm_hour t) (tm_min t) (tm_sec t) of
        None \<Rightarrow> None
      | Some posix_time \<Rightarrow>
          (case utc_from_posix_time (posix_time + off_day * SECS_PER_DAY + offset_sec) of
             None \<Rightarrow> None
           | Some (y, mo, d, h, mi, s) \<Rightarrow>
               Some \<lparr>tm_year = y - 1900, tm_mon = mo - 1, tm_mday = d, tm_hour = h, tm_min = mi, tm_sec = s\<rparr>))"

definition OPENSSL_gmtime_diff :: "tm \<Rightarrow> tm \<Rightarrow> (int \<times> int) option" where
  "OPENSSL_gmtime_diff from_tm to_tm =
     (case OPENSSL_tm_to_posix to_tm of
        None \<Rightarrow> None
      | Some time_to \<Rightarrow>
          (case OPENSSL_tm_to_posix from_tm of
             None \<Rightarrow> None
           | Some time_from \<Rightarrow>
               let timediff = time_to - time_from;
                   daydiff = c_div timediff SECS_PER_DAY;
                   secs = c_mod timediff SECS_PER_DAY
               in if daydiff > 2147483647 \<or> daydiff < - 2147483648 then None
                  else Some (daydiff, secs)))"

section \<open>Arithmetic of the Gregorian cycle\<close>

lemma c_div_nonneg [simp]: "0 \<le> a \<Longrightarrow> c_div a b = a div b"
  by (simp add: c_div_def)

lemma c_mod_nonneg [simp]: "0 \<le> a \<Longrightarrow> c_mod a b = a mod b"
  by (simp add: c_mod_def minus_div_mult_eq_mod)

text \<open>The two adjusted divisions of the code are floor divisions.\<close>

lemma era_floor:
  assumes "0 < b"
  shows "c_div (if y \<ge> 0 then y else y - (b - 1)) b = y div b"
proof (cases "y \<ge> 0")
  case False
  have "(- (y - (b - 1))) div b = - (y div b)"
  proof -
    have "y = b * (y div b) + y mod b" by simp
    then have "- (y - (b - 1)) = b * (- (y div b)) + ((b - 1) - y mod b)" by (simp add: algebra_simps)
    moreover have "0 \<le> (b - 1) - y mod b" "(b - 1) - y mod b < b"
      using assms pos_mod_bound [of b y] pos_mod_sign [of b y] by linarith+
    ultimately show ?thesis by (metis add.commute div_pos_pos_trivial add.right_neutral
          assms div_mult_self2 less_irrefl mult.commute add_0)
  qed
  then show ?thesis using False assms by (simp add: c_div_def)
qed simp

text \<open>
  A day of the 400-year cycle, counted from March 1st, written with its century \<open>c\<close>, its
  4-year group \<open>q\<close> and its year \<open>z\<close> in the group.
\<close>

lemma year_of_era_parts:
  fixes c q z d :: int
  assumes "0 \<le> c" "c \<le> 3" "0 \<le> q" "q \<le> 24" "0 \<le> z" "z \<le> 3" "0 \<le> d" "d \<le> 365"
    and leap: "d = 365 \<Longrightarrow> z = 3 \<and> (q < 24 \<or> c = 3)"
    and doe: "doe = 36524 * c + 1461 * q + 365 * z + d"
  shows "(doe - doe div 1460 + doe div 36524 - doe div 146096) div 365 = 100 * c + 4 * q + z"
proof -
  define e1 where "e1 = (if 24 * c + q + 365 * z + d \<ge> 1460 then 1 else 0 :: int)"
  define e2 where "e2 = (if q = 24 \<and> z = 3 \<and> d = 365 then 1 else 0 :: int)"
  have "doe = 1460 * (25 * c + q + e1) + (24 * c + q + 365 * z + d - 1460 * e1)"
    by (simp add: doe algebra_simps)
  moreover have "0 \<le> 24 * c + q + 365 * z + d - 1460 * e1" "24 * c + q + 365 * z + d - 1460 * e1 < 1460"
    using assms(1-8) by (auto simp: e1_def)
  ultimately have d1: "doe div 1460 = 25 * c + q + e1"
    by (intro int_div_pos_eq) auto
  have "doe = 36524 * (c + e2) + (1461 * q + 365 * z + d - 36524 * e2)"
    by (simp add: doe algebra_simps)
  moreover have "0 \<le> 1461 * q + 365 * z + d - 36524 * e2" "1461 * q + 365 * z + d - 36524 * e2 < 36524"
    using assms(1-8) by (auto simp: e2_def)
  ultimately have d2: "doe div 36524 = c + e2"
    by (intro int_div_pos_eq) auto
  have "doe = 146096 * e2 + (doe - 146096 * e2)" by simp
  moreover have "0 \<le> doe - 146096 * e2" "doe - 146096 * e2 < 146096"
    using assms(1-8) leap by (auto simp: e2_def doe)
  ultimately have d3: "doe div 146096 = e2"
    by (intro int_div_pos_eq) auto
  have "doe - doe div 1460 + doe div 36524 - doe div 146096 = 365 * (100 * c + 4 * q + z) + (d - e1)"
    unfolding d1 d2 d3 by (simp add: doe algebra_simps)
  moreover have "0 \<le> d - e1" "d - e1 < 365"
    using assms(1-8) leap by (cases "d = 365"; auto simp: e1_def)+
  ultimately show ?thesis
    by (intro int_div_pos_eq) auto
qed

lemma era_floor_pos:
  assumes "0 < b"
  shows "c_div (if y > 0 then y else y - (b - 1)) b = y div b"
proof (cases "y = 0")
  case True
  with assms show ?thesis by (auto simp: c_div_def)
next
  case False
  then have "(if y > 0 then y else y - (b - 1)) = (if y \<ge> 0 then y else y - (b - 1))" by auto
  then show ?thesis using era_floor [OF assms, of y] by simp
qed

lemma split_seconds:
  assumes "0 < b" and "0 \<le> r" and "r < b" and "t = n * b + r"
  shows "(if c_mod t b < 0 then c_div t b - 1 else c_div t b) = n"
    and "(if c_mod t b < 0 then c_mod t b + b else c_mod t b) = r"
proof -
  have "(if c_mod t b < 0 then c_div t b - 1 else c_div t b) = n \<and>
        (if c_mod t b < 0 then c_mod t b + b else c_mod t b) = r"
  proof (cases "t \<ge> 0")
    case True
    have "t div b = n" using assms by (intro int_div_pos_eq) (auto simp: mult.commute)
    then show ?thesis using True assms by (simp add: c_mod_def)
  next
    case False
    show ?thesis
    proof (cases "r = 0")
      case True
      then have "- t = (- n) * b" using assms(4) by simp
      moreover have "(- n) * b div b = - n" using assms(1) by (intro nonzero_mult_div_cancel_right) simp
      ultimately have "(- t) div b = - n" by (simp only:)
      then show ?thesis using False True assms by (simp add: c_mod_def c_div_def)
    next
      case r: False
      have "- t = (- n - 1) * b + (b - r)" using assms(4) by (simp add: algebra_simps)
      then have "- t = b * (- n - 1) + (b - r)" by (simp add: mult.commute)
      moreover have "0 \<le> b - r" "b - r < b" using assms r by auto
      ultimately have "(- t) div b = - n - 1" by (rule int_div_pos_eq)
      then have "c_div t b = n + 1" using False by (simp add: c_div_def)
      moreover from this have "c_mod t b = r - b" using assms(4) by (simp add: c_mod_def algebra_simps)
      ultimately show ?thesis using assms(3) by simp
    qed
  qed
  then show "(if c_mod t b < 0 then c_div t b - 1 else c_div t b) = n"
    and "(if c_mod t b < 0 then c_mod t b + b else c_mod t b) = r" by auto
qed

text \<open>The March-based month number and day of year of a valid date.\<close>

definition march_month :: "int \<Rightarrow> int" where
  "march_month m = (if m > 2 then m - 3 else m + 9)"

definition march_day :: "int \<Rightarrow> int \<Rightarrow> int" where
  "march_day m d = (153 * march_month m + 2) div 5 + d - 1"

lemma month_cases:
  assumes "is_valid_date y m d"
  obtains "m = 1" | "m = 2" | "m = 3" | "m = 4" | "m = 5" | "m = 6"
    | "m = 7" | "m = 8" | "m = 9" | "m = 10" | "m = 11" | "m = 12"
  using assms by (auto simp: is_valid_date_def split: if_splits)

lemma valid_day_bounds:
  assumes "is_valid_date y m d"
  shows "1 \<le> d" and "d \<le> 31" and "m = 2 \<Longrightarrow> d \<le> 29" and "m \<in> {4, 6, 9, 11} \<Longrightarrow> d \<le> 30"
    and "0 \<le> y" and "y \<le> 9999"
    and "m = 2 \<Longrightarrow> d = 29 \<Longrightarrow> (y mod 4 = 0 \<and> y mod 100 \<noteq> 0) \<or> y mod 400 = 0"
  using assms by (auto simp: is_valid_date_def split: if_splits)

lemma march_parts:
  assumes "is_valid_date y m d"
  shows "0 \<le> march_day m d" and "march_day m d \<le> 365"
    and "(5 * march_day m d + 2) div 153 = march_month m"
    and "march_day m d = 365 \<Longrightarrow> m = 2 \<and> d = 29"
    and "m \<le> 2 \<Longrightarrow> 306 \<le> march_day m d" and "2 < m \<Longrightarrow> march_day m d \<le> 305"
    and "0 \<le> march_month m" and "march_month m < 12"
proof -
  note b = valid_day_bounds [OF assms]
  from assms show "0 \<le> march_day m d" and "march_day m d \<le> 365"
    and "(5 * march_day m d + 2) div 153 = march_month m"
    and "march_day m d = 365 \<Longrightarrow> m = 2 \<and> d = 29"
    and "m \<le> 2 \<Longrightarrow> 306 \<le> march_day m d" and "2 < m \<Longrightarrow> march_day m d \<le> 305"
    and "0 \<le> march_month m" and "march_month m < 12"
    by (cases rule: month_cases; use b in \<open>simp add: march_day_def march_month_def\<close>; arith?)+
qed

text \<open>The March-based year, its cycle and the day within the cycle.\<close>

definition march_year :: "int \<Rightarrow> int \<Rightarrow> int" where
  "march_year y m = (if m \<le> 2 then y - 1 else y)"

definition cycle_day :: "int \<Rightarrow> int \<Rightarrow> int \<Rightarrow> int" where
  "cycle_day y m d =
     (let yoe = march_year y m mod 400 in yoe * 365 + yoe div 4 - yoe div 100 + march_day m d)"

lemma posix_time_from_utc_eq:
  assumes "is_valid_date y m d" and "is_valid_time h mi s"
  shows "posix_time_from_utc y m d h mi s =
    Some ((march_year y m div 400 * 146097 + cycle_day y m d - 719468) * 86400 + (h * 3600 + mi * 60 + s))"
proof -
  have era: "c_div (if march_year y m \<ge> 0 then march_year y m else march_year y m - 399) 400 = march_year y m div 400"
    using era_floor [of 400 "march_year y m"] by (simp split: if_splits)
  have yoe: "march_year y m - march_year y m div 400 * 400 = march_year y m mod 400"
    by (simp add: minus_div_mult_eq_mod)
  have mm: "0 \<le> 153 * march_month m + 2"
    using march_parts(7) [OF assms(1)] by simp
  have nn: "0 \<le> march_year y m mod 400" by simp
  have "posix_time_from_utc y m d h mi s = Some (
      (march_year y m div 400 * 146097 + (march_year y m mod 400 * 365 + c_div (march_year y m mod 400) 4
        - c_div (march_year y m mod 400) 100 + (c_div (153 * march_month m + 2) 5 + d - 1)) - 719468)
      * SECS_PER_DAY + h * SECS_PER_HOUR + mi * 60 + s)"
    unfolding posix_time_from_utc_def Let_def march_year_def [symmetric] march_month_def [symmetric] era yoe
    using assms by (simp only: if_False simp_thms)
  then show ?thesis
    unfolding c_div_nonneg [OF mm] c_div_nonneg [OF nn] cycle_day_def march_day_def
      SECS_PER_DAY_def SECS_PER_HOUR_def Let_def by simp
qed

text \<open>February 29th ends a 4-year group, and not a century unless it ends the cycle.\<close>

lemma leap_day_parts:
  fixes c q z :: int
  assumes l: "(y mod 4 = 0 \<and> y mod 100 \<noteq> 0) \<or> y mod 400 = 0"
    and yoe: "yoe = (y - 1) mod 400" and y100: "yoe = 100 * c + 4 * q + z"
    and b: "0 \<le> c" "c \<le> 3" "0 \<le> q" "q \<le> 24" "0 \<le> z" "z \<le> 3"
  shows "z = 3 \<and> (q < 24 \<or> c = 3)"
proof -
  have r: "0 \<le> yoe" "yoe < 400" by (simp_all add: yoe)
  from yoe obtain k where k: "y = 400 * k + yoe + 1"
    by (metis add.commute add_diff_cancel_left' diff_add_cancel mult_div_mod_eq add.assoc)
  have y: "y = yoe + 1 + 4 * (100 * k)" "y = yoe + 1 + 100 * (4 * k)" "y = yoe + 1 + 400 * k"
    using k by simp_all
  have z: "y mod 4 = (z + 1) mod 4"
  proof -
    have "y = z + 1 + 4 * (100 * k + 25 * c + q)" using y(1) y100 by simp
    then show ?thesis by (metis mod_mult_self2)
  qed
  have c100: "y mod 100 = 0" if "q = 24" "z = 3"
  proof -
    have "y = 0 + 100 * (4 * k + c + 1)" using y(2) y100 that by simp
    then show ?thesis by (metis mod_mult_self2 mod_0)
  qed
  have y400: "yoe = 399" if "y mod 400 = 0"
  proof -
    have "(yoe + 1) mod 400 = 0" using that y(3) by (metis mod_mult_self2)
    moreover have "(yoe + 1) mod 400 = yoe + 1" if "yoe \<noteq> 399" using r that by simp
    ultimately show ?thesis using r by fastforce
  qed
  have "z = 3"
  proof (rule ccontr)
    assume "z \<noteq> 3"
    then have "y mod 4 = z + 1" using z b by simp
    moreover have "y mod 4 = 0" using l mod_mod_cancel [of 4 400 y] by auto
    ultimately show False using b by simp
  qed
  moreover have "q < 24 \<or> c = 3"
    using l c100 y400 b y100 \<open>z = 3\<close> by (cases "q = 24") auto
  ultimately show ?thesis by simp
qed

lemma cycle_day_parts:
  assumes "is_valid_date y m d"
  defines "yoe \<equiv> march_year y m mod 400"
  shows "(cycle_day y m d - cycle_day y m d div 1460 + cycle_day y m d div 36524 -
          cycle_day y m d div 146096) div 365 = yoe"
    and "0 \<le> cycle_day y m d" and "cycle_day y m d < 146097"
proof -
  define c q z where "c = yoe div 100" and "q = yoe mod 100 div 4" and "z = yoe mod 4"
  have r: "0 \<le> yoe" "yoe < 400" by (simp_all add: yoe_def)
  have b: "0 \<le> c" "c \<le> 3" "0 \<le> q" "q \<le> 24" "0 \<le> z" "z \<le> 3"
    using r by (simp_all add: c_def q_def z_def)
  have "yoe mod 100 mod 4 = z" by (simp add: z_def mod_mod_cancel)
  then have y100: "yoe = 100 * c + 4 * q + z"
    using mult_div_mod_eq [of 100 yoe] mult_div_mod_eq [of 4 "yoe mod 100"]
    unfolding c_def q_def by linarith
  then have y4: "yoe div 4 = 25 * c + q"
    using b by (intro int_div_pos_eq [where r = z]) auto
  note mp = march_parts [OF assms(1)]
  have doe: "cycle_day y m d = 36524 * c + 1461 * q + 365 * z + march_day m d"
    by (simp add: cycle_day_def yoe_def [symmetric] y4 c_def [symmetric]) (simp add: y100)
  have leap: "z = 3 \<and> (q < 24 \<or> c = 3)" if "march_day m d = 365"
  proof -
    have md: "m = 2" "d = 29" using mp(4) [OF that] by simp_all
    have "yoe = (y - 1) mod 400" using md by (simp add: yoe_def march_year_def)
    from leap_day_parts [OF valid_day_bounds(7) [OF assms(1) md] this y100 b] show ?thesis .
  qed
  show "(cycle_day y m d - cycle_day y m d div 1460 + cycle_day y m d div 36524 -
          cycle_day y m d div 146096) div 365 = yoe"
    using year_of_era_parts [OF b mp(1,2) leap doe] y100 by simp
  show "0 \<le> cycle_day y m d" using b mp(1) by (simp add: doe)
  show "cycle_day y m d < 146097"
    using b mp(2) leap by (cases "march_day m d = 365") (auto simp: doe)
qed

lemma epoch_range:
  assumes "is_valid_date y m d" and "0 \<le> r" and "r < 86400"
  shows "is_valid_epoch_time
    ((march_year y m div 400 * 146097 + cycle_day y m d - 719468) * 86400 + r)"
proof -
  let ?Y = "march_year y m" and ?D = "cycle_day y m d"
  note vb = valid_day_bounds [OF assms(1)] and mp = march_parts [OF assms(1)]
    and cd = cycle_day_parts [OF assms(1)]
  have Y: "- 1 \<le> ?Y" "?Y \<le> 9999" using vb(5,6) by (auto simp: march_year_def)
  have lo: "- 60 \<le> ?Y div 400 * 146097 + ?D"
  proof (cases "?Y = - 1")
    case True
    then have "m \<le> 2" using vb(5) by (auto simp: march_year_def split: if_splits)
    with True mp(5) show ?thesis by (simp add: cycle_day_def)
  next
    case False
    with Y have "0 \<le> ?Y div 400" by (simp add: pos_imp_zdiv_nonneg_iff)
    with cd(2) show ?thesis by linarith
  qed
  have hi: "?Y div 400 * 146097 + ?D \<le> 3652364"
  proof (cases "?Y div 400 \<le> 23")
    case True
    with cd(3) show ?thesis by linarith
  next
    case False
    moreover have "?Y div 400 \<le> 9999 div 400" using Y by (intro zdiv_mono1) simp_all
    ultimately have e: "?Y div 400 = 24" by simp
    show ?thesis
    proof (cases "?Y = 9999")
      case True
      then have "2 < m" using vb(6) by (auto simp: march_year_def split: if_splits)
      with True mp(6) show ?thesis by (simp add: cycle_day_def)
    next
      case F: False
      define yoe where "yoe = ?Y mod 400"
      have "?Y = 400 * 24 + yoe" using mult_div_mod_eq [of 400 ?Y] by (simp add: yoe_def e)
      then have "yoe \<le> 398" "0 \<le> yoe" using F Y by (simp_all add: yoe_def)
      moreover from this have "yoe div 4 \<le> 99" "0 \<le> yoe div 100" by simp_all
      ultimately have "yoe * 365 + yoe div 4 - yoe div 100 \<le> 398 * 365 + 99" by linarith
      with mp(2) e show ?thesis by (simp add: cycle_day_def yoe_def [symmetric] Let_def)
    qed
  qed
  show ?thesis
    using lo hi assms(2,3) by (simp add: is_valid_epoch_time_def)
qed

text \<open>The reverse conversion on a time written with its day, year and second parts.\<close>

lemma utc_from_posix_time_parts:
  assumes date: "is_valid_date y m d" and "is_valid_time h mi s"
  shows "utc_from_posix_time
    ((march_year y m div 400 * 146097 + cycle_day y m d - 719468) * 86400 + (h * 3600 + mi * 60 + s)) =
    Some (y, m, d, h, mi, s)"
    (is "utc_from_posix_time ?t = _")
proof -
  let ?era = "march_year y m div 400" and ?D = "cycle_day y m d" and ?r = "h * 3600 + mi * 60 + s"
  have hms: "0 \<le> h" "0 \<le> mi" "mi \<le> 59" "0 \<le> s" "s \<le> 59" "h \<le> 23"
    using assms(2) by (auto simp: is_valid_time_def)
  then have r: "0 \<le> ?r" "?r < 86400" by linarith+
  note sp = split_seconds [OF _ r refl, of "?era * 146097 + ?D - 719468"]
  note mp = march_parts [OF date] and cd = cycle_day_parts [OF date]
  have era: "c_div (if ?era * 146097 + ?D > 0 then ?era * 146097 + ?D else ?era * 146097 + ?D - 146096) 146097 = ?era"
    using era_floor_pos [of 146097 "?era * 146097 + ?D"] cd(2,3) by (simp split: if_splits)
  have nn: "0 \<le> march_year y m mod 400" by simp
  have doy: "?D - (365 * (march_year y m mod 400) + march_year y m mod 400 div 4 -
      march_year y m mod 400 div 100) = march_day m d"
    by (simp add: cycle_day_def Let_def)
  have dnn: "0 \<le> ?D - ?D div 1460 + ?D div 36524 - ?D div 146096"
  proof -
    have "?D div 1460 \<le> ?D" "?D div 146096 \<le> ?D div 36524" using cd(2) by (simp_all add: zdiv_mono2)
    then show ?thesis by linarith
  qed
  have year: "march_year y m mod 400 + ?era * 400 = march_year y m" by simp
  have "?r div 3600 = h" "?r mod 3600 = mi * 60 + s"
    using hms int_div_pos_eq [of ?r 3600 h "mi * 60 + s"] int_mod_pos_eq [of ?r 3600 h "mi * 60 + s"] by simp_all
  then have hr: "c_div ?r 3600 = h" "c_mod ?r 3600 = mi * 60 + s" using r by simp_all
  have ms: "c_div (mi * 60 + s) 60 = mi" "c_mod (mi * 60 + s) 60 = s"
    using hms int_div_pos_eq [of "mi * 60 + s" 60 mi s] int_mod_pos_eq [of "mi * 60 + s" 60 mi s] by simp_all
  have valid: "is_valid_epoch_time ?t" using epoch_range [OF date r] .
  have secs: "SECS_PER_DAY = 86400" "SECS_PER_HOUR = 3600" by (simp_all add: SECS_PER_DAY_def SECS_PER_HOUR_def)
  have m5: "c_div (5 * march_day m d + 2) 153 = march_month m" using mp(1,3) by simp
  have m3: "c_div (153 * march_month m + 2) 5 = (153 * march_month m + 2) div 5" using mp(7) by simp
  have month: "(if march_month m < 10 then march_month m + 3 else march_month m - 9) = m"
    using date by (cases rule: month_cases) (simp_all add: march_month_def)
  have day: "march_day m d - (153 * march_month m + 2) div 5 + 1 = d"
    by (simp add: march_day_def)
  have out_year: "(if m \<le> 2 then march_year y m + 1 else march_year y m) = y"
    by (simp add: march_year_def)
  show ?thesis
    unfolding utc_from_posix_time_def Let_def secs
    by (simp only: valid sp zero_less_numeral if_False simp_thms diff_add_cancel era add_diff_cancel_left'
        c_div_nonneg [OF cd(2)] c_div_nonneg [OF dnn] cd(1) c_div_nonneg [OF nn] doy year
        m5 m3 month day out_year hr ms)
qed

lemma posix_time_from_utc_SomeD:
  assumes "posix_time_from_utc y m d h mi s = Some t"
  shows "is_valid_date y m d" and "is_valid_time h mi s"
  using assms by (auto simp: posix_time_from_utc_def split: if_splits)

lemma posix_to_tm_of_posix:
  assumes "OPENSSL_tm_to_posix t = Some secs"
  shows "OPENSSL_posix_to_tm secs = Some t"
proof -
  note vd = posix_time_from_utc_SomeD [OF assms [unfolded OPENSSL_tm_to_posix_def]]
  have "utc_from_posix_time secs =
      Some (tm_year t + 1900, tm_mon t + 1, tm_mday t, tm_hour t, tm_min t, tm_sec t)"
    using utc_from_posix_time_parts [OF vd] posix_time_from_utc_eq [OF vd] assms
    by (simp add: OPENSSL_tm_to_posix_def)
  then show ?thesis by (simp add: OPENSSL_posix_to_tm_def)
qed

lemma gmtime_adj_eq:
  "OPENSSL_gmtime_adj t 0 offset =
     (case OPENSSL_tm_to_posix t of None \<Rightarrow> None | Some secs \<Rightarrow> OPENSSL_posix_to_tm (secs + offset))"
  unfolding OPENSSL_gmtime_adj_def OPENSSL_tm_to_posix_def OPENSSL_posix_to_tm_def mult_zero_left add_0_right ..

section \<open>Properties\<close>

text \<open>
  C5. \<open>OPENSSL_posix_to_tm\<close> inverts \<open>OPENSSL_tm_to_posix\<close>. Every broken-down UTC time that is
  accepted (a date of the proleptic Gregorian calendar in the years 0 to 9999, with its leap
  days, and a time of day without leap seconds) is converted to a number of seconds that the
  reverse conversion accepts and maps back to the same six fields.
\<close>

theorem posix_time_roundtrip:
  assumes "OPENSSL_tm_to_posix t = Some secs"
  shows "OPENSSL_posix_to_tm secs = Some t"
  using assms by (rule posix_to_tm_of_posix)

theorem posix_time_roundtrip_witness:
  "OPENSSL_tm_to_posix \<lparr>tm_year = 100, tm_mon = 1, tm_mday = 29, tm_hour = 23, tm_min = 59, tm_sec = 58\<rparr>
     = Some 951868798 \<and>
   OPENSSL_posix_to_tm 951868798 =
     Some \<lparr>tm_year = 100, tm_mon = 1, tm_mday = 29, tm_hour = 23, tm_min = 59, tm_sec = 58\<rparr>"
proof -
  have a: "OPENSSL_tm_to_posix
      \<lparr>tm_year = 100, tm_mon = 1, tm_mday = 29, tm_hour = 23, tm_min = 59, tm_sec = 58\<rparr> = Some 951868798"
    by code_simp
  show ?thesis using a posix_time_roundtrip [OF a] by blast
qed

end
