(* ===== verification/Asn1_Time.thy ===== *)
theory Asn1_Time
  imports Der Posix_Time
begin

text \<open>
  The UTCTime and GeneralizedTime parsers of crypto/bytestring/cbs.c
  (\<open>CBS_parse_rfc5280_time_internal\<close> and its helpers). The time is returned as a \<open>tm\<close>; the code's
  \<open>out_tm\<close> is never null here. Bytes are ASCII: 48 is '0', 90 is 'Z', 43 is '+', 45 is '-'.
\<close>

section \<open>Definitions\<close>

definition cbs_get_two_digits :: "CBS \<Rightarrow> int option \<times> CBS" where
  "cbs_get_two_digits cbs =
     and_then (CBS_get_u8 cbs) (\<lambda>first_digit cbs1.
       if \<not> OPENSSL_isdigit (uint first_digit) then (None, cbs1)
       else and_then (CBS_get_u8 cbs1) (\<lambda>second_digit cbs2.
         if \<not> OPENSSL_isdigit (uint second_digit) then (None, cbs2)
         else (Some ((uint first_digit - 48) * 10 + (uint second_digit - 48)), cbs2)))"

definition is_valid_day :: "int \<Rightarrow> int \<Rightarrow> int \<Rightarrow> bool" where
  "is_valid_day year month day =
     (if day < 1 then False
      else if month \<in> {1, 3, 5, 7, 8, 10, 12} then day \<le> 31
      else if month \<in> {4, 6, 9, 11} then day \<le> 30
      else if month = 2 then
        (if (c_mod year 4 = 0 \<and> c_mod year 100 \<noteq> 0) \<or> c_mod year 400 = 0 then day \<le> 29 else day \<le> 28)
      else False)"

text \<open>The year field of the two formats.\<close>

definition parse_year :: "bool \<Rightarrow> CBS \<Rightarrow> int option \<times> CBS" where
  "parse_year is_gentime cbs =
     (if is_gentime then
        and_then (cbs_get_two_digits cbs) (\<lambda>tmp cbs1.
        and_then (cbs_get_two_digits cbs1) (\<lambda>tmp2 cbs2. (Some (tmp * 100 + tmp2), cbs2)))
      else
        and_then (cbs_get_two_digits cbs) (\<lambda>tmp cbs1.
          let year0 = 1900 + tmp;
              year = (if year0 < 1950 then year0 + 100 else year0)
          in if year \<ge> 2050 then (None, cbs1) else (Some year, cbs1)))"

text \<open>The time zone after its sign: seconds to add.\<close>

definition parse_tz_offset :: "int \<Rightarrow> CBS \<Rightarrow> int option \<times> CBS" where
  "parse_tz_offset offset_sign cbs =
     and_then (cbs_get_two_digits cbs) (\<lambda>offset_hours cbs1.
       if offset_hours > 23 then (None, cbs1)
       else and_then (cbs_get_two_digits cbs1) (\<lambda>offset_minutes cbs2.
         if offset_minutes > 59 then (None, cbs2)
         else (Some (offset_sign * (offset_hours * 3600 + offset_minutes * 60)), cbs2)))"

definition parse_tz :: "bool \<Rightarrow> byte \<Rightarrow> CBS \<Rightarrow> int option \<times> CBS" where
  "parse_tz allow_timezone_offset tz cbs =
     (if tz = 90 then (Some 0, cbs)
      else if tz = 43 \<or> tz = 45 then
        (if \<not> allow_timezone_offset then (None, cbs)
         else parse_tz_offset (if tz = 43 then 1 else - 1) cbs)
      else (None, cbs))"

definition CBS_parse_rfc5280_time_internal :: "CBS \<Rightarrow> bool \<Rightarrow> bool \<Rightarrow> tm option" where
  "CBS_parse_rfc5280_time_internal cbs is_gentime allow_timezone_offset =
     fst (and_then (parse_year is_gentime cbs) (\<lambda>year c.
          and_then (cbs_get_two_digits c) (\<lambda>month c. if month < 1 \<or> month > 12 then (None, c) else
          and_then (cbs_get_two_digits c) (\<lambda>day c. if \<not> is_valid_day year month day then (None, c) else
          and_then (cbs_get_two_digits c) (\<lambda>hour c. if hour > 23 then (None, c) else
          and_then (cbs_get_two_digits c) (\<lambda>min c. if min > 59 then (None, c) else
          and_then (cbs_get_two_digits c) (\<lambda>sec c. if sec > 59 then (None, c) else
          and_then (CBS_get_u8 c) (\<lambda>tz c.
          and_then (parse_tz allow_timezone_offset tz c) (\<lambda>offset_seconds c.
            if CBS_len c \<noteq> 0 then (None, c)
            else
              let out_tm = \<lparr>tm_year = year - 1900, tm_mon = month - 1, tm_mday = day,
                            tm_hour = hour, tm_min = min, tm_sec = sec\<rparr>
              in if offset_seconds \<noteq> 0 then (OPENSSL_gmtime_adj out_tm 0 offset_seconds, c)
                 else (Some out_tm, c))))))))))"

definition CBS_parse_generalized_time :: "CBS \<Rightarrow> bool \<Rightarrow> tm option" where
  "CBS_parse_generalized_time cbs allow_timezone_offset =
     CBS_parse_rfc5280_time_internal cbs True allow_timezone_offset"

definition CBS_parse_utc_time :: "CBS \<Rightarrow> bool \<Rightarrow> tm option" where
  "CBS_parse_utc_time cbs allow_timezone_offset =
     CBS_parse_rfc5280_time_internal cbs False allow_timezone_offset"

section \<open>Two digits\<close>

definition two :: "int \<Rightarrow> byte list" where
  "two n = [byte_of (48 + nat (n div 10)), byte_of (48 + nat (n mod 10))]"

lemma isdigit_iff: "OPENSSL_isdigit (uint c) \<longleftrightarrow> 48 \<le> unat c \<and> unat c \<le> 57" for c :: byte
  unfolding OPENSSL_isdigit_def uint_nat by linarith

lemma get_two_digits_iff:
  "cbs_get_two_digits cbs = (Some n, rest) \<longleftrightarrow> 0 \<le> n \<and> n \<le> 99 \<and> cbs = two n @ rest"
proof
  assume "cbs_get_two_digits cbs = (Some n, rest)"
  then obtain a b where cbs: "cbs = a # b # rest" and d: "OPENSSL_isdigit (uint a)" "OPENSSL_isdigit (uint b)"
    and n: "n = (uint a - 48) * 10 + (uint b - 48)"
    by (cases cbs; cases "tl cbs") (auto simp: cbs_get_two_digits_def split: if_splits)
  define p q where "p = unat a - 48" and "q = unat b - 48"
  have pq: "unat a = 48 + p" "unat b = 48 + q" "p \<le> 9" "q \<le> 9"
    using d unfolding isdigit_iff p_def q_def by linarith+
  have n': "n = int p * 10 + int q" unfolding n uint_nat pq by simp
  have "n div 10 = int p" "n mod 10 = int q" using pq(4) unfolding n' by simp_all
  then have "two n = [a, b]" using pq by (simp add: two_def byte_eq_iff)
  moreover have "0 \<le> n" "n \<le> 99" using pq unfolding n' by linarith+
  ultimately show "0 \<le> n \<and> n \<le> 99 \<and> cbs = two n @ rest" using cbs by simp
next
  assume a: "0 \<le> n \<and> n \<le> 99 \<and> cbs = two n @ rest"
  define p q where "p = nat (n div 10)" and "q = nat (n mod 10)"
  have pq: "p \<le> 9" "q \<le> 9" "n = int p * 10 + int q" using a by (auto simp: p_def q_def)
  have u: "unat (byte_of (48 + p)) = 48 + p" "unat (byte_of (48 + q)) = 48 + q" using pq by simp_all
  then have d: "OPENSSL_isdigit (uint (byte_of (48 + p)))" "OPENSSL_isdigit (uint (byte_of (48 + q)))"
    using pq unfolding isdigit_iff by simp_all
  have i: "uint (byte_of (48 + p)) = 48 + int p" "uint (byte_of (48 + q)) = 48 + int q"
    unfolding uint_nat u by simp_all
  have "cbs = byte_of (48 + p) # byte_of (48 + q) # rest" using a by (simp add: two_def p_def q_def)
  then show "cbs_get_two_digits cbs = (Some n, rest)"
    using d i pq(3) by (simp add: cbs_get_two_digits_def)
qed

section \<open>Times\<close>

lemma and_then_iff: "and_then r f = (Some b, t) \<longleftrightarrow> (\<exists>a s. r = (Some a, s) \<and> f a s = (Some b, t))"
  by (auto simp: and_then_def split: prod.splits option.splits)

lemma is_valid_day_date:
  "0 \<le> year \<Longrightarrow> year \<le> 9999 \<Longrightarrow> is_valid_day year month day \<longleftrightarrow> is_valid_date year month day"
  by (auto simp: is_valid_day_def is_valid_date_def)

text \<open>The text of a time after its year, in the \<open>Z\<close> form.\<close>

definition time_text :: "tm \<Rightarrow> byte list" where
  "time_text t = two (tm_mon t + 1) @ two (tm_mday t) @ two (tm_hour t) @ two (tm_min t) @ two (tm_sec t) @ [90]"

definition generalized_time_text :: "tm \<Rightarrow> byte list" where
  "generalized_time_text t =
     two ((tm_year t + 1900) div 100) @ two ((tm_year t + 1900) mod 100) @ time_text t"

definition utc_time_text :: "tm \<Rightarrow> byte list" where
  "utc_time_text t = two ((tm_year t + 1900) mod 100) @ time_text t"

lemma tm_to_posix_iff:
  "(\<exists>secs. OPENSSL_tm_to_posix t = Some secs) \<longleftrightarrow>
     is_valid_date (tm_year t + 1900) (tm_mon t + 1) (tm_mday t) \<and> is_valid_time (tm_hour t) (tm_min t) (tm_sec t)"
  by (auto simp: OPENSSL_tm_to_posix_def posix_time_from_utc_eq dest: posix_time_from_utc_SomeD)

lemma fst_eq_iff: "fst p = Some b \<longleftrightarrow> (\<exists>t. p = (Some b, t))"
  by (cases p) auto

lemma get_u8_iff: "CBS_get_u8 c = (Some b, c') \<longleftrightarrow> c = b # c'"
  by (cases c) auto

lemma parse_tz_iff: "parse_tz False tz c = (Some off, c') \<longleftrightarrow> tz = 90 \<and> off = 0 \<and> c' = c"
  by (auto simp: parse_tz_def)

lemma guard_iff: "(if P then (None, c) else r) = (Some b, t) \<longleftrightarrow> \<not> P \<and> r = (Some b, t)"
  by auto

lemma parse_fields:
  assumes p: "parse_year g cbs = (Some year, c0)"
  shows "CBS_parse_rfc5280_time_internal cbs g False = Some t \<longleftrightarrow>
    (\<exists>month day hour min sec. 1 \<le> month \<and> month \<le> 12 \<and> is_valid_day year month day \<and> 0 \<le> day \<and> day \<le> 99 \<and>
       0 \<le> hour \<and> hour \<le> 23 \<and> 0 \<le> min \<and> min \<le> 59 \<and> 0 \<le> sec \<and> sec \<le> 59 \<and>
       c0 = two month @ two day @ two hour @ two min @ two sec @ [90] \<and>
       t = \<lparr>tm_year = year - 1900, tm_mon = month - 1, tm_mday = day, tm_hour = hour, tm_min = min, tm_sec = sec\<rparr>)"
  unfolding CBS_parse_rfc5280_time_internal_def p and_then_simps fst_eq_iff and_then_iff guard_iff
    get_two_digits_iff get_u8_iff parse_tz_iff Let_def CBS_len_def
  by (auto simp: not_less)

lemma parse_year_generalized:
  "parse_year True cbs = (Some y, c0) \<longleftrightarrow>
     0 \<le> y \<and> y \<le> 9999 \<and> cbs = two (y div 100) @ two (y mod 100) @ c0"
proof
  assume "parse_year True cbs = (Some y, c0)"
  then obtain h l where "0 \<le> h" "h \<le> 99" "0 \<le> l" "l \<le> 99" and cbs: "cbs = two h @ two l @ c0" and y: "y = h * 100 + l"
    by (auto simp: parse_year_def and_then_iff get_two_digits_iff)
  moreover then have "y div 100 = h" "y mod 100 = l" by simp_all
  ultimately show "0 \<le> y \<and> y \<le> 9999 \<and> cbs = two (y div 100) @ two (y mod 100) @ c0" by simp
next
  assume a: "0 \<le> y \<and> y \<le> 9999 \<and> cbs = two (y div 100) @ two (y mod 100) @ c0"
  then have "cbs_get_two_digits cbs = (Some (y div 100), two (y mod 100) @ c0)"
    "cbs_get_two_digits (two (y mod 100) @ c0) = (Some (y mod 100), c0)"
    unfolding get_two_digits_iff by auto
  then show "parse_year True cbs = (Some y, c0)" by (simp add: parse_year_def)
qed

lemma mod_century:
  fixes y k :: int
  assumes "k * 100 \<le> y" "y < k * 100 + 100"
  shows "y mod 100 = y - k * 100"
proof -
  have "y mod 100 = ((y - k * 100) + k * 100) mod 100" by simp
  also have "\<dots> = (y - k * 100) mod 100" by (rule mod_mult_self1)
  also have "\<dots> = y - k * 100" using assms by simp
  finally show ?thesis .
qed

lemma parse_year_utc:
  "parse_year False cbs = (Some y, c0) \<longleftrightarrow> 1950 \<le> y \<and> y \<le> 2049 \<and> cbs = two (y mod 100) @ c0"
proof
  assume "parse_year False cbs = (Some y, c0)"
  then obtain l where l: "0 \<le> l" "l \<le> 99" and cbs: "cbs = two l @ c0"
    and y: "y = (if l < 50 then 2000 + l else 1900 + l)"
    by (fastforce simp: parse_year_def and_then_iff get_two_digits_iff Let_def split: if_splits)
  have "y mod 100 = l"
    using l y mod_century [of 19 y] mod_century [of 20 y] by (cases "l < 50") simp_all
  then show "1950 \<le> y \<and> y \<le> 2049 \<and> cbs = two (y mod 100) @ c0" using cbs l y by simp
next
  assume a: "1950 \<le> y \<and> y \<le> 2049 \<and> cbs = two (y mod 100) @ c0"
  then have "cbs_get_two_digits cbs = (Some (y mod 100), c0)" unfolding get_two_digits_iff by auto
  moreover have "y mod 100 = (if y < 2000 then y - 1900 else y - 2000)"
    using a mod_century [of 19 y] mod_century [of 20 y] by auto
  ultimately show "parse_year False cbs = (Some y, c0)" using a by (simp add: parse_year_def)
qed

text \<open>
  A parser whose year field is read by \<open>parse_year\<close> accepts exactly the texts of valid times whose year
  is written that way.
\<close>

lemma parse_time_iff:
  assumes year: "\<And>y c c0. parse_year g c = (Some y, c0) \<longleftrightarrow> lo \<le> y \<and> y \<le> hi \<and> c = ytext y @ c0"
    and range: "0 \<le> lo" "hi \<le> 9999"
  shows "CBS_parse_rfc5280_time_internal cbs g False = Some t \<longleftrightarrow>
    (\<exists>secs. OPENSSL_tm_to_posix t = Some secs) \<and> lo \<le> tm_year t + 1900 \<and> tm_year t + 1900 \<le> hi \<and>
    cbs = ytext (tm_year t + 1900) @ time_text t" (is "?L \<longleftrightarrow> ?R")
proof
  assume L: ?L
  then obtain y c0 where p: "parse_year g cbs = (Some y, c0)"
    unfolding CBS_parse_rfc5280_time_internal_def fst_eq_iff by (auto simp: and_then_iff)
  with range have y: "lo \<le> y" "y \<le> hi" "cbs = ytext y @ c0" "0 \<le> y" "y \<le> 9999" unfolding year by auto
  show ?R
    using L y(1-3) unfolding parse_fields [OF p] tm_to_posix_iff is_valid_day_date [OF y(4,5)]
    by (auto simp: time_text_def is_valid_time_def)
next
  assume R: ?R
  define y where "y = tm_year t + 1900"
  have p: "parse_year g cbs = (Some y, time_text t)" using R unfolding year y_def by simp
  have y: "0 \<le> y" "y \<le> 9999" using R range unfolding y_def by auto
  have v: "is_valid_date y (tm_mon t + 1) (tm_mday t)" "is_valid_time (tm_hour t) (tm_min t) (tm_sec t)"
    using R unfolding tm_to_posix_iff y_def by simp_all
  then have "1 \<le> tm_mon t + 1" "tm_mon t + 1 \<le> 12" "0 \<le> tm_mday t" "tm_mday t \<le> 99"
    by (auto simp: is_valid_date_def split: if_splits)
  moreover have "0 \<le> tm_hour t" "tm_hour t \<le> 23" "0 \<le> tm_min t" "tm_min t \<le> 59" "0 \<le> tm_sec t" "tm_sec t \<le> 59"
    using v(2) by (auto simp: is_valid_time_def split: if_splits)
  moreover have "is_valid_day y (tm_mon t + 1) (tm_mday t)" using v(1) by (simp add: is_valid_day_date [OF y])
  ultimately show ?L
    unfolding parse_fields [OF p]
    by (intro exI [of _ "tm_mon t + 1"] exI [of _ "tm_mday t"] exI [of _ "tm_hour t"] exI [of _ "tm_min t"]
        exI [of _ "tm_sec t"]) (simp add: time_text_def y_def)
qed

text \<open>
  Times with an offset. Whether or not offsets are allowed, the fields before the time zone are read the
  same way.
\<close>

definition tz_offset :: "byte \<Rightarrow> int \<Rightarrow> int \<Rightarrow> bool" where
  "tz_offset sign hh mm \<longleftrightarrow> (sign = 43 \<or> sign = 45) \<and> 0 \<le> hh \<and> hh \<le> 23 \<and> 0 \<le> mm \<and> mm \<le> 59"

definition tz_seconds :: "byte \<Rightarrow> int \<Rightarrow> int \<Rightarrow> int" where
  "tz_seconds sign hh mm = (if sign = 43 then hh * 3600 + mm * 60 else - (hh * 3600 + mm * 60))"

lemma parse_tz_offset_iff:
  "parse_tz True tz c = (Some off, c') \<longleftrightarrow> parse_tz False tz c = (Some off, c') \<or>
     (\<exists>hh mm. tz_offset tz hh mm \<and> c = two hh @ two mm @ c' \<and>
        off = tz_seconds tz hh mm)"
  by (auto simp: parse_tz_def parse_tz_offset_def and_then_iff guard_iff get_two_digits_iff tz_offset_def tz_seconds_def not_less)

definition adjusted :: "tm \<Rightarrow> int \<Rightarrow> tm option" where
  "adjusted local off = (if off \<noteq> 0 then OPENSSL_gmtime_adj local 0 off else Some local)"

lemma adjusted_iff:
  "(if off \<noteq> 0 then (OPENSSL_gmtime_adj local 0 off, c) else (Some local, c)) = (Some t, s) \<longleftrightarrow> adjusted local off = Some t \<and> s = c"
  by (auto simp: adjusted_def)

lemma adjusted_time: "OPENSSL_tm_to_posix local = Some secs \<Longrightarrow> adjusted local off = OPENSSL_posix_to_tm (secs + off)"
  using posix_to_tm_of_posix [of local secs] by (simp add: gmtime_adj_eq adjusted_def)

lemma butlast_time_text:
  "butlast (time_text t) = two (tm_mon t + 1) @ two (tm_mday t) @ two (tm_hour t) @ two (tm_min t) @ two (tm_sec t)"
  by (simp add: time_text_def butlast_append)

lemma parse_fields_tz:
  assumes p: "parse_year g cbs = (Some year, c0)" and y: "0 \<le> year" "year \<le> 9999"
  shows "CBS_parse_rfc5280_time_internal cbs g allow = Some t \<longleftrightarrow>
    (\<exists>local secs tz c off. OPENSSL_tm_to_posix local = Some secs \<and> tm_year local + 1900 = year \<and>
       c0 = butlast (time_text local) @ tz # c \<and> parse_tz allow tz c = (Some off, []) \<and>
       OPENSSL_posix_to_tm (secs + off) = Some t)" (is "?L \<longleftrightarrow> ?R")
proof -
  define tm_of where "tm_of = (\<lambda>month day hour min sec. \<lparr>tm_year = year - 1900, tm_mon = month - 1, tm_mday = day,
    tm_hour = hour, tm_min = min, tm_sec = sec\<rparr>)"
  define parsed where "parsed = (\<lambda>c0 month day hour min sec tz c off. c0 = two month @ two day @ two hour @ two min @ two sec @ tz # c \<and>
       1 \<le> month \<and> month \<le> 12 \<and> is_valid_day year month day \<and> 0 \<le> day \<and> day \<le> 99 \<and> 0 \<le> hour \<and> hour \<le> 23 \<and> 0 \<le> min \<and> min \<le> 59 \<and>
       0 \<le> sec \<and> sec \<le> 59 \<and> parse_tz allow tz c = (Some off, []) \<and> adjusted (tm_of month day hour min sec) off = Some t)"
  have "\<exists>month day hour min sec tz c off. parsed c0 month day hour min sec tz c off" if ?L
    using that unfolding CBS_parse_rfc5280_time_internal_def p and_then_simps fst_eq_iff and_then_iff guard_iff
      get_two_digits_iff get_u8_iff Let_def CBS_len_def adjusted_iff
    by (clarsimp simp: not_less) (intro exI, unfold parsed_def tm_of_def, rule conjI, rule refl, simp)
  moreover have ?L if "parsed c0 month day hour min sec tz c off" for month day hour min sec tz c off
  proof -
    have two: "cbs_get_two_digits (two n @ r) = (Some n, r)" if "0 \<le> n" "n \<le> 99" for n r
      using that by (simp add: get_two_digits_iff)
    show ?thesis
      using that unfolding CBS_parse_rfc5280_time_internal_def p and_then_simps parsed_def
      by (auto simp: two CBS_len_def adjusted_def tm_of_def Let_def split: if_splits)
  qed
  ultimately have L: "?L \<longleftrightarrow> (\<exists>month day hour min sec tz c off. parsed c0 month day hour min sec tz c off)" by blast
  show ?thesis
  proof
    assume ?L
    then obtain month day hour min sec tz c off where a: "parsed c0 month day hour min sec tz c off" unfolding L by blast
    let ?t = "tm_of month day hour min sec"
    have "is_valid_date year month day" "is_valid_time hour min sec"
      using a is_valid_day_date [OF y] by (simp_all add: parsed_def is_valid_time_def)
    then obtain secs where "OPENSSL_tm_to_posix ?t = Some secs"
      using tm_to_posix_iff [of ?t] by (auto simp: tm_of_def)
    moreover have "c0 = butlast (time_text ?t) @ tz # c" "tm_year ?t + 1900 = year"
      using a by (simp_all add: parsed_def butlast_time_text tm_of_def)
    ultimately show ?R using a adjusted_time [of ?t secs off] unfolding parsed_def by metis
  next
    assume ?R
    then obtain local secs tz c off where r: "OPENSSL_tm_to_posix local = Some secs" "tm_year local + 1900 = year"
      "c0 = butlast (time_text local) @ tz # c" "parse_tz allow tz c = (Some off, [])" "OPENSSL_posix_to_tm (secs + off) = Some t" by blast
    have v: "is_valid_date year (tm_mon local + 1) (tm_mday local)" "is_valid_time (tm_hour local) (tm_min local) (tm_sec local)"
      using r(1,2) tm_to_posix_iff [of local] by auto
    have "tm_of (tm_mon local + 1) (tm_mday local) (tm_hour local) (tm_min local) (tm_sec local) = local"
      using r(2) by (simp add: tm_of_def)
    moreover have "1 \<le> tm_mon local + 1" "tm_mon local + 1 \<le> 12" "0 \<le> tm_mday local" "tm_mday local \<le> 99"
      using v(1) by (auto simp: is_valid_date_def split: if_splits)
    moreover have "is_valid_day year (tm_mon local + 1) (tm_mday local)" using v(1) by (simp add: is_valid_day_date [OF y])
    ultimately have "parsed c0 (tm_mon local + 1) (tm_mday local) (tm_hour local) (tm_min local) (tm_sec local) tz c off"
      using v(2) r(3-5) adjusted_time [OF r(1), of off] by (simp add: parsed_def is_valid_time_def butlast_time_text)
    then show ?L unfolding L by blast
  qed
qed

lemma parse_offset_iff:
  assumes year: "\<And>y c c0. parse_year g c = (Some y, c0) \<longleftrightarrow> lo \<le> y \<and> y \<le> hi \<and> c = ytext y @ c0"
    and range: "0 \<le> lo" "hi \<le> 9999"
  shows "CBS_parse_rfc5280_time_internal cbs g True = Some t \<longleftrightarrow>
    CBS_parse_rfc5280_time_internal cbs g False = Some t \<or>
    (\<exists>local secs sign hh mm. OPENSSL_tm_to_posix local = Some secs \<and> lo \<le> tm_year local + 1900 \<and> tm_year local + 1900 \<le> hi \<and>
       tz_offset sign hh mm \<and> cbs = ytext (tm_year local + 1900) @ butlast (time_text local) @ sign # two hh @ two mm \<and>
       OPENSSL_posix_to_tm (secs + tz_seconds sign hh mm) = Some t)"
    (is "_ \<longleftrightarrow> _ \<or> ?off")
proof (cases "\<exists>y c0. parse_year g cbs = (Some y, c0)")
  case True
  then obtain y c0 where p: "parse_year g cbs = (Some y, c0)" by blast
  then have y: "lo \<le> y" "y \<le> hi" "cbs = ytext y @ c0" "0 \<le> y" "y \<le> 9999" using range unfolding year by auto
  have local: "tm_year l + 1900 = y \<and> c0 = butlast (time_text l) @ r" if "lo \<le> tm_year l + 1900" "tm_year l + 1900 \<le> hi"
    "cbs = ytext (tm_year l + 1900) @ butlast (time_text l) @ r" for l r
    using year [of cbs "tm_year l + 1900" "butlast (time_text l) @ r"] that p by simp
  have off: "?off \<longleftrightarrow> (\<exists>l secs sign hh mm. OPENSSL_tm_to_posix l = Some secs \<and> tm_year l + 1900 = y \<and>
       tz_offset sign hh mm \<and> c0 = butlast (time_text l) @ sign # two hh @ two mm \<and>
       OPENSSL_posix_to_tm (secs + tz_seconds sign hh mm) = Some t)" (is "_ \<longleftrightarrow> ?loc")
  proof
    assume ?off
    then show ?loc using local by blast
  next
    assume ?loc
    then show ?off using y(1-3) by blast
  qed
  have "CBS_parse_rfc5280_time_internal cbs g True = Some t \<longleftrightarrow> CBS_parse_rfc5280_time_internal cbs g False = Some t \<or> ?loc"
    unfolding parse_fields_tz [OF p y(4,5)] parse_tz_offset_iff append_Nil2 by blast
  then show ?thesis unfolding off .
next
  case False
  have "\<not> ?off"
  proof
    assume ?off
    then obtain l sign hh mm where "lo \<le> tm_year l + 1900 \<and> tm_year l + 1900 \<le> hi"
      "cbs = ytext (tm_year l + 1900) @ butlast (time_text l) @ sign # two hh @ two mm" by auto
    then show False using False year [of cbs "tm_year l + 1900" "butlast (time_text l) @ sign # two hh @ two mm"] by blast
  qed
  moreover have "CBS_parse_rfc5280_time_internal cbs g allow \<noteq> Some t" for allow
    using False unfolding CBS_parse_rfc5280_time_internal_def fst_eq_iff and_then_iff by auto
  ultimately show ?thesis by blast
qed

section \<open>Canonical times\<close>

lemma generalized_time_iff:
  "CBS_parse_generalized_time cbs False = Some t \<longleftrightarrow>
     (\<exists>secs. OPENSSL_tm_to_posix t = Some secs) \<and> cbs = generalized_time_text t"
proof -
  have r: "0 \<le> tm_year t + 1900 \<and> tm_year t + 1900 \<le> 9999" if "\<exists>secs. OPENSSL_tm_to_posix t = Some secs"
    using that unfolding tm_to_posix_iff by (auto simp: is_valid_date_def split: if_splits)
  show ?thesis
    unfolding CBS_parse_generalized_time_def
    by (subst parse_time_iff [where lo = 0 and hi = 9999 and ytext = "\<lambda>y. two (y div 100) @ two (y mod 100)"])
      (use r in \<open>auto simp: parse_year_generalized generalized_time_text_def\<close>)
qed

text \<open>
  C21. With no time-zone offsets allowed, \<open>CBS_parse_generalized_time\<close> accepts exactly the texts
  YYYYMMDDHHMMSSZ of the dates and times that \<open>OPENSSL_tm_to_posix\<close> can convert, and returns that time,
  so that each representable time has one accepted text; \<open>CBS_parse_utc_time\<close> accepts exactly the
  texts YYMMDDHHMMSSZ of those in the years 1950 to 2049.
\<close>

theorem asn1_times_canonical:
  "(CBS_parse_generalized_time cbs False = Some t \<longleftrightarrow>
     (\<exists>secs. OPENSSL_tm_to_posix t = Some secs) \<and> cbs = generalized_time_text t) \<and>
   (CBS_parse_utc_time cbs False = Some t \<longleftrightarrow>
     (\<exists>secs. OPENSSL_tm_to_posix t = Some secs) \<and> 50 \<le> tm_year t \<and> tm_year t \<le> 149 \<and> cbs = utc_time_text t)"
proof
  show "CBS_parse_utc_time cbs False = Some t \<longleftrightarrow>
     (\<exists>secs. OPENSSL_tm_to_posix t = Some secs) \<and> 50 \<le> tm_year t \<and> tm_year t \<le> 149 \<and> cbs = utc_time_text t"
    unfolding CBS_parse_utc_time_def
    by (subst parse_time_iff [where lo = 1950 and hi = 2049 and ytext = "\<lambda>y. two (y mod 100)"])
      (auto simp: parse_year_utc utc_time_text_def)
qed (rule generalized_time_iff)

lemma tm_year_range: "OPENSSL_tm_to_posix t = Some secs \<Longrightarrow> 0 \<le> tm_year t + 1900 \<and> tm_year t + 1900 \<le> 9999"
  using tm_to_posix_iff [of t] by (auto simp: is_valid_date_def split: if_splits)

lemma butlast_texts:
  "butlast (utc_time_text t) = two ((tm_year t + 1900) mod 100) @ butlast (time_text t)"
  "butlast (generalized_time_text t) = (two ((tm_year t + 1900) div 100) @ two ((tm_year t + 1900) mod 100)) @ butlast (time_text t)"
  by (simp_all add: utc_time_text_def generalized_time_text_def time_text_def butlast_append)

text \<open>
  C22. With time-zone offsets allowed, \<open>CBS_parse_utc_time\<close> and \<open>CBS_parse_generalized_time\<close> accept in addition
  exactly the texts of valid local times that end in +hhmm or -hhmm instead of Z, with at most 23 hours
  and 59 minutes. The offset is applied with the sign it is written with: the result is the time whose
  number of seconds is that of the local time plus the offset for +, and minus it for -. (The
  corresponding time in UTC, which the header promises, is on the other side of the local time.)
\<close>

theorem utc_time_offset_sign:
  "(CBS_parse_utc_time cbs True = Some t \<longleftrightarrow>
     CBS_parse_utc_time cbs False = Some t \<or>
     (\<exists>local secs sign hh mm. OPENSSL_tm_to_posix local = Some secs \<and> 50 \<le> tm_year local \<and> tm_year local \<le> 149 \<and>
        tz_offset sign hh mm \<and> cbs = butlast (utc_time_text local) @ sign # two hh @ two mm \<and>
        OPENSSL_posix_to_tm (secs + tz_seconds sign hh mm) = Some t)) \<and>
   (CBS_parse_generalized_time cbs True = Some t \<longleftrightarrow>
     CBS_parse_generalized_time cbs False = Some t \<or>
     (\<exists>local secs sign hh mm. OPENSSL_tm_to_posix local = Some secs \<and>
        tz_offset sign hh mm \<and> cbs = butlast (generalized_time_text local) @ sign # two hh @ two mm \<and>
        OPENSSL_posix_to_tm (secs + tz_seconds sign hh mm) = Some t))"
proof
  show "CBS_parse_utc_time cbs True = Some t \<longleftrightarrow>
     CBS_parse_utc_time cbs False = Some t \<or>
     (\<exists>local secs sign hh mm. OPENSSL_tm_to_posix local = Some secs \<and> 50 \<le> tm_year local \<and> tm_year local \<le> 149 \<and>
        tz_offset sign hh mm \<and> cbs = butlast (utc_time_text local) @ sign # two hh @ two mm \<and>
        OPENSSL_posix_to_tm (secs + tz_seconds sign hh mm) = Some t)"
    unfolding CBS_parse_utc_time_def
    using parse_offset_iff [of False 1950 2049 "\<lambda>y. two (y mod 100)" cbs t]
    by (simp add: parse_year_utc butlast_texts)
  show "CBS_parse_generalized_time cbs True = Some t \<longleftrightarrow>
     CBS_parse_generalized_time cbs False = Some t \<or>
     (\<exists>local secs sign hh mm. OPENSSL_tm_to_posix local = Some secs \<and>
        tz_offset sign hh mm \<and> cbs = butlast (generalized_time_text local) @ sign # two hh @ two mm \<and>
        OPENSSL_posix_to_tm (secs + tz_seconds sign hh mm) = Some t)"
    unfolding CBS_parse_generalized_time_def
    using parse_offset_iff [of True 0 9999 "\<lambda>y. two (y div 100) @ two (y mod 100)" cbs t] tm_year_range
    by (simp add: parse_year_generalized butlast_texts) blast
qed

end
