(* ===== verification/Compare.thy ===== *)
theory Compare
  imports Prelude "HOL-Library.Multiset"
begin

text \<open>
  The contract of a C comparison function: a negative, zero or positive result for less, equal
  or greater. Sorting and searching rely on the two laws below.
\<close>

locale cmp_order =
  fixes cmp :: "'a \<Rightarrow> 'a \<Rightarrow> int"
  assumes flip: "cmp a b < 0 \<longleftrightarrow> cmp b a > 0"
    and cmp_trans: "cmp a b \<le> 0 \<Longrightarrow> cmp b c \<le> 0 \<Longrightarrow> cmp a c \<le> 0"
begin

lemma not_less_le: "\<not> cmp a b < 0 \<Longrightarrow> cmp b a \<le> 0"
  using flip [of a b] by linarith

lemma cmp_refl: "cmp a a = 0"
  using flip [of a a] by linarith

lemma cmp_eq_iff: "cmp a b = 0 \<longleftrightarrow> cmp a b \<le> 0 \<and> cmp b a \<le> 0"
  using flip [of a b] flip [of b a] by linarith

lemma cmp_total: "cmp a b \<le> 0 \<or> cmp b a \<le> 0"
  using flip [of a b] by linarith

lemma cmp_less_le_trans: "cmp a b < 0 \<Longrightarrow> cmp b c \<le> 0 \<Longrightarrow> cmp a c < 0"
  using cmp_trans [of a b c] cmp_trans [of b c a] flip [of a c] flip [of a b] flip [of c a] flip [of b a] by linarith

lemma cmp_le_less_trans: "cmp a b \<le> 0 \<Longrightarrow> cmp b c < 0 \<Longrightarrow> cmp a c < 0"
  using cmp_trans [of a b c] cmp_trans [of c a b] flip [of a c] flip [of c b] flip [of c a] flip [of b c] by linarith

end

text \<open>The order of a list under a comparison function.\<close>

definition ascending :: "('a \<Rightarrow> 'a \<Rightarrow> int) \<Rightarrow> 'a list \<Rightarrow> bool" where
  "ascending cmp xs \<longleftrightarrow> sorted_wrt (\<lambda>a b. cmp a b \<le> 0) xs"

lemma cmp_order_key: "cmp_order (\<lambda>a b. f a - f b)" for f :: "'a \<Rightarrow> int"
  by unfold_locales auto

lemma ascending_delete:
  assumes "ascending cmp xs"
  shows "ascending cmp (take i xs @ drop (Suc i) xs)"
proof -
  have "sorted_wrt (\<lambda>a b. cmp a b \<le> 0) (take i xs @ drop i xs)" using assms by (simp add: ascending_def)
  moreover have "set (drop (Suc i) xs) \<subseteq> set (drop i xs)" by (rule set_drop_subset_set_drop) simp
  ultimately show ?thesis
    using sorted_wrt_drop [of _ xs "Suc i"] assms unfolding ascending_def sorted_wrt_append by blast
qed

lemma ascending_short: "length xs < 2 \<Longrightarrow> ascending cmp xs"
  by (cases xs) (auto simp: ascending_def)

lemma ascending_filter: "ascending cmp xs \<Longrightarrow> ascending cmp (filter P xs)"
  by (simp add: ascending_def sorted_wrt_filter)

lemma ascending_nth: "ascending cmp xs \<Longrightarrow> i < j \<Longrightarrow> j < length xs \<Longrightarrow> cmp (xs ! i) (xs ! j) \<le> 0"
  by (simp add: ascending_def sorted_wrt_iff_nth_less)

section \<open>Sorting by a comparison function\<close>

text \<open>
  The C library's \<open>qsort\<close>. The standard leaves the order of equal elements open; the code
  modelled here only calls it with comparison functions that tell different elements apart,
  for which \<open>ascending_unique\<close> shows that there is only one result to return.
\<close>

fun cmp_insert :: "('a \<Rightarrow> 'a \<Rightarrow> int) \<Rightarrow> 'a \<Rightarrow> 'a list \<Rightarrow> 'a list" where
  "cmp_insert cmp x [] = [x]"
| "cmp_insert cmp x (y # ys) = (if cmp x y \<le> 0 then x # y # ys else y # cmp_insert cmp x ys)"

definition qsort :: "('a \<Rightarrow> 'a \<Rightarrow> int) \<Rightarrow> 'a list \<Rightarrow> 'a list" where
  "qsort cmp xs = foldr (cmp_insert cmp) xs []"

lemma mset_cmp_insert [simp]: "mset (cmp_insert cmp x ys) = add_mset x (mset ys)"
  by (induction ys) auto

lemma mset_qsort [simp]: "mset (qsort cmp xs) = mset xs"
  by (induction xs) (simp_all add: qsort_def)

context cmp_order
begin

lemma ascending_cmp_insert: "ascending cmp ys \<Longrightarrow> ascending cmp (cmp_insert cmp x ys)"
proof (induction ys)
  case (Cons y ys)
  show ?case
  proof (cases "cmp x y \<le> 0")
    case True
    then show ?thesis using Cons.prems by (auto simp: ascending_def dest: cmp_trans [OF True])
  next
    case False
    then have "cmp y x \<le> 0" using cmp_total by blast
    moreover have "set (cmp_insert cmp x ys) = insert x (set ys)"
      using mset_cmp_insert [of cmp x ys] by (metis set_mset_add_mset_insert set_mset_mset)
    ultimately show ?thesis using False Cons by (auto simp: ascending_def)
  qed
qed (simp add: ascending_def)

lemma ascending_qsort: "ascending cmp (qsort cmp xs)"
  by (induction xs) (simp_all add: qsort_def ascending_cmp_insert, simp add: ascending_def)

end

text \<open>A comparison function that is zero on equal elements only.\<close>

locale cmp_linear = cmp_order +
  assumes cmp_eq: "cmp a b = 0 \<Longrightarrow> a = b"
begin

lemma ascending_unique:
  "ascending cmp xs \<Longrightarrow> ascending cmp ys \<Longrightarrow> mset xs = mset ys \<Longrightarrow> xs = ys"
proof (induction xs arbitrary: ys)
  case (Cons x xs)
  then obtain y zs where ys: "ys = y # zs" by (cases ys) auto
  have "x \<in> set ys" "y \<in> set (x # xs)" using Cons.prems(3) ys by (metis list.set_intros(1) mset_eq_setD)+
  then have "cmp y x \<le> 0" "cmp x y \<le> 0"
    using Cons.prems(1,2) ys cmp_refl [of x] by (auto simp: ascending_def)
  then have "x = y" using cmp_eq cmp_eq_iff by blast
  then show ?case using Cons ys by (simp add: ascending_def)
qed simp

end

end
