(* ===== verification/Set_Of.thy ===== *)
theory Set_Of
  imports Compare Cbb_Props
begin

text \<open>
  SET OF values (\<open>CBB_flush_asn1_set_of\<close> of crypto/bytestring/cbb.c): DER sorts the elements
  of a set by their encodings, so the builder parses what was written, sorts the elements and
  writes them back in place.
\<close>

section \<open>Comparison of encodings\<close>

text \<open>\<open>memcmp\<close> of the C library, and the wrapper of crypto/internal.h around it.\<close>

fun memcmp :: "byte list \<Rightarrow> byte list \<Rightarrow> nat \<Rightarrow> int" where
  "memcmp a b 0 = 0"
| "memcmp a b (Suc n) = (if hd a \<noteq> hd b then uint (hd a) - uint (hd b) else memcmp (tl a) (tl b) n)"

definition OPENSSL_memcmp :: "byte list \<Rightarrow> byte list \<Rightarrow> nat \<Rightarrow> int" where
  "OPENSSL_memcmp s1 s2 n = (if n = 0 then 0 else memcmp s1 s2 n)"

definition compare_set_of_element :: "CBS \<Rightarrow> CBS \<Rightarrow> int" where
  "compare_set_of_element a b =
     (let a_len = CBS_len a; b_len = CBS_len b;
          min_len = (if a_len < b_len then a_len else b_len);
          ret = OPENSSL_memcmp a b min_len
      in if ret \<noteq> 0 then ret
         else if a_len = b_len then 0
         else if a_len < b_len then - 1 else 1)"

section \<open>Flushing a SET OF\<close>

lemma get_any_asn1_element_shorter:
  assumes "CBS_get_any_asn1_element cbs = (Some e, rest)"
  shows "length rest < length cbs"
proof -
  obtain body where b: "e = der_element (elem_tag e) body" "cbs = elem_out e @ rest"
    using assms by (rule get_any_asn1_element_sound)
  have "elem_out e = der_header (elem_tag e) (length body) @ body"
    using b(1) by (metis asn1_element.select_convs(1) der_element_def)
  moreover have "der_len (length body) \<noteq> []" by (simp add: der_len_def)
  ultimately show ?thesis using b(2) by (simp add: der_header_def)
qed

text \<open>The loop that counts the elements; \<open>None\<close> when the contents are not a list of elements.\<close>

function count_children :: "CBS \<Rightarrow> nat option" where
  "count_children cbs =
     (if CBS_len cbs \<noteq> 0 then
        (case CBS_get_any_asn1_element cbs of
           (None, _) \<Rightarrow> None
         | (Some _, cbs') \<Rightarrow> map_option Suc (count_children cbs'))
      else Some 0)"
  by pat_completeness auto

termination
  by (relation "measure length") (auto dest: get_any_asn1_element_shorter sym)

declare count_children.simps [simp del]

text \<open>The loop that parses a known number of elements.\<close>

fun get_children :: "CBS \<Rightarrow> nat \<Rightarrow> CBS list option" where
  "get_children cbs 0 = Some []"
| "get_children cbs (Suc n) =
     (case CBS_get_any_asn1_element cbs of
        (None, _) \<Rightarrow> None
      | (Some e, cbs') \<Rightarrow> map_option (Cons (elem_out e)) (get_children cbs' n))"

text \<open>The loop that copies the elements back, from \<open>off\<close> on.\<close>

fun write_children :: "byte list \<Rightarrow> nat \<Rightarrow> CBS list \<Rightarrow> byte list" where
  "write_children out off [] = out"
| "write_children out off (c # cs) = write_children (store out off c) (off + CBS_len c) cs"

text \<open>The bytes that \<open>CBB_data\<close> and \<open>CBB_len\<close> describe, and the size of a \<open>CBS\<close>.\<close>

definition cbb_contents :: "CBB_ref \<Rightarrow> CBB \<Rightarrow> byte list" where
  "cbb_contents cbb s = take (CBB_len cbb s) (drop (CBB_data cbb s) (buf (base s)))"

definition sizeof_CBS :: nat where "sizeof_CBS = 16"

definition CBB_flush_asn1_set_of :: "malloc \<Rightarrow> CBB_ref \<Rightarrow> CBB \<Rightarrow> unit option \<times> CBB" where
  "CBB_flush_asn1_set_of mal cbb s =
     and_then (CBB_flush mal cbb s) (\<lambda>_ s1.
       case count_children (cbb_contents cbb s1) of
         None \<Rightarrow> (None, s1)
       | Some num_children \<Rightarrow>
           if num_children < 2 then (Some (), s1)
           else
             (case (OPENSSL_memdup mal (cbb_contents cbb s1) (CBB_len cbb s1),
                    OPENSSL_calloc mal num_children sizeof_CBS) of
                (Some copy, Some _) \<Rightarrow>
                  (case get_children copy num_children of
                     None \<Rightarrow> (None, s1)
                   | Some children \<Rightarrow>
                       (Some (), s1\<lparr>base := (base s1)\<lparr>buf :=
                          write_children (buf (base s1)) (CBB_data cbb s1)
                            (qsort compare_set_of_element children)\<rparr>\<rparr>))
              | _ \<Rightarrow> (None, s1)))"

section \<open>The order\<close>

lemma compare_simps:
  "compare_set_of_element [] [] = 0"
  "compare_set_of_element [] (y # b) = - 1"
  "compare_set_of_element (x # a) [] = 1"
  "compare_set_of_element (x # a) (y # b) =
     (if x \<noteq> y then uint x - uint y else compare_set_of_element a b)"
  by (auto simp: compare_set_of_element_def OPENSSL_memcmp_def CBS_len_def Let_def word_uint_eq_iff)

lemma compare_flip: "compare_set_of_element a b < 0 \<longleftrightarrow> compare_set_of_element b a > 0"
proof (induction a arbitrary: b)
  case Nil
  then show ?case by (cases b) (simp_all add: compare_simps)
next
  case (Cons x a)
  then show ?case by (cases b) (auto simp: compare_simps)
qed

lemma compare_eq: "compare_set_of_element a b = 0 \<Longrightarrow> a = b"
proof (induction a arbitrary: b)
  case Nil
  then show ?case by (cases b) (simp_all add: compare_simps)
next
  case (Cons x a)
  then show ?case by (cases b) (auto simp: compare_simps word_uint_eq_iff split: if_splits)
qed

lemma compare_trans:
  "compare_set_of_element a b \<le> 0 \<Longrightarrow> compare_set_of_element b c \<le> 0 \<Longrightarrow> compare_set_of_element a c \<le> 0"
proof (induction a arbitrary: b c)
  case Nil
  then show ?case by (cases c) (simp_all add: compare_simps)
next
  case (Cons x a)
  then obtain y b' where b: "b = y # b'" by (cases b) (simp_all add: compare_simps)
  with Cons.prems obtain z c' where c: "c = z # c'" by (cases c) (simp_all add: compare_simps)
  show ?case
  proof (cases "x = y \<and> y = z")
    case True
    then show ?thesis using Cons.prems Cons.IH [of b' c'] by (simp add: b c compare_simps)
  next
    case False
    have "uint x \<le> uint y" "uint y \<le> uint z" using Cons.prems by (auto simp: b c compare_simps split: if_splits)
    then show ?thesis using False by (auto simp: c compare_simps word_uint_eq_iff)
  qed
qed

interpretation set_of: cmp_linear compare_set_of_element
  by unfold_locales (auto simp: compare_flip compare_eq intro: compare_trans)

section \<open>What the flush leaves\<close>

text \<open>A DER element.\<close>

definition der_item :: "byte list \<Rightarrow> bool" where
  "der_item x \<longleftrightarrow> (\<exists>tag body. valid_tag tag \<and> length body < 2 ^ 32 \<and> x = der_header tag (length body) @ body)"

lemma get_der_item:
  assumes "der_item x"
  obtains e where "CBS_get_any_asn1_element (x @ rest) = (Some e, rest)" and "elem_out e = x" and "x \<noteq> []"
proof -
  obtain tag body where x: "valid_tag tag" "length body < 2 ^ 32" "x = der_header tag (length body) @ body"
    using assms by (auto simp: der_item_def)
  have "x \<noteq> []" using x(3) by (simp add: der_header_def der_len_def)
  then show thesis using that [of "der_element tag body"] get_any_asn1_element_der [OF x(1,2), of rest] x(3)
    by (simp add: der_element_def)
qed

lemma count_children_items: "\<forall>x\<in>set es. der_item x \<Longrightarrow> count_children (concat es) = Some (length es)"
proof (induction es)
  case (Cons x es)
  then obtain e where "CBS_get_any_asn1_element (x @ concat es) = (Some e, concat es)" "x \<noteq> []"
    using get_der_item [of x "concat es"] by auto
  with Cons show ?case by (subst count_children.simps) (simp add: CBS_len_def)
qed (simp add: count_children.simps CBS_len_def)

lemma get_children_items: "\<forall>x\<in>set es. der_item x \<Longrightarrow> get_children (concat es) (length es) = Some es"
proof (induction es)
  case (Cons x es)
  then obtain e where "CBS_get_any_asn1_element (x @ concat es) = (Some e, concat es)" "elem_out e = x"
    using get_der_item [of x "concat es"] by auto
  with Cons show ?case by simp
qed simp

lemma write_children_eq:
  "off + length (concat cs) \<le> length out \<Longrightarrow> write_children out off cs = store out off (concat cs)"
proof (induction cs arbitrary: out off)
  case (Cons c cs)
  have "store (store out off c) (off + length c) (concat cs) = store out off (c @ concat cs)"
    using Cons.prems by (simp add: store_def ac_simps)
  with Cons show ?case by (simp add: CBS_len_def)
qed (simp add: store_def)

lemma count_children_SomeD:
  "count_children cbs = Some n \<Longrightarrow> \<exists>es. (\<forall>x\<in>set es. der_item x) \<and> cbs = concat es"
proof (induction cbs arbitrary: n rule: count_children.induct)
  case (1 cbs)
  show ?case
  proof (cases "CBS_len cbs = 0")
    case True
    then show ?thesis by (intro exI [of _ "[]"]) (simp add: CBS_len_def)
  next
    case False
    with "1.prems" obtain e rest m where e: "CBS_get_any_asn1_element cbs = (Some e, rest)"
      and m: "count_children rest = Some m"
      by (subst (asm) count_children.simps) (auto split: prod.splits option.splits)
    obtain es where es: "\<forall>x\<in>set es. der_item x" "rest = concat es" using "1.IH" [OF False _ _ m] e by auto
    obtain body where b: "valid_tag (elem_tag e)" "length body < 2 ^ 32"
      "e = der_element (elem_tag e) body" "cbs = elem_out e @ rest"
      using e by (rule get_any_asn1_element_sound)
    have "elem_out e = der_header (elem_tag e) (length body) @ body"
      using b(3) by (metis asn1_element.select_convs(1) der_element_def)
    then have "der_item (elem_out e)" using b(1,2) by (auto simp: der_item_def)
    then show ?thesis using es b(4) by (intro exI [of _ "elem_out e # es"]) simp
  qed
qed

text \<open>The contents lie inside the buffer.\<close>

lemma contents_range:
  assumes "wf_buffer (base s)" and "CBB_len cbb s \<noteq> 0"
  shows "CBB_data cbb s + CBB_len cbb s \<le> length (buf (base s))"
  using assms by (auto simp: wf_buffer_def CBB_data_def CBB_len_def split: CBB_ref.splits option.splits)

lemma length_contents: "wf_buffer (base s) \<Longrightarrow> length (cbb_contents cbb s) = CBB_len cbb s"
  using contents_range [of s cbb] by (cases "CBB_len cbb s = 0") (simp_all add: cbb_contents_def)

lemma CBB_len_le: "CBB_len cbb s \<le> blen (base s)"
  by (auto simp: CBB_len_def split: CBB_ref.splits option.splits)

definition with_contents :: "CBB_ref \<Rightarrow> byte list \<Rightarrow> CBB \<Rightarrow> CBB" where
  "with_contents cbb x s = s\<lparr>base := (base s)\<lparr>buf := store (buf (base s)) (CBB_data cbb s) x\<rparr>\<rparr>"

lemma store_own: "store b d (take n (drop d b)) = b"
proof -
  have "take n (drop d b) @ drop (length (take n (drop d b))) (drop d b) = drop d b"
    using append_take_drop_id [of n "drop d b"] by (cases "n \<le> length (drop d b)") (simp_all del: drop_drop)
  then show ?thesis by (simp add: store_def add.commute)
qed

lemma with_own_contents: "with_contents cbb (cbb_contents cbb s) s = s"
  by (simp add: with_contents_def cbb_contents_def store_own)

lemma length_concat_qsort [simp]: "length (concat (qsort cmp xs)) = length (concat xs)"
  by (simp add: length_concat flip: sum_mset_sum_list)

lemma contents_with_contents:
  assumes "wf_buffer (base s)" and "length x = CBB_len cbb s"
  shows "cbb_contents cbb (with_contents cbb x s) = x"
proof -
  let ?s = "with_contents cbb x s"
  have "CBB_data cbb ?s = CBB_data cbb s" "CBB_len cbb ?s = CBB_len cbb s"
    by (simp_all add: with_contents_def CBB_data_def CBB_len_def split: CBB_ref.splits option.splits)
  moreover have "take (length x) (drop (CBB_data cbb s) (store (buf (base s)) (CBB_data cbb s) x)) = x"
  proof (cases "x = []")
    case False
    then have "CBB_len cbb s \<noteq> 0" by (simp flip: assms(2))
    then have "CBB_data cbb s \<le> length (buf (base s))" using contents_range [OF assms(1)] by fastforce
    then show ?thesis by (simp add: store_def min_def)
  qed simp
  ultimately show ?thesis using assms(2) by (simp add: cbb_contents_def with_contents_def)
qed

lemma length_items: "\<forall>x\<in>set es. der_item x \<Longrightarrow> length es \<le> length (concat es)"
proof (induction es)
  case (Cons x es)
  moreover have "x \<noteq> []" using Cons.prems get_der_item [of x "[]"] by auto
  ultimately show ?case by (cases x) auto
qed simp

lemma set_of_items:
  assumes mal: "\<forall>m. mal m \<noteq> None" and r: "ready cbb s" and small: "blen (base s) < 2 ^ 59"
    and es: "\<forall>x\<in>set es. der_item x" "cbb_contents cbb s = concat es"
  shows "CBB_flush_asn1_set_of mal cbb s = (Some (), with_contents cbb (concat (qsort compare_set_of_element es)) s)"
proof (cases "length es < 2")
  case True
  then have "qsort compare_set_of_element es = es"
    by (cases es) (auto simp: qsort_def)
  then show ?thesis using True r es count_children_items [OF es(1)] with_own_contents [of cbb s]
    by (simp add: CBB_flush_asn1_set_of_def)
next
  case False
  have wf: "wf_buffer (base s)" using r by (simp add: ready_def)
  have len: "length (concat es) = CBB_len cbb s" using length_contents [OF wf, of cbb] es(2) by simp
  have n: "length es < 2 ^ 59" "CBB_len cbb s \<noteq> 0" "CBB_len cbb s < 2 ^ 63"
    using False length_items [OF es(1)] len CBB_len_le [of cbb s] small by simp_all
  obtain d where "OPENSSL_malloc mal (CBB_len cbb s) = Some d" using OPENSSL_malloc_total [OF mal n(3)] by blast
  then have dup: "OPENSSL_memdup mal (concat es) (CBB_len cbb s) = Some (concat es)"
    using n(2) len by (simp add: OPENSSL_memdup_def)
  obtain z where c: "OPENSSL_calloc mal (length es) sizeof_CBS = Some z" 
    using OPENSSL_calloc_total [OF mal, of "length es" sizeof_CBS] n(1) by (auto simp: sizeof_CBS_def)
  have "CBB_data cbb s + length (concat (qsort compare_set_of_element es)) \<le> length (buf (base s))"
    using contents_range [OF wf n(2)] len by simp
  then show ?thesis using False r es(2) dup c count_children_items [OF es(1)] get_children_items [OF es(1)]
    by (simp add: CBB_flush_asn1_set_of_def write_children_eq with_contents_def)
qed

text \<open>
  C34. A SET OF has one encoding: on contents that are a sequence of DER elements, with working
  allocations, \<open>CBB_flush_asn1_set_of\<close> succeeds and rewrites just these contents as the only
  arrangement of the same elements that ascends by encoding, so the order in which the
  elements were added does not matter; on any other contents it fails and changes nothing.
\<close>

theorem cbb_set_of_canonical:
  assumes "\<forall>m. mal m \<noteq> None" and "ready cbb s" and "blen (base s) < 2 ^ 59"
  shows "case CBB_flush_asn1_set_of mal cbb s of
      (Some _, s') \<Rightarrow> \<exists>es es'. (\<forall>x\<in>set es. der_item x) \<and> cbb_contents cbb s = concat es \<and>
        mset es' = mset es \<and> ascending compare_set_of_element es' \<and>
        (\<forall>es2. mset es2 = mset es \<and> ascending compare_set_of_element es2 \<longrightarrow> es2 = es') \<and>
        cbb_contents cbb s' = concat es' \<and> s' = with_contents cbb (concat es') s
    | (None, s') \<Rightarrow> s' = s \<and> (\<nexists>es. (\<forall>x\<in>set es. der_item x) \<and> cbb_contents cbb s = concat es)"
proof (cases "\<exists>es. (\<forall>x\<in>set es. der_item x) \<and> cbb_contents cbb s = concat es")
  case True
  then obtain es where es: "\<forall>x\<in>set es. der_item x" "cbb_contents cbb s = concat es" by blast
  let ?es = "qsort compare_set_of_element es"
  have wf: "wf_buffer (base s)" using assms(2) by (simp add: ready_def)
  have "cbb_contents cbb (with_contents cbb (concat ?es) s) = concat ?es"
    using length_contents [OF wf, of cbb] es(2) by (intro contents_with_contents wf) simp
  then show ?thesis unfolding set_of_items [OF assms es] prod.case option.case
    using es set_of.ascending_qsort [of es] set_of.ascending_unique by (intro exI [of _ es] exI [of _ ?es]) auto
next
  case False
  then have "count_children (cbb_contents cbb s) = None"
    using count_children_SomeD by (cases "count_children (cbb_contents cbb s)") blast+
  then show ?thesis using assms(2) False by (simp add: CBB_flush_asn1_set_of_def)
qed

theorem cbb_set_of_canonical_witness:
  "(let s = \<lparr>base = \<lparr>buf = [2, 1, 7, 1, 1, 0], blen = 6, cap = 6, can_resize = False, error = False\<rparr>, kids = []\<rparr>
    in ready Top s \<and>
       CBB_flush_asn1_set_of (\<lambda>n. Some (replicate n 0)) Top s =
         (Some (), with_contents Top [1, 1, 0, 2, 1, 7] s) \<and>
       (\<exists>es'. ascending compare_set_of_element es' \<and> concat es' = [1, 1, 0, 2, 1, 7]))"
proof -
  let ?s = "\<lparr>base = \<lparr>buf = [2, 1, 7, 1, 1, 0], blen = 6, cap = 6, can_resize = False, error = False\<rparr>, kids = []\<rparr>"
  let ?mal = "\<lambda>n. Some (replicate n 0)"
  have r: "ready Top ?s" by (simp add: ready_def wf_buffer_def)
  let ?es = "[[2, 1, 7], [1, 1, 0]] :: byte list list"
  have h: "der_header CBS_ASN1_INTEGER (Suc 0) = [2, 1]" "der_header CBS_ASN1_BOOLEAN (Suc 0) = [1, 1]"
    by (simp_all add: der_header_def der_tag_def der_len_def tag_class_def tag_no_def CBS_ASN1_INTEGER_def
        CBS_ASN1_BOOLEAN_def byte_of_def)
  have "der_item [2, 1, 7]"
    unfolding der_item_def by (intro exI [of _ CBS_ASN1_INTEGER] exI [of _ "[7]"]) (simp add: h)
  moreover have "der_item [1, 1, 0]"
    unfolding der_item_def by (intro exI [of _ CBS_ASN1_BOOLEAN] exI [of _ "[0]"]) (simp add: h)
  ultimately have es: "\<forall>x\<in>set ?es. der_item x" by simp
  have "qsort compare_set_of_element ?es = [[1, 1, 0], [2, 1, 7]]" by code_simp
  moreover have "cbb_contents Top ?s = concat ?es"
    by (simp add: cbb_contents_def CBB_data_def CBB_len_def)
  ultimately have f: "CBB_flush_asn1_set_of ?mal Top ?s = (Some (), with_contents Top [1, 1, 0, 2, 1, 7] ?s)"
    using set_of_items [of ?mal Top ?s ?es] r es by simp
  have c: "cbb_contents Top (with_contents Top [1, 1, 0, 2, 1, 7] ?s) = [1, 1, 0, 2, 1, 7]"
    by (simp add: with_contents_def cbb_contents_def CBB_data_def CBB_len_def store_def)
  have t: "(\<forall>m. ?mal m \<noteq> None)" "blen (base ?s) < 2 ^ 59" by simp_all
  obtain es' where "ascending compare_set_of_element es'"
    "cbb_contents Top (with_contents Top [1, 1, 0, 2, 1, 7] ?s) = concat es'"
    using cbb_set_of_canonical [OF t(1) r t(2)] unfolding f prod.case option.case by (elim exE conjE) (rule that)
  then have "\<exists>es'. ascending compare_set_of_element es' \<and> concat es' = [1, 1, 0, 2, 1, 7]"
    unfolding c by (intro exI [of _ es'] conjI) (assumption, rule sym)
  then show ?thesis unfolding Let_def by (intro conjI r f)
qed

end
