(* ===== verification/Ber.thy ===== *)
theory Ber
  imports Cbb_Props
begin

text \<open>
  Conversion of BER to DER (crypto/bytestring/ber.c): the search for indefinite lengths and
  constructed strings, the converter, which drives the element reader and the builder
  together, and the reader of implicitly tagged strings.
\<close>

section \<open>Tags of strings\<close>

definition CBS_ASN1_UTF8STRING :: u32 where "CBS_ASN1_UTF8STRING = 0xc"
definition CBS_ASN1_NUMERICSTRING :: u32 where "CBS_ASN1_NUMERICSTRING = 0x12"
definition CBS_ASN1_PRINTABLESTRING :: u32 where "CBS_ASN1_PRINTABLESTRING = 0x13"
definition CBS_ASN1_T61STRING :: u32 where "CBS_ASN1_T61STRING = 0x14"
definition CBS_ASN1_VIDEOTEXSTRING :: u32 where "CBS_ASN1_VIDEOTEXSTRING = 0x15"
definition CBS_ASN1_IA5STRING :: u32 where "CBS_ASN1_IA5STRING = 0x16"
definition CBS_ASN1_GRAPHICSTRING :: u32 where "CBS_ASN1_GRAPHICSTRING = 0x19"
definition CBS_ASN1_VISIBLESTRING :: u32 where "CBS_ASN1_VISIBLESTRING = 0x1a"
definition CBS_ASN1_GENERALSTRING :: u32 where "CBS_ASN1_GENERALSTRING = 0x1b"
definition CBS_ASN1_UNIVERSALSTRING :: u32 where "CBS_ASN1_UNIVERSALSTRING = 0x1c"
definition CBS_ASN1_BMPSTRING :: u32 where "CBS_ASN1_BMPSTRING = 0x1e"

lemmas string_tag_defs =
  CBS_ASN1_OCTETSTRING_def CBS_ASN1_UTF8STRING_def CBS_ASN1_NUMERICSTRING_def
  CBS_ASN1_PRINTABLESTRING_def CBS_ASN1_T61STRING_def CBS_ASN1_VIDEOTEXSTRING_def
  CBS_ASN1_IA5STRING_def CBS_ASN1_GRAPHICSTRING_def CBS_ASN1_VISIBLESTRING_def
  CBS_ASN1_GENERALSTRING_def CBS_ASN1_UNIVERSALSTRING_def CBS_ASN1_BMPSTRING_def

definition is_string_type :: "CBS_ASN1_TAG \<Rightarrow> bool" where
  "is_string_type tag \<longleftrightarrow>
     tag AND NOT CBS_ASN1_CONSTRUCTED \<in>
       {CBS_ASN1_OCTETSTRING, CBS_ASN1_UTF8STRING, CBS_ASN1_NUMERICSTRING, CBS_ASN1_PRINTABLESTRING,
        CBS_ASN1_T61STRING, CBS_ASN1_VIDEOTEXSTRING, CBS_ASN1_IA5STRING, CBS_ASN1_GRAPHICSTRING,
        CBS_ASN1_VISIBLESTRING, CBS_ASN1_GENERALSTRING, CBS_ASN1_UNIVERSALSTRING, CBS_ASN1_BMPSTRING}"

section \<open>Finding BER\<close>

definition kMaxDepth :: nat where "kMaxDepth = 128"

text \<open>The element reader in BER mode, on the two forms of a length that start with a set top bit.\<close>

lemma ber_element_long:
  assumes t: "parse_asn1_tag cbs = (Some tag, lb # h)" and lb: "lb AND 0x80 \<noteq> 0"
    and nb: "unat (lb AND 0x7f) = nb" "0 < nb" "nb \<le> 4" "nb \<le> length h"
  defines "n \<equiv> be_val (take nb h)"
  shows "CBS_get_any_ber_asn1_element cbs =
    and_then (CBS_get_bytes cbs (n + Suc (length (der_tag tag)) + nb)) (\<lambda>out cbs'.
      (Some \<lparr>elem_out = out, elem_tag = tag, elem_header_len = Suc (length (der_tag tag)) + nb,
             elem_ber_found = (n < 128 \<or> n < 256 ^ (nb - 1)), elem_indefinite = False\<rparr>, cbs'))"
proof -
  let ?v = "be_loop 0 (take nb h)" and ?d = "Suc (length (der_tag tag))"
  have v: "unat ?v = n" using nb unfolding n_def by (intro be_loop_be_val) simp
  have "n < 256 ^ length (take nb h)" unfolding n_def by (rule be_val_lt)
  also have "\<dots> \<le> 256 ^ 4" using nb by (intro power_increasing) simp_all
  finally have small: "unat ?v < 2 ^ 32" by (simp add: v)
  note la = length_arith [OF small, of ?d nb]
  have d: "?d \<le> 16" using length_der_tag(2) [of tag] by simp
  have l: "CBS_len cbs - CBS_len h = ?d" using parse_asn1_tag_sound(1) [OF t] by (simp add: CBS_len_def)
  have ov: "drop_bit ((nb - 1) * 8) ?v = 0 \<longleftrightarrow> n < 256 ^ (nb - 1)"
    using power_mult [of "2 :: nat" 8 "nb - 1"] by (simp add: shift_len v mult.commute)
  have s: "?v < 128 \<longleftrightarrow> n < 128" by (simp add: word_less_nat_alt v)
  have u: "cbs_get_u h nb = (Some ?v, drop nb h)" using nb(4) by (simp add: cbs_get_u_eq)
  show ?thesis
    unfolding CBS_get_any_ber_asn1_element_def cbs_get_any_asn1_element_def t
    using lb nb(2,3) la(1) [OF d nb(3)] la(2) [OF d nb(3)]
    by (simp add: l nb(1) u ov ov [unfolded One_nat_def] s v Let_def del: of_nat_Suc)
qed

lemma ber_element_indefinite:
  assumes t: "parse_asn1_tag cbs = (Some tag, lb # h)" and lb: "lb AND 0x80 \<noteq> 0"
    and nb: "unat (lb AND 0x7f) = 0" and c: "tag AND CBS_ASN1_CONSTRUCTED \<noteq> 0"
  shows "CBS_get_any_ber_asn1_element cbs =
    (Some \<lparr>elem_out = der_tag tag @ [lb], elem_tag = tag, elem_header_len = Suc (length (der_tag tag)),
           elem_ber_found = True, elem_indefinite = True\<rparr>, h)"
  unfolding CBS_get_any_ber_asn1_element_def cbs_get_any_asn1_element_def t
  using lb c parse_asn1_tag_sound(1) [OF t] by (simp add: nb Let_def CBS_len_def CBS_get_bytes_eq)

lemma ber_element_short:
  assumes t: "parse_asn1_tag cbs = (Some tag, lb # h)" and lb: "lb AND 0x80 = 0"
  shows "CBS_get_any_ber_asn1_element cbs =
    and_then (CBS_get_bytes cbs (unat lb + Suc (length (der_tag tag)))) (\<lambda>out cbs'.
      (Some \<lparr>elem_out = out, elem_tag = tag, elem_header_len = Suc (length (der_tag tag)),
             elem_ber_found = False, elem_indefinite = False\<rparr>, cbs'))"
  unfolding CBS_get_any_ber_asn1_element_def cbs_get_any_asn1_element_def t
  using lb parse_asn1_tag_sound(1) [OF t] by (simp add: Let_def CBS_len_def)

lemma get_any_ber_element_tag:
  assumes "CBS_get_any_ber_asn1_element cbs = (Some e, rest)"
  obtains tag lb h where "parse_asn1_tag cbs = (Some tag, lb # h)"
    and "lb AND 0x80 = 0 \<or> (unat (lb AND 0x7f) = 0 \<and> tag AND CBS_ASN1_CONSTRUCTED \<noteq> 0) \<or>
      (0 < unat (lb AND 0x7f) \<and> unat (lb AND 0x7f) \<le> 4 \<and> unat (lb AND 0x7f) \<le> length h)"
proof -
  obtain tag h1 where t: "parse_asn1_tag cbs = (Some tag, h1)"
    using assms by (auto simp: CBS_get_any_ber_asn1_element_def cbs_get_any_asn1_element_def
        split: prod.splits option.splits)
  obtain lb h where u: "h1 = lb # h"
    using assms t by (cases h1) (simp_all add: CBS_get_any_ber_asn1_element_def cbs_get_any_asn1_element_def)
  have "lb AND 0x80 = 0 \<or> (unat (lb AND 0x7f) = 0 \<and> tag AND CBS_ASN1_CONSTRUCTED \<noteq> 0) \<or>
      (0 < unat (lb AND 0x7f) \<and> unat (lb AND 0x7f) \<le> 4 \<and> unat (lb AND 0x7f) \<le> length h)"
  proof (rule ccontr)
    assume "\<not> ?thesis"
    then have "CBS_get_any_ber_asn1_element cbs = (None, cbs)"
      unfolding CBS_get_any_ber_asn1_element_def cbs_get_any_asn1_element_def t u
      by (auto simp: Let_def cbs_get_u_eq)
    then show False using assms by simp
  qed
  then show thesis using that t u by blast
qed

text \<open>What the reader takes is not empty and comes from the front.\<close>

lemma get_any_ber_element_range:
  assumes "CBS_get_any_ber_asn1_element cbs = (Some e, rest)"
  shows "length rest < length cbs"
proof -
  obtain tag lb h where t: "parse_asn1_tag cbs = (Some tag, lb # h)"
    and form: "lb AND 0x80 = 0 \<or> (unat (lb AND 0x7f) = 0 \<and> tag AND CBS_ASN1_CONSTRUCTED \<noteq> 0) \<or>
      (0 < unat (lb AND 0x7f) \<and> unat (lb AND 0x7f) \<le> 4 \<and> unat (lb AND 0x7f) \<le> length h)"
    using assms by (rule get_any_ber_element_tag)
  have l: "length cbs = Suc (length (der_tag tag) + length h)"
    using parse_asn1_tag_sound(1) [OF t] by simp
  show ?thesis
  proof (cases "lb AND 0x80 = 0")
    case True
    then show ?thesis using assms l by (auto simp: ber_element_short [OF t] CBS_get_bytes_eq split: if_splits)
  next
    case False
    with form consider "unat (lb AND 0x7f) = 0" "tag AND CBS_ASN1_CONSTRUCTED \<noteq> 0"
      | "0 < unat (lb AND 0x7f)" "unat (lb AND 0x7f) \<le> 4" "unat (lb AND 0x7f) \<le> length h"
      by (elim disjE conjE) simp_all
    then show ?thesis
    proof cases
      case 1
      then show ?thesis using assms False l by (simp add: ber_element_indefinite [OF t])
    next
      case 2
      then show ?thesis using assms l
        by (auto simp: ber_element_long [OF t False refl 2] CBS_get_bytes_eq split: if_splits)
    qed
  qed
qed

text \<open>
  \<open>cbs_find_ber\<close> on a copy of its input; the outer \<open>None\<close> is the error return. The depth is
  checked again on every round of the loop, where it has not changed.
\<close>

function cbs_find_ber :: "nat \<Rightarrow> CBS \<Rightarrow> bool option" where
  "cbs_find_ber depth cbs =
     (if depth > kMaxDepth then None
      else if CBS_len cbs = 0 then Some False
      else
        case CBS_get_any_ber_asn1_element cbs of
          (None, _) \<Rightarrow> None
        | (Some e, cbs') \<Rightarrow>
            if elem_ber_found e then Some True
            else if elem_tag e AND CBS_ASN1_CONSTRUCTED \<noteq> 0 then
              if is_string_type (elem_tag e) then Some True
              else
                (case CBS_skip (elem_out e) (elem_header_len e) of
                   (None, _) \<Rightarrow> None
                 | (Some _, contents) \<Rightarrow>
                     (case cbs_find_ber (depth + 1) contents of
                        None \<Rightarrow> None
                      | Some True \<Rightarrow> Some True
                      | Some False \<Rightarrow> cbs_find_ber depth cbs'))
            else cbs_find_ber depth cbs')"
  by pat_completeness auto

termination
  by (relation "measures [\<lambda>(depth, _). Suc kMaxDepth - depth, \<lambda>(_, cbs). length cbs]")
    (auto dest: get_any_ber_element_range [OF sym])

declare cbs_find_ber.simps [simp del]

section \<open>Converting\<close>

text \<open>\<open>cbs_get_eoc\<close>: whether the input starts with an end of contents, and the input after it.\<close>

definition cbs_get_eoc :: "CBS \<Rightarrow> bool \<times> CBS" where
  "cbs_get_eoc cbs =
     (if CBS_len cbs \<ge> 2 \<and> cbs ! 0 = 0 \<and> cbs ! 1 = 0 then (True, drop 2 cbs) else (False, cbs))"

text \<open>
  The converter works on the input and the builder. An operation of the builder leaves the
  input alone.
\<close>

definition on_cbb :: "(CBB \<Rightarrow> 'a option \<times> CBB) \<Rightarrow> CBS \<times> CBB \<Rightarrow> 'a option \<times> (CBS \<times> CBB)" where
  "on_cbb f st = (case f (snd st) of (r, s') \<Rightarrow> (r, (fst st, s')))"

text \<open>
  Where the contents of an element go and which tag their fragments must have. The child is a
  local object of the call.
\<close>

definition convert_target :: "malloc \<Rightarrow> CBB_ref \<Rightarrow> CBS_ASN1_TAG \<Rightarrow> CBS_ASN1_TAG \<Rightarrow> CBB \<Rightarrow>
    (CBB_ref \<times> CBS_ASN1_TAG) option \<times> CBB" where
  "convert_target mal out string_tag tag s =
     (if string_tag \<noteq> 0 then
        if tag AND NOT CBS_ASN1_CONSTRUCTED \<noteq> string_tag then (None, s)
        else (Some (out, string_tag), s)
      else
        let (out_tag, child_string_tag) =
              (if tag AND CBS_ASN1_CONSTRUCTED \<noteq> 0 \<and> is_string_type tag
               then (tag AND NOT CBS_ASN1_CONSTRUCTED, tag AND NOT CBS_ASN1_CONSTRUCTED)
               else (tag, string_tag));
            i = local_child s
        in and_then (CBB_add_asn1 mal out i out_tag s) (\<lambda>_ s1. (Some (Child i, child_string_tag), s1)))"

text \<open>
  One round of the loop is one call here; the depth, checked on entry in the code, is the same
  on every round. An element of indefinite length continues in the same input, so the rest of
  the loop runs on what the inner call leaves.
\<close>

function cbs_convert_ber :: "malloc \<Rightarrow> CBB_ref \<Rightarrow> CBS_ASN1_TAG \<Rightarrow> bool \<Rightarrow> nat \<Rightarrow> CBS \<times> CBB \<Rightarrow>
    unit option \<times> (CBS \<times> CBB)" where
  "cbs_convert_ber mal out string_tag looking_for_eoc depth st =
     (if depth > kMaxDepth then (None, st)
      else if CBS_len (fst st) = 0 then (if looking_for_eoc then None else Some (), st)
      else if looking_for_eoc \<and> fst (cbs_get_eoc (fst st)) then
        (Some (), (snd (cbs_get_eoc (fst st)), snd st))
      else
        case CBS_get_any_ber_asn1_element (fst st) of
          (None, cbs') \<Rightarrow> (None, (cbs', snd st))
        | (Some e, cbs') \<Rightarrow>
            and_then (on_cbb (convert_target mal out string_tag (elem_tag e)) (cbs', snd st)) (\<lambda>target st1.
            and_then
              (if elem_indefinite e then
                 cbs_convert_ber mal (fst target) (snd target) True (depth + 1) (cbs', snd st1)
               else
                 case CBS_skip (elem_out e) (elem_header_len e) of
                   (None, _) \<Rightarrow> (None, st1)
                 | (Some _, contents) \<Rightarrow>
                     if elem_tag e AND CBS_ASN1_CONSTRUCTED \<noteq> 0 then
                       case cbs_convert_ber mal (fst target) (snd target) False (depth + 1) (contents, snd st1) of
                         (r, (_, s2)) \<Rightarrow> (r, (cbs', s2))
                     else on_cbb (CBB_add_bytes mal (fst target) contents) (cbs', snd st1))
              (\<lambda>_ st2.
            and_then (on_cbb (CBB_flush mal out) st2) (\<lambda>_ st3.
              cbs_convert_ber mal out string_tag looking_for_eoc depth st3))))"
  by pat_completeness auto

text \<open>The converter does not lengthen its input.\<close>

lemma on_cbb_fst: "on_cbb f st = (r, st') \<Longrightarrow> fst st' = fst st"
  by (auto simp: on_cbb_def split: prod.splits)

lemma length_eoc: "length (snd (cbs_get_eoc cbs)) \<le> length cbs"
  by (simp add: cbs_get_eoc_def)

lemma convert_ber_shorter:
  assumes "cbs_convert_ber_dom (mal, out, string_tag, looking, depth, st)"
  shows "length (fst (snd (cbs_convert_ber mal out string_tag looking depth st))) \<le> length (fst st)"
  using assms
proof (induction rule: cbs_convert_ber.pinduct)
  case (1 mal out string_tag looking depth st)
  note IH = "1.IH"
  show ?case
  proof (cases "depth > kMaxDepth \<or> CBS_len (fst st) = 0 \<or> looking \<and> fst (cbs_get_eoc (fst st))")
    case True
    then show ?thesis using length_eoc [of "fst st"] unfolding cbs_convert_ber.psimps [OF "1.hyps"] by auto
  next
    case False
    obtain r cbs' where g: "CBS_get_any_ber_asn1_element (fst st) = (r, cbs')" by fastforce
    show ?thesis
    proof (cases r)
      case None
      then show ?thesis
        using cbs_get_any_asn1_element_fail [of True "fst st" cbs'] g False
        unfolding cbs_convert_ber.psimps [OF "1.hyps"] by (auto simp: CBS_get_any_ber_asn1_element_def)
    next
      case (Some e)
      have l: "length cbs' < length (fst st)" using g Some get_any_ber_element_range by blast
      have n: "\<not> depth > kMaxDepth" "CBS_len (fst st) \<noteq> 0" "\<not> (looking \<and> fst (cbs_get_eoc (fst st)))"
        using False by auto
      obtain t st1 where T: "on_cbb (convert_target mal out string_tag (elem_tag e)) (cbs', snd st) = (t, st1)"
        by (metis surj_pair)
      have st1: "fst st1 = cbs'" using on_cbb_fst [OF T] by simp
      show ?thesis
      proof (cases t)
        case None
        then show ?thesis using n g Some T st1 l unfolding cbs_convert_ber.psimps [OF "1.hyps"] by auto
      next
        case t: (Some target)
        define B where "B = (if elem_indefinite e then
                 cbs_convert_ber mal (fst target) (snd target) True (depth + 1) (cbs', snd st1)
               else
                 case CBS_skip (elem_out e) (elem_header_len e) of
                   (None, _) \<Rightarrow> (None, st1)
                 | (Some _, contents) \<Rightarrow>
                     if elem_tag e AND CBS_ASN1_CONSTRUCTED \<noteq> 0 then
                       case cbs_convert_ber mal (fst target) (snd target) False (depth + 1) (contents, snd st1) of
                         (r, (_, s2)) \<Rightarrow> (r, (cbs', s2))
                     else on_cbb (CBB_add_bytes mal (fst target) contents) (cbs', snd st1))"
        have eq: "cbs_convert_ber mal out string_tag looking depth st =
            and_then B (\<lambda>_ st2. and_then (on_cbb (CBB_flush mal out) st2) (\<lambda>_ st3.
              cbs_convert_ber mal out string_tag looking depth st3))"
          using n g Some T t unfolding cbs_convert_ber.psimps [OF "1.hyps"] B_def by auto
        obtain b st2 where b: "B = (b, st2)" by (metis surj_pair)
        have st2: "length (fst st2) \<le> length cbs'"
        proof (cases "elem_indefinite e")
          case True
          from IH(1) [OF n g [symmetric] Some _ this, of target st1] T t b show ?thesis
            by (simp add: B_def True)
        next
          case False
          then show ?thesis using b st1
            by (auto simp: B_def split: prod.splits option.splits if_splits dest: on_cbb_fst)
        qed
        obtain f st3 where f: "on_cbb (CBB_flush mal out) st2 = (f, st3)" by (metis surj_pair)
        have st3: "fst st3 = fst st2" using on_cbb_fst [OF f] .
        show ?thesis
        proof (cases "b = None \<or> f = None")
          case True
          then show ?thesis using b f st2 st3 l by (cases b) (auto simp: eq)
        next
          case False
          then have bf: "B = (Some (), st2)" "on_cbb (CBB_flush mal out) st2 = (Some (), st3)"
            using b f by auto
          have "length (fst (snd (cbs_convert_ber mal out string_tag looking depth st3))) \<le> length (fst st3)"
            using IH(3) [OF n g [symmetric] Some _ _ bf(2), of target st1] T t bf(1) by (simp add: B_def)
          then show ?thesis using bf st2 st3 l by (simp add: eq)
        qed
      qed
    qed
  qed
qed

termination cbs_convert_ber
proof (relation "measures [\<lambda>(_, _, _, _, depth, _). Suc kMaxDepth - depth, \<lambda>(_, _, _, _, _, st). length (fst st)]", goal_cases)
  case 1
  then show ?case by simp
next
  case 2
  then show ?case by (simp add: Suc_diff_le)
next
  case 3
  then show ?case by (simp add: Suc_diff_le)
next
  case 4
  then show ?case
    by (auto dest!: get_any_ber_element_range [OF sym] on_cbb_fst convert_ber_shorter split: prod.splits option.splits if_splits)
qed

declare cbs_convert_ber.simps [simp del]

text \<open>
  The result is the DER data with, when a conversion was needed, the block that holds it
  (\<open>out_storage\<close>); then comes what is left of the input.
\<close>

definition CBS_asn1_ber_to_der :: "malloc \<Rightarrow> CBS \<Rightarrow> (CBS \<times> byte list option) option \<times> CBS" where
  "CBS_asn1_ber_to_der mal cbs =
     (case cbs_find_ber 0 cbs of
        None \<Rightarrow> (None, cbs)
      | Some False \<Rightarrow> and_then (CBS_get_any_asn1_element cbs) (\<lambda>e cbs'. (Some (elem_out e, None), cbs'))
      | Some True \<Rightarrow>
          (case CBB_init mal (CBS_len cbs) of
             (None, _) \<Rightarrow> (None, cbs)
           | (Some _, cbb) \<Rightarrow>
               (case cbs_convert_ber mal Top 0 False 0 (cbs, cbb) of
                  (None, (cbs', _)) \<Rightarrow> (None, cbs')
                | (Some _, (cbs', cbb1)) \<Rightarrow>
                    (case CBB_finish mal Top cbb1 of
                       (None, _) \<Rightarrow> (None, cbs')
                     | (Some (data, len), _) \<Rightarrow> (Some (CBS_init data len, Some data), cbs')))))"

section \<open>Implicitly tagged strings\<close>

lemma get_asn1_shorter: "CBS_get_asn1 cbs tag = (Some body, rest) \<Longrightarrow> length rest < length cbs"
  by (auto simp: CBS_get_asn1_iff der_header_def der_len_def)

function implicit_string_loop :: "malloc \<Rightarrow> CBS_ASN1_TAG \<Rightarrow> CBS \<Rightarrow> CBB \<Rightarrow> unit option \<times> CBB" where
  "implicit_string_loop mal inner_tag child result =
     (if CBS_len child > 0 then
        (case CBS_get_asn1 child inner_tag of
           (None, _) \<Rightarrow> (None, result)
         | (Some chunk, child') \<Rightarrow>
             and_then (CBB_add_bytes mal Top chunk result) (\<lambda>_ result1.
               implicit_string_loop mal inner_tag child' result1))
      else (Some (), result))"
  by pat_completeness auto

termination
  by (relation "measure (\<lambda>(_, _, child, _). length child)") (auto dest: get_asn1_shorter [OF sym])

declare implicit_string_loop.simps [simp del]

definition CBS_get_asn1_implicit_string :: "malloc \<Rightarrow> CBS \<Rightarrow> CBS_ASN1_TAG \<Rightarrow> CBS_ASN1_TAG \<Rightarrow>
    (CBS \<times> byte list option) option \<times> CBS" where
  "CBS_get_asn1_implicit_string mal cbs outer_tag inner_tag =
     (if CBS_peek_asn1_tag cbs outer_tag then
        and_then (CBS_get_asn1 cbs outer_tag) (\<lambda>out cbs'. (Some (out, None), cbs'))
      else
        case CBB_init mal (CBS_len cbs) of
          (None, _) \<Rightarrow> (None, cbs)
        | (Some _, result) \<Rightarrow>
            and_then (CBS_get_asn1 cbs (outer_tag OR CBS_ASN1_CONSTRUCTED)) (\<lambda>child cbs'.
              case implicit_string_loop mal inner_tag child result of
                (None, _) \<Rightarrow> (None, cbs')
              | (Some _, result1) \<Rightarrow>
                  (case CBB_finish mal Top result1 of
                     (None, _) \<Rightarrow> (None, cbs')
                   | (Some (data, len), _) \<Rightarrow> (Some (CBS_init data len, Some data), cbs'))))"

end
