(* ===== verification/Ber_Props.thy ===== *)
theory Ber_Props
  imports Ber
begin

text \<open>
  BER to DER against a grammar of BER: trees of elements with the form of each length. The
  converter maps the encoding of a tree to the DER encoding of its normal form.
\<close>

section \<open>BER values\<close>

text \<open>
  A primitive element has a tag, contents and the size of its length: 0 for the short form,
  or the number of length bytes. A constructed element has elements as contents and either
  such a size or no length at all (the indefinite form).
\<close>

datatype ber =
    Primitive CBS_ASN1_TAG "byte list" nat
  | Constructed CBS_ASN1_TAG "ber list" "nat option"

definition ber_len :: "nat \<Rightarrow> nat \<Rightarrow> byte list" where
  "ber_len k n = (if k = 0 then [byte_of n] else byte_of (128 + k) # be_bytes k n)"

definition len_ok :: "nat \<Rightarrow> nat \<Rightarrow> bool" where
  "len_ok k n \<longleftrightarrow> (if k = 0 then n < 128 else k \<le> 4 \<and> n < 256 ^ k)"

definition len_minimal :: "nat \<Rightarrow> nat \<Rightarrow> bool" where
  "len_minimal k n \<longleftrightarrow> k = 0 \<or> 128 \<le> n \<and> 256 ^ (k - 1) \<le> n"

fun ber_enc :: "ber \<Rightarrow> byte list" where
  "ber_enc (Primitive tag body k) = der_tag tag @ ber_len k (length body) @ body"
| "ber_enc (Constructed tag cs (Some k)) =
     der_tag tag @ ber_len k (length (concat (map ber_enc cs))) @ concat (map ber_enc cs)"
| "ber_enc (Constructed tag cs None) = der_tag tag @ [0x80] @ concat (map ber_enc cs) @ [0, 0]"

text \<open>The contents of a string with its fragments put together, and the DER normal form.\<close>

fun ber_string :: "ber \<Rightarrow> byte list" where
  "ber_string (Primitive tag body k) = body"
| "ber_string (Constructed tag cs f) = concat (map ber_string cs)"

definition der_enc :: "CBS_ASN1_TAG \<Rightarrow> byte list \<Rightarrow> byte list" where
  "der_enc tag body = der_header tag (length body) @ body"

fun ber_der :: "ber \<Rightarrow> byte list" where
  "ber_der (Primitive tag body k) = der_enc tag body"
| "ber_der (Constructed tag cs f) =
     (if is_string_type tag then der_enc (tag AND NOT CBS_ASN1_CONSTRUCTED) (concat (map ber_string cs))
      else der_enc tag (concat (map ber_der cs)))"

text \<open>Well-formed values; the fragments of a string have its tag.\<close>

fun ber_fragment :: "CBS_ASN1_TAG \<Rightarrow> ber \<Rightarrow> bool" where
  "ber_fragment t (Primitive tag body k) \<longleftrightarrow> tag AND NOT CBS_ASN1_CONSTRUCTED = t"
| "ber_fragment t (Constructed tag cs f) \<longleftrightarrow>
     tag AND NOT CBS_ASN1_CONSTRUCTED = t \<and> (\<forall>c\<in>set cs. ber_fragment t c)"

fun ber_wf :: "ber \<Rightarrow> bool" where
  "ber_wf (Primitive tag body k) \<longleftrightarrow>
     valid_tag tag \<and> tag AND CBS_ASN1_CONSTRUCTED = 0 \<and> len_ok k (length body)"
| "ber_wf (Constructed tag cs f) \<longleftrightarrow>
     valid_tag tag \<and> tag AND CBS_ASN1_CONSTRUCTED \<noteq> 0 \<and>
     (case f of None \<Rightarrow> True | Some k \<Rightarrow> len_ok k (length (concat (map ber_enc cs)))) \<and>
     (\<forall>c\<in>set cs. ber_wf c) \<and>
     (is_string_type tag \<longrightarrow> (\<forall>c\<in>set cs. ber_fragment (tag AND NOT CBS_ASN1_CONSTRUCTED) c))"

text \<open>Constructed elements nested at most \<open>d\<close> deep, and values that are in DER already.\<close>

fun ber_nested :: "nat \<Rightarrow> ber \<Rightarrow> bool" where
  "ber_nested d (Primitive tag body k) \<longleftrightarrow> True"
| "ber_nested d (Constructed tag cs f) \<longleftrightarrow> 0 < d \<and> (\<forall>c\<in>set cs. ber_nested (d - 1) c)"

fun ber_is_der :: "ber \<Rightarrow> bool" where
  "ber_is_der (Primitive tag body k) \<longleftrightarrow> len_minimal k (length body)"
| "ber_is_der (Constructed tag cs f) \<longleftrightarrow>
     (case f of None \<Rightarrow> False | Some k \<Rightarrow> len_minimal k (length (concat (map ber_enc cs)))) \<and>
     \<not> is_string_type tag \<and> (\<forall>c\<in>set cs. ber_is_der c)"

section \<open>Reading an element of a value\<close>

lemma ber_len_minimal: "len_ok k n \<Longrightarrow> len_minimal k n \<Longrightarrow> ber_len k n = der_len n"
proof (cases k)
  case (Suc j)
  assume "len_ok k n" "len_minimal k n"
  then show ?thesis using der_len_be_bytes [OF Suc, of n] Suc
    by (simp add: ber_len_def len_ok_def len_minimal_def)
qed (simp add: ber_len_def der_len_def len_ok_def)

lemma read_definite:
  assumes "valid_tag tag" and k: "len_ok k (length body)"
  shows "CBS_get_any_ber_asn1_element (der_tag tag @ ber_len k (length body) @ body @ rest) =
    (Some \<lparr>elem_out = der_tag tag @ ber_len k (length body) @ body, elem_tag = tag,
           elem_header_len = length (der_tag tag @ ber_len k (length body)),
           elem_ber_found = (\<not> len_minimal k (length body)), elem_indefinite = False\<rparr>, rest)"
proof (cases k)
  case 0
  have b: "byte_of (length body) AND 0x80 = 0" "unat (byte_of (length body)) = length body"
    using k 0 by (simp_all add: len_ok_def and_80_eq_0_iff)
  show ?thesis
    using ber_element_short [OF parse_asn1_tag_der [OF assms(1)] b(1), of "body @ rest"] 0 b(2)
    by (simp add: ber_len_def CBS_get_bytes_eq len_minimal_def)
next
  case (Suc j)
  let ?n = "length body" and ?lb = "byte_of (128 + k)"
  have k4: "0 < k" "k \<le> 4" "?n < 256 ^ k" using k Suc by (simp_all add: len_ok_def)
  have b: "?lb AND 0x80 \<noteq> 0" "unat (?lb AND 0x7f) = k" using k4
    by (simp_all add: and_80_eq_0_iff unat_and_7F)
  have t: "take k (be_bytes k ?n @ body @ rest) = be_bytes k ?n" by simp
  have v: "be_val (be_bytes k ?n) = ?n" using k4(3) by (simp add: be_val_be_bytes)
  have p: "parse_asn1_tag (der_tag tag @ ?lb # be_bytes k ?n @ body @ rest) = (Some tag, ?lb # be_bytes k ?n @ body @ rest)"
    by (rule parse_asn1_tag_der [OF assms(1)])
  have "CBS_get_any_ber_asn1_element (der_tag tag @ ?lb # be_bytes k ?n @ body @ rest) =
      and_then (CBS_get_bytes (der_tag tag @ ?lb # be_bytes k ?n @ body @ rest) (?n + Suc (length (der_tag tag)) + k))
        (\<lambda>out cbs'. (Some \<lparr>elem_out = out, elem_tag = tag, elem_header_len = Suc (length (der_tag tag)) + k,
             elem_ber_found = (?n < 128 \<or> ?n < 256 ^ (k - 1)), elem_indefinite = False\<rparr>, cbs'))"
    using ber_element_long [OF p b(1) b(2) k4(1,2)] by (simp add: t v del: be_bytes.simps)
  then show ?thesis using k4 Suc
    by (auto simp: ber_len_def CBS_get_bytes_eq len_minimal_def simp del: be_bytes.simps)
qed

lemma read_indefinite:
  assumes "valid_tag tag" and "tag AND CBS_ASN1_CONSTRUCTED \<noteq> 0"
  shows "CBS_get_any_ber_asn1_element (der_tag tag @ 0x80 # rest) =
    (Some \<lparr>elem_out = der_tag tag @ [0x80], elem_tag = tag, elem_header_len = Suc (length (der_tag tag)),
           elem_ber_found = True, elem_indefinite = True\<rparr>, rest)"
  by (rule ber_element_indefinite [OF parse_asn1_tag_der [OF assms(1)] _ _ assms(2)]) simp_all

text \<open>An element does not start with the two zeros of an end of contents.\<close>

lemma der_tag_first: "valid_tag tag \<Longrightarrow> der_tag tag \<noteq> [] \<and> hd (der_tag tag) \<noteq> 0"
  using tag_class_lt [of tag]
  by (auto simp: der_tag_def valid_tag_def byte_eq_iff)

lemma no_eoc: "valid_tag tag \<Longrightarrow> \<not> fst (cbs_get_eoc (der_tag tag @ rest))"
  using der_tag_first [of tag] by (cases "der_tag tag") (auto simp: cbs_get_eoc_def)

lemma skip_header [simp]: "CBS_skip (h @ body) (length h) = (Some (), body)"
  by (simp add: CBS_skip_def cbs_get_def CBS_len_def)

lemma ber_enc_nonempty: "ber_wf c \<Longrightarrow> CBS_len (ber_enc c @ cbs) \<noteq> 0"
  using der_tag_first by (cases c rule: ber_enc.cases) (auto simp: CBS_len_def)

lemma ber_no_eoc: "ber_wf c \<Longrightarrow> \<not> fst (cbs_get_eoc (ber_enc c @ cbs))"
  using no_eoc by (cases c rule: ber_enc.cases) simp_all

section \<open>Finding BER\<close>

lemma find_ber_list:
  assumes "\<forall>c\<in>set cs. ber_wf c \<and> ber_nested d c" and "depth + d = kMaxDepth"
  shows "cbs_find_ber depth (concat (map ber_enc cs)) = Some (\<exists>c\<in>set cs. \<not> ber_is_der c)"
  using assms
proof (induction d arbitrary: cs depth)
  case 0
  then show ?case
  proof (induction cs)
    case (Cons c cs)
    then obtain tag body k where c: "c = Primitive tag body k" by (cases c) auto
    have r: "CBS_get_any_ber_asn1_element (ber_enc c @ concat (map ber_enc cs)) =
        (Some \<lparr>elem_out = der_tag tag @ ber_len k (length body) @ body, elem_tag = tag,
           elem_header_len = length (der_tag tag @ ber_len k (length body)),
           elem_ber_found = (\<not> len_minimal k (length body)), elem_indefinite = False\<rparr>, concat (map ber_enc cs))"
      using Cons.prems read_definite [of tag k body "concat (map ber_enc cs)"] by (simp add: c)
    then show ?case using Cons ber_enc_nonempty [of c "concat (map ber_enc cs)"]
      by (subst cbs_find_ber.simps) (simp add: c)
  qed (simp add: cbs_find_ber.simps CBS_len_def)
next
  case (Suc d)
  note IH = Suc.IH
  from Suc.prems show ?case
  proof (induction cs)
    case (Cons c cs)
    let ?r = "concat (map ber_enc cs)"
    have ne: "CBS_len (ber_enc c @ ?r) \<noteq> 0" using Cons.prems by (intro ber_enc_nonempty) simp
    have loop: "cbs_find_ber depth ?r = Some (\<exists>c\<in>set cs. \<not> ber_is_der c)" using Cons by simp
    show ?case
    proof (cases c rule: ber_enc.cases)
      case (1 tag body k)
      then show ?thesis using Cons.prems ne loop read_definite [of tag k body ?r]
        by (subst cbs_find_ber.simps) simp
    next
      case (2 tag ds k)
      let ?b = "concat (map ber_enc ds)"
      have "cbs_find_ber (depth + 1) ?b = Some (\<exists>c\<in>set ds. \<not> ber_is_der c)"
        using Cons.prems 2 by (intro IH) simp_all
      moreover have "CBS_skip (der_tag tag @ ber_len k (length ?b) @ ?b) (length (der_tag tag @ ber_len k (length ?b))) = (Some (), ?b)"
        using skip_header [of "der_tag tag @ ber_len k (length ?b)" ?b] by simp
      ultimately show ?thesis using Cons.prems 2 ne loop read_definite [of tag k ?b ?r]
        by (subst cbs_find_ber.simps) (auto split: bool.splits)
    next
      case (3 tag ds)
      then show ?thesis using Cons.prems ne read_indefinite [of tag "concat (map ber_enc ds) @ [0, 0] @ ?r"]
        by (subst cbs_find_ber.simps) simp
    qed
  qed (simp add: cbs_find_ber.simps CBS_len_def)
qed

section \<open>Rounds of the converter\<close>

text \<open>From every ready state with room, a computation leaves the input \<open>rest\<close> and appends \<open>x\<close>.\<close>

definition runs :: "malloc \<Rightarrow> (CBB \<Rightarrow> unit option \<times> (CBS \<times> CBB)) \<Rightarrow> CBB_ref \<Rightarrow> CBS \<Rightarrow> byte list \<Rightarrow> bool" where
  "runs mal f out rest x \<longleftrightarrow>
     (\<forall>s. ready out s \<longrightarrow> can_add mal (base s) (length x) \<longrightarrow>
        (\<exists>s'. f s = (Some (), (rest, s')) \<and> appends s s' x))"

lemma runsE:
  assumes "runs mal f out rest x" and "ready out s" and "can_add mal (base s) (length x)"
  obtains s' where "f s = (Some (), (rest, s'))" and "appends s s' x"
  using assms by (auto simp: runs_def)

lemma runs_seq:
  assumes f: "runs mal f out r1 x" and g: "runs mal (\<lambda>s. g (r1, s)) out rest y"
  shows "runs mal (\<lambda>s. and_then (f s) (\<lambda>_ st. g st)) out rest (x @ y)"
  unfolding runs_def
proof (intro allI impI)
  fix s assume r: "ready out s" and c: "can_add mal (base s) (length (x @ y))"
  have "can_add mal (base s) (length x)" using c by (rule can_add_mono) simp
  then obtain s1 where s1: "f s = (Some (), (r1, s1))" "appends s s1 x" by (rule runsE [OF f r])
  have "can_add mal (base s1) (length y)" using appends_room [OF r s1(2)] c by simp
  then obtain s2 where "g (r1, s1) = (Some (), (rest, s2))" "appends s1 s2 y"
    by (rule runsE [OF g appends_ready [OF r s1(2)]])
  then show "\<exists>s'. and_then (f s) (\<lambda>_ st. g st) = (Some (), (rest, s')) \<and> appends s s' (x @ y)"
    using s1 appends_trans by auto
qed

text \<open>A computation as an operation of the builder, on the runs that leave the input \<open>rest\<close>.\<close>

definition only :: "CBS \<Rightarrow> (CBB \<Rightarrow> unit option \<times> (CBS \<times> CBB)) \<Rightarrow> CBB \<Rightarrow> unit option \<times> CBB" where
  "only rest f s = (case f s of (r, (c, s')) \<Rightarrow> (if c = rest then r else None, s'))"

lemma only_SomeD: "only rest f s = (Some (), s') \<Longrightarrow> f s = (Some (), (rest, s'))"
  by (auto simp: only_def split: prod.splits if_splits)

lemma emits_only: "runs mal f out rest x \<Longrightarrow> emits mal (only rest f) out x"
  by (force simp: runs_def emits_def only_def)

text \<open>What is done with the contents of an element, and a whole round of the loop.\<close>

definition convert_contents :: "malloc \<Rightarrow> nat \<Rightarrow> asn1_element \<Rightarrow> CBS \<Rightarrow> CBB_ref \<times> CBS_ASN1_TAG \<Rightarrow> CBB \<Rightarrow>
    unit option \<times> (CBS \<times> CBB)" where
  "convert_contents mal depth e cbs' target s1 =
     (if elem_indefinite e then
        cbs_convert_ber mal (fst target) (snd target) True (depth + 1) (cbs', s1)
      else
        case CBS_skip (elem_out e) (elem_header_len e) of
          (None, _) \<Rightarrow> (None, (cbs', s1))
        | (Some _, contents) \<Rightarrow>
            if elem_tag e AND CBS_ASN1_CONSTRUCTED \<noteq> 0 then
              case cbs_convert_ber mal (fst target) (snd target) False (depth + 1) (contents, s1) of
                (r, (_, s2)) \<Rightarrow> (r, (cbs', s2))
            else on_cbb (CBB_add_bytes mal (fst target) contents) (cbs', s1))"

definition convert_round :: "malloc \<Rightarrow> CBB_ref \<Rightarrow> CBS_ASN1_TAG \<Rightarrow> nat \<Rightarrow> asn1_element \<Rightarrow> CBS \<Rightarrow> CBB \<Rightarrow>
    unit option \<times> (CBS \<times> CBB)" where
  "convert_round mal out string_tag depth e cbs' s =
     and_then (on_cbb (convert_target mal out string_tag (elem_tag e)) (cbs', s)) (\<lambda>target st1.
     and_then (convert_contents mal depth e cbs' target (snd st1)) (\<lambda>_ st2.
       on_cbb (CBB_flush mal out) st2))"

lemma convert_unfold:
  assumes "depth \<le> kMaxDepth" and "CBS_len cbs \<noteq> 0" and "\<not> fst (cbs_get_eoc cbs)"
    and "CBS_get_any_ber_asn1_element cbs = (Some e, cbs')"
  shows "cbs_convert_ber mal out st looking depth (cbs, s) =
    and_then (convert_round mal out st depth e cbs' s) (\<lambda>_ st3. cbs_convert_ber mal out st looking depth st3)"
proof -
  obtain t s1 where "convert_target mal out st (elem_tag e) s = (t, s1)" by (metis surj_pair)
  then have t: "on_cbb (convert_target mal out st (elem_tag e)) (cbs', s) = (t, (cbs', s1))"
    by (simp add: on_cbb_def)
  show ?thesis
  proof (cases t)
    case None
    then show ?thesis using assms t
      by (subst cbs_convert_ber.simps) (simp add: convert_round_def)
  next
    case (Some target)
    then show ?thesis using assms t
      by (subst cbs_convert_ber.simps) (simp add: convert_round_def convert_contents_def and_then_assoc, simp only: snd_conv, simp)
  qed
qed

text \<open>A round that opens a child, writes the contents to it and closes it.\<close>

lemma round_element:
  assumes mal: "malloc_sized mal" and d: "length d \<le> 0xfffffffe"
    and target: "\<And>s. convert_target mal out st (elem_tag e) s =
      and_then (CBB_add_asn1 mal out (local_child s) tag s) (\<lambda>_ s1. (Some (Child (local_child s), st'), s1))"
    and contents: "\<And>i. runs mal (convert_contents mal depth e cbs' (Child i, st')) (Child i) rest d"
  shows "runs mal (convert_round mal out st depth e cbs') out rest (der_enc tag d)"
  unfolding runs_def
proof (intro allI impI)
  fix s assume r: "ready out s" and c: "can_add mal (base s) (length (der_enc tag d))"
  let ?i = "local_child s" and ?f = "\<lambda>i. convert_contents mal depth e cbs' (Child i, st')"
  obtain s' where s': "and_then (CBB_add_asn1 mal out ?i tag s) (\<lambda>_ s1.
      and_then (only rest (?f ?i) s1) (\<lambda>_ s2. CBB_flush mal out s2)) = (Some (), s')" "appends s s' (der_enc tag d)"
    using asn1_element_ok [OF mal emits_only [OF contents] d r local_child_fresh] c by (auto simp: der_enc_def)
  from and_then_SomeE [OF s'(1)] obtain u s1 where s1: "CBB_add_asn1 mal out ?i tag s = (Some u, s1)"
    "and_then (only rest (?f ?i) s1) (\<lambda>_ s2. CBB_flush mal out s2) = (Some (), s')" by blast
  from and_then_SomeE [OF s1(2)] obtain v s2 where s2: "only rest (?f ?i) s1 = (Some v, s2)"
    "CBB_flush mal out s2 = (Some (), s')" by blast
  have "?f ?i s1 = (Some (), (rest, s2))" using s2(1) by (intro only_SomeD) simp
  then have "convert_round mal out st depth e cbs' s = (Some (), (rest, s'))"
    using s1(1) s2(2) by (simp add: convert_round_def on_cbb_def target)
  then show "\<exists>s'. convert_round mal out st depth e cbs' s = (Some (), (rest, s')) \<and> appends s s' (der_enc tag d)"
    using s'(2) by blast
qed

text \<open>A round within a constructed string adds the contents to the same builder.\<close>

lemma round_fragment:
  assumes "st \<noteq> 0" and "elem_tag e AND NOT CBS_ASN1_CONSTRUCTED = st"
    and contents: "runs mal (convert_contents mal depth e cbs' (out, st)) out rest d"
  shows "runs mal (convert_round mal out st depth e cbs') out rest d"
  unfolding runs_def
proof (intro allI impI)
  fix s assume r: "ready out s" and c: "can_add mal (base s) (length d)"
  obtain s' where s': "convert_contents mal depth e cbs' (out, st) s = (Some (), (rest, s'))" "appends s s' d"
    by (rule runsE [OF contents r c])
  then have "convert_round mal out st depth e cbs' s = (Some (), (rest, s'))"
    using assms(1,2) appends_ready [OF r s'(2)] by (simp add: convert_round_def on_cbb_def convert_target_def)
  then show "\<exists>s'. convert_round mal out st depth e cbs' s = (Some (), (rest, s')) \<and> appends s s' d"
    using s'(2) by blast
qed

section \<open>The converter on a list of values\<close>

definition converts :: "malloc \<Rightarrow> CBS \<Rightarrow> CBB_ref \<Rightarrow> CBS_ASN1_TAG \<Rightarrow> bool \<Rightarrow> nat \<Rightarrow> CBS \<Rightarrow> byte list \<Rightarrow> bool" where
  "converts mal cbs out st looking depth rest x \<longleftrightarrow>
     runs mal (\<lambda>s. cbs_convert_ber mal out st looking depth (cbs, s)) out rest x"

lemma converts_nil: "depth \<le> kMaxDepth \<Longrightarrow> converts mal [] out st False depth [] []"
  by (auto simp: converts_def runs_def cbs_convert_ber.simps [of _ _ _ _ _ "([], _)"] CBS_len_def appends_def ready_def
      intro: appended_refl)

lemma converts_eoc: "depth \<le> kMaxDepth \<Longrightarrow> converts mal (0 # 0 # rest) out st True depth rest []"
  by (auto simp: converts_def runs_def cbs_convert_ber.simps [of _ _ _ _ _ "(0 # 0 # _, _)"] CBS_len_def cbs_get_eoc_def
      appends_def ready_def intro: appended_refl)

lemma converts_step:
  assumes "depth \<le> kMaxDepth" and "ber_wf c"
    and get: "CBS_get_any_ber_asn1_element (ber_enc c @ cbs) = (Some e, cbs')"
    and round: "runs mal (convert_round mal out st depth e cbs') out cbs x"
    and loop: "converts mal cbs out st looking depth rest y"
  shows "converts mal (ber_enc c @ cbs) out st looking depth rest (x @ y)"
  using runs_seq [OF round, of "cbs_convert_ber mal out st looking depth"] loop
    convert_unfold [OF assms(1) ber_enc_nonempty [OF assms(2)] ber_no_eoc [OF assms(2)] get]
  by (simp add: converts_def)

text \<open>The contents of an element, by kind.\<close>

definition definite :: "CBS_ASN1_TAG \<Rightarrow> nat \<Rightarrow> byte list \<Rightarrow> asn1_element" where
  "definite tag k body =
     \<lparr>elem_out = der_tag tag @ ber_len k (length body) @ body, elem_tag = tag,
      elem_header_len = length (der_tag tag @ ber_len k (length body)),
      elem_ber_found = (\<not> len_minimal k (length body)), elem_indefinite = False\<rparr>"

definition indefinite :: "CBS_ASN1_TAG \<Rightarrow> asn1_element" where
  "indefinite tag =
     \<lparr>elem_out = der_tag tag @ [0x80], elem_tag = tag, elem_header_len = Suc (length (der_tag tag)),
      elem_ber_found = True, elem_indefinite = True\<rparr>"

lemma elem_tag_simps [simp]: "elem_tag (definite tag k body) = tag" "elem_tag (indefinite tag) = tag"
  by (simp_all add: definite_def indefinite_def)

lemma skip_definite:
  "CBS_skip (elem_out (definite tag k body)) (elem_header_len (definite tag k body)) = (Some (), body)"
  using skip_header [of "der_tag tag @ ber_len k (length body)" body] by (simp add: definite_def)

lemma contents_primitive:
  assumes "malloc_sized mal" and "tag AND CBS_ASN1_CONSTRUCTED = 0"
  shows "runs mal (convert_contents mal depth (definite tag k body) cbs (out, st)) out cbs body"
  unfolding runs_def
proof (intro allI impI)
  fix s assume "ready out s" and "can_add mal (base s) (length body)"
  then obtain s' where "CBB_add_bytes mal out body s = (Some (), s')" "appends s s' body"
    by (rule emitsE [OF emits_add_bytes [OF assms(1)]])
  then show "\<exists>s'. convert_contents mal depth (definite tag k body) cbs (out, st) s = (Some (), (cbs, s')) \<and> appends s s' body"
    using assms(2) by (simp add: convert_contents_def skip_definite on_cbb_def) (simp add: definite_def)
qed

lemma contents_definite:
  assumes "tag AND CBS_ASN1_CONSTRUCTED \<noteq> 0" and "converts mal body out st False (depth + 1) [] x"
  shows "runs mal (convert_contents mal depth (definite tag k body) cbs (out, st)) out cbs x"
  unfolding runs_def
proof (intro allI impI)
  fix s assume "ready out s" and "can_add mal (base s) (length x)"
  then obtain s' where "cbs_convert_ber mal out st False (depth + 1) (body, s) = (Some (), ([], s'))" "appends s s' x"
    by (rule runsE [OF assms(2) [unfolded converts_def]])
  then show "\<exists>s'. convert_contents mal depth (definite tag k body) cbs (out, st) s = (Some (), (cbs, s')) \<and> appends s s' x"
    using assms(1) by (simp add: convert_contents_def skip_definite) (simp add: definite_def)
qed

lemma contents_indefinite:
  assumes "converts mal cbs' out st True (depth + 1) cbs x"
  shows "runs mal (convert_contents mal depth (indefinite tag) cbs' (out, st)) out cbs x"
  using assms by (simp add: converts_def convert_contents_def [abs_def] indefinite_def)

definition ber_out :: "CBS_ASN1_TAG \<Rightarrow> ber \<Rightarrow> byte list" where
  "ber_out st c = (if st = 0 then ber_der c else ber_string c)"

definition fits :: "CBS_ASN1_TAG \<Rightarrow> ber \<Rightarrow> bool" where
  "fits st c \<longleftrightarrow> (if st = 0 then length (ber_der c) \<le> 0xfffffffe else ber_fragment st c)"

lemma string_type_tag: "is_string_type tag \<Longrightarrow> tag AND NOT CBS_ASN1_CONSTRUCTED \<noteq> 0"
  by (auto simp: is_string_type_def string_tag_defs)

lemma target_element:
  "tag AND CBS_ASN1_CONSTRUCTED = 0 \<or> \<not> is_string_type tag \<Longrightarrow>
     convert_target mal out 0 tag s =
       and_then (CBB_add_asn1 mal out (local_child s) tag s) (\<lambda>_ s1. (Some (Child (local_child s), 0), s1))"
  "tag AND CBS_ASN1_CONSTRUCTED \<noteq> 0 \<Longrightarrow> is_string_type tag \<Longrightarrow>
     convert_target mal out 0 tag s =
       and_then (CBB_add_asn1 mal out (local_child s) (tag AND NOT CBS_ASN1_CONSTRUCTED) s)
         (\<lambda>_ s1. (Some (Child (local_child s), tag AND NOT CBS_ASN1_CONSTRUCTED), s1))"
  by (auto simp: convert_target_def Let_def)

lemma length_der_enc: "length body \<le> length (der_enc tag body)"
  by (simp add: der_enc_def)

lemma length_le_concat: "x \<in> set xs \<Longrightarrow> length (f x) \<le> length (concat (map f xs))"
  by (induction xs) auto

text \<open>
  What the contents of a constructed element become, given the converter on lists of values
  nested less deeply.
\<close>

lemma round_constructed:
  assumes mal: "malloc_sized mal" and wf: "ber_wf (Constructed tag cs f)" and fit: "fits st (Constructed tag cs f)"
    and e: "elem_tag e = tag"
    and contents: "\<And>out st'. (st = 0 \<and> st' = 0 \<and> \<not> is_string_type tag \<or> st' = tag AND NOT CBS_ASN1_CONSTRUCTED \<and> st' \<noteq> 0) \<Longrightarrow>
      \<forall>c\<in>set cs. fits st' c \<Longrightarrow>
      runs mal (convert_contents mal depth e cbs' (out, st')) out rest (concat (map (ber_out st') cs))"
  shows "runs mal (convert_round mal out st depth e cbs') out rest (ber_out st (Constructed tag cs f))"
proof (cases "st = 0")
  case False
  then have frag: "tag AND NOT CBS_ASN1_CONSTRUCTED = st" "\<forall>c\<in>set cs. fits st c"
    using fit by (simp_all add: fits_def)
  then have "runs mal (convert_contents mal depth e cbs' (out, st)) out rest (concat (map (ber_out st) cs))"
    using False by (intro contents) auto
  moreover have "map (ber_out st) cs = map ber_string cs" using False by (simp add: ber_out_def)
  ultimately show ?thesis using round_fragment [OF False] frag(1) e False by (simp add: ber_out_def)
next
  case True
  show ?thesis
  proof (cases "is_string_type tag")
    case s: True
    let ?t = "tag AND NOT CBS_ASN1_CONSTRUCTED"
    have t: "?t \<noteq> 0" using s by (rule string_type_tag)
    have c: "runs mal (convert_contents mal depth e cbs' (Child i, ?t)) (Child i) rest (concat (map (ber_out ?t) cs))" for i
      using t s wf by (intro contents) (auto simp: fits_def)
    have "map (ber_out ?t) cs = map ber_string cs" using t by (simp add: ber_out_def)
    with c have "runs mal (convert_contents mal depth e cbs' (Child i, ?t)) (Child i) rest (concat (map ber_string cs))" for i by simp
    moreover have "length (concat (map ber_string cs)) \<le> 0xfffffffe"
      using fit True s length_der_enc [of "concat (map ber_string cs)" ?t] by (simp add: fits_def)
    ultimately show ?thesis
      using round_element [OF mal _ _, of "concat (map ber_string cs)" out st e ?t ?t depth cbs' rest] True s wf e
      by (simp add: ber_out_def target_element)
  next
    case n: False
    have l: "length (concat (map ber_der cs)) \<le> 0xfffffffe"
      using fit True n length_der_enc [of "concat (map ber_der cs)" tag] by (simp add: fits_def)
    then have "\<forall>c\<in>set cs. fits 0 c" using length_le_concat [of _ cs ber_der] by (force simp: fits_def)
    then have c: "runs mal (convert_contents mal depth e cbs' (Child i, 0)) (Child i) rest (concat (map (ber_out 0) cs))" for i
      using True n by (intro contents) auto
    have "map (ber_out 0) cs = map ber_der cs" by (simp add: ber_out_def)
    with c have "runs mal (convert_contents mal depth e cbs' (Child i, 0)) (Child i) rest (concat (map ber_der cs))" for i by simp
    then show ?thesis
      using round_element [OF mal l _, of out st e tag 0 depth cbs' rest] True n e
      by (simp add: ber_out_def target_element)
  qed
qed

lemma converts_one:
  assumes mal: "malloc_sized mal" and depth: "depth + d \<le> kMaxDepth"
    and c: "ber_wf c" "ber_nested d c" "fits st c"
    and IH: "\<And>cs cbs out st looking depth rest y. 0 < d \<Longrightarrow> depth + (d - 1) \<le> kMaxDepth \<Longrightarrow>
      \<forall>c\<in>set cs. ber_wf c \<and> ber_nested (d - 1) c \<and> fits st c \<Longrightarrow>
      converts mal cbs out st looking depth rest y \<Longrightarrow>
      converts mal (concat (map ber_enc cs) @ cbs) out st looking depth rest (concat (map (ber_out st) cs) @ y)"
    and loop: "converts mal cbs out st looking depth rest y"
  shows "converts mal (ber_enc c @ cbs) out st looking depth rest (ber_out st c @ y)"
proof (cases c rule: ber_enc.cases)
  case (1 tag body k)
  have w: "valid_tag tag" "tag AND CBS_ASN1_CONSTRUCTED = 0" "len_ok k (length body)" using c(1) 1 by simp_all
  have get: "CBS_get_any_ber_asn1_element (ber_enc c @ cbs) = (Some (definite tag k body), cbs)"
    using read_definite [OF w(1,3), of cbs] by (simp add: 1 definite_def)
  have b: "runs mal (convert_contents mal depth (definite tag k body) cbs (o', t)) o' cbs body" for o' t
    using mal w(2) by (rule contents_primitive)
  have "runs mal (convert_round mal out st depth (definite tag k body) cbs) out cbs (ber_out st c)"
  proof (cases "st = 0")
    case True
    then have "length body \<le> 0xfffffffe" using c(3) 1 length_der_enc [of body tag] by (simp add: fits_def)
    then show ?thesis using round_element [OF mal _ _ b, of out st tag 0] True w(2)
      by (simp add: ber_out_def 1 target_element)
  next
    case False
    then show ?thesis using round_fragment [OF False _ b] c(3) 1 by (simp add: ber_out_def fits_def)
  qed
  then show ?thesis using converts_step [OF _ c(1) get _ loop] depth by simp
next
  case (2 tag cs k)
  let ?b = "concat (map ber_enc cs)"
  have w: "valid_tag tag" "tag AND CBS_ASN1_CONSTRUCTED \<noteq> 0" "len_ok k (length ?b)" "0 < d"
    using c(1,2) 2 by simp_all
  have get: "CBS_get_any_ber_asn1_element (ber_enc c @ cbs) = (Some (definite tag k ?b), cbs)"
    using read_definite [OF w(1,3), of cbs] by (simp add: 2 definite_def)
  have "runs mal (convert_round mal out st depth (definite tag k ?b) cbs) out cbs (ber_out st c)"
    unfolding 2
  proof (rule round_constructed [OF mal])
    fix o' st' assume "\<forall>c\<in>set cs. fits st' c"
    then have "converts mal (?b @ []) o' st' False (depth + 1) [] (concat (map (ber_out st') cs) @ [])"
      using c(1,2) 2 w(4) depth by (intro IH converts_nil) auto
    then show "runs mal (convert_contents mal depth (definite tag k ?b) cbs (o', st')) o' cbs (concat (map (ber_out st') cs))"
      using w(2) by (intro contents_definite) simp_all
  qed (use c(1,3) 2 in simp_all)
  then show ?thesis using converts_step [OF _ c(1) get _ loop] depth by simp
next
  case (3 tag cs)
  let ?b = "concat (map ber_enc cs)" and ?in = "concat (map ber_enc cs) @ 0 # 0 # cbs"
  have w: "valid_tag tag" "tag AND CBS_ASN1_CONSTRUCTED \<noteq> 0" "0 < d" using c(1,2) 3 by simp_all
  have get: "CBS_get_any_ber_asn1_element (ber_enc c @ cbs) = (Some (indefinite tag), ?in)"
    using read_indefinite [OF w(1,2), of ?in] by (simp add: 3 indefinite_def)
  have "runs mal (convert_round mal out st depth (indefinite tag) ?in) out cbs (ber_out st c)"
    unfolding 3
  proof (rule round_constructed [OF mal])
    fix o' st' assume "\<forall>c\<in>set cs. fits st' c"
    then have "converts mal ?in o' st' True (depth + 1) cbs (concat (map (ber_out st') cs) @ [])"
      using c(1,2) 3 w(3) depth by (intro IH converts_eoc) auto
    then show "runs mal (convert_contents mal depth (indefinite tag) ?in (o', st')) o' cbs (concat (map (ber_out st') cs))"
      by (intro contents_indefinite) simp
  qed (use c(1,3) 3 in simp_all)
  then show ?thesis using converts_step [OF _ c(1) get _ loop] depth by simp
qed

lemma converts_list:
  assumes "malloc_sized mal" and "depth + d \<le> kMaxDepth"
    and "\<forall>c\<in>set cs. ber_wf c \<and> ber_nested d c \<and> fits st c"
    and "converts mal cbs out st looking depth rest y"
  shows "converts mal (concat (map ber_enc cs) @ cbs) out st looking depth rest (concat (map (ber_out st) cs) @ y)"
  using assms(2-)
proof (induction d arbitrary: cs cbs out st looking depth rest y rule: less_induct)
  case (less d)
  from less.prems show ?case
  proof (induction cs)
    case (Cons c cs)
    have "converts mal (concat (map ber_enc cs) @ cbs) out st looking depth rest (concat (map (ber_out st) cs) @ y)"
      using Cons by simp
    then have "converts mal (ber_enc c @ concat (map ber_enc cs) @ cbs) out st looking depth rest
        (ber_out st c @ concat (map (ber_out st) cs) @ y)"
      using Cons.prems less.IH [of "d - 1"] by (intro converts_one [OF assms(1), of depth d]) simp_all
    then show ?case by simp
  qed simp
qed

section \<open>The normal form\<close>

definition min_size :: "nat \<Rightarrow> nat" where
  "min_size n = (if n < 128 then 0 else length (be_min n))"

fun ber_norm :: "ber \<Rightarrow> ber" where
  "ber_norm (Primitive tag body k) = Primitive tag body (min_size (length body))"
| "ber_norm (Constructed tag cs f) =
     (if is_string_type tag then
        Primitive (tag AND NOT CBS_ASN1_CONSTRUCTED) (concat (map ber_string cs))
          (min_size (length (concat (map ber_string cs))))
      else Constructed tag (map ber_norm cs) (Some (min_size (length (concat (map ber_der cs))))))"

lemma min_size:
  assumes "n < 2 ^ 32"
  shows "len_ok (min_size n) n" and "len_minimal (min_size n) n" and "ber_len (min_size n) n = der_len n"
proof -
  show a: "len_ok (min_size n) n" and b: "len_minimal (min_size n) n"
    using length_be_min_u32 [OF assms] be_min_lower [of n] be_val_lt [of "be_min n"] length_be_min_pos [of n]
    by (auto simp: min_size_def len_ok_def len_minimal_def)
  show "ber_len (min_size n) n = der_len n" using a b by (rule ber_len_minimal)
qed

lemma string_type_cleared:
  assumes "is_string_type tag"
  shows "valid_tag (tag AND NOT CBS_ASN1_CONSTRUCTED)"
    and "(tag AND NOT CBS_ASN1_CONSTRUCTED) AND CBS_ASN1_CONSTRUCTED = 0"
  using assms by (auto simp: is_string_type_def string_tag_defs valid_tag_def tag_no_def CBS_ASN1_CONSTRUCTED_def
      CBS_ASN1_TAG_SHIFT_def)

lemma ber_norm:
  "ber_wf t \<Longrightarrow> length (ber_der t) < 2 ^ 32 \<Longrightarrow>
     ber_wf (ber_norm t) \<and> ber_is_der (ber_norm t) \<and> ber_enc (ber_norm t) = ber_der t"
proof (induction t)
  case (Primitive tag body k)
  then show ?case using length_der_enc [of body tag] min_size [of "length body"]
    by (simp add: der_enc_def der_header_def)
next
  case (Constructed tag cs f)
  show ?case
  proof (cases "is_string_type tag")
    case True
    let ?b = "concat (map ber_string cs)"
    have "length ?b < 2 ^ 32"
      using Constructed.prems(2) True length_der_enc [of ?b "tag AND NOT CBS_ASN1_CONSTRUCTED"] by simp
    then show ?thesis using True string_type_cleared [OF True] min_size [of "length ?b"]
      by (simp add: der_enc_def der_header_def)
  next
    case False
    let ?b = "concat (map ber_der cs)"
    have l: "length ?b < 2 ^ 32" using Constructed.prems(2) False length_der_enc [of ?b tag] by simp
    have IH: "ber_wf (ber_norm c) \<and> ber_is_der (ber_norm c) \<and> ber_enc (ber_norm c) = ber_der c" if "c \<in> set cs" for c
      using Constructed that l length_le_concat [OF that, of ber_der] by auto
    then have e: "map (ber_enc \<circ> ber_norm) cs = map ber_der cs" by simp
    show ?thesis using False Constructed.prems(1) IH min_size [OF l]
      by (simp add: e der_enc_def der_header_def)
  qed
qed

lemma ber_der_same: "ber_wf t \<Longrightarrow> ber_is_der t \<Longrightarrow> ber_enc t = ber_der t"
proof (induction t)
  case (Primitive tag body k)
  then show ?case by (simp add: ber_len_minimal der_enc_def der_header_def)
next
  case (Constructed tag cs f)
  then obtain k where k: "f = Some k" by (cases f) simp_all
  have e: "concat (map ber_enc cs) = concat (map ber_der cs)" using Constructed by (simp cong: map_cong)
  show ?case using Constructed.prems by (simp add: k e ber_len_minimal der_enc_def der_header_def)
qed

section \<open>BER to DER\<close>

lemma read_der_value:
  assumes "ber_wf t" and "ber_is_der t" and "length (ber_der t) < 2 ^ 32"
  obtains e where "CBS_get_any_asn1_element (ber_enc t @ rest) = (Some e, rest)" and "elem_out e = ber_enc t"
proof -
  obtain tag body where t: "valid_tag tag" "ber_der t = der_enc tag body"
    using assms(1,2) by (cases t) auto
  then have "length body < 2 ^ 32" using assms(3) length_der_enc [of body tag] by simp
  from get_any_asn1_element_der [OF t(1) this, of rest] show thesis
    using that [of "der_element tag body"] ber_der_same [OF assms(1,2)] t(2) by (simp add: der_enc_def der_element_def)
qed

lemma CBB_init_ready:
  assumes "malloc_sized mal" and "\<forall>n. mal n \<noteq> None" and "n < 2 ^ 62"
  obtains s where "CBB_init mal n = (Some (), s)" and "ready Top s" and "content (base s) = []"
    and "\<And>m. m < 2 ^ 62 \<Longrightarrow> can_add mal (base s) m"
proof -
  obtain b where b: "OPENSSL_malloc mal n = Some b" using OPENSSL_malloc_total [OF assms(2), of n] assms(3) by auto
  have "length b = n" by (rule OPENSSL_malloc_length [OF assms(1) b])
  then show thesis using that [of "cbb_init b n True"] b assms
    by (simp add: CBB_init_def cbb_init_def ready_def wf_buffer_def content_def can_add_def)
qed

text \<open>
  C35. BER to DER: on the encodings of one or more BER values nested at most 128 deep, with
  working allocations, \<open>CBS_asn1_ber_to_der\<close> succeeds. When everything is in DER it returns
  the first value as it is, without a copy, and leaves the input behind it. Otherwise it
  consumes the whole input, not only its first value, and returns a block with the DER normal
  form of every value: definite minimal lengths, strings in one piece. The normal form is
  itself the DER encoding of a value.
\<close>

theorem ber_to_der_normalizes:
  assumes "malloc_sized mal" and "\<forall>n. mal n \<noteq> None"
    and "\<forall>t\<in>set (t # ts). ber_wf t \<and> ber_nested 128 t \<and> length (ber_der t) \<le> 0xfffffffe"
    and "length (concat (map ber_enc (t # ts))) < 2 ^ 62" and "length (concat (map ber_der (t # ts))) < 2 ^ 62"
  shows "(\<exists>block. CBS_asn1_ber_to_der mal (concat (map ber_enc (t # ts))) =
      (if \<forall>t\<in>set (t # ts). ber_is_der t
       then (Some (ber_enc t, None), concat (map ber_enc ts))
       else (Some (concat (map ber_der (t # ts)), Some block), []))) \<and>
    (\<forall>t\<in>set (t # ts). \<exists>u. ber_wf u \<and> ber_is_der u \<and> ber_enc u = ber_der t)"
proof
  let ?in = "concat (map ber_enc (t # ts))" and ?out = "concat (map ber_der (t # ts))"
  have find: "cbs_find_ber 0 ?in = Some (\<exists>t\<in>set (t # ts). \<not> ber_is_der t)"
    using assms(3) by (intro find_ber_list [of _ 128]) (simp_all add: kMaxDepth_def)
  show "\<exists>block. CBS_asn1_ber_to_der mal ?in =
      (if \<forall>t\<in>set (t # ts). ber_is_der t then (Some (ber_enc t, None), concat (map ber_enc ts))
       else (Some (?out, Some block), []))"
  proof (cases "\<forall>t\<in>set (t # ts). ber_is_der t")
    case True
    have t: "ber_wf t" "ber_is_der t" "length (ber_der t) < 2 ^ 32" using True assms(3) by auto
    obtain e where "CBS_get_any_asn1_element (ber_enc t @ concat (map ber_enc ts)) = (Some e, concat (map ber_enc ts))"
      "elem_out e = ber_enc t" by (rule read_der_value [OF t])
    moreover have "cbs_find_ber 0 ?in = Some False" using find True by simp
    ultimately show ?thesis using True by (simp add: CBS_asn1_ber_to_der_def)
  next
    case False
    then have found: "cbs_find_ber 0 ?in = Some True" using find by auto
    obtain s where s: "CBB_init mal (CBS_len ?in) = (Some (), s)" "ready Top s" "content (base s) = []"
      "\<And>m. m < 2 ^ 62 \<Longrightarrow> can_add mal (base s) m"
      using CBB_init_ready [OF assms(1,2), of "CBS_len ?in"] assms(4) by (auto simp: CBS_len_def)
    have "converts mal (?in @ []) Top 0 False 0 [] (concat (map (ber_out 0) (t # ts)) @ [])"
      using assms(3) by (intro converts_list [OF assms(1), of 0 128] converts_nil) (auto simp: kMaxDepth_def fits_def)
    moreover have "map (ber_out 0) (t # ts) = map ber_der (t # ts)" by (simp add: ber_out_def)
    ultimately have "runs mal (\<lambda>s. cbs_convert_ber mal Top 0 False 0 (?in, s)) Top [] ?out"
      by (simp only: converts_def append_Nil2)
    then obtain s1 where s1: "cbs_convert_ber mal Top 0 False 0 (?in, s) = (Some (), ([], s1))" "appends s s1 ?out"
      using s(2) s(4) [OF assms(5)] by (rule runsE)
    have "CBS_init (buf (base s1)) (blen (base s1)) = ?out"
      using s1(2) s(3) by (simp add: appends_def appended_def CBS_init_def content_def [symmetric])
    then show ?thesis using False found s(1) s1(1) finish_ready [OF appends_ready [OF s(2) s1(2)]]
      by (simp only: CBS_asn1_ber_to_der_def option.case bool.case prod.case if_False) simp
  qed
  show "\<forall>t\<in>set (t # ts). \<exists>u. ber_wf u \<and> ber_is_der u \<and> ber_enc u = ber_der t"
    using ber_norm assms(3) by fastforce
qed

text \<open>
  An indefinite SEQUENCE of an indefinite constructed OCTET STRING of two fragments, and a
  BOOLEAN behind it: both end up in the output.
\<close>

theorem ber_to_der_normalizes_witness:
  "\<exists>block. CBS_asn1_ber_to_der (\<lambda>n. Some (replicate n 0))
       [0x30, 0x80, 0x24, 0x80, 0x04, 0x01, 0xAA, 0x04, 0x01, 0xBB, 0, 0, 0, 0, 0x01, 0x01, 0xFF] =
     (Some ([0x30, 0x04, 0x04, 0x02, 0xAA, 0xBB, 0x01, 0x01, 0xFF], Some block), [])"
proof -
  let ?mal = "\<lambda>n. Some (replicate n 0) :: byte list option"
  let ?t = "Constructed 0x20000010 [Constructed 0x20000004 [Primitive 4 [0xAA] 0, Primitive 4 [0xBB] 0] None] None"
  let ?u = "Primitive 1 [0xFF] 0"
  note defs = is_string_type_def string_tag_defs CBS_ASN1_CONSTRUCTED_def CBS_ASN1_TAG_SHIFT_def
    valid_tag_def tag_no_def tag_class_def der_tag_def der_enc_def der_header_def der_len_def ber_len_def
    len_ok_def byte_of_def
  have tag: "der_tag 0x20000010 = [0x30]" "der_tag 0x20000004 = [0x24]" "der_tag 4 = [4]" "der_tag 1 = [1]"
    by (simp_all add: defs)
  have str: "\<not> is_string_type 0x20000010" "is_string_type 0x20000004" by (simp_all add: defs)
  have clr: "(0x20000004 :: u32) AND NOT CBS_ASN1_CONSTRUCTED = 4" "(4 :: u32) AND NOT CBS_ASN1_CONSTRUCTED = 4"
    by (simp_all add: defs)
  have con: "(0x20000010 :: u32) AND CBS_ASN1_CONSTRUCTED \<noteq> 0" "(0x20000004 :: u32) AND CBS_ASN1_CONSTRUCTED \<noteq> 0"
    "(4 :: u32) AND CBS_ASN1_CONSTRUCTED = 0" "(1 :: u32) AND CBS_ASN1_CONSTRUCTED = 0" by (simp_all add: defs)
  have val: "valid_tag 0x20000010" "valid_tag 0x20000004" "valid_tag 4" "valid_tag 1" by (simp_all add: defs)
  have enc: "concat (map ber_enc [?t, ?u]) =
      [0x30, 0x80, 0x24, 0x80, 0x04, 0x01, 0xAA, 0x04, 0x01, 0xBB, 0, 0, 0, 0, 0x01, 0x01, 0xFF]"
    by (simp add: tag ber_len_def byte_of_def)
  have der: "concat (map ber_der [?t, ?u]) = [0x30, 0x04, 0x04, 0x02, 0xAA, 0xBB, 0x01, 0x01, 0xFF]"
    by (simp add: str clr tag der_enc_def der_header_def der_len_def byte_of_def)
  have ok: "\<forall>t\<in>set (?t # [?u]). ber_wf t \<and> ber_nested 128 t \<and> length (ber_der t) \<le> 0xfffffffe"
    by (simp add: str clr tag con val len_ok_def der_enc_def der_header_def der_len_def byte_of_def)
  have small: "length (concat (map ber_enc (?t # [?u]))) < 2 ^ 62" "length (concat (map ber_der (?t # [?u]))) < 2 ^ 62"
    by (simp_all only: enc der) simp_all
  have "malloc_sized ?mal" "\<forall>n. ?mal n \<noteq> None" by (simp_all add: malloc_sized_def)
  from conjunct1 [OF ber_to_der_normalizes [OF this ok small]] show ?thesis
    unfolding enc der by simp
qed

end
