(* ===== verification/Sk_Stack.thy ===== *)
theory Sk_Stack
  imports Mem "HOL-Library.Multiset"
begin

text \<open>
  BoringSSL's stacks of pointers (crypto/stack/stack.c). A pointer is an \<open>'p option\<close>, \<open>None\<close> being
  the null pointer; a comparison function is known by its address, a value of the type \<open>'c\<close>, and
  is called through the parameter \<open>call_cmp_func\<close>. An operation takes the \<open>OPENSSL_STACK *\<close>
  argument as an option, \<open>None\<close> for null, and returns its result with the stack it leaves.
\<close>

section \<open>Arrays of pointers\<close>

text \<open>
  \<open>OPENSSL_malloc\<close> as the stacks use it: for a size in bytes it returns a block or nothing. What a
  fresh block holds is arbitrary: the block is given by the pointer at each index.
\<close>

type_synonym 'p pmalloc = "nat \<Rightarrow> (nat \<Rightarrow> 'p option) option"

definition malloc_ptrs :: "'p pmalloc \<Rightarrow> nat \<Rightarrow> 'p option list option" where
  "malloc_ptrs mal sz =
     (if size_add sz OPENSSL_MALLOC_PREFIX < sz then None
      else case mal (sz + OPENSSL_MALLOC_PREFIX) of
             None \<Rightarrow> None
           | Some block \<Rightarrow> Some (map (\<lambda>i. block (i + 1)) [0..<sz div 8]))"

definition zalloc_ptrs :: "'p pmalloc \<Rightarrow> nat \<Rightarrow> 'p option list option" where
  "zalloc_ptrs mal sz =
     (case malloc_ptrs mal sz of None \<Rightarrow> None | Some ret \<Rightarrow> Some (replicate (sz div 8) None))"

definition calloc_ptrs :: "'p pmalloc \<Rightarrow> nat \<Rightarrow> nat \<Rightarrow> 'p option list option" where
  "calloc_ptrs mal n sz = (if sz \<noteq> 0 \<and> n > SIZE_MAX div sz then None else zalloc_ptrs mal (n * sz))"

definition realloc_ptrs :: "'p pmalloc \<Rightarrow> 'p option list \<Rightarrow> nat \<Rightarrow> 'p option list option" where
  "realloc_ptrs mal orig new_size =
     (case malloc_ptrs mal new_size of
        None \<Rightarrow> None
      | Some ret \<Rightarrow>
          let to_copy = (if length orig < length ret then length orig else length ret)
          in Some (take to_copy orig @ drop to_copy ret))"

definition memdup_ptrs :: "'p pmalloc \<Rightarrow> 'p option list \<Rightarrow> nat \<Rightarrow> 'p option list option" where
  "memdup_ptrs mal data sz =
     (if sz = 0 then None
      else case malloc_ptrs mal sz of None \<Rightarrow> None | Some ret \<Rightarrow> Some (take (sz div 8) data))"

text \<open>\<open>OPENSSL_memmove\<close> of \<open>n\<close> pointers within an array.\<close>

definition move_ptrs :: "'a list \<Rightarrow> nat \<Rightarrow> nat \<Rightarrow> nat \<Rightarrow> 'a list" where
  "move_ptrs d dst src n = take dst d @ take n (drop src d) @ drop (dst + n) d"

section \<open>The stack\<close>

record ('p, 'c) stack_st =
  st_num :: nat
  st_data :: "'p option list"
  st_sorted :: bool
  st_num_alloc :: nat
  st_comp :: "'c option"

type_synonym ('p, 'c) cmp_call = "'c \<Rightarrow> 'p option \<Rightarrow> 'p option \<Rightarrow> int"

definition kMinSize :: nat where "kMinSize = 4"

text \<open>\<open>sizeof (OPENSSL_STACK)\<close> on a 64-bit target.\<close>

definition sizeof_stack :: nat where "sizeof_stack = 40"

definition INT_MAX :: nat where "INT_MAX = 2147483647"

definition OPENSSL_sk_new :: "'p pmalloc \<Rightarrow> 'c option \<Rightarrow> ('p, 'c) stack_st option" where
  "OPENSSL_sk_new mal cmp_func =
     (case zalloc_ptrs mal sizeof_stack of
        None \<Rightarrow> None
      | Some _ \<Rightarrow>
          (case calloc_ptrs mal kMinSize 8 of
             None \<Rightarrow> None
           | Some d \<Rightarrow> Some \<lparr>st_num = 0, st_data = d, st_sorted = False, st_num_alloc = kMinSize, st_comp = cmp_func\<rparr>))"

definition OPENSSL_sk_new_null :: "'p pmalloc \<Rightarrow> ('p, 'c) stack_st option" where
  "OPENSSL_sk_new_null mal = OPENSSL_sk_new mal None"

fun OPENSSL_sk_num :: "('p, 'c) stack_st option \<Rightarrow> nat" where
  "OPENSSL_sk_num None = 0"
| "OPENSSL_sk_num (Some sk) = st_num sk"

fun OPENSSL_sk_zero :: "('p, 'c) stack_st option \<Rightarrow> ('p, 'c) stack_st option" where
  "OPENSSL_sk_zero None = None"
| "OPENSSL_sk_zero (Some sk) =
     (if st_num sk = 0 then Some sk
      else Some (sk\<lparr>st_data := replicate (st_num sk) None @ drop (st_num sk) (st_data sk),
                    st_num := 0, st_sorted := False\<rparr>))"

fun OPENSSL_sk_value :: "('p, 'c) stack_st option \<Rightarrow> nat \<Rightarrow> 'p option" where
  "OPENSSL_sk_value None i = None"
| "OPENSSL_sk_value (Some sk) i = (if i \<ge> st_num sk then None else st_data sk ! i)"

fun OPENSSL_sk_set :: "('p, 'c) stack_st option \<Rightarrow> nat \<Rightarrow> 'p option \<Rightarrow> 'p option \<times> ('p, 'c) stack_st option" where
  "OPENSSL_sk_set None i v = (None, None)"
| "OPENSSL_sk_set (Some sk) i v =
     (if i \<ge> st_num sk then (None, Some sk) else (v, Some (sk\<lparr>st_data := (st_data sk)[i := v]\<rparr>)))"

text \<open>
  Freeing the elements: the calls of \<open>call_free_func\<close> in their order. The stack itself is freed
  after them.
\<close>

fun OPENSSL_sk_pop_free_ex :: "('p, 'c) stack_st option \<Rightarrow> 'p list" where
  "OPENSSL_sk_pop_free_ex None = []"
| "OPENSSL_sk_pop_free_ex (Some sk) =
     concat (map (\<lambda>i. case st_data sk ! i of None \<Rightarrow> [] | Some p \<Rightarrow> [p]) [0..<st_num sk])"

text \<open>The capacity after a growth, or nothing when it overflows.\<close>

definition grow_alloc :: "nat \<Rightarrow> nat option" where
  "grow_alloc n =
     (let overflow = (\<lambda>new_alloc. new_alloc < n \<or> (new_alloc * 8 mod 2 ^ 64) div 8 \<noteq> new_alloc);
          new_alloc0 = (n * 2) mod 2 ^ 64;
          new_alloc = (if overflow new_alloc0 then size_add n 1 else new_alloc0)
      in if overflow new_alloc then None else Some new_alloc)"

definition sk_reserve :: "'p pmalloc \<Rightarrow> ('p, 'c) stack_st \<Rightarrow> ('p, 'c) stack_st option" where
  "sk_reserve mal sk =
     (if st_num_alloc sk \<le> st_num sk + 1 then
        (case grow_alloc (st_num_alloc sk) of
           None \<Rightarrow> None
         | Some new_alloc \<Rightarrow>
             (case realloc_ptrs mal (st_data sk) (new_alloc * 8) of
                None \<Rightarrow> None
              | Some d \<Rightarrow> Some (sk\<lparr>st_data := d, st_num_alloc := new_alloc\<rparr>)))
      else Some sk)"

fun OPENSSL_sk_insert ::
  "'p pmalloc \<Rightarrow> ('p, 'c) stack_st option \<Rightarrow> 'p option \<Rightarrow> nat \<Rightarrow> nat \<times> ('p, 'c) stack_st option" where
  "OPENSSL_sk_insert mal None p pos = (0, None)"
| "OPENSSL_sk_insert mal (Some sk) p pos =
     (if st_num sk \<ge> INT_MAX then (0, Some sk)
      else case sk_reserve mal sk of
             None \<Rightarrow> (0, Some sk)
           | Some sk1 \<Rightarrow>
               let n = st_num sk1;
                   d = (if pos \<ge> n then (st_data sk1)[n := p]
                        else (move_ptrs (st_data sk1) (pos + 1) pos (n - pos))[pos := p])
               in (n + 1, Some (sk1\<lparr>st_data := d, st_num := n + 1, st_sorted := False\<rparr>)))"

fun OPENSSL_sk_delete :: "('p, 'c) stack_st option \<Rightarrow> nat \<Rightarrow> 'p option \<times> ('p, 'c) stack_st option" where
  "OPENSSL_sk_delete None pos = (None, None)"
| "OPENSSL_sk_delete (Some sk) pos =
     (if pos \<ge> st_num sk then (None, Some sk)
      else
        let ret = st_data sk ! pos;
            d = (if pos \<noteq> st_num sk - 1 then move_ptrs (st_data sk) pos (pos + 1) (st_num sk - pos - 1)
                 else st_data sk)
        in (ret, Some (sk\<lparr>st_data := d, st_num := st_num sk - 1\<rparr>)))"

text \<open>The first index below \<open>n\<close> whose pointer satisfies the test of a search loop.\<close>

fun scan_from :: "('a \<Rightarrow> bool) \<Rightarrow> 'a list \<Rightarrow> nat \<Rightarrow> nat \<Rightarrow> nat option" where
  "scan_from t d i 0 = None"
| "scan_from t d i (Suc n) = (if t (d ! i) then Some i else scan_from t d (Suc i) n)"

fun OPENSSL_sk_delete_ptr :: "('p, 'c) stack_st option \<Rightarrow> 'p option \<Rightarrow> 'p option \<times> ('p, 'c) stack_st option" where
  "OPENSSL_sk_delete_ptr None p = (None, None)"
| "OPENSSL_sk_delete_ptr (Some sk) p =
     (case scan_from (\<lambda>x. x = p) (st_data sk) 0 (st_num sk) of
        None \<Rightarrow> (None, Some sk)
      | Some i \<Rightarrow> OPENSSL_sk_delete (Some sk) i)"

text \<open>The compaction loop; \<open>k\<close> iterations are left.\<close>

fun delete_if_loop :: "('a \<Rightarrow> bool) \<Rightarrow> 'a list \<Rightarrow> nat \<Rightarrow> nat \<Rightarrow> nat \<Rightarrow> 'a list \<times> nat" where
  "delete_if_loop f d new_num i 0 = (d, new_num)"
| "delete_if_loop f d new_num i (Suc k) =
     (if \<not> f (d ! i) then delete_if_loop f (d[new_num := d ! i]) (new_num + 1) (i + 1) k
      else delete_if_loop f d new_num (i + 1) k)"

fun OPENSSL_sk_delete_if :: "('p, 'c) stack_st option \<Rightarrow> ('p option \<Rightarrow> bool) \<Rightarrow> ('p, 'c) stack_st option" where
  "OPENSSL_sk_delete_if None f = None"
| "OPENSSL_sk_delete_if (Some sk) f =
     (let (d, new_num) = delete_if_loop f (st_data sk) 0 0 (st_num sk)
      in Some (sk\<lparr>st_data := d, st_num := new_num\<rparr>))"

fun OPENSSL_sk_is_sorted :: "('p, 'c) stack_st option \<Rightarrow> bool" where
  "OPENSSL_sk_is_sorted None = True"
| "OPENSSL_sk_is_sorted (Some sk) = (st_sorted sk \<or> (st_comp sk \<noteq> None \<and> st_num sk < 2))"

text \<open>The binary search of the half-open interval from \<open>lo\<close> to \<open>hi\<close>; \<open>r\<close> compares with an element.\<close>

function bsearch :: "('a \<Rightarrow> int) \<Rightarrow> 'a list \<Rightarrow> nat \<Rightarrow> nat \<Rightarrow> nat option" where
  "bsearch r d lo hi =
     (if lo < hi then
        let mid = lo + (hi - lo - 1) div 2 in
        if r (d ! mid) > 0 then bsearch r d (mid + 1) hi
        else if r (d ! mid) < 0 then bsearch r d lo mid
        else if hi - lo = 1 then Some mid
        else bsearch r d lo (mid + 1)
      else None)"
  by pat_completeness auto
termination
  by (relation "measure (\<lambda>(_, _, lo, hi). hi - lo)") auto

declare bsearch.simps [simp del]

fun OPENSSL_sk_find :: "('p, 'c) cmp_call \<Rightarrow> ('p, 'c) stack_st option \<Rightarrow> 'p option \<Rightarrow> nat option" where
  "OPENSSL_sk_find call_cmp_func None p = None"
| "OPENSSL_sk_find call_cmp_func (Some sk) p =
     (case st_comp sk of
        None \<Rightarrow> scan_from (\<lambda>x. x = p) (st_data sk) 0 (st_num sk)
      | Some c \<Rightarrow>
          if p = None then None
          else if \<not> OPENSSL_sk_is_sorted (Some sk) then
            scan_from (\<lambda>x. call_cmp_func c p x = 0) (st_data sk) 0 (st_num sk)
          else bsearch (call_cmp_func c p) (st_data sk) 0 (st_num sk))"

fun OPENSSL_sk_shift :: "('p, 'c) stack_st option \<Rightarrow> 'p option \<times> ('p, 'c) stack_st option" where
  "OPENSSL_sk_shift None = (None, None)"
| "OPENSSL_sk_shift (Some sk) =
     (if st_num sk = 0 then (None, Some sk) else OPENSSL_sk_delete (Some sk) 0)"

text \<open>\<open>OPENSSL_sk_push\<close> reads \<open>sk->num\<close> first, so its stack is never null.\<close>

definition OPENSSL_sk_push ::
  "'p pmalloc \<Rightarrow> ('p, 'c) stack_st \<Rightarrow> 'p option \<Rightarrow> nat \<times> ('p, 'c) stack_st option" where
  "OPENSSL_sk_push mal sk p = OPENSSL_sk_insert mal (Some sk) p (st_num sk)"

fun OPENSSL_sk_pop :: "('p, 'c) stack_st option \<Rightarrow> 'p option \<times> ('p, 'c) stack_st option" where
  "OPENSSL_sk_pop None = (None, None)"
| "OPENSSL_sk_pop (Some sk) =
     (if st_num sk = 0 then (None, Some sk) else OPENSSL_sk_delete (Some sk) (st_num sk - 1))"

fun OPENSSL_sk_dup :: "'p pmalloc \<Rightarrow> ('p, 'c) stack_st option \<Rightarrow> ('p, 'c) stack_st option" where
  "OPENSSL_sk_dup mal None = None"
| "OPENSSL_sk_dup mal (Some sk) =
     (case zalloc_ptrs mal sizeof_stack of
        None \<Rightarrow> None
      | Some _ \<Rightarrow>
          (case memdup_ptrs mal (st_data sk) ((8 * st_num_alloc sk) mod 2 ^ 64) of
             None \<Rightarrow> None
           | Some d \<Rightarrow> Some \<lparr>st_num = st_num sk, st_data = d, st_sorted = st_sorted sk,
                             st_num_alloc = st_num_alloc sk, st_comp = st_comp sk\<rparr>))"

definition parent_idx :: "nat \<Rightarrow> nat" where "parent_idx idx = (idx - 1) div 2"
definition left_idx :: "nat \<Rightarrow> nat" where "left_idx idx = 2 * idx + 1"

definition swap :: "'a list \<Rightarrow> nat \<Rightarrow> nat \<Rightarrow> 'a list" where
  "swap d i j = d[i := d ! j, j := d ! i]"

text \<open>The child that \<open>down_heap\<close> exchanges with \<open>i\<close>, or \<open>i\<close>.\<close>

definition largest_child :: "('a \<Rightarrow> 'a \<Rightarrow> int) \<Rightarrow> 'a list \<Rightarrow> nat \<Rightarrow> nat \<Rightarrow> nat" where
  "largest_child cmp d i n =
     (let left = left_idx i;
          next0 = (if cmp (d ! i) (d ! left) < 0 then left else i);
          right = left + 1
      in if right < n \<and> cmp (d ! next0) (d ! right) < 0 then right else next0)"

function down_heap :: "('a \<Rightarrow> 'a \<Rightarrow> int) \<Rightarrow> 'a list \<Rightarrow> nat \<Rightarrow> nat \<Rightarrow> 'a list" where
  "down_heap cmp d i n =
     (if left_idx i \<ge> n then d
      else
        let nxt = largest_child cmp d i n in
        if i = nxt then d else down_heap cmp (swap d i nxt) nxt n)"
  by pat_completeness auto
termination
  by (relation "measure (\<lambda>(_, _, i, n). n - i)") (auto simp: left_idx_def largest_child_def Let_def split: if_splits)

declare down_heap.simps [simp del]

text \<open>
  The two loops of \<open>OPENSSL_sk_sort\<close>. The first counts \<open>i\<close> down to zero and ends when the
  unsigned index wraps to a value that is not below \<open>num\<close>.
\<close>

fun build_heap :: "('a \<Rightarrow> 'a \<Rightarrow> int) \<Rightarrow> 'a list \<Rightarrow> nat \<Rightarrow> nat \<Rightarrow> 'a list" where
  "build_heap cmp d n 0 = down_heap cmp d 0 n"
| "build_heap cmp d n (Suc i) = build_heap cmp (down_heap cmp d (Suc i) n) n i"

fun pop_heap :: "('a \<Rightarrow> 'a \<Rightarrow> int) \<Rightarrow> 'a list \<Rightarrow> nat \<Rightarrow> 'a list" where
  "pop_heap cmp d 0 = d"
| "pop_heap cmp d (Suc i) = pop_heap cmp (down_heap cmp (swap d 0 (Suc i)) 0 (Suc i)) i"

fun OPENSSL_sk_sort :: "('p, 'c) cmp_call \<Rightarrow> ('p, 'c) stack_st option \<Rightarrow> ('p, 'c) stack_st option" where
  "OPENSSL_sk_sort call_cmp_func None = None"
| "OPENSSL_sk_sort call_cmp_func (Some sk) =
     (case st_comp sk of
        None \<Rightarrow> Some sk
      | Some c \<Rightarrow>
          if st_sorted sk then Some sk
          else
            let n = st_num sk; cmp = call_cmp_func c;
                d = (if n \<ge> 2 then pop_heap cmp (build_heap cmp (st_data sk) n (parent_idx (n - 1))) (n - 1)
                     else st_data sk)
            in Some (sk\<lparr>st_data := d, st_sorted := True\<rparr>))"

definition OPENSSL_sk_set_cmp_func ::
  "('p, 'c) stack_st \<Rightarrow> 'c option \<Rightarrow> 'c option \<times> ('p, 'c) stack_st" where
  "OPENSSL_sk_set_cmp_func sk cmp_func =
     (st_comp sk, (if st_comp sk \<noteq> cmp_func then sk\<lparr>st_sorted := False\<rparr> else sk)\<lparr>st_comp := cmp_func\<rparr>)"

text \<open>
  The copying loop of \<open>OPENSSL_sk_deep_copy\<close>: \<open>copied\<close> holds the slots already replaced, the
  result is the copied slots, or the pointers freed after a copy failed.
\<close>

fun deep_copy_loop :: "('p \<Rightarrow> 'p option) \<Rightarrow> 'p option list \<Rightarrow> 'p option list \<Rightarrow> 'p list + 'p option list" where
  "deep_copy_loop copy copied [] = Inr copied"
| "deep_copy_loop copy copied (None # ps) = deep_copy_loop copy (copied @ [None]) ps"
| "deep_copy_loop copy copied (Some p # ps) =
     (case copy p of
        None \<Rightarrow> Inl (concat (map (\<lambda>q. case q of None \<Rightarrow> [] | Some x \<Rightarrow> [x]) copied))
      | Some q \<Rightarrow> deep_copy_loop copy (copied @ [Some q]) ps)"

text \<open>The result is the copy and the calls of the free function.\<close>

definition OPENSSL_sk_deep_copy ::
  "'p pmalloc \<Rightarrow> ('p, 'c) stack_st option \<Rightarrow> ('p \<Rightarrow> 'p option) \<Rightarrow> ('p, 'c) stack_st option \<times> 'p list" where
  "OPENSSL_sk_deep_copy mal sk copy =
     (case OPENSSL_sk_dup mal sk of
        None \<Rightarrow> (None, [])
      | Some ret \<Rightarrow>
          (case deep_copy_loop copy [] (take (st_num ret) (st_data ret)) of
             Inl freed \<Rightarrow> (None, freed)
           | Inr d \<Rightarrow> (Some (ret\<lparr>st_data := d @ drop (st_num ret) (st_data ret)\<rparr>), [])))"

end
