(* ===== verification/Sk_Sort.thy ===== *)
theory Sk_Sort
  imports Sk_Stack Compare
begin

text \<open>
  Heap sort and binary search of crypto/stack/stack.c: \<open>build_heap\<close> and \<open>pop_heap\<close> sort an array
  under any comparison function that meets the contract \<open>cmp_order\<close>, and \<open>bsearch\<close> finds the
  first match in a sorted one.
\<close>

section \<open>Exchanges\<close>

lemma length_swap [simp]: "length (swap d i j) = length d"
  by (simp add: swap_def)

lemma nth_swap:
  "i < length d \<Longrightarrow> j < length d \<Longrightarrow> k < length d \<Longrightarrow>
     swap d i j ! k = (if k = j then d ! i else if k = i then d ! j else d ! k)"
  by (simp add: swap_def nth_list_update)

lemma take_swap: "i < n \<Longrightarrow> j < n \<Longrightarrow> n \<le> length d \<Longrightarrow> take n (swap d i j) = swap (take n d) i j"
  by (simp add: swap_def take_update_swap)

lemma drop_swap: "i < n \<Longrightarrow> j < n \<Longrightarrow> drop n (swap d i j) = drop n d"
  by (simp add: swap_def drop_update_cancel)

lemma mset_swap_eq: "i < length d \<Longrightarrow> j < length d \<Longrightarrow> mset (swap d i j) = mset d"
  unfolding swap_def using mset_swap [of j d i] by (cases "i = j") (simp_all add: list_update_swap)

lemma mset_take_swap: "i < n \<Longrightarrow> j < n \<Longrightarrow> n \<le> length d \<Longrightarrow> mset (take n (swap d i j)) = mset (take n d)"
  by (simp add: take_swap mset_swap_eq)

section \<open>Heaps\<close>

lemma parent_child: "0 < k \<Longrightarrow> parent_idx k = i \<longleftrightarrow> k = left_idx i \<or> k = left_idx i + 1"
  unfolding parent_idx_def left_idx_def by presburger

lemma parent_less: "0 < k \<Longrightarrow> parent_idx k < k"
  unfolding parent_idx_def by presburger

text \<open>Every element from the node \<open>lo\<close> down is no larger than its parent.\<close>

definition heap_from :: "('a \<Rightarrow> 'a \<Rightarrow> int) \<Rightarrow> 'a list \<Rightarrow> nat \<Rightarrow> nat \<Rightarrow> bool" where
  "heap_from cmp d lo n \<longleftrightarrow>
     (\<forall>k. 0 < k \<longrightarrow> k < n \<longrightarrow> lo \<le> parent_idx k \<longrightarrow> cmp (d ! k) (d ! parent_idx k) \<le> 0)"

text \<open>The same but for the node \<open>i\<close>, whose children are still below the parent of \<open>i\<close>.\<close>

definition heap_except :: "('a \<Rightarrow> 'a \<Rightarrow> int) \<Rightarrow> 'a list \<Rightarrow> nat \<Rightarrow> nat \<Rightarrow> nat \<Rightarrow> bool" where
  "heap_except cmp d lo i n \<longleftrightarrow>
     (\<forall>k. 0 < k \<longrightarrow> k < n \<longrightarrow> lo \<le> parent_idx k \<longrightarrow> parent_idx k \<noteq> i \<longrightarrow> cmp (d ! k) (d ! parent_idx k) \<le> 0) \<and>
     (\<forall>k. 0 < k \<longrightarrow> k < n \<longrightarrow> parent_idx k = i \<longrightarrow> 0 < i \<longrightarrow> lo \<le> parent_idx i \<longrightarrow> cmp (d ! k) (d ! parent_idx i) \<le> 0)"

lemma heap_exceptI: "heap_from cmp d (Suc i) n \<Longrightarrow> heap_except cmp d i i n"
  unfolding heap_from_def heap_except_def
  by (metis Suc_leI le_neq_implies_less leD parent_less)

lemma largest_child_range:
  "left_idx i < n \<Longrightarrow> largest_child cmp d i n \<in> {i, left_idx i, left_idx i + 1} \<and> largest_child cmp d i n < n"
  by (auto simp: largest_child_def Let_def left_idx_def)

lemma largest_child_step:
  assumes "left_idx i < n" "largest_child cmp d i n \<noteq> i"
  shows "i < largest_child cmp d i n" "largest_child cmp d i n < n" "parent_idx (largest_child cmp d i n) = i"
proof -
  have r: "largest_child cmp d i n = left_idx i \<or> largest_child cmp d i n = left_idx i + 1"
    using largest_child_range [OF assms(1), of cmp d] assms(2) by auto
  then show l: "i < largest_child cmp d i n" by (auto simp: left_idx_def)
  show "largest_child cmp d i n < n" using largest_child_range [OF assms(1)] by blast
  show "parent_idx (largest_child cmp d i n) = i" using r l by (subst parent_child) auto
qed

lemma down_heap_keeps:
  assumes "i < n" "n \<le> length d"
  shows "length (down_heap cmp d i n) = length d \<and> mset (take n (down_heap cmp d i n)) = mset (take n d) \<and>
    drop n (down_heap cmp d i n) = drop n d"
  using assms
proof (induction cmp d i n rule: down_heap.induct)
  case (1 cmp d i n)
  let ?nxt = "largest_child cmp d i n"
  show ?case
  proof (cases "left_idx i \<ge> n \<or> ?nxt = i")
    case True
    then show ?thesis by (auto simp: down_heap.simps [of cmp d i n])
  next
    case False
    then have s: "?nxt < n" "\<not> n \<le> left_idx i" "i \<noteq> ?nxt" using largest_child_step [of i n cmp d] by auto
    note IH = "1.IH" [OF s(2) refl s(3)]
    show ?thesis
      using IH "1.prems" s
      by (simp add: down_heap.simps [of cmp d i n] Let_def mset_take_swap drop_swap)
  qed
qed

lemmas length_down_heap [simp] = down_heap_keeps [THEN conjunct1]

context cmp_order
begin

lemma largest_child_max:
  assumes "left_idx i < n" "k = i \<or> (0 < k \<and> k < n \<and> parent_idx k = i)"
  shows "cmp (d ! k) (d ! largest_child cmp d i n) \<le> 0"
proof -
  let ?nxt = "if cmp (d ! i) (d ! left_idx i) < 0 then left_idx i else i"
  have n: "cmp (d ! i) (d ! ?nxt) \<le> 0" "cmp (d ! left_idx i) (d ! ?nxt) \<le> 0"
    using not_less_le [of "d ! i" "d ! left_idx i"] by (auto simp: cmp_refl)
  have k: "k = i \<or> k = left_idx i \<or> (k = left_idx i + 1 \<and> k < n)" using assms(2) parent_child by blast
  show ?thesis
  proof (cases "left_idx i + 1 < n \<and> cmp (d ! ?nxt) (d ! (left_idx i + 1)) < 0")
    case True
    then have "largest_child cmp d i n = left_idx i + 1" by (simp add: largest_child_def Let_def)
    then show ?thesis using k n True by (auto simp: cmp_refl intro: cmp_trans)
  next
    case False
    then have "largest_child cmp d i n = ?nxt" by (auto simp: largest_child_def Let_def)
    then show ?thesis using k n False not_less_le by auto
  qed
qed

lemma heap_except_step:
  assumes h: "heap_except cmp d lo i n" and lo: "lo \<le> i" and i: "i < n" "n \<le> length d"
    and left: "left_idx i < n" and ne: "largest_child cmp d i n \<noteq> i"
  shows "heap_except cmp (swap d i (largest_child cmp d i n)) lo (largest_child cmp d i n) n"
proof -
  let ?j = "largest_child cmp d i n"
  let ?d = "swap d i ?j"
  note j = largest_child_step [OF left ne] and le = largest_child_max [OF left]
  have nth: "?d ! k = (if k = ?j then d ! i else if k = i then d ! ?j else d ! k)" if "k < n" for k
    using that i j by (subst nth_swap) auto
  have "cmp (?d ! k) (?d ! parent_idx k) \<le> 0"
    if k: "0 < k" "k < n" "lo \<le> parent_idx k" "parent_idx k \<noteq> ?j" for k
  proof (cases "parent_idx k = i")
    case True
    then have "k \<noteq> i" using parent_less [OF k(1)] by auto
    then show ?thesis using True k i le [of k] le [of i] j by (auto simp: nth)
  next
    case False
    have p: "parent_idx k < n" using parent_less [OF k(1)] k(2) by simp
    have kj: "k \<noteq> ?j" using False j(3) by auto
    show ?thesis
    proof (cases "k = i")
      case True
      then show ?thesis using h k kj j p False by (auto simp: nth heap_except_def)
    next
      case other: False
      then show ?thesis using h k kj p False by (simp add: nth heap_except_def)
    qed
  qed
  moreover have "cmp (?d ! k) (?d ! parent_idx ?j) \<le> 0" if k: "0 < k" "k < n" "parent_idx k = ?j" for k
  proof -
    have "?j < k" using parent_less [OF k(1)] k(3) by simp
    then have "?d ! k = d ! k" "?d ! parent_idx ?j = d ! ?j" using k j i by (auto simp: nth)
    moreover have "cmp (d ! k) (d ! ?j) \<le> 0" using h [unfolded heap_except_def, THEN conjunct1, rule_format, of k] k lo j by simp
    ultimately show ?thesis by simp
  qed
  ultimately show ?thesis unfolding heap_except_def by blast
qed

lemma down_heap_heap:
  assumes "heap_except cmp d lo i n" "lo \<le> i" "i < n" "n \<le> length d"
  shows "heap_from cmp (down_heap cmp d i n) lo n"
  using assms
proof (induction "n - i" arbitrary: d i rule: less_induct)
  case less
  let ?j = "largest_child cmp d i n"
  note h = less.prems(1) [unfolded heap_except_def, THEN conjunct1, rule_format]
  consider "n \<le> left_idx i" | "left_idx i < n" "?j = i" | "left_idx i < n" "?j \<noteq> i" by linarith
  then show ?case
  proof cases
    case 1
    then have "parent_idx k \<noteq> i" if "0 < k" "k < n" for k using parent_child [OF that(1)] that by auto
    then show ?thesis using 1 h by (simp add: down_heap.simps [of cmp d i n] heap_from_def)
  next
    case 2
    have "cmp (d ! k) (d ! parent_idx k) \<le> 0" if "0 < k" "k < n" "lo \<le> parent_idx k" for k
      using that h [of k] largest_child_max [OF 2(1), of k d] 2(2) by (cases "parent_idx k = i") auto
    then show ?thesis using 2 by (simp add: down_heap.simps [of cmp d i n] heap_from_def)
  next
    case 3
    note j = largest_child_step [OF 3]
    have "heap_from cmp (down_heap cmp (swap d i ?j) ?j n) lo n"
      using less.hyps [OF _ heap_except_step [OF less.prems 3]] j less.prems by simp
    then show ?thesis using 3 by (simp add: down_heap.simps [of cmp d i n] Let_def)
  qed
qed

lemma heap_root: "heap_from cmp d 0 n \<Longrightarrow> k < n \<Longrightarrow> cmp (d ! k) (d ! 0) \<le> 0"
proof (induction k rule: less_induct)
  case (less k)
  show ?case
  proof (cases "k = 0")
    case False
    then have "cmp (d ! parent_idx k) (d ! 0) \<le> 0" "cmp (d ! k) (d ! parent_idx k) \<le> 0"
      using less parent_less [of k] by (auto simp: heap_from_def)
    then show ?thesis by (rule cmp_trans [rotated])
  qed (simp add: cmp_refl)
qed

lemma build_heap_heap:
  "heap_from cmp d (Suc i) n \<Longrightarrow> i < n \<Longrightarrow> n \<le> length d \<Longrightarrow> heap_from cmp (build_heap cmp d n i) 0 n"
proof (induction i arbitrary: d)
  case 0
  then show ?case using down_heap_heap [OF heap_exceptI] by simp
next
  case (Suc i)
  then show ?case using down_heap_heap [OF heap_exceptI [OF Suc.prems(1)]] by simp
qed

lemma pop_heap_sorted:
  assumes "heap_from cmp d 0 (Suc i)" "Suc i \<le> length d" "ascending cmp (drop (Suc i) d)"
    "\<forall>a\<in>set (take (Suc i) d). \<forall>b\<in>set (drop (Suc i) d). cmp a b \<le> 0"
  shows "ascending cmp (pop_heap cmp d i)"
  using assms
proof (induction i arbitrary: d)
  case 0
  then show ?case by (cases d) (auto simp: ascending_def)
next
  case (Suc i)
  let ?s = "swap d 0 (Suc i)" and ?n = "Suc i"
  let ?e = "down_heap cmp ?s 0 ?n"
  have len: "?n < length d" using Suc.prems(2) by simp
  have keep: "mset (take ?n ?e) = mset (take ?n ?s)" "drop ?n ?e = drop ?n ?s" "length ?e = length d"
    using down_heap_keeps [of 0 ?n ?s cmp] len by auto
  have nth: "?s ! k = (if k = ?n then d ! 0 else if k = 0 then d ! ?n else d ! k)" if "k < length d" for k
    using that len by (subst nth_swap) auto
  have "heap_except cmp ?s 0 0 ?n"
    using Suc.prems(1) len parent_less by (auto simp: heap_except_def heap_from_def nth)
      (metis less_SucI less_irrefl nth order.strict_trans)
  then have heap: "heap_from cmp ?e 0 ?n" using down_heap_heap len by simp
  have dr: "drop ?n ?s = d ! 0 # drop (Suc ?n) d"
    using len nth [of ?n] drop_swap [of 0 "Suc ?n" ?n d] by (subst Cons_nth_drop_Suc [symmetric]) auto
  have tk: "set (take (Suc ?n) ?s) = set (take (Suc ?n) d)"
    using mset_take_swap [of 0 "Suc ?n" ?n d] len by (metis set_mset_mset Suc_leI zero_less_Suc lessI)
  have sub: "set (take ?n ?e) \<subseteq> set (take (Suc ?n) d)"
    using keep(1) tk set_take_subset_set_take [of ?n "Suc ?n" ?s] by (metis le_SucI order_refl set_mset_mset)
  have max: "cmp a (d ! 0) \<le> 0" if "a \<in> set (take (Suc ?n) d)" for a
  proof -
    from that obtain k where "k < Suc ?n" "a = d ! k" using len by (auto simp: in_set_conv_nth)
    then show ?thesis using heap_root [OF Suc.prems(1)] by simp
  qed
  have root: "d ! 0 \<in> set (take (Suc ?n) d)" using len by (auto simp: in_set_conv_nth)
  have "ascending cmp (drop ?n ?e)"
    using Suc.prems(3,4) root unfolding keep(2) dr by (auto simp: ascending_def)
  moreover have "\<forall>a\<in>set (take ?n ?e). \<forall>b\<in>set (drop ?n ?e). cmp a b \<le> 0"
    using Suc.prems(4) sub max unfolding keep(2) dr by auto
  ultimately show ?case using Suc.IH [OF heap] keep(3) len by simp
qed

end

text \<open>The part of an array after the sorted range is not touched.\<close>

lemma swap_append: "i < length d \<Longrightarrow> j < length d \<Longrightarrow> swap (d @ e) i j = swap d i j @ e"
  by (simp add: swap_def nth_append list_update_append)

lemma largest_child_append:
  "left_idx i < n \<Longrightarrow> n \<le> length d \<Longrightarrow> largest_child cmp (d @ e) i n = largest_child cmp d i n"
  by (simp add: largest_child_def Let_def nth_append left_idx_def)

lemma down_heap_append:
  "i < n \<Longrightarrow> n \<le> length d \<Longrightarrow> down_heap cmp (d @ e) i n = down_heap cmp d i n @ e"
proof (induction "n - i" arbitrary: d i rule: less_induct)
  case less
  let ?j = "largest_child cmp d i n"
  show ?case
  proof (cases "left_idx i < n \<and> ?j \<noteq> i")
    case True
    note j = largest_child_step [of i n cmp d]
    have "down_heap cmp (swap d i ?j @ e) ?j n = down_heap cmp (swap d i ?j) ?j n @ e"
      using less True j by simp
    then show ?thesis
      using True less.prems j
      by (simp add: down_heap.simps [of cmp _ i n] Let_def largest_child_append swap_append)
  qed (use less.prems in \<open>auto simp: down_heap.simps [of cmp _ i n] Let_def largest_child_append\<close>)
qed

lemma build_heap_keeps:
  "i < n \<Longrightarrow> n = length d \<Longrightarrow> length (build_heap cmp d n i) = n \<and> mset (build_heap cmp d n i) = mset d"
  using down_heap_keeps [of _ "length d" _ cmp]
  by (induction i arbitrary: d) (fastforce, metis Suc_lessD build_heap.simps(2) order_refl take_all)

lemma build_heap_append:
  "i < n \<Longrightarrow> n = length d \<Longrightarrow> build_heap cmp (d @ e) n i = build_heap cmp d n i @ e"
proof (induction i arbitrary: d)
  case (Suc i)
  then show ?case using Suc.IH [of "down_heap cmp d (Suc i) n"] by (simp add: down_heap_append)
qed (simp add: down_heap_append)

lemma pop_heap_keeps:
  "i < length d \<Longrightarrow> length (pop_heap cmp d i) = length d \<and> mset (pop_heap cmp d i) = mset d"
proof (induction i arbitrary: d)
  case (Suc i)
  let ?s = "swap d 0 (Suc i)"
  have k: "mset (take (Suc i) (down_heap cmp ?s 0 (Suc i))) = mset (take (Suc i) ?s)"
    "drop (Suc i) (down_heap cmp ?s 0 (Suc i)) = drop (Suc i) ?s"
    "length (down_heap cmp ?s 0 (Suc i)) = length d"
    using down_heap_keeps [of 0 "Suc i" ?s cmp] Suc.prems by simp_all
  have "mset (down_heap cmp ?s 0 (Suc i)) = mset ?s"
    using k(1,2) by (metis append_take_drop_id mset_append)
  also have "\<dots> = mset d" using Suc.prems by (intro mset_swap_eq) linarith+
  finally show ?case using Suc.IH [of "down_heap cmp ?s 0 (Suc i)"] k(3) Suc.prems by simp
qed simp

lemma pop_heap_append: "i < length d \<Longrightarrow> pop_heap cmp (d @ e) i = pop_heap cmp d i @ e"
proof (induction i arbitrary: d)
  case (Suc i)
  have "swap (d @ e) 0 (Suc i) = swap d 0 (Suc i) @ e" using Suc.prems by (intro swap_append) linarith+
  then show ?case using Suc by (simp add: down_heap_append)
qed simp

text \<open>The two loops together.\<close>

definition heap_sort :: "('a \<Rightarrow> 'a \<Rightarrow> int) \<Rightarrow> 'a list \<Rightarrow> nat \<Rightarrow> 'a list" where
  "heap_sort cmp d n = pop_heap cmp (build_heap cmp d n (parent_idx (n - 1))) (n - 1)"

lemma heap_sort_append: "2 \<le> n \<Longrightarrow> n = length d \<Longrightarrow> heap_sort cmp (d @ e) n = heap_sort cmp d n @ e"
  using parent_less [of "n - 1"] build_heap_keeps [of "parent_idx (n - 1)" n d cmp]
  by (simp add: heap_sort_def build_heap_append pop_heap_append)

lemma heap_sort_keeps:
  "2 \<le> n \<Longrightarrow> n = length d \<Longrightarrow> length (heap_sort cmp d n) = n \<and> mset (heap_sort cmp d n) = mset d"
  using parent_less [of "n - 1"] build_heap_keeps [of "parent_idx (n - 1)" n d cmp]
    pop_heap_keeps [of "n - 1" "build_heap cmp d n (parent_idx (n - 1))" cmp]
  by (simp add: heap_sort_def)

context cmp_order
begin

lemma heap_sort_sorted:
  assumes "2 \<le> n" "n = length d"
  shows "ascending cmp (heap_sort cmp d n)"
proof -
  let ?p = "parent_idx (n - 1)"
  have p: "?p < n" using parent_less [of "n - 1"] assms by simp
  have "heap_from cmp d (Suc ?p) n"
    unfolding heap_from_def parent_idx_def by (metis Suc_le_lessD div_le_mono diff_le_mono less_imp_le_nat
        not_less Suc_pred' less_Suc_eq_le less_trans zero_less_Suc less_le_trans)
  then have "heap_from cmp (build_heap cmp d n ?p) 0 n" using build_heap_heap p assms by simp
  moreover have "length (build_heap cmp d n ?p) = n" using build_heap_keeps p assms by blast
  moreover have "Suc (n - 1) = n" using assms by linarith
  ultimately show ?thesis
    using pop_heap_sorted [of "build_heap cmp d n ?p" "n - 1"] unfolding heap_sort_def
    by (simp only:) (simp add: ascending_def)
qed

end

end
