(* ===== verification/Sk_Props.thy ===== *)
theory Sk_Props
  imports Sk_Sort
begin

text \<open>
  What the stacks of crypto/stack/stack.c promise: a stack is the list of its elements, its
  \<open>sorted\<close> flag tells the truth, sorting sorts, and searching finds the first match.
\<close>

section \<open>Searching\<close>

lemma find_append: "find P (xs @ ys) = (case find P xs of None \<Rightarrow> find P ys | Some x \<Rightarrow> Some x)"
  by (induction xs) auto

lemma scan_from_find: "scan_from t d i n = find (\<lambda>k. t (d ! k)) [i..<i + n]"
  by (induction n arbitrary: i) (simp_all add: upt_rec)

lemma find_upt_split:
  "lo \<le> m \<Longrightarrow> m \<le> hi \<Longrightarrow>
     find P [lo..<hi] = (case find P [lo..<m] of None \<Rightarrow> find P [m..<hi] | Some x \<Rightarrow> Some x)"
  using upt_add_eq_append [of lo m "hi - m"] by (simp add: find_append)

lemma bsearch_find:
  assumes "\<And>j k. j \<le> k \<Longrightarrow> k < n \<Longrightarrow> r (d ! j) < 0 \<Longrightarrow> r (d ! k) < 0"
    and "\<And>j k. j \<le> k \<Longrightarrow> k < n \<Longrightarrow> r (d ! k) > 0 \<Longrightarrow> r (d ! j) > (0::int)"
    and "hi \<le> n"
  shows "bsearch r d lo hi = find (\<lambda>k. r (d ! k) = 0) [lo..<hi]"
  using assms(3)
proof (induction "hi - lo" arbitrary: lo hi rule: less_induct)
  case less
  show ?case
  proof (cases "lo < hi")
    case True
    define mid where "mid = lo + (hi - lo - 1) div 2"
    have m: "lo \<le> mid" "mid < hi" "hi - lo \<noteq> 1 \<Longrightarrow> mid + 1 < hi" using True by (auto simp: mid_def)
    have b: "bsearch r d lo hi =
        (if r (d ! mid) > 0 then bsearch r d (mid + 1) hi
         else if r (d ! mid) < 0 then bsearch r d lo mid
         else if hi - lo = 1 then Some mid else bsearch r d lo (mid + 1))"
      using True by (simp add: bsearch.simps [of r d lo hi] mid_def Let_def)
    consider "r (d ! mid) > 0" | "r (d ! mid) < 0" | "r (d ! mid) = 0" "hi - lo = 1" | "r (d ! mid) = 0" "hi - lo \<noteq> 1"
      by linarith
    then show ?thesis
    proof cases
      case 1
      have "r (d ! k) \<noteq> 0" if "k < mid + 1" for k using assms(2) [of k mid] 1 that m less.prems by simp
      then have "find (\<lambda>k. r (d ! k) = 0) [lo..<mid + 1] = None" by (auto simp: find_None_iff)
      then show ?thesis
        using 1 b less.hyps [of hi "mid + 1"] m less.prems by (simp add: find_upt_split [of lo "mid + 1" hi] del: upt_Suc)
    next
      case 2
      have "r (d ! k) \<noteq> 0" if "mid \<le> k" "k < hi" for k using assms(1) [of mid k] 2 that m less.prems by simp
      then have "find (\<lambda>k. r (d ! k) = 0) [mid..<hi] = None" by (simp add: find_None_iff)
      then show ?thesis
        using 2 b less.hyps [of mid lo] m less.prems
        by (simp add: find_upt_split [of lo mid hi] split: option.splits)
    next
      case 3
      then have "mid = lo" "[lo..<hi] = [lo]" using m by (auto simp: mid_def upt_rec)
      then show ?thesis using 3 b by simp
    next
      case 4
      then have "find (\<lambda>k. r (d ! k) = 0) [lo..<mid + 1] \<noteq> None" using m by (auto simp: find_None_iff)
      then show ?thesis
        using 4 b less.hyps [of "mid + 1" lo] m less.prems
        by (auto simp: find_upt_split [of lo "mid + 1" hi] simp del: upt_Suc)
    qed
  qed (simp add: bsearch.simps [of r d lo hi])
qed

section \<open>The abstraction and the invariant\<close>

definition sk_elems :: "('p, 'c) stack_st \<Rightarrow> 'p option list" where
  "sk_elems sk = take (st_num sk) (st_data sk)"

definition wf_stack :: "('p, 'c) stack_st \<Rightarrow> bool" where
  "wf_stack sk \<longleftrightarrow> length (st_data sk) = st_num_alloc sk \<and> st_num sk \<le> st_num_alloc sk \<and>
     kMinSize \<le> st_num_alloc sk \<and> st_num_alloc sk \<le> 2 * INT_MAX \<and> st_num sk \<le> INT_MAX"

text \<open>The \<open>sorted\<close> flag is set only on a stack whose elements ascend under its comparison function.\<close>

definition sorted_ok :: "('p, 'c) cmp_call \<Rightarrow> ('p, 'c) stack_st \<Rightarrow> bool" where
  "sorted_ok call sk \<longleftrightarrow>
     (st_sorted sk \<longrightarrow> (\<exists>c. st_comp sk = Some c \<and> ascending (call c) (sk_elems sk)))"

lemma length_sk_elems [simp]: "wf_stack sk \<Longrightarrow> length (sk_elems sk) = st_num sk"
  by (simp add: sk_elems_def wf_stack_def)

lemma nth_sk_elems: "i < st_num sk \<Longrightarrow> sk_elems sk ! i = st_data sk ! i"
  by (simp add: sk_elems_def)

lemma malloc_ptrs_length: "malloc_ptrs mal sz = Some d \<Longrightarrow> length d = sz div 8"
  by (auto simp: malloc_ptrs_def split: if_splits option.splits)

lemma sk_new_Some:
  "OPENSSL_sk_new mal c = Some sk \<Longrightarrow> wf_stack sk \<and> sk_elems sk = [] \<and> \<not> st_sorted sk \<and> st_comp sk = c"
  by (auto simp: OPENSSL_sk_new_def calloc_ptrs_def zalloc_ptrs_def wf_stack_def sk_elems_def kMinSize_def
      INT_MAX_def split: if_splits option.splits)

text \<open>A stack grows only from at most \<open>INT_MAX\<close> slots, so that doubling never overflows.\<close>

lemma grow_alloc_double:
  assumes "n \<le> INT_MAX"
  shows "grow_alloc n = Some (2 * n)"
proof -
  have "n * 16 < 2 ^ 64" using assms by (simp add: INT_MAX_def)
  then have "(n * 2) mod 2 ^ 64 = 2 * n" "2 * n * 8 mod 2 ^ 64 = n * 16" by (simp_all add: mod_less)
  then show ?thesis by (simp add: grow_alloc_def Let_def)
qed

lemma sk_reserve_Some:
  assumes "sk_reserve mal sk = Some sk1" and wf: "wf_stack sk" and n: "st_num sk < INT_MAX"
  shows "wf_stack sk1 \<and> sk_elems sk1 = sk_elems sk \<and> st_num sk1 = st_num sk \<and> st_num sk < st_num_alloc sk1 \<and>
    st_comp sk1 = st_comp sk"
proof (cases "st_num_alloc sk \<le> st_num sk + 1")
  case True
  define m where "m = 2 * st_num_alloc sk"
  have g: "grow_alloc (st_num_alloc sk) = Some m" unfolding m_def using True n by (intro grow_alloc_double) simp
  obtain d ret where r: "malloc_ptrs mal (m * 8) = Some ret"
    and sk1: "sk1 = sk\<lparr>st_data := d, st_num_alloc := m\<rparr>"
    and d: "realloc_ptrs mal (st_data sk) (m * 8) = Some d"
    using assms(1) True g by (auto simp: sk_reserve_def realloc_ptrs_def split: option.splits)
  have m: "st_num_alloc sk < m" "m \<le> 2 * INT_MAX" using wf True n by (auto simp: m_def wf_stack_def kMinSize_def)
  have "length ret = m" using malloc_ptrs_length [OF r] by simp
  then have "d = st_data sk @ drop (st_num_alloc sk) ret" using d r m wf by (simp add: realloc_ptrs_def wf_stack_def)
  then show ?thesis using wf m \<open>length ret = m\<close> unfolding sk1 by (auto simp: wf_stack_def sk_elems_def)
qed (use assms in \<open>auto simp: sk_reserve_def wf_stack_def\<close>)

lemma sk_reserve_succeeds:
  assumes "wf_stack sk" "st_num sk < INT_MAX" "\<forall>sz. mal sz \<noteq> None"
  shows "sk_reserve mal sk \<noteq> None"
proof (cases "st_num_alloc sk \<le> st_num sk + 1")
  case True
  then have le: "st_num_alloc sk \<le> INT_MAX" using assms(2) by simp
  note g = grow_alloc_double [OF le]
  have "2 * st_num_alloc sk * 8 + 8 < 2 ^ 64" using le by (simp add: INT_MAX_def)
  then have "malloc_ptrs mal (2 * st_num_alloc sk * 8) \<noteq> None"
    using assms(3) by (auto simp: malloc_ptrs_def size_add_def OPENSSL_MALLOC_PREFIX_def split: option.splits)
  then show ?thesis using g by (auto simp: sk_reserve_def realloc_ptrs_def split: option.splits)
qed (simp add: sk_reserve_def)

lemma move_up:
  "pos < n \<Longrightarrow> n < length d \<Longrightarrow>
     take (n + 1) ((move_ptrs d (pos + 1) pos (n - pos))[pos := p]) = take pos (take n d) @ p # drop pos (take n d)
     \<and> length (move_ptrs d (pos + 1) pos (n - pos)) = length d"
  by (auto simp: move_ptrs_def list_update_append drop_take Suc_diff_le take_Suc_conv_app_nth)

lemma move_down:
  "pos < n \<Longrightarrow> n \<le> length d \<Longrightarrow>
     take (n - 1) (move_ptrs d pos (pos + 1) (n - pos - 1)) = take pos (take n d) @ drop (Suc pos) (take n d)
     \<and> length (move_ptrs d pos (pos + 1) (n - pos - 1)) = length d"
  by (auto simp: move_ptrs_def drop_take)

lemma sk_insert_eq:
  assumes "wf_stack sk"
  shows "OPENSSL_sk_insert mal (Some sk) p pos = (0, Some sk) \<or>
    (\<exists>sk'. OPENSSL_sk_insert mal (Some sk) p pos = (st_num sk + 1, Some sk') \<and> wf_stack sk' \<and>
       st_comp sk' = st_comp sk \<and> \<not> st_sorted sk' \<and>
       sk_elems sk' = take pos (sk_elems sk) @ p # drop pos (sk_elems sk))"
proof (cases "st_num sk \<ge> INT_MAX \<or> sk_reserve mal sk = None")
  case False
  then obtain sk1 where r: "sk_reserve mal sk = Some sk1" and n: "st_num sk < INT_MAX" by auto
  note k = sk_reserve_Some [OF r assms n]
  define d where "d = (if pos \<ge> st_num sk then (st_data sk1)[st_num sk := p]
      else (move_ptrs (st_data sk1) (pos + 1) pos (st_num sk - pos))[pos := p])"
  have len: "st_num sk < length (st_data sk1)" using k by (simp add: wf_stack_def)
  have e: "sk_elems sk = take (st_num sk) (st_data sk1)" using k unfolding sk_elems_def by metis
  have d: "take (st_num sk + 1) d = take pos (sk_elems sk) @ p # drop pos (sk_elems sk)"
    "length d = length (st_data sk1)"
    using move_up [of pos "st_num sk" "st_data sk1" p] len unfolding e d_def
    by (auto simp: take_Suc_conv_app_nth)
  show ?thesis
    using False r k n d
    by (intro disjI2 exI [of _ "sk1\<lparr>st_data := d, st_num := st_num sk + 1, st_sorted := False\<rparr>"])
      (simp add: d_def Let_def wf_stack_def sk_elems_def)
qed auto

lemma sk_delete_eq:
  assumes "wf_stack sk" "pos < st_num sk"
  shows "\<exists>sk'. OPENSSL_sk_delete (Some sk) pos = (sk_elems sk ! pos, Some sk') \<and> wf_stack sk' \<and>
       st_comp sk' = st_comp sk \<and> st_sorted sk' = st_sorted sk \<and>
       sk_elems sk' = take pos (sk_elems sk) @ drop (Suc pos) (sk_elems sk)"
proof -
  define d where "d = (if pos \<noteq> st_num sk - 1 then move_ptrs (st_data sk) pos (pos + 1) (st_num sk - pos - 1)
      else st_data sk)"
  have "take (st_num sk - 1) d = take pos (sk_elems sk) @ drop (Suc pos) (sk_elems sk)" "length d = length (st_data sk)"
    using move_down [of pos "st_num sk" "st_data sk"] assms unfolding d_def
    by (auto simp: sk_elems_def wf_stack_def)
  then show ?thesis
    using assms
    by (intro exI [of _ "sk\<lparr>st_data := d, st_num := st_num sk - 1\<rparr>"])
      (auto simp: d_def Let_def wf_stack_def sk_elems_def)
qed


lemma sk_insert_succeeds:
  assumes "wf_stack sk" "st_num sk < INT_MAX" "\<forall>sz. mal sz \<noteq> None"
  shows "fst (OPENSSL_sk_insert mal (Some sk) p pos) = st_num sk + 1"
proof -
  obtain sk1 where r: "sk_reserve mal sk = Some sk1" using sk_reserve_succeeds [OF assms] by blast
  then have "st_num sk1 = st_num sk" using sk_reserve_Some [OF r assms(1,2)] by blast
  then show ?thesis using r assms(2) by (simp add: Let_def)
qed

lemma sk_dup_succeeds:
  assumes "wf_stack sk" "\<forall>sz. mal sz \<noteq> None"
  shows "OPENSSL_sk_dup mal (Some sk) \<noteq> None"
proof -
  have a: "8 * st_num_alloc sk \<le> 16 * INT_MAX" using assms(1) by (simp add: wf_stack_def)
  then have e: "8 * st_num_alloc sk mod 2 ^ 64 = 8 * st_num_alloc sk" by (simp add: INT_MAX_def)
  have m: "malloc_ptrs mal sz \<noteq> None" if "sz \<le> 16 * INT_MAX" for sz
    using that assms(2) by (auto simp: malloc_ptrs_def size_add_def OPENSSL_MALLOC_PREFIX_def INT_MAX_def split: option.splits)
  have "zalloc_ptrs mal sizeof_stack \<noteq> None" using m [of sizeof_stack]
    by (auto simp: zalloc_ptrs_def sizeof_stack_def INT_MAX_def split: option.splits)
  moreover have "0 < st_num_alloc sk" using assms(1) by (simp add: wf_stack_def kMinSize_def)
  then have "memdup_ptrs mal (st_data sk) (8 * st_num_alloc sk) \<noteq> None" using m [OF a]
    by (auto simp: memdup_ptrs_def split: option.splits)
  ultimately show ?thesis unfolding OPENSSL_sk_dup.simps e by (auto split: option.splits)
qed

lemma delete_if_loop_eq:
  assumes "delete_if_loop f d m i k = (d', m')" "m \<le> i" "i + k \<le> length d"
  shows "m' \<le> i + k \<and> length d' = length d \<and>
    take m' d' = take m d @ filter (\<lambda>x. \<not> f x) (take k (drop i d))"
  using assms
proof (induction k arbitrary: d m i)
  case (Suc k)
  have tk: "take (Suc k) (drop i d) = d ! i # take k (drop (i + 1) d)"
  proof -
    have "drop i d = d ! i # drop (Suc i) d" using Suc.prems(3) by (intro Cons_nth_drop_Suc [symmetric]) simp
    then show ?thesis by simp
  qed
  show ?case
  proof (cases "f (d ! i)")
    case True
    then show ?thesis using Suc.IH [of d m "i + 1"] Suc.prems by (simp add: tk)
  next
    case False
    have "take (m + 1) (d[m := d ! i]) = take m d @ [d ! i]" "drop (i + 1) (d[m := d ! i]) = drop (i + 1) d"
      using Suc.prems by (simp_all add: take_Suc_conv_app_nth)
    then show ?thesis using False Suc.IH [of "d[m := d ! i]" "m + 1" "i + 1"] Suc.prems by (simp add: tk)
  qed
qed auto

lemma sk_delete_if_eq:
  assumes "wf_stack sk"
  shows "\<exists>sk'. OPENSSL_sk_delete_if (Some sk) f = Some sk' \<and> wf_stack sk' \<and> st_comp sk' = st_comp sk \<and>
    st_sorted sk' = st_sorted sk \<and> sk_elems sk' = filter (\<lambda>x. \<not> f x) (sk_elems sk)"
proof -
  obtain d m where l: "delete_if_loop f (st_data sk) 0 0 (st_num sk) = (d, m)" by fastforce
  then show ?thesis
    using delete_if_loop_eq [OF l] assms by (auto simp: wf_stack_def sk_elems_def)
qed

lemma sk_zero_eq:
  assumes "wf_stack sk"
  shows "\<exists>sk'. OPENSSL_sk_zero (Some sk) = Some sk' \<and> wf_stack sk' \<and> sk_elems sk' = [] \<and>
    (st_sorted sk' \<longrightarrow> st_sorted sk \<and> st_comp sk' = st_comp sk)"
  using assms by (auto simp: wf_stack_def sk_elems_def)

lemma sk_set_eq:
  assumes "wf_stack sk" "i < st_num sk"
  shows "\<exists>sk'. OPENSSL_sk_set (Some sk) i v = (v, Some sk') \<and> wf_stack sk' \<and> sk_elems sk' = (sk_elems sk)[i := v]"
  using assms by (auto simp: wf_stack_def sk_elems_def take_update_swap)

lemma sk_dup_Some:
  assumes "OPENSSL_sk_dup mal (Some sk) = Some sk'" "wf_stack sk"
  shows "sk' = sk"
proof -
  have "(8 * st_num_alloc sk) mod 2 ^ 64 = 8 * st_num_alloc sk"
    using assms(2) by (intro mod_less) (simp add: wf_stack_def INT_MAX_def)
  then show ?thesis
    using assms by (auto simp: memdup_ptrs_def wf_stack_def split: option.splits if_splits)
qed

lemma sk_sort_eq:
  assumes wf: "wf_stack sk" and c: "st_comp sk = Some c" and o: "cmp_order (call c)" and s: "sorted_ok call sk"
  shows "\<exists>sk'. OPENSSL_sk_sort call (Some sk) = Some sk' \<and> wf_stack sk' \<and> st_comp sk' = Some c \<and> st_sorted sk' \<and>
    mset (sk_elems sk') = mset (sk_elems sk) \<and> ascending (call c) (sk_elems sk')"
proof (cases "st_sorted sk")
  case True
  then show ?thesis using assms by (auto simp: sorted_ok_def)
next
  case False
  let ?n = "st_num sk" and ?xs = "sk_elems sk"
  have n: "?n = length ?xs" using wf by simp
  define d where "d = (if ?n \<ge> 2 then heap_sort (call c) (st_data sk) ?n else st_data sk)"
  have "take ?n d = (if ?n \<ge> 2 then heap_sort (call c) ?xs ?n else ?xs) \<and> length d = length (st_data sk)"
  proof (cases "?n \<ge> 2")
    case True
    obtain e where e: "st_data sk = ?xs @ e" by (metis append_take_drop_id sk_elems_def)
    have "d = heap_sort (call c) ?xs ?n @ e" using heap_sort_append [OF True n] True e unfolding d_def by simp
    moreover have "length (heap_sort (call c) ?xs ?n) = ?n" using heap_sort_keeps [OF True n] by blast
    moreover have "length (st_data sk) = ?n + length e" using arg_cong [OF e, of length] n by simp
    ultimately show ?thesis using True by simp
  qed (simp add: d_def sk_elems_def)
  moreover have "mset (if ?n \<ge> 2 then heap_sort (call c) ?xs ?n else ?xs) = mset ?xs"
    using heap_sort_keeps [OF _ n, of "call c"] by (cases "2 \<le> ?n") simp_all
  moreover have "ascending (call c) (if ?n \<ge> 2 then heap_sort (call c) ?xs ?n else ?xs)"
    using cmp_order.heap_sort_sorted [OF o _ n] ascending_short [of ?xs "call c", folded n] by (cases "2 \<le> ?n") simp_all
  ultimately show ?thesis
    using False c wf
    by (intro exI [of _ "sk\<lparr>st_data := d, st_sorted := True\<rparr>"])
      (simp add: d_def heap_sort_def Let_def wf_stack_def sk_elems_def)
qed

section \<open>The interface of a sequence\<close>

text \<open>
  What a client of an indexed container relies on, with an insertion that may fail for lack of
  memory.
\<close>

locale sequence =
  fixes invar :: "'s \<Rightarrow> bool"
    and elems :: "'s \<Rightarrow> 'a list"
    and insert_at :: "'s \<Rightarrow> 'a \<Rightarrow> nat \<Rightarrow> 's option"
    and delete_at :: "'s \<Rightarrow> nat \<Rightarrow> 'a \<times> 's"
  assumes insert_at: "invar s \<Longrightarrow> insert_at s x i = Some s' \<Longrightarrow>
      invar s' \<and> elems s' = take i (elems s) @ x # drop i (elems s)"
    and delete_at: "invar s \<Longrightarrow> i < length (elems s) \<Longrightarrow> delete_at s i = (x, s') \<Longrightarrow>
      x = elems s ! i \<and> invar s' \<and> elems s' = take i (elems s) @ drop (Suc i) (elems s)"
begin

lemma insert_delete:
  assumes "invar s" "i \<le> length (elems s)" "insert_at s x i = Some s'" "delete_at s' i = (y, s'')"
  shows "y = x \<and> elems s'' = elems s"
proof -
  note ins = insert_at [OF assms(1,3)]
  then have "i < length (elems s')" using assms(2) by simp
  from delete_at [OF _ this assms(4)] ins assms(2) show ?thesis by (simp add: nth_append)
qed

lemma push_shift:
  assumes "invar s" "insert_at s x (length (elems s)) = Some s'" "delete_at s' 0 = (y, s'')"
  shows "y # elems s'' = elems s @ [x]"
proof -
  note ins = insert_at [OF assms(1,2)]
  then have "0 < length (elems s')" by simp
  from delete_at [OF _ this assms(3)] ins show ?thesis by (cases "elems s") auto
qed

end

definition sk_insert_at :: "'p pmalloc \<Rightarrow> ('p, 'c) stack_st \<Rightarrow> 'p option \<Rightarrow> nat \<Rightarrow> ('p, 'c) stack_st option" where
  "sk_insert_at mal sk p i = (case OPENSSL_sk_insert mal (Some sk) p i of (n, r) \<Rightarrow> if n = 0 then None else r)"

definition sk_delete_at :: "('p, 'c) stack_st \<Rightarrow> nat \<Rightarrow> 'p option \<times> ('p, 'c) stack_st" where
  "sk_delete_at sk i = map_prod id the (OPENSSL_sk_delete (Some sk) i)"

interpretation sk: sequence wf_stack sk_elems "sk_insert_at mal" sk_delete_at
proof
  show "wf_stack s' \<and> sk_elems s' = take i (sk_elems s) @ x # drop i (sk_elems s)"
    if "wf_stack s" "sk_insert_at mal s x i = Some s'" for s s' :: "('a, 'b) stack_st" and x i
    using sk_insert_eq [OF that(1), of mal x i] that(2) by (auto simp: sk_insert_at_def split: if_splits prod.splits)
next
  show "x = sk_elems s ! i \<and> wf_stack s' \<and> sk_elems s' = take i (sk_elems s) @ drop (Suc i) (sk_elems s)"
    if "wf_stack s" "i < length (sk_elems s)" "sk_delete_at s i = (x, s')" for s s' :: "('a, 'b) stack_st" and x i
    using sk_delete_eq [OF that(1), of i] that by (auto simp: sk_delete_at_def)
qed

section \<open>Copying\<close>

definition copy_slot :: "('p \<Rightarrow> 'p option) \<Rightarrow> 'p option \<Rightarrow> 'p option" where
  "copy_slot copy x = (case x of None \<Rightarrow> None | Some p \<Rightarrow> copy p)"

definition copies :: "('p \<Rightarrow> 'p option) \<Rightarrow> 'p option \<Rightarrow> bool" where
  "copies copy x \<longleftrightarrow> x = None \<or> copy_slot copy x \<noteq> None"

text \<open>The pointers of an array that are not null.\<close>

definition live :: "'p option list \<Rightarrow> 'p list" where
  "live xs = concat (map (\<lambda>x. case x of None \<Rightarrow> [] | Some p \<Rightarrow> [p]) xs)"

lemma copy_simps [simp]:
  "copy_slot copy None = None" "copy_slot copy (Some p) = copy p"
  "copies copy None" "copies copy (Some p) \<longleftrightarrow> copy p \<noteq> None"
  by (simp_all add: copy_slot_def copies_def)

lemma deep_copy_loop_eq:
  "deep_copy_loop copy acc xs =
     (if list_all (copies copy) xs then Inr (acc @ map (copy_slot copy) xs)
      else Inl (live (acc @ map (copy_slot copy) (takeWhile (copies copy) xs))))"
proof (induction copy acc xs rule: deep_copy_loop.induct)
  case (3 copy copied p ps)
  then show ?case by (cases "copy p") (simp_all add: live_def)
qed simp_all

lemma sk_deep_copy_eq:
  assumes "wf_stack sk" "OPENSSL_sk_dup mal (Some sk) \<noteq> None"
  shows "OPENSSL_sk_deep_copy mal (Some sk) copy =
    (if list_all (copies copy) (sk_elems sk)
     then (Some (sk\<lparr>st_data := map (copy_slot copy) (sk_elems sk) @ drop (st_num sk) (st_data sk)\<rparr>), [])
     else (None, live (map (copy_slot copy) (takeWhile (copies copy) (sk_elems sk)))))"
proof -
  obtain sk' where d: "OPENSSL_sk_dup mal (Some sk) = Some sk'" using assms(2) by blast
  then have "sk' = sk" by (rule sk_dup_Some) fact
  then show ?thesis using d by (simp add: OPENSSL_sk_deep_copy_def deep_copy_loop_eq flip: sk_elems_def)
qed

section \<open>Reachable stacks\<close>

text \<open>
  The stacks that the functions of the interface produce, \<open>OPENSSL_sk_set\<close> apart. A deep copy is
  made with a copying function that keeps the order of the elements.
\<close>

inductive sk_reach :: "('p, 'c) cmp_call \<Rightarrow> ('p, 'c) stack_st \<Rightarrow> bool" for call where
  new: "OPENSSL_sk_new mal c = Some sk \<Longrightarrow> sk_reach call sk"
| zero: "sk_reach call sk \<Longrightarrow> OPENSSL_sk_zero (Some sk) = Some sk' \<Longrightarrow> sk_reach call sk'"
| ins: "sk_reach call sk \<Longrightarrow> OPENSSL_sk_insert mal (Some sk) p i = (n, Some sk') \<Longrightarrow> sk_reach call sk'"
| del: "sk_reach call sk \<Longrightarrow> OPENSSL_sk_delete (Some sk) i = (p, Some sk') \<Longrightarrow> sk_reach call sk'"
| del_if: "sk_reach call sk \<Longrightarrow> OPENSSL_sk_delete_if (Some sk) f = Some sk' \<Longrightarrow> sk_reach call sk'"
| sort: "sk_reach call sk \<Longrightarrow> OPENSSL_sk_sort call (Some sk) = Some sk' \<Longrightarrow> sk_reach call sk'"
| set_cmp: "sk_reach call sk \<Longrightarrow> OPENSSL_sk_set_cmp_func sk c = (old, sk') \<Longrightarrow> sk_reach call sk'"
| dup: "sk_reach call sk \<Longrightarrow> OPENSSL_sk_dup mal (Some sk) = Some sk' \<Longrightarrow> sk_reach call sk'"
| deep_copy: "sk_reach call sk \<Longrightarrow>
    (\<forall>c x y. call c x y \<le> 0 \<longrightarrow> call c (copy_slot copy x) (copy_slot copy y) \<le> 0) \<Longrightarrow>
    OPENSSL_sk_deep_copy mal (Some sk) copy = (Some sk', freed) \<Longrightarrow> sk_reach call sk'"

lemma sorted_ok_delete: "sorted_ok call sk \<Longrightarrow> st_comp sk' = st_comp sk \<Longrightarrow> st_sorted sk' = st_sorted sk \<Longrightarrow>
    sk_elems sk' = take i (sk_elems sk) @ drop (Suc i) (sk_elems sk) \<Longrightarrow> sorted_ok call sk'"
  by (auto simp: sorted_ok_def ascending_delete)

lemma sk_delete_ok:
  assumes "wf_stack sk" "sorted_ok call sk" "OPENSSL_sk_delete (Some sk) i = (p, Some sk')"
  shows "wf_stack sk' \<and> sorted_ok call sk'"
proof (cases "i < st_num sk")
  case True
  obtain sk2 where "OPENSSL_sk_delete (Some sk) i = (sk_elems sk ! i, Some sk2)" "wf_stack sk2"
    "st_comp sk2 = st_comp sk" "st_sorted sk2 = st_sorted sk"
    "sk_elems sk2 = take i (sk_elems sk) @ drop (Suc i) (sk_elems sk)"
    using sk_delete_eq [OF assms(1) True] by blast
  then show ?thesis using assms(3) sorted_ok_delete [OF assms(2)] by (metis option.inject prod.inject)
qed (use assms in auto)

lemma sk_sort_ok:
  assumes "wf_stack sk" "sorted_ok call sk" "OPENSSL_sk_sort call (Some sk) = Some sk'" "\<forall>c. cmp_order (call c)"
  shows "wf_stack sk' \<and> sorted_ok call sk'"
proof (cases "st_comp sk")
  case (Some c)
  obtain sk2 where "OPENSSL_sk_sort call (Some sk) = Some sk2" "wf_stack sk2" "st_comp sk2 = Some c"
    "ascending (call c) (sk_elems sk2)"
    using sk_sort_eq [OF assms(1) Some _ assms(2)] assms(4) by blast
  then show ?thesis using assms(3) unfolding sorted_ok_def by (metis option.inject)
qed (use assms in auto)

lemma sk_deep_copy_ok:
  assumes "wf_stack sk" "sorted_ok call sk" "OPENSSL_sk_deep_copy mal (Some sk) copy = (Some sk', freed)"
    and mono: "\<forall>c x y. call c x y \<le> 0 \<longrightarrow> call c (copy_slot copy x) (copy_slot copy y) \<le> 0"
  shows "wf_stack sk' \<and> sorted_ok call sk'"
proof -
  have "OPENSSL_sk_dup mal (Some sk) \<noteq> None"
    using assms(3) unfolding OPENSSL_sk_deep_copy_def by (auto split: option.splits)
  from sk_deep_copy_eq [OF assms(1) this, of copy] assms(3)
  have sk': "sk' = sk\<lparr>st_data := map (copy_slot copy) (sk_elems sk) @ drop (st_num sk) (st_data sk)\<rparr>"
    by (auto split: if_splits)
  have w: "length (st_data sk) = st_num_alloc sk" "st_num sk \<le> st_num_alloc sk" using assms(1) by (simp_all add: wf_stack_def)
  have e: "sk_elems sk' = map (copy_slot copy) (sk_elems sk)" using w by (simp add: sk' sk_elems_def take_map)
  have m: "ascending (call c) (map (copy_slot copy) xs)" if "ascending (call c) xs" for c xs
    using that unfolding ascending_def sorted_wrt_map by (rule sorted_wrt_mono_rel [rotated]) (use mono in blast)
  have "wf_stack sk'" using assms(1) w by (simp add: sk' wf_stack_def sk_elems_def)
  moreover have "st_sorted sk' = st_sorted sk" "st_comp sk' = st_comp sk" by (simp_all add: sk')
  ultimately show ?thesis using assms(2) m e unfolding sorted_ok_def by metis
qed

lemma sk_reach_wf:
  assumes "sk_reach call sk" "\<forall>c. cmp_order (call c)"
  shows "wf_stack sk \<and> sorted_ok call sk"
  using assms(1)
proof induction
  case (new mal c sk)
  then show ?case using sk_new_Some by (auto simp: sorted_ok_def)
next
  case (zero sk sk')
  then show ?case using sk_zero_eq [of sk] by (auto simp: sorted_ok_def ascending_short)
next
  case (ins sk mal p i n sk')
  then show ?case using sk_insert_eq [of sk mal p i] by (auto simp: sorted_ok_def simp del: OPENSSL_sk_insert.simps)
next
  case (del sk i p sk')
  then show ?case using sk_delete_ok by blast
next
  case (del_if sk f sk')
  then show ?case
    using sk_delete_if_eq [of sk f] by (auto simp: sorted_ok_def ascending_filter simp del: OPENSSL_sk_delete_if.simps)
next
  case (sort sk sk')
  then show ?case using sk_sort_ok assms(2) by blast
next
  case (set_cmp sk c old sk')
  then show ?case by (auto simp: OPENSSL_sk_set_cmp_func_def wf_stack_def sorted_ok_def sk_elems_def)
next
  case (dup sk mal sk')
  then show ?case using sk_dup_Some by blast
next
  case (deep_copy sk copy mal sk' freed)
  then show ?case using sk_deep_copy_ok by blast
qed

lemma sk_find_eq:
  assumes wf: "wf_stack sk" and s: "sorted_ok call sk" and o: "\<forall>c. cmp_order (call c)"
  shows "OPENSSL_sk_find call (Some sk) p =
    find (\<lambda>i. case st_comp sk of None \<Rightarrow> sk_elems sk ! i = p
                | Some c \<Rightarrow> p \<noteq> None \<and> call c p (sk_elems sk ! i) = 0) [0..<st_num sk]"
proof -
  let ?xs = "sk_elems sk" and ?n = "st_num sk"
  have cong: "find (\<lambda>k. P (st_data sk ! k)) [0..<?n] = find (\<lambda>k. P (?xs ! k)) [0..<?n]" for P
    by (rule find_cong) (simp_all add: nth_sk_elems)
  show ?thesis
  proof (cases "st_comp sk")
    case None
    then show ?thesis by (simp add: scan_from_find cong [of "\<lambda>x. x = p"])
  next
    case (Some c)
    note c = o [rule_format, of c]
    have scan: "scan_from (\<lambda>x. call c p x = 0) (st_data sk) 0 ?n = find (\<lambda>k. call c p (?xs ! k) = 0) [0..<?n]"
      by (simp add: scan_from_find cong [of "\<lambda>x. call c p x = 0"])
    have bs: "bsearch (call c p) (st_data sk) 0 ?n = find (\<lambda>k. call c p (?xs ! k) = 0) [0..<?n]"
      if sorted: "OPENSSL_sk_is_sorted (Some sk)"
    proof -
      have "ascending (call c) ?xs"
        using sorted s Some wf ascending_short [of ?xs] by (auto simp: sorted_ok_def)
      then have le: "call c (st_data sk ! j) (st_data sk ! k) \<le> 0" if "j \<le> k" "k < ?n" for j k
        using that ascending_nth [of "call c" ?xs j k] wf nth_sk_elems [of j sk] nth_sk_elems [of k sk]
          cmp_order.cmp_refl [OF c]
        by (cases "j = k") simp_all
      have "bsearch (call c p) (st_data sk) 0 ?n = find (\<lambda>k. call c p (st_data sk ! k) = 0) [0..<?n]"
      proof (rule bsearch_find [of ?n])
        show "call c p (st_data sk ! k) < 0" if "j \<le> k" "k < ?n" "call c p (st_data sk ! j) < 0" for j k
          using cmp_order.cmp_less_le_trans [OF c that(3) le [OF that(1,2)]] .
        show "call c p (st_data sk ! j) > 0" if "j \<le> k" "k < ?n" "call c p (st_data sk ! k) > 0" for j k
          using cmp_order.cmp_le_less_trans [OF c le [OF that(1,2)], of p] that(3) cmp_order.flip [OF c] by blast
      qed simp
      then show ?thesis by (simp add: cong [of "\<lambda>x. call c p x = 0"])
    qed
    show ?thesis
    proof (cases "p = None")
      case True
      then show ?thesis using Some by (simp add: find_None_iff eq_commute [of None])
    next
      case False
      then show ?thesis using Some scan bs by (auto simp del: OPENSSL_sk_is_sorted.simps)
    qed
  qed
qed

section \<open>Properties\<close>

text \<open>
  The abstraction of a result: the returned value with the elements of the stack left behind.
\<close>

definition sk_abs :: "'a \<times> ('p, 'c) stack_st option \<Rightarrow> 'a \<times> 'p option list option" where
  "sk_abs r = map_prod id (map_option sk_elems) r"

lemma sk_abs_delete:
  assumes "wf_stack sk"
  shows "sk_abs (OPENSSL_sk_delete (Some sk) i) =
    (if i < st_num sk then (sk_elems sk ! i, Some (take i (sk_elems sk) @ drop (Suc i) (sk_elems sk)))
     else (None, Some (sk_elems sk)))"
  using sk_delete_eq [OF assms, of i] by (auto simp: sk_abs_def simp del: OPENSSL_sk_delete.simps)
    (simp add: sk_abs_def)

lemma find_map_fun: "find P (map f xs) = map_option f (find (\<lambda>x. P (f x)) xs)"
  by (induction xs) auto

lemma remove1_find:
  "(case find (\<lambda>k. xs ! k = p) [0..<length xs] of None \<Rightarrow> xs | Some i \<Rightarrow> take i xs @ drop (Suc i) xs) = remove1 p xs"
proof (induction xs)
  case (Cons x xs)
  have "[0..<length (x # xs)] = 0 # map Suc [0..<length xs]" by (simp add: upt_conv_Cons map_Suc_upt del: upt_Suc)
  then have "find (\<lambda>k. (x # xs) ! k = p) [0..<length (x # xs)] =
      (if x = p then Some 0 else map_option Suc (find (\<lambda>k. xs ! k = p) [0..<length xs]))"
    by (simp add: find_map_fun del: upt_Suc)
  then show ?case using Cons by (auto split: option.splits)
qed simp

lemma sk_abs_delete_ptr:
  assumes wf: "wf_stack sk"
  shows "sk_abs (OPENSSL_sk_delete_ptr (Some sk) p) =
    ((if p \<in> set (sk_elems sk) then p else None), Some (remove1 p (sk_elems sk)))"
proof -
  let ?xs = "sk_elems sk"
  have scan: "scan_from (\<lambda>x. x = p) (st_data sk) 0 (st_num sk) = find (\<lambda>k. ?xs ! k = p) [0..<length ?xs]"
    using wf unfolding scan_from_find by (intro find_cong) (simp_all add: nth_sk_elems)
  show ?thesis
  proof (cases "find (\<lambda>k. ?xs ! k = p) [0..<length ?xs]")
    case None
    then have "p \<notin> set ?xs" by (auto simp: find_None_iff in_set_conv_nth)
    then show ?thesis using None scan by (simp add: sk_abs_def remove1_idem)
  next
    case (Some i)
    then have i: "i < length ?xs" "?xs ! i = p" by (auto simp: find_Some_iff)
    then have "p \<in> set ?xs" by auto
    moreover have "take i ?xs @ drop (Suc i) ?xs = remove1 p ?xs" using remove1_find [of ?xs p] Some by simp
    ultimately show ?thesis
      using Some scan sk_abs_delete [OF wf, of i] i wf by (simp del: OPENSSL_sk_delete.simps)
  qed
qed

text \<open>
  C23. A stack is the list of its elements. Each operation on a well-formed stack returns what the
  corresponding operation on that list returns and leaves a stack of the corresponding list:
  \<open>insert\<close> (which reports the new length, or zero and no change when the allocation fails or the
  stack is full), \<open>push\<close>, \<open>delete\<close>, \<open>delete_ptr\<close>, \<open>delete_if\<close>, \<open>shift\<close>, \<open>pop\<close>, \<open>set\<close>, \<open>zero\<close> and \<open>dup\<close>;
  a pointer that was pushed is the next one popped; and when allocations succeed and the stack is
  not full, \<open>insert\<close> and \<open>dup\<close> succeed.
\<close>

theorem sk_refines_list:
  assumes wf: "wf_stack sk"
  defines "xs \<equiv> sk_elems sk"
  shows "OPENSSL_sk_num (Some sk) = length xs \<and>
    (\<forall>i. OPENSSL_sk_value (Some sk) i = (if i < length xs then xs ! i else None)) \<and>
    (\<forall>mal p i. sk_abs (OPENSSL_sk_insert mal (Some sk) p i) \<in>
       {(0, Some xs), (length xs + 1, Some (take i xs @ p # drop i xs))}) \<and>
    (\<forall>mal p. sk_abs (OPENSSL_sk_push mal sk p) \<in> {(0, Some xs), (length xs + 1, Some (xs @ [p]))}) \<and>
    (\<forall>i. sk_abs (OPENSSL_sk_delete (Some sk) i) =
       (if i < length xs then (xs ! i, Some (take i xs @ drop (Suc i) xs)) else (None, Some xs))) \<and>
    (\<forall>p. sk_abs (OPENSSL_sk_delete_ptr (Some sk) p) = ((if p \<in> set xs then p else None), Some (remove1 p xs))) \<and>
    (\<forall>f. map_option sk_elems (OPENSSL_sk_delete_if (Some sk) f) = Some (filter (\<lambda>x. \<not> f x) xs)) \<and>
    sk_abs (OPENSSL_sk_shift (Some sk)) = (case xs of [] \<Rightarrow> (None, Some []) | x # ys \<Rightarrow> (x, Some ys)) \<and>
    sk_abs (OPENSSL_sk_pop (Some sk)) = (if xs = [] then (None, Some []) else (last xs, Some (butlast xs))) \<and>
    (\<forall>i v. sk_abs (OPENSSL_sk_set (Some sk) i v) = ((if i < length xs then v else None), Some (xs[i := v]))) \<and>
    map_option sk_elems (OPENSSL_sk_zero (Some sk)) = Some [] \<and>
    (\<forall>mal. map_option sk_elems (OPENSSL_sk_dup mal (Some sk)) \<in> {None, Some xs}) \<and>
    (\<forall>mal p sk'. OPENSSL_sk_push mal sk p = (length xs + 1, Some sk') \<longrightarrow>
       sk_abs (OPENSSL_sk_pop (Some sk')) = (p, Some xs)) \<and>
    (\<forall>mal p i. (\<forall>sz. mal sz \<noteq> None) \<and> length xs < INT_MAX \<longrightarrow> fst (OPENSSL_sk_insert mal (Some sk) p i) = length xs + 1) \<and>
    (\<forall>mal. (\<forall>sz. mal sz \<noteq> None) \<longrightarrow> OPENSSL_sk_dup mal (Some sk) \<noteq> None)"
proof (intro conjI allI impI)
  have n: "length xs = st_num sk" using wf by (simp add: xs_def)
  have ins: "sk_abs (OPENSSL_sk_insert mal (Some sk) p i) \<in> {(0, Some xs), (length xs + 1, Some (take i xs @ p # drop i xs))}"
    for mal p i
    using sk_insert_eq [OF wf, of mal p i] n by (auto simp: sk_abs_def xs_def simp del: OPENSSL_sk_insert.simps)
  have pop: "sk_abs (OPENSSL_sk_pop (Some s)) =
      (if sk_elems s = [] then (None, Some []) else (last (sk_elems s), Some (butlast (sk_elems s))))"
    if "wf_stack s" for s :: "('a, 'b) stack_st"
    using sk_abs_delete [OF that, of "st_num s - 1"] length_sk_elems [OF that]
    by (auto simp: sk_abs_def last_conv_nth butlast_conv_take simp del: OPENSSL_sk_delete.simps)
  show "OPENSSL_sk_num (Some sk) = length xs" using n by simp
  show "OPENSSL_sk_value (Some sk) i = (if i < length xs then xs ! i else None)" for i
    using n by (simp add: xs_def nth_sk_elems)
  show "sk_abs (OPENSSL_sk_insert mal (Some sk) p i) \<in> {(0, Some xs), (length xs + 1, Some (take i xs @ p # drop i xs))}"
    for mal p i by (rule ins)
  show "sk_abs (OPENSSL_sk_push mal sk p) \<in> {(0, Some xs), (length xs + 1, Some (xs @ [p]))}" for mal p
    using ins [of mal p "st_num sk"] n by (simp add: OPENSSL_sk_push_def)
  show "sk_abs (OPENSSL_sk_delete (Some sk) i) =
       (if i < length xs then (xs ! i, Some (take i xs @ drop (Suc i) xs)) else (None, Some xs))" for i
    using sk_abs_delete [OF wf, of i] n by (simp add: xs_def)
  show "sk_abs (OPENSSL_sk_delete_ptr (Some sk) p) = ((if p \<in> set xs then p else None), Some (remove1 p xs))" for p
    using sk_abs_delete_ptr [OF wf] by (simp add: xs_def)
  show "map_option sk_elems (OPENSSL_sk_delete_if (Some sk) f) = Some (filter (\<lambda>x. \<not> f x) xs)" for f
    using sk_delete_if_eq [OF wf, of f] by (auto simp: xs_def simp del: OPENSSL_sk_delete_if.simps)
  show "sk_abs (OPENSSL_sk_shift (Some sk)) = (case xs of [] \<Rightarrow> (None, Some []) | x # ys \<Rightarrow> (x, Some ys))"
    using sk_abs_delete [OF wf, of 0] n
    by (cases xs) (auto simp: sk_abs_def xs_def simp del: OPENSSL_sk_delete.simps)
  show "sk_abs (OPENSSL_sk_pop (Some sk)) = (if xs = [] then (None, Some []) else (last xs, Some (butlast xs)))"
    using pop [OF wf] by (simp add: xs_def)
  show "sk_abs (OPENSSL_sk_set (Some sk) i v) = ((if i < length xs then v else None), Some (xs[i := v]))" for i v
    using sk_set_eq [OF wf, of i v] n by (cases "i < st_num sk") (auto simp: sk_abs_def xs_def list_update_beyond)
  show "map_option sk_elems (OPENSSL_sk_zero (Some sk)) = Some []"
    using sk_zero_eq [OF wf] by (auto simp del: OPENSSL_sk_zero.simps)
  show "map_option sk_elems (OPENSSL_sk_dup mal (Some sk)) \<in> {None, Some xs}" for mal
    using sk_dup_Some [OF _ wf, of mal] by (cases "OPENSSL_sk_dup mal (Some sk)") (auto simp: xs_def)
  show "sk_abs (OPENSSL_sk_pop (Some sk')) = (p, Some xs)"
    if "OPENSSL_sk_push mal sk p = (length xs + 1, Some sk')" for mal p sk'
  proof -
    have "sk_insert_at mal sk p (length xs) = Some sk'"
      using that n by (simp add: OPENSSL_sk_push_def sk_insert_at_def)
    from sk.insert_at [OF wf this] have "wf_stack sk'" "sk_elems sk' = xs @ [p]" by (simp_all add: xs_def)
    then show ?thesis using pop by simp
  qed
  show "fst (OPENSSL_sk_insert mal (Some sk) p i) = length xs + 1" if "(\<forall>sz. mal sz \<noteq> None) \<and> length xs < INT_MAX" for mal p i
    using sk_insert_succeeds [OF wf, of mal p i] that n by (simp del: OPENSSL_sk_insert.simps)
  show "OPENSSL_sk_dup mal (Some sk) \<noteq> None" if "\<forall>sz. mal sz \<noteq> None" for mal
    using sk_dup_succeeds [OF wf that] .
qed

text \<open>
  Concrete stacks for the witnesses: pointers to numbers, ordered by value, on an allocator that
  never fails.
\<close>

definition nat_call :: "(nat, unit) cmp_call" where
  "nat_call c a b = (case a of None \<Rightarrow> -1 | Some m \<Rightarrow> int m) - (case b of None \<Rightarrow> -1 | Some m \<Rightarrow> int m)"

definition any_malloc :: "nat pmalloc" where
  "any_malloc sz = Some (\<lambda>_. None)"

definition stack_of :: "nat list \<Rightarrow> bool \<Rightarrow> (nat, unit) stack_st" where
  "stack_of xs b = \<lparr>st_num = length xs, st_data = map Some xs @ replicate (4 - length xs) None, st_sorted = b,
     st_num_alloc = 4, st_comp = Some ()\<rparr>"

lemma nat_call_order: "cmp_order (nat_call c)"
  unfolding nat_call_def [abs_def] by (rule cmp_order_key)

lemma replicate_slots: "replicate 4 x = [x, x, x, x]" "replicate 3 x = [x, x, x]" "replicate 2 x = [x, x]"
  by (simp_all add: numeral_eq_Suc)

lemma stack_of_reach: "sk_reach nat_call (stack_of [] False)" "sk_reach nat_call (stack_of [7] False)"
  "sk_reach nat_call (stack_of [7, 3] False)"
proof -
  have "OPENSSL_sk_new any_malloc (Some ()) = Some (stack_of [] False)"
    by (simp add: OPENSSL_sk_new_def calloc_ptrs_def zalloc_ptrs_def malloc_ptrs_def any_malloc_def stack_of_def
        size_add_def sizeof_stack_def OPENSSL_MALLOC_PREFIX_def kMinSize_def SIZE_MAX_def)
  then show a: "sk_reach nat_call (stack_of [] False)" by (rule sk_reach.new)
  have "OPENSSL_sk_insert any_malloc (Some (stack_of [] False)) (Some 7) 0 = (1, Some (stack_of [7] False))"
    by (simp add: stack_of_def sk_reserve_def INT_MAX_def replicate_slots)
  with a show b: "sk_reach nat_call (stack_of [7] False)" by (rule sk_reach.ins)
  have "OPENSSL_sk_insert any_malloc (Some (stack_of [7] False)) (Some 3) 1 = (2, Some (stack_of [7, 3] False))"
    by (simp add: stack_of_def sk_reserve_def INT_MAX_def replicate_slots)
  with b show "sk_reach nat_call (stack_of [7, 3] False)" by (rule sk_reach.ins)
qed

theorem sk_refines_list_witness:
  "wf_stack (stack_of [7, 3] False) \<and>
   sk_abs (OPENSSL_sk_pop (Some (stack_of [7, 3] False))) = (Some 3, Some [Some 7])"
proof -
  have wf: "wf_stack (stack_of [7, 3] False)" by (simp add: stack_of_def wf_stack_def kMinSize_def INT_MAX_def)
  have "sk_elems (stack_of [7, 3] False) = [Some 7, Some 3]" by (simp add: stack_of_def sk_elems_def)
  moreover have "sk_abs (OPENSSL_sk_pop (Some (stack_of [7, 3] False))) =
      (if sk_elems (stack_of [7, 3] False) = [] then (None, Some [])
       else (last (sk_elems (stack_of [7, 3] False)), Some (butlast (sk_elems (stack_of [7, 3] False)))))"
    using sk_refines_list [OF wf] by blast
  ultimately show ?thesis using wf by (simp del: OPENSSL_sk_pop.simps)
qed

text \<open>
  C24. The invariant of the stacks: however a stack is made and changed through the interface
  (\<open>OPENSSL_sk_set\<close> apart), its array has the recorded capacity and room for its elements, and when
  its \<open>sorted\<close> flag is set the elements do ascend under the current comparison function.
\<close>

theorem sk_reach_invariant:
  assumes "\<forall>c. cmp_order (call c)" and "sk_reach call sk"
  shows "wf_stack sk \<and> (st_sorted sk \<longrightarrow> (\<exists>c. st_comp sk = Some c \<and> ascending (call c) (sk_elems sk)))"
  using sk_reach_wf [OF assms(2,1)] by (simp add: sorted_ok_def)

theorem sk_reach_invariant_witness:
  "wf_stack (stack_of [7, 3] False) \<and> sk_reach nat_call (stack_of [7, 3] False)"
  using sk_reach_invariant [OF _ stack_of_reach(3)] nat_call_order stack_of_reach(3) by blast

text \<open>
  C25. \<open>OPENSSL_sk_sort\<close> with a comparison function turns the elements into an ascending
  permutation of themselves and sets the flag; its heap sort always ends.
\<close>

theorem sk_sort_correct:
  assumes "\<forall>c. cmp_order (call c)" and "sk_reach call sk" and "st_comp sk = Some c"
  shows "\<exists>sk'. OPENSSL_sk_sort call (Some sk) = Some sk' \<and> st_sorted sk' \<and>
    mset (sk_elems sk') = mset (sk_elems sk) \<and> ascending (call c) (sk_elems sk')"
  using sk_sort_eq [OF _ assms(3)] sk_reach_wf [OF assms(2,1)] assms(1) by blast

theorem sk_sort_correct_witness:
  "ascending (nat_call ()) (sk_elems (stack_of [3, 7] True)) \<and>
   OPENSSL_sk_sort nat_call (Some (stack_of [7, 3] False)) = Some (stack_of [3, 7] True)"
proof -
  have s: "OPENSSL_sk_sort nat_call (Some (stack_of [7, 3] False)) = Some (stack_of [3, 7] True)" by code_simp
  have c: "st_comp (stack_of [7, 3] False) = Some ()" by (simp add: stack_of_def)
  show ?thesis using sk_sort_correct [OF _ stack_of_reach(3) c] nat_call_order s by simp
qed

text \<open>
  C26. \<open>OPENSSL_sk_find\<close> returns the first index whose element is the pointer itself, or compares
  equal to it when the stack has a comparison function; the binary search on a sorted stack and
  the linear search on an unsorted one give this same answer.
\<close>

theorem sk_find_first:
  assumes "\<forall>c. cmp_order (call c)" and "sk_reach call sk"
  shows "OPENSSL_sk_find call (Some sk) p =
    find (\<lambda>i. case st_comp sk of None \<Rightarrow> sk_elems sk ! i = p
                | Some c \<Rightarrow> p \<noteq> None \<and> call c p (sk_elems sk ! i) = 0) [0..<st_num sk]"
  using sk_find_eq sk_reach_wf [OF assms(2,1)] assms(1) by blast

theorem sk_find_first_witness:
  "OPENSSL_sk_find nat_call (Some (stack_of [7, 3] False)) (Some 3) = Some 1"
  using sk_find_first [OF _ stack_of_reach(3), of "Some 3"] nat_call_order
  by (simp add: stack_of_def sk_elems_def nat_call_def upt_rec)

lemma stack_of_sorted_reach: "sk_reach nat_call (stack_of [1, 2, 3] True)"
proof -
  have "OPENSSL_sk_insert any_malloc (Some (stack_of [] False)) (Some 3) 0 = (1, Some (stack_of [3] False))"
    "OPENSSL_sk_insert any_malloc (Some (stack_of [3] False)) (Some 1) 1 = (2, Some (stack_of [3, 1] False))"
    "OPENSSL_sk_insert any_malloc (Some (stack_of [3, 1] False)) (Some 2) 2 = (3, Some (stack_of [3, 1, 2] False))"
    by (simp_all add: stack_of_def sk_reserve_def INT_MAX_def replicate_slots)
  then have "sk_reach nat_call (stack_of [3, 1, 2] False)"
    using stack_of_reach(1) by (meson sk_reach.ins)
  moreover have "OPENSSL_sk_sort nat_call (Some (stack_of [3, 1, 2] False)) = Some (stack_of [1, 2, 3] True)" by code_simp
  ultimately show ?thesis by (rule sk_reach.sort)
qed

text \<open>A binary search that compares the same way with every element it can meet finds nothing.\<close>

lemma bsearch_None: "\<forall>k. lo \<le> k \<and> k < hi \<longrightarrow> r (d ! k) > 0 \<Longrightarrow> bsearch r d lo hi = None"
  "\<forall>k. lo \<le> k \<and> k < hi \<longrightarrow> r (d ! k) < 0 \<Longrightarrow> bsearch r d lo hi = None"
proof (induction "hi - lo" arbitrary: lo hi rule: less_induct)
  case less
  let ?m = "lo + (hi - lo - 1) div 2"
  { case 1
    have "bsearch r d (?m + 1) hi = None" if "lo < hi" using that 1 by (intro less(1)) auto
    moreover have "lo < hi \<Longrightarrow> r (d ! ?m) > 0" using 1 by auto
    ultimately show ?case by (simp add: bsearch.simps [of r d lo hi] Let_def)
  next
    case 2
    have "bsearch r d lo ?m = None" if "lo < hi" using that 2 by (intro less(2)) auto
    moreover have "r (d ! ?m) < 0 \<and> \<not> 0 < r (d ! ?m)" if "lo < hi"
    proof -
      have "?m < hi" using that by simp
      then have "r (d ! ?m) < 0" using 2 by simp
      then show ?thesis by simp
    qed
    ultimately show ?case by (simp add: bsearch.simps [of r d lo hi] Let_def)
  }
qed

text \<open>
  C27. \<open>OPENSSL_sk_set\<close> breaks the invariant of the \<open>sorted\<close> flag. In any sorted stack, replacing an
  element of the lower half by one that is greater than all others, or one of the upper half by one that
  is less than all others, leaves the flag set, and a later \<open>OPENSSL_sk_find\<close> misses the new
  element, which a linear search would find at its index.
\<close>

theorem sk_set_breaks_sorted:
  assumes "\<forall>c. cmp_order (call c)" and "sk_reach call sk" and "st_sorted sk" and "st_comp sk = Some c" and "i < st_num sk"
    and "(\<forall>k < st_num sk. k \<noteq> i \<longrightarrow> call c (Some p) (sk_elems sk ! k) > 0) \<and> i < (st_num sk - 1) div 2 \<or>
      (\<forall>k < st_num sk. k \<noteq> i \<longrightarrow> call c (Some p) (sk_elems sk ! k) < 0) \<and> (st_num sk - 1) div 2 < i"
  shows "\<exists>sk'. OPENSSL_sk_set (Some sk) i (Some p) = (Some p, Some sk') \<and> OPENSSL_sk_is_sorted (Some sk') \<and>
    OPENSSL_sk_value (Some sk') i = Some p \<and> OPENSSL_sk_find call (Some sk') (Some p) = None \<and>
    OPENSSL_sk_find call (Some (sk'\<lparr>st_sorted := False\<rparr>)) (Some p) = Some i"
proof -
  let ?d = "(st_data sk)[i := Some p]" and ?n = "st_num sk" and ?r = "call c (Some p)"
  let ?m = "(?n - 1) div 2"
  define sk' where "sk' = sk\<lparr>st_data := ?d\<rparr>"
  have wf: "wf_stack sk" using sk_reach_wf [OF assms(2,1)] by blast
  have n: "2 \<le> ?n" "?m < ?n" using assms(5,6) by auto
  have len: "i < length (st_data sk)" using wf assms(5) by (simp add: wf_stack_def)
  have other: "?d ! k = sk_elems sk ! k" if "k < ?n" "k \<noteq> i" for k using that by (simp add: nth_sk_elems)
  have self: "?r (?d ! i) = 0" using len cmp_order.cmp_refl [of "call c"] assms(1) by simp
  have "bsearch ?r ?d 0 ?n = None"
    using assms(6)
  proof (elim disjE conjE)
    assume a: "\<forall>k < ?n. k \<noteq> i \<longrightarrow> ?r (sk_elems sk ! k) > 0" "i < ?m"
    then have "bsearch ?r ?d (?m + 1) ?n = None" using other by (intro bsearch_None(1)) auto
    moreover have "?r (?d ! ?m) > 0" using a n other by simp
    ultimately show ?thesis using n by (simp add: bsearch.simps [of ?r ?d 0 ?n] Let_def)
  next
    assume a: "\<forall>k < ?n. k \<noteq> i \<longrightarrow> ?r (sk_elems sk ! k) < 0" "?m < i"
    then have "bsearch ?r ?d 0 ?m = None" using n other by (intro bsearch_None(2)) auto
    moreover have "?r (?d ! ?m) < 0 \<and> \<not> 0 < ?r (?d ! ?m)" using a n other by fastforce
    ultimately show ?thesis using n by (simp add: bsearch.simps [of ?r ?d 0 ?n] Let_def)
  qed
  moreover have "find (\<lambda>k. ?r (?d ! k) = 0) [0..<?n] = Some i"
  proof -
    have "?r (?d ! k) \<noteq> 0" if "k < i" for k
    proof -
      have "k < ?n" "k \<noteq> i" using that assms(5) by simp_all
      then have "?r (sk_elems sk ! k) > 0 \<or> ?r (sk_elems sk ! k) < 0" using assms(6) by blast
      then show ?thesis using other [OF \<open>k < ?n\<close> \<open>k \<noteq> i\<close>] by auto
    qed
    then have "find (\<lambda>k. ?r (?d ! k) = 0) [0..<i] = None" by (simp add: find_None_iff)
    moreover have "find (\<lambda>k. ?r (?d ! k) = 0) [i..<?n] = Some i" using self assms(5) by (simp add: upt_conv_Cons)
    ultimately show ?thesis using assms(5) by (simp add: find_upt_split [of 0 i ?n])
  qed
  ultimately show ?thesis
    using assms(3-5) n len by (intro exI [of _ sk']) (simp add: sk'_def scan_from_find)
qed

lemma sk_set_breaks_sorted_witness:
  "\<exists>sk'. OPENSSL_sk_set (Some (stack_of [1, 2, 3] True)) 0 (Some 9) = (Some 9, Some sk') \<and>
    OPENSSL_sk_find nat_call (Some sk') (Some 9) = None"
proof -
  have "\<forall>k < st_num (stack_of [1, 2, 3] True). k \<noteq> 0 \<longrightarrow> nat_call () (Some 9) (sk_elems (stack_of [1, 2, 3] True) ! k) > 0"
    by (simp add: stack_of_def sk_elems_def nat_call_def less_Suc_eq numeral_eq_Suc)
  then show ?thesis
    using sk_set_breaks_sorted [of nat_call "stack_of [1, 2, 3] True" "()" 0 9] nat_call_order stack_of_sorted_reach
    by (simp add: stack_of_def del: OPENSSL_sk_set.simps OPENSSL_sk_find.simps OPENSSL_sk_value.simps) blast
qed

end
