(* ===== verification/Lhash.thy ===== *)
theory Lhash
  imports Mem "HOL-Library.Multiset"
begin

text \<open>
  BoringSSL's hash tables (crypto/lhash/lhash.c). A chain of \<open>LHASH_ITEM\<close>s is the list of its
  items and a pointer into it (\<open>LHASH_ITEM **\<close>) is a bucket and a position, the length of the chain
  standing for the null at its end. The functions \<open>hash\<close> and \<open>comp\<close> of a table are fixed when it is
  made; they are the parameters \<open>call_hash_func\<close> and \<open>call_cmp_func\<close>. Data is never null. The number of
  items, each of which takes memory, is a natural number.
\<close>

section \<open>State\<close>

record 'd lhash_item =
  li_data :: 'd
  li_hash :: u32

record 'd lhash_st =
  num_items :: nat
  buckets :: "'d lhash_item list list"
  num_buckets :: nat
  callback_depth :: nat

definition kMinNumBuckets :: nat where "kMinNumBuckets = 16"
definition kMaxAverageChainLength :: nat where "kMaxAverageChainLength = 2"
definition kMinAverageChainLength :: nat where "kMinAverageChainLength = 1"

text \<open>\<open>sizeof (_LHASH)\<close> and \<open>sizeof (LHASH_ITEM)\<close> on a 64-bit target.\<close>

definition sizeof_LHASH :: nat where "sizeof_LHASH = 48"
definition sizeof_LHASH_ITEM :: nat where "sizeof_LHASH_ITEM = 24"
definition UINT_MAX :: nat where "UINT_MAX = 2 ^ 32 - 1"

section \<open>Operations\<close>

definition OPENSSL_lh_new :: "malloc \<Rightarrow> 'd lhash_st option" where
  "OPENSSL_lh_new mal =
     (if OPENSSL_zalloc mal sizeof_LHASH = None then None
      else if OPENSSL_calloc mal kMinNumBuckets 8 = None then None
      else Some \<lparr>num_items = 0, buckets = replicate kMinNumBuckets [], num_buckets = kMinNumBuckets,
                 callback_depth = 0\<rparr>)"

definition OPENSSL_lh_num_items :: "'d lhash_st \<Rightarrow> nat" where
  "OPENSSL_lh_num_items lh = num_items lh"

text \<open>The loop along a chain that both searches share.\<close>

fun chain_pos :: "('d \<Rightarrow> bool) \<Rightarrow> 'd lhash_item list \<Rightarrow> nat" where
  "chain_pos t [] = 0"
| "chain_pos t (cur # rest) = (if t (li_data cur) then 0 else Suc (chain_pos t rest))"

definition get_next_ptr_and_hash ::
  "('d \<Rightarrow> u32) \<Rightarrow> ('d \<Rightarrow> 'd \<Rightarrow> int) \<Rightarrow> 'd lhash_st \<Rightarrow> 'd \<Rightarrow> u32 \<times> nat \<times> nat" where
  "get_next_ptr_and_hash call_hash_func call_cmp_func lh data =
     (let hash = call_hash_func data;
          b = unat hash mod num_buckets lh
      in (hash, b, chain_pos (\<lambda>cur. call_cmp_func cur data = 0) (buckets lh ! b)))"

definition get_next_ptr_by_key :: "'d lhash_st \<Rightarrow> 'k \<Rightarrow> u32 \<Rightarrow> ('k \<Rightarrow> 'd \<Rightarrow> int) \<Rightarrow> nat \<times> nat" where
  "get_next_ptr_by_key lh key key_hash cmp_key =
     (let b = unat key_hash mod num_buckets lh
      in (b, chain_pos (\<lambda>cur. cmp_key key cur = 0) (buckets lh ! b)))"

text \<open>The item a pointer into a chain points to.\<close>

definition item_at :: "'d lhash_st \<Rightarrow> nat \<Rightarrow> nat \<Rightarrow> 'd lhash_item option" where
  "item_at lh b k = (if k < length (buckets lh ! b) then Some (buckets lh ! b ! k) else None)"

definition OPENSSL_lh_retrieve ::
  "('d \<Rightarrow> u32) \<Rightarrow> ('d \<Rightarrow> 'd \<Rightarrow> int) \<Rightarrow> 'd lhash_st \<Rightarrow> 'd \<Rightarrow> 'd option" where
  "OPENSSL_lh_retrieve call_hash_func call_cmp_func lh data =
     (case get_next_ptr_and_hash call_hash_func call_cmp_func lh data of
        (_, b, k) \<Rightarrow> map_option li_data (item_at lh b k))"

definition OPENSSL_lh_retrieve_key :: "'d lhash_st \<Rightarrow> 'k \<Rightarrow> u32 \<Rightarrow> ('k \<Rightarrow> 'd \<Rightarrow> int) \<Rightarrow> 'd option" where
  "OPENSSL_lh_retrieve_key lh key key_hash cmp_key =
     (case get_next_ptr_by_key lh key key_hash cmp_key of (b, k) \<Rightarrow> map_option li_data (item_at lh b k))"

text \<open>Moving one item, and one chain, to the new buckets; an item goes to the front.\<close>

definition rebucket_item :: "nat \<Rightarrow> 'd lhash_item \<Rightarrow> 'd lhash_item list list \<Rightarrow> 'd lhash_item list list" where
  "rebucket_item new_num_buckets cur new_buckets =
     (let new_bucket = unat (li_hash cur) mod new_num_buckets
      in new_buckets[new_bucket := cur # new_buckets ! new_bucket])"

definition lh_rebucket :: "malloc \<Rightarrow> 'd lhash_st \<Rightarrow> nat \<Rightarrow> 'd lhash_st" where
  "lh_rebucket mal lh new_num_buckets =
     (let alloc_size = (8 * new_num_buckets) mod 2 ^ 64 in
      if alloc_size div 8 \<noteq> new_num_buckets then lh
      else if OPENSSL_zalloc mal alloc_size = None then lh
      else lh\<lparr>num_buckets := new_num_buckets,
              buckets := fold (fold (rebucket_item new_num_buckets)) (buckets lh) (replicate new_num_buckets [])\<rparr>)"

definition lh_maybe_resize :: "malloc \<Rightarrow> 'd lhash_st \<Rightarrow> 'd lhash_st" where
  "lh_maybe_resize mal lh =
     (if callback_depth lh > 0 then lh
      else
        let avg_chain_length = num_items lh div num_buckets lh in
        if avg_chain_length > kMaxAverageChainLength then
          let new_num_buckets = (num_buckets lh * 2) mod 2 ^ 64 in
          if new_num_buckets > num_buckets lh then lh_rebucket mal lh new_num_buckets else lh
        else if avg_chain_length < kMinAverageChainLength \<and> num_buckets lh > kMinNumBuckets then
          let new_num_buckets0 = num_buckets lh div 2;
              new_num_buckets = (if new_num_buckets0 < kMinNumBuckets then kMinNumBuckets else new_num_buckets0)
          in lh_rebucket mal lh new_num_buckets
        else lh)"

text \<open>The results: the return value and \<open>*old_data\<close>.\<close>

definition OPENSSL_lh_insert ::
  "malloc \<Rightarrow> ('d \<Rightarrow> u32) \<Rightarrow> ('d \<Rightarrow> 'd \<Rightarrow> int) \<Rightarrow> 'd lhash_st \<Rightarrow> 'd \<Rightarrow> bool \<times> 'd option \<times> 'd lhash_st" where
  "OPENSSL_lh_insert mal call_hash_func call_cmp_func lh data =
     (case get_next_ptr_and_hash call_hash_func call_cmp_func lh data of
        (hash, b, k) \<Rightarrow>
          (case item_at lh b k of
             Some old \<Rightarrow>
               (True, Some (li_data old),
                lh\<lparr>buckets := (buckets lh)[b := (buckets lh ! b)[k := old\<lparr>li_data := data\<rparr>]]\<rparr>)
           | None \<Rightarrow>
               if OPENSSL_malloc mal sizeof_LHASH_ITEM = None then (False, None, lh)
               else
                 let item = \<lparr>li_data = data, li_hash = hash\<rparr>
                 in (True, None,
                     lh_maybe_resize mal
                       (lh\<lparr>buckets := (buckets lh)[b := buckets lh ! b @ [item]], num_items := num_items lh + 1\<rparr>))))"

definition OPENSSL_lh_delete ::
  "malloc \<Rightarrow> ('d \<Rightarrow> u32) \<Rightarrow> ('d \<Rightarrow> 'd \<Rightarrow> int) \<Rightarrow> 'd lhash_st \<Rightarrow> 'd \<Rightarrow> 'd option \<times> 'd lhash_st" where
  "OPENSSL_lh_delete mal call_hash_func call_cmp_func lh data =
     (case get_next_ptr_and_hash call_hash_func call_cmp_func lh data of
        (_, b, k) \<Rightarrow>
          (case item_at lh b k of
             None \<Rightarrow> (None, lh)
           | Some item \<Rightarrow>
               let chain = buckets lh ! b in
               (Some (li_data item),
                lh_maybe_resize mal
                  (lh\<lparr>buckets := (buckets lh)[b := take k chain @ drop (Suc k) chain], num_items := num_items lh - 1\<rparr>))))"

text \<open>
  \<open>OPENSSL_lh_doall_arg\<close> with a function that leaves the table alone and changes only what \<open>arg\<close>
  points to. The depth counter saturates.
\<close>

definition OPENSSL_lh_doall_arg ::
  "malloc \<Rightarrow> 'd lhash_st option \<Rightarrow> ('d \<Rightarrow> 'arg \<Rightarrow> 'arg) \<Rightarrow> 'arg \<Rightarrow> 'arg \<times> 'd lhash_st option" where
  "OPENSSL_lh_doall_arg mal lh0 func arg =
     (case lh0 of
        None \<Rightarrow> (arg, None)
      | Some lh \<Rightarrow>
          let lh1 = (if callback_depth lh < UINT_MAX then lh\<lparr>callback_depth := callback_depth lh + 1\<rparr> else lh);
              arg' = fold (fold (\<lambda>cur. func (li_data cur))) (buckets lh1) arg;
              lh2 = (if callback_depth lh1 < UINT_MAX then lh1\<lparr>callback_depth := callback_depth lh1 - 1\<rparr> else lh1)
          in (arg', Some (lh_maybe_resize mal lh2)))"

section \<open>The interface of a keyed map\<close>

text \<open>
  A container of data whose keys are compared by \<open>eqv\<close>: a lookup returns the data stored under an
  equivalent key.
\<close>

locale keyed_map =
  fixes invar :: "'s \<Rightarrow> bool"
    and lookup :: "'s \<Rightarrow> 'd \<Rightarrow> 'd option"
    and update :: "'s \<Rightarrow> 'd \<Rightarrow> 's"
    and remove :: "'s \<Rightarrow> 'd \<Rightarrow> 's"
    and empty :: "'s"
    and eqv :: "'d \<Rightarrow> 'd \<Rightarrow> bool"
  assumes invar_empty: "invar empty"
    and invar_update: "invar s \<Longrightarrow> invar (update s x)"
    and invar_remove: "invar s \<Longrightarrow> invar (remove s x)"
    and lookup_empty: "lookup empty d = None"
    and lookup_update: "invar s \<Longrightarrow> lookup (update s x) d = (if eqv x d then Some x else lookup s d)"
    and lookup_remove: "invar s \<Longrightarrow> lookup (remove s x) d = (if eqv x d then None else lookup s d)"
begin

text \<open>After a series of insertions the last equivalent datum is found.\<close>

lemma lookup_updates:
  "invar s \<Longrightarrow> lookup (foldl update s xs) d = (case find (\<lambda>x. eqv x d) (rev xs) of None \<Rightarrow> lookup s d | Some x \<Rightarrow> Some x)"
proof (induction xs rule: rev_induct)
  case (snoc x xs)
  have "invar (foldl update s xs)" for xs using snoc.prems by (induction xs rule: rev_induct) (auto intro: invar_update)
  then show ?case using snoc lookup_update by simp
qed simp

lemma update_remove: "invar s \<Longrightarrow> lookup (remove (update s x) x) d = (if eqv x d then None else lookup s d)"
  by (simp add: lookup_remove lookup_update invar_update)

end

end
