(* ===== verification/Lhash_Props.thy ===== *)
theory Lhash_Props
  imports Lhash
begin

text \<open>
  The hash tables of crypto/lhash/lhash.c as maps: the invariant of a table, that every operation
  keeps it across growing and shrinking, and what a lookup returns after insertions and deletions.
\<close>

section \<open>The contract of the hash and comparison functions\<close>

locale hash_contract =
  fixes hash :: "'d \<Rightarrow> u32"
    and cmp :: "'d \<Rightarrow> 'd \<Rightarrow> int"
  assumes cmp_same: "cmp a a = 0"
    and cmp_sym: "cmp a b = 0 \<Longrightarrow> cmp b a = 0"
    and cmp_trans: "cmp a b = 0 \<Longrightarrow> cmp b c = 0 \<Longrightarrow> cmp a c = 0"
    and hash_cong: "cmp a b = 0 \<Longrightarrow> hash a = hash b"

section \<open>The invariant\<close>

definition lh_mset :: "'d lhash_st \<Rightarrow> 'd lhash_item multiset" where
  "lh_mset lh = mset (concat (buckets lh))"

text \<open>Every item caches the hash of its data and lies in the bucket of that hash.\<close>

definition item_ok :: "('d \<Rightarrow> u32) \<Rightarrow> nat \<Rightarrow> nat \<Rightarrow> 'd lhash_item \<Rightarrow> bool" where
  "item_ok hash n b it \<longleftrightarrow> li_hash it = hash (li_data it) \<and> unat (li_hash it) mod n = b"

definition items_placed :: "('d \<Rightarrow> u32) \<Rightarrow> nat \<Rightarrow> 'd lhash_item list list \<Rightarrow> bool" where
  "items_placed hash n bs \<longleftrightarrow> length bs = n \<and> (\<forall>b<n. \<forall>it\<in>set (bs ! b). item_ok hash n b it)"

text \<open>No two items hold equal data.\<close>

definition apart :: "('d \<Rightarrow> 'd \<Rightarrow> int) \<Rightarrow> 'd lhash_item multiset \<Rightarrow> bool" where
  "apart cmp M \<longleftrightarrow> (\<forall>x y. {#x, y#} \<subseteq># M \<longrightarrow> cmp (li_data x) (li_data y) \<noteq> 0)"

definition lh_inv :: "('d \<Rightarrow> u32) \<Rightarrow> ('d \<Rightarrow> 'd \<Rightarrow> int) \<Rightarrow> 'd lhash_st \<Rightarrow> bool" where
  "lh_inv hash cmp lh \<longleftrightarrow>
     items_placed hash (num_buckets lh) (buckets lh) \<and> kMinNumBuckets \<le> num_buckets lh \<and>
     num_items lh = size (lh_mset lh) \<and> apart cmp (lh_mset lh)"

section \<open>Chains\<close>

lemma chain_pos_less: "chain_pos t c < length c \<longleftrightarrow> (\<exists>it\<in>set c. t (li_data it))"
  by (induction c) auto

lemma chain_pos_match: "chain_pos t c < length c \<Longrightarrow> t (li_data (c ! chain_pos t c))"
  by (induction c) (auto split: if_splits)

lemma mset_concat_update:
  "b < length bs \<Longrightarrow> mset (concat (bs[b := c])) + mset (bs ! b) = mset (concat bs) + mset c"
  by (induction bs arbitrary: b) (auto split: nat.split simp: nth_Cons')

lemma in_concat_bucket: "it \<in># mset (concat bs) \<longleftrightarrow> (\<exists>b<length bs. it \<in> set (bs ! b))"
  by (auto simp: in_set_conv_nth) (metis nth_mem in_set_conv_nth)+

lemma apart_subset: "apart cmp M \<Longrightarrow> N \<subseteq># M \<Longrightarrow> apart cmp N"
  unfolding apart_def by (meson subset_mset.order_trans)

lemma fold_fold: "fold (fold f) xss s = fold f (concat xss) s"
  by (induction xss arbitrary: s) simp_all

lemma items_placed_update:
  "items_placed hash n bs \<Longrightarrow> \<forall>it\<in>set c. item_ok hash n b it \<Longrightarrow> items_placed hash n (bs[b := c])"
  unfolding items_placed_def by (metis length_list_update nth_list_update_eq nth_list_update_neq list_update_beyond not_less)

section \<open>Resizing\<close>

lemma rebucket_item_placed:
  assumes "items_placed hash n bs" "0 < n" "li_hash it = hash (li_data it)"
  shows "items_placed hash n (rebucket_item n it bs) \<and> mset (concat (rebucket_item n it bs)) = add_mset it (mset (concat bs))"
proof -
  let ?b = "unat (li_hash it) mod n"
  have b: "?b < length bs" using assms by (simp add: items_placed_def)
  have "mset (concat (rebucket_item n it bs)) + mset (bs ! ?b) = add_mset it (mset (concat bs)) + mset (bs ! ?b)"
    using mset_concat_update [OF b, of "it # bs ! ?b"] by (simp add: rebucket_item_def Let_def)
  then have "mset (concat (rebucket_item n it bs)) = add_mset it (mset (concat bs))" by simp
  moreover have "items_placed hash n (rebucket_item n it bs)"
  proof -
    have "item_ok hash n ?b it" using assms(3) by (simp add: item_ok_def)
    moreover have "\<forall>x\<in>set (bs ! ?b). item_ok hash n ?b x"
      using assms(1) b unfolding items_placed_def by blast
    ultimately show ?thesis unfolding rebucket_item_def Let_def by (intro items_placed_update [OF assms(1)]) simp
  qed
  ultimately show ?thesis by simp
qed

lemma rebucket_all:
  assumes "items_placed hash n bs" "0 < n" "\<forall>it\<in>set its. li_hash it = hash (li_data it)"
  shows "items_placed hash n (fold (rebucket_item n) its bs) \<and>
    mset (concat (fold (rebucket_item n) its bs)) = mset its + mset (concat bs)"
  using assms
proof (induction its arbitrary: bs)
  case (Cons it its)
  then show ?case using rebucket_item_placed [of hash n bs it] by simp
qed simp

lemma items_hashed: "items_placed hash n bs \<Longrightarrow> it \<in> set (concat bs) \<Longrightarrow> li_hash it = hash (li_data it)"
  unfolding items_placed_def item_ok_def by (metis in_concat_bucket set_mset_mset)

lemma rebucket_inv:
  assumes "lh_inv hash cmp lh" "kMinNumBuckets \<le> n"
  shows "lh_inv hash cmp (lh_rebucket mal lh n) \<and> lh_mset (lh_rebucket mal lh n) = lh_mset lh"
proof -
  have n: "0 < n" using assms(2) by (simp add: kMinNumBuckets_def)
  let ?bs = "fold (rebucket_item n) (concat (buckets lh)) (replicate n [])"
  have "items_placed hash n (replicate n [])" by (simp add: items_placed_def)
  moreover have "\<forall>it\<in>set (concat (buckets lh)). li_hash it = hash (li_data it)"
    using assms(1) items_hashed unfolding lh_inv_def by blast
  ultimately have "items_placed hash n ?bs" "mset (concat ?bs) = lh_mset lh"
    using rebucket_all [of hash n "replicate n []" "concat (buckets lh)"] n by (simp_all add: lh_mset_def)
  moreover define lh' where "lh' = lh\<lparr>num_buckets := n, buckets := ?bs\<rparr>"
  ultimately have m: "lh_mset lh' = lh_mset lh" and "items_placed hash (num_buckets lh') (buckets lh')"
    by (simp_all add: lh_mset_def)
  then have "lh_inv hash cmp lh'" using assms unfolding lh_inv_def m by (simp add: lh'_def)
  then show ?thesis using assms(1) m by (simp add: lh_rebucket_def Let_def fold_fold flip: lh'_def)
qed

lemma maybe_resize_inv:
  assumes "lh_inv hash cmp lh"
  shows "lh_inv hash cmp (lh_maybe_resize mal lh) \<and> lh_mset (lh_maybe_resize mal lh) = lh_mset lh"
  using assms rebucket_inv [OF assms, of _ mal] by (auto simp: lh_maybe_resize_def Let_def lh_inv_def)

section \<open>Lookup and change\<close>

lemma apart_add:
  "apart cmp (add_mset a M) \<longleftrightarrow>
     apart cmp M \<and> (\<forall>y\<in>#M. cmp (li_data a) (li_data y) \<noteq> 0 \<and> cmp (li_data y) (li_data a) \<noteq> 0)"
proof
  assume l: "apart cmp (add_mset a M)"
  have "cmp (li_data a) (li_data y) \<noteq> 0 \<and> cmp (li_data y) (li_data a) \<noteq> 0" if "y \<in># M" for y
  proof -
    have "{#a, y#} \<subseteq># add_mset a M" "{#y, a#} \<subseteq># add_mset a M" using that by (simp_all add: add_mset_commute)
    then show ?thesis using l unfolding apart_def by blast
  qed
  moreover have "apart cmp M" using apart_subset [OF l] by simp
  ultimately show "apart cmp M \<and> (\<forall>y\<in>#M. cmp (li_data a) (li_data y) \<noteq> 0 \<and> cmp (li_data y) (li_data a) \<noteq> 0)" by blast
next
  assume r: "apart cmp M \<and> (\<forall>y\<in>#M. cmp (li_data a) (li_data y) \<noteq> 0 \<and> cmp (li_data y) (li_data a) \<noteq> 0)"
  have "cmp (li_data x) (li_data y) \<noteq> 0" if s: "{#x, y#} \<subseteq># add_mset a M" for x y
  proof -
    consider "x = a" | "y = a" | "x \<noteq> a" "y \<noteq> a" by blast
    then show ?thesis
    proof cases
      case 1
      then show ?thesis using s r by simp
    next
      case 2
      then have "x \<in># M" using s by (simp add: add_mset_commute [of x a])
      then show ?thesis using 2 r by blast
    next
      case 3
      then have "{#x, y#} \<subseteq># M" using s by (auto simp: subseteq_mset_def split: if_splits)
      then show ?thesis using r unfolding apart_def by blast
    qed
  qed
  then show "apart cmp (add_mset a M)" unfolding apart_def by blast
qed

context hash_contract
begin

text \<open>The bucket of a datum holds every item equal to it.\<close>

lemma match_in_bucket:
  assumes "lh_inv hash cmp lh" "it \<in># lh_mset lh" "cmp (li_data it) d = 0"
  shows "it \<in> set (buckets lh ! (unat (hash d) mod num_buckets lh))"
  using assms hash_cong unfolding lh_inv_def lh_mset_def in_concat_bucket items_placed_def item_ok_def by metis

lemma bucket_in_range:
  "lh_inv hash cmp lh \<Longrightarrow> unat h mod num_buckets lh < length (buckets lh)"
  by (simp add: lh_inv_def items_placed_def kMinNumBuckets_def)

lemma match_unique:
  assumes "apart cmp M" "it \<in># M" "it' \<in># M" "cmp (li_data it) d = 0" "cmp (li_data it') d = 0"
  shows "it = it'"
proof (rule ccontr)
  assume "it \<noteq> it'"
  then have "{#it, it'#} \<subseteq># M" using assms(2,3) by (metis insert_DiffM insert_noteq_member insert_subset_eq_iff single_subset_iff)
  then show False using assms cmp_trans [OF assms(4) cmp_sym [OF assms(5)]] unfolding apart_def by blast
qed

lemma next_ptr:
  assumes inv: "lh_inv hash cmp lh" and p: "get_next_ptr_and_hash hash cmp lh d = (h, b, k)"
  shows "h = hash d" and "b = unat h mod num_buckets lh" and "b < length (buckets lh)"
    and "item_at lh b k = Some it \<longleftrightarrow> it \<in># lh_mset lh \<and> cmp (li_data it) d = 0"
    and "item_at lh b k = Some it \<Longrightarrow> k < length (buckets lh ! b) \<and> it = buckets lh ! b ! k"
proof -
  let ?t = "\<lambda>cur. cmp cur d = 0"
  show h: "h = hash d" and b: "b = unat h mod num_buckets lh" using p by (auto simp: get_next_ptr_and_hash_def Let_def)
  show r: "b < length (buckets lh)" unfolding b by (rule bucket_in_range) fact
  have k: "k = chain_pos ?t (buckets lh ! b)" using p by (auto simp: get_next_ptr_and_hash_def Let_def)
  show "item_at lh b k = Some it \<longleftrightarrow> it \<in># lh_mset lh \<and> cmp (li_data it) d = 0"
  proof
    assume "item_at lh b k = Some it"
    then have "k < length (buckets lh ! b)" "it = buckets lh ! b ! k" by (auto simp: item_at_def split: if_splits)
    then show "it \<in># lh_mset lh \<and> cmp (li_data it) d = 0"
      using chain_pos_match [of ?t "buckets lh ! b"] r unfolding lh_mset_def in_concat_bucket k by auto
  next
    assume a: "it \<in># lh_mset lh \<and> cmp (li_data it) d = 0"
    then have "it \<in> set (buckets lh ! b)" using match_in_bucket [OF inv] h b by blast
    then have l: "k < length (buckets lh ! b)" using a chain_pos_less [of ?t "buckets lh ! b"] unfolding k by blast
    then have "buckets lh ! b ! k \<in># lh_mset lh" "cmp (li_data (buckets lh ! b ! k)) d = 0"
      using chain_pos_match [of ?t "buckets lh ! b"] r unfolding lh_mset_def in_concat_bucket k by auto
    then have "it = buckets lh ! b ! k" using match_unique a inv unfolding lh_inv_def by blast
    then show "item_at lh b k = Some it" using l by (simp add: item_at_def)
  qed
  show "item_at lh b k = Some it \<Longrightarrow> k < length (buckets lh ! b) \<and> it = buckets lh ! b ! k"
    by (auto simp: item_at_def split: if_splits)
qed

lemma retrieve_iff:
  assumes "lh_inv hash cmp lh"
  shows "OPENSSL_lh_retrieve hash cmp lh d = Some x \<longleftrightarrow>
    (\<exists>it\<in>#lh_mset lh. li_data it = x \<and> cmp x d = 0)"
proof -
  obtain h b k where p: "get_next_ptr_and_hash hash cmp lh d = (h, b, k)" by (metis prod_cases3)
  show ?thesis using next_ptr(4) [OF assms p] unfolding OPENSSL_lh_retrieve_def p by auto
qed

lemma retrieve_eqI:
  assumes "lh_inv hash cmp lh" "\<And>x. r = Some x \<longleftrightarrow> (\<exists>it\<in>#lh_mset lh. li_data it = x \<and> cmp x d = 0)"
  shows "OPENSSL_lh_retrieve hash cmp lh d = r"
  using retrieve_iff [OF assms(1), of d] assms(2) by (metis not_Some_eq)

text \<open>The items that do not hold a datum equal to \<open>x\<close>.\<close>

lemma filter_match:
  assumes "apart cmp M" "it \<in># M" "cmp (li_data it) x = 0"
  shows "{#i \<in># M. cmp (li_data i) x \<noteq> 0#} = M - {#it#}"
proof -
  obtain N where M: "M = add_mset it N" using assms(2) by (metis insert_DiffM)
  have "cmp (li_data y) x \<noteq> 0" if "y \<in># N" for y
    using that assms(1,3) cmp_trans [OF assms(3) cmp_sym] unfolding M apart_add by blast
  then have "{#i \<in># N. cmp (li_data i) x \<noteq> 0#} = N" by (simp add: filter_mset_eq_conv)
  then show ?thesis using assms(3) by (simp add: M)
qed

lemma apart_put:
  assumes "apart cmp M"
  shows "apart cmp (add_mset \<lparr>li_data = x, li_hash = h\<rparr> {#i \<in># M. cmp (li_data i) x \<noteq> 0#})"
  unfolding apart_add using apart_subset [OF assms multiset_filter_subset] cmp_sym by fastforce

lemma eqv_cases:
  "cmp x d = 0 \<Longrightarrow> cmp y d = 0 \<longleftrightarrow> cmp y x = 0"
  "cmp x d \<noteq> 0 \<Longrightarrow> cmp y d = 0 \<Longrightarrow> cmp y x \<noteq> 0"
  using cmp_trans [of y x d] cmp_trans [of y d x] cmp_sym [of x d] cmp_trans [of x y d] cmp_sym [of y x] by blast+

lemma retrieve_put:
  assumes "lh_inv hash cmp lh" "lh_inv hash cmp lh'"
    "lh_mset lh' = add_mset \<lparr>li_data = x, li_hash = h\<rparr> {#i \<in># lh_mset lh. cmp (li_data i) x \<noteq> 0#}"
  shows "OPENSSL_lh_retrieve hash cmp lh' d = (if cmp x d = 0 then Some x else OPENSSL_lh_retrieve hash cmp lh d)"
proof (rule retrieve_eqI [OF assms(2)])
  fix y
  show "(if cmp x d = 0 then Some x else OPENSSL_lh_retrieve hash cmp lh d) = Some y \<longleftrightarrow>
      (\<exists>it\<in>#lh_mset lh'. li_data it = y \<and> cmp y d = 0)"
  proof (cases "cmp x d = 0")
    case True
    then show ?thesis unfolding assms(3) using eqv_cases(1) [OF True] by auto
  next
    case False
    then show ?thesis
      unfolding assms(3) using retrieve_iff [OF assms(1), of d y] eqv_cases(2) [OF False] by fastforce
  qed
qed

lemma retrieve_removed:
  assumes "lh_inv hash cmp lh" "lh_inv hash cmp lh'" "lh_mset lh' = {#i \<in># lh_mset lh. cmp (li_data i) x \<noteq> 0#}"
  shows "OPENSSL_lh_retrieve hash cmp lh' d = (if cmp x d = 0 then None else OPENSSL_lh_retrieve hash cmp lh d)"
proof (rule retrieve_eqI [OF assms(2)])
  fix y
  show "(if cmp x d = 0 then None else OPENSSL_lh_retrieve hash cmp lh d) = Some y \<longleftrightarrow>
      (\<exists>it\<in>#lh_mset lh'. li_data it = y \<and> cmp y d = 0)"
  proof (cases "cmp x d = 0")
    case True
    then show ?thesis unfolding assms(3) using eqv_cases(1) [OF True] by auto
  next
    case False
    then show ?thesis
      unfolding assms(3) using retrieve_iff [OF assms(1), of d y] eqv_cases(2) [OF False] by fastforce
  qed
qed

text \<open>A change of one bucket, before any resizing.\<close>

lemma bucket_change:
  assumes inv: "lh_inv hash cmp lh" and b: "b < length (buckets lh)"
    and ok: "\<forall>it\<in>set c. item_ok hash (num_buckets lh) b it"
    and M: "mset c + A = mset (buckets lh ! b) + B" and N: "lh_mset lh + B = N + A"
    and apart: "apart cmp N"
  shows "lh_inv hash cmp (lh\<lparr>buckets := (buckets lh)[b := c], num_items := size N\<rparr>) \<and>
    lh_mset (lh\<lparr>buckets := (buckets lh)[b := c], num_items := size N\<rparr>) = N"
proof -
  let ?m = "mset (concat ((buckets lh)[b := c]))"
  have "?m + mset (buckets lh ! b) + A = N + mset (buckets lh ! b) + A"
    using mset_concat_update [OF b, of c] M N unfolding lh_mset_def by (metis add.assoc add.commute)
  then have m: "?m = N" by simp
  then have l: "lh_mset (lh\<lparr>buckets := (buckets lh)[b := c], num_items := size N\<rparr>) = N" by (simp add: lh_mset_def)
  have "items_placed hash (num_buckets lh) ((buckets lh)[b := c])"
    using inv ok unfolding lh_inv_def by (intro items_placed_update) auto
  then show ?thesis using inv apart l unfolding lh_inv_def by simp
qed

lemma bucket_items_ok: "lh_inv hash cmp lh \<Longrightarrow> b < length (buckets lh) \<Longrightarrow> it \<in> set (buckets lh ! b) \<Longrightarrow>
    item_ok hash (num_buckets lh) b it"
  unfolding lh_inv_def items_placed_def by auto

lemma insert_eq:
  assumes inv: "lh_inv hash cmp lh" and i: "OPENSSL_lh_insert mal hash cmp lh x = (r, old, lh')"
  shows "(r \<and> old = OPENSSL_lh_retrieve hash cmp lh x \<and> lh_inv hash cmp lh' \<and>
      lh_mset lh' = add_mset \<lparr>li_data = x, li_hash = hash x\<rparr> {#i \<in># lh_mset lh. cmp (li_data i) x \<noteq> 0#}) \<or>
    (\<not> r \<and> lh' = lh \<and> old = None \<and> OPENSSL_malloc mal sizeof_LHASH_ITEM = None \<and> OPENSSL_lh_retrieve hash cmp lh x = None)"
proof -
  obtain h b k where p: "get_next_ptr_and_hash hash cmp lh x = (h, b, k)" by (metis prod_cases3)
  note np = next_ptr [OF inv p]
  let ?M = "lh_mset lh" and ?c = "buckets lh ! b"
  have apart: "apart cmp ?M" and size: "num_items lh = size ?M" using inv unfolding lh_inv_def by simp_all
  show ?thesis
  proof (cases "item_at lh b k")
    case (Some it)
    have k: "k < length ?c" "it = ?c ! k" using np(5) [OF Some] by simp_all
    have m: "it \<in># ?M" "cmp (li_data it) x = 0" using np(4) [THEN iffD1, OF Some] by simp_all
    define new where "new = it\<lparr>li_data := x\<rparr>"
    have "li_hash it = hash x"
      using bucket_items_ok [OF inv np(3), of it] k hash_cong [OF m(2)] by (auto simp: item_ok_def)
    then have new: "new = \<lparr>li_data = x, li_hash = hash x\<rparr>" by (simp add: new_def)
    let ?N = "add_mset new {#i \<in># ?M. cmp (li_data i) x \<noteq> 0#}"
    have ok: "\<forall>i\<in>set (?c[k := new]). item_ok hash (num_buckets lh) b i"
    proof -
      have "item_ok hash (num_buckets lh) b new" using np(1,2) by (simp add: new item_ok_def)
      then show ?thesis using bucket_items_ok [OF inv np(3)] set_update_subset_insert [of ?c k new] by blast
    qed
    have mc: "mset (?c[k := new]) + {#it#} = mset ?c + {#new#}" using k by (simp add: mset_update)
    have mN: "?M + {#new#} = ?N + {#it#}" using filter_match [OF apart m] m(1) by simp
    have ap: "apart cmp ?N" using apart_put [OF apart, of x "hash x"] by (simp add: new)
    note bucket_change [OF inv np(3) ok mc mN ap]
    moreover have "size ?N = num_items lh" using filter_match [OF apart m] m(1) size
      by (metis insert_DiffM size_add_mset)
    moreover have "r" "old = Some (li_data it)" "lh' = lh\<lparr>buckets := (buckets lh)[b := ?c[k := new]]\<rparr>"
      using i p Some by (simp_all add: OPENSSL_lh_insert_def new_def)
    ultimately show ?thesis using Some p by (simp add: OPENSSL_lh_retrieve_def new)
  next
    case None
    then have none: "OPENSSL_lh_retrieve hash cmp lh x = None" using p by (simp add: OPENSSL_lh_retrieve_def)
    then have f: "{#i \<in># ?M. cmp (li_data i) x \<noteq> 0#} = ?M" using np(4) None by (auto simp: filter_mset_eq_conv)
    let ?it = "\<lparr>li_data = x, li_hash = h\<rparr>"
    let ?lh = "lh\<lparr>buckets := (buckets lh)[b := ?c @ [?it]], num_items := num_items lh + 1\<rparr>"
    have "lh_inv hash cmp (lh\<lparr>buckets := (buckets lh)[b := ?c @ [?it]], num_items := size (add_mset ?it ?M)\<rparr>) \<and>
        lh_mset (lh\<lparr>buckets := (buckets lh)[b := ?c @ [?it]], num_items := size (add_mset ?it ?M)\<rparr>) = add_mset ?it ?M"
    proof (rule bucket_change [OF inv np(3), of _ "{#}" "{#?it#}"])
      have "item_ok hash (num_buckets lh) b ?it" using np(1,2) by (simp add: item_ok_def)
      then show "\<forall>i\<in>set (?c @ [?it]). item_ok hash (num_buckets lh) b i" using bucket_items_ok [OF inv np(3)] by auto
      show "apart cmp (add_mset ?it ?M)" using apart_put [OF apart, of x h] unfolding f .
    qed simp_all
    then have "lh_inv hash cmp ?lh" "lh_mset ?lh = add_mset ?it ?M" by (simp_all add: size)
    then show ?thesis
      using i p None none f np(1) maybe_resize_inv [of hash cmp ?lh mal]
      by (auto simp: OPENSSL_lh_insert_def Let_def split: if_splits)
  qed
qed

lemma delete_eq:
  assumes inv: "lh_inv hash cmp lh" and i: "OPENSSL_lh_delete mal hash cmp lh x = (old, lh')"
  shows "old = OPENSSL_lh_retrieve hash cmp lh x \<and> lh_inv hash cmp lh' \<and>
      lh_mset lh' = {#i \<in># lh_mset lh. cmp (li_data i) x \<noteq> 0#}"
proof -
  obtain h b k where p: "get_next_ptr_and_hash hash cmp lh x = (h, b, k)" by (metis prod_cases3)
  note np = next_ptr [OF inv p]
  let ?M = "lh_mset lh" and ?c = "buckets lh ! b"
  have apart: "apart cmp ?M" and size: "num_items lh = size ?M" using inv unfolding lh_inv_def by simp_all
  show ?thesis
  proof (cases "item_at lh b k")
    case (Some it)
    have k: "k < length ?c" "it = ?c ! k" using np(5) [OF Some] by simp_all
    have m: "it \<in># ?M" "cmp (li_data it) x = 0" using np(4) [THEN iffD1, OF Some] by simp_all
    let ?d = "take k ?c @ drop (Suc k) ?c" and ?N = "?M - {#it#}"
    let ?lh = "lh\<lparr>buckets := (buckets lh)[b := ?d], num_items := num_items lh - 1\<rparr>"
    have "mset ?d + {#it#} = mset ?c + {#}"
      using k by (metis (no_types) add.right_neutral add_mset_add_single id_take_nth_drop mset.simps(2) mset_append union_mset_add_mset_right)
    then have "lh_inv hash cmp (lh\<lparr>buckets := (buckets lh)[b := ?d], num_items := size ?N\<rparr>) \<and>
        lh_mset (lh\<lparr>buckets := (buckets lh)[b := ?d], num_items := size ?N\<rparr>) = ?N"
      using m(1) bucket_items_ok [OF inv np(3)] apart_subset [OF apart, of ?N]
      by (intro bucket_change [OF inv np(3), of ?d "{#it#}" "{#}"]) (auto dest: in_set_takeD in_set_dropD)
    then have "lh_inv hash cmp ?lh" "lh_mset ?lh = ?N" using m(1) by (simp_all add: size size_Diff_singleton)
    then show ?thesis
      using i p Some filter_match [OF apart m] maybe_resize_inv [of hash cmp ?lh mal]
      by (auto simp: OPENSSL_lh_delete_def OPENSSL_lh_retrieve_def Let_def)
  next
    case None
    then have "{#i \<in># ?M. cmp (li_data i) x \<noteq> 0#} = ?M" using np(4) by (auto simp: filter_mset_eq_conv)
    then show ?thesis using i p None inv by (simp add: OPENSSL_lh_delete_def OPENSSL_lh_retrieve_def)
  qed
qed

lemma new_inv:
  assumes "OPENSSL_lh_new mal = Some lh"
  shows "lh_inv hash cmp lh \<and> lh_mset lh = {#}"
  using assms
  by (auto simp: OPENSSL_lh_new_def lh_inv_def lh_mset_def items_placed_def apart_def concat_replicate_trivial
      split: if_splits)

lemma doall_inv:
  assumes "lh_inv hash cmp lh" "OPENSSL_lh_doall_arg mal (Some lh) func arg = (arg', Some lh')"
  shows "lh_inv hash cmp lh' \<and> lh_mset lh' = lh_mset lh"
proof -
  have "lh_inv hash cmp (lh\<lparr>callback_depth := n\<rparr>)" "lh_mset (lh\<lparr>callback_depth := n\<rparr>) = lh_mset lh" for n
    using assms(1) by (simp_all add: lh_inv_def lh_mset_def)
  then show ?thesis
    using assms maybe_resize_inv [of hash cmp _ mal]
    by (auto simp: OPENSSL_lh_doall_arg_def Let_def split: if_splits)
qed

end

section \<open>Tables as maps\<close>

text \<open>A table whose items can always be allocated, with resizing that may fail.\<close>

locale lhash_table = hash_contract hash cmp
  for hash :: "'d \<Rightarrow> u32" and cmp :: "'d \<Rightarrow> 'd \<Rightarrow> int" +
  fixes mal :: malloc
  assumes item_alloc: "OPENSSL_malloc mal sizeof_LHASH_ITEM \<noteq> None"
begin

lemma insert_always:
  assumes "lh_inv hash cmp lh"
  shows "lh_inv hash cmp (snd (snd (OPENSSL_lh_insert mal hash cmp lh x))) \<and>
    lh_mset (snd (snd (OPENSSL_lh_insert mal hash cmp lh x))) =
      add_mset \<lparr>li_data = x, li_hash = hash x\<rparr> {#i \<in># lh_mset lh. cmp (li_data i) x \<noteq> 0#}"
proof -
  obtain r old lh' where i: "OPENSSL_lh_insert mal hash cmp lh x = (r, old, lh')" by (metis prod_cases3)
  show ?thesis using insert_eq [OF assms i] item_alloc i by auto
qed

end

definition empty_lhash :: "'d lhash_st" where
  "empty_lhash = \<lparr>num_items = 0, buckets = replicate kMinNumBuckets [], num_buckets = kMinNumBuckets, callback_depth = 0\<rparr>"

sublocale lhash_table \<subseteq> lh: keyed_map "lh_inv hash cmp" "OPENSSL_lh_retrieve hash cmp"
  "\<lambda>lh x. snd (snd (OPENSSL_lh_insert mal hash cmp lh x))" "\<lambda>lh x. snd (OPENSSL_lh_delete mal hash cmp lh x)"
  empty_lhash "\<lambda>x d. cmp x d = 0"
proof
  show e: "lh_inv hash cmp empty_lhash"
    by (simp add: empty_lhash_def lh_inv_def lh_mset_def items_placed_def apart_def concat_replicate_trivial)
  have "lh_mset (empty_lhash :: 'd lhash_st) = {#}"
    by (simp add: empty_lhash_def lh_mset_def concat_replicate_trivial)
  then show "OPENSSL_lh_retrieve hash cmp empty_lhash d = None" for d using retrieve_iff [OF e, of d] by auto
next
  fix s x d assume inv: "lh_inv hash cmp s"
  note i = insert_always [OF inv, of x]
  show "lh_inv hash cmp (snd (snd (OPENSSL_lh_insert mal hash cmp s x)))" using i by simp
  show "OPENSSL_lh_retrieve hash cmp (snd (snd (OPENSSL_lh_insert mal hash cmp s x))) d =
      (if cmp x d = 0 then Some x else OPENSSL_lh_retrieve hash cmp s d)"
    using retrieve_put [OF inv] i by blast
  obtain old s' where r: "OPENSSL_lh_delete mal hash cmp s x = (old, s')" by fastforce
  note del = delete_eq [OF inv r]
  show "lh_inv hash cmp (snd (OPENSSL_lh_delete mal hash cmp s x))" using del r by simp
  show "OPENSSL_lh_retrieve hash cmp (snd (OPENSSL_lh_delete mal hash cmp s x)) d =
      (if cmp x d = 0 then None else OPENSSL_lh_retrieve hash cmp s d)"
    using retrieve_removed [OF inv] del r by simp
qed

text \<open>
  The tables of strings in the library (the object names of crypto/obj, for instance) use
  \<open>OPENSSL_strhash\<close> and \<open>strcmp\<close>.
\<close>

lemma strcmp_eq_0: "strcmp a b = 0 \<longleftrightarrow> takeWhile (\<lambda>c. c \<noteq> 0) a = takeWhile (\<lambda>c. c \<noteq> 0) b"
  by (induction a b rule: strcmp.induct) (auto simp: word_uint_eq_iff [symmetric] uint_0_iff)

lemma strhash_eq: "OPENSSL_strhash s = hash32_loop 2166136261 (takeWhile (\<lambda>c. c \<noteq> 0) s)"
  by (simp add: OPENSSL_strhash_def OPENSSL_hash32_def strlen_def flip: takeWhile_eq_take)

definition ample_malloc :: malloc where
  "ample_malloc n = Some (replicate n 0)"

lemma ample_alloc: "n + 8 < 2 ^ 64 \<Longrightarrow> OPENSSL_malloc ample_malloc n = Some (replicate n 0)"
  by (simp add: OPENSSL_malloc_def size_add_def OPENSSL_MALLOC_PREFIX_def ample_malloc_def)

interpretation str: lhash_table OPENSSL_strhash strcmp ample_malloc
  by unfold_locales (auto simp: strcmp_eq_0 strhash_eq ample_alloc sizeof_LHASH_ITEM_def)

section \<open>The load of a table\<close>

definition never_fails :: "malloc \<Rightarrow> bool" where
  "never_fails mal \<longleftrightarrow> (\<forall>n. mal n \<noteq> None)"

lemma rebucket_succeeds:
  assumes "never_fails mal" "n \<le> 2 ^ 58"
  shows "num_buckets (lh_rebucket mal lh n) = n \<and> num_items (lh_rebucket mal lh n) = num_items lh"
proof -
  have n: "8 * n + 8 < 2 ^ 64" using assms(2) by simp
  then have "OPENSSL_zalloc mal (8 * n) \<noteq> None"
    using assms(1) by (auto simp: OPENSSL_zalloc_def OPENSSL_malloc_def size_add_def OPENSSL_MALLOC_PREFIX_def
        never_fails_def split: option.splits)
  moreover have "(8 * n) mod 2 ^ 64 = 8 * n" using n by simp
  ultimately show ?thesis by (auto simp: lh_rebucket_def Let_def)
qed

lemma maybe_resize_load:
  assumes "never_fails mal" "num_buckets lh \<le> 2 ^ 56" "callback_depth lh = 0" "kMinNumBuckets \<le> num_buckets lh"
    and load: "num_items lh \<le> 3 * num_buckets lh"
  shows "num_items (lh_maybe_resize mal lh) div num_buckets (lh_maybe_resize mal lh) \<le> kMaxAverageChainLength"
proof -
  let ?n = "num_buckets lh" and ?i = "num_items lh"
  have n: "16 \<le> ?n" "?n * 2 < 2 ^ 64" using assms(2,4) by (simp_all add: kMinNumBuckets_def)
  consider "2 < ?i div ?n" | "?i div ?n < 1" "16 < ?n" | "?i div ?n \<le> 2" "\<not> (?i div ?n < 1 \<and> 16 < ?n)" by linarith
  then show ?thesis
  proof cases
    case 1
    then have "lh_maybe_resize mal lh = lh_rebucket mal lh (2 * ?n)"
      using assms(3) n by (simp add: lh_maybe_resize_def Let_def kMaxAverageChainLength_def mult.commute)
    moreover have "?i div (2 * ?n) < 3" using load n by (intro less_mult_imp_div_less) linarith
    ultimately show ?thesis
      using rebucket_succeeds [OF assms(1), of "2 * ?n" lh] assms(2) by (simp add: kMaxAverageChainLength_def)
  next
    case 2
    define m where "m = max (?n div 2) 16"
    have "lh_maybe_resize mal lh = lh_rebucket mal lh m"
      using 2 assms(3) by (auto simp: lh_maybe_resize_def Let_def kMaxAverageChainLength_def kMinAverageChainLength_def
          kMinNumBuckets_def m_def max_def)
    moreover have "?i < ?n" using 2 n by (simp add: div_eq_0_iff)
    then have "?i div m < 3" unfolding m_def by (intro less_mult_imp_div_less) linarith
    ultimately show ?thesis
      using rebucket_succeeds [OF assms(1), of m lh] assms(2) by (simp add: kMaxAverageChainLength_def m_def)
  next
    case 3
    then have "lh_maybe_resize mal lh = lh"
      by (auto simp: lh_maybe_resize_def Let_def kMaxAverageChainLength_def kMinAverageChainLength_def kMinNumBuckets_def)
    then show ?thesis using 3 by (simp add: kMaxAverageChainLength_def)
  qed
qed

lemma insert_load:
  assumes inv: "lh_inv hash cmp lh" and "never_fails mal" "num_buckets lh \<le> 2 ^ 56" "callback_depth lh = 0"
    and load: "num_items lh div num_buckets lh \<le> kMaxAverageChainLength"
    and i: "OPENSSL_lh_insert mal hash cmp lh x = (r, old, lh')"
  shows "num_items lh' div num_buckets lh' \<le> kMaxAverageChainLength"
proof -
  have n: "kMinNumBuckets \<le> num_buckets lh" using inv by (simp add: lh_inv_def)
  then have l: "num_items lh < 3 * num_buckets lh"
    using load div_less_iff_less_mult [of "num_buckets lh" "num_items lh" 3]
    by (simp add: kMaxAverageChainLength_def kMinNumBuckets_def)
  obtain h b k where p: "get_next_ptr_and_hash hash cmp lh x = (h, b, k)" by (metis prod_cases3)
  let ?lh = "lh\<lparr>buckets := (buckets lh)[b := buckets lh ! b @ [\<lparr>li_data = x, li_hash = h\<rparr>]], num_items := num_items lh + 1\<rparr>"
  have "lh' = lh_maybe_resize mal ?lh \<or> (num_items lh' = num_items lh \<and> num_buckets lh' = num_buckets lh)"
    using i p by (auto simp: OPENSSL_lh_insert_def Let_def split: option.splits if_splits)
  then show ?thesis using load maybe_resize_load [OF assms(2), of ?lh] assms(3,4) n l by auto
qed

lemma delete_load:
  assumes inv: "lh_inv hash cmp lh" and "never_fails mal" "num_buckets lh \<le> 2 ^ 56" "callback_depth lh = 0"
    and load: "num_items lh div num_buckets lh \<le> kMaxAverageChainLength"
    and i: "OPENSSL_lh_delete mal hash cmp lh x = (old, lh')"
  shows "num_items lh' div num_buckets lh' \<le> kMaxAverageChainLength"
proof -
  have n: "kMinNumBuckets \<le> num_buckets lh" using inv by (simp add: lh_inv_def)
  then have l: "num_items lh < 3 * num_buckets lh"
    using load div_less_iff_less_mult [of "num_buckets lh" "num_items lh" 3]
    by (simp add: kMaxAverageChainLength_def kMinNumBuckets_def)
  obtain h b k where p: "get_next_ptr_and_hash hash cmp lh x = (h, b, k)" by (metis prod_cases3)
  let ?c = "buckets lh ! b"
  let ?lh = "lh\<lparr>buckets := (buckets lh)[b := take k ?c @ drop (Suc k) ?c], num_items := num_items lh - 1\<rparr>"
  have "lh' = lh_maybe_resize mal ?lh \<or> lh' = lh"
    using i p by (auto simp: OPENSSL_lh_delete_def Let_def split: option.splits)
  then show ?thesis using load maybe_resize_load [OF assms(2), of ?lh] assms(3,4) n l by auto
qed

section \<open>Reachable tables\<close>

inductive lh_reach :: "('d \<Rightarrow> u32) \<Rightarrow> ('d \<Rightarrow> 'd \<Rightarrow> int) \<Rightarrow> 'd lhash_st \<Rightarrow> bool" for hash cmp where
  new: "OPENSSL_lh_new mal = Some lh \<Longrightarrow> lh_reach hash cmp lh"
| ins: "lh_reach hash cmp lh \<Longrightarrow> OPENSSL_lh_insert mal hash cmp lh x = (r, old, lh') \<Longrightarrow> lh_reach hash cmp lh'"
| del: "lh_reach hash cmp lh \<Longrightarrow> OPENSSL_lh_delete mal hash cmp lh x = (old, lh') \<Longrightarrow> lh_reach hash cmp lh'"
| doall: "lh_reach hash cmp lh \<Longrightarrow> OPENSSL_lh_doall_arg mal (Some lh) f (arg :: 'd list) = (arg', Some lh') \<Longrightarrow>
    lh_reach hash cmp lh'"

lemma lh_reach_inv:
  assumes "hash_contract hash cmp" "lh_reach hash cmp lh"
  shows "lh_inv hash cmp lh"
  using assms(2)
proof induction
  case (new mal lh)
  then show ?case using hash_contract.new_inv [OF assms(1)] by blast
next
  case (ins lh mal x r old lh')
  then show ?case using hash_contract.insert_eq [OF assms(1)] by blast
next
  case (del lh mal x old lh')
  then show ?case using hash_contract.delete_eq [OF assms(1)] by blast
next
  case (doall lh mal f arg arg' lh')
  then show ?case using hash_contract.doall_inv [OF assms(1) doall.IH doall.hyps(2)] by simp
qed

section \<open>Properties\<close>

text \<open>
  C28. The invariant of the hash tables. Whatever the sequence of insertions, deletions and
  iterations, with allocations that succeed or fail at any point, every item is in the bucket
  that its cached hash selects for the current number of buckets, no two items hold equal data,
  and \<open>num_items\<close> counts them.
\<close>

theorem lh_reach_invariant:
  assumes "hash_contract hash cmp" and "lh_reach hash cmp lh"
  shows "length (buckets lh) = num_buckets lh \<and> 16 \<le> num_buckets lh \<and>
    (\<forall>b<num_buckets lh. \<forall>it\<in>set (buckets lh ! b).
       li_hash it = hash (li_data it) \<and> unat (hash (li_data it)) mod num_buckets lh = b) \<and>
    num_items lh = length (concat (buckets lh)) \<and>
    (\<forall>i j. i < j \<longrightarrow> j < num_items lh \<longrightarrow>
       cmp (li_data (concat (buckets lh) ! i)) (li_data (concat (buckets lh) ! j)) \<noteq> 0)"
proof -
  let ?xs = "concat (buckets lh)"
  have inv: "lh_inv hash cmp lh" using lh_reach_inv [OF assms] .
  have "cmp (li_data (?xs ! i)) (li_data (?xs ! j)) \<noteq> 0" if "i < j" "j < length ?xs" for i j
  proof -
    have "?xs = take i ?xs @ ?xs ! i # drop (Suc i) ?xs" using that by (intro id_take_nth_drop) simp
    then have m: "mset ?xs = add_mset (?xs ! i) (mset (take i ?xs) + mset (drop (Suc i) ?xs))"
      by (metis mset_append mset.simps(2) union_mset_add_mset_right)
    have "?xs ! j \<in> set (drop (Suc i) ?xs)" using that by (auto simp: in_set_conv_nth intro!: exI [of _ "j - Suc i"])
    then have "{#?xs ! i, ?xs ! j#} \<subseteq># mset ?xs" unfolding m by simp
    then show ?thesis using inv unfolding lh_inv_def apart_def lh_mset_def by blast
  qed
  moreover have "num_items lh = length ?xs" using inv by (simp add: lh_inv_def lh_mset_def)
  moreover have "\<forall>b<num_buckets lh. \<forall>it\<in>set (buckets lh ! b).
      li_hash it = hash (li_data it) \<and> unat (hash (li_data it)) mod num_buckets lh = b"
    using inv unfolding lh_inv_def items_placed_def item_ok_def by metis
  moreover have "length (buckets lh) = num_buckets lh" "16 \<le> num_buckets lh"
    using inv by (simp_all add: lh_inv_def items_placed_def kMinNumBuckets_def)
  ultimately show ?thesis by simp
qed

text \<open>For the witnesses: the empty table of strings, and the table that holds one string.\<close>

lemma reach_empty: "lh_reach OPENSSL_strhash strcmp empty_lhash"
proof (rule lh_reach.new [of ample_malloc])
  have "OPENSSL_malloc ample_malloc 48 \<noteq> None" "OPENSSL_malloc ample_malloc 128 \<noteq> None" by (simp_all add: ample_alloc)
  then show "OPENSSL_lh_new ample_malloc = Some empty_lhash"
    by (auto simp: OPENSSL_lh_new_def OPENSSL_zalloc_def OPENSSL_calloc_def sizeof_LHASH_def kMinNumBuckets_def
        SIZE_MAX_def empty_lhash_def)
qed

lemma reach_one:
  "lh_reach OPENSSL_strhash strcmp (snd (snd (OPENSSL_lh_insert ample_malloc OPENSSL_strhash strcmp empty_lhash s)))"
  by (rule lh_reach.ins [OF reach_empty, of ample_malloc s "fst (OPENSSL_lh_insert ample_malloc OPENSSL_strhash strcmp empty_lhash s)"
        "fst (snd (OPENSSL_lh_insert ample_malloc OPENSSL_strhash strcmp empty_lhash s))"]) simp

theorem lh_reach_invariant_witness:
  "num_items (snd (snd (OPENSSL_lh_insert ample_malloc OPENSSL_strhash strcmp empty_lhash [99, 110, 0]))) =
   length (concat (buckets (snd (snd (OPENSSL_lh_insert ample_malloc OPENSSL_strhash strcmp empty_lhash [99, 110, 0])))))"
  using lh_reach_invariant [OF str.hash_contract_axioms reach_one] by blast

text \<open>
  C29. A hash table is a map from keys to data. \<open>OPENSSL_lh_retrieve\<close> finds a stored datum exactly
  when one equal to the argument is stored; a successful \<open>OPENSSL_lh_insert\<close> returns the datum it
  replaced, if any, and changes the answer for the equal arguments only; a failed one changes
  nothing, and it fails exactly when no equal datum is stored and the allocation of an item fails; \<open>OPENSSL_lh_delete\<close> returns the removed datum and only its answer becomes empty. All this
  holds across the resizing that these operations trigger.
\<close>

theorem lh_refines_map:
  assumes "hash_contract hash cmp" and "lh_reach hash cmp lh"
  shows "(\<forall>d x. OPENSSL_lh_retrieve hash cmp lh d = Some x \<longleftrightarrow>
       x \<in> li_data ` set (concat (buckets lh)) \<and> cmp x d = 0) \<and>
    (\<forall>mal x old lh'. OPENSSL_lh_insert mal hash cmp lh x = (True, old, lh') \<longrightarrow>
       old = OPENSSL_lh_retrieve hash cmp lh x \<and>
       OPENSSL_lh_retrieve hash cmp lh' = (\<lambda>d. if cmp x d = 0 then Some x else OPENSSL_lh_retrieve hash cmp lh d)) \<and>
    (\<forall>mal x old lh'. OPENSSL_lh_insert mal hash cmp lh x = (False, old, lh') \<longrightarrow>
       lh' = lh \<and> old = None \<and> OPENSSL_lh_retrieve hash cmp lh x = None) \<and>
    (\<forall>mal x old lh'. OPENSSL_lh_delete mal hash cmp lh x = (old, lh') \<longrightarrow>
       old = OPENSSL_lh_retrieve hash cmp lh x \<and>
       OPENSSL_lh_retrieve hash cmp lh' = (\<lambda>d. if cmp x d = 0 then None else OPENSSL_lh_retrieve hash cmp lh d)) \<and>
    (\<forall>mal x. fst (OPENSSL_lh_insert mal hash cmp lh x) \<longleftrightarrow>
       OPENSSL_lh_retrieve hash cmp lh x \<noteq> None \<or> OPENSSL_malloc mal sizeof_LHASH_ITEM \<noteq> None)"
proof (intro conjI allI impI)
  note inv = lh_reach_inv [OF assms]
  show "OPENSSL_lh_retrieve hash cmp lh d = Some x \<longleftrightarrow> x \<in> li_data ` set (concat (buckets lh)) \<and> cmp x d = 0" for d x
    using hash_contract.retrieve_iff [OF assms(1) inv, of d x] unfolding lh_mset_def set_mset_mset by blast
  fix mal x old lh'
  {
    assume i: "OPENSSL_lh_insert mal hash cmp lh x = (True, old, lh')"
    note e = hash_contract.insert_eq [OF assms(1) inv i]
    show "old = OPENSSL_lh_retrieve hash cmp lh x" using e by blast
    show "OPENSSL_lh_retrieve hash cmp lh' = (\<lambda>d. if cmp x d = 0 then Some x else OPENSSL_lh_retrieve hash cmp lh d)"
      using hash_contract.retrieve_put [OF assms(1) inv] e by blast
  next
    assume i: "OPENSSL_lh_insert mal hash cmp lh x = (False, old, lh')"
    note e = hash_contract.insert_eq [OF assms(1) inv i]
    show "lh' = lh" "old = None" "OPENSSL_lh_retrieve hash cmp lh x = None" using e by blast+
  next
    assume i: "OPENSSL_lh_delete mal hash cmp lh x = (old, lh')"
    note e = hash_contract.delete_eq [OF assms(1) inv i]
    show "old = OPENSSL_lh_retrieve hash cmp lh x" using e by blast
    show "OPENSSL_lh_retrieve hash cmp lh' = (\<lambda>d. if cmp x d = 0 then None else OPENSSL_lh_retrieve hash cmp lh d)"
      using hash_contract.retrieve_removed [OF assms(1) inv] e by blast
  }
  show "fst (OPENSSL_lh_insert mal hash cmp lh x) \<longleftrightarrow>
       OPENSSL_lh_retrieve hash cmp lh x \<noteq> None \<or> OPENSSL_malloc mal sizeof_LHASH_ITEM \<noteq> None"
    by (auto simp: OPENSSL_lh_insert_def OPENSSL_lh_retrieve_def Let_def split: prod.splits option.splits)
qed

theorem lh_refines_map_witness:
  "lh_reach OPENSSL_strhash strcmp empty_lhash \<and>
   OPENSSL_lh_retrieve OPENSSL_strhash strcmp empty_lhash [99, 110, 0] = None"
proof -
  have "concat (buckets (empty_lhash :: byte list lhash_st)) = []"
    by (simp add: empty_lhash_def concat_replicate_trivial)
  then have "OPENSSL_lh_retrieve OPENSSL_strhash strcmp empty_lhash [99, 110, 0] \<noteq> Some x" for x
    using lh_refines_map [OF str.hash_contract_axioms reach_empty, THEN conjunct1, rule_format, of "[99, 110, 0]" x]
    by (simp only: list.set image_empty empty_iff) simp
  then show ?thesis using reach_empty by blast
qed

text \<open>
  C30. The load of a table stays bounded: while allocations succeed and no iteration is under way,
  insertions and deletions keep the average chain length at or below \<open>kMaxAverageChainLength\<close>.
\<close>

theorem lh_load_bounded:
  assumes "hash_contract hash cmp" and "lh_reach hash cmp lh" and "never_fails mal"
    and "num_buckets lh \<le> 2 ^ 56" and "callback_depth lh = 0"
    and "num_items lh div num_buckets lh \<le> kMaxAverageChainLength"
  shows "(\<forall>x r old lh'. OPENSSL_lh_insert mal hash cmp lh x = (r, old, lh') \<longrightarrow>
       num_items lh' div num_buckets lh' \<le> kMaxAverageChainLength) \<and>
    (\<forall>x old lh'. OPENSSL_lh_delete mal hash cmp lh x = (old, lh') \<longrightarrow>
       num_items lh' div num_buckets lh' \<le> kMaxAverageChainLength)"
  using insert_load [OF lh_reach_inv [OF assms(1,2)] assms(3-6)]
    delete_load [OF lh_reach_inv [OF assms(1,2)] assms(3-6)] by blast

theorem lh_load_bounded_witness:
  "num_items (snd (OPENSSL_lh_delete ample_malloc OPENSSL_strhash strcmp empty_lhash [99, 110, 0])) div
   num_buckets (snd (OPENSSL_lh_delete ample_malloc OPENSSL_strhash strcmp empty_lhash [99, 110, 0])) \<le> 2"
proof -
  let ?e = "empty_lhash :: byte list lhash_st"
  have f: "never_fails ample_malloc" by (simp add: never_fails_def ample_malloc_def)
  have c: "num_buckets ?e \<le> 2 ^ 56" "callback_depth ?e = 0" "num_items ?e div num_buckets ?e \<le> kMaxAverageChainLength"
    by (simp_all add: empty_lhash_def kMinNumBuckets_def)
  obtain old lh' where d: "OPENSSL_lh_delete ample_malloc OPENSSL_strhash strcmp ?e [99, 110, 0] = (old, lh')" by fastforce
  then have "num_items lh' div num_buckets lh' \<le> kMaxAverageChainLength"
    using lh_load_bounded [OF str.hash_contract_axioms reach_empty f c] by blast
  then show ?thesis unfolding d by (simp add: kMaxAverageChainLength_def)
qed

end
