(* ===== verification/Const_Time.thy ===== *)
theory Const_Time
  imports Prelude
begin

text \<open>
  The constant-time primitives of crypto/internal.h: comparisons that return an all-ones or
  all-zero mask, and selection by a mask, without branches. A \<open>crypto_word_t\<close> is a 64-bit word;
  the value barriers return their argument.
\<close>

section \<open>Definitions\<close>

definition constant_time_msb_w :: "u64 \<Rightarrow> u64" where
  "constant_time_msb_w a = 0 - drop_bit (8 * 8 - 1) a"

definition constant_time_lt_w :: "u64 \<Rightarrow> u64 \<Rightarrow> u64" where
  "constant_time_lt_w a b = constant_time_msb_w (a XOR ((a XOR b) OR ((a - b) XOR a)))"

definition constant_time_lt_8 :: "u64 \<Rightarrow> u64 \<Rightarrow> byte" where
  "constant_time_lt_8 a b = ucast (constant_time_lt_w a b)"

definition constant_time_ge_w :: "u64 \<Rightarrow> u64 \<Rightarrow> u64" where
  "constant_time_ge_w a b = NOT (constant_time_lt_w a b)"

definition constant_time_ge_8 :: "u64 \<Rightarrow> u64 \<Rightarrow> byte" where
  "constant_time_ge_8 a b = ucast (constant_time_ge_w a b)"

definition constant_time_is_zero_w :: "u64 \<Rightarrow> u64" where
  "constant_time_is_zero_w a = constant_time_msb_w (NOT a AND (a - 1))"

definition constant_time_is_zero_8 :: "u64 \<Rightarrow> byte" where
  "constant_time_is_zero_8 a = ucast (constant_time_is_zero_w a)"

definition constant_time_eq_w :: "u64 \<Rightarrow> u64 \<Rightarrow> u64" where
  "constant_time_eq_w a b = constant_time_is_zero_w (a XOR b)"

definition constant_time_eq_8 :: "u64 \<Rightarrow> u64 \<Rightarrow> byte" where
  "constant_time_eq_8 a b = ucast (constant_time_eq_w a b)"

text \<open>A C \<open>int\<close> is a 32-bit word, sign-extended by the conversion to \<open>crypto_word_t\<close>.\<close>

definition constant_time_eq_int :: "u32 \<Rightarrow> u32 \<Rightarrow> u64" where
  "constant_time_eq_int a b = constant_time_eq_w (scast a) (scast b)"

definition constant_time_eq_int_8 :: "u32 \<Rightarrow> u32 \<Rightarrow> byte" where
  "constant_time_eq_int_8 a b = constant_time_eq_8 (scast a) (scast b)"

definition constant_time_select_w :: "u64 \<Rightarrow> u64 \<Rightarrow> u64 \<Rightarrow> u64" where
  "constant_time_select_w msk a b = (msk AND a) OR (NOT msk AND b)"

definition constant_time_select_8 :: "u64 \<Rightarrow> byte \<Rightarrow> byte \<Rightarrow> byte" where
  "constant_time_select_8 msk a b = (let m = ucast msk :: byte in (m AND a) OR (NOT m AND b))"

definition constant_time_select_int :: "u64 \<Rightarrow> u32 \<Rightarrow> u32 \<Rightarrow> u32" where
  "constant_time_select_int msk a b = ucast (constant_time_select_w msk (scast a) (scast b))"

definition constant_time_conditional_memcpy :: "byte list \<Rightarrow> byte list \<Rightarrow> u64 \<Rightarrow> byte list" where
  "constant_time_conditional_memcpy dst src msk =
     map (\<lambda>(o', i). constant_time_select_8 msk i o') (zip dst src)"

definition constant_time_conditional_memxor :: "byte list \<Rightarrow> byte list \<Rightarrow> u64 \<Rightarrow> byte list" where
  "constant_time_conditional_memxor dst src msk =
     map (\<lambda>(o', i). o' XOR ucast (msk AND ucast i)) (zip dst src)"

section \<open>The most significant bit\<close>

lemma bit_63_iff: "bit a 63 \<longleftrightarrow> 2 ^ 63 \<le> unat a" for a :: u64
proof -
  have "unat a < 2 ^ 64" using unat_u64_lt [of a] by simp
  then have "unat a div 2 ^ 63 < 2" by (simp add: less_mult_imp_div_less)
  then have "odd (unat a div 2 ^ 63) \<longleftrightarrow> unat a div 2 ^ 63 = 1" by (auto simp: less_2_cases_iff)
  also have "\<dots> \<longleftrightarrow> 2 ^ 63 \<le> unat a" using \<open>unat a div 2 ^ 63 < 2\<close> by (auto simp: div_eq_0_iff less_2_cases_iff not_less)
  finally show ?thesis by (simp add: bit_iff_odd_unat)
qed

lemma msb_w: "constant_time_msb_w a = (if bit a 63 then - 1 else 0)"
proof -
  have "bit a (63 + n) \<longleftrightarrow> n = 0 \<and> bit a 63" for n
    by (cases n) (auto dest: bit_imp_le_length)
  then have "drop_bit 63 a = (if bit a 63 then 1 else 0)"
    by (intro bit_word_eqI) (simp add: bit_drop_bit_eq bit_1_iff)
  then show ?thesis by (simp add: constant_time_msb_w_def)
qed

lemma lt_w: "constant_time_lt_w a b = (if a < b then - 1 else 0)"
proof -
  have d: "unat (a - b) = (if unat b \<le> unat a then unat a - unat b else unat a + 2 ^ 64 - unat b)"
    using unat_sub_if' [of a b] by simp
  have ab: "unat a < 2 ^ 64" "unat b < 2 ^ 64" using unat_u64_lt [of a] unat_u64_lt [of b] by simp_all
  have "(bit a 63 \<noteq> (bit a 63 \<noteq> bit b 63 \<or> bit (a - b) 63 \<noteq> bit a 63)) \<longleftrightarrow> unat a < unat b"
    unfolding bit_63_iff d using ab by (cases "2 ^ 63 \<le> unat a"; cases "2 ^ 63 \<le> unat b") auto
  then show ?thesis
    by (simp add: constant_time_lt_w_def msb_w bit_xor_iff bit_or_iff word_less_nat_alt)
qed

lemma is_zero_w: "constant_time_is_zero_w a = (if a = 0 then - 1 else 0)"
proof -
  have "unat (a - 1) = (if a = 0 then 2 ^ 64 - 1 else unat a - 1)"
    using unat_minus_one [of a] by (auto simp: unat_eq_zero unsigned_minus_1_eq_mask mask_eq_exp_minus_1)
  then have "\<not> bit a 63 \<and> bit (a - 1) 63 \<longleftrightarrow> a = 0"
    using unat_u64_lt [of a] unfolding bit_63_iff by auto
  then have "bit (NOT a AND (a - 1)) 63 \<longleftrightarrow> a = 0" by (simp add: bit_and_iff bit_not_iff)
  then show ?thesis by (simp add: constant_time_is_zero_w_def msb_w)
qed

lemma xor_zero_iff: "a XOR b = 0 \<longleftrightarrow> a = b" for a b :: "'a::len word"
  by (auto simp: bit_eq_iff bit_xor_iff)

lemma eq_w: "constant_time_eq_w a b = (if a = b then - 1 else 0)"
  by (simp add: constant_time_eq_w_def is_zero_w xor_zero_iff)

lemma ge_w: "constant_time_ge_w a b = (if b \<le> a then - 1 else 0)"
  by (auto simp: constant_time_ge_w_def lt_w not_less)

lemma ucast_m1 [simp]: "ucast (- 1 :: u64) = (- 1 :: byte)"
  by (rule bit_word_eqI) (simp add: bit_ucast_iff)

lemma ucast_byte_back [simp]: "ucast (ucast (m :: byte) :: u64) = m"
  by (rule bit_word_eqI) (auto simp: bit_ucast_iff)

text \<open>Selection by the masks that the comparisons return.\<close>

lemma select_8_mask:
  "constant_time_select_8 (ucast (if c then - 1 else 0 :: byte)) a b = (if c then a else b)"
  by (simp add: constant_time_select_8_def)

lemma masks_8:
  "constant_time_lt_8 x y = (if x < y then - 1 else 0)"
  "constant_time_ge_8 x y = (if y \<le> x then - 1 else 0)"
  "constant_time_is_zero_8 x = (if x = 0 then - 1 else 0)"
  "constant_time_eq_8 x y = (if x = y then - 1 else 0)"
  by (simp_all add: constant_time_lt_8_def constant_time_ge_8_def constant_time_is_zero_8_def constant_time_eq_8_def
      lt_w ge_w is_zero_w eq_w)

lemma ucast_scast: "ucast (scast k :: u64) = k" for k :: u32
  by (rule bit_word_eqI) (simp add: bit_ucast_iff bit_signed_iff)

lemma scast_inj: "scast a = (scast b :: u64) \<longleftrightarrow> a = b" for a b :: u32
  by (metis ucast_scast)

section \<open>Properties\<close>

text \<open>
  C31. The branch-free primitives compute what their names say, for all words: each comparison is
  all ones exactly when the relation holds and zero otherwise, selection by such a mask returns the
  first or the second value, and the conditional copy and exclusive-or act under an all-ones mask
  and do nothing under a zero one.
\<close>

theorem constant_time_correct:
  "constant_time_lt_w a b = (if a < b then - 1 else 0) \<and>
   constant_time_ge_w a b = (if a \<ge> b then - 1 else 0) \<and>
   constant_time_is_zero_w a = (if a = 0 then - 1 else 0) \<and>
   constant_time_eq_w a b = (if a = b then - 1 else 0) \<and>
   constant_time_eq_int i j = (if i = j then - 1 else 0) \<and>
   constant_time_lt_8 a b = (if a < b then - 1 else 0) \<and>
   constant_time_ge_8 a b = (if a \<ge> b then - 1 else 0) \<and>
   constant_time_is_zero_8 a = (if a = 0 then - 1 else 0) \<and>
   constant_time_eq_8 a b = (if a = b then - 1 else 0) \<and>
   constant_time_eq_int_8 i j = (if i = j then - 1 else 0) \<and>
   constant_time_select_w (if c then - 1 else 0) a b = (if c then a else b) \<and>
   constant_time_select_8 (if c then - 1 else 0) x y = (if c then x else y) \<and>
   constant_time_select_int (if c then - 1 else 0) i j = (if c then i else j) \<and>
   constant_time_conditional_memcpy (map fst zs) (map snd zs) (if c then - 1 else 0) =
     map (if c then snd else fst) zs \<and>
   constant_time_conditional_memxor (map fst zs) (map snd zs) (if c then - 1 else 0) =
     map (if c then \<lambda>(o', i). o' XOR i else fst) zs"
proof -
  have z: "zip (map fst zs) (map snd zs) = zs" for zs :: "(byte \<times> byte) list" by (simp add: zip_map_fst_snd)
  show ?thesis
    by (simp add: lt_w ge_w is_zero_w eq_w masks_8 constant_time_eq_int_def constant_time_eq_int_8_def scast_inj
        constant_time_select_w_def constant_time_select_8_def constant_time_select_int_def ucast_scast
        constant_time_conditional_memcpy_def constant_time_conditional_memxor_def z case_prod_unfold)
qed

end
