(* ===== verification/Base64.thy ===== *)
theory Base64
  imports Const_Time Mem
begin

text \<open>
  BoringSSL's base64 encoder and decoder (crypto/base64/base64.c), one-shot and streaming. Output
  buffers are returned as the bytes written; characters are bytes in ASCII (61 is '=', 10 is the
  newline).
\<close>

section \<open>Constant-time helpers\<close>

definition constant_time_lt_args_8 :: "byte \<Rightarrow> byte \<Rightarrow> byte" where
  "constant_time_lt_args_8 a b =
     (let aw = ucast a :: u64; bw = ucast b :: u64 in ucast (constant_time_msb_w (aw - bw)))"

definition constant_time_in_range_8 :: "byte \<Rightarrow> byte \<Rightarrow> byte \<Rightarrow> byte" where
  "constant_time_in_range_8 a mn mx = (let a' = a - mn in constant_time_lt_args_8 a' (mx - mn + 1))"

section \<open>Encoding\<close>

definition conv_bin2ascii :: "byte \<Rightarrow> byte" where
  "conv_bin2ascii a0 =
     (let a = a0 AND 0x3f;
          ret1 = constant_time_select_8 (ucast (constant_time_eq_8 (ucast a) 62)) 43 47;
          ret2 = constant_time_select_8 (ucast (constant_time_lt_args_8 a 62)) (a - 52 + 48) ret1;
          ret3 = constant_time_select_8 (ucast (constant_time_lt_args_8 a 52)) (a - 26 + 97) ret2
      in constant_time_select_8 (ucast (constant_time_lt_args_8 a 26)) (a + 65) ret3)"

definition EVP_EncodedLength :: "nat \<Rightarrow> nat option" where
  "EVP_EncodedLength len =
     (if size_add len 2 < len then None
      else
        let len1 = (len + 2) div 3 in
        if (len1 * 4 mod 2 ^ 64) div 4 \<noteq> len1 then None
        else
          let len2 = len1 * 4 in
          if size_add len2 1 < len2 then None else Some (len2 + 1))"

record EVP_ENCODE_CTX =
  data_used :: nat
  enc_data :: "byte list"
  eof_seen :: bool
  error_encountered :: bool

definition EVP_EncodeInit :: EVP_ENCODE_CTX where
  "EVP_EncodeInit = \<lparr>data_used = 0, enc_data = replicate 48 0, eof_seen = False, error_encountered = False\<rparr>"

text \<open>The four characters of a 24-bit group.\<close>

definition conv_group :: "u32 \<Rightarrow> nat \<Rightarrow> byte" where
  "conv_group l sh = conv_bin2ascii (ucast (drop_bit sh l))"

fun encode_loop :: "byte list \<Rightarrow> byte list" where
  "encode_loop [] = []"
| "encode_loop [s0] =
     (let l = push_bit 16 (ucast s0) :: u32 in [conv_group l 18, conv_group l 12, 61, 61])"
| "encode_loop [s0, s1] =
     (let l = push_bit 16 (ucast s0) OR push_bit 8 (ucast s1) :: u32
      in [conv_group l 18, conv_group l 12, conv_group l 6, 61])"
| "encode_loop (s0 # s1 # s2 # src) =
     (let l = push_bit 16 (ucast s0) OR push_bit 8 (ucast s1) OR ucast s2 :: u32
      in [conv_group l 18, conv_group l 12, conv_group l 6, conv_group l 0] @ encode_loop src)"

text \<open>What is written, with the terminating zero, and the returned length.\<close>

definition EVP_EncodeBlock :: "byte list \<Rightarrow> nat \<Rightarrow> byte list \<times> nat" where
  "EVP_EncodeBlock src src_len = (let t = encode_loop (take src_len src) in (t @ [0], length t))"

text \<open>
  The streaming encoder: the loop over full lines. The output collects the characters; the zero
  that is stored after each newline is overwritten by the next line or follows the output. \<open>None\<close>
  as count is the early return on an overflow.
\<close>

function encode_lines_loop :: "byte list \<Rightarrow> nat \<Rightarrow> byte list \<Rightarrow> byte list \<times> nat option \<times> byte list" where
  "encode_lines_loop inp tot out =
     (if length inp \<ge> 48 then
        let (t, encoded) = EVP_EncodeBlock inp 48;
            out' = out @ take encoded t @ [10]
        in if size_add tot (encoded + 1) < tot then (drop 48 inp, None, out')
           else encode_lines_loop (drop 48 inp) (tot + encoded + 1) out'
      else (inp, Some tot, out))"
  by pat_completeness auto
termination
  by (relation "measure (\<lambda>(inp, _, _). length inp)") auto

declare encode_lines_loop.simps [simp del]

text \<open>Completing the pending line with the first bytes of the input.\<close>

definition encode_pending :: "EVP_ENCODE_CTX \<Rightarrow> byte list \<Rightarrow> EVP_ENCODE_CTX \<times> byte list \<times> nat \<times> byte list" where
  "encode_pending ctx inp =
     (if data_used ctx \<noteq> 0 then
        let todo = 48 - data_used ctx;
            d = take (data_used ctx) (enc_data ctx) @ take todo inp;
            (t, encoded) = EVP_EncodeBlock d 48
        in (ctx\<lparr>enc_data := d, data_used := 0\<rparr>, drop todo inp, encoded + 1, take encoded t @ [10])
      else (ctx, inp, 0, []))"

text \<open>The results: the context, the characters written and \<open>*out_len\<close>.\<close>

definition EVP_EncodeUpdate :: "EVP_ENCODE_CTX \<Rightarrow> byte list \<Rightarrow> EVP_ENCODE_CTX \<times> byte list \<times> nat" where
  "EVP_EncodeUpdate ctx inp =
     (if length inp = 0 then (ctx, [], 0)
      else if 48 - data_used ctx > length inp then
        (ctx\<lparr>enc_data := take (data_used ctx) (enc_data ctx) @ inp @ drop (data_used ctx + length inp) (enc_data ctx),
             data_used := data_used ctx + length inp\<rparr>, [], 0)
      else
        case encode_pending ctx inp of
          (ctx1, inp1, tot, out) \<Rightarrow>
            (case encode_lines_loop inp1 tot out of
               (_, None, out') \<Rightarrow> (ctx1, out', 0)
             | (rest, Some tot', out') \<Rightarrow>
                 (ctx1\<lparr>enc_data := rest @ drop (length rest) (enc_data ctx1), data_used := length rest\<rparr>,
                  out', if tot' > 2147483647 then 0 else tot')))"

definition EVP_EncodeFinal :: "EVP_ENCODE_CTX \<Rightarrow> EVP_ENCODE_CTX \<times> byte list \<times> nat" where
  "EVP_EncodeFinal ctx =
     (if data_used ctx = 0 then (ctx, [], 0)
      else
        let (t, encoded) = EVP_EncodeBlock (enc_data ctx) (data_used ctx)
        in (ctx\<lparr>data_used := 0\<rparr>, take encoded t @ [10], encoded + 1))"

section \<open>Decoding\<close>

definition EVP_DecodedLength :: "nat \<Rightarrow> nat option" where
  "EVP_DecodedLength len = (if len mod 4 \<noteq> 0 then None else Some (len div 4 * 3))"

definition EVP_DecodeInit :: EVP_ENCODE_CTX where
  "EVP_DecodeInit = \<lparr>data_used = 0, enc_data = replicate 48 0, eof_seen = False, error_encountered = False\<rparr>"

definition base64_ascii_to_bin :: "byte \<Rightarrow> byte" where
  "base64_ascii_to_bin a =
     (let is_upper = constant_time_in_range_8 a 65 90;
          is_lower = constant_time_in_range_8 a 97 122;
          is_digit = constant_time_in_range_8 a 48 57;
          is_plus = constant_time_eq_8 (ucast a) 43;
          is_slash = constant_time_eq_8 (ucast a) 47;
          is_equals = constant_time_eq_8 (ucast a) 61;
          ret = (is_upper AND (a - 65)) OR (is_lower AND (a - 97 + 26)) OR (is_digit AND (a - 48 + 52))
                OR (is_plus AND 62) OR (is_slash AND 63);
          is_valid = is_upper OR is_lower OR is_digit OR is_plus OR is_slash OR is_equals
      in ret OR NOT is_valid)"

text \<open>The bytes of a quad, or nothing on an error.\<close>

definition base64_decode_quad :: "byte \<Rightarrow> byte \<Rightarrow> byte \<Rightarrow> byte \<Rightarrow> byte list option" where
  "base64_decode_quad in0 in1 in2 in3 =
     (let a = base64_ascii_to_bin in0;
          b = base64_ascii_to_bin in1;
          c = base64_ascii_to_bin in2;
          d = base64_ascii_to_bin in3
      in if a = 0xff \<or> b = 0xff \<or> c = 0xff \<or> d = 0xff then None
         else
           let v = push_bit 18 (ucast a) OR push_bit 12 (ucast b) OR push_bit 6 (ucast c) OR ucast d :: u32;
               padding_pattern = (if in0 = 61 then 8 else 0) + (if in1 = 61 then 4 else 0) +
                                 (if in2 = 61 then 2 else 0) + (if in3 = 61 then 1 else 0 :: nat)
           in if padding_pattern = 0 then Some [ucast (drop_bit 16 v), ucast (drop_bit 8 v), ucast v]
              else if padding_pattern = 1 then Some [ucast (drop_bit 16 v), ucast (drop_bit 8 v)]
              else if padding_pattern = 3 then Some [ucast (drop_bit 16 v)]
              else None)"

definition is_base64_space :: "byte \<Rightarrow> bool" where
  "is_base64_space c \<longleftrightarrow> c = 32 \<or> c = 9 \<or> c = 13 \<or> c = 10"

text \<open>The loop of \<open>EVP_DecodeUpdate\<close>: whether it ends without an error, the context and the output.\<close>

fun decode_update_loop :: "EVP_ENCODE_CTX \<Rightarrow> byte list \<Rightarrow> byte list \<Rightarrow> bool \<times> EVP_ENCODE_CTX \<times> byte list" where
  "decode_update_loop ctx out [] = (True, ctx, out)"
| "decode_update_loop ctx out (c # inp) =
     (if is_base64_space c then decode_update_loop ctx out inp
      else if eof_seen ctx then (False, ctx\<lparr>error_encountered := True\<rparr>, out)
      else
        let d = (enc_data ctx)[data_used ctx := c];
            ctx1 = ctx\<lparr>enc_data := d, data_used := data_used ctx + 1\<rparr>
        in if data_used ctx1 = 4 then
             (case base64_decode_quad (d ! 0) (d ! 1) (d ! 2) (d ! 3) of
                None \<Rightarrow> (False, ctx1\<lparr>error_encountered := True\<rparr>, out)
              | Some bs \<Rightarrow>
                  decode_update_loop
                    ((if length bs < 3 then ctx1\<lparr>eof_seen := True\<rparr> else ctx1)\<lparr>data_used := 0\<rparr>) (out @ bs) inp)
           else decode_update_loop ctx1 out inp)"

text \<open>The return value, \<open>*out_len\<close>, the bytes written and the context.\<close>

definition EVP_DecodeUpdate :: "EVP_ENCODE_CTX \<Rightarrow> byte list \<Rightarrow> int \<times> nat \<times> byte list \<times> EVP_ENCODE_CTX" where
  "EVP_DecodeUpdate ctx inp =
     (if error_encountered ctx then (- 1, 0, [], ctx)
      else case decode_update_loop ctx [] inp of
             (False, ctx', out) \<Rightarrow> (- 1, 0, out, ctx')
           | (True, ctx', out) \<Rightarrow>
               if length out > 2147483647 then (- 1, 0, out, ctx'\<lparr>error_encountered := True\<rparr>)
               else ((if eof_seen ctx' then 0 else 1), length out, out, ctx'))"

definition EVP_DecodeFinal :: "EVP_ENCODE_CTX \<Rightarrow> int" where
  "EVP_DecodeFinal ctx = (if error_encountered ctx \<or> data_used ctx \<noteq> 0 then - 1 else 1)"

text \<open>The loop over quads; the output so far is returned also on failure.\<close>

fun decode_quads :: "byte list \<Rightarrow> byte list \<Rightarrow> bool \<times> byte list" where
  "decode_quads out (a # b # c # d # inp) =
     (case base64_decode_quad a b c d of
        None \<Rightarrow> (False, out)
      | Some bs \<Rightarrow>
          if length bs \<noteq> 3 \<and> inp \<noteq> [] then (False, out @ bs) else decode_quads (out @ bs) inp)"
| "decode_quads out _ = (True, out)"

text \<open>The result, the number of bytes (\<open>*out_len\<close>) and what was written to \<open>out\<close>.\<close>

definition EVP_DecodeBase64 :: "nat \<Rightarrow> byte list \<Rightarrow> bool \<times> nat \<times> byte list" where
  "EVP_DecodeBase64 max_out inp =
     (if length inp mod 4 \<noteq> 0 then (False, 0, [])
      else case EVP_DecodedLength (length inp) of
             None \<Rightarrow> (False, 0, [])
           | Some max_len \<Rightarrow>
               if max_out < max_len then (False, 0, [])
               else case decode_quads [] inp of
                      (False, out) \<Rightarrow> (False, 0, out)
                    | (True, out) \<Rightarrow> (True, length out, out))"

definition trim_base64 :: "byte list \<Rightarrow> byte list" where
  "trim_base64 src =
     rev (dropWhile is_base64_space (rev (dropWhile (\<lambda>c. c = 32 \<or> c = 9) src)))"

text \<open>The returned length, and the output padded with zeros to a multiple of three.\<close>

definition EVP_DecodeBlock :: "byte list \<Rightarrow> (int \<times> byte list)" where
  "EVP_DecodeBlock src0 =
     (let src = trim_base64 src0 in
      case EVP_DecodedLength (length src) of
        None \<Rightarrow> (- 1, [])
      | Some dst_len \<Rightarrow>
          if dst_len > 2147483647 then (- 1, [])
          else case EVP_DecodeBase64 dst_len src of
                 (False, _, dst) \<Rightarrow> (- 1, dst)
               | (True, n, dst) \<Rightarrow>
                   let padded = dst @ replicate ((3 - n mod 3) mod 3) 0
                   in (int (length padded), padded))"

end
