(* ===== verification/Base64_Props.thy ===== *)
theory Base64_Props
  imports Base64
begin

text \<open>
  Base64 round trips and bounds: the constant-time character conversions are inverse to each
  other, the one-shot decoder inverts the encoder, and the streaming functions agree with the
  one-shot ones however their input is cut.
\<close>

section \<open>Characters\<close>

lemma unat_byte_diff: "unat (a - b) = (if unat b \<le> unat a then unat a - unat b else unat a + 256 - unat b)" for a b :: byte
  using unat_sub_if' [of a b] by simp

lemma lt_args_8: "constant_time_lt_args_8 a b = (if a < b then - 1 else 0)"
proof -
  let ?a = "ucast a :: u64" and ?b = "ucast b :: u64"
  have d: "unat (?a - ?b) = (if unat b \<le> unat a then unat a - unat b else unat a + 2 ^ 64 - unat b)"
    using unat_sub_if' [of ?a ?b] by simp
  define p q where "p = unat a" and "q = unat b"
  have pq: "p < 256" "q < 256" by (simp_all add: p_def q_def)
  have "bit (?a - ?b) 63 \<longleftrightarrow> a < b"
    unfolding bit_63_iff d word_less_nat_alt p_def [symmetric] q_def [symmetric] using pq by auto
  then show ?thesis by (simp add: constant_time_lt_args_8_def msb_w)
qed

lemma in_range_8:
  assumes "unat mn \<le> unat mx" "unat mx - unat mn < 255"
  shows "constant_time_in_range_8 a mn mx = (if unat mn \<le> unat a \<and> unat a \<le> unat mx then - 1 else 0)"
proof -
  have "unat (mx - mn + 1) = unat mx - unat mn + 1"
    using assms unat_byte_diff [of mx mn] by (simp add: unat_word_ariths)
  moreover define p where "p = unat mx"
  moreover have "p < 256" by (simp add: p_def)
  ultimately have "a - mn < mx - mn + 1 \<longleftrightarrow> unat mn \<le> unat a \<and> unat a \<le> unat mx"
    using assms unat_byte_diff [of a mn] unfolding word_less_nat_alt p_def [symmetric] by auto
  then show ?thesis by (simp add: constant_time_in_range_8_def Let_def lt_args_8)
qed

lemma ascii_to_bin:
  "base64_ascii_to_bin a =
     (if 65 \<le> unat a \<and> unat a \<le> 90 then a - 65
      else if 97 \<le> unat a \<and> unat a \<le> 122 then a - 97 + 26
      else if 48 \<le> unat a \<and> unat a \<le> 57 then a - 48 + 52
      else if unat a = 43 then 62 else if unat a = 47 then 63 else if unat a = 61 then 0 else - 1)"
proof -
  have eq: "constant_time_eq_8 (ucast a) k = (if unat a = unat k then - 1 else 0)" for k :: u64
    using unat_ucast_byte(1) [of a] by (auto simp: masks_8 word_unat_eq_iff)
  have rs: "constant_time_in_range_8 a 65 90 = (if 65 \<le> unat a \<and> unat a \<le> 90 then - 1 else 0)"
    "constant_time_in_range_8 a 97 122 = (if 97 \<le> unat a \<and> unat a \<le> 122 then - 1 else 0)"
    "constant_time_in_range_8 a 48 57 = (if 48 \<le> unat a \<and> unat a \<le> 57 then - 1 else 0)"
    by (simp_all add: in_range_8)
  consider "65 \<le> unat a \<and> unat a \<le> 90" | "97 \<le> unat a \<and> unat a \<le> 122" | "48 \<le> unat a \<and> unat a \<le> 57"
    | "unat a = 43" | "unat a = 47" | "unat a = 61"
    | "\<not> (65 \<le> unat a \<and> unat a \<le> 90)" "\<not> (97 \<le> unat a \<and> unat a \<le> 122)" "\<not> (48 \<le> unat a \<and> unat a \<le> 57)"
      "unat a \<noteq> 43" "unat a \<noteq> 47" "unat a \<noteq> 61" by blast
  then show ?thesis
    unfolding base64_ascii_to_bin_def Let_def rs eq by cases auto
qed

lemma bin2ascii:
  "conv_bin2ascii x =
     (let a = x AND 0x3f in
      if unat a < 26 then a + 65 else if unat a < 52 then a - 26 + 97
      else if unat a < 62 then a - 52 + 48 else if unat a = 62 then 43 else 47)"
proof -
  have eq: "ucast a = (62 :: u64) \<longleftrightarrow> unat a = 62" for a :: byte
    using unat_ucast_byte(1) [of a] by (auto simp: word_unat_eq_iff)
  show ?thesis
    by (simp add: conv_bin2ascii_def Let_def lt_args_8 masks_8 eq select_8_mask word_less_nat_alt)
qed

lemma unat_and_3f: "unat (x AND 0x3f :: byte) = unat x mod 64"
  using unat_and_mask [of x 6] by (simp add: mask_eq_exp_minus_1)

lemma bin_ascii_bin: "base64_ascii_to_bin (conv_bin2ascii x) = x AND 0x3f"
proof -
  define a where "a = x AND 0x3f"
  have a: "unat a < 64" unfolding a_def unat_and_3f by simp
  consider "unat a < 26" | "26 \<le> unat a \<and> unat a < 52" | "52 \<le> unat a \<and> unat a < 62" | "unat a = 62" | "unat a = 63"
    using a by linarith
  then show ?thesis
  proof cases
    case 1
    then have u: "unat (a + 65) = unat a + 65" by (simp add: unat_word_ariths)
    show ?thesis using 1 u unfolding bin2ascii a_def [symmetric] Let_def by (simp add: ascii_to_bin)
  next
    case 2
    then have u: "unat (a - 26 + 97) = unat a + 71" using unat_byte_diff [of a 26] by (simp add: unat_word_ariths)
    show ?thesis using 2 u unfolding bin2ascii a_def [symmetric] Let_def by (simp add: ascii_to_bin)
  next
    case 3
    define k where "k = unat a - 52"
    have k: "unat a = k + 52" "k < 10" using 3 unfolding k_def by linarith+
    then have u: "unat (a - 4) = k + 48" using unat_byte_diff [of a 4] by simp
    show ?thesis using k u unfolding bin2ascii a_def [symmetric] Let_def by (simp add: ascii_to_bin)
  next
    case 4
    then show ?thesis unfolding bin2ascii a_def [symmetric] Let_def by (simp add: ascii_to_bin word_unat_eq_iff)
  next
    case 5
    then show ?thesis unfolding bin2ascii a_def [symmetric] Let_def by (simp add: ascii_to_bin word_unat_eq_iff)
  qed
qed

section \<open>Groups\<close>

lemma conv_not_padding: "conv_bin2ascii x \<noteq> 61"
proof
  assume "conv_bin2ascii x = 61"
  then have "x AND 0x3f = 0" using bin_ascii_bin [of x] by (simp add: ascii_to_bin)
  then have "conv_bin2ascii x = 65" by (simp add: bin2ascii Let_def)
  with \<open>conv_bin2ascii x = 61\<close> show False by simp
qed

lemma and_3f: "x AND 0x3f = take_bit 6 x" for x :: byte
  by (simp add: take_bit_eq_mask mask_eq_exp_minus_1)

lemma not_ff: "x AND 0x3f \<noteq> 0xff" for x :: byte
  using unat_and_3f [of x] by (auto simp: word_unat_eq_iff)

lemma byte_at:
  fixes v l :: u32
  assumes "\<And>k. sh \<le> k \<Longrightarrow> k < sh + 8 \<Longrightarrow> bit v k \<longleftrightarrow> bit l k"
  shows "ucast (drop_bit sh v) = (ucast (drop_bit sh l) :: byte)"
  by (rule bit_word_eqI) (simp add: bit_ucast_iff bit_drop_bit_eq assms)

lemma bit_digit:
  "bit (push_bit s (ucast (ucast (drop_bit s l) AND 0x3f :: byte)) :: u32) k \<longleftrightarrow> s \<le> k \<and> k < s + 6 \<and> bit l k" for l :: u32
  unfolding and_3f
  by (auto simp: bit_push_bit_iff bit_ucast_iff bit_take_bit_iff bit_drop_bit_eq dest: bit_imp_le_length)

lemma group_bits:
  fixes l :: u32
  defines "d \<equiv> \<lambda>sh. ucast (ucast (drop_bit sh l) AND 0x3f :: byte) :: u32"
  shows "k < 24 \<Longrightarrow> bit (push_bit 18 (d 18) OR push_bit 12 (d 12) OR push_bit 6 (d 6) OR d 0) k \<longleftrightarrow> bit l k"
    and "6 \<le> k \<Longrightarrow> k < 24 \<Longrightarrow> bit (push_bit 18 (d 18) OR push_bit 12 (d 12) OR push_bit 6 (d 6)) k \<longleftrightarrow> bit l k"
    and "12 \<le> k \<Longrightarrow> k < 24 \<Longrightarrow> bit (push_bit 18 (d 18) OR push_bit 12 (d 12)) k \<longleftrightarrow> bit l k"
  using bit_digit [of 18 l k] bit_digit [of 12 l k] bit_digit [of 6 l k] bit_digit [of 0 l k]
  unfolding d_def bit_or_iff by auto

lemma ascii_padding: "base64_ascii_to_bin 61 = 0"
  by (simp add: ascii_to_bin)

lemma decode_full:
  "base64_decode_quad (conv_group l 18) (conv_group l 12) (conv_group l 6) (conv_group l 0) =
     Some [ucast (drop_bit 16 l), ucast (drop_bit 8 l), ucast (drop_bit 0 l)]"
  unfolding base64_decode_quad_def conv_group_def bin_ascii_bin Let_def
  using byte_at [of 16 _ l, OF group_bits(1)] byte_at [of 8 _ l, OF group_bits(1)] byte_at [of 0 _ l, OF group_bits(1)]
  by (simp add: conv_not_padding not_ff)

lemma decode_two:
  "base64_decode_quad (conv_group l 18) (conv_group l 12) (conv_group l 6) 61 =
     Some [ucast (drop_bit 16 l), ucast (drop_bit 8 l)]"
  unfolding base64_decode_quad_def conv_group_def bin_ascii_bin ascii_padding Let_def
  using byte_at [of 16 _ l, OF group_bits(2)] byte_at [of 8 _ l, OF group_bits(2)]
  by (simp add: conv_not_padding not_ff)

lemma decode_one:
  "base64_decode_quad (conv_group l 18) (conv_group l 12) 61 61 = Some [ucast (drop_bit 16 l)]"
  unfolding base64_decode_quad_def conv_group_def bin_ascii_bin ascii_padding Let_def
  using byte_at [of 16 _ l, OF group_bits(3)]
  by (simp add: conv_not_padding not_ff)

lemma group_bytes:
  "ucast (drop_bit 16 (push_bit 16 (ucast s0) OR push_bit 8 (ucast s1) OR ucast s2 :: u32)) = s0"
  "ucast (drop_bit 8 (push_bit 16 (ucast s0) OR push_bit 8 (ucast s1) OR ucast s2 :: u32)) = s1"
  "ucast (drop_bit 0 (push_bit 16 (ucast s0) OR push_bit 8 (ucast s1) OR ucast s2 :: u32)) = s2"
  for s0 s1 s2 :: byte
  by (rule bit_word_eqI; auto simp: bit_or_iff bit_push_bit_iff bit_ucast_iff bit_drop_bit_eq dest: bit_imp_le_length)+

lemma group_bytes_two:
  "ucast (drop_bit 16 (push_bit 16 (ucast s0) OR push_bit 8 (ucast s1) :: u32)) = s0"
  "ucast (drop_bit 8 (push_bit 16 (ucast s0) OR push_bit 8 (ucast s1) :: u32)) = s1" for s0 s1 :: byte
  using group_bytes [of s0 s1 0] by simp_all

lemma group_bytes_one: "ucast (drop_bit 16 (push_bit 16 (ucast s0) :: u32)) = s0" for s0 :: byte
  using group_bytes_two(1) [of s0 0] by simp

lemma decode_group:
  "base64_decode_quad (conv_group l 18) (conv_group l 12) (conv_group l 6) (conv_group l 0) = Some [s0, s1, s2]"
  if "l = push_bit 16 (ucast s0) OR push_bit 8 (ucast s1) OR ucast s2"
  unfolding decode_full that group_bytes ..

lemma decode_group_two:
  "base64_decode_quad (conv_group l 18) (conv_group l 12) (conv_group l 6) 61 = Some [s0, s1]"
  if "l = push_bit 16 (ucast s0) OR push_bit 8 (ucast s1)"
  unfolding decode_two that group_bytes_two ..

lemma decode_group_one:
  "base64_decode_quad (conv_group l 18) (conv_group l 12) 61 61 = Some [s0]" if "l = push_bit 16 (ucast s0)"
  unfolding decode_one that group_bytes_one ..

section \<open>One-shot decoding\<close>

lemma encode_decode: "decode_quads out (encode_loop xs) = (True, out @ xs)"
  by (induction xs arbitrary: out rule: encode_loop.induct)
    (simp_all add: Let_def decode_group decode_group_two decode_group_one)

lemma length_encode: "length (encode_loop xs) = (length xs + 2) div 3 * 4"
proof (induction xs rule: encode_loop.induct)
  case (4 s0 s1 s2 src)
  then show ?case by (simp add: Let_def) presburger
qed (simp_all add: Let_def)

lemma decode_quads_bound:
  "decode_quads out inp = (r, out') \<Longrightarrow> length out' \<le> length out + length inp div 4 * 3"
proof (induction out inp rule: decode_quads.induct)
  case (1 out a b c d inp)
  show ?case
  proof (cases "base64_decode_quad a b c d")
    case (Some bs)
    then have "length bs \<le> 3" by (auto simp: base64_decode_quad_def Let_def split: if_splits)
    then show ?thesis
      using Some "1.prems" "1.IH" [OF Some] by (cases "length bs \<noteq> 3 \<and> inp \<noteq> []") (auto simp: div_add_self1)
  qed (use "1.prems" in auto)
qed auto

section \<open>Lines\<close>

text \<open>The reference encoding of a stream: lines of 48 bytes, each followed by a newline.\<close>

function pem_lines :: "byte list \<Rightarrow> byte list" where
  "pem_lines xs = (if length xs \<ge> 48 then encode_loop (take 48 xs) @ [10] @ pem_lines (drop 48 xs) else [])"
  by pat_completeness auto
termination
  by (relation "measure length") auto

declare pem_lines.simps [simp del]

definition pem_rest :: "byte list \<Rightarrow> byte list" where
  "pem_rest xs = drop (length xs div 48 * 48) xs"

definition pem_encode :: "byte list \<Rightarrow> byte list" where
  "pem_encode xs = pem_lines xs @ (if pem_rest xs = [] then [] else encode_loop (pem_rest xs) @ [10])"

lemma pem_rest_short: "length xs < 48 \<Longrightarrow> pem_rest xs = xs"
  by (simp add: pem_rest_def)

lemma pem_rest_drop: "48 \<le> length xs \<Longrightarrow> pem_rest (drop 48 xs) = pem_rest xs"
proof -
  assume "48 \<le> length xs"
  then have "length xs div 48 * 48 = (length xs - 48) div 48 * 48 + 48" by (simp add: le_div_geq)
  then show ?thesis by (simp add: pem_rest_def add.commute)
qed

lemma length_pem_rest: "length (pem_rest xs) < 48"
  by (simp add: pem_rest_def minus_div_mult_eq_mod [symmetric])

lemma length_pem_lines: "length (pem_lines xs) = length xs div 48 * 65"
proof (induction xs rule: pem_lines.induct)
  case (1 xs)
  then show ?case by (simp add: pem_lines.simps [of xs] length_encode le_div_geq)
qed

lemma pem_append: "pem_lines (xs @ ys) = pem_lines xs @ pem_lines (pem_rest xs @ ys)"
  "pem_rest (xs @ ys) = pem_rest (pem_rest xs @ ys)"
proof (induction xs rule: pem_lines.induct)
  case (1 xs)
  {
    case 1
    show ?case
      using "1.IH" by (cases "48 \<le> length xs")
        (simp_all add: pem_lines.simps [of "xs @ ys"] pem_lines.simps [of xs] pem_rest_drop pem_rest_short)
  next
    case 2
    show ?case
      using "1.IH" pem_rest_drop [of "xs @ ys"] by (cases "48 \<le> length xs") (simp_all add: pem_rest_drop pem_rest_short)
  }
qed

section \<open>The streaming encoder\<close>

definition enc_ok :: "EVP_ENCODE_CTX \<Rightarrow> byte list \<Rightarrow> bool" where
  "enc_ok ctx p \<longleftrightarrow> data_used ctx = length p \<and> length p < 48 \<and> length (enc_data ctx) = 48 \<and>
     take (length p) (enc_data ctx) = p"

lemma encode_block: "n = length xs \<Longrightarrow> EVP_EncodeBlock (xs @ ys) n = (encode_loop xs @ [0], length (encode_loop xs))"
  by (simp add: EVP_EncodeBlock_def Let_def)

lemma encode_lines_loop_eq:
  "tot + length (pem_lines inp) < 2 ^ 64 \<Longrightarrow>
     encode_lines_loop inp tot out = (pem_rest inp, Some (tot + length (pem_lines inp)), out @ pem_lines inp)"
proof (induction inp tot out rule: encode_lines_loop.induct)
  case (1 inp tot out)
  show ?case
  proof (cases "48 \<le> length inp")
    case True
    let ?t = "encode_loop (take 48 inp)"
    have b: "EVP_EncodeBlock inp 48 = (?t @ [0], length ?t)" by (simp add: EVP_EncodeBlock_def Let_def)
    have l: "length (pem_lines inp) = length ?t + 1 + length (pem_lines (drop 48 inp))"
      using True by (simp add: pem_lines.simps [of inp])
    then have nowrap: "\<not> size_add tot (length ?t + 1) < tot" using "1.prems" by (simp add: size_add_def)
    have "encode_lines_loop (drop 48 inp) (tot + length ?t + 1) (out @ ?t @ [10]) =
        (pem_rest (drop 48 inp), Some (tot + length ?t + 1 + length (pem_lines (drop 48 inp))),
         (out @ ?t @ [10]) @ pem_lines (drop 48 inp))"
      using "1.IH" [OF True b [symmetric] refl _ nowrap] "1.prems" l by simp
    then show ?thesis
      using True b nowrap l
      by (simp add: encode_lines_loop.simps [of inp tot out] pem_rest_drop pem_lines.simps [of inp])
  next
    case False
    then show ?thesis
      by (simp add: encode_lines_loop.simps [of inp tot out] pem_lines.simps [of inp] pem_rest_short)
  qed
qed

lemma pem_lines_one: "length d = 48 \<Longrightarrow> pem_lines d = encode_loop d @ [10]"
  by (simp add: pem_lines.simps [of d] pem_lines.simps [of "[]"])

lemma pem_rest_one: "length d = 48 \<Longrightarrow> pem_rest d = []"
  by (simp add: pem_rest_def)

lemma encode_pending_eq:
  assumes ok: "enc_ok ctx p" and len: "48 \<le> length p + length inp"
  shows "\<exists>ctx1 inp1 out. encode_pending ctx inp = (ctx1, inp1, length out, out) \<and> length (enc_data ctx1) = 48 \<and>
    pem_lines (p @ inp) = out @ pem_lines inp1 \<and> pem_rest (p @ inp) = pem_rest inp1"
proof (cases "p = []")
  case True
  then show ?thesis using ok by (simp add: encode_pending_def enc_ok_def)
next
  case False
  define k where "k = 48 - length p"
  define d where "d = p @ take k inp"
  have d: "length d = 48" using len ok by (simp add: d_def k_def enc_ok_def)
  have split: "p @ inp = d @ drop k inp" by (simp add: d_def)
  have "encode_pending ctx inp = (ctx\<lparr>enc_data := d, data_used := 0\<rparr>, drop k inp, length (encode_loop d @ [10]), encode_loop d @ [10])"
    using False ok d encode_block [of 48 d "[]"] by (simp add: encode_pending_def enc_ok_def d_def k_def Let_def)
  moreover have "pem_lines (p @ inp) = (encode_loop d @ [10]) @ pem_lines (drop k inp)" "pem_rest (p @ inp) = pem_rest (drop k inp)"
    unfolding split pem_append [of d] by (simp_all add: pem_lines_one pem_rest_one d)
  ultimately show ?thesis using d by auto
qed

lemma encode_update_eq:
  assumes ok: "enc_ok ctx p" and len: "length inp \<le> 2 ^ 30"
  shows "\<exists>ctx'. EVP_EncodeUpdate ctx inp = (ctx', pem_lines (p @ inp), length (pem_lines (p @ inp))) \<and>
    enc_ok ctx' (pem_rest (p @ inp))"
proof -
  have p: "data_used ctx = length p" "length p < 48" "length (enc_data ctx) = 48" "take (length p) (enc_data ctx) = p"
    using ok by (simp_all add: enc_ok_def)
  have "(length p + length inp) div 48 \<le> (48 + 2 ^ 30) div 48" using p(2) len by (intro div_le_mono) linarith
  then have bound: "length (pem_lines (p @ inp)) < 2147483647" by (simp add: length_pem_lines)
  consider "inp = []" | "inp \<noteq> []" "length p + length inp < 48" | "inp \<noteq> []" "48 \<le> length p + length inp"
    by (cases "inp = []"; cases "length p + length inp < 48") auto
  then show ?thesis
  proof cases
    case 1
    then show ?thesis using ok p by (simp add: EVP_EncodeUpdate_def pem_lines.simps [of p] pem_rest_short)
  next
    case 2
    then show ?thesis
      using p by (auto simp: EVP_EncodeUpdate_def pem_lines.simps [of "p @ inp"] pem_rest_short enc_ok_def)
  next
    case 3
    obtain ctx1 inp1 out where e: "encode_pending ctx inp = (ctx1, inp1, length out, out)" "length (enc_data ctx1) = 48"
      "pem_lines (p @ inp) = out @ pem_lines inp1" "pem_rest (p @ inp) = pem_rest inp1"
      using encode_pending_eq [OF ok 3(2)] by blast
    have l: "encode_lines_loop inp1 (length out) out =
        (pem_rest inp1, Some (length out + length (pem_lines inp1)), out @ pem_lines inp1)"
      using bound e(3) by (intro encode_lines_loop_eq) simp
    have g: "\<not> length inp = 0" "\<not> length inp < 48 - length p" using 3 by auto
    show ?thesis
      using g p(1) e bound length_pem_rest [of inp1] unfolding EVP_EncodeUpdate_def p(1) e(1)
      by (simp add: l enc_ok_def)
  qed
qed

lemma encode_final_eq:
  assumes "enc_ok ctx p"
  shows "\<exists>ctx' out. EVP_EncodeFinal ctx = (ctx', out, length out) \<and> out = (if p = [] then [] else encode_loop p @ [10])"
  using assms encode_block [of "length p" p "drop (length p) (enc_data ctx)"] append_take_drop_id [of "length p" "enc_data ctx"]
  by (auto simp: EVP_EncodeFinal_def enc_ok_def)

text \<open>
  A client of the streaming encoder: it feeds the chunks, keeps the first \<open>*out_len\<close> characters of
  each output, and finishes.
\<close>

fun encode_chunks :: "EVP_ENCODE_CTX \<Rightarrow> byte list list \<Rightarrow> byte list" where
  "encode_chunks ctx [] = (case EVP_EncodeFinal ctx of (_, out, n) \<Rightarrow> take n out)"
| "encode_chunks ctx (c # cs) = (case EVP_EncodeUpdate ctx c of (ctx', out, n) \<Rightarrow> take n out @ encode_chunks ctx' cs)"

lemma encode_chunks_eq:
  "enc_ok ctx p \<Longrightarrow> \<forall>c\<in>set cs. length c \<le> 2 ^ 30 \<Longrightarrow> encode_chunks ctx cs = pem_encode (p @ concat cs)"
proof (induction cs arbitrary: ctx p)
  case Nil
  then show ?case
    using encode_final_eq [OF Nil.prems(1)]
    by (auto simp: pem_encode_def pem_lines.simps [of p] pem_rest_short enc_ok_def)
next
  case (Cons c cs)
  obtain ctx' where u: "EVP_EncodeUpdate ctx c = (ctx', pem_lines (p @ c), length (pem_lines (p @ c)))"
    and ok: "enc_ok ctx' (pem_rest (p @ c))"
    using encode_update_eq [OF Cons.prems(1), of c] Cons.prems(2) by auto
  have "encode_chunks ctx' cs = pem_encode (pem_rest (p @ c) @ concat cs)"
    using Cons.IH [OF ok] Cons.prems(2) by simp
  then show ?case
    using u pem_append [of "p @ c" "concat cs"] by (simp add: pem_encode_def)
qed

lemma enc_ok_init: "enc_ok EVP_EncodeInit []"
  by (simp add: enc_ok_def EVP_EncodeInit_def)

section \<open>The streaming decoder\<close>

lemma decode_loop_out:
  "decode_update_loop ctx (out @ o') inp = (case decode_update_loop ctx o' inp of (r, ctx', o'') \<Rightarrow> (r, ctx', out @ o''))"
proof (induction inp arbitrary: ctx o')
  case (Cons c inp)
  show ?case
    using Cons.IH [of _ o'] Cons.IH [of _ "o' @ _"]
    by (auto simp: Let_def split: option.splits prod.splits)
qed simp

lemma decode_loop_append:
  "decode_update_loop ctx out (a @ b) =
     (case decode_update_loop ctx out a of
        (False, ctx', out') \<Rightarrow> (False, ctx', out')
      | (True, ctx', out') \<Rightarrow> decode_update_loop ctx' out' b)"
  by (induction a arbitrary: ctx out) (auto simp: Let_def split: option.splits)

text \<open>A context between quads, before the end of the data.\<close>

definition dec_ready :: "EVP_ENCODE_CTX \<Rightarrow> bool" where
  "dec_ready ctx \<longleftrightarrow> data_used ctx = 0 \<and> \<not> eof_seen ctx \<and> length (enc_data ctx) = 48 \<and> \<not> error_encountered ctx"

lemma conv_not_space: "\<not> is_base64_space (conv_group l sh)"
proof
  assume "is_base64_space (conv_group l sh)"
  then have "base64_ascii_to_bin (conv_group l sh) = - 1" by (auto simp: is_base64_space_def ascii_to_bin)
  moreover have "(- 1 :: byte) = 0xff" by simp
  ultimately show False unfolding conv_group_def bin_ascii_bin using not_ff by metis
qed

lemma decode_loop_quad:
  assumes ready: "dec_ready ctx" and sp: "\<not> is_base64_space a" "\<not> is_base64_space b" "\<not> is_base64_space c" "\<not> is_base64_space d"
    and q: "base64_decode_quad a b c d = Some bs"
  shows "\<exists>ctx'. decode_update_loop ctx out (a # b # c # d # inp) = decode_update_loop ctx' (out @ bs) inp \<and>
    data_used ctx' = 0 \<and> eof_seen ctx' = (length bs < 3) \<and> length (enc_data ctx') = 48 \<and> \<not> error_encountered ctx'"
proof -
  define e where "e = (enc_data ctx)[0 := a, 1 := b, 2 := c, 3 := d]"
  have len: "length (enc_data ctx) = 48" using ready by (simp add: dec_ready_def)
  have e: "length e = 48" "e ! 0 = a" "e ! Suc 0 = b" "e ! 2 = c" "e ! 3 = d" using len by (simp_all add: e_def)
  show ?thesis
    using ready sp q e
    by (intro exI [of _ "(if length bs < 3 then ctx\<lparr>enc_data := e, eof_seen := True\<rparr> else ctx\<lparr>enc_data := e\<rparr>)\<lparr>data_used := 0\<rparr>"])
      (auto simp: dec_ready_def Let_def e_def numeral_2_eq_2 numeral_3_eq_3)
qed

lemma decode_encoded:
  "dec_ready ctx \<Longrightarrow> \<exists>ctx'. decode_update_loop ctx out (encode_loop xs @ inp) = decode_update_loop ctx' (out @ xs) inp \<and>
    data_used ctx' = 0 \<and> eof_seen ctx' = (length xs mod 3 \<noteq> 0) \<and> length (enc_data ctx') = 48 \<and> \<not> error_encountered ctx'"
proof (induction xs arbitrary: ctx out rule: encode_loop.induct)
  case 1
  then show ?case by (auto simp: dec_ready_def)
next
  case (2 s0)
  have sp: "\<not> is_base64_space 61" by (simp add: is_base64_space_def)
  show ?case
    using decode_loop_quad [OF 2 conv_not_space conv_not_space sp sp decode_group_one [OF refl, of s0], of out inp]
    by (simp add: Let_def)
next
  case (3 s0 s1)
  have sp: "\<not> is_base64_space 61" by (simp add: is_base64_space_def)
  show ?case
    using decode_loop_quad [OF 3 conv_not_space conv_not_space conv_not_space sp decode_group_two [OF refl, of s0 s1], of out inp]
    by (simp add: Let_def)
next
  case (4 s0 s1 s2 src)
  let ?l = "push_bit 16 (ucast s0) OR push_bit 8 (ucast s1) OR ucast s2 :: u32"
  obtain ctx1 where c1: "decode_update_loop ctx out (encode_loop (s0 # s1 # s2 # src) @ inp) =
      decode_update_loop ctx1 (out @ [s0, s1, s2]) (encode_loop src @ inp)" and "dec_ready ctx1"
    using decode_loop_quad [OF "4.prems" conv_not_space conv_not_space conv_not_space conv_not_space
        decode_group [OF refl, of s0 s1 s2], of out "encode_loop src @ inp"]
    by (auto simp: Let_def dec_ready_def)
  from "4.IH" [OF refl this(2), of "out @ [s0, s1, s2]"]
  obtain ctx2 where "decode_update_loop ctx1 (out @ [s0, s1, s2]) (encode_loop src @ inp) =
      decode_update_loop ctx2 ((out @ [s0, s1, s2]) @ src) inp" "data_used ctx2 = 0"
    "eof_seen ctx2 = (length src mod 3 \<noteq> 0)" "length (enc_data ctx2) = 48" "\<not> error_encountered ctx2" by blast
  moreover have "length (s0 # s1 # s2 # src) mod 3 = length src mod 3" by simp
  ultimately show ?case unfolding c1 by (intro exI [of _ ctx2]) simp
qed

lemma decode_newline: "decode_update_loop ctx out (10 # inp) = decode_update_loop ctx out inp"
  by (simp add: is_base64_space_def)

lemma decode_pem_lines:
  "dec_ready ctx \<Longrightarrow> \<exists>ctx'. decode_update_loop ctx out (pem_lines xs @ inp) =
     decode_update_loop ctx' (out @ take (length xs div 48 * 48) xs) inp \<and> dec_ready ctx'"
proof (induction xs arbitrary: ctx out rule: pem_lines.induct)
  case (1 xs)
  show ?case
  proof (cases "48 \<le> length xs")
    case False
    then show ?thesis using "1.prems" by (auto simp: pem_lines.simps [of xs])
  next
    case True
    let ?ys = "drop 48 xs"
    obtain ctx1 where c1: "decode_update_loop ctx out (encode_loop (take 48 xs) @ 10 # pem_lines ?ys @ inp) =
        decode_update_loop ctx1 (out @ take 48 xs) (pem_lines ?ys @ inp)" and r: "dec_ready ctx1"
      using decode_encoded [OF "1.prems", of out "take 48 xs" "10 # pem_lines ?ys @ inp"] True
      by (auto simp: dec_ready_def decode_newline simp del: decode_update_loop.simps)
    obtain ctx2 where "decode_update_loop ctx1 (out @ take 48 xs) (pem_lines ?ys @ inp) =
        decode_update_loop ctx2 ((out @ take 48 xs) @ take (length ?ys div 48 * 48) ?ys) inp" "dec_ready ctx2"
      using "1.IH" [OF True r] by blast
    moreover have "take (length xs div 48 * 48) xs = take 48 xs @ take (length ?ys div 48 * 48) ?ys"
      using True by (simp add: le_div_geq flip: take_add)
    ultimately show ?thesis using True c1 by (auto simp: pem_lines.simps [of xs] simp del: decode_update_loop.simps)
  qed
qed

lemma decode_pem:
  assumes "dec_ready ctx"
  shows "\<exists>ctx'. decode_update_loop ctx [] (pem_encode xs) = (True, ctx', xs) \<and> EVP_DecodeFinal ctx' = 1"
proof -
  let ?n = "length xs div 48 * 48"
  define tl where "tl = (if pem_rest xs = [] then [] else encode_loop (pem_rest xs) @ [10])"
  obtain ctx1 where c1: "decode_update_loop ctx [] (pem_lines xs @ tl) = decode_update_loop ctx1 (take ?n xs) tl" "dec_ready ctx1"
    using decode_pem_lines [OF assms, of "[]" xs tl] by auto
  have xs: "take ?n xs @ pem_rest xs = xs" by (simp add: pem_rest_def)
  have "\<exists>ctx'. decode_update_loop ctx1 (take ?n xs) tl = (True, ctx', xs) \<and> EVP_DecodeFinal ctx' = 1"
  proof (cases "pem_rest xs = []")
    case True
    then show ?thesis using c1(2) xs by (simp add: tl_def dec_ready_def EVP_DecodeFinal_def)
  next
    case False
    then show ?thesis
      using decode_encoded [OF c1(2), of "take ?n xs" "pem_rest xs" "[10]"] xs
      by (auto simp: tl_def EVP_DecodeFinal_def decode_newline is_base64_space_def)
  qed
  then show ?thesis using c1(1) by (simp add: pem_encode_def tl_def)
qed

text \<open>A client of the streaming decoder, on chunks of any size.\<close>

fun decode_chunks :: "EVP_ENCODE_CTX \<Rightarrow> byte list list \<Rightarrow> byte list option" where
  "decode_chunks ctx [] = (if EVP_DecodeFinal ctx = 1 then Some [] else None)"
| "decode_chunks ctx (c # cs) =
     (case EVP_DecodeUpdate ctx c of
        (r, n, out, ctx') \<Rightarrow> if r = - 1 then None else map_option (\<lambda>rest. take n out @ rest) (decode_chunks ctx' cs))"

lemma decode_loop_ok: "decode_update_loop ctx out inp = (True, ctx', out') \<Longrightarrow> error_encountered ctx' = error_encountered ctx"
  by (induction inp arbitrary: ctx out) (auto simp: Let_def split: if_splits option.splits)

lemma decode_loop_bound:
  "decode_update_loop ctx out inp = (r, ctx', out') \<Longrightarrow> length out' \<le> length out + 3 * length inp"
proof (induction inp arbitrary: ctx out)
  case (Cons c inp)
  have "length bs \<le> 3" if "base64_decode_quad w x y z = Some bs" for w x y z bs
    using that by (auto simp: base64_decode_quad_def Let_def split: if_splits)
  then show ?case
    using Cons.prems Cons.IH by (fastforce simp: Let_def split: if_splits option.splits)
qed simp

lemma decode_chunks_eq:
  assumes "\<not> error_encountered ctx" "\<forall>c\<in>set cs. length c \<le> 2 ^ 29"
  shows "decode_chunks ctx cs =
    (case decode_update_loop ctx [] (concat cs) of
       (True, ctx', out) \<Rightarrow> if EVP_DecodeFinal ctx' = 1 then Some out else None
     | (False, _, _) \<Rightarrow> None)"
  using assms
proof (induction cs arbitrary: ctx)
  case (Cons c cs)
  obtain r ctx1 out where l: "decode_update_loop ctx [] c = (r, ctx1, out)" by (metis prod_cases3)
  have small: "length out \<le> 2147483647" using decode_loop_bound [OF l] Cons.prems(2) by simp
  show ?case
  proof (cases r)
    case True
    then have e: "\<not> error_encountered ctx1" using decode_loop_ok [of ctx "[]" c ctx1 out] l Cons.prems(1) by simp
    have "decode_update_loop ctx1 out (concat cs) =
        (case decode_update_loop ctx1 [] (concat cs) of (r, ctx', o'') \<Rightarrow> (r, ctx', out @ o''))"
      using decode_loop_out [of ctx1 out "[]" "concat cs"] by simp
    then show ?thesis
      using l True small Cons.IH [OF e] Cons.prems
      by (auto simp: EVP_DecodeUpdate_def decode_loop_append split: prod.splits bool.splits)
  qed (use l Cons.prems in \<open>simp add: EVP_DecodeUpdate_def decode_loop_append\<close>)
qed (simp add: EVP_DecodeFinal_def)

section \<open>Properties\<close>

lemma encoded_length: "n < 2 ^ 61 \<Longrightarrow> EVP_EncodedLength n = Some ((n + 2) div 3 * 4 + 1)"
proof -
  assume n: "n < 2 ^ 61"
  define m where "m = (n + 2) div 3"
  have m: "m * 4 + 1 < 2 ^ 64" "m \<le> n + 2" using n by (simp_all add: m_def)
  then have "m * 4 mod 2 ^ 64 = m * 4" "size_add n 2 = n + 2" "size_add (m * 4) 1 = m * 4 + 1"
    using n by (simp_all add: size_add_def mod_less)
  then show ?thesis unfolding EVP_EncodedLength_def Let_def m_def [symmetric] by simp
qed

text \<open>
  One-shot base64. \<open>EVP_EncodedLength\<close> is the size that \<open>EVP_EncodeBlock\<close> needs, with the
  terminating zero, and \<open>EVP_DecodeBase64\<close> applied to the encoding of any bytes returns those bytes,
  when the caller gives it room for whole groups.
\<close>

theorem base64_roundtrip:
  assumes "length xs < 2 ^ 61" and "(length xs + 2) div 3 * 3 \<le> max_out"
  shows "EVP_EncodedLength (length xs) = Some (length (fst (EVP_EncodeBlock xs (length xs)))) \<and>
    snd (EVP_EncodeBlock xs (length xs)) = length (fst (EVP_EncodeBlock xs (length xs))) - 1 \<and>
    EVP_DecodeBase64 max_out (butlast (fst (EVP_EncodeBlock xs (length xs)))) = (True, length xs, xs)"
proof -
  have "length (encode_loop xs) div 4 * 3 \<le> max_out" using assms(2) by (simp add: length_encode)
  moreover have "length (encode_loop xs) mod 4 = 0" by (simp add: length_encode)
  ultimately have "EVP_DecodeBase64 max_out (encode_loop xs) = (True, length xs, xs)"
    using encode_decode [of "[]" xs] by (simp add: EVP_DecodeBase64_def EVP_DecodedLength_def)
  then show ?thesis
    using encoded_length [OF assms(1)] length_encode [of xs] encode_block [of "length xs" xs "[]"] by simp
qed

theorem base64_roundtrip_witness:
  "EVP_DecodeBase64 6 (butlast (fst (EVP_EncodeBlock [1, 2, 3, 4] (length [1 :: byte, 2, 3, 4])))) = (True, 4, [1, 2, 3, 4])"
  using base64_roundtrip [of "[1, 2, 3, 4]" 6] by simp

text \<open>
  Streaming base64 encoding. However the input is cut into chunks, \<open>EVP_EncodeUpdate\<close> on each
  chunk and \<open>EVP_EncodeFinal\<close> together produce the same text: lines of 48 input bytes, each in base64
  and ended by a newline, with a shorter last line.
\<close>

theorem base64_stream_encode:
  assumes "\<forall>c\<in>set cs. length c \<le> 2 ^ 30"
  shows "encode_chunks EVP_EncodeInit cs = pem_encode (concat cs)"
  using encode_chunks_eq [OF enc_ok_init assms] by simp

theorem base64_stream_encode_witness:
  "encode_chunks EVP_EncodeInit [[1, 2], [], [3, 4]] = pem_encode [1, 2, 3, 4]"
  using base64_stream_encode [of "[[1, 2], [], [3, 4]]"] by simp

text \<open>
  C32. Streaming round trip. Bytes encoded through the streaming encoder in any chunks, and the
  resulting text fed to the streaming decoder in any other chunks, come back unchanged, and the
  decoder's final call reports success.
\<close>

theorem base64_stream_roundtrip:
  assumes "\<forall>c\<in>set cs. length c \<le> 2 ^ 30" and "\<forall>t\<in>set ts. length t \<le> 2 ^ 29"
    and "concat ts = encode_chunks EVP_EncodeInit cs"
  shows "decode_chunks EVP_DecodeInit ts = Some (concat cs)"
proof -
  have r: "dec_ready EVP_DecodeInit" by (simp add: dec_ready_def EVP_DecodeInit_def)
  then have "\<not> error_encountered EVP_DecodeInit" by (simp add: dec_ready_def)
  from decode_chunks_eq [OF this assms(2)] decode_pem [OF r, of "concat cs"]
  show ?thesis using assms(3) encode_chunks_eq [OF enc_ok_init assms(1)] by auto
qed

theorem base64_stream_roundtrip_witness:
  "decode_chunks EVP_DecodeInit [encode_chunks EVP_EncodeInit [[1, 2], [3, 4]]] = Some [1, 2, 3, 4]"
proof -
  have "encode_chunks EVP_EncodeInit [[1, 2], [3, 4]] = pem_encode [1, 2, 3, 4]"
    using encode_chunks_eq [OF enc_ok_init, of "[[1, 2], [3, 4]]"] by simp
  then have "length (encode_chunks EVP_EncodeInit [[1, 2], [3, 4]]) \<le> 2 ^ 29"
    by (simp add: pem_encode_def length_pem_lines length_encode pem_rest_def)
  then show ?thesis using base64_stream_roundtrip [of "[[1, 2], [3, 4]]" "[encode_chunks EVP_EncodeInit [[1, 2], [3, 4]]]"] by simp
qed

lemma decode_base64_bound:
  assumes "EVP_DecodeBase64 max_out inp = (r, n, out)"
  shows "length out \<le> max_out \<and> n \<le> length out \<and> (r \<longrightarrow> n = length out)"
proof -
  obtain r' out' where q: "decode_quads [] inp = (r', out')" by fastforce
  show ?thesis
    using assms q decode_quads_bound [OF q]
    by (auto simp: EVP_DecodeBase64_def EVP_DecodedLength_def split: if_splits bool.splits)
qed

lemma length_trim: "length (trim_base64 src) \<le> length src"
  using length_dropWhile_le [of is_base64_space "rev (dropWhile (\<lambda>c. c = 32 \<or> c = 9) src)"]
    length_dropWhile_le [of "\<lambda>c. c = 32 \<or> c = 9" src]
  by (simp add: trim_base64_def)

lemma pad_to_three:
  fixes n q :: nat
  assumes "n \<le> 3 * q"
  shows "n + (3 - n mod 3) mod 3 \<le> 3 * q"
proof (cases "n mod 3 = 0")
  case False
  define k j where "k = n div 3" and "j = n mod 3"
  have "n = 3 * k + j" "0 < j" "j < 3" using False by (simp_all add: k_def j_def)
  then have "k < q" using assms by linarith
  moreover have "(3 - j) mod 3 = 3 - j" using \<open>0 < j\<close> by simp
  ultimately show ?thesis unfolding j_def [symmetric] using \<open>n = 3 * k + j\<close> \<open>j < 3\<close> by linarith
qed (use assms in simp)

text \<open>
  C33. The decoders stay within their output buffers on every input, valid or not:
  \<open>EVP_DecodeBase64\<close> never writes more than \<open>max_out\<close> bytes and reports no more than it wrote, and
  \<open>EVP_DecodeBlock\<close>, whose output is padded with zeros, never writes more than three bytes for every
  four characters of its input and returns the number of bytes or -1.
\<close>

theorem base64_decode_bounds:
  "(\<forall>max_out inp r n out. EVP_DecodeBase64 max_out inp = (r, n, out) \<longrightarrow> length out \<le> max_out \<and> n \<le> length out) \<and>
   (\<forall>src k dst. EVP_DecodeBlock src = (k, dst) \<longrightarrow>
      length dst \<le> length src div 4 * 3 \<and> (k = - 1 \<or> k = int (length dst)))"
proof (intro conjI allI impI)
  show "length out \<le> max_out" "n \<le> length out" if "EVP_DecodeBase64 max_out inp = (r, n, out)" for max_out inp r n out
    using decode_base64_bound [OF that] by simp_all
  fix src k dst assume b: "EVP_DecodeBlock src = (k, dst)"
  define t where "t = trim_base64 src"
  obtain r n out where d: "EVP_DecodeBase64 (length t div 4 * 3) t = (r, n, out)" by (metis prod_cases3)
  note bd = decode_base64_bound [OF d]
  have "length dst \<le> length t div 4 * 3 \<and> (k = - 1 \<or> k = int (length dst))"
    using b d bd pad_to_three [of "length out" "length t div 4"]
    by (auto simp: EVP_DecodeBlock_def EVP_DecodedLength_def Let_def mult.commute simp flip: t_def split: if_splits bool.splits)
  moreover have "length t div 4 * 3 \<le> length src div 4 * 3" using length_trim [of src] by (simp add: t_def div_le_mono)
  ultimately show "length dst \<le> length src div 4 * 3" "k = - 1 \<or> k = int (length dst)" by auto
qed

theorem base64_decode_bounds_witness:
  "\<exists>r n out. EVP_DecodeBase64 2 [65, 65, 65, 65] = (r, n, out) \<and> length out \<le> 2"
proof -
  obtain r n out where "EVP_DecodeBase64 2 [65, 65, 65, 65] = (r, n, out)" by (metis prod_cases3)
  then show ?thesis using base64_decode_bounds by blast
qed

end
