(* ===== verification/Bn.thy ===== *)
theory Bn
  imports Cbs Const_Time
begin

text \<open>
  BoringSSL's big numbers (crypto/fipsmodule/bn/), on 64-bit words: the words of a \<open>BIGNUM\<close>
  (bn.c), their comparison (cmp.c), addition and subtraction (add.c, generic.c).

  An operation that writes to \<open>r\<close> and reads \<open>a\<close> and \<open>b\<close> takes the three numbers and returns the
  new \<open>r\<close>. The code allows \<open>r\<close> to be \<open>a\<close> or \<open>b\<close>: its loops read word \<open>i\<close> of the arguments
  before they write word \<open>i\<close> of the result, so they see the old contents, which is what
  passing the same value twice means here.
\<close>

section \<open>Words\<close>

definition BN_MAX_WORDS :: nat where "BN_MAX_WORDS = 2147483647 div (4 * 64)"

text \<open>The width counts the words in use; \<open>dmax\<close> is the size of the array at \<open>d\<close>.\<close>

record BIGNUM =
  bn_d :: "u64 list"
  width :: nat
  dmax :: nat
  neg :: bool
  static_data :: bool

definition BN_init :: BIGNUM where
  "BN_init = \<lparr>bn_d = [], width = 0, dmax = 0, neg = False, static_data = False\<rparr>"

text \<open>The words in use.\<close>

definition bn_words :: "BIGNUM \<Rightarrow> u64 list" where
  "bn_words bn = take (width bn) (bn_d bn)"

definition bn_wexpand :: "malloc \<Rightarrow> nat \<Rightarrow> BIGNUM \<Rightarrow> unit option \<times> BIGNUM" where
  "bn_wexpand mal words bn =
     (if words \<le> dmax bn then (Some (), bn)
      else if words > BN_MAX_WORDS then (None, bn)
      else if static_data bn then (None, bn)
      else case OPENSSL_calloc mal words 8 of
             None \<Rightarrow> (None, bn)
           | Some _ \<Rightarrow> (Some (), bn\<lparr>bn_d := bn_words bn @ replicate (words - width bn) 0, dmax := words\<rparr>))"

definition bn_expand :: "malloc \<Rightarrow> nat \<Rightarrow> BIGNUM \<Rightarrow> unit option \<times> BIGNUM" where
  "bn_expand mal bits bn =
     (if size_add bits 63 < bits then (None, bn) else bn_wexpand mal ((bits + 63) div 64) bn)"

text \<open>All words from \<open>num\<close> on or-ed together.\<close>

fun or_words :: "u64 \<Rightarrow> u64 list \<Rightarrow> u64" where
  "or_words m [] = m"
| "or_words m (w # ws) = or_words (m OR w) ws"

definition bn_fits_in_words :: "BIGNUM \<Rightarrow> nat \<Rightarrow> bool" where
  "bn_fits_in_words bn num \<longleftrightarrow> or_words 0 (drop num (bn_words bn)) = 0"

definition BN_is_zero :: "BIGNUM \<Rightarrow> bool" where
  "BN_is_zero bn = bn_fits_in_words bn 0"

fun minimal_width :: "u64 list \<Rightarrow> nat \<Rightarrow> nat" where
  "minimal_width d 0 = 0"
| "minimal_width d (Suc n) = (if d ! n = 0 then minimal_width d n else Suc n)"

definition bn_minimal_width :: "BIGNUM \<Rightarrow> nat" where
  "bn_minimal_width bn = minimal_width (bn_d bn) (width bn)"

definition bn_set_minimal_width :: "BIGNUM \<Rightarrow> BIGNUM" where
  "bn_set_minimal_width bn =
     (let w = bn_minimal_width bn in bn\<lparr>width := w, neg := (if w = 0 then False else neg bn)\<rparr>)"

definition BN_zero :: "BIGNUM \<Rightarrow> BIGNUM" where
  "BN_zero bn = bn\<lparr>width := 0, neg := False\<rparr>"

definition BN_clear :: "BIGNUM \<Rightarrow> BIGNUM" where
  "BN_clear bn = bn\<lparr>bn_d := replicate (dmax bn) 0, width := 0, neg := False\<rparr>"

definition BN_set_word :: "malloc \<Rightarrow> BIGNUM \<Rightarrow> u64 \<Rightarrow> unit option \<times> BIGNUM" where
  "BN_set_word mal bn v =
     (if v = 0 then (Some (), BN_zero bn)
      else and_then (bn_wexpand mal 1 bn) (\<lambda>_ bn1.
             (Some (), bn1\<lparr>bn_d := (bn_d bn1)[0 := v], width := 1, neg := False\<rparr>)))"

definition BN_one :: "malloc \<Rightarrow> BIGNUM \<Rightarrow> unit option \<times> BIGNUM" where
  "BN_one mal bn = BN_set_word mal bn 1"

definition BN_set_u64 :: "malloc \<Rightarrow> BIGNUM \<Rightarrow> u64 \<Rightarrow> unit option \<times> BIGNUM" where
  "BN_set_u64 mal bn v = BN_set_word mal bn v"

definition bn_set_words :: "malloc \<Rightarrow> BIGNUM \<Rightarrow> u64 list \<Rightarrow> nat \<Rightarrow> unit option \<times> BIGNUM" where
  "bn_set_words mal bn words num =
     and_then (bn_wexpand mal num bn) (\<lambda>_ bn1.
       (Some (), bn1\<lparr>bn_d := take num words @ drop num (bn_d bn1), width := num, neg := False\<rparr>))"

definition BN_copy :: "malloc \<Rightarrow> BIGNUM \<Rightarrow> BIGNUM \<Rightarrow> unit option \<times> BIGNUM" where
  "BN_copy mal dest src =
     and_then (bn_wexpand mal (width src) dest) (\<lambda>_ dest1.
       (Some (), dest1\<lparr>bn_d := bn_words src @ drop (width src) (bn_d dest1), width := width src, neg := neg src\<rparr>))"

definition BN_is_negative :: "BIGNUM \<Rightarrow> bool" where
  "BN_is_negative bn = neg bn"

definition BN_set_negative :: "BIGNUM \<Rightarrow> bool \<Rightarrow> BIGNUM" where
  "BN_set_negative bn sign = bn\<lparr>neg := (if sign \<and> \<not> BN_is_zero bn then True else False)\<rparr>"

definition bn_resize_words :: "malloc \<Rightarrow> BIGNUM \<Rightarrow> nat \<Rightarrow> unit option \<times> BIGNUM" where
  "bn_resize_words mal bn words =
     (if width bn \<le> words then
        and_then (bn_wexpand mal words bn) (\<lambda>_ bn1.
          (Some (), bn1\<lparr>bn_d := bn_words bn1 @ replicate (words - width bn1) 0 @ drop words (bn_d bn1), width := words\<rparr>))
      else if \<not> bn_fits_in_words bn words then (None, bn)
      else (Some (), bn\<lparr>width := words\<rparr>))"

text \<open>The \<open>num\<close> words written to \<open>out\<close>.\<close>

definition bn_copy_words :: "nat \<Rightarrow> BIGNUM \<Rightarrow> u64 list option" where
  "bn_copy_words num bn =
     (if neg bn then None
      else if width bn > num \<and> \<not> bn_fits_in_words bn num then None
      else
        let w = (if width bn > num then num else width bn)
        in Some (take w (bn_d bn) @ replicate (num - w) 0))"

definition bn_select_words :: "u64 \<Rightarrow> u64 list \<Rightarrow> u64 list \<Rightarrow> u64 list" where
  "bn_select_words msk a b = map (\<lambda>(x, y). constant_time_select_w msk x y) (zip a b)"

section \<open>Bit counts\<close>

text \<open>One of the halving steps: shift by \<open>k\<close>, count \<open>k\<close> bits when something is left, select.\<close>

definition num_bits_step :: "nat \<Rightarrow> u64 \<times> nat \<Rightarrow> u64 \<times> nat" where
  "num_bits_step k s =
     (case s of (l, bits) \<Rightarrow>
        let x = drop_bit k l;
            msk = 0 - drop_bit 63 (0 - x)
        in (l XOR ((x XOR l) AND msk), bits + unat (of_nat k AND msk)))"

definition BN_num_bits_word :: "u64 \<Rightarrow> nat" where
  "BN_num_bits_word l =
     snd (num_bits_step 1 (num_bits_step 2 (num_bits_step 4 (num_bits_step 8 (num_bits_step 16
       (num_bits_step 32 (l, if l \<noteq> 0 then 1 else 0)))))))"

definition BN_num_bits :: "BIGNUM \<Rightarrow> nat" where
  "BN_num_bits bn =
     (let w = bn_minimal_width bn in
      if w = 0 then 0 else (w - 1) * 64 + BN_num_bits_word (bn_d bn ! (w - 1)))"

definition BN_num_bytes :: "BIGNUM \<Rightarrow> nat" where
  "BN_num_bytes bn = (BN_num_bits bn + 7) div 8"

section \<open>Comparison\<close>

text \<open>The loop over the common words; \<open>ret\<close> is a C \<open>int\<close>.\<close>

fun cmp_words_loop :: "u32 \<Rightarrow> u64 list \<Rightarrow> u64 list \<Rightarrow> nat \<Rightarrow> u32" where
  "cmp_words_loop ret a b 0 = ret"
| "cmp_words_loop ret a b (Suc n) =
     (let eq = constant_time_eq_w (hd a) (hd b);
          lt = constant_time_lt_w (hd a) (hd b)
      in cmp_words_loop (constant_time_select_int eq ret (constant_time_select_int lt (- 1) 1)) (tl a) (tl b) n)"

definition bn_cmp_words_consttime :: "u64 list \<Rightarrow> nat \<Rightarrow> u64 list \<Rightarrow> nat \<Rightarrow> int" where
  "bn_cmp_words_consttime a a_len b b_len =
     (let m = (if a_len < b_len then a_len else b_len);
          ret = cmp_words_loop 0 a b m
      in sint
          (if a_len < b_len then
             constant_time_select_int (constant_time_is_zero_w (or_words 0 (drop a_len (take b_len b)))) ret (- 1)
           else if b_len < a_len then
             constant_time_select_int (constant_time_is_zero_w (or_words 0 (drop b_len (take a_len a)))) ret 1
           else ret))"

definition BN_ucmp :: "BIGNUM \<Rightarrow> BIGNUM \<Rightarrow> int" where
  "BN_ucmp a b = bn_cmp_words_consttime (bn_d a) (width a) (bn_d b) (width b)"

text \<open>\<open>BN_cmp\<close> on two numbers that are not null.\<close>

definition BN_cmp :: "BIGNUM \<Rightarrow> BIGNUM \<Rightarrow> int" where
  "BN_cmp a b =
     (if neg a \<noteq> neg b then (if neg a then - 1 else 1)
      else let ret = BN_ucmp a b in if neg a then - ret else ret)"

definition bn_less_than_words :: "u64 list \<Rightarrow> u64 list \<Rightarrow> nat \<Rightarrow> bool" where
  "bn_less_than_words a b len \<longleftrightarrow> bn_cmp_words_consttime a len b len < 0"

definition BN_abs_is_word :: "BIGNUM \<Rightarrow> u64 \<Rightarrow> bool" where
  "BN_abs_is_word bn w \<longleftrightarrow>
     (if width bn = 0 then w = 0 else or_words (bn_d bn ! 0 XOR w) (drop 1 (bn_words bn)) = 0)"

definition BN_cmp_word :: "BIGNUM \<Rightarrow> u64 \<Rightarrow> int" where
  "BN_cmp_word a b =
     BN_cmp a \<lparr>bn_d = [b], width = (if b > 0 then 1 else 0), dmax = 1, neg = False, static_data = True\<rparr>"

definition BN_is_one :: "BIGNUM \<Rightarrow> bool" where
  "BN_is_one bn \<longleftrightarrow> \<not> neg bn \<and> BN_abs_is_word bn 1"

definition BN_is_word :: "BIGNUM \<Rightarrow> u64 \<Rightarrow> bool" where
  "BN_is_word bn w \<longleftrightarrow> BN_abs_is_word bn w \<and> (w = 0 \<or> \<not> neg bn)"

definition BN_is_odd :: "BIGNUM \<Rightarrow> bool" where
  "BN_is_odd bn \<longleftrightarrow> width bn > 0 \<and> bn_d bn ! 0 AND 1 = 1"

definition BN_is_pow2 :: "BIGNUM \<Rightarrow> bool" where
  "BN_is_pow2 bn \<longleftrightarrow>
     (let w = bn_minimal_width bn in
      if w = 0 \<or> neg bn then False
      else if \<exists>x\<in>set (take (w - 1) (bn_d bn)). x \<noteq> 0 then False
      else bn_d bn ! (w - 1) AND (bn_d bn ! (w - 1) - 1) = 0)"

definition BN_equal_consttime :: "BIGNUM \<Rightarrow> BIGNUM \<Rightarrow> bool" where
  "BN_equal_consttime a b \<longleftrightarrow>
     (let m1 = or_words 0 (drop (width a) (bn_words b));
          m2 = or_words m1 (drop (width b) (bn_words a));
          m3 = or_words m2 (map (\<lambda>(x, y). x XOR y) (zip (bn_words a) (bn_words b)))
      in m3 OR (if neg a \<noteq> neg b then 1 else 0) = 0)"

section \<open>Addition and subtraction of words\<close>

definition CRYPTO_addc_w :: "u64 \<Rightarrow> u64 \<Rightarrow> u64 \<Rightarrow> u64 \<times> u64" where
  "CRYPTO_addc_w x y carry =
     (let ret = ucast carry + (ucast x + ucast y) :: 128 word in (ucast ret, ucast (drop_bit 64 ret)))"

definition CRYPTO_subc_w :: "u64 \<Rightarrow> u64 \<Rightarrow> u64 \<Rightarrow> u64 \<times> u64" where
  "CRYPTO_subc_w x y borrow =
     (x - y - borrow, (if x < y then 1 else 0) OR ((if x = y then 1 else 0) AND borrow))"

text \<open>The loops of generic.c; they are unrolled four times there, with the same steps.\<close>

fun add_words_loop :: "u64 \<Rightarrow> u64 list \<Rightarrow> u64 list \<Rightarrow> nat \<Rightarrow> u64 list \<times> u64" where
  "add_words_loop carry a b 0 = ([], carry)"
| "add_words_loop carry a b (Suc n) =
     (let (r, carry1) = CRYPTO_addc_w (hd a) (hd b) carry;
          (rs, carry2) = add_words_loop carry1 (tl a) (tl b) n
      in (r # rs, carry2))"

definition bn_add_words :: "u64 list \<Rightarrow> u64 list \<Rightarrow> nat \<Rightarrow> u64 list \<times> u64" where
  "bn_add_words a b n = add_words_loop 0 a b n"

fun sub_words_loop :: "u64 \<Rightarrow> u64 list \<Rightarrow> u64 list \<Rightarrow> nat \<Rightarrow> u64 list \<times> u64" where
  "sub_words_loop borrow a b 0 = ([], borrow)"
| "sub_words_loop borrow a b (Suc n) =
     (let (r, borrow1) = CRYPTO_subc_w (hd a) (hd b) borrow;
          (rs, borrow2) = sub_words_loop borrow1 (tl a) (tl b) n
      in (r # rs, borrow2))"

definition bn_sub_words :: "u64 list \<Rightarrow> u64 list \<Rightarrow> nat \<Rightarrow> u64 list \<times> u64" where
  "bn_sub_words a b n = sub_words_loop 0 a b n"

text \<open>The loops of add.c that carry on through the longer number.\<close>

fun addc_rest :: "u64 \<Rightarrow> u64 list \<Rightarrow> u64 list \<times> u64" where
  "addc_rest carry [] = ([], carry)"
| "addc_rest carry (x # xs) =
     (let (r, carry1) = CRYPTO_addc_w x 0 carry; (rs, carry2) = addc_rest carry1 xs in (r # rs, carry2))"

fun subc_rest :: "u64 \<Rightarrow> u64 list \<Rightarrow> u64 list \<times> u64" where
  "subc_rest borrow [] = ([], borrow)"
| "subc_rest borrow (x # xs) =
     (let (r, borrow1) = CRYPTO_subc_w x 0 borrow; (rs, borrow2) = subc_rest borrow1 xs in (r # rs, borrow2))"

section \<open>Addition and subtraction\<close>

definition bn_uadd_consttime :: "malloc \<Rightarrow> BIGNUM \<Rightarrow> BIGNUM \<Rightarrow> BIGNUM \<Rightarrow> unit option \<times> BIGNUM" where
  "bn_uadd_consttime mal r a0 b0 =
     (let (a, b) = (if width a0 < width b0 then (b0, a0) else (a0, b0));
          mx = width a;
          mn = width b
      in and_then (bn_wexpand mal (mx + 1) r) (\<lambda>_ r1.
           let (lo, carry) = bn_add_words (bn_d a) (bn_d b) mn;
               (hi, carry1) = addc_rest carry (drop mn (take mx (bn_d a)))
           in (Some (), r1\<lparr>bn_d := lo @ hi @ [carry1] @ drop (mx + 1) (bn_d r1), width := mx + 1\<rparr>)))"

definition BN_uadd :: "malloc \<Rightarrow> BIGNUM \<Rightarrow> BIGNUM \<Rightarrow> BIGNUM \<Rightarrow> unit option \<times> BIGNUM" where
  "BN_uadd mal r a b = and_then (bn_uadd_consttime mal r a b) (\<lambda>_ r1. (Some (), bn_set_minimal_width r1))"

definition bn_usub_consttime :: "malloc \<Rightarrow> BIGNUM \<Rightarrow> BIGNUM \<Rightarrow> BIGNUM \<Rightarrow> unit option \<times> BIGNUM" where
  "bn_usub_consttime mal r a b =
     (if width b > width a \<and> \<not> bn_fits_in_words b (width a) then (None, r)
      else
        let b_width = (if width b > width a then width a else width b) in
        and_then (bn_wexpand mal (width a) r) (\<lambda>_ r1.
          let (lo, borrow) = bn_sub_words (bn_d a) (bn_d b) b_width;
              (hi, borrow1) = subc_rest borrow (drop b_width (take (width a) (bn_d a)));
              r2 = r1\<lparr>bn_d := lo @ hi @ drop (width a) (bn_d r1)\<rparr>
          in if borrow1 \<noteq> 0 then (None, r2) else (Some (), r2\<lparr>width := width a, neg := False\<rparr>)))"

definition BN_usub :: "malloc \<Rightarrow> BIGNUM \<Rightarrow> BIGNUM \<Rightarrow> BIGNUM \<Rightarrow> unit option \<times> BIGNUM" where
  "BN_usub mal r a b = and_then (bn_usub_consttime mal r a b) (\<lambda>_ r1. (Some (), bn_set_minimal_width r1))"

text \<open>The two branches that subtract the smaller magnitude from the larger one.\<close>

definition usub_signed :: "malloc \<Rightarrow> BIGNUM \<Rightarrow> BIGNUM \<Rightarrow> BIGNUM \<Rightarrow> unit option \<times> BIGNUM" where
  "usub_signed mal r a b =
     (if BN_ucmp a b < 0 then and_then (BN_usub mal r b a) (\<lambda>_ r1. (Some (), r1\<lparr>neg := True\<rparr>))
      else and_then (BN_usub mal r a b) (\<lambda>_ r1. (Some (), r1\<lparr>neg := False\<rparr>)))"

definition BN_add :: "malloc \<Rightarrow> BIGNUM \<Rightarrow> BIGNUM \<Rightarrow> BIGNUM \<Rightarrow> unit option \<times> BIGNUM" where
  "BN_add mal r a b =
     (if neg a \<noteq> neg b then
        (if neg a then usub_signed mal r b a else usub_signed mal r a b)
      else case BN_uadd mal r a b of (ret, r1) \<Rightarrow> (ret, r1\<lparr>neg := neg a\<rparr>))"

definition BN_sub :: "malloc \<Rightarrow> BIGNUM \<Rightarrow> BIGNUM \<Rightarrow> BIGNUM \<Rightarrow> unit option \<times> BIGNUM" where
  "BN_sub mal r a b =
     (if neg a then
        if neg b then usub_signed mal r b a
        else and_then (BN_uadd mal r a b) (\<lambda>_ r1. (Some (), r1\<lparr>neg := True\<rparr>))
      else
        if neg b then and_then (BN_uadd mal r a b) (\<lambda>_ r1. (Some (), r1\<lparr>neg := False\<rparr>))
        else usub_signed mal r a b)"

section \<open>Adding and subtracting a word\<close>

text \<open>The carry and the borrow through the words in use; \<open>None\<close> is running off their end.\<close>

fun add_word_loop :: "u64 list \<Rightarrow> u64 \<Rightarrow> u64 list \<times> u64" where
  "add_word_loop [] w = ([], w)"
| "add_word_loop (x # xs) w =
     (if w \<noteq> 0 then
        let l = x + w; (ys, w') = add_word_loop xs (if w > l then 1 else 0) in (l # ys, w')
      else (x # xs, 0))"

fun sub_word_loop :: "u64 list \<Rightarrow> u64 \<Rightarrow> (u64 list \<times> nat) option" where
  "sub_word_loop [] w = None"
| "sub_word_loop (x # xs) w =
     (if x \<ge> w then Some ((x - w) # xs, 0)
      else map_option (\<lambda>(ys, i). ((x - w) # ys, Suc i)) (sub_word_loop xs 1))"

function BN_add_word :: "malloc \<Rightarrow> BIGNUM \<Rightarrow> u64 \<Rightarrow> unit option \<times> BIGNUM"
  and BN_sub_word :: "malloc \<Rightarrow> BIGNUM \<Rightarrow> u64 \<Rightarrow> unit option \<times> BIGNUM" where
  "BN_add_word mal a w =
     (if w = 0 then (Some (), a)
      else if BN_is_zero a then BN_set_word mal a w
      else if neg a then
        (case BN_sub_word mal (a\<lparr>neg := False\<rparr>) w of
           (i, a1) \<Rightarrow> (i, if \<not> BN_is_zero a1 then a1\<lparr>neg := \<not> neg a1\<rparr> else a1))
      else
        let (ys, w') = add_word_loop (bn_words a) w;
            a1 = a\<lparr>bn_d := ys @ drop (width a) (bn_d a)\<rparr>
        in if w' \<noteq> 0 then
             and_then (bn_wexpand mal (width a1 + 1) a1) (\<lambda>_ a2.
               (Some (), a2\<lparr>bn_d := (bn_d a2)[width a2 := w'], width := width a2 + 1\<rparr>))
           else (Some (), a1))"
| "BN_sub_word mal a w =
     (if w = 0 then (Some (), a)
      else if BN_is_zero a then
        (case BN_set_word mal a w of
           (None, a1) \<Rightarrow> (None, a1)
         | (Some _, a1) \<Rightarrow> (Some (), BN_set_negative a1 True))
      else if neg a then
        (case BN_add_word mal (a\<lparr>neg := False\<rparr>) w of (i, a1) \<Rightarrow> (i, a1\<lparr>neg := True\<rparr>))
      else if bn_minimal_width a = 1 \<and> bn_d a ! 0 < w then
        (Some (), a\<lparr>bn_d := (bn_d a)[0 := w - bn_d a ! 0], neg := True\<rparr>)
      else
        case sub_word_loop (bn_words a) w of
          None \<Rightarrow> (None, a)
        | Some (ys, i) \<Rightarrow>
            (Some (), a\<lparr>bn_d := ys @ drop (width a) (bn_d a),
                        width := (if ys ! i = 0 \<and> i = width a - 1 then width a - 1 else width a)\<rparr>))"
  by pat_completeness auto

termination
  by (relation "measure (\<lambda>x. case x of Inl (_, a, _) \<Rightarrow> if neg a then 1 else 0 | Inr (_, a, _) \<Rightarrow> if neg a then 1 else 0)") auto

declare BN_add_word.simps [simp del] BN_sub_word.simps [simp del]

end
