(* ===== verification/Bn_Shift.thy ===== *)
theory Bn_Shift
  imports Bn
begin

text \<open>
  Shifts and single bits of big numbers (crypto/fipsmodule/bn/shift.c). A C \<open>int\<close> argument is an
  \<open>int\<close>, and every operation refuses a negative one as the code does.
\<close>

section \<open>Left shifts\<close>

text \<open>The loop of \<open>BN_lshift\<close>, from the top word of \<open>f\<close> down; \<open>t\<close> is the array of the result.\<close>

fun lshift_loop :: "nat \<Rightarrow> nat \<Rightarrow> u64 list \<Rightarrow> u64 list \<Rightarrow> nat \<Rightarrow> u64 list" where
  "lshift_loop nw lb f t 0 = t"
| "lshift_loop nw lb f t (Suc i) =
     (let l = f ! i;
          t1 = (if lb = 0 then t else t[nw + i + 1 := t ! (nw + i + 1) OR drop_bit (64 - lb) l])
      in lshift_loop nw lb f (t1[nw + i := push_bit lb l]) i)"

definition BN_lshift :: "malloc \<Rightarrow> BIGNUM \<Rightarrow> BIGNUM \<Rightarrow> int \<Rightarrow> unit option \<times> BIGNUM" where
  "BN_lshift mal r a n =
     (if n < 0 then (None, r)
      else
        let nw = nat n div 64;
            lb = nat n mod 64
        in and_then (bn_wexpand mal (width a + nw + 1) (r\<lparr>neg := neg a\<rparr>)) (\<lambda>_ r1.
             let t = lshift_loop nw lb (bn_d a) ((bn_d r1)[width a + nw := 0]) (width a)
             in (Some (), bn_set_minimal_width
                  (r1\<lparr>bn_d := replicate nw 0 @ drop nw t, width := width a + nw + 1\<rparr>))))"

text \<open>One bit at a time, with the bit carried to the next word.\<close>

fun lshift1_loop :: "u64 \<Rightarrow> u64 list \<Rightarrow> u64 list \<times> u64" where
  "lshift1_loop c [] = ([], c)"
| "lshift1_loop c (t # ts) =
     (let (ys, c1) = lshift1_loop (drop_bit 63 t) ts in ((push_bit 1 t OR c) # ys, c1))"

definition BN_lshift1 :: "malloc \<Rightarrow> BIGNUM \<Rightarrow> BIGNUM \<Rightarrow> unit option \<times> BIGNUM" where
  "BN_lshift1 mal r a =
     and_then (bn_wexpand mal (width a + 1) (r\<lparr>neg := neg a\<rparr>)) (\<lambda>_ r1.
       let (ys, c) = lshift1_loop 0 (bn_words a);
           r2 = r1\<lparr>bn_d := ys @ drop (width a) (bn_d r1), width := width a\<rparr>
       in (Some (), if c \<noteq> 0 then r2\<lparr>bn_d := (bn_d r2)[width a := 1], width := width a + 1\<rparr> else r2))"

section \<open>Right shifts\<close>

text \<open>Each word takes its low bits from above; the last one only its own.\<close>

fun rshift_loop :: "nat \<Rightarrow> u64 list \<Rightarrow> u64 list" where
  "rshift_loop k [] = []"
| "rshift_loop k [x] = [drop_bit k x]"
| "rshift_loop k (x # y # zs) = (drop_bit k x OR push_bit (64 - k) y) # rshift_loop k (y # zs)"

definition bn_rshift_words :: "u64 list \<Rightarrow> nat \<Rightarrow> nat \<Rightarrow> u64 list" where
  "bn_rshift_words a shift num =
     (let shift_bits = shift mod 64;
          shift_words = shift div 64
      in if shift_words \<ge> num then replicate num 0
         else
           let xs = drop shift_words (take num a)
           in (if shift_bits = 0 then xs else rshift_loop shift_bits xs) @ replicate shift_words 0)"

definition BN_rshift :: "malloc \<Rightarrow> BIGNUM \<Rightarrow> BIGNUM \<Rightarrow> int \<Rightarrow> unit option \<times> BIGNUM" where
  "BN_rshift mal r a n =
     (if n < 0 then (None, r)
      else and_then (bn_wexpand mal (width a) r) (\<lambda>_ r1.
        (Some (), bn_set_minimal_width
           (r1\<lparr>bn_d := bn_rshift_words (bn_d a) (nat n) (width a) @ drop (width a) (bn_d r1),
               neg := neg a, width := width a\<rparr>))))"

text \<open>
  The shift by a secret: bit \<open>i\<close> of \<open>n\<close> selects a shift by \<open>2 ^ i\<close>, for as many bits as the width
  of the number has. \<open>tmp\<close> is what \<open>BN_CTX_get\<close> returned.
\<close>

function rshift_secret_loop :: "u32 \<Rightarrow> nat \<Rightarrow> nat \<Rightarrow> u64 list \<Rightarrow> u64 list" where
  "rshift_secret_loop n max_bits i r =
     (if max_bits div 2 ^ i = 0 then r
      else
        let msk = 0 - ucast (drop_bit i n AND 1)
        in rshift_secret_loop n max_bits (i + 1)
             (bn_select_words msk (bn_rshift_words r (2 ^ i) (length r)) r))"
  by auto
termination rshift_secret_loop
proof (relation "measure (\<lambda>(n, m, i, r). m - i)")
  fix n :: u32 and m i :: nat and r :: "u64 list" and msk :: u64
  assume "m div 2 ^ i \<noteq> 0"
  then have "2 ^ i \<le> m" by (simp add: div_eq_0_iff)
  then have "i < m" using less_exp [of i] by linarith
  then show "((n, m, i + 1, bn_select_words msk (bn_rshift_words r (2 ^ i) (length r)) r), n, m, i, r)
      \<in> measure (\<lambda>(n, m, i, r). m - i)" by simp
qed simp

definition bn_rshift_secret_shift :: "malloc \<Rightarrow> BIGNUM option \<Rightarrow> BIGNUM \<Rightarrow> BIGNUM \<Rightarrow> u32 \<Rightarrow> unit option \<times> BIGNUM" where
  "bn_rshift_secret_shift mal tmp r a n =
     (case tmp of
        None \<Rightarrow> (None, r)
      | Some t \<Rightarrow>
          and_then (BN_copy mal r a) (\<lambda>_ r1.
            case bn_wexpand mal (width r1) t of
              (None, _) \<Rightarrow> (None, r1)
            | (Some _, _) \<Rightarrow>
                (Some (), r1\<lparr>bn_d := rshift_secret_loop n (64 * width r1) 0 (bn_words r1) @ drop (width r1) (bn_d r1)\<rparr>)))"

definition bn_rshift1_words :: "u64 list \<Rightarrow> nat \<Rightarrow> u64 list" where
  "bn_rshift1_words a num = rshift_loop 1 (take num a)"

definition BN_rshift1 :: "malloc \<Rightarrow> BIGNUM \<Rightarrow> BIGNUM \<Rightarrow> unit option \<times> BIGNUM" where
  "BN_rshift1 mal r a =
     and_then (bn_wexpand mal (width a) r) (\<lambda>_ r1.
       (Some (), bn_set_minimal_width
          (r1\<lparr>bn_d := bn_rshift1_words (bn_d a) (width a) @ drop (width a) (bn_d r1), neg := neg a, width := width a\<rparr>)))"

section \<open>Single bits\<close>

definition BN_set_bit :: "malloc \<Rightarrow> BIGNUM \<Rightarrow> int \<Rightarrow> unit option \<times> BIGNUM" where
  "BN_set_bit mal a n =
     (if n < 0 then (None, a)
      else
        let i = nat n div 64;
            j = nat n mod 64;
            set = \<lambda>b. b\<lparr>bn_d := (bn_d b)[i := bn_d b ! i OR push_bit j 1]\<rparr>
        in if width a \<le> i then
             and_then (bn_wexpand mal (i + 1) a) (\<lambda>_ a1.
               (Some (), set (a1\<lparr>bn_d := bn_words a1 @ replicate (i + 1 - width a1) 0 @ drop (i + 1) (bn_d a1),
                                width := i + 1\<rparr>)))
           else (Some (), set a))"

definition BN_clear_bit :: "BIGNUM \<Rightarrow> int \<Rightarrow> unit option \<times> BIGNUM" where
  "BN_clear_bit a n =
     (if n < 0 then (None, a)
      else
        let i = nat n div 64;
            j = nat n mod 64
        in if width a \<le> i then (None, a)
           else (Some (), bn_set_minimal_width (a\<lparr>bn_d := (bn_d a)[i := bn_d a ! i AND NOT (push_bit j 1)]\<rparr>)))"

definition bn_is_bit_set_words :: "u64 list \<Rightarrow> nat \<Rightarrow> nat \<Rightarrow> u64" where
  "bn_is_bit_set_words a num b =
     (let i = b div 64;
          j = b mod 64
      in if i \<ge> num then 0 else drop_bit j (a ! i) AND 1)"

definition BN_is_bit_set :: "BIGNUM \<Rightarrow> int \<Rightarrow> u64" where
  "BN_is_bit_set a n = (if n < 0 then 0 else bn_is_bit_set_words (bn_d a) (width a) (nat n))"

definition BN_mask_bits :: "BIGNUM \<Rightarrow> int \<Rightarrow> unit option \<times> BIGNUM" where
  "BN_mask_bits a n =
     (if n < 0 then (None, a)
      else
        let w = nat n div 64;
            b = nat n mod 64
        in if w \<ge> width a then (Some (), a)
           else (Some (), bn_set_minimal_width
                  (if b = 0 then a\<lparr>width := w\<rparr>
                   else a\<lparr>width := w + 1, bn_d := (bn_d a)[w := bn_d a ! w AND NOT (push_bit b (- 1))]\<rparr>)))"

section \<open>Trailing zeros\<close>

text \<open>One halving step: when the low \<open>k\<close> bits are zero, count them and go on with the upper half.\<close>

definition low_zero_step :: "nat \<Rightarrow> u64 \<times> u64 \<Rightarrow> u64 \<times> u64" where
  "low_zero_step k s =
     (case s of (l, bits) \<Rightarrow>
        let msk = constant_time_is_zero_w (push_bit (64 - k) l)
        in (constant_time_select_w msk (drop_bit k l) l, bits + (of_nat k AND msk)))"

definition bn_count_low_zero_bits_word :: "u64 \<Rightarrow> u64" where
  "bn_count_low_zero_bits_word l =
     (case low_zero_step 2 (low_zero_step 4 (low_zero_step 8 (low_zero_step 16 (low_zero_step 32 (l, 0))))) of
        (l1, bits) \<Rightarrow> bits + (1 AND constant_time_is_zero_w (push_bit 63 l1)))"

fun low_zero_loop :: "nat \<Rightarrow> u64 \<Rightarrow> u64 \<Rightarrow> u64 list \<Rightarrow> u64" where
  "low_zero_loop i saw_nonzero ret [] = ret"
| "low_zero_loop i saw_nonzero ret (x # xs) =
     (let nonzero = NOT (constant_time_is_zero_w x);
          first_nonzero = NOT saw_nonzero AND nonzero;
          bits = bn_count_low_zero_bits_word x
      in low_zero_loop (i + 1) (saw_nonzero OR nonzero) (ret OR (first_nonzero AND (of_nat i * 64 + bits))) xs)"

definition BN_count_low_zero_bits :: "BIGNUM \<Rightarrow> u64" where
  "BN_count_low_zero_bits bn = low_zero_loop 0 0 0 (bn_words bn)"

end
