(* ===== verification/Bn_Word.thy ===== *)
theory Bn_Word
  imports Bn_Shift
begin

text \<open>
  Big numbers times and over one word: the word loops of crypto/fipsmodule/bn/generic.c, with the
  double-width type of a 64-bit target, \<open>BN_mul_word\<close> (mul.c), \<open>BN_div_word\<close> and \<open>BN_mod_word\<close>
  (div.c). The loops of generic.c are unrolled four times, with the same steps.
\<close>

section \<open>Multiplication\<close>

definition Lw :: "128 word \<Rightarrow> u64" where "Lw t = ucast t"

definition Hw :: "128 word \<Rightarrow> u64" where "Hw t = ucast (drop_bit 64 t)"

text \<open>The result word and the carry.\<close>

definition mul_add :: "u64 \<Rightarrow> u64 \<Rightarrow> u64 \<Rightarrow> u64 \<Rightarrow> u64 \<times> u64" where
  "mul_add r a w c = (let t = ucast w * ucast a + ucast r + ucast c in (Lw t, Hw t))"

definition mul :: "u64 \<Rightarrow> u64 \<Rightarrow> u64 \<Rightarrow> u64 \<times> u64" where
  "mul a w c = (let t = ucast w * ucast a + ucast c in (Lw t, Hw t))"

definition sqr :: "u64 \<Rightarrow> u64 \<times> u64" where
  "sqr a = (let t = ucast a * ucast a in (Lw t, Hw t))"

fun mul_add_words_loop :: "u64 \<Rightarrow> u64 list \<Rightarrow> u64 list \<Rightarrow> nat \<Rightarrow> u64 \<Rightarrow> u64 list \<times> u64" where
  "mul_add_words_loop c1 rp ap 0 w = ([], c1)"
| "mul_add_words_loop c1 rp ap (Suc n) w =
     (let (r, c2) = mul_add (hd rp) (hd ap) w c1;
          (rs, c3) = mul_add_words_loop c2 (tl rp) (tl ap) n w
      in (r # rs, c3))"

definition bn_mul_add_words :: "u64 list \<Rightarrow> u64 list \<Rightarrow> nat \<Rightarrow> u64 \<Rightarrow> u64 list \<times> u64" where
  "bn_mul_add_words rp ap num w = mul_add_words_loop 0 rp ap num w"

fun mul_words_loop :: "u64 \<Rightarrow> u64 list \<Rightarrow> nat \<Rightarrow> u64 \<Rightarrow> u64 list \<times> u64" where
  "mul_words_loop c1 ap 0 w = ([], c1)"
| "mul_words_loop c1 ap (Suc n) w =
     (let (r, c2) = mul (hd ap) w c1;
          (rs, c3) = mul_words_loop c2 (tl ap) n w
      in (r # rs, c3))"

definition bn_mul_words :: "u64 list \<Rightarrow> nat \<Rightarrow> u64 \<Rightarrow> u64 list \<times> u64" where
  "bn_mul_words ap num w = mul_words_loop 0 ap num w"

fun bn_sqr_words :: "u64 list \<Rightarrow> nat \<Rightarrow> u64 list" where
  "bn_sqr_words a 0 = []"
| "bn_sqr_words a (Suc n) = (let (r0, r1) = sqr (hd a) in r0 # r1 # bn_sqr_words (tl a) n)"

definition BN_mul_word :: "malloc \<Rightarrow> BIGNUM \<Rightarrow> u64 \<Rightarrow> unit option \<times> BIGNUM" where
  "BN_mul_word mal bn w =
     (if width bn = 0 then (Some (), bn)
      else if w = 0 then (Some (), BN_zero bn)
      else
        let (ws, ll) = bn_mul_words (bn_d bn) (width bn) w;
            bn1 = bn\<lparr>bn_d := ws @ drop (width bn) (bn_d bn)\<rparr>
        in if ll \<noteq> 0 then
             and_then (bn_wexpand mal (width bn + 1) bn1) (\<lambda>_ bn2.
               (Some (), bn2\<lparr>bn_d := (bn_d bn2)[width bn2 := ll], width := width bn2 + 1\<rparr>))
           else (Some (), bn1))"

section \<open>Division\<close>

text \<open>The quotient and the remainder of a two-word number; the quotient is cut to a word.\<close>

definition bn_div_rem_words :: "u64 \<Rightarrow> u64 \<Rightarrow> u64 \<Rightarrow> u64 \<times> u64" where
  "bn_div_rem_words n0 n1 d0 =
     (let n = push_bit 64 (ucast n0 :: 128 word) OR ucast n1;
          q = ucast (n div ucast d0)
      in (q, n1 - q * d0))"

text \<open>From the top word down; the remainder so far goes into the next word.\<close>

fun div_word_loop :: "u64 \<Rightarrow> u64 list \<Rightarrow> u64 list \<times> u64" where
  "div_word_loop w [] = ([], 0)"
| "div_word_loop w (l # ls) =
     (let (ds, ret) = div_word_loop w ls;
          (d, unused_rem) = bn_div_rem_words ret l w
      in (d # ds, l - d * w))"

text \<open>The remainder, all ones after an error, and the quotient in \<open>a\<close>.\<close>

definition BN_div_word :: "malloc \<Rightarrow> BIGNUM \<Rightarrow> u64 \<Rightarrow> u64 \<times> BIGNUM" where
  "BN_div_word mal a w =
     (if w = 0 then (- 1, a)
      else if width a = 0 then (0, a)
      else
        let j = 64 - BN_num_bits_word w;
            w1 = push_bit j w
        in case BN_lshift mal a a (int j) of
             (None, a1) \<Rightarrow> (- 1, a1)
           | (Some _, a1) \<Rightarrow>
               let (ds, ret) = div_word_loop w1 (bn_words a1)
               in (drop_bit j ret, bn_set_minimal_width (a1\<lparr>bn_d := ds @ drop (width a1) (bn_d a1)\<rparr>)))"

fun mod_word_loop :: "u64 \<Rightarrow> u64 list \<Rightarrow> 128 word" where
  "mod_word_loop w [] = 0"
| "mod_word_loop w (l # ls) = (push_bit 64 (mod_word_loop w ls) OR ucast l) mod ucast w"

definition BN_mod_word :: "BIGNUM \<Rightarrow> u64 \<Rightarrow> u64" where
  "BN_mod_word a w = (if w = 0 then - 1 else ucast (mod_word_loop w (bn_words a)))"

end
