(* ===== verification/Bn_Bytes.thy ===== *)
theory Bn_Bytes
  imports Bn Cbs_Asn1
begin

text \<open>
  Big numbers as bytes (crypto/fipsmodule/bn/bytes.c). The code reads the words of a number
  through a byte pointer: on a little-endian machine those bytes are \<open>bytes_of_words\<close>, and
  copying bytes over the words is \<open>memcpy_words\<close>.
\<close>

section \<open>Words as memory\<close>

definition word_bytes :: "u64 \<Rightarrow> byte list" where
  "word_bytes w = map (\<lambda>i. ucast (drop_bit (8 * i) w)) [0..<8]"

definition bytes_of_words :: "u64 list \<Rightarrow> byte list" where
  "bytes_of_words ws = concat (map word_bytes ws)"

text \<open>Eight bytes in memory make a word.\<close>

function words_of_bytes :: "byte list \<Rightarrow> u64 list" where
  "words_of_bytes bs = (if length bs < 8 then [] else le_word (take 8 bs) # words_of_bytes (drop 8 bs))"
  by auto
termination words_of_bytes
  by (relation "measure length") auto

declare words_of_bytes.simps [simp del]

definition memcpy_words :: "u64 list \<Rightarrow> byte list \<Rightarrow> u64 list" where
  "memcpy_words d bs = words_of_bytes (bs @ drop (length bs) (bytes_of_words d))"

definition CRYPTO_load_word_be :: "byte list \<Rightarrow> u64" where
  "CRYPTO_load_word_be bs = CRYPTO_bswap8 (le_word bs)"

section \<open>Reading a number\<close>

text \<open>Whole words from the end of the input, then the partial word at its start.\<close>

function be_words_loop :: "byte list \<Rightarrow> u64 list" where
  "be_words_loop inp =
     (if length inp \<ge> 8 then
        CRYPTO_load_word_be (drop (length inp - 8) inp) # be_words_loop (take (length inp - 8) inp)
      else if length inp \<noteq> 0 then [be_loop 0 inp]
      else [])"
  by auto
termination be_words_loop
  by (relation "measure length") auto

declare be_words_loop.simps [simp del]

text \<open>\<open>None\<close> is the abort when the output is too short.\<close>

definition bn_big_endian_to_words :: "nat \<Rightarrow> byte list \<Rightarrow> u64 list option" where
  "bn_big_endian_to_words out_len inp =
     (if length inp \<le> out_len * 8 then
        let ws = be_words_loop inp in Some (ws @ replicate (out_len - length ws) 0)
      else None)"

text \<open>A fresh number; the flag of a number made by \<open>malloc\<close> only matters when it is freed.\<close>

definition BN_new :: "malloc \<Rightarrow> BIGNUM option" where
  "BN_new mal = map_option (\<lambda>_. BN_init) (OPENSSL_malloc mal 24)"

text \<open>The number the result points to, \<open>None\<close> for a null pointer: given to \<open>ret\<close> or made here.\<close>

definition BN_bin2bn :: "malloc \<Rightarrow> byte list \<Rightarrow> BIGNUM option \<Rightarrow> BIGNUM option" where
  "BN_bin2bn mal inp ret0 =
     (case (case ret0 of None \<Rightarrow> BN_new mal | Some r \<Rightarrow> Some r) of
        None \<Rightarrow> None
      | Some ret \<Rightarrow>
          if length inp = 0 then Some (ret\<lparr>width := 0\<rparr>)
          else
            let num_words = (length inp - 1) div 8 + 1 in
            case bn_wexpand mal num_words ret of
              (None, _) \<Rightarrow> None
            | (Some _, r1) \<Rightarrow>
                map_option (\<lambda>ws. r1\<lparr>bn_d := ws @ drop num_words (bn_d r1), width := num_words, neg := False\<rparr>)
                  (bn_big_endian_to_words num_words inp))"

definition BN_lebin2bn :: "malloc \<Rightarrow> byte list \<Rightarrow> BIGNUM option \<Rightarrow> BIGNUM option" where
  "BN_lebin2bn mal inp ret0 =
     (case (case ret0 of None \<Rightarrow> BN_new mal | Some r \<Rightarrow> Some r) of
        None \<Rightarrow> None
      | Some ret \<Rightarrow>
          if length inp = 0 then Some (ret\<lparr>width := 0, neg := False\<rparr>)
          else
            let num_words = (length inp - 1) div 8 + 1 in
            case bn_wexpand mal num_words ret of
              (None, _) \<Rightarrow> None
            | (Some _, r1) \<Rightarrow>
                Some (r1\<lparr>width := num_words, bn_d := memcpy_words ((bn_d r1)[num_words - 1 := 0]) inp\<rparr>))"

definition BN_le2bn :: "malloc \<Rightarrow> byte list \<Rightarrow> BIGNUM option \<Rightarrow> BIGNUM option" where
  "BN_le2bn mal inp ret = BN_lebin2bn mal inp ret"

section \<open>Writing a number\<close>

definition fits_in_bytes :: "u64 list \<Rightarrow> nat \<Rightarrow> nat \<Rightarrow> bool" where
  "fits_in_bytes words num_words num_bytes \<longleftrightarrow>
     foldl (\<lambda>m b. m OR b) 0 (drop num_bytes (bytes_of_words (take num_words words))) = 0"

definition bn_words_to_big_endian :: "nat \<Rightarrow> u64 list \<Rightarrow> nat \<Rightarrow> byte list" where
  "bn_words_to_big_endian out_len inp in_len =
     (let num_bytes = (if out_len < in_len * 8 then out_len else in_len * 8)
      in replicate (out_len - num_bytes) 0 @ rev (take num_bytes (bytes_of_words (take in_len inp))))"

definition BN_bn2bin :: "BIGNUM \<Rightarrow> byte list" where
  "BN_bn2bin inp = bn_words_to_big_endian (BN_num_bytes inp) (bn_d inp) (width inp)"

definition BN_bn2le_padded :: "nat \<Rightarrow> BIGNUM \<Rightarrow> byte list option" where
  "BN_bn2le_padded len inp =
     (if \<not> fits_in_bytes (bn_d inp) (width inp) len then None
      else
        let num_bytes = (if len < width inp * 8 then len else width inp * 8)
        in Some (take num_bytes (bytes_of_words (bn_words inp)) @ replicate (len - num_bytes) 0))"

definition BN_bn2bin_padded :: "nat \<Rightarrow> BIGNUM \<Rightarrow> byte list option" where
  "BN_bn2bin_padded len inp =
     (if \<not> fits_in_bytes (bn_d inp) (width inp) len then None
      else Some (bn_words_to_big_endian len (bn_d inp) (width inp)))"

text \<open>The all-ones word stands for a number that does not fit.\<close>

definition BN_get_word :: "BIGNUM \<Rightarrow> u64" where
  "BN_get_word bn =
     (let w = bn_minimal_width bn in
      if w = 0 then 0 else if w = 1 then bn_d bn ! 0 else - 1)"

definition BN_get_u64 :: "BIGNUM \<Rightarrow> u64 option" where
  "BN_get_u64 bn =
     (let w = bn_minimal_width bn in
      if w = 0 then Some 0 else if w = 1 then Some (bn_d bn ! 0) else None)"

end
