(* ===== verification/Bn_Convert.thy ===== *)
theory Bn_Convert
  imports Bn_Word Bn_Bytes Cbb
begin

text \<open>
  Big numbers as text and as ASN.1 integers: crypto/bn_extra/convert.c and bn_asn1.c. A string is
  its bytes without the terminating zero, and 45 is the minus sign.
\<close>

section \<open>Hexadecimal\<close>

definition hextable :: "byte list" where
  "hextable = [48, 49, 50, 51, 52, 53, 54, 55, 56, 57, 97, 98, 99, 100, 101, 102]"

text \<open>The bytes of the words from the top, leading zero bytes left out until \<open>z\<close> is set.\<close>

fun hex_bytes_loop :: "bool \<Rightarrow> byte list \<Rightarrow> byte list" where
  "hex_bytes_loop z [] = []"
| "hex_bytes_loop z (v # vs) =
     (if z \<or> v \<noteq> 0 then hextable ! unat (drop_bit 4 v) # hextable ! unat (v AND 0x0f) # hex_bytes_loop True vs
      else hex_bytes_loop z vs)"

text \<open>The bytes of a word from its top.\<close>

definition hex_word_bytes :: "u64 \<Rightarrow> byte list" where
  "hex_word_bytes w = map (\<lambda>j. ucast (drop_bit j w AND 0xff)) [56, 48, 40, 32, 24, 16, 8, 0]"

definition BN_bn2hex :: "malloc \<Rightarrow> BIGNUM \<Rightarrow> byte list option" where
  "BN_bn2hex mal bn =
     (let w = bn_minimal_width bn in
      map_option (\<lambda>_.
        (if neg bn then [45] else []) @
        (if BN_is_zero bn then [48] else []) @
        hex_bytes_loop False (concat (map hex_word_bytes (rev (take w (bn_d bn))))))
        (OPENSSL_malloc mal (1 + 1 + w * 8 * 2 + 1)))"

text \<open>The word that up to 16 digits at the end of the text make.\<close>

definition hex_word :: "byte list \<Rightarrow> u64" where
  "hex_word cs =
     foldl (\<lambda>w c. push_bit 4 w OR (case OPENSSL_fromxdigit (uint c) of Some hex \<Rightarrow> ucast hex | None \<Rightarrow> 0)) 0 cs"

function decode_hex_loop :: "byte list \<Rightarrow> u64 list" where
  "decode_hex_loop inp =
     (if length inp > 0 then
        let todo = (if 16 > length inp then length inp else 16)
        in hex_word (drop (length inp - todo) inp) # decode_hex_loop (take (length inp - todo) inp)
      else [])"
  by auto
termination decode_hex_loop
  by (relation "measure length") (auto simp: Let_def)

declare decode_hex_loop.simps [simp del]

definition decode_hex :: "malloc \<Rightarrow> BIGNUM \<Rightarrow> byte list \<Rightarrow> unit option \<times> BIGNUM" where
  "decode_hex mal bn inp =
     (if length inp > 2147483647 div 4 then (None, bn)
      else and_then (bn_expand mal (length inp * 4) bn) (\<lambda>_ bn1.
        let ws = decode_hex_loop inp
        in (Some (), bn1\<lparr>bn_d := ws @ drop (length ws) (bn_d bn1), width := length ws\<rparr>)))"

section \<open>Decimal\<close>

definition BN_DEC_CONV :: u64 where "BN_DEC_CONV = 10000000000000000000"

definition BN_DEC_NUM :: nat where "BN_DEC_NUM = 19"

fun decode_dec_loop :: "malloc \<Rightarrow> nat \<Rightarrow> u64 \<Rightarrow> byte list \<Rightarrow> BIGNUM \<Rightarrow> unit option \<times> BIGNUM" where
  "decode_dec_loop mal j l [] bn = (Some (), bn)"
| "decode_dec_loop mal j l (c # cs) bn =
     (let l1 = l * 10 + of_int (uint c - 48)
      in if j + 1 = BN_DEC_NUM then
           and_then (BN_mul_word mal bn BN_DEC_CONV) (\<lambda>_ bn1.
           and_then (BN_add_word mal bn1 l1) (\<lambda>_ bn2. decode_dec_loop mal 0 0 cs bn2))
         else decode_dec_loop mal (j + 1) l1 cs bn)"

definition decode_dec :: "malloc \<Rightarrow> BIGNUM \<Rightarrow> byte list \<Rightarrow> unit option \<times> BIGNUM" where
  "decode_dec mal bn inp =
     (let j = BN_DEC_NUM - length inp mod BN_DEC_NUM
      in decode_dec_loop mal (if j = BN_DEC_NUM then 0 else j) 0 inp bn)"

text \<open>
  \<open>outp\<close> is \<open>None\<close> for a null pointer, and else what it points to: \<open>None\<close> or a number. The result
  is the count of characters read, zero for an error, and the new \<open>outp\<close>.
\<close>

definition bn_x2bn ::
  "malloc \<Rightarrow> BIGNUM option option \<Rightarrow> byte list \<Rightarrow> (malloc \<Rightarrow> BIGNUM \<Rightarrow> byte list \<Rightarrow> unit option \<times> BIGNUM) \<Rightarrow>
     (int \<Rightarrow> bool) \<Rightarrow> nat \<times> BIGNUM option option" where
  "bn_x2bn mal outp inp decode want_char =
     (if inp = [] then (0, outp)
      else
        let sign = (hd inp = 45);
            inp1 = (if sign then tl inp else inp);
            i = length (takeWhile (\<lambda>c. want_char (uint c)) (take (2147483647 - (if sign then 1 else 0)) inp1));
            num = i + (if sign then 1 else 0)
        in case outp of
             None \<Rightarrow> (num, None)
           | Some p \<Rightarrow>
               (case (case p of None \<Rightarrow> BN_new mal | Some r \<Rightarrow> Some (BN_zero r)) of
                  None \<Rightarrow> (0, outp)
                | Some ret \<Rightarrow>
                    (case decode mal ret (take i inp1) of
                       (None, ret1) \<Rightarrow> (0, Some (map_option (\<lambda>_. ret1) p))
                     | (Some _, ret1) \<Rightarrow>
                         let ret2 = bn_set_minimal_width ret1
                         in (num, Some (Some (if \<not> BN_is_zero ret2 then ret2\<lparr>neg := sign\<rparr> else ret2))))))"

definition BN_hex2bn :: "malloc \<Rightarrow> BIGNUM option option \<Rightarrow> byte list \<Rightarrow> nat \<times> BIGNUM option option" where
  "BN_hex2bn mal outp inp = bn_x2bn mal outp inp decode_hex OPENSSL_isxdigit"

definition BN_dec2bn :: "malloc \<Rightarrow> BIGNUM option option \<Rightarrow> byte list \<Rightarrow> nat \<times> BIGNUM option option" where
  "BN_dec2bn mal outp inp = bn_x2bn mal outp inp decode_dec OPENSSL_isdigit"

text \<open>\<open>BN_asc2bn\<close> with an \<open>outp\<close> that is not null.\<close>

definition BN_asc2bn :: "malloc \<Rightarrow> BIGNUM option \<Rightarrow> byte list \<Rightarrow> bool \<times> BIGNUM option" where
  "BN_asc2bn mal p orig_in =
     (let sign = (orig_in \<noteq> [] \<and> hd orig_in = 45);
          inp = (if sign then tl orig_in else orig_in);
          (n, outp) = (if length inp \<ge> 2 \<and> inp ! 0 = 48 \<and> (inp ! 1 = 88 \<or> inp ! 1 = 120)
                       then BN_hex2bn mal (Some p) (drop 2 inp)
                       else BN_dec2bn mal (Some p) inp)
      in case outp of
           Some (Some r) \<Rightarrow>
             if n = 0 then (False, Some r)
             else (True, Some (if sign \<and> \<not> BN_is_zero r then r\<lparr>neg := True\<rparr> else r))
         | _ \<Rightarrow> (False, None))"

section \<open>Printing decimals\<close>

text \<open>At most \<open>n\<close> digits of \<open>word\<close> from its end, all of them when \<open>add_leading_zeros\<close>.\<close>

fun dec_digits_loop :: "malloc \<Rightarrow> bool \<Rightarrow> nat \<Rightarrow> u64 \<Rightarrow> CBB \<Rightarrow> unit option \<times> CBB" where
  "dec_digits_loop mal add_leading_zeros 0 word cbb = (Some (), cbb)"
| "dec_digits_loop mal add_leading_zeros (Suc n) word cbb =
     (if add_leading_zeros \<or> word \<noteq> 0 then
        and_then (CBB_add_u8 mal Top (48 + ucast (word mod 10)) cbb) (\<lambda>_ cbb1.
          dec_digits_loop mal add_leading_zeros n (word div 10) cbb1)
      else (Some (), cbb))"

definition BN_dup :: "malloc \<Rightarrow> BIGNUM \<Rightarrow> BIGNUM option" where
  "BN_dup mal src =
     (case BN_new mal of
        None \<Rightarrow> None
      | Some copy \<Rightarrow> (case BN_copy mal copy src of (None, _) \<Rightarrow> None | (Some _, copy1) \<Rightarrow> Some copy1))"

text \<open>
  The chunks of 19 digits, the low ones first. The loop ends when the number is zero; whether it
  does is not clear from its text, so a loop that does not end is the outer \<open>None\<close>.
\<close>

partial_function (option) bn2dec_loop :: "malloc \<Rightarrow> BIGNUM \<Rightarrow> CBB \<Rightarrow> (unit option \<times> CBB) option" where
  "bn2dec_loop mal copy cbb =
     (if BN_is_zero copy then Some (Some (), cbb)
      else
        case BN_div_word mal copy BN_DEC_CONV of (word, copy1) \<Rightarrow>
          if word = - 1 then Some (None, cbb)
          else
            case dec_digits_loop mal (\<not> BN_is_zero copy1) BN_DEC_NUM word cbb of
              (None, cbb1) \<Rightarrow> Some (None, cbb1)
            | (Some _, cbb1) \<Rightarrow> bn2dec_loop mal copy1 cbb1)"

definition bn2dec_digits :: "malloc \<Rightarrow> BIGNUM \<Rightarrow> CBB \<Rightarrow> (unit option \<times> CBB) option" where
  "bn2dec_digits mal a cbb =
     (if BN_is_zero a then Some (CBB_add_u8 mal Top 48 cbb)
      else case BN_dup mal a of None \<Rightarrow> Some (None, cbb) | Some copy \<Rightarrow> bn2dec_loop mal copy cbb)"

text \<open>The text with its terminating zero; the inner \<open>None\<close> is the null pointer.\<close>

definition BN_bn2dec :: "malloc \<Rightarrow> BIGNUM \<Rightarrow> byte list option option" where
  "BN_bn2dec mal a =
     (case and_then (CBB_init mal 16) (\<lambda>_ cbb. CBB_add_u8 mal Top 0 cbb) of
        (None, _) \<Rightarrow> Some None
      | (Some _, cbb) \<Rightarrow>
          map_option (\<lambda>r. map_option (\<lambda>(data, len). rev (take len data))
              (fst (and_then r (\<lambda>_ cbb1.
                    and_then (if BN_is_negative a then CBB_add_u8 mal Top 45 cbb1 else (Some (), cbb1)) (\<lambda>_ cbb2.
                      CBB_finish mal Top cbb2)))))
            (bn2dec_digits mal a cbb))"

section \<open>ASN.1\<close>

text \<open>The space is reserved first and then filled with the number, or left when it does not fit.\<close>

definition BN_bn2cbb_padded :: "malloc \<Rightarrow> CBB_ref \<Rightarrow> nat \<Rightarrow> BIGNUM \<Rightarrow> CBB \<Rightarrow> unit option \<times> CBB" where
  "BN_bn2cbb_padded mal out len inp s =
     and_then (CBB_add_space mal out len s) (\<lambda>ptr s1.
       case BN_bn2bin_padded len inp of
         None \<Rightarrow> (None, s1)
       | Some bs \<Rightarrow> (Some (), s1\<lparr>base := (base s1)\<lparr>buf := store (buf (base s1)) ptr bs\<rparr>\<rparr>))"

text \<open>The number read into \<open>ret\<close>, and the rest of the input.\<close>

definition BN_parse_asn1_unsigned :: "malloc \<Rightarrow> CBS \<Rightarrow> BIGNUM \<Rightarrow> BIGNUM option \<times> CBS" where
  "BN_parse_asn1_unsigned mal cbs ret =
     (case CBS_get_asn1 cbs CBS_ASN1_INTEGER of
        (None, cbs1) \<Rightarrow> (None, cbs1)
      | (Some child, cbs1) \<Rightarrow>
          (case CBS_is_valid_asn1_integer child of
             None \<Rightarrow> (None, cbs1)
           | Some is_negative \<Rightarrow>
               if is_negative then (None, cbs1)
               else (BN_bin2bn mal child (Some ret), cbs1)))"

definition BN_marshal_asn1 :: "malloc \<Rightarrow> CBB_ref \<Rightarrow> BIGNUM \<Rightarrow> CBB \<Rightarrow> unit option \<times> CBB" where
  "BN_marshal_asn1 mal cbb bn s =
     (if BN_is_negative bn then (None, s)
      else
        let child = local_child s in
        and_then (CBB_add_asn1 mal cbb child CBS_ASN1_INTEGER s) (\<lambda>_ s1.
        and_then (if BN_num_bits bn mod 8 = 0 then CBB_add_u8 mal (Child child) 0 s1 else (Some (), s1)) (\<lambda>_ s2.
        and_then (BN_bn2cbb_padded mal (Child child) (BN_num_bytes bn) bn s2) (\<lambda>_ s3. CBB_flush mal cbb s3))))"

end
