(* ===== verification/Bytes.thy ===== *)
theory Bytes
  imports Cbs_Props
begin

text \<open>
  Big-endian digits and words in memory: the facts that big numbers and digests share on
  \<open>be_val\<close>, \<open>be_bytes\<close>, \<open>le_word\<close> and the byte swaps, and the loads, stores and copies of
  crypto/internal.h that the digests use.
\<close>

section \<open>Digits\<close>

lemma be_val_append: "be_val (a @ b) = be_val a * 256 ^ length b + be_val b"
  by (induction a) (simp_all add: be_val_Cons algebra_simps power_add)

lemma be_val_replicate_0 [simp]: "be_val (replicate n 0) = 0"
  by (induction n) (simp_all add: be_val_Cons)

lemma be_val_0_iff: "be_val bs = 0 \<longleftrightarrow> (\<forall>b\<in>set bs. b = 0)"
  by (induction bs) (auto simp: be_val_Cons unat_eq_zero)

lemma be_val_inj: "length a = length b \<Longrightarrow> be_val a = be_val b \<Longrightarrow> a = b"
proof (induction a b rule: list_induct2)
  case (Cons x xs y ys)
  have l: "be_val xs < 256 ^ length xs" "be_val ys < 256 ^ length xs"
    using be_val_lt [of xs] be_val_lt [of ys] Cons.hyps by simp_all
  have e: "unat x * 256 ^ length xs + be_val xs = unat y * 256 ^ length xs + be_val ys"
    using Cons.prems Cons.hyps by (simp add: be_val_Cons)
  then have "(unat x * 256 ^ length xs + be_val xs) div 256 ^ length xs =
      (unat y * 256 ^ length xs + be_val ys) div 256 ^ length xs" by simp
  then have "unat x = unat y" using l by simp
  then show ?case using e Cons.IH by (simp add: word_unat_eq_iff)
qed simp

lemma be_bytes_unique: "length bs = k \<Longrightarrow> be_bytes k (be_val bs) = bs"
  using be_val_lt [of bs] by (intro be_val_inj) (simp_all add: be_val_be_bytes)

lemma be_bytes_min:
  assumes "n < 256 ^ k" and "0 < k \<Longrightarrow> 256 ^ (k - 1) \<le> n"
  shows "be_bytes k n = be_min n"
proof -
  have "length (be_min n) = k"
  proof (cases "n = 0")
    case False
    have l: "length (be_min n) \<le> k" by (rule length_be_min_le [OF assms(1)])
    have "n < 256 ^ length (be_min n)" using be_val_lt [of "be_min n"] by simp
    then have "0 < k \<Longrightarrow> (256 :: nat) ^ (k - 1) < 256 ^ length (be_min n)" using assms(2) by linarith
    then have "0 < k \<Longrightarrow> k - 1 < length (be_min n)" by (simp add: power_strict_increasing_iff)
    then show ?thesis using l by (cases k) simp_all
  qed (use assms(2) in \<open>cases k; simp\<close>)
  then show ?thesis using be_bytes_unique [of "be_min n" k] by simp
qed

lemma be_bytes_map: "rev (map (\<lambda>i. byte_of (n div 256 ^ i)) [0..<k]) = be_bytes k n"
proof (induction k arbitrary: n)
  case (Suc k)
  have "[0..<Suc k] = 0 # map Suc [0..<k]" by (simp only: map_Suc_upt) (simp add: upt_rec)
  then show ?case using Suc [of "n div 256"] by (simp add: div_mult2_eq o_def del: upt_Suc)
qed simp

section \<open>Bits of swapped words\<close>

lemma le_word_be: "le_word bs = be_loop 0 (rev bs)"
  by (induction bs) (simp_all add: be_loop_snoc or.commute)

lemma bit_le_word: "length bs \<le> 8 \<Longrightarrow> bit (le_word bs) m \<longleftrightarrow> m div 8 < length bs \<and> bit (bs ! (m div 8)) (m mod 8)"
proof (induction bs arbitrary: m)
  case (Cons b bs)
  show ?case
  proof (cases "m < 8")
    case False
    then have "m div 8 = Suc ((m - 8) div 8)" "m mod 8 = (m - 8) mod 8" by (simp_all add: le_div_geq le_mod_geq)
    moreover have "m < 64" if "(m - 8) div 8 < length bs" using that Cons.prems False by simp
    moreover have "\<not> bit b m" using False bit_imp_le_length [of b m] by auto
    ultimately show ?thesis using False Cons by (auto simp: bit_or_iff bit_push_bit_iff bit_ucast_iff)
  qed (auto simp: bit_or_iff bit_push_bit_iff bit_ucast_iff)
qed simp

lemma bswap4_bits: "\<forall>m\<in>set [0..<32]. bit (CRYPTO_bswap4 x) m \<longleftrightarrow> bit x (24 - 8 * (m div 8) + m mod 8)"
proof -
  have l: "[0..<32] = [0, 1, 2, 3, 4, 5, 6, 7, 8, 9, 10, 11, 12, 13, 14, 15,
      16, 17, 18, 19, 20, 21, 22, 23, 24, 25, 26, 27, 28, 29, 30, 31 :: nat]"
    by code_simp
  have "\<not> bit x n" if "32 \<le> n" for n using that bit_imp_le_length [of x n] by auto
  moreover have s2: "bit x (Suc (Suc 0)) = bit x 2" by (simp only: numeral_2_eq_2)
  ultimately show ?thesis unfolding l list.set
    by (simp add: CRYPTO_bswap4_def Let_def bit_or_iff bit_and_iff bit_drop_bit_eq bit_push_bit_iff s2)
qed

lemma bit_bswap4: "m < 32 \<Longrightarrow> bit (CRYPTO_bswap4 x) m \<longleftrightarrow> bit x (24 - 8 * (m div 8) + m mod 8)"
  using bswap4_bits [of x] by simp

lemma bit_bswap8: "m < 64 \<Longrightarrow> bit (CRYPTO_bswap8 x) m \<longleftrightarrow> bit x (56 - 8 * (m div 8) + m mod 8)"
proof (cases "m < 32")
  case True
  then have "m div 8 \<le> 3" by simp
  moreover have "m mod 8 < 8" by simp
  ultimately have e: "32 + (24 - 8 * (m div 8) + m mod 8) = 56 - 8 * (m div 8) + m mod 8"
    "24 - 8 * (m div 8) + m mod 8 < 32" by linarith+
  have "bit (CRYPTO_bswap8 x) m \<longleftrightarrow> bit (CRYPTO_bswap4 (ucast (drop_bit 32 x))) m"
    using True by (simp add: CRYPTO_bswap8_def bit_or_iff bit_push_bit_iff bit_ucast_iff)
  also have "\<dots> \<longleftrightarrow> bit x (32 + (24 - 8 * (m div 8) + m mod 8))"
    unfolding bit_bswap4 [OF True] bit_ucast_iff bit_drop_bit_eq comp_def using e(2) by simp
  finally show ?thesis unfolding e(1) .
next
  case False
  assume m: "m < 64"
  obtain q j where q: "m = 8 * q + j" "j < 8" 
    using that [of "m div 8" "m mod 8"] by simp
  have q4: "4 \<le> q" "q \<le> 7" using False m q by linarith+
  have "m - 32 = 8 * (q - 4) + j" using q(1) q4 by simp
  then have r: "(m - 32) div 8 = q - 4" "(m - 32) mod 8 = j" "m div 8 = q" "m mod 8 = j"
    using q by simp_all
  have e: "24 - 8 * ((m - 32) div 8) + (m - 32) mod 8 = 56 - 8 * (m div 8) + m mod 8"
    "56 - 8 * (m div 8) + m mod 8 < 32" unfolding r using q4 q(2) by linarith+
  have "\<not> bit (CRYPTO_bswap4 y) m" for y using False bit_imp_le_length [of "CRYPTO_bswap4 y" m] by auto
  then have "bit (CRYPTO_bswap8 x) m \<longleftrightarrow> bit (CRYPTO_bswap4 (ucast x)) (m - 32)"
    using False m by (auto simp: CRYPTO_bswap8_def bit_or_iff bit_push_bit_iff bit_ucast_iff)
  moreover have "m - 32 < 32" using m by simp
  ultimately show ?thesis using e by (simp only: bit_bswap4 bit_ucast_iff) simp
qed

lemma be_bytes_add: "be_bytes (m + k) n = be_bytes m (n div 256 ^ k) @ be_bytes k n"
  by (induction k arbitrary: n) (simp_all add: div_mult2_eq)

lemma be_bytes_split4:
  assumes "n = q * 2 ^ 32 + unat (w :: u32)"
  shows "be_bytes (m + 4) n = be_bytes m q @ be_bytes 4 (unat w)"
proof -
  have w: "unat w < 256 ^ 4" using unsigned_less [of w] by simp
  have p: "(2 :: nat) ^ 32 = 256 ^ 4" by simp
  have "n div 256 ^ 4 = q" "n mod 256 ^ 4 = unat w" using w unfolding assms p by (simp_all del: power_numeral)
  then show ?thesis using be_bytes_mod [of 4 n] by (simp add: be_bytes_add)
qed

section \<open>Loads, stores and copies\<close>

text \<open>The bytes of a word in memory, least significant first, and the same words read back.\<close>

definition CRYPTO_load_u32_le :: "byte list \<Rightarrow> u32" where
  "CRYPTO_load_u32_le bs = ucast (le_word (take 4 bs))"

definition CRYPTO_store_u32_le :: "u32 \<Rightarrow> byte list" where
  "CRYPTO_store_u32_le v = map (\<lambda>i. ucast (drop_bit (8 * i) v)) [0..<4]"

definition CRYPTO_load_u32_be :: "byte list \<Rightarrow> u32" where
  "CRYPTO_load_u32_be bs = CRYPTO_bswap4 (CRYPTO_load_u32_le bs)"

definition CRYPTO_store_u32_be :: "u32 \<Rightarrow> byte list" where
  "CRYPTO_store_u32_be v = CRYPTO_store_u32_le (CRYPTO_bswap4 v)"

text \<open>Copying \<open>src\<close> into an array at an index.\<close>

definition memcpy_at :: "byte list \<Rightarrow> nat \<Rightarrow> byte list \<Rightarrow> byte list" where
  "memcpy_at dst n src = take n dst @ src @ drop (n + length src) dst"

lemma length_memcpy_at [simp]: "n + length src \<le> length dst \<Longrightarrow> length (memcpy_at dst n src) = length dst"
  by (simp add: memcpy_at_def)

lemma nth_memcpy_at:
  "n + length src \<le> length dst \<Longrightarrow> j < length dst \<Longrightarrow>
    memcpy_at dst n src ! j = (if n \<le> j \<and> j < n + length src then src ! (j - n) else dst ! j)"
  by (auto simp: memcpy_at_def nth_append min_def)

lemma store_u32_le: "CRYPTO_store_u32_le v = rev (be_bytes 4 (unat v))"
proof -
  have d: "ucast (drop_bit (8 * i) v) = byte_of (unat v div 256 ^ i)" for i
  proof -
    have "unat (drop_bit (8 * i) v) = unat v div 256 ^ i"
      unfolding unat_drop_bit by (simp add: power_mult)
    then show ?thesis by (simp add: word_unat_eq_iff unat_ucast_mod)
  qed
  have "rev (CRYPTO_store_u32_le v) = be_bytes 4 (unat v)"
    unfolding CRYPTO_store_u32_le_def d by (rule be_bytes_map)
  then show ?thesis by (metis rev_rev_ident)
qed

lemma length_store_u32 [simp]: "length (CRYPTO_store_u32_le v) = 4" "length (CRYPTO_store_u32_be v) = 4"
  by (simp_all add: CRYPTO_store_u32_be_def store_u32_le)

text \<open>The bytes of a word by their position, and what a byte swap does to it.\<close>

lemma bswap4_swap: "CRYPTO_bswap4 (CRYPTO_bswap4 x) = x"
proof (rule bit_word_eqI)
  fix m assume "m < LENGTH(32)"
  then have m: "m < 32" by simp
  then obtain q j where q: "m = 8 * q + j" "j < 8" "q \<le> 3"
    using that [of "m div 8" "m mod 8"] by simp
  have k: "24 - 8 * q + j < 32" using q by simp
  have e: "24 - 8 * q + j = 8 * (3 - q) + j" using q by simp
  have d: "(24 - 8 * q + j) div 8 = 3 - q" "(24 - 8 * q + j) mod 8 = j" unfolding e using q(2) by simp_all
  have d2: "m div 8 = q" "m mod 8 = j" using q by simp_all
  have "bit (CRYPTO_bswap4 (CRYPTO_bswap4 x)) m \<longleftrightarrow> bit x (24 - 8 * (3 - q) + j)"
    unfolding bit_bswap4 [OF m] d2 bit_bswap4 [OF k] d ..
  also have "24 - 8 * (3 - q) + j = m" using q by simp
  finally show "bit (CRYPTO_bswap4 (CRYPTO_bswap4 x)) m \<longleftrightarrow> bit x m" .
qed

lemma store_u32_be: "CRYPTO_store_u32_be v = be_bytes 4 (unat v)"
proof -
  have b: "bit (CRYPTO_store_u32_be v ! i) m \<longleftrightarrow> bit (rev (CRYPTO_store_u32_le v) ! i) m" if i: "i < 4" and m: "m < 8" for i m
  proof -
    have k: "8 * i + m < 32" using i m by simp
    have d: "(8 * i + m) div 8 = i" "(8 * i + m) mod 8 = m" using m by simp_all
    have e: "24 - 8 * i + m = 8 * (3 - i) + m" using i by simp
    show ?thesis
      using i m k bit_bswap4 [OF k, of v] e unfolding CRYPTO_store_u32_be_def CRYPTO_store_u32_le_def d
      by (simp add: rev_nth bit_ucast_iff bit_drop_bit_eq)
  qed
  have "CRYPTO_store_u32_be v = rev (CRYPTO_store_u32_le v)"
    by (rule nth_equalityI) (auto intro!: bit_word_eqI simp: b)
  then show ?thesis by (simp add: store_u32_le)
qed


text \<open>What is loaded is the value of the digits.\<close>

lemma load_u32_be:
  assumes "4 \<le> length bs"
  shows "CRYPTO_load_u32_be bs = of_nat (be_val (take 4 bs))"
proof -
  define l where "l = take 4 bs"
  have l: "length l = 4" using assms by (simp add: l_def)
  have "CRYPTO_load_u32_be bs = ucast (le_word (rev l))"
  proof (rule bit_word_eqI)
    fix m assume "m < LENGTH(32)"
    then have m: "m < 32" by simp
    then obtain q j where q: "m = 8 * q + j" "j < 8" "q \<le> 3"
      using that [of "m div 8" "m mod 8"] by simp
    have k: "24 - 8 * q + j < 32" using q by simp
    have e: "24 - 8 * q + j = 8 * (3 - q) + j" using q by simp
    have d: "(24 - 8 * q + j) div 8 = 3 - q" "(24 - 8 * q + j) mod 8 = j" unfolding e using q(2) by simp_all
    have d2: "m div 8 = q" "m mod 8 = j" using q by simp_all
    have "bit (CRYPTO_load_u32_be bs) m \<longleftrightarrow> bit (l ! (3 - q)) j"
      unfolding CRYPTO_load_u32_be_def bit_bswap4 [OF m] d2 CRYPTO_load_u32_le_def l_def [symmetric]
      using k l q bit_le_word [of l "24 - 8 * q + j"] unfolding d by (auto simp: bit_ucast_iff)
    moreover have "bit (ucast (le_word (rev l)) :: u32) m \<longleftrightarrow> bit (l ! (3 - q)) j"
      using m l q bit_le_word [of "rev l" m] unfolding d2 by (simp add: bit_ucast_iff rev_nth)
    ultimately show "bit (CRYPTO_load_u32_be bs) m \<longleftrightarrow> bit (ucast (le_word (rev l)) :: u32) m" by simp
  qed
  also have "le_word (rev l) = be_loop 0 l" by (simp add: le_word_be)
  also have "ucast (be_loop 0 l) = (of_nat (be_val l) :: u32)"
  proof -
    have "unat (be_loop 0 l) = be_val l" using l by (intro be_loop_be_val) simp
    then show ?thesis by (simp only: of_nat_unat flip: \<open>unat (be_loop 0 l) = be_val l\<close>)
  qed
  finally show ?thesis unfolding l_def .
qed

end
