(* ===== verification/Bn_Val.thy ===== *)
theory Bn_Val
  imports Bn
begin

text \<open>
  The value of a list of words, what the word loops of the big-number code do to it, and the
  value of a \<open>BIGNUM\<close>.
\<close>

section \<open>Values of word lists\<close>

fun words_val :: "u64 list \<Rightarrow> nat" where
  "words_val [] = 0"
| "words_val (w # ws) = unat w + 2 ^ 64 * words_val ws"

lemma words_val_append: "words_val (a @ b) = words_val a + 2 ^ (64 * length a) * words_val b"
  by (induction a) (simp_all add: power_add algebra_simps)

lemma words_val_lt: "words_val ws < 2 ^ (64 * length ws)"
proof (induction ws)
  case (Cons w ws)
  have "unat w + 2 ^ 64 * words_val ws < 2 ^ 64 * (words_val ws + 1)" using unat_u64_lt [of w] by simp
  also have "\<dots> \<le> 2 ^ 64 * 2 ^ (64 * length ws)" using Cons by (intro mult_left_mono) simp_all
  finally show ?case by (simp add: power_add)
qed simp

lemma words_val_0_iff: "words_val ws = 0 \<longleftrightarrow> (\<forall>w\<in>set ws. w = 0)"
  by (induction ws) (auto simp: unat_eq_zero)

lemma words_val_replicate [simp]: "words_val (replicate n 0) = 0"
  by (simp add: words_val_0_iff)

lemma words_val_take_drop: "words_val (take n ws) + 2 ^ (64 * length (take n ws)) * words_val (drop n ws) = words_val ws"
  using words_val_append [of "take n ws" "drop n ws"] by simp

lemma words_val_snoc: "words_val (ws @ [w]) = words_val ws + 2 ^ (64 * length ws) * unat w"
  by (simp add: words_val_append)

lemma or_words_0: "or_words m ws = 0 \<longleftrightarrow> m = 0 \<and> words_val ws = 0"
proof (induction ws arbitrary: m)
  case (Cons w ws)
  have "m OR w = 0 \<longleftrightarrow> m = 0 \<and> w = 0" by (auto simp: bit_eq_iff bit_or_iff)
  then show ?case using Cons by (auto simp: unat_eq_zero)
qed simp

lemma minimal_width_le: "minimal_width d n \<le> n"
  by (induction n) auto

lemma minimal_width_val: "n \<le> length d \<Longrightarrow> words_val (take (minimal_width d n) d) = words_val (take n d)"
  by (induction n) (auto simp: take_Suc_conv_app_nth words_val_snoc)

lemma minimal_width_top: "0 < minimal_width d n \<Longrightarrow> d ! (minimal_width d n - 1) \<noteq> 0"
  by (induction n) (auto split: if_splits)

lemma minimal_width_0: "n \<le> length d \<Longrightarrow> minimal_width d n = 0 \<longleftrightarrow> words_val (take n d) = 0"
proof
  assume n: "n \<le> length d" and "words_val (take n d) = 0"
  then have z: "words_val (take (minimal_width d n) d) = 0" using minimal_width_val by simp
  show "minimal_width d n = 0"
  proof (rule ccontr)
    assume m: "minimal_width d n \<noteq> 0"
    then have "d ! (minimal_width d n - 1) \<in> set (take (minimal_width d n) d)"
      using n minimal_width_le [of d n] by (auto simp: in_set_conv_nth intro!: exI [of _ "minimal_width d n - 1"])
    then show False using z m minimal_width_top [of d n] by (auto simp: words_val_0_iff)
  qed
next
  assume "n \<le> length d" and "minimal_width d n = 0"
  then show "words_val (take n d) = 0" using minimal_width_val [of n d] by simp
qed

section \<open>Word arithmetic\<close>

lemma addc_w:
  assumes "CRYPTO_addc_w x y k = (r, c)" and "unat k \<le> 1"
  shows "unat r + 2 ^ 64 * unat c = unat x + unat y + unat k" and "unat c \<le> 1"
proof -
  let ?s = "unat k + (unat x + unat y)"
  let ?w = "ucast k + (ucast x + ucast y) :: 128 word"
  have b: "?s < 2 ^ 65" using unat_u64_lt [of x] unat_u64_lt [of y] assms(2) by simp
  have u: "unat (ucast z :: 128 word) = unat z" for z :: u64 using unat_u64_lt [of z] by (intro unat_ucast_less) simp
  have w: "unat ?w = ?s" using b by (simp add: unat_word_ariths u)
  have r: "unat r = ?s mod 2 ^ 64" using assms(1) w by (auto simp: CRYPTO_addc_w_def Let_def unat_ucast_mod)
  have d: "unat (drop_bit 64 ?w) = ?s div 2 ^ 64" by (simp only: unat_drop_bit w)
  have "?s div 2 ^ 64 \<le> 1" using b by (simp add: less_mult_imp_div_less less_Suc_eq_le [symmetric])
  then have c: "unat c = ?s div 2 ^ 64" "unat c \<le> 1"
    using assms(1) d by (auto simp: CRYPTO_addc_w_def Let_def unat_ucast_mod)
  show "unat r + 2 ^ 64 * unat c = unat x + unat y + unat k" using r c(1) by simp
  show "unat c \<le> 1" by (rule c(2))
qed

lemma subc_w:
  assumes "CRYPTO_subc_w x y k = (r, c)" and "unat k \<le> 1"
  shows "unat x + 2 ^ 64 * unat c = unat r + unat y + unat k" and "unat c \<le> 1"
proof -
  have k: "k = 0 \<or> k = 1" using assms(2) by (auto simp: word_unat_eq_iff le_Suc_eq)
  have r: "r = x - y - k" and c: "c = (if x < y \<or> x = y \<and> k = 1 then 1 else 0)"
    using assms(1) k by (auto simp: CRYPTO_subc_w_def)
  have xy: "unat (x - y) = (if unat y \<le> unat x then unat x - unat y else unat x + 2 ^ 64 - unat y)"
    using unat_sub_if' [of x y] by simp
  have "unat r = (if unat k \<le> unat (x - y) then unat (x - y) - unat k else unat (x - y) + 2 ^ 64 - unat k)"
    unfolding r using unat_sub_if' [of "x - y" k] by simp
  then show "unat x + 2 ^ 64 * unat c = unat r + unat y + unat k"
    using k unat_u64_lt [of x] unat_u64_lt [of y]
    by (auto simp: c xy word_less_nat_alt word_unat_eq_iff split: if_splits)
  show "unat c \<le> 1" by (simp add: c)
qed

lemma add_words_loop:
  "add_words_loop k a b n = (rs, c) \<Longrightarrow> unat k \<le> 1 \<Longrightarrow> n \<le> length a \<Longrightarrow> n \<le> length b \<Longrightarrow>
     length rs = n \<and> unat c \<le> 1 \<and>
     words_val rs + 2 ^ (64 * n) * unat c = words_val (take n a) + words_val (take n b) + unat k"
proof (induction n arbitrary: k a b rs c)
  case (Suc n)
  obtain x a' y b' where ab: "a = x # a'" "b = y # b'" using Suc.prems by (metis Suc_le_length_iff)
  obtain r k1 where r: "CRYPTO_addc_w x y k = (r, k1)" by fastforce
  obtain rs' where rs: "add_words_loop k1 a' b' n = (rs', c)" "rs = r # rs'"
    using Suc.prems(1) by (auto simp: ab r Let_def split: prod.splits)
  note s = addc_w [OF r Suc.prems(2)]
  have IH: "length rs' = n" "unat c \<le> 1"
    "words_val rs' + 2 ^ (64 * n) * unat c = words_val (take n a') + words_val (take n b') + unat k1"
    using Suc.IH [OF rs(1) s(2)] Suc.prems(3,4) by (simp_all add: ab)
  have "2 ^ 64 * (words_val rs' + 2 ^ (64 * n) * unat c) =
      2 ^ 64 * (words_val (take n a') + words_val (take n b') + unat k1)" by (simp only: IH(3))
  then show ?case using s(1) IH(1,2) by (simp add: ab rs(2) power_add algebra_simps)
qed simp

lemma sub_words_loop:
  "sub_words_loop k a b n = (rs, c) \<Longrightarrow> unat k \<le> 1 \<Longrightarrow> n \<le> length a \<Longrightarrow> n \<le> length b \<Longrightarrow>
     length rs = n \<and> unat c \<le> 1 \<and>
     words_val (take n a) + 2 ^ (64 * n) * unat c = words_val rs + words_val (take n b) + unat k"
proof (induction n arbitrary: k a b rs c)
  case (Suc n)
  obtain x a' y b' where ab: "a = x # a'" "b = y # b'" using Suc.prems by (metis Suc_le_length_iff)
  obtain r k1 where r: "CRYPTO_subc_w x y k = (r, k1)" by fastforce
  obtain rs' where rs: "sub_words_loop k1 a' b' n = (rs', c)" "rs = r # rs'"
    using Suc.prems(1) by (auto simp: ab r Let_def split: prod.splits)
  note s = subc_w [OF r Suc.prems(2)]
  have IH: "length rs' = n" "unat c \<le> 1"
    "words_val (take n a') + 2 ^ (64 * n) * unat c = words_val rs' + words_val (take n b') + unat k1"
    using Suc.IH [OF rs(1) s(2)] Suc.prems(3,4) by (simp_all add: ab)
  have "2 ^ 64 * (words_val (take n a') + 2 ^ (64 * n) * unat c) =
      2 ^ 64 * (words_val rs' + words_val (take n b') + unat k1)" by (simp only: IH(3))
  then show ?case using s(1) IH(1,2) by (simp add: ab rs(2) power_add algebra_simps)
qed simp

lemma addc_rest:
  "addc_rest k xs = (rs, c) \<Longrightarrow> unat k \<le> 1 \<Longrightarrow>
     length rs = length xs \<and> unat c \<le> 1 \<and>
     words_val rs + 2 ^ (64 * length xs) * unat c = words_val xs + unat k"
proof (induction xs arbitrary: k rs c)
  case (Cons x xs)
  obtain r k1 where r: "CRYPTO_addc_w x 0 k = (r, k1)" by fastforce
  obtain rs' where rs: "addc_rest k1 xs = (rs', c)" "rs = r # rs'"
    using Cons.prems(1) by (auto simp: r Let_def split: prod.splits)
  note s = addc_w [OF r Cons.prems(2)]
  note IH = Cons.IH [OF rs(1) s(2)]
  have "2 ^ 64 * (words_val rs' + 2 ^ (64 * length xs) * unat c) = 2 ^ 64 * (words_val xs + unat k1)"
    using IH by simp
  then show ?case using s(1) IH by (simp add: rs(2) power_add algebra_simps)
qed simp

lemma subc_rest:
  "subc_rest k xs = (rs, c) \<Longrightarrow> unat k \<le> 1 \<Longrightarrow>
     length rs = length xs \<and> unat c \<le> 1 \<and>
     words_val xs + 2 ^ (64 * length xs) * unat c = words_val rs + unat k"
proof (induction xs arbitrary: k rs c)
  case (Cons x xs)
  obtain r k1 where r: "CRYPTO_subc_w x 0 k = (r, k1)" by fastforce
  obtain rs' where rs: "subc_rest k1 xs = (rs', c)" "rs = r # rs'"
    using Cons.prems(1) by (auto simp: r Let_def split: prod.splits)
  note s = subc_w [OF r Cons.prems(2)]
  note IH = Cons.IH [OF rs(1) s(2)]
  have "2 ^ 64 * (words_val xs + 2 ^ (64 * length xs) * unat c) = 2 ^ 64 * (words_val rs' + unat k1)"
    using IH by simp
  then show ?case using s(1) IH by (simp add: rs(2) power_add algebra_simps)
qed simp

section \<open>Comparison\<close>

lemma select_int_mask:
  "constant_time_select_int (if c then - 1 else 0) a b = (if c then a else b)"
  by (simp add: constant_time_select_int_def constant_time_select_w_def ucast_scast)

lemma select_int_zero:
  "constant_time_select_int (constant_time_is_zero_w m) a b = (if m = 0 then a else b)"
  by (simp add: is_zero_w select_int_mask)

lemma cmp_words_loop:
  "n \<le> length a \<Longrightarrow> n \<le> length b \<Longrightarrow>
     cmp_words_loop ret a b n =
       (if words_val (take n a) = words_val (take n b) then ret
        else if words_val (take n a) < words_val (take n b) then - 1 else 1)"
proof (induction n arbitrary: ret a b)
  case (Suc n)
  obtain x a' y b' where ab: "a = x # a'" "b = y # b'" using Suc.prems by (metis Suc_le_length_iff)
  have x: "unat x < 2 ^ 64" "unat y < 2 ^ 64" using unat_u64_lt [of x] unat_u64_lt [of y] by simp_all
  have eq: "unat x + 2 ^ 64 * p = unat y + 2 ^ 64 * q \<longleftrightarrow> p = q \<and> x = y" for p q :: nat
    using x by (cases p q rule: linorder_cases) (auto simp: word_unat_eq_iff)
  have less: "unat x + 2 ^ 64 * p < unat y + 2 ^ 64 * q \<longleftrightarrow> p < q \<or> p = q \<and> x < y" for p q :: nat
    using x by (cases p q rule: linorder_cases) (auto simp: word_less_nat_alt)
  have "cmp_words_loop ret a b (Suc n) = cmp_words_loop (if x = y then ret else if x < y then - 1 else 1) a' b' n"
    by (simp add: ab eq_w lt_w select_int_mask)
  also have "\<dots> = (if words_val (take n a') = words_val (take n b') then (if x = y then ret else if x < y then - 1 else 1)
        else if words_val (take n a') < words_val (take n b') then - 1 else 1)"
    using Suc.prems by (intro Suc.IH) (simp_all add: ab)
  finally show ?case by (simp only: ab take_Suc_Cons words_val.simps eq less) auto
qed simp

definition sign_of :: "nat \<Rightarrow> nat \<Rightarrow> int" where
  "sign_of x y = (if x < y then - 1 else if x = y then 0 else 1)"

lemma bn_cmp_words:
  assumes "m \<le> length a" and "n \<le> length b"
  shows "bn_cmp_words_consttime a m b n = sign_of (words_val (take m a)) (words_val (take n b))"
proof -
  define k where "k = min m n"
  have t: "take k (take m a) = take k a" "take k (take n b) = take k b" by (simp_all add: k_def)
  have k: "k \<le> length a" "k \<le> length b" "(if m < n then m else n) = k" using assms by (auto simp: k_def)
  have sp: "words_val (take m a) = words_val (take k a) + 2 ^ (64 * k) * words_val (drop k (take m a))"
    "words_val (take n b) = words_val (take k b) + 2 ^ (64 * k) * words_val (drop k (take n b))"
    using words_val_append [of "take k a" "drop k (take m a)"] words_val_append [of "take k b" "drop k (take n b)"]
      append_take_drop_id [of k "take m a"] append_take_drop_id [of k "take n b"] t k by (simp_all add: min_def)
  have lt: "words_val (take k a) < 2 ^ (64 * k)" "words_val (take k b) < 2 ^ (64 * k)"
    using words_val_lt [of "take k a"] words_val_lt [of "take k b"] k(1,2) by (simp_all only: length_take min_absorb2)
  have s: "sint (- 1 :: u32) = - 1" "sint (1 :: u32) = 1" "sint (0 :: u32) = 0" by simp_all
  have big: "x < y + 2 ^ (64 * k) * z" if "x < 2 ^ (64 * k)" "z \<noteq> 0" for x y z :: nat
  proof -
    have "2 ^ (64 * k) * 1 \<le> 2 ^ (64 * k) * z" using that(2) by (intro mult_left_mono) simp_all
    then show ?thesis using that(1) by linarith
  qed
  note c = cmp_words_loop [OF k(1,2), of 0]
  consider "m < n" | "n < m" | "m = n" by linarith
  then show ?thesis
  proof cases
    case 1
    then have km: "k = m" by (simp add: k_def)
    show ?thesis
    proof (cases "words_val (drop k (take n b)) = 0")
      case True
      then show ?thesis using 1 sp c by (simp add: bn_cmp_words_consttime_def km select_int_zero or_words_0 sign_of_def)
    next
      case False
      then show ?thesis using 1 sp c big [OF lt(1) False]
        by (simp add: bn_cmp_words_consttime_def km select_int_zero or_words_0 sign_of_def)
    qed
  next
    case 2
    then have kn: "k = n" by (simp add: k_def)
    show ?thesis
    proof (cases "words_val (drop k (take m a)) = 0")
      case True
      then show ?thesis using 2 sp c by (simp add: bn_cmp_words_consttime_def kn select_int_zero or_words_0 sign_of_def)
    next
      case False
      then show ?thesis using 2 sp c big [OF lt(2) False, of "words_val (take k a)"]
        by (simp add: bn_cmp_words_consttime_def kn select_int_zero or_words_0 sign_of_def)
    qed
  next
    case 3
    then show ?thesis using c by (simp add: bn_cmp_words_consttime_def k_def sign_of_def)
  qed
qed

end
