(* ===== verification/Bn_Props.thy ===== *)
theory Bn_Props
  imports Bn_Val
begin

text \<open>
  Big numbers implement the integers: the value of a \<open>BIGNUM\<close>, its invariant, and the
  operations of add.c and cmp.c on values.
\<close>

section \<open>The value of a number\<close>

definition bn_mag :: "BIGNUM \<Rightarrow> nat" where
  "bn_mag bn = words_val (bn_words bn)"

definition bn_int :: "BIGNUM \<Rightarrow> int" where
  "bn_int bn = (if neg bn then - int (bn_mag bn) else int (bn_mag bn))"

definition bn_sized :: "BIGNUM \<Rightarrow> bool" where
  "bn_sized bn \<longleftrightarrow> length (bn_d bn) = dmax bn \<and> width bn \<le> dmax bn"

text \<open>Only a number other than zero may be negative.\<close>

definition bn_wf :: "BIGNUM \<Rightarrow> bool" where
  "bn_wf bn \<longleftrightarrow> bn_sized bn \<and> (neg bn \<longrightarrow> bn_mag bn \<noteq> 0)"

text \<open>A number has, or can get, room for \<open>n\<close> words.\<close>

definition bn_room :: "malloc \<Rightarrow> nat \<Rightarrow> BIGNUM \<Rightarrow> bool" where
  "bn_room mal n bn \<longleftrightarrow>
     n \<le> dmax bn \<or> n \<le> BN_MAX_WORDS \<and> \<not> static_data bn \<and> (\<forall>m. mal m \<noteq> None)"

lemma length_bn_words [simp]: "bn_sized bn \<Longrightarrow> length (bn_words bn) = width bn"
  by (simp add: bn_sized_def bn_words_def)

lemma bn_mag_lt: "bn_sized bn \<Longrightarrow> bn_mag bn < 2 ^ (64 * width bn)"
  using words_val_lt [of "bn_words bn"] by (simp add: bn_mag_def)

lemma wexpand_ok:
  assumes "bn_sized r" and "bn_room mal n r"
  obtains r1 where "bn_wexpand mal n r = (Some (), r1)" and "length (bn_d r1) = dmax r1" and "n \<le> dmax r1"
    and "width r1 = width r" and "neg r1 = neg r" and "bn_words r1 = bn_words r" and "bn_sized r1"
proof (cases "n \<le> dmax r")
  case True
  then show thesis using that [of r] assms(1) by (simp add: bn_wexpand_def bn_sized_def)
next
  case False
  then have big: "n \<le> BN_MAX_WORDS" "\<not> static_data r" "\<forall>m. mal m \<noteq> None" using assms(2) by (auto simp: bn_room_def)
  have "n * 8 < 2 ^ 63" using big(1) by (simp add: BN_MAX_WORDS_def)
  then obtain z where z: "OPENSSL_calloc mal n 8 = Some z" using OPENSSL_calloc_total [OF big(3), of n 8] by auto
  let ?r = "r\<lparr>bn_d := bn_words r @ replicate (n - width r) 0, dmax := n\<rparr>"
  have w: "width r \<le> n" using assms(1) False by (simp add: bn_sized_def)
  have "bn_wexpand mal n r = (Some (), ?r)" using False big z by (simp add: bn_wexpand_def)
  moreover have "length (bn_d ?r) = n" using assms(1) w by simp
  moreover have "bn_words ?r = bn_words r" using assms(1) by (simp add: bn_words_def bn_sized_def min_def)
  ultimately show thesis using that [of ?r] w by (simp add: bn_sized_def)
qed

lemma set_minimal_width:
  assumes "bn_sized bn"
  shows "bn_sized (bn_set_minimal_width bn)" and "bn_mag (bn_set_minimal_width bn) = bn_mag bn"
    and "neg (bn_set_minimal_width bn) \<longleftrightarrow> neg bn \<and> bn_mag bn \<noteq> 0"
proof -
  have l: "width bn \<le> length (bn_d bn)" using assms by (simp add: bn_sized_def)
  show "bn_sized (bn_set_minimal_width bn)"
    using assms minimal_width_le [of "bn_d bn" "width bn"]
    by (simp add: bn_sized_def bn_set_minimal_width_def bn_minimal_width_def Let_def)
  show "bn_mag (bn_set_minimal_width bn) = bn_mag bn" using minimal_width_val [OF l]
    by (simp add: bn_mag_def bn_words_def bn_set_minimal_width_def bn_minimal_width_def Let_def)
  show "neg (bn_set_minimal_width bn) \<longleftrightarrow> neg bn \<and> bn_mag bn \<noteq> 0" using minimal_width_0 [OF l]
    by (simp add: bn_mag_def bn_words_def bn_set_minimal_width_def bn_minimal_width_def Let_def)
qed

lemma bn_mag_neg [simp]: "bn_mag (bn\<lparr>neg := s\<rparr>) = bn_mag bn" "bn_sized (bn\<lparr>neg := s\<rparr>) = bn_sized bn"
  by (simp_all add: bn_mag_def bn_words_def bn_sized_def)

lemma is_zero: "BN_is_zero bn \<longleftrightarrow> bn_mag bn = 0"
  by (simp add: BN_is_zero_def bn_fits_in_words_def or_words_0 bn_mag_def)

lemma fits_in_words: "bn_fits_in_words bn n \<longleftrightarrow> words_val (drop n (bn_words bn)) = 0"
  by (simp add: bn_fits_in_words_def or_words_0)

lemma ucmp: "bn_sized a \<Longrightarrow> bn_sized b \<Longrightarrow> BN_ucmp a b = sign_of (bn_mag a) (bn_mag b)"
  by (simp add: BN_ucmp_def bn_cmp_words bn_sized_def bn_mag_def bn_words_def)

section \<open>Magnitudes\<close>

lemma uadd_consttime:
  assumes "bn_sized a" and "bn_sized b" and "bn_sized r" and "bn_room mal (max (width a) (width b) + 1) r"
  obtains r1 where "bn_uadd_consttime mal r a b = (Some (), r1)" and "bn_sized r1"
    and "bn_mag r1 = bn_mag a + bn_mag b" and "neg r1 = neg r"
proof -
  define x where "x = (if width a < width b then b else a)"
  define y where "y = (if width a < width b then a else b)"
  have xy: "bn_sized x" "bn_sized y" "width y \<le> width x" "bn_mag x + bn_mag y = bn_mag a + bn_mag b"
    "max (width a) (width b) = width x"
    using assms(1,2) by (auto simp: x_def y_def)
  obtain r0 where r0: "bn_wexpand mal (width x + 1) r = (Some (), r0)" "length (bn_d r0) = dmax r0"
    "width x + 1 \<le> dmax r0" "neg r0 = neg r"
    using wexpand_ok [OF assms(3), of mal "width x + 1"] assms(4) xy(5) by auto
  obtain lo k where lo: "add_words_loop 0 (bn_d x) (bn_d y) (width y) = (lo, k)" by fastforce
  obtain hi c where hi: "addc_rest k (drop (width y) (take (width x) (bn_d x))) = (hi, c)" by fastforce
  have l: "width y \<le> length (bn_d x)" "width y \<le> length (bn_d y)" "width x \<le> length (bn_d x)"
    using xy(1-3) by (simp_all add: bn_sized_def)
  note L = add_words_loop [OF lo _ l(1,2), simplified]
  have k: "unat k \<le> 1" using L by simp
  note H = addc_rest [OF hi k]
  have lens: "length lo = width y" "length hi = width x - width y" using L H l by simp_all
  let ?r = "r0\<lparr>bn_d := lo @ hi @ [c] @ drop (width x + 1) (bn_d r0), width := width x + 1\<rparr>"
  have "words_val (lo @ hi @ [c]) = words_val lo + 2 ^ (64 * width y) * (words_val hi + 2 ^ (64 * (width x - width y)) * unat c)"
    by (simp add: words_val_append lens)
  also have "\<dots> = words_val lo + 2 ^ (64 * width y) * (words_val (drop (width y) (take (width x) (bn_d x))) + unat k)"
    using H l xy(3) by simp
  also have "\<dots> = words_val (take (width y) (bn_d x)) + words_val (take (width y) (bn_d y)) +
      2 ^ (64 * width y) * words_val (drop (width y) (take (width x) (bn_d x)))"
    using L by (simp add: algebra_simps)
  also have "\<dots> = bn_mag x + bn_mag y"
    using words_val_append [of "take (width y) (bn_d x)" "drop (width y) (take (width x) (bn_d x))"]
      append_take_drop_id [of "width y" "take (width x) (bn_d x)"] l xy(3)
    by (simp add: bn_mag_def bn_words_def min_def)
  finally have v: "words_val (lo @ hi @ [c]) = bn_mag x + bn_mag y" .
  have w: "bn_words ?r = lo @ hi @ [c]" using lens xy(3) by (simp add: bn_words_def)
  have "bn_uadd_consttime mal r a b = (Some (), ?r)"
    using r0(1) lo hi by (auto simp: bn_uadd_consttime_def x_def y_def bn_add_words_def Let_def)
  moreover have "bn_sized ?r" using r0(2,3) lens xy(3) by (simp add: bn_sized_def)
  ultimately show thesis using that [of ?r] v w xy(4) r0(4) by (simp add: bn_mag_def)
qed

lemma uadd:
  assumes "bn_sized a" and "bn_sized b" and "bn_sized r" and "bn_room mal (max (width a) (width b) + 1) r"
  obtains r1 where "BN_uadd mal r a b = (Some (), r1)" and "bn_sized r1" and "bn_mag r1 = bn_mag a + bn_mag b"
proof -
  obtain r1 where "bn_uadd_consttime mal r a b = (Some (), r1)" "bn_sized r1" "bn_mag r1 = bn_mag a + bn_mag b"
    by (rule uadd_consttime [OF assms])
  then show thesis using that [of "bn_set_minimal_width r1"] set_minimal_width [of r1] by (simp add: BN_uadd_def)
qed

lemma high_words_0:
  assumes "bn_sized b" and "bn_mag b < 2 ^ (64 * n)"
  shows "words_val (drop n (bn_words b)) = 0" and "words_val (take n (bn_words b)) = bn_mag b"
proof -
  have s: "words_val (take n (bn_words b)) + 2 ^ (64 * length (take n (bn_words b))) * words_val (drop n (bn_words b)) = bn_mag b"
    using words_val_take_drop [of n "bn_words b"] by (simp add: bn_mag_def)
  show z: "words_val (drop n (bn_words b)) = 0"
  proof (cases "n \<le> width b")
    case True
    then have l: "length (take n (bn_words b)) = n" using assms(1) by simp
    show ?thesis
    proof (rule ccontr)
      assume "words_val (drop n (bn_words b)) \<noteq> 0"
      then have "2 ^ (64 * n) * 1 \<le> 2 ^ (64 * n) * words_val (drop n (bn_words b))" by (intro mult_left_mono) simp_all
      then show False using s assms(2) unfolding l by linarith
    qed
  next
    case False
    then show ?thesis using assms(1) by simp
  qed
  show "words_val (take n (bn_words b)) = bn_mag b" using s z by simp
qed

lemma usub:
  assumes "bn_sized a" and "bn_sized b" and "bn_sized r" and "bn_room mal (width a) r" and le: "bn_mag b \<le> bn_mag a"
  obtains r1 where "BN_usub mal r a b = (Some (), r1)" and "bn_sized r1" and "bn_mag r1 = bn_mag a - bn_mag b"
    and "\<not> neg r1"
proof -
  define bw where "bw = (if width b > width a then width a else width b)"
  have bw: "bw \<le> width a" "bw \<le> width b" by (simp_all add: bw_def)
  have lt: "bn_mag b < 2 ^ (64 * width a)" using le bn_mag_lt [OF assms(1)] by simp
  have fits: "width b > width a \<Longrightarrow> bn_fits_in_words b (width a)"
    using high_words_0(1) [OF assms(2) lt] by (simp add: fits_in_words)
  have b: "words_val (take bw (bn_d b)) = bn_mag b"
    using high_words_0(2) [OF assms(2) lt] by (auto simp: bw_def bn_words_def bn_mag_def min_def split: if_splits)
  obtain r0 where r0: "bn_wexpand mal (width a) r = (Some (), r0)" "length (bn_d r0) = dmax r0" "width a \<le> dmax r0"
    using wexpand_ok [OF assms(3,4)] by blast
  obtain lo k where lo: "sub_words_loop 0 (bn_d a) (bn_d b) bw = (lo, k)" by fastforce
  obtain hi c where hi: "subc_rest k (drop bw (take (width a) (bn_d a))) = (hi, c)" by fastforce
  have l: "bw \<le> length (bn_d a)" "bw \<le> length (bn_d b)" "width a \<le> length (bn_d a)"
    using assms(1,2) bw by (simp_all add: bn_sized_def)
  note L = sub_words_loop [OF lo _ l(1,2), simplified]
  have k: "unat k \<le> 1" using L by simp
  note H = subc_rest [OF hi k]
  have lens: "length lo = bw" "length hi = width a - bw" using L H l by simp_all
  let ?x = "drop bw (take (width a) (bn_d a))"
  have a: "words_val (take bw (bn_d a)) + 2 ^ (64 * bw) * words_val ?x = bn_mag a"
    using words_val_append [of "take bw (bn_d a)" ?x] append_take_drop_id [of bw "take (width a) (bn_d a)"] l bw
    by (simp add: bn_mag_def bn_words_def min_def)
  have "2 ^ (64 * bw) * (words_val ?x + 2 ^ (64 * length ?x) * unat c) = 2 ^ (64 * bw) * (words_val hi + unat k)"
    using H by simp
  then have "bn_mag a + 2 ^ (64 * bw) * 2 ^ (64 * length ?x) * unat c = words_val lo + 2 ^ (64 * bw) * words_val hi + bn_mag b"
    using L a b by (simp add: algebra_simps)
  then have v: "bn_mag a + 2 ^ (64 * width a) * unat c = words_val (lo @ hi) + bn_mag b"
    using l bw by (simp add: words_val_append lens power_add [symmetric] algebra_simps)
  have "words_val (lo @ hi) < 2 ^ (64 * width a)" using words_val_lt [of "lo @ hi"] lens bw by simp
  then have "\<not> 2 ^ (64 * width a) * 1 \<le> 2 ^ (64 * width a) * unat c" using v le by linarith
  then have c: "c = 0" by (cases "unat c = 0") (simp_all add: unat_eq_zero)
  let ?r = "r0\<lparr>bn_d := lo @ hi @ drop (width a) (bn_d r0), width := width a, neg := False\<rparr>"
  have s: "bn_sized ?r" using r0(2,3) lens bw by (simp add: bn_sized_def)
  have m: "bn_mag ?r = bn_mag a - bn_mag b" using v c lens bw by (simp add: bn_mag_def bn_words_def)
  have "bn_usub_consttime mal r a b = (Some (), ?r)"
    using r0(1) lo hi c fits bw_def by (auto simp: bn_usub_consttime_def bn_sub_words_def Let_def)
  then show thesis using that [of "bn_set_minimal_width ?r"] set_minimal_width [OF s] m by (simp add: BN_usub_def)
qed

lemma usub_signed:
  assumes "bn_sized a" and "bn_sized b" and "bn_sized r" and "bn_room mal (max (width a) (width b)) r"
  obtains r1 where "usub_signed mal r a b = (Some (), r1)" and "bn_wf r1" and "bn_int r1 = int (bn_mag a) - int (bn_mag b)"
proof -
  have room: "bn_room mal (width a) r" "bn_room mal (width b) r" using assms(4) by (auto simp: bn_room_def)
  show thesis
  proof (cases "bn_mag a < bn_mag b")
    case True
    then obtain r1 where "BN_usub mal r b a = (Some (), r1)" "bn_sized r1" "bn_mag r1 = bn_mag b - bn_mag a"
      using usub [OF assms(2,1,3) room(2)] by (metis less_imp_le)
    then show thesis using that [of "r1\<lparr>neg := True\<rparr>"] True
      by (simp add: usub_signed_def ucmp assms(1,2) sign_of_def bn_wf_def bn_int_def)
  next
    case False
    then obtain r1 where "BN_usub mal r a b = (Some (), r1)" "bn_sized r1" "bn_mag r1 = bn_mag a - bn_mag b"
      using usub [OF assms(1,2,3) room(1)] by (metis not_less)
    then show thesis using that [of "r1\<lparr>neg := False\<rparr>"] False
      by (simp add: usub_signed_def ucmp assms(1,2) sign_of_def bn_wf_def bn_int_def)
  qed
qed

section \<open>Signed operations\<close>

lemma BN_add_ok:
  assumes "bn_wf a" and "bn_wf b" and "bn_sized r" and "bn_room mal (max (width a) (width b) + 1) r"
  shows "\<exists>r1. BN_add mal r a b = (Some (), r1) \<and> bn_wf r1 \<and> bn_int r1 = bn_int a + bn_int b"
proof (cases "neg a = neg b")
  case True
  obtain r1 where "BN_uadd mal r a b = (Some (), r1)" "bn_sized r1" "bn_mag r1 = bn_mag a + bn_mag b"
    using uadd [OF _ _ assms(3,4)] assms(1,2) by (auto simp: bn_wf_def)
  then show ?thesis using True assms(1) by (auto simp: BN_add_def bn_wf_def bn_int_def)
next
  case False
  have room: "bn_room mal (max (width a) (width b)) r" "bn_room mal (max (width b) (width a)) r"
    using assms(4) by (auto simp: bn_room_def)
  have s: "bn_sized a" "bn_sized b" using assms(1,2) by (simp_all add: bn_wf_def)
  show ?thesis
  proof (cases "neg a")
    case True
    obtain r1 where "usub_signed mal r b a = (Some (), r1)" "bn_wf r1" "bn_int r1 = int (bn_mag b) - int (bn_mag a)"
      by (rule usub_signed [OF s(2,1) assms(3) room(2)])
    then show ?thesis using True False by (simp add: BN_add_def bn_int_def)
  next
    case n: False
    obtain r1 where "usub_signed mal r a b = (Some (), r1)" "bn_wf r1" "bn_int r1 = int (bn_mag a) - int (bn_mag b)"
      by (rule usub_signed [OF s assms(3) room(1)])
    then show ?thesis using n False by (simp add: BN_add_def bn_int_def)
  qed
qed

lemma BN_sub_ok:
  assumes "bn_wf a" and "bn_wf b" and "bn_sized r" and "bn_room mal (max (width a) (width b) + 1) r"
  shows "\<exists>r1. BN_sub mal r a b = (Some (), r1) \<and> bn_wf r1 \<and> bn_int r1 = bn_int a - bn_int b"
proof (cases "neg a = neg b")
  case False
  obtain r1 where "BN_uadd mal r a b = (Some (), r1)" "bn_sized r1" "bn_mag r1 = bn_mag a + bn_mag b"
    using uadd [OF _ _ assms(3,4)] assms(1,2) by (auto simp: bn_wf_def)
  then show ?thesis using False assms(1,2) by (auto simp: BN_sub_def bn_wf_def bn_int_def)
next
  case True
  have room: "bn_room mal (max (width a) (width b)) r" "bn_room mal (max (width b) (width a)) r"
    using assms(4) by (auto simp: bn_room_def)
  have s: "bn_sized a" "bn_sized b" using assms(1,2) by (simp_all add: bn_wf_def)
  show ?thesis
  proof (cases "neg a")
    case n: True
    obtain r1 where "usub_signed mal r b a = (Some (), r1)" "bn_wf r1" "bn_int r1 = int (bn_mag b) - int (bn_mag a)"
      by (rule usub_signed [OF s(2,1) assms(3) room(2)])
    then show ?thesis using n True by (simp add: BN_sub_def bn_int_def)
  next
    case n: False
    obtain r1 where "usub_signed mal r a b = (Some (), r1)" "bn_wf r1" "bn_int r1 = int (bn_mag a) - int (bn_mag b)"
      by (rule usub_signed [OF s assms(3) room(1)])
    then show ?thesis using n True by (simp add: BN_sub_def bn_int_def)
  qed
qed

lemma BN_cmp_ok:
  assumes "bn_wf a" and "bn_wf b"
  shows "BN_cmp a b = (if bn_int a < bn_int b then - 1 else if bn_int a = bn_int b then 0 else 1)"
  using assms by (auto simp: BN_cmp_def ucmp bn_wf_def bn_int_def sign_of_def)

section \<open>Adding and subtracting a word\<close>

lemma add_word_loop:
  "add_word_loop xs w = (ys, c) \<Longrightarrow>
     length ys = length xs \<and> words_val ys + 2 ^ (64 * length xs) * unat c = words_val xs + unat w"
proof (induction xs arbitrary: w ys c)
  case (Cons x xs)
  show ?case
  proof (cases "w = 0")
    case False
    let ?k = "if w > x + w then 1 else 0 :: u64"
    obtain ys' where ys: "add_word_loop xs ?k = (ys', c)" "ys = (x + w) # ys'"
      using Cons.prems False by (auto simp: Let_def split: prod.splits)
    have s: "unat (x + w) + 2 ^ 64 * unat ?k = unat x + unat w"
      using unat_u64_lt [of x] unat_u64_lt [of w] by (auto simp: word_less_nat_alt unat_plus_if')
    note IH = Cons.IH [OF ys(1)]
    have "2 ^ 64 * (words_val ys' + 2 ^ (64 * length xs) * unat c) = 2 ^ 64 * (words_val xs + unat ?k)"
      using IH by simp
    then show ?thesis using s IH by (simp add: ys(2) power_add algebra_simps)
  qed (use Cons.prems in auto)
qed simp

lemma sub_word_loop:
  "0 < unat w \<Longrightarrow> unat w \<le> words_val xs \<Longrightarrow>
     \<exists>ys i. sub_word_loop xs w = Some (ys, i) \<and> i < length xs \<and> length ys = length xs \<and>
       words_val ys + unat w = words_val xs"
proof (induction xs arbitrary: w)
  case (Cons x xs)
  show ?case
  proof (cases "x \<ge> w")
    case True
    then have "unat (x - w) + unat w = unat x" by (simp add: unat_sub word_le_nat_alt)
    then show ?thesis using True by simp
  next
    case False
    then have d: "unat (x - w) + unat w = unat x + 2 ^ 64"
      using unat_sub_if' [of x w] unat_u64_lt [of w] by (simp add: word_le_nat_alt)
    have "words_val xs \<noteq> 0" using Cons.prems(2) False by (auto simp: word_le_nat_alt)
    then obtain ys i where "sub_word_loop xs 1 = Some (ys, i)" "i < length xs" "length ys = length xs"
      "words_val ys + 1 = words_val xs"
      using Cons.IH [of 1] by auto
    then show ?thesis using False d by simp
  qed
qed simp

lemma set_word_ok:
  assumes "bn_sized a" and "bn_room mal 1 a"
  obtains r where "BN_set_word mal a w = (Some (), r)" and "bn_sized r" and "bn_mag r = unat w" and "\<not> neg r"
proof (cases "w = 0")
  case True
  then show thesis using that [of "BN_zero a"] assms(1)
    by (simp add: BN_set_word_def BN_zero_def bn_sized_def bn_mag_def bn_words_def)
next
  case False
  obtain r1 where r1: "bn_wexpand mal 1 a = (Some (), r1)" "length (bn_d r1) = dmax r1" "1 \<le> dmax r1"
    using wexpand_ok [OF assms] by blast
  then obtain x xs where "bn_d r1 = x # xs" by (cases "bn_d r1") auto
  then show thesis using that [of "r1\<lparr>bn_d := (bn_d r1)[0 := w], width := 1, neg := False\<rparr>"] r1 False
    by (simp add: BN_set_word_def bn_sized_def bn_mag_def bn_words_def)
qed

lemma mag_update_words:
  assumes "bn_sized a" and "length ys = width a"
  shows "bn_words (a\<lparr>bn_d := ys @ drop (width a) (bn_d a)\<rparr>) = ys"
    and "bn_sized (a\<lparr>bn_d := ys @ drop (width a) (bn_d a)\<rparr>)"
  using assms by (simp_all add: bn_words_def bn_sized_def)

text \<open>On numbers that are not negative, where the two functions do not call each other.\<close>

lemma add_word_nonneg:
  assumes "bn_sized a" and "\<not> neg a" and "bn_room mal (width a + 1) a"
  obtains r where "BN_add_word mal a w = (Some (), r)" and "bn_sized r" and "\<not> neg r"
    and "bn_mag r = bn_mag a + unat w"
proof -
  consider "w = 0" | "w \<noteq> 0" "bn_mag a = 0" | "w \<noteq> 0" "bn_mag a \<noteq> 0" by blast
  then show thesis
  proof cases
    case 1
    then show thesis using that [of a] assms by (simp add: BN_add_word.simps)
  next
    case 2
    have "bn_room mal 1 a" using assms(3) by (auto simp: bn_room_def)
    then obtain r where "BN_set_word mal a w = (Some (), r)" "bn_sized r" "bn_mag r = unat w" "\<not> neg r"
      using set_word_ok [OF assms(1)] by blast
    then show thesis using that [of r] 2 by (simp add: BN_add_word.simps is_zero)
  next
    case 3
    obtain ys c where ys: "add_word_loop (bn_words a) w = (ys, c)" by fastforce
    have Y: "length ys = width a" "words_val ys + 2 ^ (64 * width a) * unat c = bn_mag a + unat w"
      using add_word_loop [OF ys] assms(1) by (simp_all add: bn_mag_def)
    let ?a = "a\<lparr>bn_d := ys @ drop (width a) (bn_d a)\<rparr>"
    note A = mag_update_words [OF assms(1) Y(1)]
    show thesis
    proof (cases "c = 0")
      case True
      then show thesis using that [of ?a] 3 assms(2) A Y ys by (simp add: BN_add_word.simps is_zero bn_mag_def)
    next
      case False
      have "bn_room mal (width ?a + 1) ?a" using assms(3) by (simp add: bn_room_def)
      then obtain r1 where r1: "bn_wexpand mal (width ?a + 1) ?a = (Some (), r1)" "length (bn_d r1) = dmax r1"
        "width ?a + 1 \<le> dmax r1" "width r1 = width ?a" "neg r1 = neg ?a" "bn_words r1 = bn_words ?a"
        using wexpand_ok [OF A(2)] by blast
      let ?r = "r1\<lparr>bn_d := (bn_d r1)[width r1 := c], width := width r1 + 1\<rparr>"
      have "bn_words ?r = bn_words r1 @ [c]" using r1(2-4) by (simp add: bn_words_def take_Suc_conv_app_nth)
      then have "bn_mag ?r = bn_mag a + unat w" using r1(6) A Y by (simp add: bn_mag_def words_val_snoc)
      moreover have "BN_add_word mal a w = (Some (), ?r)" using 3 assms(2) ys r1(1) False
        by (simp add: BN_add_word.simps is_zero)
      moreover have "bn_sized ?r" using r1(2-4) by (simp add: bn_sized_def)
      ultimately show thesis using that [of ?r] r1(5) assms(2) by simp
    qed
  qed
qed

lemma bn_mag_minimal:
  assumes "bn_sized a" and "bn_minimal_width a = n"
  shows "bn_mag a = words_val (take n (bn_d a))" and "n \<le> length (bn_d a)"
    and "0 < n \<Longrightarrow> bn_d a ! (n - 1) \<noteq> 0"
  using assms minimal_width_val [of "width a" "bn_d a"] minimal_width_le [of "bn_d a" "width a"]
    minimal_width_top [of "bn_d a" "width a"]
  by (auto simp: bn_sized_def bn_minimal_width_def bn_mag_def bn_words_def)

lemma mag_two_words:
  assumes "bn_sized a" and "2 \<le> bn_minimal_width a"
  shows "2 ^ 64 \<le> bn_mag a"
proof -
  let ?n = "bn_minimal_width a"
  note M = bn_mag_minimal [OF assms(1) refl]
  obtain m where m: "?n = Suc (Suc m)" using assms(2) by (metis Suc_le_D numeral_2_eq_2 Suc_le_mono)
  have "bn_d a ! Suc m \<noteq> 0" using M(3) m by simp
  then have "1 \<le> unat (bn_d a ! Suc m)" by (simp add: unat_gt_0 Suc_le_eq word_neq_0_conv)
  have t: "take ?n (bn_d a) = take (Suc m) (bn_d a) @ [bn_d a ! Suc m]" using M(2) m by (simp add: take_Suc_conv_app_nth)
  have "(2 :: nat) ^ 64 * 1 \<le> 2 ^ (64 * Suc m) * unat (bn_d a ! Suc m)"
    using \<open>1 \<le> _\<close> by (intro mult_mono power_increasing) simp_all
  also have "\<dots> \<le> words_val (take (Suc m) (bn_d a) @ [bn_d a ! Suc m])" using M(2) m by (simp add: words_val_snoc)
  finally show ?thesis unfolding M(1) t by simp
qed

lemma drop_top_word:
  assumes "ys \<noteq> []" and "ys ! (length ys - 1) = 0"
  shows "words_val (take (length ys - 1) ys) = words_val ys"
  using assms by (metis append_butlast_last_id butlast_conv_take last_conv_nth mult_0_right unsigned_0 add_0_right words_val_snoc)

lemma sub_word_nonneg:
  assumes "bn_sized a" and "\<not> neg a" and "bn_room mal (width a + 1) a"
  obtains r where "BN_sub_word mal a w = (Some (), r)" and "bn_wf r" and "bn_int r = int (bn_mag a) - int (unat w)"
proof -
  have v: "bn_int a = int (bn_mag a)" using assms(2) by (simp add: bn_int_def)
  consider "w = 0" | "w \<noteq> 0" "bn_mag a = 0" | "w \<noteq> 0" "bn_mag a \<noteq> 0" "bn_minimal_width a = 1" "bn_d a ! 0 < w"
    | "w \<noteq> 0" "bn_mag a \<noteq> 0" "\<not> (bn_minimal_width a = 1 \<and> bn_d a ! 0 < w)" by blast
  then show thesis
  proof cases
    case 1
    then show thesis using that [of a] assms v by (simp add: BN_sub_word.simps bn_wf_def)
  next
    case 2
    have "bn_room mal 1 a" using assms(3) by (auto simp: bn_room_def)
    then obtain r where r: "BN_set_word mal a w = (Some (), r)" "bn_sized r" "bn_mag r = unat w" "\<not> neg r"
      using set_word_ok [OF assms(1)] by blast
    then show thesis using that [of "BN_set_negative r True"] 2
      by (simp add: BN_sub_word.simps is_zero BN_set_negative_def bn_wf_def bn_int_def unat_eq_zero)
  next
    case 3
    note M = bn_mag_minimal [OF assms(1) 3(3)]
    obtain x xs where x: "bn_d a = x # xs" using M(2) by (cases "bn_d a") auto
    have W: "1 \<le> width a" using 3(3) minimal_width_le [of "bn_d a" "width a"] by (simp add: bn_minimal_width_def)
    let ?a = "a\<lparr>bn_d := (bn_d a)[0 := w - bn_d a ! 0], neg := True\<rparr>"
    have m: "bn_mag a = unat x" using M(1) x by simp
    have "words_val (take (width a) (x # xs)) = unat x + 2 ^ 64 * words_val (take (width a - 1) xs)"
      using W by (cases "width a") simp_all
    then have z: "words_val (take (width a - 1) xs) = 0" using m x by (simp add: bn_mag_def bn_words_def)
    have "bn_mag ?a = unat (w - x)" using W z x by (cases "width a") (simp_all add: bn_mag_def bn_words_def)
    moreover have "unat (w - x) = unat w - unat x" "unat x < unat w"
      using 3(4) x by (simp_all add: unat_sub word_less_nat_alt word_le_nat_alt)
    moreover have "bn_sized ?a" using assms(1) by (simp add: bn_sized_def)
    moreover have "BN_sub_word mal a w = (Some (), ?a)" using 3 assms(2) by (simp add: BN_sub_word.simps is_zero)
    ultimately show thesis using that [of ?a] m by (simp add: bn_wf_def bn_int_def)
  next
    case 4
    note M = bn_mag_minimal [OF assms(1) refl]
    have "unat w \<le> bn_mag a"
    proof (cases "bn_minimal_width a = 1")
      case True
      then obtain x xs where "bn_d a = x # xs" using M(2) by (cases "bn_d a") auto
      then show ?thesis using 4(3) M(1) True by (simp add: word_le_nat_alt not_less)
    next
      case False
      moreover have "bn_minimal_width a \<noteq> 0"
      by (rule notI) (use M(1) 4(2) in simp)
      ultimately have "2 ^ 64 \<le> bn_mag a" by (intro mag_two_words assms(1)) simp
      then show ?thesis using unat_u64_lt [of w] by simp
    qed
    moreover have "0 < unat w" using 4(1) by (simp add: unat_gt_0)
    ultimately obtain ys i where ys: "sub_word_loop (bn_words a) w = Some (ys, i)" "i < width a"
      "length ys = width a" "words_val ys + unat w = bn_mag a"
      using sub_word_loop [of w "bn_words a"] assms(1) by (auto simp: bn_mag_def)
    let ?w = "if ys ! i = 0 \<and> i = width a - 1 then width a - 1 else width a"
    let ?a = "a\<lparr>bn_d := ys @ drop (width a) (bn_d a), width := ?w\<rparr>"
    have "BN_sub_word mal a w = (Some (), ?a)" using 4 assms(2) ys(1) by (auto simp: BN_sub_word.simps is_zero)
    moreover have "bn_sized ?a" using assms(1) ys(3) by (auto simp: bn_sized_def)
    moreover have "bn_mag ?a = words_val ys"
    proof (cases "ys ! i = 0 \<and> i = width a - 1")
      case True
      then have "words_val (take (length ys - 1) ys) = words_val ys" using ys(2,3) by (intro drop_top_word) auto
      then show ?thesis using True ys(3) by (simp add: bn_mag_def bn_words_def)
    next
      case False
      then have "?w = width a" by auto
      then show ?thesis using ys(3) by (simp only: bn_mag_def bn_words_def) simp
    qed
    moreover have "neg ?a = False" using assms(2) by simp
    moreover have "int (words_val ys) = int (bn_mag a) - int (unat w)" using ys(4) by linarith
    ultimately have "bn_wf ?a" "bn_int ?a = int (bn_mag a) - int (unat w)" "BN_sub_word mal a w = (Some (), ?a)"
      unfolding bn_wf_def bn_int_def by (simp_all only: simp_thms if_False)
    then show thesis by (intro that)
  qed
qed

lemma BN_add_word_ok:
  assumes "bn_wf a" and "bn_room mal (width a + 1) a"
  shows "\<exists>r. BN_add_word mal a w = (Some (), r) \<and> bn_wf r \<and> bn_int r = bn_int a + int (unat w)"
proof (cases "neg a \<and> w \<noteq> 0")
  case False
  then show ?thesis
  proof (cases "w = 0")
    case True
    then show ?thesis using assms(1) by (simp add: BN_add_word.simps)
  next
    case w: False
    then have n: "\<not> neg a" using False by simp
    obtain r where "BN_add_word mal a w = (Some (), r)" "bn_sized r" "\<not> neg r" "bn_mag r = bn_mag a + unat w"
      using add_word_nonneg [OF _ n assms(2)] assms(1) by (auto simp: bn_wf_def)
    then show ?thesis using n by (auto simp: bn_wf_def bn_int_def)
  qed
next
  case True
  let ?a = "a\<lparr>neg := False\<rparr>"
  have a: "bn_sized ?a" "\<not> neg ?a" "bn_room mal (width ?a + 1) ?a" "bn_mag a \<noteq> 0"
    using assms True by (simp_all add: bn_wf_def bn_room_def)
  obtain r where r: "BN_sub_word mal ?a w = (Some (), r)" "bn_wf r" "bn_int r = int (bn_mag ?a) - int (unat w)"
    by (rule sub_word_nonneg [OF a(1-3)])
  let ?r = "if \<not> BN_is_zero r then r\<lparr>neg := \<not> neg r\<rparr> else r"
  have "BN_add_word mal a w = (Some (), ?r)"
    using True a(4) r(1) by (subst BN_add_word.simps) (simp add: is_zero)
  moreover have "bn_wf ?r" "bn_int ?r = - bn_int r" using r(2) by (auto simp: bn_wf_def bn_int_def is_zero)
  ultimately show ?thesis using r(3) True by (auto simp: bn_int_def)
qed

lemma BN_sub_word_ok:
  assumes "bn_wf a" and "bn_room mal (width a + 1) a"
  shows "\<exists>r. BN_sub_word mal a w = (Some (), r) \<and> bn_wf r \<and> bn_int r = bn_int a - int (unat w)"
proof (cases "neg a \<and> w \<noteq> 0")
  case False
  then show ?thesis
  proof (cases "w = 0")
    case True
    then show ?thesis using assms(1) by (simp add: BN_sub_word.simps)
  next
    case w: False
    then have n: "\<not> neg a" using False by simp
    obtain r where "BN_sub_word mal a w = (Some (), r)" "bn_wf r" "bn_int r = int (bn_mag a) - int (unat w)"
      using sub_word_nonneg [OF _ n assms(2)] assms(1) by (auto simp: bn_wf_def)
    then show ?thesis using n by (auto simp: bn_int_def)
  qed
next
  case True
  let ?a = "a\<lparr>neg := False\<rparr>"
  have a: "bn_sized ?a" "\<not> neg ?a" "bn_room mal (width ?a + 1) ?a" "bn_mag a \<noteq> 0"
    using assms True by (simp_all add: bn_wf_def bn_room_def)
  obtain r where r: "BN_add_word mal ?a w = (Some (), r)" "bn_sized r" "\<not> neg r" "bn_mag r = bn_mag ?a + unat w"
    by (rule add_word_nonneg [OF a(1-3)])
  have "BN_sub_word mal a w = (Some (), r\<lparr>neg := True\<rparr>)"
    using True a(4) r(1) by (subst BN_sub_word.simps) (simp add: is_zero)
  then show ?thesis using r a(4) True by (simp add: bn_wf_def bn_int_def)
qed

section \<open>Properties\<close>

text \<open>
  C36. Big numbers implement the integers: on well-formed numbers (no negative zero, the words in use
  within the array) and with room for one more word in the result, \<open>BN_add\<close>, \<open>BN_sub\<close>, \<open>BN_add_word\<close>
  and \<open>BN_sub_word\<close> succeed and return well-formed numbers with the value of the sum or difference,
  and \<open>BN_cmp\<close> compares the values, whatever the widths, signs and leading zero words.
\<close>

theorem bn_arith_refines_int:
  assumes "bn_wf a" and "bn_wf b" and "bn_sized r" and "bn_room mal (max (width a) (width b) + 1) r"
    and "bn_room mal (width a + 1) a"
  shows "\<exists>s d aw sw. BN_add mal r a b = (Some (), s) \<and> BN_sub mal r a b = (Some (), d) \<and>
    BN_add_word mal a w = (Some (), aw) \<and> BN_sub_word mal a w = (Some (), sw) \<and>
    bn_wf s \<and> bn_wf d \<and> bn_wf aw \<and> bn_wf sw \<and>
    bn_int s = bn_int a + bn_int b \<and> bn_int d = bn_int a - bn_int b \<and>
    bn_int aw = bn_int a + int (unat w) \<and> bn_int sw = bn_int a - int (unat w) \<and>
    BN_cmp a b = sgn (bn_int a - bn_int b)"
proof -
  have "BN_cmp a b = sgn (bn_int a - bn_int b)" unfolding BN_cmp_ok [OF assms(1,2)] by (auto simp: sgn_if)
  then show ?thesis
    using BN_add_ok [OF assms(1-4)] BN_sub_ok [OF assms(1-4)] BN_add_word_ok [OF assms(1,5), of w]
      BN_sub_word_ok [OF assms(1,5), of w] by blast
qed

theorem bn_arith_refines_int_witness:
  "\<exists>s. BN_add (\<lambda>n. Some (replicate n 0)) BN_init
      \<lparr>bn_d = [- 1], width = 1, dmax = 1, neg = True, static_data = False\<rparr>
      \<lparr>bn_d = [5, 0, 1], width = 3, dmax = 3, neg = False, static_data = False\<rparr> = (Some (), s) \<and>
    bn_int s = 2 ^ 128 + 5 - (2 ^ 64 - 1)"
proof -
  let ?a = "\<lparr>bn_d = [- 1], width = 1, dmax = 1, neg = True, static_data = False\<rparr>"
  let ?b = "\<lparr>bn_d = [5, 0, 1], width = 3, dmax = 3, neg = False, static_data = False\<rparr>"
  have m: "unat (- 1 :: u64) = 2 ^ 64 - 1" by (simp add: unsigned_minus_1_eq_mask mask_eq_exp_minus_1)
  have "bn_mag ?a = 2 ^ 64 - 1" "bn_mag ?b = 2 ^ 128 + 5" using m by (simp_all add: bn_mag_def bn_words_def)
  then have v: "bn_int ?a = - (2 ^ 64 - 1)" "bn_int ?b = 2 ^ 128 + 5" "bn_wf ?a" "bn_wf ?b"
    by (simp_all add: bn_int_def bn_wf_def bn_sized_def)
  have "bn_sized BN_init" by (simp add: bn_sized_def BN_init_def)
  moreover have "bn_room (\<lambda>n. Some (replicate n 0)) (max (width ?a) (width ?b) + 1) BN_init"
    "bn_room (\<lambda>n. Some (replicate n 0)) (width ?a + 1) ?a"
    by (simp_all add: bn_room_def BN_MAX_WORDS_def BN_init_def)
  ultimately show ?thesis using bn_arith_refines_int [OF v(3,4), of BN_init "\<lambda>n. Some (replicate n 0)" 0] v(1,2) by auto
qed

end
