(* ===== verification/Bn_Shift_Props.thy ===== *)
theory Bn_Shift_Props
  imports Bn_Shift Bn_Props
begin

text \<open>
  The shifts and bit operations of shift.c on the bits of a number's value: a left shift multiplies
  by a power of two, a right shift divides the magnitude, and single bits are those of the magnitude.
\<close>

section \<open>Bits of word lists\<close>

lemma bit_words_Cons: "bit (words_val (x # xs)) m \<longleftrightarrow> (if m < 64 then bit x m else bit (words_val xs) (m - 64))"
  using bit_split [of "unat x" 64 "words_val xs" m] unat_u64_lt [of x] by (simp add: bit_unsigned_iff)

lemma bit_words_append:
  "bit (words_val (xs @ ys)) m \<longleftrightarrow>
     (if m < 64 * length xs then bit (words_val xs) m else bit (words_val ys) (m - 64 * length xs))"
  using bit_split [OF words_val_lt, of xs "words_val ys" m] by (simp add: words_val_append)

lemma bit_u64_lt: "bit w m \<Longrightarrow> m < 64" for w :: u64
  using bit_imp_le_length [of w m] by simp

lemma bit_words: "bit (words_val ws) m \<longleftrightarrow> m div 64 < length ws \<and> bit (ws ! (m div 64)) (m mod 64)"
proof (induction ws arbitrary: m)
  case (Cons w ws)
  show ?case
  proof (cases "m < 64")
    case False
    then have "m div 64 = Suc ((m - 64) div 64)" "m mod 64 = (m - 64) mod 64"
      by (simp_all add: le_div_geq le_mod_geq)
    then show ?thesis using False Cons by (simp add: bit_words_Cons del: words_val.simps)
  qed (simp add: bit_words_Cons del: words_val.simps)
qed simp

lemma words_val_drop: "words_val (drop n ws) = drop_bit (64 * n) (words_val ws)"
proof (rule bit_eqI)
  fix m
  have "(m + 64 * n) div 64 = m div 64 + n" by simp
  then show "bit (words_val (drop n ws)) m \<longleftrightarrow> bit (drop_bit (64 * n) (words_val ws)) m"
    by (auto simp: bit_words bit_drop_bit_eq add.commute [of n] add.commute [of "64 * n"])
qed

lemma bit_unat [simp]: "bit (unat w) m \<longleftrightarrow> bit w m" for w :: u64
  by (simp add: bit_unsigned_iff)

section \<open>Left shifts\<close>

lemma length_lshift_loop [simp]: "length (lshift_loop nw lb f t n) = length t"
  by (induction n arbitrary: t) (simp_all add: Let_def)

lemma lshift_loop_nth:
  "nw + n + 1 \<le> length t \<Longrightarrow> k > nw + n \<Longrightarrow> lshift_loop nw lb f t n ! k = t ! k"
  by (induction n arbitrary: t) (simp_all add: Let_def)

lemma drop_take_Suc_nth: "nw + n < length t \<Longrightarrow> take (Suc n) (drop nw t) = take n (drop nw t) @ [t ! (nw + n)]"
  by (simp add: take_Suc_conv_app_nth)

lemma len_u64: "LENGTH(64) = 64"
  by simp

lemma lshift_loop:
  assumes "nw + n + 1 \<le> length t" and "n \<le> length f" and "lb < 64"
  shows "words_val (take (n + 1) (drop nw (lshift_loop nw lb f t n))) =
      push_bit lb (words_val (take n f)) OR push_bit (64 * n) (unat (t ! (nw + n)))"
  using assms(1,2)
proof (induction n arbitrary: t)
  case (Suc n)
  let ?l = "f ! n"
  let ?t = "(if lb = 0 then t else t[nw + n + 1 := t ! (nw + n + 1) OR drop_bit (64 - lb) ?l])[nw + n := push_bit lb ?l]"
  let ?r = "lshift_loop nw lb f ?t n"
  have len: "length ?t = length t" by simp
  have IH: "words_val (take (n + 1) (drop nw ?r)) =
      push_bit lb (words_val (take n f)) OR push_bit (64 * n) (unat (push_bit lb ?l))"
    using Suc.IH [of ?t] Suc.prems len by (simp del: lshift_loop.simps)
  have top: "?r ! (nw + n + 1) = (if lb = 0 then t ! (nw + n + 1) else t ! (nw + n + 1) OR drop_bit (64 - lb) ?l)"
    using Suc.prems by (simp add: lshift_loop_nth)
  have l: "length (take (n + 1) (drop nw ?r)) = n + 1" using Suc.prems by simp
  have v: "words_val (take (n + 1) f) = words_val (take n f) + 2 ^ (64 * n) * unat ?l"
    using Suc.prems by (simp add: take_Suc_conv_app_nth words_val_snoc)
  have lt: "words_val (take n f) < 2 ^ (64 * n)"
    using words_val_lt [of "take n f"] Suc.prems by simp
  have "take (Suc n + 1) (drop nw ?r) = take (n + 1) (drop nw ?r) @ [?r ! (nw + n + 1)]"
    using drop_take_Suc_nth [of nw "Suc n" ?r] Suc.prems by simp
  then have e: "words_val (take (Suc n + 1) (drop nw (lshift_loop nw lb f t (Suc n)))) =
      words_val (take (n + 1) (drop nw ?r) @ [?r ! (nw + n + 1)])" by (simp add: Let_def)
  show ?case
  proof (rule bit_eqI)
    fix m
    let ?T = "t ! (nw + n + 1)"
    have "bit (words_val (take (Suc n + 1) (drop nw (lshift_loop nw lb f t (Suc n))))) m \<longleftrightarrow>
        (if m < 64 * (n + 1) then lb \<le> m \<and> bit (words_val (take n f)) (m - lb) \<or>
           64 * n \<le> m \<and> bit (unat (push_bit lb ?l)) (m - 64 * n)
         else bit (words_val [?r ! (nw + n + 1)]) (m - 64 * (n + 1)))"
      unfolding e bit_words_append l by (simp only: IH bit_or_iff bit_push_bit_iff_nat)
    also have "\<dots> \<longleftrightarrow> lb \<le> m \<and> bit (words_val (take n f) + 2 ^ (64 * n) * unat ?l) (m - lb) \<or>
        64 * (n + 1) \<le> m \<and> bit ?T (m - 64 * (n + 1))"
    proof (cases "m < 64 * (n + 1)")
      case True
      then have "64 * n \<le> m \<and> bit (unat (push_bit lb ?l)) (m - 64 * n) \<longleftrightarrow>
          lb \<le> m \<and> \<not> m - lb < 64 * n \<and> bit ?l (m - lb - 64 * n)"
        by (auto simp: bit_unsigned_iff bit_push_bit_iff add.commute)
      moreover have "bit (words_val (take n f)) (m - lb) \<Longrightarrow> m - lb < 64 * n"
        using bit_words [of "take n f" "m - lb"] Suc.prems by auto
      ultimately show ?thesis unfolding bit_split [OF lt] using True by auto
    next
      case False
      define j where "j = m - 64 * (n + 1)"
      have m: "m = j + 64 * (n + 1)" using False by (simp add: j_def)
      have e: "m - lb - 64 * n = 64 - lb + j" "(m - lb < 64 * n) = False" "(lb \<le> m) = True"
        "(64 * (n + 1) \<le> m) = True" "m - 64 * (n + 1) = j"
        using assms(3) m by simp_all
      have "bit (words_val [?r ! (nw + n + 1)]) j \<longleftrightarrow> bit (?r ! (nw + n + 1)) j" by simp
      also have "\<dots> \<longleftrightarrow> bit ?T j \<or> bit ?l (64 - lb + j)"
        unfolding top by (auto simp: bit_or_iff bit_drop_bit_eq dest: bit_u64_lt)
      finally have "bit (words_val [?r ! (nw + n + 1)]) j \<longleftrightarrow> bit ?l (64 - lb + j) \<or> bit ?T j" by blast
      then show ?thesis using False by (simp only: bit_split [OF lt] e if_False bit_unat simp_thms)
    qed
    finally show "bit (words_val (take (Suc n + 1) (drop nw (lshift_loop nw lb f t (Suc n))))) m \<longleftrightarrow>
        bit (push_bit lb (words_val (take (Suc n) f)) OR push_bit (64 * Suc n) (unat (t ! (nw + Suc n)))) m"
      by (simp only: v bit_or_iff bit_push_bit_iff_nat bit_unat Suc_eq_plus1 add.assoc)
  qed
qed (simp add: drop_take_Suc_nth [of nw 0, simplified])

definition bn_put :: "u64 list \<Rightarrow> BIGNUM \<Rightarrow> BIGNUM" where
  "bn_put ws r = r\<lparr>bn_d := ws @ drop (length ws) (bn_d r), width := length ws\<rparr>"

lemma bn_put:
  assumes "length (bn_d r) = dmax r" and "length ws \<le> dmax r"
  shows "bn_sized (bn_put ws r)" and "bn_mag (bn_put ws r) = words_val ws" and "neg (bn_put ws r) = neg r"
    and "bn_words (bn_put ws r) = ws"
  using assms by (simp_all add: bn_put_def bn_sized_def bn_mag_def bn_words_def)

lemma set_minimal_width_wf:
  assumes "bn_sized r"
  shows "bn_wf (bn_set_minimal_width r)"
    and "bn_int (bn_set_minimal_width r) = (if neg r then - int (bn_mag r) else int (bn_mag r))"
proof -
  note m = set_minimal_width(1,2) [OF assms]
  have z: "bn_minimal_width r = 0 \<longleftrightarrow> bn_mag r = 0"
    using assms minimal_width_0 [of "width r" "bn_d r"]
    by (simp add: bn_minimal_width_def bn_mag_def bn_words_def bn_sized_def)
  have n: "neg (bn_set_minimal_width r) \<longleftrightarrow> neg r \<and> bn_mag r \<noteq> 0"
    using z by (simp add: bn_set_minimal_width_def Let_def)
  show "bn_wf (bn_set_minimal_width r)" using m n by (simp add: bn_wf_def)
  show "bn_int (bn_set_minimal_width r) = (if neg r then - int (bn_mag r) else int (bn_mag r))"
    using m n by (auto simp: bn_int_def)
qed

lemma room_neg [simp]: "bn_room mal n (r\<lparr>neg := s\<rparr>) = bn_room mal n r"
  by (simp add: bn_room_def)

lemma BN_lshift_ok:
  assumes "bn_wf a" and "bn_sized r" and "0 \<le> n" and "bn_room mal (width a + nat n div 64 + 1) r"
  shows "\<exists>r1. BN_lshift mal r a n = (Some (), r1) \<and> bn_wf r1 \<and> bn_int r1 = bn_int a * 2 ^ nat n"
proof -
  define nw where "nw = nat n div 64"
  define lb where "lb = nat n mod 64"
  have n: "nat n = 64 * nw + lb" by (simp add: nw_def lb_def)
  have a: "length (bn_d a) = dmax a" "width a \<le> dmax a" using assms(1) by (simp_all add: bn_wf_def bn_sized_def)
  obtain r1 where r1: "bn_wexpand mal (width a + nw + 1) (r\<lparr>neg := neg a\<rparr>) = (Some (), r1)"
    "length (bn_d r1) = dmax r1" "width a + nw + 1 \<le> dmax r1" "neg r1 = neg a"
    by (rule wexpand_ok [of "r\<lparr>neg := neg a\<rparr>" mal "width a + nw + 1"]) (use assms nw_def in simp_all)
  let ?z = "(bn_d r1)[width a + nw := 0]"
  let ?t = "lshift_loop nw lb (bn_d a) ?z (width a)"
  let ?r = "r1\<lparr>bn_d := replicate nw 0 @ drop nw ?t, width := width a + nw + 1\<rparr>"
  have sz: "bn_sized ?r" using r1 by (simp add: bn_sized_def)
  have "bn_words ?r = replicate nw 0 @ take (width a + 1) (drop nw ?t)" using r1(3) by (simp add: bn_words_def)
  moreover have "?z ! (nw + width a) = 0" "nw + width a + 1 \<le> length ?z"
    using r1(2,3) by (simp_all add: add.commute [of nw])
  ultimately have "bn_mag ?r = 2 ^ (64 * nw) * push_bit lb (words_val (take (width a) (bn_d a)))"
    using lshift_loop [of nw "width a" ?z "bn_d a" lb] a
    by (simp add: bn_mag_def words_val_append lb_def)
  then have m: "bn_mag ?r = bn_mag a * 2 ^ nat n"
    by (simp add: n bn_mag_def bn_words_def push_bit_eq_mult power_add)
  have e: "BN_lshift mal r a n = (Some (), bn_set_minimal_width ?r)"
    using assms(3) r1(1) by (simp add: BN_lshift_def Let_def flip: nw_def lb_def)
  have "bn_int (bn_set_minimal_width ?r) = bn_int a * 2 ^ nat n"
    unfolding set_minimal_width_wf(2) [OF sz] m using r1(4) by (simp add: bn_int_def)
  then show ?thesis using e set_minimal_width_wf(1) [OF sz] by blast
qed

lemma lshift1_loop:
  "lshift1_loop c xs = (ys, c1) \<Longrightarrow> unat c \<le> 1 \<Longrightarrow>
     length ys = length xs \<and> unat c1 \<le> 1 \<and>
     words_val ys + 2 ^ (64 * length xs) * unat c1 = 2 * words_val xs + unat c"
proof (induction xs arbitrary: c ys c1)
  case (Cons x xs)
  obtain ys' where ys: "lshift1_loop (drop_bit 63 x) xs = (ys', c1)" "ys = (push_bit 1 x OR c) # ys'"
    using Cons.prems(1) by (auto simp: Let_def split: prod.splits)
  have "unat (drop_bit 63 x) = unat x div 2 ^ 63" by (rule unat_drop_bit)
  moreover have "unat x div 2 ^ 63 < 2" using unat_u64_lt [of x] by (simp add: less_mult_imp_div_less)
  ultimately have c: "unat (drop_bit 63 x) = unat x div 2 ^ 63" "unat (drop_bit 63 x) \<le> 1" by simp_all
  have "push_bit 1 x OR c = push_bit 1 x + c"
  proof (rule disjunctive_add_eq_or [symmetric], rule bit_word_eqI)
    fix m assume "m < LENGTH(64)"
    have "bit c m \<Longrightarrow> m = 0"
      using Cons.prems(2) by (cases "c = 0"; cases "c = 1") (auto simp: bit_1_iff word_unat_eq_iff le_Suc_eq)
    moreover have "bit (push_bit 1 x) m \<Longrightarrow> m \<noteq> 0" unfolding bit_push_bit_iff by simp
    ultimately show "bit (push_bit 1 x AND c) m = bit (0 :: u64) m" unfolding bit_and_iff by auto
  qed
  moreover have "unat (push_bit 1 x) = (2 * unat x) mod 2 ^ 64"
    using unat_word_ariths(2) [of 2 x] by (simp add: push_bit_eq_mult mult.commute)
  moreover have "(2 * unat x) mod 2 ^ 64 + unat c < 2 ^ 64"
  proof -
    have "(2 * unat x) mod (2 * 2 ^ 63) = 2 * (unat x mod 2 ^ 63)" by (rule mult_mod_right [symmetric])
    moreover have "unat x mod 2 ^ 63 < 2 ^ 63" by (rule mod_less_divisor) simp
    ultimately show ?thesis using Cons.prems(2) by simp
  qed
  ultimately have o: "unat (push_bit 1 x OR c) = (2 * unat x) mod 2 ^ 64 + unat c"
    by (simp only: unat_word_ariths len_u64 mod_less)
  have s: "(2 * unat x) mod 2 ^ 64 + 2 ^ 64 * (unat x div 2 ^ 63) = 2 * unat x"
  proof -
    have "(2 * unat x) div (2 * 2 ^ 63) = unat x div 2 ^ 63" by (rule div_mult_mult1) simp
    then show ?thesis using mod_mult_div_eq [of "2 * unat x" "2 ^ 64"] by simp
  qed
  note IH = Cons.IH [OF ys(1) c(2)]
  have "2 ^ 64 * (words_val ys' + 2 ^ (64 * length xs) * unat c1) = 2 ^ 64 * (2 * words_val xs + unat (drop_bit 63 x))"
    using IH by simp
  then show ?case using IH o s c(1) by (simp add: ys(2) power_add algebra_simps)
qed simp

lemma BN_lshift1_ok:
  assumes "bn_wf a" and "bn_sized r" and "bn_room mal (width a + 1) r"
  shows "\<exists>r1. BN_lshift1 mal r a = (Some (), r1) \<and> bn_wf r1 \<and> bn_int r1 = bn_int a * 2"
proof -
  have a: "bn_sized a" using assms(1) by (simp add: bn_wf_def)
  obtain r1 where r1: "bn_wexpand mal (width a + 1) (r\<lparr>neg := neg a\<rparr>) = (Some (), r1)"
    "length (bn_d r1) = dmax r1" "width a + 1 \<le> dmax r1" "neg r1 = neg a"
    by (rule wexpand_ok [of "r\<lparr>neg := neg a\<rparr>" mal "width a + 1"]) (use assms in simp_all)
  obtain ys c where ys: "lshift1_loop 0 (bn_words a) = (ys, c)" by (metis surj_pair)
  note L = lshift1_loop [OF ys, simplified]
  have len: "length ys = width a" using L a by simp
  let ?r2 = "r1\<lparr>bn_d := ys @ drop (width a) (bn_d r1), width := width a\<rparr>"
  let ?r = "if c \<noteq> 0 then ?r2\<lparr>bn_d := (bn_d ?r2)[width a := 1], width := width a + 1\<rparr> else ?r2"
  have c: "unat c = (if c \<noteq> 0 then 1 else 0)" using L by (auto simp: le_Suc_eq unat_eq_zero)
  have "words_val (take (width a) (ys @ drop (width a) (bn_d r1))) = words_val ys" using len by simp
  moreover have "take (Suc (width a)) ((ys @ drop (width a) (bn_d r1))[width a := 1]) = ys @ [1]"
    using len r1(2,3) by (simp add: list_update_append take_Suc_conv_app_nth)
  ultimately have m: "bn_mag ?r = 2 * bn_mag a"
    using L len c a by (auto simp: bn_mag_def bn_words_def words_val_append split: if_splits)
  have "bn_sized ?r" using r1 len by (simp add: bn_sized_def)
  moreover have "neg ?r = neg a" using r1(4) by simp
  moreover have "BN_lshift1 mal r a = (Some (), ?r)" using r1(1) ys by (simp add: BN_lshift1_def)
  ultimately show ?thesis using m assms(1) by (intro exI [of _ ?r]) (simp add: bn_wf_def bn_int_def)
qed

section \<open>Right shifts\<close>

lemma length_rshift_loop [simp]: "length (rshift_loop k xs) = length xs"
  by (induction k xs rule: rshift_loop.induct) simp_all

lemma rshift_loop: "0 < k \<Longrightarrow> k < 64 \<Longrightarrow> words_val (rshift_loop k xs) = drop_bit k (words_val xs)"
proof (induction k xs rule: rshift_loop.induct)
  case (2 k x)
  then show ?case by (simp only: rshift_loop.simps words_val.simps unat_drop_bit mult_0_right add_0_right) (simp add: drop_bit_eq_div)
next
  case (3 k x y zs)
  show ?case
  proof (rule bit_eqI)
    fix m
    have "bit (words_val (rshift_loop k (x # y # zs))) m \<longleftrightarrow>
        (if m < 64 then bit x (k + m) \<or> 64 - k \<le> m \<and> bit y (m - (64 - k))
         else bit (words_val (y # zs)) (k + (m - 64)))"
      using 3 by (simp add: bit_words_Cons bit_or_iff bit_drop_bit_eq bit_push_bit_iff del: words_val.simps)
    also have "\<dots> \<longleftrightarrow> bit (words_val (x # y # zs)) (k + m)"
      using 3(2,3) bit_u64_lt [of x "k + m"] bit_u64_lt [of y "m - (64 - k)"]
      unfolding bit_words_Cons by (auto simp: algebra_simps simp del: words_val.simps)
    finally show "bit (words_val (rshift_loop k (x # y # zs))) m \<longleftrightarrow> bit (drop_bit k (words_val (x # y # zs))) m"
      by (simp only: bit_drop_bit_eq comp_def)
  qed
qed simp

lemma bn_rshift_words:
  assumes "num \<le> length a"
  shows "length (bn_rshift_words a shift num) = num"
    and "words_val (bn_rshift_words a shift num) = words_val (take num a) div 2 ^ shift"
proof -
  let ?w = "shift div 64" and ?b = "shift mod 64"
  show "length (bn_rshift_words a shift num) = num" using assms by (simp add: bn_rshift_words_def Let_def)
  have s: "drop_bit ?b (drop_bit (64 * ?w) n) = n div 2 ^ shift" for n :: nat
    by (simp add: drop_bit_eq_div flip: div_mult2_eq power_add)
  show "words_val (bn_rshift_words a shift num) = words_val (take num a) div 2 ^ shift"
  proof (cases "num \<le> ?w")
    case True
    then have "2 ^ (64 * num) \<le> (2 :: nat) ^ shift" by (intro power_increasing) simp_all
    then have "words_val (take num a) < 2 ^ shift"
      using words_val_lt [of "take num a"] assms by (simp only: length_take min_absorb2 order_less_le_trans)
    then show ?thesis using True by (simp add: bn_rshift_words_def)
  next
    case False
    then show ?thesis
      using rshift_loop [of ?b "drop ?w (take num a)"] s [of "words_val (take num a)"]
      by (cases "?b = 0") (simp_all add: bn_rshift_words_def Let_def words_val_append words_val_drop)
  qed
qed

text \<open>The integer a right shift by \<open>n\<close> leaves: the magnitude is divided, the sign stays.\<close>

definition shr_int :: "int \<Rightarrow> nat \<Rightarrow> int" where
  "shr_int x n = sgn x * (\<bar>x\<bar> div 2 ^ n)"

lemma put_shifted:
  assumes "bn_wf a" and "bn_sized r" and "bn_room mal (width a) r"
    and "length ws = width a" and "words_val ws = bn_mag a div 2 ^ n"
  obtains r1 where "bn_wexpand mal (width a) r = (Some (), r1)"
    and "bn_wf (bn_set_minimal_width (r1\<lparr>bn_d := ws @ drop (width a) (bn_d r1), neg := neg a, width := width a\<rparr>))"
    and "bn_int (bn_set_minimal_width (r1\<lparr>bn_d := ws @ drop (width a) (bn_d r1), neg := neg a, width := width a\<rparr>))
        = shr_int (bn_int a) n"
proof -
  obtain r1 where r1: "bn_wexpand mal (width a) r = (Some (), r1)" "length (bn_d r1) = dmax r1" "width a \<le> dmax r1"
    by (rule wexpand_ok [OF assms(2,3)])
  let ?r = "r1\<lparr>bn_d := ws @ drop (width a) (bn_d r1), neg := neg a, width := width a\<rparr>"
  have s: "bn_sized ?r" using r1(2,3) assms(4) by (simp add: bn_sized_def)
  have m: "bn_mag ?r = bn_mag a div 2 ^ n" using assms(4,5) by (simp add: bn_mag_def bn_words_def)
  have "bn_int (bn_set_minimal_width ?r) = shr_int (bn_int a) n"
    unfolding set_minimal_width_wf(2) [OF s] m
    by (simp add: shr_int_def bn_int_def zdiv_int sgn_if)
  then show thesis using that [OF r1(1)] set_minimal_width_wf(1) [OF s] by blast
qed

lemma bn_words_len: "bn_wf a \<Longrightarrow> width a \<le> length (bn_d a)"
  by (simp add: bn_wf_def bn_sized_def)

lemma BN_rshift_ok:
  assumes "bn_wf a" and "bn_sized r" and "0 \<le> n" and "bn_room mal (width a) r"
  shows "\<exists>r1. BN_rshift mal r a n = (Some (), r1) \<and> bn_wf r1 \<and> bn_int r1 = shr_int (bn_int a) (nat n)"
proof -
  note W = bn_rshift_words [OF bn_words_len [OF assms(1)], of "nat n", folded bn_words_def, folded bn_mag_def]
  obtain r1 where "bn_wexpand mal (width a) r = (Some (), r1)"
    "bn_wf (bn_set_minimal_width (r1\<lparr>bn_d := bn_rshift_words (bn_d a) (nat n) (width a) @ drop (width a) (bn_d r1),
        neg := neg a, width := width a\<rparr>))"
    "bn_int (bn_set_minimal_width (r1\<lparr>bn_d := bn_rshift_words (bn_d a) (nat n) (width a) @ drop (width a) (bn_d r1),
        neg := neg a, width := width a\<rparr>)) = shr_int (bn_int a) (nat n)"
    by (rule put_shifted [OF assms(1,2,4) W])
  then show ?thesis using assms(3) by (simp add: BN_rshift_def)
qed

lemma BN_rshift1_ok:
  assumes "bn_wf a" and "bn_sized r" and "bn_room mal (width a) r"
  shows "\<exists>r1. BN_rshift1 mal r a = (Some (), r1) \<and> bn_wf r1 \<and> bn_int r1 = shr_int (bn_int a) 1"
proof -
  have l: "length (bn_rshift1_words (bn_d a) (width a)) = width a"
    using bn_words_len [OF assms(1)] by (simp add: bn_rshift1_words_def)
  have v: "words_val (bn_rshift1_words (bn_d a) (width a)) = bn_mag a div 2 ^ 1"
    by (simp add: bn_rshift1_words_def rshift_loop bn_mag_def bn_words_def drop_bit_eq_div)
  obtain r1 where "bn_wexpand mal (width a) r = (Some (), r1)"
    "bn_wf (bn_set_minimal_width (r1\<lparr>bn_d := bn_rshift1_words (bn_d a) (width a) @ drop (width a) (bn_d r1),
        neg := neg a, width := width a\<rparr>))"
    "bn_int (bn_set_minimal_width (r1\<lparr>bn_d := bn_rshift1_words (bn_d a) (width a) @ drop (width a) (bn_d r1),
        neg := neg a, width := width a\<rparr>)) = shr_int (bn_int a) 1"
    by (rule put_shifted [OF assms(1-3) l v])
  then show ?thesis by (simp add: BN_rshift1_def)
qed

section \<open>The shift by a secret\<close>

lemma select_words_mask:
  "length x = length y \<Longrightarrow> bn_select_words (if c then - 1 else 0) x y = (if c then x else y)"
  by (induction x y rule: list_induct2) (auto simp: bn_select_words_def constant_time_select_w_def split: if_splits)

lemma secret_mask: "0 - ucast (drop_bit i n AND 1 :: u32) = (if bit n i then - 1 else 0 :: u64)"
proof -
  have "drop_bit i n AND 1 = (if bit n i then 1 else 0)"
    by (rule bit_word_eqI) (auto simp: bit_and_iff bit_drop_bit_eq bit_1_iff intro: gr0I)
  then show ?thesis by simp
qed

lemma take_bit_Suc_nat: "take_bit (Suc i) m = take_bit i m + (if bit m i then 2 ^ i else 0)" for m :: nat
  by (simp add: take_bit_Suc_from_most)

lemma rshift_secret_loop:
  assumes "m < 2 ^ k" and "\<And>j. j < k \<Longrightarrow> 2 ^ j \<le> m" and "i \<le> k"
  shows "length (rshift_secret_loop n m i r) = length r \<and>
    words_val (rshift_secret_loop n m i r) = words_val r div 2 ^ (take_bit k (unat n) - take_bit i (unat n))"
  using assms(3)
proof (induction "k - i" arbitrary: i r)
  case 0
  then show ?case using assms(1) by (simp add: rshift_secret_loop.simps)
next
  case (Suc d)
  let ?s = "if bit n i then 2 ^ i else 0"
  let ?r = "if bit n i then bn_rshift_words r (2 ^ i) (length r) else r"
  have r: "length ?r = length r" "words_val ?r = words_val r div 2 ^ ?s"
    using bn_rshift_words [of "length r" r "2 ^ i"] by simp_all
  have "m div 2 ^ i \<noteq> 0" using Suc.hyps(2) assms(2) [of i] by (simp add: div_eq_0_iff not_less)
  then have e: "rshift_secret_loop n m i r = rshift_secret_loop n m (Suc i) ?r"
    by (subst rshift_secret_loop.simps)
      (simp only: Let_def if_False secret_mask select_words_mask bn_rshift_words(1) order_refl Suc_eq_plus1)
  have IH: "length (rshift_secret_loop n m (Suc i) ?r) = length ?r"
    "words_val (rshift_secret_loop n m (Suc i) ?r) =
      words_val ?r div 2 ^ (take_bit k (unat n) - take_bit (Suc i) (unat n))"
    using Suc.hyps(1) [of "Suc i" ?r] Suc.hyps(2) Suc.prems by simp_all
  have t: "take_bit (Suc i) (unat n) = take_bit i (unat n) + ?s"
    by (simp add: take_bit_Suc_from_most bit_unsigned_iff)
  have "take_bit (Suc i) (unat n) = take_bit (Suc i) (take_bit k (unat n))"
    using Suc.hyps(2) by (simp add: min_absorb1)
  then have "take_bit (Suc i) (unat n) \<le> take_bit k (unat n)"
    by (metis take_bit_nat_less_eq_self)
  then have "?s + (take_bit k (unat n) - take_bit (Suc i) (unat n)) = take_bit k (unat n) - take_bit i (unat n)"
    using t by linarith
  then show ?case using IH r e by (simp only: div_mult2_eq [symmetric] power_add [symmetric])
qed

lemma bn_rshift_secret_ok:
  assumes "bn_wf a" and "bn_sized r" and "bn_sized t" and "bn_room mal (width a) r" and "bn_room mal (width a) t"
    and "unat n \<le> 64 * width a"
  shows "\<exists>r1. bn_rshift_secret_shift mal (Some t) r a n = (Some (), r1) \<and> bn_sized r1 \<and> width r1 = width a \<and>
    neg r1 = neg a \<and> bn_mag r1 = bn_mag a div 2 ^ unat n"
proof -
  have a: "width a \<le> length (bn_d a)" by (rule bn_words_len [OF assms(1)])
  obtain r1 where r1: "bn_wexpand mal (width a) r = (Some (), r1)" "length (bn_d r1) = dmax r1" "width a \<le> dmax r1"
    by (rule wexpand_ok [OF assms(2,4)])
  obtain t1 where t1: "bn_wexpand mal (width a) t = (Some (), t1)" by (rule wexpand_ok [OF assms(3,5)])
  obtain k where k: "64 * width a < 2 ^ k" "\<And>j. j < k \<Longrightarrow> 2 ^ j \<le> 64 * width a"
  proof -
    have "\<exists>k. 64 * width a < 2 ^ k" by (metis less_exp)
    then show thesis using that [of "LEAST k. 64 * width a < 2 ^ k"] by (metis (mono_tags, lifting) LeastI_ex not_less_Least not_less)
  qed
  have "take_bit k (unat n) = unat n" using assms(6) k(1) by (simp add: take_bit_nat_eq_self)
  then have L: "length (rshift_secret_loop n (64 * width a) 0 (bn_words a)) = width a"
    "words_val (rshift_secret_loop n (64 * width a) 0 (bn_words a)) = bn_mag a div 2 ^ unat n"
    using rshift_secret_loop [OF k, of 0 n "bn_words a"] a by (simp_all add: bn_words_def bn_mag_def)
  have "bn_rshift_secret_shift mal (Some t) r a n = (Some (), r1\<lparr>bn_d :=
      rshift_secret_loop n (64 * width a) 0 (bn_words a) @ drop (width a) (bn_words a @ drop (width a) (bn_d r1)),
      width := width a, neg := neg a\<rparr>)"
    using r1 t1 a by (simp add: bn_rshift_secret_shift_def BN_copy_def bn_words_def)
  then show ?thesis using L a r1 by (simp add: bn_sized_def bn_mag_def bn_words_def)
qed

section \<open>Single bits\<close>

lemma is_bit_set: "bn_sized a \<Longrightarrow> BN_is_bit_set a (int n) = (if bit (bn_mag a) n then 1 else 0)"
proof -
  have "drop_bit j w AND 1 = (if bit w j then 1 else 0)" for w :: u64 and j
    by (rule bit_word_eqI) (auto simp: bit_and_iff bit_drop_bit_eq bit_1_iff intro: gr0I)
  moreover assume "bn_sized a"
  ultimately show ?thesis
    by (auto simp: BN_is_bit_set_def bn_is_bit_set_words_def Let_def bn_mag_def bit_words bn_words_def bn_sized_def)
qed

lemma words_update:
  assumes "i < length ws" and "\<And>m. bit w m \<longleftrightarrow> m < 64 \<and> P (64 * i + m)"
    and "\<And>m. m div 64 \<noteq> i \<Longrightarrow> P m \<longleftrightarrow> bit (words_val ws) m"
  shows "bit (words_val (ws[i := w])) m \<longleftrightarrow> P m"
proof (cases "m div 64 = i")
  case True
  then have "64 * i + m mod 64 = m" using mult_div_mod_eq [of 64 m] by simp
  then show ?thesis using True assms(1) assms(2) [of "m mod 64"] by (simp add: bit_words)
next
  case False
  then show ?thesis using assms(3) [OF False] by (simp add: bit_words)
qed

lemma update_OR:
  assumes "i < length ws" and "j < 64"
  shows "words_val (ws[i := ws ! i OR push_bit j 1]) = set_bit (64 * i + j) (words_val ws)"
proof (rule bit_eqI, rule words_update [OF assms(1)])
  fix m
  show "bit (ws ! i OR push_bit j 1) m \<longleftrightarrow> m < 64 \<and> bit (set_bit (64 * i + j) (words_val ws)) (64 * i + m)"
    using assms bit_u64_lt [of "ws ! i" m] by (auto simp: bit_or_iff bit_set_bit_iff bit_words bit_exp_iff)
next
  fix m assume "m div 64 \<noteq> i"
  then have "m \<noteq> 64 * i + j" using assms(2) by auto
  then show "bit (set_bit (64 * i + j) (words_val ws)) m \<longleftrightarrow> bit (words_val ws) m" by (simp add: bit_set_bit_iff)
qed

lemma update_AND_NOT:
  assumes "i < length ws" and "j < 64"
  shows "words_val (ws[i := ws ! i AND NOT (push_bit j 1)]) = unset_bit (64 * i + j) (words_val ws)"
proof (rule bit_eqI, rule words_update [OF assms(1)])
  fix m
  show "bit (ws ! i AND NOT (push_bit j 1)) m \<longleftrightarrow> m < 64 \<and> bit (unset_bit (64 * i + j) (words_val ws)) (64 * i + m)"
    using assms bit_u64_lt [of "ws ! i" m]
    by (auto simp: bit_and_iff bit_not_iff bit_unset_bit_iff bit_words bit_exp_iff)
next
  fix m assume "m div 64 \<noteq> i"
  then have "m \<noteq> 64 * i + j" using assms(2) by auto
  then show "bit (unset_bit (64 * i + j) (words_val ws)) m \<longleftrightarrow> bit (words_val ws) m" by (simp add: bit_unset_bit_iff)
qed

lemma update_mask:
  assumes "i < length ws" and "j < 64"
  shows "words_val (take (i + 1) (ws[i := ws ! i AND NOT (push_bit j (- 1))])) = take_bit (64 * i + j) (words_val ws)"
proof (rule bit_eqI)
  fix m
  let ?w = "ws[i := ws ! i AND NOT (push_bit j (- 1))]"
  consider "m div 64 < i" | "m div 64 = i" | "i < m div 64" by linarith
  then show "bit (words_val (take (i + 1) ?w)) m \<longleftrightarrow> bit (take_bit (64 * i + j) (words_val ws)) m"
  proof cases
    case 1
    then have "m < 64 * i" by (simp add: less_mult_imp_div_less div_less_iff_less_mult mult.commute)
    then show ?thesis using 1 assms by (auto simp: bit_words bit_take_bit_iff)
  next
    case 2
    then have "m < 64 * i + j \<longleftrightarrow> m mod 64 < j" using mult_div_mod_eq [of 64 m] by linarith
    then show ?thesis using 2 assms
      by (auto simp: bit_words bit_take_bit_iff bit_and_iff bit_not_iff bit_mask_iff)
  next
    case 3
    then have "\<not> m < 64 * i + j" using mult_div_mod_eq [of 64 m] assms(2) by linarith
    then show ?thesis using 3 by (auto simp: bit_words bit_take_bit_iff)
  qed
qed

lemma BN_set_bit_ok:
  assumes "bn_wf a" and "bn_room mal (n div 64 + 1) a"
  shows "\<exists>r1. BN_set_bit mal a (int n) = (Some (), r1) \<and> bn_wf r1 \<and> neg r1 = neg a \<and>
    bn_mag r1 = set_bit n (bn_mag a)"
proof -
  let ?i = "n div 64" and ?j = "n mod 64"
  let ?set = "\<lambda>b. b\<lparr>bn_d := (bn_d b)[?i := bn_d b ! ?i OR push_bit ?j 1]\<rparr>"
  have set: "bn_sized (?set b) \<and> neg (?set b) = neg b \<and> bn_mag (?set b) = set_bit n (bn_mag b)"
    if "bn_sized b" "?i < width b" for b
    using that update_OR [of ?i "bn_words b" ?j]
    by (simp add: bn_sized_def bn_mag_def bn_words_def take_update_swap)
  have nz: "set_bit n m \<noteq> 0" for m :: nat
    by (metis bit_0_eq bit_set_bit_iff bot_apply bot_bool_def possible_bit_nat)
  have a: "bn_sized a" using assms(1) by (simp add: bn_wf_def)
  show ?thesis
  proof (cases "width a \<le> ?i")
    case False
    then have "BN_set_bit mal a (int n) = (Some (), ?set a)" by (simp add: BN_set_bit_def Let_def)
    then show ?thesis using set [OF a] False nz by (auto simp: bn_wf_def)
  next
    case True
    obtain r1 where r1: "bn_wexpand mal (?i + 1) a = (Some (), r1)" "length (bn_d r1) = dmax r1"
      "?i + 1 \<le> dmax r1" "width r1 = width a" "neg r1 = neg a" "bn_words r1 = bn_words a"
      by (rule wexpand_ok [OF a assms(2)])
    let ?r = "r1\<lparr>bn_d := bn_words r1 @ replicate (?i + 1 - width r1) 0 @ drop (?i + 1) (bn_d r1), width := ?i + 1\<rparr>"
    have "bn_sized ?r" using r1 a True by (simp add: bn_sized_def)
    moreover have "bn_words ?r = bn_words a @ replicate (?i + 1 - width a) 0"
      unfolding bn_words_def [of ?r] using r1(3,4,6) a True by simp
    then have "bn_mag ?r = bn_mag a" by (simp add: bn_mag_def words_val_append)
    moreover have "BN_set_bit mal a (int n) = (Some (), ?set ?r)" using r1(1) True by (simp add: BN_set_bit_def Let_def)
    ultimately show ?thesis using set [of ?r] nz r1(5) by (auto simp: bn_wf_def)
  qed
qed

lemma BN_clear_bit_ok:
  assumes "bn_wf a"
  shows "BN_clear_bit a (int n) = (None, a) \<and> \<not> bit (bn_mag a) n \<or>
    (\<exists>r1. BN_clear_bit a (int n) = (Some (), r1) \<and> bn_wf r1 \<and>
       bn_int r1 = (if neg a then - int (unset_bit n (bn_mag a)) else int (unset_bit n (bn_mag a))))"
proof (cases "width a \<le> n div 64")
  case True
  then show ?thesis using assms by (simp add: BN_clear_bit_def bn_mag_def bit_words bn_wf_def)
next
  case False
  let ?r = "a\<lparr>bn_d := (bn_d a)[n div 64 := bn_d a ! (n div 64) AND NOT (push_bit (n mod 64) 1)]\<rparr>"
  have s: "bn_sized ?r" using assms by (simp add: bn_wf_def bn_sized_def)
  have "bn_mag ?r = unset_bit n (bn_mag a)"
    using update_AND_NOT [of "n div 64" "bn_words a" "n mod 64"] assms False
    by (simp add: bn_wf_def bn_sized_def bn_mag_def bn_words_def take_update_swap)
  moreover have "BN_clear_bit a (int n) = (Some (), bn_set_minimal_width ?r)"
    using False by (simp add: BN_clear_bit_def Let_def)
  ultimately show ?thesis using set_minimal_width_wf [OF s] by simp
qed

lemma BN_mask_bits_ok:
  assumes "bn_wf a"
  shows "\<exists>r1. BN_mask_bits a (int n) = (Some (), r1) \<and> bn_wf r1 \<and>
    bn_int r1 = (if neg a then - int (bn_mag a mod 2 ^ n) else int (bn_mag a mod 2 ^ n))"
proof (cases "width a \<le> n div 64")
  case True
  then have "64 * width a \<le> n" by (simp add: div_le_mono mult.commute flip: less_eq_div_iff_mult_less_eq)
  then have "2 ^ (64 * width a) \<le> (2 :: nat) ^ n" by (intro power_increasing) simp_all
  moreover have "bn_mag a < 2 ^ (64 * width a)" using bn_mag_lt assms by (simp add: bn_wf_def)
  ultimately have "bn_mag a < 2 ^ n" by linarith
  then show ?thesis using True assms by (simp add: BN_mask_bits_def bn_int_def)
next
  case False
  let ?r = "if n mod 64 = 0 then a\<lparr>width := n div 64\<rparr>
    else a\<lparr>width := n div 64 + 1, bn_d := (bn_d a)[n div 64 := bn_d a ! (n div 64) AND NOT (push_bit (n mod 64) (- 1))]\<rparr>"
  have a: "length (bn_d a) = dmax a" "width a \<le> dmax a" using assms by (simp_all add: bn_wf_def bn_sized_def)
  have s: "bn_sized ?r" using a False by (simp add: bn_sized_def)
  have m: "bn_mag ?r = bn_mag a mod 2 ^ n"
  proof (cases "n mod 64 = 0")
    case True
    then have e: "64 * (n div 64) = n" using mult_div_mod_eq [of 64 n] by simp
    have "words_val (take (n div 64) (bn_words a)) = take_bit n (words_val (bn_words a))"
      by (rule bit_eqI) (use False a e in \<open>auto simp: bit_words bit_take_bit_iff bn_words_def div_less_iff_less_mult mult.commute\<close>)
    then show ?thesis using True False by (simp add: bn_mag_def bn_words_def take_bit_eq_mod min_def)
  next
    case n: False
    have "take (n div 64 + 1) ((bn_d a)[n div 64 := w]) = take (n div 64 + 1) ((bn_words a)[n div 64 := w])" for w
      using False a by (simp add: bn_words_def take_update_swap min_def)
    moreover have "bn_words a ! (n div 64) = bn_d a ! (n div 64)" using False by (simp add: bn_words_def)
    ultimately show ?thesis using update_mask [of "n div 64" "bn_words a" "n mod 64"] False a n
      by (simp add: bn_mag_def bn_words_def take_bit_eq_mod)
  qed
  have "BN_mask_bits a (int n) = (Some (), bn_set_minimal_width ?r)" using False by (simp add: BN_mask_bits_def Let_def)
  moreover have "neg ?r = neg a" by simp
  ultimately show ?thesis using set_minimal_width_wf [OF s] m by simp
qed

section \<open>Properties\<close>

text \<open>
  C37. Shifts and bit operations have their meaning on the value: \<open>BN_lshift\<close> and \<open>BN_lshift1\<close> multiply
  it by a power of two, \<open>BN_rshift\<close> and \<open>BN_rshift1\<close> divide the magnitude and keep the sign,
  \<open>BN_set_bit\<close>, \<open>BN_is_bit_set\<close> and \<open>BN_mask_bits\<close> set, test and cut bits of the magnitude, for every
  shift and bit index that the array can hold, word boundaries included.
\<close>

theorem bn_shift_refines:
  assumes "bn_wf a" and "bn_sized r" and "bn_room mal (width a + n div 64 + 1) r" and "bn_room mal (n div 64 + 1) a"
  shows "\<exists>l l1 s s1 b m. BN_lshift mal r a (int n) = (Some (), l) \<and> BN_lshift1 mal r a = (Some (), l1) \<and>
    BN_rshift mal r a (int n) = (Some (), s) \<and> BN_rshift1 mal r a = (Some (), s1) \<and>
    BN_set_bit mal a (int n) = (Some (), b) \<and> BN_mask_bits a (int n) = (Some (), m) \<and>
    bn_wf l \<and> bn_wf l1 \<and> bn_wf s \<and> bn_wf s1 \<and> bn_wf b \<and> bn_wf m \<and>
    bn_int l = bn_int a * 2 ^ n \<and> bn_int l1 = bn_int a * 2 \<and>
    bn_int s = sgn (bn_int a) * (\<bar>bn_int a\<bar> div 2 ^ n) \<and> bn_int s1 = sgn (bn_int a) * (\<bar>bn_int a\<bar> div 2) \<and>
    bn_mag b = set_bit n (bn_mag a) \<and> \<bar>bn_int m\<bar> = \<bar>bn_int a\<bar> mod 2 ^ n \<and>
    BN_is_bit_set a (int n) = (if bit (bn_mag a) n then 1 else 0)"
proof -
  have room: "bn_room mal (width a + nat (int n) div 64 + 1) r" "bn_room mal (width a + 1) r" "bn_room mal (width a) r"
    using assms(3) by (auto simp: bn_room_def)
  have z: "0 \<le> int n" by simp
  obtain l where l: "BN_lshift mal r a (int n) = (Some (), l)" "bn_wf l" "bn_int l = bn_int a * 2 ^ n"
    using BN_lshift_ok [OF assms(1,2) z room(1)] by auto
  obtain l1 where l1: "BN_lshift1 mal r a = (Some (), l1)" "bn_wf l1" "bn_int l1 = bn_int a * 2"
    using BN_lshift1_ok [OF assms(1,2) room(2)] by blast
  obtain s where s: "BN_rshift mal r a (int n) = (Some (), s)" "bn_wf s" "bn_int s = sgn (bn_int a) * (\<bar>bn_int a\<bar> div 2 ^ n)"
    using BN_rshift_ok [OF assms(1,2) z room(3)] by (auto simp: shr_int_def)
  obtain s1 where s1: "BN_rshift1 mal r a = (Some (), s1)" "bn_wf s1" "bn_int s1 = sgn (bn_int a) * (\<bar>bn_int a\<bar> div 2)"
    using BN_rshift1_ok [OF assms(1,2) room(3)] by (auto simp: shr_int_def)
  obtain b where b: "BN_set_bit mal a (int n) = (Some (), b)" "bn_wf b" "bn_mag b = set_bit n (bn_mag a)"
    using BN_set_bit_ok [OF assms(1,4)] by blast
  obtain m where m: "BN_mask_bits a (int n) = (Some (), m)" "bn_wf m"
    "bn_int m = (if neg a then - int (bn_mag a mod 2 ^ n) else int (bn_mag a mod 2 ^ n))"
    using BN_mask_bits_ok [OF assms(1)] by blast
  have "\<bar>bn_int m\<bar> = \<bar>bn_int a\<bar> mod 2 ^ n" using m(3) by (simp add: bn_int_def zmod_int)
  moreover have "BN_is_bit_set a (int n) = (if bit (bn_mag a) n then 1 else 0)"
    using assms(1) by (intro is_bit_set) (simp add: bn_wf_def)
  ultimately show ?thesis using l l1 s s1 b m(1,2) by (intro exI conjI)
qed

theorem bn_shift_refines_witness:
  "\<exists>l. BN_lshift (\<lambda>n. Some (replicate n 0)) BN_init
      \<lparr>bn_d = [3], width = 1, dmax = 1, neg = True, static_data = False\<rparr> 70 = (Some (), l) \<and>
    bn_int l = - 3 * 2 ^ 70"
proof -
  let ?a = "\<lparr>bn_d = [3], width = 1, dmax = 1, neg = True, static_data = False\<rparr>"
  have "bn_wf ?a" "bn_int ?a = - 3" by (simp_all add: bn_wf_def bn_sized_def bn_mag_def bn_words_def bn_int_def)
  moreover have "bn_sized BN_init" by (simp add: bn_sized_def BN_init_def)
  moreover have "bn_room (\<lambda>n. Some (replicate n 0)) (width ?a + 70 div 64 + 1) BN_init"
    "bn_room (\<lambda>n. Some (replicate n 0)) (70 div 64 + 1) ?a"
    by (simp_all add: bn_room_def BN_MAX_WORDS_def BN_init_def)
  ultimately show ?thesis using bn_shift_refines [of ?a BN_init "\<lambda>n. Some (replicate n 0)" 70] by auto
qed

text \<open>
  Shifting by a secret gives the quotient too, without branches on it, for shifts up to the bits
  of the width; the loop looks at no more bits of the shift than the width has.
\<close>

theorem bn_rshift_secret_divides:
  assumes "bn_wf a" and "bn_sized r" and "bn_sized t" and "bn_room mal (width a) r" and "bn_room mal (width a) t"
    and "unat n \<le> 64 * width a"
  shows "\<exists>r1. bn_rshift_secret_shift mal (Some t) r a n = (Some (), r1) \<and> bn_sized r1 \<and> width r1 = width a \<and>
    neg r1 = neg a \<and> bn_mag r1 = bn_mag a div 2 ^ unat n"
  using assms by (rule bn_rshift_secret_ok)

theorem bn_rshift_secret_divides_witness:
  "\<exists>r1. bn_rshift_secret_shift (\<lambda>n. Some (replicate n 0)) (Some BN_init) BN_init
      \<lparr>bn_d = [0, 1], width = 2, dmax = 2, neg = False, static_data = False\<rparr> 60 = (Some (), r1) \<and> bn_mag r1 = 16"
proof -
  let ?a = "\<lparr>bn_d = [0, 1], width = 2, dmax = 2, neg = False, static_data = False\<rparr>"
  have a: "bn_wf ?a" "bn_mag ?a = 2 ^ 64" by (simp_all add: bn_wf_def bn_sized_def bn_mag_def bn_words_def)
  have i: "bn_sized BN_init" "bn_room (\<lambda>n. Some (replicate n 0)) (width ?a) BN_init"
    by (simp_all add: bn_sized_def bn_room_def BN_MAX_WORDS_def BN_init_def)
  show ?thesis using bn_rshift_secret_divides [OF a(1) i(1,1,2,2), of 60] a(2) by auto
qed

text \<open>
  Beyond that the bits of the shift above the width's are ignored: one word shifted by 128 comes
  back unchanged, where \<open>BN_rshift\<close> gives zero.
\<close>

theorem bn_rshift_secret_large:
  "bn_rshift_secret_shift (\<lambda>n. Some (replicate n 0)) (Some BN_init) BN_init
      \<lparr>bn_d = [7], width = 1, dmax = 1, neg = False, static_data = False\<rparr> 128 =
      (Some (), \<lparr>bn_d = [7], width = 1, dmax = 1, neg = False, static_data = False\<rparr>) \<and>
    BN_rshift (\<lambda>n. Some (replicate n 0)) BN_init
      \<lparr>bn_d = [7], width = 1, dmax = 1, neg = False, static_data = False\<rparr> 128 =
      (Some (), \<lparr>bn_d = [0], width = 0, dmax = 1, neg = False, static_data = False\<rparr>)"
proof
  let ?a = "\<lparr>bn_d = [7], width = 1, dmax = 1, neg = False, static_data = False\<rparr>"
  let ?mal = "\<lambda>n. Some (replicate n 0)"
  have "2 ^ j \<le> (64 :: nat)" if "j < 7" for j
  proof -
    have "(2 :: nat) ^ j \<le> 2 ^ 6" using that by (intro power_increasing) simp_all
    then show ?thesis by simp
  qed
  then have L: "length (rshift_secret_loop 128 64 0 [7]) = 1" "words_val (rshift_secret_loop 128 64 0 [7]) = 7"
    using rshift_secret_loop [of 64 7 0 128 "[7]"] by (simp_all add: take_bit_eq_mod)
  then obtain x where x: "rshift_secret_loop 128 64 0 [7] = [x]" by (auto simp: length_Suc_conv)
  then have "x = 7" using L(2) by (simp add: word_unat_eq_iff)
  moreover have "\<exists>z. OPENSSL_calloc ?mal 1 8 = Some z" using OPENSSL_calloc_total [of ?mal 1 8] by auto
  ultimately show "bn_rshift_secret_shift ?mal (Some BN_init) BN_init ?a 128 = (Some (), ?a)"
    using x by (auto simp: bn_rshift_secret_shift_def BN_copy_def bn_wexpand_def BN_init_def BN_MAX_WORDS_def bn_words_def)
  show "BN_rshift ?mal BN_init ?a 128 = (Some (), \<lparr>bn_d = [0], width = 0, dmax = 1, neg = False, static_data = False\<rparr>)"
    using \<open>\<exists>z. OPENSSL_calloc ?mal 1 8 = Some z\<close>
    by (auto simp: BN_rshift_def bn_wexpand_def BN_init_def BN_MAX_WORDS_def bn_words_def bn_rshift_words_def
        bn_set_minimal_width_def bn_minimal_width_def)
qed

end
