(* ===== verification/Bn_Bytes_Props.thy ===== *)
theory Bn_Bytes_Props
  imports Bytes Bn_Bytes Bn_Shift_Props "HOL-Library.Log_Nat"
begin

text \<open>
  What the byte conversions of bytes.c write and read: the big-endian digits of the magnitude,
  shortest or padded, and back; the bit and byte counts of bn.c.
\<close>

section \<open>Words as memory\<close>

lemma length_word_bytes [simp]: "length (word_bytes w) = 8"
  by (simp add: word_bytes_def)

lemma length_bytes_of_words [simp]: "length (bytes_of_words ws) = 8 * length ws"
  by (induction ws) (simp_all add: bytes_of_words_def)

lemma word_bytes: "rev (word_bytes w) = be_bytes 8 (unat w)"
proof -
  have d: "ucast (drop_bit (8 * i) w) = byte_of (unat w div 256 ^ i)" for i
  proof -
    have "unat (drop_bit (8 * i) w) = unat w div 256 ^ i"
      unfolding unat_drop_bit by (simp add: power_mult)
    then show ?thesis by (simp add: word_unat_eq_iff unat_ucast_mod)
  qed
  show ?thesis unfolding word_bytes_def d by (rule be_bytes_map)
qed

lemma words_val_bytes: "words_val ws = be_val (rev (bytes_of_words ws))"
proof (induction ws)
  case (Cons w ws)
  have "be_val (rev (word_bytes w)) = unat w"
    using unat_u64_lt [of w] by (simp add: word_bytes be_val_be_bytes)
  then show ?case using Cons by (simp add: bytes_of_words_def be_val_append)
qed (simp add: bytes_of_words_def)

lemma load_word_be: "length bs = 8 \<Longrightarrow> CRYPTO_load_word_be bs = be_loop 0 bs"
proof (rule bit_word_eqI)
  fix m assume l: "length bs = 8" and "m < LENGTH(64)"
  then have m: "m < 64" by simp
  have d: "m div 8 \<le> 7" "m mod 8 < 8" using m by simp_all
  have d7: "7 - m div 8 < 8" by linarith
  have e: "56 - 8 * (m div 8) + m mod 8 = 8 * (7 - m div 8) + m mod 8" using d by simp
  have "bit (CRYPTO_load_word_be bs) m \<longleftrightarrow> bit (bs ! (7 - m div 8)) (m mod 8)"
    unfolding CRYPTO_load_word_be_def bit_bswap8 [OF m] e using l d d7 bit_le_word [of bs "8 * (7 - m div 8) + m mod 8"] by simp
  moreover have "be_loop 0 bs = le_word (rev bs)" by (simp add: le_word_be)
  ultimately show "bit (CRYPTO_load_word_be bs) m \<longleftrightarrow> bit (be_loop 0 bs) m"
    using l d by (simp add: bit_le_word rev_nth)
qed

section \<open>Reading a number\<close>

lemma be_words_loop:
  "words_val (be_words_loop bs) = be_val bs \<and> length (be_words_loop bs) = (length bs + 7) div 8"
proof (induction bs rule: be_words_loop.induct)
  case (1 bs)
  show ?case
  proof (cases "length bs \<ge> 8")
    case True
    let ?lo = "drop (length bs - 8) bs" and ?hi = "take (length bs - 8) bs"
    have "be_val bs = be_val ?hi * 2 ^ 64 + be_val ?lo" using True be_val_append [of ?hi ?lo] by simp
    moreover have "unat (CRYPTO_load_word_be ?lo) = be_val ?lo"
      using True load_word_be [of ?lo] be_loop_be_val [of ?lo] by simp
    ultimately show ?thesis using True "1.IH" by (subst (1 2) be_words_loop.simps) (simp add: le_div_geq)
  next
    case False
    then have "bs \<noteq> [] \<Longrightarrow> (length bs + 7) div 8 = 1" by (cases bs) (simp_all add: div_nat_eqI)
    then show ?thesis using be_loop_be_val [of bs] False by (cases "bs = []") (simp_all add: be_words_loop.simps)
  qed
qed

text \<open>A number that is read: \<open>n\<close>, with the sign that was there or not.\<close>

lemma BN_new_ok: "(\<And>m. mal m \<noteq> None) \<Longrightarrow> BN_new mal = Some BN_init"
  using OPENSSL_malloc_total [of mal 24] by (auto simp: BN_new_def)

lemma BN_init_wf [simp]: "bn_wf BN_init" "bn_sized BN_init" "bn_mag BN_init = 0" "bn_int BN_init = 0"
  by (simp_all add: BN_init_def bn_wf_def bn_sized_def bn_mag_def bn_words_def bn_int_def)

lemma bin2bn:
  assumes "bn_sized r" and "bs \<noteq> []" and "bn_room mal ((length bs + 7) div 8) r"
  shows "\<exists>r1. BN_bin2bn mal bs (Some r) = Some r1 \<and> bn_wf r1 \<and> \<not> neg r1 \<and> bn_mag r1 = be_val bs \<and>
    width r1 = (length bs + 7) div 8"
proof -
  let ?n = "(length bs - 1) div 8 + 1"
  have n: "(length bs + 7) div 8 = ?n" using assms(2) by (cases bs) simp_all
  obtain r1 where r1: "bn_wexpand mal ?n r = (Some (), r1)" "length (bn_d r1) = dmax r1" "?n \<le> dmax r1"
    by (rule wexpand_ok [OF assms(1,3) [unfolded n]])
  have "length bs \<le> (length bs + 7) div 8 * 8" by presburger
  then have l: "length bs \<le> ?n * 8" by (simp only: n)
  have w: "length (be_words_loop bs) = ?n" "words_val (be_words_loop bs) = be_val bs"
    using be_words_loop [of bs] n by simp_all
  let ?r = "r1\<lparr>bn_d := be_words_loop bs @ drop ?n (bn_d r1), width := ?n, neg := False\<rparr>"
  have "BN_bin2bn mal bs (Some r) = Some ?r"
    using assms(2) r1(1) l w(1) by (simp add: BN_bin2bn_def bn_big_endian_to_words_def)
  moreover have "bn_wf ?r" using r1 w(1) by (simp add: bn_wf_def bn_sized_def)
  moreover have "bn_mag ?r = be_val bs" using w by (simp add: bn_mag_def bn_words_def)
  moreover have "\<not> neg ?r" "width ?r = ?n" by simp_all
  ultimately show ?thesis unfolding n by blast
qed

section \<open>Bit counts\<close>

lemma nonzero_mask: "x < 2 ^ 63 \<Longrightarrow> 0 - drop_bit 63 (0 - x) = (if x = 0 then 0 else - 1 :: u64)" for x :: u64
proof -
  assume x: "x < 2 ^ 63"
  have "bit (- x) 63 \<longleftrightarrow> x \<noteq> 0"
  proof (cases "x = 0")
    case False
    then have "unat (- x) = 2 ^ 64 - unat x" using unat_sub_if' [of 0 x] by (simp add: unat_eq_zero)
    moreover have "unat x < 2 ^ 63" using x by (simp add: word_less_nat_alt)
    ultimately show ?thesis using False by (simp add: bit_63_iff)
  qed simp
  then show ?thesis using msb_w [of "- x"] by (simp add: constant_time_msb_w_def)
qed

lemma num_bits_step:
  assumes "1 \<le> k" and "k < 64"
  shows "num_bits_step k (l, b) = (if unat l < 2 ^ k then (l, b) else (drop_bit k l, b + k))"
proof -
  have "unat (drop_bit k l) = unat l div 2 ^ k" by (rule unat_drop_bit)
  moreover have "unat l div 2 ^ k \<le> unat l div 2 ^ 1"
    using assms(1) by (intro div_le_mono2 power_increasing) simp_all
  ultimately have u: "unat (drop_bit k l) < 2 ^ 63" "drop_bit k l = 0 \<longleftrightarrow> unat l < 2 ^ k"
    using unat_u64_lt [of l] by (simp_all add: less_mult_imp_div_less word_unat_eq_iff div_eq_0_iff)
  have m: "0 - drop_bit 63 (0 - drop_bit k l) = (if unat l < 2 ^ k then 0 else - 1 :: u64)"
    using nonzero_mask [of "drop_bit k l"] u by (simp add: word_less_nat_alt)
  have "unat (of_nat k :: u64) = k" using assms(2) by (simp add: unat_of_nat)
  moreover have "l XOR (drop_bit k l XOR l) = drop_bit k l"
    by (rule bit_word_eqI) (auto simp: bit_xor_iff)
  ultimately show ?thesis unfolding num_bits_step_def prod.case Let_def m by simp
qed

lemma floorlog_drop: "2 ^ k \<le> n \<Longrightarrow> floorlog 2 (n div 2 ^ k) + k = floorlog 2 n"
proof (induction k arbitrary: n)
  case (Suc k)
  have "2 ^ k \<le> n div 2" using Suc.prems by simp
  moreover have "2 \<le> n" by (rule order_trans [OF _ Suc.prems [unfolded power_Suc]]) simp
  ultimately have "floorlog 2 (n div 2 div 2 ^ k) + k = floorlog 2 (n div 2)" by (intro Suc.IH)
  moreover have "floorlog 2 n = floorlog 2 (n div 2) + 1" using \<open>2 \<le> n\<close> by (subst compute_floorlog) simp
  ultimately show ?case by (simp add: div_mult2_eq)
qed simp

lemma num_bits_word_step:
  assumes "1 \<le> k" and "k < 64" and "unat l < 2 ^ (2 * k)" and "l \<noteq> 0"
    and "b + floorlog 2 (unat l) = N + 1"
  obtains l1 b1 where "num_bits_step k (l, b) = (l1, b1)" and "unat l1 < 2 ^ k" and "l1 \<noteq> 0"
    and "b1 + floorlog 2 (unat l1) = N + 1"
proof (cases "unat l < 2 ^ k")
  case True
  then show thesis using that [of l b] num_bits_step [OF assms(1,2), of l b] assms by simp
next
  case False
  have u: "unat (drop_bit k l) = unat l div 2 ^ k" by (rule unat_drop_bit)
  have "unat l div 2 ^ k < 2 ^ k" using assms(3) by (simp add: less_mult_imp_div_less flip: power_add mult_2)
  moreover have "drop_bit k l \<noteq> 0" using False u by (simp add: word_unat_eq_iff div_eq_0_iff)
  moreover have "b + k + floorlog 2 (unat l div 2 ^ k) = N + 1" using floorlog_drop [of k "unat l"] False assms(5) by simp
  moreover have "num_bits_step k (l, b) = (drop_bit k l, b + k)"
    using num_bits_step [OF assms(1,2), of l b] False by simp
  ultimately show thesis using that [of "drop_bit k l" "b + k"] unfolding u by blast
qed

lemma num_bits_word: "BN_num_bits_word l = floorlog 2 (unat l)"
proof (cases "l = 0")
  case True
  then show ?thesis by (simp add: BN_num_bits_word_def num_bits_step floorlog_def)
next
  case False
  define N where "N = floorlog 2 (unat l)"
  obtain l1 b1 where 1: "num_bits_step 32 (l, 1) = (l1, b1)" "unat l1 < 2 ^ 32" "l1 \<noteq> 0" "b1 + floorlog 2 (unat l1) = N + 1"
    by (rule num_bits_word_step [of 32 l 1 N]) (use unat_u64_lt [of l] False N_def in simp_all)
  obtain l2 b2 where 2: "num_bits_step 16 (l1, b1) = (l2, b2)" "unat l2 < 2 ^ 16" "l2 \<noteq> 0" "b2 + floorlog 2 (unat l2) = N + 1"
    by (rule num_bits_word_step [of 16 l1 b1 N]) (use 1 in simp_all)
  obtain l3 b3 where 3: "num_bits_step 8 (l2, b2) = (l3, b3)" "unat l3 < 2 ^ 8" "l3 \<noteq> 0" "b3 + floorlog 2 (unat l3) = N + 1"
    by (rule num_bits_word_step [of 8 l2 b2 N]) (use 2 in simp_all)
  obtain l4 b4 where 4: "num_bits_step 4 (l3, b3) = (l4, b4)" "unat l4 < 2 ^ 4" "l4 \<noteq> 0" "b4 + floorlog 2 (unat l4) = N + 1"
    by (rule num_bits_word_step [of 4 l3 b3 N]) (use 3 in simp_all)
  obtain l5 b5 where 5: "num_bits_step 2 (l4, b4) = (l5, b5)" "unat l5 < 2 ^ 2" "l5 \<noteq> 0" "b5 + floorlog 2 (unat l5) = N + 1"
    by (rule num_bits_word_step [of 2 l4 b4 N]) (use 4 in simp_all)
  obtain l6 b6 where 6: "num_bits_step 1 (l5, b5) = (l6, b6)" "unat l6 < 2 ^ 1" "l6 \<noteq> 0" "b6 + floorlog 2 (unat l6) = N + 1"
    by (rule num_bits_word_step [of 1 l5 b5 N]) (use 5 in simp_all)
  have "unat l6 = 1" using 6(2,3) by (simp add: word_unat_eq_iff)
  then have "b6 = N" using 6(4) by (simp add: floorlog_def)
  moreover have "BN_num_bits_word l = b6"
    using False by (simp only: BN_num_bits_word_def if_True 1(1) 2(1) 3(1) 4(1) 5(1) 6(1) snd_conv simp_thms)
  ultimately show ?thesis by (simp add: N_def)
qed

lemma floorlog_top:
  assumes "0 < t" and "m < 2 ^ k"
  shows "floorlog 2 (m + 2 ^ k * t) = k + floorlog 2 t"
proof -
  have "2 ^ k * 1 \<le> 2 ^ k * t" using assms(1) by (intro mult_left_mono) simp_all
  then have "floorlog 2 ((m + 2 ^ k * t) div 2 ^ k) + k = floorlog 2 (m + 2 ^ k * t)"
    by (intro floorlog_drop) linarith
  then show ?thesis using assms(2) by simp
qed

lemma num_bits: "bn_sized a \<Longrightarrow> BN_num_bits a = floorlog 2 (bn_mag a)"
proof -
  assume a: "bn_sized a"
  let ?w = "bn_minimal_width a"
  show ?thesis
  proof (cases "?w = 0")
    case True
    then have "bn_mag a = 0" using a minimal_width_0 [of "width a" "bn_d a"]
      by (simp add: bn_minimal_width_def bn_mag_def bn_words_def bn_sized_def)
    then show ?thesis using True by (simp add: BN_num_bits_def floorlog_def)
  next
    case False
    then obtain w where w: "?w = Suc w" by (cases ?w) auto
    have l: "?w \<le> length (bn_d a)"
      using a minimal_width_le [of "bn_d a" "width a"] by (simp add: bn_minimal_width_def bn_sized_def)
    have "bn_mag a = words_val (take ?w (bn_d a))"
      using a minimal_width_val [of "width a" "bn_d a"]
      by (simp add: bn_minimal_width_def bn_mag_def bn_words_def bn_sized_def)
    also have "\<dots> = words_val (take w (bn_d a)) + 2 ^ (64 * w) * unat (bn_d a ! w)"
      using l w by (simp add: take_Suc_conv_app_nth words_val_snoc)
    finally have m: "bn_mag a = words_val (take w (bn_d a)) + 2 ^ (64 * w) * unat (bn_d a ! w)" .
    have "length (take w (bn_d a)) = w" using l w by simp
    then have "words_val (take w (bn_d a)) < 2 ^ (64 * w)" using words_val_lt [of "take w (bn_d a)"] by simp
    moreover have "bn_d a ! w \<noteq> 0" using w minimal_width_top [of "bn_d a" "width a"] by (simp add: bn_minimal_width_def)
    ultimately have "floorlog 2 (bn_mag a) = 64 * w + floorlog 2 (unat (bn_d a ! w))"
      unfolding m by (intro floorlog_top) (simp_all add: unat_gt_0)
    then show ?thesis using w by (simp add: BN_num_bits_def num_bits_word)
  qed
qed

section \<open>Writing a number\<close>

lemma or_bytes_0: "foldl (\<lambda>m b. m OR b) m bs = 0 \<longleftrightarrow> m = 0 \<and> (\<forall>b\<in>set bs. b = (0 :: byte))"
proof (induction bs arbitrary: m)
  case (Cons b bs)
  have "m OR b = 0 \<longleftrightarrow> m = 0 \<and> b = 0" by (auto simp: bit_eq_iff bit_or_iff)
  then show ?case using Cons by auto
qed simp

lemma words_bytes_split:
  "words_val ws = be_val (rev (drop n (bytes_of_words ws))) * 256 ^ min n (8 * length ws) +
     be_val (rev (take n (bytes_of_words ws)))"
proof -
  have "rev (bytes_of_words ws) = rev (drop n (bytes_of_words ws)) @ rev (take n (bytes_of_words ws))"
    by (simp only: rev_append [symmetric] append_take_drop_id)
  then show ?thesis by (simp add: words_val_bytes be_val_append min.commute)
qed

lemma fits_in_bytes: "bn_sized a \<Longrightarrow> fits_in_bytes (bn_d a) (width a) n \<longleftrightarrow> bn_mag a < 256 ^ n"
proof -
  assume a: "bn_sized a"
  let ?hi = "be_val (rev (drop n (bytes_of_words (bn_words a))))"
  let ?lo = "be_val (rev (take n (bytes_of_words (bn_words a))))"
  have f: "fits_in_bytes (bn_d a) (width a) n \<longleftrightarrow> ?hi = 0"
    by (simp add: fits_in_bytes_def or_bytes_0 be_val_0_iff bn_words_def)
  have l: "length (bn_words a) = width a" using a by simp
  have m: "bn_mag a = ?hi * 256 ^ min n (8 * width a) + ?lo"
    using words_bytes_split [of "bn_words a" n] by (simp add: bn_mag_def l)
  have lo: "?lo < 256 ^ min n (8 * width a)"
    using be_val_lt [of "rev (take n (bytes_of_words (bn_words a)))"] l by (simp add: min.commute)
  show ?thesis
  proof (cases "8 * width a \<le> n")
    case True
    then have "?hi = 0" using l by simp
    moreover have "(256 :: nat) ^ min n (8 * width a) \<le> 256 ^ n" by (intro power_increasing) simp_all
    with lo have "?lo < 256 ^ n" by (rule order_less_le_trans)
    ultimately show ?thesis using f m by simp
  next
    case False
    show ?thesis
    proof (cases "?hi = 0")
      case True
      then show ?thesis using f m lo False by simp
    next
      case hi: False
      then have "1 * 256 ^ n \<le> ?hi * 256 ^ n" by (intro mult_right_mono) simp_all
      moreover have "min n (8 * width a) = n" using False by simp
      ultimately have "256 ^ n \<le> bn_mag a" using m by linarith
      then show ?thesis using f hi by simp
    qed
  qed
qed

lemma words_to_big_endian:
  assumes "bn_sized a" and "bn_mag a < 256 ^ n"
  shows "bn_words_to_big_endian n (bn_d a) (width a) = be_bytes n (bn_mag a)"
proof -
  let ?B = "bytes_of_words (bn_words a)"
  let ?k = "if n < width a * 8 then n else width a * 8"
  let ?out = "replicate (n - ?k) 0 @ rev (take ?k ?B)"
  have l: "length ?B = 8 * width a" using assms(1) by simp
  have "be_val (rev (drop n ?B)) = 0"
    using fits_in_bytes [OF assms(1), of n] assms(2)
    by (simp add: fits_in_bytes_def or_bytes_0 be_val_0_iff bn_words_def)
  then have "bn_mag a = be_val (rev (take n ?B))"
    using words_bytes_split [of "bn_words a" n] by (simp add: bn_mag_def)
  moreover have "take n ?B = take ?k ?B" using l by simp
  ultimately have "be_val ?out = bn_mag a" by (simp add: be_val_append)
  moreover have "length ?out = n" using l by simp
  ultimately have "be_bytes n (bn_mag a) = ?out" using be_bytes_unique by metis
  then show ?thesis by (simp add: bn_words_to_big_endian_def bn_words_def Let_def)
qed

lemma num_bytes: "bn_sized a \<Longrightarrow> be_bytes (BN_num_bytes a) (bn_mag a) = be_min (bn_mag a) \<and> bn_mag a < 256 ^ BN_num_bytes a"
proof (cases "bn_mag a = 0")
  case True
  assume "bn_sized a"
  then show ?thesis using True by (simp add: BN_num_bytes_def num_bits floorlog_def)
next
  case False
  assume a: "bn_sized a"
  let ?b = "floorlog 2 (bn_mag a)" and ?n = "BN_num_bytes a"
  have n: "?n = (?b + 7) div 8" using a by (simp add: BN_num_bytes_def num_bits)
  have b: "2 ^ (?b - 1) \<le> bn_mag a" "bn_mag a < 2 ^ ?b" using floorlog_bounds [of "bn_mag a" 2] False by simp_all
  have p: "(256 :: nat) ^ k = 2 ^ (8 * k)" for k by (simp add: power_mult)
  have "?b \<le> 8 * ?n" unfolding n by presburger
  then have "(2 :: nat) ^ ?b \<le> 256 ^ ?n" unfolding p by (intro power_increasing) simp_all
  then have up: "bn_mag a < 256 ^ ?n" using b(2) by linarith
  have "0 < ?n \<Longrightarrow> 8 * (?n - 1) \<le> ?b - 1" unfolding n by presburger
  then have "0 < ?n \<Longrightarrow> (256 :: nat) ^ (?n - 1) \<le> 2 ^ (?b - 1)" unfolding p by (intro power_increasing) simp_all
  then have "0 < ?n \<Longrightarrow> 256 ^ (?n - 1) \<le> bn_mag a" using b(1) by linarith
  then show ?thesis by (intro conjI be_bytes_min up)
qed

lemma bn2bin: "bn_sized a \<Longrightarrow> BN_bn2bin a = be_min (bn_mag a)"
  using num_bytes [of a] by (simp add: BN_bn2bin_def words_to_big_endian)

lemma bn2bin_padded:
  "bn_sized a \<Longrightarrow> BN_bn2bin_padded n a = (if bn_mag a < 256 ^ n then Some (be_bytes n (bn_mag a)) else None)"
  by (simp add: BN_bn2bin_padded_def fits_in_bytes words_to_big_endian)

lemma bn2le_padded:
  "bn_sized a \<Longrightarrow> BN_bn2le_padded n a = map_option rev (BN_bn2bin_padded n a)"
  by (simp add: BN_bn2le_padded_def BN_bn2bin_padded_def bn_words_to_big_endian_def bn_words_def Let_def)

section \<open>Little-endian input\<close>

lemma words_of_bytes:
  "8 dvd length bs \<Longrightarrow> words_val (words_of_bytes bs) = be_val (rev bs) \<and> length (words_of_bytes bs) = length bs div 8"
proof (induction bs rule: words_of_bytes.induct)
  case (1 bs)
  show ?case
  proof (cases "length bs < 8")
    case True
    moreover from True "1.prems" have "bs = []" by (auto elim!: dvdE)
    ultimately show ?thesis by (simp add: words_of_bytes.simps)
  next
    case False
    have "8 dvd length (drop 8 bs)" using "1.prems" False by (simp add: dvd_diff_nat)
    then have IH: "words_val (words_of_bytes (drop 8 bs)) = be_val (rev (drop 8 bs))"
      "length (words_of_bytes (drop 8 bs)) = length (drop 8 bs) div 8" using "1.IH" False by simp_all
    have e: "words_of_bytes bs = le_word (take 8 bs) # words_of_bytes (drop 8 bs)"
      using False by (subst words_of_bytes.simps) simp
    have "rev bs = rev (drop 8 bs) @ rev (take 8 bs)" by (simp only: rev_append [symmetric] append_take_drop_id)
    then have "be_val (rev bs) = be_val (rev (drop 8 bs)) * 2 ^ 64 + be_val (rev (take 8 bs))"
      using False by (simp add: be_val_append)
    moreover have "unat (le_word (take 8 bs)) = be_val (rev (take 8 bs))"
      using be_loop_be_val [of "rev (take 8 bs)"] by (simp add: le_word_be)
    ultimately show ?thesis using IH False unfolding e by (simp add: le_div_geq)
  qed
qed

lemma take_words_of_bytes: "8 * n \<le> length bs \<Longrightarrow> take n (words_of_bytes bs) = words_of_bytes (take (8 * n) bs)"
proof (induction n arbitrary: bs)
  case 0
  then show ?case by (simp add: words_of_bytes.simps)
next
  case (Suc n)
  have "words_of_bytes bs = le_word (take 8 bs) # words_of_bytes (drop 8 bs)"
    using Suc.prems by (subst words_of_bytes.simps) simp
  moreover have "words_of_bytes (take (8 * Suc n) bs) =
      le_word (take 8 (take (8 * Suc n) bs)) # words_of_bytes (drop 8 (take (8 * Suc n) bs))"
    using Suc.prems by (subst words_of_bytes.simps) simp
  moreover have "take 8 (take (8 * Suc n) bs) = take 8 bs" "drop 8 (take (8 * Suc n) bs) = take (8 * n) (drop 8 bs)"
    by (simp_all add: min_def drop_take)
  moreover have "take n (words_of_bytes (drop 8 bs)) = words_of_bytes (take (8 * n) (drop 8 bs))"
    using Suc.prems by (intro Suc.IH) simp
  ultimately show ?case by simp
qed

lemma bytes_of_words_append: "bytes_of_words (a @ b) = bytes_of_words a @ bytes_of_words b"
  by (simp add: bytes_of_words_def)

lemma word_bytes_0: "word_bytes 0 = replicate 8 0"
  by (simp add: word_bytes_def map_replicate_const)

lemma lebin2bn:
  assumes "bn_sized r" and "bs \<noteq> []" and "bn_room mal ((length bs + 7) div 8) r"
  shows "\<exists>r1. BN_lebin2bn mal bs (Some r) = Some r1 \<and> bn_sized r1 \<and> neg r1 = neg r \<and> bn_mag r1 = be_val (rev bs)"
proof -
  let ?n = "(length bs - 1) div 8 + 1"
  have n: "(length bs + 7) div 8 = ?n" using assms(2) by (cases bs) simp_all
  obtain r1 where r1: "bn_wexpand mal ?n r = (Some (), r1)" "length (bn_d r1) = dmax r1" "?n \<le> dmax r1" "neg r1 = neg r"
    by (rule wexpand_ok [OF assms(1,3) [unfolded n]])
  have "length bs \<le> (length bs + 7) div 8 * 8" by presburger
  then have l: "length bs \<le> 8 * ?n" by (simp only: n mult.commute)
  have "(length bs - 1) div 8 * 8 \<le> length bs - 1" by (rule div_times_less_eq_dividend)
  moreover have "0 < length bs" using assms(2) by simp
  ultimately have lo: "8 * (?n - 1) \<le> length bs" by simp
  let ?d = "(bn_d r1)[?n - 1 := 0]"
  let ?m = "memcpy_words ?d bs"
  have ld: "length ?d = dmax r1" using r1(2) by simp
  have sp: "?d = take (?n - 1) ?d @ [0] @ drop ?n ?d"
    using r1(2,3) id_take_nth_drop [of "?n - 1" ?d] by simp
  have "bytes_of_words ?d = bytes_of_words (take (?n - 1) ?d) @ replicate 8 0 @ bytes_of_words (drop ?n ?d)"
    by (subst sp) (simp add: bytes_of_words_append bytes_of_words_def word_bytes_0)
  moreover have "length (bytes_of_words (take (?n - 1) ?d)) = 8 * (?n - 1)" using r1(2,3) by simp
  ultimately have z: "take (8 * ?n - length bs) (drop (length bs) (bytes_of_words ?d)) = replicate (8 * ?n - length bs) 0"
    using lo l by simp
  have len: "length (bs @ drop (length bs) (bytes_of_words ?d)) = 8 * dmax r1"
    using l r1(3) ld by simp
  have "length ?m = dmax r1" using words_of_bytes [of "bs @ drop (length bs) (bytes_of_words ?d)"] len
    by (simp add: memcpy_words_def)
  moreover have "words_val (take ?n ?m) = be_val (rev bs)"
  proof -
    have "take ?n ?m = words_of_bytes (take (8 * ?n) (bs @ drop (length bs) (bytes_of_words ?d)))"
      unfolding memcpy_words_def by (rule take_words_of_bytes) (use len r1(3) in simp)
    also have "take (8 * ?n) (bs @ drop (length bs) (bytes_of_words ?d)) = bs @ replicate (8 * ?n - length bs) 0"
      using z l by (simp only: take_append take_all)
    finally have "take ?n ?m = words_of_bytes (bs @ replicate (8 * ?n - length bs) 0)" .
    moreover have "8 dvd length (bs @ replicate (8 * ?n - length bs) (0 :: byte))" using l by simp
    ultimately show ?thesis using words_of_bytes [of "bs @ replicate (8 * ?n - length bs) 0"]
      by (simp only: rev_append rev_replicate be_val_append be_val_replicate_0 mult_0 add_0)
  qed
  ultimately have "bn_sized (r1\<lparr>width := ?n, bn_d := ?m\<rparr>)" "bn_mag (r1\<lparr>width := ?n, bn_d := ?m\<rparr>) = be_val (rev bs)"
    using r1(3) by (simp_all add: bn_sized_def bn_mag_def bn_words_def)
  moreover have "BN_lebin2bn mal bs (Some r) = Some (r1\<lparr>width := ?n, bn_d := ?m\<rparr>)"
    using assms(2) r1(1) by (simp add: BN_lebin2bn_def)
  ultimately show ?thesis using r1(4) by (intro exI [of _ "r1\<lparr>width := ?n, bn_d := ?m\<rparr>"]) simp
qed

section \<open>Properties\<close>

text \<open>
  Numbers as bytes: \<open>BN_bn2bin\<close> writes the shortest big-endian digits of the magnitude,
  \<open>BN_bn2bin_padded\<close> and \<open>BN_bn2le_padded\<close> exactly \<open>n\<close> digits or nothing when they do not fit, and
  \<open>BN_bin2bn\<close> reads any digits, leading zeros included, back into a well-formed number.
\<close>

theorem bn_bytes_roundtrip:
  assumes "bn_wf a" and "bn_sized r" and "bs \<noteq> []" and "bn_room mal ((length bs + 7) div 8) r"
  shows "BN_bn2bin a = be_min (bn_mag a) \<and>
    BN_bn2bin_padded n a = (if bn_mag a < 256 ^ n then Some (be_bytes n (bn_mag a)) else None) \<and>
    BN_bn2le_padded n a = map_option rev (BN_bn2bin_padded n a) \<and>
    (\<exists>r1. BN_bin2bn mal bs (Some r) = Some r1 \<and> bn_wf r1 \<and> bn_int r1 = int (be_val bs)) \<and>
    (BN_bn2bin_padded (length bs) a = Some bs \<longrightarrow>
       (\<exists>r1. BN_bin2bn mal bs (Some r) = Some r1 \<and> bn_int r1 = \<bar>bn_int a\<bar>))"
proof -
  have a: "bn_sized a" using assms(1) by (simp add: bn_wf_def)
  obtain r1 where r1: "BN_bin2bn mal bs (Some r) = Some r1" "bn_wf r1" "bn_int r1 = int (be_val bs)"
    using bin2bn [OF assms(2-4)] by (auto simp: bn_int_def)
  have "int (be_val bs) = \<bar>bn_int a\<bar>" if "BN_bn2bin_padded (length bs) a = Some bs"
  proof -
    have "bn_mag a < 256 ^ length bs" "be_bytes (length bs) (bn_mag a) = bs"
      using that bn2bin_padded [OF a, of "length bs"] by (auto split: if_splits)
    then have "be_val bs = bn_mag a" using be_val_be_bytes [of "length bs" "bn_mag a"] by simp
    then show ?thesis by (simp add: bn_int_def)
  qed
  then show ?thesis using r1 bn2bin [OF a] bn2bin_padded [OF a] bn2le_padded [OF a] by metis
qed

theorem bn_bytes_roundtrip_witness:
  "\<exists>r1. BN_bin2bn (\<lambda>n. Some (replicate n 0)) [0, 1, 2] (Some BN_init) = Some r1 \<and> bn_int r1 = 258"
proof -
  have "bn_sized BN_init" "bn_room (\<lambda>n. Some (replicate n 0)) ((length [0, 1, 2 :: byte] + 7) div 8) BN_init"
    by (simp_all add: bn_room_def BN_MAX_WORDS_def BN_init_def bn_sized_def)
  then show ?thesis
    using bn_bytes_roundtrip [of BN_init BN_init "[0, 1, 2]" "\<lambda>n. Some (replicate n 0)" 0] by (auto simp: be_val_def)
qed

text \<open>
  The sign of the number read into: \<open>BN_lebin2bn\<close> leaves it, so bytes read into a negative number
  become a negative number, and \<open>BN_bin2bn\<close> leaves it when there are no bytes, which makes a
  negative zero.
\<close>

theorem bn_read_sign:
  assumes "bn_sized r" and "neg r" and "bs \<noteq> []" and "bn_room mal ((length bs + 7) div 8) r"
  shows "(\<exists>r1. BN_lebin2bn mal bs (Some r) = Some r1 \<and> bn_int r1 = - int (be_val (rev bs))) \<and>
    (\<exists>r0. BN_bin2bn mal [] (Some r) = Some r0 \<and> bn_mag r0 = 0 \<and> neg r0 \<and> \<not> bn_wf r0)"
proof -
  obtain r1 where "BN_lebin2bn mal bs (Some r) = Some r1" "neg r1" "bn_mag r1 = be_val (rev bs)"
    using lebin2bn [OF assms(1,3,4)] assms(2) by auto
  moreover have "BN_bin2bn mal [] (Some r) = Some (r\<lparr>width := 0\<rparr>)" by (simp add: BN_bin2bn_def)
  ultimately show ?thesis using assms(2) by (auto simp: bn_int_def bn_mag_def bn_words_def bn_wf_def)
qed

end
