(* ===== verification/Bn_Word_Props.thy ===== *)
theory Bn_Word_Props
  imports Bn_Word Bn_Bytes_Props
begin

text \<open>
  The word loops compute products, quotients and remainders of the values; \<open>BN_mul_word\<close> and
  \<open>BN_div_word\<close> those of the number.
\<close>

section \<open>Products\<close>

lemma word_unat_back: "of_nat (unat w) = w"
  by simp

lemma wide [simp]: "unat (ucast x :: 128 word) = unat x" for x :: u64
  using unat_u64_lt [of x] by (intro unat_ucast_less) simp

lemma mul_bound:
  fixes a w :: u64
  assumes "k \<le> 2 ^ 65 - 2"
  shows "unat w * unat a + k < 2 ^ 128"
proof -
  have "unat w \<le> 2 ^ 64 - 1" "unat a \<le> 2 ^ 64 - 1" using unat_u64_lt [of w] unat_u64_lt [of a] by simp_all
  then have "unat w * unat a \<le> (2 ^ 64 - 1) * (2 ^ 64 - 1)" by (intro mult_mono) simp_all
  then show ?thesis using assms by simp
qed

lemma Hw_Lw: "unat (Lw t) + 2 ^ 64 * unat (Hw t) = unat t"
proof -
  have "unat t < 2 ^ 128" using unsigned_less [of t, where ?'a = nat] by simp
  then have "unat t div 2 ^ 64 < 2 ^ 64" by (simp add: less_mult_imp_div_less)
  moreover have "unat (drop_bit 64 t) = unat t div 2 ^ 64" by (simp only: unat_drop_bit)
  ultimately show ?thesis by (simp add: Lw_def Hw_def unat_ucast_mod)
qed

lemma mul_add:
  "mul_add r a w c = (r1, c1) \<Longrightarrow> unat r1 + 2 ^ 64 * unat c1 = unat w * unat a + unat r + unat c"
proof -
  assume e: "mul_add r a w c = (r1, c1)"
  let ?t = "ucast w * ucast a + ucast r + ucast c :: 128 word"
  have rc: "unat r + unat c \<le> 2 ^ 65 - 2" using unat_u64_lt [of r] unat_u64_lt [of c] by simp
  have "unat (ucast w * ucast a :: 128 word) = unat w * unat a"
    using mul_bound [of 0 w a] by (simp add: unat_word_ariths)
  moreover have "unat (ucast w * ucast a + ucast r :: 128 word) = unat w * unat a + unat r"
    using calculation mul_bound [of "unat r" w a] rc by (simp add: unat_word_ariths)
  ultimately have "unat ?t = unat w * unat a + unat r + unat c"
    using mul_bound [OF rc, of w a] by (simp add: unat_word_ariths)
  then show ?thesis using e Hw_Lw [of ?t] by (auto simp: mul_add_def Let_def)
qed

lemma mul: "mul a w c = (r1, c1) \<Longrightarrow> unat r1 + 2 ^ 64 * unat c1 = unat w * unat a + unat c"
  using mul_add [of 0 a w c r1 c1] by (simp add: mul_def mul_add_def)

lemma mul_add_words_loop:
  "mul_add_words_loop c rp ap n w = (rs, c1) \<Longrightarrow> n \<le> length rp \<Longrightarrow> n \<le> length ap \<Longrightarrow>
     length rs = n \<and>
     words_val rs + 2 ^ (64 * n) * unat c1 = words_val (take n rp) + unat w * words_val (take n ap) + unat c"
proof (induction n arbitrary: c rp ap rs c1)
  case (Suc n)
  obtain x a' y b' where ab: "rp = x # a'" "ap = y # b'" using Suc.prems by (metis Suc_le_length_iff)
  obtain r k1 where r: "mul_add x y w c = (r, k1)" by fastforce
  obtain rs' where rs: "mul_add_words_loop k1 a' b' n w = (rs', c1)" "rs = r # rs'"
    using Suc.prems(1) by (auto simp: ab r Let_def split: prod.splits)
  have IH: "length rs' = n"
    "words_val rs' + 2 ^ (64 * n) * unat c1 = words_val (take n a') + unat w * words_val (take n b') + unat k1"
    using Suc.IH [OF rs(1)] Suc.prems(2,3) by (simp_all add: ab)
  have "2 ^ 64 * (words_val rs' + 2 ^ (64 * n) * unat c1) =
      2 ^ 64 * (words_val (take n a') + unat w * words_val (take n b') + unat k1)" by (simp only: IH(2))
  then show ?case using mul_add [OF r] IH(1) by (simp add: ab rs(2) power_add algebra_simps)
qed simp

lemma mul_words_loop:
  "mul_words_loop c ap n w = (rs, c1) \<Longrightarrow> n \<le> length ap \<Longrightarrow>
     length rs = n \<and> words_val rs + 2 ^ (64 * n) * unat c1 = unat w * words_val (take n ap) + unat c"
proof (induction n arbitrary: c ap rs c1)
  case (Suc n)
  obtain y b' where ab: "ap = y # b'" using Suc.prems by (metis Suc_le_length_iff)
  obtain r k1 where r: "mul y w c = (r, k1)" by fastforce
  obtain rs' where rs: "mul_words_loop k1 b' n w = (rs', c1)" "rs = r # rs'"
    using Suc.prems(1) by (auto simp: ab r Let_def split: prod.splits)
  have IH: "length rs' = n" "words_val rs' + 2 ^ (64 * n) * unat c1 = unat w * words_val (take n b') + unat k1"
    using Suc.IH [OF rs(1)] Suc.prems(2) by (simp_all add: ab)
  have "2 ^ 64 * (words_val rs' + 2 ^ (64 * n) * unat c1) = 2 ^ 64 * (unat w * words_val (take n b') + unat k1)"
    by (simp only: IH(2))
  then show ?case using mul [OF r] IH(1) by (simp add: ab rs(2) power_add algebra_simps)
qed simp

lemma bn_mul_words:
  "bn_mul_words ap n w = (rs, c) \<Longrightarrow> n \<le> length ap \<Longrightarrow>
     length rs = n \<and> words_val rs + 2 ^ (64 * n) * unat c = unat w * words_val (take n ap)"
  using mul_words_loop [of 0 ap n w rs c] by (simp add: bn_mul_words_def)

lemma BN_mul_word_ok:
  assumes "bn_wf a" and "bn_room mal (width a + 1) a"
  shows "\<exists>r. BN_mul_word mal a w = (Some (), r) \<and> bn_wf r \<and> bn_int r = bn_int a * int (unat w)"
proof -
  have a: "bn_sized a" "width a \<le> length (bn_d a)" "length (bn_d a) = dmax a"
    using assms(1) by (simp_all add: bn_wf_def bn_sized_def)
  consider "width a = 0" | "width a \<noteq> 0" "w = 0" | "width a \<noteq> 0" "w \<noteq> 0" by blast
  then show ?thesis
  proof cases
    case 1
    then show ?thesis using assms(1) by (simp add: BN_mul_word_def bn_int_def bn_mag_def bn_words_def)
  next
    case 2
    then show ?thesis using a(1)
      by (simp add: BN_mul_word_def BN_zero_def bn_int_def bn_mag_def bn_words_def bn_wf_def bn_sized_def)
  next
    case 3
    obtain ws c where ws: "bn_mul_words (bn_d a) (width a) w = (ws, c)" by (metis surj_pair)
    note L = bn_mul_words [OF ws a(2)]
    let ?a1 = "a\<lparr>bn_d := ws @ drop (width a) (bn_d a)\<rparr>"
    have a1: "bn_sized ?a1" "bn_words ?a1 = ws" using L a by (simp_all add: bn_sized_def bn_words_def)
    have sgn: "bn_wf r \<and> bn_int r = bn_int a * int (unat w)"
      if "bn_sized r" "neg r = neg a" "bn_mag r = unat w * bn_mag a" for r
      using that assms(1) 3(2) by (auto simp: bn_wf_def bn_int_def unat_eq_zero)
    show ?thesis
    proof (cases "c = 0")
      case True
      then have "bn_mag ?a1 = unat w * bn_mag a" using L a1(2) by (simp add: bn_mag_def bn_words_def [of a])
      then show ?thesis using sgn [of ?a1] a1(1) True 3 ws by (simp add: BN_mul_word_def)
    next
      case False
      have "bn_room mal (width a + 1) ?a1" using assms(2) by (simp add: bn_room_def)
      then obtain r where r: "bn_wexpand mal (width a + 1) ?a1 = (Some (), r)" "length (bn_d r) = dmax r"
        "width a + 1 \<le> dmax r" "width r = width ?a1" "neg r = neg ?a1" "bn_words r = bn_words ?a1"
        by (rule wexpand_ok [OF a1(1)])
      let ?r = "r\<lparr>bn_d := (bn_d r)[width r := c], width := width r + 1\<rparr>"
      have w: "take (width a) (bn_d r) = ws" using r(4,6) a1(2) by (simp add: bn_words_def [of r])
      have "bn_words ?r = ws @ [c]"
        using r(2-4) w by (simp add: bn_words_def take_Suc_conv_app_nth)
      then have "bn_mag ?r = unat w * bn_mag a" using L by (simp add: bn_mag_def words_val_append bn_words_def [of a])
      moreover have "bn_sized ?r" using r by (simp add: bn_sized_def)
      moreover have "BN_mul_word mal a w = (Some (), ?r)" using False 3 ws r(1) by (simp add: BN_mul_word_def)
      ultimately show ?thesis using sgn [of ?r] r(5) by simp
    qed
  qed
qed

section \<open>Quotients\<close>

lemma div_rem_words:
  assumes "bn_div_rem_words n0 n1 d = (q, r)" and "n0 < d"
  shows "unat n0 * 2 ^ 64 + unat n1 = unat q * unat d + unat r" and "r < d"
proof -
  let ?n = "push_bit 64 (ucast n0 :: 128 word) OR ucast n1"
  let ?v = "unat n0 * 2 ^ 64 + unat n1"
  have d: "unat n0 < unat d" using assms(2) by (simp add: word_less_nat_alt)
  have "unat n0 * 2 ^ 64 \<le> (2 ^ 64 - 1) * 2 ^ 64" using unat_u64_lt [of n0] by (intro mult_right_mono) simp_all
  then have "?v < 2 ^ 128" using unat_u64_lt [of n1] by simp
  then have v: "unat n1 + unat n0 * 2 ^ 64 < 2 ^ 128" by (simp only: add.commute)
  have "unat (ucast n1 OR push_bit 64 (ucast n0) :: 128 word) = unat (ucast n1 :: 128 word) + unat (ucast n0 :: 128 word) * 2 ^ 64"
  proof (rule unat_or_push_bit)
    show "unat (ucast n1 :: 128 word) < 2 ^ 64" using unat_u64_lt [of n1] unfolding wide by simp
    show "unat (ucast n1 :: 128 word) + unat (ucast n0 :: 128 word) * 2 ^ 64 < 2 ^ LENGTH(128)"
      using v unfolding wide by simp
  qed
  moreover have "?n = ucast n1 OR push_bit 64 (ucast n0)" by (rule or.commute)
  ultimately have n: "unat ?n = ?v" by (simp only: wide)
  have "?v < unat d * 2 ^ 64"
  proof -
    have "?v < (unat n0 + 1) * 2 ^ 64" using unat_u64_lt [of n1] by simp
    also have "\<dots> \<le> unat d * 2 ^ 64" using d by (intro mult_right_mono) simp_all
    finally show ?thesis .
  qed
  then have "?v div unat d < 2 ^ 64" by (intro less_mult_imp_div_less) (simp add: mult.commute)
  moreover have "unat (?n div ucast d) = ?v div unat d" by (simp only: unat_div n wide)
  ultimately have q: "unat q = ?v div unat d" using assms(1) by (auto simp: bn_div_rem_words_def Let_def unat_ucast_mod)
  have r: "r = n1 - q * d" using assms(1) by (auto simp: bn_div_rem_words_def Let_def)
  have m: "?v mod unat d < unat d" using d by (intro mod_less_divisor) simp
  have z: "of_nat (2 ^ 64) = (0 :: u64)" by (simp add: word_eq_iff_unsigned)
  have "r = of_nat (?v mod unat d)"
  proof -
    have "n1 = (of_nat (unat n0 * 2 ^ 64 + unat n1) :: u64)" by (simp only: of_nat_add of_nat_mult z) simp
    also have "\<dots> = of_nat (unat q * unat d + ?v mod unat d)" unfolding q by (simp only: div_mult_mod_eq)
    also have "\<dots> = q * d + of_nat (?v mod unat d)" by (simp only: of_nat_add of_nat_mult word_unat_back)
    finally show ?thesis unfolding r diff_eq_eq by (rule trans [OF _ add.commute])
  qed
  moreover have "?v mod unat d < 2 ^ 64" by (rule order_less_trans [OF m]) (use unat_u64_lt [of d] in simp)
  ultimately have "unat r = ?v mod unat d" by (simp add: unat_of_nat)
  then show "?v = unat q * unat d + unat r" "r < d" using q m by (simp_all add: word_less_nat_alt)
qed

lemma div_word_loop:
  "div_word_loop w ls = (ds, r) \<Longrightarrow> 0 < w \<Longrightarrow>
     length ds = length ls \<and> r < w \<and> words_val ls = words_val ds * unat w + unat r"
proof (induction ls arbitrary: ds r)
  case (Cons l ls)
  obtain ds' r' where t: "div_word_loop w ls = (ds', r')" by (metis surj_pair)
  obtain d u where d: "bn_div_rem_words r' l w = (d, u)" by (metis surj_pair)
  have IH: "length ds' = length ls" "r' < w" "words_val ls = words_val ds' * unat w + unat r'"
    using Cons.IH [OF t Cons.prems(2)] by simp_all
  have u: "u = l - d * w" using d by (auto simp: bn_div_rem_words_def Let_def)
  have e: "ds = d # ds'" "r = u" using Cons.prems(1) t d u by simp_all
  note D = div_rem_words [OF d IH(2)]
  have "words_val (l # ls) = words_val ds' * unat w * 2 ^ 64 + (unat r' * 2 ^ 64 + unat l)"
    by (simp add: IH(3) algebra_simps)
  then show ?case using D IH(1) e by (simp add: algebra_simps)
qed simp

lemma wexpand_dmax: "bn_wexpand mal n r = (Some (), r1) \<Longrightarrow> n \<le> dmax r1"
  by (auto simp: bn_wexpand_def split: if_splits option.splits)

lemma set_minimal_width_dmax [simp]: "dmax (bn_set_minimal_width r) = dmax r"
  by (simp add: bn_set_minimal_width_def Let_def)

lemma lshift_dmax: "BN_lshift mal r a n = (Some (), r1) \<Longrightarrow> width a + 1 \<le> dmax r1"
  by (auto simp: BN_lshift_def Let_def split: if_splits dest!: wexpand_dmax elim!: and_then_SomeE)

lemma set_minimal_width_le:
  assumes "bn_sized r" and "bn_mag r < 2 ^ (64 * n)"
  shows "width (bn_set_minimal_width r) \<le> n"
proof (rule ccontr)
  let ?w = "bn_minimal_width r"
  assume "\<not> width (bn_set_minimal_width r) \<le> n"
  then have "n < ?w" by (simp add: bn_set_minimal_width_def Let_def)
  then obtain w where w: "?w = Suc w" "n \<le> w" by (cases ?w) auto
  have l: "?w \<le> length (bn_d r)"
    using assms(1) minimal_width_le [of "bn_d r" "width r"] by (simp add: bn_minimal_width_def bn_sized_def)
  have "bn_mag r = words_val (take ?w (bn_d r))"
    using assms(1) minimal_width_val [of "width r" "bn_d r"]
    by (simp add: bn_minimal_width_def bn_mag_def bn_words_def bn_sized_def)
  also have "\<dots> = words_val (take w (bn_d r)) + 2 ^ (64 * w) * unat (bn_d r ! w)"
    using l w by (simp add: take_Suc_conv_app_nth words_val_snoc)
  finally have m: "bn_mag r = words_val (take w (bn_d r)) + 2 ^ (64 * w) * unat (bn_d r ! w)" .
  have "bn_d r ! w \<noteq> 0" using w minimal_width_top [of "bn_d r" "width r"] by (simp add: bn_minimal_width_def)
  then have "2 ^ (64 * w) * 1 \<le> 2 ^ (64 * w) * unat (bn_d r ! w)"
    by (intro mult_left_mono) (simp_all add: unat_gt_0 Suc_le_eq)
  then have "2 ^ (64 * w) \<le> bn_mag r" unfolding m by (simp only: mult_1_right trans_le_add2)
  moreover have "(2 :: nat) ^ (64 * n) \<le> 2 ^ (64 * w)" using w(2) by (intro power_increasing) simp_all
  ultimately show False using assms(2) by linarith
qed

lemma num_bits_word_le: "BN_num_bits_word w \<le> 64" "w \<noteq> 0 \<Longrightarrow> 1 \<le> BN_num_bits_word w"
    "w \<noteq> 0 \<Longrightarrow> unat w < 2 ^ BN_num_bits_word w"
proof -
  show "w \<noteq> 0 \<Longrightarrow> 1 \<le> BN_num_bits_word w" by (simp add: num_bits_word floorlog_def unat_gt_0)
  show "w \<noteq> 0 \<Longrightarrow> unat w < 2 ^ BN_num_bits_word w" unfolding num_bits_word
    using floorlog_bounds [of "unat w" 2] by (simp add: unat_gt_0)
  show "BN_num_bits_word w \<le> 64"
  proof (cases "w = 0")
    case False
    then have "2 ^ (floorlog 2 (unat w) - 1) \<le> unat w" using floorlog_bounds [of "unat w" 2] by (simp add: unat_gt_0)
    then have "(2 :: nat) ^ (floorlog 2 (unat w) - 1) < 2 ^ 64" by (rule order_le_less_trans) (use unat_u64_lt [of w] in simp)
    then have "floorlog 2 (unat w) - 1 < 64" by (simp only: power_strict_increasing_iff one_less_numeral_iff semiring_norm)
    then show ?thesis by (simp add: num_bits_word)
  qed (simp add: num_bits_word floorlog_def)
qed

lemma bn_int_parts: "bn_wf a \<Longrightarrow> bn_mag a = nat \<bar>bn_int a\<bar> \<and> (neg a \<longleftrightarrow> bn_int a < 0)"
  by (simp add: bn_int_def bn_wf_def)

lemma BN_div_word_ok:
  assumes "bn_wf a" and "bn_room mal (width a + 1) a" and "w \<noteq> 0"
  shows "\<exists>r. BN_div_word mal a w = (of_nat (bn_mag a mod unat w), r) \<and> bn_wf r \<and>
    bn_int r = (if neg a then - int (bn_mag a div unat w) else int (bn_mag a div unat w)) \<and>
    width r \<le> width a \<and> bn_room mal (width r + 1) r"
proof (cases "width a = 0")
  case True
  then have "bn_mag a = 0" by (simp add: bn_mag_def bn_words_def)
  then show ?thesis using True assms by (simp add: BN_div_word_def bn_int_def)
next
  case False
  let ?j = "64 - BN_num_bits_word w"
  let ?w = "push_bit ?j w"
  have j: "?j < 64" using num_bits_word_le(1,2) [of w] assms(3) by simp
  have "unat w * 2 ^ ?j < 2 ^ BN_num_bits_word w * 2 ^ ?j"
    using num_bits_word_le(3) [OF assms(3)] by (intro mult_strict_right_mono) simp_all
  also have "(2 :: nat) ^ BN_num_bits_word w * 2 ^ ?j = 2 ^ 64"
    using num_bits_word_le(1) [of w] by (simp flip: power_add)
  finally have wv: "unat ?w = unat w * 2 ^ ?j" by (simp add: unat_push_bit)
  then have w0: "0 < ?w" using assms(3) by (simp add: word_less_nat_alt unat_gt_0)
  have "nat (int ?j) div 64 = 0" using j by simp
  then have "bn_room mal (width a + nat (int ?j) div 64 + 1) a" using assms(2) by simp
  then obtain a1 where a1: "BN_lshift mal a a (int ?j) = (Some (), a1)" "bn_wf a1" "bn_int a1 = bn_int a * 2 ^ ?j"
    using BN_lshift_ok [OF assms(1) _ _, of a "int ?j"] assms(1) by (auto simp: bn_wf_def)
  have m1: "bn_mag a1 = bn_mag a * 2 ^ ?j" "neg a1 = neg a"
    using bn_int_parts [OF a1(2)] bn_int_parts [OF assms(1)] a1(3)
    by (simp_all add: abs_mult nat_mult_distrib nat_power_eq mult_less_0_iff)
  obtain ds ret where ds: "div_word_loop ?w (bn_words a1) = (ds, ret)" by (metis surj_pair)
  note D = div_word_loop [OF ds w0]
  have s1: "bn_sized a1" using a1(2) by (simp add: bn_wf_def)
  let ?a2 = "a1\<lparr>bn_d := ds @ drop (width a1) (bn_d a1)\<rparr>"
  let ?r = "bn_set_minimal_width ?a2"
  have len: "length ds = width a1" using D s1 by simp
  have s2: "bn_sized ?a2" using s1 len by (simp add: bn_sized_def)
  have m2: "bn_mag ?a2 = words_val ds" using len by (simp add: bn_mag_def bn_words_def)
  have eq: "bn_mag a * 2 ^ ?j = words_val ds * (unat w * 2 ^ ?j) + unat ret" "unat ret < unat w * 2 ^ ?j"
    using D m1(1) wv by (simp_all add: bn_mag_def word_less_nat_alt)
  have q: "words_val ds = bn_mag a div unat w" "unat (drop_bit ?j ret) = bn_mag a mod unat w"
  proof -
    have pos: "unat w * 2 ^ ?j \<noteq> 0" using eq(2) by (rule gr_implies_not0)
    have "words_val ds = (bn_mag a * 2 ^ ?j) div (unat w * 2 ^ ?j)"
      unfolding eq(1) div_mult_self3 [OF pos] div_less [OF eq(2)] by (rule add_0_right [symmetric])
    then show "words_val ds = bn_mag a div unat w" by simp
    have "unat ret = (bn_mag a * 2 ^ ?j) mod (unat w * 2 ^ ?j)"
      unfolding eq(1) mod_mult_self3 using eq(2) by (rule mod_less [symmetric])
    also have "\<dots> = (bn_mag a mod unat w) * 2 ^ ?j" by (rule mult_mod_left [symmetric])
    finally show "unat (drop_bit ?j ret) = bn_mag a mod unat w" unfolding unat_drop_bit by simp
  qed
  have "drop_bit ?j ret = of_nat (bn_mag a mod unat w)" by (simp only: q(2) [symmetric] word_unat_back)
  moreover have "BN_div_word mal a w = (drop_bit ?j ret, ?r)"
    using assms(3) False a1(1) ds by (simp add: BN_div_word_def)
  ultimately have "BN_div_word mal a w = (of_nat (bn_mag a mod unat w), ?r)" by (simp only:)
  moreover have "bn_wf ?r" "bn_int ?r = (if neg a then - int (bn_mag a div unat w) else int (bn_mag a div unat w))"
    using set_minimal_width_wf [OF s2] m1(2) m2 q(1) by simp_all
  moreover have "width ?r \<le> width a"
  proof (rule set_minimal_width_le [OF s2])
    have "bn_mag a div unat w \<le> bn_mag a" by simp
    moreover have "bn_mag a < 2 ^ (64 * width a)" using assms(1) by (intro bn_mag_lt) (simp add: bn_wf_def)
    ultimately show "bn_mag ?a2 < 2 ^ (64 * width a)" unfolding m2 q(1) by (rule order_le_less_trans)
  qed
  moreover have "bn_room mal (width ?r + 1) ?r"
    using lshift_dmax [OF a1(1)] \<open>width ?r \<le> width a\<close> by (simp add: bn_room_def)
  ultimately show ?thesis by (intro exI [of _ ?r] conjI)
qed

section \<open>Properties\<close>

text \<open>
  C38. Multiplication and division by a word: \<open>BN_mul_word\<close> multiplies the value, and
  \<open>BN_div_word\<close>, which normalizes the divisor and divides two words by one from the top, leaves the
  truncated quotient and returns the remainder of the magnitude; a zero divisor is an error.
\<close>

theorem bn_word_arith:
  assumes "bn_wf a" and "bn_room mal (width a + 1) a" and "d \<noteq> 0"
  shows "\<exists>p q. BN_mul_word mal a w = (Some (), p) \<and> BN_div_word mal a d = (of_nat (bn_mag a mod unat d), q) \<and>
    bn_wf p \<and> bn_wf q \<and> bn_int p = bn_int a * int (unat w) \<and>
    bn_int q = sgn (bn_int a) * (\<bar>bn_int a\<bar> div int (unat d)) \<and> BN_div_word mal a 0 = (- 1, a)"
proof -
  obtain q where q: "BN_div_word mal a d = (of_nat (bn_mag a mod unat d), q)" "bn_wf q"
    "bn_int q = (if neg a then - int (bn_mag a div unat d) else int (bn_mag a div unat d))"
    using BN_div_word_ok [OF assms] by blast
  have "bn_int q = sgn (bn_int a) * (\<bar>bn_int a\<bar> div int (unat d))"
    unfolding q(3) by (simp add: bn_int_def zdiv_int sgn_if del: of_nat_unat)
  then show ?thesis using q(1,2) BN_mul_word_ok [OF assms(1,2), of w] by (auto simp: BN_div_word_def)
qed

theorem bn_word_arith_witness:
  "\<exists>q. BN_div_word (\<lambda>n. Some (replicate n 0))
      \<lparr>bn_d = [5, 1], width = 2, dmax = 2, neg = True, static_data = False\<rparr> 10 = (1, q) \<and>
    bn_int q = - 1844674407370955162"
proof -
  let ?a = "\<lparr>bn_d = [5, 1], width = 2, dmax = 2, neg = True, static_data = False\<rparr>"
  have m: "bn_mag ?a = 18446744073709551621" by (simp add: bn_mag_def bn_words_def)
  then have "bn_wf ?a" "bn_int ?a = - 18446744073709551621" by (simp_all add: bn_wf_def bn_sized_def bn_int_def)
  moreover have "bn_room (\<lambda>n. Some (replicate n 0)) (width ?a + 1) ?a" by (simp add: bn_room_def BN_MAX_WORDS_def)
  ultimately show ?thesis using bn_word_arith [of ?a "\<lambda>n. Some (replicate n 0)" 10 0] m by auto
qed

end
