(* ===== verification/Bn_Convert_Props.thy ===== *)
theory Bn_Convert_Props
  imports Bn_Convert Bn_Word_Props Oid
begin

text \<open>
  Big numbers survive the way to text and to DER and back: what \<open>BN_bn2hex\<close>, \<open>BN_bn2dec\<close> and
  \<open>BN_marshal_asn1\<close> write, and that the readers return the number.
\<close>

section \<open>Reading text\<close>

lemma zero_ok:
  assumes "bn_sized r"
  shows "bn_wf (BN_zero r)" and "bn_mag (BN_zero r) = 0" and "\<not> neg (BN_zero r)" and "static_data (BN_zero r) = static_data r"
    and "width (BN_zero r) = 0"
  using assms by (simp_all add: BN_zero_def bn_wf_def bn_sized_def bn_mag_def bn_words_def)

text \<open>A place for the result: none yet, or a number that can grow.\<close>

definition out_ok :: "BIGNUM option \<Rightarrow> bool" where
  "out_ok p \<longleftrightarrow> (\<forall>r. p = Some r \<longrightarrow> bn_sized r \<and> \<not> static_data r)"

text \<open>A text is a sign and digits; the decoder gets a fresh zero and makes \<open>v\<close> of the digits.\<close>

lemma x2bn_ok:
  assumes "\<forall>n. mal n \<noteq> None" and "out_ok p" and "ds \<noteq> []" and "hd ds \<noteq> 45"
    and "\<forall>c\<in>set ds. want (uint c)" and "length ds < 2147483647"
    and dec: "\<And>r. bn_wf r \<Longrightarrow> bn_mag r = 0 \<Longrightarrow> \<not> neg r \<Longrightarrow> \<not> static_data r \<Longrightarrow> width r = 0 \<Longrightarrow>
      \<exists>r1. decode mal r ds = (Some (), r1) \<and> bn_sized r1 \<and> \<not> neg r1 \<and> bn_mag r1 = v"
  shows "\<exists>r. bn_x2bn mal (Some p) ((if s then [45] else []) @ ds) decode want =
      (length ((if s then [45 :: byte] else []) @ ds), Some (Some r)) \<and> bn_wf r \<and>
      bn_int r = (if s then - int v else int v)"
proof -
  let ?inp = "(if s then [45] else []) @ ds"
  obtain r0 where r0: "(case p of None \<Rightarrow> BN_new mal | Some r \<Rightarrow> Some (BN_zero r)) = Some r0"
    "bn_wf r0" "bn_mag r0 = 0" "\<not> neg r0" "\<not> static_data r0" "width r0 = 0"
  proof (cases p)
    case None
    have "neg BN_init = False" "static_data BN_init = False" "width BN_init = 0" by (simp_all add: BN_init_def)
    then show thesis using that [of BN_init] BN_new_ok [of mal] assms(1) None by simp
  next
    case (Some r)
    then show thesis using that [of "BN_zero r"] zero_ok [of r] assms(2) by (simp add: out_ok_def)
  qed
  obtain r1 where r1: "decode mal r0 ds = (Some (), r1)" "bn_sized r1" "\<not> neg r1" "bn_mag r1 = v"
    using dec [OF r0(2-6)] by blast
  let ?r2 = "bn_set_minimal_width r1"
  have m2: "bn_mag ?r2 = v" "bn_sized ?r2" using set_minimal_width(1,2) [OF r1(2)] r1(4) by simp_all
  have w2: "bn_wf ?r2" "bn_int ?r2 = int v" using set_minimal_width_wf [OF r1(2)] r1(3,4) by simp_all
  let ?r = "if \<not> BN_is_zero ?r2 then ?r2\<lparr>neg := s\<rparr> else ?r2"
  have i: "takeWhile (\<lambda>c. want (uint c)) (take (2147483647 - (if s then 1 else 0)) ds) = ds"
    using assms(5,6) by (simp add: takeWhile_eq_all_conv split: if_splits)
  have h: "?inp \<noteq> []" "hd ?inp = 45 \<longleftrightarrow> s" "(if s then tl ?inp else ?inp) = ds" using assms(3,4) by simp_all
  have "bn_x2bn mal (Some p) ?inp decode want = (length ?inp, Some (Some ?r))"
    unfolding bn_x2bn_def Let_def h i using r0(1) r1(1) h(1) by simp
  moreover have "bn_wf ?r \<and> bn_int ?r = (if s then - int v else int v)"
    using m2 w2 by (auto simp: is_zero bn_wf_def bn_int_def)
  ultimately show ?thesis by blast
qed

section \<open>Hexadecimal\<close>

definition hex_digit :: "nat \<Rightarrow> byte" where
  "hex_digit n = hextable ! n"

definition hexes :: "byte list \<Rightarrow> byte list" where
  "hexes bs = concat (map (\<lambda>b. [hex_digit (unat b div 16), hex_digit (unat b mod 16)]) bs)"

lemma nibbles: "unat (drop_bit 4 v) = unat v div 16" "unat (v AND 0x0f) = unat v mod 16" for v :: byte
proof -
  show "unat (drop_bit 4 v) = unat v div 16" unfolding unat_drop_bit by simp
  have "v AND 0x0f = take_bit 4 v" by (simp add: take_bit_eq_mask mask_eq_exp_minus_1)
  then show "unat (v AND 0x0f) = unat v mod 16" by (simp add: take_bit_eq_mod unat_mod)
qed

lemma hex_bytes_loop: "hex_bytes_loop z bs = hexes (if z then bs else dropWhile (\<lambda>b. b = 0) bs)"
  by (induction z bs rule: hex_bytes_loop.induct) (simp_all add: hexes_def hex_digit_def nibbles)

lemma dropWhile_be_min: "dropWhile (\<lambda>b. b = 0) bs = be_min (be_val bs)"
proof (induction bs)
  case (Cons b bs)
  then show ?case using be_min_Cons [of b bs] by (simp add: be_val_Cons unat_eq_zero)
qed simp

lemma hex_word_bytes: "hex_word_bytes w = rev (word_bytes w)"
proof -
  have "ucast (drop_bit j w AND 0xff) = (ucast (drop_bit j w) :: byte)" for j
  proof (rule bit_word_eqI)
    fix n assume "n < LENGTH(8)"
    then have n: "n < 8" by simp
    have "(0xff :: u64) = mask 8" by (simp add: mask_eq_exp_minus_1)
    then have "bit (0xff :: u64) n" using n by (simp only: bit_mask_iff) simp
    then show "bit (ucast (drop_bit j w AND 0xff) :: byte) n \<longleftrightarrow> bit (ucast (drop_bit j w) :: byte) n"
      by (simp add: bit_ucast_iff bit_and_iff)
  qed
  moreover have "[0..<8] = [0, 1, 2, 3, 4, 5, 6, 7 :: nat]" by code_simp
  ultimately show ?thesis unfolding hex_word_bytes_def word_bytes_def by (simp del: upt_rec_numeral)
qed

lemma hex_words: "concat (map hex_word_bytes (rev ws)) = rev (bytes_of_words ws)"
  by (induction ws) (simp_all add: bytes_of_words_def hex_word_bytes)

text \<open>The text of a number.\<close>

definition hex_text :: "int \<Rightarrow> byte list" where
  "hex_text x = (if x < 0 then [45] else []) @ (if x = 0 then [48] else hexes (be_min (nat \<bar>x\<bar>)))"

lemma bn2hex:
  assumes "bn_wf a" and "\<forall>n. mal n \<noteq> None" and "width a \<le> BN_MAX_WORDS"
  shows "BN_bn2hex mal a = Some (hex_text (bn_int a))"
proof -
  let ?w = "bn_minimal_width a"
  have s: "bn_sized a" using assms(1) by (simp add: bn_wf_def)
  have w: "?w \<le> width a" using minimal_width_le by (simp add: bn_minimal_width_def)
  have "1 + 1 + ?w * 8 * 2 + 1 < 2 ^ 63" using w assms(3) by (simp add: BN_MAX_WORDS_def)
  then obtain b where b: "OPENSSL_malloc mal (1 + 1 + ?w * 8 * 2 + 1) = Some b"
    using OPENSSL_malloc_total [OF assms(2)] by (metis not_None_eq)
  have v: "words_val (take ?w (bn_d a)) = bn_mag a"
    using s minimal_width_val [of "width a" "bn_d a"]
    by (simp add: bn_minimal_width_def bn_mag_def bn_words_def bn_sized_def)
  have "hex_bytes_loop False (concat (map hex_word_bytes (rev (take ?w (bn_d a))))) = hexes (be_min (bn_mag a))"
    using v by (simp add: hex_words hex_bytes_loop dropWhile_be_min words_val_bytes)
  moreover have "neg a \<longleftrightarrow> bn_int a < 0" "BN_is_zero a \<longleftrightarrow> bn_int a = 0" "bn_mag a = nat \<bar>bn_int a\<bar>"
    using assms(1) by (auto simp: is_zero bn_int_def bn_wf_def)
  ultimately show ?thesis unfolding BN_bn2hex_def Let_def b
    by (cases "bn_int a = 0") (simp_all add: hex_text_def hexes_def)
qed

text \<open>The value of a digit, zero for what is no digit.\<close>

definition xdigit_val :: "byte \<Rightarrow> nat" where
  "xdigit_val c = (case OPENSSL_fromxdigit (uint c) of Some h \<Rightarrow> unat h | None \<Rightarrow> 0)"

definition hex_val :: "byte list \<Rightarrow> nat" where
  "hex_val cs = foldl (\<lambda>n c. n * 16 + xdigit_val c) 0 cs"

lemma unat_of_int_byte: "0 \<le> k \<Longrightarrow> k < 256 \<Longrightarrow> unat (of_int k :: byte) = nat k"
  by (simp add: unat_eq_nat_uint uint_word_of_int)

lemma xdigit_val_lt: "xdigit_val c < 16"
  by (auto simp: xdigit_val_def OPENSSL_fromxdigit_def OPENSSL_isdigit_def unat_of_int_byte simp del: of_int_diff of_int_add)

lemma hex_val_Nil [simp]: "hex_val [] = 0"
  by (simp add: hex_val_def)

lemma hex_val_snoc: "hex_val (cs @ [c]) = hex_val cs * 16 + xdigit_val c"
  by (simp add: hex_val_def)

lemma hex_val_append: "hex_val (a @ b) = hex_val a * 16 ^ length b + hex_val b"
proof (induction b rule: rev_induct)
  case (snoc c b)
  have "hex_val (a @ b @ [c]) = hex_val (a @ b) * 16 + xdigit_val c" using hex_val_snoc [of "a @ b" c] by simp
  then show ?case using snoc by (simp add: hex_val_snoc algebra_simps)
qed (simp add: hex_val_def)

lemma hex_val_lt: "hex_val cs < 16 ^ length cs"
proof (induction cs rule: rev_induct)
  case (snoc c cs)
  have "hex_val cs * 16 + xdigit_val c < (hex_val cs + 1) * 16" using xdigit_val_lt [of c] by simp
  also have "\<dots> \<le> 16 ^ length cs * 16" using snoc by (intro mult_right_mono) simp_all
  finally show ?case by (simp add: hex_val_snoc)
qed (simp add: hex_val_def)

lemma hex_word: "length cs \<le> 16 \<Longrightarrow> unat (hex_word cs) = hex_val cs"
proof (induction cs rule: rev_induct)
  case (snoc c cs)
  let ?h = "case OPENSSL_fromxdigit (uint c) of Some hex \<Rightarrow> ucast hex | None \<Rightarrow> (0 :: u64)"
  have h: "unat ?h = xdigit_val c" by (simp add: xdigit_val_def split: option.splits)
  have IH: "unat (hex_word cs) = hex_val cs" using snoc by simp
  have "hex_word (cs @ [c]) = ?h OR push_bit 4 (hex_word cs)" by (simp add: hex_word_def or.commute)
  moreover have "unat (?h OR push_bit 4 (hex_word cs)) = unat ?h + unat (hex_word cs) * 2 ^ 4"
  proof (rule unat_or_push_bit)
    show "unat ?h < 2 ^ 4" using xdigit_val_lt [of c] h by simp
    have "hex_val (cs @ [c]) < 16 ^ length (cs @ [c])" by (rule hex_val_lt)
    also have "\<dots> \<le> 16 ^ 16" using snoc.prems by (intro power_increasing) simp_all
    finally show "unat ?h + unat (hex_word cs) * 2 ^ 4 < 2 ^ LENGTH(64)" by (simp add: h IH hex_val_snoc)
  qed
  ultimately show ?case using h IH by (simp add: hex_val_snoc)
qed (simp add: hex_word_def hex_val_def)

lemma decode_hex_loop:
  "words_val (decode_hex_loop cs) = hex_val cs \<and> length (decode_hex_loop cs) = (length cs + 15) div 16"
proof (induction cs rule: decode_hex_loop.induct)
  case (1 cs)
  show ?case
  proof (cases "length cs > 0")
    case False
    then show ?thesis by (simp add: decode_hex_loop.simps hex_val_def)
  next
    case True
    let ?t = "if 16 > length cs then length cs else 16"
    let ?lo = "drop (length cs - ?t) cs" and ?hi = "take (length cs - ?t) cs"
    have IH: "words_val (decode_hex_loop ?hi) = hex_val ?hi" "length (decode_hex_loop ?hi) = (length ?hi + 15) div 16"
      using "1.IH" True by simp_all
    have e: "decode_hex_loop cs = hex_word ?lo # decode_hex_loop ?hi"
      using True by (subst decode_hex_loop.simps) (simp add: Let_def)
    have "hex_val cs = hex_val ?hi * 16 ^ length ?lo + hex_val ?lo" using hex_val_append [of ?hi ?lo] by simp
    moreover have "hex_val ?hi * 16 ^ length ?lo = hex_val ?hi * 2 ^ 64" by (cases "length cs < 16") simp_all
    moreover have "unat (hex_word ?lo) = hex_val ?lo" by (intro hex_word) simp
    ultimately have "words_val (decode_hex_loop cs) = hex_val cs" unfolding e words_val.simps IH(1) by simp
    moreover have "(length ?hi + 15) div 16 + 1 = (length cs + 15) div 16"
    proof (cases "length cs < 16")
      case lt: True
      then have "length ?hi = 0" by simp
      moreover have "(length cs + 15) div 16 = 1" using lt True by (intro div_nat_eqI) (simp_all add: Suc_le_eq)
      ultimately show ?thesis by simp
    next
      case False
      then have "length ?hi + 15 = length cs - 1" by simp
      moreover have "(length cs - 1) div 16 + 1 = (length cs + 15) div 16" using False by (simp add: le_div_geq)
      ultimately show ?thesis by simp
    qed
    ultimately show ?thesis using IH(2) by (simp add: e)
  qed
qed

lemma decode_hex_ok:
  assumes "bn_wf r" and "\<not> neg r" and "\<not> static_data r" and "\<forall>n. mal n \<noteq> None" and "length cs \<le> 16 * BN_MAX_WORDS"
  shows "\<exists>r1. decode_hex mal r cs = (Some (), r1) \<and> bn_sized r1 \<and> \<not> neg r1 \<and> bn_mag r1 = hex_val cs"
proof -
  let ?n = "(length cs * 4 + 63) div 64"
  have s: "bn_sized r" using assms(1) by (simp add: bn_wf_def)
  have "(length cs * 4 + 63) div 4 = length cs + 15" by (rule div_nat_eqI) simp_all
  then have n: "?n = (length cs + 15) div 16" using div_mult2_eq [of "length cs * 4 + 63" 4 16] by simp
  have "?n \<le> BN_MAX_WORDS" unfolding n using assms(5) by linarith
  then have "bn_room mal ?n r" using assms(3,4) by (simp add: bn_room_def)
  then obtain r1 where r1: "bn_wexpand mal ?n r = (Some (), r1)" "length (bn_d r1) = dmax r1" "?n \<le> dmax r1" "neg r1 = neg r"
    by (rule wexpand_ok [OF s])
  have "size_add (length cs * 4) 63 = length cs * 4 + 63" using assms(5) by (simp add: size_add_def BN_MAX_WORDS_def)
  then have e: "bn_expand mal (length cs * 4) r = (Some (), r1)" using r1(1) by (simp add: bn_expand_def)
  note D = decode_hex_loop [of cs]
  have l: "length (decode_hex_loop cs) = ?n" using D n by simp
  let ?r = "r1\<lparr>bn_d := decode_hex_loop cs @ drop (length (decode_hex_loop cs)) (bn_d r1), width := length (decode_hex_loop cs)\<rparr>"
  have "decode_hex mal r cs = (Some (), ?r)" using e assms(5) by (simp add: decode_hex_def Let_def BN_MAX_WORDS_def)
  moreover have "bn_sized ?r" using r1(2,3) l by (simp add: bn_sized_def)
  moreover have "bn_mag ?r = hex_val cs" using D by (simp add: bn_mag_def bn_words_def)
  ultimately show ?thesis using r1(4) assms(2) by (intro exI [of _ ?r]) simp
qed

lemma hex_digits:
  "list_all (\<lambda>(n, c). xdigit_val c = n \<and> OPENSSL_isxdigit (uint c) \<and> c \<noteq> 45) (zip [0..<16] hextable)"
  by code_simp

lemma hex_digit:
  assumes "n < 16"
  shows "xdigit_val (hex_digit n) = n" and "OPENSSL_isxdigit (uint (hex_digit n))" and "hex_digit n \<noteq> 45"
proof -
  have "length hextable = 16" by (simp add: hextable_def)
  then have "(n, hextable ! n) \<in> set (zip [0..<16] hextable)" using assms by (auto simp: in_set_zip intro!: exI [of _ n])
  then show "xdigit_val (hex_digit n) = n" "OPENSSL_isxdigit (uint (hex_digit n))" "hex_digit n \<noteq> 45"
    using hex_digits by (auto simp: list_all_iff hex_digit_def)
qed

lemma hexes:
  "hex_val (hexes bs) = be_val bs" "\<forall>c\<in>set (hexes bs). OPENSSL_isxdigit (uint c)" "length (hexes bs) = 2 * length bs"
  "bs \<noteq> [] \<Longrightarrow> hexes bs \<noteq> [] \<and> hd (hexes bs) \<noteq> 45"
proof -
  have d: "unat b div 16 < 16" for b :: byte using byte_lt_256 [of b] by (simp add: less_mult_imp_div_less)
  show "hex_val (hexes bs) = be_val bs"
  proof (induction bs rule: rev_induct)
    case (snoc b bs)
    have "hex_val ((hexes bs @ [hex_digit (unat b div 16)]) @ [hex_digit (unat b mod 16)]) =
        (hex_val (hexes bs) * 16 + unat b div 16) * 16 + unat b mod 16"
      by (simp only: hex_val_snoc) (simp add: hex_digit(1) d)
    also have "\<dots> = hex_val (hexes bs) * 256 + (unat b div 16 * 16 + unat b mod 16)" by (simp add: algebra_simps)
    finally show ?case using snoc by (simp add: hexes_def)
  qed (simp add: hexes_def hex_val_def)
  show "\<forall>c\<in>set (hexes bs). OPENSSL_isxdigit (uint c)" by (auto simp: hexes_def hex_digit(2) d)
  show "length (hexes bs) = 2 * length bs" by (induction bs) (simp_all add: hexes_def)
  show "bs \<noteq> [] \<Longrightarrow> hexes bs \<noteq> [] \<and> hd (hexes bs) \<noteq> 45" by (cases bs) (simp_all add: hexes_def hex_digit(3) d)
qed

lemma hex_bound: "bn_sized a \<Longrightarrow> length (be_min (bn_mag a)) \<le> 8 * width a"
proof (rule length_be_min_le)
  assume "bn_sized a"
  then have "bn_mag a < 2 ^ (8 * (8 * width a))" using bn_mag_lt [of a] by simp
  then show "bn_mag a < 256 ^ (8 * width a)" by (simp only: power_mult) simp
qed

lemma hex2bn:
  assumes "\<forall>n. mal n \<noteq> None" and "out_ok p" and "length (hex_text x) \<le> 16 * BN_MAX_WORDS"
  shows "\<exists>r. BN_hex2bn mal (Some p) (hex_text x) = (length (hex_text x), Some (Some r)) \<and> bn_wf r \<and> bn_int r = x"
proof -
  let ?ds = "if x = 0 then [48] else hexes (be_min (nat \<bar>x\<bar>))"
  let ?s = "x < 0"
  have t: "hex_text x = (if ?s then [45] else []) @ ?ds" by (simp add: hex_text_def)
  have nz: "x \<noteq> 0 \<Longrightarrow> be_min (nat \<bar>x\<bar>) \<noteq> []" using length_be_min_pos [of "nat \<bar>x\<bar>"] by auto
  have h0: "hex_val [48] = 0" "OPENSSL_isxdigit (uint (48 :: byte))" by code_simp+
  have v: "hex_val ?ds = nat \<bar>x\<bar>" using h0(1) hexes(1) by simp
  have "?ds \<noteq> []" "hd ?ds \<noteq> 45" using hexes(4) [OF nz] by simp_all
  moreover have "\<forall>c\<in>set ?ds. OPENSSL_isxdigit (uint c)" using h0(2) hexes(2) by simp
  moreover have l: "length ?ds \<le> 16 * BN_MAX_WORDS" using assms(3) by (simp add: t split: if_splits)
  then have "length ?ds < 2147483647" by (simp add: BN_MAX_WORDS_def split: if_splits)
  ultimately show ?thesis
    using x2bn_ok [OF assms(1,2), of ?ds OPENSSL_isxdigit decode_hex "nat \<bar>x\<bar>" ?s]
      decode_hex_ok [OF _ _ _ assms(1) l] v
    unfolding t BN_hex2bn_def by auto
qed

section \<open>Decimal\<close>

text \<open>The value of decimal digits.\<close>

definition dec_val :: "byte list \<Rightarrow> nat" where
  "dec_val cs = foldl (\<lambda>n c. n * 10 + (unat c - 48)) 0 cs"

definition dec_digit :: "byte \<Rightarrow> bool" where
  "dec_digit c \<longleftrightarrow> 48 \<le> unat c \<and> unat c \<le> 57"

lemma dec_val_Nil [simp]: "dec_val [] = 0"
  by (simp add: dec_val_def)

lemma dec_val_snoc: "dec_val (cs @ [c]) = dec_val cs * 10 + (unat c - 48)"
  by (simp add: dec_val_def)

lemma dec_val_Cons: "dec_val (c # cs) = (unat c - 48) * 10 ^ length cs + dec_val cs"
proof (induction cs rule: rev_induct)
  case (snoc d cs)
  have "dec_val (c # cs @ [d]) = dec_val (c # cs) * 10 + (unat d - 48)" using dec_val_snoc [of "c # cs" d] by simp
  then show ?case using snoc by (simp add: dec_val_snoc algebra_simps)
qed (simp add: dec_val_def)

lemma decimal_digits: "(\<forall>c\<in>set (decimal n). dec_digit c) \<and> dec_val (decimal n) = n \<and> hd (decimal n) \<noteq> 45"
proof (induction n rule: decimal.induct)
  case (1 n)
  have d: "unat (byte_of (48 + k)) = 48 + k" if "k < 10" for k using that by simp
  have e: "byte_of (48 + k) \<noteq> 45" if "k < 10" for k
  proof
    assume "byte_of (48 + k) = 45"
    then have "unat (byte_of (48 + k)) = 45" by simp
    then show False using d [OF that] by simp
  qed
  show ?case
  proof (cases "n < 10")
    case True
    then show ?thesis using d e dec_val_snoc [of "[]"] by (simp add: decimal.simps [of n] dec_digit_def)
  next
    case False
    have "decimal (n div 10) \<noteq> []" by simp
    then show ?thesis using False 1 d [of "n mod 10"]
      by (auto simp: decimal.simps [of n] dec_digit_def dec_val_snoc simp del: decimal_nonempty)
  qed
qed

text \<open>What the number keeps while it grows by chunks.\<close>

definition growing :: "nat \<Rightarrow> BIGNUM \<Rightarrow> bool" where
  "growing n r \<longleftrightarrow> bn_wf r \<and> \<not> neg r \<and> \<not> static_data r \<and> width r \<le> n"

lemma wexpand_static: "bn_wexpand mal n r = (c, r1) \<Longrightarrow> static_data r1 = static_data r \<and> width r1 = width r \<and> neg r1 = neg r"
  by (auto simp: bn_wexpand_def split: if_splits option.splits)

lemma growing_room: "growing n r \<Longrightarrow> (\<And>m. mal m \<noteq> None) \<Longrightarrow> n < BN_MAX_WORDS \<Longrightarrow> bn_room mal (width r + 1) r"
  by (simp add: growing_def bn_room_def)

lemma mul_word_grows:
  assumes "growing n r" and "\<forall>m. mal m \<noteq> None" and "n < BN_MAX_WORDS"
  shows "\<exists>r1. BN_mul_word mal r w = (Some (), r1) \<and> growing (n + 1) r1 \<and> bn_mag r1 = bn_mag r * unat w"
proof -
  have wf: "bn_wf r" "\<not> neg r" "\<not> static_data r" "width r \<le> n" using assms(1) by (simp_all add: growing_def)
  obtain r1 where r1: "BN_mul_word mal r w = (Some (), r1)" "bn_wf r1" "bn_int r1 = bn_int r * int (unat w)"
    using BN_mul_word_ok [OF wf(1) growing_room [OF assms(1) _ assms(3)]] assms(2) by blast
  have "static_data r1 = static_data r \<and> neg r1 = neg r \<and> width r1 \<le> width r + 1" if "width r \<noteq> 0" "w \<noteq> 0"
    using r1(1) that
    by (auto simp: BN_mul_word_def Let_def split: prod.splits if_splits elim!: and_then_SomeE dest!: wexpand_static)
  moreover have "r1 = r \<or> r1 = BN_zero r" if "width r = 0 \<or> w = 0"
    using r1(1) that by (cases "width r = 0"; cases "w = 0") (auto simp: BN_mul_word_def)
  ultimately have "static_data r1 = static_data r \<and> \<not> neg r1 \<and> width r1 \<le> width r + 1"
    using wf(2) by (cases "width r = 0 \<or> w = 0") (auto simp: BN_zero_def)
  moreover have "bn_mag r1 = bn_mag r * unat w"
  proof -
    have "int (bn_mag r1) = int (bn_mag r * unat w)"
      using r1(3) wf(2) calculation unfolding bn_int_def of_nat_mult by (simp only: if_False)
    then show ?thesis by (simp only: of_nat_eq_iff)
  qed
  ultimately show ?thesis using r1 wf by (auto simp: growing_def)
qed

lemma add_word_grows:
  assumes "growing n r" and "\<forall>m. mal m \<noteq> None" and "n < BN_MAX_WORDS"
  shows "\<exists>r1. BN_add_word mal r w = (Some (), r1) \<and> growing (n + 1) r1 \<and> bn_mag r1 = bn_mag r + unat w"
proof -
  have wf: "bn_wf r" "\<not> neg r" "\<not> static_data r" "width r \<le> n" using assms(1) by (simp_all add: growing_def)
  obtain r1 where r1: "BN_add_word mal r w = (Some (), r1)" "bn_wf r1" "bn_int r1 = bn_int r + int (unat w)"
    using BN_add_word_ok [OF wf(1) growing_room [OF assms(1) _ assms(3)]] assms(2) by blast
  have "static_data r1 = static_data r \<and> \<not> neg r1 \<and> width r1 \<le> width r + 1"
    using r1(1) wf(2)
    by (auto simp: BN_add_word.simps BN_set_word_def BN_zero_def Let_def split: prod.splits if_splits
        elim!: and_then_SomeE dest!: wexpand_static)
  moreover have "bn_mag r1 = bn_mag r + unat w"
  proof -
    have "int (bn_mag r1) = int (bn_mag r + unat w)"
      using r1(3) wf(2) calculation unfolding bn_int_def of_nat_add by (simp only: if_False)
    then show ?thesis by (simp only: of_nat_eq_iff)
  qed
  ultimately show ?thesis using r1 wf by (auto simp: growing_def)
qed

lemma digit_below: "(a + 1) * 10 \<le> p * 10 \<Longrightarrow> d < 10 \<Longrightarrow> a * 10 + d < p * 10" for a d p :: nat
  by simp

lemma pad_mod: "m < 19 \<Longrightarrow> n = 19 * q + m \<Longrightarrow> 19 - m + n = 19 * (q + 1)" for m n q :: nat
  by simp

lemma dec_step:
  assumes "dec_digit c" and "unat l < 10 ^ j" and "j < 19"
  shows "unat (l * 10 + of_int (uint c - 48) :: u64) = unat l * 10 + (unat c - 48)"
    and "unat l * 10 + (unat c - 48) < 10 ^ (j + 1)"
proof -
  have c: "48 \<le> unat c" "unat c - 48 < 10" using assms(1) unfolding dec_digit_def by linarith+
  have "uint c - 48 = int (unat c - 48)" unfolding uint_nat of_nat_diff [OF c(1)] by simp
  then have i: "of_int (uint c - 48) = (of_nat (unat c - 48) :: u64)" by (simp only: of_int_of_nat_eq)
  have "unat l + 1 \<le> 10 ^ j" using assms(2) by simp
  then have "(unat l + 1) * 10 \<le> 10 ^ j * 10" by (rule mult_right_mono) simp
  then show b: "unat l * 10 + (unat c - 48) < 10 ^ (j + 1)"
    unfolding power_add power_one_right using c(2) by (rule digit_below)
  have "(10 :: nat) ^ (j + 1) \<le> 10 ^ 19" using assms(3) by (intro power_increasing) simp_all
  then have "unat l * 10 + (unat c - 48) < 2 ^ 64" using b by simp
  moreover have "l * 10 + of_int (uint c - 48) = (of_nat (unat l * 10 + (unat c - 48)) :: u64)" unfolding i by simp
  ultimately show "unat (l * 10 + of_int (uint c - 48) :: u64) = unat l * 10 + (unat c - 48)"
    by (simp only: unat_of_nat len_u64 mod_less)
qed

text \<open>Every chunk of 19 digits grows the number by at most two words.\<close>

lemma decode_dec_loop:
  assumes "\<forall>m. mal m \<noteq> None"
  shows "\<forall>c\<in>set cs. dec_digit c \<Longrightarrow> unat l < 10 ^ j \<Longrightarrow> j < 19 \<Longrightarrow> (j + length cs) mod 19 = 0 \<Longrightarrow> (cs = [] \<Longrightarrow> l = 0) \<Longrightarrow>
    growing n r \<Longrightarrow> n + 2 * ((j + length cs) div 19) < BN_MAX_WORDS \<Longrightarrow>
    \<exists>r1. decode_dec_loop mal j l cs r = (Some (), r1) \<and> bn_sized r1 \<and> \<not> neg r1 \<and>
      bn_mag r1 = bn_mag r * 10 ^ (j + length cs) + unat l * 10 ^ length cs + dec_val cs"
proof (induction cs arbitrary: l j n r)
  case Nil
  then have "j = 0" by simp
  then show ?case using Nil by (simp add: growing_def bn_wf_def)
next
  case (Cons c cs)
  let ?l = "l * 10 + of_int (uint c - 48) :: u64"
  have d: "dec_digit c" "\<forall>c\<in>set cs. dec_digit c" using Cons.prems(1) by simp_all
  note L = dec_step [OF d(1) Cons.prems(2,3)]
  have v: "dec_val (c # cs) = (unat c - 48) * 10 ^ length cs + dec_val cs" by (rule dec_val_Cons)
  show ?case
  proof (cases "j + 1 = 19")
    case False
    have "cs \<noteq> []"
    proof
      assume "cs = []"
      moreover have "j + 1 < 19" using Cons.prems(3) False by linarith
      ultimately show False using Cons.prems(4) by simp
    qed
    then obtain r1 where "decode_dec_loop mal (j + 1) ?l cs r = (Some (), r1)" "bn_sized r1" "\<not> neg r1"
      "bn_mag r1 = bn_mag r * 10 ^ (j + 1 + length cs) + unat ?l * 10 ^ length cs + dec_val cs"
      using Cons.IH [OF d(2), of ?l "j + 1" n r] L Cons.prems(3,4,6,7) False by auto
    then show ?thesis using False L(1) v by (simp add: BN_DEC_NUM_def algebra_simps)
  next
    case True
    have q: "(j + length (c # cs)) div 19 = length cs div 19 + 1" "length cs mod 19 = 0"
      using True Cons.prems(4) by (simp_all add: add.commute)
    have n: "n < BN_MAX_WORDS" "n + 1 < BN_MAX_WORDS" "n + 2 + 2 * (length cs div 19) < BN_MAX_WORDS"
      using Cons.prems(7) unfolding q by simp_all
    obtain r1 where r1: "BN_mul_word mal r BN_DEC_CONV = (Some (), r1)" "growing (n + 1) r1"
      "bn_mag r1 = bn_mag r * unat BN_DEC_CONV"
      using mul_word_grows [OF Cons.prems(6) assms n(1)] by blast
    obtain r2 where r2: "BN_add_word mal r1 ?l = (Some (), r2)" "growing (n + 1 + 1) r2" "bn_mag r2 = bn_mag r1 + unat ?l"
      using add_word_grows [OF r1(2) assms n(2)] by blast
    obtain r3 where r3: "decode_dec_loop mal 0 0 cs r2 = (Some (), r3)" "bn_sized r3" "\<not> neg r3"
      "bn_mag r3 = bn_mag r2 * 10 ^ length cs + dec_val cs"
      using Cons.IH [OF d(2), of 0 0 "n + 2" r2] q(2) n(3) r2(2) by auto
    have "unat BN_DEC_CONV = 10 ^ (j + 1)" using True by (simp add: BN_DEC_CONV_def)
    then have "bn_mag r3 = bn_mag r * 10 ^ (j + length (c # cs)) + unat l * 10 ^ length (c # cs) + dec_val (c # cs)"
      using r3(4) r2(3) r1(3) L(1) v by (simp add: power_add algebra_simps)
    moreover have "decode_dec_loop mal j l (c # cs) r = (Some (), r3)"
      unfolding decode_dec_loop.simps Let_def BN_DEC_NUM_def using r1(1) r2(1) r3(1) True
      by (simp only: if_True and_then_simps refl)
    ultimately show ?thesis using r3(2,3) by blast
  qed
qed

lemma decode_dec_ok:
  assumes "\<forall>m. mal m \<noteq> None" and "growing 0 r" and "bn_mag r = 0"
    and "\<forall>c\<in>set cs. dec_digit c" and "length cs < 2 ^ 26"
  shows "\<exists>r1. decode_dec mal r cs = (Some (), r1) \<and> bn_sized r1 \<and> \<not> neg r1 \<and> bn_mag r1 = dec_val cs"
proof -
  let ?j = "19 - length cs mod 19"
  let ?i = "if ?j = 19 then 0 else ?j"
  have i: "?i < 19" "(?i + length cs) mod 19 = 0"
  proof -
    have m: "length cs mod 19 < 19" "length cs = 19 * (length cs div 19) + length cs mod 19" by simp_all
    show "?i < 19" using m(1) by simp
    show "(?i + length cs) mod 19 = 0"
    proof (cases "length cs mod 19 = 0")
      case False
      then have i: "?i = 19 - length cs mod 19" by simp
      have "?i + length cs = 19 * (length cs div 19 + 1)" unfolding i by (rule pad_mod [OF m])
      then show ?thesis by (simp only: mod_mult_self1_is_0)
    qed simp
  qed
  have "(?i + length cs) div 19 \<le> (18 + 2 ^ 26) div 19" using assms(5) i(1) by (intro div_le_mono) linarith
  then have "0 + 2 * ((?i + length cs) div 19) < BN_MAX_WORDS" by (simp add: BN_MAX_WORDS_def)
  then show ?thesis
    using decode_dec_loop [OF assms(1,4), of 0 ?i 0 r] assms(2,3) i
    by (simp add: decode_dec_def BN_DEC_NUM_def Let_def)
qed

text \<open>The decimal text of an integer.\<close>

definition dec_text :: "int \<Rightarrow> byte list" where
  "dec_text x = (if x < 0 then [45] else []) @ decimal (nat \<bar>x\<bar>)"

lemma dec2bn:
  assumes "\<forall>n. mal n \<noteq> None" and "out_ok p" and "length (decimal (nat \<bar>x\<bar>)) < 2 ^ 26"
  shows "\<exists>r. BN_dec2bn mal (Some p) (dec_text x) = (length (dec_text x), Some (Some r)) \<and> bn_wf r \<and> bn_int r = x"
proof -
  let ?ds = "decimal (nat \<bar>x\<bar>)"
  note D = decimal_digits [of "nat \<bar>x\<bar>"]
  have "\<forall>c\<in>set ?ds. OPENSSL_isdigit (uint c)" 
  proof
    fix c assume "c \<in> set ?ds"
    then have "dec_digit c" using D by blast
    then show "OPENSSL_isdigit (uint c)" unfolding OPENSSL_isdigit_def uint_nat dec_digit_def by linarith
  qed
  moreover have "length ?ds < 2147483647" using assms(3) by simp
  moreover have "\<exists>r1. decode_dec mal r ?ds = (Some (), r1) \<and> bn_sized r1 \<and> \<not> neg r1 \<and> bn_mag r1 = nat \<bar>x\<bar>"
    if "bn_wf r" "bn_mag r = 0" "\<not> neg r" "\<not> static_data r" "width r = 0" for r
    using decode_dec_ok [OF assms(1), of r ?ds] that D assms(3) by (simp add: growing_def)
  ultimately show ?thesis
    using x2bn_ok [OF assms(1,2), of ?ds OPENSSL_isdigit decode_dec "nat \<bar>x\<bar>" "x < 0"] D
    unfolding dec_text_def BN_dec2bn_def by auto
qed

section \<open>Printing decimals\<close>

text \<open>The digits of a number from its end, all of them or exactly \<open>k\<close>.\<close>

fun rdec :: "nat \<Rightarrow> byte list" where
  "rdec n = (if n = 0 then [] else byte_of (48 + n mod 10) # rdec (n div 10))"

declare rdec.simps [simp del]

fun rpad :: "nat \<Rightarrow> nat \<Rightarrow> byte list" where
  "rpad 0 n = []"
| "rpad (Suc k) n = byte_of (48 + n mod 10) # rpad k (n div 10)"

lemma rdec_decimal: "0 < n \<Longrightarrow> rdec n = rev (decimal n)"
proof (induction n rule: rdec.induct)
  case (1 n)
  show ?case
  proof (cases "n < 10")
    case True
    then show ?thesis using "1.prems" by (simp add: rdec.simps [of n] rdec.simps [of 0] decimal.simps [of n])
  next
    case False
    then show ?thesis using 1 by (simp add: rdec.simps [of n] decimal.simps [of n])
  qed
qed

lemma rdec_chunk: "0 < q \<Longrightarrow> r < 10 ^ k \<Longrightarrow> rdec (q * 10 ^ k + r) = rpad k r @ rdec q"
proof (induction k arbitrary: r)
  case (Suc k)
  have e: "(q * 10 ^ Suc k + r) mod 10 = r mod 10" "(q * 10 ^ Suc k + r) div 10 = q * 10 ^ k + r div 10"
  proof -
    have t: "q * 10 ^ Suc k = 10 * (q * 10 ^ k)" by simp
    show "(q * 10 ^ Suc k + r) mod 10 = r mod 10" unfolding t by (rule mod_mult_self4)
    show "(q * 10 ^ Suc k + r) div 10 = q * 10 ^ k + r div 10" unfolding t by (rule div_mult_self4) simp
  qed
  have "r div 10 < 10 ^ k" using Suc.prems(2) by (simp add: less_mult_imp_div_less mult.commute)
  then show ?case using Suc e by (subst rdec.simps) simp
qed simp

lemma digit_char: "(48 + ucast (w mod 10) :: byte) = byte_of (48 + unat w mod 10)" for w :: u64
proof -
  have "(ucast (w mod 10) :: byte) = of_nat (unat w mod 10)"
    by (simp add: word_unat_eq_iff unat_ucast_mod unat_mod unat_of_nat)
  then show ?thesis by (simp add: byte_of_def)
qed

lemma digits_emits:
  assumes m: "malloc_sized mal"
  shows "alz \<or> unat w < 10 ^ n \<Longrightarrow>
    emits mal (dec_digits_loop mal alz n w) Top (if alz then rpad n (unat w) else rdec (unat w))"
proof (induction n arbitrary: w)
  case 0
  have "dec_digits_loop mal alz 0 w = (\<lambda>s. (Some (), s))" by (rule ext) simp
  moreover have "\<not> alz \<Longrightarrow> rdec (unat w) = []" using 0 by (simp add: rdec.simps)
  ultimately show ?case using emits_nil by (cases alz) simp_all
next
  case (Suc n)
  show ?case
  proof (cases "alz \<or> w \<noteq> 0")
    case False
    then have "dec_digits_loop mal alz (Suc n) w = (\<lambda>s. (Some (), s))" by (intro ext) simp
    then show ?thesis using False emits_nil by (simp add: rdec.simps)
  next
    case True
    have u: "unat (w div 10) = unat w div 10" by (simp add: unat_div)
    then have "alz \<or> unat (w div 10) < 10 ^ n" using Suc.prems by (auto simp: div_less_iff_less_mult mult.commute)
    note IH = Suc.IH [OF this]
    have "dec_digits_loop mal alz (Suc n) w = (\<lambda>s. and_then (CBB_add_u8 mal Top (byte_of (48 + unat w mod 10)) s)
        (\<lambda>_ s1. dec_digits_loop mal alz n (w div 10) s1))"
      using True by (intro ext) (simp only: dec_digits_loop.simps if_True digit_char)
    moreover have "(if alz then rpad (Suc n) (unat w) else rdec (unat w)) =
        [byte_of (48 + unat w mod 10)] @ (if alz then rpad n (unat (w div 10)) else rdec (unat (w div 10)))"
      using True u by (auto simp: rdec.simps [of "unat w"] unat_eq_zero)
    ultimately show ?thesis using emits_seq [OF u8.put_emits [OF m TrueI, of Top "byte_of (48 + unat w mod 10)"] IH] by simp
  qed
qed

lemma bn2dec_loop:
  assumes m: "malloc_sized mal"
  shows "bn_wf r \<Longrightarrow> bn_room mal (width r + 1) r \<Longrightarrow> ready Top s \<Longrightarrow> can_add mal (base s) (length (rdec (bn_mag r))) \<Longrightarrow>
    \<exists>s'. bn2dec_loop mal r s = Some (Some (), s') \<and> appends s s' (rdec (bn_mag r))"
proof (induction "bn_mag r" arbitrary: r s rule: less_induct)
  case less
  show ?case
  proof (cases "bn_mag r = 0")
    case True
    have "appends s s []" using less.prems(3) by (simp add: appends_def appended_refl ready_def)
    then show ?thesis using True by (subst bn2dec_loop.simps) (simp add: is_zero rdec.simps)
  next
    case False
    let ?b = "10 ^ 19 :: nat"
    have ub: "unat BN_DEC_CONV = ?b" "BN_DEC_CONV \<noteq> 0" by (simp_all add: BN_DEC_CONV_def)
    obtain r1 where r1: "BN_div_word mal r BN_DEC_CONV = (of_nat (bn_mag r mod ?b), r1)" "bn_wf r1"
      "bn_int r1 = (if neg r then - int (bn_mag r div ?b) else int (bn_mag r div ?b))"
      "bn_room mal (width r1 + 1) r1"
      using BN_div_word_ok [OF less.prems(1,2) ub(2)] unfolding ub(1) by blast
    have q: "bn_mag r1 = bn_mag r div ?b" using bn_int_parts [OF r1(2)] r1(3) by simp
    let ?w = "of_nat (bn_mag r mod ?b) :: u64"
    have lt: "bn_mag r mod ?b < ?b" by (rule mod_less_divisor) simp
    then have w: "unat ?w = bn_mag r mod ?b" by (intro unat_of_nat_less) simp
    have n1: "?w \<noteq> - 1"
    proof
      assume e: "?w = - 1"
      have "unat ?w = 2 ^ 64 - 1" unfolding e by (simp add: unsigned_minus_1_eq_mask mask_eq_exp_minus_1)
      then show False using w lt by simp
    qed
    let ?alz = "bn_mag r1 \<noteq> 0"
    let ?d = "if ?alz then rpad 19 (unat ?w) else rdec (unat ?w)"
    have split: "rdec (bn_mag r) = ?d @ rdec (bn_mag r1)"
    proof (cases ?alz)
      case True
      have "bn_mag r = bn_mag r1 * ?b + bn_mag r mod ?b" unfolding q by (rule div_mult_mod_eq [symmetric])
      then show ?thesis using True rdec_chunk [of "bn_mag r1" "bn_mag r mod ?b" 19] lt w by simp
    next
      case z: False
      then have "bn_mag r mod ?b = bn_mag r" using q by (simp add: div_eq_0_iff)
      then show ?thesis using z w by (simp add: rdec.simps [of 0])
    qed
    have em: "emits mal (dec_digits_loop mal ?alz 19 ?w) Top ?d"
      by (rule digits_emits [OF m]) (use w lt in simp)
    have "can_add mal (base s) (length ?d)" using less.prems(4) by (rule can_add_mono) (simp add: split)
    then obtain s1 where s1: "dec_digits_loop mal ?alz 19 ?w s = (Some (), s1)" "appends s s1 ?d"
      by (rule emitsE [OF em less.prems(3)])
    have rd: "ready Top s1" by (rule appends_ready [OF less.prems(3) s1(2)])
    have "can_add mal (base s1) (length (rdec (bn_mag r1)))"
      using appends_room [OF less.prems(3) s1(2)] less.prems(4) by (simp add: split)
    moreover have "bn_mag r1 < bn_mag r" using False q by simp
    ultimately obtain s2 where s2: "bn2dec_loop mal r1 s1 = Some (Some (), s2)" "appends s1 s2 (rdec (bn_mag r1))"
      using less.hyps [OF _ r1(2,4) rd] by blast
    have "bn2dec_loop mal r s = bn2dec_loop mal r1 s1"
      using False n1 r1(1) s1(1) by (subst bn2dec_loop.simps) (simp add: is_zero BN_DEC_NUM_def)
    then show ?thesis using s2 appends_trans [OF s1(2) s2(2)] by (simp add: split)
  qed
qed

lemma dup_ok:
  assumes "bn_wf a" and "\<forall>n. mal n \<noteq> None" and "width a < BN_MAX_WORDS"
  obtains r where "BN_dup mal a = Some r" and "bn_wf r" and "bn_int r = bn_int a" and "bn_room mal (width r + 1) r"
proof -
  have room: "bn_room mal (width a) BN_init" using assms(2,3) by (simp add: bn_room_def BN_init_def)
  obtain r1 where r1: "bn_wexpand mal (width a) BN_init = (Some (), r1)" "length (bn_d r1) = dmax r1" "width a \<le> dmax r1"
    by (rule wexpand_ok [OF BN_init_wf(2) room])
  have st: "\<not> static_data r1" using wexpand_static [OF r1(1)] by (simp add: BN_init_def)
  let ?r = "r1\<lparr>bn_d := bn_words a @ drop (width a) (bn_d r1), width := width a, neg := neg a\<rparr>"
  have l: "length (bn_words a) = width a" using assms(1) by (simp add: bn_wf_def)
  have "BN_dup mal a = Some ?r" using BN_new_ok [of mal] assms(2) r1(1) by (simp add: BN_dup_def BN_copy_def)
  moreover have "bn_words ?r = bn_words a" using l by (simp add: bn_words_def [of ?r])
  then have m: "bn_mag ?r = bn_mag a" by (simp add: bn_mag_def)
  moreover have s: "bn_sized ?r" using r1(2,3) l by (simp add: bn_sized_def)
  moreover have "bn_wf ?r" using assms(1) m s by (simp add: bn_wf_def)
  moreover have "bn_int ?r = bn_int a" using m by (simp add: bn_int_def)
  moreover have "bn_room mal (width ?r + 1) ?r" using assms(2,3) st by (simp add: bn_room_def)
  ultimately show thesis using that by blast
qed

lemma bn2dec_digits:
  assumes "malloc_sized mal" and "bn_wf a" and "\<forall>n. mal n \<noteq> None" and "width a < BN_MAX_WORDS"
    and "ready Top s" and "can_add mal (base s) (length (decimal (bn_mag a)))"
  shows "\<exists>s'. bn2dec_digits mal a s = Some (Some (), s') \<and> appends s s' (rev (decimal (bn_mag a)))"
proof (cases "bn_mag a = 0")
  case True
  have d: "decimal 0 = [48]" by (simp add: decimal.simps byte_eq_iff)
  then have "can_add mal (base s) (length [48 :: byte])" using assms(6) True by simp
  then obtain s' where "CBB_add_u8 mal Top 48 s = (Some (), s')" "appends s s' [48]"
    by (rule emitsE [OF u8.put_emits [OF assms(1) TrueI] assms(5)])
  then show ?thesis using True d by (simp add: bn2dec_digits_def is_zero)
next
  case False
  obtain r where r: "BN_dup mal a = Some r" "bn_wf r" "bn_int r = bn_int a" "bn_room mal (width r + 1) r"
    by (rule dup_ok [OF assms(2-4)])
  have m: "bn_mag r = bn_mag a" using bn_int_parts [OF r(2)] bn_int_parts [OF assms(2)] r(3) by simp
  then have e: "rdec (bn_mag r) = rev (decimal (bn_mag a))" using False rdec_decimal by simp
  then have "can_add mal (base s) (length (rdec (bn_mag r)))" using assms(6) by simp
  from bn2dec_loop [OF assms(1) r(2,4) assms(5) this] show ?thesis
    using False r(1) by (simp add: bn2dec_digits_def is_zero e)
qed

lemma bn2dec:
  assumes "malloc_sized mal" and "bn_wf a" and "\<forall>n. mal n \<noteq> None" and "width a < BN_MAX_WORDS"
    and "length (decimal (bn_mag a)) < 2 ^ 61"
  shows "BN_bn2dec mal a = Some (Some (dec_text (bn_int a) @ [0]))"
proof -
  let ?d = "rev (decimal (bn_mag a))"
  have "(16 :: nat) < 2 ^ 62" by simp
  then obtain s0 where s0: "CBB_init mal 16 = (Some (), s0)" "ready Top s0" "content (base s0) = []"
    "\<forall>k < 2 ^ 62. can_add mal (base s0) k" by (rule ready_init [OF assms(1,3)])
  have "can_add mal (base s0) (length [0 :: byte])" using s0(4) by simp
  then obtain s1 where s1: "CBB_add_u8 mal Top 0 s0 = (Some (), s1)" "appends s0 s1 [0]"
    by (rule emitsE [OF u8.put_emits [OF assms(1) TrueI] s0(2)])
  have r1: "ready Top s1" by (rule appends_ready [OF s0(2) s1(2)])
  have c1: "can_add mal (base s1) (length (decimal (bn_mag a)) + 1)"
    by (rule appends_room [OF s0(2) s1(2)]) (use s0(4) assms(5) in simp)
  have "can_add mal (base s1) (length (decimal (bn_mag a)))" by (rule can_add_mono [OF c1]) simp
  then obtain s2 where s2: "bn2dec_digits mal a s1 = Some (Some (), s2)" "appends s1 s2 ?d"
    using bn2dec_digits [OF assms(1-4) r1] by blast
  have r2: "ready Top s2" by (rule appends_ready [OF r1 s2(2)])
  have c2: "can_add mal (base s2) 1" by (rule appends_room [OF r1 s2(2)]) (use c1 in simp)
  let ?m = "if neg a then [45] else [] :: byte list"
  obtain s3 where s3: "(if neg a then CBB_add_u8 mal Top 45 s2 else (Some (), s2)) = (Some (), s3)" "appends s2 s3 ?m"
  proof (cases "neg a")
    case True
    have "can_add mal (base s2) (length [45 :: byte])" using c2 by simp
    then obtain s3 where "CBB_add_u8 mal Top 45 s2 = (Some (), s3)" "appends s2 s3 [45]"
      by (rule emitsE [OF u8.put_emits [OF assms(1) TrueI] r2])
    then show thesis using that [of s3] True by simp
  next
    case False
    have "appends s2 s2 []" using r2 by (simp add: appends_def appended_refl ready_def)
    then show thesis using that [of s2] False by simp
  qed
  have "appends s0 s3 ([0] @ ?d @ ?m)" by (intro appends_trans [OF s1(2)] appends_trans [OF s2(2)] s3(2))
  then have "take (blen (base s3)) (buf (base s3)) = [0] @ ?d @ ?m"
    using s0(3) by (simp add: appends_def appended_def content_def)
  moreover have "CBB_finish mal Top s3 = (Some (buf (base s3), blen (base s3)), s3\<lparr>base := (base s3)\<lparr>buf := []\<rparr>\<rparr>)"
    by (rule finish_ready [OF appends_ready [OF r2 s3(2)]])
  ultimately have "BN_bn2dec mal a = Some (Some (rev ([0] @ ?d @ ?m)))"
    using s0(1) s1(1) s2(1) s3(1) by (simp add: BN_bn2dec_def BN_is_negative_def)
  moreover have "rev ([0] @ ?d @ ?m) = dec_text (bn_int a) @ [0]"
    using bn_int_parts [OF assms(2)] by (simp add: dec_text_def)
  ultimately show ?thesis by simp
qed

section \<open>ASN.1\<close>

lemma bn2cbb_padded:
  assumes "malloc_sized mal" and "bn_sized a" and "bn_mag a < 256 ^ n"
  shows "BN_bn2cbb_padded mal out n a = CBB_add_bytes mal out (be_bytes n (bn_mag a))"
  using assms by (intro ext) (simp add: BN_bn2cbb_padded_def CBB_add_bytes_def bn2bin_padded)

lemma bits_mod_8:
  assumes "bn_sized a"
  shows "der_uint (bn_mag a) = (if BN_num_bits a mod 8 = 0 then [0] else []) @ be_min (bn_mag a)"
proof (cases "bn_mag a = 0")
  case True
  then show ?thesis using assms by (simp add: der_uint_def num_bits floorlog_def)
next
  case False
  let ?v = "bn_mag a" and ?b = "BN_num_bits a"
  let ?n = "BN_num_bytes a"
  obtain c cs where cs: "be_min ?v = c # cs" using length_be_min_pos [of ?v] False by (cases "be_min ?v") auto
  have b: "?b = floorlog 2 ?v" using assms by (rule num_bits)
  have n: "length (be_min ?v) = ?n" using num_bytes [OF assms] length_be_bytes [of ?n ?v] by simp
  have v: "?v = unat c * 256 ^ length cs + be_val cs" using be_val_be_min [of ?v] unfolding cs by (simp add: be_val_Cons)
  have c0: "0 < unat c" using hd_be_min [of ?v] False cs by simp
  have "be_val cs < 2 ^ (8 * length cs)" using be_val_lt [of cs] by (simp add: power_mult)
  then have "floorlog 2 (be_val cs + 2 ^ (8 * length cs) * unat c) = 8 * length cs + floorlog 2 (unat c)"
    by (rule floorlog_top [OF c0])
  moreover have "256 ^ length cs = (2 :: nat) ^ (8 * length cs)" by (simp add: power_mult)
  then have "?v = be_val cs + 2 ^ (8 * length cs) * unat c" unfolding v by (simp only: add.commute mult.commute)
  ultimately have "?b = 8 * length cs + floorlog 2 (unat c)" unfolding b by (simp only:)
  then have "?b mod 8 = floorlog 2 (unat c) mod 8" by simp
  moreover have "floorlog 2 (unat c) mod 8 = 0 \<longleftrightarrow> 128 \<le> unat c"
  proof -
    have B: "2 ^ (floorlog 2 (unat c) - 1) \<le> unat c" "unat c < 2 ^ floorlog 2 (unat c)"
      using floorlog_bounds [of "unat c" 2] c0 by simp_all
    have "1 \<le> floorlog 2 (unat c)" using c0 by (simp add: floorlog_def)
    moreover have "floorlog 2 (unat c) - 1 < 8"
    proof -
      have "(2 :: nat) ^ (floorlog 2 (unat c) - 1) < 2 ^ 8" by (rule order_le_less_trans [OF B(1)]) (use byte_lt_256 [of c] in simp)
      then show ?thesis by (simp only: power_strict_increasing_iff one_less_numeral_iff semiring_norm)
    qed
    ultimately have m: "floorlog 2 (unat c) mod 8 = 0 \<longleftrightarrow> floorlog 2 (unat c) = 8" by presburger
    show ?thesis
    proof
      assume "floorlog 2 (unat c) mod 8 = 0"
      then have "floorlog 2 (unat c) = 8" by (simp only: m)
      then show "128 \<le> unat c" using B(1) by simp
    next
      assume "128 \<le> unat c"
      then have "(2 :: nat) ^ 7 < 2 ^ floorlog 2 (unat c)" using B(2) by simp
      then have "7 < floorlog 2 (unat c)" by (simp only: power_strict_increasing_iff one_less_numeral_iff semiring_norm)
      then show "floorlog 2 (unat c) mod 8 = 0" using \<open>floorlog 2 (unat c) - 1 < 8\<close> unfolding m by linarith
    qed
  qed
  ultimately show ?thesis using False cs by (simp add: der_uint_def)
qed

lemma length_der_uint_le: "length (der_uint n) \<le> length (be_min n) + 1"
  by (simp add: der_uint_def)

lemma marshal_emits:
  assumes m: "malloc_sized mal" and a: "bn_wf a" "\<not> neg a" "width a < BN_MAX_WORDS"
  shows "emits mal (BN_marshal_asn1 mal cbb a) cbb
    (der_header CBS_ASN1_INTEGER (length (der_uint (bn_mag a))) @ der_uint (bn_mag a))"
  unfolding emits_def
proof (intro allI impI)
  let ?d = "der_uint (bn_mag a)"
  fix s assume r: "ready cbb s" and c: "can_add mal (base s) (length (der_header CBS_ASN1_INTEGER (length ?d) @ ?d))"
  let ?i = "local_child s"
  have sz: "bn_sized a" using a(1) by (simp add: bn_wf_def)
  have d: "length ?d \<le> 0xfffffffe"
    using length_der_uint_le [of "bn_mag a"] hex_bound [OF sz] a(3) by (simp add: BN_MAX_WORDS_def)
  let ?pad = "\<lambda>s1. if BN_num_bits a mod 8 = 0 then CBB_add_u8 mal (Child ?i) 0 s1 else (Some (), s1)"
  let ?body = "\<lambda>s1. and_then (?pad s1) (\<lambda>_ s2. BN_bn2cbb_padded mal (Child ?i) (BN_num_bytes a) a s2)"
  have "emits mal ?pad (Child ?i) (if BN_num_bits a mod 8 = 0 then [0] else [])"
    using u8.put_emits [OF m TrueI, of "Child ?i" 0] emits_nil [of mal "Child ?i"]
    by (cases "BN_num_bits a mod 8 = 0") simp_all
  moreover have "emits mal (BN_bn2cbb_padded mal (Child ?i) (BN_num_bytes a) a) (Child ?i) (be_min (bn_mag a))"
    using bn2cbb_padded [OF m sz] num_bytes [OF sz] emits_add_bytes [OF m, of "Child ?i" "be_min (bn_mag a)"] by simp
  ultimately have "emits mal ?body (Child ?i) ?d" unfolding bits_mod_8 [OF sz] by (rule emits_seq)
  from asn1_element_ok [OF m this d r local_child_fresh c]
  obtain s' where s': "and_then (CBB_add_asn1 mal cbb ?i CBS_ASN1_INTEGER s) (\<lambda>_ s1.
      and_then (?body s1) (\<lambda>_ s2. CBB_flush mal cbb s2)) = (Some (), s')"
    "appends s s' (der_header CBS_ASN1_INTEGER (length ?d) @ ?d)" by blast
  then have "BN_marshal_asn1 mal cbb a s = (Some (), s')"
    using a(2) unfolding BN_marshal_asn1_def Let_def BN_is_negative_def and_then_assoc by simp
  then show "\<exists>s'. BN_marshal_asn1 mal cbb a s = (Some (), s') \<and>
      appends s s' (der_header CBS_ASN1_INTEGER (length ?d) @ ?d)" using s'(2) by blast
qed

lemma parse_asn1:
  assumes "bn_sized r" and "\<not> static_data r" and "\<forall>n. mal n \<noteq> None" and "length cbs \<le> 8 * BN_MAX_WORDS"
  shows "(\<exists>r1. BN_parse_asn1_unsigned mal cbs r = (Some r1, rest) \<and> bn_wf r1 \<and> bn_int r1 = int n) \<longleftrightarrow>
    cbs = der_header CBS_ASN1_INTEGER (length (der_uint n)) @ der_uint n @ rest"
proof -
  let ?child = "\<lambda>bs. CBS_get_asn1 cbs CBS_ASN1_INTEGER = (Some bs, rest)"
  have der: "be_val (der_uint n) = n" for n using be_val_Cons [of 0 "be_min n"] by (simp add: der_uint_def)
  have len: "length bs \<le> 8 * BN_MAX_WORDS" if "?child bs" for bs
    using that assms(4) by (simp add: CBS_get_asn1_iff)
  have read: "\<exists>r1. BN_bin2bn mal bs (Some r) = Some r1 \<and> bn_wf r1 \<and> bn_int r1 = int (be_val bs)"
    if "?child bs" "bs \<noteq> []" for bs
  proof -
    have "(length bs + 7) div 8 \<le> BN_MAX_WORDS" using len [OF that(1)] by linarith
    then have "bn_room mal ((length bs + 7) div 8) r" using assms(2,3) by (simp add: bn_room_def)
    from bin2bn [OF assms(1) that(2) this] show ?thesis by (auto simp: bn_int_def)
  qed
  have dn: "der_uint k \<noteq> []" for k using length_be_min_pos [of k] by (auto simp: der_uint_def)
  show ?thesis
  proof
    assume "\<exists>r1. BN_parse_asn1_unsigned mal cbs r = (Some r1, rest) \<and> bn_wf r1 \<and> bn_int r1 = int n"
    then obtain r1 where r1: "BN_parse_asn1_unsigned mal cbs r = (Some r1, rest)" "bn_int r1 = int n" by blast
    then obtain bs where bs: "?child bs" "CBS_is_valid_asn1_integer bs = Some False" "BN_bin2bn mal bs (Some r) = Some r1"
      by (auto simp: BN_parse_asn1_unsigned_def split: prod.splits option.splits if_splits)
    then have d: "bs = der_uint (be_val bs)" using der_uint_iff [of bs] by (simp add: CBS_is_unsigned_asn1_integer_def)
    then have "bs \<noteq> []" using dn [of "be_val bs"] by auto
    then have "be_val bs = n" using read [OF bs(1)] bs(3) r1(2) by simp
    then show "cbs = der_header CBS_ASN1_INTEGER (length (der_uint n)) @ der_uint n @ rest"
      using bs(1) d unfolding CBS_get_asn1_iff by simp
  next
    assume cbs: "cbs = der_header CBS_ASN1_INTEGER (length (der_uint n)) @ der_uint n @ rest"
    have "length (der_uint n) < 2 ^ 32" using assms(4) unfolding cbs by (simp add: BN_MAX_WORDS_def)
    then have c: "?child (der_uint n)" unfolding CBS_get_asn1_iff using cbs by simp
    have "CBS_is_valid_asn1_integer (der_uint n) = Some False"
      using der_uint_iff [of "der_uint n"] der by (simp add: CBS_is_unsigned_asn1_integer_def)
    then show "\<exists>r1. BN_parse_asn1_unsigned mal cbs r = (Some r1, rest) \<and> bn_wf r1 \<and> bn_int r1 = int n"
      using read [OF c dn] c der by (auto simp: BN_parse_asn1_unsigned_def)
  qed
qed

section \<open>Properties\<close>

text \<open>
  C39. Numbers survive the way to text: \<open>BN_bn2dec\<close> returns, and prints the decimal digits of the value
  with its sign, by repeated division of a copy by ten to the nineteenth into a growing buffer;
  \<open>BN_bn2hex\<close> prints hexadecimal digits; \<open>BN_dec2bn\<close> and \<open>BN_hex2bn\<close> read all of either text back
  into a well-formed number of the same value, into a fresh number or over an old one.
\<close>

theorem bn_text_roundtrip:
  assumes "bn_wf a" and "malloc_sized mal" and "\<forall>n. mal n \<noteq> None" and "width a < BN_MAX_WORDS" and "out_ok p"
    and "length (decimal (bn_mag a)) < 2 ^ 26" and "length (hex_text (bn_int a)) \<le> 16 * BN_MAX_WORDS"
  shows "BN_bn2dec mal a = Some (Some (dec_text (bn_int a) @ [0])) \<and>
    BN_bn2hex mal a = Some (hex_text (bn_int a)) \<and>
    (\<exists>d h. BN_dec2bn mal (Some p) (dec_text (bn_int a)) = (length (dec_text (bn_int a)), Some (Some d)) \<and>
       BN_hex2bn mal (Some p) (hex_text (bn_int a)) = (length (hex_text (bn_int a)), Some (Some h)) \<and>
       bn_wf d \<and> bn_wf h \<and> bn_int d = bn_int a \<and> bn_int h = bn_int a)"
proof -
  have m: "bn_mag a = nat \<bar>bn_int a\<bar>" using bn_int_parts [OF assms(1)] by simp
  have "BN_bn2dec mal a = Some (Some (dec_text (bn_int a) @ [0]))"
    by (rule bn2dec [OF assms(2,1,3,4)]) (use assms(6) in simp)
  moreover have "BN_bn2hex mal a = Some (hex_text (bn_int a))"
    by (rule bn2hex [OF assms(1,3)]) (use assms(4) in simp)
  ultimately show ?thesis
    using dec2bn [OF assms(3,5), of "bn_int a"] hex2bn [OF assms(3,5,7)] assms(6) m by auto
qed

theorem bn_text_roundtrip_witness:
  "BN_bn2dec zero_malloc \<lparr>bn_d = [26], width = 1, dmax = 1, neg = True, static_data = False\<rparr> = Some (Some [45, 50, 54, 0]) \<and>
   BN_bn2hex zero_malloc \<lparr>bn_d = [26], width = 1, dmax = 1, neg = True, static_data = False\<rparr> = Some [45, 49, 97]"
proof -
  let ?a = "\<lparr>bn_d = [26], width = 1, dmax = 1, neg = True, static_data = False\<rparr>"
  have a: "bn_mag ?a = 26" "bn_int ?a = - 26" "bn_wf ?a"
    by (simp_all add: bn_mag_def bn_words_def bn_int_def bn_wf_def bn_sized_def)
  have t: "dec_text (- 26) = [45, 50, 54]" "hex_text (- 26) = [45, 49, 97]" "decimal 26 = [50, 54]"
    by (simp_all add: dec_text_def decimal.simps hex_text_def hexes_def hex_digit_def hextable_def be_min_pos byte_eq_iff)
  have z: "malloc_sized zero_malloc" "\<forall>n. zero_malloc n \<noteq> None" by (simp_all add: zero_malloc_sized zero_malloc_def)
  have "width ?a < BN_MAX_WORDS" "out_ok None" by (simp_all add: BN_MAX_WORDS_def out_ok_def)
  from bn_text_roundtrip [OF a(3) z this, unfolded a(1,2) t] show ?thesis by (simp add: BN_MAX_WORDS_def)
qed

text \<open>
  C40. Numbers survive the way to DER: \<open>BN_marshal_asn1\<close> appends the DER \<open>INTEGER\<close> of a number that is
  not negative, padded so that it does not read as negative, and \<open>BN_parse_asn1_unsigned\<close> accepts
  exactly these encodings: it returns the number \<open>n\<close> and the rest of the input if and only if the
  input is the DER of \<open>n\<close> followed by the rest. Negative numbers are refused.
\<close>

theorem bn_asn1_roundtrip:
  assumes "malloc_sized mal" and "\<forall>n. mal n \<noteq> None" and "bn_wf a" and "width a < BN_MAX_WORDS"
    and "ready cbb s" and "can_add mal (base s) (length (der_header CBS_ASN1_INTEGER (length (der_uint (bn_mag a))) @ der_uint (bn_mag a)))"
    and "bn_sized r" and "\<not> static_data r" and "length cbs \<le> 8 * BN_MAX_WORDS"
  shows "(if neg a then BN_marshal_asn1 mal cbb a s = (None, s)
     else \<exists>s'. BN_marshal_asn1 mal cbb a s = (Some (), s') \<and>
       content (base s') = content (base s) @ der_header CBS_ASN1_INTEGER (length (der_uint (bn_mag a))) @ der_uint (bn_mag a)) \<and>
    ((\<exists>r1. BN_parse_asn1_unsigned mal cbs r = (Some r1, rest) \<and> bn_wf r1 \<and> bn_int r1 = int n) \<longleftrightarrow>
       cbs = der_header CBS_ASN1_INTEGER (length (der_uint n)) @ der_uint n @ rest)"
proof -
  have "\<exists>s'. BN_marshal_asn1 mal cbb a s = (Some (), s') \<and>
      content (base s') = content (base s) @ der_header CBS_ASN1_INTEGER (length (der_uint (bn_mag a))) @ der_uint (bn_mag a)"
    if "\<not> neg a"
    using emitsE [OF marshal_emits [OF assms(1,3) that assms(4)] assms(5,6)] by (auto simp: appends_def appended_def)
  moreover have "neg a \<Longrightarrow> BN_marshal_asn1 mal cbb a s = (None, s)" by (simp add: BN_marshal_asn1_def BN_is_negative_def)
  ultimately show ?thesis using parse_asn1 [OF assms(7,8,2,9)] by simp
qed

theorem bn_asn1_roundtrip_witness:
  "\<exists>r1. BN_parse_asn1_unsigned zero_malloc [2, 2, 0, 0x80, 9] BN_init = (Some r1, [9]) \<and> bn_int r1 = 128"
proof -
  let ?a = "\<lparr>bn_d = [128], width = 1, dmax = 1, neg = False, static_data = False\<rparr>"
  have a: "bn_wf ?a" "width ?a < BN_MAX_WORDS" by (simp_all add: bn_wf_def bn_sized_def BN_MAX_WORDS_def)
  have z: "\<forall>n. zero_malloc n \<noteq> None" by (simp add: zero_malloc_def)
  obtain s where s: "ready Top s" "\<forall>k < 2 ^ 62. can_add zero_malloc (base s) k"
    using ready_init [OF zero_malloc_sized z, of 16] by auto
  have i: "bn_sized BN_init" "\<not> static_data BN_init" "length [2, 2, 0, 0x80, 9 :: byte] \<le> 8 * BN_MAX_WORDS"
    by (simp_all add: bn_sized_def BN_init_def BN_MAX_WORDS_def)
  have d: "der_uint 128 = [0, 128]" by (simp add: der_uint_def be_min_pos byte_eq_iff)
  have h: "der_header CBS_ASN1_INTEGER (Suc (Suc 0)) = [2, 2]"
    by (simp add: der_header_def der_tag_def tag_no_def tag_class_def CBS_ASN1_INTEGER_def der_len_def byte_eq_iff)
  have m: "bn_mag ?a = 128" by (simp add: bn_mag_def bn_words_def)
  have "can_add zero_malloc (base s)
      (length (der_header CBS_ASN1_INTEGER (length (der_uint (bn_mag ?a))) @ der_uint (bn_mag ?a)))"
    unfolding m using s(2) by (simp add: d h)
  from bn_asn1_roundtrip [OF zero_malloc_sized z a s(1) this i, of "[9]" 128]
  show ?thesis by (auto simp: d h)
qed

end
