(* ===== verification/Md32.thy ===== *)
theory Md32
  imports Bytes
begin

text \<open>
  The collector of fipsmodule/digest/md32_common.h, which cuts a message that arrives in chunks
  into blocks and pads it, and the interface it needs of a block function. The theories of the
  digests interpret the locale \<open>md_block\<close>; what they get is that the chunks do not matter.
\<close>

section \<open>The collector\<close>

text \<open>
  The fields that every digest context has; \<open>md_data\<close> is the partial block, of which \<open>md_num\<close>
  bytes are in use, and \<open>Nh\<close>, \<open>Nl\<close> count the bits. A block function takes the state, data and a
  number of blocks.
\<close>

record md32_ctx =
  md_h :: "u32 list"
  Nl :: u32
  Nh :: u32
  md_data :: "byte list"
  md_num :: nat

type_synonym block_func = "u32 list \<Rightarrow> byte list \<Rightarrow> nat \<Rightarrow> u32 list"

text \<open>The bit count after \<open>len\<close> more bytes.\<close>

definition md32_count :: "'a md32_ctx_scheme \<Rightarrow> nat \<Rightarrow> 'a md32_ctx_scheme" where
  "md32_count c len =
     (let l = Nl c + push_bit 3 (of_nat len);
          nh = (if l < Nl c then Nh c + 1 else Nh c)
      in c\<lparr>Nh := nh + of_nat (len div 2 ^ 29), Nl := l\<rparr>)"

text \<open>Whole blocks of the input, and what is left of it.\<close>

definition md32_blocks :: "block_func \<Rightarrow> nat \<Rightarrow> byte list \<Rightarrow> 'a md32_ctx_scheme \<Rightarrow> 'a md32_ctx_scheme" where
  "md32_blocks block_func block_size inp c =
     (let n = length inp div block_size;
          c1 = (if n > 0 then c\<lparr>md_h := block_func (md_h c) inp n\<rparr> else c);
          rest = drop (n * block_size) inp
      in if rest \<noteq> [] then c1\<lparr>md_num := length rest, md_data := memcpy_at (md_data c1) 0 rest\<rparr> else c1)"

definition crypto_md32_update :: "block_func \<Rightarrow> nat \<Rightarrow> 'a md32_ctx_scheme \<Rightarrow> byte list \<Rightarrow> 'a md32_ctx_scheme" where
  "crypto_md32_update block_func block_size c inp =
     (if inp = [] then c
      else
        let len = length inp;
            c1 = md32_count c len;
            n = md_num c1
        in if n \<noteq> 0 then
             if len \<ge> block_size \<or> len + n \<ge> block_size then
               let data = memcpy_at (md_data c1) n (take (block_size - n) inp);
                   c2 = c1\<lparr>md_data := replicate block_size 0, md_h := block_func (md_h c1) data 1, md_num := 0\<rparr>
               in md32_blocks block_func block_size (drop (block_size - n) inp) c2
             else c1\<lparr>md_data := memcpy_at (md_data c1) n inp, md_num := md_num c1 + len\<rparr>
           else md32_blocks block_func block_size inp c1)"

definition crypto_md32_final :: "block_func \<Rightarrow> nat \<Rightarrow> bool \<Rightarrow> 'a md32_ctx_scheme \<Rightarrow> 'a md32_ctx_scheme" where
  "crypto_md32_final block_func block_size is_big_endian c =
     (let n = md_num c + 1;
          data1 = (md_data c)[md_num c := 0x80];
          (n2, data2, h2) =
            (if n > block_size - 8 then
               let d = memcpy_at data1 n (replicate (block_size - n) 0) in (0, d, block_func (md_h c) d 1)
             else (n, data1, md_h c));
          data3 = memcpy_at data2 n2 (replicate (block_size - 8 - n2) 0);
          data4 =
            (if is_big_endian
             then memcpy_at (memcpy_at data3 (block_size - 8) (CRYPTO_store_u32_be (Nh c)))
                    (block_size - 4) (CRYPTO_store_u32_be (Nl c))
             else memcpy_at (memcpy_at data3 (block_size - 8) (CRYPTO_store_u32_le (Nl c)))
                    (block_size - 4) (CRYPTO_store_u32_le (Nh c)))
      in c\<lparr>md_h := block_func h2 data4 1, md_num := 0, md_data := replicate block_size 0\<rparr>)"

section \<open>Padded messages and their blocks\<close>

function chunks :: "nat \<Rightarrow> byte list \<Rightarrow> byte list list" where
  "chunks k xs = (if k = 0 \<or> length xs < k then [] else take k xs # chunks k (drop k xs))"
  by auto
termination chunks
  by (relation "measure (\<lambda>(k, xs). length xs)") auto

declare chunks.simps [simp del]

lemma chunks_short [simp]: "length xs < k \<Longrightarrow> chunks k xs = []"
  by (simp add: chunks.simps)

lemma chunks_append: "length a = n * k \<Longrightarrow> chunks k (a @ b) = chunks k a @ chunks k b"
proof (induction n arbitrary: a)
  case 0
  then show ?case by (cases k) (simp_all add: chunks.simps)
next
  case (Suc n)
  show ?case
  proof (cases "k = 0")
    case False
    have "chunks k (drop k a @ b) = chunks k (drop k a) @ chunks k b" using Suc.prems by (intro Suc.IH) simp
    then show ?thesis using Suc.prems False chunks.simps [of k "a @ b"] chunks.simps [of k a] by simp
  qed (simp add: chunks.simps)
qed

lemma chunks_one: "0 < k \<Longrightarrow> length a = k \<Longrightarrow> chunks k a = [a]"
  by (simp add: chunks.simps)

lemma chunks_rest: "0 < k \<Longrightarrow> length a = n * k \<Longrightarrow> length b < k \<Longrightarrow> chunks k (a @ b) = chunks k a"
  by (simp add: chunks_append)

text \<open>The message, a one bit, zeros up to a block boundary, and the length in bits, modulo \<open>2 ^ 64\<close>.\<close>

definition md_length :: "bool \<Rightarrow> nat \<Rightarrow> byte list" where
  "md_length big n = (if big then be_bytes 8 n else rev (be_bytes 8 n))"

definition md_pad :: "nat \<Rightarrow> bool \<Rightarrow> byte list \<Rightarrow> byte list" where
  "md_pad bs big msg =
     msg @ 0x80 # replicate ((2 * bs - 9 - length msg mod bs) mod bs) 0 @ md_length big (8 * length msg)"

definition md_digest :: "(u32 list \<Rightarrow> byte list \<Rightarrow> u32 list) \<Rightarrow> nat \<Rightarrow> bool \<Rightarrow> u32 list \<Rightarrow> byte list \<Rightarrow> u32 list" where
  "md_digest compress bs big h msg = foldl compress h (chunks bs (md_pad bs big msg))"

text \<open>A context that holds the state after \<open>msg\<close>, and one that has also counted it.\<close>

definition md_holds :: "(u32 list \<Rightarrow> byte list \<Rightarrow> u32 list) \<Rightarrow> nat \<Rightarrow> u32 list \<Rightarrow> byte list \<Rightarrow> 'a md32_ctx_scheme \<Rightarrow> bool" where
  "md_holds compress bs h0 msg c \<longleftrightarrow>
     md_num c = length msg mod bs \<and>
     md_data c = drop (length msg - length msg mod bs) msg @ replicate (bs - length msg mod bs) 0 \<and>
     md_h c = foldl compress h0 (chunks bs msg)"

definition md_counts :: "nat \<Rightarrow> 'a md32_ctx_scheme \<Rightarrow> bool" where
  "md_counts n c \<longleftrightarrow> (unat (Nh c) * 2 ^ 32 + unat (Nl c)) mod 2 ^ 64 = 8 * n mod 2 ^ 64"

definition md_seen :: "(u32 list \<Rightarrow> byte list \<Rightarrow> u32 list) \<Rightarrow> nat \<Rightarrow> u32 list \<Rightarrow> byte list \<Rightarrow> 'a md32_ctx_scheme \<Rightarrow> bool" where
  "md_seen compress bs h0 msg c \<longleftrightarrow> md_holds compress bs h0 msg c \<and> md_counts (length msg) c"

section \<open>Counting\<close>

lemma md32_count_fields [simp]:
  "md_h (md32_count c n) = md_h c" "md_data (md32_count c n) = md_data c" "md_num (md32_count c n) = md_num c"
  by (simp_all add: md32_count_def Let_def)

lemma high_half: "((x mod 2 ^ 32) * 2 ^ 32 + y) mod 2 ^ 64 = (x * 2 ^ 32 + y) mod (2 ^ 64 :: nat)"
proof -
  have p: "(2 :: nat) ^ 64 = 2 ^ 32 * 2 ^ 32" by simp
  have "x mod 2 ^ 32 * 2 ^ 32 mod 2 ^ 64 = x * 2 ^ 32 mod (2 ^ 64 :: nat)"
    unfolding p mult_mod_left mod_mod_trivial ..
  then show ?thesis by (metis mod_add_left_eq)
qed

lemma counts_append:
  assumes "md_counts n c"
  shows "md_counts (n + len) (md32_count c len)"
proof -
  define q r where "q = len div 2 ^ 29" and "r = 8 * (len mod 2 ^ 29)"
  have len: "8 * len = q * 2 ^ 32 + r" 
  proof -
    have "8 * (len div 2 ^ 29 * 2 ^ 29 + len mod 2 ^ 29) = 8 * len" by (simp only: div_mult_mod_eq)
    moreover have "(2 :: nat) ^ 32 = 8 * 2 ^ 29" by simp
    ultimately show ?thesis unfolding q_def r_def by (simp only: distrib_left ac_simps)
  qed
  have r32: "r < 2 ^ 32" unfolding r_def by simp
  let ?a = "unat (Nl c)"
  define w where "w = (push_bit 3 (of_nat len) :: u32)"
  have w: "unat w = r"
  proof -
    have "w = of_nat (8 * len)" by (simp add: w_def push_bit_eq_mult)
    then have "unat w = 8 * len mod 2 ^ 32" by (simp only: unat_of_nat) simp
    then show ?thesis unfolding len using r32 by simp
  qed
  define k where "k = (if Nl c + w < Nl c then 1 else 0 :: nat)"
  have l: "unat (Nl c + w) + k * 2 ^ 32 = ?a + r"
    using unat_u32_lt [of "Nl c"] r32 unfolding k_def
    by (cases "?a + r < 2 ^ 32") (simp_all add: word_less_nat_alt unat_word_ariths w le_mod_geq)
  have h: "unat (Nh (md32_count c len)) = (unat (Nh c) + k + q) mod 2 ^ 32"
    unfolding md32_count_def Let_def w_def [symmetric] q_def [symmetric] k_def
    by (simp add: unat_word_ariths unat_of_nat mod_simps)
  have e: "(unat (Nh c) + k + q) * 2 ^ 32 + unat (Nl c + w) = unat (Nh c) * 2 ^ 32 + ?a + 8 * len"
    using l len by (simp add: algebra_simps)
  have nl: "Nl (md32_count c len) = Nl c + w" by (simp add: md32_count_def Let_def w_def)
  have "(unat (Nh (md32_count c len)) * 2 ^ 32 + unat (Nl (md32_count c len))) mod 2 ^ 64 =
      (unat (Nh c) * 2 ^ 32 + ?a + 8 * len) mod 2 ^ 64"
    unfolding h nl high_half e ..
  also have "\<dots> = (8 * n + 8 * len) mod 2 ^ 64" using assms unfolding md_counts_def by (metis mod_add_left_eq)
  finally show ?thesis by (simp add: md_counts_def)
qed

lemma be_bytes_mod_eq: "m mod 256 ^ k = n mod 256 ^ k \<Longrightarrow> be_bytes k m = be_bytes k n"
  by (metis be_bytes_mod)

lemma counted_length:
  assumes "md_counts n c"
  shows "be_bytes 4 (unat (Nh c)) @ be_bytes 4 (unat (Nl c)) = be_bytes 8 (8 * n)"
proof -
  let ?b = "be_bytes 4 (unat (Nh c)) @ be_bytes 4 (unat (Nl c))"
  have "be_val ?b = unat (Nh c) * 2 ^ 32 + unat (Nl c)"
    using unat_u32_lt [of "Nh c"] unat_u32_lt [of "Nl c"] by (simp add: be_val_append be_val_be_bytes)
  moreover have "be_bytes 8 (be_val ?b) = ?b" by (intro be_bytes_unique) simp
  ultimately have "?b = be_bytes 8 (unat (Nh c) * 2 ^ 32 + unat (Nl c))" by simp
  also have "\<dots> = be_bytes 8 (8 * n)" using assms by (intro be_bytes_mod_eq) (simp add: md_counts_def)
  finally show ?thesis .
qed

section \<open>What a block function promises\<close>

locale md_block =
  fixes bf :: block_func and compress :: "u32 list \<Rightarrow> byte list \<Rightarrow> u32 list" and bs :: nat
  assumes bs: "9 \<le> bs"
    and blocks: "0 < n \<Longrightarrow> n * bs \<le> length d \<Longrightarrow> bf h d n = foldl compress h (chunks bs (take (n * bs) d))"
begin

lemma one_block: "length d = bs \<Longrightarrow> bf h d (Suc 0) = compress h d"
  using blocks [of 1 d h] bs by (simp add: chunks_one)

lemma split_at_block:
  obtains a b where "msg = a @ b" "length a = (length msg div bs) * bs" "length b = length msg mod bs"
proof (rule that)
  show "msg = take (length msg div bs * bs) msg @ drop (length msg div bs * bs) msg" by simp
  show "length (take (length msg div bs * bs) msg) = length msg div bs * bs"
    by (simp only: length_take min_absorb2 [OF div_times_less_eq_dividend])
  show "length (drop (length msg div bs * bs) msg) = length msg mod bs"
    by (simp only: length_drop minus_div_mult_eq_mod)
qed

lemma holds_iff:
  assumes "length a = n * bs" and "length b < bs"
  shows "md_holds compress bs h0 (a @ b) c \<longleftrightarrow>
    md_num c = length b \<and> md_data c = b @ replicate (bs - length b) 0 \<and> md_h c = foldl compress h0 (chunks bs a)"
proof -
  have "length (a @ b) mod bs = length b" using assms by simp
  then show ?thesis using bs chunks_rest [OF _ assms] assms(1) by (simp add: md_holds_def)
qed

lemma blocks_holds:
  assumes "md_holds compress bs h0 a c" and a: "length a = n * bs"
  shows "md_holds compress bs h0 (a @ inp) (md32_blocks bf bs inp c)"
proof -
  obtain x y where xy: "inp = x @ y" "length x = (length inp div bs) * bs" "length y = length inp mod bs"
    by (rule split_at_block [of inp])
  define m where "m = length inp div bs"
  have y: "length y < bs" using xy(3) bs by simp
  have c: "md_num c = 0" "md_data c = replicate bs 0" "md_h c = foldl compress h0 (chunks bs a)"
    using assms(1) holds_iff [OF a, of "[]" h0 c] bs by simp_all
  have xm: "length x = m * bs" using xy(2) by (simp only: m_def)
  have d: "drop (m * bs) inp = y" "take (m * bs) inp = x" using xm xy(1) by simp_all
  have h: "(if m > 0 then bf (md_h c) inp m else md_h c) = foldl compress h0 (chunks bs (a @ x))"
  proof (cases "m = 0")
    case True
    then have "x = []" using xm by simp
    then show ?thesis using True c(3) by simp
  next
    case False
    then have "bf (md_h c) inp m = foldl compress (md_h c) (chunks bs x)" using blocks [of m inp "md_h c"] d(2) by (simp add: m_def)
    then show ?thesis using False by (simp add: chunks_append [OF a] c(3))
  qed
  have ax: "length (a @ x) = (n + m) * bs" using a xm by (simp add: algebra_simps)
  have "md_num (md32_blocks bf bs inp c) = length y"
    "md_data (md32_blocks bf bs inp c) = y @ replicate (bs - length y) 0"
    "md_h (md32_blocks bf bs inp c) = foldl compress h0 (chunks bs (a @ x))"
    using c(1,2) y h unfolding md32_blocks_def m_def [symmetric] Let_def d
    by (auto simp: memcpy_at_def)
  then show ?thesis using holds_iff [OF ax y, of h0 "md32_blocks bf bs inp c"] xy(1) by simp
qed

lemma blocks_count [simp]: "Nh (md32_blocks bf bs inp c) = Nh c" "Nl (md32_blocks bf bs inp c) = Nl c"
  by (simp_all add: md32_blocks_def Let_def)

lemma counts_cong: "Nh c' = Nh c \<Longrightarrow> Nl c' = Nl c \<Longrightarrow> md_counts n c' \<longleftrightarrow> md_counts n c"
  by (simp add: md_counts_def)

text \<open>An update sees the input after what it has seen.\<close>

lemma update_seen:
  assumes "md_seen compress bs h0 msg c"
  shows "md_seen compress bs h0 (msg @ inp) (crypto_md32_update bf bs c inp)"
proof (cases "inp = []")
  case False
  obtain a b where ab: "msg = a @ b" "length a = (length msg div bs) * bs" "length b = length msg mod bs"
    by (rule split_at_block)
  have b: "length b < bs" using ab(3) bs by simp
  define c1 where "c1 = md32_count c (length inp)"
  have n: "md_counts (length (msg @ inp)) c1"
    using assms counts_append [of "length msg" c "length inp"] by (simp add: md_seen_def c1_def)
  have c1: "md_num c1 = length b" "md_data c1 = b @ replicate (bs - length b) 0" "md_h c1 = foldl compress h0 (chunks bs a)"
    using assms holds_iff [OF ab(2) b, of h0 c] ab(1) by (simp_all add: md_seen_def c1_def)
  show ?thesis
  proof (cases "length b = 0")
    case True
    then have "md_holds compress bs h0 a c1" using c1 holds_iff [OF ab(2), of "[]" h0 c1] bs by simp
    from blocks_holds [OF this ab(2), of inp] show ?thesis
      using True n False ab(1) c1(1) unfolding crypto_md32_update_def Let_def c1_def [symmetric]
      by (simp add: md_seen_def counts_cong [of "md32_blocks bf bs inp c1" c1])
  next
    case nb: False
    show ?thesis
    proof (cases "length inp + length b < bs")
      case True
      let ?c2 = "c1\<lparr>md_data := memcpy_at (md_data c1) (length b) inp, md_num := length b + length inp\<rparr>"
      have "crypto_md32_update bf bs c inp = ?c2"
        using True False nb c1(1) unfolding crypto_md32_update_def Let_def c1_def [symmetric] by simp
      moreover have "md_holds compress bs h0 (a @ b @ inp) ?c2"
        using True c1 holds_iff [OF ab(2), of "b @ inp" h0 ?c2] by (simp add: memcpy_at_def)
      ultimately show ?thesis using n ab(1) by (simp add: md_seen_def counts_cong [of ?c2 c1])
    next
      case full: False
      let ?k = "bs - length b"
      let ?d = "b @ take ?k inp"
      let ?c2 = "c1\<lparr>md_data := replicate bs 0, md_h := bf (md_h c1) ?d (Suc 0), md_num := 0\<rparr>"
      have d: "length ?d = bs" using full b by simp
      have m: "memcpy_at (md_data c1) (length b) (take ?k inp) = ?d" using full b by (simp add: c1 memcpy_at_def)
      have u: "crypto_md32_update bf bs c inp = md32_blocks bf bs (drop ?k inp) ?c2"
        using full False nb c1(1) unfolding crypto_md32_update_def Let_def c1_def [symmetric] by (simp add: m)
      have ad: "length (a @ ?d) = (length msg div bs + 1) * bs" using ab(2) d by (simp del: length_append add: length_append [of a])
      have "md_holds compress bs h0 (a @ ?d) ?c2"
        using holds_iff [OF ad, of "[]" h0 ?c2] bs chunks_append [OF ab(2), of ?d] d
        by (simp add: one_block [OF d] chunks_one c1(3))
      from blocks_holds [OF this ad, of "drop ?k inp"]
      have "md_holds compress bs h0 (msg @ inp) (md32_blocks bf bs (drop ?k inp) ?c2)" by (simp add: ab(1))
      then show ?thesis using n by (simp add: md_seen_def u counts_cong [where c' = "md32_blocks bf bs (drop ?k inp) ?c2" and c = c1])
    qed
  qed
qed (use assms in \<open>simp add: crypto_md32_update_def\<close>)

lemma updates_seen:
  "md_seen compress bs h0 msg c \<Longrightarrow>
    md_seen compress bs h0 (msg @ concat xs) (foldl (crypto_md32_update bf bs) c xs)"
proof (induction xs arbitrary: c msg)
  case (Cons x xs)
  from Cons.IH [OF update_seen [OF Cons.prems, of x]] show ?case by simp
qed simp

text \<open>The final blocks are those of the padding.\<close>

lemma final_digest:
  assumes "md_seen compress bs h0 msg c"
  shows "md_h (crypto_md32_final bf bs big c) = md_digest compress bs big h0 msg"
proof -
  obtain a b where ab: "msg = a @ b" "length a = (length msg div bs) * bs" "length b = length msg mod bs"
    by (rule split_at_block)
  define l where "l = length b"
  have l: "l < bs" using ab(3) bs by (simp add: l_def)
  define len8 where "len8 = md_length big (8 * length msg)"
  have len8: "length len8 = 8" by (simp add: len8_def md_length_def)
  have c: "md_num c = l" "md_data c = b @ replicate (bs - l) 0" "md_h c = foldl compress h0 (chunks bs a)"
    using assms holds_iff [OF ab(2), of b h0 c] ab(1) l by (simp_all add: md_seen_def l_def)
  have n: "be_bytes 4 (unat (Nh c)) @ be_bytes 4 (unat (Nl c)) = be_bytes 8 (8 * length msg)"
    using assms by (intro counted_length) (simp add: md_seen_def)
  have store: "(if big then memcpy_at (memcpy_at d (bs - 8) (CRYPTO_store_u32_be (Nh c))) (bs - 4) (CRYPTO_store_u32_be (Nl c))
      else memcpy_at (memcpy_at d (bs - 8) (CRYPTO_store_u32_le (Nl c))) (bs - 4) (CRYPTO_store_u32_le (Nh c))) =
      take (bs - 8) d @ len8" if "length d = bs" for d
    using that bs n unfolding len8_def md_length_def
    by (cases big) (simp_all add: memcpy_at_def store_u32_be store_u32_le flip: rev_append)
  have data1: "(md_data c)[l := 0x80] = b @ 0x80 # replicate (bs - l - 1) 0"
    using l by (cases "bs - l") (simp_all add: c l_def list_update_append)
  define z where "z = (2 * bs - 9 - length msg mod bs) mod bs"
  have pad: "md_pad bs big msg = a @ b @ 0x80 # replicate z 0 @ len8"
    by (simp add: md_pad_def ab(1) z_def len8_def)
  have D: "md_digest compress bs big h0 msg = foldl compress (md_h c) (chunks bs (b @ 0x80 # replicate z 0 @ len8))"
    unfolding md_digest_def pad chunks_append [OF ab(2)] by (simp add: c(3))
  show ?thesis
  proof (cases "l + 1 > bs - 8")
    case True
    have "2 * bs - 9 - l = (bs - l - 1) + (bs - 8)" "2 * bs - 9 - l < bs" using True l bs by linarith+
    then have z: "z = (bs - l - 1) + (bs - 8)" by (simp add: z_def l_def flip: ab(3))
    let ?d = "b @ 0x80 # replicate (bs - Suc l) 0"
    have d: "length ?d = 1 * bs" using l by (simp add: l_def)
    have m: "memcpy_at ?d (Suc l) (replicate (bs - Suc l) 0) = ?d" using l by (simp add: memcpy_at_def l_def)
    have m2: "take (bs - 8) (memcpy_at ?d 0 (replicate (bs - 8) 0)) = replicate (bs - 8) 0"
      "length (memcpy_at ?d 0 (replicate (bs - 8) 0)) = bs" using d by (simp_all add: memcpy_at_def)
    have "chunks bs (b @ 0x80 # replicate z 0 @ len8) = [?d, replicate (bs - 8) 0 @ len8]"
      using chunks_append [OF d, of "replicate (bs - 8) 0 @ len8"] d bs len8 unfolding z replicate_add
      by (simp add: chunks_one)
    then show ?thesis unfolding D crypto_md32_final_def Let_def c(1) data1
      using True d bs len8 store [OF m2(2)] by (cases big) (simp_all add: m m2(1) one_block)
  next
    case False
    have "2 * bs - 9 - l = bs - 8 - (l + 1) + bs" "bs - 8 - (l + 1) < bs" using False l bs by linarith+
    then have z: "z = bs - 8 - (l + 1)" unfolding z_def by (metis ab(3) l_def mod_add_self2 mod_less)
    let ?d = "memcpy_at (b @ 0x80 # replicate (bs - l - 1) 0) (l + 1) (replicate (bs - 8 - (l + 1)) 0)"
    have e: "bs - l - 1 = z + 8" "bs - 8 = l + 1 + z" "l + 1 + z - (l + 1) = z" "l + 1 + z + 8 = bs"
      using False l unfolding z by linarith+
    have d: "take (bs - 8) ?d = b @ 0x80 # replicate z 0" "length ?d = bs"
      using e(4) unfolding memcpy_at_def e(1-3) replicate_add by (simp_all add: l_def)
    have w: "length (b @ 0x80 # replicate z 0 @ len8) = bs" using False bs by (simp add: z len8 l_def)
    then show ?thesis unfolding D crypto_md32_final_def Let_def c(1) data1
      using False bs store [OF d(2), unfolded d(1)] by (cases big) (simp_all add: one_block chunks_one)
  qed
qed

end

text \<open>A fresh context, which \<open>memset\<close> has cleared, has seen nothing.\<close>

lemma md_seen_init:
  "0 < bs \<Longrightarrow> md_h c = h0 \<Longrightarrow> Nl c = 0 \<Longrightarrow> Nh c = 0 \<Longrightarrow> md_data c = replicate bs 0 \<Longrightarrow> md_num c = 0 \<Longrightarrow>
    md_seen compress bs h0 [] c"
  by (simp add: md_seen_def md_holds_def md_counts_def)

section \<open>The ring of message words\<close>

text \<open>The block functions keep the last sixteen words of the message schedule \<open>W\<close> before round \<open>i\<close>.\<close>

definition word_ring :: "(nat \<Rightarrow> u32) \<Rightarrow> nat \<Rightarrow> u32 list \<Rightarrow> bool" where
  "word_ring W i X \<longleftrightarrow> length X = 16 \<and> (\<forall>j<16. X ! ((i + j) mod 16) = W (i + j - 16))"

lemma word_ring_update:
  assumes "word_ring W i X" and "16 \<le> i"
  shows "word_ring W (i + 1) (X[i mod 16 := W i])"
  unfolding word_ring_def
proof (intro conjI allI impI)
  show "length (X[i mod 16 := W i]) = 16" using assms by (simp add: word_ring_def)
  fix j :: nat assume j: "j < 16"
  show "X[i mod 16 := W i] ! ((i + 1 + j) mod 16) = W (i + 1 + j - 16)"
  proof (cases "j = 15")
    case True
    then have "(i + 1 + j) mod 16 = i mod 16" by simp
    then show ?thesis using assms True by (simp add: word_ring_def)
  next
    case False
    then have "(i + (1 + j)) mod 16 \<noteq> i mod 16"
      using j mod_eq_dvd_iff_nat [of i "i + (1 + j)" 16] by (auto dest: dvd_imp_le)
    moreover have "X ! ((i + (1 + j)) mod 16) = W (i + (1 + j) - 16)" using assms(1) j False unfolding word_ring_def by (elim conjE allE [of _ "1 + j"]) simp
    ultimately show ?thesis using assms(1) unfolding word_ring_def add.assoc by simp
  qed
qed

end
