(* ===== verification/Sha256.thy ===== *)
theory Sha256
  imports Md32
begin

text \<open>
  SHA-224 and SHA-256 (fipsmodule/sha/sha256.c) with the portable block function, and the
  standard's own description of a block (FIPS 180-4, sections 4.1.2 and 6.2.2), which it is
  shown to compute. The assembly variants of the block function are not C code.
\<close>

section \<open>The code\<close>

subsection \<open>Rounds\<close>

text \<open>Rotations by 1 to 31 bits, as crypto/internal.h writes them.\<close>

definition CRYPTO_rotl_u32 :: "u32 \<Rightarrow> nat \<Rightarrow> u32" where
  "CRYPTO_rotl_u32 value shift = push_bit shift value OR drop_bit ((32 - shift) mod 32) value"

definition CRYPTO_rotr_u32 :: "u32 \<Rightarrow> nat \<Rightarrow> u32" where
  "CRYPTO_rotr_u32 value shift = drop_bit shift value OR push_bit ((32 - shift) mod 32) value"

definition K256 :: "u32 list" where
  "K256 = concat [
    [0x428a2f98, 0x71374491, 0xb5c0fbcf, 0xe9b5dba5, 0x3956c25b],
    [0x59f111f1, 0x923f82a4, 0xab1c5ed5, 0xd807aa98, 0x12835b01],
    [0x243185be, 0x550c7dc3, 0x72be5d74, 0x80deb1fe, 0x9bdc06a7],
    [0xc19bf174, 0xe49b69c1, 0xefbe4786, 0x0fc19dc6, 0x240ca1cc],
    [0x2de92c6f, 0x4a7484aa, 0x5cb0a9dc, 0x76f988da, 0x983e5152],
    [0xa831c66d, 0xb00327c8, 0xbf597fc7, 0xc6e00bf3, 0xd5a79147],
    [0x06ca6351, 0x14292967, 0x27b70a85, 0x2e1b2138, 0x4d2c6dfc],
    [0x53380d13, 0x650a7354, 0x766a0abb, 0x81c2c92e, 0x92722c85],
    [0xa2bfe8a1, 0xa81a664b, 0xc24b8b70, 0xc76c51a3, 0xd192e819],
    [0xd6990624, 0xf40e3585, 0x106aa070, 0x19a4c116, 0x1e376c08],
    [0x2748774c, 0x34b0bcb5, 0x391c0cb3, 0x4ed8aa4a, 0x5b9cca4f],
    [0x682e6ff3, 0x748f82ee, 0x78a5636f, 0x84c87814, 0x8cc70208],
    [0x90befffa, 0xa4506ceb, 0xbef9a3f7, 0xc67178f2]]"

definition Sigma0 :: "u32 \<Rightarrow> u32" where
  "Sigma0 x = CRYPTO_rotr_u32 x 2 XOR CRYPTO_rotr_u32 x 13 XOR CRYPTO_rotr_u32 x 22"

definition Sigma1 :: "u32 \<Rightarrow> u32" where
  "Sigma1 x = CRYPTO_rotr_u32 x 6 XOR CRYPTO_rotr_u32 x 11 XOR CRYPTO_rotr_u32 x 25"

definition sigma0 :: "u32 \<Rightarrow> u32" where
  "sigma0 x = CRYPTO_rotr_u32 x 7 XOR CRYPTO_rotr_u32 x 18 XOR drop_bit 3 x"

definition sigma1 :: "u32 \<Rightarrow> u32" where
  "sigma1 x = CRYPTO_rotr_u32 x 17 XOR CRYPTO_rotr_u32 x 19 XOR drop_bit 10 x"

definition Ch :: "u32 \<Rightarrow> u32 \<Rightarrow> u32 \<Rightarrow> u32" where
  "Ch x y z = (x AND y) XOR (NOT x AND z)"

definition Maj :: "u32 \<Rightarrow> u32 \<Rightarrow> u32 \<Rightarrow> u32" where
  "Maj x y z = (x AND y) XOR (x AND z) XOR (y AND z)"

text \<open>The macros assign to \<open>d\<close> and \<open>h\<close>, the second one also to the ring of message words.\<close>

definition ROUND_00_15 ::
  "nat \<Rightarrow> u32 \<Rightarrow> u32 \<Rightarrow> u32 \<Rightarrow> u32 \<Rightarrow> u32 \<Rightarrow> u32 \<Rightarrow> u32 \<Rightarrow> u32 \<Rightarrow> u32 \<Rightarrow> u32 \<times> u32" where
  "ROUND_00_15 i T1 a b c d e f g h =
     (let T1 = T1 + (h + Sigma1 e + Ch e f g + K256 ! i);
          h = Sigma0 a + Maj a b c;
          d = d + T1;
          h = h + T1
      in (d, h))"

definition ROUND_16_63 ::
  "nat \<Rightarrow> u32 \<Rightarrow> u32 \<Rightarrow> u32 \<Rightarrow> u32 \<Rightarrow> u32 \<Rightarrow> u32 \<Rightarrow> u32 \<Rightarrow> u32 \<Rightarrow> u32 list \<Rightarrow> u32 \<times> u32 \<times> u32 list" where
  "ROUND_16_63 i a b c d e f g h X =
     (let s0 = sigma0 (X ! ((i + 1) mod 16));
          s1 = sigma1 (X ! ((i + 14) mod 16));
          T1 = X ! (i mod 16) + (s0 + s1 + X ! ((i + 9) mod 16));
          (d', h') = ROUND_00_15 i T1 a b c d e f g h
      in (d', h', X[i mod 16 := T1]))"

type_synonym regs8 = "u32 \<times> u32 \<times> u32 \<times> u32 \<times> u32 \<times> u32 \<times> u32 \<times> u32"

subsection \<open>Blocks\<close>

definition sha256_first_rounds :: "u32 list \<Rightarrow> regs8 \<Rightarrow> regs8" where
  "sha256_first_rounds X s =
     (case s of (a, b, c, d, e, f, g, h) \<Rightarrow>
      let (d, h) = ROUND_00_15 0 (X ! 0) a b c d e f g h;
          (c, g) = ROUND_00_15 1 (X ! 1) h a b c d e f g;
          (b, f) = ROUND_00_15 2 (X ! 2) g h a b c d e f;
          (a, e) = ROUND_00_15 3 (X ! 3) f g h a b c d e;
          (h, d) = ROUND_00_15 4 (X ! 4) e f g h a b c d;
          (g, c) = ROUND_00_15 5 (X ! 5) d e f g h a b c;
          (f, b) = ROUND_00_15 6 (X ! 6) c d e f g h a b;
          (e, a) = ROUND_00_15 7 (X ! 7) b c d e f g h a;
          (d, h) = ROUND_00_15 8 (X ! 8) a b c d e f g h;
          (c, g) = ROUND_00_15 9 (X ! 9) h a b c d e f g;
          (b, f) = ROUND_00_15 10 (X ! 10) g h a b c d e f;
          (a, e) = ROUND_00_15 11 (X ! 11) f g h a b c d e;
          (h, d) = ROUND_00_15 12 (X ! 12) e f g h a b c d;
          (g, c) = ROUND_00_15 13 (X ! 13) d e f g h a b c;
          (f, b) = ROUND_00_15 14 (X ! 14) c d e f g h a b;
          (e, a) = ROUND_00_15 15 (X ! 15) b c d e f g h a
      in (a, b, c, d, e, f, g, h))"

definition sha256_eight_rounds :: "nat \<Rightarrow> regs8 \<Rightarrow> u32 list \<Rightarrow> regs8 \<times> u32 list" where
  "sha256_eight_rounds i s X =
     (case s of (a, b, c, d, e, f, g, h) \<Rightarrow>
      let (d, h, X) = ROUND_16_63 (i + 0) a b c d e f g h X;
          (c, g, X) = ROUND_16_63 (i + 1) h a b c d e f g X;
          (b, f, X) = ROUND_16_63 (i + 2) g h a b c d e f X;
          (a, e, X) = ROUND_16_63 (i + 3) f g h a b c d e X;
          (h, d, X) = ROUND_16_63 (i + 4) e f g h a b c d X;
          (g, c, X) = ROUND_16_63 (i + 5) d e f g h a b c X;
          (f, b, X) = ROUND_16_63 (i + 6) c d e f g h a b X;
          (e, a, X) = ROUND_16_63 (i + 7) b c d e f g h a X
      in ((a, b, c, d, e, f, g, h), X))"

function sha256_rounds_loop :: "nat \<Rightarrow> regs8 \<Rightarrow> u32 list \<Rightarrow> regs8" where
  "sha256_rounds_loop i s X =
     (if i < 64 then case sha256_eight_rounds i s X of (s', X') \<Rightarrow> sha256_rounds_loop (i + 8) s' X' else s)"
  by auto
termination sha256_rounds_loop
  by (relation "measure (\<lambda>(i, s, X). 64 - i)") auto

declare sha256_rounds_loop.simps [simp del]

text \<open>The body of the loop over blocks.\<close>

definition sha256_block :: "u32 list \<Rightarrow> byte list \<Rightarrow> u32 list" where
  "sha256_block state data =
     (let X = map (\<lambda>i. CRYPTO_load_u32_be (drop (4 * i) data)) [0..<16];
          s = (state ! 0, state ! 1, state ! 2, state ! 3, state ! 4, state ! 5, state ! 6, state ! 7);
          (a, b, c, d, e, f, g, h) = sha256_rounds_loop 16 (sha256_first_rounds X s) X
      in [state ! 0 + a, state ! 1 + b, state ! 2 + c, state ! 3 + d,
          state ! 4 + e, state ! 5 + f, state ! 6 + g, state ! 7 + h])"

fun sha256_block_data_order_nohw :: "u32 list \<Rightarrow> byte list \<Rightarrow> nat \<Rightarrow> u32 list" where
  "sha256_block_data_order_nohw state data 0 = state"
| "sha256_block_data_order_nohw state data (Suc num) =
     sha256_block_data_order_nohw (sha256_block state data) (drop 64 data) num"

subsection \<open>Contexts\<close>

record sha256_ctx = md32_ctx +
  md_len :: nat

definition SHA224_Init :: sha256_ctx where
  "SHA224_Init =
     \<lparr>md_h = [0xc1059ed8, 0x367cd507, 0x3070dd17, 0xf70e5939, 0xffc00b31, 0x68581511, 0x64f98fa7, 0xbefa4fa4],
      Nl = 0, Nh = 0, md_data = replicate 64 0, md_num = 0, md_len = 28\<rparr>"

definition SHA256_Init :: sha256_ctx where
  "SHA256_Init =
     \<lparr>md_h = [0x6a09e667, 0xbb67ae85, 0x3c6ef372, 0xa54ff53a, 0x510e527f, 0x9b05688c, 0x1f83d9ab, 0x5be0cd19],
      Nl = 0, Nh = 0, md_data = replicate 64 0, md_num = 0, md_len = 32\<rparr>"

definition SHA256_Transform :: "sha256_ctx \<Rightarrow> byte list \<Rightarrow> sha256_ctx" where
  "SHA256_Transform c data = c\<lparr>md_h := sha256_block_data_order_nohw (md_h c) data 1\<rparr>"

definition SHA256_Update :: "sha256_ctx \<Rightarrow> byte list \<Rightarrow> sha256_ctx" where
  "SHA256_Update = crypto_md32_update sha256_block_data_order_nohw 64"

definition SHA224_Update :: "sha256_ctx \<Rightarrow> byte list \<Rightarrow> sha256_ctx" where
  "SHA224_Update = SHA256_Update"

text \<open>The output, or nothing for an impossible length, and the context left behind.\<close>

definition sha256_final_impl :: "nat \<Rightarrow> sha256_ctx \<Rightarrow> byte list option \<times> sha256_ctx" where
  "sha256_final_impl len c =
     (let c' = crypto_md32_final sha256_block_data_order_nohw 64 True c
      in if len > 32 then (None, c')
         else (Some (concat (map (\<lambda>i. CRYPTO_store_u32_be (md_h c' ! i)) [0..<len div 4])), c'))"

definition SHA256_Final :: "sha256_ctx \<Rightarrow> byte list option \<times> sha256_ctx" where
  "SHA256_Final c = sha256_final_impl (md_len c) c"

definition SHA224_Final :: "sha256_ctx \<Rightarrow> byte list option \<times> sha256_ctx" where
  "SHA224_Final c = sha256_final_impl 28 c"

definition SHA224 :: "byte list \<Rightarrow> byte list option" where
  "SHA224 data = fst (SHA224_Final (SHA224_Update SHA224_Init data))"

definition SHA256 :: "byte list \<Rightarrow> byte list option" where
  "SHA256 data = fst (SHA256_Final (SHA256_Update SHA256_Init data))"

definition SHA256_TransformBlocks :: "u32 list \<Rightarrow> byte list \<Rightarrow> nat \<Rightarrow> u32 list" where
  "SHA256_TransformBlocks state data num_blocks = sha256_block_data_order_nohw state data num_blocks"

section \<open>The standard\<close>

text \<open>
  Rotation is \<open>word_rotr\<close>; a round takes the working variables, the constant and the message
  word; the schedule is defined for every index.
\<close>

fun fips256_W :: "byte list \<Rightarrow> nat \<Rightarrow> u32" where
  "fips256_W M t =
     (if t < 16 then of_nat (be_val (take 4 (drop (4 * t) M)))
      else (word_rotr 17 (fips256_W M (t - 2)) XOR word_rotr 19 (fips256_W M (t - 2)) XOR drop_bit 10 (fips256_W M (t - 2)))
         + fips256_W M (t - 7)
         + (word_rotr 7 (fips256_W M (t - 15)) XOR word_rotr 18 (fips256_W M (t - 15)) XOR drop_bit 3 (fips256_W M (t - 15)))
         + fips256_W M (t - 16))"

declare fips256_W.simps [simp del]

definition fips256_round :: "u32 \<Rightarrow> u32 \<Rightarrow> regs8 \<Rightarrow> regs8" where
  "fips256_round K W s =
     (case s of (a, b, c, d, e, f, g, h) \<Rightarrow>
      let T1 = h + (word_rotr 6 e XOR word_rotr 11 e XOR word_rotr 25 e) + ((e AND f) XOR (NOT e AND g)) + K + W;
          T2 = (word_rotr 2 a XOR word_rotr 13 a XOR word_rotr 22 a) + ((a AND b) XOR (a AND c) XOR (b AND c))
      in (T1 + T2, a, b, c, d + T1, e, f, g))"

definition fips256_compress :: "u32 list \<Rightarrow> byte list \<Rightarrow> u32 list" where
  "fips256_compress H M =
     (let (a, b, c, d, e, f, g, h) =
        foldl (\<lambda>s t. fips256_round (K256 ! t) (fips256_W M t) s)
          (H ! 0, H ! 1, H ! 2, H ! 3, H ! 4, H ! 5, H ! 6, H ! 7) [0..<64]
      in [a + H ! 0, b + H ! 1, c + H ! 2, d + H ! 3, e + H ! 4, f + H ! 5, g + H ! 6, h + H ! 7])"

section \<open>The code computes the standard's blocks\<close>

lemma rotr: "0 < n \<Longrightarrow> n < 32 \<Longrightarrow> CRYPTO_rotr_u32 x n = word_rotr n x"
  by (rule bit_word_eqI)
    (auto simp: CRYPTO_rotr_u32_def bit_or_iff bit_drop_bit_eq bit_push_bit_iff bit_word_rotr_iff mod_if add.commute [of n]
      dest: bit_imp_le_length)

lemma rotl: "0 < n \<Longrightarrow> n < 32 \<Longrightarrow> CRYPTO_rotl_u32 x n = word_rotl n x"
  by (rule bit_word_eqI)
    (auto simp: CRYPTO_rotl_u32_def bit_or_iff bit_drop_bit_eq bit_push_bit_iff bit_word_rotl_iff mod_if add.commute [of 32]
      dest: bit_imp_le_length)

definition code_round :: "nat \<Rightarrow> u32 \<Rightarrow> regs8 \<Rightarrow> regs8" where
  "code_round i w s =
     (case s of (a, b, c, d, e, f, g, h) \<Rightarrow>
      case ROUND_00_15 i w a b c d e f g h of (d', h') \<Rightarrow> (h', a, b, c, d', e, f, g))"

lemma code_round: "code_round i w s = fips256_round (K256 ! i) w s"
  by (simp add: code_round_def fips256_round_def ROUND_00_15_def Let_def Sigma0_def Sigma1_def Ch_def Maj_def rotr
      add_ac split: prod.split)

definition code_step :: "nat \<Rightarrow> regs8 \<times> u32 list \<Rightarrow> regs8 \<times> u32 list" where
  "code_step i sX =
     (case sX of ((a, b, c, d, e, f, g, h), X) \<Rightarrow>
      case ROUND_16_63 i a b c d e f g h X of (d', h', X') \<Rightarrow> ((h', a, b, c, d', e, f, g), X'))"

text \<open>The unrolled code renames its variables instead of moving them.\<close>

lemma first_rounds: "sha256_first_rounds X s = foldl (\<lambda>s i. code_round i (X ! i) s) s [0..<16]"
proof -
  have u: "[0..<16] = [0, 1, 2, 3, 4, 5, 6, 7, 8, 9, 10, 11, 12, 13, 14, 15 :: nat]" by code_simp
  show ?thesis unfolding u foldl.simps
    by (cases s) (simp add: sha256_first_rounds_def code_round_def Let_def split: prod.split)
qed

lemma eight_rounds: "sha256_eight_rounds i s X = foldl (\<lambda>sX k. code_step k sX) (s, X) [i..<i + 8]"
proof -
  have u: "[i..<i + 8] = [i + 0, i + 1, i + 2, i + 3, i + 4, i + 5, i + 6, i + 7]" by (simp add: upt_conv_Cons)
  show ?thesis unfolding u foldl.simps
    by (cases s) (simp only: sha256_eight_rounds_def code_step_def Let_def prod.case split: prod.split, simp)
qed

lemma code_step:
  assumes "word_ring (fips256_W M) i X" and "16 \<le> i"
  shows "code_step i (s, X) = (fips256_round (K256 ! i) (fips256_W M i) s, X[i mod 16 := fips256_W M i])"
proof -
  have x: "X ! ((i + j) mod 16) = fips256_W M (i + j - 16)" if "j < 16" for j
    using assms(1) that unfolding word_ring_def by blast
  have j: "i + 0 - 16 = i - 16" "i + 1 - 16 = i - 15" "i + 9 - 16 = i - 7" "i + 14 - 16 = i - 2"
    using assms(2) by simp_all
  have w: "X ! (i mod 16) = fips256_W M (i - 16)" "X ! ((i + 1) mod 16) = fips256_W M (i - 15)"
    "X ! ((i + 9) mod 16) = fips256_W M (i - 7)" "X ! ((i + 14) mod 16) = fips256_W M (i - 2)"
    using x [of 0] x [of 1] x [of 9] x [of 14] unfolding j by simp_all
  have "\<not> i < 16" using assms(2) by simp
  then have F: "fips256_W M i = sigma1 (fips256_W M (i - 2)) + fips256_W M (i - 7) + sigma0 (fips256_W M (i - 15)) +
      fips256_W M (i - 16)"
    by (subst fips256_W.simps) (simp add: sigma0_def sigma1_def rotr)
  have "fips256_W M i = X ! (i mod 16) +
      (sigma0 (X ! ((i + 1) mod 16)) + sigma1 (X ! ((i + 14) mod 16)) + X ! ((i + 9) mod 16))"
    unfolding F w by (simp add: add_ac)
  then show ?thesis unfolding code_step_def ROUND_16_63_def Let_def code_round [symmetric] code_round_def
    by (simp split: prod.split)
qed

lemma code_steps:
  "word_ring (fips256_W M) i X \<Longrightarrow> 16 \<le> i \<Longrightarrow>
    \<exists>X'. foldl (\<lambda>sX k. code_step k sX) (s, X) [i..<i + n] =
      (foldl (\<lambda>s t. fips256_round (K256 ! t) (fips256_W M t) s) s [i..<i + n], X') \<and> word_ring (fips256_W M) (i + n) X'"
proof (induction n)
  case (Suc n)
  then obtain X' where X': "foldl (\<lambda>sX k. code_step k sX) (s, X) [i..<i + n] =
      (foldl (\<lambda>s t. fips256_round (K256 ! t) (fips256_W M t) s) s [i..<i + n], X')" "word_ring (fips256_W M) (i + n) X'"
    by blast
  have "16 \<le> i + n" using Suc.prems(2) by simp
  from code_step [OF X'(2) this] word_ring_update [OF X'(2) this] show ?case using X'(1) by simp
qed simp

lemma rounds_loop:
  "word_ring (fips256_W M) i X \<Longrightarrow> 16 \<le> i \<Longrightarrow> i + 8 * n = 64 \<Longrightarrow>
    sha256_rounds_loop i s X = foldl (\<lambda>s t. fips256_round (K256 ! t) (fips256_W M t) s) s [i..<64]"
proof (induction n arbitrary: i s X)
  case (Suc n)
  obtain X' where X': "sha256_eight_rounds i s X =
      (foldl (\<lambda>s t. fips256_round (K256 ! t) (fips256_W M t) s) s [i..<i + 8], X')" "word_ring (fips256_W M) (i + 8) X'"
    using code_steps [OF Suc.prems(1,2), of s 8] unfolding eight_rounds by blast
  have e: "64 = i + 8 + 8 * n" using Suc.prems(3) by simp
  have u: "[i..<64] = [i..<i + 8] @ [i + 8..<64]" unfolding e by (rule upt_add_eq_append) simp
  have "sha256_rounds_loop i s X =
      sha256_rounds_loop (i + 8) (foldl (\<lambda>s t. fips256_round (K256 ! t) (fips256_W M t) s) s [i..<i + 8]) X'"
    using e by (subst sha256_rounds_loop.simps) (simp only: X'(1) prod.case, simp)
  also have "\<dots> = foldl (\<lambda>s t. fips256_round (K256 ! t) (fips256_W M t) s)
      (foldl (\<lambda>s t. fips256_round (K256 ! t) (fips256_W M t) s) s [i..<i + 8]) [i + 8..<64]"
    using Suc.prems(2) e by (intro Suc.IH [OF X'(2)]) simp_all
  finally show ?case by (simp only: u foldl_append)
qed (subst sha256_rounds_loop.simps, simp)

lemma W_take: "fips256_W (take 64 M) t = fips256_W M t"
proof (induction t rule: less_induct)
  case (less t)
  show ?case
  proof (cases "t < 16")
    case True
    then have "take 4 (drop (4 * t) (take 64 M)) = take 4 (drop (4 * t) M)" by (simp add: drop_take min_def)
    then show ?thesis using True fips256_W.simps [of M t] fips256_W.simps [of "take 64 M" t] by simp
  next
    case False
    then show ?thesis by (subst (1 2) fips256_W.simps) (simp add: less)
  qed
qed

lemma block:
  assumes "64 \<le> length M"
  shows "sha256_block H M = fips256_compress H (take 64 M)"
proof -
  define X where "X = map (\<lambda>i. CRYPTO_load_u32_be (drop (4 * i) M)) [0..<16]"
  have w: "X ! i = fips256_W M i" if "i < 16" for i
    using that assms by (simp add: X_def fips256_W.simps [of M i] load_u32_be)
  have "word_ring (fips256_W M) 16 X" using w by (simp add: word_ring_def X_def)
  note loop = rounds_loop [OF this, of 6]
  have "[0..<64] = [0..<16] @ [16..<64 :: nat]" using upt_add_eq_append [of 0 16 48] by simp
  moreover have "sha256_first_rounds X s = foldl (\<lambda>s t. fips256_round (K256 ! t) (fips256_W M t) s) s [0..<16]" for s
    unfolding first_rounds by (intro foldl_cong) (simp_all add: w code_round)
  ultimately show ?thesis
    unfolding sha256_block_def fips256_compress_def Let_def X_def [symmetric] W_take
    by (simp add: loop add_ac split: prod.split)
qed

lemma block_data_order:
  "n * 64 \<le> length d \<Longrightarrow> sha256_block_data_order_nohw h d n = foldl fips256_compress h (chunks 64 (take (n * 64) d))"
proof (induction n arbitrary: h d)
  case (Suc n)
  have "chunks 64 (take (Suc n * 64) d) = take 64 d # chunks 64 (take (n * 64) (drop 64 d))"
    using Suc.prems by (subst chunks.simps) (simp add: min_def drop_take)
  then show ?case using Suc by (simp add: block)
qed simp

interpretation sha256: md_block sha256_block_data_order_nohw fips256_compress 64
  by unfold_locales (simp_all add: block_data_order)

end
