(* ===== verification/Sha1.thy ===== *)
theory Sha1
  imports Sha256
begin

text \<open>
  SHA-1 (fipsmodule/sha/sha1.c) with the portable block function, whose eighty rounds are
  unrolled over six registers and a ring of sixteen message words, and the standard's rolled
  description (FIPS 180-4, sections 4.1.1 and 6.1.2), which it is shown to compute.
\<close>

section \<open>The code\<close>

subsection \<open>Rounds\<close>

definition K_00_19 :: u32 where "K_00_19 = 0x5a827999"

definition K_20_39 :: u32 where "K_20_39 = 0x6ed9eba1"

definition K_40_59 :: u32 where "K_40_59 = 0x8f1bbcdc"

definition K_60_79 :: u32 where "K_60_79 = 0xca62c1d6"

definition F_00_19 :: "u32 \<Rightarrow> u32 \<Rightarrow> u32 \<Rightarrow> u32" where
  "F_00_19 b c d = ((c XOR d) AND b) XOR d"

definition F_20_39 :: "u32 \<Rightarrow> u32 \<Rightarrow> u32 \<Rightarrow> u32" where
  "F_20_39 b c d = b XOR c XOR d"

definition F_40_59 :: "u32 \<Rightarrow> u32 \<Rightarrow> u32 \<Rightarrow> u32" where
  "F_40_59 b c d = (b AND c) OR ((b OR c) AND d)"

definition F_60_79 :: "u32 \<Rightarrow> u32 \<Rightarrow> u32 \<Rightarrow> u32" where
  "F_60_79 b c d = F_20_39 b c d"

text \<open>
  The message words \<open>XX0\<close> to \<open>XX15\<close> are the list \<open>X\<close>, and a macro takes their indices. It assigns
  to \<open>f\<close>, to \<open>b\<close> and, from round 16 on, to the word \<open>xi\<close> (\<open>xa\<close> from round 32 on). The round
  number, which no macro uses, is left out.
\<close>

definition Xupdate :: "u32 list \<Rightarrow> nat \<Rightarrow> nat \<Rightarrow> nat \<Rightarrow> nat \<Rightarrow> nat \<Rightarrow> u32 \<times> u32 list" where
  "Xupdate X ix ia ib ic id' =
     (let a = X ! ia XOR X ! ib XOR X ! ic XOR X ! id';
          a = CRYPTO_rotl_u32 a 1
      in (a, X[ix := a]))"

definition BODY_00_15 :: "u32 \<Rightarrow> u32 \<Rightarrow> u32 \<Rightarrow> u32 \<Rightarrow> u32 \<Rightarrow> u32 \<Rightarrow> u32 \<times> u32" where
  "BODY_00_15 a b c d e xi =
     (xi + e + K_00_19 + CRYPTO_rotl_u32 a 5 + F_00_19 b c d, CRYPTO_rotl_u32 b 30)"

definition BODY_16_19 ::
  "u32 \<Rightarrow> u32 \<Rightarrow> u32 \<Rightarrow> u32 \<Rightarrow> u32 \<Rightarrow> u32 list \<Rightarrow> nat \<Rightarrow> nat \<Rightarrow> nat \<Rightarrow> nat \<Rightarrow> nat \<Rightarrow> u32 \<times> u32 \<times> u32 list" where
  "BODY_16_19 a b c d e X xi xa xb xc xd =
     (let (f, X) = Xupdate X xi xa xb xc xd;
          f = f + (e + K_00_19 + CRYPTO_rotl_u32 a 5 + F_00_19 b c d)
      in (f, CRYPTO_rotl_u32 b 30, X))"

definition BODY_20_31 ::
  "u32 \<Rightarrow> u32 \<Rightarrow> u32 \<Rightarrow> u32 \<Rightarrow> u32 \<Rightarrow> u32 list \<Rightarrow> nat \<Rightarrow> nat \<Rightarrow> nat \<Rightarrow> nat \<Rightarrow> nat \<Rightarrow> u32 \<times> u32 \<times> u32 list" where
  "BODY_20_31 a b c d e X xi xa xb xc xd =
     (let (f, X) = Xupdate X xi xa xb xc xd;
          f = f + (e + K_20_39 + CRYPTO_rotl_u32 a 5 + F_20_39 b c d)
      in (f, CRYPTO_rotl_u32 b 30, X))"

definition BODY_32_39 ::
  "u32 \<Rightarrow> u32 \<Rightarrow> u32 \<Rightarrow> u32 \<Rightarrow> u32 \<Rightarrow> u32 list \<Rightarrow> nat \<Rightarrow> nat \<Rightarrow> nat \<Rightarrow> nat \<Rightarrow> u32 \<times> u32 \<times> u32 list" where
  "BODY_32_39 a b c d e X xa xb xc xd =
     (let (f, X) = Xupdate X xa xa xb xc xd;
          f = f + (e + K_20_39 + CRYPTO_rotl_u32 a 5 + F_20_39 b c d)
      in (f, CRYPTO_rotl_u32 b 30, X))"

definition BODY_40_59 ::
  "u32 \<Rightarrow> u32 \<Rightarrow> u32 \<Rightarrow> u32 \<Rightarrow> u32 \<Rightarrow> u32 list \<Rightarrow> nat \<Rightarrow> nat \<Rightarrow> nat \<Rightarrow> nat \<Rightarrow> u32 \<times> u32 \<times> u32 list" where
  "BODY_40_59 a b c d e X xa xb xc xd =
     (let (f, X) = Xupdate X xa xa xb xc xd;
          f = f + (e + K_40_59 + CRYPTO_rotl_u32 a 5 + F_40_59 b c d)
      in (f, CRYPTO_rotl_u32 b 30, X))"

definition BODY_60_79 ::
  "u32 \<Rightarrow> u32 \<Rightarrow> u32 \<Rightarrow> u32 \<Rightarrow> u32 \<Rightarrow> u32 list \<Rightarrow> nat \<Rightarrow> nat \<Rightarrow> nat \<Rightarrow> nat \<Rightarrow> u32 \<times> u32 \<times> u32 list" where
  "BODY_60_79 a b c d e X xa xb xc xd =
     (let (f, X) = Xupdate X xa xa xb xc xd;
          f = X ! xa + e + K_60_79 + CRYPTO_rotl_u32 a 5 + F_60_79 b c d
      in (f, CRYPTO_rotl_u32 b 30, X))"

subsection \<open>Blocks\<close>

type_synonym regs5 = "u32 \<times> u32 \<times> u32 \<times> u32 \<times> u32"
type_synonym regs6 = "u32 \<times> u32 \<times> u32 \<times> u32 \<times> u32 \<times> u32"

text \<open>
  The unrolled rounds, in groups of the same macro. \<open>T\<close> has no value before the first round,
  which assigns it. The loads of the sixteen words, which the code interleaves with the first
  rounds, come first.
\<close>

definition sha1_rounds_00_15 :: "u32 list \<Rightarrow> regs5 \<Rightarrow> regs6" where
  "sha1_rounds_00_15 X s =
     (case s of (A, B, C, D, E) \<Rightarrow>
      let (T, B) = BODY_00_15 A B C D E (X ! 0);
          (E, A) = BODY_00_15 T A B C D (X ! 1);
          (D, T) = BODY_00_15 E T A B C (X ! 2);
          (C, E) = BODY_00_15 D E T A B (X ! 3);
          (B, D) = BODY_00_15 C D E T A (X ! 4);
          (A, C) = BODY_00_15 B C D E T (X ! 5);
          (T, B) = BODY_00_15 A B C D E (X ! 6);
          (E, A) = BODY_00_15 T A B C D (X ! 7);
          (D, T) = BODY_00_15 E T A B C (X ! 8);
          (C, E) = BODY_00_15 D E T A B (X ! 9);
          (B, D) = BODY_00_15 C D E T A (X ! 10);
          (A, C) = BODY_00_15 B C D E T (X ! 11);
          (T, B) = BODY_00_15 A B C D E (X ! 12);
          (E, A) = BODY_00_15 T A B C D (X ! 13);
          (D, T) = BODY_00_15 E T A B C (X ! 14);
          (C, E) = BODY_00_15 D E T A B (X ! 15)
      in (A, B, C, D, E, T))"

definition sha1_rounds_16_19 :: "regs6 \<times> u32 list \<Rightarrow> regs6 \<times> u32 list" where
  "sha1_rounds_16_19 sX =
     (case sX of ((A, B, C, D, E, T), X) \<Rightarrow>
      let (B, D, X) = BODY_16_19 C D E T A X 0 0 2 8 13;
          (A, C, X) = BODY_16_19 B C D E T X 1 1 3 9 14;
          (T, B, X) = BODY_16_19 A B C D E X 2 2 4 10 15;
          (E, A, X) = BODY_16_19 T A B C D X 3 3 5 11 0
      in ((A, B, C, D, E, T), X))"

definition sha1_rounds_20_31 :: "regs6 \<times> u32 list \<Rightarrow> regs6 \<times> u32 list" where
  "sha1_rounds_20_31 sX =
     (case sX of ((A, B, C, D, E, T), X) \<Rightarrow>
      let (D, T, X) = BODY_20_31 E T A B C X 4 4 6 12 1;
          (C, E, X) = BODY_20_31 D E T A B X 5 5 7 13 2;
          (B, D, X) = BODY_20_31 C D E T A X 6 6 8 14 3;
          (A, C, X) = BODY_20_31 B C D E T X 7 7 9 15 4;
          (T, B, X) = BODY_20_31 A B C D E X 8 8 10 0 5;
          (E, A, X) = BODY_20_31 T A B C D X 9 9 11 1 6;
          (D, T, X) = BODY_20_31 E T A B C X 10 10 12 2 7;
          (C, E, X) = BODY_20_31 D E T A B X 11 11 13 3 8;
          (B, D, X) = BODY_20_31 C D E T A X 12 12 14 4 9;
          (A, C, X) = BODY_20_31 B C D E T X 13 13 15 5 10;
          (T, B, X) = BODY_20_31 A B C D E X 14 14 0 6 11;
          (E, A, X) = BODY_20_31 T A B C D X 15 15 1 7 12
      in ((A, B, C, D, E, T), X))"

definition sha1_rounds_32_39 :: "regs6 \<times> u32 list \<Rightarrow> regs6 \<times> u32 list" where
  "sha1_rounds_32_39 sX =
     (case sX of ((A, B, C, D, E, T), X) \<Rightarrow>
      let (D, T, X) = BODY_32_39 E T A B C X 0 2 8 13;
          (C, E, X) = BODY_32_39 D E T A B X 1 3 9 14;
          (B, D, X) = BODY_32_39 C D E T A X 2 4 10 15;
          (A, C, X) = BODY_32_39 B C D E T X 3 5 11 0;
          (T, B, X) = BODY_32_39 A B C D E X 4 6 12 1;
          (E, A, X) = BODY_32_39 T A B C D X 5 7 13 2;
          (D, T, X) = BODY_32_39 E T A B C X 6 8 14 3;
          (C, E, X) = BODY_32_39 D E T A B X 7 9 15 4
      in ((A, B, C, D, E, T), X))"

definition sha1_rounds_40_59 :: "regs6 \<times> u32 list \<Rightarrow> regs6 \<times> u32 list" where
  "sha1_rounds_40_59 sX =
     (case sX of ((A, B, C, D, E, T), X) \<Rightarrow>
      let (B, D, X) = BODY_40_59 C D E T A X 8 10 0 5;
          (A, C, X) = BODY_40_59 B C D E T X 9 11 1 6;
          (T, B, X) = BODY_40_59 A B C D E X 10 12 2 7;
          (E, A, X) = BODY_40_59 T A B C D X 11 13 3 8;
          (D, T, X) = BODY_40_59 E T A B C X 12 14 4 9;
          (C, E, X) = BODY_40_59 D E T A B X 13 15 5 10;
          (B, D, X) = BODY_40_59 C D E T A X 14 0 6 11;
          (A, C, X) = BODY_40_59 B C D E T X 15 1 7 12;
          (T, B, X) = BODY_40_59 A B C D E X 0 2 8 13;
          (E, A, X) = BODY_40_59 T A B C D X 1 3 9 14;
          (D, T, X) = BODY_40_59 E T A B C X 2 4 10 15;
          (C, E, X) = BODY_40_59 D E T A B X 3 5 11 0;
          (B, D, X) = BODY_40_59 C D E T A X 4 6 12 1;
          (A, C, X) = BODY_40_59 B C D E T X 5 7 13 2;
          (T, B, X) = BODY_40_59 A B C D E X 6 8 14 3;
          (E, A, X) = BODY_40_59 T A B C D X 7 9 15 4;
          (D, T, X) = BODY_40_59 E T A B C X 8 10 0 5;
          (C, E, X) = BODY_40_59 D E T A B X 9 11 1 6;
          (B, D, X) = BODY_40_59 C D E T A X 10 12 2 7;
          (A, C, X) = BODY_40_59 B C D E T X 11 13 3 8
      in ((A, B, C, D, E, T), X))"

definition sha1_rounds_60_79 :: "regs6 \<times> u32 list \<Rightarrow> regs6 \<times> u32 list" where
  "sha1_rounds_60_79 sX =
     (case sX of ((A, B, C, D, E, T), X) \<Rightarrow>
      let (T, B, X) = BODY_60_79 A B C D E X 12 14 4 9;
          (E, A, X) = BODY_60_79 T A B C D X 13 15 5 10;
          (D, T, X) = BODY_60_79 E T A B C X 14 0 6 11;
          (C, E, X) = BODY_60_79 D E T A B X 15 1 7 12;
          (B, D, X) = BODY_60_79 C D E T A X 0 2 8 13;
          (A, C, X) = BODY_60_79 B C D E T X 1 3 9 14;
          (T, B, X) = BODY_60_79 A B C D E X 2 4 10 15;
          (E, A, X) = BODY_60_79 T A B C D X 3 5 11 0;
          (D, T, X) = BODY_60_79 E T A B C X 4 6 12 1;
          (C, E, X) = BODY_60_79 D E T A B X 5 7 13 2;
          (B, D, X) = BODY_60_79 C D E T A X 6 8 14 3;
          (A, C, X) = BODY_60_79 B C D E T X 7 9 15 4;
          (T, B, X) = BODY_60_79 A B C D E X 8 10 0 5;
          (E, A, X) = BODY_60_79 T A B C D X 9 11 1 6;
          (D, T, X) = BODY_60_79 E T A B C X 10 12 2 7;
          (C, E, X) = BODY_60_79 D E T A B X 11 13 3 8;
          (B, D, X) = BODY_60_79 C D E T A X 12 14 4 9;
          (A, C, X) = BODY_60_79 B C D E T X 13 15 5 10;
          (T, B, X) = BODY_60_79 A B C D E X 14 0 6 11;
          (E, A, X) = BODY_60_79 T A B C D X 15 1 7 12
      in ((A, B, C, D, E, T), X))"

definition sha1_block :: "u32 list \<Rightarrow> byte list \<Rightarrow> u32 list" where
  "sha1_block state data =
     (let X = map (\<lambda>i. CRYPTO_load_u32_be (drop (4 * i) data)) [0..<16];
          s = sha1_rounds_00_15 X (state ! 0, state ! 1, state ! 2, state ! 3, state ! 4);
          ((A, B, C, D, E, T), X) =
            sha1_rounds_60_79 (sha1_rounds_40_59 (sha1_rounds_32_39 (sha1_rounds_20_31 (sha1_rounds_16_19 (s, X)))))
      in [state ! 0 + E, state ! 1 + T, state ! 2 + A, state ! 3 + B, state ! 4 + C])"

text \<open>The loop tests the number of blocks after the first one: the callers never pass zero.\<close>

fun sha1_block_data_order_nohw :: "u32 list \<Rightarrow> byte list \<Rightarrow> nat \<Rightarrow> u32 list" where
  "sha1_block_data_order_nohw state data num =
     (let state1 = sha1_block state data
      in if num - 1 = 0 then state1 else sha1_block_data_order_nohw state1 (drop 64 data) (num - 1))"

declare sha1_block_data_order_nohw.simps [simp del]

subsection \<open>Contexts\<close>

definition SHA1_Init :: md32_ctx where
  "SHA1_Init =
     \<lparr>md_h = [0x67452301, 0xefcdab89, 0x98badcfe, 0x10325476, 0xc3d2e1f0],
      Nl = 0, Nh = 0, md_data = replicate 64 0, md_num = 0\<rparr>"

definition SHA1_Transform :: "md32_ctx \<Rightarrow> byte list \<Rightarrow> md32_ctx" where
  "SHA1_Transform c data = c\<lparr>md_h := sha1_block_data_order_nohw (md_h c) data 1\<rparr>"

definition SHA1_Update :: "md32_ctx \<Rightarrow> byte list \<Rightarrow> md32_ctx" where
  "SHA1_Update = crypto_md32_update sha1_block_data_order_nohw 64"

definition sha1_output_state :: "md32_ctx \<Rightarrow> byte list" where
  "sha1_output_state c =
     CRYPTO_store_u32_be (md_h c ! 0) @ CRYPTO_store_u32_be (md_h c ! 1) @ CRYPTO_store_u32_be (md_h c ! 2) @
     CRYPTO_store_u32_be (md_h c ! 3) @ CRYPTO_store_u32_be (md_h c ! 4)"

definition SHA1_Final :: "md32_ctx \<Rightarrow> byte list \<times> md32_ctx" where
  "SHA1_Final c =
     (let c' = crypto_md32_final sha1_block_data_order_nohw 64 True c in (sha1_output_state c', c'))"

definition SHA1 :: "byte list \<Rightarrow> byte list" where
  "SHA1 data = fst (SHA1_Final (SHA1_Update SHA1_Init data))"

section \<open>The standard\<close>

fun fips1_W :: "byte list \<Rightarrow> nat \<Rightarrow> u32" where
  "fips1_W M t =
     (if t < 16 then of_nat (be_val (take 4 (drop (4 * t) M)))
      else word_rotl 1 (fips1_W M (t - 3) XOR fips1_W M (t - 8) XOR fips1_W M (t - 14) XOR fips1_W M (t - 16)))"

declare fips1_W.simps [simp del]

definition fips1_f :: "nat \<Rightarrow> u32 \<Rightarrow> u32 \<Rightarrow> u32 \<Rightarrow> u32" where
  "fips1_f t x y z =
     (if t < 20 then (x AND y) XOR (NOT x AND z)
      else if t < 40 then x XOR y XOR z
      else if t < 60 then (x AND y) XOR (x AND z) XOR (y AND z)
      else x XOR y XOR z)"

definition fips1_K :: "nat \<Rightarrow> u32" where
  "fips1_K t = (if t < 20 then 0x5a827999 else if t < 40 then 0x6ed9eba1 else if t < 60 then 0x8f1bbcdc else 0xca62c1d6)"

definition fips1_round :: "nat \<Rightarrow> u32 \<Rightarrow> regs5 \<Rightarrow> regs5" where
  "fips1_round t w s =
     (case s of (a, b, c, d, e) \<Rightarrow>
      (word_rotl 5 a + fips1_f t b c d + e + fips1_K t + w, a, word_rotl 30 b, c, d))"

definition fips1_compress :: "u32 list \<Rightarrow> byte list \<Rightarrow> u32 list" where
  "fips1_compress H M =
     (let (a, b, c, d, e) =
        foldl (\<lambda>s t. fips1_round t (fips1_W M t) s) (H ! 0, H ! 1, H ! 2, H ! 3, H ! 4) [0..<80]
      in [a + H ! 0, b + H ! 1, c + H ! 2, d + H ! 3, e + H ! 4])"

section \<open>The code computes the standard's blocks\<close>

text \<open>A round with its variables in the order of their roles.\<close>

definition sha1_first_step :: "nat \<Rightarrow> u32 \<Rightarrow> regs5 \<Rightarrow> regs5" where
  "sha1_first_step t w s =
     (case s of (a, b, c, d, e) \<Rightarrow> case BODY_00_15 a b c d e w of (f, b') \<Rightarrow> (f, a, b', c, d))"

type_synonym body = "u32 \<Rightarrow> u32 \<Rightarrow> u32 \<Rightarrow> u32 \<Rightarrow> u32 \<Rightarrow> u32 list \<Rightarrow> nat \<Rightarrow> nat \<Rightarrow> nat \<Rightarrow> nat \<Rightarrow> nat \<Rightarrow> u32 \<times> u32 \<times> u32 list"

definition sha1_code_step :: "body \<Rightarrow> nat \<Rightarrow> regs5 \<times> u32 list \<Rightarrow> regs5 \<times> u32 list" where
  "sha1_code_step body t sX =
     (case sX of ((a, b, c, d, e), X) \<Rightarrow>
      case body a b c d e X (t mod 16) (t mod 16) ((t + 2) mod 16) ((t + 8) mod 16) ((t + 13) mod 16) of
        (f, b', X') \<Rightarrow> ((f, a, b', c, d), X'))"

lemma rounds_00_15:
  "foldl (\<lambda>s t. sha1_first_step t (X ! t) s) (A, B, C, D, E) [0..<16] =
     (case sha1_rounds_00_15 X (A, B, C, D, E) of (A, B, C, D, E, T) \<Rightarrow> (C, D, E, T, A))"
proof -
  have u: "[0..<16] = [0, 1, 2, 3, 4, 5, 6, 7, 8, 9, 10, 11, 12, 13, 14, 15 :: nat]" by code_simp
  show ?thesis unfolding u foldl.simps
    by (simp add: sha1_rounds_00_15_def sha1_first_step_def Let_def split: prod.split)
qed

lemma rounds_16_19:
  "foldl (\<lambda>sX t. sha1_code_step BODY_16_19 t sX) ((C, D, E, T, A), X) [16..<20] =
     (case sha1_rounds_16_19 ((A, B, C, D, E, T), X) of ((A, B, C, D, E, T), X) \<Rightarrow> ((E, T, A, B, C), X))"
proof -
  have u: "[16..<20] = [16, 17, 18, 19 :: nat]" by code_simp
  show ?thesis unfolding u foldl.simps
    by (simp add: sha1_rounds_16_19_def sha1_code_step_def Let_def split: prod.split)
qed

lemma rounds_20_31:
  "foldl (\<lambda>sX t. sha1_code_step BODY_20_31 t sX) ((E, T, A, B, C), X) [20..<32] =
     (case sha1_rounds_20_31 ((A, B, C, D, E, T), X) of ((A, B, C, D, E, T), X) \<Rightarrow> ((E, T, A, B, C), X))"
proof -
  have u: "[20..<32] = [20, 21, 22, 23, 24, 25, 26, 27, 28, 29, 30, 31 :: nat]" by code_simp
  show ?thesis unfolding u foldl.simps
    by (simp add: sha1_rounds_20_31_def sha1_code_step_def Let_def split: prod.split)
qed

lemma rounds_32_39:
  "foldl (\<lambda>sX t. sha1_code_step (\<lambda>a b c d e X xi. BODY_32_39 a b c d e X) t sX) ((E, T, A, B, C), X) [32..<40] =
     (case sha1_rounds_32_39 ((A, B, C, D, E, T), X) of ((A, B, C, D, E, T), X) \<Rightarrow> ((C, D, E, T, A), X))"
proof -
  have u: "[32..<40] = [32, 33, 34, 35, 36, 37, 38, 39 :: nat]" by code_simp
  show ?thesis unfolding u foldl.simps
    by (simp add: sha1_rounds_32_39_def sha1_code_step_def Let_def split: prod.split)
qed

lemma rounds_40_59:
  "foldl (\<lambda>sX t. sha1_code_step (\<lambda>a b c d e X xi. BODY_40_59 a b c d e X) t sX) ((C, D, E, T, A), X) [40..<60] =
     (case sha1_rounds_40_59 ((A, B, C, D, E, T), X) of ((A, B, C, D, E, T), X) \<Rightarrow> ((A, B, C, D, E), X))"
proof -
  have u: "[40..<60] = [40, 41, 42, 43, 44, 45, 46, 47, 48, 49, 50, 51, 52, 53, 54, 55, 56, 57, 58, 59 :: nat]" by code_simp
  show ?thesis unfolding u foldl.simps
    by (simp add: sha1_rounds_40_59_def sha1_code_step_def Let_def split: prod.split)
qed

lemma rounds_60_79:
  "foldl (\<lambda>sX t. sha1_code_step (\<lambda>a b c d e X xi. BODY_60_79 a b c d e X) t sX) ((A, B, C, D, E), X) [60..<80] =
     (case sha1_rounds_60_79 ((A, B, C, D, E, T), X) of ((A, B, C, D, E, T), X) \<Rightarrow> ((E, T, A, B, C), X))"
proof -
  have u: "[60..<80] = [60, 61, 62, 63, 64, 65, 66, 67, 68, 69, 70, 71, 72, 73, 74, 75, 76, 77, 78, 79 :: nat]" by code_simp
  show ?thesis unfolding u foldl.simps
    by (simp add: sha1_rounds_60_79_def sha1_code_step_def Let_def split: prod.split)
qed

text \<open>From round 16 on a macro computes a word of the schedule and a round with its own function and constant.\<close>

definition rounds_of :: "body \<Rightarrow> (u32 \<Rightarrow> u32 \<Rightarrow> u32 \<Rightarrow> u32) \<Rightarrow> u32 \<Rightarrow> bool" where
  "rounds_of body F K \<longleftrightarrow>
     (\<forall>a b c d e X i j k l. i < length X \<longrightarrow> body a b c d e X i i j k l =
       (let x = word_rotl 1 (X ! i XOR X ! j XOR X ! k XOR X ! l)
        in (word_rotl 5 a + F b c d + e + K + x, word_rotl 30 b, X[i := x])))"

lemma rounds_of_bodies:
  "rounds_of BODY_16_19 F_00_19 K_00_19"
  "rounds_of BODY_20_31 F_20_39 K_20_39"
  "rounds_of (\<lambda>a b c d e X xi. BODY_32_39 a b c d e X) F_20_39 K_20_39"
  "rounds_of (\<lambda>a b c d e X xi. BODY_40_59 a b c d e X) F_40_59 K_40_59"
  "rounds_of (\<lambda>a b c d e X xi. BODY_60_79 a b c d e X) F_60_79 K_60_79"
  by (simp_all add: rounds_of_def BODY_16_19_def BODY_20_31_def BODY_32_39_def BODY_40_59_def BODY_60_79_def
      Xupdate_def Let_def rotl add_ac)

lemma F_fips:
  "F_00_19 b c d = (b AND c) XOR (NOT b AND d)"
  "F_40_59 b c d = (b AND c) XOR (b AND d) XOR (c AND d)"
  unfolding F_00_19_def F_40_59_def
  by (rule bit_word_eqI, auto simp: bit_and_iff bit_or_iff bit_xor_iff bit_not_iff)+

lemma sha1_code_step:
  assumes "rounds_of body (fips1_f t) (fips1_K t)" and "word_ring (fips1_W M) t X" and "16 \<le> t"
  shows "sha1_code_step body t (s, X) = (fips1_round t (fips1_W M t) s, X[t mod 16 := fips1_W M t])"
proof -
  have x: "X ! ((t + j) mod 16) = fips1_W M (t + j - 16)" if "j < 16" for j
    using assms(2) that unfolding word_ring_def by blast
  have j: "t + 0 - 16 = t - 16" "t + 2 - 16 = t - 14" "t + 8 - 16 = t - 8" "t + 13 - 16 = t - 3"
    using assms(3) by simp_all
  have w: "X ! (t mod 16) = fips1_W M (t - 16)" "X ! ((t + 2) mod 16) = fips1_W M (t - 14)"
    "X ! ((t + 8) mod 16) = fips1_W M (t - 8)" "X ! ((t + 13) mod 16) = fips1_W M (t - 3)"
    using x [of 0] x [of 2] x [of 8] x [of 13] unfolding j by simp_all
  have "\<not> t < 16" using assms(3) by simp
  then have F: "fips1_W M t = word_rotl 1 (fips1_W M (t - 16) XOR fips1_W M (t - 14) XOR fips1_W M (t - 8) XOR fips1_W M (t - 3))"
    by (subst fips1_W.simps) (simp add: ac_simps)
  have "t mod 16 < length X" using assms(2) by (simp add: word_ring_def)
  with assms(1) show ?thesis unfolding sha1_code_step_def rounds_of_def
    by (cases s) (simp add: w Let_def fips1_round_def F del: add_2_eq_Suc')
qed

lemma sha1_code_steps:
  assumes "\<And>t. i \<le> t \<Longrightarrow> t < i + n \<Longrightarrow> rounds_of body (fips1_f t) (fips1_K t)"
    and "word_ring (fips1_W M) i X" and "16 \<le> i"
  shows "\<exists>X'. foldl (\<lambda>sX t. sha1_code_step body t sX) (s, X) [i..<i + n] =
      (foldl (\<lambda>s t. fips1_round t (fips1_W M t) s) s [i..<i + n], X') \<and> word_ring (fips1_W M) (i + n) X'"
  using assms(1)
proof (induction n)
  case (Suc n)
  then obtain X' where X': "foldl (\<lambda>sX t. sha1_code_step body t sX) (s, X) [i..<i + n] =
      (foldl (\<lambda>s t. fips1_round t (fips1_W M t) s) s [i..<i + n], X')" "word_ring (fips1_W M) (i + n) X'"
    by force
  have "16 \<le> i + n" using assms(3) by simp
  moreover have "rounds_of body (fips1_f (i + n)) (fips1_K (i + n))" using Suc.prems by simp
  ultimately show ?case using sha1_code_step [OF _ X'(2)] word_ring_update [OF X'(2)] X'(1) by simp
qed (use assms(2) in simp)

lemma first_step: "t < 20 \<Longrightarrow> sha1_first_step t w s = fips1_round t w s"
  by (cases s) (simp add: sha1_first_step_def BODY_00_15_def fips1_round_def fips1_f_def fips1_K_def K_00_19_def F_fips rotl add_ac)

text \<open>What a group of rounds does to its registers in the order of their roles at both ends.\<close>

lemma group_rounds:
  assumes "\<And>t. i \<le> t \<Longrightarrow> t < j \<Longrightarrow> rounds_of body (fips1_f t) (fips1_K t)"
    and "word_ring (fips1_W M) i X" and "16 \<le> i" and "i \<le> j"
    and "foldl (\<lambda>sX t. sha1_code_step body t sX) (s, X) [i..<j] = (s', X')"
  shows "s' = foldl (\<lambda>s t. fips1_round t (fips1_W M t) s) s [i..<j] \<and> word_ring (fips1_W M) j X'"
  using sha1_code_steps [of i "j - i" body M X s] assms by auto

lemma rounds_range:
  "16 \<le> t \<Longrightarrow> t < 20 \<Longrightarrow> rounds_of BODY_16_19 (fips1_f t) (fips1_K t)"
  "20 \<le> t \<Longrightarrow> t < 32 \<Longrightarrow> rounds_of BODY_20_31 (fips1_f t) (fips1_K t)"
  "32 \<le> t \<Longrightarrow> t < 40 \<Longrightarrow> rounds_of (\<lambda>a b c d e X xi. BODY_32_39 a b c d e X) (fips1_f t) (fips1_K t)"
  "40 \<le> t \<Longrightarrow> t < 60 \<Longrightarrow> rounds_of (\<lambda>a b c d e X xi. BODY_40_59 a b c d e X) (fips1_f t) (fips1_K t)"
  "60 \<le> t \<Longrightarrow> t < 80 \<Longrightarrow> rounds_of (\<lambda>a b c d e X xi. BODY_60_79 a b c d e X) (fips1_f t) (fips1_K t)"
proof -
  have F: "F_00_19 = fips1_f t" if "t < 20" for t using that by (intro ext) (simp add: F_fips fips1_f_def)
  have F2: "F_20_39 = fips1_f t" if "20 \<le> t" "t < 40" for t using that by (intro ext) (simp add: F_20_39_def fips1_f_def)
  have F3: "F_40_59 = fips1_f t" if "40 \<le> t" "t < 60" for t using that by (intro ext) (simp add: F_fips fips1_f_def)
  have F4: "F_60_79 = fips1_f t" if "60 \<le> t" for t using that by (intro ext) (simp add: F_60_79_def F_20_39_def fips1_f_def)
  have K: "fips1_K t = (if t < 20 then K_00_19 else if t < 40 then K_20_39 else if t < 60 then K_40_59 else K_60_79)" for t
    by (simp add: fips1_K_def K_00_19_def K_20_39_def K_40_59_def K_60_79_def)
  show "16 \<le> t \<Longrightarrow> t < 20 \<Longrightarrow> rounds_of BODY_16_19 (fips1_f t) (fips1_K t)"
    using rounds_of_bodies(1) F [of t] by (simp add: K)
  show "20 \<le> t \<Longrightarrow> t < 32 \<Longrightarrow> rounds_of BODY_20_31 (fips1_f t) (fips1_K t)"
    using rounds_of_bodies(2) F2 [of t] by (simp add: K)
  show "32 \<le> t \<Longrightarrow> t < 40 \<Longrightarrow> rounds_of (\<lambda>a b c d e X xi. BODY_32_39 a b c d e X) (fips1_f t) (fips1_K t)"
    using rounds_of_bodies(3) F2 [of t] by (simp add: K)
  show "40 \<le> t \<Longrightarrow> t < 60 \<Longrightarrow> rounds_of (\<lambda>a b c d e X xi. BODY_40_59 a b c d e X) (fips1_f t) (fips1_K t)"
    using rounds_of_bodies(4) F3 [of t] by (simp add: K)
  show "60 \<le> t \<Longrightarrow> t < 80 \<Longrightarrow> rounds_of (\<lambda>a b c d e X xi. BODY_60_79 a b c d e X) (fips1_f t) (fips1_K t)"
    using rounds_of_bodies(5) F4 [of t] by (simp add: K)
qed

lemma fips1_W_take: "fips1_W (take 64 M) t = fips1_W M t"
proof (induction t rule: less_induct)
  case (less t)
  show ?case
  proof (cases "t < 16")
    case True
    then have "take 4 (drop (4 * t) (take 64 M)) = take 4 (drop (4 * t) M)" by (simp add: drop_take min_def)
    then show ?thesis using True fips1_W.simps [of M t] fips1_W.simps [of "take 64 M" t] by simp
  next
    case False
    then show ?thesis by (subst (1 2) fips1_W.simps) (simp add: less)
  qed
qed

lemma sha1_block:
  assumes "64 \<le> length M"
  shows "sha1_block H M = fips1_compress H (take 64 M)"
proof -
  define X where "X = map (\<lambda>i. CRYPTO_load_u32_be (drop (4 * i) M)) [0..<16]"
  let ?R = "\<lambda>s i j. foldl (\<lambda>s t. fips1_round t (fips1_W M t) s) s [i..<j]"
  have w: "X ! i = fips1_W M i" if "i < 16" for i
    using that assms by (simp add: X_def fips1_W.simps [of M i] load_u32_be)
  have x0: "word_ring (fips1_W M) 16 X" using w by (simp add: word_ring_def X_def)
  define s where "s = (H ! 0, H ! 1, H ! 2, H ! 3, H ! 4)"
  obtain A B C D E T where g0: "sha1_rounds_00_15 X s = (A, B, C, D, E, T)" by (metis surj_pair)
  have "?R s 0 16 = foldl (\<lambda>s t. sha1_first_step t (X ! t) s) s [0..<16]"
    by (intro foldl_cong) (simp_all add: w first_step)
  then have r0: "(C, D, E, T, A) = ?R s 0 16" using g0 unfolding s_def rounds_00_15 by simp
  obtain A1 B1 C1 D1 E1 T1 X1 where g1: "sha1_rounds_16_19 ((A, B, C, D, E, T), X) = ((A1, B1, C1, D1, E1, T1), X1)"
    by (metis surj_pair)
  have r1: "(E1, T1, A1, B1, C1) = ?R (C, D, E, T, A) 16 20 \<and> word_ring (fips1_W M) 20 X1"
  proof (rule group_rounds [OF rounds_range(1) x0])
    show "foldl (\<lambda>sX t. sha1_code_step BODY_16_19 t sX) ((C, D, E, T, A), X) [16..<20] = ((E1, T1, A1, B1, C1), X1)"
      by (rule trans [OF rounds_16_19 [where B = B]]) (simp only: g1 prod.case)
  qed simp_all
  obtain A2 B2 C2 D2 E2 T2 X2 where g2: "sha1_rounds_20_31 ((A1, B1, C1, D1, E1, T1), X1) = ((A2, B2, C2, D2, E2, T2), X2)"
    by (metis surj_pair)
  have r2: "(E2, T2, A2, B2, C2) = ?R (E1, T1, A1, B1, C1) 20 32 \<and> word_ring (fips1_W M) 32 X2"
  proof (rule group_rounds [OF rounds_range(2) conjunct2 [OF r1]])
    show "foldl (\<lambda>sX t. sha1_code_step BODY_20_31 t sX) ((E1, T1, A1, B1, C1), X1) [20..<32] = ((E2, T2, A2, B2, C2), X2)"
      by (rule trans [OF rounds_20_31 [where D = D1]]) (simp only: g2 prod.case)
  qed simp_all
  obtain A3 B3 C3 D3 E3 T3 X3 where g3: "sha1_rounds_32_39 ((A2, B2, C2, D2, E2, T2), X2) = ((A3, B3, C3, D3, E3, T3), X3)"
    by (metis surj_pair)
  have r3: "(C3, D3, E3, T3, A3) = ?R (E2, T2, A2, B2, C2) 32 40 \<and> word_ring (fips1_W M) 40 X3"
  proof (rule group_rounds [OF rounds_range(3) conjunct2 [OF r2]])
    show "foldl (\<lambda>sX t. sha1_code_step (\<lambda>a b c d e X xi. BODY_32_39 a b c d e X) t sX) ((E2, T2, A2, B2, C2), X2) [32..<40] = ((C3, D3, E3, T3, A3), X3)"
      by (rule trans [OF rounds_32_39 [where D = D2]]) (simp only: g3 prod.case)
  qed simp_all
  obtain A4 B4 C4 D4 E4 T4 X4 where g4: "sha1_rounds_40_59 ((A3, B3, C3, D3, E3, T3), X3) = ((A4, B4, C4, D4, E4, T4), X4)"
    by (metis surj_pair)
  have r4: "(A4, B4, C4, D4, E4) = ?R (C3, D3, E3, T3, A3) 40 60 \<and> word_ring (fips1_W M) 60 X4"
  proof (rule group_rounds [OF rounds_range(4) conjunct2 [OF r3]])
    show "foldl (\<lambda>sX t. sha1_code_step (\<lambda>a b c d e X xi. BODY_40_59 a b c d e X) t sX) ((C3, D3, E3, T3, A3), X3) [40..<60] = ((A4, B4, C4, D4, E4), X4)"
      by (rule trans [OF rounds_40_59 [where B = B3]]) (simp only: g4 prod.case)
  qed simp_all
  obtain A5 B5 C5 D5 E5 T5 X5 where g5: "sha1_rounds_60_79 ((A4, B4, C4, D4, E4, T4), X4) = ((A5, B5, C5, D5, E5, T5), X5)"
    by (metis surj_pair)
  have r5: "(E5, T5, A5, B5, C5) = ?R (A4, B4, C4, D4, E4) 60 80 \<and> word_ring (fips1_W M) 80 X5"
  proof (rule group_rounds [OF rounds_range(5) conjunct2 [OF r4]])
    show "foldl (\<lambda>sX t. sha1_code_step (\<lambda>a b c d e X xi. BODY_60_79 a b c d e X) t sX) ((A4, B4, C4, D4, E4), X4) [60..<80] = ((E5, T5, A5, B5, C5), X5)"
      by (rule trans [OF rounds_60_79 [where T = T4]]) (simp only: g5 prod.case)
  qed simp_all
  have u: "[0..<80] = [0..<16] @ [16..<20] @ [20..<32] @ [32..<40] @ [40..<60] @ [60..<80 :: nat]" by code_simp
  have "?R s 0 80 = (E5, T5, A5, B5, C5)"
    unfolding u foldl_append by (simp only: r0 [symmetric] r1 [THEN conjunct1, symmetric] r2 [THEN conjunct1, symmetric]
        r3 [THEN conjunct1, symmetric] r4 [THEN conjunct1, symmetric] r5 [THEN conjunct1, symmetric])
  then show ?thesis
    unfolding sha1_block_def fips1_compress_def Let_def X_def [symmetric] fips1_W_take s_def [symmetric] g0 g1 g2 g3 g4 g5
    by (simp add: add.commute)
qed

text \<open>The interface of the collector.\<close>

lemma sha1_block_data_order:
  "0 < n \<Longrightarrow> n * 64 \<le> length d \<Longrightarrow> sha1_block_data_order_nohw h d n = foldl fips1_compress h (chunks 64 (take (n * 64) d))"
proof (induction n arbitrary: h d)
  case (Suc n)
  have "chunks 64 (take (Suc n * 64) d) = take 64 d # chunks 64 (take (n * 64) (drop 64 d))"
    using Suc.prems by (subst chunks.simps) (simp add: min_def drop_take)
  then show ?case using Suc sha1_block [of d h]
    by (subst sha1_block_data_order_nohw.simps) (cases "n = 0"; simp add: Let_def)
qed simp

interpretation sha1: md_block sha1_block_data_order_nohw fips1_compress 64
  by unfold_locales (simp_all add: sha1_block_data_order)

end
