(* ===== verification/Sha_Props.thy ===== *)
theory Sha_Props
  imports Sha1
begin

text \<open>
  The digests of a message, by the standard, and the theorem that the streaming interface of the
  code computes them however the message is cut into updates.
\<close>

section \<open>The standard's digests\<close>

definition words_be :: "u32 list \<Rightarrow> byte list" where
  "words_be ws = concat (map (\<lambda>w. be_bytes 4 (unat w)) ws)"

definition fips_sha1 :: "byte list \<Rightarrow> byte list" where
  "fips_sha1 msg =
     words_be (md_digest fips1_compress 64 True [0x67452301, 0xefcdab89, 0x98badcfe, 0x10325476, 0xc3d2e1f0] msg)"

definition fips_sha256 :: "byte list \<Rightarrow> byte list" where
  "fips_sha256 msg =
     words_be (md_digest fips256_compress 64 True
       [0x6a09e667, 0xbb67ae85, 0x3c6ef372, 0xa54ff53a, 0x510e527f, 0x9b05688c, 0x1f83d9ab, 0x5be0cd19] msg)"

definition fips_sha224 :: "byte list \<Rightarrow> byte list" where
  "fips_sha224 msg =
     take 28 (words_be (md_digest fips256_compress 64 True
       [0xc1059ed8, 0x367cd507, 0x3070dd17, 0xf70e5939, 0xffc00b31, 0x68581511, 0x64f98fa7, 0xbefa4fa4] msg))"

lemma length_compress [simp]: "length (fips1_compress H M) = 5" "length (fips256_compress H M) = 8"
  by (simp_all add: fips1_compress_def fips256_compress_def Let_def split: prod.split)

lemma length_digest [simp]:
  "length H = 5 \<Longrightarrow> length (md_digest fips1_compress bs big H msg) = 5"
  "length H = 8 \<Longrightarrow> length (md_digest fips256_compress bs big H msg) = 8"
proof -
  have "length H = 5 \<Longrightarrow> length (foldl fips1_compress H xs) = 5" for xs by (induction xs arbitrary: H) simp_all
  moreover have "length H = 8 \<Longrightarrow> length (foldl fips256_compress H xs) = 8" for xs by (induction xs arbitrary: H) simp_all
  ultimately show "length H = 5 \<Longrightarrow> length (md_digest fips1_compress bs big H msg) = 5"
    "length H = 8 \<Longrightarrow> length (md_digest fips256_compress bs big H msg) = 8"
    by (simp_all add: md_digest_def)
qed

lemma length_words_be [simp]: "length (words_be ws) = 4 * length ws"
  by (induction ws) (simp_all add: words_be_def)

section \<open>Contexts that have seen a message\<close>

text \<open>The collector's invariant for the contexts of each digest.\<close>

definition sha1_seen :: "byte list \<Rightarrow> 'a md32_ctx_scheme \<Rightarrow> bool" where
  "sha1_seen = md_seen fips1_compress 64 [0x67452301, 0xefcdab89, 0x98badcfe, 0x10325476, 0xc3d2e1f0]"

definition sha256_seen :: "byte list \<Rightarrow> 'a md32_ctx_scheme \<Rightarrow> bool" where
  "sha256_seen = md_seen fips256_compress 64
     [0x6a09e667, 0xbb67ae85, 0x3c6ef372, 0xa54ff53a, 0x510e527f, 0x9b05688c, 0x1f83d9ab, 0x5be0cd19]"

definition sha224_seen :: "byte list \<Rightarrow> 'a md32_ctx_scheme \<Rightarrow> bool" where
  "sha224_seen = md_seen fips256_compress 64
     [0xc1059ed8, 0x367cd507, 0x3070dd17, 0xf70e5939, 0xffc00b31, 0x68581511, 0x64f98fa7, 0xbefa4fa4]"

lemma seen_init [simp]: "sha1_seen [] SHA1_Init" "sha256_seen [] SHA256_Init" "sha224_seen [] SHA224_Init"
  by (simp_all add: sha1_seen_def sha256_seen_def sha224_seen_def SHA1_Init_def SHA256_Init_def SHA224_Init_def md_seen_init)

lemma seen_update:
  "sha1_seen m c \<Longrightarrow> sha1_seen (m @ x) (SHA1_Update c x)"
  "sha256_seen m c' \<Longrightarrow> sha256_seen (m @ x) (SHA256_Update c' x)"
  "sha224_seen m c' \<Longrightarrow> sha224_seen (m @ x) (SHA224_Update c' x)"
  by (simp_all add: sha1_seen_def sha256_seen_def sha224_seen_def SHA1_Update_def SHA256_Update_def SHA224_Update_def
      sha1.update_seen sha256.update_seen)

lemma seen_updates:
  "sha1_seen m c \<Longrightarrow> sha1_seen (m @ concat xs) (foldl SHA1_Update c xs)"
  "sha256_seen m c' \<Longrightarrow> sha256_seen (m @ concat xs) (foldl SHA256_Update c' xs)"
  "sha224_seen m c' \<Longrightarrow> sha224_seen (m @ concat xs) (foldl SHA224_Update c' xs)"
  by (simp_all add: sha1_seen_def sha256_seen_def sha224_seen_def SHA1_Update_def SHA256_Update_def SHA224_Update_def
      sha1.updates_seen sha256.updates_seen)

lemma update_md_len [simp]: "md_len (SHA256_Update c x) = md_len c"
  by (simp add: SHA256_Update_def crypto_md32_update_def md32_blocks_def md32_count_def Let_def)

lemma updates_md_len [simp]: "md_len (foldl SHA256_Update c xs) = md_len c"
  by (induction xs arbitrary: c) simp_all

lemma output_words: "k \<le> length ws \<Longrightarrow> concat (map (\<lambda>i. CRYPTO_store_u32_be (ws ! i)) [0..<k]) = take (4 * k) (words_be ws)"
proof (induction ws arbitrary: k)
  case (Cons w ws)
  show ?case
  proof (cases k)
    case (Suc n)
    have u: "[0..<Suc n] = 0 # map Suc [0..<n]" by (simp only: map_Suc_upt) (simp add: upt_rec)
    show ?thesis using Cons.IH [of n] Cons.prems unfolding Suc u
      by (simp add: words_be_def store_u32_be o_def)
  qed simp
qed simp

lemma sha1_final: "sha1_seen m c \<Longrightarrow> fst (SHA1_Final c) = fips_sha1 m"
proof -
  assume "sha1_seen m c"
  moreover have "[0..<5] = [0, 1, 2, 3, 4 :: nat]" by code_simp
  then have "sha1_output_state d = concat (map (\<lambda>i. CRYPTO_store_u32_be (md_h d ! i)) [0..<5])" for d
    by (simp add: sha1_output_state_def)
  ultimately show ?thesis
    by (simp add: SHA1_Final_def Let_def sha1.final_digest sha1_seen_def fips_sha1_def output_words del: upt_rec_numeral)
qed

lemma sha256_final: "sha256_seen m c \<Longrightarrow> md_len c = 32 \<Longrightarrow> fst (SHA256_Final c) = Some (fips_sha256 m)"
  by (simp add: SHA256_Final_def sha256_final_impl_def Let_def sha256.final_digest sha256_seen_def fips_sha256_def output_words)

lemma sha224_final: "sha224_seen m c \<Longrightarrow> fst (SHA224_Final c) = Some (fips_sha224 m)"
  by (simp add: SHA224_Final_def sha256_final_impl_def Let_def sha256.final_digest sha224_seen_def fips_sha224_def output_words)

section \<open>Properties\<close>

text \<open>
  C7. The digest functions compute SHA-1, SHA-224 and SHA-256 as the standard defines them, rolled
  rounds over a message schedule, for every message and every way to cut it into updates; the
  one-shot functions agree.
\<close>

theorem sha_streaming:
  "fst (SHA1_Final (foldl SHA1_Update SHA1_Init xs)) = fips_sha1 (concat xs) \<and>
   fst (SHA256_Final (foldl SHA256_Update SHA256_Init xs)) = Some (fips_sha256 (concat xs)) \<and>
   fst (SHA224_Final (foldl SHA224_Update SHA224_Init xs)) = Some (fips_sha224 (concat xs)) \<and>
   SHA1 msg = fips_sha1 msg \<and> SHA256 msg = Some (fips_sha256 msg) \<and> SHA224 msg = Some (fips_sha224 msg) \<and>
   length (fips_sha1 msg) = 20 \<and> length (fips_sha256 msg) = 32 \<and> length (fips_sha224 msg) = 28"
proof -
  have l: "md_len SHA256_Init = 32" by (simp add: SHA256_Init_def)
  note fin = sha1_final sha256_final sha224_final
  have 1: "SHA1 msg = fips_sha1 msg" unfolding SHA1_def by (rule sha1_final) (use seen_update(1) [of "[]"] in simp)
  have 2: "SHA256 msg = Some (fips_sha256 msg)" unfolding SHA256_def
    by (rule sha256_final) (use seen_update(2) [of "[]"] l in simp_all)
  have 3: "SHA224 msg = Some (fips_sha224 msg)" unfolding SHA224_def
    by (rule sha224_final) (use seen_update(3) [of "[]"] in simp)
  show ?thesis
    using fin(1) [OF seen_updates(1) [of "[]"]] fin(2) [OF seen_updates(2) [of "[]"]] fin(3) [OF seen_updates(3) [of "[]"]] l 1 2 3
    by (simp add: fips_sha1_def fips_sha256_def fips_sha224_def)
qed

end
