(* ===== verification/Sha_Prf.thy ===== *)
theory Sha_Prf
  imports Sha_Props
begin

text \<open>
  The generator of FIPS 186-2, appendix 3.1 (\<open>CRYPTO_fips_186_2_prf\<close> of fipsmodule/sha/sha1.c): its
  key is a number of 160 bits to which every round adds the block it has put out, word by word
  with carries.
\<close>

section \<open>The code\<close>

definition CRYPTO_addc_u32 :: "u32 \<Rightarrow> u32 \<Rightarrow> u32 \<Rightarrow> u32 \<times> u32" where
  "CRYPTO_addc_u32 x y carry =
     (let ret = ucast carry + (ucast x + ucast y) :: u64 in (ucast ret, ucast (drop_bit 32 ret)))"

text \<open>The loop from the last word to the first; \<open>Suc i\<close> words are left when it works on word \<open>i\<close>.\<close>

fun prf_add_loop :: "u32 list \<Rightarrow> u32 \<Rightarrow> nat \<Rightarrow> byte list \<Rightarrow> byte list" where
  "prf_add_loop h carry 0 block = block"
| "prf_add_loop h carry (Suc i) block =
     (let (tmp, carry) = CRYPTO_addc_u32 (CRYPTO_load_u32_be (drop (i * 4) block)) (h ! i) carry
      in prf_add_loop h carry i (memcpy_at block (i * 4) (CRYPTO_store_u32_be tmp)))"

function prf_loop :: "nat \<Rightarrow> byte list \<Rightarrow> byte list" where
  "prf_loop out_len block =
     (if out_len = 0 then []
      else
        let ctx = SHA1_Transform SHA1_Init block;
            block' = prf_add_loop (md_h ctx) 1 5 block
        in if out_len < 20 then take out_len (sha1_output_state ctx)
           else sha1_output_state ctx @ prf_loop (out_len - 20) block')"
  by pat_completeness auto
termination
  by (relation "measure fst") auto

declare prf_loop.simps [simp del]

definition CRYPTO_fips_186_2_prf :: "nat \<Rightarrow> byte list \<Rightarrow> byte list" where
  "CRYPTO_fips_186_2_prf out_len xkey = prf_loop out_len (memcpy_at (replicate 64 0) 0 (take 20 xkey))"

section \<open>The standard\<close>

definition prf_block :: "nat \<Rightarrow> byte list" where
  "prf_block xkey =
     words_be (fips1_compress [0x67452301, 0xefcdab89, 0x98badcfe, 0x10325476, 0xc3d2e1f0]
       (be_bytes 20 xkey @ replicate 44 0))"

primrec prf_stream :: "nat \<Rightarrow> nat \<Rightarrow> byte list" where
  "prf_stream xkey 0 = []"
| "prf_stream xkey (Suc n) =
     prf_block xkey @ prf_stream ((1 + xkey + be_val (prf_block xkey)) mod 2 ^ 160) n"

section \<open>Agreement\<close>

lemma addc_u32:
  assumes "CRYPTO_addc_u32 x y k = (r, c)" and "unat k \<le> 1"
  shows "unat x + unat y + unat k = unat c * 2 ^ 32 + unat r" and "unat c \<le> 1"
proof -
  let ?s = "unat k + (unat x + unat y)"
  let ?w = "ucast k + (ucast x + ucast y) :: u64"
  have lt: "unat z < 2 ^ 32" for z :: u32 using unsigned_less [of z] by simp
  have b: "?s < 2 ^ 33" using lt [of x] lt [of y] assms(2) by simp
  have u: "unat (ucast z :: u64) = unat z" for z :: u32 using lt [of z] by (intro unat_ucast_less) simp
  have w: "unat ?w = ?s" using b by (simp add: unat_word_ariths u)
  have r: "unat r = ?s mod 2 ^ 32" using assms(1) w by (auto simp: CRYPTO_addc_u32_def Let_def unat_ucast_mod)
  have d: "unat (drop_bit 32 ?w) = ?s div 2 ^ 32" by (simp only: unat_drop_bit w)
  have "?s div 2 ^ 32 \<le> 1" using b by (simp add: less_mult_imp_div_less less_Suc_eq_le [symmetric])
  then have c: "unat c = ?s div 2 ^ 32" "unat c \<le> 1"
    using assms(1) d by (auto simp: CRYPTO_addc_u32_def Let_def unat_ucast_mod)
  show "unat x + unat y + unat k = unat c * 2 ^ 32 + unat r" using r c(1) by simp
  show "unat c \<le> 1" by (rule c(2))
qed

lemma words_be_snoc: "words_be (ws @ [w]) = words_be ws @ be_bytes 4 (unat w)"
  by (simp add: words_be_def)

lemma prf_add_loop:
  assumes "n * 4 \<le> length block" and "n \<le> length h" and "unat c \<le> 1"
  shows "prf_add_loop h c n block =
    be_bytes (n * 4) (unat c + be_val (take (n * 4) block) + be_val (words_be (take n h))) @ drop (n * 4) block"
  using assms
proof (induction n arbitrary: c block)
  case (Suc i)
  define x where "x = CRYPTO_load_u32_be (drop (i * 4) block)"
  obtain r c' where a: "CRYPTO_addc_u32 x (h ! i) c = (r, c')" by fastforce
  note add = addc_u32 [OF a Suc.prems(3)]
  define block' where "block' = memcpy_at block (i * 4) (be_bytes 4 (unat r))"
  have len: "i * 4 + 4 \<le> length block" using Suc.prems(1) by simp
  have len': "length block' = length block" using len by (simp add: block'_def)
  have t: "take (i * 4) block' = take (i * 4) block" "drop (i * 4) block' = be_bytes 4 (unat r) @ drop (i * 4 + 4) block"
    using len by (simp_all add: block'_def memcpy_at_def)
  have v: "unat x = be_val (take 4 (drop (i * 4) block))"
  proof -
    have "be_val (take 4 (drop (i * 4) block)) < 256 ^ 4"
      using be_val_lt [of "take 4 (drop (i * 4) block)"] len by simp
    then show ?thesis using len by (simp add: x_def load_u32_be unat_of_nat)
  qed
  have b: "be_val (take (Suc i * 4) block) = be_val (take (i * 4) block) * 2 ^ 32 + unat x"
  proof -
    have "take (Suc i * 4) block = take (i * 4) block @ take 4 (drop (i * 4) block)"
      by (metis add.commute mult_Suc take_add)
    then show ?thesis using len by (simp add: be_val_append v)
  qed
  have "unat (h ! i) < 2 ^ 32" using unsigned_less [of "h ! i"] by simp
  then have w: "be_val (words_be (take (Suc i) h)) = be_val (words_be (take i h)) * 2 ^ 32 + unat (h ! i)"
    using Suc.prems(2)
    by (simp add: take_Suc_conv_app_nth words_be_snoc be_val_append be_val_be_bytes)
  have "prf_add_loop h c (Suc i) block = prf_add_loop h c' i block'"
    by (simp add: x_def [symmetric] a block'_def store_u32_be)
  also have "\<dots> = be_bytes (i * 4) (unat c' + be_val (take (i * 4) block) + be_val (words_be (take i h))) @
      be_bytes 4 (unat r) @ drop (i * 4 + 4) block"
    using Suc.IH [of block' c'] Suc.prems len' add(2) by (simp add: t)
  also have "\<dots> = be_bytes (i * 4 + 4)
      (unat c + be_val (take (Suc i * 4) block) + be_val (words_be (take (Suc i) h))) @ drop (i * 4 + 4) block"
    using add(1) b w
    by (subst be_bytes_split4 [where w = r and q = "unat c' + be_val (take (i * 4) block) + be_val (words_be (take i h))"])
      (simp_all add: algebra_simps)
  finally show ?case by (simp add: add.commute)
qed simp

text \<open>One round on a block that holds the key.\<close>

lemma prf_round:
  fixes xkey :: nat
  defines "block \<equiv> be_bytes 20 xkey @ replicate 44 0"
  assumes "xkey < 2 ^ 160"
  shows "sha1_output_state (SHA1_Transform SHA1_Init block) = prf_block xkey"
    and "prf_add_loop (md_h (SHA1_Transform SHA1_Init block)) 1 5 block =
      be_bytes 20 ((1 + xkey + be_val (prf_block xkey)) mod 2 ^ 160) @ replicate 44 0"
proof -
  let ?iv = "[0x67452301, 0xefcdab89, 0x98badcfe, 0x10325476, 0xc3d2e1f0] :: u32 list"
  have h: "md_h (SHA1_Transform SHA1_Init block) = fips1_compress ?iv block"
    unfolding SHA1_Transform_def SHA1_Init_def using sha1.one_block [of block ?iv] by (simp add: block_def)
  have u: "[0..<5] = [0, 1, 2, 3, 4 :: nat]" by code_simp
  have "sha1_output_state d = concat (map (\<lambda>i. CRYPTO_store_u32_be (md_h d ! i)) [0..<5])" for d :: md32_ctx
    unfolding u by (simp add: sha1_output_state_def)
  then show "sha1_output_state (SHA1_Transform SHA1_Init block) = prf_block xkey"
    using h by (simp add: output_words prf_block_def block_def del: upt_rec_numeral)
  have "take 20 block = be_bytes 20 xkey" "drop 20 block = replicate 44 0" by (simp_all add: block_def)
  moreover have "be_val (be_bytes 20 xkey) = xkey" using assms(2) by (simp add: be_val_be_bytes)
  moreover have "be_bytes 20 (n mod 2 ^ 160) = be_bytes 20 n" for n using be_bytes_mod [of 20 n] by simp
  ultimately show "prf_add_loop (md_h (SHA1_Transform SHA1_Init block)) 1 5 block =
      be_bytes 20 ((1 + xkey + be_val (prf_block xkey)) mod 2 ^ 160) @ replicate 44 0"
    using prf_add_loop [of 5 block "fips1_compress ?iv block" 1] unfolding h
    by (simp add: block_def prf_block_def del: power_numeral)
qed

lemma prf_loop:
  assumes "out_len \<le> 20 * n" and "xkey < 2 ^ 160"
  shows "prf_loop out_len (be_bytes 20 xkey @ replicate 44 0) = take out_len (prf_stream xkey n)"
  using assms
proof (induction n arbitrary: out_len xkey)
  case (Suc n)
  have l: "length (prf_block xkey) = 20" by (simp add: prf_block_def)
  show ?case
  proof (cases "out_len < 20")
    case True
    then show ?thesis using l by (subst prf_loop.simps) (simp add: prf_round [OF Suc.prems(2)] Let_def)
  next
    case False
    have "prf_loop (out_len - 20) (be_bytes 20 ((1 + xkey + be_val (prf_block xkey)) mod 2 ^ 160) @ replicate 44 0) =
        take (out_len - 20) (prf_stream ((1 + xkey + be_val (prf_block xkey)) mod 2 ^ 160) n)"
      using Suc.prems(1) by (intro Suc.IH) simp_all
    then show ?thesis using l False by (subst prf_loop.simps) (simp add: prf_round [OF Suc.prems(2)] Let_def)
  qed
qed (simp add: prf_loop.simps)

lemma fips_186_2_prf:
  assumes "length xkey = 20" and "out_len \<le> 20 * n"
  shows "CRYPTO_fips_186_2_prf out_len xkey = take out_len (prf_stream (be_val xkey) n)"
proof -
  have "be_val xkey < 2 ^ 160" using be_val_lt [of xkey] assms(1) by simp
  moreover have "memcpy_at (replicate 64 0) 0 (take 20 xkey) = be_bytes 20 (be_val xkey) @ replicate 44 0"
    using assms(1) by (simp add: memcpy_at_def be_bytes_unique)
  ultimately show ?thesis unfolding CRYPTO_fips_186_2_prf_def using prf_loop [OF assms(2)] by simp
qed

end
