(* ===== verification/Tls_Cbc.thy ===== *)
theory Tls_Cbc
  imports Sha_Props Const_Time
begin

text \<open>
  The constant-time treatment of CBC records in TLS (cipher_extra/tls_cbc.c): removing the
  padding, copying the MAC from a secret place, and hashing data of a secret length. Lengths are
  natural numbers; where the code hands them to a constant-time function they become words.
\<close>

section \<open>Padding\<close>

text \<open>
  The result is the pair of \<open>out_padding_ok\<close> and \<open>out_len\<close>. The block size is not used. The loop
  runs over the last \<open>to_check\<close> bytes, the last one first.
\<close>

fun padding_loop :: "u64 \<Rightarrow> nat \<Rightarrow> byte list \<Rightarrow> u64 \<Rightarrow> u64" where
  "padding_loop padding_length i [] good = good"
| "padding_loop padding_length i (b # bs) good =
     (let msk = constant_time_ge_8 padding_length (of_nat i)
      in padding_loop padding_length (i + 1) bs (good AND NOT (ucast msk AND (padding_length XOR ucast b))))"

definition EVP_tls_cbc_remove_padding :: "byte list \<Rightarrow> nat \<Rightarrow> nat \<Rightarrow> (u64 \<times> nat) option" where
  "EVP_tls_cbc_remove_padding inp block_size mac_size =
     (let overhead = 1 + mac_size;
          in_len = length inp
      in if overhead > in_len then None
         else
           let padding_length = ucast (inp ! (in_len - 1)) :: u64;
               good = constant_time_ge_w (of_nat in_len) (of_nat overhead + padding_length);
               to_check = (if 256 > in_len then in_len else 256);
               good = padding_loop padding_length 0 (take to_check (rev inp)) good;
               good = constant_time_eq_w 0xff (good AND 0xff);
               padding_length = good AND (padding_length + 1)
           in Some (good, in_len - unat padding_length))"

section \<open>Copying the MAC\<close>

text \<open>
  The scan: \<open>rotated_mac\<close> collects the MAC's bytes by their position modulo \<open>md_size\<close>. The list is
  what remains of \<open>in\<close> from position \<open>i\<close> on.
\<close>

fun copy_mac_scan ::
  "nat \<Rightarrow> u64 \<Rightarrow> u64 \<Rightarrow> nat \<Rightarrow> nat \<Rightarrow> byte list \<Rightarrow> byte list \<Rightarrow> u64 \<Rightarrow> byte \<Rightarrow> byte list \<times> u64" where
  "copy_mac_scan md_size mac_start mac_end i j [] rotated_mac rotate_offset mac_started = (rotated_mac, rotate_offset)"
| "copy_mac_scan md_size mac_start mac_end i j (b # bs) rotated_mac rotate_offset mac_started =
     (let j = (if j \<ge> md_size then j - md_size else j);
          is_mac_start = constant_time_eq_w (of_nat i) mac_start;
          mac_started = mac_started OR ucast is_mac_start;
          mac_ended = constant_time_ge_8 (of_nat i) mac_end;
          rotated_mac = rotated_mac[j := rotated_mac ! j OR (b AND mac_started AND NOT mac_ended)];
          rotate_offset = rotate_offset OR (of_nat j AND is_mac_start)
      in copy_mac_scan md_size mac_start mac_end (i + 1) (j + 1) bs rotated_mac rotate_offset mac_started)"

text \<open>One rotation per bit of \<open>rotate_offset\<close>; \<open>offset\<close> starts at one and is never zero.\<close>

definition copy_mac_rotate_step :: "nat \<Rightarrow> nat \<Rightarrow> u64 \<Rightarrow> byte list \<Rightarrow> byte list" where
  "copy_mac_rotate_step md_size offset rotate_offset rotated_mac =
     (let skip_rotate = ucast ((rotate_offset AND 1) - 1) :: byte
      in map (\<lambda>i. let j = (if i + offset \<ge> md_size then i + offset - md_size else i + offset)
                  in constant_time_select_8 (ucast skip_rotate) (rotated_mac ! i) (rotated_mac ! j)) [0..<md_size])"

function copy_mac_rotate :: "nat \<Rightarrow> nat \<Rightarrow> u64 \<Rightarrow> byte list \<Rightarrow> byte list" where
  "copy_mac_rotate md_size offset rotate_offset rotated_mac =
     (if 0 < offset \<and> offset < md_size then
        copy_mac_rotate md_size (offset * 2) (drop_bit 1 rotate_offset)
          (copy_mac_rotate_step md_size offset rotate_offset rotated_mac)
      else rotated_mac)"
  by auto
termination copy_mac_rotate
  by (relation "measure (\<lambda>(md_size, offset, rotate_offset, rotated_mac). md_size - offset)") auto

declare copy_mac_rotate.simps [simp del]

text \<open>\<open>inp\<close> has \<open>orig_len\<close> bytes, of which the first \<open>in_len\<close> end with the MAC.\<close>

definition EVP_tls_cbc_copy_mac :: "nat \<Rightarrow> byte list \<Rightarrow> nat \<Rightarrow> nat \<Rightarrow> byte list" where
  "EVP_tls_cbc_copy_mac md_size inp in_len orig_len =
     (let mac_end = in_len;
          mac_start = mac_end - md_size;
          scan_start = (if orig_len > md_size + 255 + 1 then orig_len - (md_size + 255 + 1) else 0);
          (rotated_mac, rotate_offset) =
            copy_mac_scan md_size (of_nat mac_start) (of_nat mac_end) scan_start 0
              (drop scan_start (take orig_len inp)) (replicate md_size 0) 0 0
      in copy_mac_rotate md_size 1 rotate_offset rotated_mac)"

section \<open>Hashing data of a secret length\<close>

text \<open>
  \<open>EVP_sha1_final_with_secret_suffix\<close> and \<open>EVP_sha256_final_with_secret_suffix\<close> are the same text
  for a block function and a number of state words. The first definition fills the block of
  round \<open>i\<close>, of which the bytes from \<open>block_start\<close> on belong to the input from \<open>input_idx\<close> on; the
  second one sets the length in the last block.
\<close>

definition suffix_fill :: "'a md32_ctx_scheme \<Rightarrow> byte list \<Rightarrow> nat \<Rightarrow> nat \<Rightarrow> nat \<Rightarrow> nat \<Rightarrow> nat \<Rightarrow> byte list \<Rightarrow> byte list" where
  "suffix_fill ctx inp len max_len i block_start input_idx block =
     (let block = (if i = 0 then memcpy_at block 0 (take (md_num ctx) (md_data ctx)) else block);
          block =
            (if input_idx < max_len then
               let to_copy = 64 - block_start;
                   to_copy = (if to_copy > max_len - input_idx then max_len - input_idx else to_copy)
               in memcpy_at block block_start (take to_copy (drop input_idx inp))
             else block)
      in map (\<lambda>j. if j < block_start then block ! j
                  else
                    let idx = of_nat (input_idx + j - block_start) :: u64;
                        is_in_bounds = constant_time_lt_8 idx (of_nat len);
                        is_padding_byte = constant_time_eq_8 idx (of_nat len)
                    in (block ! j AND is_in_bounds) OR (0x80 AND is_padding_byte)) [0..<64])"

definition suffix_length :: "u64 \<Rightarrow> byte list \<Rightarrow> byte list \<Rightarrow> byte list" where
  "suffix_length is_last_block length_bytes block =
     take 60 block @ map (\<lambda>j. block ! (60 + j) OR ucast (is_last_block AND ucast (length_bytes ! j))) [0..<4]"

fun suffix_loop ::
  "block_func \<Rightarrow> 'a md32_ctx_scheme \<Rightarrow> byte list \<Rightarrow> nat \<Rightarrow> nat \<Rightarrow> nat \<Rightarrow> byte list \<Rightarrow>
     nat \<Rightarrow> nat \<Rightarrow> nat \<Rightarrow> byte list \<Rightarrow> u32 list \<Rightarrow> u32 list \<Rightarrow> u32 list" where
  "suffix_loop bf ctx inp len max_len last_block length_bytes 0 i input_idx block h result = result"
| "suffix_loop bf ctx inp len max_len last_block length_bytes (Suc n) i input_idx block h result =
     (let block_start = (if i = 0 then md_num ctx else 0);
          block = suffix_fill ctx inp len max_len i block_start input_idx block;
          input_idx = input_idx + (64 - block_start);
          is_last_block = constant_time_eq_w (of_nat i) (of_nat last_block);
          block = suffix_length is_last_block length_bytes block;
          h = bf h block 1;
          result = map (\<lambda>j. result ! j OR ucast (is_last_block AND ucast (h ! j))) [0..<length result]
      in suffix_loop bf ctx inp len max_len last_block length_bytes n (i + 1) input_idx block h result)"

definition final_with_secret_suffix ::
  "block_func \<Rightarrow> nat \<Rightarrow> 'a md32_ctx_scheme \<Rightarrow> byte list \<Rightarrow> nat \<Rightarrow> nat \<Rightarrow> byte list option" where
  "final_with_secret_suffix bf words ctx inp len max_len =
     (let max_len_bits = push_bit 3 (of_nat max_len) :: u64
      in if Nh ctx \<noteq> 0 \<or> drop_bit 3 max_len_bits \<noteq> of_nat max_len \<or>
            ucast (Nl ctx) + max_len_bits < max_len_bits \<or> ucast (Nl ctx) + max_len_bits > 0xffffffff
         then None
         else
           let num_blocks = (md_num ctx + len + 1 + 8 + 64 - 1) div 64;
               last_block = num_blocks - 1;
               max_blocks = (md_num ctx + max_len + 1 + 8 + 64 - 1) div 64;
               total_bits = ucast (Nl ctx) + push_bit 3 (of_nat len) :: u64;
               length_bytes = [ucast (drop_bit 24 total_bits), ucast (drop_bit 16 total_bits),
                               ucast (drop_bit 8 total_bits), ucast total_bits];
               result = suffix_loop bf ctx inp len max_len last_block length_bytes max_blocks 0 0
                 (replicate 64 0) (md_h ctx) (replicate words 0)
           in Some (concat (map CRYPTO_store_u32_be result)))"

definition EVP_sha1_final_with_secret_suffix :: "md32_ctx \<Rightarrow> byte list \<Rightarrow> nat \<Rightarrow> nat \<Rightarrow> byte list option" where
  "EVP_sha1_final_with_secret_suffix = final_with_secret_suffix sha1_block_data_order_nohw 5"

definition EVP_sha256_final_with_secret_suffix :: "sha256_ctx \<Rightarrow> byte list \<Rightarrow> nat \<Rightarrow> nat \<Rightarrow> byte list option" where
  "EVP_sha256_final_with_secret_suffix = final_with_secret_suffix sha256_block_data_order_nohw 8"

section \<open>The MAC of a record\<close>

text \<open>The key, padded with zeros to a block.\<close>

definition hmac_pad_init :: "byte list \<Rightarrow> byte list" where
  "hmac_pad_init mac_secret = memcpy_at (replicate 64 0) 0 mac_secret"

definition tls_cbc_digest_record_sha1 ::
  "byte list \<Rightarrow> byte list \<Rightarrow> nat \<Rightarrow> nat \<Rightarrow> byte list \<Rightarrow> byte list option" where
  "tls_cbc_digest_record_sha1 header data data_size data_plus_mac_plus_padding_size mac_secret =
     (if length mac_secret > 64 then None
      else
        let hmac_pad = map (\<lambda>b. b XOR 0x36) (hmac_pad_init mac_secret);
            ctx = SHA1_Update (SHA1_Update SHA1_Init hmac_pad) header;
            min_data_size =
              (if data_plus_mac_plus_padding_size > 20 + 256 then data_plus_mac_plus_padding_size - 20 - 256 else 0);
            ctx = SHA1_Update ctx (take min_data_size data)
        in case EVP_sha1_final_with_secret_suffix ctx (drop min_data_size data) (data_size - min_data_size)
                  (data_plus_mac_plus_padding_size - min_data_size) of
             None \<Rightarrow> None
           | Some mac_out \<Rightarrow>
               let hmac_pad = map (\<lambda>b. b XOR 0x6a) hmac_pad;
                   ctx = SHA1_Update (SHA1_Update SHA1_Init hmac_pad) mac_out
               in Some (fst (SHA1_Final ctx)))"

definition tls_cbc_digest_record_sha256 ::
  "byte list \<Rightarrow> byte list \<Rightarrow> nat \<Rightarrow> nat \<Rightarrow> byte list \<Rightarrow> byte list option" where
  "tls_cbc_digest_record_sha256 header data data_size data_plus_mac_plus_padding_size mac_secret =
     (if length mac_secret > 64 then None
      else
        let hmac_pad = map (\<lambda>b. b XOR 0x36) (hmac_pad_init mac_secret);
            ctx = SHA256_Update (SHA256_Update SHA256_Init hmac_pad) header;
            min_data_size =
              (if data_plus_mac_plus_padding_size > 32 + 256 then data_plus_mac_plus_padding_size - 32 - 256 else 0);
            ctx = SHA256_Update ctx (take min_data_size data)
        in case EVP_sha256_final_with_secret_suffix ctx (drop min_data_size data) (data_size - min_data_size)
                  (data_plus_mac_plus_padding_size - min_data_size) of
             None \<Rightarrow> None
           | Some mac_out \<Rightarrow>
               let hmac_pad = map (\<lambda>b. b XOR 0x6a) hmac_pad;
                   ctx = SHA256_Update (SHA256_Update SHA256_Init hmac_pad) mac_out
               in fst (SHA256_Final ctx))"

text \<open>The numbers of the digests are those of nid.h.\<close>

definition NID_sha1 :: nat where "NID_sha1 = 64"

definition NID_sha256 :: nat where "NID_sha256 = 672"

definition EVP_tls_cbc_record_digest_supported :: "nat \<Rightarrow> bool" where
  "EVP_tls_cbc_record_digest_supported md_type \<longleftrightarrow> md_type = NID_sha1 \<or> md_type = NID_sha256"

definition EVP_tls_cbc_digest_record ::
  "nat \<Rightarrow> byte list \<Rightarrow> byte list \<Rightarrow> nat \<Rightarrow> nat \<Rightarrow> byte list \<Rightarrow> byte list option" where
  "EVP_tls_cbc_digest_record md_type header data data_size data_plus_mac_plus_padding_size mac_secret =
     (if md_type = NID_sha1 then
        tls_cbc_digest_record_sha1 header data data_size data_plus_mac_plus_padding_size mac_secret
      else if md_type = NID_sha256 then
        tls_cbc_digest_record_sha256 header data data_size data_plus_mac_plus_padding_size mac_secret
      else None)"

end
