(* ===== verification/Tls_Cbc_Props.thy ===== *)
theory Tls_Cbc_Props
  imports Tls_Cbc
begin

text \<open>
  What the constant-time functions of tls_cbc.c compute, stated without masks: the padding that
  TLS requires, the MAC as a slice of the record, and HMAC of the record.
\<close>

section \<open>Padding\<close>

lemma bit_byte_lt: "bit b n \<Longrightarrow> n < 8" for b :: byte
  using bit_imp_le_length [of b n] by simp

lemma padding_loop_bit:
  assumes "i + length bs < 2 ^ 64" and "n < 8"
  shows "bit (padding_loop (ucast (p :: byte)) i bs good) n \<longleftrightarrow>
    bit good n \<and> (\<forall>k<length bs. i + k \<le> unat p \<longrightarrow> (bit p n \<longleftrightarrow> bit (bs ! k) n))"
  using assms(1)
proof (induction bs arbitrary: i good)
  case (Cons b bs)
  have le: "of_nat i \<le> (ucast p :: u64) \<longleftrightarrow> i \<le> unat p"
    using Cons.prems by (simp add: word_le_nat_alt unat_of_nat_less unat_ucast_byte)
  define G where "G = good AND NOT (ucast (constant_time_ge_8 (ucast p) (of_nat i)) AND (ucast p XOR ucast b))"
  have b: "bit G n \<longleftrightarrow>
      bit good n \<and> (i \<le> unat p \<longrightarrow> (bit p n \<longleftrightarrow> bit b n))"
    using assms(2) unfolding G_def by (cases "i \<le> unat p") (auto simp: masks_8 le bit_and_iff bit_or_iff bit_not_iff bit_xor_iff bit_ucast_iff)
  have "bit (padding_loop (ucast p) i (b # bs) good) n \<longleftrightarrow>
      (bit good n \<and> (i \<le> unat p \<longrightarrow> (bit p n \<longleftrightarrow> bit b n))) \<and>
      (\<forall>k<length bs. Suc i + k \<le> unat p \<longrightarrow> (bit p n \<longleftrightarrow> bit (bs ! k) n))"
    using Cons.IH [of "i + 1" G] Cons.prems unfolding padding_loop.simps Let_def G_def [symmetric] by (simp add: b)
  then show ?case by (auto simp: All_less_Suc2)
qed simp

lemma low_byte: "x AND 0xff = 0xff \<longleftrightarrow> (\<forall>n<8. bit x n)" for x :: u64
proof -
  have "x AND 0xff = x AND mask 8" by (simp add: mask_eq_exp_minus_1)
  moreover have "(0xff :: u64) = mask 8" by (simp add: mask_eq_exp_minus_1)
  ultimately have "x AND 0xff = 0xff \<longleftrightarrow> x AND mask 8 = (mask 8 :: u64)" by simp
  also have "\<dots> \<longleftrightarrow> (\<forall>n<64. n < 8 \<longrightarrow> bit x n)"
    by (auto simp: bit_eq_iff bit_and_iff bit_mask_iff)
  finally show ?thesis by auto
qed

lemma byte_bits_eq: "(\<forall>n<8. bit a n \<longleftrightarrow> bit b n) \<longleftrightarrow> a = b" for a b :: byte
  by (auto simp: bit_eq_iff dest: bit_byte_lt)

lemma last_bytes_iff:
  assumes "p < length xs"
  shows "(\<forall>k\<le>p. rev xs ! k = b) \<longleftrightarrow> drop (length xs - (p + 1)) xs = replicate (p + 1) b"
proof -
  have "drop (length xs - (p + 1)) xs = rev (take (p + 1) (rev xs))" using assms by (simp add: take_rev)
  also have "\<dots> = replicate (p + 1) b \<longleftrightarrow> take (p + 1) (rev xs) = replicate (p + 1) b"
    by (metis rev_replicate rev_rev_ident)
  also have "\<dots> \<longleftrightarrow> (\<forall>k\<le>p. rev xs ! k = b)"
    using assms by (auto simp: list_eq_iff_nth_eq less_Suc_eq_le simp del: replicate_Suc)
  finally show ?thesis by simp
qed

text \<open>The padding of a record is its last byte, repeated as often as it says.\<close>

definition tls_padding_ok :: "nat \<Rightarrow> byte list \<Rightarrow> bool" where
  "tls_padding_ok mac_size inp \<longleftrightarrow>
     (let p = unat (last inp)
      in 1 + mac_size + p \<le> length inp \<and> drop (length inp - (p + 1)) inp = replicate (p + 1) (last inp))"

text \<open>
  C10. On a record with room
  for MAC and length byte, \<open>EVP_tls_cbc_remove_padding\<close> answers all ones and the length without the
  padding, or zero and the full length when the padding is wrong.
\<close>

theorem tls_cbc_remove_padding_correct:
  assumes "length inp < 2 ^ 63"
  shows "EVP_tls_cbc_remove_padding inp block_size mac_size =
    (if 1 + mac_size > length inp then None
     else if tls_padding_ok mac_size inp then Some (- 1, length inp - (unat (last inp) + 1))
     else Some (0, length inp))"
proof (cases "1 + mac_size > length inp")
  case False
  then have ne: "inp \<noteq> []" and mac: "1 + mac_size \<le> length inp" by auto
  define b p where "b = last inp" and "p = unat b"
  have p: "p < 256" using byte_lt_256 [of b] by (simp add: p_def)
  have last: "inp ! (length inp - 1) = b" using ne by (simp add: b_def last_conv_nth)
  define g0 where "g0 = constant_time_ge_w (of_nat (length inp)) (of_nat (1 + mac_size) + (ucast b :: u64))"
  have sum: "unat (of_nat (1 + mac_size) + (ucast b :: u64)) = 1 + mac_size + p"
  proof -
    have "1 + mac_size + p < 2 ^ 64" using mac assms p by simp
    then show ?thesis by (simp add: unat_word_ariths unat_of_nat p_def del: of_nat_Suc of_nat_add)
  qed
  have len: "unat (of_nat (length inp) :: u64) = length inp" using assms by (intro unat_of_nat_less) simp
  have g0: "g0 = (if 1 + mac_size + p \<le> length inp then - 1 else 0)"
    unfolding g0_def ge_w word_le_nat_alt sum len by simp
  let ?n = "if 256 > length inp then length inp else 256"
  define g where "g = padding_loop (ucast b) 0 (take ?n (rev inp)) g0"
  have "g AND 0xff = 0xff \<longleftrightarrow> (\<forall>n<8. bit g n)" by (rule low_byte)
  also have "\<dots> \<longleftrightarrow> (\<forall>n<8. bit g0 n \<and> (\<forall>k<?n. k \<le> p \<longrightarrow> (bit b n \<longleftrightarrow> bit (rev inp ! k) n)))"
    unfolding g_def by (auto simp: padding_loop_bit p_def)
  also have "\<dots> \<longleftrightarrow> g0 \<noteq> 0 \<and> (\<forall>k<?n. k \<le> p \<longrightarrow> rev inp ! k = b)"
    unfolding g0 by (cases "1 + mac_size + p \<le> length inp") (auto simp flip: byte_bits_eq intro: exI [of _ "0 :: nat"])
  also have "\<dots> \<longleftrightarrow> 1 + mac_size + p \<le> length inp \<and> drop (length inp - (p + 1)) inp = replicate (p + 1) b"
  proof (cases "1 + mac_size + p \<le> length inp")
    case True
    then have "(\<forall>k<?n. k \<le> p \<longrightarrow> rev inp ! k = b) \<longleftrightarrow> (\<forall>k\<le>p. rev inp ! k = b)" using p by auto
    also have "\<dots> \<longleftrightarrow> drop (length inp - (p + 1)) inp = replicate (p + 1) b" using True by (intro last_bytes_iff) simp
    finally show ?thesis using True by (simp add: g0)
  qed (simp add: g0)
  also have "\<dots> \<longleftrightarrow> tls_padding_ok mac_size inp"
    by (simp only: tls_padding_ok_def Let_def b_def p_def)
  finally have "g AND 0xff = 0xff \<longleftrightarrow> tls_padding_ok mac_size inp" .
  then have ok: "0xff = g AND 0xff \<longleftrightarrow> tls_padding_ok mac_size inp" by metis
  have u: "unat ((ucast b :: u64) + 1) = p + 1"
  proof -
    have "p + 1 < 2 ^ 64" using p by simp
    then show ?thesis by (simp add: unat_word_ariths p_def)
  qed
  define k where "k = constant_time_eq_w 0xff (g AND 0xff)"
  have "EVP_tls_cbc_remove_padding inp block_size mac_size = Some (k, length inp - unat (k AND (ucast b + 1)))"
    using False unfolding EVP_tls_cbc_remove_padding_def Let_def last g0_def [symmetric] g_def [symmetric] k_def [symmetric]
    by (simp only: if_False)
  moreover have "k = (if tls_padding_ok mac_size inp then - 1 else 0)" unfolding k_def eq_w ok ..
  ultimately show ?thesis using False u by (simp add: p_def b_def)
qed (simp add: EVP_tls_cbc_remove_padding_def)

theorem tls_cbc_remove_padding_correct_witness:
  "EVP_tls_cbc_remove_padding [7, 1, 2, 3, 2, 2, 2] 16 3 = Some (- 1, 4) \<and>
   EVP_tls_cbc_remove_padding [7, 1, 2, 3, 1, 2, 2] 16 3 = Some (0, 7)"
proof -
  have "tls_padding_ok 3 [7, 1, 2, 3, 2, 2, 2]" "\<not> tls_padding_ok 3 [7, 1, 2, 3, 1, 2, 2]" by code_simp+
  then show ?thesis
    using tls_cbc_remove_padding_correct [of "[7, 1, 2, 3, 2, 2, 2]" 16 3]
      tls_cbc_remove_padding_correct [of "[7, 1, 2, 3, 1, 2, 2]" 16 3]
    by simp
qed

section \<open>The MAC\<close>

text \<open>The position in the record from which slot \<open>k\<close> of the rotated MAC comes.\<close>

definition mac_pos :: "nat \<Rightarrow> nat \<Rightarrow> nat \<Rightarrow> nat \<Rightarrow> nat" where
  "mac_pos m s ms k = ms + (k + (m - (ms - s) mod m)) mod m"

lemma mac_pos_hit:
  assumes "s \<le> ms" and "0 < m" and "ms \<le> i" and "i < ms + m"
  shows "mac_pos m s ms ((i - s) mod m) = i"
proof -
  obtain d where d: "i = ms + d" "d < m" using assms(3,4) by (metis add_less_cancel_left le_Suc_ex)
  obtain e where e: "ms = s + e" using assms(1) by (metis le_Suc_ex)
  have "((e + d) mod m + (m - e mod m)) mod m = (e + d + (m - e mod m)) mod m" by (simp add: mod_simps)
  also have "e + d + (m - e mod m) = d + (e - e mod m) + m" using mod_less_eq_dividend [of e m] mod_less_divisor [OF assms(2), of e] by linarith
  also have "(d + (e - e mod m) + m) mod m = d" using d(2) by (simp add: minus_mod_eq_mult_div)
  finally show ?thesis by (simp add: mac_pos_def d e)
qed

lemma mac_pos_inj:
  assumes "s \<le> ms" and "0 < m" and "k < m" and "mac_pos m s ms k = i"
  shows "k = (i - s) mod m"
proof -
  obtain e where e: "ms = s + e" using assms(1) by (metis le_Suc_ex)
  have "i = s + (e + (k + (m - e mod m)) mod m)" using assms(4) by (simp add: mac_pos_def e)
  then have "(i - s) mod m = (e + (k + (m - e mod m)) mod m) mod m" by simp
  also have "\<dots> = (e + (k + (m - e mod m))) mod m" by (simp add: mod_simps)
  also have "e + (k + (m - e mod m)) = k + (e - e mod m) + m" using mod_less_eq_dividend [of e m] mod_less_divisor [OF assms(2), of e] by linarith
  also have "(k + (e - e mod m) + m) mod m = k" using assms(3) by (simp add: minus_mod_eq_mult_div)
  finally show ?thesis ..
qed

text \<open>The scan keeps what it has seen of the MAC.\<close>

definition mac_seen :: "byte list \<Rightarrow> nat \<Rightarrow> nat \<Rightarrow> nat \<Rightarrow> nat \<Rightarrow> byte list" where
  "mac_seen X m s ms i = map (\<lambda>k. if mac_pos m s ms k < i then X ! mac_pos m s ms k else 0) [0..<m]"

lemma mac_seen_step:
  assumes "s \<le> ms" and "0 < m" and "s \<le> i"
  shows "(mac_seen X m s ms i)[(i - s) mod m := mac_seen X m s ms i ! ((i - s) mod m) OR
      (if ms \<le> i \<and> i < ms + m then X ! i else 0)] = mac_seen X m s ms (Suc i)"
proof (rule nth_equalityI)
  fix k assume "k < length ((mac_seen X m s ms i)[(i - s) mod m := mac_seen X m s ms i ! ((i - s) mod m) OR
      (if ms \<le> i \<and> i < ms + m then X ! i else 0)])"
  then have k: "k < m" by (simp add: mac_seen_def)
  have r: "ms \<le> mac_pos m s ms k" "mac_pos m s ms k < ms + m" using assms(2) by (simp_all add: mac_pos_def)
  show "(mac_seen X m s ms i)[(i - s) mod m := mac_seen X m s ms i ! ((i - s) mod m) OR
      (if ms \<le> i \<and> i < ms + m then X ! i else 0)] ! k = mac_seen X m s ms (Suc i) ! k"
  proof (cases "k = (i - s) mod m")
    case True
    have "ms \<le> i \<Longrightarrow> i < ms + m \<Longrightarrow> mac_pos m s ms k = i" using mac_pos_hit [OF assms(1,2)] True by simp
    then show ?thesis using k True r by (auto simp: mac_seen_def less_Suc_eq)
  next
    case False
    then have "mac_pos m s ms k \<noteq> i" using mac_pos_inj [OF assms(1,2) k] by blast
    then show ?thesis using k False by (auto simp: mac_seen_def less_Suc_eq)
  qed
qed (simp add: mac_seen_def)

lemma copy_mac_scan:
  assumes "s \<le> ms" and "0 < m" and "length X < 2 ^ 63" and "ms + m \<le> length X" and "m < 2 ^ 63"
    and "s \<le> i" and "bs = drop i X" and "i \<le> length X"
    and "j = (if i = s then 0 else (i - 1 - s) mod m + 1)"
    and "off = (if ms < i then of_nat ((ms - s) mod m) else 0)" and "st = (if ms < i then - 1 else 0)"
  shows "copy_mac_scan m (of_nat ms) (of_nat (ms + m)) i j bs (mac_seen X m s ms i) off st =
    (mac_seen X m s ms (length X), of_nat ((ms - s) mod m))"
  using assms(6-11)
proof (induction bs arbitrary: i j off st)
  case Nil
  then have "length X \<le> i" by simp
  then have i: "i = length X" using Nil.prems by simp
  moreover have "ms < length X" using assms(2,4) by linarith
  ultimately show ?case using Nil.prems by simp
next
  case (Cons b bs)
  have i: "i < length X" using Cons.prems(2) by (metis drop_all list.distinct(1) not_le)
  have b: "b = X ! i" "bs = drop (Suc i) X" using Cons.prems(2) i by (simp_all add: Cons_nth_drop_Suc [symmetric])
  define j1 where "j1 = (if j \<ge> m then j - m else j)"
  have j1: "j1 = (i - s) mod m"
  proof (cases "i = s")
    case False
    then have e: "i - s = Suc (i - 1 - s)" using Cons.prems(1) by simp
    have "(i - 1 - s) mod m < m" using assms(2) by simp
    then show ?thesis using False Cons.prems(4) unfolding j1_def e mod_Suc by auto
  qed (use Cons.prems(4) assms(2) in \<open>simp add: j1_def\<close>)
  have lt: "i < 2 ^ 64" "ms < 2 ^ 64" "ms + m < 2 ^ 64" using i assms(3,4) by simp_all
  have w: "(of_nat i :: u64) = of_nat ms \<longleftrightarrow> i = ms" "of_nat (ms + m) \<le> (of_nat i :: u64) \<longleftrightarrow> ms + m \<le> i"
    using lt by (simp_all add: word_unat_eq_iff word_le_nat_alt unat_of_nat del: of_nat_add)
  define st' where "st' = (if ms < Suc i then - 1 else 0 :: byte)"
  have st': "st OR ucast (constant_time_eq_w (of_nat i) (of_nat ms)) = st'"
    using Cons.prems(6) by (auto simp: eq_w w st'_def)
  have trm: "b AND st' AND NOT (constant_time_ge_8 (of_nat i) (of_nat (ms + m))) =
      (if ms \<le> i \<and> i < ms + m then X ! i else 0)"
    unfolding masks_8 w st'_def b by auto
  have off': "off OR (of_nat ((i - s) mod m) AND constant_time_eq_w (of_nat i) (of_nat ms)) =
      (if ms < Suc i then of_nat ((ms - s) mod m) else 0)"
    using Cons.prems(5) by (auto simp: eq_w w less_Suc_eq)
  have "copy_mac_scan m (of_nat ms) (of_nat (ms + m)) i j (b # bs) (mac_seen X m s ms i) off st =
      copy_mac_scan m (of_nat ms) (of_nat (ms + m)) (i + 1) (j1 + 1) bs (mac_seen X m s ms (i + 1))
        (if ms < i + 1 then of_nat ((ms - s) mod m) else 0) st'"
    using mac_seen_step [OF assms(1,2) Cons.prems(1), of X]
    unfolding copy_mac_scan.simps Let_def j1_def [symmetric] j1 st' trm off' by simp
  also have "\<dots> = (mac_seen X m s ms (length X), of_nat ((ms - s) mod m))"
    using Cons.prems(1) i b by (intro Cons.IH) (simp_all add: j1 st'_def)
  finally show ?case .
qed

lemma rotate_step_nth:
  assumes "k < m" and "offset < m" and "length r = m"
  shows "copy_mac_rotate_step m offset ro r ! k = r ! ((k + offset * (unat ro mod 2)) mod m)"
proof -
  have "odd (unat ro) \<longleftrightarrow> bit ro 0" using bit_iff_odd_unat [of ro 0] by simp
  then have odd: "ro AND 1 = (if odd (unat ro) then 1 else 0)"
    by (intro bit_word_eqI) (auto simp: bit_and_iff bit_1_iff simp del: bit_0 intro!: gr0I)
  have "(k + offset) mod m = (if k + offset \<ge> m then k + offset - m else k + offset)"
    using assms(1,2) by (simp add: mod_if)
  then show ?thesis using assms unfolding copy_mac_rotate_step_def Let_def odd
    by (cases "odd (unat ro)") (simp_all add: select_8_mask constant_time_select_8_def odd_iff_mod_2_eq_one)
qed

lemma length_rotate [simp]: "length r = m \<Longrightarrow> length (copy_mac_rotate m offset ro r) = m"
proof (induction m offset ro r rule: copy_mac_rotate.induct)
  case (1 m offset ro r)
  then show ?case by (subst copy_mac_rotate.simps) (simp add: copy_mac_rotate_step_def Let_def)
qed

lemma rotate_nth:
  "k < m \<Longrightarrow> 0 < offset \<Longrightarrow> length r = m \<Longrightarrow> offset * unat ro < m \<Longrightarrow>
    copy_mac_rotate m offset ro r ! k = r ! ((k + offset * unat ro) mod m)"
proof (induction m offset ro r rule: copy_mac_rotate.induct)
  case (1 m offset ro r)
  show ?case
  proof (cases "offset < m")
    case True
    define q where "q = unat ro div 2"
    have u: "unat ro = 2 * q + unat ro mod 2" "unat (drop_bit 1 ro) = q" by (simp_all add: q_def unat_drop_bit)
    have lt: "offset * 2 * q < m" using "1.prems"(4) u(1) by (metis add_lessD1 distrib_left mult.assoc)
    have "copy_mac_rotate m offset ro r ! k =
        copy_mac_rotate_step m offset ro r ! ((k + offset * 2 * q) mod m)"
      using "1.IH" True "1.prems" u(2) lt
      by (subst copy_mac_rotate.simps) (simp add: copy_mac_rotate_step_def Let_def)
    also have "\<dots> = r ! (((k + offset * 2 * q) mod m + offset * (unat ro mod 2)) mod m)"
      using True "1.prems" by (intro rotate_step_nth) simp_all
    also have "((k + offset * 2 * q) mod m + offset * (unat ro mod 2)) mod m = (k + offset * unat ro) mod m"
      using u(1) by (simp add: mod_simps) (metis add.assoc distrib_left mult.assoc)
    finally show ?thesis .
  next
    case False
    then have "unat ro = 0" using "1.prems"(4) by (metis mult_is_0 le_less_trans mult_le_mono2 not_le mult_1_right Suc_leI neq0_conv One_nat_def)
    then show ?thesis using False "1.prems" by (subst copy_mac_rotate.simps) simp
  qed
qed

text \<open>
  The MAC of a record of \<open>orig_len\<close> bytes ends at the secret position \<open>in_len\<close>, at most 256 bytes
  before the end; \<open>EVP_tls_cbc_copy_mac\<close> returns it. The function's assertions are the hypotheses.
\<close>

theorem tls_cbc_copy_mac_correct:
  assumes "0 < md_size" and "md_size \<le> in_len" and "in_len \<le> orig_len" and "orig_len \<le> in_len + 256"
    and "orig_len \<le> length inp" and "orig_len < 2 ^ 63"
  shows "EVP_tls_cbc_copy_mac md_size inp in_len orig_len = take md_size (drop (in_len - md_size) inp)"
proof -
  define X where "X = take orig_len inp"
  define s where "s = (if orig_len > md_size + 255 + 1 then orig_len - (md_size + 255 + 1) else 0)"
  define ms where "ms = in_len - md_size"
  have X: "length X = orig_len" using assms(5) by (simp add: X_def)
  have s: "s \<le> ms" using assms(2,3,4) unfolding s_def ms_def by (auto intro: diff_le_mono)
  have me: "ms + md_size = in_len" using assms(2) by (simp add: ms_def)
  have seen0: "mac_seen X md_size s ms s = replicate md_size 0"
    using s by (auto simp: mac_seen_def mac_pos_def map_replicate_const)
  have "copy_mac_scan md_size (of_nat ms) (of_nat (ms + md_size)) s 0 (drop s X) (mac_seen X md_size s ms s) 0 0 =
      (mac_seen X md_size s ms (length X), of_nat ((ms - s) mod md_size))"
    using assms s X me by (intro copy_mac_scan) simp_all
  then have scan: "copy_mac_scan md_size (of_nat ms) (of_nat in_len) s 0 (drop s X) (replicate md_size 0) 0 0 =
      (mac_seen X md_size s ms (length X), of_nat ((ms - s) mod md_size))"
    unfolding seen0 me .
  define ro where "ro = (ms - s) mod md_size"
  have ro: "ro < md_size" using assms(1) by (simp add: ro_def)
  have "unat (of_nat ro :: u64) = ro" using ro assms by (intro unat_of_nat_less) simp
  then have u: "1 * unat (of_nat ro :: u64) = ro" by simp
  have "EVP_tls_cbc_copy_mac md_size inp in_len orig_len =
      copy_mac_rotate md_size 1 (of_nat ro) (mac_seen X md_size s ms (length X))"
    unfolding EVP_tls_cbc_copy_mac_def Let_def ms_def [symmetric] s_def [symmetric] X_def [symmetric] scan
    by (simp add: ro_def)
  also have "\<dots> = take md_size (drop ms inp)"
  proof (rule nth_equalityI)
    have l: "length (mac_seen X md_size s ms (length X)) = md_size" by (simp add: mac_seen_def)
    then show "length (copy_mac_rotate md_size 1 (of_nat ro) (mac_seen X md_size s ms (length X))) =
        length (take md_size (drop ms inp))"
      using assms(3,5) me by simp
    fix k assume "k < length (copy_mac_rotate md_size 1 (of_nat ro) (mac_seen X md_size s ms (length X)))"
    then have k: "k < md_size" using l by simp
    have p: "mac_pos md_size s ms ((k + ro) mod md_size) = ms + k"
      using mac_pos_hit [OF s assms(1), of "ms + k"] k s
      by (simp add: ro_def mod_simps) (metis Nat.add_diff_assoc2 add.commute)
    have "copy_mac_rotate md_size 1 (of_nat ro) (mac_seen X md_size s ms (length X)) ! k =
        mac_seen X md_size s ms (length X) ! ((k + 1 * unat (of_nat ro :: u64)) mod md_size)"
      using k l ro u by (intro rotate_nth) simp_all
    also have "\<dots> = X ! (ms + k)"
      using k X me assms(1,3) unfolding u by (simp add: mac_seen_def p)
    finally show "copy_mac_rotate md_size 1 (of_nat ro) (mac_seen X md_size s ms (length X)) ! k =
        take md_size (drop ms inp) ! k"
      using k me assms(3,5) by (simp add: X_def)
  qed
  finally show ?thesis by (simp add: ms_def)
qed

theorem tls_cbc_copy_mac_correct_witness:
  "EVP_tls_cbc_copy_mac 3 [1, 2, 3, 4, 5, 6, 7, 8] 5 8 = [3, 4, 5]"
  using tls_cbc_copy_mac_correct [of 3 5 8 "[1, 2, 3, 4, 5, 6, 7, 8]"] by simp

end
