(* ===== verification/Tls_Mac_Props.thy ===== *)
theory Tls_Mac_Props
  imports Tls_Cbc
begin

text \<open>
  The hash of data of a secret length is the ordinary hash, for every block function of the
  collector, and the record digest of tls_cbc.c is HMAC.
\<close>

section \<open>The blocks of a secret suffix\<close>

text \<open>
  Byte \<open>q\<close> of the bytes hashed after the complete blocks: the partial block \<open>d\<close>, the input up to
  its secret length, the padding byte and zeros.
\<close>

definition suffix_byte :: "byte list \<Rightarrow> byte list \<Rightarrow> nat \<Rightarrow> nat \<Rightarrow> byte" where
  "suffix_byte d inp len q =
     (if q < length d then d ! q
      else if q - length d < len then inp ! (q - length d)
      else if q - length d = len then 0x80 else 0)"

lemma length_suffix_fill [simp]: "length (suffix_fill ctx inp len max_len i block_start input_idx block) = 64"
  by (simp add: suffix_fill_def Let_def)

lemma suffix_fill_nth:
  assumes d: "take (md_num ctx) (md_data ctx) = d" "length d = md_num ctx" "length d < 64"
    and len: "len \<le> max_len" "max_len \<le> length inp" "max_len < 2 ^ 60" and i: "i < 2 ^ 57"
    and block: "length block = 64" and j: "j < 64"
    and idx: "block_start = (if i = 0 then length d else 0)" "input_idx = (if i = 0 then 0 else 64 * i - length d)"
  shows "suffix_fill ctx inp len max_len i block_start input_idx block ! j = suffix_byte d inp len (64 * i + j)"
proof -
  define b1 where "b1 = (if i = 0 then memcpy_at block 0 d else block)"
  have b1: "length b1 = 64" "i = 0 \<Longrightarrow> j < length d \<Longrightarrow> b1 ! j = d ! j"
    using block d j by (simp_all add: b1_def nth_memcpy_at)
  define tc where "tc = (if 64 - block_start > max_len - input_idx then max_len - input_idx else 64 - block_start)"
  define b2 where "b2 = (if input_idx < max_len then memcpy_at b1 block_start (take tc (drop input_idx inp)) else b1)"
  have src: "length (take tc (drop input_idx inp)) = tc" if "input_idx < max_len" using len that by (auto simp: tc_def)
  have bs: "block_start < 64" using idx d by (simp split: if_splits)
  have tc: "block_start + tc \<le> 64" using bs by (auto simp: tc_def)
  have b2: "input_idx < max_len \<Longrightarrow> b2 ! j =
      (if block_start \<le> j \<and> j < block_start + tc then take tc (drop input_idx inp) ! (j - block_start) else b1 ! j)"
    using src tc b1(1) j by (simp add: b2_def nth_memcpy_at)
  have fill: "suffix_fill ctx inp len max_len i block_start input_idx block ! j =
      (if j < block_start then b2 ! j
       else let k = of_nat (input_idx + j - block_start) :: u64
            in (b2 ! j AND constant_time_lt_8 k (of_nat len)) OR (0x80 AND constant_time_eq_8 k (of_nat len)))"
    unfolding suffix_fill_def Let_def d(1) b1_def [symmetric] tc_def [symmetric] b2_def [symmetric] using j by simp
  show ?thesis
  proof (cases "j < block_start")
    case True
    then have "i = 0" "j < length d" using idx by (simp_all split: if_splits)
    then show ?thesis using True b1(2) b2 unfolding fill
      by (cases "input_idx < max_len") (simp_all add: b2_def suffix_byte_def)
  next
    case False
    define k where "k = input_idx + j - block_start"
    have k: "k = 64 * i + j - length d" "\<not> 64 * i + j < length d" "input_idx \<le> k"
      using idx d(3) False by (auto simp: k_def split: if_splits)
    have lt: "k < 2 ^ 64" "len < 2 ^ 64" using k(1) i j len by simp_all
    have w: "of_nat k < (of_nat len :: u64) \<longleftrightarrow> k < len" "of_nat k = (of_nat len :: u64) \<longleftrightarrow> k = len"
      using lt by (simp_all add: word_less_nat_alt word_unat_eq_iff unat_of_nat)
    have "b2 ! j = inp ! k" if "k < len"
    proof -
      have m: "input_idx < max_len" "j - block_start < tc" using that len k(3) j False by (auto simp: tc_def k_def)
      moreover have "j < block_start + tc" using m(2) False by linarith
      ultimately show ?thesis using b2 False len by (simp add: k_def)
    qed
    then show ?thesis using False k(2)
      unfolding fill Let_def k_def [symmetric] masks_8 w suffix_byte_def k(1) [symmetric] by auto
  qed
qed

text \<open>The blocks as slices of the padded bytes \<open>P\<close>, in which the last four bytes are the length.\<close>

definition suffix_padded :: "byte list \<Rightarrow> byte list \<Rightarrow> nat \<Rightarrow> byte list \<Rightarrow> nat \<Rightarrow> byte list \<Rightarrow> bool" where
  "suffix_padded d inp len length_bytes nb P \<longleftrightarrow>
     0 < nb \<and> length P = 64 * nb \<and> length length_bytes = 4 \<and>
     (\<forall>q<64 * nb - 4. P ! q = suffix_byte d inp len q) \<and>
     (\<forall>j<4. suffix_byte d inp len (64 * nb - 4 + j) = 0 \<and> P ! (64 * nb - 4 + j) = length_bytes ! j)"

lemma suffix_length_nth:
  "length block = 64 \<Longrightarrow> j < 64 \<Longrightarrow> suffix_length m lb block ! j =
    (if j < 60 then block ! j else block ! j OR ucast (m AND ucast (lb ! (j - 60))))"
  by (auto simp: suffix_length_def nth_append)

lemma length_suffix_length [simp]: "length block = 64 \<Longrightarrow> length (suffix_length m lb block) = 64"
  by (simp add: suffix_length_def)

lemma suffix_block:
  assumes P: "suffix_padded d inp len lb nb P" and "i < nb" and "length F = 64"
    and F: "\<And>j. j < 64 \<Longrightarrow> F ! j = suffix_byte d inp len (64 * i + j)"
  shows "suffix_length (if i = nb - 1 then - 1 else 0) lb F = take 64 (drop (64 * i) P)"
proof (rule nth_equalityI)
  have L: "length P = 64 * nb" and q: "\<And>q. q < 64 * nb - 4 \<Longrightarrow> P ! q = suffix_byte d inp len q"
    and t: "\<And>j. j < 4 \<Longrightarrow> suffix_byte d inp len (64 * nb - 4 + j) = 0 \<and> P ! (64 * nb - 4 + j) = lb ! j"
    using P by (auto simp: suffix_padded_def)
  have le: "64 * i + 64 \<le> 64 * nb" using assms(2) by simp
  show "length (suffix_length (if i = nb - 1 then - 1 else 0) lb F) = length (take 64 (drop (64 * i) P))"
    using assms(3) L le by (simp add: length_suffix_length)
  fix j assume "j < length (suffix_length (if i = nb - 1 then - 1 else 0) lb F)"
  then have j: "j < 64" using assms(3) by simp
  have r: "take 64 (drop (64 * i) P) ! j = P ! (64 * i + j)" using j L le by simp
  show "suffix_length (if i = nb - 1 then - 1 else 0) lb F ! j = take 64 (drop (64 * i) P) ! j"
  proof (cases "i = nb - 1 \<and> 60 \<le> j")
    case True
    then have e: "64 * i + j = 64 * nb - 4 + (j - 60)" using assms(2) by simp
    have "j - 60 < 4" using True j by simp
    from t [OF this] have "suffix_byte d inp len (64 * i + j) = 0" "P ! (64 * i + j) = lb ! (j - 60)"
      unfolding e by blast+
    then show ?thesis unfolding r using True j assms(3) F [OF j] by (simp add: suffix_length_nth)
  next
    case False
    then have "64 * i + j < 64 * nb - 4" using j assms(2) by auto
    then show ?thesis unfolding r using False j assms(3) F [OF j] q
      by (cases "i = nb - 1") (auto simp: suffix_length_nth)
  qed
qed

lemma ucast_u32_back: "ucast (ucast (x :: u32) :: u64) = x"
  by (rule bit_word_eqI) (simp add: bit_ucast_iff)

context md_block
begin

lemma suffix_loop:
  assumes bs64: "bs = 64" and w: "\<And>h M. length (compress h M) = words"
    and d: "take (md_num ctx) (md_data ctx) = d" "length d = md_num ctx" "length d < 64"
    and len: "len \<le> max_len" "max_len \<le> length inp" "max_len < 2 ^ 60"
    and P: "suffix_padded d inp len lb nb P" and nb: "nb < 2 ^ 57"
  shows "i + n < 2 ^ 57 \<Longrightarrow> nb \<le> i + n \<Longrightarrow> length block = 64 \<Longrightarrow>
    input_idx = (if i = 0 then 0 else 64 * i - length d) \<Longrightarrow> (i < nb \<Longrightarrow> result = replicate words 0) \<Longrightarrow>
    suffix_loop bf ctx inp len max_len (nb - 1) lb n i input_idx block h result =
      (if i < nb then foldl compress h (chunks 64 (drop (64 * i) P)) else result)"
proof (induction n arbitrary: i input_idx block h result)
  case (Suc n)
  define block_start where "block_start = (if i = 0 then md_num ctx else 0)"
  define F where "F = suffix_fill ctx inp len max_len i block_start input_idx block"
  define m :: u64 where "m = (if i = nb - 1 then - 1 else 0)"
  define B where "B = suffix_length m lb F"
  define h' where "h' = bf h B 1"
  define result' where "result' = map (\<lambda>j. result ! j OR ucast (m AND ucast (h' ! j))) [0..<length result]"
  have nb0: "0 < nb" and L: "length P = 64 * nb" using P by (auto simp: suffix_padded_def)
  have "i < 2 ^ 64" "nb - 1 < 2 ^ 64" using Suc.prems(1) nb by simp_all
  then have m: "constant_time_eq_w (of_nat i) (of_nat (nb - 1)) = m"
    by (simp add: eq_w m_def word_unat_eq_iff unat_of_nat del: of_nat_diff)
  have F64: "length F = 64" and B64: "length B = 64" by (simp_all add: F_def B_def)
  have h': "h' = compress h B" using one_block [of B h] bs64 B64 by (simp add: h'_def)
  have idx: "input_idx + (64 - block_start) = (if i + 1 = 0 then 0 else 64 * (i + 1) - length d)"
    using Suc.prems(4) d by (auto simp: block_start_def)
  have step: "suffix_loop bf ctx inp len max_len (nb - 1) lb (Suc n) i input_idx block h result =
      suffix_loop bf ctx inp len max_len (nb - 1) lb n (i + 1) (input_idx + (64 - block_start)) B h' result'"
    unfolding suffix_loop.simps Let_def block_start_def [symmetric] F_def [symmetric] m B_def [symmetric]
      h'_def [symmetric] result'_def [symmetric] ..
  show ?case
  proof (cases "i < nb")
    case True
    have F: "F ! j = suffix_byte d inp len (64 * i + j)" if "j < 64" for j
      unfolding F_def using Suc.prems(1,3,4) that
      by (intro suffix_fill_nth [OF d len]) (simp_all add: block_start_def d)
    have B: "B = take 64 (drop (64 * i) P)" unfolding B_def m_def by (rule suffix_block [OF P True F64 F])
    have "drop (64 * (i + 1)) P = drop 64 (drop (64 * i) P)" by (simp add: add.commute)
    then have dr: "drop (64 * i) P = B @ drop (64 * (i + 1)) P" unfolding B by (simp only: append_take_drop_id)
    have ch: "chunks 64 (drop (64 * i) P) = B # chunks 64 (drop (64 * (i + 1)) P)"
      unfolding dr using chunks_append [of B 1 64 "drop (64 * (i + 1)) P"] B64 by (simp add: chunks_one)
    have lr: "length result = words" "length h' = words" using Suc.prems(5) True by (simp_all add: h' w)
    show ?thesis
    proof (cases "i = nb - 1")
      case last: True
      have "result' = h'" using last lr Suc.prems(5) True
        by (intro nth_equalityI) (simp_all add: result'_def m_def ucast_u32_back)
      moreover have "drop (64 * (i + 1)) P = []" using L last nb0 by simp
      then have ch1: "chunks 64 (drop (64 * i) P) = [B]" unfolding ch by simp
      moreover have "\<not> i + 1 < nb" using last by simp
      ultimately show ?thesis unfolding step ch1 using Suc.prems(1,2) True idx B64
        by (subst Suc.IH) (simp_all add: h')
    next
      case False
      have "result' = result" using False by (intro nth_equalityI) (simp_all add: result'_def m_def)
      moreover have "i + 1 < nb" using True False by linarith
      ultimately show ?thesis unfolding step using Suc.prems True idx B64
        by (subst Suc.IH) (simp_all add: ch h')
    qed
  next
    case False
    then have "m = 0" using nb0 by (auto simp: m_def)
    then have "result' = result" by (intro nth_equalityI) (simp_all add: result'_def)
    then show ?thesis unfolding step using Suc.prems False idx B64 by (subst Suc.IH) simp_all
  qed
qed simp

end

section \<open>The padded suffix\<close>

lemma be_bytes_append: "be_bytes (j + k) n = be_bytes j (n div 256 ^ k) @ be_bytes k n"
  by (induction k arbitrary: n) (simp_all add: div_mult2_eq)

lemma be_bytes_4: "be_bytes 4 n = [byte_of (n div 256 ^ 3), byte_of (n div 256 ^ 2), byte_of (n div 256), byte_of n]"
proof -
  have "(4 :: nat) = Suc (Suc (Suc (Suc 0)))" by simp
  then show ?thesis by (simp only: be_bytes.simps power2_eq_square power3_eq_cube div_mult2_eq append.simps)
qed

lemma length_bytes_be:
  "[ucast (drop_bit 24 t), ucast (drop_bit 16 t), ucast (drop_bit 8 t), ucast t] = be_bytes 4 (unat (t :: u64))"
proof -
  have d: "ucast (drop_bit (8 * k) t) = byte_of (unat t div 256 ^ k)" for k
  proof -
    have "unat (drop_bit (8 * k) t) = unat t div 256 ^ k" unfolding unat_drop_bit by (simp add: power_mult)
    then show ?thesis by (simp add: word_unat_eq_iff unat_ucast_mod)
  qed
  show ?thesis using d [of 3] d [of 2] d [of 1] d [of 0] unfolding be_bytes_4 by simp
qed

lemma padded_blocks: "L + 9 + (119 - L mod 64) mod 64 = 64 * ((L + 72) div 64)" for L :: nat
proof -
  define q r where "q = L div 64" and "r = L mod 64"
  have L: "L = 64 * q + r" and r: "r < 64" by (simp_all add: q_def r_def)
  show ?thesis
  proof (cases "r \<le> 55")
    case True
    then have "119 - r = 55 - r + 64" "55 - r < 64" by simp_all
    then have "(119 - r) mod 64 = 55 - r" by (metis mod_add_self2 mod_less)
    moreover have "(L + 72) div 64 = q + 1" using True unfolding L by (intro div_nat_eqI) simp_all
    ultimately show ?thesis unfolding r_def [symmetric] using L True by linarith
  next
    case False
    then have "(119 - r) mod 64 = 119 - r" by simp
    moreover have "(L + 72) div 64 = q + 2" using False r unfolding L by (intro div_nat_eqI) simp_all
    ultimately show ?thesis unfolding r_def [symmetric] using L False r by linarith
  qed
qed

lemma suffix_padded:
  fixes d inp :: "byte list" and len total :: nat
  defines "L \<equiv> length d + len"
  assumes "len \<le> length inp" and "total < 2 ^ 32"
  shows "suffix_padded d inp len (be_bytes 4 total) ((L + 72) div 64)
    (d @ take len inp @ 0x80 # replicate ((119 - L mod 64) mod 64) 0 @ be_bytes 8 total)"
proof -
  define z where "z = (119 - L mod 64) mod 64"
  define A where "A = d @ take len inp @ 0x80 # replicate (z + 4) (0 :: byte)"
  have n: "L + 9 + z = 64 * ((L + 72) div 64)" unfolding z_def by (rule padded_blocks)
  have "be_bytes 4 0 = replicate 4 0" by code_simp
  then have "be_bytes 8 total = replicate 4 0 @ be_bytes 4 total"
    using be_bytes_append [of 4 4 total] assms(3) by simp
  then have P: "d @ take len inp @ 0x80 # replicate z 0 @ be_bytes 8 total = A @ be_bytes 4 total"
    by (simp add: A_def replicate_add)
  have A: "length A = 64 * ((L + 72) div 64) - 4" using n assms(2) by (simp add: A_def L_def)
  have nth: "A ! q = suffix_byte d inp len q" if "q < length A" for q
  proof -
    have "length A = length d + len + z + 5" using assms(2) by (simp add: A_def)
    then have "q - Suc (length d + len) < z + 4" using that by linarith
    then have "replicate (z + 4) (0 :: byte) ! (q - Suc (length d + len)) = 0" by (rule nth_replicate)
    then show ?thesis using that assms(2) by (auto simp: A_def suffix_byte_def nth_append nth_Cons' min_absorb2 simp del: nth_replicate)
  qed
  have zero: "suffix_byte d inp len (length A + j) = 0" for j
    using assms(2) by (simp add: suffix_byte_def A_def)
  show ?thesis
    unfolding z_def [symmetric] P suffix_padded_def A [symmetric] using n A nth zero
    by (auto simp: nth_append)
qed

section \<open>The hash\<close>

text \<open>The bits that the code checks before it starts.\<close>

lemma suffix_bound:
  assumes "md_counts n c" and "n < 2 ^ 61" and "max_len < 2 ^ 64"
  defines "max_len_bits \<equiv> push_bit 3 (of_nat max_len) :: u64"
  shows "\<not> (Nh c \<noteq> 0 \<or> drop_bit 3 max_len_bits \<noteq> of_nat max_len \<or>
      ucast (Nl c) + max_len_bits < max_len_bits \<or> ucast (Nl c) + max_len_bits > 0xffffffff) \<longleftrightarrow>
    8 * (n + max_len) < 2 ^ 32"
    and "8 * n < 2 ^ 32 \<Longrightarrow> unat (Nl c) = 8 * n"
proof -
  let ?h = "unat (Nh c)" and ?l = "unat (Nl c)"
  have "?h * 2 ^ 32 + ?l < 2 ^ 64" using unat_u32_lt [of "Nh c"] unat_u32_lt [of "Nl c"] by simp
  then have hl: "?h * 2 ^ 32 + ?l = 8 * n" using assms(1,2) by (simp add: md_counts_def)
  have l: "?l < 2 ^ 32" using unat_u32_lt [of "Nl c"] by simp
  have h0: "Nh c = 0 \<longleftrightarrow> 8 * n < 2 ^ 32"
  proof
    assume "8 * n < 2 ^ 32"
    then have "?h = 0" using hl by (cases "?h") simp_all
    then show "Nh c = 0" by (simp add: unat_eq_zero)
  next
    assume "Nh c = 0"
    then show "8 * n < 2 ^ 32" using hl l by simp
  qed
  show nl: "unat (Nl c) = 8 * n" if "8 * n < 2 ^ 32" using that h0 hl by simp
  have m: "unat max_len_bits = 8 * max_len mod 2 ^ 64"
    using assms(3) unfolding max_len_bits_def unat_push_bit by (simp add: unat_of_nat mult.commute)
  have s: "unat (ucast (Nl c) + max_len_bits) = (?l + 8 * max_len mod 2 ^ 64) mod 2 ^ 64"
  proof -
    have "unat (ucast (Nl c) :: u64) = ?l" using l by (intro unat_ucast_less) simp
    then show ?thesis by (simp add: unat_word_ariths m)
  qed
  have d: "drop_bit 3 max_len_bits = of_nat max_len \<longleftrightarrow> 8 * max_len < 2 ^ 64"
  proof -
    have "drop_bit 3 max_len_bits = of_nat max_len \<longleftrightarrow> 8 * max_len mod 2 ^ 64 div 2 ^ 3 = max_len"
      using assms(3) by (simp only: word_unat_eq_iff unat_drop_bit m) (simp add: unat_of_nat)
    also have "\<dots> \<longleftrightarrow> 8 * max_len < 2 ^ 64"
    proof
      assume "8 * max_len mod 2 ^ 64 div 2 ^ 3 = max_len"
      then have "8 * max_len \<le> 8 * max_len mod 2 ^ 64"
        using times_div_less_eq_dividend [of "2 ^ 3" "8 * max_len mod 2 ^ 64"] by simp
      moreover have "8 * max_len mod 2 ^ 64 < 2 ^ 64" by simp
      ultimately show "8 * max_len < 2 ^ 64" by (rule le_less_trans)
    qed simp
    finally show ?thesis .
  qed
  show "\<not> (Nh c \<noteq> 0 \<or> drop_bit 3 max_len_bits \<noteq> of_nat max_len \<or>
      ucast (Nl c) + max_len_bits < max_len_bits \<or> ucast (Nl c) + max_len_bits > 0xffffffff) \<longleftrightarrow>
    8 * (n + max_len) < 2 ^ 32"
  proof (cases "8 * n < 2 ^ 32 \<and> 8 * max_len < 2 ^ 64")
    case True
    then have "?l + 8 * max_len mod 2 ^ 64 = 8 * n + 8 * max_len" using nl by simp
    then show ?thesis using True h0 d s m nl l
      by (cases "8 * n + 8 * max_len < 2 ^ 64") (auto simp: word_less_nat_alt le_mod_geq not_less)
  next
    case False
    then show ?thesis using h0 d by auto
  qed
qed

context md_block
begin

text \<open>
  The hash with a secret suffix is the hash of what the context has seen and the first \<open>len\<close> bytes
  of the input, unless there might be more than \<open>2 ^ 32 - 1\<close> bits.
\<close>

lemma secret_suffix:
  assumes bs64: "bs = 64" and w: "\<And>h M. length (compress h M) = words"
    and seen: "md_seen compress bs h0 msg c"
    and len: "len \<le> max_len" "max_len \<le> length inp" "max_len < 2 ^ 64" "length msg < 2 ^ 61"
  shows "final_with_secret_suffix bf words c inp len max_len =
    (if 8 * (length msg + max_len) < 2 ^ 32
     then Some (concat (map CRYPTO_store_u32_be (md_digest compress bs True h0 (msg @ take len inp)))) else None)"
proof (cases "8 * (length msg + max_len) < 2 ^ 32")
  case True
  have counts: "md_counts (length msg) c" using seen by (simp add: md_seen_def)
  note B = suffix_bound [OF counts len(4,3)]
  have nl: "unat (Nl c) = 8 * length msg" using B(2) True by simp
  obtain a d where ad: "msg = a @ d" "length a = (length msg div bs) * bs" "length d = length msg mod bs"
    by (rule split_at_block)
  have d64: "length d < bs" using ad(3) bs by simp
  have c: "md_num c = length d" "md_data c = d @ replicate (bs - length d) 0" "md_h c = foldl compress h0 (chunks bs a)"
    using seen holds_iff [OF ad(2) d64, of h0 c] ad(1) by (simp_all add: md_seen_def)
  define L total where "L = length d + len" and "total = 8 * (length msg + len)"
  define nb where "nb = (L + 72) div 64"
  define P where "P = d @ take len inp @ 0x80 # replicate ((119 - L mod 64) mod 64) 0 @ be_bytes 8 total"
  have total: "total < 2 ^ 32" using True len(1) by (simp add: total_def)
  have P: "suffix_padded d inp len (be_bytes 4 total) nb P"
    unfolding P_def nb_def L_def using len(1,2) total by (intro suffix_padded) simp_all
  define tb :: u64 where "tb = ucast (Nl c) + push_bit 3 (of_nat len)"
  have "unat (ucast (Nl c) :: u64) = 8 * length msg" using nl unat_u32_lt [of "Nl c"] by (subst unat_ucast_less) simp_all
  moreover have "unat (push_bit 3 (of_nat len) :: u64) = 8 * len"
    using len(1) True by (simp add: unat_push_bit unat_of_nat)
  ultimately have "unat tb = total" using total by (simp add: tb_def unat_word_ariths total_def)
  then have lb: "[ucast (drop_bit 24 tb), ucast (drop_bit 16 tb), ucast (drop_bit 8 tb), ucast tb] = be_bytes 4 total"
    unfolding length_bytes_be by simp
  have blocks: "(length d + len + 1 + 8 + 64 - 1) div 64 = nb" by (simp add: nb_def L_def)
  have ml: "max_len < 2 ^ 30" using True by simp
  have ld: "length d < 64" using d64 bs64 by simp
  define mb where "mb = (length d + max_len + 1 + 8 + 64 - 1) div 64"
  have mb: "nb \<le> mb" "mb < 2 ^ 57"
    using len(1) ml ld unfolding mb_def nb_def L_def by (simp_all add: div_le_mono less_mult_imp_div_less)
  have loop: "suffix_loop bf c inp len max_len (nb - 1) (be_bytes 4 total) mb 0 0 (replicate 64 0) (md_h c) (replicate words 0) =
      (if 0 < nb then foldl compress (md_h c) (chunks 64 (drop (64 * 0) P)) else replicate words 0)"
    using bs64 w c ld len(1,2) ml P mb by (intro suffix_loop) simp_all
  have nb0: "0 < nb" using P by (simp add: suffix_padded_def)
  have pad: "md_pad bs True (msg @ take len inp) = a @ P"
  proof -
    have "length a mod 64 = 0" unfolding ad(2) bs64 by simp
    then have "(length a + L) mod 64 = L mod 64" by (metis add_0 mod_add_left_eq)
    then have "length (msg @ take len inp) mod 64 = L mod 64" using ad(1) len(1,2) by (simp add: L_def add.assoc)
    moreover have "length (msg @ take len inp) = length msg + len" using len(1,2) by simp
    ultimately show ?thesis
      unfolding md_pad_def bs64 P_def total_def md_length_def by (simp add: ad(1) add.assoc)
  qed
  have "final_with_secret_suffix bf words c inp len max_len =
      Some (concat (map CRYPTO_store_u32_be (foldl compress (md_h c) (chunks 64 P))))"
    unfolding final_with_secret_suffix_def Let_def c(1) blocks tb_def [symmetric] lb mb_def [symmetric] loop
    using B(1) True nb0 by simp
  also have "foldl compress (md_h c) (chunks 64 P) = md_digest compress bs True h0 (msg @ take len inp)"
    unfolding md_digest_def pad chunks_append [OF ad(2)] by (simp add: c(3) bs64)
  finally show ?thesis using True by simp
next
  case False
  have counts: "md_counts (length msg) c" using seen by (simp add: md_seen_def)
  have "Nh c \<noteq> 0 \<or> drop_bit 3 (push_bit 3 (of_nat max_len) :: u64) \<noteq> of_nat max_len \<or>
      ucast (Nl c) + push_bit 3 (of_nat max_len) < (push_bit 3 (of_nat max_len) :: u64) \<or>
      ucast (Nl c) + push_bit 3 (of_nat max_len) > (0xffffffff :: u64)"
    using suffix_bound(1) [OF counts len(4,3)] False by blast
  then show ?thesis using False unfolding final_with_secret_suffix_def Let_def by (simp only: if_True if_False)
qed

end

section \<open>HMAC\<close>

text \<open>The keyed hash of the standard (FIPS 198-1) over a hash \<open>H\<close> with blocks of \<open>B\<close> bytes.\<close>

definition hmac :: "(byte list \<Rightarrow> byte list) \<Rightarrow> nat \<Rightarrow> byte list \<Rightarrow> byte list \<Rightarrow> byte list" where
  "hmac H B key msg =
     (let k = (if length key > B then H key else key);
          k0 = k @ replicate (B - length k) 0
      in H (map (\<lambda>b. b XOR 0x5c) k0 @ H (map (\<lambda>b. b XOR 0x36) k0 @ msg)))"

lemma hmac_pads:
  assumes "length key \<le> 64"
  shows "hmac H 64 key msg =
    H (map (\<lambda>b. b XOR 0x6a) (map (\<lambda>b. b XOR 0x36) (hmac_pad_init key)) @ H (map (\<lambda>b. b XOR 0x36) (hmac_pad_init key) @ msg))"
proof -
  have "hmac_pad_init key = key @ replicate (64 - length key) 0"
    using assms by (simp add: hmac_pad_init_def memcpy_at_def)
  moreover have "(b XOR 0x36) XOR 0x6a = b XOR 0x5c" for b :: byte by (simp add: xor.assoc)
  ultimately show ?thesis using assms by (simp add: hmac_def Let_def o_def)
qed

lemma length_pad_init [simp]: "length key \<le> 64 \<Longrightarrow> length (hmac_pad_init key) = 64"
  by (simp add: hmac_pad_init_def)

section \<open>Properties\<close>

lemma words_be_store: "concat (map CRYPTO_store_u32_be ws) = words_be ws"
proof -
  have "CRYPTO_store_u32_be = (\<lambda>w. be_bytes 4 (unat w))" by (intro ext) (rule store_u32_be)
  then show ?thesis by (simp only: words_be_def)
qed

lemma secret_suffix_both:
  assumes "sha1_seen msg c" and "sha256_seen msg c'" and "length msg < 2 ^ 61"
    and "len \<le> max_len" and "max_len \<le> length inp" and "max_len < 2 ^ 64"
  shows "EVP_sha1_final_with_secret_suffix c inp len max_len =
      (if 8 * (length msg + max_len) < 2 ^ 32 then Some (fips_sha1 (msg @ take len inp)) else None) \<and>
    EVP_sha256_final_with_secret_suffix c' inp len max_len =
      (if 8 * (length msg + max_len) < 2 ^ 32 then Some (fips_sha256 (msg @ take len inp)) else None)"
  using sha1.secret_suffix [OF _ length_compress(1) assms(1) [unfolded sha1_seen_def] assms(4,5,6,3)]
    sha256.secret_suffix [OF _ length_compress(2) assms(2) [unfolded sha256_seen_def] assms(4,5,6,3)]
  by (simp add: EVP_sha1_final_with_secret_suffix_def EVP_sha256_final_with_secret_suffix_def words_be_store
      fips_sha1_def fips_sha256_def)

lemma record_hashes:
  assumes "sha1_seen msg c" and "sha256_seen msg c'" and "len \<le> max_len" and "max_len \<le> length inp"
    and "8 * (length msg + max_len) < 2 ^ 32"
  shows "EVP_sha1_final_with_secret_suffix c inp len max_len = Some (fips_sha1 (msg @ take len inp))"
    and "EVP_sha256_final_with_secret_suffix c' inp len max_len = Some (fips_sha256 (msg @ take len inp))"
  using secret_suffix_both [OF assms(1,2) _ assms(3,4)] assms(5) by simp_all

text \<open>
  C8. Hashing the first \<open>len\<close> bytes of the input without revealing \<open>len\<close>, with \<open>max_len\<close> as its public
  bound, gives the digest of what the context has seen and these bytes, and fails exactly when
  message and bound together have \<open>2 ^ 32\<close> bits or more.
\<close>

theorem secret_suffix_hash:
  assumes "sha1_seen msg c" and "sha256_seen msg c'" and "length msg < 2 ^ 61"
    and "len \<le> max_len" and "max_len \<le> length inp" and "max_len < 2 ^ 64"
  shows "EVP_sha1_final_with_secret_suffix c inp len max_len =
      (if 8 * (length msg + max_len) < 2 ^ 32 then Some (fips_sha1 (msg @ take len inp)) else None) \<and>
    EVP_sha256_final_with_secret_suffix c' inp len max_len =
      (if 8 * (length msg + max_len) < 2 ^ 32 then Some (fips_sha256 (msg @ take len inp)) else None)"
  using secret_suffix_both [OF assms] .

theorem secret_suffix_hash_witness:
  "EVP_sha1_final_with_secret_suffix (SHA1_Update SHA1_Init [1, 2]) [3, 4, 5, 6] 2 4 = Some (fips_sha1 [1, 2, 3, 4]) \<and>
   EVP_sha256_final_with_secret_suffix (SHA256_Update SHA256_Init [1, 2]) [3, 4, 5, 6] 2 4 = Some (fips_sha256 [1, 2, 3, 4])"
  using secret_suffix_hash [of "[1, 2]" "SHA1_Update SHA1_Init [1, 2]" "SHA256_Update SHA256_Init [1, 2]" 2 4 "[3, 4, 5, 6]"]
    seen_update(1) [of "[]" SHA1_Init "[1, 2]"] seen_update(2) [of "[]" SHA256_Init "[1, 2]"]
  by simp

text \<open>
  C9. The record digest is HMAC of the header and the data without its MAC and padding, for every
  secret data size that the public size of the record allows.
\<close>

theorem tls_cbc_digest_record_hmac:
  assumes "length mac_secret \<le> 64" and "data_size \<le> record_size" and "record_size \<le> length data"
    and "8 * (64 + length header + record_size) < 2 ^ 32"
  shows "(record_size \<le> data_size + 20 + 256 \<longrightarrow>
      EVP_tls_cbc_digest_record NID_sha1 header data data_size record_size mac_secret =
        Some (hmac fips_sha1 64 mac_secret (header @ take data_size data))) \<and>
    (record_size \<le> data_size + 32 + 256 \<longrightarrow>
      EVP_tls_cbc_digest_record NID_sha256 header data data_size record_size mac_secret =
        Some (hmac fips_sha256 64 mac_secret (header @ take data_size data)))"
proof -
  define ipad where "ipad = map (\<lambda>b. b XOR 0x36) (hmac_pad_init mac_secret)"
  define opad where "opad = map (\<lambda>b. b XOR 0x6a) ipad"
  have ipad: "length ipad = 64" using assms(1) by (simp add: ipad_def)
  have hm: "hmac H 64 mac_secret msg = H (opad @ H (ipad @ msg))" for H msg
    unfolding hmac_pads [OF assms(1)] ipad_def [symmetric] opad_def [symmetric] ..
  have join: "(ipad @ header) @ take m data @ take (data_size - m) (drop m data) = ipad @ header @ take data_size data"
    if "m \<le> data_size" for m
  proof -
    have "take m data @ take (data_size - m) (drop m data) = take data_size data"
      using that take_add [of m "data_size - m" data] by simp
    then show ?thesis by simp
  qed
  have out1: "fst (SHA1_Final (SHA1_Update (SHA1_Update SHA1_Init opad) x)) = fips_sha1 (opad @ x)" for x
    by (rule sha1_final) (use seen_update(1) [OF seen_update(1) [of "[]"]] in simp)
  have md_len: "md_len SHA256_Init = 32" by (simp add: SHA256_Init_def)
  have out2: "fst (SHA256_Final (SHA256_Update (SHA256_Update SHA256_Init opad) x)) = Some (fips_sha256 (opad @ x))" for x
    by (rule sha256_final) (use seen_update(2) [OF seen_update(2) [of "[]"]] md_len in simp_all)
  have seen1: "sha1_seen ((ipad @ header) @ take m data) (SHA1_Update (SHA1_Update (SHA1_Update SHA1_Init ipad) header) (take m data))" for m
    using seen_update(1) [OF seen_update(1) [OF seen_update(1) [of "[]"]], of SHA1_Init ipad header "take m data"] by simp
  have seen2: "sha256_seen ((ipad @ header) @ take m data) (SHA256_Update (SHA256_Update (SHA256_Update SHA256_Init ipad) header) (take m data))" for m
    using seen_update(2) [OF seen_update(2) [OF seen_update(2) [of "[]"]], of SHA256_Init ipad header "take m data"] by simp
  have fin: "EVP_sha1_final_with_secret_suffix (SHA1_Update (SHA1_Update (SHA1_Update SHA1_Init ipad) header) (take m data))
        (drop m data) (data_size - m) (record_size - m) = Some (fips_sha1 (ipad @ header @ take data_size data))"
      "EVP_sha256_final_with_secret_suffix (SHA256_Update (SHA256_Update (SHA256_Update SHA256_Init ipad) header) (take m data))
        (drop m data) (data_size - m) (record_size - m) = Some (fips_sha256 (ipad @ header @ take data_size data))"
    if "m \<le> data_size" for m
  proof -
    have l: "data_size - m \<le> record_size - m" "record_size - m \<le> length (drop m data)"
      "8 * (length ((ipad @ header) @ take m data) + (record_size - m)) < 2 ^ 32"
      using assms that ipad by simp_all
    from record_hashes [OF seen1 [of m] seen2 [of m] l] join [OF that]
    show "EVP_sha1_final_with_secret_suffix (SHA1_Update (SHA1_Update (SHA1_Update SHA1_Init ipad) header) (take m data))
        (drop m data) (data_size - m) (record_size - m) = Some (fips_sha1 (ipad @ header @ take data_size data))"
      "EVP_sha256_final_with_secret_suffix (SHA256_Update (SHA256_Update (SHA256_Update SHA256_Init ipad) header) (take m data))
        (drop m data) (data_size - m) (record_size - m) = Some (fips_sha256 (ipad @ header @ take data_size data))"
      by simp_all
  qed
  have key: "\<not> length mac_secret > 64" using assms(1) by simp
  have one: "tls_cbc_digest_record_sha1 header data data_size record_size mac_secret =
      Some (fips_sha1 (opad @ fips_sha1 (ipad @ header @ take data_size data)))" if "record_size \<le> data_size + 20 + 256"
  proof -
    define m where "m = (if record_size > 20 + 256 then record_size - 20 - 256 else 0)"
    have m: "m \<le> data_size" using that by (auto simp: m_def)
    show ?thesis
      unfolding tls_cbc_digest_record_sha1_def Let_def ipad_def [symmetric] opad_def [symmetric] m_def [symmetric] fin(1) [OF m]
      using key by (simp add: out1)
  qed
  have two: "tls_cbc_digest_record_sha256 header data data_size record_size mac_secret =
      Some (fips_sha256 (opad @ fips_sha256 (ipad @ header @ take data_size data)))" if "record_size \<le> data_size + 32 + 256"
  proof -
    define m where "m = (if record_size > 32 + 256 then record_size - 32 - 256 else 0)"
    have m: "m \<le> data_size" using that by (auto simp: m_def)
    show ?thesis
      unfolding tls_cbc_digest_record_sha256_def Let_def ipad_def [symmetric] opad_def [symmetric] m_def [symmetric] fin(2) [OF m]
      using key by (simp add: out2)
  qed
  show ?thesis unfolding EVP_tls_cbc_digest_record_def hm
    using one two by (simp add: NID_sha1_def NID_sha256_def)
qed

theorem tls_cbc_digest_record_hmac_witness:
  "EVP_tls_cbc_digest_record NID_sha1 [23, 3, 3] [1, 2, 3, 4, 5, 6] 2 6 [7, 8] =
     Some (hmac fips_sha1 64 [7, 8] ([23, 3, 3] @ [1, 2])) \<and>
   EVP_tls_cbc_digest_record NID_sha256 [23, 3, 3] [1, 2, 3, 4, 5, 6] 2 6 [7, 8] =
     Some (hmac fips_sha256 64 [7, 8] ([23, 3, 3] @ [1, 2]))"
  using tls_cbc_digest_record_hmac [of "[7, 8]" 2 6 "[1, 2, 3, 4, 5, 6]" "[23, 3, 3]"] by simp

end
