(* ===== verification/Modes.thy ===== *)
theory Modes
  imports Bytes
begin

text \<open>
  The modes of operation of fipsmodule/modes/ (ctr.c, ofb.c, cfb.c, cbc.c). The block cipher
  under its key is a parameter, a function on blocks of 16 bytes; so is the function that the
  counter mode with a 32-bit counter is given.
\<close>

type_synonym block128_f = "byte list \<Rightarrow> byte list"
type_synonym ctr128_f = "byte list \<Rightarrow> nat \<Rightarrow> byte list \<Rightarrow> byte list"

section \<open>Exclusive-or of blocks\<close>

definition CRYPTO_load_word_le :: "byte list \<Rightarrow> u64" where
  "CRYPTO_load_word_le bs = le_word (take 8 bs)"

definition CRYPTO_store_word_le :: "u64 \<Rightarrow> byte list" where
  "CRYPTO_store_word_le v = map (\<lambda>i. ucast (drop_bit (8 * i) v)) [0..<8]"

definition CRYPTO_xor16 :: "byte list \<Rightarrow> byte list \<Rightarrow> byte list" where
  "CRYPTO_xor16 a b =
     concat (map (\<lambda>i. CRYPTO_store_word_le (CRYPTO_load_word_le (drop i a) XOR CRYPTO_load_word_le (drop i b))) [0, 8])"

section \<open>Counter mode\<close>

text \<open>
  The state that the caller keeps: the counter block, the encrypted counter and how many of its
  bytes are used.
\<close>

record ctr_state =
  ctr_iv :: "byte list"
  ctr_ecount :: "byte list"
  ctr_num :: nat

fun inc_loop :: "nat \<Rightarrow> u32 \<Rightarrow> byte list \<Rightarrow> byte list" where
  "inc_loop 0 c counter = counter"
| "inc_loop (Suc n) c counter =
     (let c = c + ucast (counter ! n) in inc_loop n (drop_bit 8 c) (counter[n := ucast c]))"

definition ctr128_inc :: "byte list \<Rightarrow> byte list" where "ctr128_inc counter = inc_loop 16 1 counter"

definition ctr96_inc :: "byte list \<Rightarrow> byte list" where "ctr96_inc counter = inc_loop 12 1 counter"

text \<open>What is left of the last block: the output, the rest of the input and the next position.\<close>

fun ctr_use_rest :: "byte list \<Rightarrow> nat \<Rightarrow> byte list \<Rightarrow> byte list \<times> byte list \<times> nat" where
  "ctr_use_rest ecount n [] = ([], [], n)"
| "ctr_use_rest ecount n (b # inp) =
     (if n \<noteq> 0 then
        case ctr_use_rest ecount ((n + 1) mod 16) inp of (out, inp', n') \<Rightarrow> ((b XOR ecount ! n) # out, inp', n')
      else ([], b # inp, n))"

function ctr_blocks :: "block128_f \<Rightarrow> byte list \<Rightarrow> ctr_state \<Rightarrow> byte list \<times> byte list \<times> ctr_state" where
  "ctr_blocks block inp st =
     (if length inp \<ge> 16 then
        let st = st\<lparr>ctr_ecount := block (ctr_iv st)\<rparr>;
            st = st\<lparr>ctr_iv := ctr128_inc (ctr_iv st)\<rparr>
        in case ctr_blocks block (drop 16 inp) (st\<lparr>ctr_num := 0\<rparr>) of
             (out, inp', st') \<Rightarrow> (CRYPTO_xor16 inp (ctr_ecount st) @ out, inp', st')
      else ([], inp, st))"
  by auto
termination ctr_blocks
  by (relation "measure (\<lambda>(block, inp, st). length inp)") auto

declare ctr_blocks.simps [simp del]

text \<open>The bytes of an incomplete last block, from position \<open>n\<close> of the key stream on.\<close>

fun ctr_tail :: "byte list \<Rightarrow> nat \<Rightarrow> byte list \<Rightarrow> byte list \<times> nat" where
  "ctr_tail ecount n [] = ([], n)"
| "ctr_tail ecount n (b # inp) =
     (case ctr_tail ecount (n + 1) inp of (out, n') \<Rightarrow> ((b XOR ecount ! n) # out, n'))"

definition CRYPTO_ctr128_encrypt :: "block128_f \<Rightarrow> ctr_state \<Rightarrow> byte list \<Rightarrow> byte list \<times> ctr_state" where
  "CRYPTO_ctr128_encrypt block st inp =
     (case ctr_use_rest (ctr_ecount st) (ctr_num st) inp of (out1, inp1, n1) \<Rightarrow>
      case ctr_blocks block inp1 (st\<lparr>ctr_num := n1\<rparr>) of (out2, inp2, st2) \<Rightarrow>
        if inp2 \<noteq> [] then
          let st3 = st2\<lparr>ctr_ecount := block (ctr_iv st2), ctr_iv := ctr128_inc (ctr_iv st2)\<rparr>
          in case ctr_tail (ctr_ecount st3) (ctr_num st3) inp2 of
               (out3, n3) \<Rightarrow> (out1 @ out2 @ out3, st3\<lparr>ctr_num := n3\<rparr>)
        else (out1 @ out2, st2))"

text \<open>
  With a function for many blocks that only counts in the last four bytes: the number of blocks
  that can be done at once stops at the point where they overflow, and \<open>ctr96_inc\<close> carries into
  the other twelve.
\<close>

definition ctr32_chunk :: "nat \<Rightarrow> u32 \<Rightarrow> nat \<times> u32" where
  "ctr32_chunk len ctr32 =
     (let blocks = len div 16;
          blocks = (if blocks > 2 ^ 28 then 2 ^ 28 else blocks);
          ctr32 = ctr32 + of_nat blocks
      in if unat ctr32 < blocks then (blocks - unat ctr32, 0) else (blocks, ctr32))"

lemma ctr32_chunk_pos: "16 \<le> len \<Longrightarrow> (blocks, c) = ctr32_chunk len ctr32 \<Longrightarrow> 0 < blocks"
  by (auto simp: ctr32_chunk_def Let_def div_greater_zero_iff split: if_splits)

lemma ctr32_chunk_less: "(blocks, c) = ctr32_chunk len ctr32 \<Longrightarrow> 16 \<le> len \<Longrightarrow> len - 16 * blocks < len"
  using ctr32_chunk_pos [of len blocks c ctr32] by simp

function ctr32_blocks :: "ctr128_f \<Rightarrow> byte list \<Rightarrow> u32 \<Rightarrow> byte list \<Rightarrow> byte list \<times> byte list \<times> u32 \<times> byte list" where
  "ctr32_blocks func inp ctr32 iv =
     (if length inp \<ge> 16 then
        (case ctr32_chunk (length inp) ctr32 of (blocks, ctr32) \<Rightarrow>
         let out = func inp blocks iv;
             iv = memcpy_at iv 12 (CRYPTO_store_u32_be ctr32);
             iv = (if ctr32 = 0 then ctr96_inc iv else iv)
         in case ctr32_blocks func (drop (16 * blocks) inp) ctr32 iv of
              (out', inp', ctr32', iv') \<Rightarrow> (out @ out', inp', ctr32', iv'))
      else ([], inp, ctr32, iv))"
  by auto
termination ctr32_blocks
  by (relation "measure (\<lambda>(func, inp, ctr32, iv). length inp)") (auto dest: ctr32_chunk_less)

declare ctr32_blocks.simps [simp del]

definition CRYPTO_ctr128_encrypt_ctr32 :: "ctr128_f \<Rightarrow> ctr_state \<Rightarrow> byte list \<Rightarrow> byte list \<times> ctr_state" where
  "CRYPTO_ctr128_encrypt_ctr32 func st inp =
     (case ctr_use_rest (ctr_ecount st) (ctr_num st) inp of (out1, inp1, n1) \<Rightarrow>
      case ctr32_blocks func inp1 (CRYPTO_load_u32_be (drop 12 (ctr_iv st))) (ctr_iv st) of (out2, inp2, ctr32, iv) \<Rightarrow>
        if inp2 \<noteq> [] then
          let ecount = func (replicate 16 0) 1 iv;
              ctr32 = ctr32 + 1;
              iv = memcpy_at iv 12 (CRYPTO_store_u32_be ctr32);
              iv = (if ctr32 = 0 then ctr96_inc iv else iv)
          in case ctr_tail ecount n1 inp2 of
               (out3, n3) \<Rightarrow> (out1 @ out2 @ out3, \<lparr>ctr_iv = iv, ctr_ecount = ecount, ctr_num = n3\<rparr>)
        else (out1 @ out2, \<lparr>ctr_iv = iv, ctr_ecount = ctr_ecount st, ctr_num = n1\<rparr>))"

section \<open>Output feedback\<close>

record fb_state =
  fb_ivec :: "byte list"
  fb_num :: nat

function ofb_blocks :: "block128_f \<Rightarrow> byte list \<Rightarrow> fb_state \<Rightarrow> byte list \<times> byte list \<times> fb_state" where
  "ofb_blocks block inp st =
     (if length inp \<ge> 16 then
        let iv = block (fb_ivec st)
        in case ofb_blocks block (drop 16 inp) \<lparr>fb_ivec = iv, fb_num = 0\<rparr> of
             (out, inp', st') \<Rightarrow> (CRYPTO_xor16 inp iv @ out, inp', st')
      else ([], inp, st))"
  by auto
termination ofb_blocks
  by (relation "measure (\<lambda>(block, inp, st). length inp)") auto

declare ofb_blocks.simps [simp del]

definition CRYPTO_ofb128_encrypt :: "block128_f \<Rightarrow> fb_state \<Rightarrow> byte list \<Rightarrow> byte list \<times> fb_state" where
  "CRYPTO_ofb128_encrypt block st inp =
     (case ctr_use_rest (fb_ivec st) (fb_num st) inp of (out1, inp1, n1) \<Rightarrow>
      case ofb_blocks block inp1 (st\<lparr>fb_num := n1\<rparr>) of (out2, inp2, st2) \<Rightarrow>
        if inp2 \<noteq> [] then
          let iv = block (fb_ivec st2)
          in case ctr_tail iv (fb_num st2) inp2 of
               (out3, n3) \<Rightarrow> (out1 @ out2 @ out3, \<lparr>fb_ivec = iv, fb_num = n3\<rparr>)
        else (out1 @ out2, st2))"

section \<open>Cipher feedback\<close>

text \<open>
  The two directions differ in what is fed back: the byte written or the byte read. \<open>enc\<close> chooses;
  the code has one copy of its loops for each.
\<close>

fun cfb_use_rest :: "bool \<Rightarrow> byte list \<Rightarrow> nat \<Rightarrow> byte list \<Rightarrow> byte list \<times> byte list \<times> byte list \<times> nat" where
  "cfb_use_rest enc iv n [] = ([], [], iv, n)"
| "cfb_use_rest enc iv n (b # inp) =
     (if n \<noteq> 0 then
        let x = iv ! n XOR b
        in case cfb_use_rest enc (iv[n := if enc then x else b]) ((n + 1) mod 16) inp of
             (out, inp', iv', n') \<Rightarrow> (x # out, inp', iv', n')
      else ([], b # inp, iv, n))"

text \<open>A block by words; both lists have 16 bytes.\<close>

definition cfb_words :: "bool \<Rightarrow> byte list \<Rightarrow> byte list \<Rightarrow> byte list \<times> byte list" where
  "cfb_words enc iv inp =
     (let tmp = CRYPTO_xor16 iv inp
      in (tmp, if enc then tmp
               else concat (map (\<lambda>i. CRYPTO_store_word_le (CRYPTO_load_word_le (drop i inp))) [0, 8])))"

function cfb_blocks :: "bool \<Rightarrow> block128_f \<Rightarrow> byte list \<Rightarrow> fb_state \<Rightarrow> byte list \<times> byte list \<times> fb_state" where
  "cfb_blocks enc block inp st =
     (if length inp \<ge> 16 then
        case cfb_words enc (block (fb_ivec st)) inp of (tmp, iv) \<Rightarrow>
        (case cfb_blocks enc block (drop 16 inp) \<lparr>fb_ivec = iv, fb_num = 0\<rparr> of
           (out, inp', st') \<Rightarrow> (tmp @ out, inp', st'))
      else ([], inp, st))"
  by auto
termination cfb_blocks
  by (relation "measure (\<lambda>(enc, block, inp, st). length inp)") auto

declare cfb_blocks.simps [simp del]

fun cfb_tail :: "bool \<Rightarrow> byte list \<Rightarrow> nat \<Rightarrow> byte list \<Rightarrow> byte list \<times> byte list \<times> nat" where
  "cfb_tail enc iv n [] = ([], iv, n)"
| "cfb_tail enc iv n (b # inp) =
     (let x = iv ! n XOR b
      in case cfb_tail enc (iv[n := if enc then x else b]) (n + 1) inp of (out, iv', n') \<Rightarrow> (x # out, iv', n'))"

definition CRYPTO_cfb128_encrypt :: "block128_f \<Rightarrow> bool \<Rightarrow> fb_state \<Rightarrow> byte list \<Rightarrow> byte list \<times> fb_state" where
  "CRYPTO_cfb128_encrypt block enc st inp =
     (case cfb_use_rest enc (fb_ivec st) (fb_num st) inp of (out1, inp1, iv1, n1) \<Rightarrow>
      case cfb_blocks enc block inp1 \<lparr>fb_ivec = iv1, fb_num = n1\<rparr> of (out2, inp2, st2) \<Rightarrow>
        if inp2 \<noteq> [] then
          case cfb_tail enc (block (fb_ivec st2)) (fb_num st2) inp2 of
            (out3, iv3, n3) \<Rightarrow> (out1 @ out2 @ out3, \<lparr>fb_ivec = iv3, fb_num = n3\<rparr>)
        else (out1 @ out2, st2))"

section \<open>Cipher feedback of less than a block\<close>

text \<open>
  One unit of \<open>nbits\<close> bits: the bytes written and the new vector. Of \<open>ovec\<close> the model keeps the
  bytes that are set; the code reads no others.
\<close>

definition cfbr_encrypt_block :: "block128_f \<Rightarrow> bool \<Rightarrow> nat \<Rightarrow> byte list \<Rightarrow> byte list \<Rightarrow> byte list \<times> byte list" where
  "cfbr_encrypt_block block enc nbits iv inp =
     (if nbits = 0 \<or> nbits > 128 then ([], iv)
      else
        let num = (nbits + 7) div 8;
            out = map2 (XOR) (take num inp) (take num (block iv));
            ovec = iv @ (if enc then out else take num inp);
            rem = nbits mod 8;
            num = nbits div 8
        in (out, if rem = 0 then take 16 (drop num ovec)
                 else map (\<lambda>n. push_bit rem (ovec ! (n + num)) OR drop_bit (8 - rem) (ovec ! (n + num + 1))) [0..<16]))"

fun CRYPTO_cfb128_8_encrypt :: "block128_f \<Rightarrow> bool \<Rightarrow> byte list \<Rightarrow> byte list \<Rightarrow> byte list \<times> byte list" where
  "CRYPTO_cfb128_8_encrypt block enc iv [] = ([], iv)"
| "CRYPTO_cfb128_8_encrypt block enc iv (b # inp) =
     (case cfbr_encrypt_block block enc 8 iv [b] of (o1, iv1) \<Rightarrow>
      case CRYPTO_cfb128_8_encrypt block enc iv1 inp of (out, iv2) \<Rightarrow> (o1 @ out, iv2))"

text \<open>Bit by bit: \<open>k\<close> bits are left, starting with bit \<open>n\<close>; \<open>out\<close> is the array written to.\<close>

fun cfb1_loop ::
  "block128_f \<Rightarrow> bool \<Rightarrow> byte list \<Rightarrow> nat \<Rightarrow> nat \<Rightarrow> byte list \<Rightarrow> byte list \<Rightarrow> byte list \<times> byte list" where
  "cfb1_loop block enc inp n 0 out iv = (out, iv)"
| "cfb1_loop block enc inp n (Suc k) out iv =
     (let c = (if inp ! (n div 8) AND push_bit (7 - n mod 8) 1 \<noteq> 0 then 0x80 else 0) :: byte
      in case cfbr_encrypt_block block enc 1 iv [c] of (d, iv') \<Rightarrow>
         let x = (out ! (n div 8) AND NOT (push_bit (7 - n mod 8) 1)) OR drop_bit (n mod 8) (d ! 0 AND 0x80)
         in cfb1_loop block enc inp (n + 1) k (out[n div 8 := x]) iv')"

definition CRYPTO_cfb128_1_encrypt ::
  "block128_f \<Rightarrow> bool \<Rightarrow> byte list \<Rightarrow> nat \<Rightarrow> byte list \<Rightarrow> byte list \<Rightarrow> byte list \<times> byte list" where
  "CRYPTO_cfb128_1_encrypt block enc inp bits out iv = cfb1_loop block enc inp 0 bits out iv"

end
