(* ===== verification/Modes_Props.thy ===== *)
theory Modes_Props
  imports Modes
begin

text \<open>
  The streaming modes process bytes one by one, although the code takes whole blocks where it can:
  the locale \<open>buffered_mode\<close> is the shape of its three loops, interpreted for counter mode, output
  feedback and both directions of cipher feedback. It follows that input may be cut anywhere and
  that decryption inverts encryption.
\<close>

section \<open>Blocks as bytes\<close>

lemma store_word_xor:
  assumes "8 \<le> length a" and "8 \<le> length b"
  shows "CRYPTO_store_word_le (CRYPTO_load_word_le a XOR CRYPTO_load_word_le b) = map2 (XOR) (take 8 a) (take 8 b)"
proof (rule nth_equalityI)
  show "length (CRYPTO_store_word_le (CRYPTO_load_word_le a XOR CRYPTO_load_word_le b)) = length (map2 (XOR) (take 8 a) (take 8 b))"
    using assms by (simp add: CRYPTO_store_word_le_def del: upt_rec_numeral)
  fix i assume "i < length (CRYPTO_store_word_le (CRYPTO_load_word_le a XOR CRYPTO_load_word_le b))"
  then have i: "i < 8" by (simp add: CRYPTO_store_word_le_def del: upt_rec_numeral)
  have ld: "bit (CRYPTO_load_word_le x) (8 * i + j) \<longleftrightarrow> bit (x ! i) j" if "8 \<le> length x" "j < 8" for x j
    using that i by (simp add: CRYPTO_load_word_le_def bit_le_word)
  have "bit (CRYPTO_store_word_le (CRYPTO_load_word_le a XOR CRYPTO_load_word_le b) ! i) j \<longleftrightarrow>
      bit (map2 (XOR) (take 8 a) (take 8 b) ! i) j" if "j < 8" for j
    using that i assms ld [of a j] ld [of b j]
    by (simp add: CRYPTO_store_word_le_def bit_ucast_iff bit_drop_bit_eq bit_xor_iff comp_def add.commute del: upt_rec_numeral)
  then show "CRYPTO_store_word_le (CRYPTO_load_word_le a XOR CRYPTO_load_word_le b) ! i = map2 (XOR) (take 8 a) (take 8 b) ! i"
    by (intro bit_word_eqI) simp
qed

lemma store_load_word:
  assumes "8 \<le> length a"
  shows "CRYPTO_store_word_le (CRYPTO_load_word_le a) = take 8 a"
proof -
  have z: "CRYPTO_load_word_le (replicate 8 0) = 0" by code_simp
  have "map2 (XOR) (take 8 a) (replicate 8 (0 :: byte)) = take 8 a"
    using assms by (intro nth_equalityI) simp_all
  then show ?thesis using store_word_xor [OF assms, of "replicate 8 0"] z by simp
qed

lemma take_16: "take 16 xs = take 8 xs @ take 8 (drop 8 xs)"
  using take_add [of 8 8 xs] by simp

lemma xor16: "16 \<le> length a \<Longrightarrow> 16 \<le> length b \<Longrightarrow> CRYPTO_xor16 a b = map2 (XOR) (take 16 a) (take 16 b)"
  by (simp add: CRYPTO_xor16_def store_word_xor take_16 zip_append)

lemma xor16_take: "CRYPTO_xor16 (take 16 a) b = CRYPTO_xor16 a b"
  by (simp add: CRYPTO_xor16_def CRYPTO_load_word_le_def drop_take min_def)

lemma xor_twice: "length a \<le> length b \<Longrightarrow> map2 (XOR) (map2 (XOR) a b) b = (a :: byte list)"
  by (intro nth_equalityI) (simp_all add: xor.assoc)

section \<open>Processing bytes one by one\<close>

fun bytewise :: "('s \<Rightarrow> 'b \<Rightarrow> 'b \<times> 's) \<Rightarrow> 's \<Rightarrow> 'b list \<Rightarrow> 'b list \<times> 's" where
  "bytewise F s [] = ([], s)"
| "bytewise F s (b # bs) =
     (case F s b of (x, s1) \<Rightarrow> case bytewise F s1 bs of (xs, s2) \<Rightarrow> (x # xs, s2))"

lemma bytewise_append:
  "bytewise F s (xs @ ys) =
    (case bytewise F s xs of (a, s1) \<Rightarrow> case bytewise F s1 ys of (b, s2) \<Rightarrow> (a @ b, s2))"
  by (induction xs arbitrary: s) (simp_all split: prod.split)

lemma bytewise_inverse:
  assumes "\<And>s b. G s (fst (F s b)) = (b, snd (F s b))"
  shows "bytewise F s xs = (ys, s') \<Longrightarrow> bytewise G s ys = (xs, s')"
proof (induction xs arbitrary: s ys)
  case (Cons b bs)
  obtain x s1 where f: "F s b = (x, s1)" by fastforce
  obtain zs s2 where r: "bytewise F s1 bs = (zs, s2)" by fastforce
  have "G s x = (b, s1)" using assms [of s b] f by simp
  then show ?case using Cons f r Cons.IH [of s1 zs] by auto
qed simp

text \<open>
  A byte at position \<open>n\<close> of a block of 16: at the first position the key stream is renewed, then
  \<open>f\<close> works on the byte.
\<close>

definition buffered :: "('s \<Rightarrow> 's) \<Rightarrow> (nat \<Rightarrow> 's \<Rightarrow> byte \<Rightarrow> byte \<times> 's) \<Rightarrow> 's \<times> nat \<Rightarrow> byte \<Rightarrow> byte \<times> 's \<times> nat" where
  "buffered refill f = (\<lambda>(s, n) b. case f n (if n = 0 then refill s else s) b of (x, s') \<Rightarrow> (x, s', (n + 1) mod 16))"

section \<open>The loops of a mode\<close>

locale buffered_mode =
  fixes refill :: "'s \<Rightarrow> 's" and f :: "nat \<Rightarrow> 's \<Rightarrow> byte \<Rightarrow> byte \<times> 's"
    and rest :: "nat \<Rightarrow> 's \<Rightarrow> byte list \<Rightarrow> byte list \<times> byte list \<times> 's \<times> nat"
    and blk :: "'s \<Rightarrow> byte list \<Rightarrow> byte list \<times> 's"
    and blocks :: "'s \<Rightarrow> byte list \<Rightarrow> byte list \<times> byte list \<times> 's"
    and last_part :: "nat \<Rightarrow> 's \<Rightarrow> byte list \<Rightarrow> byte list \<times> 's \<times> nat"
  assumes rest_Nil: "rest n s [] = ([], [], s, n)"
    and rest_0: "rest 0 s inp = ([], inp, s, 0)"
    and rest_Cons: "0 < n \<Longrightarrow> rest n s (b # inp) =
      (case f n s b of (x, s1) \<Rightarrow> case rest ((n + 1) mod 16) s1 inp of (out, inp', s2, n') \<Rightarrow> (x # out, inp', s2, n'))"
    and blocks: "blocks s inp =
      (if 16 \<le> length inp then
         case blk s (take 16 inp) of (x, s1) \<Rightarrow> case blocks s1 (drop 16 inp) of (out, inp', s2) \<Rightarrow> (x @ out, inp', s2)
       else ([], inp, s))"
    and last_Nil: "last_part n s [] = ([], s, n)"
    and last_Cons: "last_part n s (b # inp) =
      (case f n s b of (x, s1) \<Rightarrow> case last_part (n + 1) s1 inp of (out, s2, n') \<Rightarrow> (x # out, s2, n'))"
begin

lemma rest_bytewise:
  assumes "n < 16" and "rest n s inp = (out, inp', s', n')"
  shows "\<exists>pre. inp = pre @ inp' \<and> bytewise (buffered refill f) (s, n) pre = (out, s', n') \<and> (n' = 0 \<or> inp' = []) \<and> n' < 16"
  using assms
proof (induction inp arbitrary: s n out)
  case (Cons b inp)
  show ?case
  proof (cases "n = 0")
    case False
    obtain x s1 where f: "f n s b = (x, s1)" by fastforce
    obtain o1 where r: "rest ((n + 1) mod 16) s1 inp = (o1, inp', s', n')" "out = x # o1"
      using Cons.prems(2) False f by (auto simp: rest_Cons split: prod.splits)
    have "(n + 1) mod 16 < 16" by simp
    from Cons.IH [OF this r(1)] obtain pre where "inp = pre @ inp'"
      "bytewise (buffered refill f) (s1, (n + 1) mod 16) pre = (o1, s', n')" "n' = 0 \<or> inp' = []" "n' < 16" by blast
    then show ?thesis using False f r(2) by (intro exI [of _ "b # pre"]) (simp add: buffered_def)
  qed (use Cons.prems rest_0 [of s "b # inp"] in simp)
qed (auto simp: rest_Nil)

lemma last_bytewise:
  assumes "0 < n" and "n + length xs \<le> 16" and "last_part n s xs = (out, s', n')"
  shows "bytewise (buffered refill f) (s, n mod 16) xs = (out, s', n' mod 16) \<and> n' = n + length xs"
  using assms
proof (induction xs arbitrary: s n out)
  case (Cons b xs)
  obtain x s1 where f: "f n s b = (x, s1)" by fastforce
  obtain o1 where r: "last_part (n + 1) s1 xs = (o1, s', n')" "out = x # o1"
    using Cons.prems(3) f by (auto simp: last_Cons split: prod.splits)
  have "bytewise (buffered refill f) (s1, (n + 1) mod 16) xs = (o1, s', n' mod 16) \<and> n' = n + 1 + length xs"
    using Cons.prems by (intro Cons.IH r(1)) simp_all
  moreover have "n mod 16 = n" using Cons.prems by simp
  ultimately show ?case using f r(2) Cons.prems(1) by (simp add: buffered_def)
qed (simp add: last_Nil)

lemma first_bytewise:
  assumes "xs \<noteq> []" and "length xs \<le> 16" and "last_part 0 (refill s) xs = (out, s', n')"
  shows "bytewise (buffered refill f) (s, 0) xs = (out, s', n' mod 16) \<and> n' = length xs"
proof -
  obtain b ys where xs: "xs = b # ys" using assms(1) by (cases xs) auto
  obtain x s1 where f: "f 0 (refill s) b = (x, s1)" by fastforce
  obtain o1 where r: "last_part 1 s1 ys = (o1, s', n')" "out = x # o1"
    using assms(3) f by (auto simp: xs last_Cons split: prod.splits)
  show ?thesis using last_bytewise [OF _ _ r(1)] assms(2) f r(2) by (simp add: xs buffered_def)
qed

text \<open>A block done at once is a block done byte by byte.\<close>

definition block_law :: bool where
  "block_law \<longleftrightarrow> (\<forall>s inp. length inp = 16 \<longrightarrow> blk s inp = (case last_part 0 (refill s) inp of (out, s', n') \<Rightarrow> (out, s')))"

lemma blocks_bytewise:
  assumes block_law and "blocks s inp = (out, inp', s')"
  shows "\<exists>pre. inp = pre @ inp' \<and> length inp' < 16 \<and> bytewise (buffered refill f) (s, 0) pre = (out, s', 0)"
  using assms(2)
proof (induction "length inp" arbitrary: inp s out rule: less_induct)
  case less
  show ?case
  proof (cases "16 \<le> length inp")
    case True
    obtain x s1 n1 where l: "last_part 0 (refill s) (take 16 inp) = (x, s1, n1)" by (metis surj_pair)
    then have b: "blk s (take 16 inp) = (x, s1)" using assms(1) True by (simp add: block_law_def)
    obtain o1 where r: "blocks s1 (drop 16 inp) = (o1, inp', s')" "out = x @ o1"
      using less.prems True b by (subst (asm) blocks) (auto split: prod.splits)
    have "take 16 inp \<noteq> []" using True by auto
    then have x: "bytewise (buffered refill f) (s, 0) (take 16 inp) = (x, s1, 0)"
      using first_bytewise [OF _ _ l] True by simp
    have "length (drop 16 inp) < length inp" using True by simp
    from less.hyps [OF this r(1)] obtain pre where p: "drop 16 inp = pre @ inp'" "length inp' < 16"
      "bytewise (buffered refill f) (s1, 0) pre = (o1, s', 0)" by blast
    have "inp = (take 16 inp @ pre) @ inp'" using p(1) by (metis append_take_drop_id append_assoc)
    then show ?thesis using p x r(2) by (intro exI [of _ "take 16 inp @ pre"]) (simp add: bytewise_append)
  next
    case False
    then show ?thesis using less.prems by (subst (asm) blocks) (intro exI [of _ "[]"], auto)
  qed
qed

lemma run_bytewise:
  assumes block_law and "n < 16"
  shows "(case rest n s inp of (o1, i1, s1, n1) \<Rightarrow> case blocks s1 i1 of (o2, i2, s2) \<Rightarrow>
      if i2 \<noteq> [] then case last_part n1 (refill s2) i2 of (o3, s3, n3) \<Rightarrow> (o1 @ o2 @ o3, s3, n3)
      else (o1 @ o2, s2, n1)) = bytewise (buffered refill f) (s, n) inp"
proof -
  obtain o1 i1 s1 n1 where r: "rest n s inp = (o1, i1, s1, n1)" by (metis surj_pair)
  obtain o2 i2 s2 where b: "blocks s1 i1 = (o2, i2, s2)" by (metis surj_pair)
  obtain o3 s3 n3 where l: "last_part n1 (refill s2) i2 = (o3, s3, n3)" by (metis surj_pair)
  from rest_bytewise [OF assms(2) r] obtain p1 where p1: "inp = p1 @ i1"
    "bytewise (buffered refill f) (s, n) p1 = (o1, s1, n1)" "n1 = 0 \<or> i1 = []" "n1 < 16" by blast
  from blocks_bytewise [OF assms(1) b] obtain p2 where p2: "i1 = p2 @ i2" "length i2 < 16"
    "bytewise (buffered refill f) (s1, 0) p2 = (o2, s2, 0)" by blast
  show ?thesis
  proof (cases "i1 = []")
    case True
    then have "o2 = []" "s2 = s1" "i2 = []" using p2 by auto
    then show ?thesis using r b p1 True by simp
  next
    case False
    then have n1: "n1 = 0" using p1 by simp
    have split: "bytewise (buffered refill f) (s, n) inp =
        (case bytewise (buffered refill f) (s2, 0) i2 of (o3, s4) \<Rightarrow> (o1 @ o2 @ o3, s4))"
      unfolding p1(1) p2(1) bytewise_append p1(2) n1 using p2(3) by (simp split: prod.split)
    show ?thesis
    proof (cases "i2 = []")
      case True
      then show ?thesis using r b n1 unfolding split by simp
    next
      case i2: False
      then show ?thesis using first_bytewise [OF i2 _ l [unfolded n1]] p2(2) r b l n1 unfolding split by simp
    qed
  qed
qed

end

section \<open>Counter mode\<close>

definition ctr_refill :: "block128_f \<Rightarrow> byte list \<times> byte list \<Rightarrow> byte list \<times> byte list" where
  "ctr_refill E s = (ctr128_inc (fst s), E (fst s))"

definition ctr_byte :: "nat \<Rightarrow> byte list \<times> byte list \<Rightarrow> byte \<Rightarrow> byte \<times> byte list \<times> byte list" where
  "ctr_byte n s b = (b XOR snd s ! n, s)"

definition ctr_pack :: "(byte list \<times> byte list) \<times> nat \<Rightarrow> ctr_state" where
  "ctr_pack sn = \<lparr>ctr_iv = fst (fst sn), ctr_ecount = snd (fst sn), ctr_num = snd sn\<rparr>"

interpretation ctr: buffered_mode "ctr_refill E" ctr_byte
  "\<lambda>n s inp. case ctr_use_rest (snd s) n inp of (out, inp', n') \<Rightarrow> (out, inp', s, n')"
  "\<lambda>s inp. (CRYPTO_xor16 inp (snd (ctr_refill E s)), ctr_refill E s)"
  "\<lambda>s inp. case ctr_blocks E inp (ctr_pack (s, 0)) of (out, inp', st) \<Rightarrow> (out, inp', ctr_iv st, ctr_ecount st)"
  "\<lambda>n s inp. case ctr_tail (snd s) n inp of (out, n') \<Rightarrow> (out, s, n')"
  for E :: block128_f
proof
  fix s :: "byte list \<times> byte list" and inp :: "byte list"
  show "(case ctr_use_rest (snd s) 0 inp of (out, inp', n') \<Rightarrow> (out, inp', s, n')) = ([], inp, s, 0)"
    by (cases inp) simp_all
  show "(case ctr_blocks E inp (ctr_pack (s, 0)) of (out, inp', st) \<Rightarrow> (out, inp', ctr_iv st, ctr_ecount st)) =
    (if 16 \<le> length inp then
       case (CRYPTO_xor16 (take 16 inp) (snd (ctr_refill E s)), ctr_refill E s) of (x, s1) \<Rightarrow>
       case case ctr_blocks E (drop 16 inp) (ctr_pack (s1, 0)) of (out, inp', st) \<Rightarrow> (out, inp', ctr_iv st, ctr_ecount st) of
         (out, inp', s2) \<Rightarrow> (x @ out, inp', s2)
     else ([], inp, s))"
    by (subst ctr_blocks.simps) (simp add: ctr_pack_def ctr_refill_def xor16_take split: prod.split)
qed (simp_all add: ctr_byte_def split: prod.split)

lemma ctr_tail: "n + length xs \<le> length e \<Longrightarrow> ctr_tail e n xs = (map2 (XOR) xs (drop n e), n + length xs)"
  by (induction xs arbitrary: n) (simp_all add: Cons_nth_drop_Suc [symmetric])

lemma ctr_block_law: "(\<And>x. length (E x) = 16) \<Longrightarrow> ctr.block_law E"
  unfolding ctr.block_law_def by (auto simp: ctr_tail ctr_refill_def xor16)

lemma ctr_blocks_num:
  "ctr_blocks E inp st = (out, inp', st') \<Longrightarrow> ctr_num st' = (if 16 \<le> length inp then 0 else ctr_num st)"
proof (induction E inp st arbitrary: out rule: ctr_blocks.induct)
  case (1 E inp st)
  show ?case using 1 by (subst (asm) (2) ctr_blocks.simps) (auto simp: Let_def split: if_splits prod.splits)
qed

lemma ctr_blocks_any_num:
  "ctr_blocks E inp (ctr_pack (s, n)) =
    (case ctr_blocks E inp (ctr_pack (s, 0)) of (out, inp', st') \<Rightarrow> (out, inp', st'\<lparr>ctr_num := if 16 \<le> length inp then 0 else n\<rparr>))"
proof (cases "16 \<le> length inp")
  case True
  obtain o1 i1 s1 where r: "ctr_blocks E (drop 16 inp)
      \<lparr>ctr_iv = ctr128_inc (fst s), ctr_ecount = E (fst s), ctr_num = 0\<rparr> = (o1, i1, s1)" by (metis surj_pair)
  have "ctr_num s1 = 0" using ctr_blocks_num [OF r] by simp
  then show ?thesis using True r by (subst (1 2) ctr_blocks.simps) (simp add: ctr_pack_def)
qed (simp add: ctr_blocks.simps ctr_pack_def)

lemma ctr_bytewise:
  assumes "\<And>x. length (E x) = 16" and "ctr_num st < 16"
  shows "CRYPTO_ctr128_encrypt E st inp =
    (case bytewise (buffered (ctr_refill E) ctr_byte) ((ctr_iv st, ctr_ecount st), ctr_num st) inp of
       (out, sn) \<Rightarrow> (out, ctr_pack sn))"
proof -
  let ?s = "(ctr_iv st, ctr_ecount st)"
  obtain o1 i1 n1 where r: "ctr_use_rest (ctr_ecount st) (ctr_num st) inp = (o1, i1, n1)" by (metis surj_pair)
  obtain o2 i2 st2 where b: "ctr_blocks E i1 (ctr_pack (?s, 0)) = (o2, i2, st2)" by (metis surj_pair)
  have n1: "n1 = 0 \<or> i1 = []" using ctr.rest_bytewise [of "ctr_num st" ?s inp o1 i1 ?s n1 E] assms(2) r by auto
  have p: "st\<lparr>ctr_num := n\<rparr> = ctr_pack (?s, n)" for n by (simp add: ctr_pack_def)
  have num: "(if 16 \<le> length i1 then 0 else n1) = n1" using n1 by auto
  have b': "ctr_blocks E i1 (st\<lparr>ctr_num := n1\<rparr>) = (o2, i2, st2\<lparr>ctr_num := n1\<rparr>)"
    unfolding p ctr_blocks_any_num [of E i1 _ n1] b num by simp
  show ?thesis
    unfolding ctr.run_bytewise [OF ctr_block_law [OF assms(1)] assms(2), symmetric] CRYPTO_ctr128_encrypt_def
    using r b b' by (simp add: ctr_refill_def ctr_pack_def split: prod.split)
qed

section \<open>The counter\<close>

text \<open>The carry loop adds to the first \<open>n\<close> bytes as a number.\<close>

lemma inc_loop:
  assumes "n \<le> length counter" and "unat c \<le> 1"
  shows "inc_loop n c counter = be_bytes n (be_val (take n counter) + unat c) @ drop n counter"
  using assms
proof (induction n arbitrary: c counter)
  case (Suc n)
  define c1 :: u32 where "c1 = c + ucast (counter ! n)"
  have b: "unat (counter ! n) < 256" by (rule byte_lt_256)
  have c1: "unat c1 = unat c + unat (counter ! n)"
  proof -
    have "unat c + unat (counter ! n) \<le> 256" using b Suc.prems(2) by linarith
    then show ?thesis unfolding c1_def by (simp add: unat_word_ariths)
  qed
  have d: "unat (drop_bit 8 c1) = unat c1 div 256" using unat_drop_bit [of 8 c1] by simp
  have d1: "unat (drop_bit 8 c1) \<le> 1" using b Suc.prems(2) c1 unfolding d by linarith
  have y: "byte_of (unat c1) = ucast c1" by (simp add: byte_of_def)
  have t: "take n (counter[n := ucast c1]) = take n counter" by simp
  have dr: "drop n (counter[n := ucast c1]) = ucast c1 # drop (Suc n) counter"
    using Suc.prems(1) by (simp add: Cons_nth_drop_Suc [symmetric])
  let ?A = "be_val (take n counter)"
  have v: "be_val (take (Suc n) counter) + unat c = ?A * 256 + unat c1"
    using Suc.prems(1) c1 by (simp add: take_Suc_conv_app_nth be_val_append)
  have "inc_loop (Suc n) c counter = inc_loop n (drop_bit 8 c1) (counter[n := ucast c1])"
    by (simp add: c1_def Let_def)
  also have "\<dots> = be_bytes n (?A + unat c1 div 256) @ ucast c1 # drop (Suc n) counter"
    using Suc.IH [of "counter[n := ucast c1]" "drop_bit 8 c1"] Suc.prems(1) d1 unfolding t dr d by simp
  also have "\<dots> = be_bytes (Suc n) (?A * 256 + unat c1) @ drop (Suc n) counter"
    unfolding y [symmetric] by (simp add: byte_eq_iff)
  finally show ?case unfolding v .
qed simp

lemma ctr128_inc: "length iv = 16 \<Longrightarrow> ctr128_inc iv = be_bytes 16 (be_val iv + 1)"
  using inc_loop [of 16 iv 1] by (simp add: ctr128_inc_def)

lemma ctr96_inc: "length iv = 16 \<Longrightarrow> ctr96_inc iv = be_bytes 12 (be_val (take 12 iv) + 1) @ drop 12 iv"
  using inc_loop [of 12 iv 1] by (simp add: ctr96_inc_def)

text \<open>
  A counter function on 32 bits: as long as the last four bytes do not overflow it encrypts the
  counters that follow each other.
\<close>

definition ctr_stream :: "block128_f \<Rightarrow> nat \<Rightarrow> nat \<Rightarrow> byte list" where
  "ctr_stream E v m = concat (map (\<lambda>i. E (be_bytes 16 (v + i))) [0..<m])"

definition ctr32_law :: "block128_f \<Rightarrow> ctr128_f \<Rightarrow> bool" where
  "ctr32_law E func \<longleftrightarrow> (\<forall>inp blocks iv. length iv = 16 \<and> 16 * blocks \<le> length inp \<and> be_val (drop 12 iv) + blocks \<le> 2 ^ 32 \<longrightarrow>
     func inp blocks iv = map2 (XOR) (take (16 * blocks) inp) (ctr_stream E (be_val iv) blocks))"

lemma ctr_stream_Suc: "ctr_stream E v (Suc m) = E (be_bytes 16 v) @ ctr_stream E (v + 1) m"
proof -
  have "[0..<Suc m] = 0 # map Suc [0..<m]" by (simp only: map_Suc_upt) (simp add: upt_rec)
  then show ?thesis by (simp add: ctr_stream_def o_def)
qed

lemma ctr_stream_mod: "ctr_stream E (v mod 2 ^ 128) m = ctr_stream E v m"
proof -
  have "be_bytes 16 (v mod 2 ^ 128 + i) = be_bytes 16 (v + i)" for i
    using be_bytes_mod [of 16 "v mod 2 ^ 128 + i"] be_bytes_mod [of 16 "v + i"] by (simp add: mod_add_left_eq)
  then show ?thesis by (simp add: ctr_stream_def)
qed

lemma ctr_blocks_many:
  assumes "\<And>x. length (E x) = 16" and "length iv = 16" and "16 * m \<le> length inp"
  shows "\<exists>e'. ctr_blocks E inp (ctr_pack ((iv, e), 0)) =
    (case ctr_blocks E (drop (16 * m) inp) (ctr_pack ((be_bytes 16 (be_val iv + m), e'), 0)) of
       (out, inp', st) \<Rightarrow> (map2 (XOR) (take (16 * m) inp) (ctr_stream E (be_val iv) m) @ out, inp', st))"
  using assms(2,3)
proof (induction m arbitrary: iv e inp)
  case 0
  then have "be_bytes 16 (be_val iv) = iv" using be_bytes_unique [of iv 16] by simp
  then show ?case by (simp add: ctr_stream_def split: prod.split) blast
next
  case (Suc m)
  let ?iv = "be_bytes 16 (be_val iv + 1)"
  have u: "be_bytes 16 (be_val iv) = iv" using Suc.prems(1) be_bytes_unique [of iv 16] by simp
  have len: "16 \<le> length inp" using Suc.prems(2) by simp
  have v: "be_val ?iv = (be_val iv + 1) mod 2 ^ 128" by (simp add: be_val_be_bytes)
  have vm: "be_bytes 16 (be_val ?iv + m) = be_bytes 16 (be_val iv + Suc m)"
    using be_bytes_mod [of 16 "be_val ?iv + m"] be_bytes_mod [of 16 "be_val iv + Suc m"] unfolding v by (simp add: mod_add_left_eq)
  have st: "ctr_stream E (be_val ?iv) m = ctr_stream E (be_val iv + 1) m" unfolding v by (rule ctr_stream_mod)
  obtain e' where e': "ctr_blocks E (drop 16 inp) (ctr_pack ((?iv, E iv), 0)) =
      (case ctr_blocks E (drop (16 * m) (drop 16 inp)) (ctr_pack ((be_bytes 16 (be_val ?iv + m), e'), 0)) of
         (out, inp', st) \<Rightarrow> (map2 (XOR) (take (16 * m) (drop 16 inp)) (ctr_stream E (be_val ?iv) m) @ out, inp', st))"
  proof -
    have "length ?iv = 16" "16 * m \<le> length (drop 16 inp)" using Suc.prems(2) by simp_all
    from Suc.IH [OF this] show ?thesis using that by blast
  qed
  have x: "take (16 * Suc m) inp = take 16 inp @ take (16 * m) (drop 16 inp)" using take_add [of 16 "16 * m" inp] by simp
  have first: "ctr_blocks E inp (ctr_pack ((iv, e), 0)) = (case ctr_blocks E (drop 16 inp) (ctr_pack ((?iv, E iv), 0)) of
      (out, inp', st) \<Rightarrow> (map2 (XOR) (take 16 inp) (E iv) @ out, inp', st))"
    using len Suc.prems(1) assms(1) [of iv] by (subst ctr_blocks.simps) (simp add: ctr_pack_def ctr128_inc xor16 split: prod.split)
  show ?case
    using assms(1) len unfolding first e' vm st ctr_stream_Suc u x
    by (intro exI [of _ e']) (simp add: zip_append add.commute split: prod.split)
qed

text \<open>Setting the last four bytes and carrying into the others adds to the whole counter.\<close>

lemma ctr32_step:
  fixes c :: u32
  assumes "length iv = 16" and "unat c = be_val (drop 12 iv)" and "unat c + m \<le> 2 ^ 32" and "0 < m" and "c' = c + of_nat m"
  shows "(let iv' = memcpy_at iv 12 (CRYPTO_store_u32_be c') in if c' = 0 then ctr96_inc iv' else iv') =
    be_bytes 16 (be_val iv + m)"
proof -
  define hi where "hi = take 12 iv"
  have hi: "length hi = 12" using assms(1) by (simp add: hi_def)
  have iv: "iv = hi @ drop 12 iv" by (simp add: hi_def)
  have dlen: "length (drop 12 iv) = 4" using assms(1) by simp
  have v: "be_val iv = be_val hi * 2 ^ 32 + unat c"
    unfolding assms(2) by (subst iv) (simp only: be_val_append dlen, simp)
  have m: "memcpy_at iv 12 (CRYPTO_store_u32_be x) = hi @ be_bytes 4 (unat x)" for x :: u32
    using assms(1) by (simp add: memcpy_at_def store_u32_be hi_def)
  have u: "unat c' = (unat c + m) mod 2 ^ 32" unfolding assms(5) by (simp add: unat_word_ariths unat_of_nat mod_add_right_eq)
  show ?thesis
  proof (cases "unat c + m = 2 ^ 32")
    case True
    then have c': "c' = 0" using u by (simp add: word_unat_eq_iff)
    have "be_bytes (12 + 4) (be_val iv + m) = be_bytes 12 (be_val hi + 1) @ be_bytes 4 (unat (0 :: u32))"
      using True v by (intro be_bytes_split4) simp
    then show ?thesis unfolding m c' using hi ctr96_inc [of "hi @ be_bytes 4 0"] by simp
  next
    case False
    then have c': "unat c' = unat c + m" using u assms(3) by simp
    then have "c' \<noteq> 0" using assms(4) by (auto simp: word_unat_eq_iff)
    moreover have "be_bytes (12 + 4) (be_val iv + m) = be_bytes 12 (be_val hi) @ be_bytes 4 (unat c')"
      using c' v by (intro be_bytes_split4) simp
    ultimately show ?thesis unfolding m using be_bytes_unique [OF hi] by simp
  qed
qed

lemma ctr32_chunk:
  assumes "ctr32_chunk len c = (blocks, c')" and "16 \<le> len"
  shows "0 < blocks" and "16 * blocks \<le> len" and "unat c + blocks \<le> 2 ^ 32" and "c' = c + of_nat blocks"
proof -
  define b where "b = (if len div 16 > 2 ^ 28 then 2 ^ 28 else len div 16)"
  have b: "0 < b" "16 * b \<le> len" "b \<le> 2 ^ 28" using assms(2) by (auto simp: b_def div_greater_zero_iff)
  have c: "unat c < 2 ^ 32" using unsigned_less [of c] by simp
  have ch: "(if unat (c + of_nat b) < b then (b - unat (c + of_nat b), 0) else (b, c + of_nat b)) = (blocks, c')"
    using assms(1) unfolding ctr32_chunk_def Let_def b_def .
  have u: "unat (c + of_nat b) = (unat c + b) mod 2 ^ 32" by (simp add: unat_word_ariths unat_of_nat mod_add_right_eq)
  show "0 < blocks" using ctr32_chunk_pos [of len blocks c' c] assms by simp
  show "16 * blocks \<le> len" "unat c + blocks \<le> 2 ^ 32" "c' = c + of_nat blocks"
  proof -
    have *: "16 * blocks \<le> len \<and> unat c + blocks \<le> 2 ^ 32 \<and> c' = c + of_nat blocks"
    proof (cases "unat c + b < 2 ^ 32")
      case True
      then have "\<not> unat (c + of_nat b) < b" unfolding u by simp
      then show ?thesis using ch True b by auto
    next
      case False
      then have w: "unat (c + of_nat b) = unat c + b - 2 ^ 32" unfolding u using c b(3) by (simp add: le_mod_geq)
      then have "unat (c + of_nat b) < b" using c b(1) False by linarith
      then have "blocks = b - (unat c + b - 2 ^ 32)" "c' = 0"
        using ch w by auto
      moreover from this False c have "unat c + blocks = 2 ^ 32" by linarith
      moreover from this have "unat (c + of_nat blocks) = 0" by (simp add: unat_word_ariths unat_of_nat mod_add_right_eq)
      ultimately show ?thesis using b(2) by (auto simp: word_unat_eq_iff)
    qed
    then show "16 * blocks \<le> len" "unat c + blocks \<le> 2 ^ 32" "c' = c + of_nat blocks" by simp_all
  qed
qed

lemma ctr32_blocks:
  assumes "\<And>x. length (E x) = 16" and "ctr32_law E func" and "length iv = 16" and "unat c = be_val (drop 12 iv)"
  shows "\<exists>out inp' e' iv' c'. ctr32_blocks func inp c iv = (out, inp', c', iv') \<and>
    ctr_blocks E inp (ctr_pack ((iv, e), 0)) = (out, inp', ctr_pack ((iv', e'), 0)) \<and>
    length iv' = 16 \<and> unat c' = be_val (drop 12 iv') \<and> length inp' < 16"
  using assms(3,4)
proof (induction "length inp" arbitrary: inp c iv e rule: less_induct)
  case less
  show ?case
  proof (cases "16 \<le> length inp")
    case True
    obtain m c1 where ch: "ctr32_chunk (length inp) c = (m, c1)" by fastforce
    note ck = ctr32_chunk [OF ch True]
    let ?iv = "be_bytes 16 (be_val iv + m)"
    have step: "(if c1 = 0 then ctr96_inc (memcpy_at iv 12 (CRYPTO_store_u32_be c1)) else memcpy_at iv 12 (CRYPTO_store_u32_be c1)) = ?iv"
      using ctr32_step [OF less.prems ck(3,1,4)] by (simp only: Let_def)
    have c1: "unat c1 = be_val (drop 12 ?iv)"
    proof -
      have split: "be_bytes (12 + 4) n = be_bytes 12 (n div 2 ^ 32) @ be_bytes 4 n" for n
        using be_bytes_add [of 12 4 n] by simp
      have "drop 12 ?iv = be_bytes 4 (be_val iv + m)" using split [of "be_val iv + m"] by simp
      moreover have "be_val iv mod 2 ^ 32 = unat c"
      proof -
        have "be_val (take 12 iv @ drop 12 iv) = be_val (take 12 iv) * 2 ^ 32 + unat c"
          unfolding less.prems(2) by (simp only: be_val_append) (simp add: less.prems(1))
        moreover have "unat c < 2 ^ 32" using unsigned_less [of c] by simp
        ultimately show ?thesis by simp
      qed
      moreover have "unat c1 = (unat c + m) mod 2 ^ 32" unfolding ck(4) by (simp add: unat_word_ariths unat_of_nat mod_add_right_eq)
      moreover have "be_val (be_bytes 4 (be_val iv + m)) = (be_val iv mod 2 ^ 32 + m) mod 2 ^ 32"
        unfolding be_val_be_bytes mod_add_left_eq by simp
      ultimately show ?thesis by simp
    qed
    obtain e1 where e1: "ctr_blocks E inp (ctr_pack ((iv, e), 0)) =
      (case ctr_blocks E (drop (16 * m) inp) (ctr_pack ((?iv, e1), 0)) of
         (out, inp', st) \<Rightarrow> (map2 (XOR) (take (16 * m) inp) (ctr_stream E (be_val iv) m) @ out, inp', st))"
      using ctr_blocks_many [where E = E, OF assms(1) less.prems(1) ck(2)] by blast
    have sm: "length (drop (16 * m) inp) < length inp" using ck(1) True by simp
    obtain out inp' e' iv' c' where IH: "ctr32_blocks func (drop (16 * m) inp) c1 ?iv = (out, inp', c', iv')"
      "ctr_blocks E (drop (16 * m) inp) (ctr_pack ((?iv, e1), 0)) = (out, inp', ctr_pack ((iv', e'), 0))"
      "length iv' = 16" "unat c' = be_val (drop 12 iv')" "length inp' < 16"
      using less.hyps [OF sm, of ?iv c1 e1] c1 by auto
    have f: "func inp m iv = map2 (XOR) (take (16 * m) inp) (ctr_stream E (be_val iv) m)"
      using assms(2) less.prems ck(2,3) by (simp add: ctr32_law_def)
    have "ctr32_blocks func inp c iv = (func inp m iv @ out, inp', c', iv')"
      using True ch step IH(1) by (subst ctr32_blocks.simps) (simp add: Let_def)
    then show ?thesis using e1 IH f by auto
  next
    case False
    then show ?thesis using less.prems by (simp add: ctr32_blocks.simps ctr_blocks.simps) blast
  qed
qed

section \<open>Output feedback\<close>

definition ofb_byte :: "nat \<Rightarrow> byte list \<Rightarrow> byte \<Rightarrow> byte \<times> byte list" where
  "ofb_byte n iv b = (b XOR iv ! n, iv)"

definition fb_pack :: "byte list \<times> nat \<Rightarrow> fb_state" where
  "fb_pack sn = \<lparr>fb_ivec = fst sn, fb_num = snd sn\<rparr>"

interpretation ofb: buffered_mode E ofb_byte
  "\<lambda>n iv inp. case ctr_use_rest iv n inp of (out, inp', n') \<Rightarrow> (out, inp', iv, n')"
  "\<lambda>iv inp. (CRYPTO_xor16 inp (E iv), E iv)"
  "\<lambda>iv inp. case ofb_blocks E inp (fb_pack (iv, 0)) of (out, inp', st) \<Rightarrow> (out, inp', fb_ivec st)"
  "\<lambda>n iv inp. case ctr_tail iv n inp of (out, n') \<Rightarrow> (out, iv, n')"
  for E :: block128_f
proof
  fix iv inp :: "byte list"
  show "(case ctr_use_rest iv 0 inp of (out, inp', n') \<Rightarrow> (out, inp', iv, n')) = ([], inp, iv, 0)"
    by (cases inp) simp_all
  show "(case ofb_blocks E inp (fb_pack (iv, 0)) of (out, inp', st) \<Rightarrow> (out, inp', fb_ivec st)) =
    (if 16 \<le> length inp then
       case (CRYPTO_xor16 (take 16 inp) (E iv), E iv) of (x, s1) \<Rightarrow>
       case case ofb_blocks E (drop 16 inp) (fb_pack (s1, 0)) of (out, inp', st) \<Rightarrow> (out, inp', fb_ivec st) of
         (out, inp', s2) \<Rightarrow> (x @ out, inp', s2)
     else ([], inp, iv))"
    by (subst ofb_blocks.simps) (simp add: fb_pack_def xor16_take split: prod.split)
qed (simp_all add: ofb_byte_def split: prod.split)

lemma ofb_block_law: "(\<And>x. length (E x) = 16) \<Longrightarrow> ofb.block_law E"
  unfolding ofb.block_law_def by (auto simp: ctr_tail xor16)

lemma ofb_blocks_num:
  "ofb_blocks E inp st = (out, inp', st') \<Longrightarrow> fb_num st' = (if 16 \<le> length inp then 0 else fb_num st)"
proof (induction E inp st arbitrary: out rule: ofb_blocks.induct)
  case (1 E inp st)
  show ?case using 1 by (subst (asm) (2) ofb_blocks.simps) (auto simp: Let_def split: if_splits prod.splits)
qed

lemma ofb_blocks_any_num:
  "ofb_blocks E inp (fb_pack (iv, n)) =
    (case ofb_blocks E inp (fb_pack (iv, 0)) of (out, inp', st') \<Rightarrow> (out, inp', st'\<lparr>fb_num := if 16 \<le> length inp then 0 else n\<rparr>))"
proof (cases "16 \<le> length inp")
  case True
  obtain o1 i1 s1 where r: "ofb_blocks E (drop 16 inp) \<lparr>fb_ivec = E iv, fb_num = 0\<rparr> = (o1, i1, s1)" by (metis surj_pair)
  have "fb_num s1 = 0" using ofb_blocks_num [OF r] by simp
  then show ?thesis using True r by (subst (1 2) ofb_blocks.simps) (simp add: fb_pack_def)
qed (simp add: ofb_blocks.simps fb_pack_def)

lemma ofb_bytewise:
  assumes "\<And>x. length (E x) = 16" and "fb_num st < 16"
  shows "CRYPTO_ofb128_encrypt E st inp =
    (case bytewise (buffered E ofb_byte) (fb_ivec st, fb_num st) inp of (out, sn) \<Rightarrow> (out, fb_pack sn))"
proof -
  obtain o1 i1 n1 where r: "ctr_use_rest (fb_ivec st) (fb_num st) inp = (o1, i1, n1)" by (metis surj_pair)
  obtain o2 i2 st2 where b: "ofb_blocks E i1 (fb_pack (fb_ivec st, 0)) = (o2, i2, st2)" by (metis surj_pair)
  have n1: "n1 = 0 \<or> i1 = []" using ofb.rest_bytewise [of "fb_num st" "fb_ivec st" inp o1 i1 "fb_ivec st" n1 E] assms(2) r by auto
  have p: "st\<lparr>fb_num := n\<rparr> = fb_pack (fb_ivec st, n)" for n by (simp add: fb_pack_def)
  have num: "(if 16 \<le> length i1 then 0 else n1) = n1" using n1 by auto
  have b': "ofb_blocks E i1 (st\<lparr>fb_num := n1\<rparr>) = (o2, i2, st2\<lparr>fb_num := n1\<rparr>)"
    unfolding p ofb_blocks_any_num [of E i1 _ n1] b num by simp
  show ?thesis
    unfolding ofb.run_bytewise [OF ofb_block_law [OF assms(1)] assms(2), symmetric] CRYPTO_ofb128_encrypt_def
    using r b b' by (simp add: fb_pack_def split: prod.split)
qed

section \<open>Cipher feedback\<close>

definition cfb_byte :: "bool \<Rightarrow> nat \<Rightarrow> byte list \<Rightarrow> byte \<Rightarrow> byte \<times> byte list" where
  "cfb_byte enc n iv b = (iv ! n XOR b, iv[n := if enc then iv ! n XOR b else b])"

interpretation cfb: buffered_mode E "cfb_byte enc" "\<lambda>n iv inp. cfb_use_rest enc iv n inp"
  "\<lambda>iv inp. cfb_words enc (E iv) inp"
  "\<lambda>iv inp. case cfb_blocks enc E inp (fb_pack (iv, 0)) of (out, inp', st) \<Rightarrow> (out, inp', fb_ivec st)"
  "\<lambda>n iv inp. cfb_tail enc iv n inp"
  for E :: block128_f and enc :: bool
proof
  fix iv inp :: "byte list"
  show "cfb_use_rest enc iv 0 inp = ([], inp, iv, 0)" by (cases inp) simp_all
  have "cfb_words enc x (take 16 inp) = cfb_words enc x inp" if "16 \<le> length inp" for x
    by (cases enc) (simp_all add: cfb_words_def CRYPTO_xor16_def CRYPTO_load_word_le_def Let_def drop_take min_def)
  then show "(case cfb_blocks enc E inp (fb_pack (iv, 0)) of (out, inp', st) \<Rightarrow> (out, inp', fb_ivec st)) =
    (if 16 \<le> length inp then
       case cfb_words enc (E iv) (take 16 inp) of (x, s1) \<Rightarrow>
       case case cfb_blocks enc E (drop 16 inp) (fb_pack (s1, 0)) of (out, inp', st) \<Rightarrow> (out, inp', fb_ivec st) of
         (out, inp', s2) \<Rightarrow> (x @ out, inp', s2)
     else ([], inp, iv))"
    by (subst cfb_blocks.simps) (simp add: fb_pack_def split: prod.split)
qed (simp_all add: cfb_byte_def split: prod.split)

lemma cfb_tail:
  "n + length xs \<le> length iv \<Longrightarrow> cfb_tail enc iv n xs =
    (map2 (XOR) (drop n iv) xs,
     take n iv @ (if enc then map2 (XOR) (drop n iv) xs else xs) @ drop (n + length xs) iv, n + length xs)"
proof (induction xs arbitrary: n iv)
  case (Cons b xs)
  have "drop n iv = iv ! n # drop (n + 1) iv" using Cons.prems by (simp add: Cons_nth_drop_Suc)
  moreover have "take (Suc n) (iv[n := z]) = take n iv @ [z]" for z
    using Cons.prems by (simp add: take_Suc_conv_app_nth)
  ultimately show ?case using Cons by (auto simp: Let_def)
qed simp

lemma cfb_block_law: "(\<And>x. length (E x) = 16) \<Longrightarrow> cfb.block_law E enc"
  unfolding cfb.block_law_def by (cases enc) (auto simp: cfb_tail cfb_words_def xor16 Let_def store_load_word take_16 [symmetric])

lemma cfb_blocks_num:
  "cfb_blocks enc E inp st = (out, inp', st') \<Longrightarrow> fb_num st' = (if 16 \<le> length inp then 0 else fb_num st)"
proof (induction enc E inp st arbitrary: out rule: cfb_blocks.induct)
  case (1 enc E inp st)
  show ?case using 1 by (subst (asm) (2) cfb_blocks.simps) (auto simp: Let_def split: if_splits prod.splits)
qed

lemma cfb_blocks_any_num:
  "cfb_blocks enc E inp (fb_pack (iv, n)) =
    (case cfb_blocks enc E inp (fb_pack (iv, 0)) of
       (out, inp', st') \<Rightarrow> (out, inp', st'\<lparr>fb_num := if 16 \<le> length inp then 0 else n\<rparr>))"
proof (cases "16 \<le> length inp")
  case True
  obtain tmp iv1 where w: "cfb_words enc (E iv) inp = (tmp, iv1)" by fastforce
  obtain o1 i1 s1 where r: "cfb_blocks enc E (drop 16 inp) \<lparr>fb_ivec = iv1, fb_num = 0\<rparr> = (o1, i1, s1)" by (metis surj_pair)
  have "fb_num s1 = 0" using cfb_blocks_num [OF r] by simp
  then show ?thesis using True w r by (subst (1 2) cfb_blocks.simps) (simp add: fb_pack_def)
qed (simp add: cfb_blocks.simps fb_pack_def)

lemma cfb_bytewise:
  assumes "\<And>x. length (E x) = 16" and "fb_num st < 16"
  shows "CRYPTO_cfb128_encrypt E enc st inp =
    (case bytewise (buffered E (cfb_byte enc)) (fb_ivec st, fb_num st) inp of (out, sn) \<Rightarrow> (out, fb_pack sn))"
proof -
  obtain o1 i1 iv1 n1 where r: "cfb_use_rest enc (fb_ivec st) (fb_num st) inp = (o1, i1, iv1, n1)" by (metis surj_pair)
  obtain o2 i2 st2 where b: "cfb_blocks enc E i1 (fb_pack (iv1, 0)) = (o2, i2, st2)" by (metis surj_pair)
  have n1: "n1 = 0 \<or> i1 = []" using cfb.rest_bytewise [of "fb_num st" enc "fb_ivec st" inp o1 i1 iv1 n1 E] assms(2) r by auto
  have num: "(if 16 \<le> length i1 then 0 else n1) = n1" using n1 by auto
  have b': "cfb_blocks enc E i1 \<lparr>fb_ivec = iv1, fb_num = n1\<rparr> = (o2, i2, st2\<lparr>fb_num := n1\<rparr>)"
    using cfb_blocks_any_num [of enc E i1 iv1 n1] unfolding b num by (simp add: fb_pack_def)
  show ?thesis
    unfolding cfb.run_bytewise [OF cfb_block_law [OF assms(1)] assms(2), symmetric] CRYPTO_cfb128_encrypt_def
    using r b b' by (simp add: fb_pack_def split: prod.split)
qed

section \<open>Input in pieces\<close>

fun updates :: "('s \<Rightarrow> byte list \<Rightarrow> byte list \<times> 's) \<Rightarrow> 's \<Rightarrow> byte list list \<Rightarrow> byte list \<times> 's" where
  "updates run st [] = ([], st)"
| "updates run st (x # xs) =
     (case run st x of (a, st1) \<Rightarrow> case updates run st1 xs of (b, st2) \<Rightarrow> (a @ b, st2))"

lemma buffered_num: "snd sn < 16 \<Longrightarrow> bytewise (buffered refill f) sn xs = (out, sn') \<Longrightarrow> snd sn' < 16"
proof (induction xs arbitrary: sn out)
  case (Cons b xs)
  obtain x sn1 where f: "buffered refill f sn b = (x, sn1)" by (metis surj_pair)
  then have "snd sn1 < 16" by (auto simp: buffered_def split: prod.splits)
  then show ?case using Cons.IH [of sn1] Cons.prems(2) f by (auto split: prod.splits)
qed simp

lemma updates_bytewise:
  assumes "\<And>sn inp. snd sn < 16 \<Longrightarrow> run (pack sn) inp =
    (case bytewise (buffered refill f) sn inp of (out, sn') \<Rightarrow> (out, pack sn'))"
    and "snd sn < 16"
  shows "updates run (pack sn) xs =
    (case bytewise (buffered refill f) sn (concat xs) of (out, sn') \<Rightarrow> (out, pack sn'))"
  using assms(2)
proof (induction xs arbitrary: sn)
  case (Cons x xs)
  obtain a sn1 where b: "bytewise (buffered refill f) sn x = (a, sn1)" by (metis surj_pair)
  have "snd sn1 < 16" using buffered_num [OF Cons.prems b] .
  then show ?case using Cons.IH [of sn1] Cons.prems b assms(1) [of sn x]
    by (simp add: bytewise_append split: prod.split)
qed simp

lemma buffered_inverse:
  fixes f g :: "nat \<Rightarrow> 's \<Rightarrow> byte \<Rightarrow> byte \<times> 's"
  assumes "\<And>n s b. g n s (fst (f n s b)) = (b, snd (f n s b))"
  shows "bytewise (buffered refill f) sn xs = (ys, sn') \<Longrightarrow> bytewise (buffered refill g) sn ys = (xs, sn')"
proof (rule bytewise_inverse)
  fix sn :: "'s \<times> nat" and b
  obtain s n where sn: "sn = (s, n)" by fastforce
  obtain x s1 where f: "f n (if n = 0 then refill s else s) b = (x, s1)" by fastforce
  have "g n (if n = 0 then refill s else s) x = (b, s1)"
    using assms [of n "if n = 0 then refill s else s" b] unfolding f by simp
  then show "buffered refill g sn (fst (buffered refill f sn b)) = (b, snd (buffered refill f sn b))"
    unfolding buffered_def sn prod.case f by simp
qed

lemma updates_inverse:
  assumes "\<And>sn inp. snd sn < 16 \<Longrightarrow> run (pack sn) inp =
      (case bytewise (buffered refill f) sn inp of (out, sn') \<Rightarrow> (out, pack sn'))"
    and "\<And>sn inp. snd sn < 16 \<Longrightarrow> run' (pack sn) inp =
      (case bytewise (buffered refill g) sn inp of (out, sn') \<Rightarrow> (out, pack sn'))"
    and "\<And>n s b. g n s (fst (f n s b)) = (b, snd (f n s b))"
    and "snd sn < 16" and "updates run (pack sn) xs = (concat ys, st')"
  shows "updates run' (pack sn) ys = (concat xs, st')"
proof -
  obtain out sn' where b: "bytewise (buffered refill f) sn (concat xs) = (out, sn')" by (metis surj_pair)
  then have o: "out = concat ys" "st' = pack sn'"
    using assms(5) updates_bytewise [where run = run, OF assms(1) assms(4), of xs] by auto
  have "bytewise (buffered refill g) sn (concat ys) = (concat xs, sn')"
    using buffered_inverse [where f = f and g = g, OF assms(3) b] o(1) by simp
  then show ?thesis using updates_bytewise [where run = run', OF assms(2) assms(4), of ys] o(2) by simp
qed

lemma mode_packs:
  "ctr_pack ((ctr_iv st, ctr_ecount st), ctr_num st) = st" "fb_pack (fb_ivec fs, fb_num fs) = fs"
  by (simp_all add: ctr_pack_def fb_pack_def)

lemma pack_sel [simp]:
  "ctr_iv (ctr_pack sn) = fst (fst sn)" "ctr_ecount (ctr_pack sn) = snd (fst sn)" "ctr_num (ctr_pack sn) = snd sn"
  "fb_ivec (fb_pack fn) = fst fn" "fb_num (fb_pack fn) = snd fn"
  by (simp_all add: ctr_pack_def fb_pack_def)

section \<open>Properties\<close>

text \<open>
  C11. For a block cipher with blocks of 16 bytes, the three streaming modes, which work on whole
  blocks by words, give byte for byte what their definitions say: at each block boundary the key
  stream is renewed from counter or vector, and each byte is combined with its byte.
\<close>

theorem modes_bytewise:
  assumes "\<And>x. length (E x) = 16" and "ctr_num st < 16" and "fb_num fs < 16"
  shows "CRYPTO_ctr128_encrypt E st inp =
      (case bytewise (buffered (ctr_refill E) ctr_byte) ((ctr_iv st, ctr_ecount st), ctr_num st) inp of
         (out, sn) \<Rightarrow> (out, ctr_pack sn)) \<and>
    CRYPTO_ofb128_encrypt E fs inp =
      (case bytewise (buffered E ofb_byte) (fb_ivec fs, fb_num fs) inp of (out, sn) \<Rightarrow> (out, fb_pack sn)) \<and>
    CRYPTO_cfb128_encrypt E enc fs inp =
      (case bytewise (buffered E (cfb_byte enc)) (fb_ivec fs, fb_num fs) inp of (out, sn) \<Rightarrow> (out, fb_pack sn)) \<and>
    (length (ctr_iv st) = 16 \<longrightarrow> ctr128_inc (ctr_iv st) = be_bytes 16 (be_val (ctr_iv st) + 1))"
  using ctr_bytewise [where E = E, OF assms(1,2)] ofb_bytewise [where E = E, OF assms(1,3)] cfb_bytewise [where E = E, OF assms(1,3)] ctr128_inc by blast

theorem modes_bytewise_witness:
  "CRYPTO_ofb128_encrypt (\<lambda>x. replicate 16 7) \<lparr>fb_ivec = replicate 16 0, fb_num = 15\<rparr> [1, 2] =
     ([1, 5], \<lparr>fb_ivec = replicate 16 7, fb_num = 1\<rparr>)"
  using modes_bytewise [of "\<lambda>x. replicate 16 7" "\<lparr>ctr_iv = [], ctr_ecount = [], ctr_num = 0\<rparr>"
      "\<lparr>fb_ivec = replicate 16 0, fb_num = 15\<rparr>" "[1, 2]" True]
  by (simp add: buffered_def ofb_byte_def fb_pack_def)

text \<open>
  C13. Counter mode with a function that counts in 32 bits only is counter mode: output, counter and
  position agree, and so does the encrypted counter while a part of it is unused.
\<close>

theorem ctr32_agrees:
  assumes "\<And>x. length (E x) = 16" and "ctr32_law E func" and "ctr_num st < 16" and "length (ctr_iv st) = 16"
  shows "\<exists>out st1 st2. CRYPTO_ctr128_encrypt_ctr32 func st inp = (out, st1) \<and> CRYPTO_ctr128_encrypt E st inp = (out, st2) \<and>
    ctr_iv st1 = ctr_iv st2 \<and> ctr_num st1 = ctr_num st2 \<and> (ctr_num st1 \<noteq> 0 \<longrightarrow> ctr_ecount st1 = ctr_ecount st2)"
proof -
  let ?s = "(ctr_iv st, ctr_ecount st)"
  obtain o1 i1 n1 where r: "ctr_use_rest (ctr_ecount st) (ctr_num st) inp = (o1, i1, n1)" by (metis surj_pair)
  have n1: "n1 = 0 \<or> i1 = []" using ctr.rest_bytewise [of "ctr_num st" ?s inp o1 i1 ?s n1 E] assms(3) r by auto
  define c where "c = CRYPTO_load_u32_be (drop 12 (ctr_iv st))"
  have l4: "length (drop 12 (ctr_iv st)) = 4" using assms(4) by simp
  then have "be_val (drop 12 (ctr_iv st)) < 256 ^ 4" using be_val_lt [of "drop 12 (ctr_iv st)"] by simp
  then have c: "unat c = be_val (drop 12 (ctr_iv st))" using l4 by (simp add: c_def load_u32_be unat_of_nat)
  obtain o2 i2 e' iv' c' where b: "ctr32_blocks func i1 c (ctr_iv st) = (o2, i2, c', iv')"
    "ctr_blocks E i1 (ctr_pack (?s, 0)) = (o2, i2, ctr_pack ((iv', e'), 0))"
    "length iv' = 16" "unat c' = be_val (drop 12 iv')" "length i2 < 16"
    using ctr32_blocks [OF assms(1,2,4) c, of i1 "ctr_ecount st"] by blast
  have p: "st\<lparr>ctr_num := n\<rparr> = ctr_pack (?s, n)" for n by (simp add: ctr_pack_def)
  have num: "(if 16 \<le> length i1 then 0 else n1) = n1" using n1 by auto
  have b': "ctr_blocks E i1 (st\<lparr>ctr_num := n1\<rparr>) = (o2, i2, ctr_pack ((iv', e'), n1))"
    unfolding p ctr_blocks_any_num [of E i1 _ n1] b(2) num by (simp add: ctr_pack_def)
  show ?thesis
  proof (cases "i2 = []")
    case True
    have e: "n1 \<noteq> 0 \<Longrightarrow> e' = ctr_ecount st" using n1 b(2) by (auto simp: ctr_blocks.simps ctr_pack_def)
    then show ?thesis using r b(1) b' True
      by (simp add: CRYPTO_ctr128_encrypt_ctr32_def CRYPTO_ctr128_encrypt_def c_def [symmetric])
  next
    case False
    then have "i1 \<noteq> []" using b(1) by (auto simp: ctr32_blocks.simps)
    then have n1: "n1 = 0" using n1 by simp
    have c'_lt: "unat c' < 2 ^ 32" using unsigned_less [of c'] by simp
    then have "be_val (drop 12 iv') < 2 ^ 32" unfolding b(4) .
    then have "func (replicate 16 0) 1 iv' = map2 (XOR) (replicate 16 0) (ctr_stream E (be_val iv') 1)"
      using assms(2) b(3) by (simp add: ctr32_law_def)
    also have "\<dots> = E iv'" using assms(1) [of iv'] be_bytes_unique [OF b(3)]
      by (intro nth_equalityI) (simp_all add: ctr_stream_def)
    finally have f: "func (replicate 16 0) 1 iv' = E iv'" .
    have cc: "unat c' + 1 \<le> 2 ^ 32" using c'_lt by simp
    have iv: "(if c' + 1 = 0 then ctr96_inc (memcpy_at iv' 12 (CRYPTO_store_u32_be (c' + 1)))
        else memcpy_at iv' 12 (CRYPTO_store_u32_be (c' + 1))) = ctr128_inc iv'"
    proof -
      have one: "c' + 1 = c' + of_nat 1" by simp
      show ?thesis using ctr32_step [OF b(3,4) cc zero_less_one one] unfolding Let_def ctr128_inc [OF b(3)] .
    qed
    obtain o3 n3 where t: "ctr_tail (E iv') 0 i2 = (o3, n3)" by fastforce
    then show ?thesis using r b(1) b' False n1 f iv
      by (simp add: CRYPTO_ctr128_encrypt_ctr32_def CRYPTO_ctr128_encrypt_def c_def [symmetric] Let_def)
  qed
qed

theorem ctr32_agrees_witness:
  "let E = \<lambda>x. replicate 16 (last x); st = \<lparr>ctr_iv = replicate 16 255, ctr_ecount = replicate 16 3, ctr_num = 15\<rparr>;
     func = \<lambda>inp blocks iv. map2 (XOR) (take (16 * blocks) inp) (ctr_stream E (be_val iv) blocks)
   in \<exists>out st1 st2. CRYPTO_ctr128_encrypt_ctr32 func st (replicate 40 1) = (out, st1) \<and>
     CRYPTO_ctr128_encrypt E st (replicate 40 1) = (out, st2) \<and> ctr_iv st1 = ctr_iv st2 \<and> ctr_num st1 = ctr_num st2 \<and>
     (ctr_num st1 \<noteq> 0 \<longrightarrow> ctr_ecount st1 = ctr_ecount st2)"
  using ctr32_agrees [of "\<lambda>x. replicate 16 (last x)"
      "\<lambda>inp blocks iv. map2 (XOR) (take (16 * blocks) inp) (ctr_stream (\<lambda>x. replicate 16 (last x)) (be_val iv) blocks)"
      "\<lparr>ctr_iv = replicate 16 255, ctr_ecount = replicate 16 3, ctr_num = 15\<rparr>" "replicate 40 1"]
  unfolding Let_def ctr32_law_def by simp

end
