(* ===== verification/Cfb_Props.thy ===== *)
theory Cfb_Props
  imports Modes_Props
begin

text \<open>
  Cipher feedback by bytes and by bits, where the vector is a shift register, and the round trips
  of all streaming modes.
\<close>

section \<open>Bytes\<close>

definition cfb8_byte :: "block128_f \<Rightarrow> bool \<Rightarrow> byte list \<Rightarrow> byte \<Rightarrow> byte \<times> byte list" where
  "cfb8_byte E enc iv b =
     (let x = b XOR E iv ! 0 in (x, take 16 (drop 1 (iv @ [if enc then x else b]))))"

lemma take_1: "0 < length xs \<Longrightarrow> take 1 xs = [xs ! 0]"
  by (cases xs) simp_all

lemma cfb8_bytewise:
  assumes "\<And>x. length (E x) = 16"
  shows "CRYPTO_cfb128_8_encrypt E enc iv inp = bytewise (cfb8_byte E enc) iv inp"
proof (induction inp arbitrary: iv)
  case (Cons b inp)
  have "cfbr_encrypt_block E enc 8 iv [b] = (case cfb8_byte E enc iv b of (x, iv1) \<Rightarrow> ([x], iv1))"
    using take_1 [of "E iv"] assms [of iv] by (simp add: cfbr_encrypt_block_def cfb8_byte_def Let_def)
  then show ?case using Cons.IH by (simp split: prod.split)
qed simp

lemma cfb8_inverse:
  assumes "\<And>x. length (E x) = 16" and "CRYPTO_cfb128_8_encrypt E True iv inp = (out, iv')"
  shows "CRYPTO_cfb128_8_encrypt E False iv out = (inp, iv')"
proof -
  have inv: "cfb8_byte E False iv (fst (cfb8_byte E True iv b)) = (b, snd (cfb8_byte E True iv b))" for iv b
    by (simp add: cfb8_byte_def Let_def xor.assoc)
  show ?thesis using bytewise_inverse [where F = "cfb8_byte E True" and G = "cfb8_byte E False", OF inv] assms(2)
    unfolding cfb8_bytewise [where E = E, OF assms(1)] by blast
qed

section \<open>Bits\<close>

text \<open>Bit \<open>n\<close> of an array of bytes, the most significant bit of each byte first.\<close>

definition bit_at :: "byte list \<Rightarrow> nat \<Rightarrow> bool" where
  "bit_at xs n = bit (xs ! (n div 8)) (7 - n mod 8)"

definition shift_in :: "byte list \<Rightarrow> bool \<Rightarrow> byte list" where
  "shift_in iv q =
     map (\<lambda>n. push_bit 1 (iv ! n) OR (if n < 15 then drop_bit 7 (iv ! (n + 1)) else of_bool q)) [0..<16]"

definition cfb1_bit :: "block128_f \<Rightarrow> bool \<Rightarrow> byte list \<Rightarrow> bool \<Rightarrow> bool \<times> byte list" where
  "cfb1_bit E enc iv p =
     (let q = (p \<noteq> bit (E iv ! 0) 7) in (q, shift_in iv (if enc then q else p)))"

lemma drop_bit_7: "drop_bit 7 (b :: byte) = of_bool (bit b 7)"
proof (rule bit_word_eqI)
  fix n assume "n < LENGTH(8)"
  show "bit (drop_bit 7 b) n \<longleftrightarrow> bit (of_bool (bit b 7) :: byte) n"
    using bit_imp_le_length [of b "7 + n"] by (cases n) (auto simp: bit_drop_bit_eq comp_def bit_of_bool_iff)
qed

lemma bit_push_1: "k < 8 \<Longrightarrow> bit (push_bit k (1 :: byte)) i \<longleftrightarrow> i = k"
  unfolding bit_push_bit_iff by (auto simp: bit_1_iff)

lemma bit_80: "bit (0x80 :: byte) i \<longleftrightarrow> i = 7"
  using bit_push_1 [of 7 i] by simp

lemma cfb1_block:
  assumes "length (E iv) = 16" and "length iv = 16"
  shows "\<exists>x. cfbr_encrypt_block E enc 1 iv [c] = ([x], snd (cfb1_bit E enc iv (bit c 7))) \<and>
    bit x 7 = fst (cfb1_bit E enc iv (bit c 7))"
proof -
  define x where "x = c XOR E iv ! 0"
  have bx: "bit x 7 \<longleftrightarrow> bit c 7 \<noteq> bit (E iv ! 0) 7" by (simp add: x_def bit_xor_iff)
  define fed where "fed = (if enc then x else c)"
  have n: "(iv @ [fed]) ! n = iv ! n" "(iv @ [fed]) ! (n + 1) = (if n < 15 then iv ! (n + 1) else fed)" if "n < 16" for n
    using that assms(2) by (auto simp: nth_append)
  have "map (\<lambda>n. push_bit 1 ((iv @ [fed]) ! n) OR drop_bit 7 ((iv @ [fed]) ! (n + 1))) [0..<16] = shift_in iv (bit fed 7)"
    unfolding shift_in_def by (rule map_cong [OF refl]) (use n in \<open>auto simp: drop_bit_7\<close>)
  moreover have "take 1 (E iv) = [E iv ! 0]" using assms(1) by (intro take_1) simp
  ultimately have "cfbr_encrypt_block E enc 1 iv [c] = ([x], shift_in iv (bit fed 7))"
    unfolding cfbr_encrypt_block_def Let_def fed_def by (cases enc) (simp_all add: x_def [symmetric] del: upt_rec_numeral)
  then show ?thesis using bx by (auto simp: cfb1_bit_def Let_def fed_def)
qed

lemma put_bit:
  assumes "m < 8" and "j < 8"
  shows "bit ((x AND NOT (push_bit (7 - m) 1)) OR drop_bit m (d AND 0x80) :: byte) j \<longleftrightarrow> (if j = 7 - m then bit d 7 else bit x j)"
proof -
  define M H where "M = push_bit (7 - m) (1 :: byte)" and "H = (0x80 :: byte)"
  have M: "bit M i \<longleftrightarrow> i = 7 - m" for i unfolding M_def using bit_push_1 [of "7 - m" i] by simp
  have H: "bit H i \<longleftrightarrow> i = 7" for i unfolding H_def by (rule bit_80)
  show ?thesis unfolding M_def [symmetric] H_def [symmetric] using assms
    by (auto simp: bit_or_iff bit_and_iff bit_not_iff bit_drop_bit_eq comp_def M H)
qed

lemma get_bit: "m < 8 \<Longrightarrow> x AND push_bit (7 - m) 1 \<noteq> 0 \<longleftrightarrow> bit (x :: byte) (7 - m)"
proof -
  have "7 - m < 8" by linarith
  then show ?thesis unfolding bit_eq_iff bit_and_iff using bit_push_1 [of "7 - m"] by (simp del: push_bit_of_1)
qed

lemma cfb1_bytewise:
  assumes "\<And>x. length (E x) = 16" and "length iv = 16" and "n + k \<le> 8 * length out"
    and "cfb1_loop E enc inp n k out iv = (out', iv')"
  shows "bytewise (cfb1_bit E enc) iv (map (bit_at inp) [n..<n + k]) = (map (bit_at out') [n..<n + k], iv') \<and>
    (\<forall>j. j < 8 * length out \<and> (j < n \<or> n + k \<le> j) \<longrightarrow> bit_at out' j = bit_at out j)"
  using assms(2-)
proof (induction k arbitrary: n out iv)
  case (Suc k)
  define p where "p = bit_at inp n"
  define c :: byte where "c = (if inp ! (n div 8) AND push_bit (7 - n mod 8) 1 \<noteq> 0 then 0x80 else 0)"
  have c: "bit c 7 = p" using get_bit [of "n mod 8" "inp ! (n div 8)"] by (simp add: c_def p_def bit_at_def)
  obtain x where x: "cfbr_encrypt_block E enc 1 iv [c] = ([x], snd (cfb1_bit E enc iv p))" "bit x 7 = fst (cfb1_bit E enc iv p)"
    using cfb1_block [of E iv enc c] assms(1) Suc.prems(1) c by auto
  define y where "y = (out ! (n div 8) AND NOT (push_bit (7 - n mod 8) 1)) OR drop_bit (n mod 8) (x AND 0x80)"
  define o1 where "o1 = out[n div 8 := y]"
  define iv1 where "iv1 = snd (cfb1_bit E enc iv p)"
  have iv1: "length iv1 = 16" by (simp add: iv1_def cfb1_bit_def Let_def shift_in_def del: upt_rec_numeral)
  have loop: "cfb1_loop E enc inp (n + 1) k o1 iv1 = (out', iv')"
    using Suc.prems(3)
    unfolding cfb1_loop.simps Let_def c_def [symmetric] x(1) prod.case nth_Cons_0 y_def [symmetric] o1_def [symmetric]
      iv1_def [symmetric] .
  have lt: "n div 8 < length out" using Suc.prems(2) by simp
  have b: "bit_at o1 j \<longleftrightarrow> (if j = n then bit x 7 else bit_at out j)" for j
  proof (cases "j div 8 = n div 8")
    case True
    have "7 - j mod 8 = 7 - n mod 8 \<longleftrightarrow> j mod 8 = n mod 8" by linarith
    moreover have "j mod 8 = n mod 8 \<longleftrightarrow> j = n" using True by (metis div_mod_decomp)
    ultimately show ?thesis using lt put_bit [of "n mod 8" "7 - j mod 8" "out ! (n div 8)" x] True
      by (simp add: bit_at_def o1_def y_def)
  qed (auto simp: bit_at_def o1_def)
  have IH: "bytewise (cfb1_bit E enc) iv1 (map (bit_at inp) [n + 1..<n + 1 + k]) = (map (bit_at out') [n + 1..<n + 1 + k], iv')"
    "\<And>j. j < 8 * length out \<and> (j < n + 1 \<or> n + 1 + k \<le> j) \<Longrightarrow> bit_at out' j = bit_at o1 j"
    using Suc.IH [OF iv1 _ loop] Suc.prems(2) by (simp_all add: o1_def)
  have u: "[n..<n + Suc k] = n # [n + 1..<n + 1 + k]" by (simp add: upt_conv_Cons)
  have "bit_at out' n = fst (cfb1_bit E enc iv p)" using IH(2) [of n] Suc.prems(2) b x(2) by simp
  then have step: "cfb1_bit E enc iv p = (bit_at out' n, iv1)" by (simp add: iv1_def)
  have "bytewise (cfb1_bit E enc) iv (map (bit_at inp) [n..<n + Suc k]) = (map (bit_at out') [n..<n + Suc k], iv')"
    unfolding u list.map bytewise.simps p_def [symmetric] step prod.case IH(1) ..
  moreover have "bit_at out' j = bit_at out j" if "j < 8 * length out" "j < n \<or> n + Suc k \<le> j" for j
    using IH(2) [of j] that b [of j] by auto
  ultimately show ?case by blast
qed simp

lemma cfb1_inverse:
  assumes "\<And>x. length (E x) = 16" and "length iv = 16" and "bits \<le> 8 * length out1" and "bits \<le> 8 * length out2"
    and "CRYPTO_cfb128_1_encrypt E True inp bits out1 iv = (out, iv')"
  shows "\<exists>out'. CRYPTO_cfb128_1_encrypt E False out bits out2 iv = (out', iv') \<and>
    (\<forall>j<bits. bit_at out' j = bit_at inp j) \<and>
    (\<forall>j. bits \<le> j \<and> j < 8 * length out2 \<longrightarrow> bit_at out' j = bit_at out2 j)"
proof -
  have inv: "cfb1_bit E False iv (fst (cfb1_bit E True iv b)) = (b, snd (cfb1_bit E True iv b))" for iv b
    by (auto simp: cfb1_bit_def Let_def)
  obtain out' iv2 where d: "CRYPTO_cfb128_1_encrypt E False out bits out2 iv = (out', iv2)" by fastforce
  note enc = cfb1_bytewise [where E = E and n = 0, OF assms(1,2) _ assms(5) [unfolded CRYPTO_cfb128_1_encrypt_def]]
  note dec = cfb1_bytewise [where E = E and n = 0, OF assms(1,2) _ d [unfolded CRYPTO_cfb128_1_encrypt_def]]
  have "bytewise (cfb1_bit E False) iv (map (bit_at out) [0..<bits]) = (map (bit_at inp) [0..<bits], iv')"
    using bytewise_inverse [where F = "cfb1_bit E True" and G = "cfb1_bit E False", OF inv] enc assms(3) by simp
  then have eq: "map (bit_at out') [0..<bits] = map (bit_at inp) [0..<bits]" "iv2 = iv'" using dec assms(4) by simp_all
  have "bit_at out' j = bit_at inp j" if "j < bits" for j using arg_cong [OF eq(1), of "\<lambda>l. l ! j"] that by simp
  moreover have "bit_at out' j = bit_at out2 j" if "bits \<le> j" "j < 8 * length out2" for j using dec assms(4) that by simp
  ultimately show ?thesis using d eq(2) by blast
qed

section \<open>Properties\<close>

text \<open>
  C12. What a streaming mode has encrypted in any pieces is decrypted in any other pieces, and both
  sides end in the same state; so are bytes and single bits by the two shift-register modes, of
  which the second one leaves the bits of the output array behind the last bit alone.
\<close>

theorem modes_roundtrip:
  assumes "\<And>x. length (E x) = 16" and "ctr_num st < 16" and "fb_num fs < 16"
    and "length iv = 16" and "bits \<le> 8 * length out1" and "bits \<le> 8 * length out2"
  shows "(updates (CRYPTO_ctr128_encrypt E) st xs = (concat ys, st') \<longrightarrow>
      updates (CRYPTO_ctr128_encrypt E) st ys = (concat xs, st')) \<and>
    (updates (CRYPTO_ofb128_encrypt E) fs xs = (concat ys, fs') \<longrightarrow>
      updates (CRYPTO_ofb128_encrypt E) fs ys = (concat xs, fs')) \<and>
    (updates (CRYPTO_cfb128_encrypt E True) fs xs = (concat ys, fs') \<longrightarrow>
      updates (CRYPTO_cfb128_encrypt E False) fs ys = (concat xs, fs')) \<and>
    (CRYPTO_cfb128_8_encrypt E True iv inp = (out, iv') \<longrightarrow> CRYPTO_cfb128_8_encrypt E False iv out = (inp, iv')) \<and>
    (CRYPTO_cfb128_1_encrypt E True inp bits out1 iv = (out, iv') \<longrightarrow>
      (\<exists>out'. CRYPTO_cfb128_1_encrypt E False out bits out2 iv = (out', iv') \<and>
        (\<forall>j<bits. bit_at out' j = bit_at inp j) \<and>
        (\<forall>j. bits \<le> j \<and> j < 8 * length out2 \<longrightarrow> bit_at out' j = bit_at out2 j)))"
proof -
  have ctr: "CRYPTO_ctr128_encrypt E (ctr_pack sn) inp =
      (case bytewise (buffered (ctr_refill E) ctr_byte) sn inp of (out, sn') \<Rightarrow> (out, ctr_pack sn'))"
    if "snd sn < 16" for sn inp using ctr_bytewise [OF assms(1), where st = "ctr_pack sn" and inp = inp] that by simp
  have ofb: "CRYPTO_ofb128_encrypt E (fb_pack sn) inp =
      (case bytewise (buffered E ofb_byte) sn inp of (out, sn') \<Rightarrow> (out, fb_pack sn'))"
    if "snd sn < 16" for sn inp using ofb_bytewise [OF assms(1), where st = "fb_pack sn" and inp = inp] that by simp
  have cfb: "CRYPTO_cfb128_encrypt E enc (fb_pack sn) inp =
      (case bytewise (buffered E (cfb_byte enc)) sn inp of (out, sn') \<Rightarrow> (out, fb_pack sn'))"
    if "snd sn < 16" for sn inp enc using cfb_bytewise [OF assms(1), where st = "fb_pack sn" and enc = enc and inp = inp] that by simp
  have 1: "ctr_byte n s (fst (ctr_byte n s b)) = (b, snd (ctr_byte n s b))" for n s b
    by (simp add: ctr_byte_def xor.assoc)
  have 2: "ofb_byte n s (fst (ofb_byte n s b)) = (b, snd (ofb_byte n s b))" for n s b
    by (simp add: ofb_byte_def xor.assoc)
  have 3: "cfb_byte False n s (fst (cfb_byte True n s b)) = (b, snd (cfb_byte True n s b))" for n s b
    by (simp add: cfb_byte_def xor.assoc [symmetric])
  have s: "snd ((ctr_iv st, ctr_ecount st), ctr_num st) < 16" "snd (fb_ivec fs, fb_num fs) < 16" using assms(2,3) by simp_all
  show ?thesis
    using updates_inverse [where pack = ctr_pack, OF ctr ctr 1 s(1), of xs ys st']
      updates_inverse [where pack = fb_pack, OF ofb ofb 2 s(2), of xs ys fs']
      updates_inverse [where pack = fb_pack, OF cfb cfb 3 s(2), of xs ys fs']
      cfb8_inverse [where E = E, OF assms(1), of iv inp out iv']
      cfb1_inverse [where E = E, OF assms(1,4,5,6), of inp out iv']
    unfolding mode_packs by blast
qed

theorem modes_roundtrip_witness:
  "let E = \<lambda>x. replicate 16 (last x); st = \<lparr>ctr_iv = replicate 16 0, ctr_ecount = replicate 16 0, ctr_num = 0\<rparr>;
     fs = \<lparr>fb_ivec = replicate 16 0, fb_num = 0\<rparr>; (c, st') = CRYPTO_ctr128_encrypt E st [1, 2, 3];
     (d, fs') = CRYPTO_cfb128_encrypt E True fs [1, 2, 3]
   in updates (CRYPTO_ctr128_encrypt E) st [take 1 c, drop 1 c] = ([1, 2, 3], st') \<and>
     updates (CRYPTO_cfb128_encrypt E False) fs [take 2 d, drop 2 d] = ([1, 2, 3], fs')"
proof -
  let ?E = "\<lambda>x :: byte list. replicate 16 (last x) :: byte list"
  let ?st = "\<lparr>ctr_iv = replicate 16 0, ctr_ecount = replicate 16 0, ctr_num = 0\<rparr>"
  let ?fs = "\<lparr>fb_ivec = replicate 16 0, fb_num = 0\<rparr>"
  obtain c st' where c: "CRYPTO_ctr128_encrypt ?E ?st [1, 2, 3] = (c, st')" by fastforce
  obtain d fs' where d: "CRYPTO_cfb128_encrypt ?E True ?fs [1, 2, 3] = (d, fs')" by fastforce
  show ?thesis
    using modes_roundtrip [of ?E ?st ?fs "replicate 16 0" 0 "[]" "[]" "[[1, 2, 3]]" "[take 1 c, drop 1 c]" st']
      modes_roundtrip [of ?E ?st ?fs "replicate 16 0" 0 "[]" "[]" "[[1, 2, 3]]" "[take 2 d, drop 2 d]" st' fs'] c d
    by simp
qed

end
