(* ===== verification/Cbc.thy ===== *)
theory Cbc
  imports Modes
begin

text \<open>
  Cipher block chaining (fipsmodule/modes/cbc.c) on a memory, because input and output may be the
  same or overlapping arrays: \<open>mem\<close> is the memory, \<open>inp\<close> and \<open>out\<close> are addresses in it. The
  initialisation vector is a buffer of the caller, apart from both.
\<close>

section \<open>The code\<close>

text \<open>The pointer \<open>iv\<close> of the code: the caller's buffer, or a block of the text in memory.\<close>

datatype iv_ptr = Ivec | At nat

definition mem_block :: "byte list \<Rightarrow> nat \<Rightarrow> byte list" where
  "mem_block mem p = take 16 (drop p mem)"

definition read_iv :: "byte list \<Rightarrow> byte list \<Rightarrow> iv_ptr \<Rightarrow> byte list" where
  "read_iv ivec mem iv = (case iv of Ivec \<Rightarrow> ivec | At p \<Rightarrow> mem_block mem p)"

function cbc_enc_blocks ::
  "block128_f \<Rightarrow> byte list \<Rightarrow> nat \<Rightarrow> nat \<Rightarrow> nat \<Rightarrow> iv_ptr \<Rightarrow> byte list \<Rightarrow> nat \<times> nat \<times> nat \<times> iv_ptr \<times> byte list" where
  "cbc_enc_blocks block ivec inp out len iv mem =
     (if len \<ge> 16 then
        let mem = memcpy_at mem out (CRYPTO_xor16 (mem_block mem inp) (read_iv ivec mem iv));
            mem = memcpy_at mem out (block (mem_block mem out))
        in cbc_enc_blocks block ivec (inp + 16) (out + 16) (len - 16) (At out) mem
      else (inp, out, len, iv, mem))"
  by auto
termination cbc_enc_blocks
  by (relation "measure (\<lambda>(block, ivec, inp, out, len, iv, mem). len)") auto

declare cbc_enc_blocks.simps [simp del]

text \<open>
  The second loop runs at most once, because fewer than 16 bytes are left; its block is the
  input, and then the vector where the input has ended.
\<close>

definition cbc_enc_last :: "block128_f \<Rightarrow> byte list \<Rightarrow> nat \<Rightarrow> nat \<Rightarrow> nat \<Rightarrow> iv_ptr \<Rightarrow> byte list \<Rightarrow> byte list" where
  "cbc_enc_last block ivec inp out len iv mem =
     (let v = read_iv ivec mem iv;
          mem = memcpy_at mem out (map2 (XOR) (take len (drop inp mem)) (take len v) @ drop len v)
      in memcpy_at mem out (block (mem_block mem out)))"

definition CRYPTO_cbc128_encrypt ::
  "block128_f \<Rightarrow> nat \<Rightarrow> nat \<Rightarrow> nat \<Rightarrow> byte list \<Rightarrow> byte list \<Rightarrow> byte list \<times> byte list" where
  "CRYPTO_cbc128_encrypt block inp out len ivec mem =
     (if len = 0 then (mem, ivec)
      else
        case cbc_enc_blocks block ivec inp out len Ivec mem of (inp', out', len', iv', mem') \<Rightarrow>
          if len' \<noteq> 0 then
            let mem'' = cbc_enc_last block ivec inp' out' len' iv' mem'
            in (mem'', read_iv ivec mem'' (At out'))
          else (mem', read_iv ivec mem' iv'))"

text \<open>Decryption when the output is at least two blocks behind the input, or apart from it.\<close>

function cbc_dec_apart ::
  "block128_f \<Rightarrow> byte list \<Rightarrow> nat \<Rightarrow> nat \<Rightarrow> nat \<Rightarrow> iv_ptr \<Rightarrow> byte list \<Rightarrow> nat \<times> nat \<times> nat \<times> iv_ptr \<times> byte list" where
  "cbc_dec_apart block ivec inp out len iv mem =
     (if len \<ge> 16 then
        let mem = memcpy_at mem out (block (mem_block mem inp));
            mem = memcpy_at mem out (CRYPTO_xor16 (mem_block mem out) (read_iv ivec mem iv))
        in cbc_dec_apart block ivec (inp + 16) (out + 16) (len - 16) (At inp) mem
      else (inp, out, len, iv, mem))"
  by auto
termination cbc_dec_apart
  by (relation "measure (\<lambda>(block, ivec, inp, out, len, iv, mem). len)") auto

declare cbc_dec_apart.simps [simp del]

text \<open>Decryption through a temporary block, with a copy of each block of the input.\<close>

function cbc_dec_tmp ::
  "block128_f \<Rightarrow> byte list \<Rightarrow> nat \<Rightarrow> nat \<Rightarrow> nat \<Rightarrow> byte list \<Rightarrow> nat \<times> nat \<times> nat \<times> byte list \<times> byte list" where
  "cbc_dec_tmp block ivec inp out len mem =
     (if len \<ge> 16 then
        let c = mem_block mem inp;
            mem = memcpy_at mem out (CRYPTO_xor16 (block c) ivec)
        in cbc_dec_tmp block c (inp + 16) (out + 16) (len - 16) mem
      else (inp, out, len, ivec, mem))"
  by auto
termination cbc_dec_tmp
  by (relation "measure (\<lambda>(block, ivec, inp, out, len, mem). len)") auto

declare cbc_dec_tmp.simps [simp del]

text \<open>The last incomplete block, of which the code reads all 16 bytes.\<close>

definition cbc_dec_last :: "block128_f \<Rightarrow> byte list \<Rightarrow> nat \<Rightarrow> nat \<Rightarrow> nat \<Rightarrow> byte list \<Rightarrow> byte list \<times> byte list" where
  "cbc_dec_last block ivec inp out len mem =
     (let tmp = block (mem_block mem inp);
          c = take len (mem_block mem inp);
          mem = memcpy_at mem out (map2 (XOR) (take len tmp) (take len ivec))
      in (mem, c @ drop len (mem_block mem inp)))"

definition CRYPTO_cbc128_decrypt ::
  "block128_f \<Rightarrow> nat \<Rightarrow> nat \<Rightarrow> nat \<Rightarrow> byte list \<Rightarrow> byte list \<Rightarrow> byte list \<times> byte list" where
  "CRYPTO_cbc128_decrypt block inp out len ivec mem =
     (if len = 0 then (mem, ivec)
      else
        let (inp', out', len', ivec', mem') =
              (if (inp \<ge> 32 \<and> out \<le> inp - 32) \<or> inp < out then
                 case cbc_dec_apart block ivec inp out len Ivec mem of
                   (inp', out', len', iv', mem') \<Rightarrow> (inp', out', len', read_iv ivec mem' iv', mem')
               else cbc_dec_tmp block ivec inp out len mem)
        in if len' \<noteq> 0 then cbc_dec_last block ivec' inp' out' len' mem' else (mem', ivec'))"

section \<open>The mode\<close>

text \<open>Ciphertext and plaintext by blocks, and the vector after a ciphertext.\<close>

function cbc_cipher :: "block128_f \<Rightarrow> byte list \<Rightarrow> byte list \<Rightarrow> byte list" where
  "cbc_cipher E iv p =
     (if length p < 16 then []
      else let c = E (map2 (XOR) (take 16 p) iv) in c @ cbc_cipher E c (drop 16 p))"
  by auto
termination cbc_cipher
  by (relation "measure (\<lambda>(E, iv, p). length p)") auto

function cbc_plain :: "block128_f \<Rightarrow> byte list \<Rightarrow> byte list \<Rightarrow> byte list" where
  "cbc_plain D iv c =
     (if length c < 16 then []
      else map2 (XOR) (D (take 16 c)) iv @ cbc_plain D (take 16 c) (drop 16 c))"
  by auto
termination cbc_plain
  by (relation "measure (\<lambda>(D, iv, c). length c)") auto

declare cbc_cipher.simps [simp del] cbc_plain.simps [simp del]

definition cbc_next :: "byte list \<Rightarrow> byte list \<Rightarrow> byte list" where
  "cbc_next iv c = (if c = [] then iv else drop (length c - 16) c)"

text \<open>The bytes of the blocks that \<open>len\<close> bytes touch, and a text filled up with zeros to that size.\<close>

definition cbc_size :: "nat \<Rightarrow> nat" where
  "cbc_size len = 16 * ((len + 15) div 16)"

definition cbc_pad :: "byte list \<Rightarrow> byte list" where
  "cbc_pad p = p @ replicate (cbc_size (length p) - length p) 0"

end
