(* ===== verification/Cbc_Props.thy ===== *)
theory Cbc_Props
  imports Cbc Modes_Props
begin

text \<open>
  Cipher block chaining in memory computes the mode, for every arrangement of input and output that
  the code allows, and leaves the rest of the memory alone.
\<close>

section \<open>Memory\<close>

lemma slice_apart:
  assumes "p + length src \<le> length mem" and "q + k \<le> p \<or> p + length src \<le> q"
  shows "take k (drop q (memcpy_at mem p src)) = take k (drop q mem)"
proof (cases "q + k \<le> p")
  case True
  have "drop q (memcpy_at mem p src) = take (p - q) (drop q mem) @ drop (q - p) (src @ drop (p + length src) mem)"
    using assms(1) by (simp add: memcpy_at_def drop_take)
  moreover have "length (take (p - q) (drop q mem)) = p - q" using assms(1) by simp
  ultimately show ?thesis using True by simp
next
  case False
  then have "p + length src \<le> q" using assms(2) by simp
  then have "drop q (memcpy_at mem p src) = drop q mem" using assms(1) by (simp add: memcpy_at_def)
  then show ?thesis by simp
qed

lemma slice_here: "p + length src \<le> length mem \<Longrightarrow> take (length src) (drop p (memcpy_at mem p src)) = src"
  by (simp add: memcpy_at_def)

lemma memcpy_twice:
  "p + length a \<le> length mem \<Longrightarrow> length a = length b \<Longrightarrow> memcpy_at (memcpy_at mem p a) p b = memcpy_at mem p b"
  by (simp add: memcpy_at_def)

lemma memcpy_join:
  "p + length a + length b \<le> length mem \<Longrightarrow> memcpy_at (memcpy_at mem p a) (p + length a) b = memcpy_at mem p (a @ b)"
  by (simp add: memcpy_at_def ac_simps)

lemma memcpy_nothing [simp]: "p \<le> length mem \<Longrightarrow> memcpy_at mem p [] = mem"
  by (simp add: memcpy_at_def)

lemma length_mem_block [simp]: "p + 16 \<le> length mem \<Longrightarrow> length (mem_block mem p) = 16"
  by (simp add: mem_block_def)

lemma block_apart:
  "p + length src \<le> length mem \<Longrightarrow> q + 16 \<le> p \<or> p + length src \<le> q \<Longrightarrow> mem_block (memcpy_at mem p src) q = mem_block mem q"
  unfolding mem_block_def by (rule slice_apart)

lemma block_here: "p + 16 \<le> length mem \<Longrightarrow> length src = 16 \<Longrightarrow> mem_block (memcpy_at mem p src) p = src"
  unfolding mem_block_def using slice_here [of p src mem] by simp

section \<open>Sizes\<close>

lemma cbc_size_simps [simp]: "cbc_size 0 = 0" "0 < len \<Longrightarrow> len < 16 \<Longrightarrow> cbc_size len = 16"
  "16 \<le> len \<Longrightarrow> cbc_size len = 16 + cbc_size (len - 16)"
proof -
  show "cbc_size 0 = 0" by (simp add: cbc_size_def)
  show "cbc_size len = 16" if "0 < len" "len < 16"
  proof -
    have "(len + 15) div 16 = 1" using that by (intro div_nat_eqI) simp_all
    then show ?thesis by (simp add: cbc_size_def)
  qed
  show "cbc_size len = 16 + cbc_size (len - 16)" if "16 \<le> len"
  proof -
    have "len + 15 = 16 + (len - 16 + 15)" using that by simp
    then have "(len + 15) div 16 = 1 + (len - 16 + 15) div 16" by (simp only: div_add_self1)
    then show ?thesis by (simp add: cbc_size_def)
  qed
qed

lemma cbc_size_le: "len \<le> cbc_size len"
  unfolding cbc_size_def using div_mult_mod_eq [of "len + 15" 16] mod_less_divisor [of 16 "len + 15"] by linarith

lemma cbc_pad_step:
  assumes "16 \<le> length p"
  shows "cbc_pad p = take 16 p @ cbc_pad (drop 16 p)"
proof -
  have "cbc_size (length p) - length p = cbc_size (length p - 16) - (length p - 16)" using assms by simp
  then show ?thesis unfolding cbc_pad_def by simp
qed

lemma length_cbc_pad [simp]: "length (cbc_pad p) = cbc_size (length p)"
  using cbc_size_le [of "length p"] by (simp add: cbc_pad_def)

lemma cbc_next_append: "length a = 16 \<Longrightarrow> b = [] \<or> 16 \<le> length b \<Longrightarrow> cbc_next iv (a @ b) = cbc_next a b"
  by (auto simp: cbc_next_def)

lemma cbc_size_cases [case_names none part block]:
  fixes len :: nat
  obtains "len = 0" | "0 < len" "len < 16" | "16 \<le> len"
  by linarith

lemma length_cbc_cipher:
  assumes "\<And>x. length (E x) = 16"
  shows "length p = cbc_size len \<Longrightarrow> length (cbc_cipher E iv p) = cbc_size len"
proof (induction len arbitrary: p iv rule: less_induct)
  case (less len)
  show ?case
  proof (cases len rule: cbc_size_cases)
    case none
    then show ?thesis using less.prems by (subst cbc_cipher.simps) simp
  next
    case part
    then have "length p = 16" using less.prems by simp
    then show ?thesis using part assms by (subst cbc_cipher.simps) (simp add: Let_def cbc_cipher.simps)
  next
    case block
    have "length (cbc_cipher E c (drop 16 p)) = cbc_size (len - 16)" for c
      using block less.prems by (intro less.IH) simp_all
    then show ?thesis using less.prems block assms by (subst cbc_cipher.simps) (simp add: Let_def)
  qed
qed

section \<open>Encryption\<close>

definition cbc_enc_run :: "block128_f \<Rightarrow> byte list \<Rightarrow> nat \<Rightarrow> nat \<Rightarrow> nat \<Rightarrow> iv_ptr \<Rightarrow> byte list \<Rightarrow> byte list \<times> byte list" where
  "cbc_enc_run E ivec inp out len iv mem =
     (case cbc_enc_blocks E ivec inp out len iv mem of (inp', out', len', iv', mem') \<Rightarrow>
        if len' \<noteq> 0 then
          let mem'' = cbc_enc_last E ivec inp' out' len' iv' mem'
          in (mem'', read_iv ivec mem'' (At out'))
        else (mem', read_iv ivec mem' iv'))"

lemma cbc_enc_run:
  assumes "\<And>x. length (E x) = 16" and "length ivec = 16" and "inp + len \<le> length mem" and "out + cbc_size len \<le> length mem"
    and "out \<le> inp \<or> inp + len \<le> out" and "iv = Ivec \<or> (\<exists>p. iv = At p \<and> p + 16 = out)"
    and "c = cbc_cipher E (read_iv ivec mem iv) (cbc_pad (take len (drop inp mem)))"
  shows "cbc_enc_run E ivec inp out len iv mem = (memcpy_at mem out c, cbc_next (read_iv ivec mem iv) c)"
  using assms(3-)
proof (induction len arbitrary: inp out iv mem c rule: less_induct)
  case (less len)
  let ?v = "read_iv ivec mem iv"
  have v: "length ?v = 16" using assms(2) less.prems(2,4) by (auto simp: read_iv_def)
  have vE: "?v = read_iv ivec mem iv" ..
  show ?case
  proof (cases len rule: cbc_size_cases)
    case none
    then show ?thesis using less.prems by (simp add: cbc_enc_run_def cbc_enc_blocks.simps cbc_pad_def cbc_cipher.simps cbc_next_def)
  next
    case part
    define x where "x = map2 (XOR) (take len (drop inp mem)) (take len ?v) @ drop len ?v"
    have lx: "length x = 16" using part v less.prems(1) by (simp add: x_def)
    have "x = map2 (XOR) (cbc_pad (take len (drop inp mem))) ?v"
    proof (rule nth_equalityI)
      show "length x = length (map2 (XOR) (cbc_pad (take len (drop inp mem))) ?v)" using lx v part less.prems(1) by simp
      fix i assume "i < length x"
      then show "x ! i = map2 (XOR) (cbc_pad (take len (drop inp mem))) ?v ! i"
        using lx v part less.prems(1) by (simp add: x_def cbc_pad_def nth_append)
    qed
    moreover have "length (cbc_pad (take len (drop inp mem))) = 16" using part less.prems(1) by simp
    ultimately have c: "c = E x" unfolding less.prems(5) by (subst cbc_cipher.simps) (simp add: Let_def cbc_cipher.simps)
    have "cbc_enc_last E ivec inp out len iv mem = memcpy_at mem out (E x)"
      unfolding cbc_enc_last_def Let_def x_def [symmetric] using part less.prems(2) lx assms(1)
      by (simp add: block_here memcpy_twice)
    then show ?thesis using part c assms(1) less.prems(2)
      by (simp add: cbc_enc_run_def cbc_enc_blocks.simps Let_def read_iv_def block_here cbc_next_def)
        (metis drop_0 length_0_conv zero_neq_numeral diff_self_eq_0)
  next
    case block
    have out: "out + 16 \<le> length mem" using block less.prems(2) by simp
    define x where "x = map2 (XOR) (mem_block mem inp) ?v"
    have xr: "CRYPTO_xor16 (mem_block mem inp) ?v = x"
      using v block less.prems(1) by (simp add: xor16 x_def)
    have lx: "length x = 16" using v block less.prems(1) by (simp add: x_def)
    define mem1 where "mem1 = memcpy_at mem out (E x)"
    have m1: "memcpy_at (memcpy_at mem out x) out (E (mem_block (memcpy_at mem out x) out)) = mem1"
      using out lx assms(1) by (simp add: block_here memcpy_twice mem1_def)
    have l1: "length mem1 = length mem" using out assms(1) by (simp add: mem1_def)
    have v1: "read_iv ivec mem1 (At out) = E x" using out assms(1) by (simp add: read_iv_def mem1_def block_here)
    have rest: "take (len - 16) (drop (inp + 16) mem1) = take (len - 16) (drop (inp + 16) mem)"
      unfolding mem1_def using out assms(1) less.prems(3) block by (intro slice_apart) auto
    define c2 where "c2 = cbc_cipher E (E x) (cbc_pad (take (len - 16) (drop (inp + 16) mem)))"
    have IH: "cbc_enc_run E ivec (inp + 16) (out + 16) (len - 16) (At out) mem1 = (memcpy_at mem1 (out + 16) c2, cbc_next (E x) c2)"
      using less.IH [of "len - 16" "inp + 16" mem1 "out + 16" "At out" c2] block less.prems(1-3) l1 v1 rest by (auto simp: c2_def)
    have pd: "cbc_pad (take len (drop inp mem)) = mem_block mem inp @ cbc_pad (take (len - 16) (drop (inp + 16) mem))"
      using cbc_pad_step [of "take len (drop inp mem)"] block less.prems(1) by (simp add: mem_block_def drop_take add.commute)
    have c: "c = E x @ c2"
      unfolding less.prems(5) pd using block less.prems(1) by (subst cbc_cipher.simps) (simp add: Let_def x_def [symmetric] c2_def)
    have "length c2 = cbc_size (len - 16)"
      unfolding c2_def using less.prems(1) block by (intro length_cbc_cipher assms(1)) simp
    then have lc2: "length c2 = cbc_size (len - 16)" .
    then have "c2 = [] \<or> 16 \<le> length c2" by (cases "len - 16" rule: cbc_size_cases) auto
    moreover have "memcpy_at mem1 (out + 16) c2 = memcpy_at mem out c"
      unfolding mem1_def c using lc2 memcpy_join [of out "E x" c2 mem] assms(1) less.prems(2) block by simp
    moreover have "cbc_enc_run E ivec inp out len iv mem = cbc_enc_run E ivec (inp + 16) (out + 16) (len - 16) (At out) mem1"
      unfolding cbc_enc_run_def using block by (subst cbc_enc_blocks.simps) (simp add: Let_def xr m1)
    ultimately show ?thesis using IH c assms(1) by (simp add: cbc_next_append)
  qed
qed

lemma cbc128_encrypt:
  assumes "\<And>x. length (E x) = 16" and "length ivec = 16" and "inp + len \<le> length mem" and "out + cbc_size len \<le> length mem"
    and "out \<le> inp \<or> inp + len \<le> out" and "c = cbc_cipher E ivec (cbc_pad (take len (drop inp mem)))"
  shows "CRYPTO_cbc128_encrypt E inp out len ivec mem = (memcpy_at mem out c, cbc_next ivec c)"
proof -
  have "CRYPTO_cbc128_encrypt E inp out len ivec mem = cbc_enc_run E ivec inp out len Ivec mem"
    by (cases "len = 0") (simp_all add: CRYPTO_cbc128_encrypt_def cbc_enc_run_def cbc_enc_blocks.simps read_iv_def)
  then show ?thesis using cbc_enc_run [where E = E, OF assms(1-5), of Ivec c] assms(6) by (simp add: read_iv_def)
qed

section \<open>Decryption\<close>

lemma cbc_slice_step:
  "16 \<le> len \<Longrightarrow> take (cbc_size len) (drop q mem) = mem_block mem q @ take (cbc_size (len - 16)) (drop (q + 16) mem)"
  using take_add [of 16 "cbc_size (len - 16)" "drop q mem"] by (simp add: mem_block_def add.commute)

lemma cbc_plain_step:
  "length c1 = 16 \<Longrightarrow> cbc_plain D v (c1 @ c2) = map2 (XOR) (D c1) v @ cbc_plain D c1 c2"
  by (subst cbc_plain.simps) simp

lemma length_cbc_plain:
  assumes "\<And>x. length (D x) = 16"
  shows "length v = 16 \<Longrightarrow> length c = cbc_size len \<Longrightarrow> length (cbc_plain D v c) = cbc_size len"
proof (induction len arbitrary: c v rule: less_induct)
  case (less len)
  show ?case
  proof (cases len rule: cbc_size_cases)
    case none
    then show ?thesis using less.prems by (subst cbc_plain.simps) simp
  next
    case part
    then have "length c = 16" using less.prems by simp
    then show ?thesis using part assms less.prems(1) by (subst cbc_plain.simps) (simp add: cbc_plain.simps)
  next
    case block
    have "length (cbc_plain D (take 16 c) (drop 16 c)) = cbc_size (len - 16)"
      using block less.prems by (intro less.IH) simp_all
    then show ?thesis using less.prems block assms by (subst cbc_plain.simps) simp
  qed
qed

text \<open>The end of decryption, after either loop.\<close>

definition cbc_dec_end :: "block128_f \<Rightarrow> nat \<times> nat \<times> nat \<times> byte list \<times> byte list \<Rightarrow> byte list \<times> byte list" where
  "cbc_dec_end D = (\<lambda>(inp, out, len, v, mem). if len \<noteq> 0 then cbc_dec_last D v inp out len mem else (mem, v))"

lemma cbc_dec_end:
  assumes "\<And>x. length (D x) = 16" and "length v = 16" and "len < 16" and "inp + cbc_size len \<le> length mem" and "out + len \<le> length mem"
    and "out \<le> inp \<or> inp + cbc_size len \<le> out" and "c = take (cbc_size len) (drop inp mem)"
  shows "cbc_dec_end D (inp, out, len, v, mem) = (memcpy_at mem out (take len (cbc_plain D v c)), cbc_next v c)"
proof (cases "len = 0")
  case True
  then show ?thesis using assms by (simp add: cbc_dec_end_def cbc_next_def)
next
  case False
  then have size: "cbc_size len = 16" using assms(3) by simp
  have c: "c = mem_block mem inp" "length c = 16" unfolding assms(7) size using assms(4) size by (simp_all add: mem_block_def)
  have p: "take len (cbc_plain D v c) = map2 (XOR) (take len (D c)) (take len v)"
    using c(2) by (simp add: cbc_plain.simps take_map take_zip)
  define mem1 where "mem1 = memcpy_at mem out (map2 (XOR) (take len (D c)) (take len v))"
  have "take (16 - len) (drop (inp + len) mem1) = take (16 - len) (drop (inp + len) mem)"
    unfolding mem1_def using assms False size by (intro slice_apart) auto
  then have "drop len (mem_block mem1 inp) = drop len c" unfolding c(1) mem_block_def drop_take by (simp add: add.commute)
  moreover have "cbc_next v c = c" using c(2) by (auto simp: cbc_next_def)
  ultimately show ?thesis using False
    by (simp add: cbc_dec_end_def cbc_dec_last_def Let_def c(1) [symmetric] mem1_def [symmetric] p)
qed

lemma cbc_dec_apart:
  assumes "\<And>x. length (D x) = 16" and "length ivec = 16" and "inp + cbc_size len \<le> length mem" and "out + len \<le> length mem"
    and "out + 32 \<le> inp \<or> inp + cbc_size len \<le> out" and "iv = Ivec \<or> (\<exists>p. iv = At p \<and> p + 16 = inp)"
    and "c = take (cbc_size len) (drop inp mem)"
  shows "(case cbc_dec_apart D ivec inp out len iv mem of
      (inp', out', len', iv', mem') \<Rightarrow> cbc_dec_end D (inp', out', len', read_iv ivec mem' iv', mem')) =
    (memcpy_at mem out (take len (cbc_plain D (read_iv ivec mem iv) c)), cbc_next (read_iv ivec mem iv) c)"
  using assms(3-)
proof (induction len arbitrary: inp out iv mem c rule: less_induct)
  case (less len)
  define v where "v = read_iv ivec mem iv"
  have v: "length v = 16" using assms(2) less.prems(1,4) by (auto simp: v_def read_iv_def)
  show ?case
  proof (cases "len < 16")
    case True
    have d: "cbc_dec_apart D ivec inp out len iv mem = (inp, out, len, iv, mem)" using True by (simp add: cbc_dec_apart.simps)
    have "out \<le> inp \<or> inp + cbc_size len \<le> out" using less.prems(3) by auto
    then show ?thesis unfolding d prod.case v_def [symmetric]
      using cbc_dec_end [where D = D, OF assms(1) v True less.prems(1,2) _ less.prems(5)] by blast
  next
    case False
    then have len: "16 \<le> len" by simp
    define c1 where "c1 = mem_block mem inp"
    have c1: "length c1 = 16" unfolding c1_def using less.prems(1) len by (intro length_mem_block) simp
    define x where "x = map2 (XOR) (D c1) v"
    have lx: "length x = 16" using v assms(1) by (simp add: x_def)
    define mem1 where "mem1 = memcpy_at mem out x"
    have out: "out + 16 \<le> length mem" using less.prems(2) len by simp
    have apart: "inp + 16 \<le> out \<or> out + 32 \<le> inp" using less.prems(3) len by auto
    have va: "read_iv ivec (memcpy_at mem out (D c1)) iv = v"
    proof (cases iv)
      case (At p)
      then show ?thesis using less.prems(4) apart out assms(1) by (auto simp: read_iv_def v_def intro!: block_apart)
    qed (simp add: read_iv_def v_def)
    have m1: "memcpy_at (memcpy_at mem out (D c1)) out
        (CRYPTO_xor16 (mem_block (memcpy_at mem out (D c1)) out) (read_iv ivec (memcpy_at mem out (D c1)) iv)) = mem1"
      unfolding va using out assms(1) v by (simp add: block_here xor16 memcpy_twice mem1_def x_def)
    have l1: "length mem1 = length mem" using out lx by (simp add: mem1_def)
    have v1: "read_iv ivec mem1 (At inp) = c1"
      using block_apart [of out x mem inp] out lx apart by (auto simp: read_iv_def mem1_def c1_def)
    define c2 where "c2 = take (cbc_size (len - 16)) (drop (inp + 16) mem)"
    have rest: "take (cbc_size (len - 16)) (drop (inp + 16) mem1) = c2"
      unfolding mem1_def c2_def using out lx less.prems(3) len by (intro slice_apart) auto
    have lc2: "length c2 = cbc_size (len - 16)" using less.prems(1) len by (simp add: c2_def)
    then have c2: "c2 = [] \<or> 16 \<le> length c2" by (cases "len - 16" rule: cbc_size_cases) auto
    have c: "c = c1 @ c2" unfolding less.prems(5) c1_def c2_def by (rule cbc_slice_step [OF len])
    have t: "take len (cbc_plain D v c) = x @ take (len - 16) (cbc_plain D c1 c2)"
      unfolding c cbc_plain_step [OF c1] x_def [symmetric] using lx len by simp
    have "length (cbc_plain D c1 c2) = cbc_size (len - 16)" by (rule length_cbc_plain [OF assms(1) c1 lc2])
    then have "length (take (len - 16) (cbc_plain D c1 c2)) = len - 16" using cbc_size_le [of "len - 16"] by simp
    then have w: "memcpy_at mem1 (out + 16) (take (len - 16) (cbc_plain D c1 c2)) = memcpy_at mem out (take len (cbc_plain D v c))"
      unfolding mem1_def t using memcpy_join [of out x "take (len - 16) (cbc_plain D c1 c2)" mem] lx less.prems(2) len by simp
    have IH: "(case cbc_dec_apart D ivec (inp + 16) (out + 16) (len - 16) (At inp) mem1 of
        (inp', out', len', iv', mem') \<Rightarrow> cbc_dec_end D (inp', out', len', read_iv ivec mem' iv', mem')) =
        (memcpy_at mem1 (out + 16) (take (len - 16) (cbc_plain D c1 c2)), cbc_next c1 c2)"
      using less.IH [of "len - 16" "inp + 16" mem1 "out + 16" "At inp" c2] less.prems(1-3) len l1 v1 rest by auto
    have "cbc_dec_apart D ivec inp out len iv mem = cbc_dec_apart D ivec (inp + 16) (out + 16) (len - 16) (At inp) mem1"
      using len by (subst cbc_dec_apart.simps) (simp add: Let_def c1_def [symmetric] m1)
    then show ?thesis unfolding v_def [symmetric] using IH w cbc_next_append [OF c1 c2, of v] by (simp add: c)
  qed
qed

lemma cbc_dec_tmp:
  assumes "\<And>x. length (D x) = 16" and "length v = 16" and "inp + cbc_size len \<le> length mem" and "out + len \<le> length mem"
    and "out \<le> inp" and "c = take (cbc_size len) (drop inp mem)"
  shows "cbc_dec_end D (cbc_dec_tmp D v inp out len mem) = (memcpy_at mem out (take len (cbc_plain D v c)), cbc_next v c)"
  using assms(2-)
proof (induction len arbitrary: inp out v mem c rule: less_induct)
  case (less len)
  show ?case
  proof (cases "len < 16")
    case True
    then have d: "cbc_dec_tmp D v inp out len mem = (inp, out, len, v, mem)" by (simp add: cbc_dec_tmp.simps)
    show ?thesis unfolding d
      using cbc_dec_end [where D = D, OF assms(1) less.prems(1) True less.prems(2,3) _ less.prems(5)] less.prems(4) by blast
  next
    case False
    then have len: "16 \<le> len" by simp
    define c1 where "c1 = mem_block mem inp"
    have c1: "length c1 = 16" unfolding c1_def using less.prems(2) len by (intro length_mem_block) simp
    define x where "x = map2 (XOR) (D c1) v"
    have lx: "length x = 16" using less.prems(1) assms(1) by (simp add: x_def)
    define mem1 where "mem1 = memcpy_at mem out x"
    have out: "out + 16 \<le> length mem" using less.prems(3) len by simp
    have l1: "length mem1 = length mem" using out lx by (simp add: mem1_def)
    define c2 where "c2 = take (cbc_size (len - 16)) (drop (inp + 16) mem)"
    have rest: "take (cbc_size (len - 16)) (drop (inp + 16) mem1) = c2"
      unfolding mem1_def c2_def using out lx less.prems(4) by (intro slice_apart) auto
    have lc2: "length c2 = cbc_size (len - 16)" using less.prems(2) len by (simp add: c2_def)
    then have c2: "c2 = [] \<or> 16 \<le> length c2" by (cases "len - 16" rule: cbc_size_cases) auto
    have c: "c = c1 @ c2" unfolding less.prems(5) c1_def c2_def by (rule cbc_slice_step [OF len])
    have t: "take len (cbc_plain D v c) = x @ take (len - 16) (cbc_plain D c1 c2)"
      unfolding c cbc_plain_step [OF c1] x_def [symmetric] using lx len by simp
    have "length (cbc_plain D c1 c2) = cbc_size (len - 16)" by (rule length_cbc_plain [OF assms(1) c1 lc2])
    then have "length (take (len - 16) (cbc_plain D c1 c2)) = len - 16" using cbc_size_le [of "len - 16"] by simp
    then have w: "memcpy_at mem1 (out + 16) (take (len - 16) (cbc_plain D c1 c2)) = memcpy_at mem out (take len (cbc_plain D v c))"
      unfolding mem1_def t using memcpy_join [of out x "take (len - 16) (cbc_plain D c1 c2)" mem] lx less.prems(3) len by simp
    have IH: "cbc_dec_end D (cbc_dec_tmp D c1 (inp + 16) (out + 16) (len - 16) mem1) =
        (memcpy_at mem1 (out + 16) (take (len - 16) (cbc_plain D c1 c2)), cbc_next c1 c2)"
      using less.IH [of "len - 16" c1 "inp + 16" mem1 "out + 16" c2] c1 less.prems(2-4) len l1 rest by auto
    have xr: "CRYPTO_xor16 (D c1) v = x" using less.prems(1) assms(1) by (simp add: xor16 x_def)
    have "cbc_dec_tmp D v inp out len mem = cbc_dec_tmp D c1 (inp + 16) (out + 16) (len - 16) mem1"
      using len by (subst cbc_dec_tmp.simps) (simp add: Let_def c1_def [symmetric] xr mem1_def)
    then show ?thesis using IH w cbc_next_append [OF c1 c2, of v] by (simp add: c)
  qed
qed

lemma cbc128_decrypt:
  assumes "\<And>x. length (D x) = 16" and "length ivec = 16" and "inp + cbc_size len \<le> length mem" and "out + len \<le> length mem"
    and "out \<le> inp \<or> inp + cbc_size len \<le> out" and "c = take (cbc_size len) (drop inp mem)"
  shows "CRYPTO_cbc128_decrypt D inp out len ivec mem = (memcpy_at mem out (take len (cbc_plain D ivec c)), cbc_next ivec c)"
proof (cases "len = 0")
  case True
  then show ?thesis using assms by (simp add: CRYPTO_cbc128_decrypt_def cbc_next_def)
next
  case False
  show ?thesis
  proof (cases "(inp \<ge> 32 \<and> out \<le> inp - 32) \<or> inp < out")
    case True
    then have a: "out + 32 \<le> inp \<or> inp + cbc_size len \<le> out" using assms(5) by auto
    have r: "read_iv ivec mem Ivec = ivec" by (simp add: read_iv_def)
    have "CRYPTO_cbc128_decrypt D inp out len ivec mem = (case cbc_dec_apart D ivec inp out len Ivec mem of
        (inp', out', len', iv', mem') \<Rightarrow> cbc_dec_end D (inp', out', len', read_iv ivec mem' iv', mem'))"
      unfolding CRYPTO_cbc128_decrypt_def cbc_dec_end_def Let_def if_P [OF True] using False by (simp split: prod.split)
    then show ?thesis using cbc_dec_apart [where D = D and iv = Ivec, OF assms(1-4) a _ assms(6)] r by simp
  next
    case other: False
    then have "out \<le> inp" by simp
    moreover have "CRYPTO_cbc128_decrypt D inp out len ivec mem = cbc_dec_end D (cbc_dec_tmp D ivec inp out len mem)"
      unfolding CRYPTO_cbc128_decrypt_def cbc_dec_end_def Let_def if_not_P [OF other] using False by (simp split: prod.split)
    ultimately show ?thesis using cbc_dec_tmp [where D = D, OF assms(1-4) _ assms(6)] by simp
  qed
qed

section \<open>Properties\<close>

lemma cbc_plain_cipher:
  assumes "\<And>x. length (E x) = 16" and "\<And>x. length x = 16 \<Longrightarrow> D (E x) = x"
  shows "length v = 16 \<Longrightarrow> length p = cbc_size len \<Longrightarrow> cbc_plain D v (cbc_cipher E v p) = p"
proof (induction len arbitrary: v p rule: less_induct)
  case (less len)
  show ?case
  proof (cases "len = 0")
    case False
    define x where "x = map2 (XOR) (take 16 p) v"
    obtain n where n: "cbc_size len = 16 + cbc_size n" "n < len"
      using False by (cases len rule: cbc_size_cases) (auto intro: that [of 0] that [of "len - 16"])
    have x: "length x = 16" using less.prems n by (simp add: x_def)
    have xv: "map2 (XOR) x v = take 16 p" unfolding x_def using less.prems n by (intro xor_twice) simp
    have c: "cbc_cipher E v p = E x @ cbc_cipher E (E x) (drop 16 p)"
      using less.prems n by (subst cbc_cipher.simps) (simp add: x_def Let_def)
    have "cbc_plain D (E x) (cbc_cipher E (E x) (drop 16 p)) = drop 16 p"
      using less.IH [OF n(2), of "E x" "drop 16 p"] assms(1) less.prems(2) n(1) by simp
    then show ?thesis unfolding c cbc_plain_step [OF assms(1)] using assms(2) [OF x] xv by simp
  qed (use less.prems in \<open>simp add: cbc_cipher.simps cbc_plain.simps\<close>)
qed

text \<open>
  C14. Encryption and decryption in place, towards lower addresses or into another place write what
  the mode says for the input filled up with zeros to whole blocks, change nothing else in the
  memory, and leave the last block of ciphertext as the next vector, whichever loop the addresses
  select.
\<close>

theorem cbc_memory:
  assumes "\<And>x. length (E x) = 16" and "\<And>x. length (D x) = 16" and "length iv = 16"
    and "inp + cbc_size len \<le> length mem" and "out + cbc_size len \<le> length mem"
    and "out \<le> inp \<or> inp + cbc_size len \<le> out"
  shows "CRYPTO_cbc128_encrypt E inp out len iv mem =
      (memcpy_at mem out (cbc_cipher E iv (cbc_pad (take len (drop inp mem)))),
       cbc_next iv (cbc_cipher E iv (cbc_pad (take len (drop inp mem))))) \<and>
    CRYPTO_cbc128_decrypt D inp out len iv mem =
      (memcpy_at mem out (take len (cbc_plain D iv (take (cbc_size len) (drop inp mem)))),
       cbc_next iv (take (cbc_size len) (drop inp mem)))"
proof -
  have "inp + len \<le> length mem" "out + len \<le> length mem" "out \<le> inp \<or> inp + len \<le> out"
    using assms(4-6) cbc_size_le [of len] by auto
  then show ?thesis
    using cbc128_encrypt [where E = E, OF assms(1,3) _ assms(5) _ refl] cbc128_decrypt [where D = D, OF assms(2,3,4) _ assms(6) refl]
    by simp
qed

theorem cbc_memory_witness:
  "fst (CRYPTO_cbc128_encrypt (\<lambda>x. replicate 16 9) 0 0 3 (replicate 16 1) (replicate 20 0)) = replicate 16 9 @ replicate 4 0"
  using cbc_memory [of "\<lambda>x. replicate 16 9" "\<lambda>x. replicate 16 9" "replicate 16 1" 0 3 "replicate 20 0" 0]
  by (simp add: cbc_cipher.simps cbc_pad_def memcpy_at_def Let_def)

text \<open>
  A text encrypted with padding and decrypted again, each time in place, downwards or elsewhere,
  comes back at its new address, and both sides end with the same vector.
\<close>

theorem cbc_roundtrip:
  assumes "\<And>x. length (E x) = 16" and "\<And>x. length (D x) = 16" and "\<And>x. length x = 16 \<Longrightarrow> D (E x) = x"
    and "length iv = 16" and "inp + cbc_size len \<le> length mem" and "out + cbc_size len \<le> length mem" and "dst + cbc_size len \<le> length mem"
    and "out \<le> inp \<or> inp + cbc_size len \<le> out" and "dst \<le> out \<or> out + cbc_size len \<le> dst"
    and "CRYPTO_cbc128_encrypt E inp out len iv mem = (mem1, iv1)"
  shows "\<exists>mem2. CRYPTO_cbc128_decrypt D out dst len iv mem1 = (mem2, iv1) \<and> take len (drop dst mem2) = take len (drop inp mem)"
proof -
  note le = cbc_size_le [of len]
  define p c where "p = cbc_pad (take len (drop inp mem))" and "c = cbc_cipher E iv p"
  have lp: "length p = cbc_size len" using assms(5) le by (simp add: p_def)
  have lc: "length c = cbc_size len" unfolding c_def by (rule length_cbc_cipher [OF assms(1) lp])
  have "inp + len \<le> length mem" "out \<le> inp \<or> inp + len \<le> out" using assms(5,8) le by auto
  then have e: "mem1 = memcpy_at mem out c" "iv1 = cbc_next iv c"
    using cbc128_encrypt [where E = E, OF assms(1,4) _ assms(6) _ refl] assms(10) by (simp_all add: p_def c_def)
  have l1: "length mem1 = length mem" using e(1) lc assms(6) by simp
  have c: "take (cbc_size len) (drop out mem1) = c" using slice_here [of out c mem] e(1) lc assms(6) by simp
  have "CRYPTO_cbc128_decrypt D out dst len iv mem1 = (memcpy_at mem1 dst (take len (cbc_plain D iv c)), cbc_next iv c)"
    using cbc128_decrypt [where D = D, OF assms(2,4) _ _ assms(9) refl, of mem1] c l1 assms(6,7) le by simp
  moreover have pl: "take len (cbc_plain D iv c) = take len (drop inp mem)"
  proof -
    have "cbc_plain D iv c = p" unfolding c_def by (rule cbc_plain_cipher [OF assms(1,3,4) lp])
    then show ?thesis using assms(5) le by (simp add: p_def cbc_pad_def)
  qed
  moreover have "length (take len (drop inp mem)) = len" using assms(5) le by simp
  ultimately show ?thesis using slice_here [of dst "take len (drop inp mem)" mem1] l1 assms(7) le e(2) by simp
qed

theorem cbc_roundtrip_witness:
  "let E = \<lambda>x. take 16 (rev x @ replicate 16 0); iv = replicate 16 7; mem = replicate 20 0 @ [1, 2, 3] @ replicate 13 0;
     (mem1, iv1) = CRYPTO_cbc128_encrypt E 20 0 3 iv mem
   in \<exists>mem2. CRYPTO_cbc128_decrypt E 0 20 3 iv mem1 = (mem2, iv1) \<and> take 3 (drop 20 mem2) = [1, 2, 3]"
  using cbc_roundtrip [of "\<lambda>x. take 16 (rev x @ replicate 16 0)" "\<lambda>x. take 16 (rev x @ replicate 16 0)" "replicate 16 7" 20 3
      "replicate 20 0 @ [1, 2, 3] @ replicate 13 0" 0 20]
  by (simp split: prod.split)

end
