(* ===== verification/Poly1305.thy ===== *)
theory Poly1305
  imports Bytes
begin

text \<open>
  The one-time authenticator Poly1305 (crypto/poly1305/poly1305.c), in the portable version that the
  iOS build uses: numbers modulo \<open>2 ^ 130 - 5\<close> in five limbs of 26 bits whose carries are
  delayed.
\<close>

section \<open>State\<close>

record poly1305_state =
  p_r0 :: u32
  p_r1 :: u32
  p_r2 :: u32
  p_r3 :: u32
  p_r4 :: u32
  p_s1 :: u32
  p_s2 :: u32
  p_s3 :: u32
  p_s4 :: u32
  p_h0 :: u32
  p_h1 :: u32
  p_h2 :: u32
  p_h3 :: u32
  p_h4 :: u32
  p_buf :: "byte list"
  p_buf_used :: nat
  p_key :: "byte list"

definition mul32x32_64 :: "u32 \<Rightarrow> u32 \<Rightarrow> u64" where
  "mul32x32_64 a b = ucast a * ucast b"

section \<open>Blocks\<close>

text \<open>Adding the four words of a block; \<open>hibit\<close> is the bit above a whole block.\<close>

definition poly1305_add :: "u32 \<Rightarrow> byte list \<Rightarrow> poly1305_state \<Rightarrow> poly1305_state" where
  "poly1305_add hibit inp st =
     (let t0 = CRYPTO_load_u32_le inp;
          t1 = CRYPTO_load_u32_le (drop 4 inp);
          t2 = CRYPTO_load_u32_le (drop 8 inp);
          t3 = CRYPTO_load_u32_le (drop 12 inp)
      in st\<lparr>p_h0 := p_h0 st + (t0 AND 0x3ffffff),
            p_h1 := p_h1 st + ucast (drop_bit 26 (push_bit 32 (ucast t1) OR ucast t0 :: u64) AND 0x3ffffff),
            p_h2 := p_h2 st + ucast (drop_bit 20 (push_bit 32 (ucast t2) OR ucast t1 :: u64) AND 0x3ffffff),
            p_h3 := p_h3 st + ucast (drop_bit 14 (push_bit 32 (ucast t3) OR ucast t2 :: u64) AND 0x3ffffff),
            p_h4 := p_h4 st + (drop_bit 8 t3 OR hibit)\<rparr>)"

text \<open>The code from the label \<open>poly1305_donna_mul\<close> on.\<close>

definition poly1305_mul :: "poly1305_state \<Rightarrow> poly1305_state" where
  "poly1305_mul st =
     (let t0 = mul32x32_64 (p_h0 st) (p_r0 st) + mul32x32_64 (p_h1 st) (p_s4 st) +
            mul32x32_64 (p_h2 st) (p_s3 st) + mul32x32_64 (p_h3 st) (p_s2 st) + mul32x32_64 (p_h4 st) (p_s1 st);
          t1 = mul32x32_64 (p_h0 st) (p_r1 st) + mul32x32_64 (p_h1 st) (p_r0 st) +
            mul32x32_64 (p_h2 st) (p_s4 st) + mul32x32_64 (p_h3 st) (p_s3 st) + mul32x32_64 (p_h4 st) (p_s2 st);
          t2 = mul32x32_64 (p_h0 st) (p_r2 st) + mul32x32_64 (p_h1 st) (p_r1 st) +
            mul32x32_64 (p_h2 st) (p_r0 st) + mul32x32_64 (p_h3 st) (p_s4 st) + mul32x32_64 (p_h4 st) (p_s3 st);
          t3 = mul32x32_64 (p_h0 st) (p_r3 st) + mul32x32_64 (p_h1 st) (p_r2 st) +
            mul32x32_64 (p_h2 st) (p_r1 st) + mul32x32_64 (p_h3 st) (p_r0 st) + mul32x32_64 (p_h4 st) (p_s4 st);
          t4 = mul32x32_64 (p_h0 st) (p_r4 st) + mul32x32_64 (p_h1 st) (p_r3 st) +
            mul32x32_64 (p_h2 st) (p_r2 st) + mul32x32_64 (p_h3 st) (p_r1 st) + mul32x32_64 (p_h4 st) (p_r0 st);
          h0 = ucast t0 AND 0x3ffffff;
          c = drop_bit 26 t0;
          t1 = t1 + c;
          h1 = ucast t1 AND 0x3ffffff;
          b = ucast (drop_bit 26 t1) :: u32;
          t2 = t2 + ucast b;
          h2 = ucast t2 AND 0x3ffffff;
          b = ucast (drop_bit 26 t2) :: u32;
          t3 = t3 + ucast b;
          h3 = ucast t3 AND 0x3ffffff;
          b = ucast (drop_bit 26 t3) :: u32;
          t4 = t4 + ucast b;
          h4 = ucast t4 AND 0x3ffffff;
          b = ucast (drop_bit 26 t4) :: u32;
          h0 = h0 + b * 5
      in st\<lparr>p_h0 := h0, p_h1 := h1, p_h2 := h2, p_h3 := h3, p_h4 := h4\<rparr>)"

text \<open>All blocks of the input; a last part of less than 16 bytes is marked with a byte of one.\<close>

function poly1305_update :: "poly1305_state \<Rightarrow> byte list \<Rightarrow> poly1305_state" where
  "poly1305_update st inp =
     (if length inp \<ge> 16 then
        poly1305_update (poly1305_mul (poly1305_add (push_bit 24 1) inp st)) (drop 16 inp)
      else if inp = [] then st
      else
        let mp = inp @ [1] @ replicate (15 - length inp) 0
        in poly1305_mul (poly1305_add 0 mp st))"
  by pat_completeness auto
termination poly1305_update
  by (relation "measure (\<lambda>(st, inp). length inp)") auto

declare poly1305_update.simps [simp del]

section \<open>The interface\<close>

definition CRYPTO_poly1305_init :: "byte list \<Rightarrow> poly1305_state" where
  "CRYPTO_poly1305_init key =
     (let t0 = CRYPTO_load_u32_le key;
          t1 = CRYPTO_load_u32_le (drop 4 key);
          t2 = CRYPTO_load_u32_le (drop 8 key);
          t3 = CRYPTO_load_u32_le (drop 12 key);
          r0 = t0 AND 0x3ffffff;
          t0 = drop_bit 26 t0;
          t0 = t0 OR push_bit 6 t1;
          r1 = t0 AND 0x3ffff03;
          t1 = drop_bit 20 t1;
          t1 = t1 OR push_bit 12 t2;
          r2 = t1 AND 0x3ffc0ff;
          t2 = drop_bit 14 t2;
          t2 = t2 OR push_bit 18 t3;
          r3 = t2 AND 0x3f03fff;
          t3 = drop_bit 8 t3;
          r4 = t3 AND 0x00fffff
      in \<lparr>p_r0 = r0, p_r1 = r1, p_r2 = r2, p_r3 = r3, p_r4 = r4,
          p_s1 = r1 * 5, p_s2 = r2 * 5, p_s3 = r3 * 5, p_s4 = r4 * 5,
          p_h0 = 0, p_h1 = 0, p_h2 = 0, p_h3 = 0, p_h4 = 0,
          p_buf = replicate 16 0, p_buf_used = 0, p_key = take 16 (drop 16 key)\<rparr>)"

definition CRYPTO_poly1305_update :: "poly1305_state \<Rightarrow> byte list \<Rightarrow> poly1305_state" where
  "CRYPTO_poly1305_update st inp =
     (if inp = [] then st
      else
        let (st, inp) =
              (if p_buf_used st \<noteq> 0 then
                 let todo = 16 - p_buf_used st;
                     todo = (if todo > length inp then length inp else todo);
                     st = st\<lparr>p_buf := memcpy_at (p_buf st) (p_buf_used st) (take todo inp),
                             p_buf_used := p_buf_used st + todo\<rparr>;
                     inp = drop todo inp
                 in if p_buf_used st = 16 then ((poly1305_update st (take 16 (p_buf st)))\<lparr>p_buf_used := 0\<rparr>, inp)
                    else (st, inp)
               else (st, inp));
            (st, inp) =
              (if length inp \<ge> 16 then
                 let todo = length inp - length inp mod 16
                 in (poly1305_update st (take todo inp), drop todo inp)
               else (st, inp))
        in if inp \<noteq> [] then st\<lparr>p_buf := memcpy_at (p_buf st) 0 inp, p_buf_used := length inp\<rparr> else st)"

text \<open>The carries and the conditional subtraction of \<open>2 ^ 130 - 5\<close> at the end.\<close>

definition poly1305_carry :: "poly1305_state \<Rightarrow> poly1305_state" where
  "poly1305_carry st =
     (let b = drop_bit 26 (p_h0 st);
          h0 = p_h0 st AND 0x3ffffff;
          h1 = p_h1 st + b;
          b = drop_bit 26 h1;
          h1 = h1 AND 0x3ffffff;
          h2 = p_h2 st + b;
          b = drop_bit 26 h2;
          h2 = h2 AND 0x3ffffff;
          h3 = p_h3 st + b;
          b = drop_bit 26 h3;
          h3 = h3 AND 0x3ffffff;
          h4 = p_h4 st + b;
          b = drop_bit 26 h4;
          h4 = h4 AND 0x3ffffff;
          h0 = h0 + b * 5
      in st\<lparr>p_h0 := h0, p_h1 := h1, p_h2 := h2, p_h3 := h3, p_h4 := h4\<rparr>)"

definition poly1305_select :: "poly1305_state \<Rightarrow> poly1305_state" where
  "poly1305_select st =
     (let g0 = p_h0 st + 5;
          b = drop_bit 26 g0;
          g0 = g0 AND 0x3ffffff;
          g1 = p_h1 st + b;
          b = drop_bit 26 g1;
          g1 = g1 AND 0x3ffffff;
          g2 = p_h2 st + b;
          b = drop_bit 26 g2;
          g2 = g2 AND 0x3ffffff;
          g3 = p_h3 st + b;
          b = drop_bit 26 g3;
          g3 = g3 AND 0x3ffffff;
          g4 = p_h4 st + b - push_bit 26 1;
          b = drop_bit 31 g4 - 1;
          nb = NOT b
      in st\<lparr>p_h0 := (p_h0 st AND nb) OR (g0 AND b), p_h1 := (p_h1 st AND nb) OR (g1 AND b),
            p_h2 := (p_h2 st AND nb) OR (g2 AND b), p_h3 := (p_h3 st AND nb) OR (g3 AND b),
            p_h4 := (p_h4 st AND nb) OR (g4 AND b)\<rparr>)"

text \<open>The four words of the limbs, with the second half of the key added.\<close>

definition poly1305_tag :: "poly1305_state \<Rightarrow> byte list" where
  "poly1305_tag st =
     (let f0 = ucast (p_h0 st OR push_bit 26 (p_h1 st)) + ucast (CRYPTO_load_u32_le (p_key st)) :: u64;
          f1 = ucast (drop_bit 6 (p_h1 st) OR push_bit 20 (p_h2 st)) + ucast (CRYPTO_load_u32_le (drop 4 (p_key st))) :: u64;
          f2 = ucast (drop_bit 12 (p_h2 st) OR push_bit 14 (p_h3 st)) + ucast (CRYPTO_load_u32_le (drop 8 (p_key st))) :: u64;
          f3 = ucast (drop_bit 18 (p_h3 st) OR push_bit 8 (p_h4 st)) + ucast (CRYPTO_load_u32_le (drop 12 (p_key st))) :: u64;
          m0 = CRYPTO_store_u32_le (ucast f0);
          f1 = f1 + drop_bit 32 f0;
          m1 = CRYPTO_store_u32_le (ucast f1);
          f2 = f2 + drop_bit 32 f1;
          m2 = CRYPTO_store_u32_le (ucast f2);
          f3 = f3 + drop_bit 32 f2;
          m3 = CRYPTO_store_u32_le (ucast f3)
      in m0 @ m1 @ m2 @ m3)"

definition CRYPTO_poly1305_finish :: "poly1305_state \<Rightarrow> byte list" where
  "CRYPTO_poly1305_finish st =
     (let st = (if p_buf_used st \<noteq> 0 then poly1305_update st (take (p_buf_used st) (p_buf st)) else st)
      in poly1305_tag (poly1305_select (poly1305_carry st)))"

section \<open>The standard\<close>

text \<open>Numbers in little-endian bytes, and the authenticator of RFC 8439, section 2.5.\<close>

definition le_val :: "byte list \<Rightarrow> nat" where
  "le_val bs = be_val (rev bs)"

definition poly_p :: nat where "poly_p = 2 ^ 130 - 5"

definition poly_r :: "byte list \<Rightarrow> nat" where
  "poly_r key = le_val (take 16 key) AND 0x0ffffffc0ffffffc0ffffffc0fffffff"

function poly_acc :: "nat \<Rightarrow> nat \<Rightarrow> byte list \<Rightarrow> nat" where
  "poly_acc r a msg =
     (if msg = [] then a else poly_acc r ((a + le_val (take 16 msg @ [1])) * r mod poly_p) (drop 16 msg))"
  by pat_completeness auto
termination poly_acc
  by (relation "measure (\<lambda>(r, a, msg). length msg)") auto

declare poly_acc.simps [simp del]

definition rfc_poly1305 :: "byte list \<Rightarrow> byte list \<Rightarrow> byte list" where
  "rfc_poly1305 key msg = rev (be_bytes 16 (poly_acc (poly_r key) 0 msg + le_val (take 16 (drop 16 key))))"

end
