(* ===== verification/Poly1305_Limbs.thy ===== *)
theory Poly1305_Limbs
  imports Poly1305
begin

text \<open>
  The arithmetic of the limbs: no 64-bit sum and no 32-bit carry of a round overflows, although the
  carry into the lowest limb is not reduced, and a round multiplies the accumulator modulo
  \<open>2 ^ 130 - 5\<close>.
\<close>

section \<open>Words\<close>

lemma u32_lt: "unat (w :: u32) < 2 ^ 32"
  using unsigned_less [of w] by simp

lemma load_u32_le: "4 \<le> length bs \<Longrightarrow> unat (CRYPTO_load_u32_le bs) = le_val (take 4 bs)"
proof -
  assume "4 \<le> length bs"
  then have l: "length (rev (take 4 bs)) = 4" by simp
  then have "unat (le_word (take 4 bs)) = le_val (take 4 bs)"
    unfolding le_word_be le_val_def by (intro be_loop_be_val) simp
  moreover have "le_val (take 4 bs) < 2 ^ 32" using be_val_lt [of "rev (take 4 bs)"] l by (simp add: le_val_def)
  ultimately show ?thesis by (simp add: CRYPTO_load_u32_le_def unat_ucast_less)
qed

lemma unat_mul32 [simp]: "unat (mul32x32_64 a b) = unat a * unat b"
proof -
  have u: "unat (ucast z :: u64) = unat z" for z :: u32 using u32_lt [of z] by (intro unat_ucast_less) simp
  have "unat a * unat b < 2 ^ 32 * 2 ^ 32" using u32_lt by (intro mult_strict_mono) simp_all
  then show ?thesis by (simp add: mul32x32_64_def unat_word_ariths u)
qed

lemma and_26: "unat (w AND 0x3ffffff :: 'a::len word) = unat w mod 2 ^ 26" if "26 \<le> LENGTH('a)"
  using unat_and_mask [of w 26] by (simp add: mask_eq_exp_minus_1)

lemma low_26: "unat (ucast (t :: u64) AND 0x3ffffff :: u32) = unat t mod 2 ^ 26"
  by (simp add: and_26 unat_ucast_mod mod_mod_cancel)

lemma carry_26: "unat t div 2 ^ 26 < 2 ^ 32 \<Longrightarrow> unat (ucast (drop_bit 26 (t :: u64)) :: u32) = unat t div 2 ^ 26"
  by (simp add: unat_ucast_mod unat_drop_bit)

lemma unat_sum2: "unat x + unat y < 2 ^ 64 \<Longrightarrow> unat (x + y :: u64) = unat x + unat y"
  by (simp add: unat_word_ariths)

lemma unat_sum5:
  "unat a + unat b + unat c + unat d + unat e < 2 ^ 64 \<Longrightarrow>
    unat (a + b + c + d + e :: u64) = unat a + unat b + unat c + unat d + unat e"
  by (simp add: unat_word_ariths mod_add_left_eq)

lemma up_u64 [simp]: "unat (ucast (b :: u32) :: u64) = unat b"
  using u32_lt [of b] by (intro unat_ucast_less) simp

section \<open>One multiplication, in numbers\<close>

abbreviation (input) limbs :: "nat \<Rightarrow> nat \<Rightarrow> nat \<Rightarrow> nat \<Rightarrow> nat \<Rightarrow> nat" where
  "limbs a0 a1 a2 a3 a4 \<equiv> a0 + 2 ^ 26 * a1 + 2 ^ 52 * a2 + 2 ^ 78 * a3 + 2 ^ 104 * a4"

lemma limb_carry:
  fixes t0 :: nat
  assumes "u1 = t1 + t0 div 2 ^ 26" and "u2 = t2 + u1 div 2 ^ 26" and "u3 = t3 + u2 div 2 ^ 26" and "u4 = t4 + u3 div 2 ^ 26"
  shows "limbs t0 t1 t2 t3 t4 =
    limbs (t0 mod 2 ^ 26) (u1 mod 2 ^ 26) (u2 mod 2 ^ 26) (u3 mod 2 ^ 26) (u4 mod 2 ^ 26) + 2 ^ 130 * (u4 div 2 ^ 26)"
proof -
  have lin: "limbs t0 t1 t2 t3 t4 = limbs n0 n1 n2 n3 n4 + 2 ^ 130 * q4"
    if "t0 = 2 ^ 26 * q0 + n0" "t1 + q0 = 2 ^ 26 * q1 + n1" "t2 + q1 = 2 ^ 26 * q2 + n2" "t3 + q2 = 2 ^ 26 * q3 + n3"
      "t4 + q3 = 2 ^ 26 * q4 + n4" for n0 n1 n2 n3 n4 q0 q1 q2 q3 q4 :: nat
    using that by simp
  have d: "x = 2 ^ 26 * (x div 2 ^ 26) + x mod 2 ^ 26" for x :: nat by simp
  show ?thesis
    by (rule lin [of "t0 div 2 ^ 26" _ "u1 div 2 ^ 26" _ "u2 div 2 ^ 26" _ "u3 div 2 ^ 26"])
      (simp_all only: assms(1-4) [symmetric] d [symmetric])
qed

lemma sum5_times:
  fixes x :: nat
  shows "x * (a0 + b1 * a1 + b2 * a2 + b3 * a3 + b4 * a4) = x * a0 + b1 * (x * a1) + b2 * (x * a2) + b3 * (x * a3) + b4 * (x * a4)"
  by (simp add: algebra_simps)

lemma sum5_plus:
  fixes a0 :: nat
  shows "a0 + b1 * a1 + b2 * a2 + b3 * a3 + b4 * a4 + (c0 + b1 * c1 + b2 * c2 + b3 * c3 + b4 * c4) =
    (a0 + c0) + b1 * (a1 + c1) + b2 * (a2 + c2) + b3 * (a3 + c3) + b4 * (a4 + c4)"
  by (simp add: algebra_simps)

lemma limbs_times: "x * limbs a0 a1 a2 a3 a4 = limbs (x * a0) (x * a1) (x * a2) (x * a3) (x * a4)"
  by (rule sum5_times)

lemma limbs_plus:
  "limbs a0 a1 a2 a3 a4 + limbs c0 c1 c2 c3 c4 = limbs (a0 + c0) (a1 + c1) (a2 + c2) (a3 + c3) (a4 + c4)"
  by (rule sum5_plus)

text \<open>Multiplying by \<open>2 ^ 26\<close> shifts the limbs; the last one comes back five times.\<close>

lemma limbs_shift: "2 ^ 26 * limbs a0 a1 a2 a3 a4 = limbs (5 * a4) a0 a1 a2 a3 + poly_p * a4"
  by (simp add: poly_p_def)

lemma limb_product:
  fixes h0 h1 h2 h3 h4 r0 r1 r2 r3 r4 :: nat
  shows "\<exists>q. limbs h0 h1 h2 h3 h4 * limbs r0 r1 r2 r3 r4 =
    limbs (h0 * r0 + h1 * (5 * r4) + h2 * (5 * r3) + h3 * (5 * r2) + h4 * (5 * r1))
      (h0 * r1 + h1 * r0 + h2 * (5 * r4) + h3 * (5 * r3) + h4 * (5 * r2))
      (h0 * r2 + h1 * r1 + h2 * r0 + h3 * (5 * r4) + h4 * (5 * r3))
      (h0 * r3 + h1 * r2 + h2 * r1 + h3 * r0 + h4 * (5 * r4))
      (h0 * r4 + h1 * r3 + h2 * r2 + h3 * r1 + h4 * r0) + poly_p * q"
proof -
  define R where "R = limbs r0 r1 r2 r3 r4"
  have d: "x * (L + poly_p * c) = x * L + poly_p * (x * c)" "L + poly_p * c + poly_p * c' = L + poly_p * (c + c')" for x L c c'
    by (simp_all add: algebra_simps)
  have s1: "2 ^ 26 * R = limbs (5 * r4) r0 r1 r2 r3 + poly_p * r4" unfolding R_def by (rule limbs_shift)
  have s2: "2 ^ 52 * R = limbs (5 * r3) (5 * r4) r0 r1 r2 + poly_p * (r3 + 2 ^ 26 * r4)"
  proof -
    have "2 ^ 52 * R = 2 ^ 26 * (2 ^ 26 * R)" by simp
    then show ?thesis unfolding s1 d limbs_shift .
  qed
  have s3: "2 ^ 78 * R = limbs (5 * r2) (5 * r3) (5 * r4) r0 r1 + poly_p * (r2 + 2 ^ 26 * (r3 + 2 ^ 26 * r4))"
  proof -
    have "2 ^ 78 * R = 2 ^ 26 * (2 ^ 52 * R)" by simp
    then show ?thesis unfolding s2 d limbs_shift .
  qed
  have s4: "2 ^ 104 * R = limbs (5 * r1) (5 * r2) (5 * r3) (5 * r4) r0 +
      poly_p * (r1 + 2 ^ 26 * (r2 + 2 ^ 26 * (r3 + 2 ^ 26 * r4)))"
  proof -
    have "2 ^ 104 * R = 2 ^ 26 * (2 ^ 78 * R)" by simp
    then show ?thesis unfolding s3 d limbs_shift .
  qed
  have p5: "(h0 + x1 * h1 + x2 * h2 + x3 * h3 + x4 * h4) * R = h0 * R + h1 * (x1 * R) + h2 * (x2 * R) + h3 * (x3 * R) + h4 * (x4 * R)"
    for x1 x2 x3 x4 by (simp add: algebra_simps)
  have q: "a0 + h1 * (a1 + p * c1) + h2 * (a2 + p * c2) + h3 * (a3 + p * c3) + h4 * (a4 + p * c4) =
      a0 + h1 * a1 + h2 * a2 + h3 * a3 + h4 * a4 + p * (h1 * c1 + h2 * c2 + h3 * c3 + h4 * c4)"
    for a0 a1 a2 a3 a4 c1 c2 c3 c4 p :: nat by (simp add: algebra_simps)
  have "limbs h0 h1 h2 h3 h4 * R =
      h0 * limbs r0 r1 r2 r3 r4 + h1 * limbs (5 * r4) r0 r1 r2 r3 + h2 * limbs (5 * r3) (5 * r4) r0 r1 r2 +
      h3 * limbs (5 * r2) (5 * r3) (5 * r4) r0 r1 + h4 * limbs (5 * r1) (5 * r2) (5 * r3) (5 * r4) r0 +
      poly_p * (h1 * r4 + h2 * (r3 + 2 ^ 26 * r4) + h3 * (r2 + 2 ^ 26 * (r3 + 2 ^ 26 * r4)) +
        h4 * (r1 + 2 ^ 26 * (r2 + 2 ^ 26 * (r3 + 2 ^ 26 * r4))))"
    unfolding p5 s1 s2 s3 s4 q unfolding R_def ..
  then show ?thesis unfolding limbs_times limbs_plus R_def by blast
qed

lemma limb_round:
  fixes h0 h1 h2 h3 h4 r0 r1 r2 r3 r4 :: nat
  assumes t: "t0 = h0 * r0 + h1 * (5 * r4) + h2 * (5 * r3) + h3 * (5 * r2) + h4 * (5 * r1)"
    "t1 = h0 * r1 + h1 * r0 + h2 * (5 * r4) + h3 * (5 * r3) + h4 * (5 * r2)"
    "t2 = h0 * r2 + h1 * r1 + h2 * r0 + h3 * (5 * r4) + h4 * (5 * r3)"
    "t3 = h0 * r3 + h1 * r2 + h2 * r1 + h3 * r0 + h4 * (5 * r4)"
    "t4 = h0 * r4 + h1 * r3 + h2 * r2 + h3 * r1 + h4 * r0"
    and u: "u1 = t1 + t0 div 2 ^ 26" "u2 = t2 + u1 div 2 ^ 26" "u3 = t3 + u2 div 2 ^ 26" "u4 = t4 + u3 div 2 ^ 26"
  shows "limbs (t0 mod 2 ^ 26 + u4 div 2 ^ 26 * 5) (u1 mod 2 ^ 26) (u2 mod 2 ^ 26) (u3 mod 2 ^ 26) (u4 mod 2 ^ 26) mod poly_p =
    limbs h0 h1 h2 h3 h4 * limbs r0 r1 r2 r3 r4 mod poly_p"
proof -
  define w where "w = limbs (t0 mod 2 ^ 26 + u4 div 2 ^ 26 * 5) (u1 mod 2 ^ 26) (u2 mod 2 ^ 26) (u3 mod 2 ^ 26) (u4 mod 2 ^ 26)"
  have "w + poly_p * (u4 div 2 ^ 26) = limbs t0 t1 t2 t3 t4"
    unfolding limb_carry [OF u] w_def by (simp add: poly_p_def)
  moreover obtain q where "limbs h0 h1 h2 h3 h4 * limbs r0 r1 r2 r3 r4 = limbs t0 t1 t2 t3 t4 + poly_p * q"
    using limb_product [of h0 h1 h2 h3 h4 r0 r1 r2 r3 r4] unfolding t [symmetric] by blast
  ultimately have "limbs h0 h1 h2 h3 h4 * limbs r0 r1 r2 r3 r4 = w + poly_p * (u4 div 2 ^ 26) + poly_p * q" by simp
  then show ?thesis unfolding w_def [symmetric] by (simp del: mult_Suc_right)
qed

text \<open>The bounds of a round. The carry out of the second limb has 32 bits with hardly any to spare.\<close>

lemma limb_bounds:
  fixes h0 h1 h2 h3 h4 r0 r1 r2 r3 r4 :: nat
  assumes h: "h0 < 43 * 2 ^ 26" "h1 < 2 ^ 27" "h2 < 2 ^ 27" "h3 < 2 ^ 27" "h4 < 3 * 2 ^ 25"
    and r: "r0 < 2 ^ 26" "r1 < 2 ^ 26" "r2 < 2 ^ 26" "r3 < 2 ^ 26" "r4 < 2 ^ 20"
    and t: "t0 = h0 * r0 + h1 * (5 * r4) + h2 * (5 * r3) + h3 * (5 * r2) + h4 * (5 * r1)"
    "t1 = h0 * r1 + h1 * r0 + h2 * (5 * r4) + h3 * (5 * r3) + h4 * (5 * r2)"
    "t2 = h0 * r2 + h1 * r1 + h2 * r0 + h3 * (5 * r4) + h4 * (5 * r3)"
    "t3 = h0 * r3 + h1 * r2 + h2 * r1 + h3 * r0 + h4 * (5 * r4)"
    "t4 = h0 * r4 + h1 * r3 + h2 * r2 + h3 * r1 + h4 * r0"
    and u: "u1 = t1 + t0 div 2 ^ 26" "u2 = t2 + u1 div 2 ^ 26" "u3 = t3 + u2 div 2 ^ 26" "u4 = t4 + u3 div 2 ^ 26"
  shows "t0 < 2 ^ 59" and "u1 < 2 ^ 58" and "u2 < 2 ^ 58" and "u3 < 2 ^ 58" and "u4 < 2 ^ 56"
    and "t0 mod 2 ^ 26 + u4 div 2 ^ 26 * 5 < 42 * 2 ^ 26"
proof -
  have m: "x < a \<Longrightarrow> y < b \<Longrightarrow> x * y \<le> a * b" for x y a b :: nat by (intro mult_le_mono) simp_all
  have p0: "h0 * r0 \<le> 43 * 2 ^ 26 * 2 ^ 26" "h0 * r1 \<le> 43 * 2 ^ 26 * 2 ^ 26" "h0 * r2 \<le> 43 * 2 ^ 26 * 2 ^ 26"
    "h0 * r3 \<le> 43 * 2 ^ 26 * 2 ^ 26" "h0 * r4 \<le> 43 * 2 ^ 26 * 2 ^ 20" by (intro m h r)+
  have p1: "h1 * r0 \<le> 2 ^ 27 * 2 ^ 26" "h1 * r1 \<le> 2 ^ 27 * 2 ^ 26" "h1 * r2 \<le> 2 ^ 27 * 2 ^ 26"
    "h1 * r3 \<le> 2 ^ 27 * 2 ^ 26" "h1 * r4 \<le> 2 ^ 27 * 2 ^ 20" by (intro m h r)+
  have p2: "h2 * r0 \<le> 2 ^ 27 * 2 ^ 26" "h2 * r1 \<le> 2 ^ 27 * 2 ^ 26" "h2 * r2 \<le> 2 ^ 27 * 2 ^ 26"
    "h2 * r3 \<le> 2 ^ 27 * 2 ^ 26" "h2 * r4 \<le> 2 ^ 27 * 2 ^ 20" by (intro m h r)+
  have p3: "h3 * r0 \<le> 2 ^ 27 * 2 ^ 26" "h3 * r1 \<le> 2 ^ 27 * 2 ^ 26" "h3 * r2 \<le> 2 ^ 27 * 2 ^ 26"
    "h3 * r3 \<le> 2 ^ 27 * 2 ^ 26" "h3 * r4 \<le> 2 ^ 27 * 2 ^ 20" by (intro m h r)+
  have p4: "h4 * r0 \<le> 3 * 2 ^ 25 * 2 ^ 26" "h4 * r1 \<le> 3 * 2 ^ 25 * 2 ^ 26" "h4 * r2 \<le> 3 * 2 ^ 25 * 2 ^ 26"
    "h4 * r3 \<le> 3 * 2 ^ 25 * 2 ^ 26" "h4 * r4 \<le> 3 * 2 ^ 25 * 2 ^ 20" by (intro m h r)+
  have s: "x * (5 * y) = 5 * (x * y)" for x y :: nat by simp
  have d: "x div 2 ^ 26 * 2 ^ 26 \<le> x" for x :: nat by simp
  have t0: "t0 < 2 ^ 59" unfolding t s using p0(1) p1(5) p2(4) p3(3) p4(2) by simp
  have q0: "t0 div 2 ^ 26 < 2 ^ 33" using t0 by (simp add: less_mult_imp_div_less)
  have u1: "u1 < 2 ^ 58" unfolding u t s using q0 [unfolded t s] p0(2) p1(1) p2(5) p3(4) p4(3) by simp
  have q1: "u1 div 2 ^ 26 < 2 ^ 32" using u1 by (simp add: less_mult_imp_div_less)
  have u2: "u2 < 2 ^ 58" unfolding u(2) t s using q1 p0(3) p1(2) p2(1) p3(5) p4(4) by simp
  have q2: "u2 div 2 ^ 26 < 2 ^ 32" using u2 by (simp add: less_mult_imp_div_less)
  have u3: "u3 < 2 ^ 58" unfolding u(3) t s using q2 p0(4) p1(3) p2(2) p3(1) p4(5) by simp
  have q3: "u3 div 2 ^ 26 < 2 ^ 32" using u3 by (simp add: less_mult_imp_div_less)
  have u4: "u4 \<le> 36802857499885568" unfolding u(4) t s using q3 p0(5) p1(4) p2(3) p3(2) p4(1) by simp
  have q4: "u4 div 2 ^ 26 \<le> 548405312" using div_le_mono [OF u4, of "2 ^ 26"] by simp
  show "t0 < 2 ^ 59" "u1 < 2 ^ 58" "u2 < 2 ^ 58" "u3 < 2 ^ 58" by (fact t0 u1 u2 u3)+
  show "u4 < 2 ^ 56" using u4 by simp
  have "t0 mod 2 ^ 26 < 2 ^ 26" by simp
  then show "t0 mod 2 ^ 26 + u4 div 2 ^ 26 * 5 < 42 * 2 ^ 26" using q4 by simp
qed

section \<open>States\<close>

definition p_acc :: "poly1305_state \<Rightarrow> nat" where
  "p_acc st = limbs (unat (p_h0 st)) (unat (p_h1 st)) (unat (p_h2 st)) (unat (p_h3 st)) (unat (p_h4 st))"

definition p_mult :: "poly1305_state \<Rightarrow> nat" where
  "p_mult st = limbs (unat (p_r0 st)) (unat (p_r1 st)) (unat (p_r2 st)) (unat (p_r3 st)) (unat (p_r4 st))"

text \<open>The multiplier has small limbs and its copies times five; the accumulator is as a round leaves it.\<close>

definition p_mult_ok :: "poly1305_state \<Rightarrow> bool" where
  "p_mult_ok st \<longleftrightarrow>
     unat (p_r0 st) < 2 ^ 26 \<and> unat (p_r1 st) < 2 ^ 26 \<and> unat (p_r2 st) < 2 ^ 26 \<and> unat (p_r3 st) < 2 ^ 26 \<and> unat (p_r4 st) < 2 ^ 20 \<and>
     unat (p_s1 st) = 5 * unat (p_r1 st) \<and> unat (p_s2 st) = 5 * unat (p_r2 st) \<and>
     unat (p_s3 st) = 5 * unat (p_r3 st) \<and> unat (p_s4 st) = 5 * unat (p_r4 st)"

definition p_limbs_ok :: "poly1305_state \<Rightarrow> bool" where
  "p_limbs_ok st \<longleftrightarrow>
     unat (p_h0 st) < 42 * 2 ^ 26 \<and> unat (p_h1 st) < 2 ^ 26 \<and> unat (p_h2 st) < 2 ^ 26 \<and> unat (p_h3 st) < 2 ^ 26 \<and> unat (p_h4 st) < 2 ^ 26"

text \<open>What a state keeps while it only multiplies and adds.\<close>

definition p_same :: "poly1305_state \<Rightarrow> poly1305_state \<Rightarrow> bool" where
  "p_same st st' \<longleftrightarrow> p_mult st' = p_mult st \<and> p_mult_ok st' = p_mult_ok st \<and>
     p_buf st' = p_buf st \<and> p_buf_used st' = p_buf_used st \<and> p_key st' = p_key st"

lemma poly1305_mul:
  assumes m: "p_mult_ok st"
    and h: "unat (p_h0 st) < 43 * 2 ^ 26" "unat (p_h1 st) < 2 ^ 27" "unat (p_h2 st) < 2 ^ 27" "unat (p_h3 st) < 2 ^ 27" "unat (p_h4 st) < 3 * 2 ^ 25"
  shows "p_limbs_ok (poly1305_mul st)" and "p_acc (poly1305_mul st) mod poly_p = p_acc st * p_mult st mod poly_p"
    and "p_same st (poly1305_mul st)"
proof -
  have r: "unat (p_r0 st) < 2 ^ 26" "unat (p_r1 st) < 2 ^ 26" "unat (p_r2 st) < 2 ^ 26" "unat (p_r3 st) < 2 ^ 26" "unat (p_r4 st) < 2 ^ 20"
    and s: "unat (p_s1 st) = 5 * unat (p_r1 st)" "unat (p_s2 st) = 5 * unat (p_r2 st)"
      "unat (p_s3 st) = 5 * unat (p_r3 st)" "unat (p_s4 st) = 5 * unat (p_r4 st)"
    using m unfolding p_mult_ok_def by blast+
  define t0 where "t0 = mul32x32_64 (p_h0 st) (p_r0 st) + mul32x32_64 (p_h1 st) (p_s4 st) +
    mul32x32_64 (p_h2 st) (p_s3 st) + mul32x32_64 (p_h3 st) (p_s2 st) + mul32x32_64 (p_h4 st) (p_s1 st)"
  define t1 where "t1 = mul32x32_64 (p_h0 st) (p_r1 st) + mul32x32_64 (p_h1 st) (p_r0 st) +
    mul32x32_64 (p_h2 st) (p_s4 st) + mul32x32_64 (p_h3 st) (p_s3 st) + mul32x32_64 (p_h4 st) (p_s2 st)"
  define t2 where "t2 = mul32x32_64 (p_h0 st) (p_r2 st) + mul32x32_64 (p_h1 st) (p_r1 st) +
    mul32x32_64 (p_h2 st) (p_r0 st) + mul32x32_64 (p_h3 st) (p_s4 st) + mul32x32_64 (p_h4 st) (p_s3 st)"
  define t3 where "t3 = mul32x32_64 (p_h0 st) (p_r3 st) + mul32x32_64 (p_h1 st) (p_r2 st) +
    mul32x32_64 (p_h2 st) (p_r1 st) + mul32x32_64 (p_h3 st) (p_r0 st) + mul32x32_64 (p_h4 st) (p_s4 st)"
  define t4 where "t4 = mul32x32_64 (p_h0 st) (p_r4 st) + mul32x32_64 (p_h1 st) (p_r3 st) +
    mul32x32_64 (p_h2 st) (p_r2 st) + mul32x32_64 (p_h3 st) (p_r1 st) + mul32x32_64 (p_h4 st) (p_r0 st)"
  define x1 where "x1 = t1 + drop_bit 26 t0"
  define b1 where "b1 = (ucast (drop_bit 26 x1) :: u32)"
  define x2 where "x2 = t2 + ucast b1"
  define b2 where "b2 = (ucast (drop_bit 26 x2) :: u32)"
  define x3 where "x3 = t3 + ucast b2"
  define b3 where "b3 = (ucast (drop_bit 26 x3) :: u32)"
  define x4 where "x4 = t4 + ucast b3"
  define b4 where "b4 = (ucast (drop_bit 26 x4) :: u32)"
  note ws = t0_def t1_def t2_def t3_def t4_def x1_def b1_def x2_def b2_def x3_def b3_def x4_def b4_def
  have mul: "poly1305_mul st = st\<lparr>p_h0 := (ucast t0 AND 0x3ffffff) + b4 * 5, p_h1 := ucast x1 AND 0x3ffffff,
      p_h2 := ucast x2 AND 0x3ffffff, p_h3 := ucast x3 AND 0x3ffffff, p_h4 := ucast x4 AND 0x3ffffff\<rparr>"
    unfolding poly1305_mul_def Let_def ws ..
  define h0 h1 h2 h3 h4 where hs: "h0 = unat (p_h0 st)" "h1 = unat (p_h1 st)" "h2 = unat (p_h2 st)" "h3 = unat (p_h3 st)" "h4 = unat (p_h4 st)"
  define r0 r1 r2 r3 r4 where rs: "r0 = unat (p_r0 st)" "r1 = unat (p_r1 st)" "r2 = unat (p_r2 st)" "r3 = unat (p_r3 st)" "r4 = unat (p_r4 st)"
  define n0 where "n0 = h0 * r0 + h1 * (5 * r4) + h2 * (5 * r3) + h3 * (5 * r2) + h4 * (5 * r1)"
  define n1 where "n1 = h0 * r1 + h1 * r0 + h2 * (5 * r4) + h3 * (5 * r3) + h4 * (5 * r2)"
  define n2 where "n2 = h0 * r2 + h1 * r1 + h2 * r0 + h3 * (5 * r4) + h4 * (5 * r3)"
  define n3 where "n3 = h0 * r3 + h1 * r2 + h2 * r1 + h3 * r0 + h4 * (5 * r4)"
  define n4 where "n4 = h0 * r4 + h1 * r3 + h2 * r2 + h3 * r1 + h4 * r0"
  define u1 where "u1 = n1 + n0 div 2 ^ 26"
  define u2 where "u2 = n2 + u1 div 2 ^ 26"
  define u3 where "u3 = n3 + u2 div 2 ^ 26"
  define u4 where "u4 = n4 + u3 div 2 ^ 26"
  note bounds = limb_bounds [OF h [folded hs] r [folded rs] n0_def n1_def n2_def n3_def n4_def u1_def u2_def u3_def u4_def]
  note rnd = limb_round [OF n0_def n1_def n2_def n3_def n4_def u1_def u2_def u3_def u4_def]
  have le: "n1 \<le> u1" "n2 \<le> u2" "n3 \<le> u3" "n4 \<le> u4" by (simp_all add: u1_def u2_def u3_def u4_def)
  have ut0: "unat t0 = n0"
    unfolding t0_def n0_def hs rs using bounds(1) [unfolded n0_def hs rs] by (subst unat_sum5) (simp_all add: s)
  have ut1: "unat t1 = n1"
    unfolding t1_def n1_def hs rs using le_less_trans [OF le(1) bounds(2), unfolded n1_def hs rs] by (subst unat_sum5) (simp_all add: s)
  have ut2: "unat t2 = n2"
    unfolding t2_def n2_def hs rs using le_less_trans [OF le(2) bounds(3), unfolded n2_def hs rs] by (subst unat_sum5) (simp_all add: s)
  have ut3: "unat t3 = n3"
    unfolding t3_def n3_def hs rs using le_less_trans [OF le(3) bounds(4), unfolded n3_def hs rs] by (subst unat_sum5) (simp_all add: s)
  have ut4: "unat t4 = n4"
    unfolding t4_def n4_def hs rs using le_less_trans [OF le(4) bounds(5), unfolded n4_def hs rs] by (subst unat_sum5) (simp_all add: s)
  have q: "x < 2 ^ 58 \<Longrightarrow> x div 2 ^ 26 < 2 ^ 32" for x :: nat by (simp add: less_mult_imp_div_less)
  have ux1: "unat x1 = u1" unfolding x1_def using bounds(2) by (subst unat_sum2) (simp_all add: unat_drop_bit ut0 ut1 u1_def)
  have ub1: "unat b1 = u1 div 2 ^ 26" unfolding b1_def using carry_26 [of x1] q [OF bounds(2)] unfolding ux1 by simp
  have ux2: "unat x2 = u2" unfolding x2_def using bounds(3) by (subst unat_sum2) (simp_all add: ub1 ut2 u2_def)
  have ub2: "unat b2 = u2 div 2 ^ 26" unfolding b2_def using carry_26 [of x2] q [OF bounds(3)] unfolding ux2 by simp
  have ux3: "unat x3 = u3" unfolding x3_def using bounds(4) by (subst unat_sum2) (simp_all add: ub2 ut3 u3_def)
  have ub3: "unat b3 = u3 div 2 ^ 26" unfolding b3_def using carry_26 [of x3] q [OF bounds(4)] unfolding ux3 by simp
  have ux4: "unat x4 = u4" unfolding x4_def using bounds(5) by (subst unat_sum2) (simp_all add: ub3 ut4 u4_def)
  have ub4: "unat b4 = u4 div 2 ^ 26" unfolding b4_def using carry_26 [of x4] q [of u4] bounds(5) unfolding ux4 by simp
  have uh0: "unat ((ucast t0 AND 0x3ffffff) + b4 * 5 :: u32) = n0 mod 2 ^ 26 + u4 div 2 ^ 26 * 5"
  proof -
    have "unat (b4 * 5) = u4 div 2 ^ 26 * 5" using bounds(6) by (simp add: unat_word_ariths ub4)
    then show ?thesis using bounds(6) low_26 [of t0] by (simp add: unat_word_ariths ut0)
  qed
  have acc: "p_acc (poly1305_mul st) =
      limbs (n0 mod 2 ^ 26 + u4 div 2 ^ 26 * 5) (u1 mod 2 ^ 26) (u2 mod 2 ^ 26) (u3 mod 2 ^ 26) (u4 mod 2 ^ 26)"
    unfolding mul p_acc_def using uh0 by (simp add: low_26 ux1 ux2 ux3 ux4)
  show "p_acc (poly1305_mul st) mod poly_p = p_acc st * p_mult st mod poly_p"
    unfolding acc rnd unfolding p_acc_def p_mult_def hs rs ..
  show "p_limbs_ok (poly1305_mul st)"
    unfolding mul p_limbs_ok_def using uh0 bounds(6) by (simp add: low_26 ux1 ux2 ux3 ux4)
  show "p_same st (poly1305_mul st)" unfolding mul by (simp add: p_same_def p_mult_def p_mult_ok_def)
qed

end
