(* ===== verification/Poly1305_Props.thy ===== *)
theory Poly1305_Props
  imports Poly1305_Limbs
begin

text \<open>
  Poly1305 over the interface: blocks and key as limbs, updates in any pieces, the final reduction
  with the case in which the code loses a carry, and the equality with the standard otherwise.
\<close>

section \<open>Blocks and keys as limbs\<close>

lemma le_val_Nil [simp]: "le_val [] = 0"
  by (simp add: le_val_def)

lemma le_val_append: "le_val (a @ b) = le_val a + 256 ^ length a * le_val b"
  by (simp add: le_val_def be_val_append)

lemma le_val_lt: "le_val bs < 256 ^ length bs"
  using be_val_lt [of "rev bs"] by (simp add: le_val_def)

lemma load_words_16:
  assumes "16 \<le> length inp"
  shows "le_val (take 16 inp) = unat (CRYPTO_load_u32_le inp) + 2 ^ 32 * unat (CRYPTO_load_u32_le (drop 4 inp)) +
    2 ^ 64 * unat (CRYPTO_load_u32_le (drop 8 inp)) + 2 ^ 96 * unat (CRYPTO_load_u32_le (drop 12 inp))"
proof -
  have t: "take 16 inp = take 4 inp @ take 4 (drop 4 inp) @ take 4 (drop 8 inp) @ take 4 (drop 12 inp)"
    using take_add [of 4 12 inp] take_add [of 4 8 "drop 4 inp"] take_add [of 4 4 "drop 8 inp"] by simp
  show ?thesis unfolding t using assms by (simp add: le_val_append load_u32_le)
qed

lemma join_words:
  assumes "k \<le> 32"
  shows "unat (ucast (drop_bit k (push_bit 32 (ucast (y :: u32)) OR ucast (x :: u32) :: u64) AND 0x3ffffff) :: u32) =
    (unat x + 2 ^ 32 * unat y) div 2 ^ k mod 2 ^ 26"
proof -
  have "unat x + unat y * 2 ^ 32 < 2 ^ 64" using u32_lt [of x] u32_lt [of y] by simp
  then have "unat (ucast x OR push_bit 32 (ucast y) :: u64) = unat x + unat y * 2 ^ 32"
    using unat_or_push_bit [of "ucast x :: u64" 32 "ucast y :: u64"] u32_lt [of x] by simp
  then have "unat (drop_bit k (push_bit 32 (ucast y) OR ucast x :: u64) AND 0x3ffffff) = (unat x + 2 ^ 32 * unat y) div 2 ^ k mod 2 ^ 26"
    unfolding or.commute [of "push_bit 32 (ucast y)"] by (subst and_26, simp) (simp only: unat_drop_bit mult.commute)
  then show ?thesis by (simp add: unat_ucast_mod)
qed

lemma limb_of_words:
  fixes x y :: nat
  assumes "x < 2 ^ 32"
  shows "(x + 2 ^ 32 * y) div 2 ^ 26 mod 2 ^ 26 = x div 2 ^ 26 + 2 ^ 6 * (y mod 2 ^ 20)"
    and "(x + 2 ^ 32 * y) div 2 ^ 20 mod 2 ^ 26 = x div 2 ^ 20 + 2 ^ 12 * (y mod 2 ^ 14)"
    and "(x + 2 ^ 32 * y) div 2 ^ 14 mod 2 ^ 26 = x div 2 ^ 14 + 2 ^ 18 * (y mod 2 ^ 8)"
proof -
  have *: "(x + 2 ^ 32 * y) div 2 ^ k mod 2 ^ 26 = x div 2 ^ k + 2 ^ (32 - k) * (y mod 2 ^ (k - 6))" if "6 \<le> k" "k \<le> 32" for k
  proof -
    have e: "(2 :: nat) ^ 32 = 2 ^ k * 2 ^ (32 - k)" "(2 :: nat) ^ 26 = 2 ^ (32 - k) * 2 ^ (k - 6)"
      using that by (simp_all flip: power_add)
    have q: "x div 2 ^ k < 2 ^ (32 - k)" using assms unfolding e(1) by (simp add: less_mult_imp_div_less mult.commute)
    have "(x + 2 ^ 32 * y) div 2 ^ k = x div 2 ^ k + 2 ^ (32 - k) * y" unfolding e(1) by (simp add: mult.assoc)
    then show ?thesis using q unfolding e(2) by (simp add: mod_mult2_eq)
  qed
  show "(x + 2 ^ 32 * y) div 2 ^ 26 mod 2 ^ 26 = x div 2 ^ 26 + 2 ^ 6 * (y mod 2 ^ 20)"
    "(x + 2 ^ 32 * y) div 2 ^ 20 mod 2 ^ 26 = x div 2 ^ 20 + 2 ^ 12 * (y mod 2 ^ 14)"
    "(x + 2 ^ 32 * y) div 2 ^ 14 mod 2 ^ 26 = x div 2 ^ 14 + 2 ^ 18 * (y mod 2 ^ 8)"
    using * [of 26] * [of 20] * [of 14] by simp_all
qed

lemma limbs_of_words:
  fixes x0 x1 x2 x3 :: nat
  assumes "x0 < 2 ^ 32" and "x1 < 2 ^ 32" and "x2 < 2 ^ 32"
  shows "limbs (x0 mod 2 ^ 26) ((x0 + 2 ^ 32 * x1) div 2 ^ 26 mod 2 ^ 26) ((x1 + 2 ^ 32 * x2) div 2 ^ 20 mod 2 ^ 26)
      ((x2 + 2 ^ 32 * x3) div 2 ^ 14 mod 2 ^ 26) (x3 div 2 ^ 8) = x0 + 2 ^ 32 * x1 + 2 ^ 64 * x2 + 2 ^ 96 * x3"
proof -
  have lin: "limbs b0 (a0 + 2 ^ 6 * b1) (a1 + 2 ^ 12 * b2) (a2 + 2 ^ 18 * b3) a3 =
      (2 ^ 26 * a0 + b0) + 2 ^ 32 * (2 ^ 20 * a1 + b1) + 2 ^ 64 * (2 ^ 14 * a2 + b2) + 2 ^ 96 * (2 ^ 8 * a3 + b3)"
    for a0 b0 a1 b1 a2 b2 a3 b3 :: nat by simp
  show ?thesis unfolding limb_of_words(1) [OF assms(1)] limb_of_words(2) [OF assms(2)] limb_of_words(3) [OF assms(3)]
    unfolding lin by (simp only: mult_div_mod_eq)
qed

text \<open>A block is added without an overflow of a limb.\<close>

lemma poly1305_add:
  assumes "p_limbs_ok st" and "16 \<le> length inp" and "hibit = 0 \<or> hibit = push_bit 24 1"
  defines "st' \<equiv> poly1305_add hibit inp st"
  shows "p_acc st' = p_acc st + le_val (take 16 inp) + 2 ^ 104 * unat hibit" and "p_same st st'"
    and "unat (p_h0 st') < 43 * 2 ^ 26" and "unat (p_h1 st') < 2 ^ 27" and "unat (p_h2 st') < 2 ^ 27"
    and "unat (p_h3 st') < 2 ^ 27" and "unat (p_h4 st') < 3 * 2 ^ 25"
proof -
  define t0 t1 t2 t3 where ts: "t0 = CRYPTO_load_u32_le inp" "t1 = CRYPTO_load_u32_le (drop 4 inp)"
    "t2 = CRYPTO_load_u32_le (drop 8 inp)" "t3 = CRYPTO_load_u32_le (drop 12 inp)"
  define m0 m1 m2 m3 m4 where ms: "m0 = unat t0 mod 2 ^ 26" "m1 = (unat t0 + 2 ^ 32 * unat t1) div 2 ^ 26 mod 2 ^ 26"
    "m2 = (unat t1 + 2 ^ 32 * unat t2) div 2 ^ 20 mod 2 ^ 26" "m3 = (unat t2 + 2 ^ 32 * unat t3) div 2 ^ 14 mod 2 ^ 26"
    "m4 = unat t3 div 2 ^ 8"
  have N: "le_val (take 16 inp) = limbs m0 m1 m2 m3 m4"
    unfolding load_words_16 [OF assms(2)] ts [symmetric] ms limbs_of_words [OF u32_lt u32_lt u32_lt] ..
  have lt: "m0 < 2 ^ 26" "m1 < 2 ^ 26" "m2 < 2 ^ 26" "m3 < 2 ^ 26" by (simp_all add: ms)
  have m4: "m4 < 2 ^ 24" using u32_lt [of t3] by (simp add: ms less_mult_imp_div_less)
  have hib: "unat hibit = 0 \<or> unat hibit = 2 ^ 24" using assms(3) by auto
  have or4: "unat (drop_bit 8 t3 OR hibit) = m4 + unat hibit"
  proof (cases "hibit = 0")
    case False
    then have "hibit = push_bit 24 1" using assms(3) by simp
    then show ?thesis using m4 unat_or_push_bit [of "drop_bit 8 t3" 24 1] by (simp add: unat_drop_bit ms)
  qed (simp add: unat_drop_bit ms)
  have h: "unat (p_h0 st) < 42 * 2 ^ 26" "unat (p_h1 st) < 2 ^ 26" "unat (p_h2 st) < 2 ^ 26" "unat (p_h3 st) < 2 ^ 26" "unat (p_h4 st) < 2 ^ 26"
    using assms(1) unfolding p_limbs_ok_def by blast+
  define w1 where "w1 = (ucast (drop_bit 26 (push_bit 32 (ucast t1) OR ucast t0 :: u64) AND 0x3ffffff) :: u32)"
  define w2 where "w2 = (ucast (drop_bit 20 (push_bit 32 (ucast t2) OR ucast t1 :: u64) AND 0x3ffffff) :: u32)"
  define w3 where "w3 = (ucast (drop_bit 14 (push_bit 32 (ucast t3) OR ucast t2 :: u64) AND 0x3ffffff) :: u32)"
  have st': "st' = st\<lparr>p_h0 := p_h0 st + (t0 AND 0x3ffffff), p_h1 := p_h1 st + w1, p_h2 := p_h2 st + w2,
      p_h3 := p_h3 st + w3, p_h4 := p_h4 st + (drop_bit 8 t3 OR hibit)\<rparr>"
    unfolding st'_def poly1305_add_def Let_def w1_def w2_def w3_def ts ..
  have add: "unat (x + y) = unat x + unat y" if "unat x + unat y < 2 ^ 32" for x y :: u32 using that by (simp add: unat_word_ariths)
  have j: "unat w1 = m1" "unat w2 = m2" "unat w3 = m3"
    unfolding ms w1_def w2_def w3_def by (intro join_words; simp)+
  have u0: "unat (p_h0 st') = unat (p_h0 st) + m0"
    unfolding st' using h(1) lt(1) by (simp add: add and_26 ms)
  have u1: "unat (p_h1 st') = unat (p_h1 st) + m1" unfolding st' using h(2) lt(2) by (simp add: add j)
  have u2: "unat (p_h2 st') = unat (p_h2 st) + m2" unfolding st' using h(3) lt(3) by (simp add: add j)
  have u3: "unat (p_h3 st') = unat (p_h3 st) + m3" unfolding st' using h(4) lt(4) by (simp add: add j)
  have u4: "unat (p_h4 st') = unat (p_h4 st) + (m4 + unat hibit)" unfolding st' using h(5) m4 hib by (auto simp: add or4)
  show "unat (p_h0 st') < 43 * 2 ^ 26" using u0 h(1) lt(1) by simp
  show "unat (p_h1 st') < 2 ^ 27" using u1 h(2) lt(2) by simp
  show "unat (p_h2 st') < 2 ^ 27" using u2 h(3) lt(3) by simp
  show "unat (p_h3 st') < 2 ^ 27" using u3 h(4) lt(4) by simp
  show "unat (p_h4 st') < 3 * 2 ^ 25" using u4 h(5) m4 hib by auto
  show "p_acc st' = p_acc st + le_val (take 16 inp) + 2 ^ 104 * unat hibit"
    unfolding p_acc_def u0 u1 u2 u3 u4 N by simp
  show "p_same st st'" unfolding st' by (simp add: p_same_def p_mult_def p_mult_ok_def)
qed

section \<open>The key\<close>

lemma and_lt: "y < 2 ^ k \<Longrightarrow> x AND y < 2 ^ k" for x y :: nat
proof -
  assume "y < 2 ^ k"
  then have y: "take_bit k y = y" by (simp add: take_bit_nat_eq_self)
  have "take_bit k (x AND y) = x AND take_bit k y" by (rule bit_eqI) (auto simp: bit_take_bit_iff bit_and_iff)
  then show ?thesis using take_bit_nat_less_exp [of k "x AND y"] unfolding y by simp
qed

lemma and_split: "x < 2 ^ k \<Longrightarrow> y < 2 ^ k \<Longrightarrow> (x + 2 ^ k * X) AND (y + 2 ^ k * Y) = (x AND y) + 2 ^ k * (X AND Y)" for x y X Y :: nat
proof -
  assume x: "x < 2 ^ k" and y: "y < 2 ^ k"
  then have xy: "x AND y < 2 ^ k" by (intro and_lt)
  show ?thesis
    by (rule bit_eqI) (simp add: bit_and_iff bit_split [OF x] bit_split [OF y] bit_split [OF xy])
qed

lemma clamp_limbs:
  assumes "m0 < 2 ^ 26" and "m1 < 2 ^ 26" and "m2 < 2 ^ 26" and "m3 < 2 ^ 26"
  shows "limbs m0 m1 m2 m3 m4 AND 0x0ffffffc0ffffffc0ffffffc0fffffff =
    limbs (m0 AND 0x3ffffff) (m1 AND 0x3ffff03) (m2 AND 0x3ffc0ff) (m3 AND 0x3f03fff) (m4 AND 0xfffff)"
proof -
  have l: "limbs a0 a1 a2 a3 a4 = a0 + 2 ^ 26 * (a1 + 2 ^ 26 * (a2 + 2 ^ 26 * (a3 + 2 ^ 26 * a4)))" for a0 a1 a2 a3 a4 by simp
  have M: "(0x0ffffffc0ffffffc0ffffffc0fffffff :: nat) = limbs 0x3ffffff 0x3ffff03 0x3ffc0ff 0x3f03fff 0xfffff" by simp
  have lt: "(0x3ffffff :: nat) < 2 ^ 26" "(0x3ffff03 :: nat) < 2 ^ 26" "(0x3ffc0ff :: nat) < 2 ^ 26" "(0x3f03fff :: nat) < 2 ^ 26" by simp_all
  show ?thesis unfolding M l and_split [OF assms(1) lt(1)] and_split [OF assms(2) lt(2)] and_split [OF assms(3) lt(3)]
      and_split [OF assms(4) lt(4)] ..
qed

text \<open>The code clamps words that it shifts together in 32 bits.\<close>

lemma join_masked:
  assumes "k < 32" and "M AND mask 26 = M"
  shows "(drop_bit k (x :: u32) OR push_bit (32 - k) y) AND M =
    ucast (drop_bit k (push_bit 32 (ucast y) OR ucast x :: u64) AND 0x3ffffff) AND M"
proof (rule bit_word_eqI)
  fix j assume "j < LENGTH(32)"
  then have j: "j < 32" by simp
  have m: "(0x3ffffff :: u64) = mask 26" by (simp add: mask_eq_exp_minus_1)
  have "bit (M AND mask 26) j \<longleftrightarrow> bit M j \<and> j < 26" using j by (simp add: bit_and_iff bit_mask_iff)
  then have M: "bit M j \<Longrightarrow> j < 26" unfolding assms(2) by simp
  have x: "\<not> bit x n" if "32 \<le> n" for n using that bit_imp_le_length [of x n] by auto
  show "bit ((drop_bit k x OR push_bit (32 - k) y) AND M) j \<longleftrightarrow>
      bit (ucast (drop_bit k (push_bit 32 (ucast y) OR ucast x :: u64) AND 0x3ffffff) AND M) j"
    unfolding m using j assms(1) M x [of "k + j"]
    by (auto simp: bit_and_iff bit_or_iff bit_drop_bit_eq bit_push_bit_iff bit_ucast_iff bit_mask_iff comp_def add.commute)
qed

lemma init_limbs:
  assumes "32 \<le> length key"
  shows "p_mult_ok (CRYPTO_poly1305_init key)" and "p_mult (CRYPTO_poly1305_init key) = poly_r key"
proof -
  define t0 t1 t2 t3 where ts: "t0 = CRYPTO_load_u32_le key" "t1 = CRYPTO_load_u32_le (drop 4 key)"
    "t2 = CRYPTO_load_u32_le (drop 8 key)" "t3 = CRYPTO_load_u32_le (drop 12 key)"
  define w1 where "w1 = (ucast (drop_bit 26 (push_bit 32 (ucast t1) OR ucast t0 :: u64) AND 0x3ffffff) :: u32)"
  define w2 where "w2 = (ucast (drop_bit 20 (push_bit 32 (ucast t2) OR ucast t1 :: u64) AND 0x3ffffff) :: u32)"
  define w3 where "w3 = (ucast (drop_bit 14 (push_bit 32 (ucast t3) OR ucast t2 :: u64) AND 0x3ffffff) :: u32)"
  have j: "unat w1 = (unat t0 + 2 ^ 32 * unat t1) div 2 ^ 26 mod 2 ^ 26" "unat w2 = (unat t1 + 2 ^ 32 * unat t2) div 2 ^ 20 mod 2 ^ 26"
    "unat w3 = (unat t2 + 2 ^ 32 * unat t3) div 2 ^ 14 mod 2 ^ 26"
    unfolding w1_def w2_def w3_def by (intro join_words; simp)+
  have r1: "(drop_bit 26 t0 OR push_bit 6 t1) AND 0x3ffff03 = w1 AND 0x3ffff03"
    unfolding w1_def using join_masked [of 26 "0x3ffff03" t0 t1] by (simp add: mask_eq_exp_minus_1 del: drop_bit_or)
  have r2: "(drop_bit 20 t1 OR push_bit 12 t2) AND 0x3ffc0ff = w2 AND 0x3ffc0ff"
    unfolding w2_def using join_masked [of 20 "0x3ffc0ff" t1 t2] by (simp add: mask_eq_exp_minus_1 del: drop_bit_or)
  have r3: "(drop_bit 14 t2 OR push_bit 18 t3) AND 0x3f03fff = w3 AND 0x3f03fff"
    unfolding w3_def using join_masked [of 14 "0x3f03fff" t2 t3] by (simp add: mask_eq_exp_minus_1 del: drop_bit_or)
  define r where "r = [t0 AND 0x3ffffff, w1 AND 0x3ffff03, w2 AND 0x3ffc0ff, w3 AND 0x3f03fff, drop_bit 8 t3 AND 0xfffff]"
  have init: "CRYPTO_poly1305_init key = \<lparr>p_r0 = r ! 0, p_r1 = r ! 1, p_r2 = r ! 2, p_r3 = r ! 3, p_r4 = r ! 4,
      p_s1 = r ! 1 * 5, p_s2 = r ! 2 * 5, p_s3 = r ! 3 * 5, p_s4 = r ! 4 * 5,
      p_h0 = 0, p_h1 = 0, p_h2 = 0, p_h3 = 0, p_h4 = 0,
      p_buf = replicate 16 0, p_buf_used = 0, p_key = take 16 (drop 16 key)\<rparr>"
    unfolding CRYPTO_poly1305_init_def Let_def ts [symmetric] r1 r2 r3 r_def by simp
  have u: "unat (r ! 0) = unat t0 mod 2 ^ 26 AND 0x3ffffff" "unat (r ! 1) = unat w1 AND 0x3ffff03" "unat (r ! 2) = unat w2 AND 0x3ffc0ff"
    "unat (r ! 3) = unat w3 AND 0x3f03fff" "unat (r ! 4) = unat t3 div 2 ^ 8 AND 0xfffff"
  proof -
    have "x mod 2 ^ 26 AND 0x3ffffff = x mod 2 ^ 26" for x :: nat
    proof -
      have "(0x3ffffff :: nat) = mask 26" by (simp add: mask_eq_exp_minus_1)
      then show ?thesis by (simp only: take_bit_eq_mask [symmetric] take_bit_eq_mod mod_mod_trivial)
    qed
    then show "unat (r ! 0) = unat t0 mod 2 ^ 26 AND 0x3ffffff" unfolding r_def using and_26 [of t0] by simp
  qed (simp_all add: r_def unsigned_and_eq unat_drop_bit)
  have b: "unat (r ! 0) < 2 ^ 26" "unat (r ! 1) < 2 ^ 26" "unat (r ! 2) < 2 ^ 26" "unat (r ! 3) < 2 ^ 26" "unat (r ! 4) < 2 ^ 20"
    unfolding u by (rule and_lt, simp)+
  have s: "unat (x * 5) = 5 * unat x" if "unat x < 2 ^ 26" for x :: u32 using that by (simp add: unat_word_ariths)
  show "p_mult_ok (CRYPTO_poly1305_init key)"
    unfolding init p_mult_ok_def using b by (simp add: s)
  have N: "le_val (take 16 key) = limbs (unat t0 mod 2 ^ 26) (unat w1) (unat w2) (unat w3) (unat t3 div 2 ^ 8)"
    using load_words_16 [of key] assms unfolding ts [symmetric] j limbs_of_words [OF u32_lt u32_lt u32_lt] by simp
  have "poly_r key = limbs (unat (r ! 0)) (unat (r ! 1)) (unat (r ! 2)) (unat (r ! 3)) (unat (r ! 4))"
    unfolding poly_r_def N u by (rule clamp_limbs) (simp_all add: j)
  then show "p_mult (CRYPTO_poly1305_init key) = poly_r key" unfolding init p_mult_def by simp
qed

section \<open>Messages\<close>

lemma poly_acc_mod: "a mod poly_p = a' mod poly_p \<Longrightarrow> poly_acc r a msg mod poly_p = poly_acc r a' msg mod poly_p"
proof (induction r a msg arbitrary: a' rule: poly_acc.induct)
  case (1 r a msg)
  show ?case
  proof (cases "msg = []")
    case False
    have "(a + le_val (take 16 msg @ [1])) * r mod poly_p = (a' + le_val (take 16 msg @ [1])) * r mod poly_p"
      using "1.prems" by (intro mod_mult_cong mod_add_cong refl)
    then show ?thesis using False by (simp add: poly_acc.simps [of r a msg] poly_acc.simps [of r a' msg])
  qed (use "1.prems" in \<open>simp add: poly_acc.simps\<close>)
qed

lemma poly_acc_append: "16 dvd length x \<Longrightarrow> poly_acc r a (x @ y) = poly_acc r (poly_acc r a x) y"
proof (induction r a x rule: poly_acc.induct)
  case (1 r a x)
  show ?case
  proof (cases "x = []")
    case False
    then have l: "16 \<le> length x" using "1.prems" by (auto dest: dvd_imp_le)
    then have "16 dvd length (drop 16 x)" using "1.prems" by (simp add: dvd_diff_nat)
    then show ?thesis using "1.IH" False l by (simp add: poly_acc.simps [of r a "x @ y"] poly_acc.simps [of r a x])
  qed (simp add: poly_acc.simps)
qed

lemma p_same_trans: "p_same a b \<Longrightarrow> p_same b c \<Longrightarrow> p_same a c"
  by (simp add: p_same_def)

lemma le_val_zeros: "le_val (bs @ replicate n 0) = le_val bs"
  by (simp add: le_val_def be_val_append)

text \<open>One block, whole or not, is added and multiplied.\<close>

lemma poly1305_block:
  assumes "p_mult_ok st" and "p_limbs_ok st" and "16 \<le> length mp" and "hibit = 0 \<or> hibit = push_bit 24 1"
    and "le_val (take 16 mp) + 2 ^ 104 * unat hibit = v"
  shows "p_limbs_ok (poly1305_mul (poly1305_add hibit mp st))" and "p_same st (poly1305_mul (poly1305_add hibit mp st))"
    and "p_acc (poly1305_mul (poly1305_add hibit mp st)) mod poly_p = (p_acc st + v) * p_mult st mod poly_p"
proof -
  let ?a = "poly1305_add hibit mp st"
  note a = poly1305_add [OF assms(2,3,4)]
  have m: "p_mult_ok ?a" "p_mult ?a = p_mult st" using a(2) assms(1) by (simp_all add: p_same_def)
  note mul = poly1305_mul [OF m(1) a(3-7)]
  show "p_limbs_ok (poly1305_mul ?a)" by (rule mul(1))
  show "p_same st (poly1305_mul ?a)" by (rule p_same_trans [OF a(2) mul(3)])
  have "p_acc ?a = p_acc st + v" using a(1) assms(5) by simp
  then show "p_acc (poly1305_mul ?a) mod poly_p = (p_acc st + v) * p_mult st mod poly_p" using mul(2) m(2) by simp
qed

lemma poly1305_update:
  "p_mult_ok st \<Longrightarrow> p_limbs_ok st \<Longrightarrow> p_limbs_ok (poly1305_update st inp) \<and> p_same st (poly1305_update st inp) \<and>
    p_acc (poly1305_update st inp) mod poly_p = poly_acc (p_mult st) (p_acc st) inp mod poly_p"
proof (induction st inp rule: poly1305_update.induct)
  case (1 st inp)
  consider (whole) "16 \<le> length inp" | (part) "length inp < 16" "inp \<noteq> []" | (none) "inp = []" by linarith
  then show ?case
  proof cases
    case whole
    let ?s = "poly1305_mul (poly1305_add (push_bit 24 1) inp st)"
    have ne: "inp \<noteq> []" using whole by auto
    have v: "le_val (take 16 inp) + 2 ^ 104 * unat (push_bit 24 1 :: u32) = le_val (take 16 inp @ [1])"
      using whole by (simp add: le_val_append) (simp add: le_val_def)
    note b = poly1305_block [OF "1.prems" whole _ v]
    have m: "p_mult_ok ?s" "p_mult ?s = p_mult st" using b(2) "1.prems"(1) by (simp_all add: p_same_def)
    note IH = "1.IH"(1) [OF whole m(1) b(1)]
    have "poly_acc (p_mult st) (p_acc ?s) (drop 16 inp) mod poly_p = poly_acc (p_mult st) (p_acc st) inp mod poly_p"
      using b(3) ne poly_acc.simps [of "p_mult st" "p_acc st" inp]
      by (simp, intro poly_acc_mod) simp
    then show ?thesis using IH p_same_trans [OF b(2)] whole m(2) by (subst (1 2 3) poly1305_update.simps) simp
  next
    case part
    define mp where "mp = inp @ 1 # replicate (15 - length inp) 0"
    have l: "length mp = 16" using part by (simp add: mp_def)
    have v: "le_val (take 16 mp) + 2 ^ 104 * unat (0 :: u32) = le_val (take 16 inp @ [1])"
      using part l le_val_zeros [of "inp @ [1]" "15 - length inp"] by (simp add: mp_def)
    have "16 \<le> length mp" using l by simp
    note b = poly1305_block [OF "1.prems" this _ v]
    have "poly_acc (p_mult st) (p_acc st) inp = (p_acc st + le_val (take 16 inp @ [1])) * p_mult st mod poly_p"
      using part by (simp add: poly_acc.simps)
    then show ?thesis using part b by (subst (1 2 3) poly1305_update.simps) (simp add: Let_def mp_def [symmetric])
  qed (use "1.prems" in \<open>simp add: poly1305_update.simps poly_acc.simps p_same_def\<close>)
qed

text \<open>The state after the whole blocks \<open>a\<close>, and after a message with its rest in the buffer.\<close>

definition poly_core :: "byte list \<Rightarrow> byte list \<Rightarrow> poly1305_state \<Rightarrow> bool" where
  "poly_core key a st \<longleftrightarrow>
     p_mult_ok st \<and> p_mult st = poly_r key \<and> p_limbs_ok st \<and> p_key st = take 16 (drop 16 key) \<and> 16 dvd length a \<and>
     p_acc st mod poly_p = poly_acc (poly_r key) 0 a mod poly_p"

definition poly_seen :: "byte list \<Rightarrow> byte list \<Rightarrow> poly1305_state \<Rightarrow> bool" where
  "poly_seen key msg st \<longleftrightarrow>
     length (p_buf st) = 16 \<and> p_buf_used st < 16 \<and>
     (\<exists>a. msg = a @ take (p_buf_used st) (p_buf st) \<and> poly_core key a st)"

lemma core_buf [simp]:
  "poly_core key a (st\<lparr>p_buf := b\<rparr>) = poly_core key a st" "poly_core key a (st\<lparr>p_buf_used := n\<rparr>) = poly_core key a st"
  by (simp_all add: poly_core_def p_mult_ok_def p_mult_def p_limbs_ok_def p_acc_def)

lemma core_update:
  assumes "poly_core key a st" and "16 dvd length x"
  shows "poly_core key (a @ x) (poly1305_update st x)" and "p_buf (poly1305_update st x) = p_buf st"
    and "p_buf_used (poly1305_update st x) = p_buf_used st"
proof -
  have u: "p_limbs_ok (poly1305_update st x)" "p_same st (poly1305_update st x)"
    "p_acc (poly1305_update st x) mod poly_p = poly_acc (p_mult st) (p_acc st) x mod poly_p"
    using poly1305_update [of st x] assms(1) by (simp_all add: poly_core_def)
  show "p_buf (poly1305_update st x) = p_buf st" "p_buf_used (poly1305_update st x) = p_buf_used st"
    using u(2) by (simp_all add: p_same_def)
  have "poly_acc (poly_r key) (p_acc st) x mod poly_p = poly_acc (poly_r key) 0 (a @ x) mod poly_p"
    using assms poly_acc_mod [of "p_acc st" "poly_acc (poly_r key) 0 a"] by (simp add: poly_core_def poly_acc_append)
  then show "poly_core key (a @ x) (poly1305_update st x)" using assms u by (simp add: poly_core_def p_same_def)
qed

lemma poly_seen_init: "32 \<le> length key \<Longrightarrow> poly_seen key [] (CRYPTO_poly1305_init key)"
proof -
  assume k: "32 \<le> length key"
  have "poly_core key [] (CRYPTO_poly1305_init key)"
    using init_limbs [OF k]
    by (simp add: poly_core_def poly_acc.simps) (simp add: CRYPTO_poly1305_init_def Let_def p_limbs_ok_def p_acc_def)
  then show ?thesis by (auto simp: poly_seen_def) (simp_all add: CRYPTO_poly1305_init_def Let_def)
qed

text \<open>The three parts of an update: filling the buffer, whole blocks, keeping the rest.\<close>

definition poly_fill :: "poly1305_state \<Rightarrow> byte list \<Rightarrow> poly1305_state \<times> byte list" where
  "poly_fill st inp =
     (if p_buf_used st \<noteq> 0 then
        let todo = (if 16 - p_buf_used st > length inp then length inp else 16 - p_buf_used st);
            st = st\<lparr>p_buf := memcpy_at (p_buf st) (p_buf_used st) (take todo inp), p_buf_used := p_buf_used st + todo\<rparr>
        in if p_buf_used st = 16 then ((poly1305_update st (take 16 (p_buf st)))\<lparr>p_buf_used := 0\<rparr>, drop todo inp)
           else (st, drop todo inp)
      else (st, inp))"

lemma poly_fill:
  assumes "poly_seen key msg st"
  obtains st1 x inp' where "poly_fill st inp = (st1, inp')" "inp = x @ inp'" "poly_seen key (msg @ x) st1" "p_buf_used st1 = 0 \<or> inp' = []"
proof (cases "p_buf_used st = 0")
  case True
  then show ?thesis using assms by (intro that [of st inp "[]"]) (simp_all add: poly_fill_def)
next
  case False
  define n where "n = p_buf_used st"
  define todo where "todo = (if 16 - n > length inp then length inp else 16 - n)"
  obtain a where a: "msg = a @ take n (p_buf st)" "poly_core key a st" and lb: "length (p_buf st) = 16" "n < 16"
    using assms by (auto simp: poly_seen_def n_def)
  define buf where "buf = memcpy_at (p_buf st) n (take todo inp)"
  have lt: "length (take todo inp) = todo" "n + todo \<le> 16" using lb(2) by (auto simp: todo_def)
  then have lbuf: "length buf = 16" using lb by (simp add: buf_def)
  have tb: "take (n + todo) buf = take n (p_buf st) @ take todo inp" using lt lb by (simp add: buf_def memcpy_at_def)
  define s where "s = st\<lparr>p_buf := buf, p_buf_used := n + todo\<rparr>"
  have core: "poly_core key a s" using a(2) by (simp add: s_def)
  have inp: "inp = take todo inp @ drop todo inp" by simp
  have fill: "poly_fill st inp = (if n + todo = 16 then ((poly1305_update s (take 16 (p_buf s)))\<lparr>p_buf_used := 0\<rparr>, drop todo inp)
      else (s, drop todo inp))"
    using False unfolding poly_fill_def Let_def n_def [symmetric] todo_def [symmetric] buf_def [symmetric] s_def [symmetric]
    by (simp add: s_def)
  show ?thesis
  proof (cases "n + todo = 16")
    case True
    have b: "take 16 (p_buf s) = take n (p_buf st) @ take todo inp" using tb True by (simp add: s_def)
    have l: "length (take 16 (p_buf s)) = 16" using lbuf by (simp add: s_def)
    have "poly_core key (a @ take 16 (p_buf s)) (poly1305_update s (take 16 (p_buf s)))" using core l by (intro core_update) simp_all
    moreover have "p_buf (poly1305_update s (take 16 (p_buf s))) = buf" using core_update(2) [OF core, of "take 16 (p_buf s)"] l by (simp add: s_def)
    ultimately have "poly_seen key (msg @ take todo inp) ((poly1305_update s (take 16 (p_buf s)))\<lparr>p_buf_used := 0\<rparr>)"
      unfolding poly_seen_def using lbuf a(1) b by (intro conjI exI [of _ "a @ take 16 (p_buf s)"]) simp_all
    then show ?thesis using fill True inp by (intro that) auto
  next
    case False
    then have "drop todo inp = []" using lt(2) by (auto simp: todo_def split: if_splits)
    moreover have "poly_seen key (msg @ take todo inp) s"
      unfolding poly_seen_def using lbuf lt(2) False a(1) tb core by (intro conjI exI [of _ a]) (simp_all add: s_def)
    ultimately show ?thesis using fill False inp by (intro that) auto
  qed
qed

lemma poly_seen_blocks:
  assumes "poly_seen key msg st" and "p_buf_used st = 0" and "16 dvd length x"
  shows "poly_seen key (msg @ x) (poly1305_update st x)" and "p_buf_used (poly1305_update st x) = 0"
proof -
  have core: "poly_core key msg st" using assms(1,2) by (auto simp: poly_seen_def)
  note u = core_update [OF core assms(3)]
  show "p_buf_used (poly1305_update st x) = 0" using u(3) assms(2) by simp
  show "poly_seen key (msg @ x) (poly1305_update st x)" using u assms(1,2) by (auto simp: poly_seen_def)
qed

lemma poly_seen_rest:
  assumes "poly_seen key msg st" and "p_buf_used st = 0" and "length x < 16"
  shows "poly_seen key (msg @ x) (st\<lparr>p_buf := memcpy_at (p_buf st) 0 x, p_buf_used := length x\<rparr>)"
  unfolding poly_seen_def using assms
  by (intro conjI exI [of _ msg]) (auto simp: poly_seen_def memcpy_at_def)

lemma poly1305_update_fill:
  assumes "inp \<noteq> []"
  shows "CRYPTO_poly1305_update st inp =
    (case poly_fill st inp of (st1, i1) \<Rightarrow>
       let (st, inp) =
             (if length i1 \<ge> 16
              then (poly1305_update st1 (take (length i1 - length i1 mod 16) i1), drop (length i1 - length i1 mod 16) i1)
              else (st1, i1))
       in if inp \<noteq> [] then st\<lparr>p_buf := memcpy_at (p_buf st) 0 inp, p_buf_used := length inp\<rparr> else st)"
  unfolding CRYPTO_poly1305_update_def poly_fill_def Let_def if_not_P [OF assms] ..

lemma seen_poly1305_update:
  assumes "poly_seen key msg st"
  shows "poly_seen key (msg @ inp) (CRYPTO_poly1305_update st inp)"
proof (cases "inp = []")
  case False
  obtain st1 x i1 where f: "poly_fill st inp = (st1, i1)" "inp = x @ i1" "poly_seen key (msg @ x) st1" "p_buf_used st1 = 0 \<or> i1 = []"
    using poly_fill [OF assms] by blast
  define todo where "todo = length i1 - length i1 mod 16"
  have upd: "CRYPTO_poly1305_update st inp =
    (let (st, inp) = (if length i1 \<ge> 16 then (poly1305_update st1 (take todo i1), drop todo i1) else (st1, i1))
     in if inp \<noteq> [] then st\<lparr>p_buf := memcpy_at (p_buf st) 0 inp, p_buf_used := length inp\<rparr> else st)"
    using poly1305_update_fill [OF False, of st] unfolding f(1) prod.case todo_def .
  show ?thesis
  proof (cases "16 \<le> length i1")
    case True
    then have "p_buf_used st1 = 0" using f(4) by auto
    moreover have "16 dvd length (take todo i1)" by (simp add: todo_def)
    ultimately have s: "poly_seen key ((msg @ x) @ take todo i1) (poly1305_update st1 (take todo i1))"
      "p_buf_used (poly1305_update st1 (take todo i1)) = 0" using poly_seen_blocks f(3) by blast+
    have "length (drop todo i1) < 16" by (simp add: todo_def)
    from poly_seen_rest [OF s this] show ?thesis using upd True s(1) f(2) by (cases "drop todo i1 = []") simp_all
  next
    case False
    then show ?thesis using upd f poly_seen_rest [OF f(3), of i1] by (cases "i1 = []") simp_all
  qed
qed (use assms in \<open>simp add: CRYPTO_poly1305_update_def\<close>)

lemma seen_poly1305_updates:
  "poly_seen key msg st \<Longrightarrow> poly_seen key (msg @ concat xs) (foldl CRYPTO_poly1305_update st xs)"
proof (induction xs arbitrary: msg st)
  case (Cons x xs)
  then show ?case using Cons.IH [of "msg @ x"] seen_poly1305_update by fastforce
qed simp

text \<open>The accumulator that the final reduction starts with.\<close>

definition poly_last :: "poly1305_state \<Rightarrow> poly1305_state" where
  "poly_last st = (if p_buf_used st \<noteq> 0 then poly1305_update st (take (p_buf_used st) (p_buf st)) else st)"

lemma poly_last:
  assumes "poly_seen key msg st"
  shows "p_limbs_ok (poly_last st)" and "p_key (poly_last st) = take 16 (drop 16 key)"
    and "p_acc (poly_last st) mod poly_p = poly_acc (poly_r key) 0 msg mod poly_p"
proof -
  obtain a where a: "msg = a @ take (p_buf_used st) (p_buf st)" "poly_core key a st" using assms by (auto simp: poly_seen_def)
  let ?b = "take (p_buf_used st) (p_buf st)"
  have u: "p_limbs_ok (poly1305_update st ?b) \<and> p_same st (poly1305_update st ?b) \<and>
    p_acc (poly1305_update st ?b) mod poly_p = poly_acc (p_mult st) (p_acc st) ?b mod poly_p"
    using a(2) by (intro poly1305_update) (simp_all add: poly_core_def)
  have "poly_acc (poly_r key) (p_acc st) ?b mod poly_p = poly_acc (poly_r key) 0 msg mod poly_p"
    using a poly_acc_mod [of "p_acc st" "poly_acc (poly_r key) 0 a"] by (simp add: poly_core_def poly_acc_append)
  then show "p_acc (poly_last st) mod poly_p = poly_acc (poly_r key) 0 msg mod poly_p"
    using u a by (simp add: poly_last_def poly_core_def)
  show "p_limbs_ok (poly_last st)" "p_key (poly_last st) = take 16 (drop 16 key)"
    using u a(2) by (simp_all add: poly_last_def poly_core_def p_same_def)
qed

section \<open>The end of the computation\<close>

lemma poly1305_carry:
  assumes "p_limbs_ok st"
  shows "unat (p_h0 (poly1305_carry st)) < 2 ^ 26 + 5" and "unat (p_h1 (poly1305_carry st)) < 2 ^ 26"
    and "unat (p_h2 (poly1305_carry st)) < 2 ^ 26" and "unat (p_h3 (poly1305_carry st)) < 2 ^ 26"
    and "unat (p_h4 (poly1305_carry st)) < 2 ^ 26" and "p_key (poly1305_carry st) = p_key st"
    and "p_acc st < 2 ^ 130 \<Longrightarrow> p_acc (poly1305_carry st) = p_acc st \<and> unat (p_h0 (poly1305_carry st)) < 2 ^ 26"
    and "2 ^ 130 \<le> p_acc st \<Longrightarrow> p_acc st = p_acc (poly1305_carry st) + poly_p \<and> p_acc (poly1305_carry st) < poly_p \<and>
      unat (p_h0 (poly1305_carry st)) = p_acc st mod 2 ^ 26 + 5 \<and>
      (odd (unat (p_h1 (poly1305_carry st))) \<longleftrightarrow> odd (p_acc st div 2 ^ 26))"
proof -
  define h0 h1 h2 h3 h4 where hs: "h0 = unat (p_h0 st)" "h1 = unat (p_h1 st)" "h2 = unat (p_h2 st)" "h3 = unat (p_h3 st)" "h4 = unat (p_h4 st)"
  have h: "h0 < 42 * 2 ^ 26" "h1 < 2 ^ 26" "h2 < 2 ^ 26" "h3 < 2 ^ 26" "h4 < 2 ^ 26"
    using assms unfolding p_limbs_ok_def hs by blast+
  define u1 where "u1 = h1 + h0 div 2 ^ 26"
  define u2 where "u2 = h2 + u1 div 2 ^ 26"
  define u3 where "u3 = h3 + u2 div 2 ^ 26"
  define u4 where "u4 = h4 + u3 div 2 ^ 26"
  define b where "b = u4 div 2 ^ 26"
  have "h0 div 2 ^ 26 < 42" using h(1) by (simp add: less_mult_imp_div_less)
  then have u1: "u1 < 2 ^ 26 + 42" using h(2) by (simp add: u1_def)
  then have "u1 div 2 ^ 26 < 2" by (simp add: less_mult_imp_div_less)
  then have u2: "u2 < 2 ^ 26 + 2" using h(3) by (simp add: u2_def)
  then have "u2 div 2 ^ 26 < 2" by (simp add: less_mult_imp_div_less)
  then have u3: "u3 < 2 ^ 26 + 2" using h(4) by (simp add: u3_def)
  then have "u3 div 2 ^ 26 < 2" by (simp add: less_mult_imp_div_less)
  then have u4: "u4 < 2 ^ 26 + 2" using h(5) by (simp add: u4_def)
  then have b: "b < 2" by (simp add: b_def less_mult_imp_div_less)
  have W: "p_acc st = limbs (h0 mod 2 ^ 26) (u1 mod 2 ^ 26) (u2 mod 2 ^ 26) (u3 mod 2 ^ 26) (u4 mod 2 ^ 26) + 2 ^ 130 * b"
    unfolding p_acc_def hs [symmetric] b_def by (rule limb_carry [OF u1_def u2_def u3_def u4_def])
  define w1 where "w1 = p_h1 st + drop_bit 26 (p_h0 st)"
  define w2 where "w2 = p_h2 st + drop_bit 26 w1"
  define w3 where "w3 = p_h3 st + drop_bit 26 w2"
  define w4 where "w4 = p_h4 st + drop_bit 26 w3"
  have c: "poly1305_carry st = st\<lparr>p_h0 := (p_h0 st AND 0x3ffffff) + drop_bit 26 w4 * 5, p_h1 := w1 AND 0x3ffffff,
      p_h2 := w2 AND 0x3ffffff, p_h3 := w3 AND 0x3ffffff, p_h4 := w4 AND 0x3ffffff\<rparr>"
    unfolding poly1305_carry_def Let_def w1_def w2_def w3_def w4_def ..
  have add: "unat (x + y) = unat x + unat y" if "unat x + unat y < 2 ^ 32" for x y :: u32 using that by (simp add: unat_word_ariths)
  have w1: "unat w1 = u1" unfolding w1_def using u1 unfolding u1_def hs by (subst add) (simp_all add: unat_drop_bit)
  have w2: "unat w2 = u2" unfolding w2_def using u2 unfolding u2_def hs by (subst add) (simp_all add: unat_drop_bit w1)
  have w3: "unat w3 = u3" unfolding w3_def using u3 unfolding u3_def hs by (subst add) (simp_all add: unat_drop_bit w2)
  have w4: "unat w4 = u4" unfolding w4_def using u4 unfolding u4_def hs by (subst add) (simp_all add: unat_drop_bit w3)
  have b5: "unat (drop_bit 26 w4 * 5) = b * 5" using b by (simp add: unat_word_ariths unat_drop_bit w4 b_def)
  have lt: "x mod 2 ^ 26 < 2 ^ 26" for x :: nat by simp
  have n0: "unat (p_h0 (poly1305_carry st)) = h0 mod 2 ^ 26 + b * 5"
    unfolding c using b5 b lt [of h0] by (simp add: add and_26 hs)
  have n: "unat (p_h1 (poly1305_carry st)) = u1 mod 2 ^ 26" "unat (p_h2 (poly1305_carry st)) = u2 mod 2 ^ 26"
    "unat (p_h3 (poly1305_carry st)) = u3 mod 2 ^ 26" "unat (p_h4 (poly1305_carry st)) = u4 mod 2 ^ 26"
    unfolding c by (simp_all add: and_26 w1 w2 w3 w4)
  show "unat (p_h0 (poly1305_carry st)) < 2 ^ 26 + 5" using n0 b lt [of h0] by simp
  show "unat (p_h1 (poly1305_carry st)) < 2 ^ 26" "unat (p_h2 (poly1305_carry st)) < 2 ^ 26"
    "unat (p_h3 (poly1305_carry st)) < 2 ^ 26" "unat (p_h4 (poly1305_carry st)) < 2 ^ 26"
    unfolding n by (rule lt)+
  show "p_key (poly1305_carry st) = p_key st" unfolding c by simp
  define H where "H = limbs (h0 mod 2 ^ 26) (u1 mod 2 ^ 26) (u2 mod 2 ^ 26) (u3 mod 2 ^ 26) (u4 mod 2 ^ 26)"
  have acc: "p_acc (poly1305_carry st) = H + b * 5" unfolding p_acc_def n0 n H_def by simp
  have W': "p_acc st = H + 2 ^ 130 * b" unfolding W H_def ..
  have Hlt: "H < 2 ^ 130" unfolding H_def using lt [of h0] lt [of u1] lt [of u2] lt [of u3] lt [of u4] by simp
  show "p_acc (poly1305_carry st) = p_acc st \<and> unat (p_h0 (poly1305_carry st)) < 2 ^ 26" if "p_acc st < 2 ^ 130"
  proof -
    have "b = 0" using that W' by (cases b) simp_all
    then show ?thesis using acc W' n0 lt [of h0] by simp
  qed
  show "p_acc st = p_acc (poly1305_carry st) + poly_p \<and> p_acc (poly1305_carry st) < poly_p \<and>
      unat (p_h0 (poly1305_carry st)) = p_acc st mod 2 ^ 26 + 5 \<and>
      (odd (unat (p_h1 (poly1305_carry st))) \<longleftrightarrow> odd (p_acc st div 2 ^ 26))" if "2 ^ 130 \<le> p_acc st"
  proof -
    have b1: "b = 1" using that W' Hlt b by (cases "b = 0") auto
    have "p_acc st < 2 ^ 130 + 41 * 2 ^ 26" unfolding p_acc_def hs [symmetric] using h by simp
    then have "H < 41 * 2 ^ 26" using W' b1 by simp
    moreover define r where "r = u2 mod 2 ^ 26 * 2 ^ 25 + u3 mod 2 ^ 26 * 2 ^ 51 + u4 mod 2 ^ 26 * 2 ^ 77"
    have H: "H = h0 mod 2 ^ 26 + 2 ^ 26 * (u1 mod 2 ^ 26 + 2 * r)" unfolding H_def r_def by simp
    have md: "(a + 2 ^ 26 * x) mod 2 ^ 26 = a \<and> (a + 2 ^ 26 * x) div 2 ^ 26 = x" if "a < 2 ^ 26" for a x :: nat
      using that by simp
    have p: "p_acc st = h0 mod 2 ^ 26 + 2 ^ 26 * (u1 mod 2 ^ 26 + 2 * (r + 2 ^ 103))" unfolding W' H b1 by simp
    have "p_acc st mod 2 ^ 26 = h0 mod 2 ^ 26" "p_acc st div 2 ^ 26 = u1 mod 2 ^ 26 + 2 * (r + 2 ^ 103)"
      unfolding p using md [OF lt] by blast+
    ultimately show ?thesis using n0 n(1) acc W' b1 by (simp add: poly_p_def)
  qed
qed

lemma poly1305_select:
  assumes "unat (p_h0 st) < 2 ^ 26 + 5" and "unat (p_h1 st) < 2 ^ 26" and "unat (p_h2 st) < 2 ^ 26"
    and "unat (p_h3 st) < 2 ^ 26" and "unat (p_h4 st) < 2 ^ 26"
  shows "p_acc st < poly_p \<Longrightarrow> poly1305_select st = st"
    and "poly_p \<le> p_acc st \<Longrightarrow> p_acc (poly1305_select st) = p_acc st - poly_p \<and> unat (p_h0 (poly1305_select st)) < 2 ^ 26 \<and>
      unat (p_h1 (poly1305_select st)) < 2 ^ 26 \<and> unat (p_h2 (poly1305_select st)) < 2 ^ 26 \<and>
      unat (p_h3 (poly1305_select st)) < 2 ^ 26 \<and> unat (p_h4 (poly1305_select st)) < 2 ^ 26"
    and "p_key (poly1305_select st) = p_key st"
proof -
  define h0 h1 h2 h3 h4 where hs: "h0 = unat (p_h0 st)" "h1 = unat (p_h1 st)" "h2 = unat (p_h2 st)" "h3 = unat (p_h3 st)" "h4 = unat (p_h4 st)"
  note h = assms [folded hs]
  define u0 where "u0 = h0 + 5"
  define u1 where "u1 = h1 + u0 div 2 ^ 26"
  define u2 where "u2 = h2 + u1 div 2 ^ 26"
  define u3 where "u3 = h3 + u2 div 2 ^ 26"
  define u4 where "u4 = h4 + u3 div 2 ^ 26"
  have carry: "x < 2 ^ 26 + 10 \<Longrightarrow> x div 2 ^ 26 < 2" for x :: nat by (simp add: less_mult_imp_div_less)
  have u0: "u0 < 2 ^ 26 + 10" using h(1) by (simp add: u0_def)
  have u1: "u1 < 2 ^ 26 + 10" using h(2) carry [OF u0] by (simp add: u1_def)
  have u2: "u2 < 2 ^ 26 + 10" using h(3) carry [OF u1] by (simp add: u2_def)
  have u3: "u3 < 2 ^ 26 + 10" using h(4) carry [OF u2] by (simp add: u3_def)
  have u4: "u4 \<le> 2 ^ 26" using h(5) carry [OF u3] by (simp add: u4_def)
  have sum: "p_acc st + 5 = limbs (u0 mod 2 ^ 26) (u1 mod 2 ^ 26) (u2 mod 2 ^ 26) (u3 mod 2 ^ 26) (u4 mod 2 ^ 26) + 2 ^ 130 * (u4 div 2 ^ 26)"
  proof -
    have "p_acc st + 5 = limbs u0 h1 h2 h3 h4" unfolding p_acc_def hs [symmetric] u0_def by simp
    then show ?thesis unfolding limb_carry [OF u1_def u2_def u3_def u4_def] .
  qed
  define w0 where "w0 = p_h0 st + 5"
  define w1 where "w1 = p_h1 st + drop_bit 26 w0"
  define w2 where "w2 = p_h2 st + drop_bit 26 w1"
  define w3 where "w3 = p_h3 st + drop_bit 26 w2"
  define w4 where "w4 = p_h4 st + drop_bit 26 w3"
  define g4 where "g4 = w4 - push_bit 26 1"
  define b where "b = drop_bit 31 g4 - 1"
  have sel: "poly1305_select st = st\<lparr>p_h0 := (p_h0 st AND NOT b) OR ((w0 AND 0x3ffffff) AND b),
      p_h1 := (p_h1 st AND NOT b) OR ((w1 AND 0x3ffffff) AND b), p_h2 := (p_h2 st AND NOT b) OR ((w2 AND 0x3ffffff) AND b),
      p_h3 := (p_h3 st AND NOT b) OR ((w3 AND 0x3ffffff) AND b), p_h4 := (p_h4 st AND NOT b) OR (g4 AND b)\<rparr>"
    unfolding poly1305_select_def Let_def w0_def w1_def w2_def w3_def w4_def g4_def b_def ..
  have add: "unat (x + y) = unat x + unat y" if "unat x + unat y < 2 ^ 32" for x y :: u32 using that by (simp add: unat_word_ariths)
  have w0: "unat w0 = u0" unfolding w0_def using u0 unfolding u0_def hs by (subst add) simp_all
  have w1: "unat w1 = u1" unfolding w1_def using u1 unfolding u1_def hs by (subst add) (simp_all add: unat_drop_bit w0)
  have w2: "unat w2 = u2" unfolding w2_def using u2 unfolding u2_def hs by (subst add) (simp_all add: unat_drop_bit w1)
  have w3: "unat w3 = u3" unfolding w3_def using u3 unfolding u3_def hs by (subst add) (simp_all add: unat_drop_bit w2)
  have w4: "unat w4 = u4" unfolding w4_def using u4 unfolding u4_def hs by (subst add) (simp_all add: unat_drop_bit w3)
  have lt: "x mod 2 ^ 26 < 2 ^ 26" for x :: nat by simp
  have lo: "limbs (u0 mod 2 ^ 26) (u1 mod 2 ^ 26) (u2 mod 2 ^ 26) (u3 mod 2 ^ 26) (u4 mod 2 ^ 26) < 2 ^ 130"
    using lt [of u0] lt [of u1] lt [of u2] lt [of u3] lt [of u4] by simp
  show "p_key (poly1305_select st) = p_key st" unfolding sel by simp
  show "poly1305_select st = st" if "p_acc st < poly_p"
  proof -
    have "u4 div 2 ^ 26 = 0"
    proof (rule ccontr)
      assume "u4 div 2 ^ 26 \<noteq> 0"
      then have "2 ^ 130 * 1 \<le> 2 ^ 130 * (u4 div 2 ^ 26)" by (intro mult_le_mono2) simp
      then show False using sum that by (simp add: poly_p_def)
    qed
    then have "u4 < 2 ^ 26" by (simp add: div_eq_0_iff)
    then have "unat g4 = u4 + 2 ^ 32 - 2 ^ 26"
      unfolding g4_def using w4 unat_sub_if' [of w4 "push_bit 26 1"] by simp
    then have "unat (drop_bit 31 g4) = (u4 + 2 ^ 32 - 2 ^ 26) div 2 ^ 31" by (simp only: unat_drop_bit)
    also have "\<dots> = 1" using \<open>u4 < 2 ^ 26\<close> by (intro div_nat_eqI) simp_all
    finally have "drop_bit 31 g4 = 1" by (simp add: word_unat_eq_iff)
    then have "b = 0" by (simp add: b_def)
    then show ?thesis unfolding sel by simp
  qed
  show "p_acc (poly1305_select st) = p_acc st - poly_p \<and> unat (p_h0 (poly1305_select st)) < 2 ^ 26 \<and>
      unat (p_h1 (poly1305_select st)) < 2 ^ 26 \<and> unat (p_h2 (poly1305_select st)) < 2 ^ 26 \<and>
      unat (p_h3 (poly1305_select st)) < 2 ^ 26 \<and> unat (p_h4 (poly1305_select st)) < 2 ^ 26" if "poly_p \<le> p_acc st"
  proof -
    have "u4 div 2 ^ 26 \<noteq> 0" using sum lo that by (auto simp: poly_p_def)
    then have u: "u4 = 2 ^ 26" using u4 by (simp add: div_eq_0_iff)
    then have g0: "unat g4 = 0" unfolding g4_def using w4 unat_sub_if' [of w4 "push_bit 26 1"] by simp
    then have "g4 = 0" by (simp add: word_unat_eq_iff)
    then have b: "b = - 1" by (simp add: b_def)
    have n: "unat (p_h0 (poly1305_select st)) = u0 mod 2 ^ 26" "unat (p_h1 (poly1305_select st)) = u1 mod 2 ^ 26"
      "unat (p_h2 (poly1305_select st)) = u2 mod 2 ^ 26" "unat (p_h3 (poly1305_select st)) = u3 mod 2 ^ 26" "unat (p_h4 (poly1305_select st)) = 0"
      unfolding sel b by (simp_all add: and_26 w0 w1 w2 w3 g0)
    have "p_acc (poly1305_select st) + 2 ^ 130 = p_acc st + 5" unfolding sum unfolding p_acc_def n u by simp
    then have "p_acc (poly1305_select st) = p_acc st - poly_p" using that by (simp add: poly_p_def)
    then show ?thesis unfolding n by simp
  qed
qed

end
