(* ===== verification/Poly1305_Tag.thy ===== *)
theory Poly1305_Tag
  imports Poly1305_Props
begin

text \<open>
  The end of Poly1305: the tag that the four words give, the carry that the final reduction drops,
  and the properties of the whole computation.
\<close>

section \<open>The tag\<close>

lemma add_words_step:
  fixes V S c :: nat
  assumes "f = V mod 2 ^ 32 + S mod 2 ^ 32 + c"
  shows "V + S + c = (V div 2 ^ 32 + S div 2 ^ 32 + f div 2 ^ 32) * 2 ^ 32 + f mod 2 ^ 32"
proof -
  have lin: "V + S + c = (v + s + q) * 2 ^ 32 + r" if "V = 2 ^ 32 * v + v'" "S = 2 ^ 32 * s + s'" "v' + s' + c = 2 ^ 32 * q + r" for v v' s s' q r
    using that by (simp add: algebra_simps)
  show ?thesis by (rule lin [where v' = "V mod 2 ^ 32" and s' = "S mod 2 ^ 32"]) (simp_all add: assms)
qed

text \<open>Four words and their carries are the sum of two numbers.\<close>

lemma add_words_bytes:
  fixes V S :: nat
  assumes f: "f0 = V mod 2 ^ 32 + S mod 2 ^ 32" "f1 = V div 2 ^ 32 mod 2 ^ 32 + S div 2 ^ 32 mod 2 ^ 32 + f0 div 2 ^ 32"
    "f2 = V div 2 ^ 64 mod 2 ^ 32 + S div 2 ^ 64 mod 2 ^ 32 + f1 div 2 ^ 32"
    "f3 = V div 2 ^ 96 mod 2 ^ 32 + S div 2 ^ 96 mod 2 ^ 32 + f2 div 2 ^ 32"
    and m: "unat m0 = f0 mod 2 ^ 32" "unat m1 = f1 mod 2 ^ 32" "unat m2 = f2 mod 2 ^ 32" "unat m3 = f3 mod 2 ^ 32"
  shows "CRYPTO_store_u32_le m0 @ CRYPTO_store_u32_le m1 @ CRYPTO_store_u32_le m2 @ CRYPTO_store_u32_le m3 = rev (be_bytes 16 (V + S))"
proof -
  have d: "n div 2 ^ 32 div 2 ^ 32 = n div 2 ^ 64" "n div 2 ^ 64 div 2 ^ 32 = n div 2 ^ 96" for n :: nat by (simp_all flip: div_mult2_eq)
  let ?c = "\<lambda>k f. V div 2 ^ k + S div 2 ^ k + f div 2 ^ 32"
  have s0: "V + S = ?c 32 f0 * 2 ^ 32 + unat m0" using add_words_step [of f0 V S 0] f(1) m(1) by simp
  have s1: "?c 32 f0 = ?c 64 f1 * 2 ^ 32 + unat m1" using add_words_step [OF f(2)] unfolding d m(2) .
  have s2: "?c 64 f1 = ?c 96 f2 * 2 ^ 32 + unat m2" using add_words_step [OF f(3)] unfolding d m(3) .
  have s3: "?c 96 f2 = (V div 2 ^ 96 div 2 ^ 32 + S div 2 ^ 96 div 2 ^ 32 + f3 div 2 ^ 32) * 2 ^ 32 + unat m3"
    using add_words_step [OF f(4)] unfolding m(4) .
  have "be_bytes (12 + 4) (V + S) = be_bytes 12 (?c 32 f0) @ be_bytes 4 (unat m0)" by (rule be_bytes_split4 [OF s0])
  moreover have "be_bytes (8 + 4) (?c 32 f0) = be_bytes 8 (?c 64 f1) @ be_bytes 4 (unat m1)" by (rule be_bytes_split4 [OF s1])
  moreover have "be_bytes (4 + 4) (?c 64 f1) = be_bytes 4 (?c 96 f2) @ be_bytes 4 (unat m2)" by (rule be_bytes_split4 [OF s2])
  moreover have "be_bytes (0 + 4) (?c 96 f2) = be_bytes 4 (unat m3)" using be_bytes_split4 [OF s3, of 0] by simp
  ultimately show ?thesis by (simp add: store_u32_le)
qed

lemma or_limbs:
  assumes "unat (w :: u32) < 2 ^ k" and "k \<le> 32"
  shows "unat (w OR push_bit k y) = unat w + 2 ^ k * (unat y mod 2 ^ (32 - k))"
proof (rule bit_eqI)
  fix n
  have w: "\<not> bit (unat w) n" if "k \<le> n"
    using assms(1) that bit_split [of "unat w" k 0 n] by simp
  show "bit (unat (w OR push_bit k y)) n \<longleftrightarrow> bit (unat w + 2 ^ k * (unat y mod 2 ^ (32 - k))) n"
    unfolding bit_split [OF assms(1)] using w assms(2)
    by (auto simp: bit_simps bit_unsigned_iff simp flip: take_bit_eq_mod)
qed

lemma or_limbs_1: "unat ((w :: u32) OR 1) = (if odd (unat w) then unat w else unat w + 1)"
proof -
  have "unat (w OR 1) = unat w OR 1" unfolding unsigned_or_eq unsigned_1 ..
  then show ?thesis unfolding or_one_eq by simp
qed

lemma word_of_limbs:
  assumes "unat (x :: u32) < 2 ^ 26" and "k \<le> 26"
  shows "unat (drop_bit k x OR push_bit (26 - k) y) = (unat x + 2 ^ 26 * unat y) div 2 ^ k mod 2 ^ 32"
proof -
  have e: "(2 :: nat) ^ 26 = 2 ^ k * 2 ^ (26 - k)" "(2 :: nat) ^ 32 = 2 ^ (26 - k) * 2 ^ (6 + k)"
    using assms(2) by (simp_all flip: power_add)
  have q: "unat x div 2 ^ k < 2 ^ (26 - k)" using assms(1) unfolding e(1) by (simp add: less_mult_imp_div_less mult.commute)
  have "unat (drop_bit k x OR push_bit (26 - k) y) = unat x div 2 ^ k + 2 ^ (26 - k) * (unat y mod 2 ^ (6 + k))"
    using or_limbs [of "drop_bit k x" "26 - k" y] q assms(2) by (simp add: unat_drop_bit)
  moreover have "(unat x + 2 ^ 26 * unat y) div 2 ^ k = unat x div 2 ^ k + 2 ^ (26 - k) * unat y"
    unfolding e(1) by (simp add: mult.assoc)
  ultimately show ?thesis using q unfolding e(2) by (simp add: mod_mult2_eq)
qed

text \<open>The four words of the limbs are those of the number.\<close>

lemma words_of_limbs:
  fixes x0 x1 x2 x3 x4 :: nat
  assumes "x0 < 2 ^ 26" and "x1 < 2 ^ 26" and "x2 < 2 ^ 26" and "x3 < 2 ^ 26"
  shows "limbs x0 x1 x2 x3 x4 mod 2 ^ 32 = (x0 + 2 ^ 26 * x1) mod 2 ^ 32"
    and "limbs x0 x1 x2 x3 x4 div 2 ^ 32 mod 2 ^ 32 = (x1 + 2 ^ 26 * x2) div 2 ^ 6 mod 2 ^ 32"
    and "limbs x0 x1 x2 x3 x4 div 2 ^ 64 mod 2 ^ 32 = (x2 + 2 ^ 26 * x3) div 2 ^ 12 mod 2 ^ 32"
    and "limbs x0 x1 x2 x3 x4 div 2 ^ 96 mod 2 ^ 32 = (x3 + 2 ^ 26 * x4) div 2 ^ 18 mod 2 ^ 32"
proof -
  have m: "(a + 2 ^ (32 + k) * b) div 2 ^ k mod 2 ^ 32 = a div 2 ^ k mod 2 ^ 32" for a b k :: nat
  proof -
    have "(a + 2 ^ (32 + k) * b) div 2 ^ k = a div 2 ^ k + 2 ^ 32 * b" by (simp add: power_add mult.assoc mult.left_commute)
    then show ?thesis by simp
  qed
  have cut: "(a + 2 ^ j * (b + 2 ^ (32 + k) * c)) div 2 ^ n mod 2 ^ 32 = b div 2 ^ k mod 2 ^ 32" if "a < 2 ^ j" "n = j + k" for a b c j k n :: nat
    using that m [of b k c] by (simp add: power_add [of 2 j k] div_mult2_eq)
  have s: "limbs x0 x1 x2 x3 x4 = (x0 + 2 ^ 26 * x1) + 2 ^ (32 + 0) * (2 ^ 20 * x2 + 2 ^ 46 * x3 + 2 ^ 72 * x4)"
    "limbs x0 x1 x2 x3 x4 = x0 + 2 ^ 26 * ((x1 + 2 ^ 26 * x2) + 2 ^ (32 + 6) * (2 ^ 14 * x3 + 2 ^ 40 * x4))"
    "limbs x0 x1 x2 x3 x4 = (x0 + 2 ^ 26 * x1) + 2 ^ 52 * ((x2 + 2 ^ 26 * x3) + 2 ^ (32 + 12) * (2 ^ 8 * x4))"
    "limbs x0 x1 x2 x3 x4 = (x0 + 2 ^ 26 * (x1 + 2 ^ 26 * x2)) + 2 ^ 78 * ((x3 + 2 ^ 26 * x4) + 2 ^ (32 + 18) * 0)" by simp_all
  have b: "x0 + 2 ^ 26 * x1 < 2 ^ 52" "x0 + 2 ^ 26 * (x1 + 2 ^ 26 * x2) < 2 ^ 78" using assms by simp_all
  show "limbs x0 x1 x2 x3 x4 mod 2 ^ 32 = (x0 + 2 ^ 26 * x1) mod 2 ^ 32" unfolding s(1) using m [of "x0 + 2 ^ 26 * x1" 0]
    by (simp only: power_0 div_by_1)
  show "limbs x0 x1 x2 x3 x4 div 2 ^ 32 mod 2 ^ 32 = (x1 + 2 ^ 26 * x2) div 2 ^ 6 mod 2 ^ 32"
    unfolding s(2) by (rule cut [OF assms(1)]) simp
  show "limbs x0 x1 x2 x3 x4 div 2 ^ 64 mod 2 ^ 32 = (x2 + 2 ^ 26 * x3) div 2 ^ 12 mod 2 ^ 32"
    unfolding s(3) by (rule cut [OF b(1)]) simp
  show "limbs x0 x1 x2 x3 x4 div 2 ^ 96 mod 2 ^ 32 = (x3 + 2 ^ 26 * x4) div 2 ^ 18 mod 2 ^ 32"
    unfolding s(4) by (rule cut [OF b(2)]) simp
qed

lemma words_of_sum:
  fixes k0 k1 k2 k3 :: nat
  assumes "k0 < 2 ^ 32" and "k1 < 2 ^ 32" and "k2 < 2 ^ 32" and "k3 < 2 ^ 32"
  shows "(k0 + 2 ^ 32 * k1 + 2 ^ 64 * k2 + 2 ^ 96 * k3) mod 2 ^ 32 = k0"
    and "(k0 + 2 ^ 32 * k1 + 2 ^ 64 * k2 + 2 ^ 96 * k3) div 2 ^ 32 mod 2 ^ 32 = k1"
    and "(k0 + 2 ^ 32 * k1 + 2 ^ 64 * k2 + 2 ^ 96 * k3) div 2 ^ 64 mod 2 ^ 32 = k2"
    and "(k0 + 2 ^ 32 * k1 + 2 ^ 64 * k2 + 2 ^ 96 * k3) div 2 ^ 96 mod 2 ^ 32 = k3"
proof -
  have q: "(a + 2 ^ j * b) div 2 ^ j = b" if "a < 2 ^ j" for a b j :: nat using that by simp
  have r: "(a + 2 ^ 32 * b) mod 2 ^ 32 = a" if "a < 2 ^ 32" for a b :: nat using that by simp
  have s: "k0 + 2 ^ 32 * k1 + 2 ^ 64 * k2 + 2 ^ 96 * k3 = k0 + 2 ^ 32 * (k1 + 2 ^ 32 * (k2 + 2 ^ 32 * k3))"
    "k0 + 2 ^ 32 * k1 + 2 ^ 64 * k2 + 2 ^ 96 * k3 = (k0 + 2 ^ 32 * k1) + 2 ^ 64 * (k2 + 2 ^ 32 * k3)" by simp_all
  have b: "k0 + 2 ^ 32 * k1 < 2 ^ 64" "k0 + 2 ^ 32 * k1 + 2 ^ 64 * k2 < 2 ^ 96" using assms by simp_all
  show "(k0 + 2 ^ 32 * k1 + 2 ^ 64 * k2 + 2 ^ 96 * k3) mod 2 ^ 32 = k0" unfolding s(1) by (rule r [OF assms(1)])
  show "(k0 + 2 ^ 32 * k1 + 2 ^ 64 * k2 + 2 ^ 96 * k3) div 2 ^ 32 mod 2 ^ 32 = k1"
    unfolding s(1) q [OF assms(1)] by (rule r [OF assms(2)])
  show "(k0 + 2 ^ 32 * k1 + 2 ^ 64 * k2 + 2 ^ 96 * k3) div 2 ^ 64 mod 2 ^ 32 = k2"
    unfolding s(2) q [OF b(1)] by (rule r [OF assms(3)])
  show "(k0 + 2 ^ 32 * k1 + 2 ^ 64 * k2 + 2 ^ 96 * k3) div 2 ^ 96 mod 2 ^ 32 = k3"
    unfolding q [OF b(2)] using assms(4) by simp
qed

lemma unat_word_carry: "unat (ucast (v :: u32) + (ucast (k :: u32) :: u64) + drop_bit 32 f) = unat v + unat k + unat f div 2 ^ 32"
proof -
  have "unat f < 2 ^ 32 * 2 ^ 32" using unat_u64_lt [of f] by simp
  then have "unat f div 2 ^ 32 < 2 ^ 32" by (rule less_mult_imp_div_less [of _ "2 ^ 32", unfolded mult.commute [of "2 ^ 32"]])
  then show ?thesis using u32_lt [of v] u32_lt [of k]
    by (subst unat_sum2; (subst unat_sum2)?) (simp_all add: unat_drop_bit)
qed

text \<open>Limbs without an overflow give the tag of their number.\<close>

lemma poly1305_tag:
  assumes "unat (p_h0 st) < 2 ^ 26" and "unat (p_h1 st) < 2 ^ 26" and "unat (p_h2 st) < 2 ^ 26"
    and "unat (p_h3 st) < 2 ^ 26" and "length (p_key st) = 16"
  shows "poly1305_tag st = rev (be_bytes 16 (p_acc st + le_val (p_key st)))"
proof -
  define V S where VS: "V = p_acc st" "S = le_val (p_key st)"
  define k0 k1 k2 k3 where ks: "k0 = CRYPTO_load_u32_le (p_key st)" "k1 = CRYPTO_load_u32_le (drop 4 (p_key st))"
    "k2 = CRYPTO_load_u32_le (drop 8 (p_key st))" "k3 = CRYPTO_load_u32_le (drop 12 (p_key st))"
  define v0 v1 v2 v3 where vs: "v0 = p_h0 st OR push_bit 26 (p_h1 st)" "v1 = drop_bit 6 (p_h1 st) OR push_bit 20 (p_h2 st)"
    "v2 = drop_bit 12 (p_h2 st) OR push_bit 14 (p_h3 st)" "v3 = drop_bit 18 (p_h3 st) OR push_bit 8 (p_h4 st)"
  have v: "unat v0 = V mod 2 ^ 32" "unat v1 = V div 2 ^ 32 mod 2 ^ 32" "unat v2 = V div 2 ^ 64 mod 2 ^ 32" "unat v3 = V div 2 ^ 96 mod 2 ^ 32"
    unfolding VS p_acc_def words_of_limbs [OF assms(1-4)] vs
    using word_of_limbs [OF assms(1), of 0 "p_h1 st"] word_of_limbs [OF assms(2), of 6 "p_h2 st"]
      word_of_limbs [OF assms(3), of 12 "p_h3 st"] word_of_limbs [OF assms(4), of 18 "p_h4 st"] by simp_all
  have S: "S = unat k0 + 2 ^ 32 * unat k1 + 2 ^ 64 * unat k2 + 2 ^ 96 * unat k3"
    using load_words_16 [of "p_key st"] assms(5) unfolding VS ks by simp
  have k: "unat k0 = S mod 2 ^ 32" "unat k1 = S div 2 ^ 32 mod 2 ^ 32" "unat k2 = S div 2 ^ 64 mod 2 ^ 32" "unat k3 = S div 2 ^ 96 mod 2 ^ 32"
    unfolding S using words_of_sum [OF u32_lt u32_lt u32_lt u32_lt, of k0 k1 k2 k3] by simp_all
  define f0 where "f0 = ucast v0 + (ucast k0 :: u64)"
  define f1 where "f1 = ucast v1 + (ucast k1 :: u64) + drop_bit 32 f0"
  define f2 where "f2 = ucast v2 + (ucast k2 :: u64) + drop_bit 32 f1"
  define f3 where "f3 = ucast v3 + (ucast k3 :: u64) + drop_bit 32 f2"
  have tag: "poly1305_tag st = CRYPTO_store_u32_le (ucast f0) @ CRYPTO_store_u32_le (ucast f1) @ CRYPTO_store_u32_le (ucast f2) @ CRYPTO_store_u32_le (ucast f3)"
    unfolding poly1305_tag_def Let_def f0_def f1_def f2_def f3_def vs ks ..
  have f0: "unat f0 = V mod 2 ^ 32 + S mod 2 ^ 32"
    unfolding f0_def v(1) [symmetric] k(1) [symmetric] using u32_lt [of v0] u32_lt [of k0] by (subst unat_sum2) simp_all
  have f1: "unat f1 = V div 2 ^ 32 mod 2 ^ 32 + S div 2 ^ 32 mod 2 ^ 32 + unat f0 div 2 ^ 32"
    unfolding f1_def v(2) [symmetric] k(2) [symmetric] by (rule unat_word_carry)
  have f2: "unat f2 = V div 2 ^ 64 mod 2 ^ 32 + S div 2 ^ 64 mod 2 ^ 32 + unat f1 div 2 ^ 32"
    unfolding f2_def v(3) [symmetric] k(3) [symmetric] by (rule unat_word_carry)
  have f3: "unat f3 = V div 2 ^ 96 mod 2 ^ 32 + S div 2 ^ 96 mod 2 ^ 32 + unat f2 div 2 ^ 32"
    unfolding f3_def v(4) [symmetric] k(4) [symmetric] by (rule unat_word_carry)
  have m: "unat (ucast (f :: u64) :: u32) = unat f mod 2 ^ 32" for f by (simp add: unat_ucast_mod)
  show ?thesis unfolding tag VS [symmetric] by (rule add_words_bytes [OF f0 f1 f2 f3 m m m m])
qed

section \<open>The carry that is dropped\<close>

text \<open>
  The carry of the last limb is added to the first one, times five, and is not passed on: the tag
  joins the limbs with OR, so that a first limb of more than 26 bits sets the lowest bit of the second.
\<close>

lemma poly1305_tag_carry:
  assumes "2 ^ 26 \<le> unat (p_h0 st)" and "unat (p_h0 st) < 2 ^ 26 + 5"
  shows "poly1305_tag st = poly1305_tag (st\<lparr>p_h0 := p_h0 st - 0x4000000, p_h1 := p_h1 st OR 1\<rparr>)"
    and "unat (p_h0 st - 0x4000000) = unat (p_h0 st) - 2 ^ 26" and "unat (p_h1 st OR 1) = (if odd (unat (p_h1 st)) then unat (p_h1 st) else unat (p_h1 st) + 1)"
proof -
  define j where "j = unat (p_h0 st) - 2 ^ 26"
  have j: "j < 2 ^ 26" "unat (p_h0 st) = j + 2 ^ 26 * 1" using assms by (simp_all add: j_def)
  show h0: "unat (p_h0 st - 0x4000000) = unat (p_h0 st) - 2 ^ 26" using assms by (simp add: unat_sub_if')
  have bu: "bit w n \<longleftrightarrow> bit (unat w) n" for w :: u32 and n by (auto simp: bit_unsigned_iff dest: bit_imp_le_length)
  have b: "bit (p_h0 st) n \<longleftrightarrow> (if n < 26 then bit j n else n = 26)" for n
    using bit_split [OF j(1), of 1 n] unfolding bu j(2) bit_1_iff by simp
  have c: "bit (p_h0 st - 0x4000000) n \<longleftrightarrow> n < 26 \<and> bit j n" for n
    using bit_split [OF j(1), of 0 n] unfolding bu h0 j_def [symmetric] by (simp split: if_splits)
  have "p_h0 st OR push_bit 26 (p_h1 st) = (p_h0 st - 0x4000000) OR push_bit 26 (p_h1 st OR 1)"
    by (rule bit_word_eqI) (unfold bit_or_iff bit_push_bit_iff bit_1_iff b c, auto)
  moreover have "drop_bit 6 (p_h1 st OR 1) = drop_bit 6 (p_h1 st)"
    by (rule bit_word_eqI) (simp add: bit_drop_bit_eq bit_or_iff bit_1_iff)
  ultimately show "poly1305_tag st = poly1305_tag (st\<lparr>p_h0 := p_h0 st - 0x4000000, p_h1 := p_h1 st OR 1\<rparr>)"
    unfolding poly1305_tag_def by simp
  show "unat (p_h1 st OR 1) = (if odd (unat (p_h1 st)) then unat (p_h1 st) else unat (p_h1 st) + 1)"
    using or_limbs_1 [of "p_h1 st"] .
qed

text \<open>The accumulators whose tag misses \<open>2 ^ 26\<close>.\<close>

definition poly_lost_carry :: "poly1305_state \<Rightarrow> bool" where
  "poly_lost_carry st \<longleftrightarrow>
     2 ^ 130 \<le> p_acc (poly_last st) \<and> 2 ^ 26 \<le> p_acc (poly_last st) mod 2 ^ 26 + 5 \<and> odd (p_acc (poly_last st) div 2 ^ 26)"

lemma poly_acc_lt: "a < poly_p \<Longrightarrow> poly_acc r a msg < poly_p"
proof (induction r a msg rule: poly_acc.induct)
  case (1 r a msg)
  then show ?case by (subst poly_acc.simps) (simp add: poly_p_def)
qed

lemma poly1305_finish:
  assumes "poly_seen key msg st" and "32 \<le> length key"
  shows "CRYPTO_poly1305_finish st = rev (be_bytes 16 ((if poly_lost_carry st then poly_acc (poly_r key) 0 msg - 2 ^ 26
    else poly_acc (poly_r key) 0 msg) + le_val (take 16 (drop 16 key))))"
proof -
  define W where "W = p_acc (poly_last st)"
  define A where "A = poly_acc (poly_r key) 0 msg"
  define c where "c = poly1305_carry (poly_last st)"
  note last = poly_last [OF assms(1)]
  note cs = poly1305_carry [OF last(1), folded c_def W_def]
  note sel = poly1305_select [OF cs(1-5)]
  have Alt: "A < poly_p" unfolding A_def by (rule poly_acc_lt) (simp add: poly_p_def)
  then have A: "W mod poly_p = A" using last(3) unfolding W_def A_def by simp
  have key: "p_key c = take 16 (drop 16 key)" "length (take 16 (drop 16 key)) = 16" using cs(6) last(2) assms(2) by simp_all
  have fin: "CRYPTO_poly1305_finish st = poly1305_tag (poly1305_select c)"
    unfolding CRYPTO_poly1305_finish_def poly_last_def c_def Let_def ..
  show ?thesis
  proof (cases "W < 2 ^ 130")
    case True
    then have acc: "p_acc c = W" "unat (p_h0 c) < 2 ^ 26" using cs(7) by blast+
    have n: "\<not> poly_lost_carry st" using True by (simp add: poly_lost_carry_def W_def)
    show ?thesis
    proof (cases "W < poly_p")
      case True
      then have "poly1305_select c = c" using sel(1) acc(1) by simp
      moreover have "A = W" using A True by simp
      ultimately show ?thesis using poly1305_tag [OF acc(2) cs(2-4)] key acc(1) fin n by (simp add: A_def)
    next
      case False
      then have s: "p_acc (poly1305_select c) = W - poly_p \<and> unat (p_h0 (poly1305_select c)) < 2 ^ 26 \<and>
        unat (p_h1 (poly1305_select c)) < 2 ^ 26 \<and> unat (p_h2 (poly1305_select c)) < 2 ^ 26 \<and>
        unat (p_h3 (poly1305_select c)) < 2 ^ 26 \<and> unat (p_h4 (poly1305_select c)) < 2 ^ 26" using sel(2) acc(1) by simp
      have "W - poly_p < poly_p" using \<open>W < 2 ^ 130\<close> by (simp add: poly_p_def)
      then have "A = W - poly_p" using A False by (simp add: mod_if)
      then show ?thesis using poly1305_tag [of "poly1305_select c"] s key sel(3) fin n by (simp add: A_def)
    qed
  next
    case False
    then have acc: "W = p_acc c + poly_p" "p_acc c < poly_p" "unat (p_h0 c) = W mod 2 ^ 26 + 5"
      "odd (unat (p_h1 c)) \<longleftrightarrow> odd (W div 2 ^ 26)" using cs(8) by (simp_all add: not_less)
    have sc: "poly1305_select c = c" using sel(1) acc(2) .
    have Ac: "A = p_acc c" using A acc(1,2) by simp
    have lost: "poly_lost_carry st \<longleftrightarrow> 2 ^ 26 \<le> unat (p_h0 c) \<and> odd (unat (p_h1 c))"
      using False unfolding acc(3,4) by (simp add: poly_lost_carry_def W_def)
    show ?thesis
    proof (cases "2 ^ 26 \<le> unat (p_h0 c)")
      case False
      then show ?thesis using poly1305_tag [of c] cs(2-4) key fin sc lost Ac by (simp add: A_def)
    next
      case True
      note t = poly1305_tag_carry [OF True cs(1)]
      let ?c = "c\<lparr>p_h0 := p_h0 c - 0x4000000, p_h1 := p_h1 c OR 1\<rparr>"
      have "unat (p_h1 c OR 1) < 2 ^ 26"
        unfolding t(3) using cs(2) by (cases "unat (p_h1 c) = 2 ^ 26 - 1") simp_all
      then have "poly1305_tag ?c = rev (be_bytes 16 (p_acc ?c + le_val (p_key ?c)))"
        using poly1305_tag [of ?c] t(2) cs(1-4) key by simp
      moreover have "p_acc ?c = (if odd (unat (p_h1 c)) then p_acc c - 2 ^ 26 else p_acc c)"
        using t(2,3) True by (simp add: p_acc_def)
      ultimately show ?thesis using fin sc t(1) lost Ac True key(1) by (simp add: A_def)
    qed
  qed
qed

section \<open>Properties\<close>

text \<open>
  C15. The Poly1305 of the library on any message, cut into pieces in any way, against RFC 8439:
  init, update for each piece and finish give the tag of the standard for the whole message, except
  when the final accumulator is at least \<open>2 ^ 130\<close>, its lowest limb is at least
  \<open>2 ^ 26 - 5\<close> and its second limb is odd; then the tag is that of an accumulator smaller by
  \<open>2 ^ 26\<close>.
\<close>

theorem poly1305_mac:
  assumes "32 \<le> length key"
  shows "CRYPTO_poly1305_finish (foldl CRYPTO_poly1305_update (CRYPTO_poly1305_init key) xs) =
    (if poly_lost_carry (foldl CRYPTO_poly1305_update (CRYPTO_poly1305_init key) xs)
     then rev (be_bytes 16 (poly_acc (poly_r key) 0 (concat xs) - 2 ^ 26 + le_val (take 16 (drop 16 key))))
     else rfc_poly1305 key (concat xs))"
proof -
  have "poly_seen key (concat xs) (foldl CRYPTO_poly1305_update (CRYPTO_poly1305_init key) xs)"
    using seen_poly1305_updates [OF poly_seen_init [OF assms], of xs] by simp
  from poly1305_finish [OF this assms] show ?thesis by (simp add: rfc_poly1305_def)
qed

text \<open>The key of the example of RFC 8439, section 2.5.2, and the first 17 bytes of its message in two pieces.\<close>

definition poly_key_ex :: "byte list" where
  "poly_key_ex = [0x85, 0xd6, 0xbe, 0x78, 0x57, 0x55, 0x6d, 0x33, 0x7f, 0x44, 0x52, 0xfe, 0x42, 0xd5, 0x06, 0xa8,
     0x01, 0x03, 0x80, 0x8a, 0xfb, 0x0d, 0xb2, 0xfd, 0x4a, 0xbf, 0xf6, 0xaf, 0x41, 0x49, 0xf5, 0x1b]"

definition poly_msg_ex :: "byte list list" where
  "poly_msg_ex = [[0x43, 0x72, 0x79, 0x70, 0x74], [0x6f, 0x67, 0x72, 0x61, 0x70, 0x68, 0x69, 0x63, 0x20, 0x46, 0x6f, 0x72]]"

lemmas poly_eval = poly_acc.simps poly_p_def poly_r_def le_val_def be_val_def

lemma be_bytes_numeral: "be_bytes (numeral k) n = be_bytes (pred_numeral k) (n div 256) @ [byte_of n]"
  by (subst numeral_eq_Suc) (simp only: be_bytes.simps)

lemma poly1305_mac_witness:
  "CRYPTO_poly1305_finish (foldl CRYPTO_poly1305_update (CRYPTO_poly1305_init poly_key_ex) poly_msg_ex) =
    [0xcf, 0x08, 0xde, 0x73, 0x99, 0xe4, 0x49, 0x23, 0xfc, 0x2b, 0x56, 0x8d, 0xeb, 0xef, 0x0e, 0xec]"
proof -
  let ?st = "poly_last (foldl CRYPTO_poly1305_update (CRYPTO_poly1305_init poly_key_ex) poly_msg_ex)"
  have "p_h4 ?st < 0x3000000" by code_simp
  then have "p_acc ?st < 2 ^ 130" 
    using u32_lt [of "p_h0 ?st"] u32_lt [of "p_h1 ?st"] u32_lt [of "p_h2 ?st"] u32_lt [of "p_h3 ?st"]
    by (simp add: p_acc_def word_less_nat_alt)
  then have "\<not> poly_lost_carry (foldl CRYPTO_poly1305_update (CRYPTO_poly1305_init poly_key_ex) poly_msg_ex)"
    by (simp add: poly_lost_carry_def)
  moreover have "rfc_poly1305 poly_key_ex (concat poly_msg_ex) =
    [0xcf, 0x08, 0xde, 0x73, 0x99, 0xe4, 0x49, 0x23, 0xfc, 0x2b, 0x56, 0x8d, 0xeb, 0xef, 0x0e, 0xec]"
    by (simp add: rfc_poly1305_def poly_eval be_bytes_numeral byte_of_def poly_key_ex_def poly_msg_ex_def)
  moreover have "32 \<le> length poly_key_ex" by (simp add: poly_key_ex_def)
  ultimately show ?thesis using poly1305_mac [of poly_key_ex poly_msg_ex] by simp
qed

text \<open>
  C16. The delayed carries never overflow: after any number of updates the first limb is below
  \<open>42 * 2 ^ 26\<close> and the others are below \<open>2 ^ 26\<close>, the buffer is never full between two
  calls, and the limbs with the buffered bytes stand for the accumulator of the standard modulo
  \<open>2 ^ 130 - 5\<close>.
\<close>

theorem poly1305_limbs:
  fixes key :: "byte list" and xs :: "byte list list"
  defines "st \<equiv> foldl CRYPTO_poly1305_update (CRYPTO_poly1305_init key) xs"
  assumes "32 \<le> length key"
  shows "unat (p_h0 st) < 42 * 2 ^ 26 \<and> unat (p_h1 st) < 2 ^ 26 \<and> unat (p_h2 st) < 2 ^ 26 \<and> unat (p_h3 st) < 2 ^ 26 \<and>
    unat (p_h4 st) < 2 ^ 26 \<and> p_buf_used st < 16 \<and> length (p_buf st) = 16 \<and> p_key st = take 16 (drop 16 key) \<and>
    poly_acc (poly_r key) (p_acc st) (take (p_buf_used st) (p_buf st)) mod poly_p = poly_acc (poly_r key) 0 (concat xs) mod poly_p"
proof -
  have "poly_seen key (concat xs) st"
    using seen_poly1305_updates [OF poly_seen_init [OF assms(2)], of xs] by (simp add: st_def)
  then obtain a where a: "concat xs = a @ take (p_buf_used st) (p_buf st)" "poly_core key a st" "p_buf_used st < 16" "length (p_buf st) = 16"
    by (auto simp: poly_seen_def)
  have "poly_acc (poly_r key) (p_acc st) (take (p_buf_used st) (p_buf st)) mod poly_p = poly_acc (poly_r key) 0 (concat xs) mod poly_p"
    using a poly_acc_mod [of "p_acc st" "poly_acc (poly_r key) 0 a"] by (simp add: poly_core_def poly_acc_append)
  then show ?thesis using a(2-4) by (simp add: poly_core_def p_limbs_ok_def)
qed

lemma poly1305_limbs_witness:
  "unat (p_h4 (foldl CRYPTO_poly1305_update (CRYPTO_poly1305_init poly_key_ex) poly_msg_ex)) < 2 ^ 26 \<and>
   p_buf_used (foldl CRYPTO_poly1305_update (CRYPTO_poly1305_init poly_key_ex) poly_msg_ex) < 16"
  using poly1305_limbs [of poly_key_ex poly_msg_ex] by (simp add: poly_key_ex_def)

text \<open>A key with a zero second half and a block whose accumulator loses its carry.\<close>

definition poly_key_bad :: "byte list" where
  "poly_key_bad = [0x3e, 0xa6, 0x1e, 0x5b, 0x9c, 0x6f, 0x41, 0x8f, 0x1d, 0x6f, 0x4b, 0xf2, 0x82, 0xa8, 0x09, 0x96,
     0, 0, 0, 0, 0, 0, 0, 0, 0, 0, 0, 0, 0, 0, 0, 0]"

definition poly_msg_bad :: "byte list" where
  "poly_msg_bad = [0xd9, 0x2c, 0x46, 0x2f, 0x8e, 0x8e, 0x2e, 0xf6, 0x52, 0x56, 0x28, 0x85, 0xc6, 0x77, 0xea, 0x0e]"

text \<open>
  The dropped carry shows: for this key and one block the library's tag differs from the tag
  of RFC 8439 in bit 26.
\<close>

theorem poly1305_dropped_carry:
  "CRYPTO_poly1305_finish (CRYPTO_poly1305_update (CRYPTO_poly1305_init poly_key_bad) poly_msg_bad) =
     [0x03, 0, 0, 0x0c, 0, 0, 0, 0, 0, 0, 0, 0, 0, 0, 0, 0] \<and>
   rfc_poly1305 poly_key_bad poly_msg_bad = [0x03, 0, 0, 0x10, 0, 0, 0, 0, 0, 0, 0, 0, 0, 0, 0, 0]"
proof
  show "CRYPTO_poly1305_finish (CRYPTO_poly1305_update (CRYPTO_poly1305_init poly_key_bad) poly_msg_bad) =
     [0x03, 0, 0, 0x0c, 0, 0, 0, 0, 0, 0, 0, 0, 0, 0, 0, 0]" by code_simp
  show "rfc_poly1305 poly_key_bad poly_msg_bad = [0x03, 0, 0, 0x10, 0, 0, 0, 0, 0, 0, 0, 0, 0, 0, 0, 0]"
    by (simp add: rfc_poly1305_def poly_eval be_bytes_numeral byte_of_def poly_key_bad_def poly_msg_bad_def)
qed

end
