(* ===== verification/Chacha.thy ===== *)
theory Chacha
  imports Sha256
begin

text \<open>
  ChaCha20 and HChaCha20 (crypto/chacha/chacha.c), in the version without assembly, and the key
  stream of RFC 8439. Words lie in memory in little-endian order, on which \<open>CRYPTO_hchacha20\<close> relies.
\<close>

section \<open>The code\<close>

definition sigma :: "byte list" where
  "sigma = [0x65, 0x78, 0x70, 0x61, 0x6e, 0x64, 0x20, 0x33, 0x32, 0x2d, 0x62, 0x79, 0x74, 0x65, 0x20, 0x6b]"

text \<open>The macro works on four places of an array of words.\<close>

definition QUARTERROUND :: "nat \<Rightarrow> nat \<Rightarrow> nat \<Rightarrow> nat \<Rightarrow> u32 list \<Rightarrow> u32 list" where
  "QUARTERROUND a b c d x =
     (let x = x[a := x ! a + x ! b];
          x = x[d := CRYPTO_rotl_u32 (x ! d XOR x ! a) 16];
          x = x[c := x ! c + x ! d];
          x = x[b := CRYPTO_rotl_u32 (x ! b XOR x ! c) 12];
          x = x[a := x ! a + x ! b];
          x = x[d := CRYPTO_rotl_u32 (x ! d XOR x ! a) 8];
          x = x[c := x ! c + x ! d];
          x = x[b := CRYPTO_rotl_u32 (x ! b XOR x ! c) 7]
      in x)"

definition chacha_rounds2 :: "u32 list \<Rightarrow> u32 list" where
  "chacha_rounds2 x =
     (let x = QUARTERROUND 0 4 8 12 x;
          x = QUARTERROUND 1 5 9 13 x;
          x = QUARTERROUND 2 6 10 14 x;
          x = QUARTERROUND 3 7 11 15 x;
          x = QUARTERROUND 0 5 10 15 x;
          x = QUARTERROUND 1 6 11 12 x;
          x = QUARTERROUND 2 7 8 13 x;
          x = QUARTERROUND 3 4 9 14 x
      in x)"

text \<open>Words read from memory one after the other.\<close>

definition load_words :: "nat \<Rightarrow> byte list \<Rightarrow> u32 list" where
  "load_words n bs = map (\<lambda>i. CRYPTO_load_u32_le (drop (4 * i) bs)) [0..<n]"

definition store_words :: "u32 list \<Rightarrow> byte list" where
  "store_words ws = concat (map CRYPTO_store_u32_le ws)"

definition CRYPTO_hchacha20 :: "byte list \<Rightarrow> byte list \<Rightarrow> byte list" where
  "CRYPTO_hchacha20 key nonce =
     (let x = load_words 4 sigma @ load_words 8 key @ load_words 4 nonce;
          x = (chacha_rounds2 ^^ 10) x
      in store_words (take 4 x) @ store_words (take 4 (drop 12 x)))"

definition chacha_core :: "u32 list \<Rightarrow> byte list" where
  "chacha_core inp =
     (let x = (chacha_rounds2 ^^ 10) inp;
          x = map (\<lambda>i. x ! i + inp ! i) [0..<16]
      in store_words x)"

function chacha_loop :: "u32 list \<Rightarrow> byte list \<Rightarrow> byte list" where
  "chacha_loop input inp =
     (if inp = [] then []
      else
        let todo = (if length inp < 64 then length inp else 64);
            buf = chacha_core input
        in map2 (XOR) (take todo inp) (take todo buf) @ chacha_loop (input[12 := input ! 12 + 1]) (drop todo inp))"
  by pat_completeness auto
termination chacha_loop
  by (relation "measure (\<lambda>(input, inp). length inp)") auto

declare chacha_loop.simps [simp del]

definition CRYPTO_chacha_20 :: "byte list \<Rightarrow> byte list \<Rightarrow> byte list \<Rightarrow> u32 \<Rightarrow> byte list" where
  "CRYPTO_chacha_20 inp key nonce counter =
     chacha_loop (load_words 4 sigma @ load_words 8 key @ [counter] @ load_words 3 nonce) inp"

section \<open>The standard\<close>

text \<open>
  RFC 8439, section 2.3, on the four rows of the state: a column round is a quarter round on the
  rows, place by place, and a diagonal round is the same on rows that are rotated against each other.
\<close>

type_synonym row = "u32 \<times> u32 \<times> u32 \<times> u32"

definition quarter :: "u32 \<times> u32 \<times> u32 \<times> u32 \<Rightarrow> u32 \<times> u32 \<times> u32 \<times> u32" where
  "quarter = (\<lambda>(a, b, c, d).
     let a = a + b; d = word_rotl 16 (d XOR a);
         c = c + d; b = word_rotl 12 (b XOR c);
         a = a + b; d = word_rotl 8 (d XOR a);
         c = c + d; b = word_rotl 7 (b XOR c)
     in (a, b, c, d))"

definition column_round :: "u32 list list \<Rightarrow> u32 list list" where
  "column_round rows =
     (let qs = map (\<lambda>i. quarter (rows ! 0 ! i, rows ! 1 ! i, rows ! 2 ! i, rows ! 3 ! i)) [0..<4]
      in [map fst qs, map (fst \<circ> snd) qs, map (fst \<circ> snd \<circ> snd) qs, map (snd \<circ> snd \<circ> snd) qs])"

definition diagonal_round :: "u32 list list \<Rightarrow> u32 list list" where
  "diagonal_round rows =
     map (\<lambda>i. rotate (4 - i) (column_round (map (\<lambda>i. rotate i (rows ! i)) [0..<4]) ! i)) [0..<4]"

definition rfc_rounds :: "u32 list list \<Rightarrow> u32 list list" where
  "rfc_rounds = (diagonal_round \<circ> column_round) ^^ 10"

definition rfc_state :: "byte list \<Rightarrow> byte list \<Rightarrow> u32 \<Rightarrow> u32 list list" where
  "rfc_state key nonce counter =
     [[0x61707865, 0x3320646e, 0x79622d32, 0x6b206574], load_words 4 key, load_words 4 (drop 16 key),
      counter # load_words 3 nonce]"

definition rfc_chacha_block :: "byte list \<Rightarrow> byte list \<Rightarrow> u32 \<Rightarrow> byte list" where
  "rfc_chacha_block key nonce counter =
     (let s = rfc_state key nonce counter
      in store_words (map2 (+) (concat (rfc_rounds s)) (concat s)))"

text \<open>The key stream counts in one word, which wraps.\<close>

definition rfc_key_stream :: "byte list \<Rightarrow> byte list \<Rightarrow> u32 \<Rightarrow> nat \<Rightarrow> byte list" where
  "rfc_key_stream key nonce counter n =
     concat (map (\<lambda>i. rfc_chacha_block key nonce (counter + of_nat i)) [0..<n])"

text \<open>HChaCha20 of the XChaCha draft: the outer rows of the rounds, with sixteen bytes in place of counter and nonce.\<close>

definition rfc_hchacha :: "byte list \<Rightarrow> byte list \<Rightarrow> byte list" where
  "rfc_hchacha key nonce =
     (let rows = rfc_rounds [[0x61707865, 0x3320646e, 0x79622d32, 0x6b206574], load_words 4 key,
                   load_words 4 (drop 16 key), load_words 4 nonce]
      in store_words (rows ! 0) @ store_words (rows ! 3))"

section \<open>The rounds of the code are those of the standard\<close>

lemma QUARTERROUND:
  assumes "distinct [a, b, c, d]" and "a < length x" and "b < length x" and "c < length x" and "d < length x"
    and "quarter (x ! a, x ! b, x ! c, x ! d) = (p, q, r, s)"
  shows "QUARTERROUND a b c d x = x[a := p, b := q, c := r, d := s]"
proof -
  define y where "y = (\<lambda>p q r s. x[a := p, b := q, c := r, d := s])"
  have n: "a \<noteq> b" "a \<noteq> c" "a \<noteq> d" "b \<noteq> c" "b \<noteq> d" "c \<noteq> d" using assms(1) by auto
  have get: "y p q r s ! a = p" "y p q r s ! b = q" "y p q r s ! c = r" "y p q r s ! d = s" for p q r s
    using n assms(2-5) by (simp_all add: y_def)
  have up: "(y p q r s)[a := v] = y v q r s" "(y p q r s)[b := v] = y p v r s" "(y p q r s)[c := v] = y p q v s"
    "(y p q r s)[d := v] = y p q r v" for p q r s v
    using n by (simp_all add: y_def list_update_swap [of a b] list_update_swap [of a c] list_update_swap [of a d]
        list_update_swap [of b c] list_update_swap [of b d] list_update_swap [of c d])
  have x: "x = y (x ! a) (x ! b) (x ! c) (x ! d)" by (simp add: y_def)
  have rot: "CRYPTO_rotl_u32 v 16 = word_rotl 16 v" "CRYPTO_rotl_u32 v 12 = word_rotl 12 v"
    "CRYPTO_rotl_u32 v 8 = word_rotl 8 v" "CRYPTO_rotl_u32 v 7 = word_rotl 7 v" for v
    by (simp_all add: rotl)
  have "QUARTERROUND a b c d (y p0 q0 r0 s0) = (case quarter (p0, q0, r0, s0) of (p, q, r, s) \<Rightarrow> y p q r s)" for p0 q0 r0 s0
    unfolding QUARTERROUND_def quarter_def Let_def rot get up prod.case ..
  then show ?thesis using x assms(6) by (metis (mono_tags, lifting) prod.case y_def)
qed

text \<open>Two rounds, with the four columns and the four diagonals of the rounds named.\<close>

lemma rounds2_rows:
  "chacha_rounds2 [a0, a1, a2, a3, b0, b1, b2, b3, c0, c1, c2, c3, d0, d1, d2, d3] =
    concat (diagonal_round (column_round [[a0, a1, a2, a3], [b0, b1, b2, b3], [c0, c1, c2, c3], [d0, d1, d2, d3]]))"
proof -
  obtain e0 f0 g0 h0 where q0: "quarter (a0, b0, c0, d0) = (e0, f0, g0, h0)" by (metis surj_pair)
  obtain e1 f1 g1 h1 where q1: "quarter (a1, b1, c1, d1) = (e1, f1, g1, h1)" by (metis surj_pair)
  obtain e2 f2 g2 h2 where q2: "quarter (a2, b2, c2, d2) = (e2, f2, g2, h2)" by (metis surj_pair)
  obtain e3 f3 g3 h3 where q3: "quarter (a3, b3, c3, d3) = (e3, f3, g3, h3)" by (metis surj_pair)
  obtain i0 j0 k0 l0 where r0: "quarter (e0, f1, g2, h3) = (i0, j0, k0, l0)" by (metis surj_pair)
  obtain i1 j1 k1 l1 where r1: "quarter (e1, f2, g3, h0) = (i1, j1, k1, l1)" by (metis surj_pair)
  obtain i2 j2 k2 l2 where r2: "quarter (e2, f3, g0, h1) = (i2, j2, k2, l2)" by (metis surj_pair)
  obtain i3 j3 k3 l3 where r3: "quarter (e3, f0, g1, h2) = (i3, j3, k3, l3)" by (metis surj_pair)
  note steps = q0 q1 q2 q3 r0 r1 r2 r3
  have up4: "[0..<4] = [0, 1, 2, 3 :: nat]" by (simp add: upt_rec)
  have "column_round [[a0, a1, a2, a3], [b0, b1, b2, b3], [c0, c1, c2, c3], [d0, d1, d2, d3]] =
    [[e0, e1, e2, e3], [f0, f1, f2, f3], [g0, g1, g2, g3], [h0, h1, h2, h3]]"
    by (simp add: column_round_def up4 steps)
  moreover have "diagonal_round [[e0, e1, e2, e3], [f0, f1, f2, f3], [g0, g1, g2, g3], [h0, h1, h2, h3]] =
    [[i0, i1, i2, i3], [j3, j0, j1, j2], [k2, k3, k0, k1], [l1, l2, l3, l0]]"
    by (simp add: diagonal_round_def column_round_def up4 steps eval_nat_numeral)
  moreover have "chacha_rounds2 [a0, a1, a2, a3, b0, b1, b2, b3, c0, c1, c2, c3, d0, d1, d2, d3] =
    [i0, i1, i2, i3, j3, j0, j1, j2, k2, k3, k0, k1, l1, l2, l3, l0]"
    by (simp add: chacha_rounds2_def Let_def QUARTERROUND steps)
  ultimately show ?thesis by simp
qed

end
