(* ===== verification/Aead.thy ===== *)
theory Aead
  imports Poly1305 Chacha Mem
begin

text \<open>
  The authenticated ciphers ChaCha20-Poly1305 and XChaCha20-Poly1305
  (crypto/cipher_extra/e_chacha20poly1305.c, without assembly) and the interface through which they
  are called (crypto/fipsmodule/cipher/aead.c). Buffers are passed by value, with their addresses
  where the code compares them; an operation returns the new contents of its output buffer.
\<close>

section \<open>State and errors\<close>

datatype cipher_error =
    CIPHER_R_TOO_LARGE
  | CIPHER_R_BUFFER_TOO_SMALL
  | CIPHER_R_UNSUPPORTED_NONCE_SIZE
  | CIPHER_R_UNSUPPORTED_KEY_SIZE
  | CIPHER_R_BAD_DECRYPT
  | CIPHER_R_OUTPUT_ALIASES_INPUT
  | CIPHER_R_INVALID_OPERATION
  | CIPHER_R_CTRL_NOT_IMPLEMENTED
  | CIPHER_R_NO_DIRECTION_SET
  | no_reason

text \<open>The part of a context that the methods of an AEAD see: its state and the length of its tags.\<close>

record aead_state =
  c20_key :: "byte list"
  ctx_tag_len :: nat

definition POLY1305_TAG_LEN :: nat where
  "POLY1305_TAG_LEN = 16"

text \<open>The two directions, and the table of an AEAD with its methods; a null pointer is \<open>None\<close>.\<close>

datatype evp_aead_direction_t = evp_aead_open | evp_aead_seal

record EVP_AEAD =
  aead_key_len :: nat
  aead_nonce_len :: nat
  aead_overhead :: nat
  aead_max_tag_len :: nat
  seal_scatter_supports_extra_in :: bool
  aead_init :: "(byte list \<Rightarrow> nat \<Rightarrow> cipher_error + aead_state) option"
  init_with_direction :: "(byte list \<Rightarrow> nat \<Rightarrow> evp_aead_direction_t \<Rightarrow> cipher_error + aead_state) option"
  aead_open :: "(aead_state \<Rightarrow> byte list \<Rightarrow> byte list \<Rightarrow> byte list \<Rightarrow> byte list \<Rightarrow> cipher_error option \<times> nat \<times> byte list) option"
  aead_seal_scatter :: "aead_state \<Rightarrow> nat \<Rightarrow> byte list \<Rightarrow> byte list \<Rightarrow> byte list \<Rightarrow> byte list \<Rightarrow> cipher_error + (byte list \<times> byte list)"
  aead_open_gather :: "(aead_state \<Rightarrow> byte list \<Rightarrow> byte list \<Rightarrow> byte list \<Rightarrow> byte list \<Rightarrow> byte list \<Rightarrow> cipher_error option \<times> byte list) option"
  aead_tag_len :: "(aead_state \<Rightarrow> nat \<Rightarrow> nat \<Rightarrow> nat) option"

record EVP_AEAD_CTX =
  ctx_aead :: "EVP_AEAD option"
  ctx_state :: aead_state

section \<open>ChaCha20-Poly1305\<close>

definition aead_chacha20_poly1305_init :: "byte list \<Rightarrow> nat \<Rightarrow> cipher_error + aead_state" where
  "aead_chacha20_poly1305_init key tag_len =
     (let tag_len = (if tag_len = 0 then POLY1305_TAG_LEN else tag_len)
      in if tag_len > POLY1305_TAG_LEN then Inl CIPHER_R_TOO_LARGE
         else if length key \<noteq> 32 then Inl no_reason
         else Inr \<lparr>c20_key = key, ctx_tag_len = tag_len\<rparr>)"

fun length_bytes :: "nat \<Rightarrow> nat \<Rightarrow> byte list" where
  "length_bytes 0 data_len = []"
| "length_bytes (Suc k) data_len = byte_of data_len # length_bytes k (data_len div 256)"

definition poly1305_update_length :: "poly1305_state \<Rightarrow> nat \<Rightarrow> poly1305_state" where
  "poly1305_update_length poly1305 data_len = CRYPTO_poly1305_update poly1305 (length_bytes 8 data_len)"

definition calc_tag :: "byte list \<Rightarrow> byte list \<Rightarrow> byte list \<Rightarrow> byte list \<Rightarrow> byte list \<Rightarrow> byte list" where
  "calc_tag key nonce ad ciphertext ciphertext_extra =
     (let poly1305_key = CRYPTO_chacha_20 (replicate 32 0) key nonce 0;
          padding = replicate 16 0;
          ctx = CRYPTO_poly1305_init poly1305_key;
          ctx = CRYPTO_poly1305_update ctx ad;
          ctx = (if length ad mod 16 \<noteq> 0 then CRYPTO_poly1305_update ctx (take (16 - length ad mod 16) padding) else ctx);
          ctx = CRYPTO_poly1305_update ctx ciphertext;
          ctx = CRYPTO_poly1305_update ctx ciphertext_extra;
          ciphertext_total = length ciphertext + length ciphertext_extra;
          ctx = (if ciphertext_total mod 16 \<noteq> 0
                 then CRYPTO_poly1305_update ctx (take (16 - ciphertext_total mod 16) padding) else ctx);
          ctx = poly1305_update_length ctx (length ad);
          ctx = poly1305_update_length ctx ciphertext_total
      in CRYPTO_poly1305_finish ctx)"

text \<open>The extra input continues the key stream where the input ends, block by block.\<close>

function encrypt_extra :: "byte list \<Rightarrow> byte list \<Rightarrow> u32 \<Rightarrow> nat \<Rightarrow> byte list \<Rightarrow> byte list" where
  "encrypt_extra key nonce block_counter offset extra_in =
     (if extra_in = [] then []
      else
        let block = CRYPTO_chacha_20 (replicate 64 0) key nonce block_counter;
            n = min (64 - offset) (length extra_in)
        in map2 (XOR) (take n extra_in) (take n (drop offset block)) @
           encrypt_extra key nonce (block_counter + 1) 0 (drop n extra_in))"
  by pat_completeness auto
termination encrypt_extra
  by (relation "measure (\<lambda>(key, nonce, c, offset, extra_in). 2 * length extra_in + (if offset = 0 then 0 else 1))")
    (auto simp: min_def length_greater_0_conv [symmetric] simp del: length_greater_0_conv)

declare encrypt_extra.simps [simp del]

definition chacha20_poly1305_seal_scatter ::
    "byte list \<Rightarrow> nat \<Rightarrow> byte list \<Rightarrow> byte list \<Rightarrow> byte list \<Rightarrow> byte list \<Rightarrow> nat \<Rightarrow> cipher_error + (byte list \<times> byte list)" where
  "chacha20_poly1305_seal_scatter key max_out_tag_len nonce inp extra_in ad tag_len =
     (if (length extra_in + tag_len) mod 2 ^ 64 < tag_len then Inl CIPHER_R_TOO_LARGE
      else if max_out_tag_len < (tag_len + length extra_in) mod 2 ^ 64 then Inl CIPHER_R_BUFFER_TOO_SMALL
      else if length nonce \<noteq> 12 then Inl CIPHER_R_UNSUPPORTED_NONCE_SIZE
      else if length inp \<ge> 2 ^ 32 * 64 - 64 then Inl CIPHER_R_TOO_LARGE
      else if max_out_tag_len < tag_len then Inl CIPHER_R_BUFFER_TOO_SMALL
      else
        let extra = (if extra_in \<noteq> []
                     then encrypt_extra key nonce (of_nat (1 + length inp div 64)) (length inp mod 64) extra_in else []);
            out = CRYPTO_chacha_20 inp key nonce 1;
            tag = calc_tag key nonce ad out extra
        in Inr (out, extra @ take tag_len tag))"

definition aead_chacha20_poly1305_seal_scatter ::
    "aead_state \<Rightarrow> nat \<Rightarrow> byte list \<Rightarrow> byte list \<Rightarrow> byte list \<Rightarrow> byte list \<Rightarrow> cipher_error + (byte list \<times> byte list)" where
  "aead_chacha20_poly1305_seal_scatter ctx max_out_tag_len nonce inp extra_in ad =
     chacha20_poly1305_seal_scatter (c20_key ctx) max_out_tag_len nonce inp extra_in ad (ctx_tag_len ctx)"

text \<open>The output is written before the tag is compared.\<close>

definition chacha20_poly1305_open_gather ::
    "byte list \<Rightarrow> byte list \<Rightarrow> byte list \<Rightarrow> byte list \<Rightarrow> byte list \<Rightarrow> byte list \<Rightarrow> nat \<Rightarrow> cipher_error option \<times> byte list" where
  "chacha20_poly1305_open_gather key out nonce inp in_tag ad tag_len =
     (if length nonce \<noteq> 12 then (Some CIPHER_R_UNSUPPORTED_NONCE_SIZE, out)
      else if length in_tag \<noteq> tag_len then (Some CIPHER_R_BAD_DECRYPT, out)
      else if length inp \<ge> 2 ^ 32 * 64 - 64 then (Some CIPHER_R_TOO_LARGE, out)
      else
        let tag = calc_tag key nonce ad inp [];
            out = CRYPTO_chacha_20 inp key nonce 1
        in if CRYPTO_memcmp tag in_tag tag_len \<noteq> 0 then (Some CIPHER_R_BAD_DECRYPT, out) else (None, out))"

definition aead_chacha20_poly1305_open_gather ::
    "aead_state \<Rightarrow> byte list \<Rightarrow> byte list \<Rightarrow> byte list \<Rightarrow> byte list \<Rightarrow> byte list \<Rightarrow> cipher_error option \<times> byte list" where
  "aead_chacha20_poly1305_open_gather ctx out nonce inp in_tag ad =
     chacha20_poly1305_open_gather (c20_key ctx) out nonce inp in_tag ad (ctx_tag_len ctx)"

section \<open>XChaCha20-Poly1305\<close>

definition aead_xchacha20_poly1305_seal_scatter ::
    "aead_state \<Rightarrow> nat \<Rightarrow> byte list \<Rightarrow> byte list \<Rightarrow> byte list \<Rightarrow> byte list \<Rightarrow> cipher_error + (byte list \<times> byte list)" where
  "aead_xchacha20_poly1305_seal_scatter ctx max_out_tag_len nonce inp extra_in ad =
     (if length nonce \<noteq> 24 then Inl CIPHER_R_UNSUPPORTED_NONCE_SIZE
      else
        let derived_key = CRYPTO_hchacha20 (c20_key ctx) nonce;
            derived_nonce = replicate 4 0 @ take 8 (drop 16 nonce)
        in chacha20_poly1305_seal_scatter derived_key max_out_tag_len derived_nonce inp extra_in ad (ctx_tag_len ctx))"

definition aead_xchacha20_poly1305_open_gather ::
    "aead_state \<Rightarrow> byte list \<Rightarrow> byte list \<Rightarrow> byte list \<Rightarrow> byte list \<Rightarrow> byte list \<Rightarrow> cipher_error option \<times> byte list" where
  "aead_xchacha20_poly1305_open_gather ctx out nonce inp in_tag ad =
     (if length nonce \<noteq> 24 then (Some CIPHER_R_UNSUPPORTED_NONCE_SIZE, out)
      else
        let derived_key = CRYPTO_hchacha20 (c20_key ctx) nonce;
            derived_nonce = replicate 4 0 @ take 8 (drop 16 nonce)
        in chacha20_poly1305_open_gather derived_key out derived_nonce inp in_tag ad (ctx_tag_len ctx))"

definition EVP_aead_chacha20_poly1305 :: EVP_AEAD where
  "EVP_aead_chacha20_poly1305 = \<lparr>aead_key_len = 32, aead_nonce_len = 12, aead_overhead = POLY1305_TAG_LEN,
     aead_max_tag_len = POLY1305_TAG_LEN, seal_scatter_supports_extra_in = True,
     aead_init = Some aead_chacha20_poly1305_init, init_with_direction = None, aead_open = None,
     aead_seal_scatter = aead_chacha20_poly1305_seal_scatter,
     aead_open_gather = Some aead_chacha20_poly1305_open_gather, aead_tag_len = None\<rparr>"

definition EVP_aead_xchacha20_poly1305 :: EVP_AEAD where
  "EVP_aead_xchacha20_poly1305 = \<lparr>aead_key_len = 32, aead_nonce_len = 24, aead_overhead = POLY1305_TAG_LEN,
     aead_max_tag_len = POLY1305_TAG_LEN, seal_scatter_supports_extra_in = True,
     aead_init = Some aead_chacha20_poly1305_init, init_with_direction = None, aead_open = None,
     aead_seal_scatter = aead_xchacha20_poly1305_seal_scatter,
     aead_open_gather = Some aead_xchacha20_poly1305_open_gather, aead_tag_len = None\<rparr>"

end
