(* ===== verification/Aead_Ctx.thy ===== *)
theory Aead_Ctx
  imports Aead
begin

text \<open>
  The generic interface of authenticated ciphers (crypto/fipsmodule/cipher/aead.c). Every failure clears
  the output; an AEAD has one of the two methods of initialisation. A step through a null pointer has no result (\<open>None\<close>).
\<close>

section \<open>Contexts\<close>

definition EVP_AEAD_CTX_zero :: EVP_AEAD_CTX where
  "EVP_AEAD_CTX_zero = \<lparr>ctx_aead = None, ctx_state = \<lparr>c20_key = [], ctx_tag_len = 0\<rparr>\<rparr>"

definition EVP_AEAD_CTX_init_with_direction ::
    "EVP_AEAD_CTX \<Rightarrow> EVP_AEAD \<Rightarrow> byte list \<Rightarrow> nat \<Rightarrow> evp_aead_direction_t \<Rightarrow> cipher_error option \<times> EVP_AEAD_CTX" where
  "EVP_AEAD_CTX_init_with_direction ctx aead key tag_len dir =
     (if length key \<noteq> aead_key_len aead then (Some CIPHER_R_UNSUPPORTED_KEY_SIZE, ctx\<lparr>ctx_aead := None\<rparr>)
      else
        let ok = (case aead_init aead of
                    Some init \<Rightarrow> init key tag_len
                  | None \<Rightarrow>
                      (case init_with_direction aead of
                         Some init \<Rightarrow> init key tag_len dir
                       | None \<Rightarrow> Inl no_reason))
        in case ok of
             Inl e \<Rightarrow> (Some e, ctx\<lparr>ctx_aead := None\<rparr>)
           | Inr st \<Rightarrow> (None, ctx\<lparr>ctx_aead := Some aead, ctx_state := st\<rparr>))"

definition EVP_AEAD_CTX_init ::
    "EVP_AEAD_CTX \<Rightarrow> EVP_AEAD \<Rightarrow> byte list \<Rightarrow> nat \<Rightarrow> cipher_error option \<times> EVP_AEAD_CTX" where
  "EVP_AEAD_CTX_init ctx aead key tag_len =
     (if aead_init aead = None then (Some CIPHER_R_NO_DIRECTION_SET, ctx\<lparr>ctx_aead := None\<rparr>)
      else EVP_AEAD_CTX_init_with_direction ctx aead key tag_len evp_aead_open)"

text \<open>The size of a context; its memory is not tested against null before it is cleared.\<close>

definition sizeof_EVP_AEAD_CTX :: nat where
  "sizeof_EVP_AEAD_CTX = 584"

definition EVP_AEAD_CTX_new :: "malloc \<Rightarrow> EVP_AEAD \<Rightarrow> byte list \<Rightarrow> nat \<Rightarrow> EVP_AEAD_CTX option option" where
  "EVP_AEAD_CTX_new mal aead key tag_len =
     (if OPENSSL_malloc mal sizeof_EVP_AEAD_CTX = None then None
      else
        case EVP_AEAD_CTX_init EVP_AEAD_CTX_zero aead key tag_len of
          (None, ctx) \<Rightarrow> Some (Some ctx)
        | (Some e, ctx) \<Rightarrow> Some None)"

definition EVP_AEAD_CTX_cleanup :: "EVP_AEAD_CTX \<Rightarrow> EVP_AEAD_CTX" where
  "EVP_AEAD_CTX_cleanup ctx = (if ctx_aead ctx = None then ctx else ctx\<lparr>ctx_aead := None\<rparr>)"

definition EVP_AEAD_CTX_tag_len :: "EVP_AEAD \<Rightarrow> aead_state \<Rightarrow> nat \<Rightarrow> nat \<Rightarrow> nat option" where
  "EVP_AEAD_CTX_tag_len aead st in_len extra_in_len =
     (case aead_tag_len aead of
        Some f \<Rightarrow> Some (f st in_len extra_in_len)
      | None \<Rightarrow>
          if (extra_in_len + ctx_tag_len st) mod 2 ^ 64 < extra_in_len then None
          else Some (extra_in_len + ctx_tag_len st))"

section \<open>Sealing and opening\<close>

definition buffers_alias :: "u64 \<Rightarrow> nat \<Rightarrow> u64 \<Rightarrow> nat \<Rightarrow> bool" where
  "buffers_alias a a_bytes b b_bytes \<longleftrightarrow> a + of_nat a_bytes > b \<and> b + of_nat b_bytes > a"

definition check_alias :: "u64 \<Rightarrow> nat \<Rightarrow> u64 \<Rightarrow> nat \<Rightarrow> bool" where
  "check_alias inp in_len out out_len =
     (if \<not> buffers_alias inp in_len out out_len then True else inp = out)"

text \<open>The result of a call: an error, if any, the length written and the contents of the output buffer.\<close>

definition aead_error :: "cipher_error \<Rightarrow> byte list \<Rightarrow> cipher_error option \<times> nat \<times> byte list" where
  "aead_error e out = (Some e, 0, replicate (length out) 0)"

definition EVP_AEAD_CTX_seal ::
    "EVP_AEAD_CTX \<Rightarrow> u64 \<Rightarrow> byte list \<Rightarrow> byte list \<Rightarrow> u64 \<Rightarrow> byte list \<Rightarrow> byte list \<Rightarrow> (cipher_error option \<times> nat \<times> byte list) option" where
  "EVP_AEAD_CTX_seal ctx out_ptr out nonce in_ptr inp ad =
     map_option (\<lambda>aead.
       if (length inp + aead_overhead aead) mod 2 ^ 64 < length inp then aead_error CIPHER_R_TOO_LARGE out
       else if length out < length inp then aead_error CIPHER_R_BUFFER_TOO_SMALL out
       else if \<not> check_alias in_ptr (length inp) out_ptr (length out) then aead_error CIPHER_R_OUTPUT_ALIASES_INPUT out
       else case aead_seal_scatter aead (ctx_state ctx) (length out - length inp) nonce inp [] ad of
              Inr (c, tag) \<Rightarrow> (None, length inp + length tag, memcpy_at (memcpy_at out 0 c) (length inp) tag)
            | Inl e \<Rightarrow> aead_error e out) (ctx_aead ctx)"

definition EVP_AEAD_CTX_seal_scatter ::
    "EVP_AEAD_CTX \<Rightarrow> u64 \<Rightarrow> byte list \<Rightarrow> u64 \<Rightarrow> byte list \<Rightarrow> byte list \<Rightarrow> u64 \<Rightarrow> byte list \<Rightarrow> byte list \<Rightarrow> byte list \<Rightarrow>
      (cipher_error option \<times> nat \<times> byte list \<times> byte list) option" where
  "EVP_AEAD_CTX_seal_scatter ctx out_ptr out out_tag_ptr out_tag nonce in_ptr inp extra_in ad =
     (let error = (\<lambda>e. (Some e, 0, memcpy_at out 0 (replicate (length inp) 0), replicate (length out_tag) 0))
      in if \<not> check_alias in_ptr (length inp) out_ptr (length inp) \<or>
            buffers_alias out_ptr (length inp) out_tag_ptr (length out_tag) \<or>
            buffers_alias in_ptr (length inp) out_tag_ptr (length out_tag) then Some (error CIPHER_R_OUTPUT_ALIASES_INPUT)
         else map_option (\<lambda>aead.
           if \<not> seal_scatter_supports_extra_in aead \<and> extra_in \<noteq> [] then error CIPHER_R_INVALID_OPERATION
           else case aead_seal_scatter aead (ctx_state ctx) (length out_tag) nonce inp extra_in ad of
                  Inr (c, tag) \<Rightarrow> (None, length tag, memcpy_at out 0 c, memcpy_at out_tag 0 tag)
                | Inl e \<Rightarrow> error e) (ctx_aead ctx))"

definition EVP_AEAD_CTX_open_gather ::
    "EVP_AEAD_CTX \<Rightarrow> u64 \<Rightarrow> byte list \<Rightarrow> byte list \<Rightarrow> u64 \<Rightarrow> byte list \<Rightarrow> byte list \<Rightarrow> byte list \<Rightarrow>
      (cipher_error option \<times> byte list) option" where
  "EVP_AEAD_CTX_open_gather ctx out_ptr out nonce in_ptr inp in_tag ad =
     (let error = (\<lambda>e. (Some e, memcpy_at out 0 (replicate (length inp) 0)))
      in if \<not> check_alias in_ptr (length inp) out_ptr (length inp) then Some (error CIPHER_R_OUTPUT_ALIASES_INPUT)
         else map_option (\<lambda>aead.
           case aead_open_gather aead of
                  None \<Rightarrow> error CIPHER_R_CTRL_NOT_IMPLEMENTED
                | Some gather \<Rightarrow>
                    (case gather (ctx_state ctx) (take (length inp) out) nonce inp in_tag ad of
                       (None, p) \<Rightarrow> (None, memcpy_at out 0 p)
                     | (Some e, p) \<Rightarrow> error e)) (ctx_aead ctx))"

definition EVP_AEAD_CTX_open ::
    "EVP_AEAD_CTX \<Rightarrow> u64 \<Rightarrow> byte list \<Rightarrow> byte list \<Rightarrow> u64 \<Rightarrow> byte list \<Rightarrow> byte list \<Rightarrow> (cipher_error option \<times> nat \<times> byte list) option" where
  "EVP_AEAD_CTX_open ctx out_ptr out nonce in_ptr inp ad =
     (if \<not> check_alias in_ptr (length inp) out_ptr (length out) then Some (aead_error CIPHER_R_OUTPUT_ALIASES_INPUT out)
      else case ctx_aead ctx of
        None \<Rightarrow> None
      | Some aead \<Rightarrow>
          (case aead_open aead of
                 Some open_method \<Rightarrow>
                   (case open_method (ctx_state ctx) out nonce inp ad of
                      (None, n, p) \<Rightarrow> Some (None, n, p)
                    | (Some e, n, p) \<Rightarrow> Some (aead_error e out))
               | None \<Rightarrow>
                   if length inp < ctx_tag_len (ctx_state ctx) then Some (aead_error CIPHER_R_BAD_DECRYPT out)
                   else
                     let plaintext_len = length inp - ctx_tag_len (ctx_state ctx)
                     in if length out < plaintext_len then Some (aead_error CIPHER_R_BUFFER_TOO_SMALL out)
                        else map_option (\<lambda>r. case r of
                                 (None, p) \<Rightarrow> (None, plaintext_len, p)
                               | (Some e, p) \<Rightarrow> aead_error e out)
                               (EVP_AEAD_CTX_open_gather ctx out_ptr out nonce in_ptr (take plaintext_len inp)
                                  (drop plaintext_len inp) ad)))"

end
