(* ===== verification/Chacha_Props.thy ===== *)
theory Chacha_Props
  imports Chacha
begin

text \<open>
  The key stream of ChaCha20: the words of the code are the rows of the standard, the loop over the
  input is an XOR with the blocks of consecutive counters, and HChaCha20 is the first and last row of
  its rounds.
\<close>

section \<open>Rows\<close>

definition rows4 :: "u32 list list \<Rightarrow> bool" where
  "rows4 rs \<longleftrightarrow> length rs = 4 \<and> (\<forall>r\<in>set rs. length r = 4)"

lemma rows4_cases:
  assumes "rows4 rs"
  obtains a0 a1 a2 a3 b0 b1 b2 b3 c0 c1 c2 c3 d0 d1 d2 d3
    where "rs = [[a0, a1, a2, a3], [b0, b1, b2, b3], [c0, c1, c2, c3], [d0, d1, d2, d3]]"
proof -
  have four: "\<exists>a b c d. xs = [a, b, c, d]" if "length xs = 4" for xs :: "'a list"
    using that by (auto simp: numeral_eq_Suc length_Suc_conv)
  obtain a b c d where r: "rs = [a, b, c, d]" using four assms unfolding rows4_def by blast
  then have "length a = 4" "length b = 4" "length c = 4" "length d = 4" using assms by (simp_all add: rows4_def)
  then show ?thesis using four [of a] four [of b] four [of c] four [of d] that unfolding r by blast
qed

lemma rows4_round [simp]: "rows4 (diagonal_round rs)" if "length rs = 4"
  using that by (simp add: rows4_def diagonal_round_def column_round_def upt_rec)

lemma length_column_round [simp]: "length (column_round rs) = 4"
  by (simp add: column_round_def)

lemma chacha_rounds2: "rows4 rs \<Longrightarrow> chacha_rounds2 (concat rs) = concat (diagonal_round (column_round rs))"
proof -
  assume "rows4 rs"
  then obtain a0 a1 a2 a3 b0 b1 b2 b3 c0 c1 c2 c3 d0 d1 d2 d3
    where "rs = [[a0, a1, a2, a3], [b0, b1, b2, b3], [c0, c1, c2, c3], [d0, d1, d2, d3]]" by (rule rows4_cases)
  then show ?thesis using rounds2_rows [of a0 a1 a2 a3 b0 b1 b2 b3 c0 c1 c2 c3 d0 d1 d2 d3] by simp
qed

lemma chacha_rounds: "rows4 rs \<Longrightarrow> (chacha_rounds2 ^^ n) (concat rs) = concat (((diagonal_round \<circ> column_round) ^^ n) rs) \<and>
    rows4 (((diagonal_round \<circ> column_round) ^^ n) rs)"
  by (induction n) (simp_all add: chacha_rounds2)

lemma rows4_rounds: "rows4 rs \<Longrightarrow> rows4 (rfc_rounds rs)" and chacha_rounds10: "rows4 rs \<Longrightarrow> (chacha_rounds2 ^^ 10) (concat rs) = concat (rfc_rounds rs)"
  using chacha_rounds [of rs 10] by (simp_all add: rfc_rounds_def)

lemma length_rows4: "rows4 rs \<Longrightarrow> length (concat rs) = 16"
  by (erule rows4_cases) simp

section \<open>Blocks\<close>

lemma length_load_words [simp]: "length (load_words n bs) = n"
  by (simp add: load_words_def)

lemma load_words_add: "load_words (m + n) bs = load_words m bs @ load_words n (drop (4 * m) bs)"
proof (rule nth_equalityI)
  fix i assume i: "i < length (load_words (m + n) bs)"
  show "load_words (m + n) bs ! i = (load_words m bs @ load_words n (drop (4 * m) bs)) ! i"
  proof (cases "i < m")
    case False
    then have "4 * (i - m) + 4 * m = 4 * i" by simp
    then show ?thesis using i False by (simp add: load_words_def nth_append)
  qed (use i in \<open>simp add: load_words_def nth_append\<close>)
qed simp

lemma length_store_words [simp]: "length (store_words ws) = 4 * length ws"
  by (induction ws) (simp_all add: store_words_def)

lemma sigma_words: "load_words 4 sigma = [0x61707865, 0x3320646e, 0x79622d32, 0x6b206574]"
  by code_simp

lemma rows4_state [simp]: "rows4 (rfc_state key nonce counter)"
  by (simp add: rows4_def rfc_state_def)

lemma code_state:
  "load_words 4 sigma @ load_words 8 key @ [counter] @ load_words 3 nonce = concat (rfc_state key nonce counter)"
  using load_words_add [of 4 4 key] by (simp add: rfc_state_def sigma_words)

lemma chacha_core: "chacha_core (concat (rfc_state key nonce counter)) = rfc_chacha_block key nonce counter"
proof -
  let ?s = "rfc_state key nonce counter"
  have l: "length (concat ?s) = 16" "length (concat (rfc_rounds ?s)) = 16"
    by (simp_all only: length_rows4 rows4_rounds rows4_state)
  have "map (\<lambda>i. concat (rfc_rounds ?s) ! i + concat ?s ! i) [0..<16] = map2 (+) (concat (rfc_rounds ?s)) (concat ?s)"
    using l by (intro nth_equalityI) simp_all
  then show ?thesis
    unfolding chacha_core_def rfc_chacha_block_def Let_def chacha_rounds10 [OF rows4_state] by simp
qed

lemma length_block [simp]: "length (rfc_chacha_block key nonce counter) = 64"
proof -
  have "length (concat (rfc_rounds (rfc_state key nonce counter))) = 16" "length (concat (rfc_state key nonce counter)) = 16"
    by (simp_all only: length_rows4 rows4_rounds rows4_state)
  then show ?thesis by (simp add: rfc_chacha_block_def Let_def)
qed

lemma next_counter: "(concat (rfc_state key nonce counter))[12 := concat (rfc_state key nonce counter) ! 12 + 1] =
    concat (rfc_state key nonce (counter + 1))"
proof -
  let ?l = "[0x61707865, 0x3320646e, 0x79622d32, 0x6b206574] @ load_words 4 key @ load_words 4 (drop 16 key)"
  have s: "concat (rfc_state key nonce c) = ?l @ c # load_words 3 nonce" for c by (simp add: rfc_state_def)
  have "length ?l = 12" by simp
  then show ?thesis unfolding s by (metis list_update_length nth_append_length)
qed

section \<open>The stream\<close>

lemma key_stream_Suc:
  "rfc_key_stream key nonce counter (Suc n) = rfc_chacha_block key nonce counter @ rfc_key_stream key nonce (counter + 1) n"
proof -
  have "map (\<lambda>i. rfc_chacha_block key nonce (counter + of_nat i)) [0..<Suc n] =
    rfc_chacha_block key nonce counter # map (\<lambda>i. rfc_chacha_block key nonce (counter + 1 + of_nat i)) [0..<n]"
    by (simp add: upt_conv_Cons map_Suc_upt [symmetric] del: upt_Suc) (simp add: add.assoc)
  then show ?thesis unfolding rfc_key_stream_def by simp
qed

lemma length_key_stream [simp]: "length (rfc_key_stream key nonce counter n) = 64 * n"
  by (induction n arbitrary: counter) (simp_all add: key_stream_Suc, simp add: rfc_key_stream_def)

definition xor_bytes :: "byte list \<Rightarrow> byte list \<Rightarrow> byte list" where
  "xor_bytes xs ys = map2 (XOR) xs ys"

lemma length_xor_bytes [simp]: "length (xor_bytes xs ys) = min (length xs) (length ys)"
  by (simp add: xor_bytes_def)

lemma nth_xor_bytes [simp]: "i < length xs \<Longrightarrow> i < length ys \<Longrightarrow> xor_bytes xs ys ! i = xs ! i XOR ys ! i"
  by (simp add: xor_bytes_def)

lemma xor_bytes_append:
  "length xs \<le> length ks \<Longrightarrow> xor_bytes (xs @ ys) ks = xor_bytes xs (take (length xs) ks) @ xor_bytes ys (drop (length xs) ks)"
  by (rule nth_equalityI) (auto simp: nth_append)

lemma xor_bytes_twice: "length xs \<le> length ks \<Longrightarrow> xor_bytes (xor_bytes xs ks) ks = xs"
  by (rule nth_equalityI) (simp_all add: xor.assoc)

lemma chacha_loop:
  "length inp \<le> 64 * n \<Longrightarrow> chacha_loop (concat (rfc_state key nonce counter)) inp = xor_bytes inp (rfc_key_stream key nonce counter n)"
proof (induction n arbitrary: counter inp)
  case 0
  then show ?case by (simp add: chacha_loop.simps xor_bytes_def)
next
  case (Suc n)
  let ?B = "rfc_chacha_block key nonce counter" and ?t = "min (length inp) 64"
  show ?case
  proof (cases "inp = []")
    case False
    have "chacha_loop (concat (rfc_state key nonce counter)) inp =
        xor_bytes (take ?t inp) (take ?t ?B) @ chacha_loop (concat (rfc_state key nonce (counter + 1))) (drop ?t inp)"
      using False by (subst chacha_loop.simps) (simp add: Let_def chacha_core next_counter min_def xor_bytes_def)
    also have "\<dots> = xor_bytes (take ?t inp) (take ?t ?B) @ xor_bytes (drop ?t inp) (rfc_key_stream key nonce (counter + 1) n)"
      using Suc.prems by (subst Suc.IH) simp_all
    also have "\<dots> = xor_bytes (take ?t inp @ drop ?t inp) (?B @ rfc_key_stream key nonce (counter + 1) n)"
      by (subst xor_bytes_append) (auto simp: min_def xor_bytes_def)
    finally show ?thesis by (simp add: key_stream_Suc)
  qed (simp add: chacha_loop.simps xor_bytes_def)
qed

lemma chacha_20: "length inp \<le> 64 * n \<Longrightarrow> CRYPTO_chacha_20 inp key nonce counter = xor_bytes inp (rfc_key_stream key nonce counter n)"
  unfolding CRYPTO_chacha_20_def code_state by (rule chacha_loop)

lemma length_chacha_20 [simp]: "length (CRYPTO_chacha_20 inp key nonce counter) = length inp"
  using chacha_20 [of inp "length inp"] by simp

lemma chacha_20_twice [simp]: "CRYPTO_chacha_20 (CRYPTO_chacha_20 inp key nonce counter) key nonce counter = inp"
  using chacha_20 [of inp "length inp"] chacha_20 [of "CRYPTO_chacha_20 inp key nonce counter" "length inp"]
  by (simp add: xor_bytes_twice)

text \<open>A later part of the stream starts at a later counter.\<close>

lemma key_stream_add:
  "rfc_key_stream key nonce counter (m + n) = rfc_key_stream key nonce counter m @ rfc_key_stream key nonce (counter + of_nat m) n"
  by (induction m arbitrary: counter) (simp_all add: key_stream_Suc add.assoc, simp add: rfc_key_stream_def)

lemma chacha_20_append:
  assumes "64 dvd length x"
  shows "CRYPTO_chacha_20 (x @ y) key nonce counter =
    CRYPTO_chacha_20 x key nonce counter @ CRYPTO_chacha_20 y key nonce (counter + of_nat (length x div 64))"
proof -
  obtain m where m: "length x = 64 * m" using assms by (auto elim: dvdE)
  have "CRYPTO_chacha_20 (x @ y) key nonce counter = xor_bytes (x @ y) (rfc_key_stream key nonce counter (m + length y))"
    using m by (intro chacha_20) simp
  also have "\<dots> = xor_bytes x (rfc_key_stream key nonce counter m) @ xor_bytes y (rfc_key_stream key nonce (counter + of_nat m) (length y))"
    using m by (simp add: key_stream_add xor_bytes_append)
  also have "\<dots> = CRYPTO_chacha_20 x key nonce counter @ CRYPTO_chacha_20 y key nonce (counter + of_nat m)"
    using m by (simp add: chacha_20 [symmetric])
  finally show ?thesis using m by simp
qed

lemma hchacha20: "CRYPTO_hchacha20 key nonce = rfc_hchacha key nonce"
proof -
  let ?s = "[[0x61707865, 0x3320646e, 0x79622d32, 0x6b206574], load_words 4 key, load_words 4 (drop 16 key), load_words 4 nonce]"
  have r: "rows4 ?s" by (simp add: rows4_def)
  obtain a0 a1 a2 a3 b0 b1 b2 b3 c0 c1 c2 c3 d0 d1 d2 d3
    where rs: "rfc_rounds ?s = [[a0, a1, a2, a3], [b0, b1, b2, b3], [c0, c1, c2, c3], [d0, d1, d2, d3]]"
    using rows4_rounds [OF r] by (rule rows4_cases)
  have "load_words 4 sigma @ load_words 8 key @ load_words 4 nonce = concat ?s"
    using load_words_add [of 4 4 key] by (simp add: sigma_words)
  then show ?thesis
    unfolding CRYPTO_hchacha20_def rfc_hchacha_def Let_def by (simp only: chacha_rounds10 [OF r]) (simp add: rs)
qed

text \<open>The example of RFC 8439, section 2.1.1.\<close>

lemma quarter_example:
  "quarter (0x11111111, 0x01020304, 0x9b8d6f43, 0x01234567) = (0xea2a92f4, 0xcb1cf8ce, 0x4581472e, 0x5881c4bb)"
  by code_simp

section \<open>The interface\<close>

text \<open>
  ChaCha20 is RFC 8439's: the output is the input XOR the key stream of consecutive 32-bit
  counters, which wrap, and HChaCha20 gives the outer rows of the same rounds.
\<close>

lemma chacha_20_stream:
  "CRYPTO_chacha_20 inp key nonce counter = map2 (XOR) inp (rfc_key_stream key nonce counter ((length inp + 63) div 64)) \<and>
   CRYPTO_hchacha20 key nonce' = rfc_hchacha key nonce'"
proof -
  have "length inp \<le> 64 * ((length inp + 63) div 64)" by presburger
  from chacha_20 [OF this] show ?thesis by (simp add: hchacha20 xor_bytes_def)
qed

text \<open>
  ChaCha20 decrypts what it encrypts, also when whole blocks are processed in a call of their
  own with the counter moved on.
\<close>

lemma chacha_20_pieces:
  assumes "64 dvd length x"
  shows "CRYPTO_chacha_20 (CRYPTO_chacha_20 x key nonce counter @
      CRYPTO_chacha_20 y key nonce (counter + of_nat (length x div 64))) key nonce counter = x @ y"
  unfolding chacha_20_append [OF assms, symmetric] by simp

lemma chacha_20_pieces_witness:
  "CRYPTO_chacha_20 (CRYPTO_chacha_20 (replicate 64 7) (replicate 32 1) (replicate 12 2) 0xffffffff @
      CRYPTO_chacha_20 [1, 2, 3] (replicate 32 1) (replicate 12 2) 0) (replicate 32 1) (replicate 12 2) 0xffffffff =
    replicate 64 7 @ [1, 2, 3]"
proof -
  have "(0xffffffff :: u32) + of_nat (length (replicate 64 (7 :: byte)) div 64) = 0" by (simp add: word_unat_eq_iff unat_word_ariths)
  then show ?thesis
    using chacha_20_pieces [of "replicate 64 7" "replicate 32 1" "replicate 12 2" "0xffffffff" "[1, 2, 3]"]
    by (simp only: length_replicate) simp
qed

end
