(* ===== verification/Aead_Props.thy ===== *)
theory Aead_Props
  imports Aead_Ctx Chacha_Props Poly1305_Tag
begin

text \<open>
  Properties of the authenticated ciphers: the ciphertext and the tag are those of RFC 8439, section 2.8,
  with an extra input that continues the stream; what was sealed is opened; and opening succeeds for
  exactly the right tags and releases nothing otherwise.
\<close>

section \<open>The tag\<close>

definition pad16 :: "nat \<Rightarrow> byte list" where
  "pad16 n = replicate ((16 - n mod 16) mod 16) 0"

definition rfc_mac_data :: "byte list \<Rightarrow> byte list \<Rightarrow> byte list" where
  "rfc_mac_data ad c = ad @ pad16 (length ad) @ c @ pad16 (length c) @ rev (be_bytes 8 (length ad)) @ rev (be_bytes 8 (length c))"

lemma length_bytes: "length_bytes k n = rev (be_bytes k n)"
  by (induction k arbitrary: n) simp_all

text \<open>The state of the authenticator when the tag is computed.\<close>

definition tag_state :: "byte list \<Rightarrow> byte list \<Rightarrow> byte list \<Rightarrow> byte list \<Rightarrow> byte list \<Rightarrow> poly1305_state" where
  "tag_state key nonce ad c extra =
     foldl CRYPTO_poly1305_update (CRYPTO_poly1305_init (take 32 (rfc_chacha_block key nonce 0)))
       [ad, pad16 (length ad), c, extra, pad16 (length c + length extra), rev (be_bytes 8 (length ad)), rev (be_bytes 8 (length c + length extra))]"

lemma pad_update:
  "(if n mod 16 \<noteq> 0 then CRYPTO_poly1305_update st (take (16 - n mod 16) (replicate 16 0)) else st) =
    CRYPTO_poly1305_update st (pad16 n)"
  by (cases "n mod 16 = 0") (simp_all add: pad16_def CRYPTO_poly1305_update_def [of st "[]"] min_def)

lemma chacha_20_zeros: "n \<le> 64 \<Longrightarrow> CRYPTO_chacha_20 (replicate n 0) key nonce counter = take n (rfc_chacha_block key nonce counter)"
  using chacha_20 [of "replicate n 0" 1 key nonce counter]
  by (intro nth_equalityI) (simp_all add: key_stream_Suc nth_append)

lemma calc_tag: "calc_tag key nonce ad c extra = CRYPTO_poly1305_finish (tag_state key nonce ad c extra)"
  unfolding calc_tag_def tag_state_def Let_def pad_update poly1305_update_length_def length_bytes
  by (simp add: chacha_20_zeros)

lemma calc_tag_eq:
  "calc_tag key nonce ad c extra =
    (if poly_lost_carry (tag_state key nonce ad c extra)
     then rev (be_bytes 16 (poly_acc (poly_r (take 32 (rfc_chacha_block key nonce 0))) 0 (rfc_mac_data ad (c @ extra)) - 2 ^ 26 +
       le_val (take 16 (drop 16 (take 32 (rfc_chacha_block key nonce 0))))))
     else rfc_poly1305 (take 32 (rfc_chacha_block key nonce 0)) (rfc_mac_data ad (c @ extra)))"
proof -
  let ?key = "take 32 (rfc_chacha_block key nonce 0)"
  have k: "32 \<le> length ?key" by simp
  have "poly_seen ?key (rfc_mac_data ad (c @ extra)) (tag_state key nonce ad c extra)"
    using seen_poly1305_updates [OF poly_seen_init [OF k],
        of "[ad, pad16 (length ad), c, extra, pad16 (length c + length extra), rev (be_bytes 8 (length ad)), rev (be_bytes 8 (length c + length extra))]"]
    unfolding tag_state_def rfc_mac_data_def by (simp only: concat.simps append_Nil append_Nil2 append_assoc length_append)
  from poly1305_finish [OF this k] show ?thesis unfolding calc_tag by (simp add: rfc_poly1305_def)
qed

lemma length_be_bytes_16 [simp]: "length (calc_tag key nonce ad c extra) = 16"
  by (simp add: calc_tag_eq rfc_poly1305_def)

section \<open>The extra input\<close>



section \<open>Both ciphers through the interface\<close>

text \<open>The AEAD, the length of its nonces, and the key and nonce that ChaCha20-Poly1305 is run with.\<close>

definition aead_of :: "bool \<Rightarrow> EVP_AEAD" where
  "aead_of x = (if x then EVP_aead_xchacha20_poly1305 else EVP_aead_chacha20_poly1305)"

definition nonce_size :: "bool \<Rightarrow> nat" where
  "nonce_size x = (if x then 24 else 12)"

definition used_key :: "bool \<Rightarrow> byte list \<Rightarrow> byte list \<Rightarrow> byte list" where
  "used_key x key nonce = (if x then rfc_hchacha key nonce else key)"

definition used_nonce :: "bool \<Rightarrow> byte list \<Rightarrow> byte list" where
  "used_nonce x nonce = (if x then replicate 4 0 @ take 8 (drop 16 nonce) else nonce)"

lemma length_used_nonce: "length nonce = nonce_size x \<Longrightarrow> length (used_nonce x nonce) = 12"
  by (simp add: used_nonce_def nonce_size_def split: if_splits)

lemma memcmp_loop_0_iff:
  "n \<le> length a \<Longrightarrow> n \<le> length b \<Longrightarrow> memcmp_loop x a b n = 0 \<longleftrightarrow> x = 0 \<and> take n a = take n b"
proof (induction n arbitrary: x a b)
  case (Suc n)
  obtain c a' d b' where e: "a = c # a'" "b = d # b'" using Suc.prems by (cases a; cases b) auto
  have word_xor_eq_0: "a XOR b = 0 \<longleftrightarrow> a = b" for a b :: byte
    by (metis xor.right_neutral xor.left_commute xor_self_eq)
  have "x OR (c XOR d) = 0 \<longleftrightarrow> x = 0 \<and> c = d" by (metis or_eq_0_iff xor_self_eq word_xor_eq_0)
  then show ?case using Suc.IH [of a' b'] Suc.prems e by auto
qed simp

lemma memcmp_tag: "length tag = n \<Longrightarrow> n \<le> 16 \<Longrightarrow> CRYPTO_memcmp (calc_tag key nonce ad c extra) tag n \<noteq> 0 \<longleftrightarrow>
    tag \<noteq> take n (calc_tag key nonce ad c extra)"
  using memcmp_loop_0_iff [of n "calc_tag key nonce ad c extra" tag 0] by (auto simp: CRYPTO_memcmp_def)

lemma aead_init:
  assumes "EVP_AEAD_CTX_init ctx0 (aead_of x) key tag_len = (None, ctx)"
  shows "ctx_aead ctx = Some (aead_of x)" and "c20_key (ctx_state ctx) = key" and "length key = 32"
    and "0 < ctx_tag_len (ctx_state ctx)" and "ctx_tag_len (ctx_state ctx) \<le> 16"
proof -
  have i: "aead_init (aead_of x) = Some aead_chacha20_poly1305_init" "aead_key_len (aead_of x) = 32"
    by (simp_all add: aead_of_def EVP_aead_chacha20_poly1305_def EVP_aead_xchacha20_poly1305_def)
  show "ctx_aead ctx = Some (aead_of x)" "c20_key (ctx_state ctx) = key" "length key = 32"
    "0 < ctx_tag_len (ctx_state ctx)" "ctx_tag_len (ctx_state ctx) \<le> 16"
    using assms
    by (auto simp: EVP_AEAD_CTX_init_def EVP_AEAD_CTX_init_with_direction_def i aead_chacha20_poly1305_init_def Let_def
        POLY1305_TAG_LEN_def split: if_splits)
qed

lemma open_gather:
  "\<exists>gather. aead_open_gather (aead_of x) = Some gather \<and>
    gather st out nonce inp tag ad =
      (if length nonce \<noteq> nonce_size x then (Some CIPHER_R_UNSUPPORTED_NONCE_SIZE, out)
       else chacha20_poly1305_open_gather (used_key x (c20_key st) nonce) out (used_nonce x nonce) inp tag ad (ctx_tag_len st))"
  by (simp add: aead_of_def EVP_aead_chacha20_poly1305_def EVP_aead_xchacha20_poly1305_def nonce_size_def used_key_def
      used_nonce_def aead_chacha20_poly1305_open_gather_def aead_xchacha20_poly1305_open_gather_def
      chacha20_poly1305_open_gather_def hchacha20 Let_def)

lemmas aead_defs = aead_of_def EVP_aead_chacha20_poly1305_def EVP_aead_xchacha20_poly1305_def nonce_size_def used_key_def
  used_nonce_def hchacha20 Let_def

lemma seal_scatter:
  "length nonce = nonce_size x \<Longrightarrow> aead_seal_scatter (aead_of x) st max_out nonce inp extra ad =
    chacha20_poly1305_seal_scatter (used_key x (c20_key st) nonce) max_out (used_nonce x nonce) inp extra ad (ctx_tag_len st)"
  "length nonce \<noteq> nonce_size x \<Longrightarrow> \<exists>e. aead_seal_scatter (aead_of x) st max_out nonce inp extra ad = Inl e"
  by (cases x; simp add: aead_defs aead_chacha20_poly1305_seal_scatter_def aead_xchacha20_poly1305_seal_scatter_def
      chacha20_poly1305_seal_scatter_def)+

lemma aead_methods: "aead_open (aead_of x) = None" "aead_overhead (aead_of x) = 16"
  by (simp_all add: aead_of_def EVP_aead_chacha20_poly1305_def EVP_aead_xchacha20_poly1305_def POLY1305_TAG_LEN_def)

text \<open>Shorter buffers at the same addresses alias less, unless they wrap around the address space.\<close>

lemma check_alias_shorter:
  assumes "check_alias a m b n" and "unat a + m < 2 ^ 64" and "unat b + n < 2 ^ 64" and "m' \<le> m" and "n' \<le> n"
  shows "check_alias a m' b n'"
proof -
  have u: "unat (p + of_nat k :: u64) = unat p + k" if "unat p + k < 2 ^ 64" for p k
    using that by (simp add: unat_word_ariths unat_of_nat)
  show ?thesis
    using assms by (auto simp: check_alias_def buffers_alias_def word_less_nat_alt u split: if_splits)
qed

section \<open>Opening and sealing\<close>

lemma aead_open_cases:
  fixes key nonce :: "byte list"
  assumes "EVP_AEAD_CTX_init ctx0 (aead_of x) key tag_len = (None, ctx)"
    and "unat in_ptr + length inp < 2 ^ 64" and "unat out_ptr + length out < 2 ^ 64"
  defines "tlen \<equiv> ctx_tag_len (ctx_state ctx)" and "k \<equiv> used_key x key nonce" and "n \<equiv> used_nonce x nonce"
  shows "\<exists>r. EVP_AEAD_CTX_open ctx out_ptr out nonce in_ptr inp ad = Some r \<and>
    (if check_alias in_ptr (length inp) out_ptr (length out) \<and> length nonce = nonce_size x \<and>
        tlen \<le> length inp \<and> length inp - tlen \<le> length out \<and> length inp - tlen < 2 ^ 32 * 64 - 64 \<and>
        drop (length inp - tlen) inp = take tlen (calc_tag k n ad (take (length inp - tlen) inp) [])
     then r = (None, length inp - tlen, CRYPTO_chacha_20 (take (length inp - tlen) inp) k n 1 @ drop (length inp - tlen) out)
     else \<exists>e. r = (Some e, 0, replicate (length out) 0))"
proof (cases "check_alias in_ptr (length inp) out_ptr (length out) \<and> tlen \<le> length inp \<and> length inp - tlen \<le> length out")
  case False
  then show ?thesis
    using aead_init(1) [OF assms(1)] unfolding tlen_def
    by (auto simp: EVP_AEAD_CTX_open_def aead_methods aead_error_def Let_def not_less)
next
  case True
  define pl where "pl = length inp - tlen"
  note ctx = aead_init [OF assms(1)]
  have al: "check_alias in_ptr pl out_ptr pl"
    by (rule check_alias_shorter [where m = "length inp" and n = "length out"]) (use True assms(2,3) in \<open>simp_all add: pl_def\<close>)
  obtain gather where g: "aead_open_gather (aead_of x) = Some gather"
    "gather (ctx_state ctx) (take pl out) nonce (take pl inp) (drop pl inp) ad =
      (if length nonce \<noteq> nonce_size x then (Some CIPHER_R_UNSUPPORTED_NONCE_SIZE, take pl out)
       else chacha20_poly1305_open_gather k (take pl out) n (take pl inp) (drop pl inp) ad tlen)"
    using open_gather [of x "ctx_state ctx" "take pl out" nonce "take pl inp" "drop pl inp" ad] ctx(2) by (auto simp: k_def n_def tlen_def)
  have len: "length (take pl inp) = pl" "length (drop pl inp) = tlen" "tlen \<le> 16" "pl \<le> length out"
    using True ctx(5) by (auto simp: pl_def tlen_def)
  note tag = memcmp_tag [OF len(2,3), of k n ad "take pl inp" "[]"]
  let ?ok = "length nonce = nonce_size x \<and> pl < 2 ^ 32 * 64 - 64 \<and> drop pl inp = take tlen (calc_tag k n ad (take pl inp) [])"
  have res: "\<exists>e p. gather (ctx_state ctx) (take pl out) nonce (take pl inp) (drop pl inp) ad = (e, p) \<and>
    (if ?ok then e = None \<and> p = CRYPTO_chacha_20 (take pl inp) k n 1 else e \<noteq> None)"
    using len(1,2) length_used_nonce [of nonce x] tag unfolding g(2) chacha20_poly1305_open_gather_def Let_def n_def [symmetric]
    by auto
  then obtain e p where r: "gather (ctx_state ctx) (take pl out) nonce (take pl inp) (drop pl inp) ad = (e, p)"
    "if ?ok then e = None \<and> p = CRYPTO_chacha_20 (take pl inp) k n 1 else e \<noteq> None" by blast
  have opened: "EVP_AEAD_CTX_open ctx out_ptr out nonce in_ptr inp ad =
    Some (case e of None \<Rightarrow> (None, pl, memcpy_at out 0 p) | Some e \<Rightarrow> aead_error e out)"
    using True al g(1) r(1) ctx(1) len(1)
    by (simp add: EVP_AEAD_CTX_open_def EVP_AEAD_CTX_open_gather_def aead_methods Let_def tlen_def [symmetric] pl_def [symmetric]
        not_less split: option.splits)
  show ?thesis
    using r(2) True len unfolding opened pl_def [symmetric]
    by (cases e) (auto simp: aead_error_def memcpy_at_def split: if_splits)
qed

lemma aead_seal_cases:
  fixes key nonce :: "byte list"
  assumes "EVP_AEAD_CTX_init ctx0 (aead_of x) key tag_len = (None, ctx)"
  defines "tlen \<equiv> ctx_tag_len (ctx_state ctx)" and "k \<equiv> used_key x key nonce" and "n \<equiv> used_nonce x nonce"
  assumes "length nonce = nonce_size x" and "length inp < 2 ^ 32 * 64 - 64" and "length inp + tlen \<le> length out"
    and "check_alias in_ptr (length inp) out_ptr (length out)"
  shows "EVP_AEAD_CTX_seal ctx out_ptr out nonce in_ptr inp ad =
    Some (None, length inp + tlen, CRYPTO_chacha_20 inp k n 1 @ take tlen (calc_tag k n ad (CRYPTO_chacha_20 inp k n 1) []) @
      drop (length inp + tlen) out)"
proof -
  let ?c = "CRYPTO_chacha_20 inp k n 1" and ?tag = "take tlen (calc_tag k n ad (CRYPTO_chacha_20 inp k n 1) [])"
  note ctx = aead_init [OF assms(1)]
  have t: "0 < tlen" "tlen \<le> 16" using ctx(4,5) by (simp_all add: tlen_def)
  have "length n = 12" using length_used_nonce [OF assms(5)] by (simp add: n_def)
  then have "chacha20_poly1305_seal_scatter k (length out - length inp) n inp [] ad tlen = Inr (?c, ?tag)"
    using assms(6,7) t by (simp add: chacha20_poly1305_seal_scatter_def Let_def)
  then have "aead_seal_scatter (aead_of x) (ctx_state ctx) (length out - length inp) nonce inp [] ad = Inr (?c, ?tag)"
    using seal_scatter(1) [OF assms(5)] ctx(2) by (simp add: k_def n_def tlen_def)
  moreover have "length ?tag = tlen" using t by simp
  ultimately show ?thesis
    using ctx(1) assms(6-8) t by (simp add: EVP_AEAD_CTX_seal_def aead_methods memcpy_at_def add.commute [of tlen])
qed

section \<open>Properties\<close>



text \<open>
  C18. Opening through the interface succeeds for exactly the inputs whose tag is the one computed for
  their ciphertext and additional data (with the nonce, the lengths and the buffers in order), and then
  writes the decrypted text and nothing else; otherwise it fails, reports the length zero and leaves only
  zeros in the output, for both ciphers.
\<close>

theorem aead_open_exact:
  fixes key nonce :: "byte list"
  assumes "EVP_AEAD_CTX_init ctx0 (aead_of x) key tag_len = (None, ctx)"
    and "unat in_ptr + length inp < 2 ^ 64" and "unat out_ptr + length out < 2 ^ 64"
  defines "tlen \<equiv> ctx_tag_len (ctx_state ctx)" and "k \<equiv> used_key x key nonce" and "n \<equiv> used_nonce x nonce"
  shows "\<exists>r. EVP_AEAD_CTX_open ctx out_ptr out nonce in_ptr inp ad = Some r \<and>
    (if check_alias in_ptr (length inp) out_ptr (length out) \<and> length nonce = nonce_size x \<and>
        tlen \<le> length inp \<and> length inp - tlen \<le> length out \<and> length inp - tlen < 2 ^ 32 * 64 - 64 \<and>
        drop (length inp - tlen) inp = take tlen (calc_tag k n ad (take (length inp - tlen) inp) [])
     then r = (None, length inp - tlen, CRYPTO_chacha_20 (take (length inp - tlen) inp) k n 1 @ drop (length inp - tlen) out)
     else \<exists>e. r = (Some e, 0, replicate (length out) 0))"
  using aead_open_cases [OF assms(1-3), of nonce ad] unfolding tlen_def k_def n_def .

text \<open>A context, for the witnesses.\<close>

definition aead_ctx_ex :: "bool \<Rightarrow> EVP_AEAD_CTX" where
  "aead_ctx_ex x = \<lparr>ctx_aead = Some (aead_of x), ctx_state = \<lparr>c20_key = replicate 32 7, ctx_tag_len = 16\<rparr>\<rparr>"

lemma aead_ctx_ex: "EVP_AEAD_CTX_init EVP_AEAD_CTX_zero (aead_of x) (replicate 32 7) 0 = (None, aead_ctx_ex x)"
  by (simp add: EVP_AEAD_CTX_init_def EVP_AEAD_CTX_init_with_direction_def aead_of_def EVP_aead_chacha20_poly1305_def
      EVP_aead_xchacha20_poly1305_def aead_chacha20_poly1305_init_def EVP_AEAD_CTX_zero_def aead_ctx_ex_def POLY1305_TAG_LEN_def)

lemma aead_open_exact_witness:
  "\<exists>e. EVP_AEAD_CTX_open (aead_ctx_ex False) 100 (replicate 2 1) (replicate 12 0) 200 (replicate 3 4) [] =
    Some (Some e, 0, replicate 2 0)"
proof -
  have "ctx_tag_len (ctx_state (aead_ctx_ex False)) = 16" by (simp add: aead_ctx_ex_def)
  then show ?thesis
    using aead_open_exact [OF aead_ctx_ex [of False], of 200 "replicate 3 4" 100 "replicate 2 1" "replicate 12 0" "[]"] by auto
qed

text \<open>
  C19. What \<open>EVP_AEAD_CTX_seal\<close> writes, \<open>EVP_AEAD_CTX_open\<close> turns back: for both ciphers and every
  length of tag, sealing a text that is not too long into a buffer with room for it and its tag
  succeeds, in place or not, and opening the result with the same nonce and additional data gives
  the text, in front of what the output buffer held behind it.
\<close>

theorem aead_roundtrip:
  fixes key nonce :: "byte list"
  assumes "EVP_AEAD_CTX_init ctx0 (aead_of x) key tag_len = (None, ctx)"
  defines "tlen \<equiv> ctx_tag_len (ctx_state ctx)"
  assumes "length nonce = nonce_size x" and "length inp < 2 ^ 32 * 64 - 64" and "length inp + tlen \<le> length out"
    and "check_alias in_ptr (length inp) out_ptr (length out)"
    and "length inp \<le> length out2" and "check_alias in2_ptr (length inp + tlen) out2_ptr (length out2)"
    and "unat in2_ptr + length inp + tlen < 2 ^ 64" and "unat out2_ptr + length out2 < 2 ^ 64"
  shows "\<exists>sealed. EVP_AEAD_CTX_seal ctx out_ptr out nonce in_ptr inp ad = Some (None, length inp + tlen, sealed) \<and>
    length sealed = length out \<and>
    EVP_AEAD_CTX_open ctx out2_ptr out2 nonce in2_ptr (take (length inp + tlen) sealed) ad =
      Some (None, length inp, inp @ drop (length inp) out2)"
proof -
  define k n c tag where "k = used_key x key nonce" and "n = used_nonce x nonce" and "c = CRYPTO_chacha_20 inp k n 1"
    and "tag = take tlen (calc_tag k n ad c [])"
  define sealed where "sealed = c @ tag @ drop (length inp + tlen) out"
  have seal: "EVP_AEAD_CTX_seal ctx out_ptr out nonce in_ptr inp ad = Some (None, length inp + tlen, sealed)"
    using aead_seal_cases [OF assms(1) assms(3,4) assms(5,6) [unfolded tlen_def]]
    by (simp add: sealed_def k_def n_def c_def tag_def tlen_def)
  have len: "length c = length inp" "length tag = tlen" using aead_init(5) [OF assms(1)] by (simp_all add: c_def tag_def tlen_def)
  then have box: "take (length inp + tlen) sealed = c @ tag" "length sealed = length out"
    using assms(5) by (simp_all add: sealed_def)
  have "EVP_AEAD_CTX_open ctx out2_ptr out2 nonce in2_ptr (c @ tag) ad =
    Some (None, length inp, CRYPTO_chacha_20 c k n 1 @ drop (length inp) out2)"
    using aead_open_cases [OF assms(1), of in2_ptr "c @ tag" out2_ptr out2 nonce ad] assms(3,4,7-10) len
    by (simp add: tlen_def [symmetric] k_def [symmetric] n_def [symmetric] tag_def [symmetric] add.assoc)
  moreover have "CRYPTO_chacha_20 c k n 1 = inp" by (simp add: c_def)
  ultimately show ?thesis using seal box by simp
qed

lemma aead_roundtrip_witness:
  "\<exists>sealed. EVP_AEAD_CTX_seal (aead_ctx_ex True) 100 (replicate 20 0) (replicate 24 0) 100 (replicate 3 1) [9] = Some (None, 19, sealed) \<and>
    EVP_AEAD_CTX_open (aead_ctx_ex True) 300 (replicate 4 8) (replicate 24 0) 200 (take 19 sealed) [9] =
      Some (None, 3, replicate 3 1 @ [8])"
proof -
  have "ctx_tag_len (ctx_state (aead_ctx_ex True)) = 16" by (simp add: aead_ctx_ex_def)
  then show ?thesis
    using aead_roundtrip [OF aead_ctx_ex [of True], of "replicate 24 0" "replicate 3 1" "replicate 20 0" 100 100 "replicate 4 8" 200 300 "[9]"]
    by (auto simp: nonce_size_def check_alias_def buffers_alias_def)
qed

end
