(* ===== verification/Spec2Isabelle.thy ===== *)
theory Spec2Isabelle
  imports Pb_Props Unicode Oid Asn1_Time Set_Of Ber_Props Sk_Props Lhash_Props Base64_Props
    Bn_Convert_Props Sha_Prf Tls_Cbc_Props Tls_Mac_Props Cfb_Props Cbc_Props Poly1305_Tag Aead_Props
begin

text \<open>
  A verification library for the C code that the smart-home application ships.

  The application itself (lib/) is a Flutter user interface written in Dart. Its C code comes
  with the iOS build: nanopb, which Firebase uses for its protocol buffers, and BoringSSL,
  which gRPC uses for TLS and certificates (both under ios/Pods/). This library models the
  parts of the two on which the safety of everything above rests: they parse and build byte
  strings that come from the network, keep the containers and do the arithmetic.

  \<^bold>\<open>Conventions.\<close> Machine integers are words of their C width; \<open>size_t\<close> values that only count
  bytes are natural numbers, with the wrap-around of their sums written out (\<open>size_add\<close>). A
  buffer is the list of its bytes. A C function that returns zero or null on failure returns
  an option, paired with the state it leaves, also on failure; \<open>and_then\<close> is the early return.
  The C library's \<open>malloc\<close> is a parameter: a function from sizes to blocks, which may fail
  (\<open>malloc_sized\<close> is its only law). Callbacks (stream callbacks, comparison, hash, copy and
  free functions) are parameters too. \<open>Prelude\<close> has the shared word lemmas and \<open>and_then\<close>.

  \<^bold>\<open>nanopb\<close> (ios/Pods/nanopb/pb_decode.c, pb_encode.c):
  \<^item> \<open>Pb_Stream\<close>: \<open>pb_istream_t\<close> and \<open>pb_ostream_t\<close> with memory, user and sizing callbacks;
  \<^item> \<open>Pb_Wire\<close>: varints and tags; \<open>Pb_Codec\<close>: fixed-width and zig-zag integers, strings,
    substreams, field skipping;
  \<^item> \<open>Pb_Props\<close>: memory safety of decoders and of \<open>pb_write\<close>, round trips of every wire type,
    exact consumption, agreement of the two varint decoders, and an overlong varint that the
    32-bit decoder accepts because its 8-bit position counter wraps.

  \<^bold>\<open>BoringSSL byte strings\<close> (crypto/bytestring/, crypto/mem.c):
  \<^item> \<open>Mem\<close>: allocation, C strings, characters; \<open>Cbs\<close> and \<open>Cbs_Asn1\<close>: the reader (cbs.c);
    \<open>Der\<close>: reference encodings of tags, lengths and integers; \<open>Cbs_Props\<close>: the readers accept
    exactly the canonical encodings;
  \<^item> \<open>Cbb\<close>: the builder (cbb.c), a buffer with a chain of pending children; \<open>Cbb_Emit\<close>: what it
    writes (ready references, emitted strings); \<open>Cbb_Props\<close>: the locale \<open>cbb_codec\<close> of writers
    paired with readers, its interpretations and the round trips, sticky errors and bounds;
  \<^item> \<open>Unicode\<close> (unicode.c), \<open>Oid\<close> (object identifiers as text), \<open>Asn1_Time\<close> (UTCTime and
    GeneralizedTime), \<open>Set_Of\<close> (SET OF ordering) and \<open>Ber\<close>, \<open>Ber_Props\<close> (ber.c) use reader and
    builder together. \<open>Ber_Props\<close> states the grammar of BER as a datatype and the normal form
    that the recursive converter computes, up to its depth limit of 128;
  \<^item> \<open>Posix_Time\<close> (crypto/asn1/posix_time.c): calendar arithmetic and its inverse.

  \<^bold>\<open>BoringSSL containers\<close>:
  \<^item> \<open>Compare\<close>: the contracts \<open>cmp_order\<close> and \<open>cmp_linear\<close> of comparison functions, and \<open>qsort\<close>;
  \<^item> \<open>Sk_Stack\<close> (crypto/stack/stack.c), \<open>Sk_Sort\<close> (its heap sort) and \<open>Sk_Props\<close>: refinement to
    lists through the locale \<open>sequence\<close>, the invariant of all reachable stacks, sorting and
    searching;
  \<^item> \<open>Lhash\<close> (crypto/lhash/lhash.c) and \<open>Lhash_Props\<close>: refinement to maps through \<open>keyed_map\<close>,
    with the laws of hash and comparison functions in \<open>hash_contract\<close>, resizing included.

  \<^bold>\<open>BoringSSL primitives\<close>: \<open>Const_Time\<close> (crypto/internal.h), \<open>Base64\<close> and \<open>Base64_Props\<close>
  (crypto/base64/base64.c, one-shot and streaming).

  \<^bold>\<open>BoringSSL big numbers\<close> (crypto/fipsmodule/bn/, crypto/bn_extra/). A \<open>BIGNUM\<close> is a record of its
  array of 64-bit words (\<open>bn_d\<close>, as long as \<open>dmax\<close>), its width and its sign; \<open>bn_wf\<close> is the
  invariant of the C library and \<open>bn_int\<close> the integer meant. Functions that write to \<open>r\<close> take the
  old \<open>r\<close> and return the new one, so that its capacity and its error paths are visible; a
  call in which \<open>r\<close> is also an operand passes that operand twice.
  \<^item> \<open>Bn\<close> (bn.c, cmp.c, add.c, the word loops of generic.c), \<open>Bn_Val\<close> (the value of a list of words
    and its laws), \<open>Bn_Props\<close>: sums, differences, comparison refine the integers;
  \<^item> \<open>Bn_Shift\<close>, \<open>Bn_Shift_Props\<close> (shift.c): shifts and bits; the constant-time shift;
  \<^item> \<open>Bn_Bytes\<close>, \<open>Bn_Bytes_Props\<close> (bytes.c): big- and little-endian bytes;
  \<^item> \<open>Bn_Word\<close>, \<open>Bn_Word_Props\<close>: multiplication and division by one word;
  \<^item> \<open>Bn_Convert\<close>, \<open>Bn_Convert_Props\<close> (convert.c, bn_asn1.c): decimal and hexadecimal text and DER,
    on top of the byte-string builder and reader.

  \<^bold>\<open>BoringSSL digests and TLS records\<close> (crypto/fipsmodule/digest, crypto/fipsmodule/sha, crypto/cipher_extra/tls_cbc.c).
  Lengths are natural numbers, the bit counters of a context are its two 32-bit words; the block
  functions are the portable ones.
  \<^item> \<open>Bytes\<close>: words in memory, byte order and copies; \<open>Md32\<close> (md32_common.h): the collector of blocks
    that several digests share. Its contract with a block function is the locale \<open>md_block\<close>, whose
    lemmas say that updating and finishing compute the iterated compression of the padded message;
  \<^item> \<open>Sha256\<close> (sha256.c) and \<open>Sha1\<close> (sha1.c): the unrolled rounds over rotating registers and a ring
    of sixteen words, the standard's rounds over a message schedule, their equality, and with it
    the interpretations of \<open>md_block\<close>; \<open>Sha_Props\<close>: the digests of messages cut in any way;
    \<open>Sha_Prf\<close>: the generator of FIPS 186-2 as arithmetic on its 160-bit key;
  \<^item> \<open>Tls_Cbc\<close> (tls_cbc.c): the constant-time functions on CBC records. \<open>Tls_Cbc_Props\<close>: the padding
    check and the copied MAC; \<open>Tls_Mac_Props\<close>: a suffix of secret length is hashed like any other
    data, and the record digest is HMAC. The two functions with a secret suffix are one text for
    two block functions, so they share one definition.

  \<^bold>\<open>BoringSSL modes of operation\<close> (crypto/fipsmodule/modes/). The block cipher under its key is a
  parameter, a function from blocks to blocks of 16 bytes.
  \<^item> \<open>Modes\<close> (ctr.c, ofb.c, cfb.c): the state of a mode (vector or counter, key stream, position) and
    its loops. \<open>Modes_Props\<close>: the locale \<open>buffered_mode\<close> is the shape of these loops, interpreted for
    the three modes, and reduces them to one step per byte; the 32-bit counter functions.
    \<open>Cfb_Props\<close>: feedback by bytes and bits, and the round trips;
  \<^item> \<open>Cbc\<close> (cbc.c) on a memory with addresses, because input and output may overlap; \<open>Cbc_Props\<close>: for
    every arrangement that the code's assertion allows it computes the mode and keeps the rest.

  \<^bold>\<open>BoringSSL Poly1305\<close> (crypto/poly1305/poly1305.c, the version in 32-bit words that 64-bit ARM uses).
  \<^item> \<open>Poly1305\<close>: five limbs of 26 bits, the loop over blocks, the buffer, and the authenticator of
    RFC 8439 on natural numbers; \<open>Poly1305_Limbs\<close>: sums and products of limbs and the bounds that keep
    them from overflowing; \<open>Poly1305_Props\<close>: a block is a step of the standard, clamping, streaming,
    the last carries and the conditional subtraction; \<open>Poly1305_Tag\<close>: the tag. The last carry into
    the first limb is not passed on, so for the accumulators of \<open>poly_lost_carry\<close> the tag is not the
    standard's, and a concrete key and block show it.

  \<^bold>\<open>BoringSSL ChaCha20-Poly1305\<close> (crypto/chacha/chacha.c, crypto/cipher_extra/e_chacha20poly1305.c and
  crypto/fipsmodule/cipher/aead.c, without assembly). Buffers are values, with their addresses where the
  code compares them.
  \<^item> \<open>Chacha\<close>: rounds on an array of words, and the rows, columns and diagonals of RFC 8439;
    \<open>Chacha_Props\<close>: the two agree, and the loop is an XOR with the blocks of consecutive counters;
  \<^item> \<open>Aead\<close>: sealing and opening with ChaCha20-Poly1305 and XChaCha20-Poly1305 and their method tables;
    \<open>Aead_Ctx\<close>: contexts and the generic interface, which clears its output on failure.
    \<open>Aead_Props\<close>: the construction of the standard on top of \<open>Poly1305_Tag\<close>, exact acceptance, and
    the round trip.

  \<^bold>\<open>Termination and fuel.\<close> No definition uses fuel. Loops over input are recursive functions
  with a measure on the bytes left; the BER converter, which continues on what its inner call
  leaves, is a nested recursion whose domain lemma (\<open>convert_ber_shorter\<close>) precedes its
  termination proof, by depth and then by length. The digit loop of \<open>BN_bn2dec\<close> ends only because
  a division shrinks the number, so it is a partial function into options (\<open>bn2dec_loop\<close>), and
  that it returns is part of its property.

  \<^bold>\<open>Not modelled.\<close> The Dart application and the platform runners (user interface). The nanopb
  message layer (\<open>pb_decode\<close>, \<open>pb_encode\<close>): it is driven by generated descriptor tables and
  writes through byte offsets into C structs. BoringSSL's X.509 and EVP object graphs and its
  SSL library (reference counts, method tables, C++), ciphers in assembly, I/O, locks and
  processor probing. gRPC, abseil, LevelDB and Firestore (C++ and Objective-C), generated upb
  accessors and data tables. Within the parts modelled: the printf family and test hooks of
  mem.c, \<open>OPENSSL_lh_free\<close>, and callbacks that change a hash table while it is iterated.
\<close>

end
